(* ===== verification/Prelude.thy ===== *)
theory Prelude
  imports Main "HOL-Library.Multiset" "HOL-Library.Monad_Syntax"
begin

text \<open>
  Shared vocabulary of the development. A C computation that may have undefined behaviour is
  a value of type \<open>'a option\<close>: \<open>None\<close> is an access outside an object, a read through a null or
  dangling pointer, a division by zero or a signed overflow; \<open>Some\<close> carries the result and the new
  state. Return codes of the program (0, -1, ...) are ordinary values inside \<open>Some\<close>.
  Here are checked array reads and writes (\<open>rd\<close>, \<open>wr\<close>), the reference description of "sorting a
  segment of an array in place", and lemmas about both that every component uses.
\<close>

named_theorems arr \<open>checked array accesses that are in range\<close>

section \<open>Checked arrays\<close>

definition rd :: "'a list \<Rightarrow> nat \<Rightarrow> 'a option" where
  "rd a i = (if i < length a then Some (a ! i) else None)"

definition wr :: "'a list \<Rightarrow> nat \<Rightarrow> 'a \<Rightarrow> 'a list option" where
  "wr a i v = (if i < length a then Some (a[i := v]) else None)"

lemma rd_Some [simp, arr]: "i < length a \<Longrightarrow> rd a i = Some (a ! i)"
  by (simp add: rd_def)

lemma rd_None [simp]: "\<not> i < length a \<Longrightarrow> rd a i = None"
  by (simp add: rd_def)

lemma wr_Some [simp, arr]: "i < length a \<Longrightarrow> wr a i v = Some (a[i := v])"
  by (simp add: wr_def)

lemma wr_None [simp]: "\<not> i < length a \<Longrightarrow> wr a i v = None"
  by (simp add: wr_def)

lemma rd_eq_Some_iff: "rd a i = Some x \<longleftrightarrow> i < length a \<and> x = a ! i"
  by (auto simp: rd_def)

lemma nth_update_cases:
  "a[i := v] ! j = w \<Longrightarrow> j < length a \<Longrightarrow> j = i \<and> w = v \<or> j \<noteq> i \<and> a ! j = w"
  by (cases "j = i") auto

lemma wr_eq_Some_iff: "wr a i v = Some b \<longleftrightarrow> i < length a \<and> b = a[i := v]"
  by (auto simp: wr_def)

text \<open>The same at an index of C type \<open>int\<close>, which may be negative.\<close>

definition rdi :: "'a list \<Rightarrow> int \<Rightarrow> 'a option" where
  "rdi a i = (if 0 \<le> i then rd a (nat i) else None)"

definition wri :: "'a list \<Rightarrow> int \<Rightarrow> 'a \<Rightarrow> 'a list option" where
  "wri a i v = (if 0 \<le> i then wr a (nat i) v else None)"

lemma rdi_int [simp]: "rdi a (int i) = rd a i"
  by (simp add: rdi_def)

lemma wri_int [simp]: "wri a (int i) v = wr a i v"
  by (simp add: wri_def)

section \<open>C integers\<close>

text \<open>A signed result outside the range of a 32-bit \<open>int\<close> is undefined behaviour.\<close>

definition int_range :: "int \<Rightarrow> bool" where
  "int_range x \<longleftrightarrow> - 2147483648 \<le> x \<and> x \<le> 2147483647"

definition chk :: "int \<Rightarrow> int option" where
  "chk x = (if int_range x then Some x else None)"

lemma chk_Some_iff: "chk x = Some y \<longleftrightarrow> int_range x \<and> y = x"
  by (auto simp: chk_def)

text \<open>Division of C \<open>int\<close>s truncates towards zero; by zero it is undefined.\<close>

definition cdiv :: "int \<Rightarrow> int \<Rightarrow> int option" where
  "cdiv x y = (if y = 0 then None else chk (sgn x * sgn y * (\<bar>x\<bar> div \<bar>y\<bar>)))"

section \<open>Swaps and permutations\<close>

text \<open>The effect of exchanging two cells; the components' own \<open>swap\<close> functions refine it.\<close>

abbreviation exch :: "'a list \<Rightarrow> nat \<Rightarrow> nat \<Rightarrow> 'a list" where
  "exch a i j \<equiv> a[i := a ! j, j := a ! i]"

lemma mset_exch [simp]:
  "i < length a \<Longrightarrow> j < length a \<Longrightarrow> mset (exch a i j) = mset a"
  by (rule mset_swap)

lemma nth_exch:
  "i < length a \<Longrightarrow> j < length a \<Longrightarrow>
   exch a i j ! k = (if k = i then a ! j else if k = j then a ! i else a ! k)"
  by (auto simp: nth_list_update)

lemma mset_update_move:
  assumes "i < length a" "j < length a"
  shows "mset (a[i := a ! j]) = mset a - {#a ! i#} + {#a ! j#}"
  using assms by (simp add: mset_update)

text \<open>
  Moving the hole: an insertion step copies cell \<open>i\<close> over cell \<open>j\<close> and later stores the saved
  value \<open>v\<close> in \<open>i\<close>.  Storing \<open>v\<close> after the copy is storing \<open>v\<close> in \<open>j\<close> and exchanging.
\<close>

lemma hole_step:
  assumes "i < length a" "j < length a" "i \<noteq> j"
  shows "(a[j := a ! i])[i := v] = exch (a[j := v]) i j"
  using assms by (simp add: list_update_swap)

lemma mset_hole_step:
  assumes "i < length a" "j < length a" "i \<noteq> j"
  shows "mset ((a[j := a ! i])[i := v]) = mset (a[j := v])"
  by (subst hole_step [OF assms]) (rule mset_exch; simp add: assms)

section \<open>Sorting a segment in place\<close>

definition sorted_seg :: "nat \<Rightarrow> nat \<Rightarrow> 'a::linorder list \<Rightarrow> 'a list" where
  "sorted_seg lo n a = take lo a @ sort (take n (drop lo a)) @ drop (lo + n) a"

definition same_outside :: "nat \<Rightarrow> nat \<Rightarrow> 'a list \<Rightarrow> 'a list \<Rightarrow> bool" where
  "same_outside lo hi a b \<longleftrightarrow>
     length b = length a \<and> (\<forall>k < length a. k < lo \<or> hi \<le> k \<longrightarrow> b ! k = a ! k)"

definition sorted_on :: "nat \<Rightarrow> nat \<Rightarrow> 'a::linorder list \<Rightarrow> bool" where
  "sorted_on lo hi a \<longleftrightarrow> (\<forall>i j. lo \<le> i \<longrightarrow> i \<le> j \<longrightarrow> j < hi \<longrightarrow> a ! i \<le> a ! j)"

lemma sorted_onD: "sorted_on lo hi a \<Longrightarrow> lo \<le> i \<Longrightarrow> i \<le> j \<Longrightarrow> j < hi \<Longrightarrow> a ! i \<le> a ! j"
  by (simp add: sorted_on_def)

lemma sorted_onI:
  "(\<And>i j. lo \<le> i \<Longrightarrow> i \<le> j \<Longrightarrow> j < hi \<Longrightarrow> a ! i \<le> a ! j) \<Longrightarrow> sorted_on lo hi a"
  by (simp add: sorted_on_def)

lemma same_outside_refl [simp]: "same_outside lo hi a a"
  by (simp add: same_outside_def)

lemma same_outside_trans:
  "same_outside lo hi a b \<Longrightarrow> same_outside lo hi b c \<Longrightarrow> same_outside lo hi a c"
  by (simp add: same_outside_def)

lemma same_outside_mono:
  "same_outside lo hi a b \<Longrightarrow> lo' \<le> lo \<Longrightarrow> hi \<le> hi' \<Longrightarrow> same_outside lo' hi' a b"
  by (simp add: same_outside_def)

lemma same_outside_update:
  "lo \<le> i \<Longrightarrow> i < hi \<Longrightarrow> same_outside lo hi a (a[i := v])"
  by (simp add: same_outside_def nth_list_update)

lemma same_outside_length: "same_outside lo hi a b \<Longrightarrow> length b = length a"
  by (simp add: same_outside_def)

lemma same_outside_take:
  "same_outside lo hi a b \<Longrightarrow> m \<le> lo \<Longrightarrow> take m b = take m a"
  by (rule nth_equalityI) (auto simp: same_outside_def)

lemma same_outside_drop:
  "same_outside lo hi a b \<Longrightarrow> hi \<le> m \<Longrightarrow> drop m b = drop m a"
  by (rule nth_equalityI) (auto simp: same_outside_def)

lemma mset_seg:
  "mset a = mset (take lo a) + mset (take n (drop lo a)) + mset (drop (lo + n) a)"
proof -
  have "a = take lo a @ take n (drop lo a) @ drop (lo + n) a"
    by (metis add.commute append_take_drop_id drop_drop)
  then show ?thesis by (metis add.assoc mset_append)
qed

lemma same_outside_mset_seg:
  assumes so: "same_outside lo (lo + n) a b" and ms: "mset b = mset a"
  shows "mset (take n (drop lo b)) = mset (take n (drop lo a))"
  using mset_seg [of a lo n] mset_seg [of b lo n] ms
    same_outside_take [OF so order_refl] same_outside_drop [OF so order_refl]
  by simp

text \<open>\<open>rearr lo hi a b\<close>: \<open>b\<close> is a rearrangement of \<open>a\<close> that moves cells of \<open>[lo, hi)\<close> only.\<close>

definition rearr :: "nat \<Rightarrow> nat \<Rightarrow> 'a list \<Rightarrow> 'a list \<Rightarrow> bool" where
  "rearr lo hi a b \<longleftrightarrow> same_outside lo hi a b \<and> mset b = mset a"

lemma rearr_refl [simp]: "rearr lo hi a a"
  by (simp add: rearr_def)

lemma rearr_trans: "rearr lo hi a b \<Longrightarrow> rearr lo hi b c \<Longrightarrow> rearr lo hi a c"
  by (auto simp: rearr_def intro: same_outside_trans)

lemma rearr_mono: "rearr lo hi a b \<Longrightarrow> lo' \<le> lo \<Longrightarrow> hi \<le> hi' \<Longrightarrow> rearr lo' hi' a b"
  by (auto simp: rearr_def intro: same_outside_mono)

lemma rearr_length: "rearr lo hi a b \<Longrightarrow> length b = length a"
  by (auto simp: rearr_def same_outside_def)

lemma rearr_mset: "rearr lo hi a b \<Longrightarrow> mset b = mset a"
  by (simp add: rearr_def)

lemma rearr_outside:
  "rearr lo hi a b \<Longrightarrow> k < length a \<Longrightarrow> k < lo \<or> hi \<le> k \<Longrightarrow> b ! k = a ! k"
  by (auto simp: rearr_def same_outside_def)

lemma rearr_exch:
  "lo \<le> i \<Longrightarrow> i < hi \<Longrightarrow> lo \<le> j \<Longrightarrow> j < hi \<Longrightarrow> hi \<le> length a \<Longrightarrow> rearr lo hi a (exch a i j)"
  by (auto simp: rearr_def same_outside_def nth_list_update)

lemma rearr_ex:
  assumes re: "rearr lo hi a b" and hi: "hi \<le> length a" and k: "lo \<le> k" "k < hi"
  shows "\<exists>k'. lo \<le> k' \<and> k' < hi \<and> b ! k = a ! k'"
proof -
  have hi': "hi = lo + (hi - lo)" using k by simp
  have "mset (take (hi - lo) (drop lo b)) = mset (take (hi - lo) (drop lo a))"
    using re hi' by (intro same_outside_mset_seg) (auto simp: rearr_def)
  then have "set (take (hi - lo) (drop lo b)) = set (take (hi - lo) (drop lo a))"
    by (metis set_mset_mset)
  moreover have "b ! k \<in> set (take (hi - lo) (drop lo b))"
    using k hi rearr_length [OF re] by (auto simp: in_set_conv_nth intro!: exI [of _ "k - lo"])
  ultimately obtain p where "p < hi - lo" "b ! k = a ! (lo + p)"
    using hi by (auto simp: in_set_conv_nth)
  then show ?thesis by (intro exI [of _ "lo + p"]) auto
qed

lemma rearr_ball:
  assumes "rearr lo hi a b" "hi \<le> length a" "\<And>k. lo \<le> k \<Longrightarrow> k < hi \<Longrightarrow> P (a ! k)"
    and "lo \<le> k" "k < hi"
  shows "P (b ! k)"
  using rearr_ex [OF assms(1,2,4,5)] assms(3) by auto

lemma sorted_segI:
  assumes "rearr lo (lo + n) a b" and "sorted_on lo (lo + n) b" and "lo + n \<le> length a"
  shows "b = sorted_seg lo n a"
proof -
  note so = assms(1) [unfolded rearr_def, THEN conjunct1]
    and ms = assms(1) [unfolded rearr_def, THEN conjunct2]
  have len: "length b = length a" using so by (rule same_outside_length)
  have "sorted (take n (drop lo b))"
    using assms(2,3) len by (auto simp: sorted_iff_nth_mono sorted_on_def)
  then have "take n (drop lo b) = sort (take n (drop lo a))"
    using same_outside_mset_seg [OF so ms] by (metis properties_for_sort)
  moreover have "b = take lo b @ take n (drop lo b) @ drop (lo + n) b"
    by (metis add.commute append_take_drop_id drop_drop)
  ultimately show ?thesis
    using same_outside_take [OF so order_refl] same_outside_drop [OF so order_refl]
    by (simp add: sorted_seg_def)
qed

lemma length_sorted_seg [simp]: "length (sorted_seg lo n a) = length a"
  by (auto simp: sorted_seg_def min_def)

lemma mset_sorted_seg [simp]: "mset (sorted_seg lo n a) = mset a"
  by (simp add: sorted_seg_def mset_seg [of a lo n] add.assoc)

lemma sorted_seg_whole: "sorted_seg 0 (length a) a = sort a"
  by (simp add: sorted_seg_def)

lemma sorted_seg_append:
  "length xs = lo \<Longrightarrow> length ys = n \<Longrightarrow> sorted_seg lo n (xs @ ys @ zs) = xs @ sort ys @ zs"
  by (simp add: sorted_seg_def)

lemma sorted_seg_idem:
  assumes "lo + n \<le> length a"
  shows "sorted_seg lo n (sorted_seg lo n a) = sorted_seg lo n a"
  using assms by (subst (2 3) sorted_seg_def) (simp add: sorted_seg_append sorted_sort_id)

lemma sorted_seg_trivial: "n \<le> 1 \<Longrightarrow> sorted_seg lo n a = a"
proof -
  assume "n \<le> 1"
  then have "sort (take n (drop lo a)) = take n (drop lo a)"
    by (intro sorted_sort_id sorted01) simp
  then show ?thesis
    by (simp add: sorted_seg_def) (metis add.commute append_take_drop_id drop_drop)
qed

lemma take_split_drop: "n \<le> m \<Longrightarrow> take n (drop p xs) @ take (m - n) (drop (p + n) xs) = take m (drop p xs)"
  by (metis add_diff_inverse_nat drop_drop add.commute not_less take_add)

end
