(* ===== verification/SortBasic.thy ===== *)
theory SortBasic
  imports Prelude
begin

text \<open>
  The elementary sorts of \<open>3.ybx/20.ds/2.ds/6.sort\<close>: the three bubble sorts (\<open>1.bubble.c\<close>),
  selection sort (\<open>2.select.c\<close>), insertion sort (\<open>3.insert.c\<close>), and \<open>swap\<close> and \<open>copy_arr\<close> of
  \<open>func.c\<close>.  Every sort takes the array and \<open>num\<close> and returns the array with the number of
  comparisons and of moves that the C code prints; loops are tail recursions over the C loop
  variables.  The interface \<open>segment_sorter\<close> states what a sort of the library promises.
\<close>

section \<open>Helpers of func.c\<close>

definition swap :: "int list \<Rightarrow> nat \<Rightarrow> nat \<Rightarrow> int list option" where
  "swap a x y = do {
     t \<leftarrow> rd a x;
     v \<leftarrow> rd a y;
     a1 \<leftarrow> wr a x v;
     wr a1 y t }"

lemma swap_exch [simp, arr]: "x < length a \<Longrightarrow> y < length a \<Longrightarrow> swap a x y = Some (exch a x y)"
  by (simp add: swap_def)

function copy_arr_loop :: "int list \<Rightarrow> int list \<Rightarrow> nat \<Rightarrow> nat \<Rightarrow> int list option" where
  "copy_arr_loop dst src num i =
     (if i < num then do {
        v \<leftarrow> rd src i;
        dst1 \<leftarrow> wr dst i v;
        copy_arr_loop dst1 src num (Suc i) }
      else Some dst)"
  by pat_completeness auto
termination by (relation "measure (\<lambda>(dst, src, num, i). num - i)") auto
declare copy_arr_loop.simps [simp del]

definition copy_arr :: "int list \<Rightarrow> int list \<Rightarrow> nat \<Rightarrow> int list option" where
  "copy_arr dst src num = copy_arr_loop dst src num 0"

section \<open>Bubble sort, three versions\<close>

function bubble0_inner ::
  "int list \<Rightarrow> nat \<Rightarrow> nat \<Rightarrow> nat \<Rightarrow> nat \<Rightarrow> nat \<Rightarrow> (int list \<times> nat \<times> nat) option" where
  "bubble0_inner a i j num c m =
     (if j < num then do {
        x \<leftarrow> rd a i;
        y \<leftarrow> rd a j;
        if x > y then do {
          a1 \<leftarrow> wr a i y;
          a2 \<leftarrow> wr a1 j x;
          bubble0_inner a2 i (Suc j) num (c + 1) (m + 3) }
        else bubble0_inner a i (Suc j) num (c + 1) m }
      else Some (a, c, m))"
  by pat_completeness auto
termination by (relation "measure (\<lambda>(a, i, j, num, c, m). num - j)") auto
declare bubble0_inner.simps [simp del]

function bubble0_outer ::
  "int list \<Rightarrow> nat \<Rightarrow> nat \<Rightarrow> nat \<Rightarrow> nat \<Rightarrow> (int list \<times> nat \<times> nat) option" where
  "bubble0_outer a i num c m =
     (if i < num - 1 then do {
        (a1, c1, m1) \<leftarrow> bubble0_inner a i (i + 1) num c m;
        bubble0_outer a1 (Suc i) num c1 m1 }
      else Some (a, c, m))"
  by pat_completeness auto
termination by (relation "measure (\<lambda>(a, i, num, c, m). num - i)") auto
declare bubble0_outer.simps [simp del]

definition bubble_version0 :: "int list \<Rightarrow> nat \<Rightarrow> (int list \<times> nat \<times> nat) option" where
  "bubble_version0 a num = bubble0_outer a 0 num 0 0"

text \<open>Versions 1 and 2 share the shape of the inner loop; version 2 also keeps \<open>flag\<close>.\<close>

function bubble1_inner ::
  "int list \<Rightarrow> nat \<Rightarrow> nat \<Rightarrow> nat \<Rightarrow> nat \<Rightarrow> (int list \<times> nat \<times> nat) option" where
  "bubble1_inner a j hi c m =
     (if j < hi then do {
        x \<leftarrow> rd a j;
        y \<leftarrow> rd a (j + 1);
        if x > y then do {
          a1 \<leftarrow> wr a j y;
          a2 \<leftarrow> wr a1 (j + 1) x;
          bubble1_inner a2 (Suc j) hi (c + 1) (m + 3) }
        else bubble1_inner a (Suc j) hi (c + 1) m }
      else Some (a, c, m))"
  by pat_completeness auto
termination by (relation "measure (\<lambda>(a, j, hi, c, m). hi - j)") auto
declare bubble1_inner.simps [simp del]

function bubble1_outer ::
  "int list \<Rightarrow> nat \<Rightarrow> nat \<Rightarrow> nat \<Rightarrow> nat \<Rightarrow> (int list \<times> nat \<times> nat) option" where
  "bubble1_outer a i num c m =
     (if i < num - 1 then do {
        (a1, c1, m1) \<leftarrow> bubble1_inner a 0 (num - i - 1) c m;
        bubble1_outer a1 (Suc i) num c1 m1 }
      else Some (a, c, m))"
  by pat_completeness auto
termination by (relation "measure (\<lambda>(a, i, num, c, m). num - i)") auto
declare bubble1_outer.simps [simp del]

definition bubble_version1 :: "int list \<Rightarrow> nat \<Rightarrow> (int list \<times> nat \<times> nat) option" where
  "bubble_version1 a num = bubble1_outer a 0 num 0 0"

function bubble2_inner ::
  "int list \<Rightarrow> nat \<Rightarrow> nat \<Rightarrow> bool \<Rightarrow> nat \<Rightarrow> nat \<Rightarrow> (int list \<times> bool \<times> nat \<times> nat) option" where
  "bubble2_inner a j hi flag c m =
     (if j < hi then do {
        x \<leftarrow> rd a j;
        y \<leftarrow> rd a (j + 1);
        if x > y then do {
          a1 \<leftarrow> wr a j y;
          a2 \<leftarrow> wr a1 (j + 1) x;
          bubble2_inner a2 (Suc j) hi True (c + 1) (m + 3) }
        else bubble2_inner a (Suc j) hi flag (c + 1) m }
      else Some (a, flag, c, m))"
  by pat_completeness auto
termination by (relation "measure (\<lambda>(a, j, hi, flag, c, m). hi - j)") auto
declare bubble2_inner.simps [simp del]

function bubble2_outer ::
  "int list \<Rightarrow> nat \<Rightarrow> nat \<Rightarrow> nat \<Rightarrow> nat \<Rightarrow> (int list \<times> nat \<times> nat) option" where
  "bubble2_outer a i num c m =
     (if i < num - 1 then do {
        (a1, flag, c1, m1) \<leftarrow> bubble2_inner a 0 (num - i - 1) False c m;
        if \<not> flag then Some (a1, c1, m1)
        else bubble2_outer a1 (Suc i) num c1 m1 }
      else Some (a, c, m))"
  by pat_completeness auto
termination by (relation "measure (\<lambda>(a, i, num, c, m). num - i)") auto
declare bubble2_outer.simps [simp del]

definition bubble_version2 :: "int list \<Rightarrow> nat \<Rightarrow> (int list \<times> nat \<times> nat) option" where
  "bubble_version2 a num = bubble2_outer a 0 num 0 0"

section \<open>Selection sort\<close>

function select_min :: "int list \<Rightarrow> nat \<Rightarrow> nat \<Rightarrow> nat \<Rightarrow> nat \<Rightarrow> (nat \<times> nat) option" where
  "select_min a min_index j num c =
     (if j < num then do {
        x \<leftarrow> rd a min_index;
        y \<leftarrow> rd a j;
        select_min a (if x > y then j else min_index) (Suc j) num (c + 1) }
      else Some (min_index, c))"
  by pat_completeness auto
termination by (relation "measure (\<lambda>(a, min_index, j, num, c). num - j)") auto
declare select_min.simps [simp del]

function select_outer ::
  "int list \<Rightarrow> nat \<Rightarrow> nat \<Rightarrow> nat \<Rightarrow> nat \<Rightarrow> (int list \<times> nat \<times> nat) option" where
  "select_outer a i num c m =
     (if i < num - 1 then do {
        (min_index, c1) \<leftarrow> select_min a i (i + 1) num c;
        if min_index \<noteq> i then do {
          tmp \<leftarrow> rd a i;
          v \<leftarrow> rd a min_index;
          a1 \<leftarrow> wr a i v;
          a2 \<leftarrow> wr a1 min_index tmp;
          select_outer a2 (Suc i) num c1 (m + 3) }
        else select_outer a (Suc i) num c1 m }
      else Some (a, c, m))"
  by pat_completeness auto
termination by (relation "measure (\<lambda>(a, i, num, c, m). num - i)") auto
declare select_outer.simps [simp del]

definition select_sort :: "int list \<Rightarrow> nat \<Rightarrow> (int list \<times> nat \<times> nat) option" where
  "select_sort a num = select_outer a 0 num 0 0"

section \<open>Insertion sort\<close>

text \<open>
  The inner loop variable runs down to \<open>-1\<close>, so it is an \<open>int\<close>; the loop returns the array and
  the final \<open>j\<close>.
\<close>

function insert_shift ::
  "int list \<Rightarrow> int \<Rightarrow> int \<Rightarrow> nat \<Rightarrow> nat \<Rightarrow> (int list \<times> int \<times> nat \<times> nat) option" where
  "insert_shift a j tmp c m =
     (if j \<ge> 0 then do {
        x \<leftarrow> rd a (nat j);
        if x > tmp then do {
          a1 \<leftarrow> wr a (nat (j + 1)) x;
          insert_shift a1 (j - 1) tmp (c + 1) (m + 1) }
        else Some (a, j, c + 1, m) }
      else Some (a, j, c, m))"
  by pat_completeness auto
termination by (relation "measure (\<lambda>(a, j, tmp, c, m). nat (j + 1))") auto
declare insert_shift.simps [simp del]

function insert_outer ::
  "int list \<Rightarrow> nat \<Rightarrow> nat \<Rightarrow> nat \<Rightarrow> nat \<Rightarrow> (int list \<times> nat \<times> nat) option" where
  "insert_outer a i num c m =
     (if i < num then do {
        tmp \<leftarrow> rd a i;
        (a1, j, c1, m1) \<leftarrow> insert_shift a (int i - 1) tmp c m;
        a2 \<leftarrow> wr a1 (nat (j + 1)) tmp;
        insert_outer a2 (Suc i) num c1 (m1 + 1) }
      else Some (a, c, m))"
  by pat_completeness auto
termination by (relation "measure (\<lambda>(a, i, num, c, m). num - i)") auto
declare insert_outer.simps [simp del]

definition insert_sort1 :: "int list \<Rightarrow> nat \<Rightarrow> (int list \<times> nat \<times> nat) option" where
  "insert_sort1 a num = insert_outer a 1 num 0 0"

section \<open>Bubble sorts are correct\<close>

text \<open>
  Each inner loop rearranges the segment it scans and leaves its extreme element at one end; each
  outer loop extends the sorted part by one.
\<close>

lemma bubble0_inner_spec:
  assumes "i < j" "j \<le> num" "num \<le> length a"
  shows "\<exists>b m'. bubble0_inner a i j num c m = Some (b, c + (num - j), m') \<and> rearr i num a b \<and>
           b ! i \<le> a ! i \<and> (\<forall>k. i < k \<longrightarrow> k < j \<longrightarrow> b ! k = a ! k) \<and>
           (\<forall>k. j \<le> k \<longrightarrow> k < num \<longrightarrow> b ! i \<le> b ! k)"
  using assms
proof (induction a i j num c m rule: bubble0_inner.induct)
  case (1 a i j num c m)
  show ?case
  proof (cases "j < num")
    case True
    define a' where "a' = (if a ! i > a ! j then exch a i j else a)"
    define m' where "m' = (if a ! i > a ! j then m + 3 else m)"
    have len: "length a' = length a" by (simp add: a'_def)
    have step: "bubble0_inner a i j num c m = bubble0_inner a' i (Suc j) num (c + 1) m'"
      using True 1(3-5) by (subst bubble0_inner.simps) (simp add: a'_def m'_def)
    have re: "rearr i num a a'" using True 1(3-5) by (simp add: a'_def rearr_exch)
    have low: "a' ! i \<le> a ! i" "a' ! i \<le> a' ! j" "\<forall>k. i < k \<longrightarrow> k < j \<longrightarrow> a' ! k = a ! k"
      using True 1(3-5) by (auto simp: a'_def nth_list_update)
    have "\<exists>b m2. bubble0_inner a' i (Suc j) num (c + 1) m' = Some (b, c + 1 + (num - Suc j), m2) \<and>
        rearr i num a' b \<and> b ! i \<le> a' ! i \<and> (\<forall>k. i < k \<longrightarrow> k < Suc j \<longrightarrow> b ! k = a' ! k) \<and>
        (\<forall>k. Suc j \<le> k \<longrightarrow> k < num \<longrightarrow> b ! i \<le> b ! k)"
    proof (cases "a ! i > a ! j")
      case gt: True
      show ?thesis using 1(1) [of "a ! i" "a ! j" "a[i := a ! j]" a'] gt True 1(3-5)
        by (simp add: a'_def m'_def)
    next
      case False
      then show ?thesis using 1(2) [of "a ! i" "a ! j"] True 1(3-5) by (simp add: a'_def m'_def)
    qed
    then obtain b m2 where b: "bubble0_inner a' i (Suc j) num (c + 1) m' = Some (b, c + 1 + (num - Suc j), m2)"
      "rearr i num a' b" "b ! i \<le> a' ! i" "\<forall>k. i < k \<longrightarrow> k < Suc j \<longrightarrow> b ! k = a' ! k"
      "\<forall>k. Suc j \<le> k \<longrightarrow> k < num \<longrightarrow> b ! i \<le> b ! k" by blast
    have "b ! i \<le> b ! k" if "j \<le> k" "k < num" for k
      using that b(3-5) low 1(3) by (cases "k = j") auto
    then show ?thesis
      using step b low True 1(3) re by (auto intro: rearr_trans)
  next
    case False
    then show ?thesis using 1(3-5) by (subst bubble0_inner.simps) auto
  qed
qed

text \<open>\<open>parted i num a\<close>: nothing below \<open>i\<close> exceeds anything in \<open>[i, num)\<close>.\<close>

definition parted :: "nat \<Rightarrow> nat \<Rightarrow> int list \<Rightarrow> bool" where
  "parted i num a \<longleftrightarrow> (\<forall>p k. p < i \<longrightarrow> i \<le> k \<longrightarrow> k < num \<longrightarrow> a ! p \<le> a ! k)"

lemma parted_0 [simp]: "parted 0 num a"
  by (simp add: parted_def)

lemma parted_num [simp]: "parted num num a"
  by (simp add: parted_def)

lemma sorted_on_trivial [simp]: "hi \<le> Suc lo \<Longrightarrow> sorted_on lo hi a"
  by (auto simp: sorted_on_def dest: le_antisym)

lemma grow_prefix:
  assumes "sorted_on 0 i a" "parted i num a" "rearr i num a b" "i < num" "num \<le> length a"
    and min: "\<forall>k. i \<le> k \<longrightarrow> k < num \<longrightarrow> b ! i \<le> b ! k"
  shows "sorted_on 0 (Suc i) b" "parted (Suc i) num b"
proof -
  have keep: "b ! p = a ! p" if "p < i" for p
    using that assms(4,5) by (intro rearr_outside [OF assms(3)]) auto
  have below: "b ! p \<le> b ! k" if "p < i" "i \<le> k" "k < num" for p k
    using rearr_ball [OF assms(3,5), of "\<lambda>v. a ! p \<le> v" k] that assms(2) keep
    by (auto simp: parted_def)
  show "sorted_on 0 (Suc i) b"
  proof (rule sorted_onI)
    fix x y assume "x \<le> y" "y < Suc i"
    then show "b ! x \<le> b ! y"
      using sorted_onD [OF assms(1), of x y] assms(4) keep below
      by (cases "y = i"; cases "x = y") auto
  qed
  show "parted (Suc i) num b"
    unfolding parted_def using below min by (auto simp: less_Suc_eq)
qed

lemma close_prefix:
  assumes "sorted_on 0 i a" "parted i num a" "num \<le> Suc i"
  shows "sorted_on 0 num a"
proof (rule sorted_onI)
  fix x y assume "x \<le> y" "y < num"
  then show "a ! x \<le> a ! y"
    using sorted_onD [OF assms(1), of x y] assms(2,3)
    by (cases "y < i"; cases "x = y") (auto simp: parted_def)
qed

lemma grow_suffix:
  assumes "sorted_on (Suc h) num a" "parted (Suc h) num a" "rearr 0 (Suc h) a b" "Suc h \<le> num"
    "num \<le> length a" and max: "\<forall>k \<le> h. b ! k \<le> b ! h"
  shows "sorted_on h num b" "parted h num b"
proof -
  have keep: "b ! p = a ! p" if "h < p" "p < num" for p
    using that assms(5) by (intro rearr_outside [OF assms(3)]) auto
  have below: "b ! p \<le> b ! k" if "p \<le> h" "h < k" "k < num" for p k
    using rearr_ball [OF assms(3), of "\<lambda>v. v \<le> a ! k" p] that assms(2,4,5) keep
    by (auto simp: parted_def)
  show "sorted_on h num b"
  proof (rule sorted_onI)
    fix x y assume "h \<le> x" "x \<le> y" "y < num"
    then show "b ! x \<le> b ! y"
      using sorted_onD [OF assms(1), of x y] keep below by (cases "x = h"; cases "x = y") auto
  qed
  show "parted h num b"
    unfolding parted_def
  proof (intro allI impI)
    fix p k assume "p < h" "h \<le> k" "k < num"
    then show "b ! p \<le> b ! k" using below [of p k] max by (cases "k = h") auto
  qed
qed

lemma close_suffix:
  assumes "sorted_on h num a" "parted h num a" "h \<le> 1"
  shows "sorted_on 0 num a"
proof (rule sorted_onI)
  fix x y assume "x \<le> y" "y < num"
  then show "a ! x \<le> a ! y"
    using assms by (cases "h \<le> x"; cases "x = y") (auto simp: sorted_on_def parted_def)
qed

lemma triangle_step:
  "i < num - 1 \<Longrightarrow> (num - i) * (num - i - 1) = 2 * (num - i - 1) + (num - Suc i) * (num - Suc i - 1)"
  for i num :: nat
proof -
  assume "i < num - 1"
  then obtain d where "num = Suc (Suc (i + d))" by (metis Suc_diff_1 add_Suc_right less_imp_Suc_add not_less_zero gr0I less_diff_conv zero_diff plus_1_eq_Suc)
  then show ?thesis by simp
qed

lemma bubble0_outer_spec:
  assumes "num \<le> length a" "sorted_on 0 i a" "parted i num a" "i \<le> num"
  shows "\<exists>b c' m'. bubble0_outer a i num c m = Some (b, c', m') \<and> rearr 0 num a b \<and>
           sorted_on 0 num b \<and> 2 * c' = 2 * c + (num - i) * (num - i - 1)"
  using assms
proof (induction a i num c m rule: bubble0_outer.induct)
  case (1 a i num c m)
  show ?case
  proof (cases "i < num - 1")
    case True
    then have le: "Suc i \<le> num" by simp
    obtain b m' where b: "bubble0_inner a i (i + 1) num c m = Some (b, c + (num - (i + 1)), m')"
      "rearr i num a b" "b ! i \<le> a ! i" "\<forall>k. i + 1 \<le> k \<longrightarrow> k < num \<longrightarrow> b ! i \<le> b ! k"
      using bubble0_inner_spec [of i "i + 1" num a c m] True 1(2) by (auto simp: less_diff_conv)
    have "\<forall>k. i \<le> k \<longrightarrow> k < num \<longrightarrow> b ! i \<le> b ! k"
      using b(4) by (metis Suc_eq_plus1 Suc_leI le_neq_implies_less order_refl)
    then have "sorted_on 0 (Suc i) b" "parted (Suc i) num b"
      using grow_prefix [OF 1(3,4) b(2)] True 1(2) by auto
    then obtain d c' m2 where d: "bubble0_outer b (Suc i) num (c + (num - (i + 1))) m' = Some (d, c', m2)"
      "rearr 0 num b d" "sorted_on 0 num d"
      "2 * c' = 2 * (c + (num - i - 1)) + (num - Suc i) * (num - Suc i - 1)"
      using 1(1) [OF True b(1) refl refl] le b 1(2) by (auto simp: rearr_length)
    have "2 * c' = 2 * c + (num - i) * (num - i - 1)"
      unfolding d(4) triangle_step [OF True] by (simp only: add_mult_distrib2 add.assoc)
    then show ?thesis
      using True le b(1,2) d(1-3)
      by (subst bubble0_outer.simps) (auto intro: rearr_trans rearr_mono)
  next
    case False
    then show ?thesis
      using 1(2-5) close_prefix [of i a num] by (subst bubble0_outer.simps) auto
  qed
qed

theorem bubble_version0_sorts:
  assumes "n \<le> length a"
  shows "\<exists>m. bubble_version0 a n = Some (sorted_seg 0 n a, n * (n - 1) div 2, m)"
proof -
  obtain b c' m' where b: "bubble_version0 a n = Some (b, c', m')" "rearr 0 n a b"
    "sorted_on 0 n b" "2 * c' = n * (n - 1)"
    using bubble0_outer_spec [of n a 0 0 0] assms by (auto simp: bubble_version0_def)
  have "b = sorted_seg 0 n a" using sorted_segI [of 0 n a b] b(2,3) assms by simp
  moreover have "c' = n * (n - 1) div 2" using b(4) by simp
  ultimately show ?thesis using b(1) by auto
qed

lemma bubble1_inner_spec:
  assumes "j \<le> hi" "hi < length a" "\<forall>k \<le> j. a ! k \<le> a ! j"
  shows "\<exists>b m'. bubble1_inner a j hi c m = Some (b, c + (hi - j), m') \<and> rearr 0 (Suc hi) a b \<and>
           (\<forall>k \<le> hi. b ! k \<le> b ! hi) \<and> m \<le> m' \<and>
           (m' = m \<longrightarrow> b = a) \<and> (m' = m \<longleftrightarrow> (\<forall>k. j \<le> k \<longrightarrow> k < hi \<longrightarrow> a ! k \<le> a ! Suc k))"
  using assms
proof (induction a j hi c m rule: bubble1_inner.induct)
  case (1 a j hi c m)
  show ?case
  proof (cases "j < hi")
    case True
    show ?thesis
    proof (cases "a ! j > a ! (j + 1)")
      case gt: True
      let ?a = "exch a j (j + 1)"
      have pre: "\<forall>k \<le> Suc j. ?a ! k \<le> ?a ! Suc j"
        using 1(4,5) True gt by (auto simp: nth_list_update le_Suc_eq intro: order_trans less_imp_le)
      obtain b m' where b: "bubble1_inner ?a (Suc j) hi (c + 1) (m + 3) = Some (b, c + 1 + (hi - Suc j), m')"
        "rearr 0 (Suc hi) ?a b" "\<forall>k \<le> hi. b ! k \<le> b ! hi" "m + 3 \<le> m'"
        using 1(1) [of "a ! j" "a ! (j + 1)" "a[j := a ! (j + 1)]" ?a] True gt 1(4) pre by auto
      have "rearr 0 (Suc hi) a ?a" using True 1(4) by (intro rearr_exch) auto
      then show ?thesis
        using True gt 1(4) b by (subst bubble1_inner.simps) (auto intro: rearr_trans)
    next
      case False
      have pre: "\<forall>k \<le> Suc j. a ! k \<le> a ! Suc j"
        using 1(5) False by (auto simp: le_Suc_eq intro: order_trans)
      obtain b m' where b: "bubble1_inner a (Suc j) hi (c + 1) m = Some (b, c + 1 + (hi - Suc j), m')"
        "rearr 0 (Suc hi) a b" "\<forall>k \<le> hi. b ! k \<le> b ! hi" "m \<le> m'"
        "m' = m \<longrightarrow> b = a" "m' = m \<longleftrightarrow> (\<forall>k. Suc j \<le> k \<longrightarrow> k < hi \<longrightarrow> a ! k \<le> a ! Suc k)"
        using 1(2) [of "a ! j" "a ! (j + 1)"] True False 1(4) pre by auto
      have "(\<forall>k. Suc j \<le> k \<longrightarrow> k < hi \<longrightarrow> a ! k \<le> a ! Suc k) \<longleftrightarrow>
          (\<forall>k. j \<le> k \<longrightarrow> k < hi \<longrightarrow> a ! k \<le> a ! Suc k)"
        using False by (metis Suc_eq_plus1 Suc_leD Suc_leI le_neq_implies_less not_le_imp_less)
      then show ?thesis
        using True False 1(4) b by (subst bubble1_inner.simps) auto
    qed
  next
    case False
    then show ?thesis using 1(3-5) by (subst bubble1_inner.simps) auto
  qed
qed

lemma bubble1_pass:
  assumes "num \<le> length a" "sorted_on (num - i) num a" "parted (num - i) num a" "i < num - 1"
  obtains b m' where "bubble1_inner a 0 (num - i - 1) c m = Some (b, c + (num - i - 1), m')"
    "rearr 0 num a b" "sorted_on (num - Suc i) num b" "parted (num - Suc i) num b" "m \<le> m'"
    "m' = m \<Longrightarrow> b = a" "m' = m \<longleftrightarrow> sorted_on 0 num a"
proof -
  have h: "num - i = Suc (num - i - 1)" "num - i - 1 = num - Suc i"
    and len: "num - i - 1 < length a" using assms(1,4) by auto
  obtain b m' where b: "bubble1_inner a 0 (num - i - 1) c m = Some (b, c + (num - i - 1), m')"
    "rearr 0 (Suc (num - i - 1)) a b" "\<forall>k \<le> num - i - 1. b ! k \<le> b ! (num - i - 1)" "m \<le> m'"
    "m' = m \<longrightarrow> b = a" "m' = m \<longleftrightarrow> (\<forall>k < num - i - 1. a ! k \<le> a ! Suc k)"
    using bubble1_inner_spec [of 0 "num - i - 1" a c m] len by auto
  have s: "sorted_on (num - i - 1) num b" "parted (num - i - 1) num b"
    using grow_suffix [OF _ _ b(2)] assms h b(3) by auto
  have "m' = m \<longleftrightarrow> sorted_on 0 num a"
  proof
    assume eq: "m' = m"
    have "sorted_on 0 (num - i) a"
    proof (rule sorted_onI)
      fix x y assume "x \<le> y" "y < num - i"
      then show "a ! x \<le> a ! y"
      proof (induction y rule: dec_induct)
        case (step y)
        then have "a ! x \<le> a ! y" "a ! y \<le> a ! Suc y" using b(6) eq h by auto
        then show ?case by simp
      qed simp
    qed
    then show "sorted_on 0 num a"
      using assms(2,3) by (auto simp: sorted_on_def parted_def) (metis not_le_imp_less)
  next
    assume "sorted_on 0 num a"
    then show "m' = m" using b(6) assms(4) by (auto simp: sorted_on_def)
  qed
  then show ?thesis
    using that [OF b(1) rearr_mono [OF b(2)] _ _ b(4)] b(5) s h by auto
qed

lemma bubble1_outer_spec:
  assumes "num \<le> length a" "sorted_on (num - i) num a" "parted (num - i) num a" "i \<le> num"
  shows "\<exists>b c' m'. bubble1_outer a i num c m = Some (b, c', m') \<and> rearr 0 num a b \<and>
           sorted_on 0 num b \<and> 2 * c' = 2 * c + (num - i) * (num - i - 1)"
  using assms
proof (induction a i num c m rule: bubble1_outer.induct)
  case (1 a i num c m)
  show ?case
  proof (cases "i < num - 1")
    case True
    then have le: "Suc i \<le> num" by simp
    obtain b m' where b: "bubble1_inner a 0 (num - i - 1) c m = Some (b, c + (num - i - 1), m')"
      "rearr 0 num a b" "sorted_on (num - Suc i) num b" "parted (num - Suc i) num b"
      using bubble1_pass [OF 1(2-4) True] by metis
    obtain d c' m2 where d: "bubble1_outer b (Suc i) num (c + (num - i - 1)) m' = Some (d, c', m2)"
      "rearr 0 num b d" "sorted_on 0 num d"
      "2 * c' = 2 * (c + (num - i - 1)) + (num - Suc i) * (num - Suc i - 1)"
      using 1(1) [OF True b(1) refl refl] le b 1(2) by (auto simp: rearr_length)
    have "2 * c' = 2 * c + (num - i) * (num - i - 1)"
      unfolding d(4) triangle_step [OF True] by (simp only: add_mult_distrib2 add.assoc)
    then show ?thesis
      using True le b(1,2) d(1-3)
      by (subst bubble1_outer.simps) (auto intro: rearr_trans)
  next
    case False
    then show ?thesis
      using 1(2-5) close_suffix [of "num - i" num a] by (subst bubble1_outer.simps) auto
  qed
qed

theorem bubble_version1_sorts:
  assumes "n \<le> length a"
  shows "\<exists>m. bubble_version1 a n = Some (sorted_seg 0 n a, n * (n - 1) div 2, m)"
proof -
  obtain b c' m' where b: "bubble_version1 a n = Some (b, c', m')" "rearr 0 n a b"
    "sorted_on 0 n b" "2 * c' = n * (n - 1)"
    using bubble1_outer_spec [of n a 0 0 0] assms by (auto simp: bubble_version1_def)
  have "b = sorted_seg 0 n a" using sorted_segI [of 0 n a b] b(2,3) assms by simp
  moreover have "c' = n * (n - 1) div 2" using b(4) by simp
  ultimately show ?thesis using b(1) by auto
qed

text \<open>The flag of version 2 is set exactly when the pass moved something.\<close>

lemma bubble1_inner_moves: "bubble1_inner a j hi c m = Some (b, c', m') \<Longrightarrow> m \<le> m'"
proof (induction a j hi c m rule: bubble1_inner.induct)
  case (1 a j hi c m)
  show ?case
  proof (cases "j < hi \<and> Suc j < length a")
    case True
    then show ?thesis
      using 1(1) [of "a ! j" "a ! (j + 1)" "a[j := a ! (j + 1)]" "exch a j (j + 1)"]
        1(2) [of "a ! j" "a ! (j + 1)"] 1(3) bubble1_inner.simps [of a j hi c m]
      by (cases "a ! j > a ! (j + 1)") auto
  next
    case False
    then show ?thesis using 1(3) bubble1_inner.simps [of a j hi c m] by (auto simp: rd_def split: if_splits)
  qed
qed

lemma bubble2_inner_flag:
  "bubble2_inner a j hi flag c m =
   map_option (\<lambda>(b, c', m'). (b, flag \<or> m' \<noteq> m, c', m')) (bubble1_inner a j hi c m)"
proof (induction a j hi flag c m rule: bubble2_inner.induct)
  case (1 a j hi flag c m)
  show ?case
  proof (cases "j < hi \<and> Suc j < length a")
    case True
    show ?thesis
    proof (cases "a ! j > a ! (j + 1)")
      case gt: True
      show ?thesis
        using True gt 1(1) [of "a ! j" "a ! (j + 1)" "a[j := a ! (j + 1)]" "exch a j (j + 1)"]
        by (subst bubble2_inner.simps, subst bubble1_inner.simps)
          (auto simp: map_option_case split: option.splits dest!: bubble1_inner_moves)
    next
      case False
      then show ?thesis
        using True 1(2) [of "a ! j" "a ! (j + 1)"]
        by (subst bubble2_inner.simps, subst bubble1_inner.simps) auto
    qed
  next
    case False
    then show ?thesis
      by (subst bubble2_inner.simps, subst bubble1_inner.simps) (auto simp: rd_def)
  qed
qed

lemma bubble2_outer_spec:
  assumes "num \<le> length a" "sorted_on (num - i) num a" "parted (num - i) num a" "i \<le> num"
  shows "\<exists>b c' m'. bubble2_outer a i num c m = Some (b, c', m') \<and> rearr 0 num a b \<and>
           sorted_on 0 num b \<and> 2 * c' \<le> 2 * c + (num - i) * (num - i - 1) \<and>
           (sorted_on 0 num a \<longrightarrow> c' \<le> c + (num - i - 1))"
  using assms
proof (induction "num - i" arbitrary: a i c m rule: less_induct)
  case (less i a c m)
  note 1 = less
  show ?case
  proof (cases "i < num - 1")
    case True
    then have le: "Suc i \<le> num" and dec: "num - Suc i < num - i" by auto
    obtain b m' where b: "bubble1_inner a 0 (num - i - 1) c m = Some (b, c + (num - i - 1), m')"
      "rearr 0 num a b" "sorted_on (num - Suc i) num b" "parted (num - Suc i) num b" "m \<le> m'"
      "m' = m \<Longrightarrow> b = a" "m' = m \<longleftrightarrow> sorted_on 0 num a"
      by (rule bubble1_pass [OF 1(2-4) True, of c m]) (rule that)
    have in2: "bubble2_inner a 0 (num - i - 1) False c m = Some (b, m' \<noteq> m, c + (num - i - 1), m')"
      unfolding bubble2_inner_flag b(1) by simp
    show ?thesis
    proof (cases "m' = m")
      case eq: True
      then have "b = a" "sorted_on 0 num a" using b(6,7) by auto
      moreover have "2 * (c + (num - i - 1)) \<le> 2 * c + (num - i) * (num - i - 1)"
        unfolding triangle_step [OF True] by (simp only: add_mult_distrib2 add.assoc le_add1 add_le_cancel_left)
      ultimately show ?thesis
        using True in2 eq by (subst bubble2_outer.simps) auto
    next
      case False
      then obtain d c' m2 where d: "bubble2_outer b (Suc i) num (c + (num - i - 1)) m' = Some (d, c', m2)"
        "rearr 0 num b d" "sorted_on 0 num d"
        "2 * c' \<le> 2 * (c + (num - i - 1)) + (num - Suc i) * (num - Suc i - 1)"
        using 1(1) [OF dec, of b "c + (num - i - 1)" m'] le b 1(2) by (auto simp: rearr_length)
      have "2 * c' \<le> 2 * c + (num - i) * (num - i - 1)"
        using d(4) unfolding triangle_step [OF True] by (simp only: add_mult_distrib2 add.assoc)
      note cnt = this
      show ?thesis
        using True le False in2 b(2,7) d(1-3) cnt
        by (subst bubble2_outer.simps) (auto intro: rearr_trans)
    qed
  next
    case False
    then show ?thesis
      using 1(2-5) close_suffix [of "num - i" num a] by (subst bubble2_outer.simps) auto
  qed
qed

theorem bubble_version2_sorts:
  assumes "n \<le> length a"
  shows "\<exists>c m. bubble_version2 a n = Some (sorted_seg 0 n a, c, m) \<and> c \<le> n * (n - 1) div 2 \<and>
           (sorted_on 0 n a \<longrightarrow> c \<le> n - 1)"
proof -
  obtain b c' m' where b: "bubble_version2 a n = Some (b, c', m')" "rearr 0 n a b"
    "sorted_on 0 n b" "2 * c' \<le> n * (n - 1)" "sorted_on 0 n a \<longrightarrow> c' \<le> n - 1"
    using bubble2_outer_spec [of n a 0 0 0] assms by (auto simp: bubble_version2_def)
  have "b = sorted_seg 0 n a" using sorted_segI [of 0 n a b] b(2,3) assms by simp
  moreover have "c' \<le> n * (n - 1) div 2" using b(4) by simp
  ultimately show ?thesis using b(1,5) by auto
qed

section \<open>Selection sort is correct\<close>

lemma select_min_spec:
  assumes "i \<le> mi" "mi < j" "j \<le> num" "num \<le> length a" "\<forall>k. i \<le> k \<longrightarrow> k < j \<longrightarrow> a ! mi \<le> a ! k"
  shows "\<exists>mi'. select_min a mi j num c = Some (mi', c + (num - j)) \<and> i \<le> mi' \<and> mi' < num \<and>
           (\<forall>k. i \<le> k \<longrightarrow> k < num \<longrightarrow> a ! mi' \<le> a ! k)"
  using assms
proof (induction a mi j num c rule: select_min.induct)
  case (1 a mi j num c)
  show ?case
  proof (cases "j < num")
    case True
    let ?mi = "if a ! mi > a ! j then j else mi"
    have "\<forall>k. i \<le> k \<longrightarrow> k < Suc j \<longrightarrow> a ! ?mi \<le> a ! k"
      using 1(6) by (auto simp: less_Suc_eq intro: order_trans less_imp_le)
    then show ?thesis
      using 1(1) [of "a ! mi" "a ! j"] True 1(2-5) by (subst select_min.simps) auto
  next
    case False
    then show ?thesis using 1(2-6) by (subst select_min.simps) auto
  qed
qed

lemma select_outer_spec:
  assumes "num \<le> length a" "sorted_on 0 i a" "parted i num a" "i \<le> num"
  shows "\<exists>b c' m'. select_outer a i num c m = Some (b, c', m') \<and> rearr 0 num a b \<and> sorted_on 0 num b \<and>
           2 * c' = 2 * c + (num - i) * (num - i - 1) \<and> m' \<le> m + 3 * (num - i - 1)"
  using assms
proof (induction "num - i" arbitrary: a i c m rule: less_induct)
  case (less i a c m)
  show ?case
  proof (cases "i < num - 1")
    case True
    then have le: "Suc i \<le> num" and dec: "num - Suc i < num - i" by auto
    obtain mi where mi: "select_min a i (i + 1) num c = Some (mi, c + (num - (i + 1)))"
      "i \<le> mi" "mi < num" "\<forall>k. i \<le> k \<longrightarrow> k < num \<longrightarrow> a ! mi \<le> a ! k"
      using select_min_spec [of i i "i + 1" num a c] le less(2) by (auto simp: less_Suc_eq)
    define b m2 where "b = (if mi = i then a else exch a i mi)" and "m2 = (if mi = i then m else m + 3)"
    have re: "rearr i num a b" using mi(2,3) le less(2) by (auto simp: b_def intro: rearr_exch)
    have "\<forall>k. i \<le> k \<longrightarrow> k < num \<longrightarrow> b ! i \<le> b ! k"
      using mi(2-4) le less(2) by (auto simp: b_def nth_list_update)
    then have "sorted_on 0 (Suc i) b" "parted (Suc i) num b"
      using grow_prefix [OF less(3,4) re] le less(2) by auto
    then obtain d c' m' where d: "select_outer b (Suc i) num (c + (num - i - 1)) m2 = Some (d, c', m')"
      "rearr 0 num b d" "sorted_on 0 num d"
      "2 * c' = 2 * (c + (num - i - 1)) + (num - Suc i) * (num - Suc i - 1)"
      "m' \<le> m2 + 3 * (num - Suc i - 1)"
      using less(1) [OF dec, of b "c + (num - i - 1)" m2] le less(2) re by (auto simp: rearr_length)
    have "2 * c' = 2 * c + (num - i) * (num - i - 1)"
      unfolding d(4) triangle_step [OF True] by (simp only: add_mult_distrib2 add.assoc)
    moreover have "m' \<le> m + 3 * (num - i - 1)"
      using d(5) True by (auto simp: m2_def split: if_splits)
    moreover have "select_outer a i num c m = Some (d, c', m')"
      using True le mi(1-3) less(2) d(1)
      by (subst select_outer.simps) (auto simp: b_def m2_def split: if_splits)
    ultimately show ?thesis using d(2,3) re by (auto intro: rearr_trans rearr_mono)
  next
    case False
    then show ?thesis
      using less(2-5) close_prefix [of i a num] by (subst select_outer.simps) auto
  qed
qed

theorem select_sort_sorts:
  assumes "n \<le> length a"
  shows "\<exists>m. select_sort a n = Some (sorted_seg 0 n a, n * (n - 1) div 2, m) \<and> m \<le> 3 * (n - 1)"
proof -
  obtain b c' m' where b: "select_sort a n = Some (b, c', m')" "rearr 0 n a b"
    "sorted_on 0 n b" "2 * c' = n * (n - 1)" "m' \<le> 3 * (n - 1)"
    using select_outer_spec [of n a 0 0 0] assms by (auto simp: select_sort_def)
  have "b = sorted_seg 0 n a" using sorted_segI [of 0 n a b] b(2,3) assms by simp
  moreover have "c' = n * (n - 1) div 2" using b(4) by simp
  ultimately show ?thesis using b(1,5) by auto
qed

section \<open>Insertion sort is correct\<close>

text \<open>
  \<open>insert_shift\<close> moves a hole from \<open>p\<close> down to \<open>q\<close>; filling the hole with \<open>tmp\<close> before and after
  gives the same multiset.
\<close>

lemma insert_shift_spec:
  assumes "p < length a"
  shows "\<exists>b q c' m'. insert_shift a (int p - 1) tmp c m = Some (b, int q - 1, c', m') \<and> q \<le> p \<and>
           length b = length a \<and> (\<forall>k. k < q \<or> p < k \<longrightarrow> b ! k = a ! k) \<and>
           (\<forall>k. q < k \<longrightarrow> k \<le> p \<longrightarrow> b ! k = a ! (k - 1)) \<and>
           (\<forall>k. q \<le> k \<longrightarrow> k < p \<longrightarrow> tmp < a ! k) \<and> (0 < q \<longrightarrow> a ! (q - 1) \<le> tmp) \<and>
           mset (b[q := tmp]) = mset (a[p := tmp])"
  using assms
proof (induction p arbitrary: a c m)
  case 0
  then show ?case by (subst insert_shift.simps) (auto intro!: exI [of _ "0::nat"])
next
  case (Suc p)
  show ?case
  proof (cases "a ! p > tmp")
    case True
    let ?a = "a[Suc p := a ! p]"
    obtain b q c' m' where b: "insert_shift ?a (int p - 1) tmp (c + 1) (m + 1) = Some (b, int q - 1, c', m')"
      "q \<le> p" "length b = length ?a" "\<forall>k. k < q \<or> p < k \<longrightarrow> b ! k = ?a ! k"
      "\<forall>k. q < k \<longrightarrow> k \<le> p \<longrightarrow> b ! k = ?a ! (k - 1)"
      "\<forall>k. q \<le> k \<longrightarrow> k < p \<longrightarrow> tmp < ?a ! k" "0 < q \<longrightarrow> ?a ! (q - 1) \<le> tmp"
      "mset (b[q := tmp]) = mset (?a[p := tmp])"
      using Suc.IH [of ?a "c + 1" "m + 1"] Suc.prems by (metis Suc_lessD length_list_update)
    have "insert_shift a (int (Suc p) - 1) tmp c m = Some (b, int q - 1, c', m')"
      using True Suc.prems b(1) by (subst insert_shift.simps) (simp add: nat_add_distrib)
    moreover have "mset (b[q := tmp]) = mset (a[Suc p := tmp])"
      using b(8) mset_hole_step [of p a "Suc p" tmp] Suc.prems by simp
    moreover have "\<forall>k. k < q \<or> Suc p < k \<longrightarrow> b ! k = a ! k" using b(2,4) by auto
    moreover have "b ! k = a ! (k - 1)" if "q < k" "k \<le> Suc p" for k
      using that b(2,4,5) Suc.prems by (cases "k = Suc p") (auto simp: nth_list_update)
    moreover have "tmp < a ! k" if "q \<le> k" "k < Suc p" for k
      using that b(6) True by (cases "k = p") (auto simp: nth_list_update)
    moreover have "0 < q \<longrightarrow> a ! (q - 1) \<le> tmp" using b(2,7) by (auto simp: nth_list_update)
    ultimately show ?thesis
      using b(2,3) by (intro exI [of _ b] exI [of _ q] exI [of _ c'] exI [of _ m']) auto
  next
    case False
    then show ?thesis
      using Suc.prems by (subst insert_shift.simps) (auto intro!: exI [of _ "Suc p"])
  qed
qed

lemma insert_step:
  assumes "i < length a" "sorted_on 0 i a"
  obtains b q c' m' where "insert_shift a (int i - 1) (a ! i) c m = Some (b, int q - 1, c', m')"
    "q < length b" "rearr 0 (Suc i) a (b[q := a ! i])" "sorted_on 0 (Suc i) (b[q := a ! i])"
proof -
  obtain b q c' m' where b: "insert_shift a (int i - 1) (a ! i) c m = Some (b, int q - 1, c', m')"
    "q \<le> i" "length b = length a" "\<forall>k. k < q \<or> i < k \<longrightarrow> b ! k = a ! k"
    "\<forall>k. q < k \<longrightarrow> k \<le> i \<longrightarrow> b ! k = a ! (k - 1)" "\<forall>k. q \<le> k \<longrightarrow> k < i \<longrightarrow> a ! i < a ! k"
    "0 < q \<longrightarrow> a ! (q - 1) \<le> a ! i" "mset (b[q := a ! i]) = mset (a[i := a ! i])"
    using insert_shift_spec [OF assms(1), of "a ! i" c m] by metis
  have "rearr 0 (Suc i) a (b[q := a ! i])"
    using b(2,3,4,8) by (auto simp: rearr_def same_outside_def nth_list_update)
  moreover have "sorted_on 0 (Suc i) (b[q := a ! i])"
  proof (rule sorted_onI)
    fix x y assume xy: "x \<le> y" "y < Suc i"
    have low: "a ! x \<le> a ! i" if "x < q"
      using that b(2,7) sorted_onD [OF assms(2), of x "q - 1"] by force
    have val: "b[q := a ! i] ! z = (if z < q then a ! z else if z = q then a ! i else a ! (z - 1))"
      if "z \<le> i" for z
      using that b(2-5) assms(1) by auto
    have up: "a ! i \<le> a ! (y - 1)" if "q < y"
      using that xy b(6) by (simp add: less_imp_le)
    consider "y < q" | "y = q" | "x < q" "q < y" | "x = q" "q < y" | "q < x" using xy by linarith
    then show "b[q := a ! i] ! x \<le> b[q := a ! i] ! y"
    proof cases
      case 1 then show ?thesis using xy b(2,4) sorted_onD [OF assms(2), of x y] by simp
    next
      case 2 then show ?thesis using xy low val by (simp del: nth_list_update_neq nth_list_update_eq)
    next
      case 3 then show ?thesis using xy low up val by (simp del: nth_list_update_neq nth_list_update_eq)
    next
      case 4 then show ?thesis using xy up val by (simp del: nth_list_update_neq nth_list_update_eq)
    next
      case 5 then show ?thesis using xy val sorted_onD [OF assms(2), of "x - 1" "y - 1"] by (auto simp del: nth_list_update_neq nth_list_update_eq)
    qed
  qed
  ultimately show thesis using that b(1-3) assms(1) by auto
qed

lemma insert_outer_spec:
  assumes "num \<le> length a" "sorted_on 0 i a" "i \<le> num"
  shows "\<exists>b c' m'. insert_outer a i num c m = Some (b, c', m') \<and> rearr 0 num a b \<and> sorted_on 0 num b"
  using assms
proof (induction "num - i" arbitrary: a i c m rule: less_induct)
  case (less i a c m)
  show ?case
  proof (cases "i < num")
    case True
    then have dec: "num - Suc i < num - i" by simp
    from True less(2) have "i < length a" by simp
    then obtain b q c' m' where b: "insert_shift a (int i - 1) (a ! i) c m = Some (b, int q - 1, c', m')"
      "q < length b" "rearr 0 (Suc i) a (b[q := a ! i])" "sorted_on 0 (Suc i) (b[q := a ! i])"
      by (rule insert_step [OF _ less(3), of c m])
    then obtain d c2 m2 where d: "insert_outer (b[q := a ! i]) (Suc i) num c' (m' + 1) = Some (d, c2, m2)"
      "rearr 0 num (b[q := a ! i]) d" "sorted_on 0 num d"
      using less(1) [OF dec, of "b[q := a ! i]" c' "m' + 1"] True less(2) rearr_length [OF b(3)] by auto
    have "insert_outer a i num c m = Some (d, c2, m2)"
      using True less(2) b(1,2) d(1) by (subst insert_outer.simps) simp
    then show ?thesis
      using d(2,3) rearr_trans [OF rearr_mono [OF b(3), of 0 num] d(2)] True by auto
  next
    case False
    then show ?thesis using less(2-4) by (subst insert_outer.simps) (auto intro: rearr_refl)
  qed
qed

theorem insert_sort1_sorts:
  assumes "n \<le> length a"
  shows "\<exists>c m. insert_sort1 a n = Some (sorted_seg 0 n a, c, m)"
proof (cases "n = 0")
  case True
  then show ?thesis
    by (simp add: insert_sort1_def insert_outer.simps [of a "Suc 0"] sorted_seg_trivial)
next
  case False
  then obtain b c' m' where b: "insert_sort1 a n = Some (b, c', m')" "rearr 0 n a b" "sorted_on 0 n b"
    using insert_outer_spec [of n a 1 0 0] assms by (auto simp: insert_sort1_def)
  then show ?thesis using sorted_segI [of 0 n a b] assms by auto
qed

section \<open>copy\_arr\<close>

lemma copy_arr_loop_spec:
  assumes "i \<le> num" "num \<le> length dst" "num \<le> length src"
  shows "copy_arr_loop dst src num i = Some (take i dst @ take (num - i) (drop i src) @ drop num dst)"
  using assms
proof (induction "num - i" arbitrary: dst i)
  case 0
  then show ?case by (subst copy_arr_loop.simps) simp
next
  case (Suc n)
  then have i: "i < num" by simp
  have "copy_arr_loop dst src num i = copy_arr_loop (dst[i := src ! i]) src num (Suc i)"
    using i Suc.prems by (subst copy_arr_loop.simps) simp
  also have "\<dots> = Some (take (Suc i) (dst[i := src ! i]) @ take (num - Suc i) (drop (Suc i) src) @ drop num dst)"
    using Suc i by (subst Suc.hyps(1)) auto
  also have "take (Suc i) (dst[i := src ! i]) = take i dst @ [src ! i]"
    using i Suc.prems by (simp add: take_Suc_conv_app_nth)
  also have "take (num - i) (drop i src) = src ! i # take (num - Suc i) (drop (Suc i) src)"
    using i Suc.prems by (metis Cons_nth_drop_Suc Suc_diff_Suc less_le_trans take_Suc_Cons)
  ultimately show ?case by simp
qed

lemma copy_arr_spec:
  "n \<le> length dst \<Longrightarrow> n \<le> length src \<Longrightarrow> copy_arr dst src n = Some (take n src @ drop n dst)"
  by (simp add: copy_arr_def copy_arr_loop_spec)

section \<open>The contract of a sort\<close>

text \<open>
  \<open>sorter a n\<close> sorts the \<open>n\<close> cells of \<open>a\<close> from \<open>lo\<close> on, for every \<open>n\<close> that satisfies \<open>ok\<close> and fits
  in the array: it returns, touches no other cell, and the segment is the sorted rearrangement.
\<close>

locale segment_sorter =
  fixes sorter :: "int list \<Rightarrow> nat \<Rightarrow> int list option"
    and lo :: nat
    and ok :: "nat \<Rightarrow> bool"
  assumes sorts: "ok n \<Longrightarrow> lo + n \<le> length a \<Longrightarrow> sorter a n = Some (sorted_seg lo n a)"
begin

lemma returns: "ok n \<Longrightarrow> lo + n \<le> length a \<Longrightarrow> sorter a n \<noteq> None"
  by (simp add: sorts)

lemma idempotent:
  assumes "ok n" "lo + n \<le> length a"
  shows "Option.bind (sorter a n) (\<lambda>b. sorter b n) = sorter a n"
  using assms by (simp add: sorts sorted_seg_idem)

lemma permutes:
  assumes "ok n" "lo + n \<le> length a" "sorter a n = Some b"
  shows "mset b = mset a" "length b = length a"
  using assms by (auto simp: sorts)

lemma agree:
  assumes "segment_sorter other lo ok'" "ok n" "ok' n" "lo + n \<le> length a"
  shows "sorter a n = other a n"
  using assms by (simp add: sorts segment_sorter.sorts)

end


definition arr_of :: "(int list \<times> nat \<times> nat) option \<Rightarrow> int list option" where
  "arr_of = map_option fst"

interpretation bubble0: segment_sorter "\<lambda>a n. arr_of (bubble_version0 a n)" 0 "\<lambda>_. True"
  using bubble_version0_sorts by unfold_locales (force simp: arr_of_def)

interpretation bubble1: segment_sorter "\<lambda>a n. arr_of (bubble_version1 a n)" 0 "\<lambda>_. True"
  using bubble_version1_sorts by unfold_locales (force simp: arr_of_def)

interpretation bubble2: segment_sorter "\<lambda>a n. arr_of (bubble_version2 a n)" 0 "\<lambda>_. True"
  using bubble_version2_sorts by unfold_locales (force simp: arr_of_def)

interpretation selection: segment_sorter "\<lambda>a n. arr_of (select_sort a n)" 0 "\<lambda>_. True"
  using select_sort_sorts by unfold_locales (force simp: arr_of_def)

interpretation insertion: segment_sorter "\<lambda>a n. arr_of (insert_sort1 a n)" 0 "\<lambda>_. True"
  using insert_sort1_sorts by unfold_locales (force simp: arr_of_def)

end
