(* ===== verification/SortShellHeap.thy ===== *)
theory SortShellHeap
  imports SortBasic
begin

text \<open>
  Shell sort (\<open>4.shell.c\<close>) and the two heap sorts (\<open>5.heap.c\<close>) of
  \<open>3.ybx/20.ds/2.ds/6.sort\<close>.  The last pass of shell sort is insertion sort, which gives its
  correctness; the 1-based heap sort is shown equal to the 0-based one on the shifted array, and
  the 0-based one is proved with the heap property and the sift-down invariant.
\<close>

section \<open>Shell sort\<close>

function shell_shift ::
  "int list \<Rightarrow> int \<Rightarrow> int \<Rightarrow> nat \<Rightarrow> nat \<Rightarrow> nat \<Rightarrow> (int list \<times> int \<times> nat \<times> nat) option" where
  "shell_shift a j tmp gap c m =
     (if j \<ge> 0 \<and> gap > 0 then do {
        x \<leftarrow> rd a (nat j);
        if x > tmp then do {
          a1 \<leftarrow> wr a (nat (j + int gap)) x;
          shell_shift a1 (j - int gap) tmp gap (c + 1) (m + 1) }
        else Some (a, j, c + 1, m) }
      else Some (a, j, c, m))"
  by pat_completeness auto
termination by (relation "measure (\<lambda>(a, j, tmp, gap, c, m). nat (j + 1))") auto
declare shell_shift.simps [simp del]

function shell_pass ::
  "int list \<Rightarrow> nat \<Rightarrow> nat \<Rightarrow> nat \<Rightarrow> nat \<Rightarrow> nat \<Rightarrow> (int list \<times> nat \<times> nat) option" where
  "shell_pass a i len gap c m =
     (if i < len then do {
        tmp \<leftarrow> rd a i;
        (a1, j, c1, m1) \<leftarrow> shell_shift a (int i - int gap) tmp gap c m;
        a2 \<leftarrow> wr a1 (nat (j + int gap)) tmp;
        shell_pass a2 (Suc i) len gap c1 (m1 + 1) }
      else Some (a, c, m))"
  by pat_completeness auto
termination by (relation "measure (\<lambda>(a, i, len, gap, c, m). len - i)") auto
declare shell_pass.simps [simp del]

function shell_gaps ::
  "int list \<Rightarrow> nat \<Rightarrow> nat \<Rightarrow> nat \<Rightarrow> nat \<Rightarrow> (int list \<times> nat \<times> nat) option" where
  "shell_gaps a gap len c m =
     (if gap > 0 then do {
        (a1, c1, m1) \<leftarrow> shell_pass a gap len gap c m;
        shell_gaps a1 (gap div 2) len c1 m1 }
      else Some (a, c, m))"
  by pat_completeness auto
termination by (relation "measure (\<lambda>(a, gap, len, c, m). gap)") auto
declare shell_gaps.simps [simp del]

definition shell_sort1 :: "int list \<Rightarrow> nat \<Rightarrow> (int list \<times> nat \<times> nat) option" where
  "shell_sort1 a len = shell_gaps a (len div 2) len 0 0"

text \<open>With a gap of one the inner loops are those of insertion sort.\<close>

lemma shell_shift_1: "shell_shift a j tmp (Suc 0) c m = insert_shift a j tmp c m"
proof (induction a j tmp c m rule: insert_shift.induct)
  case (1 a j tmp c m)
  show ?case
    using 1 [of "a ! nat j" "a[nat (j + 1) := a ! nat j]"]
    by (subst shell_shift.simps, subst insert_shift.simps) (auto simp: rd_def wr_def)
qed

lemma shell_pass_1: "shell_pass a i len (Suc 0) c m = insert_outer a i len c m"
proof (induction "len - i" arbitrary: a i c m rule: less_induct)
  case less
  have step: "shell_pass b (Suc i) len (Suc 0) c' m' = insert_outer b (Suc i) len c' m'"
    if "i < len" for b c' m'
    using that by (intro less) (rule diff_less_mono2; simp)
  show ?case
    by (subst shell_pass.simps, subst insert_outer.simps) (simp add: shell_shift_1 step)
qed

text \<open>Any gap: the pass is a rearrangement and stays in the array.\<close>

lemma shell_shift_spec:
  assumes "p < length a" "0 < gap"
  shows "\<exists>b q c' m'. shell_shift a (int p - int gap) tmp gap c m = Some (b, int q - int gap, c', m') \<and>
           q \<le> p \<and> length b = length a \<and> (\<forall>k. p < k \<longrightarrow> b ! k = a ! k) \<and>
           mset (b[q := tmp]) = mset (a[p := tmp])"
  using assms
proof (induction p arbitrary: a c m rule: less_induct)
  case (less p)
  show ?case
  proof (cases "gap \<le> p \<and> tmp < a ! (p - gap)")
    case True
    let ?a = "a[p := a ! (p - gap)]"
    have pg: "nat (int p - int gap) = p - gap" "int p - int gap - int gap = int (p - gap) - int gap"
      using True by auto
    have lt: "p - gap < p" "p - gap < length a" using less.prems True by auto
    obtain b q c' m' where b:
      "shell_shift ?a (int (p - gap) - int gap) tmp gap (c + 1) (m + 1) = Some (b, int q - int gap, c', m')"
      "q \<le> p - gap" "length b = length ?a" "\<forall>k. p - gap < k \<longrightarrow> b ! k = ?a ! k"
      "mset (b[q := tmp]) = mset (?a[p - gap := tmp])"
      using less.IH [OF lt(1), of ?a "c + 1" "m + 1"] lt(2) less.prems by auto
    have "shell_shift a (int p - int gap) tmp gap c m = Some (b, int q - int gap, c', m')"
      using True less.prems b(1) [folded pg(2)] by (subst shell_shift.simps) (simp add: pg(1))
    moreover have "mset (b[q := tmp]) = mset (a[p := tmp])"
      using b(5) mset_hole_step [OF lt(2) less.prems(1) less_imp_neq [OF lt(1)]] by simp
    moreover have "\<forall>k. p < k \<longrightarrow> b ! k = a ! k" using b(4) by auto
    ultimately show ?thesis
      using b(2,3) by (intro exI [of _ b] exI [of _ q] exI [of _ c'] exI [of _ m']) auto
  next
    case False
    have "nat (int p - int gap) = p - gap" by simp
    then show ?thesis
      using False less.prems by (subst shell_shift.simps) (auto intro!: exI [of _ p])
  qed
qed

lemma shell_pass_rearr:
  assumes "len \<le> length a" "0 < gap"
  shows "\<exists>b c' m'. shell_pass a i len gap c m = Some (b, c', m') \<and> rearr 0 len a b"
  using assms
proof (induction "len - i" arbitrary: a i c m rule: less_induct)
  case less
  show ?case
  proof (cases "i < len")
    case True
    then have i: "i < length a" and dec: "len - Suc i < len - i" using less(2) by auto
    obtain b q c' m' where b: "shell_shift a (int i - int gap) (a ! i) gap c m = Some (b, int q - int gap, c', m')"
      "q \<le> i" "length b = length a" "\<forall>k. i < k \<longrightarrow> b ! k = a ! k" "mset (b[q := a ! i]) = mset (a[i := a ! i])"
      using shell_shift_spec [OF i less(3), of "a ! i" c m] by blast
    have re: "rearr 0 len a (b[q := a ! i])"
      using b(2-5) True by (auto simp: rearr_def same_outside_def)
    obtain d c2 m2 where "shell_pass (b[q := a ! i]) (Suc i) len gap c' (m' + 1) = Some (d, c2, m2)"
      "rearr 0 len (b[q := a ! i]) d"
      using less(1) [OF dec, of "b[q := a ! i]" c' "m' + 1"] less(2,3) b(3) by auto
    then show ?thesis
      using True i b(1-3) re by (subst shell_pass.simps) (auto intro: rearr_trans)
  next
    case False
    then show ?thesis by (subst shell_pass.simps) auto
  qed
qed

lemma shell_gaps_spec:
  assumes "len \<le> length a" "0 < gap"
  shows "\<exists>b c' m'. shell_gaps a gap len c m = Some (b, c', m') \<and> rearr 0 len a b \<and> sorted_on 0 len b"
  using assms
proof (induction gap arbitrary: a c m rule: less_induct)
  case (less gap)
  show ?case
  proof (cases "gap = 1")
    case True
    obtain b c' m' where "insert_outer a 1 len c m = Some (b, c', m')" "rearr 0 len a b" "sorted_on 0 len b"
    proof (cases "len = 0")
      case len: True
      then show ?thesis using that [of a c m] by (simp add: insert_outer.simps [of a "Suc 0"])
    next
      case False
      then show ?thesis using insert_outer_spec [of len a 1 c m] less(2) that by auto
    qed
    then show ?thesis
      using True by (subst shell_gaps.simps) (simp add: shell_pass_1 shell_gaps.simps [of _ 0])
  next
    case False
    obtain b c' m' where b: "shell_pass a gap len gap c m = Some (b, c', m')" "rearr 0 len a b"
      using shell_pass_rearr [OF less(2,3)] by blast
    then obtain d c2 m2 where "shell_gaps b (gap div 2) len c' m' = Some (d, c2, m2)"
      "rearr 0 len b d" "sorted_on 0 len d"
      using less(1) [of "gap div 2" b c' m'] False less(2,3) rearr_length [OF b(2)] by auto
    then show ?thesis
      using b less(3) by (subst shell_gaps.simps) (auto intro: rearr_trans)
  qed
qed

theorem shell_sort1_sorts:
  assumes "n \<le> length a"
  shows "\<exists>c m. shell_sort1 a n = Some (sorted_seg 0 n a, c, m)"
proof (cases "n \<le> 1")
  case True
  then show ?thesis by (simp add: shell_sort1_def shell_gaps.simps [of a 0] sorted_seg_trivial)
next
  case False
  then have "0 < n div 2" by simp
  then obtain b c m where "shell_sort1 a n = Some (b, c, m)" "rearr 0 n a b" "sorted_on 0 n b"
    using shell_gaps_spec [OF assms, of "n div 2" 0 0] by (auto simp: shell_sort1_def)
  then show ?thesis using sorted_segI [of 0 n a b] assms by auto
qed

interpretation shell: segment_sorter "\<lambda>a n. arr_of (shell_sort1 a n)" 0 "\<lambda>_. True"
  using shell_sort1_sorts by unfold_locales (force simp: arr_of_def)

section \<open>Heap sort\<close>

text \<open>
  The loop of \<open>heap_adjust2\<close>: \<open>start\<close> is the hole, \<open>i\<close> the left child of the hole.  It returns the
  array with the final hole; the function then stores \<open>tmp\<close> there.  \<open>c\<close> and \<open>m\<close> are the file's
  static counters \<open>compare_times\<close> and \<open>move_times\<close>.
\<close>

function adjust2_loop ::
  "int list \<Rightarrow> nat \<Rightarrow> nat \<Rightarrow> int \<Rightarrow> nat \<Rightarrow> nat \<Rightarrow> nat \<Rightarrow> (int list \<times> nat \<times> nat \<times> nat) option" where
  "adjust2_loop a start i tmp num c m =
     (if i < num then do {
        i' \<leftarrow> (if i + 1 < num then do {
                 x \<leftarrow> rd a i;
                 y \<leftarrow> rd a (i + 1);
                 Some (if x < y then i + 1 else i) }
               else Some i);
        v \<leftarrow> rd a i';
        if tmp \<ge> v then Some (a, start, c + 1, m)
        else do {
          a1 \<leftarrow> wr a start v;
          adjust2_loop a1 i' (2 * i' + 1) tmp num (c + 1) (m + 1) } }
      else Some (a, start, c, m))"
  by pat_completeness auto
termination
  by (relation "measure (\<lambda>(a, start, i, tmp, num, c, m). num - i)")
    (auto split: if_splits bind_splits simp: rd_eq_Some_iff)
declare adjust2_loop.simps [simp del]

definition heap_adjust2 ::
  "int list \<Rightarrow> nat \<Rightarrow> nat \<Rightarrow> nat \<Rightarrow> nat \<Rightarrow> (int list \<times> nat \<times> nat) option" where
  "heap_adjust2 a start num c m = do {
     tmp \<leftarrow> rd a start;
     (a1, start1, c1, m1) \<leftarrow> adjust2_loop a start (2 * start + 1) tmp num c m;
     a2 \<leftarrow> wr a1 start1 tmp;
     Some (a2, c1, m1 + 1) }"

text \<open>The two loops of \<open>heap_sort2\<close>; the recursion argument is the loop variable plus one in
  \<open>build2\<close> and the loop variable in \<open>extract2\<close>.\<close>

fun build2 :: "int list \<Rightarrow> nat \<Rightarrow> nat \<Rightarrow> nat \<Rightarrow> nat \<Rightarrow> (int list \<times> nat \<times> nat) option" where
  "build2 a 0 num c m = Some (a, c, m)"
| "build2 a (Suc i) num c m = do {
     (a1, c1, m1) \<leftarrow> heap_adjust2 a i num c m;
     build2 a1 i num c1 m1 }"

fun extract2 :: "int list \<Rightarrow> nat \<Rightarrow> nat \<Rightarrow> nat \<Rightarrow> (int list \<times> nat \<times> nat) option" where
  "extract2 a 0 c m = Some (a, c, m)"
| "extract2 a (Suc i) c m = do {
     a1 \<leftarrow> swap a 0 (Suc i);
     (a2, c1, m1) \<leftarrow> heap_adjust2 a1 0 (Suc i) c (m + 3);
     extract2 a2 i c1 m1 }"

definition heap_sort2 :: "int list \<Rightarrow> nat \<Rightarrow> (int list \<times> nat \<times> nat) option" where
  "heap_sort2 a num = do {
     (a1, c1, m1) \<leftarrow> build2 a (num div 2) num 0 0;
     extract2 a1 (num - 1) c1 m1 }"

text \<open>The version whose data start at index 1 (no counters).\<close>

function adjust1_loop ::
  "int list \<Rightarrow> nat \<Rightarrow> nat \<Rightarrow> int \<Rightarrow> nat \<Rightarrow> (int list \<times> nat) option" where
  "adjust1_loop a start i tmp num =
     (if 0 < i \<and> i \<le> num then do {
        i' \<leftarrow> (if i < num then do {
                 x \<leftarrow> rd a i;
                 y \<leftarrow> rd a (i + 1);
                 Some (if x < y then i + 1 else i) }
               else Some i);
        v \<leftarrow> rd a i';
        if tmp \<ge> v then Some (a, start)
        else do {
          a1 \<leftarrow> wr a start v;
          adjust1_loop a1 i' (i' * 2) tmp num } }
      else Some (a, start))"
  by pat_completeness auto
termination
  by (relation "measure (\<lambda>(a, start, i, tmp, num). Suc num - i)")
    (auto split: if_splits bind_splits simp: rd_eq_Some_iff)
declare adjust1_loop.simps [simp del]

definition heap_adjust1 :: "int list \<Rightarrow> nat \<Rightarrow> nat \<Rightarrow> int list option" where
  "heap_adjust1 a start num = do {
     tmp \<leftarrow> rd a start;
     (a1, start1) \<leftarrow> adjust1_loop a start (2 * start) tmp num;
     wr a1 start1 tmp }"

fun build1 :: "int list \<Rightarrow> nat \<Rightarrow> nat \<Rightarrow> int list option" where
  "build1 a 0 num = Some a"
| "build1 a (Suc i) num = do {
     a1 \<leftarrow> heap_adjust1 a (Suc i) num;
     build1 a1 i num }"

function extract1 :: "int list \<Rightarrow> nat \<Rightarrow> int list option" where
  "extract1 a i =
     (if i > 1 then do {
        a1 \<leftarrow> swap a 1 i;
        a2 \<leftarrow> heap_adjust1 a1 1 (i - 1);
        extract1 a2 (i - 1) }
      else Some a)"
  by pat_completeness auto
termination by (relation "measure (\<lambda>(a, i). i)") auto
declare extract1.simps [simp del]

definition heap_sort1 :: "int list \<Rightarrow> nat \<Rightarrow> int list option" where
  "heap_sort1 a num = do {
     a1 \<leftarrow> build1 a (num div 2) num;
     extract1 a1 num }"

subsection \<open>Sifting down restores the heap\<close>

definition child :: "nat \<Rightarrow> nat \<Rightarrow> bool" where
  "child k c \<longleftrightarrow> c = 2 * k + 1 \<or> c = 2 * k + 2"

lemma child_gt: "child k c \<Longrightarrow> k < c"
  by (auto simp: child_def)

lemma child_unique: "child k c \<Longrightarrow> child k' c \<Longrightarrow> k = k'"
  by (auto simp: child_def)

definition hp :: "nat \<Rightarrow> nat \<Rightarrow> int list \<Rightarrow> bool" where
  "hp s num a \<longleftrightarrow> (\<forall>k c. s \<le> k \<longrightarrow> child k c \<longrightarrow> c < num \<longrightarrow> a ! c \<le> a ! k)"

lemma hpD: "hp s num a \<Longrightarrow> s \<le> k \<Longrightarrow> child k c \<Longrightarrow> c < num \<Longrightarrow> a ! c \<le> a ! k"
  by (auto simp: hp_def)

text \<open>
  \<open>v\<close> is a heap on \<open>[s, num)\<close> except at \<open>hole\<close>, whose children are still below its parent.
\<close>

definition hole_inv :: "nat \<Rightarrow> nat \<Rightarrow> nat \<Rightarrow> int list \<Rightarrow> bool" where
  "hole_inv s hole num v \<longleftrightarrow>
     (\<forall>k c. s \<le> k \<longrightarrow> k \<noteq> hole \<longrightarrow> child k c \<longrightarrow> c < num \<longrightarrow> v ! c \<le> v ! k) \<and>
     (\<forall>p c. s \<le> p \<longrightarrow> child p hole \<longrightarrow> child hole c \<longrightarrow> c < num \<longrightarrow> v ! c \<le> v ! p)"

lemma hole_inv_sink:
  assumes inv: "hole_inv s h num v" and h: "s \<le> h" "child h i" "i < num" "num \<le> length v"
    and big: "\<And>c. child h c \<Longrightarrow> c < num \<Longrightarrow> v ! c \<le> v ! i" and lt: "v ! h < v ! i"
  shows "hole_inv s i num (exch v h i)"
  unfolding hole_inv_def
proof (intro conjI allI impI)
  have hi: "h < i" using h(2) by (rule child_gt)
  then have len: "h < length v" "i < length v" using h by auto
  note val = nth_exch [OF len]
  fix k c
  assume kc: "s \<le> k" "k \<noteq> i" "child k c" "c < num"
  show "exch v h i ! c \<le> exch v h i ! k"
  proof (cases "k = h")
    case True
    then show ?thesis using kc big [of c] lt hi child_gt [OF kc(3)] by (simp add: val)
  next
    case kh: False
    have "c \<noteq> i" using kh child_unique [OF h(2)] kc(3) by auto
    moreover have "v ! i \<le> v ! k" if "c = h"
      using inv that kc h(2,3) by (auto simp: hole_inv_def)
    moreover have "v ! c \<le> v ! k" using inv kc kh by (auto simp: hole_inv_def)
    ultimately show ?thesis using kh kc by (simp add: val)
  qed
next
  have hi: "h < i" using h(2) by (rule child_gt)
  then have len: "h < length v" "i < length v" using h by auto
  fix p c
  assume pc: "s \<le> p" "child p i" "child i c" "c < num"
  then have "p = h" using child_unique [OF h(2)] by auto
  moreover have "v ! c \<le> v ! i" using inv pc h(1) hi by (auto simp: hole_inv_def)
  ultimately show "exch v h i ! c \<le> exch v h i ! p"
    using hi child_gt [OF pc(3)] by (simp add: nth_exch [OF len])
qed

lemma adjust2_loop_spec:
  assumes "s \<le> h" "h < num" "num \<le> length a" "hole_inv s h num (a[h := tmp])"
  shows "\<exists>b st c' m'. adjust2_loop a h (2 * h + 1) tmp num c m = Some (b, st, c', m') \<and> st < num \<and>
           length b = length a \<and> hp s num (b[st := tmp]) \<and>
           rearr s num (a[h := tmp]) (b[st := tmp])"
  using assms
proof (induction "num - h" arbitrary: a h c m rule: less_induct)
  case less
  let ?v = "a[h := tmp]"
  show ?case
  proof (cases "2 * h + 1 < num")
    case True
    define i where "i = (if 2 * h + 2 < num \<and> a ! (2 * h + 1) < a ! (2 * h + 2) then 2 * h + 2 else 2 * h + 1)"
    have i: "child h i" "i < num" "i \<noteq> h" using True by (auto simp: i_def child_def)
    have il: "i < length a" "h < length a" using i less.prems by auto
    have big: "?v ! c \<le> ?v ! i" if "child h c" "c < num" for c
      using that i(3) child_gt [OF that(1)] by (auto simp: i_def child_def)
    have step: "adjust2_loop a h (2 * h + 1) tmp num c m =
        (if tmp \<ge> a ! i then Some (a, h, c + 1, m)
         else adjust2_loop (a[h := a ! i]) i (2 * i + 1) tmp num (c + 1) (m + 1))"
      using True less.prems(3) by (subst adjust2_loop.simps) (auto simp: i_def)
    show ?thesis
    proof (cases "tmp \<ge> a ! i")
      case True
      have "hp s num ?v"
        unfolding hp_def
      proof (intro allI impI)
        fix k c assume "s \<le> k" "child k c" "c < num"
        then show "?v ! c \<le> ?v ! k"
          using big [of c] True i(3) il less.prems(4) by (cases "k = h") (auto simp: hole_inv_def)
      qed
      then show ?thesis using True step less.prems(2) by auto
    next
      case False
      let ?a = "a[h := a ! i]"
      have eq: "?a[i := tmp] = exch ?v h i"
        using hole_step [OF il(1,2) i(3)] i(3) il by (simp add: list_update_swap)
      have dec: "num - i < num - h" using child_gt [OF i(1)] i(2) by simp
      have "hole_inv s i num (?a[i := tmp])"
        unfolding eq using hole_inv_sink [OF less.prems(4,1) i(1,2) _ big] less.prems(3) False il i(3)
        by simp
      then obtain b st c' m' where b:
        "adjust2_loop ?a i (2 * i + 1) tmp num (c + 1) (m + 1) = Some (b, st, c', m')" "st < num"
        "length b = length ?a" "hp s num (b[st := tmp])" "rearr s num (?a[i := tmp]) (b[st := tmp])"
        using less.hyps [OF dec _ i(2), of ?a "c + 1" "m + 1"] less.prems(1,3) child_gt [OF i(1)] by auto
      have "rearr s num ?v (?a[i := tmp])"
        unfolding eq using less.prems i child_gt [OF i(1)] by (intro rearr_exch) auto
      then show ?thesis using step False b by (auto intro: rearr_trans)
    qed
  next
    case False
    have "hp s num ?v"
      using less.prems(4) False by (auto simp: hp_def hole_inv_def child_def)
    then show ?thesis using False less.prems(2) by (subst adjust2_loop.simps) auto
  qed
qed

lemma heap_adjust2_spec:
  assumes "s < num" "num \<le> length a" "hp (Suc s) num a"
  shows "\<exists>b c' m'. heap_adjust2 a s num c m = Some (b, c', m') \<and> hp s num b \<and> rearr s num a b"
proof -
  have "hole_inv s s num (a[s := a ! s])"
    using assms(3) by (auto simp: hole_inv_def hp_def dest: child_gt)
  then obtain b st c' m' where
    "adjust2_loop a s (2 * s + 1) (a ! s) num c m = Some (b, st, c', m')" "st < num"
    "length b = length a" "hp s num (b[st := a ! s])" "rearr s num (a[s := a ! s]) (b[st := a ! s])"
    using adjust2_loop_spec [OF order_refl assms(1,2)] by blast
  then show ?thesis using assms by (simp add: heap_adjust2_def)
qed

lemma build2_spec:
  assumes "i \<le> num" "num \<le> length a" "hp i num a"
  shows "\<exists>b c' m'. build2 a i num c m = Some (b, c', m') \<and> hp 0 num b \<and> rearr 0 num a b"
  using assms
proof (induction i arbitrary: a c m)
  case (Suc i)
  then obtain b c' m' where b: "heap_adjust2 a i num c m = Some (b, c', m')" "hp i num b" "rearr i num a b"
    using heap_adjust2_spec [of i num a c m] by auto
  then obtain d c2 m2 where "build2 b i num c' m' = Some (d, c2, m2)" "hp 0 num d" "rearr 0 num b d"
    using Suc.IH [of b c' m'] Suc.prems rearr_length [OF b(3)] by auto
  then show ?case using b rearr_mono [OF b(3), of 0 num] by (auto intro: rearr_trans)
qed simp

lemma hp_root:
  assumes "hp 0 num a" "k < num"
  shows "a ! k \<le> a ! 0"
  using assms(2)
proof (induction k rule: less_induct)
  case (less k)
  show ?case
  proof (cases "k = 0")
    case False
    then have "child ((k - 1) div 2) k" "(k - 1) div 2 < k" by (auto simp: child_def)
    then show ?thesis
      using hpD [OF assms(1), of "(k - 1) div 2" k] less by force
  qed simp
qed

lemma sorted_parted_rearr:
  assumes "rearr 0 h a b" "h \<le> num" "num \<le> length a" "sorted_on h num a" "parted h num a"
  shows "sorted_on h num b" "parted h num b"
proof -
  have keep: "b ! k = a ! k" if "h \<le> k" "k < num" for k
    using that assms(3) by (intro rearr_outside [OF assms(1)]) auto
  show "sorted_on h num b" using assms(4) keep by (auto simp: sorted_on_def)
  show "parted h num b"
    unfolding parted_def
    using rearr_ball [OF assms(1), of "\<lambda>v. v \<le> a ! _"] assms(2,3,5) keep
    by (auto simp: parted_def)
qed

lemma extract2_spec:
  assumes "Suc i \<le> num" "num \<le> length a" "hp 0 (Suc i) a" "sorted_on (Suc i) num a" "parted (Suc i) num a"
  shows "\<exists>b c' m'. extract2 a i c m = Some (b, c', m') \<and> rearr 0 num a b \<and> sorted_on 0 num b"
  using assms
proof (induction i arbitrary: a c m)
  case 0
  then show ?case using close_suffix [of "Suc 0" num a] by auto
next
  case (Suc i)
  let ?h = "Suc i"
  let ?b = "exch a 0 ?h"
  have len: "0 < length a" "?h < length a" using Suc.prems by auto
  have re: "rearr 0 (Suc ?h) a ?b" using Suc.prems by (intro rearr_exch) auto
  have "\<forall>k \<le> ?h. ?b ! k \<le> ?b ! ?h"
    using hp_root [OF Suc.prems(3)] by (auto simp: nth_exch [OF len])
  then have sp: "sorted_on ?h num ?b" "parted ?h num ?b"
    using grow_suffix [OF Suc.prems(4,5) re] Suc.prems(1,2) by auto
  have "hp (Suc 0) ?h ?b"
    using Suc.prems(3) by (auto simp: hp_def nth_exch [OF len] dest: child_gt)
  then obtain d c1 m1 where d: "heap_adjust2 ?b 0 ?h c (m + 3) = Some (d, c1, m1)" "hp 0 ?h d" "rearr 0 ?h ?b d"
    using heap_adjust2_spec [of 0 ?h ?b c "m + 3"] Suc.prems(1,2) by auto
  have "sorted_on ?h num d" "parted ?h num d"
    using sorted_parted_rearr [OF d(3) _ _ sp] Suc.prems(1,2) by auto
  then obtain e c2 m2 where e: "extract2 d i c1 m1 = Some (e, c2, m2)" "rearr 0 num d e" "sorted_on 0 num e"
    using Suc.IH [of d c1 m1] Suc.prems(1,2) d(2) rearr_length [OF d(3)] by auto
  have "rearr 0 num a d"
    using rearr_trans [OF rearr_mono [OF re, of 0 num] rearr_mono [OF d(3), of 0 num]] Suc.prems(1) by simp
  then show ?case using e d(1) len by (auto intro: rearr_trans)
qed

theorem heap_sort2_sorts:
  assumes "n \<le> length a"
  shows "\<exists>c m. heap_sort2 a n = Some (sorted_seg 0 n a, c, m)"
proof -
  have "hp (n div 2) n a" by (auto simp: hp_def child_def)
  then obtain b c m where b: "build2 a (n div 2) n 0 0 = Some (b, c, m)" "hp 0 n b" "rearr 0 n a b"
    using build2_spec [of "n div 2" n a 0 0] assms by auto
  show ?thesis
  proof (cases n)
    case 0
    then show ?thesis by (simp add: heap_sort2_def sorted_seg_trivial)
  next
    case (Suc k)
    then obtain d c2 m2 where "extract2 b k c m = Some (d, c2, m2)" "rearr 0 n b d" "sorted_on 0 n d"
      using extract2_spec [of k n b c m] b assms rearr_length [OF b(3)] by auto
    then show ?thesis
      using b Suc assms sorted_segI [of 0 n a d] rearr_trans [of 0 n a b d]
      by (auto simp: heap_sort2_def)
  qed
qed

interpretation heap2: segment_sorter "\<lambda>a n. arr_of (heap_sort2 a n)" 0 "\<lambda>_. True"
  using heap_sort2_sorts by unfold_locales (force simp: arr_of_def)

subsection \<open>The 1-based version is the 0-based one, shifted\<close>

lemma adjust1_loop_shift:
  "adjust1_loop (x # a) (Suc h) (2 * h + 2) tmp num =
   map_option (\<lambda>(b, st, _). (x # b, Suc st)) (adjust2_loop a h (2 * h + 1) tmp num c m)"
proof (induction "num - h" arbitrary: a h c m rule: less_induct)
  case less
  have rec: "adjust1_loop (x # b) (Suc i') (Suc i' * 2) tmp num =
      map_option (\<lambda>(b, st, _). (x # b, Suc st)) (adjust2_loop b i' (2 * i' + 1) tmp num (c + 1) (m + 1))"
    if "i' = 2 * h + 1 \<or> i' = 2 * h + 2" "2 * h + 1 < num" for i' b
  proof -
    have "num - i' < num - h" using that by auto
    then show ?thesis using less [of i' b "c + 1" "m + 1"] by (simp add: mult.commute)
  qed
  have sub: "rd (x # a) (Suc k) = rd a k" "wr (x # a) (Suc k) v = map_option ((#) x) (wr a k v)" for k v
    by (auto simp: rd_def wr_def)
  show ?case
    using rec [of "2 * h + 1"] rec [of "2 * h + 2"]
    by (subst adjust1_loop.simps, subst adjust2_loop.simps)
      (auto simp: sub rd_def wr_def numeral_eq_Suc)
qed

lemma shift_access:
  "rd (x # a) (Suc k) = rd a k" "wr (x # a) (Suc k) v = map_option ((#) x) (wr a k v)"
  by (auto simp: rd_def wr_def)

lemma heap_adjust1_shift:
  "heap_adjust1 (x # a) (Suc i) num = map_option (\<lambda>r. x # fst r) (heap_adjust2 a i num c m)"
proof -
  have two: "2 * Suc i = 2 * i + 2" by simp
  show ?thesis
    unfolding heap_adjust1_def heap_adjust2_def shift_access two
    by (auto simp: adjust1_loop_shift [where c = c and m = m] shift_access option.map_comp comp_def
        map_option_bind bind_map_option split_def simp del: add_2_eq_Suc' cong: option.case_cong
        split: bind_splits)
qed

lemma build1_shift:
  "build1 (x # a) i num = map_option (\<lambda>r. x # fst r) (build2 a i num c m)"
proof (induction i arbitrary: a c m)
  case (Suc i)
  show ?case
    by (auto simp: heap_adjust1_shift [where c = c and m = m] intro: Suc.IH split: bind_splits)
qed simp

lemma extract1_shift:
  "extract1 (x # a) (Suc i) = map_option (\<lambda>r. x # fst r) (extract2 a i c m)"
proof (induction i arbitrary: a c m)
  case 0
  then show ?case by (subst extract1.simps) simp
next
  case (Suc i)
  have sw: "swap (x # a) (Suc 0) (Suc (Suc i)) = map_option ((#) x) (swap a 0 (Suc i))"
    by (auto simp: swap_def shift_access split: bind_splits)
  show ?case
    by (subst extract1.simps)
      (auto simp: sw heap_adjust1_shift [where c = c and m = "m + 3"] intro: Suc.IH split: bind_splits)
qed

lemma heap_sort1_shift:
  "heap_sort1 (x # a) num = map_option ((#) x) (arr_of (heap_sort2 a num))"
proof (cases num)
  case 0
  then show ?thesis
    by (simp add: heap_sort1_def heap_sort2_def extract1.simps [of _ 0] arr_of_def)
next
  case (Suc k)
  show ?thesis
    unfolding heap_sort1_def heap_sort2_def Suc
    by (auto simp: build1_shift [where c = 0 and m = 0] arr_of_def option.map_comp comp_def
        split_def intro: extract1_shift split: bind_splits)
qed

lemma heap_sort1_sorts:
  assumes "1 + n \<le> length a"
  shows "heap_sort1 a n = Some (sorted_seg 1 n a)"
proof (cases a)
  case (Cons x b)
  then show ?thesis
    using assms heap2.sorts [of n b] by (simp add: heap_sort1_shift sorted_seg_def)
qed (use assms in simp)

interpretation heap1: segment_sorter heap_sort1 1 "\<lambda>_. True"
  by unfold_locales (rule heap_sort1_sorts)

end
