(* ===== verification/SortMerge.thy ===== *)
theory SortMerge
  imports SortBasic
begin

text \<open>
  The two merge sorts of \<open>3.ybx/20.ds/2.ds/6.sort/6.merge.c\<close>: the recursive one, whose \<open>merging\<close>
  copies through a local buffer of 100 cells, and the bottom-up one, which merges between the
  array and a buffer from \<open>malloc\<close> and exchanges the two pointers after each pass.  A pointer into
  the array is the array with an offset.
\<close>

section \<open>The recursive version\<close>

text \<open>First loop of \<open>merging\<close>: \<open>p\<close> and \<open>q\<close> are the offsets of \<open>arr1\<close> and \<open>arr2\<close>.\<close>

function merging_both ::
  "int list \<Rightarrow> nat \<Rightarrow> nat \<Rightarrow> nat \<Rightarrow> nat \<Rightarrow> int list \<Rightarrow> nat \<Rightarrow> nat \<Rightarrow> nat \<Rightarrow> (int list \<times> nat \<times> nat \<times> nat) option" where
  "merging_both a p num1 q num2 tmp i j k =
     (if i < num1 \<and> j < num2 then do {
        x \<leftarrow> rd a (p + i);
        y \<leftarrow> rd a (q + j);
        if x < y then do {
          tmp1 \<leftarrow> wr tmp k x;
          merging_both a p num1 q num2 tmp1 (i + 1) j (k + 1) }
        else do {
          tmp1 \<leftarrow> wr tmp k y;
          merging_both a p num1 q num2 tmp1 i (j + 1) (k + 1) } }
      else Some (tmp, i, j, k))"
  by pat_completeness auto
termination by (relation "measure (\<lambda>(a, p, num1, q, num2, tmp, i, j, k). (num1 - i) + (num2 - j))") auto
declare merging_both.simps [simp del]

text \<open>The second and the third loop copy what is left of one side.\<close>

function merging_rest ::
  "int list \<Rightarrow> nat \<Rightarrow> nat \<Rightarrow> int list \<Rightarrow> nat \<Rightarrow> nat \<Rightarrow> (int list \<times> nat) option" where
  "merging_rest a p num tmp i k =
     (if i < num then do {
        x \<leftarrow> rd a (p + i);
        tmp1 \<leftarrow> wr tmp k x;
        merging_rest a p num tmp1 (i + 1) (k + 1) }
      else Some (tmp, k))"
  by pat_completeness auto
termination by (relation "measure (\<lambda>(a, p, num, tmp, i, k). num - i)") auto
declare merging_rest.simps [simp del]

function merging_back :: "int list \<Rightarrow> nat \<Rightarrow> int list \<Rightarrow> nat \<Rightarrow> nat \<Rightarrow> int list option" where
  "merging_back a p tmp m k =
     (if m < k then do {
        x \<leftarrow> rd tmp m;
        a1 \<leftarrow> wr a (p + m) x;
        merging_back a1 p tmp (m + 1) k }
      else Some a)"
  by pat_completeness auto
termination by (relation "measure (\<lambda>(a, p, tmp, m, k). k - m)") auto
declare merging_back.simps [simp del]

definition merging :: "int list \<Rightarrow> nat \<Rightarrow> nat \<Rightarrow> nat \<Rightarrow> nat \<Rightarrow> int list option" where
  "merging a p num1 q num2 = do {
     (tmp, i, j, k) \<leftarrow> merging_both a p num1 q num2 (replicate 100 0) 0 0 0;
     (tmp1, k1) \<leftarrow> merging_rest a p num1 tmp i k;
     (tmp2, k2) \<leftarrow> merging_rest a q num2 tmp1 j k1;
     merging_back a p tmp2 0 k2 }"

function merge_sort_recursive :: "int list \<Rightarrow> nat \<Rightarrow> nat \<Rightarrow> int list option" where
  "merge_sort_recursive a p num =
     (if num < 2 then Some a
      else do {
        let count = num div 2;
        a1 \<leftarrow> merge_sort_recursive a p count;
        a2 \<leftarrow> merge_sort_recursive a1 (p + count) (num - count);
        merging a2 p count (p + count) (num - count) })"
  by pat_completeness auto
termination by (relation "measure (\<lambda>(a, p, num). num)") auto
declare merge_sort_recursive.simps [simp del]

section \<open>The bottom-up version\<close>

text \<open>
  \<open>while_both\<close> and \<open>while_rest\<close> are the loops of one merge from \<open>arr1\<close> (\<open>x\<close>) into \<open>arr2\<close> (\<open>y\<close>),
  \<open>while_starts\<close> the loop over \<open>start\<close>.  The last two guards on \<open>seg\<close> hold in the code, where
  \<open>seg\<close> starts at 1 and doubles.
\<close>

function while_both ::
  "int list \<Rightarrow> int list \<Rightarrow> nat \<Rightarrow> nat \<Rightarrow> nat \<Rightarrow> nat \<Rightarrow> nat \<Rightarrow> (int list \<times> nat \<times> nat \<times> nat) option" where
  "while_both x y start1 end1 start2 end2 k =
     (if start1 < end1 \<and> start2 < end2 then do {
        u \<leftarrow> rd x start1;
        v \<leftarrow> rd x start2;
        if u < v then do {
          y1 \<leftarrow> wr y k u;
          while_both x y1 (start1 + 1) end1 start2 end2 (k + 1) }
        else do {
          y1 \<leftarrow> wr y k v;
          while_both x y1 start1 end1 (start2 + 1) end2 (k + 1) } }
      else Some (y, start1, start2, k))"
  by pat_completeness auto
termination
  by (relation "measure (\<lambda>(x, y, start1, end1, start2, end2, k). (end1 - start1) + (end2 - start2))") auto
declare while_both.simps [simp del]

function while_rest ::
  "int list \<Rightarrow> int list \<Rightarrow> nat \<Rightarrow> nat \<Rightarrow> nat \<Rightarrow> (int list \<times> nat) option" where
  "while_rest x y start1 end1 k =
     (if start1 < end1 then do {
        u \<leftarrow> rd x start1;
        y1 \<leftarrow> wr y k u;
        while_rest x y1 (start1 + 1) end1 (k + 1) }
      else Some (y, k))"
  by pat_completeness auto
termination by (relation "measure (\<lambda>(x, y, start1, end1, k). end1 - start1)") auto
declare while_rest.simps [simp del]

function while_starts ::
  "int list \<Rightarrow> int list \<Rightarrow> nat \<Rightarrow> nat \<Rightarrow> nat \<Rightarrow> int list option" where
  "while_starts x y num seg start =
     (if start < num \<and> 0 < seg then do {
        let mid = min (start + seg) num;
        let high = min (start + seg + seg) num;
        (y1, start1, start2, k) \<leftarrow> while_both x y start mid mid high start;
        (y2, k1) \<leftarrow> while_rest x y1 start1 mid k;
        (y3, k2) \<leftarrow> while_rest x y2 start2 high k1;
        while_starts x y3 num seg (start + seg * 2) }
      else Some y)"
  by pat_completeness auto
termination by (relation "measure (\<lambda>(x, y, num, seg, start). num - start)") auto
declare while_starts.simps [simp del]

text \<open>The loop over \<open>seg\<close>; \<open>sw\<close> says that \<open>arr1\<close> is the buffer (the pointers were exchanged an odd
  number of times).  It returns the contents of \<open>arr1\<close>, of \<open>arr2\<close> and \<open>sw\<close>.\<close>

function while_segs ::
  "int list \<Rightarrow> int list \<Rightarrow> bool \<Rightarrow> nat \<Rightarrow> nat \<Rightarrow> (int list \<times> int list \<times> bool) option" where
  "while_segs x y sw num seg =
     (if seg < num \<and> 0 < seg then do {
        y1 \<leftarrow> while_starts x y num seg 0;
        while_segs y1 x (\<not> sw) num (seg * 2) }
      else Some (x, y, sw))"
  by pat_completeness auto
termination by (relation "measure (\<lambda>(x, y, sw, num, seg). num - seg)") auto
declare while_segs.simps [simp del]

text \<open>\<open>mem\<close> is what \<open>malloc\<close> returned: the cells of the buffer, or none for a null pointer.\<close>

definition merge_sort_while :: "int list \<Rightarrow> nat \<Rightarrow> int list \<Rightarrow> int list option" where
  "merge_sort_while a num mem = do {
     (arr1, arr2, sw) \<leftarrow> while_segs a mem False num 1;
     if sw then copy_arr arr2 arr1 num
     else Some arr1 }"

section \<open>The merge they compute\<close>

fun mrg :: "int list \<Rightarrow> int list \<Rightarrow> int list" where
  "mrg [] ys = ys"
| "mrg xs [] = xs"
| "mrg (x # xs) (y # ys) = (if x < y then x # mrg xs (y # ys) else y # mrg (x # xs) ys)"

lemma mrg_Nil2 [simp]: "mrg xs [] = xs"
  by (cases xs) simp_all

lemma length_mrg [simp]: "length (mrg xs ys) = length xs + length ys"
  by (induction xs ys rule: mrg.induct) auto

lemma mset_mrg [simp]: "mset (mrg xs ys) = mset xs + mset ys"
  by (induction xs ys rule: mrg.induct) auto

lemma set_mrg [simp]: "set (mrg xs ys) = set xs \<union> set ys"
  by (metis mset_mrg set_mset_mset set_mset_union)

lemma sorted_mrg [simp]: "sorted (mrg xs ys) \<longleftrightarrow> sorted xs \<and> sorted ys"
  by (induction xs ys rule: mrg.induct) (auto simp: less_imp_le intro: order_trans)

lemma mrg_sort: "sorted xs \<Longrightarrow> sorted ys \<Longrightarrow> mrg xs ys = sort (xs @ ys)"
  by (rule properties_for_sort [symmetric]) auto

text \<open>The cells \<open>[i, j)\<close> of an array.\<close>

definition seg :: "'a list \<Rightarrow> nat \<Rightarrow> nat \<Rightarrow> 'a list" where
  "seg a i j = take (j - i) (drop i a)"

lemma seg_empty [simp]: "j \<le> i \<Longrightarrow> seg a i j = []"
  by (simp add: seg_def)

lemma seg_Cons: "i < j \<Longrightarrow> j \<le> length a \<Longrightarrow> seg a i j = a ! i # seg a (Suc i) j"
  unfolding seg_def
  by (metis Cons_nth_drop_Suc Suc_diff_Suc less_le_trans take_Suc_Cons)

lemma length_seg [simp]: "j \<le> length a \<Longrightarrow> length (seg a i j) = j - i"
  by (simp add: seg_def)

text \<open>Storing a list of cells from index \<open>k\<close> on.\<close>

definition put :: "'a list \<Rightarrow> nat \<Rightarrow> 'a list \<Rightarrow> 'a list" where
  "put t k zs = take k t @ zs @ drop (k + length zs) t"

lemma length_put [simp]: "k + length zs \<le> length t \<Longrightarrow> length (put t k zs) = length t"
  by (simp add: put_def)

lemma put_Nil [simp]: "put t k [] = t"
  by (simp add: put_def)

lemma put_update: "k < length t \<Longrightarrow> put (t[k := x]) (Suc k) zs = put t k (x # zs)"
  by (simp add: put_def take_Suc_conv_app_nth)

lemma put_put:
  "k + length xs \<le> length t \<Longrightarrow> k' = k + length xs \<Longrightarrow> put (put t k xs) k' ys = put t k (xs @ ys)"
  by (simp add: put_def ac_simps)

lemma while_rest_spec:
  assumes "e \<le> length x"
  shows "while_rest x y s e k =
    (if k + (e - s) \<le> length y \<or> e \<le> s then Some (put y k (seg x s e), k + (e - s)) else None)"
  using assms
proof (induction "e - s" arbitrary: y s k)
  case 0
  then show ?case by (subst while_rest.simps) simp
next
  case (Suc n)
  then have s: "s < e" by simp
  have n: "n = e - Suc s" using Suc.hyps(2) by simp
  have rec: "while_rest x y s e k = (if k < length y then while_rest x (y[k := x ! s]) (Suc s) e (Suc k) else None)"
    using s Suc.prems by (subst while_rest.simps) simp
  show ?case
    unfolding rec using Suc.hyps(1) [OF n Suc.prems, of "y[k := x ! s]" "Suc k"] s Suc.prems
    by (auto simp: seg_Cons put_update)
qed

text \<open>The three loops of one merge, in both versions.\<close>

definition merge_step ::
  "int list \<Rightarrow> int list \<Rightarrow> nat \<Rightarrow> nat \<Rightarrow> nat \<Rightarrow> nat \<Rightarrow> nat \<Rightarrow> (int list \<times> nat) option" where
  "merge_step x y s1 e1 s2 e2 k = do {
     (y1, t1, t2, k1) \<leftarrow> while_both x y s1 e1 s2 e2 k;
     (y2, k2) \<leftarrow> while_rest x y1 t1 e1 k1;
     while_rest x y2 t2 e2 k2 }"

lemma merge_step_rec:
  assumes "s1 < e1" "s2 < e2" "e1 \<le> length x" "e2 \<le> length x"
  shows "merge_step x y s1 e1 s2 e2 k =
    (if k < length y then
       (if x ! s1 < x ! s2 then merge_step x (y[k := x ! s1]) (Suc s1) e1 s2 e2 (Suc k)
        else merge_step x (y[k := x ! s2]) s1 e1 (Suc s2) e2 (Suc k))
     else None)"
  unfolding merge_step_def using assms by (subst while_both.simps) auto

lemma merge_step_spec:
  assumes "e1 \<le> length x" "e2 \<le> length x" "k \<le> length y"
  shows "merge_step x y s1 e1 s2 e2 k =
    (if k + (e1 - s1) + (e2 - s2) \<le> length y
     then Some (put y k (mrg (seg x s1 e1) (seg x s2 e2)), k + (e1 - s1) + (e2 - s2)) else None)"
  using assms(3)
proof (induction "(e1 - s1) + (e2 - s2)" arbitrary: y s1 s2 k rule: less_induct)
  case less
  show ?case
  proof (cases "s1 < e1 \<and> s2 < e2")
    case True
    then have dec: "(e1 - Suc s1) + (e2 - s2) < (e1 - s1) + (e2 - s2)"
      "(e1 - s1) + (e2 - Suc s2) < (e1 - s1) + (e2 - s2)" by auto
    show ?thesis
      using True less.hyps [OF dec(1), of "Suc k" "y[k := x ! s1]"]
        less.hyps [OF dec(2), of "Suc k" "y[k := x ! s2]"] assms
      by (auto simp: merge_step_rec seg_Cons put_update)
  next
    case False
    then have "while_both x y s1 e1 s2 e2 k = Some (y, s1, s2, k)"
      by (subst while_both.simps) auto
    then show ?thesis
      using False assms less.prems by (auto simp: merge_step_def while_rest_spec put_put)
  qed
qed

lemma merging_both_while:
  "merging_both a p num1 q num2 tmp i j k =
   map_option (\<lambda>(t, s1, s2, k). (t, s1 - p, s2 - q, k)) (while_both a tmp (p + i) (p + num1) (q + j) (q + num2) k)"
proof (induction "(num1 - i) + (num2 - j)" arbitrary: tmp i j k rule: less_induct)
  case less
  show ?case
  proof (cases "i < num1 \<and> j < num2")
    case True
    then have dec: "(num1 - Suc i) + (num2 - j) < (num1 - i) + (num2 - j)"
      "(num1 - i) + (num2 - Suc j) < (num1 - i) + (num2 - j)" by auto
    show ?thesis
      using True less [OF dec(1)] less [OF dec(2)]
      by (subst merging_both.simps, subst while_both.simps) (auto simp: rd_def wr_def)
  next
    case False
    then show ?thesis by (subst merging_both.simps, subst while_both.simps) auto
  qed
qed

lemma merging_rest_while:
  "merging_rest a p num tmp i k = while_rest a tmp (p + i) (p + num) k"
proof (induction "num - i" arbitrary: tmp i k)
  case 0
  then show ?case by (subst merging_rest.simps, subst while_rest.simps) simp
next
  case (Suc n)
  then have "n = num - Suc i" by simp
  then show ?case
    using Suc.hyps(1) by (subst merging_rest.simps, subst while_rest.simps) (auto simp: rd_def wr_def)
qed

lemma while_both_mono:
  "while_both x y s1 e1 s2 e2 k = Some (y', t1, t2, k') \<Longrightarrow> s1 \<le> t1 \<and> s2 \<le> t2"
proof (induction "(e1 - s1) + (e2 - s2)" arbitrary: y s1 s2 k rule: less_induct)
  case less
  have l: "Suc s1 \<le> t1 \<and> s2 \<le> t2"
    if "while_both x z (Suc s1) e1 s2 e2 k1 = Some (y', t1, t2, k')" "s1 < e1" for z k1
    using that by (intro less.hyps) auto
  have r: "s1 \<le> t1 \<and> Suc s2 \<le> t2"
    if "while_both x z s1 e1 (Suc s2) e2 k1 = Some (y', t1, t2, k')" "s2 < e2" for z k1
    using that by (intro less.hyps) auto
  show ?case
    using less.prems
    by (subst (asm) while_both.simps) (auto split: if_splits bind_splits dest!: l r)
qed

lemma merging_back_spec:
  assumes "k \<le> length tmp" "p + k \<le> length a"
  shows "merging_back a p tmp m k = Some (put a (p + m) (seg tmp m k))"
  using assms
proof (induction "k - m" arbitrary: a m)
  case 0
  then show ?case by (subst merging_back.simps) simp
next
  case (Suc n)
  then have m: "m < k" and n: "n = k - Suc m" by auto
  show ?case
    using m Suc.prems Suc.hyps(1) [OF n, of "a[p + m := tmp ! m]"]
    by (subst merging_back.simps) (simp add: seg_Cons put_update)
qed

lemma merging_steps:
  "merging a p num1 q num2 = do {
     (t, k) \<leftarrow> merge_step a (replicate 100 0) p (p + num1) q (q + num2) 0;
     merging_back a p t 0 k }"
  unfolding merging_def merge_step_def merging_both_while merging_rest_while
  by (auto split: bind_splits dest!: while_both_mono)

lemma seg_put_0: "length zs \<le> length t \<Longrightarrow> seg (put t 0 zs) 0 (length zs) = zs"
  by (simp add: seg_def put_def)

lemma merging_spec:
  assumes "p + num1 \<le> length a" "q + num2 \<le> length a" "p + (num1 + num2) \<le> length a"
  shows "merging a p num1 q num2 =
    (if num1 + num2 \<le> 100 then Some (put a p (mrg (seg a p (p + num1)) (seg a q (q + num2)))) else None)"
proof -
  let ?z = "mrg (seg a p (p + num1)) (seg a q (q + num2))"
  have len: "length ?z = num1 + num2" using assms by simp
  have "merge_step a (replicate 100 0) p (p + num1) q (q + num2) 0
     = (if num1 + num2 \<le> 100 then Some (put (replicate 100 0) 0 ?z, num1 + num2) else None)"
    using merge_step_spec [of "p + num1" a "q + num2" 0 "replicate 100 0" p q] assms by simp
  moreover have "merging_back a p (put (replicate 100 0) 0 ?z) 0 (num1 + num2) = Some (put a p ?z)"
    if "num1 + num2 \<le> 100"
    using that assms len merging_back_spec [of "num1 + num2" "put (replicate 100 0) 0 ?z" p a 0]
      seg_put_0 [of ?z "replicate 100 (0::int)"] by simp
  ultimately show ?thesis by (auto simp: merging_steps)
qed

lemma sorted_seg_put: "p + n \<le> length a \<Longrightarrow> sorted_seg p n a = put a p (sort (seg a p (p + n)))"
  by (simp add: sorted_seg_def put_def seg_def)

lemma seg_sorted_seg_same: "p + n \<le> length a \<Longrightarrow> seg (sorted_seg p n a) p (p + n) = sort (seg a p (p + n))"
  by (simp add: sorted_seg_def seg_def)

lemma merge_halves:
  assumes "p + (m + n) \<le> length a"
    and b: "b = sorted_seg (p + m) n (sorted_seg p m a)"
  shows "put b p (mrg (seg b p (p + m)) (seg b (p + m) (p + m + n))) = sorted_seg p (m + n) a"
proof -
  define w x y z where "w = take p a" "x = take m (drop p a)" "y = take n (drop (p + m) a)" "z = drop (p + m + n) a"
  have len: "length w = p" "length x = m" "length y = n" using assms(1) by (auto simp: w_x_y_z_def)
  have a: "a = w @ (x @ y) @ z"
    using assms(1) by (simp add: w_x_y_z_def) (metis append.assoc append_take_drop_id drop_drop add.commute)
  have "sorted_seg p m a = w @ sort x @ (y @ z)"
    unfolding a using sorted_seg_append [OF len(1,2), of "y @ z"] by simp
  then have b': "b = w @ sort x @ sort y @ z"
    using sorted_seg_append [of "w @ sort x" "p + m" y n z] len b by simp
  have "seg b p (p + m) = sort x" "seg b (p + m) (p + m + n) = sort y" "put b p zs = w @ zs @ drop (p + length zs) b" for zs
    unfolding b' using len by (simp_all add: seg_def put_def)
  moreover have "mrg (sort x) (sort y) = sort (x @ y)"
    by (rule properties_for_sort [symmetric]) auto
  ultimately show ?thesis
    unfolding a using sorted_seg_append [of w p "x @ y" "m + n" z] len by (simp add: b')
qed

lemma merge_sort_recursive_sorts:
  assumes "n \<le> 100" "p + n \<le> length a"
  shows "merge_sort_recursive a p n = Some (sorted_seg p n a)"
  using assms
proof (induction n arbitrary: a p rule: less_induct)
  case (less n)
  show ?case
  proof (cases "n < 2")
    case True
    then show ?thesis by (subst merge_sort_recursive.simps) (simp add: sorted_seg_trivial)
  next
    case False
    define m where "m = n div 2"
    have m: "m < n" "n - m < n" "m + (n - m) = n" using False by (auto simp: m_def)
    let ?a = "sorted_seg p m a"
    let ?b = "sorted_seg (p + m) (n - m) ?a"
    have "merge_sort_recursive a p m = Some ?a" "merge_sort_recursive ?a (p + m) (n - m) = Some ?b"
      using less.IH [OF m(1), of p a] less.IH [OF m(2), of "p + m" ?a] less.prems m by auto
    moreover have "merging ?b p m (p + m) (n - m) = Some (sorted_seg p n a)"
      using merging_spec [of p m ?b "p + m" "n - m"] merge_halves [of p m "n - m" a ?b] less.prems m by simp
    ultimately show ?thesis
      using False by (subst merge_sort_recursive.simps) (simp flip: m_def)
  qed
qed

text \<open>The buffer of \<open>merging\<close> has 100 cells: a longer array overruns it.\<close>

lemma merge_sort_recursive_overrun:
  assumes "100 < n" "p + n \<le> length a"
  shows "merge_sort_recursive a p n = None"
  using assms
proof (induction n arbitrary: a p rule: less_induct)
  case (less n)
  define m where "m = n div 2"
  have m: "m < n" "n - m < n" "m + (n - m) = n" using less.prems by (auto simp: m_def)
  have one: "merge_sort_recursive b r k = None \<or> merge_sort_recursive b r k = Some (sorted_seg r k b)"
    if "k < n" "r + k \<le> length b" for b r k
    using that less.IH merge_sort_recursive_sorts [of k r b] by (cases "k \<le> 100") auto
  have "merge_sort_recursive a p m = None \<or> merge_sort_recursive a p m = Some (sorted_seg p m a)"
    using one [OF m(1), of p a] less.prems m by auto
  then show ?case
    using less.prems m one [OF m(2), of "p + m" "sorted_seg p m a"]
      merging_spec [of p m _ "p + m" "n - m"]
    by (subst merge_sort_recursive.simps) (auto simp flip: m_def simp: bind_eq_None_conv)
qed

section \<open>The bottom-up version is correct\<close>

text \<open>One pass merges neighbouring runs of length \<open>s\<close>.\<close>

function mblocks :: "nat \<Rightarrow> int list \<Rightarrow> int list" where
  "mblocks s xs =
     (if s = 0 \<or> xs = [] then xs
      else mrg (take s xs) (take s (drop s xs)) @ mblocks s (drop (2 * s) xs))"
  by pat_completeness auto
termination by (relation "measure (\<lambda>(s, xs). length xs)") auto
declare mblocks.simps [simp del]

function runs :: "nat \<Rightarrow> int list \<Rightarrow> bool" where
  "runs s xs = (if s = 0 \<or> xs = [] then True else sorted (take s xs) \<and> runs s (drop s xs))"
  by pat_completeness auto
termination by (relation "measure (\<lambda>(s, xs). length xs)") auto
declare runs.simps [simp del]

lemma mset_mblocks [simp]: "mset (mblocks s xs) = mset xs"
proof (induction s xs rule: mblocks.induct)
  case (1 s xs)
  have "xs = take s xs @ take s (drop s xs) @ drop (2 * s) xs"
    by (metis append_take_drop_id drop_drop mult_2)
  then have "mset xs = mset (take s xs) + mset (take s (drop s xs)) + mset (drop (2 * s) xs)"
    by (metis mset_append add.assoc)
  then show ?case using 1 by (subst mblocks.simps) auto
qed

lemma length_mblocks [simp]: "length (mblocks s xs) = length xs"
  by (metis mset_mblocks size_mset)

lemma runs_1: "runs 1 xs"
proof (induction xs)
  case (Cons x xs)
  then show ?case by (subst runs.simps) simp
qed (subst runs.simps; simp)

lemma runs_whole: "runs s xs \<Longrightarrow> length xs \<le> s \<Longrightarrow> sorted xs"
  by (subst (asm) runs.simps) (auto split: if_splits)

lemma runs_mblocks: "runs s xs \<Longrightarrow> runs (2 * s) (mblocks s xs)"
proof (induction s xs rule: mblocks.induct)
  case (1 s xs)
  show ?case
  proof (cases "s = 0 \<or> xs = []")
    case True
    then show ?thesis by (subst runs.simps) (auto simp: mblocks.simps)
  next
    case False
    let ?h = "mrg (take s xs) (take s (drop s xs))"
    have r: "sorted (take s xs)" "runs s (drop s xs)"
      using "1.prems" False by (simp_all add: runs.simps [of s xs])
    have r2: "sorted (take s (drop s xs))" "runs s (drop (2 * s) xs)"
      using r(2) False by (cases "drop s xs = []"; simp add: runs.simps [of s "drop s xs"] mult_2 runs.simps [of s "[]"])+
    have tail: "runs (2 * s) (mblocks s (drop (2 * s) xs))" using "1.IH" False r2 by simp
    have eq: "mblocks s xs = ?h @ mblocks s (drop (2 * s) xs)"
      using False by (subst mblocks.simps) simp
    show ?thesis
    proof (cases "length xs \<le> 2 * s")
      case True
      then show ?thesis
        using r r2 False unfolding eq by (subst runs.simps) (simp add: mblocks.simps [of s "[]"] runs.simps [of _ "[]"])
    next
      case False
      then have "length ?h = 2 * s" by simp
      then show ?thesis using r r2 tail unfolding eq by (subst runs.simps) simp
    qed
  qed
qed

lemma while_starts_step:
  assumes "start < num" "0 < s"
  shows "while_starts x y num s start = do {
     (y1, _) \<leftarrow> merge_step x y start (min (start + s) num) (min (start + s) num) (min (start + s + s) num) start;
     while_starts x y1 num s (start + s * 2) }"
  using assms unfolding merge_step_def by (subst while_starts.simps) (auto simp: Let_def split: bind_splits)

lemma take_seg: "seg x i (min (i + s) j) = take s (seg x i j)"
  by (auto simp: seg_def min_def)

lemma drop_seg: "seg x (i + s) j = drop s (seg x i j)"
  by (simp add: seg_def drop_take ac_simps)

lemma while_starts_spec:
  assumes "num \<le> length x" "num \<le> length y" "0 < s"
  shows "while_starts x y num s start = Some (put y start (mblocks s (seg x start num)))"
  using assms
proof (induction "num - start" arbitrary: y start rule: less_induct)
  case less
  show ?case
  proof (cases "start < num")
    case True
    let ?xs = "seg x start num"
    let ?h = "mrg (take s ?xs) (take s (drop s ?xs))"
    have dec: "num - (start + s * 2) < num - start" using True less.prems(3) by simp
    have segs: "seg x start (min (start + s) num) = take s ?xs"
      "seg x (min (start + s) num) (min (start + s + s) num) = take s (drop s ?xs)"
      using less.prems(1) by (auto simp: seg_def min_def drop_take add.commute)
    have "merge_step x y start (min (start + s) num) (min (start + s) num) (min (start + s + s) num) start
        = Some (put y start ?h, start + length ?h)"
      using merge_step_spec [of "min (start + s) num" x "min (start + s + s) num" start y start "min (start + s) num"]
        True less.prems by (auto simp: segs)
    moreover have "while_starts x (put y start ?h) num s (start + s * 2)
        = Some (put (put y start ?h) (start + s * 2) (mblocks s (drop (2 * s) ?xs)))"
      using less.hyps [OF dec, of "put y start ?h"] less.prems True drop_seg [of x start "s * 2" num]
      by (simp add: mult.commute)
    moreover have "put (put y start ?h) (start + s * 2) (mblocks s (drop (2 * s) ?xs)) = put y start (mblocks s ?xs)"
    proof (cases "length ?xs \<le> 2 * s")
      case True
      then have "mblocks s (drop (2 * s) ?xs) = []" by (subst mblocks.simps) simp
      moreover from this have "mblocks s ?xs = ?h"
        using less.prems(3) by (subst mblocks.simps) auto
      ultimately show ?thesis by simp
    next
      case False
      then have "length ?h = s * 2" by simp
      moreover have "mblocks s ?xs = ?h @ mblocks s (drop (2 * s) ?xs)"
        using less.prems(3) False by (subst mblocks.simps) auto
      ultimately show ?thesis
        using True False less.prems by (simp add: put_put)
    qed
    ultimately show ?thesis using True less.prems(3) by (simp add: while_starts_step)
  next
    case False
    then show ?thesis by (subst while_starts.simps) (simp add: mblocks.simps)
  qed
qed

lemma while_segs_spec:
  assumes "num \<le> length x" "num \<le> length y" "0 < s" "runs s (take num x)"
  obtains x' y' sw' where "while_segs x y sw num s = Some (x', y', sw')"
    "take num x' = sort (take num x)" "num \<le> length x'" "num \<le> length y'"
    "drop num (if sw' then y' else x') = drop num (if sw then y else x)"
  using assms
proof (induction "num - s" arbitrary: x y sw s thesis rule: less_induct)
  case less
  show ?case
  proof (cases "s < num")
    case True
    let ?y = "mblocks s (take num x) @ drop num y"
    have st: "while_starts x y num s 0 = Some ?y"
      using while_starts_spec [OF less.prems(2-4), of 0] less.prems(2) by (simp add: put_def seg_def)
    have dec: "num - s * 2 < num - s" using True less.prems(4) by simp
    have "runs (s * 2) (take num ?y)"
      using runs_mblocks [OF less.prems(5)] less.prems(2) by (simp add: mult.commute)
    then obtain x' y' sw' where r: "while_segs ?y x (\<not> sw) num (s * 2) = Some (x', y', sw')"
      "take num x' = sort (take num ?y)" "num \<le> length x'" "num \<le> length y'"
      "drop num (if sw' then y' else x') = drop num (if \<not> sw then x else ?y)"
      by (rule less.hyps [OF dec, rotated -1]) (use less.prems in auto)
    have "sort (take num ?y) = sort (take num x)"
      using less.prems(2) by (intro properties_for_sort) auto
    moreover have "while_segs x y sw num s = Some (x', y', sw')"
      using r(1) st True less.prems(4) by (subst while_segs.simps) simp
    ultimately show ?thesis
      using less.prems(1) [of x' y' sw'] r(2-5) less.prems(2) by (simp split: if_splits)
  next
    case False
    then have "sorted (take num x)" using runs_whole [OF less.prems(5)] by simp
    moreover have "while_segs x y sw num s = Some (x, y, sw)"
      using False by (subst while_segs.simps) simp
    ultimately show ?thesis
      using less.prems(1-3) by (auto simp: sorted_sort_id)
  qed
qed

lemma merge_sort_while_sorts:
  assumes "n \<le> length a" "n \<le> length mem"
  shows "merge_sort_while a n mem = Some (sorted_seg 0 n a)"
proof -
  obtain x y sw where r: "while_segs a mem False n 1 = Some (x, y, sw)"
    "take n x = sort (take n a)" "n \<le> length x" "n \<le> length y"
    "drop n (if sw then y else x) = drop n a"
    using while_segs_spec [OF assms zero_less_one runs_1, of False] by auto
  have "x = sorted_seg 0 n a" if "\<not> sw"
    using r that by (simp add: sorted_seg_def) (metis append_take_drop_id)
  then show ?thesis
    using r by (auto simp: merge_sort_while_def copy_arr_spec sorted_seg_def)
qed

interpretation merge_recursive: segment_sorter "\<lambda>a n. merge_sort_recursive a 0 n" 0 "\<lambda>n. n \<le> 100"
  by unfold_locales (simp add: merge_sort_recursive_sorts)

interpretation merge_while: segment_sorter "\<lambda>a n. merge_sort_while a n (replicate n 0)" 0 "\<lambda>_. True"
  by unfold_locales (simp add: merge_sort_while_sorts)

end
