(* ===== verification/SortQuick.thy ===== *)
theory SortQuick
  imports SortBasic
begin

text \<open>
  Quick sort (\<open>3.ybx/20.ds/2.ds/6.sort/7.quick.c\<close>).  Indices are C \<open>int\<close>s: the recursion can be
  called with \<open>end = -1\<close>.  The partition loop is shown to end by a measure that counts twice the
  distance of the two scanning indices plus one while the left one stands on a big element.
\<close>

section \<open>The program\<close>

text \<open>The two inner loops of the partition.\<close>

function quick_left :: "int list \<Rightarrow> int \<Rightarrow> int \<Rightarrow> int \<Rightarrow> int option" where
  "quick_left a mid left right = do {
     x \<leftarrow> rdi a left;
     if x < mid \<and> left < right then quick_left a mid (left + 1) right else Some left }"
  by pat_completeness auto
termination by (relation "measure (\<lambda>(a, mid, left, right). nat (right - left))") auto
declare quick_left.simps [simp del]

function quick_right :: "int list \<Rightarrow> int \<Rightarrow> int \<Rightarrow> int \<Rightarrow> int option" where
  "quick_right a mid left right = do {
     x \<leftarrow> rdi a right;
     if x \<ge> mid \<and> left < right then quick_right a mid left (right - 1) else Some right }"
  by pat_completeness auto
termination by (relation "measure (\<lambda>(a, mid, left, right). nat (right - left))") auto
declare quick_right.simps [simp del]

definition swap_int :: "int list \<Rightarrow> int \<Rightarrow> int \<Rightarrow> int list option" where
  "swap_int a x y = (if 0 \<le> x \<and> 0 \<le> y then swap a (nat x) (nat y) else None)"

lemma swap_int_int [simp]: "swap_int a (int x) (int y) = swap a x y"
  by (simp add: swap_int_def)

text \<open>Where the inner loops stop.\<close>

lemma quick_left_spec:
  assumes "l \<le> r" "r < length a"
  shows "\<exists>l'. quick_left a mid (int l) (int r) = Some (int l') \<and> l \<le> l' \<and> l' \<le> r \<and>
           (\<forall>k. l \<le> k \<longrightarrow> k < l' \<longrightarrow> a ! k < mid) \<and> (l' = r \<or> mid \<le> a ! l')"
  using assms
proof (induction "r - l" arbitrary: l)
  case 0
  then show ?case by (subst quick_left.simps) (auto intro!: exI [of _ l])
next
  case (Suc n)
  show ?case
  proof (cases "a ! l < mid")
    case True
    have lr: "n = r - Suc l" "Suc l \<le> r" using Suc.hyps(2) by auto
    obtain l' where l': "quick_left a mid (int (Suc l)) (int r) = Some (int l')" "Suc l \<le> l'" "l' \<le> r"
      "\<forall>k. Suc l \<le> k \<longrightarrow> k < l' \<longrightarrow> a ! k < mid" "l' = r \<or> mid \<le> a ! l'"
      using Suc.hyps(1) [OF lr Suc.prems(2)] by blast
    have "\<forall>k. l \<le> k \<longrightarrow> k < l' \<longrightarrow> a ! k < mid" using l'(4) True by (auto simp: Suc_le_eq nat_less_le)
    moreover have "quick_left a mid (int l) (int r) = Some (int l')"
      using l'(1) True lr(2) Suc.prems by (subst quick_left.simps) (simp add: add.commute)
    ultimately show ?thesis using l'(2,3,5) by (intro exI [of _ l']) auto
  next
    case False
    then show ?thesis using Suc.prems by (subst quick_left.simps) (auto intro!: exI [of _ l])
  qed
qed

lemma quick_right_spec:
  assumes "l \<le> r" "r < length a"
  shows "\<exists>r'. quick_right a mid (int l) (int r) = Some (int r') \<and> l \<le> r' \<and> r' \<le> r \<and>
           (\<forall>k. r' < k \<longrightarrow> k \<le> r \<longrightarrow> mid \<le> a ! k) \<and> (r' = l \<or> a ! r' < mid)"
  using assms
proof (induction "r - l" arbitrary: r)
  case 0
  then show ?case by (subst quick_right.simps) (auto intro!: exI [of _ r])
next
  case (Suc n)
  show ?case
  proof (cases "mid \<le> a ! r")
    case True
    have lr: "n = (r - 1) - l" "l \<le> r - 1" "r - 1 < length a" and lt: "l < r"
      using Suc.hyps(2) Suc.prems by auto
    obtain r' where r': "quick_right a mid (int l) (int (r - 1)) = Some (int r')" "l \<le> r'" "r' \<le> r - 1"
      "\<forall>k. r' < k \<longrightarrow> k \<le> r - 1 \<longrightarrow> mid \<le> a ! k" "r' = l \<or> a ! r' < mid"
      using Suc.hyps(1) [OF lr] by blast
    have "\<forall>k. r' < k \<longrightarrow> k \<le> r \<longrightarrow> mid \<le> a ! k"
      using r'(4) True by (metis Suc_pred' le_SucE neq0_conv le_zero_eq less_nat_zero_code)
    moreover have "int r - 1 = int (r - 1)" using Suc.hyps(2) by simp
    then have "quick_right a mid (int l) (int r) = Some (int r')"
      using r'(1) True lt Suc.prems by (subst quick_right.simps) simp
    ultimately show ?thesis using r'(2,3,5) by (intro exI [of _ r']) auto
  next
    case False
    then show ?thesis using Suc.prems by (subst quick_right.simps) (auto intro!: exI [of _ r])
  qed
qed

lemma quick_left_dom: "quick_left a mid left right = Some l \<Longrightarrow> 0 \<le> left"
  by (subst (asm) quick_left.simps) (auto split: bind_splits simp: rdi_def split: if_splits)

lemma quick_right_dom: "quick_right a mid left right = Some r \<Longrightarrow> 0 \<le> right \<and> nat right < length a"
  by (subst (asm) quick_right.simps) (auto split: bind_splits simp: rdi_def rd_eq_Some_iff split: if_splits)

text \<open>One turn of the outer loop of the partition shrinks \<open>2 * (right - left)\<close>, or keeps it and puts
  a small element at \<open>left\<close>.\<close>

definition quick_measure :: "int list \<times> int \<times> int \<times> int \<Rightarrow> nat" where
  "quick_measure = (\<lambda>(a, mid, left, right).
     2 * nat (right - left) + (if mid \<le> a ! nat left then 1 else 0))"

lemma quick_turn:
  assumes "left < right" "quick_left a mid left right = Some l" "quick_right a mid l right = Some r"
    "swap_int a l r = Some b"
  shows "quick_measure (b, mid, l, r) < quick_measure (a, mid, left, right)"
proof -
  have "0 \<le> left" "0 \<le> right" "nat right < length a"
    using quick_left_dom [OF assms(2)] quick_right_dom [OF assms(3)] by auto
  then obtain L R where LR: "left = int L" "right = int R" "L < R" "R < length a"
    using assms(1) by (metis nat_int int_nat_eq zless_nat_eq_int_zless)
  obtain L' where L': "l = int L'" "L \<le> L'" "L' \<le> R" "L' = R \<or> mid \<le> a ! L'" "\<forall>k. L \<le> k \<longrightarrow> k < L' \<longrightarrow> a ! k < mid"
    using quick_left_spec [of L R a mid] assms(2) LR by auto
  obtain R' where R': "r = int R'" "L' \<le> R'" "R' \<le> R" "R' = L' \<or> a ! R' < mid"
    using quick_right_spec [of L' R a mid] assms(3) LR L' by auto
  have b: "b = exch a L' R'" using assms(4) LR L' R' by simp
  have "b ! L' = a ! R'" using b L' R' LR by (simp add: nth_list_update)
  then show ?thesis
    using LR L' R' by (cases "L' = R'"; cases "L' = L") (auto simp: quick_measure_def)
qed

function quick_part :: "int list \<Rightarrow> int \<Rightarrow> int \<Rightarrow> int \<Rightarrow> (int list \<times> int) option" where
  "quick_part a mid left right =
     (if left < right then do {
        l \<leftarrow> quick_left a mid left right;
        r \<leftarrow> quick_right a mid l right;
        a1 \<leftarrow> swap_int a l r;
        quick_part a1 mid l r }
      else Some (a, left))"
  by pat_completeness auto
termination by (relation "measure quick_measure") (auto intro: quick_turn)
declare quick_part.simps [simp del]

lemma quick_part_spec:
  assumes "s \<le> l" "l \<le> r" "r < e" "e < length a" "\<forall>k. s \<le> k \<longrightarrow> k < l \<longrightarrow> a ! k < mid"
    "\<forall>k. r < k \<longrightarrow> k < e \<longrightarrow> mid \<le> a ! k" "Suc r = e \<or> mid \<le> a ! r"
  shows "\<exists>b q. quick_part a mid (int l) (int r) = Some (b, int q) \<and> s \<le> q \<and> q < e \<and> rearr s e a b \<and>
           (\<forall>k. s \<le> k \<longrightarrow> k < q \<longrightarrow> b ! k < mid) \<and> (\<forall>k. q < k \<longrightarrow> k < e \<longrightarrow> mid \<le> b ! k) \<and>
           (Suc q = e \<or> mid \<le> b ! q)"
  using assms
proof (induction "quick_measure (a, mid, int l, int r)" arbitrary: a l r rule: less_induct)
  case less
  show ?case
  proof (cases "l < r")
    case True
    obtain l' where l': "quick_left a mid (int l) (int r) = Some (int l')" "l \<le> l'" "l' \<le> r"
      "\<forall>k. l \<le> k \<longrightarrow> k < l' \<longrightarrow> a ! k < mid" "l' = r \<or> mid \<le> a ! l'"
      using quick_left_spec [of l r a mid] less.prems by auto
    obtain r' where r': "quick_right a mid (int l') (int r) = Some (int r')" "l' \<le> r'" "r' \<le> r"
      "\<forall>k. r' < k \<longrightarrow> k \<le> r \<longrightarrow> mid \<le> a ! k" "r' = l' \<or> a ! r' < mid"
      using quick_right_spec [of l' r a mid] less.prems l'(3) by auto
    let ?b = "exch a l' r'"
    have len: "l' < length a" "r' < length a" using l' r' less.prems by auto
    have sw: "swap_int a (int l') (int r') = Some ?b" using len by simp
    have dec: "quick_measure (?b, mid, int l', int r') < quick_measure (a, mid, int l, int r)"
      using quick_turn [OF _ l'(1) r'(1) sw] True by simp
    have re: "rearr s e a ?b" using less.prems l' r' by (intro rearr_exch) auto
    have p1: "\<forall>k. s \<le> k \<longrightarrow> k < l' \<longrightarrow> ?b ! k < mid"
      using less.prems(5) l' r'(2) by (auto simp: not_less)
    have p2: "\<forall>k. r' < k \<longrightarrow> k < e \<longrightarrow> mid \<le> ?b ! k"
    proof (intro allI impI)
      fix k assume k: "r' < k" "k < e"
      then have "?b ! k = a ! k" using r'(2) by simp
      then show "mid \<le> ?b ! k" using less.prems(6) r'(4) k by (cases "k \<le> r") auto
    qed
    have p3: "Suc r' = e \<or> mid \<le> ?b ! r'"
      using l' r' less.prems(3,7) len by (cases "l' = r'") auto
    have bounds: "s \<le> l'" "r' < e" "e < length ?b"
      using less.prems(1,3,4) l'(2) r'(3) by auto
    obtain b q where q: "quick_part ?b mid (int l') (int r') = Some (b, int q)" "s \<le> q" "q < e"
      "rearr s e ?b b" "\<forall>k. s \<le> k \<longrightarrow> k < q \<longrightarrow> b ! k < mid" "\<forall>k. q < k \<longrightarrow> k < e \<longrightarrow> mid \<le> b ! k"
      "Suc q = e \<or> mid \<le> b ! q"
      using less.hyps [OF dec bounds(1) r'(2) bounds(2,3) p1 p2 p3] by blast
    have "quick_part a mid (int l) (int r) = Some (b, int q)"
      using True l'(1) r'(1) sw q(1) by (subst quick_part.simps) simp
    then show ?thesis using q re by (auto intro: rearr_trans)
  next
    case False
    then show ?thesis
      using less.prems by (subst quick_part.simps) (auto intro!: exI [of _ l])
  qed
qed

text \<open>
  The recursion is on the two parts of the range; that it ends needs the position the partition
  returns to lie in the range, whatever the array.
\<close>

lemma quick_turn_range:
  assumes "left \<le> right" "quick_left a mid left right = Some l" "quick_right a mid l right = Some r"
  shows "left \<le> l \<and> l \<le> r \<and> r \<le> right"
proof -
  have "0 \<le> left" "0 \<le> right" "nat right < length a"
    using quick_left_dom [OF assms(2)] quick_right_dom [OF assms(3)] by auto
  then obtain L R where LR: "left = int L" "right = int R" "L \<le> R" "R < length a"
    using assms(1) by (metis nat_int int_nat_eq nat_mono)
  obtain L' where "l = int L'" "L \<le> L'" "L' \<le> R"
    using quick_left_spec [of L R a mid] assms(2) LR by auto
  then show ?thesis using quick_right_spec [of L' R a mid] assms(3) LR by auto
qed

lemma quick_part_range:
  "quick_part a mid left right = Some (b, q) \<Longrightarrow> left \<le> right \<Longrightarrow> left \<le> q \<and> q \<le> right"
proof (induction "quick_measure (a, mid, left, right)" arbitrary: a left right rule: less_induct)
  case less
  show ?case
  proof (cases "left < right")
    case True
    then obtain l r c where st: "quick_left a mid left right = Some l" "quick_right a mid l right = Some r"
      "swap_int a l r = Some c" "quick_part c mid l r = Some (b, q)"
      using less.prems(1) by (subst (asm) quick_part.simps) (auto split: bind_splits)
    note rng = quick_turn_range [OF less.prems(2) st(1,2)]
    have "l \<le> q \<and> q \<le> r"
      using less.hyps [OF quick_turn [OF True st(1-3)] st(4)] rng by simp
    then show ?thesis using rng by linarith
  next
    case False
    then show ?thesis using less.prems by (subst (asm) quick_part.simps) auto
  qed
qed

function quick_sort_recursive :: "int list \<Rightarrow> int \<Rightarrow> int \<Rightarrow> int list option" where
  "quick_sort_recursive a start end0 =
     (if start \<ge> end0 then Some a
      else do {
        mid \<leftarrow> rdi a end0;
        (a1, left) \<leftarrow> quick_part a mid start (end0 - 1);
        x \<leftarrow> rdi a1 left;
        y \<leftarrow> rdi a1 end0;
        (a2, left1) \<leftarrow> (if x \<ge> y then do { b \<leftarrow> swap_int a1 left end0; Some (b, left) }
                        else Some (a1, left + 1));
        a3 \<leftarrow> quick_sort_recursive a2 start (left1 - 1);
        quick_sort_recursive a3 (left1 + 1) end0 })"
  by pat_completeness auto
termination
  by (relation "measure (\<lambda>(a, start, end0). nat (end0 - start))")
    (auto split: bind_splits if_splits dest!: quick_part_range)
declare quick_sort_recursive.simps [simp del]

definition quick_sort_r :: "int list \<Rightarrow> nat \<Rightarrow> int list option" where
  "quick_sort_r a len = quick_sort_recursive a 0 (int len - 1)"

section \<open>It sorts\<close>

text \<open>After the test on \<open>arr[left]\<close> the pivot stands at \<open>p\<close>, smaller elements left of it.\<close>

lemma quick_split:
  assumes "s < e" "e < length a"
  obtains c p where "quick_sort_recursive a (int s) (int e) = do {
       a3 \<leftarrow> quick_sort_recursive c (int s) (int p - 1);
       quick_sort_recursive a3 (int p + 1) (int e) }"
    "s \<le> p" "p \<le> e" "rearr s (Suc e) a c" "\<forall>k. s \<le> k \<longrightarrow> k < p \<longrightarrow> c ! k \<le> c ! p"
    "\<forall>k. p < k \<longrightarrow> k \<le> e \<longrightarrow> c ! p \<le> c ! k"
proof -
  have e1: "int e - 1 = int (e - 1)" and lt: "s \<le> e - 1" "e - 1 < e" "Suc (e - 1) = e"
    using assms(1) by auto
  have p0: "\<forall>k. s \<le> k \<longrightarrow> k < s \<longrightarrow> a ! k < a ! e" "\<forall>k. e - 1 < k \<longrightarrow> k < e \<longrightarrow> a ! e \<le> a ! k" by auto
  obtain b q where b: "quick_part a (a ! e) (int s) (int (e - 1)) = Some (b, int q)" "s \<le> q" "q < e"
    "rearr s e a b" "\<forall>k. s \<le> k \<longrightarrow> k < q \<longrightarrow> b ! k < a ! e" "\<forall>k. q < k \<longrightarrow> k < e \<longrightarrow> a ! e \<le> b ! k"
    "Suc q = e \<or> a ! e \<le> b ! q"
    using quick_part_spec [OF order_refl lt(1,2) assms(2) p0 disjI1 [OF lt(3)]] by blast
  have len: "length b = length a" "b ! e = a ! e"
    using rearr_length [OF b(4)] rearr_outside [OF b(4), of e] assms(2) by auto
  note reb = rearr_mono [OF b(4), of s "Suc e"]
  note step = quick_sort_recursive.simps [of a "int s" "int e"]
  show thesis
  proof (cases "a ! e \<le> b ! q")
    case True
    let ?c = "exch b q e"
    have "rearr s (Suc e) a ?c"
      using rearr_trans [OF reb rearr_exch [of s q "Suc e" e b]] b(2,3) assms len by simp
    moreover have "\<forall>k. s \<le> k \<longrightarrow> k < q \<longrightarrow> ?c ! k \<le> ?c ! q" "\<forall>k. q < k \<longrightarrow> k \<le> e \<longrightarrow> ?c ! q \<le> ?c ! k"
      using b(3,5,6) len assms True by (auto simp: nth_list_update less_imp_le)
    moreover have "quick_sort_recursive a (int s) (int e) = do {
       a3 \<leftarrow> quick_sort_recursive ?c (int s) (int q - 1);
       quick_sort_recursive a3 (int q + 1) (int e) }"
      unfolding step e1 using b(1,3) len assms True by simp
    ultimately show thesis using that b(2,3) by simp
  next
    case False
    then have q: "Suc q = e" using b(7) by simp
    have "\<forall>k. s \<le> k \<longrightarrow> k < e \<longrightarrow> b ! k \<le> b ! e"
    proof (intro allI impI)
      fix k assume "s \<le> k" "k < e"
      then show "b ! k \<le> b ! e" using b(5) False q len(2) by (cases "k = q") auto
    qed
    moreover have "quick_sort_recursive a (int s) (int e) = do {
       a3 \<leftarrow> quick_sort_recursive b (int s) (int e - 1);
       quick_sort_recursive a3 (int e + 1) (int e) }"
    proof -
      have "int q + 1 = int e" using q by simp
      then show ?thesis unfolding step using b(1,3) [unfolded e1 [symmetric]] len assms False by simp
    qed
    ultimately show thesis using that [of b e] reb assms(1) by simp
  qed
qed

lemma sorted_on_join:
  assumes "sorted_on s p a" "sorted_on (Suc p) e a" "\<forall>k. s \<le> k \<longrightarrow> k < p \<longrightarrow> a ! k \<le> a ! p"
    "\<forall>k. p < k \<longrightarrow> k < e \<longrightarrow> a ! p \<le> a ! k"
  shows "sorted_on s e a"
proof (rule sorted_onI)
  fix i j assume ij: "s \<le> i" "i \<le> j" "j < e"
  consider "j < p" | "p < i" | "i = p" "p < j" | "j = p" "i < p" | "i = p" "j = p" | "i < p" "p < j"
    using ij by linarith
  then show "a ! i \<le> a ! j"
  proof cases
    case 1 then show ?thesis using ij sorted_onD [OF assms(1)] by blast
  next
    case 2 then show ?thesis using ij sorted_onD [OF assms(2), of i j] by simp
  next
    case 6
    then have "a ! i \<le> a ! p" "a ! p \<le> a ! j" using ij assms(3,4) by auto
    then show ?thesis by (rule order_trans)
  qed (use ij assms in auto)
qed

lemma quick_sort_recursive_spec:
  assumes "int e < int (length a)" "- 1 \<le> e1" "e1 \<le> int e"
  shows "\<exists>b. quick_sort_recursive a (int s) e1 = Some b \<and> rearr s (nat (e1 + 1)) a b \<and>
           sorted_on s (nat (e1 + 1)) b"
  using assms
proof (induction "nat (e1 - int s)" arbitrary: a s e1 rule: less_induct)
  case less
  show ?case
  proof (cases "int s < e1")
    case True
    then obtain E where E: "e1 = int E" "s < E" "E < length a"
      using less.prems by (metis less_imp_of_nat_less nat_int of_nat_0_le_iff of_nat_less_iff order_le_less_trans zero_le_imp_eq_int less_le_trans less_imp_le)
    obtain c p where c: "quick_sort_recursive a (int s) (int E) = do {
       a3 \<leftarrow> quick_sort_recursive c (int s) (int p - 1);
       quick_sort_recursive a3 (int p + 1) (int E) }"
      "s \<le> p" "p \<le> E" "rearr s (Suc E) a c" "\<forall>k. s \<le> k \<longrightarrow> k < p \<longrightarrow> c ! k \<le> c ! p"
      "\<forall>k. p < k \<longrightarrow> k \<le> E \<longrightarrow> c ! p \<le> c ! k"
      using quick_split [OF E(2,3)] by metis
    have lc: "length c = length a" using c(4) by (rule rearr_length)
    obtain d where d: "quick_sort_recursive c (int s) (int p - 1) = Some d" "rearr s p c d" "sorted_on s p d"
      using less.hyps [of "int p - 1" s c] less.prems(1,3) E c(2,3) lc by auto
    have ld: "length d = length a" using rearr_length [OF d(2)] lc by simp
    obtain f where f: "quick_sort_recursive d (int (Suc p)) (int E) = Some f"
      "rearr (Suc p) (Suc E) d f" "sorted_on (Suc p) (Suc E) f"
      using less.hyps [of "int E" "Suc p" d] less.prems(1,3) E c(2,3) ld by (auto simp: nat_add_distrib)
    have re: "rearr s (Suc E) a f"
      using c(2-4) rearr_mono [OF d(2), of s "Suc E"] rearr_mono [OF f(2), of s "Suc E"]
      by (auto intro: rearr_trans)
    have keep: "f ! k = d ! k" if "k \<le> p" for k
      using that rearr_outside [OF f(2), of k] E c(3) ld by auto
    have dp: "d ! p = c ! p" using rearr_outside [OF d(2), of p] E c(3) lc by auto
    have dc: "d ! k = c ! k" if "p < k" "k \<le> E" for k
      using that rearr_outside [OF d(2), of k] E lc by auto
    have "sorted_on s p f" using d(3) keep by (auto simp: sorted_on_def)
    moreover have "\<forall>k. s \<le> k \<longrightarrow> k < p \<longrightarrow> f ! k \<le> f ! p"
      using rearr_ball [OF d(2), of "\<lambda>v. v \<le> c ! p"] c(3,5) lc E keep dp by auto
    moreover have "\<forall>k. p < k \<longrightarrow> k < Suc E \<longrightarrow> f ! p \<le> f ! k"
      using rearr_ball [OF f(2), of "\<lambda>v. c ! p \<le> v"] c(6) ld E keep dp dc by auto
    ultimately have "sorted_on s (Suc E) f" using f(3) sorted_on_join by blast
    moreover have "quick_sort_recursive a (int s) e1 = Some f"
      using c(1) d(1) f(1) E(1) by (simp add: add.commute)
    ultimately show ?thesis using re E(1) by (simp add: nat_add_distrib)
  next
    case False
    have "i = j" if "s \<le> i" "i \<le> j" "j < nat (e1 + 1)" for i j
      using that False less.prems(2) by linarith
    then have "sorted_on s (nat (e1 + 1)) a" by (auto simp: sorted_on_def)
    then show ?thesis using False by (subst quick_sort_recursive.simps) simp
  qed
qed

lemma quick_sort_r_sorts:
  assumes "n \<le> length a"
  shows "quick_sort_r a n = Some (sorted_seg 0 n a)"
proof (cases n)
  case 0
  then show ?thesis by (simp add: quick_sort_r_def quick_sort_recursive.simps sorted_seg_trivial)
next
  case (Suc k)
  then obtain b where "quick_sort_recursive a (int 0) (int k) = Some b" "rearr 0 (Suc k) a b" "sorted_on 0 (Suc k) b"
    using quick_sort_recursive_spec [of k a "int k" 0] assms by (auto simp: nat_add_distrib)
  then show ?thesis
    using Suc assms sorted_segI [of 0 n a b] by (simp add: quick_sort_r_def)
qed

interpretation quick: segment_sorter quick_sort_r 0 "\<lambda>_. True"
  by unfold_locales (simp add: quick_sort_r_sorts)

end
