(* ===== verification/SortLib.thy ===== *)
theory SortLib
  imports SortShellHeap SortMerge SortQuick
begin

text \<open>
  The sort library of \<open>3.ybx/20.ds/2.ds/6.sort\<close> as a whole: what its ten entry points promise,
  from the interpretations of \<open>segment_sorter\<close> in the theories of the single sorts.
\<close>



text \<open>
  The recursive merge sort is not a general sort: with more than 100 elements \<open>merging\<close>
  stores past the end of its local array \<open>tmp[100]\<close>, whatever the data.
\<close>
theorem merge_sort_recursive_overflows:
  assumes "100 < n" "p + n \<le> length a"
  shows "merge_sort_recursive a p n = None"
  using assms by (rule merge_sort_recursive_overrun)

theorem merge_sort_recursive_overflows_witness:
  "merge_sort_recursive (replicate 101 7) 0 101 = None"
  by (rule merge_sort_recursive_overflows) simp_all

text \<open>
  The counters the bubble sorts print.  Versions 0 and 1 sort and always compare
  \<open>n * (n - 1) div 2\<close> times; version 2, with the early exit, never compares more often, and
  \<open>n - 1\<close> times only when the array is already in order.
\<close>
theorem bubble_comparisons:
  assumes "n \<le> length a"
  shows "(\<exists>m. bubble_version1 a n = Some (sorted_seg 0 n a, n * (n - 1) div 2, m)) \<and>
    (\<exists>c m. bubble_version2 a n = Some (sorted_seg 0 n a, c, m) \<and> c \<le> n * (n - 1) div 2 \<and>
       (sorted_on 0 n a \<longrightarrow> c \<le> n - 1))"
  using bubble_version1_sorts [OF assms] bubble_version2_sorts [OF assms] by blast

theorem bubble_comparisons_witness:
  "\<exists>m. bubble_version1 [2, 1, 3] 3 = Some (sorted_seg 0 3 [2, 1, 3], 3, m)"
  using bubble_comparisons [of 3 "[2, 1, 3]"] by simp

text \<open>
  The heap sort whose data start at index 1 is the one whose data start at index 0: cell 0
  is not touched, and on the remaining cells the two leave the same array, for every count (also
  one that leaves the array: then both go out of bounds).
\<close>
theorem heap_sorts_equivalent:
  "heap_sort1 (x # a) num = map_option (\<lambda>b. x # b) (arr_of (heap_sort2 a num))"
  by (rule heap_sort1_shift)

text \<open>
  The quick sort on any index range: it returns, sorts exactly the cells
  \<open>start .. end\<close> and moves no other cell.
\<close>
theorem quick_sort_recursive_sorts_range:
  assumes "start \<le> e" "e < length a"
  shows "quick_sort_recursive a (int start) (int e) = Some (sorted_seg start (Suc e - start) a)"
proof -
  obtain b where "quick_sort_recursive a (int start) (int e) = Some b" "rearr start (Suc e) a b"
    "sorted_on start (Suc e) b"
    using quick_sort_recursive_spec [of e a "int e" start] assms by (auto simp: nat_add_distrib)
  then show ?thesis
    using sorted_segI [of start "Suc e - start" a b] assms by simp
qed

theorem quick_sort_recursive_sorts_range_witness:
  "quick_sort_recursive [9, 3, 1, 2, 0] (int 1) (int 3) = Some (sorted_seg 1 3 [9, 3, 1, 2, 0])"
  using quick_sort_recursive_sorts_range [of 1 3 "[9, 3, 1, 2, 0]"] by simp

end
