(* ===== verification/BinHeap.thy ===== *)
theory BinHeap
  imports Prelude
begin

text \<open>
  The bounded priority queue of \<open>3.ybx/20.ds/11.DSAAC/binheap.c\<close> (a binary heap with a sentinel in
  cell 0) and its test program \<open>testheap.c\<close>.  \<open>exit(1)\<close> is the outcome \<open>Exit\<close>.  \<open>Insert\<close> climbs until
  it meets a smaller element; with a value below the sentinel it never does, so the climbing loop
  is a \<open>partial_function\<close> whose value \<open>None\<close> also stands for not returning.
\<close>

section \<open>The program\<close>

datatype 'a outcome = Exit | Ret (ret: 'a)

record heap_struct =
  capacity :: nat
  hsize :: nat
  harr :: "int list"

definition MIN_PQ_CAPACITY :: nat where "MIN_PQ_CAPACITY = 10"
definition MIN_DATA :: int where "MIN_DATA = - 32767"

text \<open>\<open>mem\<close> is what the two \<open>malloc\<close> calls return: \<open>None\<close> for a null pointer, else the cells.\<close>

definition Init :: "nat \<Rightarrow> int list option \<Rightarrow> heap_struct outcome option" where
  "Init cap mem =
     (if cap < MIN_PQ_CAPACITY then Some Exit
      else case mem of
        None \<Rightarrow> Some Exit
      | Some cells \<Rightarrow> do {
          a \<leftarrow> wr cells 0 MIN_DATA;
          Some (Ret \<lparr>capacity = cap, hsize = 0, harr = a\<rparr>) })"

definition MakeEmpty :: "heap_struct \<Rightarrow> heap_struct" where
  "MakeEmpty H = H\<lparr>hsize := 0\<rparr>"

definition IsEmpty :: "heap_struct \<Rightarrow> bool" where
  "IsEmpty H = (hsize H = 0)"

definition IsFull :: "heap_struct \<Rightarrow> bool" where
  "IsFull H = (hsize H = capacity H)"

partial_function (option) climb :: "int list \<Rightarrow> nat \<Rightarrow> int \<Rightarrow> (int list \<times> nat) option" where
  "climb a i val = do {
     x \<leftarrow> rd a (i div 2);
     if val < x then do {
       a1 \<leftarrow> wr a i x;
       climb a1 (i div 2) val }
     else Some (a, i) }"

definition Insert :: "int \<Rightarrow> heap_struct \<Rightarrow> heap_struct outcome option" where
  "Insert val H =
     (if IsFull H then Some Exit
      else do {
        let n = hsize H + 1;
        (a, i) \<leftarrow> climb (harr H) n val;
        a1 \<leftarrow> wr a i val;
        Some (Ret (H\<lparr>hsize := n, harr := a1\<rparr>)) })"

text \<open>The loop of \<open>DeleteMin\<close>; \<open>i\<close> starts at 1, so the guard \<open>0 < i\<close> always holds.\<close>

function sink :: "int list \<Rightarrow> nat \<Rightarrow> nat \<Rightarrow> int \<Rightarrow> (int list \<times> nat) option" where
  "sink a i n lst =
     (if 0 < i \<and> 2 * i \<le> n then do {
        child \<leftarrow> (if 2 * i < n then do {
                    x \<leftarrow> rd a (2 * i);
                    y \<leftarrow> rd a (2 * i + 1);
                    Some (if x > y then 2 * i + 1 else 2 * i) }
                  else Some (2 * i));
        v \<leftarrow> rd a child;
        if lst > v then do {
          a1 \<leftarrow> wr a i v;
          sink a1 child n lst }
        else Some (a, i) }
      else Some (a, i))"
  by pat_completeness auto
termination
  by (relation "measure (\<lambda>(a, i, n, lst). Suc n - i)") (auto split: if_splits bind_splits)
declare sink.simps [simp del]

definition DeleteMin :: "heap_struct \<Rightarrow> (int \<times> heap_struct) outcome option" where
  "DeleteMin H =
     (if IsEmpty H then Some Exit
      else do {
        mn \<leftarrow> rd (harr H) 1;
        lst \<leftarrow> rd (harr H) (hsize H);
        let n = hsize H - 1;
        (a, i) \<leftarrow> sink (harr H) 1 n lst;
        a1 \<leftarrow> wr a i lst;
        Some (Ret (mn, H\<lparr>hsize := n, harr := a1\<rparr>)) })"

definition FindMin :: "heap_struct \<Rightarrow> int outcome option" where
  "FindMin H = (if IsEmpty H then Some Exit else map_option Ret (rd (harr H) 1))"

subsection \<open>testheap.c\<close>

definition PQ_MAXSIZE :: nat where "PQ_MAXSIZE = 10"

text \<open>The loops of \<open>main\<close>: insert \<open>MAXSIZE\<close> values, then delete until the heap is empty; the printed
  values are collected.\<close>

function pq_main_insert :: "nat \<Rightarrow> int \<Rightarrow> heap_struct \<Rightarrow> int list \<Rightarrow> (int list \<times> heap_struct) outcome option" where
  "pq_main_insert i j H out =
     (if i < PQ_MAXSIZE then do {
        r \<leftarrow> Insert j H;
        case r of
          Exit \<Rightarrow> Some Exit
        | Ret H1 \<Rightarrow> pq_main_insert (i + 1) ((j + 71) mod int PQ_MAXSIZE) H1 (out @ [j]) }
      else Some (Ret (out, H)))"
  by pat_completeness auto
termination by (relation "measure (\<lambda>(i, j, H, out). PQ_MAXSIZE - i)") auto
declare pq_main_insert.simps [simp del]

lemma DeleteMin_hsize: "DeleteMin H = Some (Ret (x, H1)) \<Longrightarrow> hsize H1 < hsize H"
  by (auto simp: DeleteMin_def IsEmpty_def Let_def split: bind_splits if_splits)

function pq_main_delete :: "heap_struct \<Rightarrow> int list \<Rightarrow> (int list \<times> heap_struct) outcome option" where
  "pq_main_delete H out =
     (if \<not> IsEmpty H then do {
        r \<leftarrow> DeleteMin H;
        case r of
          Exit \<Rightarrow> Some Exit
        | Ret (tmp, H1) \<Rightarrow> pq_main_delete H1 (out @ [tmp]) }
      else Some (Ret (out, H)))"
  by pat_completeness auto
termination
  by (relation "measure (\<lambda>(H, out). hsize H)") (auto dest: DeleteMin_hsize)
declare pq_main_delete.simps [simp del]

definition pq_main :: "int list option \<Rightarrow> (int list \<times> int list \<times> int list) outcome option" where
  "pq_main mem = do {
     r \<leftarrow> Init PQ_MAXSIZE mem;
     case r of
       Exit \<Rightarrow> Some Exit
     | Ret H \<Rightarrow> do {
         r1 \<leftarrow> pq_main_insert 0 (int PQ_MAXSIZE div 2) H [];
         case r1 of
           Exit \<Rightarrow> Some Exit
         | Ret (ins, H1) \<Rightarrow> do {
             r2 \<leftarrow> pq_main_delete H1 [];
             case r2 of
               Exit \<Rightarrow> Some Exit
             | Ret (dels, _) \<Rightarrow> Some (Ret (ins, take (Suc (hsize H1)) (harr H1), dels)) } } }"

section \<open>The heap invariant\<close>

definition heap_ok :: "nat \<Rightarrow> int list \<Rightarrow> bool" where
  "heap_ok n a \<longleftrightarrow> (\<forall>j. 2 \<le> j \<longrightarrow> j \<le> n \<longrightarrow> a ! (j div 2) \<le> a ! j)"

definition bag :: "heap_struct \<Rightarrow> int multiset" where
  "bag H = mset (take (hsize H) (drop 1 (harr H)))"

definition pq_ok :: "heap_struct \<Rightarrow> bool" where
  "pq_ok H \<longleftrightarrow> length (harr H) = Suc (capacity H) \<and> hsize H \<le> capacity H \<and>
     harr H ! 0 = MIN_DATA \<and> heap_ok (hsize H) (harr H) \<and> (\<forall>x \<in># bag H. MIN_DATA \<le> x)"

lemma pq_okD:
  assumes "pq_ok H"
  shows "length (harr H) = Suc (capacity H)" "hsize H \<le> capacity H" "harr H ! 0 = MIN_DATA"
    "heap_ok (hsize H) (harr H)" "\<forall>x \<in># bag H. MIN_DATA \<le> x"
  using assms by (auto simp: pq_ok_def)

lemma size_bag: "pq_ok H \<Longrightarrow> size (bag H) = hsize H"
  by (simp add: bag_def pq_ok_def)

lemma heap_ok_root:
  assumes "heap_ok n a" "1 \<le> k" "k \<le> n"
  shows "a ! 1 \<le> a ! k"
  using assms(2,3)
proof (induction k rule: less_induct)
  case (less k)
  show ?case
  proof (cases "k = 1")
    case False
    then have "a ! 1 \<le> a ! (k div 2)" using less by (intro less.IH) auto
    moreover have "a ! (k div 2) \<le> a ! k" using assms(1) less.prems False by (auto simp: heap_ok_def)
    ultimately show ?thesis by simp
  qed simp
qed

text \<open>A heap up to the edge above the hole \<open>h\<close> (climbing), or up to the edges below it (sinking).\<close>

definition climb_inv :: "nat \<Rightarrow> nat \<Rightarrow> int list \<Rightarrow> bool" where
  "climb_inv n h v \<longleftrightarrow>
     (\<forall>j. 2 \<le> j \<longrightarrow> j \<le> n \<longrightarrow> j \<noteq> h \<longrightarrow> v ! (j div 2) \<le> v ! j) \<and>
     (\<forall>j. 2 \<le> h \<longrightarrow> j \<le> n \<longrightarrow> j div 2 = h \<longrightarrow> v ! (h div 2) \<le> v ! j)"

definition sink_inv :: "nat \<Rightarrow> nat \<Rightarrow> int list \<Rightarrow> bool" where
  "sink_inv n h v \<longleftrightarrow>
     (\<forall>j. 2 \<le> j \<longrightarrow> j \<le> n \<longrightarrow> j div 2 \<noteq> h \<longrightarrow> v ! (j div 2) \<le> v ! j) \<and>
     (\<forall>j. 2 \<le> h \<longrightarrow> j \<le> n \<longrightarrow> j div 2 = h \<longrightarrow> v ! (h div 2) \<le> v ! j)"

lemma climb_inv_step:
  assumes inv: "climb_inv n h v" and h: "2 \<le> h" "h \<le> n" "n < length v" and lt: "v ! h < v ! (h div 2)"
  shows "climb_inv n (h div 2) (exch v h (h div 2))"
proof -
  define p where "p = h div 2"
  have p: "1 \<le> p" "p < h" "p < length v" "h < length v" using h by (auto simp: p_def)
  note val = nth_exch [OF p(4,3)]
  have e: "v ! (j div 2) \<le> v ! j" if "2 \<le> j" "j \<le> n" "j \<noteq> h" for j
    using inv that by (auto simp: climb_inv_def)
  have g: "v ! p \<le> v ! j" if "j \<le> n" "j div 2 = h" for j
    using inv that h by (auto simp: climb_inv_def p_def)
  have "exch v h p ! (j div 2) \<le> exch v h p ! j" if j: "2 \<le> j" "j \<le> n" "j \<noteq> p" for j
  proof -
    have "j div 2 < j" using j(1) by simp
    consider "j = h" | "j div 2 = h" | "j \<noteq> h" "j div 2 = p" | "j \<noteq> h" "j div 2 \<noteq> h" "j div 2 \<noteq> p" by blast
    then show ?thesis
      using lt p j e [of j] g [of j] \<open>j div 2 < j\<close>
      by cases (auto simp: val p_def [symmetric])
  qed
  moreover have "exch v h p ! (p div 2) \<le> exch v h p ! j" if "2 \<le> p" "j \<le> n" "j div 2 = p" for j
  proof -
    have "v ! (p div 2) \<le> v ! p" using e [of p] that p h by simp
    moreover have "p div 2 < p" "p < j" "2 \<le> j" using that by auto
    moreover have "j = h \<or> v ! p \<le> v ! j" using e [of j] that \<open>2 \<le> j\<close> by auto
    ultimately show ?thesis using p by (auto simp: val)
  qed
  ultimately show ?thesis by (simp add: climb_inv_def flip: p_def)
qed

lemma sink_inv_step:
  assumes inv: "sink_inv n h v" and h: "1 \<le> h" "c div 2 = h" "2 \<le> c" "c \<le> n" "n < length v"
    and lt: "v ! c < v ! h" and small: "\<And>j. 2 \<le> j \<Longrightarrow> j \<le> n \<Longrightarrow> j div 2 = h \<Longrightarrow> v ! c \<le> v ! j"
  shows "sink_inv n c (exch v h c)"
proof -
  have p: "h < c" "h < length v" "c < length v" using h by auto
  note val = nth_exch [OF p(2,3)]
  have e: "v ! (j div 2) \<le> v ! j" if "2 \<le> j" "j \<le> n" "j div 2 \<noteq> h" for j
    using inv that by (auto simp: sink_inv_def)
  have "exch v h c ! (j div 2) \<le> exch v h c ! j" if j: "2 \<le> j" "j \<le> n" "j div 2 \<noteq> c" for j
  proof -
    have "v ! (h div 2) \<le> v ! c" if "j = h"
      using inv that j h by (auto simp: sink_inv_def)
    moreover have "j div 2 < j" using j(1) by simp
    moreover consider "j = c" | "j \<noteq> c" "j div 2 = h" | "j = h" | "j \<noteq> c" "j \<noteq> h" "j div 2 \<noteq> h" by blast
    ultimately show ?thesis
      using lt p h j e [of j] small [of j] by cases (auto simp: val)
  qed
  moreover have "exch v h c ! (c div 2) \<le> exch v h c ! j" if "j \<le> n" "j div 2 = c" for j
  proof -
    have "c < j" using that h(3) by auto
    moreover have "v ! c \<le> v ! j" using e [of j] that p \<open>c < j\<close> h(3) by auto
    ultimately show ?thesis using p h(2) by (auto simp: val)
  qed
  ultimately show ?thesis unfolding sink_inv_def by blast
qed

lemma climb_spec:
  assumes "1 \<le> h" "h \<le> n" "n < length a" "a ! 0 \<le> val" "climb_inv n h (a[h := val])"
  shows "\<exists>b i. climb a h val = Some (b, i) \<and> 1 \<le> i \<and> i \<le> n \<and> length b = length a \<and>
           heap_ok n (b[i := val]) \<and> rearr 1 (Suc n) (a[h := val]) (b[i := val])"
  using assms
proof (induction h arbitrary: a rule: less_induct)
  case (less h)
  let ?p = "h div 2" and ?v = "a[h := val]"
  have h: "h < length a" "?p < h" using less.prems by auto
  show ?case
  proof (cases "val < a ! ?p")
    case True
    then have p: "1 \<le> ?p" "2 \<le> h" using less.prems(4) by (cases "?p = 0"; auto)+
    have "h \<noteq> ?p" using h(2) by simp
    then have eq: "(a[h := a ! ?p])[?p := val] = exch ?v h ?p"
      using h by (simp add: list_update_swap)
    have "climb_inv n ?p ((a[h := a ! ?p])[?p := val])"
      unfolding eq using climb_inv_step [OF less.prems(5) p(2) less.prems(2)] less.prems(3) h True by simp
    then obtain b i where b: "climb (a[h := a ! ?p]) ?p val = Some (b, i)" "1 \<le> i" "i \<le> n"
      "length b = length a" "heap_ok n (b[i := val])"
      "rearr 1 (Suc n) ((a[h := a ! ?p])[?p := val]) (b[i := val])"
      using less.IH [OF h(2) p(1), of "a[h := a ! ?p]"] less.prems h p by auto
    have "rearr 1 (Suc n) ?v ((a[h := a ! ?p])[?p := val])"
      unfolding eq using less.prems p h by (intro rearr_exch) auto
    moreover have "climb a h val = Some (b, i)"
      using True b(1) h by (subst climb.simps) simp
    ultimately show ?thesis using b by (auto intro: rearr_trans)
  next
    case False
    have "heap_ok n ?v"
      unfolding heap_ok_def
    proof (intro allI impI)
      fix j assume j: "2 \<le> j" "j \<le> n"
      then show "?v ! (j div 2) \<le> ?v ! j"
        using less.prems(5) False h by (cases "j = h") (auto simp: climb_inv_def)
    qed
    moreover have "climb a h val = Some (a, h)" using False h by (subst climb.simps) simp
    ultimately show ?thesis using less.prems by auto
  qed
qed

text \<open>Below the sentinel the climb runs to cell 0 and stays there.\<close>

lemma climb_never_0:
  assumes "climb a i val = Some y"
  shows "i = 0 \<longrightarrow> a \<noteq> [] \<longrightarrow> \<not> val < a ! 0"
proof (rule climb.raw_induct [of "\<lambda>a i val y. i = 0 \<longrightarrow> a \<noteq> [] \<longrightarrow> \<not> val < a ! 0", OF _ assms])
  fix rec :: "int list \<Rightarrow> nat \<Rightarrow> int \<Rightarrow> (int list \<times> nat) option" and a i val y
  assume ih: "\<And>a i val y. rec a i val = Some y \<Longrightarrow> i = 0 \<longrightarrow> a \<noteq> [] \<longrightarrow> \<not> val < a ! 0"
    and st: "do { x \<leftarrow> rd a (i div 2);
       if val < x then do { a1 \<leftarrow> wr a i x; rec a1 (i div 2) val } else Some (a, i) } = Some y"
  show "i = 0 \<longrightarrow> a \<noteq> [] \<longrightarrow> \<not> val < a ! 0"
    using st ih [of "a[0 := a ! 0]" 0 val y] by auto
qed

lemma climb_below_sentinel:
  assumes "\<forall>j \<le> h. val < a ! j" "h < length a"
  shows "climb a h val = None"
  using assms
proof (induction h arbitrary: a rule: less_induct)
  case (less h)
  show ?case
  proof (cases "h = 0")
    case True
    then show ?thesis using climb_never_0 [of a 0 val] less.prems by (cases "climb a 0 val") auto
  next
    case False
    have "climb (a[h := a ! (h div 2)]) (h div 2) val = None"
      using False less.prems by (intro less.IH) (auto simp: nth_list_update)
    then show ?thesis using False less.prems by (subst climb.simps) simp
  qed
qed

lemma sink_spec:
  assumes "1 \<le> h" "h \<le> n" "n < length a" "sink_inv n h (a[h := lst])"
  shows "\<exists>b i. sink a h n lst = Some (b, i) \<and> 1 \<le> i \<and> i \<le> n \<and> length b = length a \<and>
           heap_ok n (b[i := lst]) \<and> rearr 1 (Suc n) (a[h := lst]) (b[i := lst])"
  using assms
proof (induction "n - h" arbitrary: a h rule: less_induct)
  case less
  let ?v = "a[h := lst]"
  show ?case
  proof (cases "2 * h \<le> n")
    case True
    define c where "c = (if 2 * h < n \<and> a ! (2 * h) > a ! (2 * h + 1) then 2 * h + 1 else 2 * h)"
    have c: "c div 2 = h" "2 \<le> c" "c \<le> n" "h < c" using True less.prems(1) by (auto simp: c_def)
    have small: "?v ! c \<le> ?v ! j" if "2 \<le> j" "j \<le> n" "j div 2 = h" for j
    proof -
      have "j = 2 * h \<or> j = 2 * h + 1" using that(3) by auto
      then show ?thesis using that(2) less.prems(1) by (auto simp: c_def)
    qed
    have step: "sink a h n lst = (if lst > a ! c then sink (a[h := a ! c]) c n lst else Some (a, h))"
      using True less.prems by (subst sink.simps) (auto simp: c_def)
    show ?thesis
    proof (cases "lst > a ! c")
      case gt: True
      let ?a = "a[h := a ! c]"
      have eq: "?a[c := lst] = exch ?v h c"
        using c less.prems by (simp add: list_update_swap)
      have dec: "n - c < n - h" using c(3,4) by simp
      have "sink_inv n c (?a[c := lst])"
        unfolding eq using gt c less.prems small
        by (intro sink_inv_step [OF less.prems(4,1) c(1-3)]) auto
      then obtain b i where b: "sink ?a c n lst = Some (b, i)" "1 \<le> i" "i \<le> n" "length b = length a"
        "heap_ok n (b[i := lst])" "rearr 1 (Suc n) (?a[c := lst]) (b[i := lst])"
        using less.hyps [OF dec _ c(3), of ?a] less.prems(3) c(2) by auto
      have "rearr 1 (Suc n) ?v (?a[c := lst])"
        unfolding eq using c less.prems by (intro rearr_exch) auto
      then show ?thesis using step gt b by (auto intro: rearr_trans)
    next
      case False
      have "heap_ok n ?v"
        unfolding heap_ok_def
      proof (intro allI impI)
        fix j assume j: "2 \<le> j" "j \<le> n"
        show "?v ! (j div 2) \<le> ?v ! j"
        proof (cases "j div 2 = h")
          case True
          then show ?thesis using small [OF j] False c less.prems by (auto split: if_splits)
        next
          case False
          then show ?thesis using less.prems(4) j by (auto simp: sink_inv_def)
        qed
      qed
      then show ?thesis using step False less.prems by auto
    qed
  next
    case False
    have "heap_ok n ?v"
      using less.prems(4) False by (auto simp: heap_ok_def sink_inv_def)
    then show ?thesis using False less.prems by (subst sink.simps) auto
  qed
qed

lemma rearr_bag:
  assumes "rearr 1 (Suc n) a b"
  shows "mset (take n (drop 1 b)) = mset (take n (drop 1 a))"
  using same_outside_mset_seg [of 1 n a b] assms by (simp add: rearr_def)

lemma Insert_spec:
  assumes ok: "pq_ok H" and room: "hsize H < capacity H" and val: "MIN_DATA \<le> val"
  shows "\<exists>H'. Insert val H = Some (Ret H') \<and> pq_ok H' \<and> bag H' = add_mset val (bag H) \<and>
           capacity H' = capacity H \<and> hsize H' = Suc (hsize H)"
proof -
  note H = pq_okD [OF ok]
  let ?a = "harr H" and ?n = "Suc (hsize H)"
  have "climb_inv ?n ?n (?a[?n := val])"
    using H(1,4) room by (auto simp: climb_inv_def heap_ok_def)
  then obtain b i where b: "climb ?a ?n val = Some (b, i)" "1 \<le> i" "i \<le> ?n" "length b = length ?a"
    "heap_ok ?n (b[i := val])" "rearr 1 (Suc ?n) (?a[?n := val]) (b[i := val])"
    using climb_spec [of ?n ?n ?a val] H(1,3) room val by auto
  let ?H = "H\<lparr>hsize := ?n, harr := b[i := val]\<rparr>"
  have "take ?n (drop 1 (?a[?n := val])) = take (hsize H) (drop 1 ?a) @ [val]"
    using H(1) room by (simp add: take_Suc_conv_app_nth drop_update_swap)
  then have bg: "bag ?H = add_mset val (bag H)"
    using rearr_bag [OF b(6)] by (simp add: bag_def)
  have "b[i := val] ! 0 = MIN_DATA"
    using rearr_outside [OF b(6), of 0] H(1,3) by simp
  then have "pq_ok ?H" using b(4,5) H(1,5) room val bg by (auto simp: pq_ok_def)
  moreover have "Insert val H = Some (Ret ?H)"
    using b(1,3,4) H(1) room by (simp add: Insert_def IsFull_def Let_def)
  ultimately show ?thesis using bg by (intro exI [of _ ?H]) simp
qed

lemma Insert_full: "hsize H = capacity H \<Longrightarrow> Insert val H = Some Exit"
  by (simp add: Insert_def IsFull_def)

lemma Insert_below_sentinel:
  assumes ok: "pq_ok H" and room: "hsize H < capacity H" and val: "val < MIN_DATA"
  shows "Insert val H = None"
proof -
  note H = pq_okD [OF ok]
  let ?a = "harr H" and ?n = "Suc (hsize H)"
  have low: "val < ?a ! j" if "j \<le> hsize H" for j
  proof (cases "j = 0")
    case False
    then have "?a ! j \<in># bag H"
      using that H(1,2) by (auto simp: bag_def in_set_conv_nth intro!: exI [of _ "j - 1"])
    then show ?thesis using H(5) val by auto
  qed (use H(3) val in simp)
  have "climb (?a[?n := ?a ! (?n div 2)]) (?n div 2) val = None"
    using low H(1) room by (intro climb_below_sentinel) (auto simp: nth_list_update)
  then have "climb ?a ?n val = None"
    using low [of "?n div 2"] H(1) room by (subst climb.simps) simp
  then show ?thesis using room by (simp add: Insert_def IsFull_def)
qed

lemma bag_member: "pq_ok H \<Longrightarrow> x \<in># bag H \<longleftrightarrow> (\<exists>j. 1 \<le> j \<and> j \<le> hsize H \<and> x = harr H ! j)"
proof -
  assume "pq_ok H"
  then have len: "hsize H < length (harr H)" by (simp add: pq_ok_def)
  have "x \<in># bag H \<longleftrightarrow> (\<exists>j < hsize H. x = harr H ! (j + 1))"
    using len by (auto simp: bag_def in_set_conv_nth)
  also have "\<dots> \<longleftrightarrow> (\<exists>j. 1 \<le> j \<and> j \<le> hsize H \<and> x = harr H ! j)"
  proof
    assume "\<exists>j < hsize H. x = harr H ! (j + 1)"
    then obtain j where "j < hsize H" "x = harr H ! (j + 1)" by blast
    then show "\<exists>j. 1 \<le> j \<and> j \<le> hsize H \<and> x = harr H ! j" by (intro exI [of _ "j + 1"]) auto
  next
    assume "\<exists>j. 1 \<le> j \<and> j \<le> hsize H \<and> x = harr H ! j"
    then obtain j where "1 \<le> j" "j \<le> hsize H" "x = harr H ! j" by blast
    then show "\<exists>j < hsize H. x = harr H ! (j + 1)" by (intro exI [of _ "j - 1"]) auto
  qed
  finally show ?thesis .
qed

lemma root_least:
  assumes "pq_ok H" "x \<in># bag H"
  shows "harr H ! 1 \<le> x"
  using assms heap_ok_root [OF pq_okD(4) [OF assms(1)]] by (auto simp: bag_member)

lemma DeleteMin_spec:
  assumes ok: "pq_ok H" and ne: "hsize H \<noteq> 0"
  shows "\<exists>H'. DeleteMin H = Some (Ret (harr H ! 1, H')) \<and> pq_ok H' \<and>
           bag H' = bag H - {#harr H ! 1#} \<and> harr H ! 1 \<in># bag H \<and>
           capacity H' = capacity H \<and> hsize H = Suc (hsize H')"
proof -
  note H = pq_okD [OF ok]
  let ?a = "harr H" and ?n = "hsize H - 1" and ?l = "harr H ! hsize H"
  have mem: "?a ! 1 \<in># bag H" using ok ne by (auto simp: bag_member)
  obtain b i where b: "sink ?a 1 ?n ?l = Some (b, i)" "1 \<le> i" "i < length b" "length b = length ?a"
    "heap_ok ?n (b[i := ?l])" "rearr 1 (Suc ?n) (?a[1 := ?l]) (b[i := ?l])" "b[i := ?l] ! 0 = MIN_DATA"
  proof (cases "?n = 0")
    case True
    have "sink ?a 1 ?n ?l = Some (?a, 1)" using True by (subst sink.simps) simp
    then show thesis using True H ne by (intro that [of ?a 1]) (auto simp: heap_ok_def)
  next
    case False
    have "sink_inv ?n 1 (?a[1 := ?l])"
      using H(4) False by (auto simp: sink_inv_def heap_ok_def)
    moreover have "1 \<le> ?n" "?n < length ?a" using H(1,2) False by auto
    ultimately obtain b i where b: "sink ?a 1 ?n ?l = Some (b, i)" "1 \<le> i" "i \<le> ?n" "length b = length ?a"
      "heap_ok ?n (b[i := ?l])" "rearr 1 (Suc ?n) (?a[1 := ?l]) (b[i := ?l])"
      using sink_spec [OF order_refl] by blast
    moreover have "b[i := ?l] ! 0 = MIN_DATA"
      using rearr_outside [OF b(6), of 0] H(1,3) by simp
    ultimately show thesis using that H(1,2) by auto
  qed
  let ?H = "H\<lparr>hsize := ?n, harr := b[i := ?l]\<rparr>"
  have bg: "bag ?H = bag H - {#?a ! 1#}"
  proof (cases "?n = 0")
    case True
    then have "hsize H = Suc 0" using ne by simp
    then show ?thesis using H(1,2) by (simp add: bag_def take_Suc_conv_app_nth)
  next
    case False
    define m where "m = ?n - 1"
    have m: "hsize H = Suc (Suc m)" "?n = Suc m" using False by (auto simp: m_def)
    have "drop 1 ?a = ?a ! 1 # drop 2 ?a"
      using H(1,2) m by (metis Cons_nth_drop_Suc Suc_1 Suc_le_eq le_SucI less_Suc_eq_le One_nat_def zero_less_Suc order_less_le_trans)
    moreover have "take (Suc m) (drop 2 ?a) = take m (drop 2 ?a) @ [?l]"
      using H(1,2) m by (simp add: take_Suc_conv_app_nth)
    ultimately have "bag H = {#?a ! 1#} + (mset (take m (drop 2 ?a)) + {#?l#})"
      using m by (simp add: bag_def)
    moreover have "bag ?H = mset (take (Suc m) (drop 1 (?a[1 := ?l])))"
      using rearr_bag [OF b(6)] m by (simp add: bag_def)
    moreover have "drop 1 (?a[1 := ?l]) = ?l # drop 2 ?a"
      using \<open>drop 1 ?a = ?a ! 1 # drop 2 ?a\<close> H(1,2) m by (simp add: drop_update_swap)
    ultimately show ?thesis by simp
  qed
  have "pq_ok ?H"
    using b(4,5,7) H(1,2,5) bg by (auto simp: pq_ok_def dest: in_diffD)
  moreover have "DeleteMin H = Some (Ret (?a ! 1, ?H))"
    using b(1,3,4) H(1,2) ne by (simp add: DeleteMin_def IsEmpty_def Let_def)
  ultimately show ?thesis using bg mem ne by (intro exI [of _ ?H]) simp
qed

section \<open>A bounded priority queue\<close>

text \<open>
  What a client may rely on: below the capacity an insertion adds one element, a deletion removes a
  least one.  The lemmas of the client (fill, then drain) are proved from these laws only.
\<close>

locale bounded_pqueue =
  fixes insertp :: "int \<Rightarrow> 'h \<Rightarrow> 'h option"
    and deletep :: "'h \<Rightarrow> (int \<times> 'h) option"
    and content :: "'h \<Rightarrow> int multiset"
    and inv :: "'h \<Rightarrow> bool"
    and cap :: "'h \<Rightarrow> nat"
    and legal :: "int \<Rightarrow> bool"
  assumes insertp_law: "inv h \<Longrightarrow> legal v \<Longrightarrow> size (content h) < cap h \<Longrightarrow>
      \<exists>h'. insertp v h = Some h' \<and> inv h' \<and> content h' = add_mset v (content h) \<and> cap h' = cap h"
    and deletep_law: "inv h \<Longrightarrow> content h \<noteq> {#} \<Longrightarrow>
      \<exists>x h'. deletep h = Some (x, h') \<and> inv h' \<and> x \<in># content h \<and> (\<forall>y \<in># content h. x \<le> y) \<and>
             content h' = content h - {#x#} \<and> cap h' = cap h"
begin

fun fill :: "int list \<Rightarrow> 'h \<Rightarrow> 'h option" where
  "fill [] h = Some h"
| "fill (v # vs) h = do { h1 \<leftarrow> insertp v h; fill vs h1 }"

fun drain :: "nat \<Rightarrow> 'h \<Rightarrow> (int list \<times> 'h) option" where
  "drain 0 h = Some ([], h)"
| "drain (Suc n) h = do { (x, h1) \<leftarrow> deletep h; (xs, h2) \<leftarrow> drain n h1; Some (x # xs, h2) }"

lemma fill_spec:
  "inv h \<Longrightarrow> \<forall>v \<in> set vs. legal v \<Longrightarrow> size (content h) + length vs \<le> cap h \<Longrightarrow>
   \<exists>h'. fill vs h = Some h' \<and> inv h' \<and> content h' = content h + mset vs \<and> cap h' = cap h"
proof (induction vs arbitrary: h)
  case (Cons v vs)
  then obtain h1 where "insertp v h = Some h1" "inv h1" "content h1 = add_mset v (content h)" "cap h1 = cap h"
    using insertp_law [of h v] by auto
  then show ?case using Cons.IH [of h1] Cons.prems by auto
qed simp

lemma drain_spec:
  "inv h \<Longrightarrow> size (content h) = n \<Longrightarrow>
   \<exists>h'. drain n h = Some (sorted_list_of_multiset (content h), h') \<and> inv h' \<and> content h' = {#} \<and> cap h' = cap h"
proof (induction n arbitrary: h)
  case (Suc n)
  then have "content h \<noteq> {#}" by auto
  then obtain x h1 where x: "deletep h = Some (x, h1)" "inv h1" "x \<in># content h" "\<forall>y \<in># content h. x \<le> y"
    "content h1 = content h - {#x#}" "cap h1 = cap h"
    using deletep_law Suc.prems(1) by blast
  then obtain h2 where "drain n h1 = Some (sorted_list_of_multiset (content h1), h2)" "inv h2"
    "content h2 = {#}" "cap h2 = cap h1"
    using Suc.IH [of h1] Suc.prems(2) by (auto simp: size_Diff_singleton)
  moreover have "sorted_list_of_multiset (content h) = x # sorted_list_of_multiset (content h - {#x#})"
    using x(3,4) by (metis insert_DiffM insort_is_Cons set_sorted_list_of_multiset in_diffD
        sorted_list_of_multiset_insert)
  ultimately show ?case using x by auto
qed simp

lemma heapsort:
  assumes "inv h" "content h = {#}" "\<forall>v \<in> set vs. legal v" "length vs \<le> cap h"
  obtains h1 h2 where "fill vs h = Some h1" "drain (length vs) h1 = Some (sort vs, h2)" "inv h2" "content h2 = {#}"
proof -
  obtain h1 where h1: "fill vs h = Some h1" "inv h1" "content h1 = mset vs" "cap h1 = cap h"
    using fill_spec [OF assms(1,3)] assms(2,4) by auto
  then show thesis using drain_spec [OF h1(2), of "length vs"] that by auto
qed

end

text \<open>A returned value that is not the \<open>exit\<close> outcome.\<close>

definition returned :: "'a outcome option \<Rightarrow> 'a option" where
  "returned r = (case r of Some (Ret x) \<Rightarrow> Some x | _ \<Rightarrow> None)"

interpretation bh: bounded_pqueue "\<lambda>v H. returned (Insert v H)" "\<lambda>H. returned (DeleteMin H)" bag pq_ok
  capacity "\<lambda>v. MIN_DATA \<le> v"
proof
  fix h v assume "pq_ok h" "MIN_DATA \<le> v" "size (bag h) < capacity h"
  then show "\<exists>h'. returned (Insert v h) = Some h' \<and> pq_ok h' \<and> bag h' = add_mset v (bag h) \<and> capacity h' = capacity h"
    using Insert_spec [of h v] by (auto simp: returned_def size_bag)
next
  fix h assume "pq_ok h" "bag h \<noteq> {#}"
  moreover from this have "hsize h \<noteq> 0" by (auto simp: bag_def)
  ultimately show "\<exists>x h'. returned (DeleteMin h) = Some (x, h') \<and> pq_ok h' \<and> x \<in># bag h \<and>
      (\<forall>y \<in># bag h. x \<le> y) \<and> bag h' = bag h - {#x#} \<and> capacity h' = capacity h"
    using DeleteMin_spec [of h] root_least [of h] by (auto simp: returned_def)
qed

section \<open>The test program drains in order\<close>

fun jseq :: "nat \<Rightarrow> int \<Rightarrow> int list" where
  "jseq 0 j = []"
| "jseq (Suc k) j = j # jseq k ((j + 71) mod int PQ_MAXSIZE)"

lemma jseq_length [simp]: "length (jseq k j) = k"
  by (induction k arbitrary: j) auto

lemma returned_Ret [simp]: "returned (Some (Ret x)) = Some x"
  by (simp add: returned_def)

lemma Insert_returned:
  assumes "pq_ok H" "hsize H < capacity H" "MIN_DATA \<le> v"
  shows "\<exists>H1. Insert v H = Some (Ret H1) \<and> returned (Insert v H) = Some H1 \<and> pq_ok H1 \<and>
           hsize H1 = Suc (hsize H) \<and> capacity H1 = capacity H"
  using Insert_spec [OF assms] by (auto simp: returned_def)

lemma pq_main_insert_fill:
  assumes "pq_ok H" "hsize H + (PQ_MAXSIZE - i) \<le> capacity H" "0 \<le> j"
  shows "pq_main_insert i j H out =
    map_option (\<lambda>H1. Ret (out @ jseq (PQ_MAXSIZE - i) j, H1)) (bh.fill (jseq (PQ_MAXSIZE - i) j) H)"
  using assms
proof (induction "PQ_MAXSIZE - i" arbitrary: i j H out)
  case 0
  then show ?case by (subst pq_main_insert.simps) simp
next
  case (Suc k)
  then have k: "k = PQ_MAXSIZE - Suc i" and i: "i < PQ_MAXSIZE" by auto
  have "MIN_DATA \<le> j" using Suc.prems(3) by (simp add: MIN_DATA_def)
  moreover have "hsize H < capacity H" using Suc.prems(2) i by simp
  ultimately obtain H1 where H1: "Insert j H = Some (Ret H1)" "returned (Insert j H) = Some H1" "pq_ok H1"
    "hsize H1 = Suc (hsize H)" "capacity H1 = capacity H"
    using Insert_returned [OF Suc.prems(1)] by blast
  have "0 \<le> (j + 71) mod int PQ_MAXSIZE" by (simp add: PQ_MAXSIZE_def)
  then show ?case
    using Suc.hyps(1) [OF k, of H1 "(j + 71) mod int PQ_MAXSIZE" "out @ [j]"] H1 Suc.prems(2) i
    by (subst pq_main_insert.simps) (simp flip: Suc.hyps(2) k)
qed

lemma pq_main_delete_drain:
  assumes "pq_ok H"
  shows "pq_main_delete H out = map_option (\<lambda>(xs, H1). Ret (out @ xs, H1)) (bh.drain (hsize H) H)"
  using assms
proof (induction "hsize H" arbitrary: H out)
  case 0
  then show ?case by (subst pq_main_delete.simps) (simp add: IsEmpty_def)
next
  case (Suc n)
  then obtain H1 where H1: "DeleteMin H = Some (Ret (harr H ! 1, H1))" "pq_ok H1" "hsize H = Suc (hsize H1)"
    using DeleteMin_spec [of H] by auto
  then have "pq_main_delete H out = pq_main_delete H1 (out @ [harr H ! 1])"
    by (subst pq_main_delete.simps) (simp add: IsEmpty_def)
  also have "\<dots> = map_option (\<lambda>(xs, H2). Ret ((out @ [harr H ! 1]) @ xs, H2)) (bh.drain (hsize H1) H1)"
    using Suc.hyps H1(2,3) by simp
  finally show ?case
    using H1 by (auto split: bind_splits option.split)
qed

lemma Init_ok:
  assumes "MIN_PQ_CAPACITY \<le> cap" "length cells = Suc cap"
  shows "\<exists>H. Init cap (Some cells) = Some (Ret H) \<and> pq_ok H \<and> bag H = {#} \<and> capacity H = cap \<and> hsize H = 0"
  using assms by (auto simp: Init_def pq_ok_def bag_def heap_ok_def)

lemma pq_main_result:
  assumes "length cells = 11"
  shows "\<exists>heap. pq_main (Some cells) = Some (Ret ([5, 6, 7, 8, 9, 0, 1, 2, 3, 4], heap, [0, 1, 2, 3, 4, 5, 6, 7, 8, 9]))"
proof -
  let ?vs = "jseq PQ_MAXSIZE 5"
  have vs: "?vs = [5, 6, 7, 8, 9, 0, 1, 2, 3, 4]" by (simp add: PQ_MAXSIZE_def eval_nat_numeral)
  obtain H where H: "Init PQ_MAXSIZE (Some cells) = Some (Ret H)" "pq_ok H" "bag H = {#}"
    "capacity H = PQ_MAXSIZE" "hsize H = 0"
    using Init_ok [of PQ_MAXSIZE cells] assms by (auto simp: PQ_MAXSIZE_def MIN_PQ_CAPACITY_def)
  have "\<forall>v \<in> set ?vs. MIN_DATA \<le> v" unfolding vs by (simp add: MIN_DATA_def)
  then obtain H1 H2 where h: "bh.fill ?vs H = Some H1" "bh.drain (length ?vs) H1 = Some (sort ?vs, H2)"
    by (rule bh.heapsort [OF H(2,3)]) (use H(4) in auto)
  have H1: "pq_ok H1" "bag H1 = mset ?vs"
    using bh.fill_spec [OF H(2), of ?vs] H(3,4) \<open>\<forall>v \<in> set ?vs. MIN_DATA \<le> v\<close> h(1) by auto
  then have n1: "hsize H1 = PQ_MAXSIZE" using size_bag [OF H1(1)] by simp
  have "pq_main_insert 0 5 H [] = Some (Ret (?vs, H1))"
    using pq_main_insert_fill [OF H(2), of 0 5 "[]"] H(4,5) h(1) by simp
  moreover have "pq_main_delete H1 [] = Some (Ret (sort ?vs, H2))"
    using pq_main_delete_drain [OF H1(1), of "[]"] h(2) n1 by simp
  moreover have "int PQ_MAXSIZE div 2 = 5" by (simp add: PQ_MAXSIZE_def)
  ultimately show ?thesis
    using H(1) by (simp add: pq_main_def vs)
qed

section \<open>Properties\<close>

text \<open>
  The binary heap is a priority queue: inserting any list of at most \<open>capacity\<close> values, none
  below the sentinel, into a new heap and then calling \<open>DeleteMin\<close> as often returns the values in
  ascending order, without \<open>exit\<close> and without leaving the array, and the heap is empty again.
\<close>
theorem heap_sorts_its_inserts:
  assumes "MIN_PQ_CAPACITY \<le> cap" "length cells = Suc cap" "length vs \<le> cap" "\<forall>v \<in> set vs. MIN_DATA \<le> v"
  shows "\<exists>H H1 H2. Init cap (Some cells) = Some (Ret H) \<and> bh.fill vs H = Some H1 \<and>
    bh.drain (length vs) H1 = Some (sort vs, H2) \<and> IsEmpty H2"
proof -
  obtain H where H: "Init cap (Some cells) = Some (Ret H)" "pq_ok H" "bag H = {#}" "capacity H = cap"
    using Init_ok [OF assms(1,2)] by blast
  obtain H1 H2 where h: "bh.fill vs H = Some H1" "bh.drain (length vs) H1 = Some (sort vs, H2)" "pq_ok H2" "bag H2 = {#}"
    by (rule bh.heapsort [OF H(2,3) assms(4)]) (use H(4) assms(3) in auto)
  have "hsize H2 = 0" using size_bag [OF h(3)] h(4) by simp
  then show ?thesis using H(1) h by (auto simp: IsEmpty_def)
qed

theorem heap_sorts_its_inserts_witness:
  "\<exists>H H1 H2. Init 10 (Some (replicate 11 0)) = Some (Ret H) \<and> bh.fill [3, 1, 2] H = Some H1 \<and>
    bh.drain 3 H1 = Some ([1, 2, 3], H2) \<and> IsEmpty H2"
  using heap_sorts_its_inserts [of 10 "replicate 11 0" "[3, 1, 2]"]
  by (simp add: MIN_PQ_CAPACITY_def MIN_DATA_def numeral_3_eq_3)

text \<open>
  C24. One step of the queue keeps its invariant (array length, sentinel, heap order, nothing below
  the sentinel) and refines the multiset of its elements: \<open>Insert\<close> adds the value, \<open>DeleteMin\<close>
  returns and removes a least element, \<open>FindMin\<close> returns the same one; a full or empty heap exits.
\<close>
theorem heap_operations_refine_bag:
  assumes "pq_ok H" "MIN_DATA \<le> v"
  shows "(hsize H = capacity H \<longrightarrow> Insert v H = Some Exit) \<and>
    (hsize H < capacity H \<longrightarrow> (\<exists>H'. Insert v H = Some (Ret H') \<and> pq_ok H' \<and> bag H' = add_mset v (bag H))) \<and>
    (hsize H = 0 \<longrightarrow> DeleteMin H = Some Exit \<and> FindMin H = Some Exit) \<and>
    (hsize H \<noteq> 0 \<longrightarrow> (\<exists>x H'. FindMin H = Some (Ret x) \<and> DeleteMin H = Some (Ret (x, H')) \<and> pq_ok H' \<and>
        x \<in># bag H \<and> (\<forall>y \<in># bag H. x \<le> y) \<and> bag H' = bag H - {#x#}))"
proof -
  have "FindMin H = Some (Ret (harr H ! 1))" if "hsize H \<noteq> 0"
    using that pq_okD [OF assms(1)] by (auto simp: FindMin_def IsEmpty_def)
  moreover have "DeleteMin H = Some Exit \<and> FindMin H = Some Exit" if "hsize H = 0"
    using that by (simp add: DeleteMin_def FindMin_def IsEmpty_def)
  ultimately show ?thesis
    using Insert_full Insert_spec [OF assms(1) _ assms(2)] DeleteMin_spec [OF assms(1)] root_least [OF assms(1)]
    by blast
qed

theorem heap_operations_refine_bag_witness:
  "\<exists>H'. Insert 4 \<lparr>capacity = 2, hsize = 1, harr = [- 32767, 7, 0]\<rparr> = Some (Ret H') \<and> bag H' = {#4, 7#}"
proof -
  let ?H = "\<lparr>capacity = 2, hsize = 1, harr = [- 32767, 7, 0]\<rparr>"
  have "pq_ok ?H" "MIN_DATA \<le> 4" "bag ?H = {#7#}" "hsize ?H < capacity ?H"
    by (simp_all add: pq_ok_def bag_def heap_ok_def MIN_DATA_def)
  then show ?thesis using heap_operations_refine_bag [of ?H 4] by auto
qed

text \<open>
  \<open>Insert\<close> relies on the sentinel: a value below \<open>MIN_DATA\<close> (-32767, although the elements are
  \<open>int\<close>s) makes the climbing loop run to cell 0 and never return, in every heap with room.
\<close>
theorem insert_below_sentinel_never_returns:
  assumes "pq_ok H" "hsize H < capacity H" "val < MIN_DATA"
  shows "Insert val H = None"
  using assms by (rule Insert_below_sentinel)

theorem insert_below_sentinel_never_returns_witness:
  "Insert (- 40000) \<lparr>capacity = 2, hsize = 1, harr = [- 32767, 7, 0]\<rparr> = None"
  by (rule insert_below_sentinel_never_returns) (simp_all add: pq_ok_def bag_def heap_ok_def MIN_DATA_def)

text \<open>
  The test program \<open>testheap.c\<close> inserts 5, 6, 7, 8, 9, 0, 1, 2, 3, 4 and prints the deleted
  values in the order 0 to 9, whatever \<open>malloc\<close> left in the cells.
\<close>
theorem testheap_prints_sorted:
  assumes "length cells = 11"
  shows "\<exists>heap. pq_main (Some cells) =
    Some (Ret ([5, 6, 7, 8, 9, 0, 1, 2, 3, 4], heap, [0, 1, 2, 3, 4, 5, 6, 7, 8, 9]))"
  using assms by (rule pq_main_result)

theorem testheap_prints_sorted_witness:
  "\<exists>heap. pq_main (Some [0, 0, 0, 0, 0, 0, 0, 0, 0, 0, 0]) =
    Some (Ret ([5, 6, 7, 8, 9, 0, 1, 2, 3, 4], heap, [0, 1, 2, 3, 4, 5, 6, 7, 8, 9]))"
  by (rule testheap_prints_sorted) simp

end
