(* ===== verification/BinSearch.thy ===== *)
theory BinSearch
  imports Prelude
begin

text \<open>
  The binary searches of \<open>3.ybx/20.ds/2.ds/5.find/1.binary_search.c\<close>, iterative and recursive, and
  the loops of the file's \<open>test\<close>.  Both searches test \<open>arr[mid] < find\<close> twice, so they never go
  left; what they do compute is stated and proved below.
\<close>

section \<open>The program\<close>

function bin_search_loop :: "int list \<Rightarrow> int \<Rightarrow> int \<Rightarrow> int \<Rightarrow> int option" where
  "bin_search_loop arr low high key =
     (if low \<le> high then do {
        let mid = low + (high - low) div 2;
        x \<leftarrow> rdi arr mid;
        if x < key then bin_search_loop arr (mid + 1) high key
        else do {
          y \<leftarrow> rdi arr mid;
          if y < key then bin_search_loop arr low (mid - 1) key
          else Some mid } }
      else Some (- 1))"
  by pat_completeness auto
termination by (relation "measure (\<lambda>(arr, low, high, key). nat (high + 1 - low))") auto
declare bin_search_loop.simps [simp del]

definition bin_search_while :: "int list \<Rightarrow> int \<Rightarrow> int \<Rightarrow> int option" where
  "bin_search_while arr num key = bin_search_loop arr 0 (num - 1) key"

text \<open>\<open>inner_func\<close> returns in the first turn of its \<open>while\<close>, whichever branch it takes.\<close>

function inner_func :: "int list \<Rightarrow> int \<Rightarrow> int \<Rightarrow> int \<Rightarrow> int option" where
  "inner_func arr low high key =
     (if low \<le> high then do {
        let mid = low + (high - low) div 2;
        x \<leftarrow> rdi arr mid;
        if x < key then (let low = mid + 1 in inner_func arr low high key)
        else do {
          y \<leftarrow> rdi arr mid;
          if y < key then (let high = mid - 1 in inner_func arr low high key)
          else Some mid } }
      else Some (- 1))"
  by pat_completeness auto
termination by (relation "measure (\<lambda>(arr, low, high, key). nat (high + 1 - low))") auto
declare inner_func.simps [simp del]

definition bin_search_recursion :: "int list \<Rightarrow> int \<Rightarrow> int \<Rightarrow> int option" where
  "bin_search_recursion arr num key = inner_func arr 0 (num - 1) key"

text \<open>One loop of \<open>test\<close>: for every index the key searched and what is printed.\<close>

datatype line = NotFind int | Find int

fun find_loop ::
  "(int list \<Rightarrow> int \<Rightarrow> int \<Rightarrow> int option) \<Rightarrow> int list \<Rightarrow> nat \<Rightarrow> int list \<Rightarrow> int list \<Rightarrow> nat list \<Rightarrow> line list option" where
  "find_loop search arr1 num keys arr2 [] = Some []"
| "find_loop search arr1 num keys arr2 (i # is) = do {
     k \<leftarrow> rd keys i;
     j \<leftarrow> search arr1 (int num) k;
     out \<leftarrow> (if j = - 1 then Some (NotFind k) else map_option Find (rd arr2 i));
     outs \<leftarrow> find_loop search arr1 num keys arr2 is;
     Some (out # outs) }"

definition search_test :: "line list list option" where
  "search_test = do {
     let num = 10;
     let arr1 = map (\<lambda>i. 10 + int i) [0..<num];
     let arr2 = map (\<lambda>i. 10 + int i + 2) [0..<num];
     o1 \<leftarrow> find_loop bin_search_while arr1 num arr1 arr2 [0..<num];
     o2 \<leftarrow> find_loop bin_search_while arr1 num arr2 arr2 [0..<num];
     o3 \<leftarrow> find_loop bin_search_recursion arr1 num arr1 arr2 [0..<num];
     o4 \<leftarrow> find_loop bin_search_recursion arr1 num arr2 arr2 [0..<num];
     Some [o1, o2, o3, o4] }"

section \<open>What they compute\<close>

lemma inner_func_loop: "inner_func arr low high key = bin_search_loop arr low high key"
proof (induction arr low high key rule: bin_search_loop.induct)
  case (1 arr low high key)
  show ?case
    using 1 by (subst inner_func.simps, subst bin_search_loop.simps)
      (auto simp: Let_def intro!: Option.bind_cong)
qed

text \<open>
  Going right past elements smaller than the key, the loop stops at the first probed element that
  is not smaller.
\<close>

lemma bin_search_loop_spec:
  assumes "0 \<le> low" "high < int (length arr)"
  shows "\<exists>j. bin_search_loop arr low high key = Some j \<and>
    (j = - 1 \<and> (low \<le> high \<longrightarrow> arr ! nat high < key) \<or>
     low \<le> j \<and> j \<le> high \<and> key \<le> arr ! nat j)"
  using assms
proof (induction "nat (high + 1 - low)" arbitrary: low rule: less_induct)
  case less
  show ?case
  proof (cases "low \<le> high")
    case True
    define mid where "mid = low + (high - low) div 2"
    have mid: "low \<le> mid" "mid \<le> high" using True by (auto simp: mid_def)
    then have rd: "rdi arr mid = Some (arr ! nat mid)" using less.prems by (simp add: rdi_def)
    show ?thesis
    proof (cases "arr ! nat mid < key")
      case lt: True
      obtain j where j: "bin_search_loop arr (mid + 1) high key = Some j"
        "j = - 1 \<and> (mid + 1 \<le> high \<longrightarrow> arr ! nat high < key) \<or> mid + 1 \<le> j \<and> j \<le> high \<and> key \<le> arr ! nat j"
        using less.hyps [of "mid + 1"] less.prems mid by auto
      have "mid + 1 \<le> high \<or> mid = high" using mid by linarith
      then have "j = - 1 \<and> arr ! nat high < key \<or> low \<le> j \<and> j \<le> high \<and> key \<le> arr ! nat j"
        using j(2) lt mid by auto
      then show ?thesis
        using True rd lt j(1) by (subst bin_search_loop.simps) (auto simp flip: mid_def simp: Let_def)
    next
      case False
      then show ?thesis
        using True rd mid by (subst bin_search_loop.simps) (auto simp flip: mid_def simp: Let_def)
    qed
  next
    case False
    then show ?thesis by (subst bin_search_loop.simps) simp
  qed
qed

section \<open>Properties\<close>

text \<open>
  The iterative and the recursive binary search agree on every array, count and key, also
  where they leave the array; on a count that fits they always return, and an index they return is
  in range and holds an element not smaller than the key.  On a sorted array -1 is returned exactly
  when every element is smaller than the key.
\<close>
theorem searches_agree_and_bound:
  assumes "n \<le> length arr" "sorted (take n arr)"
  shows "bin_search_recursion arr (int n) key = bin_search_while arr (int n) key \<and>
    (\<exists>j. bin_search_while arr (int n) key = Some j \<and>
       (j = - 1 \<longleftrightarrow> (\<forall>x \<in> set (take n arr). x < key)) \<and>
       (j \<noteq> - 1 \<longrightarrow> 0 \<le> j \<and> j < int n \<and> key \<le> arr ! nat j))"
proof -
  obtain j where j: "bin_search_while arr (int n) key = Some j"
    "j = - 1 \<and> (0 \<le> int n - 1 \<longrightarrow> arr ! nat (int n - 1) < key) \<or> 0 \<le> j \<and> j \<le> int n - 1 \<and> key \<le> arr ! nat j"
    using bin_search_loop_spec [of 0 "int n - 1" arr key] assms(1) by (auto simp: bin_search_while_def)
  have mem: "take n arr ! k \<in> set (take n arr)" if "k < n" for k
    using that assms(1) by (intro nth_mem) simp
  have "\<forall>x \<in> set (take n arr). x < key" if "j = - 1"
  proof
    fix x assume "x \<in> set (take n arr)"
    then obtain k where k: "k < n" "x = take n arr ! k" using assms(1) by (auto simp: in_set_conv_nth)
    then have "x \<le> take n arr ! (n - 1)"
      using assms sorted_nth_mono [OF assms(2), of k "n - 1"] by simp
    moreover have "arr ! (n - 1) < key" using j(2) that k(1) by (auto simp: nat_diff_distrib)
    ultimately show "x < key" using k(1) by simp
  qed
  moreover have "\<not> (\<forall>x \<in> set (take n arr). x < key)" if "j \<noteq> - 1"
    using that j(2) mem [of "nat j"] by (auto intro!: bexI [of _ "arr ! nat j"])
  ultimately show ?thesis
    using j by (auto simp: bin_search_recursion_def bin_search_while_def inner_func_loop)
qed

theorem searches_agree_and_bound_witness:
  "\<exists>j. bin_search_while [1, 3, 5] 3 3 = Some j \<and> 0 \<le> j \<and> j < 3 \<and> 3 \<le> [1, 3, 5::int] ! nat j"
  using searches_agree_and_bound [of 3 "[1, 3, 5]" 3] by auto

text \<open>
  The searches report absent keys as found: because \<open>arr[mid] < find\<close> is tested twice, any key
  that is not above the middle element of a sorted array gives the middle index, whether or not
  that element is the key.
\<close>
theorem search_never_goes_left:
  assumes "0 < n" "n \<le> length arr" "key \<le> arr ! ((n - 1) div 2)"
  shows "bin_search_while arr (int n) key = Some ((int n - 1) div 2)"
proof -
  have "nat ((int n - 1) div 2) = (n - 1) div 2" using assms(1) by (simp add: nat_div_distrib nat_diff_distrib)
  moreover have "(n - 1) div 2 < length arr" "0 \<le> (int n - 1) div 2" using assms(1,2) by auto
  ultimately have "rdi arr ((int n - 1) div 2) = Some (arr ! ((n - 1) div 2))"
    unfolding rdi_def by simp
  then show ?thesis
    unfolding bin_search_while_def using assms(1,3)
    by (subst bin_search_loop.simps) (simp add: Let_def)
qed

theorem search_never_goes_left_witness:
  "bin_search_while [1, 3, 5] (int 3) 2 = Some 1"
  using search_never_goes_left [of 3 "[1, 3, 5]" 2] by simp

text \<open>
  The file's own \<open>test\<close> does not see the defect: every key of \<open>arr1\<close>, and the eight keys of
  \<open>arr2\<close> that occur in \<open>arr1\<close>, are printed as found, the last two as not found, by both versions,
  because it prints \<open>arr2[i]\<close> and not the index returned.
\<close>
theorem search_test_output:
  "search_test = (let one = map Find [12, 13, 14, 15, 16, 17, 18, 19, 20, 21];
      two = map Find [12, 13, 14, 15, 16, 17, 18, 19] @ [NotFind 20, NotFind 21]
    in Some [one, two, one, two])"
proof -
  have up: "[0..<10] = [0, 1, 2, 3, 4, 5, 6, 7, 8, 9::nat]" by (simp add: upt_rec)
  show ?thesis
    unfolding search_test_def Let_def up
    by (simp add: bin_search_recursion_def inner_func_loop bin_search_while_def bin_search_loop.simps rdi_def rd_def)
qed

end
