(* ===== verification/ArrayStack.thy ===== *)
theory ArrayStack
  imports Prelude
begin

text \<open>
  The array stack \<open>sqstack.c\<close> under \<open>3.ybx/20.ds/2.ds/2.line/3.ex\<close>, which the calculator
  (\<open>1.computer\<close>, 5 cells) and the ball clock (\<open>2.ball_clock\<close>, 11 cells) each carry with their own
  \<open>MAXSIZE\<close>; the size is the argument \<open>mx\<close> here.  \<open>bounded_stack\<close> is what the two programs rely on.
\<close>

section \<open>The program\<close>

record sk =
  sdata :: "int list"
  top :: int

text \<open>\<open>mem\<close> is what \<open>malloc\<close> returned: the \<open>data\<close> cells of the new structure, or a null pointer.\<close>

definition st_create :: "int list option \<Rightarrow> sk option" where
  "st_create mem = map_option (\<lambda>cells. \<lparr>sdata = cells, top = - 1\<rparr>) mem"

definition st_isempty :: "sk \<Rightarrow> bool" where
  "st_isempty st = (top st = - 1)"

definition st_isfull :: "nat \<Rightarrow> sk \<Rightarrow> bool" where
  "st_isfull mx st = (top st = int mx - 1)"

definition st_push :: "nat \<Rightarrow> sk \<Rightarrow> int \<Rightarrow> (int \<times> sk) option" where
  "st_push mx st v =
     (if st_isfull mx st then Some (- 1, st)
      else do {
        d \<leftarrow> wri (sdata st) (top st + 1) v;
        Some (0, st\<lparr>sdata := d, top := top st + 1\<rparr>) })"

text \<open>The middle component of the result is what is stored through the pointer \<open>data\<close>, if anything.\<close>

definition st_pop :: "sk \<Rightarrow> (int \<times> int option \<times> sk) option" where
  "st_pop st =
     (if st_isempty st then Some (- 1, None, st)
      else do {
        v \<leftarrow> rdi (sdata st) (top st);
        Some (0, Some v, st\<lparr>top := top st - 1\<rparr>) })"

definition st_top :: "sk \<Rightarrow> (int \<times> int option) option" where
  "st_top st =
     (if st_isempty st then Some (- 1, None)
      else do {
        v \<leftarrow> rdi (sdata st) (top st);
        Some (0, Some v) })"

text \<open>The values \<open>st_travel\<close> prints, in order.\<close>

function st_travel_loop :: "sk \<Rightarrow> int \<Rightarrow> int list \<Rightarrow> int list option" where
  "st_travel_loop st i out =
     (if i \<le> top st then do {
        v \<leftarrow> rdi (sdata st) i;
        st_travel_loop st (i + 1) (out @ [v]) }
      else Some out)"
  by pat_completeness auto
termination by (relation "measure (\<lambda>(st, i, out). nat (top st + 1 - i))") auto
declare st_travel_loop.simps [simp del]

definition st_travel :: "sk \<Rightarrow> int list option" where
  "st_travel st = (if st_isempty st then Some [] else st_travel_loop st 0 [])"

section \<open>It holds a list, the top first\<close>

definition stack_rep :: "nat \<Rightarrow> sk \<Rightarrow> int list \<Rightarrow> bool" where
  "stack_rep mx st xs \<longleftrightarrow> length (sdata st) = mx \<and> top st = int (length xs) - 1 \<and> length xs \<le> mx \<and>
     (\<forall>i < length xs. sdata st ! i = rev xs ! i)"

lemma create_rep: "length cells = mx \<Longrightarrow> \<exists>st. st_create (Some cells) = Some st \<and> stack_rep mx st []"
  by (simp add: st_create_def stack_rep_def)

lemma isempty_rep: "stack_rep mx st xs \<Longrightarrow> st_isempty st \<longleftrightarrow> xs = []"
  by (auto simp: stack_rep_def st_isempty_def)

lemma isfull_rep: "stack_rep mx st xs \<Longrightarrow> st_isfull mx st \<longleftrightarrow> length xs = mx"
  by (auto simp: stack_rep_def st_isfull_def)

lemma push_rep:
  assumes "stack_rep mx st xs" "length xs < mx"
  shows "\<exists>st'. st_push mx st v = Some (0, st') \<and> stack_rep mx st' (v # xs)"
  using assms isfull_rep [OF assms(1)]
  by (auto simp: st_push_def stack_rep_def nth_append nth_list_update less_Suc_eq)

lemma push_full:
  assumes "stack_rep mx st xs" "length xs = mx"
  shows "st_push mx st v = Some (- 1, st)"
  using assms isfull_rep [OF assms(1)] by (simp add: st_push_def)

lemma pop_rep:
  assumes "stack_rep mx st (x # xs)"
  shows "\<exists>st'. st_pop st = Some (0, Some x, st') \<and> stack_rep mx st' xs"
  using assms isempty_rep [OF assms]
  by (auto simp: st_pop_def stack_rep_def nth_append)

lemma pop_empty: "stack_rep mx st [] \<Longrightarrow> st_pop st = Some (- 1, None, st)"
  by (simp add: st_pop_def isempty_rep)

lemma top_rep:
  assumes "stack_rep mx st (x # xs)"
  shows "st_top st = Some (0, Some x)"
  using assms isempty_rep [OF assms] by (auto simp: st_top_def stack_rep_def nth_append)

lemma top_empty: "stack_rep mx st [] \<Longrightarrow> st_top st = Some (- 1, None)"
  by (simp add: st_top_def isempty_rep)

lemma travel_loop_rep:
  assumes "stack_rep mx st xs" "i \<le> length xs"
  shows "st_travel_loop st (int i) out = Some (out @ drop i (rev xs))"
  using assms(2)
proof (induction "length xs - i" arbitrary: i out)
  case 0
  then show ?case using assms(1) by (subst st_travel_loop.simps) (simp add: stack_rep_def)
next
  case (Suc n)
  then have i: "i < length xs" "n = length xs - Suc i" by auto
  then have "rdi (sdata st) (int i) = Some (rev xs ! i)" using assms(1) by (simp add: stack_rep_def)
  moreover have "drop i (rev xs) = rev xs ! i # drop (Suc i) (rev xs)"
    using i(1) by (simp add: Cons_nth_drop_Suc)
  ultimately show ?case
    using Suc.hyps(1) [OF i(2)] i(1) assms(1)
    by (subst st_travel_loop.simps) (simp add: stack_rep_def add.commute)
qed

lemma travel_rep: "stack_rep mx st xs \<Longrightarrow> st_travel st = Some (rev xs)"
  using travel_loop_rep [of mx st xs 0 "[]"] isempty_rep [of mx st xs] by (auto simp: st_travel_def)

section \<open>The contract of a bounded stack\<close>

locale bounded_stack =
  fixes mx :: nat
    and rep :: "'s \<Rightarrow> int list \<Rightarrow> bool"
    and empty :: "'s \<Rightarrow> bool"
    and push :: "'s \<Rightarrow> int \<Rightarrow> (int \<times> 's) option"
    and pop :: "'s \<Rightarrow> (int \<times> int option \<times> 's) option"
    and peek :: "'s \<Rightarrow> (int \<times> int option) option"
  assumes empty_law: "rep s xs \<Longrightarrow> empty s \<longleftrightarrow> xs = []"
    and push_law: "rep s xs \<Longrightarrow> length xs < mx \<Longrightarrow> \<exists>s'. push s v = Some (0, s') \<and> rep s' (v # xs)"
    and push_full_law: "rep s xs \<Longrightarrow> length xs = mx \<Longrightarrow> push s v = Some (- 1, s)"
    and pop_law: "rep s (x # xs) \<Longrightarrow> \<exists>s'. pop s = Some (0, Some x, s') \<and> rep s' xs"
    and pop_empty_law: "rep s [] \<Longrightarrow> pop s = Some (- 1, None, s)"
    and peek_law: "rep s (x # xs) \<Longrightarrow> peek s = Some (0, Some x)"
begin

fun pushes :: "'s \<Rightarrow> int list \<Rightarrow> 's option" where
  "pushes s [] = Some s"
| "pushes s (v # vs) = do { (_, s1) \<leftarrow> push s v; pushes s1 vs }"

fun pops :: "nat \<Rightarrow> 's \<Rightarrow> (int option list \<times> 's) option" where
  "pops 0 s = Some ([], s)"
| "pops (Suc n) s = do { (_, v, s1) \<leftarrow> pop s; (vs, s2) \<leftarrow> pops n s1; Some (v # vs, s2) }"

lemma pushes_rep:
  "rep s xs \<Longrightarrow> length xs + length vs \<le> mx \<Longrightarrow> \<exists>s'. pushes s vs = Some s' \<and> rep s' (rev vs @ xs)"
proof (induction vs arbitrary: s xs)
  case (Cons v vs)
  then obtain s1 where s1: "push s v = Some (0, s1)" "rep s1 (v # xs)"
    using push_law [of s xs v] by auto
  then show ?case using Cons.IH [OF s1(2)] Cons.prems by auto
qed simp

lemma pops_rep:
  "rep s (xs @ ys) \<Longrightarrow> \<exists>s'. pops (length xs) s = Some (map Some xs, s') \<and> rep s' ys"
proof (induction xs arbitrary: s)
  case (Cons x xs)
  then obtain s1 where s1: "pop s = Some (0, Some x, s1)" "rep s1 (xs @ ys)"
    using pop_law [of s x "xs @ ys"] by auto
  then show ?case using Cons.IH [OF s1(2)] by auto
qed simp

lemma last_in_first_out:
  assumes "rep s xs" "length xs + length vs \<le> mx"
  shows "\<exists>s1 s2. pushes s vs = Some s1 \<and> pops (length vs) s1 = Some (map Some (rev vs), s2) \<and> rep s2 xs"
  using pushes_rep [OF assms] pops_rep [of _ "rev vs" xs] by fastforce

end

interpretation sqs: bounded_stack mx "stack_rep mx" st_isempty "st_push mx" st_pop st_top for mx
  by unfold_locales (auto simp: isempty_rep pop_empty top_rep intro: push_rep push_full pop_rep)

section \<open>Properties\<close>

text \<open>
  The array stack is a bounded last-in first-out store: values pushed on a stack with room come
  back in reverse order and leave what was below untouched; a push on a full stack returns -1 and
  changes nothing, and so does a pop of an empty one.
\<close>
theorem stack_last_in_first_out:
  assumes "stack_rep mx st xs"
  shows "(length xs + length vs \<le> mx \<longrightarrow> (\<exists>s1 s2. sqs.pushes mx st vs = Some s1 \<and>
      sqs.pops (length vs) s1 = Some (map Some (rev vs), s2) \<and> stack_rep mx s2 xs)) \<and>
    (length xs = mx \<longrightarrow> st_push mx st v = Some (- 1, st)) \<and>
    (xs = [] \<longrightarrow> st_pop st = Some (- 1, None, st)) \<and> st_travel st = Some (rev xs)"
  using assms sqs.last_in_first_out [OF assms, of vs] push_full pop_empty travel_rep by blast

theorem stack_last_in_first_out_witness:
  "\<exists>s1 s2. sqs.pushes 5 \<lparr>sdata = [7, 0, 0, 0, 0], top = 0\<rparr> [1, 2] = Some s1 \<and>
     sqs.pops 2 s1 = Some ([Some 2, Some 1], s2) \<and> stack_rep 5 s2 [7]"
proof -
  have "stack_rep 5 \<lparr>sdata = [7, 0, 0, 0, 0], top = 0\<rparr> [7]" by (simp add: stack_rep_def)
  then show ?thesis using stack_last_in_first_out [of 5 _ "[7]" "[1, 2]"] by (simp add: numeral_2_eq_2)
qed

end
