(* ===== verification/Calculator.thy ===== *)
theory Calculator
  imports ArrayStack
begin

text \<open>
  The calculator \<open>3.ybx/20.ds/2.ds/2.line/3.ex/1.computer/main.c\<close>: two stacks of five cells, an
  operator stack and an operand stack.  Characters are their ASCII codes; a local \<open>int\<close> that a
  failed \<open>st_pop\<close> leaves without a value makes the computation undefined.  The program is shown to
  evaluate every expression with positive literals whose parentheses are nested at most one deep.
\<close>

section \<open>The program\<close>

definition CALC_MAXSIZE :: nat where "CALC_MAXSIZE = 5"

abbreviation LPAR :: int where "LPAR \<equiv> 40"
abbreviation RPAR :: int where "RPAR \<equiv> 41"
abbreviation MUL :: int where "MUL \<equiv> 42"
abbreviation ADD :: int where "ADD \<equiv> 43"
abbreviation SUB :: int where "SUB \<equiv> 45"
abbreviation DIV :: int where "DIV \<equiv> 47"
abbreviation CH0 :: int where "CH0 \<equiv> 48"

definition get_pri :: "int \<Rightarrow> int" where
  "get_pri op =
     (if op = LPAR then 0
      else if op = ADD \<or> op = SUB then 1
      else if op = MUL \<or> op = DIV then 2
      else 0)"

text \<open>The switch of \<open>compute\<close>; in the default case \<open>v3\<close> has no value.\<close>

definition calc_switch :: "int \<Rightarrow> int \<Rightarrow> int \<Rightarrow> int option" where
  "calc_switch op v1 v2 =
     (if op = ADD then chk (v1 + v2)
      else if op = SUB then chk (v2 - v1)
      else if op = MUL then chk (v2 * v1)
      else if op = DIV then cdiv v2 v1
      else None)"

definition compute :: "nat \<Rightarrow> sk \<Rightarrow> int \<Rightarrow> sk option" where
  "compute mx s_num op = do {
     (_, o1, s1) \<leftarrow> st_pop s_num;
     (_, o2, s2) \<leftarrow> st_pop s1;
     v1 \<leftarrow> o1;
     v2 \<leftarrow> o2;
     v3 \<leftarrow> calc_switch op v1 v2;
     (_, s3) \<leftarrow> st_push mx s2 v3;
     Some s3 }"

text \<open>A value read through a pointer into a variable that already holds \<open>old\<close>.\<close>

definition assign :: "int option \<Rightarrow> int \<Rightarrow> int" where
  "assign new old = (case new of None \<Rightarrow> old | Some v \<Rightarrow> v)"

lemma assign_simps [simp]: "assign None old = old" "assign (Some v) old = v"
  by (simp_all add: assign_def)

lemma st_pop_top: "st_pop s = Some (r, v, s1) \<Longrightarrow> top s1 \<le> top s"
  by (auto simp: st_pop_def split: if_splits bind_splits)

lemma st_pop_top_less: "st_pop s = Some (r, Some v, s1) \<Longrightarrow> top s1 = top s - 1 \<and> 0 \<le> top s"
  by (auto simp: st_pop_def rdi_def split: if_splits bind_splits)

lemma st_push_top: "st_push mx s v = Some (r, s1) \<Longrightarrow> top s1 \<le> top s + 1"
  by (auto simp: st_push_def split: if_splits bind_splits)

lemma compute_top:
  assumes "compute mx s op = Some s'"
  shows "top s' < top s" "0 \<le> top s"
  using assms
  by (auto simp: compute_def split: bind_splits dest!: st_pop_top_less st_push_top)

function deal_bracket_loop :: "nat \<Rightarrow> sk \<Rightarrow> sk \<Rightarrow> int \<Rightarrow> (sk \<times> sk \<times> int) option" where
  "deal_bracket_loop mx s_op s_num old_op =
     (if old_op \<noteq> LPAR then do {
        (_, v, s_op1) \<leftarrow> st_pop s_op;
        s_num1 \<leftarrow> compute mx s_num (assign v old_op);
        (_, w) \<leftarrow> st_top s_op1;
        deal_bracket_loop mx s_op1 s_num1 (assign w (assign v old_op)) }
      else Some (s_op, s_num, old_op))"
  by pat_completeness auto
termination
  by (relation "measure (\<lambda>(mx, s_op, s_num, old_op). nat (top s_num + 1))") (auto dest: compute_top)
declare deal_bracket_loop.simps [simp del]

definition deal_bracket :: "nat \<Rightarrow> sk \<Rightarrow> sk \<Rightarrow> (sk \<times> sk) option" where
  "deal_bracket mx s_op s_num = do {
     (_, v) \<leftarrow> st_top s_op;
     old_op \<leftarrow> v;
     (s_op1, s_num1, old_op1) \<leftarrow> deal_bracket_loop mx s_op s_num old_op;
     (_, _, s_op2) \<leftarrow> st_pop s_op1;
     Some (s_op2, s_num1) }"

function deal_op_loop :: "nat \<Rightarrow> sk \<Rightarrow> sk \<Rightarrow> int \<Rightarrow> int \<Rightarrow> (sk \<times> sk) option" where
  "deal_op_loop mx s_op s_num op old_op =
     (if get_pri op \<le> get_pri old_op then do {
        (_, v, s_op1) \<leftarrow> st_pop s_op;
        s_num1 \<leftarrow> compute mx s_num (assign v old_op);
        if st_isempty s_op1 then Some (s_op1, s_num1)
        else do {
          (_, w) \<leftarrow> st_top s_op1;
          deal_op_loop mx s_op1 s_num1 op (assign w (assign v old_op)) } }
      else Some (s_op, s_num))"
  by pat_completeness auto
termination
  by (relation "measure (\<lambda>(mx, s_op, s_num, op, old_op). nat (top s_num + 1))") (auto dest: compute_top)
declare deal_op_loop.simps [simp del]

definition deal_op :: "nat \<Rightarrow> sk \<Rightarrow> sk \<Rightarrow> int \<Rightarrow> (sk \<times> sk) option" where
  "deal_op mx s_op s_num op =
     (if st_isempty s_op \<or> op = LPAR then do {
        (_, s_op1) \<leftarrow> st_push mx s_op op;
        Some (s_op1, s_num) }
      else do {
        (_, v) \<leftarrow> st_top s_op;
        old_op \<leftarrow> v;
        if get_pri op > get_pri old_op then do {
          (_, s_op1) \<leftarrow> st_push mx s_op op;
          Some (s_op1, s_num) }
        else do {
          (s_op1, s_num1) \<leftarrow> deal_op_loop mx s_op s_num op old_op;
          (_, s_op2) \<leftarrow> st_push mx s_op1 op;
          Some (s_op2, s_num1) } })"

definition isdigit :: "int \<Rightarrow> bool" where
  "isdigit c \<longleftrightarrow> CH0 \<le> c \<and> c \<le> CH0 + 9"

text \<open>\<open>if (val) { st_push(st_num, &val); val = 0; }\<close>\<close>

definition push_val :: "nat \<Rightarrow> sk \<Rightarrow> int \<Rightarrow> (sk \<times> int) option" where
  "push_val mx st_num val =
     (if val \<noteq> 0 then do { (_, s1) \<leftarrow> st_push mx st_num val; Some (s1, 0) }
      else Some (st_num, val))"

text \<open>One turn of the main loop, and the loop; the string ends with a 0.\<close>

definition calc_char :: "nat \<Rightarrow> int \<Rightarrow> sk \<times> sk \<times> int \<Rightarrow> (sk \<times> sk \<times> int) option" where
  "calc_char mx c = (\<lambda>(st_op, st_num, val).
     if isdigit c then do {
       t \<leftarrow> chk (val * 10);
       v \<leftarrow> chk (t + (c - CH0));
       Some (st_op, st_num, v) }
     else do {
       (st_num1, val1) \<leftarrow> push_val mx st_num val;
       (st_op2, st_num2) \<leftarrow> (if c = RPAR then deal_bracket mx st_op st_num1 else deal_op mx st_op st_num1 c);
       Some (st_op2, st_num2, val1) })"

fun calc_loop :: "nat \<Rightarrow> int list \<Rightarrow> sk \<times> sk \<times> int \<Rightarrow> (sk \<times> sk \<times> int) option" where
  "calc_loop mx [] s = None"
| "calc_loop mx (c # cs) s =
     (if c = 0 then Some s
      else do { s1 \<leftarrow> calc_char mx c s; calc_loop mx cs s1 })"

function calc_finish :: "nat \<Rightarrow> sk \<Rightarrow> sk \<Rightarrow> (sk \<times> sk) option" where
  "calc_finish mx st_op st_num =
     (if \<not> st_isempty st_op then do {
        (_, v, s1) \<leftarrow> st_pop st_op;
        old_op \<leftarrow> v;
        s2 \<leftarrow> compute mx st_num old_op;
        calc_finish mx s1 s2 }
      else Some (st_op, st_num))"
  by pat_completeness auto
termination
  by (relation "measure (\<lambda>(mx, s_op, s_num). nat (top s_num + 1))") (auto dest: compute_top)
declare calc_finish.simps [simp del]

text \<open>\<open>main\<close> on the string \<open>str\<close>: the number printed.  If the last pop fails, \<open>val\<close> keeps the value it
  had.\<close>

definition calc_main :: "nat \<Rightarrow> int list option \<Rightarrow> int list option \<Rightarrow> int list \<Rightarrow> int option" where
  "calc_main mx mem1 mem2 str = do {
     st_op \<leftarrow> st_create mem1;
     st_num \<leftarrow> st_create mem2;
     (st_op1, st_num1, val) \<leftarrow> calc_loop mx str (st_op, st_num, 0);
     st_num2 \<leftarrow> (if val \<noteq> 0 then map_option snd (st_push mx st_num1 val) else Some st_num1);
     (st_op3, st_num3) \<leftarrow> calc_finish mx st_op1 st_num2;
     (_, v, st_num4) \<leftarrow> st_pop st_num3;
     Some (assign v val) }"

section \<open>The machine on lists\<close>

definition apush :: "nat \<Rightarrow> int \<Rightarrow> int list \<Rightarrow> int list option" where
  "apush mx x xs = (if length xs < mx then Some (x # xs) else None)"

fun acompute :: "int \<Rightarrow> int list \<Rightarrow> int list option" where
  "acompute op (v1 # v2 # xs) = map_option (\<lambda>v. v # xs) (calc_switch op v1 v2)"
| "acompute op _ = None"

fun areduce :: "int \<Rightarrow> int list \<Rightarrow> int list \<Rightarrow> (int list \<times> int list) option" where
  "areduce p [] ns = Some ([], ns)"
| "areduce p (o1 # os) ns =
     (if p \<le> get_pri o1 then do { ns1 \<leftarrow> acompute o1 ns; areduce p os ns1 } else Some (o1 # os, ns))"

fun abracket :: "int list \<Rightarrow> int list \<Rightarrow> (int list \<times> int list) option" where
  "abracket [] ns = None"
| "abracket (o1 # os) ns =
     (if o1 = LPAR then Some (os, ns) else do { ns1 \<leftarrow> acompute o1 ns; abracket os ns1 })"

definition aop :: "nat \<Rightarrow> int \<Rightarrow> int list \<Rightarrow> int list \<Rightarrow> (int list \<times> int list) option" where
  "aop mx op os ns =
     (if op = LPAR then map_option (\<lambda>os1. (os1, ns)) (apush mx op os)
      else do { (os1, ns1) \<leftarrow> areduce (get_pri op) os ns; os2 \<leftarrow> apush mx op os1; Some (os2, ns1) })"

definition aflush :: "nat \<Rightarrow> int list \<Rightarrow> int \<Rightarrow> int list option" where
  "aflush mx ns val = (if val \<noteq> 0 then apush mx val ns else Some ns)"

definition achar :: "nat \<Rightarrow> int \<Rightarrow> int list \<times> int list \<times> int \<Rightarrow> (int list \<times> int list \<times> int) option" where
  "achar mx c = (\<lambda>(os, ns, val).
     if isdigit c then do { t \<leftarrow> chk (val * 10); v \<leftarrow> chk (t + (c - CH0)); Some (os, ns, v) }
     else do {
       ns1 \<leftarrow> aflush mx ns val;
       (os2, ns2) \<leftarrow> (if c = RPAR then abracket os ns1 else aop mx c os ns1);
       Some (os2, ns2, 0) })"

fun arun :: "nat \<Rightarrow> int list \<Rightarrow> int list \<times> int list \<times> int \<Rightarrow> (int list \<times> int list \<times> int) option" where
  "arun mx [] s = Some s"
| "arun mx (c # cs) s = do { s1 \<leftarrow> achar mx c s; arun mx cs s1 }"

lemma arun_append: "arun mx (xs @ ys) s = do { s1 \<leftarrow> arun mx xs s; arun mx ys s1 }"
  by (induction xs arbitrary: s) (auto intro!: Option.bind_cong)

subsection \<open>The program refines it\<close>

lemma compute_rep:
  assumes "stack_rep mx s ns" "acompute op ns = Some ns1"
  shows "\<exists>s1. compute mx s op = Some s1 \<and> stack_rep mx s1 ns1"
proof -
  obtain v1 v2 xs v where ns: "ns = v1 # v2 # xs" "calc_switch op v1 v2 = Some v" "ns1 = v # xs"
    using assms(2) by (cases "(op, ns)" rule: acompute.cases) auto
  obtain s1 where s1: "st_pop s = Some (0, Some v1, s1)" "stack_rep mx s1 (v2 # xs)"
    using pop_rep assms(1) ns(1) by blast
  obtain s2 where s2: "st_pop s1 = Some (0, Some v2, s2)" "stack_rep mx s2 xs"
    using pop_rep [OF s1(2)] by blast
  have "length xs < mx" using s1(2) by (simp add: stack_rep_def)
  then obtain s3 where "st_push mx s2 v = Some (0, s3)" "stack_rep mx s3 (v # xs)"
    using push_rep [OF s2(2)] by blast
  then show ?thesis using s1 s2 ns by (simp add: compute_def)
qed

lemma apush_rep:
  assumes "stack_rep mx s xs" "apush mx v xs = Some ys"
  shows "\<exists>s'. st_push mx s v = Some (0, s') \<and> stack_rep mx s' ys"
  using assms push_rep by (auto simp: apush_def split: if_splits)

lemma deal_bracket_loop_rep:
  assumes "abracket (o1 # os) ns = Some (os1, ns1)" "stack_rep mx s_op (o1 # os)" "stack_rep mx s_num ns"
  shows "\<exists>a b. deal_bracket_loop mx s_op s_num o1 = Some (a, b, LPAR) \<and> stack_rep mx a (LPAR # os1) \<and> stack_rep mx b ns1"
  using assms
proof (induction os arbitrary: o1 ns s_op s_num)
  case Nil
  then have "o1 = LPAR" by (auto split: if_splits bind_splits)
  then show ?case using Nil by (subst deal_bracket_loop.simps) simp
next
  case (Cons o2 os)
  show ?case
  proof (cases "o1 = LPAR")
    case True
    then show ?thesis using Cons.prems by (subst deal_bracket_loop.simps) simp
  next
    case False
    then obtain ns2 where ns2: "acompute o1 ns = Some ns2" "abracket (o2 # os) ns2 = Some (os1, ns1)"
      using Cons.prems(1) by (auto split: bind_splits simp del: abracket.simps(2) simp: abracket.simps(2) [of o1])
    obtain s1 where s1: "st_pop s_op = Some (0, Some o1, s1)" "stack_rep mx s1 (o2 # os)"
      using pop_rep [OF Cons.prems(2)] by blast
    obtain n1 where n1: "compute mx s_num o1 = Some n1" "stack_rep mx n1 ns2"
      using compute_rep [OF Cons.prems(3) ns2(1)] by blast
    show ?thesis
      using Cons.IH [OF ns2(2) s1(2) n1(2)] False s1(1) n1(1) top_rep [OF s1(2)]
      by (subst deal_bracket_loop.simps) simp
  qed
qed

lemma deal_bracket_rep:
  assumes "abracket os ns = Some (os1, ns1)" "stack_rep mx s_op os" "stack_rep mx s_num ns"
  shows "\<exists>a b. deal_bracket mx s_op s_num = Some (a, b) \<and> stack_rep mx a os1 \<and> stack_rep mx b ns1"
proof (cases os)
  case (Cons o1 os')
  obtain a b where ab: "deal_bracket_loop mx s_op s_num o1 = Some (a, b, LPAR)"
    "stack_rep mx a (LPAR # os1)" "stack_rep mx b ns1"
    using deal_bracket_loop_rep [of o1 os' ns os1 ns1 mx s_op s_num] assms Cons by blast
  obtain a1 where "st_pop a = Some (0, Some LPAR, a1)" "stack_rep mx a1 os1"
    using pop_rep [OF ab(2)] by blast
  then show ?thesis using ab top_rep assms(2) Cons by (simp add: deal_bracket_def)
qed (use assms in simp)

lemma deal_op_loop_rep:
  assumes "areduce (get_pri op) (o1 # os) ns = Some (os1, ns1)" "get_pri op \<le> get_pri o1"
    "stack_rep mx s_op (o1 # os)" "stack_rep mx s_num ns"
  shows "\<exists>a b. deal_op_loop mx s_op s_num op o1 = Some (a, b) \<and> stack_rep mx a os1 \<and> stack_rep mx b ns1"
  using assms
proof (induction os arbitrary: o1 ns s_op s_num)
  case Nil
  then have c: "acompute o1 ns = Some ns1" "os1 = []" by (auto split: bind_splits)
  obtain s1 where s1: "st_pop s_op = Some (0, Some o1, s1)" "stack_rep mx s1 []"
    using pop_rep [OF Nil(3)] by blast
  obtain n1 where n1: "compute mx s_num o1 = Some n1" "stack_rep mx n1 ns1"
    using compute_rep [OF Nil(4) c(1)] by blast
  show ?case
    using Nil(2) c s1 n1 isempty_rep [OF s1(2)] by (subst deal_op_loop.simps) simp
next
  case (Cons o2 os)
  obtain ns2 where ns2: "acompute o1 ns = Some ns2" "areduce (get_pri op) (o2 # os) ns2 = Some (os1, ns1)"
    using Cons.prems(1,2) by (auto split: bind_splits simp del: areduce.simps(2) simp: areduce.simps(2) [of _ o1])
  obtain s1 where s1: "st_pop s_op = Some (0, Some o1, s1)" "stack_rep mx s1 (o2 # os)"
    using pop_rep [OF Cons.prems(3)] by blast
  obtain n1 where n1: "compute mx s_num o1 = Some n1" "stack_rep mx n1 ns2"
    using compute_rep [OF Cons.prems(4) ns2(1)] by blast
  have step: "deal_op_loop mx s_op s_num op o1 = deal_op_loop mx s1 n1 op o2"
    using Cons.prems(2) s1(1) n1(1) top_rep [OF s1(2)] isempty_rep [OF s1(2)]
    by (subst deal_op_loop.simps) simp
  show ?case
  proof (cases "get_pri op \<le> get_pri o2")
    case True
    then show ?thesis unfolding step using Cons.IH [OF ns2(2) _ s1(2) n1(2)] by blast
  next
    case False
    then have "os1 = o2 # os" "ns1 = ns2" using ns2(2) by auto
    then show ?thesis
      unfolding step using False s1(2) n1(2) by (subst deal_op_loop.simps) simp
  qed
qed

lemma deal_op_rep:
  assumes "aop mx op os ns = Some (os1, ns1)" "stack_rep mx s_op os" "stack_rep mx s_num ns"
  shows "\<exists>a b. deal_op mx s_op s_num op = Some (a, b) \<and> stack_rep mx a os1 \<and> stack_rep mx b ns1"
proof (cases "os = [] \<or> op = LPAR")
  case True
  then have "apush mx op os = Some os1" "ns1 = ns"
    using assms(1) by (auto simp: aop_def split: if_splits bind_splits)
  then show ?thesis
    using True apush_rep [OF assms(2)] assms isempty_rep [OF assms(2)] by (fastforce simp: deal_op_def)
next
  case False
  then obtain o1 os' where os: "os = o1 # os'" by (cases os) auto
  obtain os2 where r: "areduce (get_pri op) os ns = Some (os2, ns1)" "apush mx op os2 = Some os1"
    using assms(1) False by (auto simp: aop_def split: bind_splits)
  have top: "st_top s_op = Some (0, Some o1)" using top_rep assms(2) os by blast
  show ?thesis
  proof (cases "get_pri op \<le> get_pri o1")
    case True
    obtain a b where ab: "deal_op_loop mx s_op s_num op o1 = Some (a, b)" "stack_rep mx a os2" "stack_rep mx b ns1"
      using deal_op_loop_rep [OF _ True] r(1) assms(2,3) os by blast
    then show ?thesis
      using apush_rep [OF ab(2) r(2)] True False top isempty_rep [OF assms(2)] by (auto simp: deal_op_def)
  next
    case less: False
    then have "os2 = os" "ns1 = ns" using r(1) os by auto
    then show ?thesis
      using apush_rep [of mx s_op os2 op os1] r(2) less False top isempty_rep [OF assms(2)] assms(2,3)
      by (auto simp: deal_op_def)
  qed
qed

lemma aflush_rep:
  assumes "aflush mx ns val = Some ns1" "stack_rep mx s ns"
  shows "\<exists>s1. push_val mx s val = Some (s1, 0) \<and> stack_rep mx s1 ns1"
  using assms apush_rep [OF assms(2)] by (fastforce simp: aflush_def push_val_def split: if_splits)

definition calc_rep :: "nat \<Rightarrow> sk \<times> sk \<times> int \<Rightarrow> int list \<times> int list \<times> int \<Rightarrow> bool" where
  "calc_rep mx = (\<lambda>(st_op, st_num, val) (os, ns, val'). stack_rep mx st_op os \<and> stack_rep mx st_num ns \<and> val = val')"

lemma calc_char_rep:
  assumes "achar mx c t = Some t1" "calc_rep mx s t"
  shows "\<exists>s1. calc_char mx c s = Some s1 \<and> calc_rep mx s1 t1"
proof -
  obtain st_op st_num val os ns where st: "s = (st_op, st_num, val)" "t = (os, ns, val)"
    "stack_rep mx st_op os" "stack_rep mx st_num ns"
    using assms(2) by (cases s; cases t) (auto simp: calc_rep_def)
  show ?thesis
  proof (cases "isdigit c")
    case True
    then show ?thesis
      using assms(1) st by (auto simp: achar_def calc_char_def calc_rep_def split: bind_splits)
  next
    case False
    then obtain ns1 os2 ns2 where r: "aflush mx ns val = Some ns1"
      "(if c = RPAR then abracket os ns1 else aop mx c os ns1) = Some (os2, ns2)" "t1 = (os2, ns2, 0)"
      using assms(1) st(2) by (auto simp: achar_def split: bind_splits)
    obtain n1 where n1: "push_val mx st_num val = Some (n1, 0)" "stack_rep mx n1 ns1"
      using aflush_rep [OF r(1) st(4)] by blast
    have "\<exists>a b. (if c = RPAR then deal_bracket mx st_op n1 else deal_op mx st_op n1 c) = Some (a, b) \<and>
        stack_rep mx a os2 \<and> stack_rep mx b ns2"
      using r(2) deal_bracket_rep [OF _ st(3) n1(2), of os2 ns2] deal_op_rep [OF _ st(3) n1(2), of c os2 ns2]
      by (cases "c = RPAR") simp_all
    then show ?thesis using False n1 r(3) st(1) by (auto simp: calc_char_def calc_rep_def)
  qed
qed

lemma calc_loop_rep:
  assumes "arun mx cs t = Some t1" "0 \<notin> set cs" "calc_rep mx s t"
  shows "\<exists>s1. calc_loop mx (cs @ [0]) s = Some s1 \<and> calc_rep mx s1 t1"
  using assms
proof (induction cs arbitrary: s t)
  case (Cons c cs)
  then obtain t2 where t2: "achar mx c t = Some t2" "arun mx cs t2 = Some t1" by (auto split: bind_splits)
  then obtain s2 where "calc_char mx c s = Some s2" "calc_rep mx s2 t2"
    using calc_char_rep Cons.prems(3) by blast
  then show ?case using Cons.IH [OF t2(2)] Cons.prems(2) by auto
qed simp

text \<open>The final loop reduces without regard to priorities.\<close>

lemma calc_finish_rep:
  assumes "areduce 0 os ns = Some ([], ns1)" "stack_rep mx st_op os" "stack_rep mx st_num ns"
  shows "\<exists>a b. calc_finish mx st_op st_num = Some (a, b) \<and> stack_rep mx b ns1"
  using assms
proof (induction os arbitrary: ns st_op st_num)
  case Nil
  then show ?case using isempty_rep [OF Nil(2)] by (subst calc_finish.simps) simp
next
  case (Cons o1 os)
  then obtain ns2 where ns2: "acompute o1 ns = Some ns2" "areduce 0 os ns2 = Some ([], ns1)"
    by (auto split: bind_splits if_splits)
  obtain s1 where s1: "st_pop st_op = Some (0, Some o1, s1)" "stack_rep mx s1 os"
    using pop_rep [OF Cons.prems(2)] by blast
  obtain n1 where n1: "compute mx st_num o1 = Some n1" "stack_rep mx n1 ns2"
    using compute_rep [OF Cons.prems(3) ns2(1)] by blast
  show ?case
    using Cons.IH [OF ns2(2) s1(2) n1(2)] s1(1) n1(1) isempty_rep [OF Cons.prems(2)]
    by (subst calc_finish.simps) simp
qed

section \<open>Expressions and their value\<close>

datatype factor = Num nat | Par expr
  and prod = Fac factor | MulT prod factor | DivT prod factor
  and expr = Trm prod | AddE expr prod | SubE expr prod

function dec :: "nat \<Rightarrow> int list" where
  "dec n = (if n < 10 then [CH0 + int n] else dec (n div 10) @ [CH0 + int (n mod 10)])"
  by pat_completeness auto
termination by (relation "measure id") auto
declare dec.simps [simp del]

primrec show_factor :: "factor \<Rightarrow> int list" and show_prod :: "prod \<Rightarrow> int list" and show_expr :: "expr \<Rightarrow> int list" where
  "show_factor (Num n) = dec n"
| "show_factor (Par e) = LPAR # show_expr e @ [RPAR]"
| "show_prod (Fac f) = show_factor f"
| "show_prod (MulT t f) = show_prod t @ MUL # show_factor f"
| "show_prod (DivT t f) = show_prod t @ DIV # show_factor f"
| "show_expr (Trm t) = show_prod t"
| "show_expr (AddE e t) = show_expr e @ ADD # show_prod t"
| "show_expr (SubE e t) = show_expr e @ SUB # show_prod t"

text \<open>The value in C \<open>int\<close> arithmetic: \<open>None\<close> for a literal out of range, an overflow or a division by
  zero.\<close>

primrec val_factor :: "factor \<Rightarrow> int option" and val_prod :: "prod \<Rightarrow> int option" and val_expr :: "expr \<Rightarrow> int option" where
  "val_factor (Num n) = chk (int n)"
| "val_factor (Par e) = val_expr e"
| "val_prod (Fac f) = val_factor f"
| "val_prod (MulT t f) = do { x \<leftarrow> val_prod t; y \<leftarrow> val_factor f; chk (x * y) }"
| "val_prod (DivT t f) = do { x \<leftarrow> val_prod t; y \<leftarrow> val_factor f; cdiv x y }"
| "val_expr (Trm t) = val_prod t"
| "val_expr (AddE e t) = do { x \<leftarrow> val_expr e; y \<leftarrow> val_prod t; chk (x + y) }"
| "val_expr (SubE e t) = do { x \<leftarrow> val_expr e; y \<leftarrow> val_prod t; chk (x - y) }"

primrec pos_factor :: "factor \<Rightarrow> bool" and pos_prod :: "prod \<Rightarrow> bool" and pos_expr :: "expr \<Rightarrow> bool" where
  "pos_factor (Num n) = (0 < n)"
| "pos_factor (Par e) = pos_expr e"
| "pos_prod (Fac f) = pos_factor f"
| "pos_prod (MulT t f) = (pos_prod t \<and> pos_factor f)"
| "pos_prod (DivT t f) = (pos_prod t \<and> pos_factor f)"
| "pos_expr (Trm t) = pos_prod t"
| "pos_expr (AddE e t) = (pos_expr e \<and> pos_prod t)"
| "pos_expr (SubE e t) = (pos_expr e \<and> pos_prod t)"

text \<open>How deep the parentheses are nested.\<close>

primrec nest_factor :: "factor \<Rightarrow> nat" and nest_prod :: "prod \<Rightarrow> nat" and nest_expr :: "expr \<Rightarrow> nat" where
  "nest_factor (Num n) = 0"
| "nest_factor (Par e) = Suc (nest_expr e)"
| "nest_prod (Fac f) = nest_factor f"
| "nest_prod (MulT t f) = max (nest_prod t) (nest_factor f)"
| "nest_prod (DivT t f) = max (nest_prod t) (nest_factor f)"
| "nest_expr (Trm t) = nest_prod t"
| "nest_expr (AddE e t) = max (nest_expr e) (nest_prod t)"
| "nest_expr (SubE e t) = max (nest_expr e) (nest_prod t)"

lemma dec_nonzero: "0 \<notin> set (dec n)"
  by (induction n rule: dec.induct) (subst dec.simps, auto)

lemma show_nonzero:
  "0 \<notin> set (show_factor f)" "0 \<notin> set (show_prod t)" "0 \<notin> set (show_expr e)"
  by (induction f and t and e) (auto simp: dec_nonzero)

lemma dec_run:
  assumes "int n \<le> 2147483647"
  shows "arun mx (dec n) (os, ns, 0) = Some (os, ns, int n)"
  using assms
proof (induction n rule: dec.induct)
  case (1 n)
  have dig: "achar mx (CH0 + int d) (os, ns, v) = Some (os, ns, v * 10 + int d)"
    if "d < 10" "0 \<le> v" "v * 10 + int d \<le> 2147483647" for d v
    using that by (simp add: achar_def isdigit_def chk_def int_range_def)
  show ?case
  proof (cases "n < 10")
    case True
    then show ?thesis using dig [of n 0] by (subst dec.simps) simp
  next
    case False
    have eq: "int (n div 10) * 10 + int (n mod 10) = int n" by (metis div_mult_mod_eq of_nat_add of_nat_mult of_nat_numeral)
    have "arun mx (dec (n div 10)) (os, ns, 0) = Some (os, ns, int (n div 10))"
      using 1 False by simp
    then show ?thesis
      using False dig [of "n mod 10" "int (n div 10)"] eq 1(2)
      by (subst dec.simps) (simp add: arun_append)
  qed
qed

text \<open>Reducing to a priority, then to a lower one, is reducing to the lower one.\<close>

lemma areduce_areduce:
  "areduce q os ns = Some (os1, ns1) \<Longrightarrow> p \<le> q \<Longrightarrow> areduce p os ns = areduce p os1 ns1"
  by (induction q os ns rule: areduce.induct) (auto split: if_splits bind_splits)

lemma areduce_bracket:
  "areduce 1 os ns = Some (LPAR # os1, ns1) \<Longrightarrow> abracket os ns = Some (os1, ns1)"
  by (induction "1::int" os ns rule: areduce.induct) (auto split: if_splits bind_splits simp: get_pri_def)

definition ctx :: "int \<Rightarrow> int list \<Rightarrow> bool" where
  "ctx p os \<longleftrightarrow> os = [] \<or> get_pri (hd os) < p"

lemma areduce_ctx: "ctx p os \<Longrightarrow> areduce p os ns = Some (os, ns)"
  by (cases os) (auto simp: ctx_def)

text \<open>
  Reading a factor leaves its value on the operand stack; after a product or an expression the value
  is what reducing the operators above the context gives.
\<close>

definition reads :: "nat \<Rightarrow> int list \<Rightarrow> int \<Rightarrow> int list \<Rightarrow> int list \<Rightarrow> int \<Rightarrow> bool" where
  "reads mx str p os ns v \<longleftrightarrow> (\<exists>os' ns' val' ns''. arun mx str (os, ns, 0) = Some (os', ns', val') \<and>
     aflush mx ns' val' = Some ns'' \<and> areduce p os' ns'' = Some (os, v # ns))"

definition reads_factor :: "nat \<Rightarrow> int list \<Rightarrow> int list \<Rightarrow> int list \<Rightarrow> int \<Rightarrow> bool" where
  "reads_factor mx str os ns v \<longleftrightarrow> (\<exists>ns' val'. arun mx str (os, ns, 0) = Some (os, ns', val') \<and>
     aflush mx ns' val' = Some (v # ns))"

lemma reads_binary:
  assumes l: "reads mx l p os ns x" and op: "op \<in> {ADD, SUB, MUL, DIV}" "get_pri op = p" "ctx p os"
    and room: "length os < mx"
    and r: "\<exists>os' ns' val' ns''. arun mx r (op # os, x # ns, 0) = Some (os', ns', val') \<and>
        aflush mx ns' val' = Some ns'' \<and> areduce (p + 1) os' ns'' = Some (op # os, y # x # ns)"
    and v: "calc_switch op y x = Some v"
  shows "reads mx (l @ op # r) p os ns v"
proof -
  obtain os1 ns1 val1 ns2 where 1: "arun mx l (os, ns, 0) = Some (os1, ns1, val1)"
    "aflush mx ns1 val1 = Some ns2" "areduce p os1 ns2 = Some (os, x # ns)"
    using l by (auto simp: reads_def)
  obtain os3 ns3 val3 ns4 where 2: "arun mx r (op # os, x # ns, 0) = Some (os3, ns3, val3)"
    "aflush mx ns3 val3 = Some ns4" "areduce (p + 1) os3 ns4 = Some (op # os, y # x # ns)"
    using r by blast
  have "\<not> isdigit op" "op \<noteq> RPAR" "op \<noteq> LPAR" using op(1) by (auto simp: isdigit_def)
  then have "achar mx op (os1, ns1, val1) = Some (op # os, x # ns, 0)"
    using 1 op(2) room by (simp add: achar_def aop_def apush_def)
  moreover have "areduce p os3 ns4 = Some (os, v # ns)"
    using areduce_areduce [OF 2(3), of p] op(2) v areduce_ctx [OF op(3)] by simp
  ultimately show ?thesis using 1 2 by (auto simp: reads_def arun_append)
qed

lemma reads_factor_reads: "reads_factor mx str os ns v \<Longrightarrow> ctx p os \<Longrightarrow> reads mx str p os ns v"
  by (fastforce simp: reads_def reads_factor_def areduce_ctx)

lemma reads_factor_top:
  assumes "reads_factor mx str (op # os) (x # ns) y" "get_pri op < q"
  shows "\<exists>os' ns' val' ns''. arun mx str (op # os, x # ns, 0) = Some (os', ns', val') \<and>
        aflush mx ns' val' = Some ns'' \<and> areduce q os' ns'' = Some (op # os, y # x # ns)"
  using reads_factor_reads [OF assms(1), of q] assms(2) by (simp add: reads_def ctx_def)

lemma reads_par:
  assumes e: "reads mx str 1 (LPAR # os) ns v" and room: "length os < mx"
  shows "reads_factor mx (LPAR # str @ [RPAR]) os ns v"
proof -
  obtain os' ns' val' ns'' where 1: "arun mx str (LPAR # os, ns, 0) = Some (os', ns', val')"
    "aflush mx ns' val' = Some ns''" "areduce 1 os' ns'' = Some (LPAR # os, v # ns)"
    using e by (auto simp: reads_def)
  have "achar mx LPAR (os, ns, 0) = Some (LPAR # os, ns, 0)"
    using room by (simp add: achar_def aop_def apush_def aflush_def isdigit_def)
  moreover have "achar mx RPAR (os', ns', val') = Some (os, v # ns, 0)"
    using 1 areduce_bracket by (simp add: achar_def isdigit_def)
  ultimately show ?thesis using 1 by (simp add: reads_factor_def arun_append aflush_def)
qed

lemma reads_correct:
  "val_factor f = Some v \<Longrightarrow> pos_factor f \<Longrightarrow> length os + 3 * nest_factor f \<le> mx \<Longrightarrow>
     length ns + 1 + 2 * nest_factor f \<le> mx \<Longrightarrow> reads_factor mx (show_factor f) os ns v"
  "val_prod t = Some v \<Longrightarrow> pos_prod t \<Longrightarrow> ctx 2 os \<Longrightarrow> length os + 1 + 3 * nest_prod t \<le> mx \<Longrightarrow>
     length ns + 2 + 2 * nest_prod t \<le> mx \<Longrightarrow> reads mx (show_prod t) 2 os ns v"
  "val_expr e = Some v \<Longrightarrow> pos_expr e \<Longrightarrow> ctx 1 os \<Longrightarrow> length os + 2 + 3 * nest_expr e \<le> mx \<Longrightarrow>
     length ns + 3 + 2 * nest_expr e \<le> mx \<Longrightarrow> reads mx (show_expr e) 1 os ns v"
proof (induction f and t and e arbitrary: os ns v and os ns v and os ns v)
  case (Num n)
  then have n: "int_range (int n)" "v = int n" by (auto simp: chk_Some_iff)
  then show ?case
    using Num dec_run [of n mx os ns]
    by (simp add: reads_factor_def int_range_def aflush_def apush_def)
next
  case (Par e)
  have "reads mx (show_expr e) 1 (LPAR # os) ns v"
    using Par by (intro Par.IH) (auto simp: ctx_def get_pri_def)
  then show ?case using reads_par Par.prems by simp
next
  case (Fac f)
  then show ?case by (auto intro: reads_factor_reads)
next
  case (MulT t f)
  then obtain x y where xy: "val_prod t = Some x" "val_factor f = Some y" "chk (x * y) = Some v"
    by (auto split: bind_splits)
  have l: "reads mx (show_prod t) 2 os ns x"
    using MulT.prems xy by (intro MulT.IH(1)) auto
  have "reads_factor mx (show_factor f) (MUL # os) (x # ns) y"
    using MulT.prems xy by (intro MulT.IH(2)) auto
  then show ?case
    using reads_binary [OF l, of MUL "show_factor f" y v] reads_factor_top MulT.prems xy
    by (simp add: get_pri_def calc_switch_def)
next
  case (DivT t f)
  then obtain x y where xy: "val_prod t = Some x" "val_factor f = Some y" "cdiv x y = Some v"
    by (auto split: bind_splits)
  have l: "reads mx (show_prod t) 2 os ns x"
    using DivT.prems xy by (intro DivT.IH(1)) auto
  have "reads_factor mx (show_factor f) (DIV # os) (x # ns) y"
    using DivT.prems xy by (intro DivT.IH(2)) auto
  then show ?case
    using reads_binary [OF l, of DIV "show_factor f" y v] reads_factor_top DivT.prems xy
    by (simp add: get_pri_def calc_switch_def)
next
  case (Trm t)
  then have "reads mx (show_prod t) 2 os ns v" by (intro Trm.IH) (auto simp: ctx_def)
  then show ?case
    using areduce_areduce [of 2 _ _ os "v # ns" 1] Trm.prems(3)
    by (fastforce simp: reads_def areduce_ctx)
next
  case (AddE e t)
  then obtain x y where xy: "val_expr e = Some x" "val_prod t = Some y" "chk (x + y) = Some v"
    by (auto split: bind_splits)
  have l: "reads mx (show_expr e) 1 os ns x"
    using AddE.prems xy by (intro AddE.IH(1)) auto
  have "reads mx (show_prod t) 2 (ADD # os) (x # ns) y"
    using AddE.prems xy by (intro AddE.IH(2)) (auto simp: ctx_def get_pri_def)
  then show ?case
    using reads_binary [OF l, of ADD "show_prod t" y v] AddE.prems xy
    by (simp add: get_pri_def calc_switch_def reads_def add.commute)
next
  case (SubE e t)
  then obtain x y where xy: "val_expr e = Some x" "val_prod t = Some y" "chk (x - y) = Some v"
    by (auto split: bind_splits)
  have l: "reads mx (show_expr e) 1 os ns x"
    using SubE.prems xy by (intro SubE.IH(1)) auto
  have "reads mx (show_prod t) 2 (SUB # os) (x # ns) y"
    using SubE.prems xy by (intro SubE.IH(2)) (auto simp: ctx_def get_pri_def)
  then show ?case
    using reads_binary [OF l, of SUB "show_prod t" y v] SubE.prems xy
    by (simp add: get_pri_def calc_switch_def reads_def)
qed

section \<open>Properties\<close>

text \<open>
  C2. The calculator is correct: for every expression over \<open>+ - * /\<close> and parentheses nested at most
  one deep, with positive literals, whose evaluation in C \<open>int\<close> arithmetic neither overflows nor
  divides by zero, the program run on the printed expression prints its value, with the usual
  precedences and left associativity.  The two stacks of five cells are then large enough, whatever
  they held at the start.
\<close>
theorem calculator_correct:
  assumes "val_expr e = Some v" "pos_expr e" "nest_expr e \<le> 1"
    and "length c1 = CALC_MAXSIZE" "length c2 = CALC_MAXSIZE"
  shows "calc_main CALC_MAXSIZE (Some c1) (Some c2) (show_expr e @ [0]) = Some v"
proof -
  let ?m = CALC_MAXSIZE
  obtain s1 s2 where cr: "st_create (Some c1) = Some s1" "stack_rep ?m s1 []"
    "st_create (Some c2) = Some s2" "stack_rep ?m s2 []"
    using create_rep assms(4,5) by blast
  have "reads ?m (show_expr e) 1 [] [] v"
    using assms(1-3) by (intro reads_correct(3)) (auto simp: ctx_def CALC_MAXSIZE_def)
  then obtain os ns val ns1 where run: "arun ?m (show_expr e) ([], [], 0) = Some (os, ns, val)"
    "aflush ?m ns val = Some ns1" "areduce 1 os ns1 = Some ([], [v])"
    by (auto simp: reads_def)
  obtain t1 t2 where t: "calc_loop ?m (show_expr e @ [0]) (s1, s2, 0) = Some (t1, t2, val)"
    "stack_rep ?m t1 os" "stack_rep ?m t2 ns"
    using calc_loop_rep [OF run(1) show_nonzero(3), of "(s1, s2, 0)"] cr by (auto simp: calc_rep_def)
  obtain t3 where t3: "(if val \<noteq> 0 then map_option snd (st_push ?m t2 val) else Some t2) = Some t3"
    "stack_rep ?m t3 ns1"
    using run(2) apush_rep [OF t(3), of val ns1] t(3) by (fastforce simp: aflush_def split: if_splits)
  have "areduce 0 os ns1 = Some ([], [v])" using areduce_areduce [OF run(3), of 0] by simp
  then obtain a b where ab: "calc_finish ?m t1 t3 = Some (a, b)" "stack_rep ?m b [v]"
    using calc_finish_rep [OF _ t(2) t3(2)] by blast
  obtain b1 where "st_pop b = Some (0, Some v, b1)" using pop_rep [OF ab(2)] by blast
  then show ?thesis using cr t(1) t3(1) ab(1) by (simp add: calc_main_def)
qed

text \<open>The expression in \<open>main\<close>, \<open>10+(11+3)*2-5\<close>.\<close>

definition calc_example :: expr where
  "calc_example = SubE (AddE (Trm (Fac (Num 10)))
     (MulT (Fac (Par (AddE (Trm (Fac (Num 11))) (Fac (Num 3))))) (Num 2))) (Fac (Num 5))"

theorem calculator_correct_witness:
  "calc_main CALC_MAXSIZE (Some (replicate 5 7)) (Some (replicate 5 7))
     [49, 48, 43, 40, 49, 49, 43, 51, 41, 42, 50, 45, 53, 0] = Some 33"
proof -
  have "val_expr calc_example = Some 33" "pos_expr calc_example" "nest_expr calc_example \<le> 1"
    by (simp_all add: calc_example_def chk_def int_range_def)
  moreover have "show_expr calc_example = [49, 48, 43, 40, 49, 49, 43, 51, 41, 42, 50, 45, 53]"
    by (simp add: calc_example_def dec.simps)
  ultimately show ?thesis
    using calculator_correct [of calc_example 33 "replicate 5 7" "replicate 5 7"] by (simp add: CALC_MAXSIZE_def)
qed

text \<open>
  A literal 0 is lost: \<open>if (val)\<close> pushes only non-zero operands, so for every positive \<open>n\<close> the
  program run on \<open>n+0\<close> computes with an operand that was never read (undefined), although the
  expression has a value.
\<close>
theorem literal_zero_is_lost:
  assumes "0 < n" "int n \<le> 2147483647" "length c1 = CALC_MAXSIZE" "length c2 = CALC_MAXSIZE"
  shows "val_expr (AddE (Trm (Fac (Num n))) (Fac (Num 0))) = Some (int n) \<and>
    calc_main CALC_MAXSIZE (Some c1) (Some c2) (show_expr (AddE (Trm (Fac (Num n))) (Fac (Num 0))) @ [0]) = None"
proof -
  let ?m = CALC_MAXSIZE and ?e = "AddE (Trm (Fac (Num n))) (Fac (Num 0))"
  obtain s1 s2 where cr: "st_create (Some c1) = Some s1" "stack_rep ?m s1 []"
    "st_create (Some c2) = Some s2" "stack_rep ?m s2 []"
    using create_rep assms(3,4) by blast
  have "achar ?m ADD ([], [], int n) = Some ([ADD], [int n], 0)"
    using assms(1) by (simp add: achar_def isdigit_def aflush_def apush_def aop_def CALC_MAXSIZE_def)
  then have "arun ?m (show_expr ?e) ([], [], 0) = Some ([ADD], [int n], 0)"
    using dec_run [OF assms(2), of ?m "[]" "[]"] dec_run [of 0 ?m "[ADD]" "[int n]"] by (simp add: arun_append)
  then obtain t1 t2 where t: "calc_loop ?m (show_expr ?e @ [0]) (s1, s2, 0) = Some (t1, t2, 0)"
    "stack_rep ?m t1 [ADD]" "stack_rep ?m t2 [int n]"
    using calc_loop_rep [OF _ show_nonzero(3), of ?m ?e "([], [], 0)" _ "(s1, s2, 0)"] cr
    by (auto simp: calc_rep_def)
  obtain t3 where t3: "st_pop t2 = Some (0, Some (int n), t3)" "stack_rep ?m t3 []"
    using pop_rep [OF t(3)] by blast
  have "compute ?m t2 op = None" for op
    using t3 pop_empty [OF t3(2)] by (simp add: compute_def)
  then have "calc_finish ?m t1 t2 = None"
    using isempty_rep [OF t(2)] pop_rep [OF t(2)] by (subst calc_finish.simps) auto
  then show ?thesis using cr t(1) assms by (simp add: calc_main_def chk_def int_range_def)
qed

theorem literal_zero_is_lost_witness:
  "calc_main CALC_MAXSIZE (Some (replicate 5 7)) (Some (replicate 5 7)) [53, 43, 48, 0] = None"
  using literal_zero_is_lost [of 5 "replicate 5 7" "replicate 5 7"] by (simp add: CALC_MAXSIZE_def dec.simps)

text \<open>
  Deeper nesting is not safe, because a push on a full stack is silently dropped: on
  \<open>1+2*(3+4*(5+6))\<close>, whose value is 95, the sixth operator is lost and the program ends in an
  undefined computation.
\<close>
theorem deep_nesting_overflows:
  "val_expr (AddE (Trm (Fac (Num 1))) (MulT (Fac (Num 2)) (Par (AddE (Trm (Fac (Num 3)))
     (MulT (Fac (Num 4)) (Par (AddE (Trm (Fac (Num 5))) (Fac (Num 6))))))))) = Some 95 \<and>
   calc_main CALC_MAXSIZE (Some [0, 0, 0, 0, 0]) (Some [0, 0, 0, 0, 0])
     [49, 43, 50, 42, 40, 51, 43, 52, 42, 40, 53, 43, 54, 41, 41, 0] = None"
  by code_simp

end
