(* ===== verification/RingQueue.thy ===== *)
theory RingQueue
  imports Prelude
begin

text \<open>
  The ring queue \<open>queue.c\<close> of the ball clock (\<open>3.ybx/20.ds/2.ds/2.line/3.ex/2.ball_clock\<close>): \<open>mx\<close>
  cells, of which one stays free, \<open>head\<close> before the first and \<open>tail\<close> at the last element.  The loops
  that walk the ring are \<open>partial_function\<close>s, since nothing in the code bounds them.
\<close>

section \<open>The program\<close>

record ring =
  qdata :: "int list"
  qhead :: nat
  qtail :: nat

definition q_create :: "int list option \<Rightarrow> ring option" where
  "q_create mem = map_option (\<lambda>cells. \<lparr>qdata = cells, qhead = 0, qtail = 0\<rparr>) mem"

definition q_isempty :: "ring \<Rightarrow> bool" where
  "q_isempty q = (qhead q = qtail q)"

definition q_isfull :: "nat \<Rightarrow> ring \<Rightarrow> bool" where
  "q_isfull mx q = ((qtail q + 1) mod mx = qhead q)"

definition q_enqueue :: "nat \<Rightarrow> ring \<Rightarrow> int \<Rightarrow> (int \<times> ring) option" where
  "q_enqueue mx q v =
     (if q_isfull mx q then Some (- 1, q)
      else do {
        let t = (qtail q + 1) mod mx;
        d \<leftarrow> wr (qdata q) t v;
        Some (0, q\<lparr>qdata := d, qtail := t\<rparr>) })"

definition q_dequeue :: "nat \<Rightarrow> ring \<Rightarrow> (int \<times> int option \<times> ring) option" where
  "q_dequeue mx q =
     (if q_isempty q then Some (- 1, None, q)
      else do {
        let h = (qhead q + 1) mod mx;
        v \<leftarrow> rd (qdata q) h;
        Some (0, Some v, q\<lparr>qhead := h\<rparr>) })"

partial_function (option) q_travel_loop :: "nat \<Rightarrow> ring \<Rightarrow> nat \<Rightarrow> int list \<Rightarrow> int list option" where
  "q_travel_loop mx q i out =
     (if i \<noteq> qtail q then do {
        v \<leftarrow> rd (qdata q) i;
        q_travel_loop mx q ((i + 1) mod mx) (out @ [v]) }
      else do {
        v \<leftarrow> rd (qdata q) i;
        Some (out @ [v]) })"

definition q_travel :: "nat \<Rightarrow> ring \<Rightarrow> int list option" where
  "q_travel mx q = (if q_isempty q then Some [] else q_travel_loop mx q ((qhead q + 1) mod mx) [])"

definition q_clear :: "ring \<Rightarrow> ring" where
  "q_clear q = q\<lparr>qtail := qhead q\<rparr>"

section \<open>It holds a list\<close>

definition ring_rep :: "nat \<Rightarrow> ring \<Rightarrow> int list \<Rightarrow> bool" where
  "ring_rep mx q xs \<longleftrightarrow> length (qdata q) = mx \<and> qhead q < mx \<and> length xs < mx \<and>
     qtail q = (qhead q + length xs) mod mx \<and>
     (\<forall>i < length xs. qdata q ! ((qhead q + 1 + i) mod mx) = xs ! i)"

lemma ring_create: "length cells = mx \<Longrightarrow> 0 < mx \<Longrightarrow> \<exists>q. q_create (Some cells) = Some q \<and> ring_rep mx q []"
  by (simp add: q_create_def ring_rep_def)

text \<open>Positions in the ring: an offset of less than one turn wraps at most once.\<close>

lemma wrap: "h < m \<Longrightarrow> i \<le> m \<Longrightarrow> (h + i) mod m = (if h + i < m then h + i else h + i - m)" for h m i :: nat
  by (auto simp: mod_if)

lemma ring_pos: "h < m \<Longrightarrow> i < m \<Longrightarrow> (h + 1 + i) mod m = (if h + 1 + i < m then h + 1 + i else h + 1 + i - m)" for h m i :: nat
  using wrap [of h m "Suc i"] by simp

lemma isempty_ring: "ring_rep mx q xs \<Longrightarrow> q_isempty q \<longleftrightarrow> xs = []"
  using wrap [of "qhead q" mx "length xs"] by (auto simp: ring_rep_def q_isempty_def split: if_splits)

lemma tail_next: "ring_rep mx q xs \<Longrightarrow> (qtail q + 1) mod mx = (qhead q + 1 + length xs) mod mx"
  by (simp add: ring_rep_def mod_Suc_eq)

lemma isfull_ring: "ring_rep mx q xs \<Longrightarrow> q_isfull mx q \<longleftrightarrow> Suc (length xs) = mx"
  using ring_pos [of "qhead q" mx "length xs"] tail_next [of mx q xs]
  by (auto simp: q_isfull_def ring_rep_def split: if_splits)

lemma enqueue_ring:
  assumes "ring_rep mx q xs" "Suc (length xs) < mx"
  shows "\<exists>q'. q_enqueue mx q v = Some (0, q') \<and> ring_rep mx q' (xs @ [v])"
proof -
  let ?t = "(qhead q + 1 + length xs) mod mx"
  let ?q = "q\<lparr>qdata := (qdata q)[?t := v], qtail := ?t\<rparr>"
  have r: "length (qdata q) = mx" "qhead q < mx" "length xs < mx"
    "\<forall>i < length xs. qdata q ! ((qhead q + 1 + i) mod mx) = xs ! i"
    using assms(1) by (auto simp: ring_rep_def)
  have t: "?t < mx" using r(2) by simp
  have "q_enqueue mx q v = Some (0, ?q)"
    using assms isfull_ring [OF assms(1)] tail_next [OF assms(1)] t r(1)
    by (simp add: q_enqueue_def Let_def)
  moreover have "(qdata q)[?t := v] ! ((qhead q + 1 + i) mod mx) = (xs @ [v]) ! i" if "i < Suc (length xs)" for i
  proof (cases "i = length xs")
    case True
    then show ?thesis using t r(1) by simp
  next
    case False
    then have i: "i < length xs" using that by simp
    have "(qhead q + 1 + i) mod mx \<noteq> ?t"
      using i r(2,3) by (subst (1 2) ring_pos) auto
    then show ?thesis using i r(4) by (simp add: nth_append)
  qed
  ultimately show ?thesis
    using assms(2) r by (intro exI [of _ ?q]) (simp add: ring_rep_def)
qed

lemma enqueue_ring_full:
  "ring_rep mx q xs \<Longrightarrow> Suc (length xs) = mx \<Longrightarrow> q_enqueue mx q v = Some (- 1, q)"
  by (simp add: q_enqueue_def isfull_ring)

lemma dequeue_ring:
  assumes "ring_rep mx q (x # xs)"
  shows "\<exists>q'. q_dequeue mx q = Some (0, Some x, q') \<and> ring_rep mx q' xs"
proof -
  let ?h = "(qhead q + 1) mod mx"
  let ?q = "q\<lparr>qhead := ?h\<rparr>"
  have r: "length (qdata q) = mx" "qhead q < mx" "Suc (length xs) < mx"
    "qtail q = (qhead q + Suc (length xs)) mod mx"
    "\<forall>i < Suc (length xs). qdata q ! ((qhead q + 1 + i) mod mx) = (x # xs) ! i"
    using assms by (auto simp: ring_rep_def)
  have "q_dequeue mx q = Some (0, Some x, ?q)"
    using isempty_ring [OF assms] r(1,2) r(5) [rule_format, of 0] by (simp add: q_dequeue_def Let_def)
  moreover have "(?h + 1 + i) mod mx = (qhead q + 1 + Suc i) mod mx" "(?h + i) mod mx = (qhead q + Suc i) mod mx" for i
    using mod_add_left_eq [of "qhead q + 1" mx "1 + i"] mod_add_left_eq [of "qhead q + 1" mx i]
    by (simp_all add: ac_simps)
  ultimately show ?thesis
    using r by (intro exI [of _ ?q]) (auto simp: ring_rep_def)
qed

lemma dequeue_ring_empty: "ring_rep mx q [] \<Longrightarrow> q_dequeue mx q = Some (- 1, None, q)"
  by (simp add: q_dequeue_def isempty_ring)

lemma travel_loop_ring:
  assumes "ring_rep mx q xs" "i < length xs"
  shows "q_travel_loop mx q ((qhead q + 1 + i) mod mx) out = Some (out @ drop i xs)"
  using assms(2)
proof (induction "length xs - i" arbitrary: i out)
  case 0
  then show ?case by simp
next
  case (Suc n)
  let ?p = "(qhead q + 1 + i) mod mx"
  have r: "length (qdata q) = mx" "qhead q < mx" "length xs < mx" "qtail q = (qhead q + length xs) mod mx"
    using assms(1) by (auto simp: ring_rep_def)
  have v: "rd (qdata q) ?p = Some (xs ! i)" using assms(1) Suc.prems r by (simp add: ring_rep_def)
  have d: "drop i xs = xs ! i # drop (Suc i) xs" using Suc.prems by (simp add: Cons_nth_drop_Suc)
  show ?case
  proof (cases "Suc i = length xs")
    case True
    then have "?p = qtail q" unfolding r(4) by (simp flip: True)
    then show ?thesis using v d True by (subst q_travel_loop.simps) simp
  next
    case False
    then have i: "Suc i < length xs" using Suc.prems by simp
    have ne: "?p \<noteq> qtail q"
      unfolding r(4) using i r(2,3) ring_pos [of "qhead q" mx i] wrap [of "qhead q" mx "length xs"] by auto
    have "(?p + 1) mod mx = (qhead q + 1 + Suc i) mod mx" by (simp add: mod_Suc_eq)
    then show ?thesis
      using Suc.hyps(1) [of "Suc i" "out @ [xs ! i]"] Suc.hyps(2) i ne v d
      by (subst q_travel_loop.simps) simp
  qed
qed

lemma travel_ring: "ring_rep mx q xs \<Longrightarrow> q_travel mx q = Some xs"
  using travel_loop_ring [of mx q xs 0 "[]"] isempty_ring [of mx q xs] by (auto simp: q_travel_def)

lemma clear_ring: "ring_rep mx q xs \<Longrightarrow> ring_rep mx (q_clear q) []"
  by (simp add: ring_rep_def q_clear_def)

section \<open>The contract of a bounded queue\<close>

locale bounded_queue =
  fixes mx :: nat
    and rep :: "'q \<Rightarrow> int list \<Rightarrow> bool"
    and empty :: "'q \<Rightarrow> bool"
    and enq :: "'q \<Rightarrow> int \<Rightarrow> (int \<times> 'q) option"
    and deq :: "'q \<Rightarrow> (int \<times> int option \<times> 'q) option"
  assumes empty_law: "rep q xs \<Longrightarrow> empty q \<longleftrightarrow> xs = []"
    and enq_law: "rep q xs \<Longrightarrow> Suc (length xs) < mx \<Longrightarrow> \<exists>q'. enq q v = Some (0, q') \<and> rep q' (xs @ [v])"
    and enq_full_law: "rep q xs \<Longrightarrow> Suc (length xs) = mx \<Longrightarrow> enq q v = Some (- 1, q)"
    and deq_law: "rep q (x # xs) \<Longrightarrow> \<exists>q'. deq q = Some (0, Some x, q') \<and> rep q' xs"
    and deq_empty_law: "rep q [] \<Longrightarrow> deq q = Some (- 1, None, q)"
begin

fun enqs :: "'q \<Rightarrow> int list \<Rightarrow> 'q option" where
  "enqs q [] = Some q"
| "enqs q (v # vs) = do { (_, q1) \<leftarrow> enq q v; enqs q1 vs }"

fun deqs :: "nat \<Rightarrow> 'q \<Rightarrow> (int option list \<times> 'q) option" where
  "deqs 0 q = Some ([], q)"
| "deqs (Suc n) q = do { (_, v, q1) \<leftarrow> deq q; (vs, q2) \<leftarrow> deqs n q1; Some (v # vs, q2) }"

lemma enqs_rep:
  "rep q xs \<Longrightarrow> length xs + length vs < mx \<Longrightarrow> \<exists>q'. enqs q vs = Some q' \<and> rep q' (xs @ vs)"
proof (induction vs arbitrary: q xs)
  case (Cons v vs)
  then obtain q1 where q1: "enq q v = Some (0, q1)" "rep q1 (xs @ [v])"
    using enq_law [of q xs v] by auto
  then show ?case using Cons.IH [OF q1(2)] Cons.prems by auto
qed simp

lemma deqs_rep:
  "rep q (xs @ ys) \<Longrightarrow> \<exists>q'. deqs (length xs) q = Some (map Some xs, q') \<and> rep q' ys"
proof (induction xs arbitrary: q)
  case (Cons x xs)
  then obtain q1 where q1: "deq q = Some (0, Some x, q1)" "rep q1 (xs @ ys)"
    using deq_law [of q x "xs @ ys"] by auto
  then show ?case using Cons.IH [OF q1(2)] by auto
qed simp

lemma first_in_first_out:
  assumes "rep q xs" "length xs + length vs < mx"
  shows "\<exists>q1 q2. enqs q vs = Some q1 \<and> deqs (length (xs @ vs)) q1 = Some (map Some (xs @ vs), q2) \<and> rep q2 []"
  using enqs_rep [OF assms] deqs_rep [of _ "xs @ vs" "[]"] by fastforce

end

interpretation ringq: bounded_queue mx "ring_rep mx" q_isempty "q_enqueue mx" "q_dequeue mx" for mx
  by unfold_locales (auto simp: isempty_ring dequeue_ring_empty intro: enqueue_ring enqueue_ring_full dequeue_ring)

section \<open>Properties\<close>

text \<open>
  The ring queue is a bounded first-in first-out store of \<open>mx - 1\<close> elements, wherever its head
  stands in the ring: enqueued values come back behind the ones already there, in order; \<open>q_travel\<close>
  visits exactly the elements in order and ends; an enqueue on a full ring and a dequeue of an empty one
  return -1 and change nothing.
\<close>
theorem ring_first_in_first_out:
  assumes "ring_rep mx q xs"
  shows "(length xs + length vs < mx \<longrightarrow> (\<exists>q1 q2. ringq.enqs mx q vs = Some q1 \<and>
      ringq.deqs mx (length (xs @ vs)) q1 = Some (map Some (xs @ vs), q2) \<and> ring_rep mx q2 [])) \<and>
    (Suc (length xs) = mx \<longrightarrow> q_enqueue mx q v = Some (- 1, q)) \<and>
    (xs = [] \<longrightarrow> q_dequeue mx q = Some (- 1, None, q)) \<and> q_travel mx q = Some xs"
  using assms ringq.first_in_first_out [OF assms, of vs] enqueue_ring_full dequeue_ring_empty travel_ring by blast

theorem ring_first_in_first_out_witness:
  "\<exists>q1 q2. ringq.enqs 4 \<lparr>qdata = [0, 0, 0, 7], qhead = 2, qtail = 3\<rparr> [1, 2] = Some q1 \<and>
     ringq.deqs 4 3 q1 = Some ([Some 7, Some 1, Some 2], q2) \<and> ring_rep 4 q2 []"
proof -
  have "ring_rep 4 \<lparr>qdata = [0, 0, 0, 7], qhead = 2, qtail = 3\<rparr> [7]" by (simp add: ring_rep_def)
  then show ?thesis using ring_first_in_first_out [of 4 _ "[7]" "[1, 2]"] by (simp add: numeral_3_eq_3)
qed

end
