(* ===== verification/BallClock.thy ===== *)
theory BallClock
  imports ArrayStack RingQueue
begin

text \<open>
  The ball clock \<open>3.ybx/20.ds/2.ds/2.line/3.ex/2.ball_clock/main.c\<close>: 27 numbered balls in a ring
  queue; every minute one ball moves to the minute stack (4 balls), which when full runs back into the
  queue and passes the ball on to the five-minute stack (11 balls), and so on to the hour stack (11
  balls).  \<open>main\<close> stops when, after a half day, the queue is in its first order, and prints the
  minutes.  The main loop is a \<open>partial_function\<close>; it is proved to stop, after 33120 minutes.
\<close>

section \<open>The program\<close>

definition STACK_MAXSIZE :: nat where "STACK_MAXSIZE = 11"
definition QUEUE_MAXSIZE :: nat where "QUEUE_MAXSIZE = 28"

text \<open>The stack of this program is the same code with another size.\<close>

definition ball_st_push :: "sk \<Rightarrow> int \<Rightarrow> (int \<times> sk) option" where
  "ball_st_push st v =
     (if top st = int STACK_MAXSIZE - 1 then Some (- 1, st)
      else do {
        d \<leftarrow> wri (sdata st) (top st + 1) v;
        Some (0, st\<lparr>sdata := d, top := top st + 1\<rparr>) })"

record clock =
  cqueue :: ring
  one_min :: sk
  five_min :: sk
  one_hour :: sk
  ct :: int
  ctime :: int
  cout :: "int list list"

text \<open>\<open>check\<close>: are the balls in the queue 1, 2, 3, ...?\<close>

partial_function (option) check_loop :: "nat \<Rightarrow> ring \<Rightarrow> nat \<Rightarrow> int \<Rightarrow> bool option" where
  "check_loop mx q i tmp =
     (if i \<noteq> (qtail q + 1) mod mx then do {
        v \<leftarrow> rd (qdata q) i;
        if v \<noteq> tmp then Some False
        else check_loop mx q ((i + 1) mod mx) (tmp + 1) }
      else Some True)"

definition check :: "nat \<Rightarrow> ring \<Rightarrow> bool option" where
  "check mx q = (if q_isempty q then Some False else check_loop mx q ((qhead q + 1) mod mx) 1)"

text \<open>\<open>while (!st_isempty(s)) { st_pop(s, &t1); q_enqueue(qu, &t1); }\<close>\<close>

lemma pop_decreases: "st_pop s = Some (r, v, s1) \<Longrightarrow> \<not> st_isempty s \<Longrightarrow> nat (top s1 + 1) < nat (top s + 1)"
  by (auto simp: st_pop_def rdi_def split: bind_splits if_splits)

function pour :: "sk \<Rightarrow> ring \<Rightarrow> (sk \<times> ring) option" where
  "pour s q =
     (if \<not> st_isempty s then do {
        (_, v, s1) \<leftarrow> st_pop s;
        t1 \<leftarrow> v;
        (_, q1) \<leftarrow> q_enqueue QUEUE_MAXSIZE q t1;
        pour s1 q1 }
      else Some (s, q))"
  by pat_completeness auto
termination by (relation "measure (\<lambda>(s, q). nat (top s + 1))") (auto dest: pop_decreases)
declare pour.simps [simp del]

text \<open>The body of the main loop; the flag says that it breaks out.\<close>

definition clock_minute :: "clock \<Rightarrow> (bool \<times> clock) option" where
  "clock_minute c = do {
     (_, v, q) \<leftarrow> q_dequeue QUEUE_MAXSIZE (cqueue c);
     let t = (case v of None \<Rightarrow> ct c | Some b \<Rightarrow> b);
     let c = c\<lparr>cqueue := q, ct := t, ctime := ctime c + 1\<rparr>;
     if top (one_min c) \<noteq> 3 then do {
       (_, s) \<leftarrow> ball_st_push (one_min c) t;
       Some (False, c\<lparr>one_min := s\<rparr>) }
     else do {
       (s, q) \<leftarrow> pour (one_min c) (cqueue c);
       let c = c\<lparr>one_min := s, cqueue := q\<rparr>;
       if top (five_min c) \<noteq> 10 then do {
         (_, s) \<leftarrow> ball_st_push (five_min c) t;
         Some (False, c\<lparr>five_min := s\<rparr>) }
       else do {
         (s, q) \<leftarrow> pour (five_min c) (cqueue c);
         let c = c\<lparr>five_min := s, cqueue := q\<rparr>;
         if top (one_hour c) \<noteq> 10 then do {
           (_, s) \<leftarrow> ball_st_push (one_hour c) t;
           Some (False, c\<lparr>one_hour := s\<rparr>) }
         else do {
           (s, q) \<leftarrow> pour (one_hour c) (cqueue c);
           (_, q) \<leftarrow> q_enqueue QUEUE_MAXSIZE q t;
           out \<leftarrow> q_travel QUEUE_MAXSIZE q;
           b \<leftarrow> check QUEUE_MAXSIZE q;
           Some (b, c\<lparr>one_hour := s, cqueue := q, cout := cout c @ [out]\<rparr>) } } } }"

partial_function (option) clock_loop :: "clock \<Rightarrow> clock option" where
  "clock_loop c = do {
     (stop, c1) \<leftarrow> clock_minute c;
     if stop then Some c1 else clock_loop c1 }"

function fill_balls :: "int \<Rightarrow> ring \<Rightarrow> ring option" where
  "fill_balls i q =
     (if i \<le> 27 then do {
        (r, q1) \<leftarrow> q_enqueue QUEUE_MAXSIZE q i;
        if r \<noteq> 0 then Some q1 else fill_balls (i + 1) q1 }
      else Some q)"
  by pat_completeness auto
termination by (relation "measure (\<lambda>(i, q). nat (28 - i))") auto
declare fill_balls.simps [simp del]

text \<open>\<open>main\<close>: the minutes printed at the end and the queues printed on the way.\<close>

definition clock_main :: "int list option \<Rightarrow> int list option \<Rightarrow> int list option \<Rightarrow> int list option \<Rightarrow> (int \<times> int list list) option" where
  "clock_main m1 m2 m3 m4 = do {
     h \<leftarrow> st_create m1;
     f \<leftarrow> st_create m2;
     m \<leftarrow> st_create m3;
     q \<leftarrow> q_create m4;
     q1 \<leftarrow> fill_balls 1 q;
     out \<leftarrow> q_travel QUEUE_MAXSIZE q1;
     c \<leftarrow> clock_loop \<lparr>cqueue = q1, one_min = m, five_min = f, one_hour = h, ct = 0, ctime = 0, cout = [out]\<rparr>;
     Some (ctime c, cout c) }"

section \<open>The clock on lists\<close>

text \<open>The four containers as lists, the stacks with the top first; the flag marks the end of a half day.\<close>

type_synonym 'a balls = "'a list \<times> 'a list \<times> 'a list \<times> 'a list"

fun minute :: "'a balls \<Rightarrow> (bool \<times> 'a balls) option" where
  "minute ([], m, f, h) = None"
| "minute (t # q, m, f, h) =
     (if length m \<noteq> 4 then Some (False, (q, t # m, f, h))
      else if length f \<noteq> 11 then Some (False, (q @ m, [], t # f, h))
      else if length h \<noteq> 11 then Some (False, (q @ m @ f, [], [], t # h))
      else Some (True, (q @ m @ f @ h @ [t], [], [], [])))"

text \<open>Minutes until the end of the half day, and the balls then; at most \<open>n\<close> minutes are tried.\<close>

fun half_day :: "nat \<Rightarrow> 'a balls \<Rightarrow> (nat \<times> 'a balls) option" where
  "half_day 0 s = None"
| "half_day (Suc n) s = do {
     (e, s1) \<leftarrow> minute s;
     if e then Some (1, s1) else map_option (\<lambda>(k, s2). (Suc k, s2)) (half_day n s1) }"

fun map_balls :: "('a \<Rightarrow> 'b) \<Rightarrow> 'a balls \<Rightarrow> 'b balls" where
  "map_balls g (q, m, f, h) = (map g q, map g m, map g f, map g h)"

lemma minute_map: "minute (map_balls g s) = map_option (\<lambda>(e, s1). (e, map_balls g s1)) (minute s)"
  by (cases s rule: minute.cases) auto

lemma half_day_map: "half_day n (map_balls g s) = map_option (\<lambda>(k, s1). (k, map_balls g s1)) (half_day n s)"
proof (induction n arbitrary: s)
  case (Suc n)
  then show ?case
    by (cases "minute s") (auto simp: minute_map option.map_comp comp_def split_def)
qed simp

text \<open>What a half day does to the places of the 27 balls.\<close>

definition turn :: "nat list" where
  "turn = [2, 25, 12, 1, 20, 15, 7, 13, 5, 17, 4, 11, 9, 10, 8, 3, 22, 18, 24, 0, 26, 21, 16, 6, 14, 23, 19]"

text \<open>Half days until the places are the first ones again; at most \<open>n\<close> are tried.\<close>

fun turns :: "nat list \<Rightarrow> nat \<Rightarrow> nat list \<Rightarrow> nat option" where
  "turns tr 0 p = None"
| "turns tr (Suc n) p =
     (let p1 = map ((!) p) tr in if p1 = [0..<27] then Some 1 else map_option Suc (turns tr n p1))"

lemma half_day_places: "half_day 720 ([0..<27], [], [], []) = Some (720, turn, [], [], [])"
  by code_simp

lemma length_turn: "length turn = 27"
  by (simp add: turn_def)

lemma turns_46: "turns turn 46 [0..<27] = Some 46"
  by code_simp

lemma half_day_perm:
  assumes "length p = 27"
  shows "half_day 720 (map g p, [], [], []) = Some (720, map g (map ((!) p) turn), [], [], [])"
proof -
  have "map_balls (g \<circ> (!) p) ([0..<27], [], [], []) = (map g p, [], [], [])"
    using assms map_nth [of p] by (simp flip: map_map)
  then show ?thesis
    using half_day_map [of 720 "g \<circ> (!) p" "([0..<27], [], [], [])"] half_day_places by simp
qed

subsection \<open>The program refines it\<close>

definition clock_rep :: "clock \<Rightarrow> int balls \<Rightarrow> bool" where
  "clock_rep c = (\<lambda>(q, m, f, h). ring_rep QUEUE_MAXSIZE (cqueue c) q \<and> stack_rep STACK_MAXSIZE (one_min c) m \<and>
     stack_rep STACK_MAXSIZE (five_min c) f \<and> stack_rep STACK_MAXSIZE (one_hour c) h)"

text \<open>All 27 balls are there and every stack is within its limit.\<close>

definition all_balls :: "int balls \<Rightarrow> bool" where
  "all_balls = (\<lambda>(q, m, f, h). length q + length m + length f + length h = 27 \<and>
     length m \<le> 4 \<and> length f \<le> 11 \<and> length h \<le> 11)"

lemma ball_st_push_eq: "ball_st_push st v = st_push STACK_MAXSIZE st v"
  by (simp add: ball_st_push_def st_push_def st_isfull_def)

lemma stack_top: "stack_rep mx s xs \<Longrightarrow> top s = int (length xs) - 1"
  by (simp add: stack_rep_def)

lemma check_loop_ring:
  assumes "ring_rep mx q xs" "i \<le> length xs" "0 < mx"
  shows "check_loop mx q ((qhead q + 1 + i) mod mx) (int i + 1) =
    Some (drop i xs = map int [Suc i..<Suc (length xs)])"
  using assms(2)
proof (induction "length xs - i" arbitrary: i)
  case 0
  then have "i = length xs" by simp
  then show ?case using tail_next [OF assms(1)] by (subst check_loop.simps) simp
next
  case (Suc n)
  let ?p = "(qhead q + 1 + i) mod mx"
  have r: "length (qdata q) = mx" "qhead q < mx" "length xs < mx" using assms(1) by (auto simp: ring_rep_def)
  have i: "i < length xs" using Suc.hyps(2) by simp
  have v: "rd (qdata q) ?p = Some (xs ! i)" using assms(1) i r by (simp add: ring_rep_def)
  have d: "drop i xs = xs ! i # drop (Suc i) xs" using i by (simp add: Cons_nth_drop_Suc)
  have u: "[Suc i..<Suc (length xs)] = Suc i # [Suc (Suc i)..<Suc (length xs)]" using i by (simp add: upt_conv_Cons)
  have "?p \<noteq> (qtail q + 1) mod mx"
    using tail_next [OF assms(1)] ring_pos [of "qhead q" mx i] ring_pos [of "qhead q" mx "length xs"] i r by auto
  moreover have "(?p + 1) mod mx = (qhead q + 1 + Suc i) mod mx" by (simp add: mod_Suc_eq)
  ultimately show ?case
    unfolding d u
    using Suc.hyps(1) [of "Suc i"] Suc.hyps(2) i v
    by (subst check_loop.simps) (auto simp: add.commute)
qed

lemma check_ring:
  assumes "ring_rep mx q xs" "xs \<noteq> []"
  shows "check mx q = Some (xs = map int [1..<Suc (length xs)])"
  using check_loop_ring [OF assms(1), of 0] isempty_ring [OF assms(1)] assms
  by (auto simp: check_def ring_rep_def)

lemma pour_rep:
  assumes "stack_rep k s xs" "ring_rep QUEUE_MAXSIZE q ys" "length xs + length ys < QUEUE_MAXSIZE"
  shows "\<exists>s' q'. pour s q = Some (s', q') \<and> stack_rep k s' [] \<and> ring_rep QUEUE_MAXSIZE q' (ys @ xs)"
  using assms
proof (induction xs arbitrary: s q ys)
  case Nil
  then show ?case using isempty_rep [OF Nil(1)] by (subst pour.simps) simp
next
  case (Cons x xs)
  obtain s1 where s1: "st_pop s = Some (0, Some x, s1)" "stack_rep k s1 xs"
    using pop_rep [OF Cons.prems(1)] by blast
  obtain q1 where q1: "q_enqueue QUEUE_MAXSIZE q x = Some (0, q1)" "ring_rep QUEUE_MAXSIZE q1 (ys @ [x])"
    using enqueue_ring [OF Cons.prems(2), of x] Cons.prems(3) by auto
  show ?case
    using Cons.IH [OF s1(2) q1(2)] Cons.prems(3) s1(1) q1(1) isempty_rep [OF Cons.prems(1)]
    by (subst pour.simps) simp
qed

lemma minute_all_balls: "minute s = Some (e, s1) \<Longrightarrow> all_balls s \<Longrightarrow> all_balls s1"
  by (cases s rule: minute.cases) (auto simp: all_balls_def split: if_splits)

lemma clock_minute_rep:
  assumes "clock_rep c s" "all_balls s" "minute s = Some (e, s1)"
  shows "\<exists>stop c1. clock_minute c = Some (stop, c1) \<and> clock_rep c1 s1 \<and> ctime c1 = ctime c + 1 \<and>
    (if e then stop = (fst s1 = map int [1..<28]) \<and> cout c1 = cout c @ [fst s1] else \<not> stop \<and> cout c1 = cout c)"
proof -
  let ?M = QUEUE_MAXSIZE and ?S = STACK_MAXSIZE
  obtain t q m f h where s: "s = (t # q, m, f, h)"
    using assms(3) by (cases s rule: minute.cases) auto
  have r: "ring_rep ?M (cqueue c) (t # q)" "stack_rep ?S (one_min c) m" "stack_rep ?S (five_min c) f"
    "stack_rep ?S (one_hour c) h"
    using assms(1) s by (auto simp: clock_rep_def)
  have len: "Suc (length q) + length m + length f + length h = 27" "length m \<le> 4" "length f \<le> 11" "length h \<le> 11"
    using assms(2) s by (auto simp: all_balls_def)
  have M: "?M = 28" "?S = 11" by (simp_all add: QUEUE_MAXSIZE_def STACK_MAXSIZE_def)
  obtain q0 where q0: "q_dequeue ?M (cqueue c) = Some (0, Some t, q0)" "ring_rep ?M q0 q"
    using dequeue_ring [OF r(1)] by blast
  note tops = stack_top [OF r(2)] stack_top [OF r(3)] stack_top [OF r(4)]
  show ?thesis
  proof (cases "length m = 4")
    case False
    then obtain s' where "st_push ?S (one_min c) t = Some (0, s')" "stack_rep ?S s' (t # m)"
      using push_rep [OF r(2), of t] len(2) M by auto
    then show ?thesis
      using False assms(3) s r q0 tops
      by (auto simp: clock_minute_def Let_def ball_st_push_eq clock_rep_def)
  next
    case m: True
    obtain s1' q1 where p1: "pour (one_min c) q0 = Some (s1', q1)" "stack_rep ?S s1' []" "ring_rep ?M q1 (q @ m)"
      using pour_rep [OF r(2) q0(2)] len M by auto
    show ?thesis
    proof (cases "length f = 11")
      case False
      then obtain s' where "st_push ?S (five_min c) t = Some (0, s')" "stack_rep ?S s' (t # f)"
        using push_rep [OF r(3), of t] len(3) M by auto
      then show ?thesis
        using False m assms(3) s r q0 p1 tops
        by (auto simp: clock_minute_def Let_def ball_st_push_eq clock_rep_def)
    next
      case f: True
      obtain s2 q2 where p2: "pour (five_min c) q1 = Some (s2, q2)" "stack_rep ?S s2 []" "ring_rep ?M q2 ((q @ m) @ f)"
        using pour_rep [OF r(3) p1(3)] len M by auto
      show ?thesis
      proof (cases "length h = 11")
        case False
        then obtain s' where "st_push ?S (one_hour c) t = Some (0, s')" "stack_rep ?S s' (t # h)"
          using push_rep [OF r(4), of t] len(4) M by auto
        then show ?thesis
          using False f m assms(3) s r q0 p1 p2 tops
          by (auto simp: clock_minute_def Let_def ball_st_push_eq clock_rep_def)
      next
        case h: True
        obtain s3 q3 where p3: "pour (one_hour c) q2 = Some (s3, q3)" "stack_rep ?S s3 []"
          "ring_rep ?M q3 (((q @ m) @ f) @ h)"
          using pour_rep [OF r(4) p2(3)] len M by auto
        let ?q = "(((q @ m) @ f) @ h) @ [t]"
        obtain q4 where p4: "q_enqueue ?M q3 t = Some (0, q4)" "ring_rep ?M q4 ?q"
          using enqueue_ring [OF p3(3), of t] len M by auto
        have "length ?q = 27" using len(1) by simp
        then have "check ?M q4 = Some (?q = map int [1..<28])"
          using check_ring [OF p4(2)] by (auto simp del: upt_Suc)
        then show ?thesis
          using h f m assms(3) s r q0 p1 p2 p3 p4 tops travel_ring [OF p4(2)]
          by (auto simp: clock_minute_def Let_def clock_rep_def)
      qed
    qed
  qed
qed

lemma clock_half_day:
  assumes "half_day n s = Some (k, s1)" "clock_rep c s" "all_balls s"
  shows "\<exists>c1. clock_loop c = (if fst s1 = map int [1..<28] then Some c1 else clock_loop c1) \<and>
    clock_rep c1 s1 \<and> all_balls s1 \<and> ctime c1 = ctime c + int k \<and> cout c1 = cout c @ [fst s1]"
  using assms
proof (induction n arbitrary: s k c)
  case (Suc n)
  then obtain e s2 where s2: "minute s = Some (e, s2)"
    "(if e then Some (1, s2) else map_option (\<lambda>(k, s2). (Suc k, s2)) (half_day n s2)) = Some (k, s1)"
    by (auto split: bind_splits)
  obtain stop c2 where c2: "clock_minute c = Some (stop, c2)" "clock_rep c2 s2" "ctime c2 = ctime c + 1"
    "if e then stop = (fst s2 = map int [1..<28]) \<and> cout c2 = cout c @ [fst s2] else \<not> stop \<and> cout c2 = cout c"
    using clock_minute_rep [OF Suc.prems(2,3) s2(1)] by blast
  have ok: "all_balls s2" using minute_all_balls [OF s2(1) Suc.prems(3)] .
  have loop: "clock_loop c = (if stop then Some c2 else clock_loop c2)"
    using c2(1) by (subst clock_loop.simps) simp
  show ?case
  proof (cases e)
    case True
    then show ?thesis using s2(2) c2 ok loop by (intro exI [of _ c2]) (auto simp del: upt_Suc)
  next
    case False
    then obtain k' where k': "half_day n s2 = Some (k', s1)" "k = Suc k'" using s2(2) by auto
    then show ?thesis using Suc.IH [OF k'(1) c2(2) ok] c2(3,4) loop False by (auto simp del: upt_Suc)
  qed
qed simp

lemma map_int_places: "length p = 27 \<Longrightarrow> map (\<lambda>i. int i + 1) p = map int [1..<28] \<longleftrightarrow> p = [0..<27]"
proof -
  have eq: "map int [1..<28] = map (\<lambda>i. int i + 1) [0..<27]"
    by (rule nth_equalityI) auto
  show ?thesis unfolding eq by (intro inj_map_eq_map injI) simp
qed

lemma clock_turns:
  assumes "turns turn n p = Some k" "length p = 27" "clock_rep c (map (\<lambda>i. int i + 1) p, [], [], [])"
  shows "\<exists>c1. clock_loop c = Some c1 \<and> ctime c1 = ctime c + 720 * int k \<and> length (cout c1) = length (cout c) + k"
  using assms
proof (induction n arbitrary: p k c)
  case (Suc n)
  let ?g = "\<lambda>i. int i + 1" and ?p = "map ((!) p) turn"
  have len: "length ?p = 27" by (simp add: length_turn)
  have "all_balls (map ?g p, [], [], [])" using Suc.prems(2) by (simp add: all_balls_def)
  then obtain c1 where c1: "clock_loop c = (if map ?g ?p = map int [1..<28] then Some c1 else clock_loop c1)"
    "clock_rep c1 (map ?g ?p, [], [], [])" "ctime c1 = ctime c + 720" "length (cout c1) = length (cout c) + 1"
    using clock_half_day [OF half_day_perm [OF Suc.prems(2)] Suc.prems(3)] by (auto simp del: upt_Suc)
  show ?case
  proof (cases "?p = [0..<27]")
    case True
    then have "k = 1" using Suc.prems(1) by (simp add: Let_def)
    then show ?thesis using c1 map_int_places [OF len] True by (auto simp del: upt_Suc)
  next
    case False
    then obtain k' where k': "turns turn n ?p = Some k'" "k = Suc k'"
      using Suc.prems(1) by (auto simp: Let_def)
    then show ?thesis
      using Suc.IH [OF k'(1) len c1(2)] c1 map_int_places [OF len] False by (auto simp del: upt_Suc)
  qed
qed simp

lemma fill_balls_rep:
  assumes "ring_rep QUEUE_MAXSIZE q (map int [1..<k])" "1 \<le> k" "k \<le> 28"
  shows "\<exists>q'. fill_balls (int k) q = Some q' \<and> ring_rep QUEUE_MAXSIZE q' (map int [1..<28])"
  using assms
proof (induction "28 - k" arbitrary: k q)
  case 0
  then show ?case by (subst fill_balls.simps) simp
next
  case (Suc n)
  then have k: "k < 28" "n = 28 - Suc k" by auto
  obtain q1 where q1: "q_enqueue QUEUE_MAXSIZE q (int k) = Some (0, q1)"
    "ring_rep QUEUE_MAXSIZE q1 (map int [1..<k] @ [int k])"
    using enqueue_ring [OF Suc.prems(1), of "int k"] k(1) Suc.prems(2) by (auto simp: QUEUE_MAXSIZE_def)
  have "map int [1..<Suc k] = map int [1..<k] @ [int k]" using Suc.prems(2) by simp
  then show ?case
    using Suc.hyps(1) [OF k(2), of q1] q1 k(1) Suc.prems(2)
    by (subst fill_balls.simps) (simp add: add.commute)
qed

section \<open>Properties\<close>

text \<open>
  The ball clock with 27 balls stops and prints 33120 minutes (23 days): from any contents of
  the allocated structures the main loop ends, never touching a cell outside a stack or the queue and
  never losing a ball, after exactly 46 half days, having printed the queue once at the start and once
  per half day.
\<close>
theorem ball_clock_prints_33120:
  assumes "length m1 = STACK_MAXSIZE" "length m2 = STACK_MAXSIZE" "length m3 = STACK_MAXSIZE"
    "length m4 = QUEUE_MAXSIZE"
  shows "\<exists>out. clock_main (Some m1) (Some m2) (Some m3) (Some m4) = Some (33120, out) \<and> length out = 47"
proof -
  obtain h f m where st: "st_create (Some m1) = Some h" "stack_rep STACK_MAXSIZE h []"
    "st_create (Some m2) = Some f" "stack_rep STACK_MAXSIZE f []"
    "st_create (Some m3) = Some m" "stack_rep STACK_MAXSIZE m []"
    using create_rep assms(1-3) by metis
  obtain q where q: "q_create (Some m4) = Some q" "ring_rep QUEUE_MAXSIZE q []"
    using ring_create [OF assms(4)] by (auto simp: QUEUE_MAXSIZE_def)
  obtain q1 where q1: "fill_balls 1 q = Some q1" "ring_rep QUEUE_MAXSIZE q1 (map int [1..<28])"
    using fill_balls_rep [of q 1] q(2) by auto
  let ?c = "\<lparr>cqueue = q1, one_min = m, five_min = f, one_hour = h, ct = 0, ctime = 0, cout = [map int [1..<28]]\<rparr>"
  have "map (\<lambda>i. int i + 1) [0..<27] = map int [1..<28]" using map_int_places [of "[0..<27]"] by simp
  then have "clock_rep ?c (map (\<lambda>i. int i + 1) [0..<27], [], [], [])"
    using q1 st by (simp add: clock_rep_def del: upt_Suc)
  then obtain c1 where "clock_loop ?c = Some c1" "ctime c1 = 33120" "length (cout c1) = 47"
    using clock_turns [OF turns_46, of ?c] by (auto simp del: upt_Suc)
  then show ?thesis
    using st q q1 travel_ring [OF q1(2)] by (simp add: clock_main_def del: upt_Suc)
qed

theorem ball_clock_prints_33120_witness:
  "\<exists>out. clock_main (Some (replicate 11 0)) (Some (replicate 11 0)) (Some (replicate 11 0)) (Some (replicate 28 0)) =
     Some (33120, out) \<and> length out = 47"
  by (rule ball_clock_prints_33120) (simp_all add: STACK_MAXSIZE_def QUEUE_MAXSIZE_def)

fun ball_bag :: "int balls \<Rightarrow> int multiset" where
  "ball_bag (q, m, f, h) = mset (q @ m @ f @ h)"

lemma minute_bag: "minute s = Some (e, s1) \<Longrightarrow> ball_bag s1 = ball_bag s"
  by (cases s rule: minute.cases) (auto split: if_splits)

lemma minute_total: "all_balls s \<Longrightarrow> minute s \<noteq> None"
  by (cases s rule: minute.cases) (auto simp: all_balls_def)

text \<open>
  No ball is lost or doubled: a minute of the clock, from any state whose containers hold 27
  balls within the limits of the stacks, is defined, advances the time by one, and leaves the
  containers within their limits with the same balls.
\<close>
theorem clock_minute_keeps_balls:
  assumes "clock_rep c s" "all_balls s"
  shows "\<exists>stop c1 s1. clock_minute c = Some (stop, c1) \<and> clock_rep c1 s1 \<and> all_balls s1 \<and>
    ball_bag s1 = ball_bag s \<and> ctime c1 = ctime c + 1"
proof -
  obtain e s1 where m: "minute s = Some (e, s1)" using minute_total [OF assms(2)] by auto
  then show ?thesis
    using clock_minute_rep [OF assms m] minute_all_balls [OF m assms(2)] minute_bag [OF m] by blast
qed

theorem clock_minute_keeps_balls_witness:
  "\<exists>stop c1. clock_minute \<lparr>cqueue = \<lparr>qdata = map int [0..<28], qhead = 0, qtail = 27\<rparr>,
      one_min = \<lparr>sdata = replicate 11 0, top = - 1\<rparr>, five_min = \<lparr>sdata = replicate 11 0, top = - 1\<rparr>,
      one_hour = \<lparr>sdata = replicate 11 0, top = - 1\<rparr>, ct = 0, ctime = 5, cout = []\<rparr> = Some (stop, c1) \<and> ctime c1 = 6"
proof -
  let ?c = "\<lparr>cqueue = \<lparr>qdata = map int [0..<28], qhead = 0, qtail = 27\<rparr>,
      one_min = \<lparr>sdata = replicate 11 0, top = - 1\<rparr>, five_min = \<lparr>sdata = replicate 11 0, top = - 1\<rparr>,
      one_hour = \<lparr>sdata = replicate 11 0, top = - 1\<rparr>, ct = 0, ctime = 5, cout = []\<rparr>"
  have "clock_rep ?c (map int [1..<28], [], [], [])"
    by (simp add: clock_rep_def ring_rep_def stack_rep_def QUEUE_MAXSIZE_def STACK_MAXSIZE_def del: upt_Suc)
  moreover have "all_balls (map int [1..<28], [], [], [])" by (simp add: all_balls_def)
  ultimately show ?thesis using clock_minute_keeps_balls [of ?c] by fastforce
qed

end
