(* ===== verification/LinkedList.thy ===== *)
theory LinkedList
  imports Prelude
begin

text \<open>
  The circular doubly linked list \<open>llist.c\<close> of \<open>1.zhang/3.datastruct/stack/example\<close> (also in
  \<open>stack/bolan\<close>), over an explicit heap, and the stack \<open>linkstack.c\<close> on top of it.  The heap maps
  addresses to list nodes and to data blocks; \<open>calloc\<close> takes the next address and fails beyond a
  limit, \<open>free\<close> removes the object, and any access through a pointer to nothing is undefined
  (\<open>None\<close>).  A block holds a value of type \<open>'v\<close>, the \<open>size\<close> bytes the code copies.  The list is
  shown to implement operations on lists, with everything outside its own nodes unchanged.
\<close>

section \<open>The heap\<close>

record node_st =
  ndata :: nat
  nprev :: nat
  nnext :: nat

record 'v heap =
  nodes :: "nat \<Rightarrow> node_st option"
  blocks :: "nat \<Rightarrow> 'v option"
  brk :: nat
  lim :: nat

datatype status = FAIL | OKAY
datatype way = FRONT | REAR

definition calloc :: "'v heap \<Rightarrow> nat \<times> 'v heap" where
  "calloc h = (if brk h < lim h then (brk h, h\<lparr>brk := brk h + 1\<rparr>) else (0, h))"

definition put_node :: "nat \<Rightarrow> node_st \<Rightarrow> 'v heap \<Rightarrow> 'v heap" where
  "put_node a n h = h\<lparr>nodes := (nodes h)(a \<mapsto> n)\<rparr>"

definition put_block :: "nat \<Rightarrow> 'v \<Rightarrow> 'v heap \<Rightarrow> 'v heap" where
  "put_block a v h = h\<lparr>blocks := (blocks h)(a \<mapsto> v)\<rparr>"

definition free_node :: "nat \<Rightarrow> 'v heap \<Rightarrow> 'v heap option" where
  "free_node a h = (if nodes h a = None then None else Some (h\<lparr>nodes := (nodes h)(a := None)\<rparr>))"

definition free_block :: "nat \<Rightarrow> 'v heap \<Rightarrow> 'v heap option" where
  "free_block a h = (if blocks h a = None then None else Some (h\<lparr>blocks := (blocks h)(a := None)\<rparr>))"

definition set_next :: "nat \<Rightarrow> nat \<Rightarrow> 'v heap \<Rightarrow> 'v heap option" where
  "set_next a v h = map_option (\<lambda>n. put_node a (n\<lparr>nnext := v\<rparr>) h) (nodes h a)"

definition set_prev :: "nat \<Rightarrow> nat \<Rightarrow> 'v heap \<Rightarrow> 'v heap option" where
  "set_prev a v h = map_option (\<lambda>n. put_node a (n\<lparr>nprev := v\<rparr>) h) (nodes h a)"

lemma put_fields [simp]:
  "brk (put_node a n h) = brk h" "lim (put_node a n h) = lim h" "blocks (put_node a n h) = blocks h"
  "brk (put_block b v h) = brk h" "lim (put_block b v h) = lim h" "nodes (put_block b v h) = nodes h"
  "nodes (put_node a n h) = (nodes h)(a \<mapsto> n)" "blocks (put_block b v h) = (blocks h)(b \<mapsto> v)"
  by (simp_all add: put_node_def put_block_def)

section \<open>The list\<close>

text \<open>\<open>init_llist\<close>: the head node lives at the address of the list.\<close>

definition init_llist :: "'v heap \<Rightarrow> nat \<times> 'v heap" where
  "init_llist h = (let (me, h1) = calloc h in
     if me = 0 then (0, h1) else (me, put_node me \<lparr>ndata = 0, nprev = me, nnext = me\<rparr> h1))"

definition insert_llist :: "nat \<Rightarrow> 'v \<Rightarrow> way \<Rightarrow> 'v heap \<Rightarrow> (status \<times> 'v heap) option" where
  "insert_llist ptr data way h = (let (new, h1) = calloc h in
     if new = 0 then Some (FAIL, h1)
     else do {
       let h2 = put_node new \<lparr>ndata = 0, nprev = 0, nnext = 0\<rparr> h1;
       _ \<leftarrow> nodes h2 ptr;
       let (d, h3) = calloc h2;
       if d = 0 then do { h4 \<leftarrow> free_node new h3; Some (FAIL, h4) }
       else do {
         let h4 = put_block d data h3;
         hd \<leftarrow> nodes h4 ptr;
         let n = (if way = FRONT then \<lparr>ndata = d, nprev = ptr, nnext = nnext hd\<rparr>
                  else \<lparr>ndata = d, nprev = nprev hd, nnext = ptr\<rparr>);
         let h5 = put_node new n h4;
         h6 \<leftarrow> set_next (nprev n) new h5;
         n1 \<leftarrow> nodes h6 new;
         h7 \<leftarrow> set_prev (nnext n1) new h6;
         Some (OKAY, h7) } })"

text \<open>The unlinking shared by \<open>delete_llist\<close> and \<open>fetch_llist\<close>: the two assignments, then \<open>free\<close> of the
  data and of the node.\<close>

definition unlink_free :: "nat \<Rightarrow> 'v heap \<Rightarrow> 'v heap option" where
  "unlink_free cur h = do {
     n \<leftarrow> nodes h cur;
     h1 \<leftarrow> set_next (nprev n) (nnext n) h;
     n1 \<leftarrow> nodes h1 cur;
     h2 \<leftarrow> set_prev (nnext n1) (nprev n1) h1;
     h3 \<leftarrow> free_block (ndata n) h2;
     free_node cur h3 }"

text \<open>The scans; \<open>cmp\<close> is \<open>!cmp(key, data)\<close>.  \<open>None\<close> also stands for a scan that does not end.\<close>

partial_function (option) scan_prev :: "nat \<Rightarrow> ('v \<Rightarrow> bool) \<Rightarrow> 'v heap \<Rightarrow> nat \<Rightarrow> nat option" where
  "scan_prev ptr cmp h cur =
     (if cur = ptr then Some cur
      else do {
        n \<leftarrow> nodes h cur;
        v \<leftarrow> blocks h (ndata n);
        if cmp v then Some cur else scan_prev ptr cmp h (nprev n) })"

definition delete_llist :: "nat \<Rightarrow> ('v \<Rightarrow> bool) \<Rightarrow> 'v heap \<Rightarrow> (status \<times> 'v heap) option" where
  "delete_llist ptr cmp h = do {
     hd \<leftarrow> nodes h ptr;
     cur \<leftarrow> scan_prev ptr cmp h (nprev hd);
     if cur = ptr then Some (FAIL, h)
     else do { h1 \<leftarrow> unlink_free cur h; Some (OKAY, h1) } }"

text \<open>\<open>search_llist\<close> returns the address of the data, 0 if there is none.\<close>

definition search_llist :: "nat \<Rightarrow> ('v \<Rightarrow> bool) \<Rightarrow> 'v heap \<Rightarrow> nat option" where
  "search_llist ptr cmp h = do {
     hd \<leftarrow> nodes h ptr;
     cur \<leftarrow> scan_prev ptr cmp h (nprev hd);
     if cur = ptr then Some 0 else map_option ndata (nodes h cur) }"

partial_function (option) fetch_loop ::
  "nat \<Rightarrow> ('v \<Rightarrow> bool) \<Rightarrow> 'v heap \<Rightarrow> nat \<Rightarrow> (status \<times> 'v option \<times> 'v heap) option" where
  "fetch_loop ptr cmp h tmp =
     (if tmp = ptr then Some (FAIL, None, h)
      else do {
        n \<leftarrow> nodes h tmp;
        v \<leftarrow> blocks h (ndata n);
        if cmp v then do { h1 \<leftarrow> unlink_free tmp h; Some (OKAY, Some v, h1) }
        else fetch_loop ptr cmp h (nnext n) })"

definition fetch_llist :: "nat \<Rightarrow> ('v \<Rightarrow> bool) \<Rightarrow> 'v heap \<Rightarrow> (status \<times> 'v option \<times> 'v heap) option" where
  "fetch_llist ptr cmp h = do { hd \<leftarrow> nodes h ptr; fetch_loop ptr cmp h (nnext hd) }"

definition get_firstnode :: "nat \<Rightarrow> 'v heap \<Rightarrow> (status \<times> 'v option) option" where
  "get_firstnode ptr h = do {
     hd \<leftarrow> nodes h ptr;
     if nnext hd = ptr then Some (FAIL, None)
     else do { n \<leftarrow> nodes h (nnext hd); v \<leftarrow> blocks h (ndata n); Some (OKAY, Some v) } }"

text \<open>\<open>traval_llist\<close> and \<open>get_listnum\<close>: the data visited, in order, and their number.\<close>

partial_function (option) traval_loop :: "nat \<Rightarrow> 'v heap \<Rightarrow> nat \<Rightarrow> 'v list \<Rightarrow> 'v list option" where
  "traval_loop ptr h cur out =
     (if cur = ptr then Some out
      else do {
        n \<leftarrow> nodes h cur;
        v \<leftarrow> blocks h (ndata n);
        traval_loop ptr h (nnext n) (out @ [v]) })"

definition traval_llist :: "nat \<Rightarrow> 'v heap \<Rightarrow> 'v list option" where
  "traval_llist ptr h = do { hd \<leftarrow> nodes h ptr; traval_loop ptr h (nnext hd) [] }"

partial_function (option) num_loop :: "nat \<Rightarrow> 'v heap \<Rightarrow> nat \<Rightarrow> nat \<Rightarrow> nat option" where
  "num_loop ptr h cur r =
     (if cur = ptr then Some r
      else do { n \<leftarrow> nodes h cur; num_loop ptr h (nnext n) (r + 1) })"

definition get_listnum :: "nat \<Rightarrow> 'v heap \<Rightarrow> nat option" where
  "get_listnum ptr h = do { hd \<leftarrow> nodes h ptr; num_loop ptr h (nnext hd) 0 }"

definition empty_llist :: "nat \<Rightarrow> 'v heap \<Rightarrow> bool option" where
  "empty_llist ptr h = map_option (\<lambda>hd. nnext hd = ptr \<and> nprev hd = ptr) (nodes h ptr)"

partial_function (option) destroy_loop :: "nat \<Rightarrow> 'v heap \<Rightarrow> nat \<Rightarrow> 'v heap option" where
  "destroy_loop ptr h cur =
     (if cur = ptr then Some h
      else do {
        n \<leftarrow> nodes h cur;
        h1 \<leftarrow> free_block (ndata n) h;
        h2 \<leftarrow> free_node cur h1;
        destroy_loop ptr h2 (nnext n) })"

definition destroy_llist :: "nat \<Rightarrow> 'v heap \<Rightarrow> 'v heap option" where
  "destroy_llist ptr h = do {
     hd \<leftarrow> nodes h ptr;
     h1 \<leftarrow> destroy_loop ptr h (nnext hd);
     free_node ptr h1 }"

text \<open>The loop of \<open>reverse_llist\<close>; the local buffer \<open>data\<close> keeps its last value.\<close>

partial_function (option) reverse_loop :: "nat \<Rightarrow> nat \<Rightarrow> 'v heap \<Rightarrow> 'v option \<Rightarrow> 'v heap option" where
  "reverse_loop ptr new h buf = do {
     hd \<leftarrow> nodes h ptr;
     if nnext hd \<noteq> ptr then do {
       (_, v, h1) \<leftarrow> fetch_llist ptr (\<lambda>_. True) h;
       let buf1 = (case v of None \<Rightarrow> buf | Some x \<Rightarrow> Some x);
       x \<leftarrow> buf1;
       (_, h2) \<leftarrow> insert_llist new x FRONT h1;
       reverse_loop ptr new h2 buf1 }
     else Some h }"

text \<open>\<open>ok\<close> says that the \<open>malloc\<close> of the local buffer succeeds; the result is the new \<open>*ptr\<close>.\<close>

definition reverse_llist :: "nat \<Rightarrow> bool \<Rightarrow> 'v heap \<Rightarrow> (nat \<times> 'v heap) option" where
  "reverse_llist ptr ok h = do {
     _ \<leftarrow> nodes h ptr;
     let (new, h1) = init_llist h;
     if \<not> ok then Some (ptr, h1)
     else do {
       h2 \<leftarrow> reverse_loop ptr new h1 None;
       h3 \<leftarrow> free_node ptr h2;
       Some (new, h3) } }"

partial_function (option) reverse_r :: "nat \<Rightarrow> 'v heap \<Rightarrow> 'v heap option" where
  "reverse_r ptr h = do {
     hd \<leftarrow> nodes h ptr;
     if nnext hd = ptr then Some h
     else do {
       (_, v, h1) \<leftarrow> fetch_llist ptr (\<lambda>_. True) h;
       x \<leftarrow> v;
       h2 \<leftarrow> reverse_r ptr h1;
       (_, h3) \<leftarrow> insert_llist ptr x REAR h2;
       Some h3 } }"

section \<open>The stack on top of it\<close>

definition push_stack :: "nat \<Rightarrow> 'v \<Rightarrow> 'v heap \<Rightarrow> (status \<times> 'v heap) option" where
  "push_stack st v h = insert_llist st v FRONT h"

definition pop_stack :: "nat \<Rightarrow> 'v heap \<Rightarrow> (status \<times> 'v option \<times> 'v heap) option" where
  "pop_stack st h = fetch_llist st (\<lambda>_. True) h"

definition empty_stack :: "nat \<Rightarrow> 'v heap \<Rightarrow> bool option" where
  "empty_stack st h = empty_llist st h"

definition get_top :: "nat \<Rightarrow> 'v heap \<Rightarrow> (status \<times> 'v option) option" where
  "get_top st h = get_firstnode st h"

definition destroy_stack :: "nat \<Rightarrow> 'v heap \<Rightarrow> 'v heap option" where
  "destroy_stack st h = destroy_llist st h"

definition init_stack :: "'v heap \<Rightarrow> nat \<times> 'v heap" where
  "init_stack h = init_llist h"

section \<open>Chains of nodes\<close>

definition nx :: "'v heap \<Rightarrow> nat \<Rightarrow> nat option" where "nx h a = map_option nnext (nodes h a)"
definition pv :: "'v heap \<Rightarrow> nat \<Rightarrow> nat option" where "pv h a = map_option nprev (nodes h a)"
definition dt :: "'v heap \<Rightarrow> nat \<Rightarrow> nat option" where "dt h a = map_option ndata (nodes h a)"

fun linked :: "(nat \<Rightarrow> nat option) \<Rightarrow> (nat \<Rightarrow> nat option) \<Rightarrow> nat list \<Rightarrow> bool" where
  "linked n p (a # b # r) \<longleftrightarrow> n a = Some b \<and> p b = Some a \<and> linked n p (b # r)"
| "linked n p _ \<longleftrightarrow> True"

lemma linked_cong:
  "\<forall>a \<in> set (butlast L). n' a = n a \<Longrightarrow> \<forall>b \<in> set (tl L). p' b = p b \<Longrightarrow> linked n' p' L = linked n p L"
proof (induction n p L rule: linked.induct)
  case (1 n p a b r)
  then have "linked n' p' (b # r) = linked n p (b # r)" by (cases r) auto
  then show ?case using 1 by auto
qed auto

lemma linked_append: "linked n p (xs @ a # ys) \<longleftrightarrow> linked n p (xs @ [a]) \<and> linked n p (a # ys)"
proof (induction xs)
  case (Cons x xs)
  then show ?case by (cases xs) auto
qed simp

lemma linked_upd_n: "a \<notin> set (butlast L) \<Longrightarrow> linked (n(a := x)) p L = linked n p L"
  by (rule linked_cong) auto

lemma linked_upd_p: "b \<notin> set (tl L) \<Longrightarrow> linked n (p(b := x)) L = linked n p L"
  by (rule linked_cong) auto

lemma in_tl: "x \<in> set (tl L) \<Longrightarrow> x \<in> set L"
  by (cases L) auto

text \<open>Linking a new node in, and unlinking one, by the code's two assignments.\<close>

lemma splice_in:
  assumes "linked n p (xs @ a # b # ys)" "distinct (butlast (xs @ a # b # ys))" "distinct (tl (xs @ a # b # ys))"
    and "c \<notin> set (xs @ a # b # ys)"
  shows "linked (n(c := Some b, a := Some c)) (p(c := Some a, b := Some c)) (xs @ a # c # b # ys)"
proof -
  let ?n = "n(c := Some b, a := Some c)" and ?p = "p(c := Some a, b := Some c)"
  have l: "linked n p (xs @ [a])" "linked n p (b # ys)"
    using assms(1) linked_append [of n p xs a "b # ys"] by auto
  have "a \<notin> set (butlast (xs @ [a]))" "a \<notin> set (butlast (b # ys))"
    using assms(2) by (auto simp: butlast_append)
  moreover have "b \<notin> set (tl (xs @ [a]))" "b \<notin> set (tl (b # ys))" using assms(3) by (cases xs; auto)+
  moreover have "c \<notin> set (butlast (xs @ [a]))" "c \<notin> set (butlast (b # ys))"
    "c \<notin> set (tl (xs @ [a]))" "c \<notin> set (tl (b # ys))"
    using assms(4) by (auto dest: in_set_butlastD in_tl)
  ultimately have "linked ?n ?p (xs @ [a])" "linked ?n ?p (b # ys)"
    using l by (simp_all add: linked_upd_n linked_upd_p del: butlast.simps list.sel)
  then show ?thesis
    using assms(4) linked_append [of ?n ?p xs a "c # b # ys"] by auto
qed

lemma splice_out:
  assumes "linked n p (xs @ a # c # b # ys)" "distinct (butlast (xs @ a # c # b # ys))"
    "distinct (tl (xs @ a # c # b # ys))"
  shows "linked (n(a := Some b)) (p(b := Some a)) (xs @ a # b # ys)"
proof -
  let ?n = "n(a := Some b)" and ?p = "p(b := Some a)"
  have l: "linked n p (xs @ [a])" "linked n p (b # ys)"
    using assms(1) linked_append [of n p xs a "c # b # ys"] by auto
  have "a \<notin> set (butlast (xs @ [a]))" "a \<notin> set (butlast (b # ys))"
    using assms(2) by (auto simp: butlast_append)
  moreover have "b \<notin> set (tl (xs @ [a]))" "b \<notin> set (tl (b # ys))" using assms(3) by (cases xs; auto)+
  ultimately have "linked ?n ?p (xs @ [a])" "linked ?n ?p (b # ys)"
    using l by (simp_all add: linked_upd_n linked_upd_p del: butlast.simps list.sel)
  then show ?thesis using linked_append [of ?n ?p xs a "b # ys"] by auto
qed

section \<open>The heap holds a list\<close>

type_synonym 'v cell = "nat \<times> nat \<times> 'v"

definition cells :: "'v heap \<Rightarrow> 'v cell list \<Rightarrow> bool" where
  "cells h L \<longleftrightarrow> (\<forall>(a, d, v) \<in> set L. dt h a = Some d \<and> blocks h d = Some v)"

lemma cellsD: "cells h L \<Longrightarrow> (a, d, v) \<in> set L \<Longrightarrow> dt h a = Some d \<and> blocks h d = Some v"
  by (auto simp: cells_def)

definition node_fp :: "nat \<Rightarrow> 'v cell list \<Rightarrow> nat set" where
  "node_fp ptr L = insert ptr (fst ` set L)"

definition block_fp :: "'v cell list \<Rightarrow> nat set" where
  "block_fp L = (\<lambda>(a, d, v). d) ` set L"

definition llist_rep :: "'v heap \<Rightarrow> nat \<Rightarrow> 'v cell list \<Rightarrow> bool" where
  "llist_rep h ptr L \<longleftrightarrow> linked (nx h) (pv h) (ptr # map fst L @ [ptr]) \<and> distinct (ptr # map fst L) \<and>
     distinct (map (\<lambda>(a, d, v). d) L) \<and> cells h L \<and>
     node_fp ptr L \<subseteq> {1..<brk h} \<and> block_fp L \<subseteq> {1..<brk h}"

definition vals :: "'v cell list \<Rightarrow> 'v list" where
  "vals L = map (\<lambda>(a, d, v). v) L"

text \<open>\<open>h'\<close> differs from \<open>h\<close> only in the nodes \<open>N\<close>, the blocks \<open>B\<close> and new addresses.\<close>

definition unch :: "nat set \<Rightarrow> nat set \<Rightarrow> 'v heap \<Rightarrow> 'v heap \<Rightarrow> bool" where
  "unch N B h h' \<longleftrightarrow> brk h \<le> brk h' \<and> lim h' = lim h \<and>
     (\<forall>a < brk h. a \<notin> N \<longrightarrow> nodes h' a = nodes h a) \<and> (\<forall>d < brk h. d \<notin> B \<longrightarrow> blocks h' d = blocks h d)"

lemma unch_refl [simp]: "unch N B h h"
  by (simp add: unch_def)

lemma unch_mono: "unch N B h h' \<Longrightarrow> N \<subseteq> N' \<Longrightarrow> B \<subseteq> B' \<Longrightarrow> unch N' B' h h'"
  by (auto simp: unch_def)

lemma unch_trans:
  assumes "unch N B h h1" "unch N1 B1 h1 h2" "N1 \<subseteq> N \<union> {brk h..}" "B1 \<subseteq> B \<union> {brk h..}"
  shows "unch N B h h2"
proof -
  have "nodes h2 a = nodes h a" if "a < brk h" "a \<notin> N" for a
  proof -
    have "a \<notin> N1" using assms(3) that by auto
    then show ?thesis using assms(1,2) that by (simp add: unch_def)
  qed
  moreover have "blocks h2 d = blocks h d" if "d < brk h" "d \<notin> B" for d
  proof -
    have "d \<notin> B1" using assms(4) that by auto
    then show ?thesis using assms(1,2) that by (simp add: unch_def)
  qed
  ultimately show ?thesis using assms(1,2) by (simp add: unch_def)
qed

lemma rep_frame:
  assumes "llist_rep h ptr L" "unch N B h h'" "node_fp ptr L \<inter> N = {}" "block_fp L \<inter> B = {}"
  shows "llist_rep h' ptr L"
proof -
  have fp: "node_fp ptr L \<subseteq> {1..<brk h}" "block_fp L \<subseteq> {1..<brk h}"
    using assms(1) by (simp_all add: llist_rep_def)
  have same: "nodes h' a = nodes h a" if "a \<in> node_fp ptr L" for a
  proof -
    have "a < brk h" "a \<notin> N" using fp(1) that assms(3) by auto
    then show ?thesis using assms(2) by (simp add: unch_def)
  qed
  have sameb: "blocks h' d = blocks h d" if "d \<in> block_fp L" for d
  proof -
    have "d < brk h" "d \<notin> B" using fp(2) that assms(4) by auto
    then show ?thesis using assms(2) by (simp add: unch_def)
  qed
  let ?C = "ptr # map fst L @ [ptr]"
  have "set ?C = node_fp ptr L" by (auto simp: node_fp_def)
  then have "\<forall>a \<in> set (butlast ?C). a \<in> node_fp ptr L" "\<forall>a \<in> set (tl ?C). a \<in> node_fp ptr L"
    by (metis in_set_butlastD, metis in_tl)
  then have n1: "\<forall>a \<in> set (butlast ?C). nx h' a = nx h a" and n2: "\<forall>a \<in> set (tl ?C). pv h' a = pv h a"
    using same by (auto simp only: nx_def pv_def)
  have "linked (nx h) (pv h) ?C" using assms(1) by (simp only: llist_rep_def)
  then have "linked (nx h') (pv h') ?C" using linked_cong [OF n1 n2] by (simp only:)
  moreover have "cells h' L"
    unfolding cells_def
  proof safe
    fix a d v assume m: "(a, d, v) \<in> set L"
    then have "a \<in> node_fp ptr L" "d \<in> block_fp L" by (force simp: node_fp_def block_fp_def)+
    moreover have "dt h a = Some d" "blocks h d = Some v"
      using assms(1) m by (auto simp: llist_rep_def cells_def)
    ultimately show "dt h' a = Some d" "blocks h' d = Some v" using same sameb by (simp_all add: dt_def)
  qed
  ultimately show ?thesis
    using assms(1,2) by (auto simp: llist_rep_def unch_def)
qed

text \<open>The neighbours of a position in the ring.\<close>

definition left_of :: "nat \<Rightarrow> 'v cell list \<Rightarrow> nat" where
  "left_of ptr L1 = last (ptr # map fst L1)"

definition right_of :: "nat \<Rightarrow> 'v cell list \<Rightarrow> nat" where
  "right_of ptr L2 = hd (map fst L2 @ [ptr])"

lemma ring_split:
  "ptr # map fst (L1 @ L2) @ [ptr] =
   butlast (ptr # map fst L1) @ left_of ptr L1 # right_of ptr L2 # tl (map fst L2 @ [ptr])"
proof -
  have "ptr # map fst L1 = butlast (ptr # map fst L1) @ [left_of ptr L1]"
    by (simp add: left_of_def append_butlast_last_id del: last.simps butlast.simps)
  moreover have "map fst L2 @ [ptr] = right_of ptr L2 # tl (map fst L2 @ [ptr])"
    by (cases L2) (auto simp: right_of_def)
  ultimately show ?thesis by (metis append.assoc append_Cons append_Nil map_append)
qed

lemma ring_split_mid:
  "ptr # map fst (L1 @ (c, d, v) # L2) @ [ptr] =
   butlast (ptr # map fst L1) @ left_of ptr L1 # c # right_of ptr L2 # tl (map fst L2 @ [ptr])"
proof -
  have "ptr # map fst L1 = butlast (ptr # map fst L1) @ [left_of ptr L1]"
    by (simp add: left_of_def append_butlast_last_id del: last.simps butlast.simps)
  moreover have "map fst L2 @ [ptr] = right_of ptr L2 # tl (map fst L2 @ [ptr])"
    by (cases L2) (auto simp: right_of_def)
  ultimately show ?thesis by (metis append.assoc append_Cons append_Nil map_append list.simps(9) fst_conv)
qed

lemma left_of_in: "left_of ptr L1 \<in> insert ptr (fst ` set L1)"
  using last_in_set [of "ptr # map fst L1"] by (auto simp: left_of_def)

lemma right_of_in: "right_of ptr L2 \<in> insert ptr (fst ` set L2)"
  by (cases L2) (auto simp: right_of_def)

lemma ring_distinct:
  assumes "distinct (ptr # map fst L)"
  shows "distinct (butlast (ptr # map fst L @ [ptr]))" "distinct (tl (ptr # map fst L @ [ptr]))"
  using assms by (auto simp: butlast_append)

lemma rep_insert:
  assumes rep: "llist_rep h ptr (L1 @ L2)" and new: "brk h \<le> c" "c < brk h'" "brk h \<le> d" "d < brk h'" "0 < brk h"
    and nx': "nx h' = (nx h)(c := Some (right_of ptr L2), left_of ptr L1 := Some c)"
    and pv': "pv h' = (pv h)(c := Some (left_of ptr L1), right_of ptr L2 := Some c)"
    and dt': "dt h' = (dt h)(c := Some d)" and bl': "blocks h' = (blocks h)(d := Some v)"
  shows "llist_rep h' ptr (L1 @ (c, d, v) # L2)"
proof -
  note r = rep [unfolded llist_rep_def]
  have fresh: "c \<notin> node_fp ptr (L1 @ L2)" "d \<notin> block_fp (L1 @ L2)" using r new by auto
  have "c \<notin> set (ptr # map fst (L1 @ L2) @ [ptr])" using fresh by (auto simp: node_fp_def)
  moreover have "linked (nx h) (pv h) (ptr # map fst (L1 @ L2) @ [ptr])"
    "distinct (butlast (ptr # map fst (L1 @ L2) @ [ptr]))" "distinct (tl (ptr # map fst (L1 @ L2) @ [ptr]))"
    using r ring_distinct [of ptr "L1 @ L2"] by blast+
  ultimately have "linked (nx h') (pv h') (ptr # map fst (L1 @ (c, d, v) # L2) @ [ptr])"
    unfolding nx' pv' ring_split_mid [of ptr L1 c d v L2] ring_split [of ptr L1 L2] by (intro splice_in)
  moreover have "distinct (ptr # map fst (L1 @ (c, d, v) # L2))"
    using r fresh by (auto simp: node_fp_def)
  moreover have "distinct (map (\<lambda>(a, d, v). d) (L1 @ (c, d, v) # L2))"
    using r fresh by (simp add: block_fp_def image_Un)
  moreover have "cells h' (L1 @ (c, d, v) # L2)"
    unfolding cells_def
  proof safe
    fix a e w assume m: "(a, e, w) \<in> set (L1 @ (c, d, v) # L2)"
    show "dt h' a = Some e" "blocks h' e = Some w"
    proof (atomize (full), cases "(a, e, w) = (c, d, v)")
      case False
      then have m: "(a, e, w) \<in> set (L1 @ L2)" using m by auto
      then have "a \<noteq> c" "e \<noteq> d" using fresh by (force simp: node_fp_def block_fp_def)+
      then show "dt h' a = Some e \<and> blocks h' e = Some w"
        using r cellsD [OF _ m, of h] by (simp add: dt' bl')
    qed (simp add: dt' bl')
  qed
  moreover have "node_fp ptr (L1 @ (c, d, v) # L2) = insert c (node_fp ptr (L1 @ L2))"
    "block_fp (L1 @ (c, d, v) # L2) = insert d (block_fp (L1 @ L2))"
    by (auto simp: node_fp_def block_fp_def)
  ultimately show ?thesis
    using r new by (auto simp: llist_rep_def)
qed

lemma rep_remove:
  assumes rep: "llist_rep h ptr (L1 @ (c, d, v) # L2)" and b: "brk h' = brk h"
    and nx': "nx h' = (nx h)(left_of ptr L1 := Some (right_of ptr L2), c := None)"
    and pv': "pv h' = (pv h)(right_of ptr L2 := Some (left_of ptr L1), c := None)"
    and dt': "dt h' = (dt h)(c := None)" and bl': "blocks h' = (blocks h)(d := None)"
  shows "llist_rep h' ptr (L1 @ L2)"
proof -
  note r = rep [unfolded llist_rep_def]
  have c: "c \<notin> node_fp ptr (L1 @ L2)" using r by (auto simp: node_fp_def)
  have d: "d \<notin> block_fp (L1 @ L2)" using r by (simp add: block_fp_def image_Un)
  let ?R = "ptr # map fst (L1 @ L2) @ [ptr]"
  have cR: "c \<notin> set ?R" using c by (auto simp: node_fp_def)
  have "linked (nx h) (pv h) (ptr # map fst (L1 @ (c, d, v) # L2) @ [ptr])"
    "distinct (butlast (ptr # map fst (L1 @ (c, d, v) # L2) @ [ptr]))"
    "distinct (tl (ptr # map fst (L1 @ (c, d, v) # L2) @ [ptr]))"
    using r ring_distinct [of ptr "L1 @ (c, d, v) # L2"] by blast+
  then have "linked ((nx h)(left_of ptr L1 := Some (right_of ptr L2))) ((pv h)(right_of ptr L2 := Some (left_of ptr L1))) ?R"
    unfolding ring_split_mid [of ptr L1 c d v L2] ring_split [of ptr L1 L2] by (rule splice_out)
  moreover have "c \<notin> set (butlast ?R)" "c \<notin> set (tl ?R)" using cR by (metis in_set_butlastD, metis in_tl)
  ultimately have "linked (nx h') (pv h') ?R"
    unfolding nx' pv' by (metis linked_upd_n linked_upd_p)
  moreover have "cells h' (L1 @ L2)"
    unfolding cells_def
  proof safe
    fix a e w assume m: "(a, e, w) \<in> set (L1 @ L2)"
    then have "a \<noteq> c" "e \<noteq> d" using c d by (force simp: node_fp_def block_fp_def)+
    then show "dt h' a = Some e" "blocks h' e = Some w"
      using r cellsD [of h "L1 @ (c, d, v) # L2" a e w] m by (auto simp: dt' bl')
  qed
  moreover have "node_fp ptr (L1 @ L2) \<subseteq> node_fp ptr (L1 @ (c, d, v) # L2)"
    "block_fp (L1 @ L2) \<subseteq> block_fp (L1 @ (c, d, v) # L2)"
    unfolding node_fp_def block_fp_def by (force, intro image_mono, simp, blast)
  ultimately show ?thesis
    using r b by (auto simp: llist_rep_def)
qed

section \<open>What the operations do\<close>

lemma rep_node: "llist_rep h ptr L \<Longrightarrow> a \<in> node_fp ptr L \<Longrightarrow> nodes h a \<noteq> None"
proof -
  assume rep: "llist_rep h ptr L" and a: "a \<in> node_fp ptr L"
  show ?thesis
  proof (cases "a = ptr")
    case True
    have "linked (nx h) (pv h) (ptr # map fst L @ [ptr])" using rep by (simp add: llist_rep_def)
    then have "nx h ptr \<noteq> None" by (cases L) auto
    then show ?thesis using True by (simp add: nx_def)
  next
    case False
    then obtain d v where "(a, d, v) \<in> set L" using a by (auto simp: node_fp_def)
    then have "dt h a = Some d" using rep cellsD by (force simp: llist_rep_def)
    then show ?thesis by (auto simp: dt_def)
  qed
qed

lemma rep_next:
  assumes "llist_rep h ptr (L1 @ L2)"
  shows "nx h (left_of ptr L1) = Some (right_of ptr L2)" "pv h (right_of ptr L2) = Some (left_of ptr L1)"
proof -
  have "linked (nx h) (pv h) (ptr # map fst (L1 @ L2) @ [ptr])" using assms by (simp only: llist_rep_def)
  then have "linked (nx h) (pv h) (left_of ptr L1 # right_of ptr L2 # tl (map fst L2 @ [ptr]))"
    unfolding ring_split using linked_append by blast
  then show "nx h (left_of ptr L1) = Some (right_of ptr L2)" "pv h (right_of ptr L2) = Some (left_of ptr L1)" by auto
qed

lemma right_of_Cons [simp]: "right_of ptr ((a, d, v) # L) = a"
  by (simp add: right_of_def)

lemma right_of_Nil [simp]: "right_of ptr [] = ptr"
  by (simp add: right_of_def)

lemma left_of_Nil [simp]: "left_of ptr [] = ptr"
  by (simp add: left_of_def)

lemma left_of_snoc [simp]: "left_of ptr (L @ [(a, d, v)]) = a"
  by (simp add: left_of_def)

lemma init_llist_rep:
  assumes "0 < brk h" "brk h < lim h"
  shows "\<exists>h'. init_llist h = (brk h, h') \<and> llist_rep h' (brk h) [] \<and> brk h' = Suc (brk h) \<and> unch {} {} h h'"
  using assms
  by (auto simp: init_llist_def calloc_def Let_def llist_rep_def put_node_def nx_def pv_def cells_def
      node_fp_def block_fp_def unch_def)

lemma init_llist_fail: "\<not> brk h < lim h \<Longrightarrow> init_llist h = (0, h)"
  by (simp add: init_llist_def calloc_def)

text \<open>The three assignments that link a node in, from any heap in which its neighbours are nodes.\<close>

lemma link_new:
  assumes "nodes h a \<noteq> None" "nodes h b \<noteq> None" "c \<noteq> a" "c \<noteq> b"
  shows "\<exists>h'. (do { h6 \<leftarrow> set_next a c (put_node c \<lparr>ndata = d, nprev = a, nnext = b\<rparr> h);
                   n1 \<leftarrow> nodes h6 c;
                   h7 \<leftarrow> set_prev (nnext n1) c h6;
                   Some (OKAY, h7) }) = Some (OKAY, h') \<and>
     nx h' = (nx h)(c := Some b, a := Some c) \<and> pv h' = (pv h)(c := Some a, b := Some c) \<and>
     dt h' = (dt h)(c := Some d) \<and> blocks h' = blocks h \<and> brk h' = brk h \<and> lim h' = lim h \<and>
     (\<forall>x. x \<notin> {a, b, c} \<longrightarrow> nodes h' x = nodes h x)"
  using assms
  by (auto simp: set_next_def set_prev_def put_node_def nx_def pv_def dt_def fun_eq_iff)

definition two_cells :: "'v heap \<Rightarrow> bool" where
  "two_cells h \<longleftrightarrow> brk h + 2 \<le> lim h"

lemma insert_llist_rep:
  assumes rep: "llist_rep h ptr (L1 @ L2)" and room: "two_cells h"
    and pos: "way = FRONT \<and> L1 = [] \<or> way = REAR \<and> L2 = []"
  shows "\<exists>h'. insert_llist ptr v way h = Some (OKAY, h') \<and>
    llist_rep h' ptr (L1 @ (brk h, Suc (brk h), v) # L2) \<and> brk h' = brk h + 2 \<and>
    unch (node_fp ptr (L1 @ L2)) {} h h'"
proof -
  let ?c = "brk h" and ?d = "Suc (brk h)" and ?a = "left_of ptr L1" and ?b = "right_of ptr L2"
  define h4 where "h4 = put_block ?d v (put_node ?c \<lparr>ndata = 0, nprev = 0, nnext = 0\<rparr> (h\<lparr>brk := brk h + 2\<rparr>))"
  have fp: "?a \<in> node_fp ptr (L1 @ L2)" "?b \<in> node_fp ptr (L1 @ L2)" "ptr \<in> node_fp ptr (L1 @ L2)"
    "node_fp ptr (L1 @ L2) \<subseteq> {1..<brk h}"
    using left_of_in [of ptr L1] right_of_in [of ptr L2] rep by (auto simp: node_fp_def llist_rep_def)
  then have ne: "?c \<noteq> ?a" "?c \<noteq> ?b" "?c \<noteq> ptr" "0 < brk h" by force+
  have nd: "nodes h ?a \<noteq> None" "nodes h ?b \<noteq> None" "nodes h ptr \<noteq> None"
    using fp rep_node [OF rep] by auto
  have h4: "nodes h4 x = (if x = ?c then Some \<lparr>ndata = 0, nprev = 0, nnext = 0\<rparr> else nodes h x)"
    "blocks h4 = (blocks h)(?d \<mapsto> v)" "brk h4 = brk h + 2" "lim h4 = lim h" for x
    by (auto simp: h4_def put_node_def put_block_def)
  have eq: "put_block ?d v ((put_node ?c \<lparr>ndata = 0, nprev = 0, nnext = 0\<rparr> (h\<lparr>brk := Suc (brk h)\<rparr>))\<lparr>brk := Suc (Suc (brk h))\<rparr>) = h4"
    by (simp add: h4_def put_node_def put_block_def)
  obtain hd where hd: "nodes h ptr = Some hd" using nd by auto
  have n: "(if way = FRONT then \<lparr>ndata = ?d, nprev = ptr, nnext = nnext hd\<rparr>
            else \<lparr>ndata = ?d, nprev = nprev hd, nnext = ptr\<rparr>) = \<lparr>ndata = ?d, nprev = ?a, nnext = ?b\<rparr>"
    using pos rep_next [OF rep] hd by (auto simp: nx_def pv_def)
  obtain h' where h': "(do { h6 \<leftarrow> set_next ?a ?c (put_node ?c \<lparr>ndata = ?d, nprev = ?a, nnext = ?b\<rparr> h4);
                   n1 \<leftarrow> nodes h6 ?c;
                   h7 \<leftarrow> set_prev (nnext n1) ?c h6;
                   Some (OKAY, h7) }) = Some (OKAY, h')"
     "nx h' = (nx h4)(?c := Some ?b, ?a := Some ?c)" "pv h' = (pv h4)(?c := Some ?a, ?b := Some ?c)"
     "dt h' = (dt h4)(?c := Some ?d)" "blocks h' = blocks h4" "brk h' = brk h4" "lim h' = lim h4"
     "\<forall>x. x \<notin> {?a, ?b, ?c} \<longrightarrow> nodes h' x = nodes h4 x"
    using link_new [of h4 ?a ?b ?c ?d] nd ne by (auto simp: h4)
  have same: "(nx h4)(?c := x) = (nx h)(?c := x)" "(pv h4)(?c := x) = (pv h)(?c := x)" "(dt h4)(?c := x) = (dt h)(?c := x)" for x
    by (auto simp: nx_def pv_def dt_def h4 fun_eq_iff)
  have "insert_llist ptr v way h = Some (OKAY, h')"
    using h'(1) room hd ne
    by (simp add: insert_llist_def calloc_def two_cells_def Let_def n eq h4)
  moreover have "llist_rep h' ptr (L1 @ (?c, ?d, v) # L2)"
    using h'(2-6) ne unfolding same h4 by (intro rep_insert [OF rep]) auto
  moreover have "nodes h' x = nodes h x" if "x < brk h" "x \<notin> node_fp ptr (L1 @ L2)" for x
  proof -
    have "x \<notin> {?a, ?b, ?c}" using that fp(1,2) by auto
    then show ?thesis using h'(8) h4(1) that(1) by simp
  qed
  then have "unch (node_fp ptr (L1 @ L2)) {} h h'"
    using h'(5-7) by (auto simp: unch_def h4)
  ultimately show ?thesis using h'(6) h4(3) by auto
qed

lemma insert_llist_fail:
  assumes "llist_rep h ptr L" "\<not> two_cells h" "0 < brk h" "nodes h (brk h) = None"
  shows "\<exists>h'. insert_llist ptr v way h = Some (FAIL, h') \<and> llist_rep h' ptr L \<and> unch {} {} h h' \<and> nodes h' = nodes h"
proof -
  obtain hd where "nodes h ptr = Some hd" using rep_node [OF assms(1)] by (auto simp: node_fp_def)
  then have ex: "\<exists>h'. insert_llist ptr v way h = Some (FAIL, h') \<and> unch {} {} h h' \<and> nodes h' = nodes h"
    using assms(2-4)
    by (auto simp: insert_llist_def calloc_def two_cells_def Let_def unch_def free_node_def fun_eq_iff)
  then show ?thesis using rep_frame [OF assms(1)] by auto
qed

lemma unlink_free_rep:
  assumes rep: "llist_rep h ptr (L1 @ (c, d, v) # L2)"
  shows "\<exists>h'. unlink_free c h = Some h' \<and> llist_rep h' ptr (L1 @ L2) \<and> brk h' = brk h \<and>
    unch (node_fp ptr (L1 @ (c, d, v) # L2)) {d} h h' \<and> nodes h' c = None \<and> blocks h' d = None"
proof -
  let ?a = "left_of ptr L1" and ?b = "right_of ptr L2" and ?L = "L1 @ (c, d, v) # L2"
  have fp: "?a \<in> node_fp ptr ?L" "?b \<in> node_fp ptr ?L" "c \<in> node_fp ptr ?L"
    using left_of_in [of ptr L1] right_of_in [of ptr L2] by (auto simp: node_fp_def)
  have ne: "?a \<noteq> c" "?b \<noteq> c"
    using rep left_of_in [of ptr L1] right_of_in [of ptr L2] by (auto simp: llist_rep_def)
  have nd: "nodes h ?a \<noteq> None" "nodes h ?b \<noteq> None" using rep_node [OF rep] fp by auto
  have "pv h c = Some ?a" using rep_next [of h ptr L1 "(c, d, v) # L2"] rep by simp
  moreover have "nx h c = Some ?b"
    using rep_next [of h ptr "L1 @ [(c, d, v)]" L2] rep by simp
  moreover have "dt h c = Some d \<and> blocks h d = Some v"
    using rep cellsD [of h ?L c d v] by (simp add: llist_rep_def)
  ultimately have n: "nodes h c = Some \<lparr>ndata = d, nprev = ?a, nnext = ?b\<rparr>" "blocks h d = Some v"
    by (auto simp: pv_def nx_def dt_def)
  obtain na where na: "nodes h ?a = Some na" using nd(1) by auto
  let ?h1 = "put_node ?a (na\<lparr>nnext := ?b\<rparr>) h"
  obtain nb where nb: "nodes ?h1 ?b = Some nb" using nd(2) by (cases "?a = ?b") auto
  let ?h2 = "put_node ?b (nb\<lparr>nprev := ?a\<rparr>) ?h1"
  let ?h4 = "?h2\<lparr>blocks := (blocks h)(d := None), nodes := (nodes ?h2)(c := None)\<rparr>"
  have run: "unlink_free c h = Some ?h4"
    using n na nb ne
    by (cases "?b = ?a") (auto simp: unlink_free_def set_next_def set_prev_def free_block_def free_node_def put_node_def)
  have "nx ?h4 = (nx h)(?a := Some ?b, c := None)" "pv ?h4 = (pv h)(?b := Some ?a, c := None)"
    "dt ?h4 = (dt h)(c := None)"
    using n na nb ne by (auto simp: nx_def pv_def dt_def fun_eq_iff split: if_splits)
  then have "llist_rep ?h4 ptr (L1 @ L2)"
    by (intro rep_remove [OF rep]) auto
  moreover have "nodes ?h4 x = nodes h x" if "x \<notin> node_fp ptr ?L" for x
  proof -
    have "x \<notin> {?a, ?b, c}" using that fp by auto
    then show ?thesis by simp
  qed
  then have "unch (node_fp ptr ?L) {d} h ?h4" by (simp add: unch_def)
  ultimately show ?thesis using run by (intro exI [of _ ?h4]) simp
qed

text \<open>The scan from the rear stops at the last cell that matches.\<close>

lemma scan_prev_rep:
  assumes "llist_rep h ptr (L1 @ L2)"
  shows "scan_prev ptr cmp h (left_of ptr L1) =
    Some (case find (\<lambda>(a, d, v). cmp v) (rev L1) of None \<Rightarrow> ptr | Some (a, d, v) \<Rightarrow> a)"
  using assms
proof (induction L1 arbitrary: L2 rule: rev_induct)
  case Nil
  then show ?case by (subst scan_prev.simps) simp
next
  case (snoc x L1)
  obtain a d v where x: "x = (a, d, v)" by (cases x)
  have rep: "llist_rep h ptr (L1 @ (a, d, v) # L2)" using snoc.prems x by simp
  have "a \<noteq> ptr" using rep by (auto simp: llist_rep_def)
  moreover have "dt h a = Some d \<and> blocks h d = Some v"
    using rep cellsD [of h "L1 @ (a, d, v) # L2" a d v] by (simp add: llist_rep_def)
  moreover have "pv h a = Some (left_of ptr L1)" using rep_next [of h ptr L1 "(a, d, v) # L2"] rep by simp
  ultimately show ?case
    using snoc.IH [OF rep] x by (subst scan_prev.simps) (auto simp: dt_def pv_def)
qed

lemma head_links:
  assumes "llist_rep h ptr L"
  shows "\<exists>hd. nodes h ptr = Some hd \<and> nnext hd = right_of ptr L \<and> nprev hd = left_of ptr L"
proof -
  obtain hd where "nodes h ptr = Some hd" using rep_node [OF assms] by (auto simp: node_fp_def)
  then show ?thesis
    using rep_next [of h ptr "[]" L] rep_next [of h ptr L "[]"] assms by (auto simp: nx_def pv_def)
qed

lemma find_split:
  "find P xs = Some x \<Longrightarrow> \<exists>ys zs. xs = ys @ x # zs \<and> P x \<and> (\<forall>y \<in> set ys. \<not> P y)"
proof (induction xs)
  case (Cons y xs)
  show ?case
  proof (cases "P y")
    case True
    then show ?thesis using Cons.prems by (intro exI [of _ "[]"] exI [of _ xs]) auto
  next
    case False
    then obtain ys zs where "xs = ys @ x # zs" "P x" "\<forall>y \<in> set ys. \<not> P y" using Cons by auto
    then show ?thesis using False by (intro exI [of _ "y # ys"] exI [of _ zs]) auto
  qed
qed simp

text \<open>Deletion removes the last matching element, fetching the first one.\<close>

lemma delete_llist_rep:
  assumes rep: "llist_rep h ptr L"
  shows "(\<forall>v \<in> set (vals L). \<not> cmp v) \<and> delete_llist ptr cmp h = Some (FAIL, h) \<or>
    (\<exists>L1 c d v L2 h'. L = L1 @ (c, d, v) # L2 \<and> cmp v \<and> (\<forall>w \<in> set (vals L2). \<not> cmp w) \<and>
       delete_llist ptr cmp h = Some (OKAY, h') \<and> llist_rep h' ptr (L1 @ L2) \<and> brk h' = brk h \<and>
       unch (node_fp ptr L) (block_fp L) h h')"
proof (cases "find (\<lambda>(a, d, v). cmp v) (rev L)")
  case None
  then have "\<forall>v \<in> set (vals L). \<not> cmp v" by (auto simp: find_None_iff vals_def)
  then show ?thesis
    using None scan_prev_rep [of h ptr L "[]" cmp] head_links [OF rep] rep by (auto simp: delete_llist_def)
next
  case (Some x)
  obtain c d v where x: "x = (c, d, v)" by (cases x)
  obtain ys zs where s: "rev L = ys @ x # zs" "cmp v" "\<forall>y \<in> set ys. \<not> (case y of (a, d, v) \<Rightarrow> cmp v)"
    using find_split [OF Some] x by auto
  then have L: "L = rev zs @ (c, d, v) # rev ys" using x by (metis append.assoc append_Cons append_Nil rev_append rev_rev_ident rev.simps(2))
  obtain h' where h': "unlink_free c h = Some h'" "llist_rep h' ptr (rev zs @ rev ys)" "brk h' = brk h"
    "unch (node_fp ptr L) {d} h h'"
    using unlink_free_rep [of h ptr "rev zs" c d v "rev ys"] rep L by auto
  have "c \<noteq> ptr" using rep L by (auto simp: llist_rep_def)
  then have "delete_llist ptr cmp h = Some (OKAY, h')"
    using Some x scan_prev_rep [of h ptr L "[]" cmp] head_links [OF rep] rep h'(1) by (auto simp: delete_llist_def)
  moreover have "unch (node_fp ptr L) (block_fp L) h h'"
    using h'(4) L by (auto intro: unch_mono simp: block_fp_def)
  moreover have "\<forall>w \<in> set (vals (rev ys)). \<not> cmp w" using s(3) by (auto simp: vals_def)
  ultimately show ?thesis using L s(2) h'(2,3) by blast
qed

lemma fetch_loop_rep:
  assumes "llist_rep h ptr (L1 @ L2)"
  shows "fetch_loop ptr cmp h (right_of ptr L2) =
    (case find (\<lambda>(a, d, v). cmp v) L2 of None \<Rightarrow> Some (FAIL, None, h)
     | Some (a, d, v) \<Rightarrow> map_option (\<lambda>h1. (OKAY, Some v, h1)) (unlink_free a h))"
  using assms
proof (induction L2 arbitrary: L1)
  case Nil
  then show ?case by (subst fetch_loop.simps) simp
next
  case (Cons x L2)
  obtain a d v where x: "x = (a, d, v)" by (cases x)
  have rep: "llist_rep h ptr (L1 @ (a, d, v) # L2)" using Cons.prems x by simp
  have "a \<noteq> ptr" using rep by (auto simp: llist_rep_def)
  moreover have "dt h a = Some d \<and> blocks h d = Some v"
    using rep cellsD [of h "L1 @ (a, d, v) # L2" a d v] by (simp add: llist_rep_def)
  moreover have "nx h a = Some (right_of ptr L2)"
    using rep_next [of h ptr "L1 @ [(a, d, v)]" L2] rep by simp
  ultimately show ?case
    using Cons.IH [of "L1 @ [(a, d, v)]"] rep x
    by (subst fetch_loop.simps) (auto simp: dt_def nx_def map_conv_bind_option split: bind_splits)
qed

lemma fetch_first_rep:
  assumes rep: "llist_rep h ptr ((c, d, v) # L)"
  shows "\<exists>h'. fetch_llist ptr (\<lambda>_. True) h = Some (OKAY, Some v, h') \<and> llist_rep h' ptr L \<and> brk h' = brk h \<and>
    unch (node_fp ptr ((c, d, v) # L)) {d} h h'"
  using fetch_loop_rep [of h ptr "[]" "(c, d, v) # L" "\<lambda>_. True"] unlink_free_rep [of h ptr "[]" c d v L]
    head_links [OF rep] rep
  by (auto simp: fetch_llist_def)

lemma fetch_empty_rep: "llist_rep h ptr [] \<Longrightarrow> fetch_llist ptr cmp h = Some (FAIL, None, h)"
  using fetch_loop_rep [of h ptr "[]" "[]" cmp] head_links [of h ptr "[]"] by (auto simp: fetch_llist_def)

lemma fetch_llist_rep:
  assumes rep: "llist_rep h ptr L"
  shows "(\<forall>v \<in> set (vals L). \<not> cmp v) \<and> fetch_llist ptr cmp h = Some (FAIL, None, h) \<or>
    (\<exists>L1 c d v L2 h'. L = L1 @ (c, d, v) # L2 \<and> cmp v \<and> (\<forall>w \<in> set (vals L1). \<not> cmp w) \<and>
       fetch_llist ptr cmp h = Some (OKAY, Some v, h') \<and> llist_rep h' ptr (L1 @ L2) \<and> brk h' = brk h \<and>
       unch (node_fp ptr L) (block_fp L) h h')"
proof (cases "find (\<lambda>(a, d, v). cmp v) L")
  case None
  then have "\<forall>v \<in> set (vals L). \<not> cmp v" by (auto simp: find_None_iff vals_def)
  then show ?thesis
    using None fetch_loop_rep [of h ptr "[]" L cmp] head_links [OF rep] rep by (auto simp: fetch_llist_def)
next
  case (Some x)
  obtain c d v where x: "x = (c, d, v)" by (cases x)
  obtain L1 L2 where s: "L = L1 @ (c, d, v) # L2" "cmp v" "\<forall>y \<in> set L1. \<not> (case y of (a, d, v) \<Rightarrow> cmp v)"
    using find_split [OF Some] x by auto
  obtain h' where h': "unlink_free c h = Some h'" "llist_rep h' ptr (L1 @ L2)" "brk h' = brk h"
    "unch (node_fp ptr L) {d} h h'"
    using unlink_free_rep [of h ptr L1 c d v L2] rep s(1) by auto
  have "fetch_llist ptr cmp h = Some (OKAY, Some v, h')"
    using Some x fetch_loop_rep [of h ptr "[]" L cmp] head_links [OF rep] rep h'(1) by (auto simp: fetch_llist_def)
  moreover have "unch (node_fp ptr L) (block_fp L) h h'"
    using h'(4) s(1) by (auto intro: unch_mono simp: block_fp_def)
  moreover have "\<forall>w \<in> set (vals L1). \<not> cmp w" using s(3) by (auto simp: vals_def)
  ultimately show ?thesis using s(1,2) h'(2,3) by blast
qed

lemma get_firstnode_rep:
  assumes "llist_rep h ptr L"
  shows "get_firstnode ptr h = Some (case L of [] \<Rightarrow> (FAIL, None) | (c, d, v) # _ \<Rightarrow> (OKAY, Some v))"
proof (cases L)
  case (Cons x L')
  obtain c d v where x: "x = (c, d, v)" by (cases x)
  have "c \<noteq> ptr" "dt h c = Some d \<and> blocks h d = Some v"
    using assms Cons x cellsD [of h L c d v] by (auto simp: llist_rep_def)
  then show ?thesis using head_links [OF assms] Cons x by (auto simp: get_firstnode_def dt_def)
qed (use head_links [OF assms] in \<open>auto simp: get_firstnode_def\<close>)

lemma traval_rep:
  assumes "llist_rep h ptr L"
  shows "traval_llist ptr h = Some (vals L)" "get_listnum ptr h = Some (length L)"
proof -
  have step: "traval_loop ptr h (right_of ptr L2) out = Some (out @ vals L2) \<and>
      num_loop ptr h (right_of ptr L2) r = Some (r + length L2)" if "llist_rep h ptr (L1 @ L2)" for L1 L2 out r
    using that
  proof (induction L2 arbitrary: L1 out r)
    case Nil
    then show ?case by (subst traval_loop.simps, subst num_loop.simps) (simp add: vals_def)
  next
    case (Cons x L2)
    obtain a d v where x: "x = (a, d, v)" by (cases x)
    have rep: "llist_rep h ptr (L1 @ (a, d, v) # L2)" using Cons.prems x by simp
    have "a \<noteq> ptr" using rep by (auto simp: llist_rep_def)
    moreover have "dt h a = Some d \<and> blocks h d = Some v"
      using rep cellsD [of h "L1 @ (a, d, v) # L2" a d v] by (simp add: llist_rep_def)
    moreover have "nx h a = Some (right_of ptr L2)"
      using rep_next [of h ptr "L1 @ [(a, d, v)]" L2] rep by simp
    ultimately show ?case
      using Cons.IH [of "L1 @ [(a, d, v)]"] rep x
      by (subst traval_loop.simps, subst num_loop.simps) (auto simp: dt_def nx_def vals_def)
  qed
  show "traval_llist ptr h = Some (vals L)" "get_listnum ptr h = Some (length L)"
    using step [of "[]" L "[]" 0] head_links [OF assms] assms by (auto simp: traval_llist_def get_listnum_def)
qed

lemma empty_rep:
  assumes "llist_rep h ptr L"
  shows "empty_llist ptr h = Some (L = [])"
proof (cases L)
  case (Cons x L')
  then have "right_of ptr L \<noteq> ptr" using assms by (cases x) (auto simp: llist_rep_def)
  then show ?thesis using head_links [OF assms] Cons by (auto simp: empty_llist_def)
qed (use head_links [OF assms] in \<open>auto simp: empty_llist_def\<close>)

section \<open>Destroying and reversing\<close>

text \<open>The cells from some node on, before their neighbours are relinked or freed.\<close>

fun chain :: "'v heap \<Rightarrow> nat \<Rightarrow> 'v cell list \<Rightarrow> bool" where
  "chain h ptr [] \<longleftrightarrow> True"
| "chain h ptr ((a, d, v) # L) \<longleftrightarrow> a \<noteq> ptr \<and> dt h a = Some d \<and> nx h a = Some (right_of ptr L) \<and>
     blocks h d \<noteq> None \<and> chain h ptr L"

lemma chain_frame:
  "chain h ptr L \<Longrightarrow> (\<And>a d v. (a, d, v) \<in> set L \<Longrightarrow> nodes h' a = nodes h a \<and> blocks h' d = blocks h d) \<Longrightarrow>
   chain h' ptr L"
proof (induction L)
  case (Cons x L)
  obtain a d v where x: "x = (a, d, v)" by (cases x)
  have "nodes h' a = nodes h a \<and> blocks h' d = blocks h d" using Cons.prems(2) [of a d v] x by simp
  moreover have "chain h' ptr L" using Cons x by auto
  ultimately show ?case using Cons.prems(1) x by (simp add: dt_def nx_def)
qed simp

lemma rep_chain: "llist_rep h ptr (L1 @ L2) \<Longrightarrow> chain h ptr L2"
proof (induction L2 arbitrary: L1)
  case (Cons x L2)
  obtain a d v where x: "x = (a, d, v)" by (cases x)
  have rep: "llist_rep h ptr (L1 @ (a, d, v) # L2)" using Cons.prems x by simp
  then have "a \<noteq> ptr" "dt h a = Some d \<and> blocks h d = Some v"
    using cellsD [of h "L1 @ (a, d, v) # L2" a d v] by (auto simp: llist_rep_def)
  moreover have "nx h a = Some (right_of ptr L2)"
    using rep_next [of h ptr "L1 @ [(a, d, v)]" L2] rep by simp
  ultimately show ?case using Cons.IH [of "L1 @ [(a, d, v)]"] rep x by simp
qed simp

lemma destroy_loop_chain:
  assumes "chain h ptr L" "distinct (map fst L)" "distinct (map (\<lambda>(a, d, v). d) L)"
  shows "\<exists>h'. destroy_loop ptr h (right_of ptr L) = Some h' \<and> brk h' = brk h \<and> lim h' = lim h \<and>
    (\<forall>a. nodes h' a = (if a \<in> fst ` set L then None else nodes h a)) \<and>
    (\<forall>d. blocks h' d = (if d \<in> block_fp L then None else blocks h d))"
  using assms
proof (induction L arbitrary: h)
  case Nil
  then show ?case by (subst destroy_loop.simps) (simp add: block_fp_def)
next
  case (Cons x L)
  obtain a d v where x: "x = (a, d, v)" by (cases x)
  have c: "a \<noteq> ptr" "dt h a = Some d" "nx h a = Some (right_of ptr L)" "blocks h d \<noteq> None" "chain h ptr L"
    using Cons.prems(1) x by auto
  obtain n where n: "nodes h a = Some n" "ndata n = d" "nnext n = right_of ptr L"
    using c(2,3) by (auto simp: dt_def nx_def)
  let ?h = "h\<lparr>blocks := (blocks h)(d := None), nodes := (nodes h)(a := None)\<rparr>"
  have "chain ?h ptr L"
  proof (rule chain_frame [OF c(5)])
    fix a' d' v' assume m: "(a', d', v') \<in> set L"
    then have a': "a' \<noteq> a" using Cons.prems(2) x by force
    have "d' \<in> (\<lambda>(a, d, v). d) ` set L" using m by force
    moreover have "d \<notin> (\<lambda>(a, d, v). d) ` set L" using Cons.prems(3) x by simp
    ultimately have "d' \<noteq> d" by metis
    then show "nodes ?h a' = nodes h a' \<and> blocks ?h d' = blocks h d'" using a' by simp
  qed
  then obtain h' where h': "destroy_loop ptr ?h (right_of ptr L) = Some h'" "brk h' = brk h" "lim h' = lim h"
    "\<forall>a'. nodes h' a' = (if a' \<in> fst ` set L then None else nodes ?h a')"
    "\<forall>d'. blocks h' d' = (if d' \<in> block_fp L then None else blocks ?h d')"
    using Cons.IH [of ?h] Cons.prems(2,3) x by auto
  have "destroy_loop ptr h (right_of ptr (x # L)) = Some h'"
    using c(1,4) n h'(1) x by (subst destroy_loop.simps) (simp add: free_block_def free_node_def)
  then show ?case using h'(2-5) x by (intro exI [of _ h']) (simp add: block_fp_def)
qed

lemma destroy_llist_rep:
  assumes rep: "llist_rep h ptr L"
  shows "\<exists>h'. destroy_llist ptr h = Some h' \<and> brk h' = brk h \<and> lim h' = lim h \<and>
    (\<forall>a. nodes h' a = (if a \<in> node_fp ptr L then None else nodes h a)) \<and>
    (\<forall>d. blocks h' d = (if d \<in> block_fp L then None else blocks h d))"
proof -
  have "distinct (map fst L)" "distinct (map (\<lambda>(a, d, v). d) L)" "ptr \<notin> fst ` set L"
    using rep by (auto simp: llist_rep_def)
  then obtain h1 where h1: "destroy_loop ptr h (right_of ptr L) = Some h1" "brk h1 = brk h" "lim h1 = lim h"
    "\<forall>a. nodes h1 a = (if a \<in> fst ` set L then None else nodes h a)"
    "\<forall>d. blocks h1 d = (if d \<in> block_fp L then None else blocks h d)"
    using destroy_loop_chain [OF rep_chain [of h ptr "[]" L]] rep by auto
  then have "nodes h1 ptr \<noteq> None" using head_links [OF rep] \<open>ptr \<notin> fst ` set L\<close> by auto
  then show ?thesis
    using h1 head_links [OF rep]
    by (intro exI [of _ "h1\<lparr>nodes := (nodes h1)(ptr := None)\<rparr>"])
      (auto simp: destroy_llist_def free_node_def node_fp_def)
qed

lemma reverse_loop_rep:
  assumes "llist_rep h ptr L" "llist_rep h new M" "node_fp ptr L \<inter> node_fp new M = {}" "block_fp L \<inter> block_fp M = {}"
    and "brk h + 2 * length L \<le> lim h"
  shows "\<exists>h' M'. reverse_loop ptr new h buf = Some h' \<and> llist_rep h' ptr [] \<and> llist_rep h' new M' \<and>
    ptr \<notin> node_fp new M' \<and> vals M' = rev (vals L) @ vals M \<and>
    unch (node_fp ptr L \<union> node_fp new M) (block_fp L) h h'"
  using assms
proof (induction L arbitrary: h M buf)
  case Nil
  then show ?case
    using head_links [OF Nil(1)] by (subst reverse_loop.simps) (auto simp: node_fp_def vals_def)
next
  case (Cons x L)
  obtain c d v where x: "x = (c, d, v)" by (cases x)
  obtain h1 where h1: "fetch_llist ptr (\<lambda>_. True) h = Some (OKAY, Some v, h1)" "llist_rep h1 ptr L" "brk h1 = brk h"
    "unch (node_fp ptr ((c, d, v) # L)) {d} h h1"
    using fetch_first_rep [of h ptr c d v L] Cons.prems(1) x by auto
  have M1: "llist_rep h1 new M"
    using rep_frame [OF Cons.prems(2) h1(4)] Cons.prems(3,4) x by (auto simp: block_fp_def)
  have lim1: "lim h1 = lim h" using h1(4) by (simp add: unch_def)
  let ?e = "(brk h, Suc (brk h), v)"
  obtain h2 where h2: "insert_llist new v FRONT h1 = Some (OKAY, h2)" "llist_rep h2 new (?e # M)" "brk h2 = brk h + 2"
    "unch (node_fp new M) {} h1 h2"
    using insert_llist_rep [of h1 new "[]" M FRONT v] M1 Cons.prems(5) h1(3) lim1 by (auto simp: two_cells_def)
  have lim2: "lim h2 = lim h" using h2(4) lim1 by (simp add: unch_def)
  have fpL: "node_fp ptr L \<subseteq> node_fp ptr (x # L)" "block_fp L \<subseteq> block_fp (x # L)"
    by (auto simp: node_fp_def) (simp add: block_fp_def subset_insertI)
  then have dj: "node_fp ptr L \<inter> node_fp new M = {}" "block_fp L \<inter> block_fp M = {}"
    using Cons.prems(3,4) by auto
  have L2: "llist_rep h2 ptr L" using rep_frame [OF h1(2) h2(4)] dj by auto
  have small: "node_fp ptr L \<subseteq> {1..<brk h}" "block_fp L \<subseteq> {1..<brk h}"
    using h1(2,3) by (auto simp: llist_rep_def)
  have "node_fp ptr L \<inter> node_fp new (?e # M) = {}" "block_fp L \<inter> block_fp (?e # M) = {}"
    using dj small by (auto simp: node_fp_def block_fp_def)
  then obtain h' M' where r: "reverse_loop ptr new h2 (Some v) = Some h'" "llist_rep h' ptr []" "llist_rep h' new M'"
    "ptr \<notin> node_fp new M'" "vals M' = rev (vals L) @ vals (?e # M)"
    "unch (node_fp ptr L \<union> node_fp new (?e # M)) (block_fp L) h2 h'"
    using Cons.IH [OF L2 h2(2), of "Some v"] Cons.prems(5) h2(3) lim2 by auto
  have "c \<noteq> ptr" using Cons.prems(1) x by (auto simp: llist_rep_def)
  then have "reverse_loop ptr new h buf = Some h'"
    using head_links [OF Cons.prems(1)] h1(1) h2(1) r(1) x by (subst reverse_loop.simps) auto
  moreover have u2: "unch (node_fp ptr (x # L) \<union> node_fp new M) (block_fp (x # L)) h h2"
  proof -
    have "unch (node_fp ptr (x # L) \<union> node_fp new M) (block_fp (x # L)) h h1"
      using unch_mono [OF h1(4)] x by (auto simp: block_fp_def)
    then show ?thesis using unch_trans [OF _ h2(4)] by auto
  qed
  have "unch (node_fp ptr (x # L) \<union> node_fp new M) (block_fp (x # L)) h h'"
    by (rule unch_trans [OF u2 r(6)]) (use fpL in \<open>auto simp: node_fp_def\<close>)
  moreover have "vals M' = rev (vals (x # L)) @ vals M" using r(5) x by (simp add: vals_def)
  ultimately show ?case using r(2-4) by blast
qed

lemma reverse_llist_rep:
  fixes h :: "'v heap"
  assumes rep: "llist_rep h ptr L" and pos: "0 < brk h" and room: "brk h + 1 + 2 * length L \<le> lim h"
  shows "\<exists>new h' M. reverse_llist ptr True h = Some (new, h') \<and> llist_rep h' new M \<and> vals M = rev (vals L) \<and>
    nodes h' ptr = None \<and> unch (node_fp ptr L) (block_fp L) h h'"
proof -
  obtain h1 where h1: "init_llist h = (brk h, h1)" "llist_rep h1 (brk h) []" "brk h1 = Suc (brk h)" "unch {} {} h h1"
    using init_llist_rep [of h] pos room by auto
  have rep1: "llist_rep h1 ptr L" using rep_frame [OF rep h1(4)] by simp
  have "brk h \<notin> node_fp ptr L" using rep by (auto simp: llist_rep_def)
  then have dj: "node_fp ptr L \<inter> node_fp (brk h) ([] :: 'v cell list) = {}" "block_fp L \<inter> block_fp ([] :: 'v cell list) = {}"
    by (auto simp: node_fp_def block_fp_def)
  have room1: "brk h1 + 2 * length L \<le> lim h1" using h1(3,4) room by (simp add: unch_def)
  obtain h2 M where r: "reverse_loop ptr (brk h) h1 None = Some h2" "llist_rep h2 ptr []" "llist_rep h2 (brk h) M"
    "ptr \<notin> node_fp (brk h) M" "vals M = rev (vals L) @ vals ([] :: 'v cell list)"
    "unch (node_fp ptr L \<union> node_fp (brk h) ([] :: 'v cell list)) (block_fp L) h1 h2"
    using reverse_loop_rep [OF rep1 h1(2) dj room1] by blast
  let ?h = "h2\<lparr>nodes := (nodes h2)(ptr := None)\<rparr>"
  have u3: "unch {ptr} {} h2 ?h" by (simp add: unch_def)
  have "llist_rep ?h (brk h) M" using rep_frame [OF r(3) u3] r(4) by simp
  moreover have "reverse_llist ptr True h = Some (brk h, ?h)"
    using h1(1) r(1) head_links [OF r(2)] head_links [OF rep] by (auto simp: reverse_llist_def free_node_def)
  moreover have u1: "unch (node_fp ptr L) (block_fp L) h h1" using unch_mono [OF h1(4)] by simp
  have u2: "unch (node_fp ptr L) (block_fp L) h h2"
    by (rule unch_trans [OF u1 r(6)]) (auto simp: node_fp_def)
  have "unch (node_fp ptr L) (block_fp L) h ?h"
    by (rule unch_trans [OF u2 u3]) (auto simp: node_fp_def)
  ultimately show ?thesis using r(5) by (intro exI [of _ "brk h"] exI [of _ ?h] exI [of _ M]) (simp add: vals_def)
qed

lemma reverse_r_rep:
  assumes "llist_rep h ptr L" "brk h + 2 * length L \<le> lim h"
  shows "\<exists>h' M. reverse_r ptr h = Some h' \<and> llist_rep h' ptr M \<and> vals M = rev (vals L) \<and>
    length M = length L \<and> brk h' = brk h + 2 * length L \<and> unch (node_fp ptr L) (block_fp L) h h' \<and>
    node_fp ptr M \<subseteq> node_fp ptr L \<union> {brk h..}"
  using assms
proof (induction L arbitrary: h)
  case Nil
  then show ?case
    using head_links [OF Nil(1)] by (subst reverse_r.simps) (auto intro!: exI [of _ "[]"] simp: node_fp_def vals_def)
next
  case (Cons x L)
  obtain c d v where x: "x = (c, d, v)" by (cases x)
  obtain h1 where h1: "fetch_llist ptr (\<lambda>_. True) h = Some (OKAY, Some v, h1)" "llist_rep h1 ptr L" "brk h1 = brk h"
    "unch (node_fp ptr ((c, d, v) # L)) {d} h h1"
    using fetch_first_rep [of h ptr c d v L] Cons.prems(1) x by auto
  have lim1: "lim h1 = lim h" using h1(4) by (simp add: unch_def)
  obtain h2 M where r: "reverse_r ptr h1 = Some h2" "llist_rep h2 ptr M" "vals M = rev (vals L)"
    "length M = length L" "brk h2 = brk h1 + 2 * length L" "unch (node_fp ptr L) (block_fp L) h1 h2"
    "node_fp ptr M \<subseteq> node_fp ptr L \<union> {brk h1..}"
    using Cons.IH [OF h1(2)] Cons.prems(2) h1(3) lim1 by auto
  have lim2: "lim h2 = lim h" using r(6) lim1 by (simp add: unch_def)
  let ?e = "(brk h2, Suc (brk h2), v)"
  obtain h3 where h3: "insert_llist ptr v REAR h2 = Some (OKAY, h3)" "llist_rep h3 ptr (M @ [?e])"
    "brk h3 = brk h2 + 2" "unch (node_fp ptr M) {} h2 h3"
    using insert_llist_rep [of h2 ptr M "[]" REAR v] r(2,5) Cons.prems(2) h1(3) lim2 by (auto simp: two_cells_def)
  have "c \<noteq> ptr" using Cons.prems(1) x by (auto simp: llist_rep_def)
  then have "reverse_r ptr h = Some h3"
    using head_links [OF Cons.prems(1)] h1(1) r(1) h3(1) x by (subst reverse_r.simps) auto
  moreover have "vals (M @ [?e]) = rev (vals (x # L))" using r(3) x by (simp add: vals_def)
  moreover have "{d} \<subseteq> block_fp (x # L)" "block_fp L \<subseteq> block_fp (x # L)" "node_fp ptr L \<subseteq> node_fp ptr (x # L)"
    using x by (simp_all add: block_fp_def subset_insertI) (auto simp: node_fp_def)
  note fp = this
  have u1: "unch (node_fp ptr (x # L)) (block_fp (x # L)) h h1"
    using unch_mono [OF h1(4), of "node_fp ptr (x # L)" "block_fp (x # L)"] x fp(1) by simp
  have u2: "unch (node_fp ptr (x # L)) (block_fp (x # L)) h h2"
    by (rule unch_trans [OF u1 r(6)]) (use fp in auto)
  have u3: "unch (node_fp ptr (x # L)) (block_fp (x # L)) h h3"
    by (rule unch_trans [OF u2 h3(4)]) (use r(7) fp h1(3) in auto)
  moreover have "node_fp ptr (M @ [?e]) \<subseteq> node_fp ptr (x # L) \<union> {brk h..}"
    using r(5,7) fp(3) h1(3) by (auto simp: node_fp_def)
  ultimately show ?case
    using h3(2,3) r(4,5) h1(3) by (intro exI [of _ h3] exI [of _ "M @ [?e]"]) simp
qed

section \<open>The contract of a stack in a shared heap\<close>

text \<open>
  \<open>own h st xs F\<close>: in \<open>h\<close> the stack \<open>st\<close> holds \<open>xs\<close>, top first, in the objects \<open>F\<close>.  Every
  operation keeps every other stack whose objects are disjoint; \<open>room h n\<close> says that \<open>n\<close> more objects
  can be allocated.
\<close>

definition keeps ::
  "('h \<Rightarrow> nat \<Rightarrow> 'v list \<Rightarrow> 'f set \<Rightarrow> bool) \<Rightarrow> 'h \<Rightarrow> 'f set \<Rightarrow> 'h \<Rightarrow> 'f set \<Rightarrow> bool" where
  "keeps own h F h' F' \<longleftrightarrow>
     (\<forall>st ys G. own h st ys G \<longrightarrow> F \<inter> G = {} \<longrightarrow> own h' st ys G \<and> F' \<inter> G = {})"

locale heap_stack =
  fixes own :: "'h \<Rightarrow> nat \<Rightarrow> 'v list \<Rightarrow> 'f set \<Rightarrow> bool"
    and room :: "'h \<Rightarrow> nat \<Rightarrow> bool"
    and init :: "'h \<Rightarrow> nat \<times> 'h"
    and push :: "nat \<Rightarrow> 'v \<Rightarrow> 'h \<Rightarrow> (status \<times> 'h) option"
    and pop :: "nat \<Rightarrow> 'h \<Rightarrow> (status \<times> 'v option \<times> 'h) option"
    and empty :: "nat \<Rightarrow> 'h \<Rightarrow> bool option"
    and peek :: "nat \<Rightarrow> 'h \<Rightarrow> (status \<times> 'v option) option"
    and destroy :: "nat \<Rightarrow> 'h \<Rightarrow> 'h option"
  assumes init_law: "room h (Suc n) \<Longrightarrow>
      \<exists>st h' F. init h = (st, h') \<and> st \<noteq> 0 \<and> own h' st [] F \<and> room h' n \<and> keeps own h {} h' F"
    and push_law: "own h st xs F \<Longrightarrow> room h (n + 2) \<Longrightarrow>
      \<exists>h' F'. push st v h = Some (OKAY, h') \<and> own h' st (v # xs) F' \<and> room h' n \<and> keeps own h F h' F'"
    and pop_law: "own h st (v # xs) F \<Longrightarrow> room h n \<Longrightarrow>
      \<exists>h' F'. pop st h = Some (OKAY, Some v, h') \<and> own h' st xs F' \<and> room h' n \<and> keeps own h F h' F'"
    and pop_empty_law: "own h st [] F \<Longrightarrow> pop st h = Some (FAIL, None, h)"
    and empty_law: "own h st xs F \<Longrightarrow> empty st h = Some (xs = [])"
    and peek_law: "own h st (v # xs) F \<Longrightarrow> peek st h = Some (OKAY, Some v)"
    and peek_empty_law: "own h st [] F \<Longrightarrow> peek st h = Some (FAIL, None)"
    and destroy_law: "own h st xs F \<Longrightarrow> room h n \<Longrightarrow>
      \<exists>h'. destroy st h = Some h' \<and> room h' n \<and> keeps own h F h' {}"
begin

text \<open>Moving every element to another stack, as the clients do: \<open>while (!empty) { pop; push; }\<close>.\<close>

fun move_n :: "nat \<Rightarrow> nat \<Rightarrow> nat \<Rightarrow> 'h \<Rightarrow> 'h option" where
  "move_n 0 a b h = Some h"
| "move_n (Suc n) a b h = do {
     (_, v, h1) \<leftarrow> pop a h;
     x \<leftarrow> v;
     (_, h2) \<leftarrow> push b x h1;
     move_n n a b h2 }"

lemma move_n_law:
  "own h a xs F \<Longrightarrow> own h b ys G \<Longrightarrow> F \<inter> G = {} \<Longrightarrow> room h (n + 2 * length xs) \<Longrightarrow>
   \<exists>h' F' G'. move_n (length xs) a b h = Some h' \<and> own h' a [] F' \<and> own h' b (rev xs @ ys) G' \<and>
     F' \<inter> G' = {} \<and> room h' n"
proof (induction xs arbitrary: h ys F G)
  case (Cons x xs)
  obtain h1 F1 where h1: "pop a h = Some (OKAY, Some x, h1)" "own h1 a xs F1"
    "room h1 (n + 2 * length xs + 2)" "keeps own h F h1 F1"
    using pop_law [OF Cons.prems(1), of "n + 2 * length xs + 2"] Cons.prems(4) by auto
  have b1: "own h1 b ys G" "F1 \<inter> G = {}" using h1(4) Cons.prems(2,3) by (auto simp: keeps_def)
  obtain h2 G2 where h2: "push b x h1 = Some (OKAY, h2)" "own h2 b (x # ys) G2"
    "room h2 (n + 2 * length xs)" "keeps own h1 G h2 G2"
    using push_law [OF b1(1) h1(3)] by blast
  have "own h2 a xs F1" "G2 \<inter> F1 = {}"
    using h2(4) h1(2) b1(2) unfolding keeps_def by (metis Int_commute)+
  then show ?case using Cons.IH [OF _ h2(2), of F1] h2(3) h1(1) h2(1) by (auto simp: Int_commute)
qed auto

end

definition stack_own :: "'v heap \<Rightarrow> nat \<Rightarrow> 'v list \<Rightarrow> (nat + nat) set \<Rightarrow> bool" where
  "stack_own h st xs F \<longleftrightarrow> (\<exists>L. llist_rep h st L \<and> vals L = xs \<and> F = Inl ` node_fp st L \<union> Inr ` block_fp L)"

lemma fp_Cons:
  "node_fp ptr ((a, d, v) # L) = insert a (node_fp ptr L)" "block_fp ((a, d, v) # L) = insert d (block_fp L)"
  by (auto simp only: node_fp_def block_fp_def list.set image_insert fst_conv prod.case insert_commute)

definition heap_room :: "'v heap \<Rightarrow> nat \<Rightarrow> bool" where
  "heap_room h n \<longleftrightarrow> 0 < brk h \<and> brk h + n \<le> lim h"

lemma keepsI:
  assumes "unch N B h h'" "Inl ` N \<union> Inr ` B \<subseteq> F" "F' \<subseteq> F \<union> Inl ` {brk h..} \<union> Inr ` {brk h..}"
  shows "keeps stack_own h F h' F'"
  unfolding keeps_def
proof (intro allI impI conjI)
  fix st ys G assume own: "stack_own h st ys G" and dj: "F \<inter> G = {}"
  then obtain L where L: "llist_rep h st L" "vals L = ys" "G = Inl ` node_fp st L \<union> Inr ` block_fp L"
    by (auto simp: stack_own_def)
  have small: "node_fp st L \<subseteq> {1..<brk h}" "block_fp L \<subseteq> {1..<brk h}" using L(1) by (auto simp: llist_rep_def)
  have "node_fp st L \<inter> N = {}" "block_fp L \<inter> B = {}" using dj assms(2) L(3) by blast+
  then show "stack_own h' st ys G" using rep_frame [OF L(1) assms(1)] L(2,3) by (auto simp: stack_own_def)
  have "G \<inter> (Inl ` {brk h..} \<union> Inr ` {brk h..}) = {}" using small L(3) by auto
  then show "F' \<inter> G = {}" using dj assms(3) by blast
qed

lemma vals_Cons: "vals L = v # xs \<Longrightarrow> \<exists>c d L'. L = (c, d, v) # L' \<and> vals L' = xs"
  by (cases L) (auto simp: vals_def)

interpretation ls: heap_stack stack_own heap_room init_stack push_stack pop_stack empty_stack get_top destroy_stack
proof
  fix h :: "'b heap" and n assume room: "heap_room h (Suc n)"
  then obtain h' where h': "init_llist h = (brk h, h')" "llist_rep h' (brk h) []" "brk h' = Suc (brk h)" "unch {} {} h h'"
    using init_llist_rep [of h] by (auto simp: heap_room_def)
  then have "keeps stack_own h {} h' (Inl ` node_fp (brk h) ([] :: 'b cell list) \<union> Inr ` block_fp ([] :: 'b cell list))"
    by (intro keepsI [OF h'(4)]) (auto simp: node_fp_def block_fp_def)
  moreover have "stack_own h' (brk h) [] (Inl ` node_fp (brk h) ([] :: 'b cell list) \<union> Inr ` block_fp ([] :: 'b cell list))"
    using h'(2) by (auto simp: stack_own_def vals_def)
  moreover have "heap_room h' n" using room h'(3,4) by (auto simp: heap_room_def unch_def)
  ultimately show "\<exists>st h' F. init_stack h = (st, h') \<and> st \<noteq> 0 \<and> stack_own h' st [] F \<and> heap_room h' n \<and>
      keeps stack_own h {} h' F"
    using h'(1) room by (auto simp: init_stack_def heap_room_def)
next
  fix h :: "'b heap" and st xs F n and v :: 'b
  assume own: "stack_own h st xs F" and room: "heap_room h (n + 2)"
  obtain L where L: "llist_rep h st L" "vals L = xs" "F = Inl ` node_fp st L \<union> Inr ` block_fp L"
    using own by (auto simp: stack_own_def)
  let ?e = "(brk h, Suc (brk h), v)"
  obtain h' where h': "insert_llist st v FRONT h = Some (OKAY, h')" "llist_rep h' st (?e # L)" "brk h' = brk h + 2"
    "unch (node_fp st L) {} h h'"
    using insert_llist_rep [of h st "[]" L FRONT v] L(1) room by (auto simp: heap_room_def two_cells_def)
  have "keeps stack_own h F h' (Inl ` node_fp st (?e # L) \<union> Inr ` block_fp (?e # L))"
    using L(3) by (intro keepsI [OF h'(4)]) (auto simp: fp_Cons)
  moreover have "stack_own h' st (v # xs) (Inl ` node_fp st (?e # L) \<union> Inr ` block_fp (?e # L))"
    using h'(2) L(2) unfolding stack_own_def by (intro exI [of _ "?e # L"]) (simp add: vals_def)
  moreover have "heap_room h' n" using room h'(3,4) by (auto simp: heap_room_def unch_def)
  ultimately show "\<exists>h' F'. push_stack st v h = Some (OKAY, h') \<and> stack_own h' st (v # xs) F' \<and> heap_room h' n \<and>
      keeps stack_own h F h' F'"
    using h'(1) by (auto simp: push_stack_def)
next
  fix h :: "'b heap" and st F n and v :: 'b and xs
  assume own: "stack_own h st (v # xs) F" and room: "heap_room h n"
  obtain L0 where L0: "llist_rep h st L0" "vals L0 = v # xs" "F = Inl ` node_fp st L0 \<union> Inr ` block_fp L0"
    using own by (auto simp: stack_own_def)
  obtain c d L where L: "L0 = (c, d, v) # L" "vals L = xs" using vals_Cons [OF L0(2)] by blast
  obtain h' where h': "fetch_llist st (\<lambda>_. True) h = Some (OKAY, Some v, h')" "llist_rep h' st L" "brk h' = brk h"
    "unch (node_fp st ((c, d, v) # L)) {d} h h'"
    using fetch_first_rep [of h st c d v L] L0(1) L(1) by auto
  have sub: "node_fp st L \<subseteq> node_fp st L0" "block_fp L \<subseteq> block_fp L0" "d \<in> block_fp L0"
    using L(1) by (simp_all add: block_fp_def subset_insertI) (auto simp: node_fp_def)
  have "keeps stack_own h F h' (Inl ` node_fp st L \<union> Inr ` block_fp L)"
    using L0(3) L(1) sub by (intro keepsI [OF h'(4)]) auto
  moreover have "stack_own h' st xs (Inl ` node_fp st L \<union> Inr ` block_fp L)"
    using h'(2) L(2) by (auto simp: stack_own_def)
  moreover have "heap_room h' n" using room h'(3,4) by (auto simp: heap_room_def unch_def)
  ultimately show "\<exists>h' F'. pop_stack st h = Some (OKAY, Some v, h') \<and> stack_own h' st xs F' \<and> heap_room h' n \<and>
      keeps stack_own h F h' F'"
    using h'(1) by (auto simp: pop_stack_def)
next
  fix h :: "'b heap" and st F assume "stack_own h st [] F"
  then have "llist_rep h st []" by (auto simp: stack_own_def vals_def)
  then show "pop_stack st h = Some (FAIL, None, h)" "get_top st h = Some (FAIL, None)"
    using fetch_empty_rep [of h st] get_firstnode_rep [of h st "[]"] by (simp_all add: pop_stack_def get_top_def)
next
  fix h :: "'b heap" and st xs F assume "stack_own h st xs F"
  then show "empty_stack st h = Some (xs = [])"
    using empty_rep by (auto simp: stack_own_def empty_stack_def vals_def)
next
  fix h :: "'b heap" and st F and v :: 'b and xs assume "stack_own h st (v # xs) F"
  then obtain L where "llist_rep h st L" "vals L = v # xs" by (auto simp: stack_own_def)
  then show "get_top st h = Some (OKAY, Some v)"
    using get_firstnode_rep [of h st L] vals_Cons [of L v xs] by (auto simp: get_top_def)
next
  fix h :: "'b heap" and st xs F n assume own: "stack_own h st xs F" and room: "heap_room h n"
  obtain L where L: "llist_rep h st L" "vals L = xs" "F = Inl ` node_fp st L \<union> Inr ` block_fp L"
    using own by (auto simp: stack_own_def)
  show "\<exists>h'. destroy_stack st h = Some h' \<and> heap_room h' n \<and> keeps stack_own h F h' {}"
  proof -
    obtain h' where h': "destroy_llist st h = Some h'" "brk h' = brk h" "lim h' = lim h"
      "\<forall>a. nodes h' a = (if a \<in> node_fp st L then None else nodes h a)"
      "\<forall>d. blocks h' d = (if d \<in> block_fp L then None else blocks h d)"
      using destroy_llist_rep [OF L(1)] by auto
    then have "unch (node_fp st L) (block_fp L) h h'" by (simp add: unch_def)
    then have "keeps stack_own h F h' {}" using L(3) by (intro keepsI) auto
    then show ?thesis using h'(1-3) room by (auto simp: destroy_stack_def heap_room_def)
  qed
qed

section \<open>Properties\<close>

text \<open>
  The list implements a sequence: on a heap that holds the elements \<open>vals L\<close> in the cells \<open>L\<close>,
  \<open>traval_llist\<close> visits exactly them in order, \<open>get_listnum\<close> counts them, \<open>insert_llist\<close> puts a new cell
  at the front or the rear when two objects can be allocated, and otherwise frees what it allocated and
  reports failure; no node or block outside the list changes.
\<close>
theorem llist_is_a_sequence:
  assumes "llist_rep h ptr L" "0 < brk h" "nodes h (brk h) = None"
  shows "traval_llist ptr h = Some (vals L) \<and> get_listnum ptr h = Some (length L) \<and>
    (two_cells h \<longrightarrow> (\<exists>h1 h2 c d. insert_llist ptr v FRONT h = Some (OKAY, h1) \<and> llist_rep h1 ptr ((c, d, v) # L) \<and>
       unch (node_fp ptr L) {} h h1 \<and> insert_llist ptr v REAR h = Some (OKAY, h2) \<and>
       llist_rep h2 ptr (L @ [(c, d, v)]) \<and> unch (node_fp ptr L) {} h h2)) \<and>
    (\<not> two_cells h \<longrightarrow> (\<exists>h1. insert_llist ptr v way h = Some (FAIL, h1) \<and> llist_rep h1 ptr L \<and> nodes h1 = nodes h))"
  using traval_rep [OF assms(1)] insert_llist_rep [of h ptr "[]" L FRONT v] insert_llist_rep [of h ptr L "[]" REAR v]
    insert_llist_fail [OF assms(1) _ assms(2,3)] assms(1)
  by auto

lemma example_list:
  "\<exists>h L. llist_rep h 1 L \<and> vals L = [1, 2, 3 :: int] \<and> brk h = 8 \<and> lim h = 100 \<and> nodes h 8 = None"
proof -
  let ?h0 = "\<lparr>nodes = \<lambda>_. None, blocks = \<lambda>_. None, brk = 1, lim = 100\<rparr> :: int heap"
  obtain h1 :: "int heap" where h1: "llist_rep h1 1 []" "brk h1 = 2" "lim h1 = 100"
    using init_llist_rep [of ?h0] by (auto simp: unch_def numeral_2_eq_2)
  obtain h2 :: "int heap" and c2 d2 where h2: "llist_rep h2 1 [(c2, d2, 3)]" "brk h2 = 4" "lim h2 = 100"
    using insert_llist_rep [of h1 1 "[]" "[]" FRONT 3] h1 by (auto simp: two_cells_def unch_def)
  obtain h3 :: "int heap" and c3 d3 where h3: "llist_rep h3 1 [(c3, d3, 2), (c2, d2, 3)]" "brk h3 = 6" "lim h3 = 100"
    using insert_llist_rep [of h2 1 "[]" "[(c2, d2, 3)]" FRONT 2] h2 by (auto simp: two_cells_def unch_def)
  obtain h4 :: "int heap" and c4 d4 where h4: "llist_rep h4 1 [(c4, d4, 1), (c3, d3, 2), (c2, d2, 3)]" "brk h4 = 8" "lim h4 = 100"
    using insert_llist_rep [of h3 1 "[]" "[(c3, d3, 2), (c2, d2, 3)]" FRONT 1] h3 by (auto simp: two_cells_def unch_def)
  let ?L = "[(c4, d4, 1), (c3, d3, 2), (c2, d2, 3)] :: int cell list" and ?h = "h4\<lparr>nodes := (nodes h4)(8 := None)\<rparr>"
  have "unch {8} {} h4 ?h" by (simp add: unch_def)
  moreover have "8 \<notin> node_fp 1 ?L" using h4 by (auto simp: llist_rep_def)
  ultimately have "llist_rep ?h 1 ?L" using rep_frame [OF h4(1)] by simp
  then show ?thesis using h4 by (intro exI [of _ ?h] exI [of _ ?L]) (simp add: vals_def)
qed

theorem llist_is_a_sequence_witness:
  "\<exists>h h1. traval_llist 1 h = Some [1, 2, 3 :: int] \<and> insert_llist 1 4 FRONT h = Some (OKAY, h1)"
proof -
  obtain h L where "llist_rep h 1 L" "vals L = [1, 2, 3 :: int]" "brk h = 8" "lim h = 100" "nodes h 8 = None"
    using example_list by blast
  then show ?thesis using llist_is_a_sequence [of h 1 L 4] by (auto simp: two_cells_def)
qed

text \<open>
  C23. Searching: \<open>delete_llist\<close> unlinks and frees the last matching element and \<open>fetch_llist\<close> the
  first one, returning its data; both report failure and change nothing when no element matches; the
  other elements stay in order and no object outside the list changes.
\<close>
theorem llist_delete_and_fetch:
  assumes "llist_rep h ptr L"
  shows "((\<forall>v \<in> set (vals L). \<not> cmp v) \<longrightarrow> delete_llist ptr cmp h = Some (FAIL, h) \<and> fetch_llist ptr cmp h = Some (FAIL, None, h)) \<and>
    ((\<exists>v \<in> set (vals L). cmp v) \<longrightarrow>
      (\<exists>xs v ys h' L'. vals L = xs @ v # ys \<and> cmp v \<and> (\<forall>w \<in> set ys. \<not> cmp w) \<and>
         delete_llist ptr cmp h = Some (OKAY, h') \<and> llist_rep h' ptr L' \<and> vals L' = xs @ ys \<and>
         unch (node_fp ptr L) (block_fp L) h h') \<and>
      (\<exists>xs v ys h' L'. vals L = xs @ v # ys \<and> cmp v \<and> (\<forall>w \<in> set xs. \<not> cmp w) \<and>
         fetch_llist ptr cmp h = Some (OKAY, Some v, h') \<and> llist_rep h' ptr L' \<and> vals L' = xs @ ys \<and>
         unch (node_fp ptr L) (block_fp L) h h'))"
proof -
  have v: "vals (L1 @ (c, d, v) # L2) = vals L1 @ v # vals L2" "vals (L1 @ L2) = vals L1 @ vals L2"
    for L1 L2 :: "'a cell list" and c d v by (simp_all add: vals_def)
  have "\<exists>xs v ys h' L'. vals L = xs @ v # ys \<and> cmp v \<and> (\<forall>w \<in> set ys. \<not> cmp w) \<and>
      delete_llist ptr cmp h = Some (OKAY, h') \<and> llist_rep h' ptr L' \<and> vals L' = xs @ ys \<and>
      unch (node_fp ptr L) (block_fp L) h h'" if ex: "\<exists>v \<in> set (vals L). cmp v"
  proof -
    obtain L1 c d u L2 h' where "L = L1 @ (c, d, u) # L2" "cmp u" "\<forall>w \<in> set (vals L2). \<not> cmp w"
      "delete_llist ptr cmp h = Some (OKAY, h')" "llist_rep h' ptr (L1 @ L2)" "unch (node_fp ptr L) (block_fp L) h h'"
      using delete_llist_rep [OF assms, of cmp] ex by blast
    moreover from this have "vals L = vals L1 @ u # vals L2" "vals (L1 @ L2) = vals L1 @ vals L2" by (simp_all add: vals_def)
    ultimately show ?thesis by blast
  qed
  moreover have "\<exists>xs v ys h' L'. vals L = xs @ v # ys \<and> cmp v \<and> (\<forall>w \<in> set xs. \<not> cmp w) \<and>
      fetch_llist ptr cmp h = Some (OKAY, Some v, h') \<and> llist_rep h' ptr L' \<and> vals L' = xs @ ys \<and>
      unch (node_fp ptr L) (block_fp L) h h'" if ex: "\<exists>v \<in> set (vals L). cmp v"
  proof -
    obtain L1 c d u L2 h' where "L = L1 @ (c, d, u) # L2" "cmp u" "\<forall>w \<in> set (vals L1). \<not> cmp w"
      "fetch_llist ptr cmp h = Some (OKAY, Some u, h')" "llist_rep h' ptr (L1 @ L2)" "unch (node_fp ptr L) (block_fp L) h h'"
      using fetch_llist_rep [OF assms, of cmp] ex by blast
    moreover from this have "vals L = vals L1 @ u # vals L2" "vals (L1 @ L2) = vals L1 @ vals L2" by (simp_all add: vals_def)
    ultimately show ?thesis by blast
  qed
  moreover have "delete_llist ptr cmp h = Some (FAIL, h) \<and> fetch_llist ptr cmp h = Some (FAIL, None, h)"
    if "\<forall>v \<in> set (vals L). \<not> cmp v"
    using delete_llist_rep [OF assms, of cmp] fetch_llist_rep [OF assms, of cmp] that by (auto simp: vals_def)
  ultimately show ?thesis by blast
qed

theorem llist_delete_and_fetch_witness:
  "\<exists>h h' L'. delete_llist 1 (\<lambda>v. v < 3) h = Some (OKAY, h') \<and> llist_rep h' 1 L' \<and> vals L' = [1, 3 :: int]"
proof -
  obtain h L where hL: "llist_rep h 1 L" "vals L = [1, 2, 3 :: int]" using example_list by blast
  have "\<exists>v \<in> set (vals L). v < 3" using hL(2) by simp
  then obtain xs v ys h' L' where r: "vals L = xs @ v # ys" "v < 3" "\<forall>w \<in> set ys. \<not> w < 3"
    "delete_llist 1 (\<lambda>v. v < 3) h = Some (OKAY, h')" "llist_rep h' 1 L'" "vals L' = xs @ ys"
    using llist_delete_and_fetch [OF hL(1), of "\<lambda>v. v < 3"] by blast
  then have "xs @ v # ys = [1, 2, 3]" using hL(2) by simp
  then have "xs = [1] \<and> ys = [3]" using r(2,3) by (auto simp: append_eq_Cons_conv Cons_eq_append_conv)
  then show ?thesis using r(4-6) by auto
qed

text \<open>
  Reversing: when the allocations fit, \<open>reverse_llist\<close> builds a new list with the elements in
  reverse order and frees the old head, and \<open>reverse_r\<close> reverses the list in place; both end, and no
  object outside the list changes.
\<close>
theorem llist_reverse:
  assumes "llist_rep h ptr L" "0 < brk h" "brk h + 1 + 2 * length L \<le> lim h"
  shows "(\<exists>new h' M. reverse_llist ptr True h = Some (new, h') \<and> llist_rep h' new M \<and> vals M = rev (vals L) \<and>
      nodes h' ptr = None \<and> unch (node_fp ptr L) (block_fp L) h h') \<and>
    (\<exists>h' M. reverse_r ptr h = Some h' \<and> llist_rep h' ptr M \<and> vals M = rev (vals L) \<and>
      unch (node_fp ptr L) (block_fp L) h h')"
  using reverse_llist_rep [OF assms] reverse_r_rep [OF assms(1)] assms(3) by fastforce

theorem llist_reverse_witness:
  "\<exists>h h' M. reverse_r 1 h = Some h' \<and> llist_rep h' 1 M \<and> vals M = [3, 2, 1 :: int]"
proof -
  obtain h L where hL: "llist_rep h 1 L" "vals L = [1, 2, 3 :: int]" "brk h = 8" "lim h = 100"
    using example_list by blast
  have "length L = 3" using arg_cong [OF hL(2), of length] by (simp add: vals_def)
  then show ?thesis using llist_reverse [OF hL(1)] hL by auto
qed

text \<open>
  \<open>destroy_llist\<close> leaks nothing: it ends and frees the head, every node and every data block of the
  list, each once, and nothing else.
\<close>
theorem llist_destroy_frees_all:
  assumes "llist_rep h ptr L"
  shows "\<exists>h'. destroy_llist ptr h = Some h' \<and>
    (\<forall>a. nodes h' a = (if a \<in> node_fp ptr L then None else nodes h a)) \<and>
    (\<forall>d. blocks h' d = (if d \<in> block_fp L then None else blocks h d))"
  using destroy_llist_rep [OF assms] by blast

theorem llist_destroy_frees_all_witness:
  "\<exists>h h'. traval_llist 1 h = Some [1, 2, 3 :: int] \<and> destroy_llist 1 h = Some h' \<and> nodes h' 1 = None"
proof -
  obtain h L where hL: "llist_rep h 1 L" "vals L = [1, 2, 3 :: int]" using example_list by blast
  have "1 \<in> node_fp 1 L" by (simp add: node_fp_def)
  then show ?thesis using llist_destroy_frees_all [OF hL(1)] traval_rep(1) [OF hL(1)] hL(2) by auto
qed

end
