(* ===== verification/Tetris.thy ===== *)
theory Tetris
  imports Prelude
begin

text \<open>
  The Tetris game \<open>1.zhang/4.c_project/russian/main.c\<close>: the globals are a record, every function
  of the file that changes them is a definition, and the program is a run over key presses and timer
  ticks.  The pixels of the frame buffer are a function; \<open>exit(1)\<close> at game over is a value of the
  result.  Loop counters run over the declared array bounds, so only the one access outside that
  pattern, \<open>russian_p[i+delete_num][j]\<close>, is checked.  A tick is taken between two key presses: the
  signal handler of the program may also interrupt a function half way, which is not modelled.
\<close>

section \<open>Two-dimensional arrays\<close>

definition get2 :: "int list list \<Rightarrow> nat \<Rightarrow> nat \<Rightarrow> int" where
  "get2 g i j = g ! i ! j"

definition set2 :: "int list list \<Rightarrow> nat \<Rightarrow> nat \<Rightarrow> int \<Rightarrow> int list list" where
  "set2 g i j v = g[i := (g ! i)[j := v]]"

definition dims :: "nat \<Rightarrow> nat \<Rightarrow> int list list \<Rightarrow> bool" where
  "dims r c g \<longleftrightarrow> length g = r \<and> (\<forall>x \<in> set g. length x = c)"

lemma dims_set2 [simp]: "dims r c g \<Longrightarrow> i < r \<Longrightarrow> dims r c (set2 g i j v)"
  unfolding dims_def set2_def by (auto dest!: subsetD [OF set_update_subset_insert])

lemma get2_set2 [simp]:
  "dims r c g \<Longrightarrow> i < r \<Longrightarrow> j < c \<Longrightarrow>
   get2 (set2 g i j v) i' j' = (if i' = i \<and> j' = j then v else get2 g i' j')"
  by (auto simp: dims_def get2_def set2_def nth_list_update)

lemma grid_eqI:
  assumes "dims r c g" "dims r c h" "\<And>i j. i < r \<Longrightarrow> j < c \<Longrightarrow> get2 g i j = get2 h i j"
  shows "g = h"
  using assms by (auto simp: dims_def get2_def intro!: nth_equalityI)

section \<open>The program's data\<close>

datatype pic_type = BACK_GROUP | GUN | RECT | FUCK | LIANG | ZUO | YOU
datatype position = UP | RIGHT | DOWN | LEFT
datatype move_type = VERRIFY_DOWN | VERRIFY_LEFT | VERRIFY_RIGHT
datatype allow_type = NOT_ALLOW | ALLOW

definition COL_CANVAS :: nat where "COL_CANVAS = 4"
definition ROW_CANVAS :: nat where "ROW_CANVAS = 4"
definition ROW :: nat where "ROW = 20"
definition COL :: nat where "COL = 10"
definition DRAW_BLOCK_SIZE :: int where "DRAW_BLOCK_SIZE = 20"
definition PINK :: int where "PINK = 250"
definition BLUE :: int where "BLUE = 26"
definition YELLOW :: int where "YELLOW = 175"

lemmas tetris_consts = COL_CANVAS_def ROW_CANVAS_def ROW_def COL_def DRAW_BLOCK_SIZE_def

type_synonym screen = "int \<times> int \<Rightarrow> int"

record tetris =
  btype :: pic_type
  bpos :: position
  barr :: "int list list"
  max_x :: int
  max_y :: int
  min_x :: int
  min_y :: int
  current_max_x :: int
  current_max_y :: int
  current_min_x :: int
  russian :: "int list list"
  autodown_y :: int
  autodown_x :: int
  tmp_arr :: "int list list"
  screen :: screen

definition draw_element :: "int \<Rightarrow> int \<Rightarrow> int \<Rightarrow> screen \<Rightarrow> screen" where
  "draw_element x y color scr = (\<lambda>(px, py).
     if x + 800 \<le> px \<and> px < x + 800 + DRAW_BLOCK_SIZE \<and> y \<le> py \<and> py < y + DRAW_BLOCK_SIZE
     then color else scr (px, py))"

definition canvas :: "nat \<Rightarrow> (nat \<times> nat) list" where
  "canvas rows = List.product [0..<rows] [0..<COL_CANVAS]"

definition grid :: "(nat \<times> nat) list" where
  "grid = List.product [0..<ROW] [0..<COL]"

text \<open>\<open>px j\<close> is \<open>j*DRAW_BLOCK_SIZE\<close>; \<open>pt\<close> is the same on integers.\<close>

definition pt :: "int \<Rightarrow> int" where
  "pt a = a * DRAW_BLOCK_SIZE"

abbreviation px :: "nat \<Rightarrow> int" where
  "px j \<equiv> pt (int j)"

section \<open>Drawing the current block\<close>

text \<open>The \<open>switch\<close> that \<open>draw_picture\<close> and \<open>verify\<close> share: the cells set to 1, and the cells recorded
  as the right-most, left-most and lowest one; nothing is set for another type.\<close>

fun block_shape :: "pic_type \<Rightarrow> position \<Rightarrow>
    ((nat \<times> nat) list \<times> (nat \<times> nat) \<times> (nat \<times> nat) \<times> (nat \<times> nat)) option" where
  "block_shape FUCK UP = Some ([(0, 1), (1, 0), (1, 1), (1, 2)], (1, 2), (1, 0), (1, 2))"
| "block_shape FUCK DOWN = Some ([(0, 0), (0, 1), (0, 2), (1, 1)], (0, 2), (0, 0), (1, 1))"
| "block_shape FUCK LEFT = Some ([(1, 0), (0, 1), (1, 1), (2, 1)], (0, 1), (1, 0), (2, 1))"
| "block_shape FUCK RIGHT = Some ([(0, 1), (1, 1), (1, 2), (2, 1)], (1, 2), (0, 1), (2, 1))"
| "block_shape _ _ = None"

definition set_cells :: "(nat \<times> nat) list \<Rightarrow> int list list \<Rightarrow> int list list" where
  "set_cells cs a = fold (\<lambda>(i, j) a. set2 a i j 1) cs a"

definition draw_cell ::
  "(nat \<times> nat) \<times> (nat \<times> nat) \<times> (nat \<times> nat) \<Rightarrow> int \<Rightarrow> bool \<Rightarrow> nat \<times> nat \<Rightarrow> tetris \<Rightarrow> tetris" where
  "draw_cell ext color is_draw c t = (case (ext, c) of ((mx, mn, my), (i, j)) \<Rightarrow>
     if get2 (barr t) i j = 1 then
       let x = px j; y = px i;
           t1 = (if mx = (i, j) then t\<lparr>current_max_x := x\<rparr> else t);
           t2 = (if mn = (i, j) then t1\<lparr>current_min_x := x\<rparr> else t1);
           t3 = (if my = (i, j) then t2\<lparr>current_max_y := y\<rparr> else t2)
       in if is_draw then t3\<lparr>screen := draw_element (x + autodown_x t) (y + autodown_y t) color (screen t3)\<rparr>
          else t3
     else t)"

text \<open>With another type the recorded cells have no value: comparing them is undefined.\<close>

definition draw_picture :: "nat \<Rightarrow> int \<Rightarrow> bool \<Rightarrow> tetris \<Rightarrow> tetris option" where
  "draw_picture row_canvas color is_draw t = (case block_shape (btype t) (bpos t) of
     Some (cs, ext) \<Rightarrow>
       Some (fold (draw_cell ext color is_draw) (canvas row_canvas) (t\<lparr>barr := set_cells cs (barr t)\<rparr>))
   | None \<Rightarrow> if list_ex (\<lambda>(i, j). get2 (barr t) i j = 1) (canvas row_canvas) then None else Some t)"

definition reset_cell :: "nat \<times> nat \<Rightarrow> tetris \<Rightarrow> tetris" where
  "reset_cell c t = (case c of (i, j) \<Rightarrow>
     if get2 (barr t) i j = 1 then
       t\<lparr>barr := set2 (barr t) i j 0,
         screen := draw_element (px j + autodown_x t) (px i + autodown_y t) PINK (screen t)\<rparr>
     else t)"

definition reset_block :: "tetris \<Rightarrow> tetris" where
  "reset_block t = fold reset_cell (canvas ROW_CANVAS) t"

definition init_current_block :: "tetris \<Rightarrow> tetris" where
  "init_current_block t = t\<lparr>barr := replicate ROW_CANVAS (replicate COL_CANVAS 0), btype := FUCK, bpos := UP,
     autodown_y := 0, autodown_x := 0\<rparr>"

section \<open>Rotation\<close>

text \<open>The loop of \<open>verify\<close>: \<open>Inl\<close> is the early \<open>return NOT_ALLOW\<close>, which leaves the rest of \<open>tmp_arr\<close>
  set; \<open>Inr\<close> holds the three \<open>test_current\<close> locals, \<open>None\<close> while they have no value.\<close>

type_synonym tests = "int option \<times> int option \<times> int option"

fun verify_loop ::
  "(nat \<times> nat) \<times> (nat \<times> nat) \<times> (nat \<times> nat) \<Rightarrow> tetris \<Rightarrow> (nat \<times> nat) list \<Rightarrow> int list list \<Rightarrow> tests \<Rightarrow>
   (int list list + int list list \<times> tests)" where
  "verify_loop ext t [] tmp ts = Inr (tmp, ts)"
| "verify_loop (mx, mn, my) t ((i, j) # cs) tmp (tmax, tmin, tmy) =
     (if get2 tmp i j = 1 then
        let x = px j; y = px i; real_x = x + autodown_x t; real_y = y + autodown_y t;
            tmax1 = (if mx = (i, j) then Some x else tmax);
            tmin1 = (if mn = (i, j) then Some x else tmin);
            tmy1 = (if my = (i, j) then Some y else tmy);
            tmp1 = set2 tmp i j 0
        in if list_ex (\<lambda>(l, m). px m = real_x \<and> px l = real_y \<and> get2 (russian t) l m = 1) grid
           then Inl tmp1
           else verify_loop (mx, mn, my) t cs tmp1 (tmax1, tmin1, tmy1)
      else verify_loop (mx, mn, my) t cs tmp (tmax, tmin, tmy))"

definition verify_bounds :: "position \<Rightarrow> tests \<Rightarrow> tetris \<Rightarrow> allow_type option" where
  "verify_bounds pos ts t = (case ts of (tmax, tmin, tmy) \<Rightarrow>
     if pos = DOWN then do { m \<leftarrow> tmin; Some (if m + autodown_x t < min_x t then NOT_ALLOW else ALLOW) }
     else if pos = UP then do { m \<leftarrow> tmax; Some (if m + autodown_x t > max_x t then NOT_ALLOW else ALLOW) }
     else if pos = RIGHT then do { m \<leftarrow> tmy; Some (if m + autodown_y t > max_y t then NOT_ALLOW else ALLOW) }
     else Some ALLOW)"

definition verify :: "pic_type \<Rightarrow> position \<Rightarrow> nat \<Rightarrow> tetris \<Rightarrow> (allow_type \<times> tetris) option" where
  "verify type pos row_canvas t = (case block_shape type pos of
     None \<Rightarrow> if list_ex (\<lambda>(i, j). get2 (tmp_arr t) i j = 1) (canvas row_canvas) then None else Some (ALLOW, t)
   | Some (cs, ext) \<Rightarrow>
       (case verify_loop ext t (canvas row_canvas) (set_cells cs (tmp_arr t)) (None, None, None) of
          Inl tmp \<Rightarrow> Some (NOT_ALLOW, t\<lparr>tmp_arr := tmp\<rparr>)
        | Inr (tmp, ts) \<Rightarrow> do {
            let t1 = t\<lparr>tmp_arr := tmp\<rparr>;
            r \<leftarrow> verify_bounds pos ts t1;
            Some (r, t1) }))"

text \<open>\<open>(pos + 1) % 4\<close>.\<close>

fun next_pos :: "position \<Rightarrow> position" where
  "next_pos UP = RIGHT" | "next_pos RIGHT = DOWN" | "next_pos DOWN = LEFT" | "next_pos LEFT = UP"

definition change :: "tetris \<Rightarrow> tetris option" where
  "change t = do {
     (is_allow, t1) \<leftarrow> verify (btype t) (next_pos (bpos t)) ROW_CANVAS t;
     if is_allow = ALLOW
     then draw_picture ROW_CANVAS BLUE True ((reset_block t1)\<lparr>bpos := next_pos (bpos t)\<rparr>)
     else Some t1 }"

section \<open>Moves\<close>

definition is_stop :: "move_type \<Rightarrow> tetris \<Rightarrow> bool" where
  "is_stop type t = list_ex (\<lambda>(l, m). get2 (barr t) l m = 1 \<and>
     (let p = px m + autodown_x t; origin_q = px l + autodown_y t; q = origin_q + DRAW_BLOCK_SIZE;
          left_p = p - DRAW_BLOCK_SIZE; right_p = p + DRAW_BLOCK_SIZE
      in list_ex (\<lambda>(i, j). let x = px j; y = px i in
           (case type of
              VERRIFY_DOWN \<Rightarrow> p = x \<and> q = y
            | VERRIFY_LEFT \<Rightarrow> left_p = x \<and> origin_q = y
            | VERRIFY_RIGHT \<Rightarrow> right_p = x \<and> origin_q = y) \<and> get2 (russian t) i j = 1) grid))
     (canvas ROW_CANVAS)"

definition move_left :: "tetris \<Rightarrow> tetris option" where
  "move_left t =
     (if current_min_x t + autodown_x t - DRAW_BLOCK_SIZE < min_x t \<or> is_stop VERRIFY_LEFT t then Some t
      else do {
        t1 \<leftarrow> draw_picture ROW_CANVAS PINK True t;
        draw_picture ROW_CANVAS BLUE True (t1\<lparr>autodown_x := autodown_x t1 - DRAW_BLOCK_SIZE\<rparr>) })"

definition move_right :: "tetris \<Rightarrow> tetris option" where
  "move_right t =
     (if current_max_x t + autodown_x t + DRAW_BLOCK_SIZE > max_x t \<or> is_stop VERRIFY_RIGHT t then Some t
      else do {
        t1 \<leftarrow> draw_picture ROW_CANVAS PINK True t;
        draw_picture ROW_CANVAS BLUE True (t1\<lparr>autodown_x := autodown_x t1 + DRAW_BLOCK_SIZE\<rparr>) })"

section \<open>Fixing the block and deleting complete rows\<close>

type_synonym wall = "int list list \<times> screen"

definition i_j_arr :: "(nat \<times> nat) list" where
  "i_j_arr = map (\<lambda>k. (0, k)) [0..<COL]"

definition fix_cell :: "tetris \<Rightarrow> nat \<times> nat \<Rightarrow> nat \<times> nat \<Rightarrow> wall \<times> bool \<Rightarrow> wall \<times> bool" where
  "fix_cell t c d s = (case (c, d, s) of ((i, j), (l, m), ((g, scr), over)) \<Rightarrow>
     let x = px j; y = px i; p = px m + autodown_x t; q = px l + autodown_y t in
     if x = p \<and> y = q \<and> get2 (barr t) l m = 1
     then ((set2 g i j 1, draw_element p q YELLOW scr), over \<or> list_ex (\<lambda>k. i_j_arr ! k = (i, j)) [0..<COL])
     else s)"

definition fix_block :: "tetris \<Rightarrow> wall \<times> bool" where
  "fix_block t = fold (\<lambda>c. fold (fix_cell t c) (canvas ROW_CANVAS)) grid ((russian t, screen t), False)"

text \<open>A row is deleted when the loop over \<open>j\<close> reaches the last column without its \<open>break\<close>.\<close>

definition row_full :: "int list list \<Rightarrow> nat \<Rightarrow> bool" where
  "row_full g i = list_all (\<lambda>j. get2 g i j \<noteq> 0) [0..<COL]"

definition delete_row :: "nat \<Rightarrow> wall \<Rightarrow> wall" where
  "delete_row i w = fold (\<lambda>k (g, scr). (set2 g i k 0, draw_element (px k) (px i) PINK scr)) [0..<COL] w"

text \<open>The loop over \<open>i\<close> from \<open>n\<close> down to 1, with \<open>delete_num\<close> and \<open>last_delete_row\<close>.\<close>

fun delete_rows :: "nat \<Rightarrow> wall \<times> nat \<times> nat \<Rightarrow> wall \<times> nat \<times> nat" where
  "delete_rows 0 s = s"
| "delete_rows (Suc i) (w, delete_num, last_row) =
     delete_rows i (if row_full (fst w) (Suc i) then (delete_row (Suc i) w, delete_num + 1, Suc i)
                    else (w, delete_num, last_row))"

text \<open>Moving column \<open>j\<close> down, the rows \<open>i - 1\<close> to 0; the target row is checked.\<close>

fun sink_col :: "nat \<Rightarrow> nat \<Rightarrow> nat \<Rightarrow> wall \<Rightarrow> wall option" where
  "sink_col n j 0 w = Some w"
| "sink_col n j (Suc i) (g, scr) =
     (if get2 g i j = 1 then
        if i + n < ROW
        then sink_col n j i (set2 (set2 g i j 0) (i + n) j 1,
               draw_element (px j) (px (i + n)) YELLOW (draw_element (px j) (px i) PINK scr))
        else None
      else sink_col n j i (g, scr))"

fun sink_cols :: "nat \<Rightarrow> nat \<Rightarrow> nat list \<Rightarrow> wall \<Rightarrow> wall option" where
  "sink_cols n last_row [] w = Some w"
| "sink_cols n last_row (j # js) w = do { w1 \<leftarrow> sink_col n j last_row w; sink_cols n last_row js w1 }"

definition clear_rows :: "wall \<Rightarrow> wall option" where
  "clear_rows w = (let (w1, delete_num, last_delete_row) = delete_rows (ROW - 1) (w, 0, 0) in
     if delete_num \<noteq> 0 then sink_cols delete_num last_delete_row [0..<COL] w1 else Some w1)"

text \<open>\<open>copy\<close>: the flag says that the game is over and the program exits.\<close>

definition copy :: "tetris \<Rightarrow> (bool \<times> tetris) option" where
  "copy t = (let (w, over) = fix_block t in
     do { (g, scr) \<leftarrow> clear_rows w; Some (over, t\<lparr>russian := g, screen := scr\<rparr>) })"

section \<open>The program\<close>

datatype game = GameOver tetris | Playing tetris

definition down :: "tetris \<Rightarrow> game option" where
  "down t =
     (if current_max_y t + autodown_y t + DRAW_BLOCK_SIZE > max_y t \<or> is_stop VERRIFY_DOWN t then do {
        (over, t1) \<leftarrow> copy t;
        if over then Some (GameOver t1)
        else map_option Playing (draw_picture ROW_CANVAS BLUE True (init_current_block t1)) }
      else do {
        t1 \<leftarrow> draw_picture ROW_CANVAS PINK True t;
        map_option Playing (draw_picture ROW_CANVAS BLUE True (t1\<lparr>autodown_y := autodown_y t1 + DRAW_BLOCK_SIZE\<rparr>)) })"

definition init_cell :: "nat \<times> nat \<Rightarrow> tetris \<times> bool \<Rightarrow> tetris \<times> bool" where
  "init_cell c s = (case (c, s) of ((i, j), (t, is_init)) \<Rightarrow>
     let x = px j; y = px i;
         t1 = (if \<not> is_init then t\<lparr>max_x := x, min_x := x, max_y := y, min_y := y\<rparr>
               else let a = (if x > max_x t then t\<lparr>max_x := x\<rparr> else t);
                        b = (if x < min_x a then a\<lparr>min_x := x\<rparr> else a);
                        c = (if y > max_y b then b\<lparr>max_y := y\<rparr> else b)
                    in (if y < min_y c then c\<lparr>min_y := y\<rparr> else c))
     in (t1\<lparr>screen := draw_element x y PINK (screen t1)\<rparr>, True))"

definition init_game :: "tetris \<Rightarrow> tetris" where
  "init_game t = fst (fold init_cell grid (t\<lparr>russian := replicate ROW (replicate COL 0)\<rparr>, False))"

text \<open>The globals before \<open>init\<close> are zero; \<open>scr\<close> is what the frame buffer shows.\<close>

definition globals :: "screen \<Rightarrow> tetris" where
  "globals scr = \<lparr>btype = BACK_GROUP, bpos = UP, barr = [], max_x = 0, max_y = 0, min_x = 0, min_y = 0,
     current_max_x = 0, current_max_y = 0, current_min_x = 0, russian = [], autodown_y = 0, autodown_x = 0,
     tmp_arr = replicate ROW (replicate COL 0), screen = scr\<rparr>"

definition start_game :: "screen \<Rightarrow> tetris option" where
  "start_game scr = draw_picture ROW_CANVAS BLUE True (init_current_block (init_game (globals scr)))"

datatype event = Key char | Tick

definition on_event :: "event \<Rightarrow> tetris \<Rightarrow> game option" where
  "on_event e t = (case e of
     Tick \<Rightarrow> down t
   | Key ch \<Rightarrow>
       if ch = CHR ''w'' then map_option Playing (change t)
       else if ch = CHR ''a'' then map_option Playing (move_left t)
       else if ch = CHR ''s'' then down t
       else if ch = CHR ''d'' then map_option Playing (move_right t)
       else Some (Playing t))"

fun play :: "event list \<Rightarrow> tetris \<Rightarrow> game option" where
  "play [] t = Some (Playing t)"
| "play (e # es) t =
     (if e = Key (CHR ''q'') then Some (Playing t)
      else do {
        r \<leftarrow> on_event e t;
        case r of GameOver t1 \<Rightarrow> Some (GameOver t1) | Playing t1 \<Rightarrow> play es t1 })"


section \<open>Cells and pixels\<close>

text \<open>Positions are (row, column); the block's cells may lie outside the wall.\<close>

definition fixed_cells :: "int list list \<Rightarrow> (int \<times> int) set" where
  "fixed_cells g = {(int i, int j) | i j. i < ROW \<and> j < COL \<and> get2 g i j = 1}"

definition shape :: "position \<Rightarrow> (nat \<times> nat) list" where
  "shape p = (case block_shape FUCK p of Some (cs, _) \<Rightarrow> cs | None \<Rightarrow> [])"

definition shift :: "int \<Rightarrow> int \<Rightarrow> (nat \<times> nat) set \<Rightarrow> (int \<times> int) set" where
  "shift X Y C = (\<lambda>(l, m). (Y + int l, X + int m)) ` C"

definition block_at :: "position \<Rightarrow> int \<Rightarrow> int \<Rightarrow> (int \<times> int) set" where
  "block_at p X Y = shift X Y (set (shape p))"

definition pix :: "screen \<Rightarrow> int \<Rightarrow> int \<Rightarrow> int \<Rightarrow> int \<Rightarrow> int" where
  "pix scr I J dx dy = scr (800 + 20 * J + dx, 20 * I + dy)"

lemma pt_simps [simp]:
  "pt a + pt b = pt (a + b)" "pt a = pt b \<longleftrightarrow> a = b" "pt a < pt b \<longleftrightarrow> a < b" "pt a \<le> pt b \<longleftrightarrow> a \<le> b"
  "pt a + DRAW_BLOCK_SIZE = pt (a + 1)" "pt a - DRAW_BLOCK_SIZE = pt (a - 1)"
  by (auto simp: pt_def DRAW_BLOCK_SIZE_def)

lemma pix_draw:
  "0 \<le> dx \<Longrightarrow> dx < 20 \<Longrightarrow> 0 \<le> dy \<Longrightarrow> dy < 20 \<Longrightarrow>
   pix (draw_element (pt X) (pt Y) c scr) I J dx dy = (if I = Y \<and> J = X then c else pix scr I J dx dy)"
  by (auto simp: pix_def draw_element_def DRAW_BLOCK_SIZE_def pt_def)

definition draws :: "int \<Rightarrow> int \<Rightarrow> int \<Rightarrow> (nat \<times> nat) list \<Rightarrow> screen \<Rightarrow> screen" where
  "draws X Y c cs scr = fold (\<lambda>(i, j). draw_element (px j + pt X) (px i + pt Y) c) cs scr"

lemma pix_draws:
  assumes "0 \<le> dx" "dx < 20" "0 \<le> dy" "dy < 20"
  shows "pix (draws X Y c cs scr) I J dx dy = (if (I, J) \<in> shift X Y (set cs) then c else pix scr I J dx dy)"
proof (induction cs arbitrary: scr)
  case (Cons d cs)
  then show ?case by (cases d) (auto simp: draws_def pix_draw assms shift_def add.commute)
qed (simp add: draws_def shift_def)

lemma fixed_set2:
  assumes "dims ROW COL g" "i < ROW" "j < COL"
  shows "fixed_cells (set2 g i j 1) = insert (int i, int j) (fixed_cells g)"
  using assms by (auto simp: fixed_cells_def)

lemma hit_fixed:
  "list_ex (\<lambda>(i, j). int j = a \<and> int i = b \<and> get2 g i j = 1) grid \<longleftrightarrow> (b, a) \<in> fixed_cells g"
  "list_ex (\<lambda>(i, j). a = int j \<and> b = int i \<and> get2 g i j = 1) grid \<longleftrightarrow> (b, a) \<in> fixed_cells g"
  by (auto simp: list_ex_iff grid_def fixed_cells_def)

section \<open>The block drawn and erased\<close>

definition blank :: "int list list" where
  "blank = replicate ROW_CANVAS (replicate COL_CANVAS 0)"

definition arr_of :: "position \<Rightarrow> int list list" where
  "arr_of p = set_cells (shape p) blank"

lemma canvas_list:
  "canvas ROW_CANVAS = [(0,0),(0,1),(0,2),(0,3),(1,0),(1,1),(1,2),(1,3),(2,0),(2,1),(2,2),(2,3),(3,0),(3,1),(3,2),(3,3)]"
  by (simp add: canvas_def tetris_consts upt_rec numeral_eq_Suc)

lemma arr_of_list:
  "arr_of UP = [[0,1,0,0],[1,1,1,0],[0,0,0,0],[0,0,0,0]]"
  "arr_of DOWN = [[1,1,1,0],[0,1,0,0],[0,0,0,0],[0,0,0,0]]"
  "arr_of LEFT = [[0,1,0,0],[1,1,0,0],[0,1,0,0],[0,0,0,0]]"
  "arr_of RIGHT = [[0,1,0,0],[0,1,1,0],[0,1,0,0],[0,0,0,0]]"
  by (simp_all add: arr_of_def blank_def shape_def set_cells_def set2_def tetris_consts numeral_eq_Suc)

lemma set_cells_arr [simp]: "set_cells (shape p) (arr_of p) = arr_of p"
  by (cases p) (simp_all add: arr_of_list shape_def set_cells_def set2_def numeral_eq_Suc)

lemma set_cells_blank: "set_cells (shape p) blank = arr_of p"
  by (simp add: arr_of_def)

lemma arr_cells: "filter (\<lambda>(i, j). get2 (arr_of p) i j = 1) (canvas ROW_CANVAS) = cs \<Longrightarrow> set cs = set (shape p)"
  by (cases p) (auto simp: arr_of_list canvas_list shape_def get2_def)

fun right_cell :: "position \<Rightarrow> nat \<times> nat" where
  "right_cell UP = (1, 2)" | "right_cell DOWN = (0, 2)" | "right_cell LEFT = (0, 1)" | "right_cell RIGHT = (1, 2)"
fun left_cell :: "position \<Rightarrow> nat \<times> nat" where
  "left_cell UP = (1, 0)" | "left_cell DOWN = (0, 0)" | "left_cell LEFT = (1, 0)" | "left_cell RIGHT = (0, 1)"
fun low_cell :: "position \<Rightarrow> nat \<times> nat" where
  "low_cell UP = (1, 2)" | "low_cell DOWN = (1, 1)" | "low_cell LEFT = (2, 1)" | "low_cell RIGHT = (2, 1)"

lemma block_shape_fuck: "block_shape FUCK p = Some (shape p, right_cell p, left_cell p, low_cell p)"
  by (cases p) (simp_all add: shape_def)

lemma extreme_cells: "right_cell p \<in> set (shape p)" "left_cell p \<in> set (shape p)" "low_cell p \<in> set (shape p)"
  by (cases p; simp add: shape_def)+

lemma shape_bounds:
  "(l, m) \<in> set (shape p) \<Longrightarrow> snd (left_cell p) \<le> m \<and> m \<le> snd (right_cell p) \<and> l \<le> fst (low_cell p)"
  by (cases p) (auto simp: shape_def)

text \<open>The state after \<open>draw_picture\<close> on a block at column \<open>X\<close> and row \<open>Y\<close>.\<close>

definition drawn :: "position \<Rightarrow> int \<Rightarrow> int \<Rightarrow> int \<Rightarrow> tetris \<Rightarrow> tetris" where
  "drawn p X Y c t = t\<lparr>barr := arr_of p, current_max_x := px (snd (right_cell p)),
     current_min_x := px (snd (left_cell p)), current_max_y := px (fst (low_cell p)),
     screen := draws X Y c (filter (\<lambda>(i, j). get2 (arr_of p) i j = 1) (canvas ROW_CANVAS)) (screen t)\<rparr>"

lemma draw_cells:
  assumes "autodown_x t = pt X" "autodown_y t = pt Y"
  shows "fold (draw_cell (mx, mn, my) c True) cs t =
    t\<lparr>current_max_x := (if mx \<in> set cs \<and> get2 (barr t) (fst mx) (snd mx) = 1 then px (snd mx) else current_max_x t),
      current_min_x := (if mn \<in> set cs \<and> get2 (barr t) (fst mn) (snd mn) = 1 then px (snd mn) else current_min_x t),
      current_max_y := (if my \<in> set cs \<and> get2 (barr t) (fst my) (snd my) = 1 then px (fst my) else current_max_y t),
      screen := draws X Y c (filter (\<lambda>(i, j). get2 (barr t) i j = 1) cs) (screen t)\<rparr>"
  using assms
proof (induction cs arbitrary: t)
  case (Cons d cs)
  obtain i j where d: "d = (i, j)" by (cases d)
  show ?case
  proof (cases "get2 (barr t) i j = 1")
    case True
    let ?t = "t\<lparr>current_max_x := (if mx = (i, j) then px j else current_max_x t),
      current_min_x := (if mn = (i, j) then px j else current_min_x t),
      current_max_y := (if my = (i, j) then px i else current_max_y t),
      screen := draw_element (px j + pt X) (px i + pt Y) c (screen t)\<rparr>"
    have "draw_cell (mx, mn, my) c True d t = ?t"
      using True Cons.prems by (simp add: d draw_cell_def Let_def)
    moreover have X: "autodown_x ?t = pt X" and Y: "autodown_y ?t = pt Y" and B: "barr ?t = barr t"
      using Cons.prems by simp_all
    note IH = Cons.IH [OF X Y, unfolded B]
    ultimately have "fold (draw_cell (mx, mn, my) c True) (d # cs) t = fold (draw_cell (mx, mn, my) c True) cs ?t" by simp
    also have "\<dots> = ?t\<lparr>current_max_x := (if mx \<in> set cs \<and> get2 (barr t) (fst mx) (snd mx) = 1 then px (snd mx) else current_max_x ?t),
      current_min_x := (if mn \<in> set cs \<and> get2 (barr t) (fst mn) (snd mn) = 1 then px (snd mn) else current_min_x ?t),
      current_max_y := (if my \<in> set cs \<and> get2 (barr t) (fst my) (snd my) = 1 then px (fst my) else current_max_y ?t),
      screen := draws X Y c (filter (\<lambda>(i, j). get2 (barr t) i j = 1) cs) (screen ?t)\<rparr>"
      by (rule IH)
    also have "\<dots> = t\<lparr>current_max_x := (if mx \<in> set (d # cs) \<and> get2 (barr t) (fst mx) (snd mx) = 1 then px (snd mx) else current_max_x t),
      current_min_x := (if mn \<in> set (d # cs) \<and> get2 (barr t) (fst mn) (snd mn) = 1 then px (snd mn) else current_min_x t),
      current_max_y := (if my \<in> set (d # cs) \<and> get2 (barr t) (fst my) (snd my) = 1 then px (fst my) else current_max_y t),
      screen := draws X Y c (filter (\<lambda>(i, j). get2 (barr t) i j = 1) (d # cs)) (screen t)\<rparr>"
      using True by (intro tetris.equality) (auto simp: d draws_def)
    finally show ?thesis .
  next
    case False
    then have "fold (draw_cell (mx, mn, my) c True) (d # cs) t = fold (draw_cell (mx, mn, my) c True) cs t"
      by (simp add: d draw_cell_def)
    moreover have "e \<in> set (d # cs) \<and> get2 (barr t) (fst e) (snd e) = 1 \<longleftrightarrow> e \<in> set cs \<and> get2 (barr t) (fst e) (snd e) = 1" for e
      using False by (auto simp: d)
    moreover have "filter (\<lambda>(i, j). get2 (barr t) i j = 1) (d # cs) = filter (\<lambda>(i, j). get2 (barr t) i j = 1) cs"
      using False by (simp add: d)
    ultimately show ?thesis using Cons.IH [OF Cons.prems] by (simp only:)
  qed
qed (simp add: draws_def)

lemma arr_shape: "(i, j) \<in> set (shape p) \<Longrightarrow> get2 (arr_of p) i j = 1 \<and> (i, j) \<in> set (canvas ROW_CANVAS)"
  by (cases p) (auto simp: arr_of_list canvas_list shape_def get2_def)

lemma draw_picture_drawn:
  assumes "btype t = FUCK" "bpos t = p" "barr t = arr_of p \<or> barr t = blank"
    "autodown_x t = pt X" "autodown_y t = pt Y"
  shows "draw_picture ROW_CANVAS c True t = Some (drawn p X Y c t)"
proof -
  have b: "set_cells (shape p) (barr t) = arr_of p" using assms(3) set_cells_blank by auto
  have "get2 (arr_of p) (fst e) (snd e) = 1 \<and> e \<in> set (canvas ROW_CANVAS)"
    if "e \<in> {right_cell p, left_cell p, low_cell p}" for e
    using arr_shape [of "fst e" "snd e" p] extreme_cells [of p] that by auto
  then show ?thesis
    using assms(1,2,4,5) draw_cells [of "t\<lparr>barr := arr_of p\<rparr>" X Y]
    by (simp add: draw_picture_def block_shape_fuck b drawn_def)
qed

lemma reset_cells:
  assumes "autodown_x t = pt X" "autodown_y t = pt Y" "distinct cs" "dims 4 4 (barr t)" "\<forall>(i, j) \<in> set cs. i < 4 \<and> j < 4"
  shows "fold reset_cell cs t = t\<lparr>barr := fold (\<lambda>(i, j) a. if get2 a i j = 1 then set2 a i j 0 else a) cs (barr t),
     screen := draws X Y PINK (filter (\<lambda>(i, j). get2 (barr t) i j = 1) cs) (screen t)\<rparr>"
  using assms
proof (induction cs arbitrary: t)
  case (Cons d cs)
  obtain i j where d: "d = (i, j)" by (cases d)
  show ?case
  proof (cases "get2 (barr t) i j = 1")
    case True
    have f: "filter (\<lambda>(i', j'). get2 (set2 (barr t) i j 0) i' j' = 1) cs = filter (\<lambda>(i, j). get2 (barr t) i j = 1) cs"
      using Cons.prems by (intro filter_cong) (auto simp: d)
    have t: "reset_cell (i, j) t = t\<lparr>barr := set2 (barr t) i j 0, screen := draw_element (px j + pt X) (px i + pt Y) PINK (screen t)\<rparr>"
      using Cons.prems True by (simp add: d reset_cell_def)
    have "fold reset_cell (d # cs) t = fold reset_cell cs (reset_cell d t)" by simp
    also have "\<dots> = (reset_cell d t)\<lparr>barr := fold (\<lambda>(i, j) a. if get2 a i j = 1 then set2 a i j 0 else a) cs (barr (reset_cell d t)),
       screen := draws X Y PINK (filter (\<lambda>(i, j). get2 (barr (reset_cell d t)) i j = 1) cs) (screen (reset_cell d t))\<rparr>"
      using Cons.prems by (intro Cons.IH) (auto simp: t d)
    finally show ?thesis using True f by (simp add: d t draws_def del: get2_set2)
  next
    case False
    then have "reset_cell d t = t" by (simp add: d reset_cell_def)
    then show ?thesis using Cons False by (auto simp: d)
  qed
qed (simp add: draws_def)

lemma dims_arr_of: "dims 4 4 (arr_of p)"
  by (cases p) (simp_all add: arr_of_list dims_def)

lemma wipe_arr: "fold (\<lambda>(i, j) a. if get2 a i j = 1 then set2 a i j 0 else a) (canvas ROW_CANVAS) (arr_of p) = blank"
  by (cases p) (simp_all only: arr_of_list, code_simp+)

lemma reset_block_drawn:
  assumes "barr t = arr_of p" "autodown_x t = pt X" "autodown_y t = pt Y"
  shows "reset_block t = t\<lparr>barr := blank,
    screen := draws X Y PINK (filter (\<lambda>(i, j). get2 (arr_of p) i j = 1) (canvas ROW_CANVAS)) (screen t)\<rparr>"
proof -
  have "distinct (canvas ROW_CANVAS)" "\<forall>(i, j) \<in> set (canvas ROW_CANVAS). i < 4 \<and> j < 4"
    by (simp_all add: canvas_list)
  then show ?thesis
    using reset_cells [OF assms(2,3)] dims_arr_of [of p] assms(1) wipe_arr [of p] by (simp add: reset_block_def)
qed

section \<open>Where the block is\<close>

definition bits :: "int list list \<Rightarrow> bool" where
  "bits g \<longleftrightarrow> (\<forall>i < ROW. \<forall>j < COL. get2 g i j = 0 \<or> get2 g i j = 1)"

definition in_field :: "position \<Rightarrow> int \<Rightarrow> int \<Rightarrow> bool" where
  "in_field p X Y \<longleftrightarrow> 0 \<le> Y \<and> 0 \<le> X + int (snd (left_cell p)) \<and> X + int (snd (right_cell p)) \<le> 9 \<and>
     Y + int (fst (low_cell p)) \<le> (if p = LEFT then 20 else 19)"

definition placed :: "position \<Rightarrow> int \<Rightarrow> int \<Rightarrow> tetris \<Rightarrow> bool" where
  "placed p X Y t \<longleftrightarrow> btype t = FUCK \<and> bpos t = p \<and> barr t = arr_of p \<and> autodown_x t = pt X \<and> autodown_y t = pt Y \<and>
     current_max_x t = px (snd (right_cell p)) \<and> current_min_x t = px (snd (left_cell p)) \<and>
     current_max_y t = px (fst (low_cell p)) \<and> max_x t = pt 9 \<and> min_x t = pt 0 \<and> max_y t = pt 19 \<and> min_y t = pt 0 \<and>
     dims ROW COL (russian t) \<and> bits (russian t) \<and> dims ROW COL (tmp_arr t) \<and> in_field p X Y"

lemma arr_cells_all: "list_all (\<lambda>(l, m). get2 (arr_of p) l m = 1 \<longleftrightarrow> (l, m) \<in> set (shape p)) (canvas ROW_CANVAS)"
  by (cases p) (simp_all only:, code_simp+)

lemma arr_iff: "(l, m) \<in> set (canvas ROW_CANVAS) \<Longrightarrow> get2 (arr_of p) l m = 1 \<longleftrightarrow> (l, m) \<in> set (shape p)"
  using arr_cells_all [of p] by (auto simp: list_all_iff)

lemma shape_range: "(l, m) \<in> set (shape p) \<Longrightarrow> l < 4 \<and> m < 4 \<and> (l, m) \<in> set (canvas ROW_CANVAS)"
  using arr_shape [of l m p] by (auto simp: canvas_def tetris_consts)

fun moved :: "move_type \<Rightarrow> int \<times> int \<Rightarrow> int \<times> int" where
  "moved VERRIFY_DOWN (r, c) = (r + 1, c)"
| "moved VERRIFY_LEFT (r, c) = (r, c - 1)"
| "moved VERRIFY_RIGHT (r, c) = (r, c + 1)"

lemma is_stop_iff:
  assumes "placed p X Y t"
  shows "is_stop ty t \<longleftrightarrow> (\<exists>c \<in> block_at p X Y. moved ty c \<in> fixed_cells (russian t))"
proof -
  have t: "barr t = arr_of p" "autodown_x t = pt X" "autodown_y t = pt Y" using assms by (simp_all add: placed_def)
  have inner: "list_ex (\<lambda>(i, j). let x = px j; y = px i in
         (case ty of
            VERRIFY_DOWN \<Rightarrow> px m + autodown_x t = x \<and> px l + autodown_y t + DRAW_BLOCK_SIZE = y
          | VERRIFY_LEFT \<Rightarrow> px m + autodown_x t - DRAW_BLOCK_SIZE = x \<and> px l + autodown_y t = y
          | VERRIFY_RIGHT \<Rightarrow> px m + autodown_x t + DRAW_BLOCK_SIZE = x \<and> px l + autodown_y t = y) \<and>
         get2 (russian t) i j = 1) grid \<longleftrightarrow>
      moved ty (Y + int l, X + int m) \<in> fixed_cells (russian t)" for l m
    by (cases ty) (simp_all only: t Let_def pt_simps move_type.case, simp_all add: hit_fixed add_ac)
  have "is_stop ty t \<longleftrightarrow> (\<exists>(l, m) \<in> set (canvas ROW_CANVAS). get2 (arr_of p) l m = 1 \<and>
      moved ty (Y + int l, X + int m) \<in> fixed_cells (russian t))"
    unfolding is_stop_def Let_def list_ex_iff [of _ "canvas ROW_CANVAS"] t(1)
    by (intro bex_cong refl) (auto simp only: prod.case inner [unfolded Let_def] split: prod.splits)
  also have "\<dots> \<longleftrightarrow> (\<exists>(l, m) \<in> set (shape p). moved ty (Y + int l, X + int m) \<in> fixed_cells (russian t))"
    using arr_iff shape_range by blast
  finally show ?thesis by (simp add: block_at_def shift_def case_prod_beta)
qed

section \<open>Rotating\<close>

lemma verify_loop_step:
  assumes "autodown_x t = pt X" "autodown_y t = pt Y"
  shows "get2 tmp i j \<noteq> 1 \<Longrightarrow> verify_loop (mx, mn, my) t ((i, j) # cs) tmp (tmax, tmin, tmy) =
      verify_loop (mx, mn, my) t cs tmp (tmax, tmin, tmy)"
    and "get2 tmp i j = 1 \<Longrightarrow> (Y + int i, X + int j) \<in> fixed_cells (russian t) \<Longrightarrow>
      verify_loop (mx, mn, my) t ((i, j) # cs) tmp (tmax, tmin, tmy) = Inl (set2 tmp i j 0)"
    and "get2 tmp i j = 1 \<Longrightarrow> (Y + int i, X + int j) \<notin> fixed_cells (russian t) \<Longrightarrow>
      verify_loop (mx, mn, my) t ((i, j) # cs) tmp (tmax, tmin, tmy) = verify_loop (mx, mn, my) t cs (set2 tmp i j 0)
        (if mx = (i, j) then Some (px j) else tmax, if mn = (i, j) then Some (px j) else tmin,
         if my = (i, j) then Some (px i) else tmy)"
  using assms by (simp_all add: hit_fixed Let_def add.commute)

declare verify_loop.simps(2) [simp del]

lemma verify_loop_dims:
  assumes "dims ROW COL tmp" "\<forall>(i, j) \<in> set cs. i < ROW" "autodown_x t = pt X" "autodown_y t = pt Y"
  shows "case verify_loop (mx, mn, my) t cs tmp (tmax, tmin, tmy) of
    Inl tmp' \<Rightarrow> dims ROW COL tmp' | Inr (tmp', _) \<Rightarrow> dims ROW COL tmp'"
  using assms(1,2)
proof (induction cs arbitrary: tmp tmax tmin tmy)
  case (Cons c cs)
  obtain i j where c: "c = (i, j)" by (cases c)
  note step = verify_loop_step [OF assms(3,4), where i = i and j = j and tmp = tmp]
  consider "get2 tmp i j \<noteq> 1" | "get2 tmp i j = 1" "(Y + int i, X + int j) \<in> fixed_cells (russian t)"
    | "get2 tmp i j = 1" "(Y + int i, X + int j) \<notin> fixed_cells (russian t)" by blast
  then show ?case
  proof cases
    case 1
    then show ?thesis using Cons.IH [OF Cons.prems(1)] Cons.prems(2) by (simp add: c step(1))
  next
    case 2
    then show ?thesis using Cons.prems by (simp add: c step(2))
  next
    case 3
    then show ?thesis using Cons.IH [of "set2 tmp i j 0"] Cons.prems unfolding c step(3) [OF 3] by auto
  qed
qed simp

lemma verify_loop_keeps:
  assumes "verify_loop (mx, mn, my) t cs tmp (tmax, tmin, tmy) = Inr (tmp', (tmax', tmin', tmy'))"
    "autodown_x t = pt X" "autodown_y t = pt Y"
  shows "(mx \<notin> set cs \<longrightarrow> tmax' = tmax) \<and> (mn \<notin> set cs \<longrightarrow> tmin' = tmin) \<and> (my \<notin> set cs \<longrightarrow> tmy' = tmy)"
  using assms(1)
proof (induction cs arbitrary: tmp tmax tmin tmy)
  case (Cons c cs)
  obtain i j where c: "c = (i, j)" by (cases c)
  note step = verify_loop_step [OF assms(2,3), where i = i and j = j and tmp = tmp]
  consider "get2 tmp i j \<noteq> 1" | "get2 tmp i j = 1" "(Y + int i, X + int j) \<in> fixed_cells (russian t)"
    | "get2 tmp i j = 1" "(Y + int i, X + int j) \<notin> fixed_cells (russian t)" by blast
  then show ?case
  proof cases
    case 1
    then show ?thesis using Cons.IH Cons.prems by (simp add: c step(1))
  next
    case 2
    then show ?thesis using Cons.prems by (simp add: c step(2))
  next
    case 3
    note Cons.IH [OF Cons.prems [unfolded c step(3) [OF 3]]]
    then show ?thesis unfolding c by simp
  qed
qed simp

lemma verify_loop_pass:
  assumes "verify_loop (mx, mn, my) t cs tmp (tmax, tmin, tmy) = Inr (tmp', (tmax', tmin', tmy'))"
    "dims ROW COL tmp" "\<forall>(i, j) \<in> set cs. i < ROW \<and> j < COL" "distinct cs"
    "autodown_x t = pt X" "autodown_y t = pt Y"
  shows "(\<forall>(i, j) \<in> set cs. get2 tmp i j = 1 \<longrightarrow> (Y + int i, X + int j) \<notin> fixed_cells (russian t)) \<and>
    (mx \<in> set cs \<and> get2 tmp (fst mx) (snd mx) = 1 \<longrightarrow> tmax' = Some (px (snd mx))) \<and>
    (mn \<in> set cs \<and> get2 tmp (fst mn) (snd mn) = 1 \<longrightarrow> tmin' = Some (px (snd mn))) \<and>
    (my \<in> set cs \<and> get2 tmp (fst my) (snd my) = 1 \<longrightarrow> tmy' = Some (px (fst my)))"
  using assms
proof (induction cs arbitrary: tmp tmax tmin tmy)
  case (Cons c cs)
  obtain i j where c: "c = (i, j)" by (cases c)
  have r: "i < ROW" "j < COL" "(i, j) \<notin> set cs" using Cons.prems(3,4) by (auto simp: c)
  show ?case
  proof (cases "get2 tmp i j = 1")
    case True
    let ?tmp = "set2 tmp i j 0" and ?a = "if mx = (i, j) then Some (px j) else tmax"
      and ?b = "if mn = (i, j) then Some (px j) else tmin" and ?c = "if my = (i, j) then Some (px i) else tmy"
    have l: "verify_loop (mx, mn, my) t cs ?tmp (?a, ?b, ?c) = Inr (tmp', (tmax', tmin', tmy'))"
      and f: "(Y + int i, X + int j) \<notin> fixed_cells (russian t)"
    proof -
      show f: "(Y + int i, X + int j) \<notin> fixed_cells (russian t)"
      proof
        assume "(Y + int i, X + int j) \<in> fixed_cells (russian t)"
        from Cons.prems(1) [unfolded c verify_loop_step(2) [OF Cons.prems(5,6) True this]] show False by simp
      qed
      from Cons.prems(1) [unfolded c verify_loop_step(3) [OF Cons.prems(5,6) True f]]
      show "verify_loop (mx, mn, my) t cs ?tmp (?a, ?b, ?c) = Inr (tmp', (tmax', tmin', tmy'))" .
    qed
    have "get2 ?tmp i' j' = get2 tmp i' j'" if "(i', j') \<in> set cs" for i' j'
      using r Cons.prems(2) that by auto
    then have same: "\<forall>e \<in> set cs. get2 ?tmp (fst e) (snd e) = get2 tmp (fst e) (snd e)" by (metis prod.collapse)
    have "dims ROW COL ?tmp" "\<forall>(i, j) \<in> set cs. i < ROW \<and> j < COL" "distinct cs" using r Cons.prems(2-4) by auto
    note IH = Cons.IH [OF l this Cons.prems(5,6)]
    note k = verify_loop_keeps [OF l Cons.prems(5,6)]
    show ?thesis
    proof (intro conjI impI)
      show "\<forall>(i, j) \<in> set (c # cs). get2 tmp i j = 1 \<longrightarrow> (Y + int i, X + int j) \<notin> fixed_cells (russian t)"
      proof (intro ballI, clarify)
        fix a b assume m: "(a, b) \<in> set (c # cs)" "get2 tmp a b = 1" "(Y + int a, X + int b) \<in> fixed_cells (russian t)"
        then have "(a, b) \<in> set cs" using f by (auto simp: c)
        then show False using IH [THEN conjunct1] bspec [OF same] m(2,3) by fastforce
      qed
      show "tmax' = Some (px (snd mx))" if "mx \<in> set (c # cs) \<and> get2 tmp (fst mx) (snd mx) = 1"
        using that IH [THEN conjunct2] bspec [OF same, of mx] k r(3) unfolding c by (cases "mx = (i, j)") simp_all
      show "tmin' = Some (px (snd mn))" if "mn \<in> set (c # cs) \<and> get2 tmp (fst mn) (snd mn) = 1"
        using that IH [THEN conjunct2] bspec [OF same, of mn] k r(3) unfolding c by (cases "mn = (i, j)") simp_all
      show "tmy' = Some (px (fst my))" if "my \<in> set (c # cs) \<and> get2 tmp (fst my) (snd my) = 1"
        using that IH [THEN conjunct2] bspec [OF same, of my] k r(3) unfolding c by (cases "my = (i, j)") simp_all
    qed
  next
    case False
    then have "verify_loop (mx, mn, my) t cs tmp (tmax, tmin, tmy) = Inr (tmp', (tmax', tmin', tmy'))"
      using Cons.prems(1) verify_loop_step(1) [OF Cons.prems(5,6) False] by (simp add: c)
    then show ?thesis using Cons.IH [OF _ Cons.prems(2) _ _ Cons.prems(5,6)] Cons.prems(3,4) False by (auto simp: c)
  qed
qed simp

lemma set_cells_get2:
  assumes "dims R C a" "\<forall>(i, j) \<in> set cs. i < R \<and> j < C"
  shows "dims R C (set_cells cs a) \<and> get2 (set_cells cs a) i j = (if (i, j) \<in> set cs then 1 else get2 a i j)"
  using assms
proof (induction cs arbitrary: a)
  case (Cons c cs)
  obtain u v where c: "c = (u, v)" by (cases c)
  then have "dims R C (set2 a u v 1)" using Cons.prems by auto
  from Cons.IH [OF this] show ?case using Cons.prems by (auto simp: set_cells_def c)
qed (simp add: set_cells_def)

lemma verify_spec:
  assumes "placed p X Y t"
  shows "\<exists>r tmp. verify FUCK q ROW_CANVAS t = Some (r, t\<lparr>tmp_arr := tmp\<rparr>) \<and> dims ROW COL tmp \<and>
    (r = ALLOW \<longrightarrow> block_at q X Y \<inter> fixed_cells (russian t) = {} \<and> (q = DOWN \<longrightarrow> 0 \<le> X) \<and>
       (q = UP \<longrightarrow> X + 2 \<le> 9) \<and> (q = RIGHT \<longrightarrow> Y + 2 \<le> 19))"
proof -
  have t: "autodown_x t = pt X" "autodown_y t = pt Y" "dims ROW COL (tmp_arr t)"
    "min_x t = pt 0" "max_x t = pt 9" "max_y t = pt 19" using assms by (simp_all add: placed_def)
  let ?tmp = "set_cells (shape q) (tmp_arr t)" and ?cs = "canvas ROW_CANVAS"
  have cs: "\<forall>(i, j) \<in> set ?cs. i < ROW \<and> j < COL" "\<forall>(i, j) \<in> set ?cs. i < ROW" "distinct ?cs"
    by (simp_all only: canvas_list ROW_def COL_def, simp_all)
  have sh: "(i, j) \<in> set ?cs" if "(i, j) \<in> set (shape q)" for i j using shape_range [of i j q] that by simp
  have "\<forall>(i, j) \<in> set (shape q). i < ROW \<and> j < COL" using sh cs(1) by blast
  from set_cells_get2 [OF t(3) this] have tmp: "dims ROW COL ?tmp"
    "\<And>i j. (i, j) \<in> set (shape q) \<Longrightarrow> get2 ?tmp i j = 1" by auto
  note d = verify_loop_dims [OF tmp(1) cs(2) t(1,2), of "right_cell q" "left_cell q" "low_cell q" None None None]
  show ?thesis
  proof (cases "verify_loop (right_cell q, left_cell q, low_cell q) t ?cs ?tmp (None, None, None)")
    case (Inl tmp')
    then show ?thesis
      using d by (intro exI [of _ NOT_ALLOW] exI [of _ tmp']) (simp add: verify_def block_shape_fuck)
  next
    case (Inr b)
    obtain tmp' tmax tmin tmy where b: "b = (tmp', (tmax, tmin, tmy))" by (cases b)
    note pass = verify_loop_pass [OF Inr [unfolded b] tmp(1) cs(1,3) t(1,2)]
    have e: "e \<in> set ?cs \<and> get2 ?tmp (fst e) (snd e) = 1" if "e \<in> {right_cell q, left_cell q, low_cell q}" for e
      using that extreme_cells [of q] sh [of "fst e" "snd e"] tmp(2) [of "fst e" "snd e"] by auto
    have ts: "tmax = Some (px (snd (right_cell q)))" "tmin = Some (px (snd (left_cell q)))" "tmy = Some (px (fst (low_cell q)))"
      using pass e by blast+
    have "block_at q X Y \<inter> fixed_cells (russian t) = {}"
      using pass tmp(2) sh by (fastforce simp: block_at_def shift_def)
    moreover have "dims ROW COL tmp'" using d Inr b by simp
    moreover obtain r where "verify_bounds q (tmax, tmin, tmy) (t\<lparr>tmp_arr := tmp'\<rparr>) = Some r"
      "r = ALLOW \<longrightarrow> (q = DOWN \<longrightarrow> 0 \<le> X) \<and> (q = UP \<longrightarrow> X + 2 \<le> 9) \<and> (q = RIGHT \<longrightarrow> Y + 2 \<le> 19)"
      using ts t by (cases q) (auto simp: verify_bounds_def)
    ultimately show ?thesis
      using Inr b by (intro exI [of _ r] exI [of _ tmp']) (simp add: verify_def block_shape_fuck)
  qed
qed

text \<open>Drawing fixes everything about the block except where it is.\<close>

lemma placed_drawn:
  assumes "btype t = FUCK" "bpos t = p" "autodown_x t = pt X" "autodown_y t = pt Y" "in_field p X Y"
    "max_x t = pt 9" "min_x t = pt 0" "max_y t = pt 19" "min_y t = pt 0"
    "dims ROW COL (russian t)" "bits (russian t)" "dims ROW COL (tmp_arr t)"
  shows "placed p X Y (drawn p X Y c t)"
  using assms by (simp add: placed_def drawn_def)

definition cells_of :: "position \<Rightarrow> (nat \<times> nat) list" where
  "cells_of p = filter (\<lambda>(i, j). get2 (arr_of p) i j = 1) (canvas ROW_CANVAS)"

lemma set_cells_of [simp]: "set (cells_of p) = set (shape p)"
  using arr_iff shape_range by (fastforce simp: cells_of_def)

lemma drawn_fields [simp]:
  "russian (drawn p X Y c t) = russian t" "screen (drawn p X Y c t) = draws X Y c (cells_of p) (screen t)"
  "barr (drawn p X Y c t) = arr_of p"
  by (simp_all add: drawn_def cells_of_def)

lemma change_spec:
  assumes "placed p X Y t"
  shows "\<exists>t'. change t = Some t' \<and> russian t' = russian t \<and>
    (placed p X Y t' \<and> screen t' = screen t \<or>
     placed (next_pos p) X Y t' \<and> block_at (next_pos p) X Y \<inter> fixed_cells (russian t) = {} \<and>
     screen t' = draws X Y BLUE (cells_of (next_pos p)) (draws X Y PINK (cells_of p) (screen t)))"
proof -
  let ?q = "next_pos p"
  obtain r tmp where v: "verify FUCK ?q ROW_CANVAS t = Some (r, t\<lparr>tmp_arr := tmp\<rparr>)" "dims ROW COL tmp"
    "r = ALLOW \<longrightarrow> block_at ?q X Y \<inter> fixed_cells (russian t) = {} \<and> (?q = DOWN \<longrightarrow> 0 \<le> X) \<and>
       (?q = UP \<longrightarrow> X + 2 \<le> 9) \<and> (?q = RIGHT \<longrightarrow> Y + 2 \<le> 19)"
    using verify_spec [OF assms] by blast
  have c: "change t = (if r = ALLOW then draw_picture ROW_CANVAS BLUE True ((reset_block (t\<lparr>tmp_arr := tmp\<rparr>))\<lparr>bpos := ?q\<rparr>)
      else Some (t\<lparr>tmp_arr := tmp\<rparr>))"
    using assms v(1) by (simp add: change_def placed_def)
  show ?thesis
  proof (cases "r = ALLOW")
    case False
    then show ?thesis using c assms v(2) by (simp add: placed_def)
  next
    case True
    let ?t = "(t\<lparr>tmp_arr := tmp, barr := blank, screen := draws X Y PINK (cells_of p) (screen t), bpos := ?q\<rparr>)"
    have rb: "(reset_block (t\<lparr>tmp_arr := tmp\<rparr>))\<lparr>bpos := ?q\<rparr> = ?t"
      using reset_block_drawn [of "t\<lparr>tmp_arr := tmp\<rparr>" p X Y] assms by (simp add: placed_def cells_of_def)
    have fld: "in_field ?q X Y"
      using assms v(3) True by (cases p) (auto simp: placed_def in_field_def)
    have "change t = Some (drawn ?q X Y BLUE ?t)"
      using c True rb draw_picture_drawn [of ?t ?q X Y] assms by (simp add: placed_def)
    moreover have "placed ?q X Y (drawn ?q X Y BLUE ?t)"
      using assms v(2) fld by (intro placed_drawn) (simp_all add: placed_def)
    ultimately show ?thesis using v(3) True by auto
  qed
qed

section \<open>Moving\<close>

text \<open>Erasing the block, changing its place, drawing it again.\<close>

lemma redraw:
  assumes "placed p X Y t" "in_field p X' Y'"
    "\<And>s. upd s = s\<lparr>autodown_x := (if X' = X then autodown_x s else pt X'), autodown_y := (if Y' = Y then autodown_y s else pt Y')\<rparr>"
  shows "\<exists>t'. (do { t1 \<leftarrow> draw_picture ROW_CANVAS PINK True t; draw_picture ROW_CANVAS BLUE True (upd t1) }) = Some t' \<and>
    placed p X' Y' t' \<and> russian t' = russian t \<and>
    screen t' = draws X' Y' BLUE (cells_of p) (draws X Y PINK (cells_of p) (screen t))"
proof -
  let ?t1 = "drawn p X Y PINK t" and ?t2 = "upd (drawn p X Y PINK t)"
  have d: "draw_picture ROW_CANVAS PINK True t = Some ?t1"
    using assms(1) by (intro draw_picture_drawn) (simp_all add: placed_def)
  have f: "btype ?t2 = FUCK" "bpos ?t2 = p" "barr ?t2 = arr_of p" "autodown_x ?t2 = pt X'" "autodown_y ?t2 = pt Y'"
    "max_x ?t2 = pt 9" "min_x ?t2 = pt 0" "max_y ?t2 = pt 19" "min_y ?t2 = pt 0" "russian ?t2 = russian t"
    "tmp_arr ?t2 = tmp_arr t" "screen ?t2 = screen ?t1"
    using assms(1) by (auto simp: assms(3) placed_def drawn_def)
  have "draw_picture ROW_CANVAS BLUE True ?t2 = Some (drawn p X' Y' BLUE ?t2)"
    using f by (intro draw_picture_drawn) simp_all
  moreover have "placed p X' Y' (drawn p X' Y' BLUE ?t2)"
    using f assms(1,2) by (intro placed_drawn) (simp_all add: placed_def)
  ultimately show ?thesis using d f by auto
qed

lemma move_left_spec:
  assumes "placed p X Y t"
  defines "blocked \<equiv> X + int (snd (left_cell p)) = 0 \<or> (\<exists>c \<in> block_at p X Y. moved VERRIFY_LEFT c \<in> fixed_cells (russian t))"
  shows "(blocked \<longrightarrow> move_left t = Some t) \<and> (\<not> blocked \<longrightarrow> (\<exists>t'. move_left t = Some t' \<and> placed p (X - 1) Y t' \<and>
    russian t' = russian t \<and> screen t' = draws (X - 1) Y BLUE (cells_of p) (draws X Y PINK (cells_of p) (screen t))))"
proof -
  have t: "current_min_x t = px (snd (left_cell p))" "autodown_x t = pt X" "min_x t = pt 0" "in_field p X Y"
    using assms(1) by (simp_all add: placed_def)
  have edge: "current_min_x t + autodown_x t - DRAW_BLOCK_SIZE < min_x t \<longleftrightarrow> X + int (snd (left_cell p)) = 0"
    using t by (auto simp: in_field_def)
  have m: "move_left t = (if blocked then Some t else do {
        t1 \<leftarrow> draw_picture ROW_CANVAS PINK True t;
        draw_picture ROW_CANVAS BLUE True (t1\<lparr>autodown_x := autodown_x t1 - DRAW_BLOCK_SIZE\<rparr>) })"
    unfolding move_left_def blocked_def edge is_stop_iff [OF assms(1)] ..
  have d: "draw_picture ROW_CANVAS PINK True t = Some (drawn p X Y PINK t)"
    using assms(1) by (intro draw_picture_drawn) (simp_all add: placed_def)
  have "in_field p (X - 1) Y" if "\<not> blocked" using t(4) that by (auto simp: blocked_def in_field_def)
  then show ?thesis
    using redraw [OF assms(1), of "X - 1" Y "\<lambda>s. s\<lparr>autodown_x := pt (X - 1)\<rparr>"] t(2) by (simp add: m d drawn_def)
qed

lemma move_right_spec:
  assumes "placed p X Y t"
  defines "blocked \<equiv> X + int (snd (right_cell p)) = 9 \<or> (\<exists>c \<in> block_at p X Y. moved VERRIFY_RIGHT c \<in> fixed_cells (russian t))"
  shows "(blocked \<longrightarrow> move_right t = Some t) \<and> (\<not> blocked \<longrightarrow> (\<exists>t'. move_right t = Some t' \<and> placed p (X + 1) Y t' \<and>
    russian t' = russian t \<and> screen t' = draws (X + 1) Y BLUE (cells_of p) (draws X Y PINK (cells_of p) (screen t))))"
proof -
  have t: "current_max_x t = px (snd (right_cell p))" "autodown_x t = pt X" "max_x t = pt 9" "in_field p X Y"
    using assms(1) by (simp_all add: placed_def)
  have edge: "current_max_x t + autodown_x t + DRAW_BLOCK_SIZE > max_x t \<longleftrightarrow> X + int (snd (right_cell p)) = 9"
    using t by (auto simp: in_field_def)
  have m: "move_right t = (if blocked then Some t else do {
        t1 \<leftarrow> draw_picture ROW_CANVAS PINK True t;
        draw_picture ROW_CANVAS BLUE True (t1\<lparr>autodown_x := autodown_x t1 + DRAW_BLOCK_SIZE\<rparr>) })"
    unfolding move_right_def blocked_def edge is_stop_iff [OF assms(1)] ..
  have d: "draw_picture ROW_CANVAS PINK True t = Some (drawn p X Y PINK t)"
    using assms(1) by (intro draw_picture_drawn) (simp_all add: placed_def)
  have "in_field p (X + 1) Y" if "\<not> blocked" using t(4) that by (auto simp: blocked_def in_field_def)
  then show ?thesis
    using redraw [OF assms(1), of "X + 1" Y "\<lambda>s. s\<lparr>autodown_x := pt (X + 1)\<rparr>"] t(2) by (simp add: m d drawn_def)
qed

section \<open>The wall and its picture\<close>

definition field :: "(int \<times> int) set" where
  "field = {0..<20} \<times> {0..<10}"

definition wall_ok :: "wall \<Rightarrow> bool" where
  "wall_ok w \<longleftrightarrow> dims ROW COL (fst w) \<and> bits (fst w)"

definition wall_shown :: "wall \<Rightarrow> bool" where
  "wall_shown w \<longleftrightarrow> (\<forall>I J dx dy. (I, J) \<in> field \<longrightarrow> 0 \<le> dx \<longrightarrow> dx < 20 \<longrightarrow> 0 \<le> dy \<longrightarrow> dy < 20 \<longrightarrow>
     pix (snd w) I J dx dy = (if (I, J) \<in> fixed_cells (fst w) then YELLOW else PINK))"

lemma wall_ok_set2:
  "wall_ok (g, scr) \<Longrightarrow> i < ROW \<Longrightarrow> j < COL \<Longrightarrow> v = 0 \<or> v = 1 \<Longrightarrow> wall_ok (set2 g i j v, scr')"
  unfolding wall_ok_def bits_def by (auto split: if_splits) blast+

lemma fixed_iff: "i < ROW \<Longrightarrow> j < COL \<Longrightarrow> (int i, int j) \<in> fixed_cells g \<longleftrightarrow> get2 g i j = 1"
  by (auto simp: fixed_cells_def)

lemma fixed_field: "fixed_cells g \<subseteq> field"
  by (auto simp: fixed_cells_def field_def tetris_consts)

lemma fixed_set2_0:
  "dims ROW COL g \<Longrightarrow> i < ROW \<Longrightarrow> j < COL \<Longrightarrow> fixed_cells (set2 g i j 0) = fixed_cells g - {(int i, int j)}"
  by (auto simp: fixed_cells_def)

lemma wall_shown_set2:
  assumes "wall_shown (g, scr)" "wall_ok (g, scr)" "i < ROW" "j < COL"
  shows "wall_shown (set2 g i j 0, draw_element (px j) (px i) PINK scr)"
    and "wall_shown (set2 g i j 1, draw_element (px j) (px i) YELLOW scr)"
  using assms by (auto simp: wall_shown_def pix_draw wall_ok_def fixed_set2 fixed_set2_0)

lemma i_j_arr_row: "j < COL \<Longrightarrow> list_ex (\<lambda>k. i_j_arr ! k = (i, j)) [0..<COL] \<longleftrightarrow> i = 0"
  by (auto simp: list_ex_iff i_j_arr_def)

lemma draw_twice [simp]: "draw_element x y c (draw_element x y c scr) = draw_element x y c scr"
  by (auto simp: draw_element_def)

lemma set2_twice [simp]: "dims r c g \<Longrightarrow> i < r \<Longrightarrow> set2 (set2 g i j v) i j v = set2 g i j v"
  by (auto simp: set2_def dims_def)

lemma fix_cells:
  assumes "barr t = arr_of p" "autodown_x t = pt X" "autodown_y t = pt Y" "dims ROW COL g" "i < ROW" "j < COL"
    "set ds \<subseteq> set (canvas ROW_CANVAS)"
  shows "fold (fix_cell t (i, j)) ds ((g, scr), ov) =
    (if (int i, int j) \<in> shift X Y (set ds \<inter> set (shape p))
     then ((set2 g i j 1, draw_element (px j) (px i) YELLOW scr), ov \<or> i = 0) else ((g, scr), ov))"
  using assms(4,7)
proof (induction ds arbitrary: g scr ov)
  case (Cons d ds)
  obtain l m where d: "d = (l, m)" by (cases d)
  have on: "get2 (barr t) l m = 1 \<longleftrightarrow> (l, m) \<in> set (shape p)" using arr_iff [of l m p] Cons.prems(2) assms(1) by (simp add: d)
  have step: "fix_cell t (i, j) d ((g, scr), ov) = (if (int i, int j) = (Y + int l, X + int m) \<and> (l, m) \<in> set (shape p)
     then ((set2 g i j 1, draw_element (px j) (px i) YELLOW scr), ov \<or> i = 0) else ((g, scr), ov))"
    using assms(2,3) i_j_arr_row [OF assms(6)] on by (auto simp: fix_cell_def d Let_def add.commute)
  have "(int i, int j) \<in> shift X Y (set (d # ds) \<inter> set (shape p)) \<longleftrightarrow>
      (int i, int j) = (Y + int l, X + int m) \<and> (l, m) \<in> set (shape p) \<or> (int i, int j) \<in> shift X Y (set ds \<inter> set (shape p))"
    by (auto simp: shift_def d)
  then show ?case
    using step Cons.IH [of "set2 g i j 1"] Cons.IH [of g] Cons.prems assms(5) by auto
qed (simp add: shift_def)

lemma fix_grid:
  assumes t: "barr t = arr_of p" "autodown_x t = pt X" "autodown_y t = pt Y"
    and "wall_ok (g, scr)" "\<forall>(i, j) \<in> set gs. i < ROW \<and> j < COL"
  defines "hit \<equiv> {(int i, int j) | i j. (i, j) \<in> set gs} \<inter> block_at p X Y"
  shows "\<exists>g' scr'. fold (\<lambda>c. fold (fix_cell t c) (canvas ROW_CANVAS)) gs ((g, scr), ov) =
      ((g', scr'), ov \<or> (\<exists>c. (0, c) \<in> hit)) \<and>
    wall_ok (g', scr') \<and> fixed_cells g' = fixed_cells g \<union> hit \<and>
    (\<forall>I J dx dy. 0 \<le> dx \<longrightarrow> dx < 20 \<longrightarrow> 0 \<le> dy \<longrightarrow> dy < 20 \<longrightarrow>
       pix scr' I J dx dy = (if (I, J) \<in> hit then YELLOW else pix scr I J dx dy))"
  using assms(4,5) unfolding hit_def
proof (induction gs arbitrary: g scr ov)
  case Nil
  then show ?case by simp
next
  case (Cons d gs)
  obtain i j where d: "d = (i, j)" by (cases d)
  have r: "i < ROW" "j < COL" "dims ROW COL g" using Cons.prems by (auto simp: d wall_ok_def)
  let ?on = "(int i, int j) \<in> block_at p X Y"
  let ?g = "if ?on then set2 g i j 1 else g" and ?scr = "if ?on then draw_element (px j) (px i) YELLOW scr else scr"
  have sub: "set (canvas ROW_CANVAS) \<inter> set (shape p) = set (shape p)" using shape_range by fastforce
  have step: "fold (fix_cell t d) (canvas ROW_CANVAS) ((g, scr), ov) = ((?g, ?scr), ov \<or> ?on \<and> i = 0)"
    using fix_cells [OF t r(3,1,2), of "canvas ROW_CANVAS"] by (simp add: d sub block_at_def)
  have "wall_ok (?g, ?scr)" using wall_ok_set2 [OF Cons.prems(1) r(1,2)] Cons.prems(1) by simp
  moreover have "\<forall>(i, j) \<in> set gs. i < ROW \<and> j < COL" using Cons.prems(2) by simp
  ultimately obtain g' scr' where IH: "fold (\<lambda>c. fold (fix_cell t c) (canvas ROW_CANVAS)) gs ((?g, ?scr), ov \<or> ?on \<and> i = 0) =
      ((g', scr'), (ov \<or> ?on \<and> i = 0) \<or> (\<exists>c. (0, c) \<in> {(int i, int j) | i j. (i, j) \<in> set gs} \<inter> block_at p X Y))"
    "wall_ok (g', scr')" "fixed_cells g' = fixed_cells ?g \<union> {(int i, int j) | i j. (i, j) \<in> set gs} \<inter> block_at p X Y"
    "\<forall>I J dx dy. 0 \<le> dx \<longrightarrow> dx < 20 \<longrightarrow> 0 \<le> dy \<longrightarrow> dy < 20 \<longrightarrow> pix scr' I J dx dy =
      (if (I, J) \<in> {(int i, int j) | i j. (i, j) \<in> set gs} \<inter> block_at p X Y then YELLOW else pix ?scr I J dx dy)"
    using Cons.IH [of ?g ?scr "ov \<or> ?on \<and> i = 0"] by blast
  let ?hit = "{(int i, int j) | i j. (i, j) \<in> set (d # gs)} \<inter> block_at p X Y"
  have hit: "?hit = (if ?on then {(int i, int j)} else {}) \<union> {(int i, int j) | i j. (i, j) \<in> set gs} \<inter> block_at p X Y"
    by (auto simp: d)
  have "fold (\<lambda>c. fold (fix_cell t c) (canvas ROW_CANVAS)) (d # gs) ((g, scr), ov) =
      ((g', scr'), ov \<or> (\<exists>c. (0, c) \<in> ?hit))"
    using IH(1) step hit by auto
  moreover have "fixed_cells g' = fixed_cells g \<union> ?hit" using IH(3) r fixed_set2 hit by auto
  moreover have "\<forall>I J dx dy. 0 \<le> dx \<longrightarrow> dx < 20 \<longrightarrow> 0 \<le> dy \<longrightarrow> dy < 20 \<longrightarrow>
       pix scr' I J dx dy = (if (I, J) \<in> ?hit then YELLOW else pix scr I J dx dy)"
    using IH(4) hit by (auto simp: pix_draw)
  ultimately show ?case using IH(2) by blast
qed

lemma grid_all: "{(int i, int j) | i j. (i, j) \<in> set grid} = field"
proof -
  have "(a, b) \<in> {(int i, int j) | i j. (i, j) \<in> set grid}" if "(a, b) \<in> field" for a b
    using that by (intro CollectI exI [of _ "nat a"] exI [of _ "nat b"]) (auto simp: field_def grid_def tetris_consts)
  then show ?thesis by (auto simp: field_def grid_def tetris_consts)
qed

lemma fix_block_spec:
  assumes "placed p X Y t"
  obtains g scr where "fix_block t = ((g, scr), \<exists>c. (0, c) \<in> field \<inter> block_at p X Y)"
    "wall_ok (g, scr)" "fixed_cells g = fixed_cells (russian t) \<union> field \<inter> block_at p X Y"
    "\<forall>I J dx dy. 0 \<le> dx \<longrightarrow> dx < 20 \<longrightarrow> 0 \<le> dy \<longrightarrow> dy < 20 \<longrightarrow>
       pix scr I J dx dy = (if (I, J) \<in> field \<inter> block_at p X Y then YELLOW else pix (screen t) I J dx dy)"
proof -
  have "wall_ok (russian t, screen t)" "\<forall>(i, j) \<in> set grid. i < ROW \<and> j < COL"
    using assms by (auto simp: placed_def wall_ok_def grid_def)
  moreover have "barr t = arr_of p" "autodown_x t = pt X" "autodown_y t = pt Y" using assms by (simp_all add: placed_def)
  ultimately show ?thesis using that fix_grid [of t p X Y "russian t" "screen t" grid False] unfolding fix_block_def grid_all by fastforce
qed

section \<open>Deleting rows\<close>

lemma delete_row_spec:
  assumes "wall_ok (g, scr)" "i < ROW"
  shows "\<exists>g' scr'. delete_row i (g, scr) = (g', scr') \<and> wall_ok (g', scr') \<and>
    (\<forall>i' < ROW. \<forall>j' < COL. get2 g' i' j' = (if i' = i then 0 else get2 g i' j')) \<and>
    (wall_shown (g, scr) \<longrightarrow> wall_shown (g', scr'))"
proof -
  let ?f = "\<lambda>k (g, scr). (set2 g i k 0, draw_element (px k) (px i) PINK scr)"
  have H: "\<exists>g' scr'. fold ?f ks (g, scr) = (g', scr') \<and> wall_ok (g', scr') \<and>
      (\<forall>i' < ROW. \<forall>j' < COL. get2 g' i' j' = (if i' = i \<and> j' \<in> set ks then 0 else get2 g i' j')) \<and>
      (wall_shown (g, scr) \<longrightarrow> wall_shown (g', scr'))" if "set ks \<subseteq> {..<COL}" for ks
    using assms that
  proof (induction ks arbitrary: g scr)
    case (Cons k ks)
    let ?g = "set2 g i k 0" and ?scr = "draw_element (px k) (px i) PINK scr"
    have k: "k < COL" "dims ROW COL g" using Cons.prems by (auto simp: wall_ok_def)
    have "wall_ok (?g, ?scr)" using wall_ok_set2 [OF Cons.prems(1,2) k(1)] by simp
    then obtain g' scr' where "fold ?f ks (?g, ?scr) = (g', scr')" "wall_ok (g', scr')"
      "\<forall>i' < ROW. \<forall>j' < COL. get2 g' i' j' = (if i' = i \<and> j' \<in> set ks then 0 else get2 ?g i' j')"
      "wall_shown (?g, ?scr) \<longrightarrow> wall_shown (g', scr')"
      using Cons.IH [of ?g ?scr] Cons.prems by auto
    then show ?case using k Cons.prems wall_shown_set2(1) [of g scr i k] by auto
  qed simp
  obtain g' scr' where "fold ?f [0..<COL] (g, scr) = (g', scr')" "wall_ok (g', scr')"
    "\<forall>i' < ROW. \<forall>j' < COL. get2 g' i' j' = (if i' = i \<and> j' \<in> set [0..<COL] then 0 else get2 g i' j')"
    "wall_shown (g, scr) \<longrightarrow> wall_shown (g', scr')"
    using H [of "[0..<COL]"] by (auto simp: subset_iff)
  then show ?thesis by (intro exI [of _ g'] exI [of _ scr']) (auto simp: delete_row_def)
qed

lemma row_full_cong: "(\<And>j. j < COL \<Longrightarrow> get2 g i j = get2 g' i j) \<Longrightarrow> row_full g i = row_full g' i"
  by (auto simp: row_full_def list_all_iff)

lemma delete_rows_spec:
  assumes "wall_ok (g, scr)" "n < ROW"
  defines "full \<equiv> \<lambda>g n. {i \<in> {1..n}. row_full g i}"
  shows "\<exists>g' scr'. delete_rows n ((g, scr), num, lst) =
      ((g', scr'), num + card (full g n), if full g n = {} then lst else Min (full g n)) \<and> wall_ok (g', scr') \<and>
    (\<forall>i < ROW. \<forall>j < COL. get2 g' i j = (if i \<in> full g n then 0 else get2 g i j)) \<and>
    (wall_shown (g, scr) \<longrightarrow> wall_shown (g', scr'))"
  using assms(1,2) unfolding full_def
proof (induction n arbitrary: g scr num lst)
  case (Suc n)
  have split: "{i \<in> {1..Suc n}. row_full g i} = (if row_full g (Suc n) then insert (Suc n) {i \<in> {1..n}. row_full g i}
      else {i \<in> {1..n}. row_full g i})" by (auto simp: le_Suc_eq)
  show ?case
  proof (cases "row_full g (Suc n)")
    case False
    moreover have "n < ROW" using Suc.prems(2) by simp
    ultimately show ?thesis
      using Suc.IH [OF Suc.prems(1), of num lst] unfolding split if_not_P [OF False] by (simp only: delete_rows.simps fst_conv if_False)
  next
    case True
    obtain g1 scr1 where d: "delete_row (Suc n) (g, scr) = (g1, scr1)" "wall_ok (g1, scr1)"
      "\<forall>i' < ROW. \<forall>j' < COL. get2 g1 i' j' = (if i' = Suc n then 0 else get2 g i' j')"
      "wall_shown (g, scr) \<longrightarrow> wall_shown (g1, scr1)"
      using delete_row_spec [OF Suc.prems] by blast
    have "row_full g1 i = row_full g i" if "i \<in> {1..n}" for i
      using d(3) that Suc.prems(2) by (intro row_full_cong) auto
    then have same: "{i \<in> {1..n}. row_full g1 i} = {i \<in> {1..n}. row_full g i}" by auto
    let ?F = "{i \<in> {1..n}. row_full g i}"
    obtain g' scr' where r: "delete_rows n ((g1, scr1), num + 1, Suc n) =
        ((g', scr'), num + 1 + card ?F, if ?F = {} then Suc n else Min ?F)" "wall_ok (g', scr')"
      "\<forall>i < ROW. \<forall>j < COL. get2 g' i j = (if i \<in> ?F then 0 else get2 g1 i j)"
      "wall_shown (g1, scr1) \<longrightarrow> wall_shown (g', scr')"
      using Suc.IH [OF d(2), of "num + 1" "Suc n"] Suc.prems(2) unfolding same by auto
    have "Min (insert (Suc n) ?F) = (if ?F = {} then Suc n else Min ?F)"
    proof (cases "?F = {}")
      case False
      then have "Min ?F \<in> ?F" by (intro Min_in) auto
      then have "min (Suc n) (Min ?F) = Min ?F" by auto
      then show ?thesis using False by (subst Min_insert) auto
    next
      case True
      show ?thesis unfolding True by simp
    qed
    moreover have "card (insert (Suc n) ?F) = Suc (card ?F)" by (subst card_insert_disjoint) auto
    ultimately have "delete_rows (Suc n) ((g, scr), num, lst) =
        ((g', scr'), num + card (insert (Suc n) ?F), Min (insert (Suc n) ?F))"
      using r(1) d(1) True by simp
    then show ?thesis unfolding split if_P [OF True] using r(2-4) d(3,4) by (intro exI [of _ g'] exI [of _ scr']) auto
  qed
qed simp

section \<open>Moving down what is above\<close>

lemma sink_col_spec:
  assumes "wall_ok (g, scr)" "j < COL" "i + n \<le> ROW" "0 < n" "i \<le> ROW"
  shows "\<exists>g' scr'. sink_col n j i (g, scr) = Some (g', scr') \<and> wall_ok (g', scr') \<and>
    (\<forall>r < ROW. \<forall>c < COL. get2 g' r c =
      (if c \<noteq> j then get2 g r c
       else if i \<le> r \<and> get2 g r j = 1 \<or> n \<le> r \<and> r - n < i \<and> get2 g (r - n) j = 1 then 1 else 0)) \<and>
    (wall_shown (g, scr) \<longrightarrow> wall_shown (g', scr'))"
  using assms
proof (induction i arbitrary: g scr)
  case 0
  then show ?case by (auto simp: wall_ok_def bits_def)
next
  case (Suc i)
  have r: "i < ROW" "i + n < ROW" "dims ROW COL g" using Suc.prems by (auto simp: wall_ok_def)
  show ?case
  proof (cases "get2 g i j = 1")
    case False
    then have z: "get2 g i j = 0" using Suc.prems(1,2) r(1) by (auto simp: wall_ok_def bits_def)
    obtain g' scr' where IH: "sink_col n j i (g, scr) = Some (g', scr')" "wall_ok (g', scr')"
      "\<forall>r < ROW. \<forall>c < COL. get2 g' r c = (if c \<noteq> j then get2 g r c
         else if i \<le> r \<and> get2 g r j = 1 \<or> n \<le> r \<and> r - n < i \<and> get2 g (r - n) j = 1 then 1 else 0)"
      "wall_shown (g, scr) \<longrightarrow> wall_shown (g', scr')"
      using Suc.IH [OF Suc.prems(1,2)] Suc.prems by auto
    have "(i \<le> r \<and> get2 g r j = 1 \<or> n \<le> r \<and> r - n < i \<and> get2 g (r - n) j = 1) \<longleftrightarrow>
        (Suc i \<le> r \<and> get2 g r j = 1 \<or> n \<le> r \<and> r - n < Suc i \<and> get2 g (r - n) j = 1)" for r
      using z by (auto simp: less_Suc_eq le_less)
    then have "get2 g' r c = (if c \<noteq> j then get2 g r c
       else if Suc i \<le> r \<and> get2 g r j = 1 \<or> n \<le> r \<and> r - n < Suc i \<and> get2 g (r - n) j = 1 then 1 else 0)"
      if "r < ROW" "c < COL" for r c using IH(3) that by (simp only:)
    moreover have "sink_col n j (Suc i) (g, scr) = Some (g', scr')" using IH(1) False by simp
    ultimately show ?thesis using IH(2,4) by blast
  next
    case True
    let ?g1 = "set2 g i j 0" and ?scr1 = "draw_element (px j) (px i) PINK scr"
    let ?g = "set2 ?g1 (i + n) j 1" and ?scr = "draw_element (px j) (px (i + n)) YELLOW ?scr1"
    have ok1: "wall_ok (?g1, ?scr1)" using wall_ok_set2 [OF Suc.prems(1) r(1) Suc.prems(2)] by simp
    have ok: "wall_ok (?g, ?scr)" using wall_ok_set2 [OF ok1 r(2) Suc.prems(2)] by simp
    have shown: "wall_shown (g, scr) \<longrightarrow> wall_shown (?g, ?scr)"
      using wall_shown_set2(1) [OF _ Suc.prems(1) r(1) Suc.prems(2)] wall_shown_set2(2) [OF _ ok1 r(2) Suc.prems(2)] by blast
    obtain g' scr' where IH: "sink_col n j i (?g, ?scr) = Some (g', scr')" "wall_ok (g', scr')"
      "\<forall>r < ROW. \<forall>c < COL. get2 g' r c = (if c \<noteq> j then get2 ?g r c
         else if i \<le> r \<and> get2 ?g r j = 1 \<or> n \<le> r \<and> r - n < i \<and> get2 ?g (r - n) j = 1 then 1 else 0)"
      "wall_shown (?g, ?scr) \<longrightarrow> wall_shown (g', scr')"
      using Suc.IH [OF ok Suc.prems(2)] Suc.prems by auto
    have g: "get2 ?g r c = (if r = i + n \<and> c = j then 1 else if r = i \<and> c = j then 0 else get2 g r c)" for r c
      unfolding get2_set2 [OF dims_set2 [OF r(3,1)] r(2) Suc.prems(2)] get2_set2 [OF r(3,1) Suc.prems(2)] by simp
    have eq: "(i \<le> r \<and> get2 ?g r j = 1 \<or> n \<le> r \<and> r - n < i \<and> get2 ?g (r - n) j = 1) \<longleftrightarrow>
        (Suc i \<le> r \<and> get2 g r j = 1 \<or> n \<le> r \<and> r - n < Suc i \<and> get2 g (r - n) j = 1)" for r
      using True Suc.prems(4) unfolding g by (cases "r = i + n"; cases "r = i") (auto simp: less_Suc_eq le_less)
    have "sink_col n j (Suc i) (g, scr) = Some (g', scr')" using True r(2) IH(1) by simp
    moreover have "get2 g' a c = (if c \<noteq> j then get2 g a c
         else if Suc i \<le> a \<and> get2 g a j = 1 \<or> n \<le> a \<and> a - n < Suc i \<and> get2 g (a - n) j = 1 then 1 else 0)"
      if "a < ROW" "c < COL" for a c
      using IH(3) that g [of a c] unfolding eq by simp
    ultimately show ?thesis using IH(2,4) shown by blast
  qed
qed

lemma sink_cols_spec:
  assumes "wall_ok (g, scr)" "set js \<subseteq> {..<COL}" "i + n \<le> ROW" "0 < n" "distinct js"
  shows "\<exists>g' scr'. sink_cols n i js (g, scr) = Some (g', scr') \<and> wall_ok (g', scr') \<and>
    (\<forall>r < ROW. \<forall>c < COL. get2 g' r c =
      (if c \<notin> set js then get2 g r c
       else if i \<le> r \<and> get2 g r c = 1 \<or> n \<le> r \<and> r - n < i \<and> get2 g (r - n) c = 1 then 1 else 0)) \<and>
    (wall_shown (g, scr) \<longrightarrow> wall_shown (g', scr'))"
  using assms
proof (induction js arbitrary: g scr)
  case (Cons j js)
  obtain g1 scr1 where s: "sink_col n j i (g, scr) = Some (g1, scr1)" "wall_ok (g1, scr1)"
    "\<forall>r < ROW. \<forall>c < COL. get2 g1 r c = (if c \<noteq> j then get2 g r c
       else if i \<le> r \<and> get2 g r j = 1 \<or> n \<le> r \<and> r - n < i \<and> get2 g (r - n) j = 1 then 1 else 0)"
    "wall_shown (g, scr) \<longrightarrow> wall_shown (g1, scr1)"
    using sink_col_spec [OF Cons.prems(1), of j i n] Cons.prems by auto
  obtain g' scr' where IH: "sink_cols n i js (g1, scr1) = Some (g', scr')" "wall_ok (g', scr')"
    "\<forall>r < ROW. \<forall>c < COL. get2 g' r c = (if c \<notin> set js then get2 g1 r c
       else if i \<le> r \<and> get2 g1 r c = 1 \<or> n \<le> r \<and> r - n < i \<and> get2 g1 (r - n) c = 1 then 1 else 0)"
    "wall_shown (g1, scr1) \<longrightarrow> wall_shown (g', scr')"
    using Cons.IH [OF s(2)] Cons.prems by auto
  have "get2 g' r c = (if c \<notin> set (j # js) then get2 g r c
       else if i \<le> r \<and> get2 g r c = 1 \<or> n \<le> r \<and> r - n < i \<and> get2 g (r - n) c = 1 then 1 else 0)"
    if rc: "r < ROW" "c < COL" for r c
  proof -
    have "r - n < ROW" using rc by simp
    then show ?thesis using IH(3) s(3) rc Cons.prems(5) by (cases "c = j") auto
  qed
  then show ?case using s(1,4) IH(1,2,4) by auto
qed simp

definition full_rows :: "int list list \<Rightarrow> nat set" where
  "full_rows g = {i \<in> {1..<ROW}. row_full g i}"

text \<open>The wall after a delete: \<open>n\<close> complete rows, the topmost one is \<open>a\<close>.\<close>

lemma clear_rows_spec:
  assumes "wall_ok (g, scr)"
  defines "n \<equiv> card (full_rows g)" and "a \<equiv> Min (full_rows g)"
  shows "\<exists>g' scr'. clear_rows (g, scr) = Some (g', scr') \<and> wall_ok (g', scr') \<and>
    (\<forall>r < ROW. \<forall>c < COL. get2 g' r c =
      (if full_rows g = {} then get2 g r c
       else if a \<le> r \<and> r \<notin> full_rows g \<and> get2 g r c = 1 \<or> n \<le> r \<and> r - n < a \<and> get2 g (r - n) c = 1 then 1 else 0)) \<and>
    (wall_shown (g, scr) \<longrightarrow> wall_shown (g', scr'))"
proof -
  have F: "{i \<in> {1..ROW - 1}. row_full g i} = full_rows g" by (auto simp: full_rows_def ROW_def)
  obtain g1 scr1 where d: "delete_rows (ROW - 1) ((g, scr), 0, 0) =
      ((g1, scr1), n, if full_rows g = {} then 0 else a)" "wall_ok (g1, scr1)"
    "\<forall>i < ROW. \<forall>j < COL. get2 g1 i j = (if i \<in> full_rows g then 0 else get2 g i j)"
    "wall_shown (g, scr) \<longrightarrow> wall_shown (g1, scr1)"
    using delete_rows_spec [OF assms(1), of "ROW - 1" 0 0] unfolding F n_def a_def by (auto simp: ROW_def)
  have fin: "finite (full_rows g)" by (simp add: full_rows_def)
  show ?thesis
  proof (cases "full_rows g = {}")
    case True
    then show ?thesis using d by (simp add: clear_rows_def n_def)
  next
    case False
    then have n: "0 < n" using fin by (simp add: n_def card_gt_0_iff)
    have aF: "a \<in> full_rows g" using Min_in [OF fin False] by (simp add: a_def)
    have "full_rows g \<subseteq> {a..<ROW}" using Min_le [OF fin] by (auto simp: a_def full_rows_def)
    then have "n \<le> card {a..<ROW}" unfolding n_def by (intro card_mono) auto
    then have an: "a + n \<le> ROW" "a < ROW" using aF by (auto simp: full_rows_def)
    obtain g' scr' where s: "sink_cols n a [0..<COL] (g1, scr1) = Some (g', scr')" "wall_ok (g', scr')"
      "\<forall>r < ROW. \<forall>c < COL. get2 g' r c = (if c \<notin> set [0..<COL] then get2 g1 r c
         else if a \<le> r \<and> get2 g1 r c = 1 \<or> n \<le> r \<and> r - n < a \<and> get2 g1 (r - n) c = 1 then 1 else 0)"
      "wall_shown (g1, scr1) \<longrightarrow> wall_shown (g', scr')"
      using sink_cols_spec [OF d(2) _ an(1) n, of "[0..<COL]"] by (auto simp: subset_iff)
    have "get2 g' r c = (if a \<le> r \<and> r \<notin> full_rows g \<and> get2 g r c = 1 \<or> n \<le> r \<and> r - n < a \<and> get2 g (r - n) c = 1 then 1 else 0)"
      if rc: "r < ROW" "c < COL" for r c
    proof -
      have "r - n < ROW" using rc by simp
      moreover have "r - n \<notin> full_rows g" if "r - n < a"
        using that Min_le [OF fin, of "r - n"] by (auto simp: a_def)
      ultimately show ?thesis using s(3) d(3) rc by auto
    qed
    then show ?thesis using s(1,2,4) d(1,4) False n by (simp add: clear_rows_def)
  qed
qed

section \<open>One step of the game\<close>

definition stuck :: "position \<Rightarrow> int \<Rightarrow> int \<Rightarrow> int list list \<Rightarrow> bool" where
  "stuck p X Y g \<longleftrightarrow> 19 \<le> Y + int (fst (low_cell p)) \<or> (\<exists>c \<in> block_at p X Y. moved VERRIFY_DOWN c \<in> fixed_cells g)"

lemma down_test:
  assumes "placed p X Y t"
  shows "current_max_y t + autodown_y t + DRAW_BLOCK_SIZE > max_y t \<or> is_stop VERRIFY_DOWN t \<longleftrightarrow> stuck p X Y (russian t)"
proof -
  have "current_max_y t + autodown_y t + DRAW_BLOCK_SIZE > max_y t \<longleftrightarrow> 19 \<le> Y + int (fst (low_cell p))"
    using assms by (auto simp: placed_def)
  then show ?thesis unfolding stuck_def is_stop_iff [OF assms] by simp
qed

lemma down_moves:
  assumes "placed p X Y t" "\<not> stuck p X Y (russian t)"
  shows "\<exists>t'. down t = Some (Playing t') \<and> placed p X (Y + 1) t' \<and> russian t' = russian t \<and>
    screen t' = draws X (Y + 1) BLUE (cells_of p) (draws X Y PINK (cells_of p) (screen t))"
proof -
  have t: "autodown_y t = pt Y" "in_field p X Y" using assms(1) by (simp_all add: placed_def)
  have m: "down t = do { t1 \<leftarrow> draw_picture ROW_CANVAS PINK True t;
        map_option Playing (draw_picture ROW_CANVAS BLUE True (t1\<lparr>autodown_y := autodown_y t1 + DRAW_BLOCK_SIZE\<rparr>)) }"
    unfolding down_def down_test [OF assms(1)] using assms(2) by simp
  have d: "draw_picture ROW_CANVAS PINK True t = Some (drawn p X Y PINK t)"
    using assms(1) by (intro draw_picture_drawn) (simp_all add: placed_def)
  have "in_field p X (Y + 1)" using t(2) assms(2) by (auto simp: stuck_def in_field_def)
  then show ?thesis
    using redraw [OF assms(1), of X "Y + 1" "\<lambda>s. s\<lparr>autodown_y := pt (Y + 1)\<rparr>"] t(1) by (auto simp: m d drawn_def)
qed

text \<open>\<open>settled\<close>: the wall \<open>g'\<close> is what fixing the block on the wall \<open>g\<close> and deleting rows leaves.\<close>

definition settled :: "position \<Rightarrow> int \<Rightarrow> int \<Rightarrow> int list list \<Rightarrow> int list list \<Rightarrow> bool" where
  "settled p X Y g g' \<longleftrightarrow> (\<exists>h scr scr'. dims ROW COL h \<and> bits h \<and>
     fixed_cells h = fixed_cells g \<union> field \<inter> block_at p X Y \<and> clear_rows (h, scr) = Some (g', scr'))"

definition on_screen :: "position \<Rightarrow> int \<Rightarrow> int \<Rightarrow> tetris \<Rightarrow> bool" where
  "on_screen p X Y t \<longleftrightarrow> (\<forall>I J dx dy. (I, J) \<in> field \<longrightarrow> 0 \<le> dx \<longrightarrow> dx < 20 \<longrightarrow> 0 \<le> dy \<longrightarrow> dy < 20 \<longrightarrow>
     pix (screen t) I J dx dy = (if (I, J) \<in> block_at p X Y then BLUE
       else if (I, J) \<in> fixed_cells (russian t) then YELLOW else PINK))"

text \<open>The block overlaps no fixed cell and the screen shows the block and the wall.\<close>

definition clean :: "position \<Rightarrow> int \<Rightarrow> int \<Rightarrow> tetris \<Rightarrow> bool" where
  "clean p X Y t \<longleftrightarrow> placed p X Y t \<and> block_at p X Y \<inter> fixed_cells (russian t) = {} \<and> on_screen p X Y t"

lemma down_settles:
  assumes "placed p X Y t" "stuck p X Y (russian t)"
  shows "\<exists>g scr. settled p X Y (russian t) g \<and> wall_ok (g, scr) \<and> (clean p X Y t \<longrightarrow> wall_shown (g, scr)) \<and>
    (if \<exists>c. (0, c) \<in> field \<inter> block_at p X Y
     then down t = Some (GameOver (t\<lparr>russian := g, screen := scr\<rparr>))
     else \<exists>t'. down t = Some (Playing t') \<and> placed UP 0 0 t' \<and> russian t' = g \<and> screen t' = draws 0 0 BLUE (cells_of UP) scr)"
proof -
  obtain h s where f: "fix_block t = ((h, s), \<exists>c. (0, c) \<in> field \<inter> block_at p X Y)" "wall_ok (h, s)"
    "fixed_cells h = fixed_cells (russian t) \<union> field \<inter> block_at p X Y"
    "\<forall>I J dx dy. 0 \<le> dx \<longrightarrow> dx < 20 \<longrightarrow> 0 \<le> dy \<longrightarrow> dy < 20 \<longrightarrow>
       pix s I J dx dy = (if (I, J) \<in> field \<inter> block_at p X Y then YELLOW else pix (screen t) I J dx dy)"
    using fix_block_spec [OF assms(1)] by blast
  obtain g scr where c: "clear_rows (h, s) = Some (g, scr)" "wall_ok (g, scr)" "wall_shown (h, s) \<longrightarrow> wall_shown (g, scr)"
    using clear_rows_spec [OF f(2)] by auto
  have "settled p X Y (russian t) g" using f(2,3) c(1) by (auto simp: settled_def wall_ok_def)
  moreover have "wall_shown (h, s)" if "clean p X Y t"
    using that f(3,4) unfolding clean_def on_screen_def wall_shown_def fst_conv snd_conv by simp
  moreover have d: "down t = do { (over, t1) \<leftarrow> copy t;
        if over then Some (GameOver t1)
        else map_option Playing (draw_picture ROW_CANVAS BLUE True (init_current_block t1)) }"
    unfolding down_def down_test [OF assms(1)] using assms(2) by simp
  moreover have cp: "copy t = Some (\<exists>c. (0, c) \<in> field \<inter> block_at p X Y, t\<lparr>russian := g, screen := scr\<rparr>)"
    unfolding copy_def f(1) using c(1) by simp
  moreover have "\<exists>t'. draw_picture ROW_CANVAS BLUE True (init_current_block (t\<lparr>russian := g, screen := scr\<rparr>)) = Some t' \<and>
      placed UP 0 0 t' \<and> russian t' = g \<and> screen t' = draws 0 0 BLUE (cells_of UP) scr"
  proof -
    let ?t = "init_current_block (t\<lparr>russian := g, screen := scr\<rparr>)"
    have z: "pt 0 = 0" by (simp add: pt_def)
    have "draw_picture ROW_CANVAS BLUE True ?t = Some (drawn UP 0 0 BLUE ?t)"
      by (intro draw_picture_drawn) (simp_all add: init_current_block_def blank_def z)
    moreover have "placed UP 0 0 (drawn UP 0 0 BLUE ?t)"
      using assms(1) c(2) by (intro placed_drawn) (simp_all add: init_current_block_def placed_def wall_ok_def in_field_def z)
    ultimately show ?thesis by (simp add: init_current_block_def)
  qed
  ultimately show ?thesis using c(2,3) by (intro exI [of _ g] exI [of _ scr]) auto
qed

lemma on_screen_moved:
  assumes "clean p X Y t" "russian t' = russian t" "placed q X' Y' t'" "block_at q X' Y' \<inter> fixed_cells (russian t) = {}"
    "screen t' = draws X' Y' BLUE (cells_of q) (draws X Y PINK (cells_of p) (screen t))"
  shows "clean q X' Y' t'"
proof -
  have "on_screen q X' Y' t'"
    using assms(1) unfolding clean_def on_screen_def assms(5,2) block_at_def by (auto simp: pix_draws)
  then show ?thesis using assms(2-4) by (simp add: clean_def)
qed

lemma on_screen_spawn:
  assumes "wall_shown (g, scr)" "russian t' = g" "placed UP 0 0 t'" "screen t' = draws 0 0 BLUE (cells_of UP) scr"
    "block_at UP 0 0 \<inter> fixed_cells g = {}"
  shows "clean UP 0 0 t'"
proof -
  have "on_screen UP 0 0 t'"
    using assms(1) unfolding on_screen_def assms(2,4) block_at_def wall_shown_def by (auto simp: pix_draws)
  then show ?thesis using assms(2,3,5) by (simp add: clean_def)
qed

lemma block_at_left: "block_at p (X - 1) Y = moved VERRIFY_LEFT ` block_at p X Y"
  and block_at_right: "block_at p (X + 1) Y = moved VERRIFY_RIGHT ` block_at p X Y"
  and block_at_down: "block_at p X (Y + 1) = moved VERRIFY_DOWN ` block_at p X Y"
  by (auto simp: block_at_def shift_def image_image case_prod_beta intro!: image_cong)

lemma not_hit: "\<not> (\<exists>c \<in> A. f c \<in> B) \<Longrightarrow> f ` A \<inter> B = {}"
  by blast

section \<open>The start\<close>

lemma init_cell_step:
  "init_cell (i, j) (t, True) = (t\<lparr>max_x := max (px j) (max_x t), min_x := min (px j) (min_x t),
     max_y := max (px i) (max_y t), min_y := min (px i) (min_y t), screen := draw_element (px j) (px i) PINK (screen t)\<rparr>, True)"
  by (auto simp: init_cell_def Let_def max_def min_def)

lemma init_cells:
  "fold init_cell cs (t, True) = (t\<lparr>max_x := fold (\<lambda>(i, j). max (px j)) cs (max_x t), min_x := fold (\<lambda>(i, j). min (px j)) cs (min_x t),
     max_y := fold (\<lambda>(i, j). max (px i)) cs (max_y t), min_y := fold (\<lambda>(i, j). min (px i)) cs (min_y t),
     screen := draws 0 0 PINK cs (screen t)\<rparr>, True)"
proof (induction cs arbitrary: t)
  case (Cons c cs)
  have "pt 0 = 0" by (simp add: pt_def)
  then show ?case by (cases c) (simp add: init_cell_step Cons.IH draws_def)
qed (simp add: draws_def)

lemma extremes:
  "fold (\<lambda>(i, j). max (px j)) (tl grid) 0 = pt 9" "fold (\<lambda>(i, j). min (px j)) (tl grid) 0 = 0"
  "fold (\<lambda>(i, j). max (px i)) (tl grid) 0 = pt 19" "fold (\<lambda>(i, j). min (px i)) (tl grid) 0 = 0"
  by code_simp+

lemma grid_first: "grid = (0, 0) # tl grid"
  by code_simp

lemma replicate_dims: "dims r c (replicate r (replicate c 0))"
  by (simp add: dims_def)

lemma init_game_spec:
  "init_game t = t\<lparr>russian := replicate ROW (replicate COL 0), max_x := pt 9, min_x := pt 0, max_y := pt 19, min_y := pt 0,
     screen := draws 0 0 PINK (tl grid) (draw_element (px 0) (px 0) PINK (screen t))\<rparr>"
proof -
  have z: "pt 0 = 0" by (simp add: pt_def)
  have "init_game t = fst (fold init_cell (tl grid) (init_cell (0, 0) (t\<lparr>russian := replicate ROW (replicate COL 0)\<rparr>, False)))"
    unfolding init_game_def by (subst grid_first) simp
  then show ?thesis by (simp add: init_cell_def [of "(0, 0)"] init_cells extremes z)
qed

lemma start_game_clean:
  obtains t where "start_game scr = Some t" "clean UP 0 0 t" "fixed_cells (russian t) = {}"
proof -
  have z: "pt 0 = 0" by (simp add: pt_def)
  let ?g = "replicate ROW (replicate COL (0 :: int))"
  let ?t0 = "init_game (globals scr)" and ?t = "init_current_block (init_game (globals scr))"
  have zero: "get2 ?g i j = 0" if "i < ROW" "j < COL" for i j using that by (simp add: get2_def)
  then have e: "fixed_cells ?g = {}" by (auto simp: fixed_cells_def)
  have d: "start_game scr = Some (drawn UP 0 0 BLUE ?t)"
    unfolding start_game_def by (intro draw_picture_drawn) (simp_all add: init_current_block_def blank_def z)
  have p: "placed UP 0 0 (drawn UP 0 0 BLUE ?t)"
    using zero by (intro placed_drawn) (simp_all add: init_current_block_def init_game_spec in_field_def z globals_def replicate_dims bits_def)
  have "wall_shown (?g, screen ?t0)"
  proof -
    have c: "(I, J) \<in> insert (0, 0) (shift 0 0 (set (tl grid)))" if "(I, J) \<in> field" for I J
    proof -
      have "(I, J) \<in> shift 0 0 (set grid)" using that unfolding grid_all [symmetric] by (force simp: shift_def)
      then show ?thesis by (subst (asm) grid_first) (auto simp: shift_def)
    qed
    have "pix (screen ?t0) I J dx dy = PINK" if "(I, J) \<in> field" "0 \<le> dx" "dx < 20" "0 \<le> dy" "dy < 20" for I J dx dy
      using c [OF that(1)] by (auto simp: init_game_spec init_current_block_def pix_draws pix_draw that)
    then show ?thesis by (simp add: wall_shown_def e)
  qed
  then have "clean UP 0 0 (drawn UP 0 0 BLUE ?t)"
    using p by (intro on_screen_spawn [of ?g "screen ?t0"]) (simp_all add: e init_current_block_def init_game_spec)
  moreover have "russian (drawn UP 0 0 BLUE ?t) = ?g" by (simp add: init_current_block_def init_game_spec)
  ultimately show ?thesis using d e that by metis
qed

definition in_play :: "game option \<Rightarrow> bool" where
  "in_play r = (case r of
     None \<Rightarrow> False
   | Some (Playing t) \<Rightarrow> \<exists>p X Y. placed p X Y t
   | Some (GameOver t) \<Rightarrow> wall_ok (russian t, screen t))"

lemma in_playI: "placed p X Y t \<Longrightarrow> in_play (Some (Playing t))"
  unfolding in_play_def by auto

lemma event_placed:
  assumes "placed p X Y t"
  shows "in_play (on_event e t)"
proof -
  have down: "in_play (down t)"
  proof (cases "stuck p X Y (russian t)")
    case True
    obtain g scr where g: "wall_ok (g, scr)" "if \<exists>c. (0, c) \<in> field \<inter> block_at p X Y
        then down t = Some (GameOver (t\<lparr>russian := g, screen := scr\<rparr>))
        else \<exists>t'. down t = Some (Playing t') \<and> placed UP 0 0 t' \<and> russian t' = g \<and> screen t' = draws 0 0 BLUE (cells_of UP) scr"
      using down_settles [OF assms True] by blast
    show ?thesis
    proof (cases "\<exists>c. (0, c) \<in> field \<inter> block_at p X Y")
      case True
      then have "down t = Some (GameOver (t\<lparr>russian := g, screen := scr\<rparr>))" using g(2) by simp
      then show ?thesis using g(1) by (simp add: in_play_def)
    next
      case False
      then obtain t' where "down t = Some (Playing t')" "placed UP 0 0 t'" using g(2) unfolding if_not_P [OF False] by blast
      then show ?thesis by (auto simp: in_play_def)
    qed
  next
    case False
    obtain t' where "down t = Some (Playing t')" "placed p X (Y + 1) t'" using down_moves [OF assms False] by blast
    then show ?thesis by (auto simp: in_play_def)
  qed
  have "\<exists>p' X' Y' t'. change t = Some t' \<and> placed p' X' Y' t'" using change_spec [OF assms] by blast
  moreover have "\<exists>p' X' Y' t'. move_left t = Some t' \<and> placed p' X' Y' t'" using move_left_spec [OF assms] assms by blast
  moreover have "\<exists>p' X' Y' t'. move_right t = Some t' \<and> placed p' X' Y' t'" using move_right_spec [OF assms] assms by blast
  ultimately have "in_play (map_option Playing (change t))" "in_play (map_option Playing (move_left t))"
    "in_play (map_option Playing (move_right t))" by (auto intro: in_playI)
  moreover have "in_play (Some (Playing t))" using assms by (auto simp: in_play_def)
  ultimately show ?thesis using down unfolding on_event_def by (simp split: event.splits)
qed

lemma play_placed: "placed p X Y t \<Longrightarrow> in_play (play es t)"
proof (induction es arbitrary: p X Y t)
  case Nil
  then show ?case by (auto simp: in_play_def)
next
  case (Cons e es)
  show ?case
  proof (cases "e = Key (CHR ''q'')")
    case True
    then show ?thesis using Cons.prems by (auto simp: in_play_def)
  next
    case False
    from event_placed [OF Cons.prems, of e] False show ?thesis
      by (auto simp: in_play_def split: option.splits game.splits dest: Cons.IH)
  qed
qed

section \<open>Properties\<close>


text \<open>
  C18. Moves do what they show.  Let the block overlap no fixed cell and the screen show block and wall.
  A left or right key moves the block one column unless the edge or a fixed cell is in the way, a tick
  moves it one row down unless it is stuck, and a rotation either leaves it or turns it in place; no fixed
  cell changes, the block still overlaps none, and every pixel of the field still has the colour of what
  is there.
\<close>
theorem tetris_moves:
  assumes "clean p X Y t"
  shows "(\<exists>t'. move_left t = Some t' \<and> russian t' = russian t \<and>
      clean p (if X + int (snd (left_cell p)) = 0 \<or> moved VERRIFY_LEFT ` block_at p X Y \<inter> fixed_cells (russian t) \<noteq> {}
               then X else X - 1) Y t') \<and>
    (\<exists>t'. move_right t = Some t' \<and> russian t' = russian t \<and>
      clean p (if X + int (snd (right_cell p)) = 9 \<or> moved VERRIFY_RIGHT ` block_at p X Y \<inter> fixed_cells (russian t) \<noteq> {}
               then X else X + 1) Y t') \<and>
    (\<exists>t'. change t = Some t' \<and> russian t' = russian t \<and> (clean p X Y t' \<or> clean (next_pos p) X Y t')) \<and>
    (\<not> stuck p X Y (russian t) \<longrightarrow> (\<exists>t'. down t = Some (Playing t') \<and> russian t' = russian t \<and> clean p X (Y + 1) t'))"
proof -
  have p: "placed p X Y t" using assms by (simp add: clean_def)
  have same: "clean p X Y t'" if "placed p X Y t'" "russian t' = russian t" "screen t' = screen t" for t'
    using assms that by (simp add: clean_def on_screen_def)
  have "(\<exists>t'. move_left t = Some t' \<and> russian t' = russian t \<and>
      clean p (if X + int (snd (left_cell p)) = 0 \<or> moved VERRIFY_LEFT ` block_at p X Y \<inter> fixed_cells (russian t) \<noteq> {}
               then X else X - 1) Y t')"
  proof (cases "X + int (snd (left_cell p)) = 0 \<or> moved VERRIFY_LEFT ` block_at p X Y \<inter> fixed_cells (russian t) \<noteq> {}")
    case True
    then have "move_left t = Some t" using move_left_spec [OF p] by blast
    then show ?thesis unfolding if_P [OF True] using assms by blast
  next
    case False
    then obtain t' where t': "move_left t = Some t'" "placed p (X - 1) Y t'" "russian t' = russian t"
      "screen t' = draws (X - 1) Y BLUE (cells_of p) (draws X Y PINK (cells_of p) (screen t))"
      using move_left_spec [OF p] by blast
    have "block_at p (X - 1) Y \<inter> fixed_cells (russian t) = {}" using False unfolding block_at_left by blast
    then show ?thesis unfolding if_not_P [OF False] using t' on_screen_moved [OF assms t'(3,2) _ t'(4)] by blast
  qed
  moreover have "(\<exists>t'. move_right t = Some t' \<and> russian t' = russian t \<and>
      clean p (if X + int (snd (right_cell p)) = 9 \<or> moved VERRIFY_RIGHT ` block_at p X Y \<inter> fixed_cells (russian t) \<noteq> {}
               then X else X + 1) Y t')"
  proof (cases "X + int (snd (right_cell p)) = 9 \<or> moved VERRIFY_RIGHT ` block_at p X Y \<inter> fixed_cells (russian t) \<noteq> {}")
    case True
    then have "move_right t = Some t" using move_right_spec [OF p] by blast
    then show ?thesis unfolding if_P [OF True] using assms by blast
  next
    case False
    then obtain t' where t': "move_right t = Some t'" "placed p (X + 1) Y t'" "russian t' = russian t"
      "screen t' = draws (X + 1) Y BLUE (cells_of p) (draws X Y PINK (cells_of p) (screen t))"
      using move_right_spec [OF p] by blast
    have "block_at p (X + 1) Y \<inter> fixed_cells (russian t) = {}" using False unfolding block_at_right by blast
    then show ?thesis unfolding if_not_P [OF False] using t' on_screen_moved [OF assms t'(3,2) _ t'(4)] by blast
  qed
  moreover have "\<exists>t'. change t = Some t' \<and> russian t' = russian t \<and> (clean p X Y t' \<or> clean (next_pos p) X Y t')"
    using change_spec [OF p] same on_screen_moved [OF assms] by metis
  moreover have "\<exists>t'. down t = Some (Playing t') \<and> russian t' = russian t \<and> clean p X (Y + 1) t'"
    if "\<not> stuck p X Y (russian t)"
  proof -
    have "block_at p X (Y + 1) \<inter> fixed_cells (russian t) = {}"
      unfolding block_at_down using that by (intro not_hit) (simp add: stuck_def)
    then show ?thesis using down_moves [OF p that] on_screen_moved [OF assms] by metis
  qed
  ultimately show ?thesis by blast
qed

theorem tetris_moves_witness:
  "\<exists>t t'. start_game (\<lambda>_. 0) = Some t \<and> move_left t = Some t' \<and> clean UP 0 0 t'"
proof -
  obtain t where t: "start_game (\<lambda>_. 0) = Some t" "clean UP 0 0 t" by (rule start_game_clean)
  then show ?thesis using tetris_moves [OF t(2)] by auto
qed

text \<open>
  A stuck block is fixed: the new wall is the old one with the block's cells, less its complete rows;
  the game is over exactly if a cell of the block is in the top row.  Otherwise a new block starts at the
  top left, and the screen again shows block and wall, provided the new block overlaps no fixed cell.
\<close>
theorem tetris_settles:
  assumes "clean p X Y t" "stuck p X Y (russian t)"
  shows "\<exists>g. settled p X Y (russian t) g \<and>
    ((\<exists>c. (0, c) \<in> block_at p X Y \<inter> field) \<longrightarrow> (\<exists>t'. down t = Some (GameOver t') \<and> russian t' = g)) \<and>
    (\<not> (\<exists>c. (0, c) \<in> block_at p X Y \<inter> field) \<longrightarrow> (\<exists>t'. down t = Some (Playing t') \<and> placed UP 0 0 t' \<and> russian t' = g \<and>
      (block_at UP 0 0 \<inter> fixed_cells g = {} \<longrightarrow> clean UP 0 0 t')))"
proof -
  have p: "placed p X Y t" using assms(1) by (simp add: clean_def)
  obtain g scr where g: "settled p X Y (russian t) g" "wall_shown (g, scr)"
    "if \<exists>c. (0, c) \<in> field \<inter> block_at p X Y
     then down t = Some (GameOver (t\<lparr>russian := g, screen := scr\<rparr>))
     else \<exists>t'. down t = Some (Playing t') \<and> placed UP 0 0 t' \<and> russian t' = g \<and> screen t' = draws 0 0 BLUE (cells_of UP) scr"
    using down_settles [OF p assms(2)] assms(1) by blast
  have "\<exists>t'. down t = Some (Playing t') \<and> placed UP 0 0 t' \<and> russian t' = g \<and>
      (block_at UP 0 0 \<inter> fixed_cells g = {} \<longrightarrow> clean UP 0 0 t')" if "\<not> (\<exists>c. (0, c) \<in> field \<inter> block_at p X Y)"
    using g(3) on_screen_spawn [OF g(2)] unfolding if_not_P [OF that] by blast
  moreover have "\<exists>t'. down t = Some (GameOver t') \<and> russian t' = g" if "\<exists>c. (0, c) \<in> field \<inter> block_at p X Y"
    using g(3) unfolding if_P [OF that] by auto
  ultimately show ?thesis using g(1) by (auto simp: Int_commute)
qed

lemma falls:
  assumes "clean p X Y t" "\<forall>k < n. \<not> stuck p X (Y + int k) (russian t)"
  shows "\<exists>t'. clean p X (Y + int n) t' \<and> russian t' = russian t"
  using assms(2)
proof (induction n)
  case 0
  then show ?case using assms(1) by auto
next
  case (Suc n)
  then obtain t1 where t1: "clean p X (Y + int n) t1" "russian t1 = russian t" by auto
  have "\<not> stuck p X (Y + int n) (russian t1)" using Suc.prems t1(2) by simp
  moreover from this have "block_at p X (Y + int n + 1) \<inter> fixed_cells (russian t1) = {}"
    unfolding block_at_down by (intro not_hit) (simp add: stuck_def)
  ultimately show ?case
    using down_moves [of p X "Y + int n" t1] on_screen_moved [OF t1(1), of _ p X "Y + int n + 1"] t1
    by (force simp: clean_def add_ac)
qed

theorem tetris_settles_witness:
  "\<exists>t g t'. clean UP 0 18 t \<and> settled UP 0 18 (russian t) g \<and> down t = Some (Playing t') \<and> russian t' = g"
proof -
  obtain t0 where t0: "start_game (\<lambda>_. 0) = Some t0" "clean UP 0 0 t0" "fixed_cells (russian t0) = {}"
    by (rule start_game_clean)
  then obtain t where t: "clean UP 0 18 t" "russian t = russian t0"
    using falls [OF t0(2), of 18] by (auto simp: stuck_def)
  have "stuck UP 0 18 (russian t)" by (simp add: stuck_def)
  moreover have "\<not> (\<exists>c. (0, c) \<in> block_at UP 0 18 \<inter> field)" by (auto simp: block_at_def shift_def)
  ultimately show ?thesis using tetris_settles [OF t(1)] t by blast
qed

text \<open>
  Complete rows that lie together are deleted properly: when the complete rows of a wall (the top row
  apart) are the \<open>n\<close> rows from \<open>a\<close> on, deleting them keeps the rows below, moves every row above down by
  \<open>n\<close> and fills the top with \<open>n\<close> empty rows.
\<close>
theorem tetris_deletes_rows:
  assumes "dims ROW COL g" "bits g" "full_rows g = {a..<a + n}"
  shows "\<exists>scr'. clear_rows (g, scr) = Some (replicate n (replicate COL 0) @ take a g @ drop (a + n) g, scr')"
proof (cases "n = 0")
  case True
  obtain g' scr' where r: "clear_rows (g, scr) = Some (g', scr')" "wall_ok (g', scr')"
    "\<forall>r < ROW. \<forall>c < COL. get2 g' r c = get2 g r c"
    using clear_rows_spec [of g scr] assms True by (auto simp: wall_ok_def)
  then have "g' = g" using grid_eqI [of ROW COL g' g] assms(1) by (auto simp: wall_ok_def)
  then show ?thesis using r(1) True by simp
next
  case False
  have F: "full_rows g \<noteq> {}" "card (full_rows g) = n" "Min (full_rows g) = a"
    using False assms(3) by (auto intro: Min_eqI)
  have "a + n - 1 \<in> full_rows g" using False assms(3) by auto
  then have an: "a + n \<le> ROW" by (auto simp: full_rows_def)
  obtain g' scr' where r: "clear_rows (g, scr) = Some (g', scr')" "wall_ok (g', scr')"
    "\<forall>r < ROW. \<forall>c < COL. get2 g' r c = (if a \<le> r \<and> r \<notin> full_rows g \<and> get2 g r c = 1 \<or>
       n \<le> r \<and> r - n < a \<and> get2 g (r - n) c = 1 then 1 else 0)"
    using clear_rows_spec [of g scr] assms(1,2) F by (auto simp: wall_ok_def)
  let ?h = "replicate n (replicate COL 0) @ take a g @ drop (a + n) g"
  have len: "length g = ROW" "\<forall>x \<in> set g. length x = COL" using assms(1) by (auto simp: dims_def)
  then have "dims ROW COL ?h" using an by (auto simp: dims_def dest: in_set_takeD in_set_dropD)
  moreover have "get2 g' r c = get2 ?h r c" if rc: "r < ROW" "c < COL" for r c
  proof -
    have bit: "get2 g r c = 0 \<or> get2 g r c = 1" "get2 g (r - n) c = 0 \<or> get2 g (r - n) c = 1"
      using assms(2) rc by (auto simp: bits_def)
    have "get2 ?h r c = (if r < n then 0 else if r < a + n then get2 g (r - n) c else get2 g r c)"
      using len rc an by (auto simp: get2_def nth_append)
    then show ?thesis using r(3) rc bit assms(3) by auto
  qed
  ultimately have "g' = ?h" using grid_eqI [of ROW COL g' ?h] r(2) by (auto simp: wall_ok_def)
  then show ?thesis using r(1) by auto
qed

theorem tetris_deletes_rows_witness:
  "\<exists>scr scr'. clear_rows (replicate 19 (replicate 10 0) @ [replicate 10 1], scr) = Some (replicate 20 (replicate 10 0), scr')"
proof -
  let ?g = "replicate 19 (replicate 10 0) @ [replicate 10 (1 :: int)]"
  have g: "get2 ?g i j = (if i = 19 then 1 else 0)" if "i < 20" "j < 10" for i j
    using that by (auto simp: get2_def nth_append)
  have "dims ROW COL ?g" "bits ?g" using g by (auto simp: dims_def bits_def tetris_consts)
  moreover have "row_full ?g i \<longleftrightarrow> i = 19" if "i < 20" for i
    using g [OF that, of 0] g [OF that] by (cases "i = 19") (auto simp: row_full_def list_all_iff tetris_consts intro: exI [of _ 0])
  then have "full_rows ?g = {19..<19 + 1}" by (auto simp: full_rows_def tetris_consts)
  ultimately obtain scr' where "clear_rows (?g, \<lambda>_. 0) = Some (replicate 1 (replicate COL 0) @ take 19 ?g @ drop (19 + 1) ?g, scr')"
    using tetris_deletes_rows [of ?g 19 1 "\<lambda>_. 0"] by blast
  moreover have "replicate 1 (replicate COL 0) @ take 19 ?g @ drop (19 + 1) ?g = replicate 20 (replicate 10 0)"
    by (simp add: tetris_consts numeral_eq_Suc)
  ultimately show ?thesis by auto
qed

text \<open>
  Two complete rows with one row between them are not deleted properly: the row above the upper one
  falls by two, onto the row in between, which itself does not fall.  The two rows are merged and the
  lowest of the three rows is left empty.
\<close>
theorem tetris_split_rows_merge:
  assumes "dims ROW COL g" "bits g" "full_rows g = {a, a + 2}"
  shows "\<exists>g' scr'. clear_rows (g, scr) = Some (g', scr') \<and>
    (\<forall>c < COL. get2 g' (a + 1) c = max (get2 g (a + 1) c) (get2 g (a - 1) c) \<and> get2 g' (a + 2) c = 0)"
proof -
  have F: "full_rows g \<noteq> {}" "card (full_rows g) = 2" "Min (full_rows g) = a"
    using assms(3) by (auto intro: Min_eqI)
  have "a \<in> full_rows g" "a + 2 \<in> full_rows g" using assms(3) by simp_all
  then have a: "0 < a" "a + 2 < ROW" by (simp_all add: full_rows_def)
  obtain g' scr' where r: "clear_rows (g, scr) = Some (g', scr')"
    "\<forall>r < ROW. \<forall>c < COL. get2 g' r c = (if a \<le> r \<and> r \<notin> full_rows g \<and> get2 g r c = 1 \<or>
       2 \<le> r \<and> r - 2 < a \<and> get2 g (r - 2) c = 1 then 1 else 0)"
    using clear_rows_spec [of g scr] assms(1,2) F by (auto simp: wall_ok_def)
  have "get2 g' (a + 1) c = max (get2 g (a + 1) c) (get2 g (a - 1) c) \<and> get2 g' (a + 2) c = 0" if "c < COL" for c
  proof -
    have "get2 g (a + 1) c = 0 \<or> get2 g (a + 1) c = 1" "get2 g (a - 1) c = 0 \<or> get2 g (a - 1) c = 1"
      using assms(2) a that by (auto simp: bits_def)
    moreover have "get2 g' (a + 1) c = (if get2 g (a + 1) c = 1 \<or> get2 g (a - 1) c = 1 then 1 else 0)"
      using r(2) a that assms(3) by (simp add: numeral_2_eq_2)
    moreover have "get2 g' (a + 2) c = 0" using r(2) a that assms(3) by simp
    ultimately show ?thesis by (auto simp: max_def)
  qed
  then show ?thesis using r(1) by blast
qed

theorem tetris_split_rows_merge_witness:
  "\<exists>g g' scr scr'. clear_rows (g, scr) = Some (g', scr') \<and> get2 g 16 5 = 1 \<and> get2 g' 18 5 = 1 \<and> get2 g' 18 3 = 1 \<and> get2 g' 19 3 = 0"
proof -
  let ?row = "\<lambda>k. (replicate 10 0)[k := 1 :: int]"
  let ?g = "replicate 16 (replicate 10 0) @ [?row 5, replicate 10 1, ?row 3, replicate 10 1]"
  have g: "get2 ?g i j = (if i = 17 \<or> i = 19 \<or> i = 16 \<and> j = 5 \<or> i = 18 \<and> j = 3 then 1 else 0)" if "i < 20" "j < 10" for i j
  proof -
    have "i < 16 \<or> i = 16 \<or> i = 17 \<or> i = 18 \<or> i = 19" using that(1) by arith
    then show ?thesis by (elim disjE) (use that(2) in \<open>auto simp: get2_def nth_append nth_list_update\<close>)
  qed
  have ok: "dims ROW COL ?g" "bits ?g" using g by (auto simp: dims_def bits_def tetris_consts)
  have "row_full ?g i \<longleftrightarrow> i = 17 \<or> i = 19" if "i < 20" for i
  proof -
    have "row_full ?g i \<longleftrightarrow> (\<forall>j < 10. get2 ?g i j \<noteq> 0)" by (auto simp: row_full_def list_all_iff tetris_consts)
    moreover have "get2 ?g i 0 = (if i = 17 \<or> i = 19 then 1 else 0)" using g [OF that, of 0] by simp
    moreover have "get2 ?g i j = 1" if "j < 10" "i = 17 \<or> i = 19" for j using g [OF \<open>i < 20\<close> that(1)] that(2) by auto
    ultimately show ?thesis by (metis zero_less_numeral zero_neq_one)
  qed
  then have "full_rows ?g = {17, 17 + 2}" by (auto simp: full_rows_def tetris_consts)
  then obtain g' scr' where r: "clear_rows (?g, \<lambda>_. 0) = Some (g', scr')"
    "\<forall>c < COL. get2 g' (17 + 1) c = max (get2 ?g (17 + 1) c) (get2 ?g (17 - 1) c) \<and> get2 g' (17 + 2) c = 0"
    using tetris_split_rows_merge [OF ok, of 17 "\<lambda>_. 0"] by blast
  have "get2 g' 18 5 = 1" "get2 g' 18 3 = 1" "get2 g' 19 3 = 0" "get2 ?g 16 5 = 1"
    using r(2) [rule_format, of 5] r(2) [rule_format, of 3] g [of 18 5] g [of 16 5] g [of 18 3] g [of 16 3]
    by (simp_all add: tetris_consts)
  then show ?thesis using r(1) by blast
qed

end
