(* ===== verification/Malloc.thy ===== *)
theory Malloc
  imports Prelude
begin

text \<open>
  The allocator \<open>3.ybx/1.c/79.diy_malloc/my_malloc.c\<close> over a memory of 8-byte words between the
  start of the heap and the program break.  A block is a header of 40 bytes (size, prev, next, free with
  padding, magic pointer) and its data.  A load or store outside the heap, or at an address that is not
  a multiple of 8, is undefined (\<open>None\<close>); \<open>size_t\<close> arithmetic is modulo \<open>2 ^ 64\<close>.  Sizes are
  multiples of 8 (\<open>align8\<close>), so the byte loop of \<open>block_zero\<close> runs over whole words.
  \<open>malloc\<close> is shown to refine first fit on a list of blocks.
\<close>

section \<open>Memory\<close>

record mstate =
  mmem :: "nat \<Rightarrow> nat"
  mbase :: nat
  mbrk :: nat
  mlim :: nat
  first_block :: nat

definition ld :: "nat \<Rightarrow> mstate \<Rightarrow> nat option" where
  "ld a s = (if 8 dvd a \<and> mbase s \<le> a \<and> a + 8 \<le> mbrk s then Some (mmem s a) else None)"

definition sto :: "nat \<Rightarrow> nat \<Rightarrow> mstate \<Rightarrow> mstate option" where
  "sto a v s = (if 8 dvd a \<and> mbase s \<le> a \<and> a + 8 \<le> mbrk s then Some (s\<lparr>mmem := (mmem s)(a := v)\<rparr>) else None)"

definition sub64 :: "nat \<Rightarrow> nat \<Rightarrow> nat" where
  "sub64 a b = (a + 2 ^ 64 - b) mod 2 ^ 64"

text \<open>\<open>sbrk\<close> with an increment read as a signed number: \<open>None\<close> is \<open>(void*)-1\<close>.\<close>

definition sbrk :: "nat \<Rightarrow> mstate \<Rightarrow> mstate option" where
  "sbrk inc s = (let b = int (mbrk s) + (if inc < 2 ^ 63 then int inc else int inc - 2 ^ 64) in
     if int (mbase s) \<le> b \<and> b \<le> int (mlim s) then Some (s\<lparr>mbrk := nat b\<rparr>) else None)"

definition brk_to :: "nat \<Rightarrow> mstate \<Rightarrow> mstate" where
  "brk_to a s = (if mbase s \<le> a \<and> a \<le> mlim s then s\<lparr>mbrk := a\<rparr> else s)"

section \<open>Blocks\<close>

definition BLOCK_SZIE :: nat where "BLOCK_SZIE = 40"

text \<open>The fields of \<open>struct block\<close>; \<open>free\<close> is the lower half of its word.\<close>

definition bsize :: "nat \<Rightarrow> mstate \<Rightarrow> nat option" where "bsize p s = ld p s"
definition bprev :: "nat \<Rightarrow> mstate \<Rightarrow> nat option" where "bprev p s = ld (p + 8) s"
definition bnext :: "nat \<Rightarrow> mstate \<Rightarrow> nat option" where "bnext p s = ld (p + 16) s"
definition bfree :: "nat \<Rightarrow> mstate \<Rightarrow> bool option" where "bfree p s = map_option (\<lambda>w. w mod 2 ^ 32 \<noteq> 0) (ld (p + 24) s)"
definition bmagic :: "nat \<Rightarrow> mstate \<Rightarrow> nat option" where "bmagic p s = ld (p + 32) s"

definition set_free :: "nat \<Rightarrow> nat \<Rightarrow> mstate \<Rightarrow> mstate option" where
  "set_free p v s = do { w \<leftarrow> ld (p + 24) s; sto (p + 24) (w div 2 ^ 32 * 2 ^ 32 + v) s }"

definition align8 :: "nat \<Rightarrow> nat" where
  "align8 sz = (if sz mod 8 = 0 then sz else (sz div 8 + 1) * 8 mod 2 ^ 64)"

definition get_block :: "nat \<Rightarrow> nat" where
  "get_block p = sub64 p BLOCK_SZIE"

text \<open>The loop counter and \<open>s8\<close> are \<open>int\<close>: the number of words is truncated to 32 bits.\<close>

definition to_int32 :: "nat \<Rightarrow> int" where
  "to_int32 n = (int n + 2 ^ 31) mod 2 ^ 32 - 2 ^ 31"

fun copy_words :: "nat \<Rightarrow> nat \<Rightarrow> nat \<Rightarrow> mstate \<Rightarrow> mstate option" where
  "copy_words 0 src dst s = Some s"
| "copy_words (Suc n) src dst s = do { v \<leftarrow> ld src s; s1 \<leftarrow> sto dst v s; copy_words n (src + 8) (dst + 8) s1 }"

definition copy_block_data :: "nat \<Rightarrow> nat \<Rightarrow> mstate \<Rightarrow> (bool \<times> mstate) option" where
  "copy_block_data src dst s = do {
     n \<leftarrow> bsize src s;
     m \<leftarrow> bsize dst s;
     if n = 0 \<or> m = 0 then Some (False, s)
     else do {
       let s8 = to_int32 (align8 (if m \<le> n then m else n) div 8);
       s1 \<leftarrow> copy_words (nat s8) (src + BLOCK_SZIE) (dst + BLOCK_SZIE) s;
       Some (True, s1) } }"

definition valid_addr :: "nat \<Rightarrow> mstate \<Rightarrow> bool option" where
  "valid_addr p s =
     (if first_block s = 0 then Some False
      else if p > first_block s \<and> p < mbrk s then do { m \<leftarrow> bmagic (get_block p) s; Some (p = m) }
      else Some False)"

definition extend_heap :: "nat \<Rightarrow> nat \<Rightarrow> mstate \<Rightarrow> (nat \<times> mstate) option" where
  "extend_heap lst align_size s = (let ptr = mbrk s in
     case sbrk ((BLOCK_SZIE + align_size) mod 2 ^ 64) s of
       None \<Rightarrow> Some (0, s)
     | Some s1 \<Rightarrow> do {
         s2 \<leftarrow> sto ptr align_size s1;
         s3 \<leftarrow> sto (ptr + 8) 0 s2;
         s4 \<leftarrow> sto (ptr + 16) 0 s3;
         s5 \<leftarrow> (if lst \<noteq> 0 then do { a \<leftarrow> sto (lst + 16) ptr s4; sto (ptr + 8) lst a } else Some s4);
         s6 \<leftarrow> set_free ptr 0 s5;
         s7 \<leftarrow> sto (ptr + 32) (ptr + BLOCK_SZIE) s6;
         Some (ptr, s7) })"

text \<open>\<open>find_block\<close>: the block found (0 if none) and the last block passed.\<close>

partial_function (option) find_block_loop :: "nat \<Rightarrow> mstate \<Rightarrow> nat \<Rightarrow> nat \<Rightarrow> (nat \<times> nat) option" where
  "find_block_loop sz s ptr lst =
     (if ptr = 0 then Some (ptr, lst)
      else do {
        f \<leftarrow> bfree ptr s;
        n \<leftarrow> bsize ptr s;
        if f \<and> sz \<le> n then Some (ptr, lst)
        else do { nx \<leftarrow> bnext ptr s; find_block_loop sz s nx ptr } })"

definition find_block :: "nat \<Rightarrow> nat \<Rightarrow> mstate \<Rightarrow> (nat \<times> nat) option" where
  "find_block lst sz s = find_block_loop sz s (first_block s) lst"

fun zero_words :: "nat \<Rightarrow> nat \<Rightarrow> mstate \<Rightarrow> mstate option" where
  "zero_words 0 p s = Some s"
| "zero_words (Suc n) p s = do { s1 \<leftarrow> sto p 0 s; zero_words n (p + 8) s1 }"

definition block_zero :: "nat \<Rightarrow> nat \<Rightarrow> mstate \<Rightarrow> mstate option" where
  "block_zero p sz s = (if 8 dvd sz then zero_words (sz div 8) p s else None)"

definition block_split :: "nat \<Rightarrow> nat \<Rightarrow> mstate \<Rightarrow> (nat \<times> mstate) option" where
  "block_split old_ptr old_align s = do {
     n \<leftarrow> bsize old_ptr s;
     if sub64 n old_align < BLOCK_SZIE + 8 then Some (0, s)
     else do {
       let newptr = old_ptr + BLOCK_SZIE + old_align;
       let new_size = sub64 n (BLOCK_SZIE + old_align);
       s1 \<leftarrow> block_zero newptr new_size s;
       s2 \<leftarrow> set_free newptr 1 s1;
       s3 \<leftarrow> sto newptr new_size s2;
       s4 \<leftarrow> sto (newptr + 8) old_ptr s3;
       nx \<leftarrow> bnext old_ptr s4;
       s5 \<leftarrow> sto (newptr + 16) nx s4;
       s6 \<leftarrow> sto (newptr + 32) (newptr + BLOCK_SZIE) s5;
       s7 \<leftarrow> sto old_ptr old_align s6;
       s8 \<leftarrow> sto (old_ptr + 16) newptr s7;
       Some (old_ptr, s8) } }"

text \<open>\<open>p != NULL && p->free\<close>.\<close>

definition is_free :: "nat \<Rightarrow> mstate \<Rightarrow> bool option" where
  "is_free p s = (if p = 0 then Some False else bfree p s)"

definition block_merge :: "nat \<Rightarrow> mstate \<Rightarrow> (nat \<times> mstate) option" where
  "block_merge p s = do {
     next_tmp \<leftarrow> bnext p s;
     f \<leftarrow> is_free next_tmp s;
     if f then do {
       n \<leftarrow> bsize p s;
       m \<leftarrow> bsize next_tmp s;
       s1 \<leftarrow> sto p ((n + BLOCK_SZIE + m) mod 2 ^ 64) s;
       nn \<leftarrow> bnext next_tmp s1;
       s2 \<leftarrow> sto (p + 16) nn s1;
       s3 \<leftarrow> (if nn \<noteq> 0 then sto (nn + 8) p s2 else Some s2);
       m1 \<leftarrow> bsize next_tmp s3;
       s4 \<leftarrow> block_zero next_tmp ((BLOCK_SZIE + m1) mod 2 ^ 64) s3;
       Some (p, s4) }
     else Some (p, s) }"

section \<open>The interface\<close>

definition my_malloc :: "nat \<Rightarrow> mstate \<Rightarrow> (nat \<times> mstate) option" where
  "my_malloc sz s = (let align_size = align8 sz in
     if sz = 0 then Some (0, s)
     else if first_block s = 0 then do {
       (ptr, s1) \<leftarrow> extend_heap 0 align_size s;
       if ptr = 0 then Some (0, s1) else Some (ptr + BLOCK_SZIE, s1\<lparr>first_block := ptr\<rparr>) }
     else do {
       (ptr, lst) \<leftarrow> find_block (first_block s) align_size s;
       if ptr \<noteq> 0 then do {
         n \<leftarrow> bsize ptr s;
         (p, s1) \<leftarrow> (if sub64 n align_size \<ge> BLOCK_SZIE + 8 then block_split ptr align_size s else Some (ptr, s));
         s2 \<leftarrow> set_free p 0 s1;
         Some (p + BLOCK_SZIE, s2) }
       else do {
         (p, s1) \<leftarrow> extend_heap lst align_size s;
         if p = 0 then Some (0, s1) else Some (p + BLOCK_SZIE, s1) } })"

definition my_calloc :: "nat \<Rightarrow> nat \<Rightarrow> mstate \<Rightarrow> (nat \<times> mstate) option" where
  "my_calloc num sz s = do {
     (new, s1) \<leftarrow> my_malloc (num * sz mod 2 ^ 64) s;
     if new = 0 then Some (0, s1)
     else do { s2 \<leftarrow> zero_words (align8 (num * sz mod 2 ^ 64) div 8) new s1; Some (new, s2) } }"

definition my_free :: "nat \<Rightarrow> mstate \<Rightarrow> mstate option" where
  "my_free ptr s = do {
     v \<leftarrow> valid_addr ptr s;
     if \<not> v then Some s
     else do {
       let b0 = get_block ptr;
       s1 \<leftarrow> set_free b0 1 s;
       pr \<leftarrow> bprev b0 s1;
       pf \<leftarrow> is_free pr s1;
       (b1, s2) \<leftarrow> (if pf then block_merge pr s1 else Some (b0, s1));
       nx \<leftarrow> bnext b1 s2;
       nf \<leftarrow> is_free nx s2;
       (b2, s3) \<leftarrow> (if nf then block_merge b1 s2 else Some (b1, s2));
       pr2 \<leftarrow> bprev b2 s3;
       nx2 \<leftarrow> bnext b2 s3;
       if pr2 = 0 \<and> nx2 = 0 then
         Some (brk_to b2 (if b2 = first_block s3 then s3\<lparr>first_block := 0\<rparr> else s3))
       else if nx2 = 0 then Some (brk_to b2 s3)
       else Some s3 } }"

definition my_realloc :: "nat \<Rightarrow> nat \<Rightarrow> mstate \<Rightarrow> (nat \<times> mstate) option" where
  "my_realloc src sz s = (let align_size = align8 sz in
     if src = 0 then my_malloc align_size s
     else do {
       let src_ptr = get_block src;
       let rest = (\<lambda>s1. do {
         (dst, s2) \<leftarrow> my_malloc align_size s1;
         if dst = 0 then Some (0, s2)
         else if get_block dst = 0 then Some (0, s2)
         else do {
           (ok, s3) \<leftarrow> copy_block_data src_ptr (get_block dst) s2;
           if \<not> ok then Some (0, s3)
           else do { s4 \<leftarrow> my_free src s3; Some (dst, s4) } } });
       n \<leftarrow> bsize src_ptr s;
       if n = align_size then Some (src, s)
       else if sub64 n align_size \<ge> BLOCK_SZIE + 8 then do {
         (t, s1) \<leftarrow> block_split src_ptr align_size s;
         if t \<noteq> 0 then Some (t + BLOCK_SZIE, s1) else rest s1 }
       else do {
         nx \<leftarrow> bnext src_ptr s;
         f \<leftarrow> is_free nx s;
         if f \<and> (n + n + BLOCK_SZIE) mod 2 ^ 64 \<ge> align_size then block_merge src_ptr s
         else rest s } })"

definition get_malloc_size :: "nat \<Rightarrow> mstate \<Rightarrow> nat option" where
  "get_malloc_size p s = (let ptr = get_block p in
     if ptr = 0 then Some (2 ^ 64 - 1)
     else do { f \<leftarrow> bfree ptr s; if f then Some (2 ^ 64 - 1) else bsize ptr s })"

section \<open>Blocks in memory\<close>

text \<open>A heap is a list of blocks (size of the data, free) that lie one after the other.\<close>

type_synonym blocks = "(nat \<times> bool) list"

fun total :: "blocks \<Rightarrow> nat" where
  "total [] = 0"
| "total ((n, f) # bs) = 40 + n + total bs"

lemma total_append [simp]: "total (xs @ ys) = total xs + total ys"
  by (induction xs rule: total.induct) auto

definition hdr :: "mstate \<Rightarrow> nat \<Rightarrow> nat \<Rightarrow> nat \<Rightarrow> bool \<Rightarrow> bool" where
  "hdr s p n nx f \<longleftrightarrow> mmem s p = n \<and> mmem s (p + 16) = nx \<and> (mmem s (p + 24) mod 2 ^ 32 \<noteq> 0) = f \<and> mmem s (p + 32) = p + 40"

fun chain :: "mstate \<Rightarrow> nat \<Rightarrow> blocks \<Rightarrow> nat \<Rightarrow> bool" where
  "chain s a [] nx \<longleftrightarrow> True"
| "chain s a ((n, f) # bs) nx \<longleftrightarrow> hdr s a n (if bs = [] then nx else a + 40 + n) f \<and> 8 dvd n \<and> 0 < n \<and>
     chain s (a + 40 + n) bs nx"

definition heap_ok :: "mstate \<Rightarrow> blocks \<Rightarrow> bool" where
  "heap_ok s bs \<longleftrightarrow> 8 dvd mbase s \<and> 0 < mbase s \<and> mbrk s \<le> mlim s \<and> mlim s < 2 ^ 62 \<and>
     mbase s + total bs = mbrk s \<and> first_block s = (if bs = [] then 0 else mbase s) \<and> chain s (mbase s) bs 0"

lemma chain_append:
  "chain s a (xs @ ys) nx \<longleftrightarrow> chain s a xs (if ys = [] then nx else a + total xs) \<and> chain s (a + total xs) ys nx"
  by (induction xs arbitrary: a rule: total.induct) (auto simp: add_ac)

lemma chain_cong:
  "(\<And>w. a \<le> w \<Longrightarrow> w < a + total bs \<Longrightarrow> mmem s' w = mmem s w) \<Longrightarrow> chain s' a bs nx = chain s a bs nx"
proof (induction bs arbitrary: a rule: total.induct)
  case (2 n f bs)
  then show ?case by (simp add: hdr_def)
qed simp

lemma chain_dvd: "chain s a bs nx \<Longrightarrow> 8 dvd total bs"
  by (induction s a bs nx rule: chain.induct) auto

lemma ld_in: "8 dvd a \<Longrightarrow> mbase s \<le> a \<Longrightarrow> a + 8 \<le> mbrk s \<Longrightarrow> ld a s = Some (mmem s a)"
  and sto_in: "8 dvd a \<Longrightarrow> mbase s \<le> a \<Longrightarrow> a + 8 \<le> mbrk s \<Longrightarrow> sto a v s = Some (s\<lparr>mmem := (mmem s)(a := v)\<rparr>)"
  by (simp_all add: ld_def sto_def)

lemma sub64_ge: "b \<le> a \<Longrightarrow> a < 2 ^ 64 \<Longrightarrow> sub64 a b = a - b"
  using mod_add_self2 [of "a - b" "2 ^ 64"] by (simp add: sub64_def)

lemma sub64_less: "a < b \<Longrightarrow> b \<le> a + 2 ^ 64 \<Longrightarrow> sub64 a b = a + 2 ^ 64 - b"
  by (simp add: sub64_def)

lemma align8_props: "0 < sz \<Longrightarrow> sz \<le> 2 ^ 62 \<Longrightarrow> 8 dvd align8 sz \<and> sz \<le> align8 sz \<and> align8 sz < sz + 8 \<and> 0 < align8 sz"
  unfolding align8_def by (cases "sz mod 8 = 0") (auto simp: dvd_eq_mod_eq_0, presburger+)

lemma word_half [simp]: "v < 2 ^ 32 \<Longrightarrow> ((w :: nat) div 4294967296 * 4294967296 + v) mod 4294967296 = v"
  by simp

lemma word_one [simp]: "Suc ((w :: nat) div 4294967296 * 4294967296) mod 4294967296 = 1"
  by (simp add: mod_Suc)

lemma zero_words_in:
  assumes "8 dvd p" "mbase s \<le> p" "p + 8 * n \<le> mbrk s"
  shows "zero_words n p s = Some (s\<lparr>mmem := \<lambda>w. if p \<le> w \<and> w < p + 8 * n \<and> 8 dvd w then 0 else mmem s w\<rparr>)"
  using assms
proof (induction n arbitrary: p s)
  case (Suc n)
  let ?s = "s\<lparr>mmem := (mmem s)(p := 0)\<rparr>"
  have w: "(if p \<le> w \<and> w < p + 8 * Suc n \<and> 8 dvd w then 0 else mmem s w) =
      (if p + 8 \<le> w \<and> w < p + 8 + 8 * n \<and> 8 dvd w then 0 else mmem ?s w)" for w
  proof -
    have "p + 8 \<le> w" if "8 dvd w" "p < w" using that Suc.prems(1) unfolding dvd_def by (elim exE) auto
    then show ?thesis using Suc.prems(1) by auto
  qed
  have "zero_words (Suc n) p s = zero_words n (p + 8) ?s" using Suc.prems by (simp add: sto_in)
  also have "\<dots> = Some (?s\<lparr>mmem := \<lambda>w. if p + 8 \<le> w \<and> w < p + 8 + 8 * n \<and> 8 dvd w then 0 else mmem ?s w\<rparr>)"
    using Suc.prems by (intro Suc.IH) auto
  finally show ?case unfolding w [symmetric] by simp
next
  case 0
  have "(\<lambda>w. if p \<le> w \<and> w < p + 8 * 0 \<and> 8 dvd w then 0 else mmem s w) = mmem s" by auto
  then show ?case by simp
qed

lemma zero_words_bound: "zero_words n p s = Some s' \<Longrightarrow> 0 < n \<Longrightarrow> p + 8 * n \<le> mbrk s"
proof (induction n arbitrary: p s)
  case (Suc n)
  then obtain s1 where s1: "sto p 0 s = Some s1" "zero_words n (p + 8) s1 = Some s'" by (auto split: bind_splits)
  then have "mbrk s1 = mbrk s" "p + 8 \<le> mbrk s" by (auto simp: sto_def split: if_splits)
  then show ?case using Suc.IH [OF s1(2)] by (cases n) auto
qed simp

section \<open>Finding a block\<close>

fun first_fit :: "nat \<Rightarrow> blocks \<Rightarrow> (blocks \<times> nat \<times> blocks) option" where
  "first_fit A [] = None"
| "first_fit A ((n, f) # bs) = (if f \<and> A \<le> n then Some ([], n, bs)
     else map_option (\<lambda>(xs, m, ys). ((n, f) # xs, m, ys)) (first_fit A bs))"

lemma first_fit_Some: "first_fit A bs = Some (xs, n, ys) \<Longrightarrow>
    bs = xs @ (n, True) # ys \<and> A \<le> n \<and> (\<forall>(m, f) \<in> set xs. f \<longrightarrow> m < A)"
  by (induction A bs arbitrary: xs n ys rule: first_fit.induct) (auto split: if_splits)

definition inside :: "mstate \<Rightarrow> nat \<Rightarrow> blocks \<Rightarrow> bool" where
  "inside s a bs \<longleftrightarrow> 8 dvd a \<and> 0 < a \<and> mbase s \<le> a \<and> a + total bs \<le> mbrk s"

lemma hdr_ld:
  assumes "hdr s p n nx f" "8 dvd p" "mbase s \<le> p" "p + 40 \<le> mbrk s"
  shows "bsize p s = Some n" "bnext p s = Some nx" "bfree p s = Some f" "bmagic p s = Some (p + 40)"
  using assms by (simp_all add: hdr_def bsize_def bnext_def bfree_def bmagic_def ld_in)

lemma find_block_loop_spec:
  assumes "chain s a bs 0" "inside s a bs"
  shows "case first_fit A bs of
      Some (xs, n, ys) \<Rightarrow> \<exists>l. find_block_loop A s (if bs = [] then 0 else a) lst = Some (a + total xs, l)
    | None \<Rightarrow> find_block_loop A s (if bs = [] then 0 else a) lst = Some (0, if bs = [] then lst else a + total (butlast bs))"
  using assms
proof (induction bs arbitrary: a lst rule: total.induct)
  case 1
  then show ?case by (simp add: find_block_loop.simps)
next
  case (2 n f bs)
  have a: "8 dvd a" "0 < a" "mbase s \<le> a" "a + 40 \<le> mbrk s" using 2(3) by (auto simp: inside_def)
  have h: "hdr s a n (if bs = [] then 0 else a + 40 + n) f" using 2(2) by simp
  note l = hdr_ld [OF h a(1,3,4)]
  have IH: "case first_fit A bs of
      Some (xs, m, ys) \<Rightarrow> \<exists>l. find_block_loop A s (if bs = [] then 0 else a + 40 + n) a = Some (a + 40 + n + total xs, l)
    | None \<Rightarrow> find_block_loop A s (if bs = [] then 0 else a + 40 + n) a = Some (0, if bs = [] then a else a + 40 + n + total (butlast bs))"
    using 2(2,3) by (intro 2(1)) (auto simp: inside_def)
  have step: "find_block_loop A s a lst = (if f \<and> A \<le> n then Some (a, lst) else find_block_loop A s (if bs = [] then 0 else a + 40 + n) a)"
    using a(2) l by (subst find_block_loop.simps) auto
  show ?case
  proof (cases "f \<and> A \<le> n")
    case True
    then show ?thesis by (simp add: step)
  next
    case False
    then show ?thesis using IH by (cases "first_fit A bs") (auto simp: step add_ac)
  qed
qed

section \<open>Allocation\<close>

text \<open>First fit on block lists: the offset of the block and the blocks after it is taken.\<close>

definition take_block :: "nat \<Rightarrow> nat \<Rightarrow> blocks" where
  "take_block A n = (if 48 \<le> n - A then [(A, False), (n - A - 40, True)] else [(n, False)])"

fun alloc :: "nat \<Rightarrow> blocks \<Rightarrow> (nat \<times> blocks) option" where
  "alloc A bs = (case first_fit A bs of
     None \<Rightarrow> None
   | Some (xs, n, ys) \<Rightarrow> Some (total xs, xs @ take_block A n @ ys))"

text \<open>The data words of the blocks in use.\<close>

fun used :: "nat \<Rightarrow> blocks \<Rightarrow> nat set" where
  "used a [] = {}"
| "used a ((n, f) # bs) = (if f then {} else {a + 40..<a + 40 + n}) \<union> used (a + 40 + n) bs"

lemma used_append: "used a (xs @ ys) = used a xs \<union> used (a + total xs) ys"
  by (induction xs arbitrary: a rule: total.induct) (auto simp: add_ac)

lemma used_range: "used a bs \<subseteq> {a..<a + total bs}"
  by (induction a bs rule: used.induct) auto

lemma set_free_in:
  assumes "8 dvd p" "mbase s \<le> p" "p + 40 \<le> mbrk s" "v < 2 ^ 32"
  shows "set_free p v s = Some (s\<lparr>mmem := (mmem s)(p + 24 := mmem s (p + 24) div 2 ^ 32 * 2 ^ 32 + v)\<rparr>)"
  using assms by (simp add: set_free_def ld_in sto_in)

lemma last_block: "(bs :: blocks) \<noteq> [] \<Longrightarrow> \<exists>ini n f. bs = ini @ [(n, f)]"
  by (cases bs rule: rev_cases) auto

lemma extend_heap_spec:
  assumes ok: "heap_ok s bs" and A: "8 dvd A" "0 < A" "A \<le> 2 ^ 62 + 8"
    and lst: "lst = (if bs = [] then 0 else mbase s + total (butlast bs))"
  shows "(mlim s < mbrk s + 40 + A \<longrightarrow> extend_heap lst A s = Some (0, s)) \<and>
    (mbrk s + 40 + A \<le> mlim s \<longrightarrow> (\<exists>s'. extend_heap lst A s = Some (mbrk s, s') \<and>
       heap_ok (s'\<lparr>first_block := mbase s\<rparr>) (bs @ [(A, False)]) \<and> first_block s' = first_block s \<and>
       mbase s' = mbase s \<and> (\<forall>w \<in> used (mbase s) bs. mmem s' w = mmem s w)))"
proof (intro conjI impI)
  have s: "8 dvd mbase s" "0 < mbase s" "mbrk s \<le> mlim s" "mlim s < 2 ^ 62" "mbase s + total bs = mbrk s"
    "chain s (mbase s) bs 0" using ok by (simp_all add: heap_ok_def)
  have inc: "(40 + A) mod 2 ^ 64 = 40 + A" using A(3) by simp
  show "extend_heap lst A s = Some (0, s)" if "mlim s < mbrk s + 40 + A"
    using that A(3) unfolding extend_heap_def BLOCK_SZIE_def inc by (simp add: sbrk_def Let_def)
  assume room: "mbrk s + 40 + A \<le> mlim s"
  let ?p = "mbrk s" and ?s1 = "s\<lparr>mbrk := mbrk s + 40 + A\<rparr>"
  have sb: "sbrk (40 + A) s = Some ?s1"
    using room A(3) s(5) by (simp add: sbrk_def Let_def nat_add_distrib)
  have p: "8 dvd ?p" "mbase s \<le> ?p" using s(1) chain_dvd [OF s(6)] dvd_add unfolding s(5) [symmetric] by auto
  let ?l = "if bs = [] then (\<lambda>m. m) else (\<lambda>m. m(lst + 16 := ?p, ?p + 8 := lst))"
  let ?m = "(?l ((mmem s)(?p := A, ?p + 8 := 0, ?p + 16 := 0)))"
  let ?s' = "?s1\<lparr>mmem := ?m(?p + 24 := ?m (?p + 24) div 2 ^ 32 * 2 ^ 32 + 0, ?p + 32 := ?p + 40)\<rparr>"
  have l: "8 dvd lst \<and> 0 < lst \<and> mbase s \<le> lst \<and> lst + 40 \<le> ?p" if ne: "bs \<noteq> []"
  proof -
    obtain ini n f where bs: "bs = ini @ [(n, f)]" using last_block [OF ne] by blast
    then have "chain s (mbase s) ini (mbase s + total ini)" using s(6) by (simp add: chain_append)
    then have "8 dvd total ini" by (rule chain_dvd)
    then show ?thesis using lst s(1,2,5) by (simp add: bs)
  qed
  have "extend_heap lst A s = Some (?p, ?s')"
  proof (cases "bs = []")
    case True
    then have "lst = 0" using lst by simp
    then show ?thesis
      using True sb inc p by (simp add: extend_heap_def BLOCK_SZIE_def Let_def sto_in set_free_in)
  next
    case False
    then show ?thesis
      using l sb inc p by (simp add: extend_heap_def BLOCK_SZIE_def Let_def sto_in set_free_in)
  qed
  moreover have old: "mmem ?s' w = mmem s w" if "w < ?p" "w \<noteq> lst + 16" for w using that by auto
  have new: "hdr ?s' ?p A 0 False" using l by (auto simp: hdr_def)
  have "chain ?s' (mbase s) (bs @ [(A, False)]) 0"
  proof (cases "bs = []")
    case True
    then show ?thesis using new A s(5) by simp
  next
    case False
    then obtain ini n f where bs: "bs = ini @ [(n, f)]" using last_block by blast
    have lst': "lst = mbase s + total ini" using lst by (simp add: bs)
    have c: "chain s (mbase s) ini lst" "hdr s lst n 0 f" "8 dvd n" "0 < n" using s(6) by (simp_all add: bs chain_append lst')
    have "chain ?s' (mbase s) ini lst" using c(1) l s(5) by (subst chain_cong [of _ _ _ s]) (auto simp: bs lst')
    moreover have "hdr ?s' lst n ?p f" using c(2) l [OF False] False by (auto simp: hdr_def)
    moreover have "lst + 40 + n = ?p" using s(5) by (simp add: bs lst')
    ultimately show ?thesis using new c(3,4) A by (simp add: bs chain_append lst' add_ac)
  qed
  then have "heap_ok (?s'\<lparr>first_block := mbase s\<rparr>) (bs @ [(A, False)])"
    using s room chain_cong [of "mbase s" "bs @ [(A, False)]" "?s'\<lparr>first_block := mbase s\<rparr>" ?s' 0] by (simp add: heap_ok_def)
  moreover have "mmem ?s' w = mmem s w" if w: "w \<in> used (mbase s) bs" for w
  proof -
    have "w < ?p" using w used_range [of "mbase s" bs] s(5) by auto
    moreover have "w \<noteq> lst + 16"
    proof (cases "bs = []")
      case False
      then obtain ini n f where bs: "bs = ini @ [(n, f)]" using last_block by blast
      have "lst = mbase s + total ini" using lst by (simp add: bs)
      then show ?thesis using w used_range [of "mbase s" ini] by (auto simp: bs used_append split: if_splits)
    qed (use w in simp)
    ultimately show ?thesis using old by blast
  qed
  ultimately show "\<exists>s'. extend_heap lst A s = Some (?p, s') \<and>
       heap_ok (s'\<lparr>first_block := mbase s\<rparr>) (bs @ [(A, False)]) \<and> first_block s' = first_block s \<and>
       mbase s' = mbase s \<and> (\<forall>w \<in> used (mbase s) bs. mmem s' w = mmem s w)"
    by (intro exI [of _ ?s']) auto
qed

text \<open>One block in the middle of a heap.\<close>

lemma heap_block:
  assumes "heap_ok s (xs @ (n, f) # ys)"
  defines "p \<equiv> mbase s + total xs"
  shows "8 dvd p" "mbase s \<le> p" "0 < p" "p + 40 + n + total ys = mbrk s" "8 dvd n" "0 < n"
    "hdr s p n (if ys = [] then 0 else p + 40 + n) f" "chain s (mbase s) xs p" "chain s (p + 40 + n) ys 0"
proof -
  have c: "chain s (mbase s) xs p" "hdr s p n (if ys = [] then 0 else p + 40 + n) f" "8 dvd n" "0 < n" "chain s (p + 40 + n) ys 0"
    using assms(1) by (cases "ys = []"; simp add: heap_ok_def chain_append p_def)+
  have b: "8 dvd mbase s" "0 < mbase s" "mbase s + total (xs @ (n, f) # ys) = mbrk s" using assms(1) by (simp_all add: heap_ok_def)
  show "8 dvd p" using b(1) chain_dvd [OF c(1)] by (simp add: p_def)
  show "p + 40 + n + total ys = mbrk s" using b(3) by (simp add: p_def)
  show "mbase s \<le> p" "0 < p" using b(2) by (simp_all add: p_def)
  show "8 dvd n" "0 < n" "hdr s p n (if ys = [] then 0 else p + 40 + n) f" "chain s (mbase s) xs p" "chain s (p + 40 + n) ys 0"
    by (fact c)+
qed

lemma heap_replace:
  assumes "heap_ok s (xs @ (n, f) # ys)" "mbase s' = mbase s" "mbrk s' = mbrk s" "mlim s' = mlim s" "first_block s' = first_block s"
    and "\<forall>w. w < mbase s + total xs \<or> mbase s + total xs + 40 + n \<le> w \<longrightarrow> mmem s' w = mmem s w"
    and "chain s' (mbase s + total xs) (zs @ ys) 0" "total zs = 40 + n"
  shows "heap_ok s' (xs @ zs @ ys)"
proof -
  note b = heap_block [OF assms(1)]
  have "zs \<noteq> []" using assms(8) by auto
  moreover have "chain s' (mbase s) xs (mbase s + total xs)"
    using b(8) assms(6) by (subst chain_cong [of _ _ _ s]) auto
  ultimately have "chain s' (mbase s) (xs @ zs @ ys) 0" using assms(7) by (simp add: chain_append)
  then show ?thesis using assms(1-5,8) \<open>zs \<noteq> []\<close> by (simp add: heap_ok_def)
qed

lemma set_free_spec:
  assumes ok: "heap_ok s (xs @ (n, f) # ys)" and v: "v < 2 ^ 32"
  defines "p \<equiv> mbase s + total xs"
  shows "\<exists>s'. set_free p v s = Some s' \<and> heap_ok s' (xs @ (n, v \<noteq> 0) # ys) \<and> mbase s' = mbase s \<and> mlim s' = mlim s \<and>
    mbrk s' = mbrk s \<and> first_block s' = first_block s \<and> (\<forall>w. w \<noteq> p + 24 \<longrightarrow> mmem s' w = mmem s w)"
proof -
  note b = heap_block [OF ok, folded p_def]
  let ?s' = "s\<lparr>mmem := (mmem s)(p + 24 := mmem s (p + 24) div 2 ^ 32 * 2 ^ 32 + v)\<rparr>"
  have "set_free p v s = Some ?s'" using b(1,2,4) v by (intro set_free_in) auto
  moreover have "hdr ?s' p n (if ys = [] then 0 else p + 40 + n) (v \<noteq> 0)"
    using b(7) v by (auto simp: hdr_def)
  moreover have "chain ?s' (p + 40 + n) ys 0" using b(9) by (subst chain_cong [of _ _ _ s]) auto
  ultimately have "heap_ok ?s' (xs @ [(n, v \<noteq> 0)] @ ys)"
    using b(5,6) by (intro heap_replace [OF ok]) (auto simp: p_def)
  then show ?thesis using \<open>set_free p v s = Some ?s'\<close> by (intro exI [of _ ?s']) simp
qed

lemma block_split_spec:
  assumes ok: "heap_ok s (xs @ (n, f) # ys)" and A: "8 dvd A" "0 < A" "A + 48 \<le> n"
  defines "p \<equiv> mbase s + total xs"
  shows "\<exists>s'. block_split p A s = Some (p, s') \<and> heap_ok s' (xs @ (A, f) # (n - A - 40, True) # ys) \<and>
    mbase s' = mbase s \<and> mlim s' = mlim s \<and> mbrk s' = mbrk s \<and> first_block s' = first_block s \<and>
    (\<forall>w. w < p \<or> p + 40 \<le> w \<and> w < p + 40 + A \<or> p + 40 + n \<le> w \<longrightarrow> mmem s' w = mmem s w)"
proof -
  note b = heap_block [OF ok, folded p_def]
  have brk: "mbrk s < 2 ^ 62" using ok by (simp add: heap_ok_def)
  define q ns where "q = p + 40 + A" and "ns = n - A - 40"
  have ns: "8 dvd ns" "8 \<le> ns" "q + 40 + ns = p + 40 + n" using b(5) A by (auto simp: q_def ns_def dvd_diff_nat)
  have q: "8 dvd q" "mbase s \<le> q" "q + 40 \<le> mbrk s" "q + ns \<le> mbrk s" "p + 40 \<le> q" using b(1,2,4) A ns by (auto simp: q_def)
  have bn: "bsize p s = Some n" using b by (intro hdr_ld [OF b(7)]) auto
  have sub: "sub64 n A = n - A" "sub64 n (40 + A) = ns" using b(4) brk A by (auto simp: sub64_ge ns_def)
  have sub_ge: "\<not> n - A < 48" using A(3) by simp
  define m1 where "m1 = (\<lambda>w. if q \<le> w \<and> w < q + 8 * (ns div 8) \<and> 8 dvd w then 0 else mmem s w)"
  have z: "block_zero q ns s = Some (s\<lparr>mmem := m1\<rparr>)"
    using zero_words_in [of q s "ns div 8"] q ns(1) by (simp add: block_zero_def m1_def)
  have keep: "m1 w = mmem s w" if "w < q \<or> q + ns \<le> w" for w using that ns(1) by (auto simp: m1_def)
  let ?m = "m1(q + 24 := m1 (q + 24) div 2 ^ 32 * 2 ^ 32 + 1, q := ns, q + 8 := p, q + 16 := m1 (p + 16), q + 32 := q + 40, p := A, p + 16 := q)"
  let ?s' = "s\<lparr>mmem := ?m\<rparr>"
  have "block_split p A s = Some (p, ?s')"
    using bn sub A z q b(1,2) sub_ge
    by (simp add: block_split_def BLOCK_SZIE_def q_def [symmetric] Let_def set_free_in sto_in bnext_def ld_in)
  moreover have old: "mmem ?s' w = mmem s w" if "w < p \<or> p + 40 \<le> w \<and> w < q \<or> q + 40 + ns \<le> w" for w
    using that keep [of w] q(5) by auto
  have "mmem s (p + 16) = (if ys = [] then 0 else p + 40 + n)" using b(7) by (simp add: hdr_def)
  then have hq: "hdr ?s' q ns (if ys = [] then 0 else q + 40 + ns) True"
    using q(5) keep [of "p + 16"] ns(3) by (simp add: hdr_def)
  have hp: "hdr ?s' p A q f"
    using b(7) q(5) keep [of "p + 24"] keep [of "p + 32"] by (auto simp: hdr_def)
  have "chain ?s' (p + 40 + n) ys 0" by (rule chain_cong [THEN iffD2, OF _ b(9)], rule old) (use ns(3) in auto)
  then have "chain ?s' (q + 40 + ns) ys 0" by (simp only: ns(3))
  then have "chain ?s' p ([(A, f), (ns, True)] @ ys) 0"
    using hp hq A(1,2) ns(1,2) by (simp add: q_def [symmetric])
  moreover have "mmem ?s' w = mmem s w" if "w < p \<or> p + 40 + n \<le> w" for w
    by (rule old) (use that ns(3) in auto)
  ultimately have bs: "block_split p A s = Some (p, ?s')" and ok': "heap_ok ?s' (xs @ [(A, f), (ns, True)] @ ys)"
    using A ns(3) heap_replace [OF ok, of ?s' "[(A, f), (ns, True)]"] by (simp_all add: p_def [symmetric] q_def)
  have "\<forall>w. w < p \<or> p + 40 \<le> w \<and> w < p + 40 + A \<or> p + 40 + n \<le> w \<longrightarrow> mmem ?s' w = mmem s w"
    by (intro allI impI old) (use ns(3) in \<open>auto simp: q_def\<close>)
  with bs ok' show ?thesis unfolding ns_def [symmetric] by (intro exI [of _ ?s']) simp
qed

lemma alloc_fit:
  assumes ok: "heap_ok s (xs @ (n, True) # ys)" and A: "8 dvd A" "0 < A" "A \<le> n"
  defines "p \<equiv> mbase s + total xs"
  shows "\<exists>s1 s'. (if sub64 n A \<ge> BLOCK_SZIE + 8 then block_split p A s else Some (p, s)) = Some (p, s1) \<and> set_free p 0 s1 = Some s' \<and>
    heap_ok s' (xs @ take_block A n @ ys) \<and> mbase s' = mbase s \<and> mlim s' = mlim s \<and>
    (\<forall>w \<in> used (mbase s) (xs @ (n, True) # ys). mmem s' w = mmem s w)"
proof -
  note b = heap_block [OF ok, folded p_def]
  have "n < 2 ^ 64" using ok b(4) by (simp add: heap_ok_def)
  then have sub: "sub64 n A = n - A" using A by (simp add: sub64_ge)
  have out: "w < p \<or> p + 40 + n \<le> w" if "w \<in> used (mbase s) (xs @ (n, True) # ys)" for w
    using that used_range [of "mbase s" xs] used_range [of "mbase s + (total xs + (40 + n))" ys]
    by (auto simp: used_append p_def add_ac)
  show ?thesis
  proof (cases "48 \<le> n - A")
    case True
    obtain s1 where s1: "block_split p A s = Some (p, s1)" "heap_ok s1 (xs @ (A, True) # (n - A - 40, True) # ys)"
      "mbase s1 = mbase s" "mlim s1 = mlim s" "\<forall>w. w < p \<or> p + 40 + n \<le> w \<longrightarrow> mmem s1 w = mmem s w"
    proof -
      have "A + 48 \<le> n" using True A(3) by simp
      from block_split_spec [OF ok A(1,2) this] that show ?thesis unfolding p_def by blast
    qed
    obtain s' where s': "set_free p 0 s1 = Some s'" "heap_ok s' (xs @ (A, False) # (n - A - 40, True) # ys)"
      "mbase s' = mbase s1" "mlim s' = mlim s1" "\<forall>w. w \<noteq> p + 24 \<longrightarrow> mmem s' w = mmem s1 w"
      using set_free_spec [OF s1(2), of 0] s1(3) by (auto simp: p_def)
    have "mmem s' w = mmem s w" if "w \<in> used (mbase s) (xs @ (n, True) # ys)" for w
      using out [OF that] s1(5) s'(5) by auto
    then show ?thesis using s1 s' True by (simp add: sub BLOCK_SZIE_def take_block_def)
  next
    case False
    obtain s' where s': "set_free p 0 s = Some s'" "heap_ok s' (xs @ (n, False) # ys)"
      "mbase s' = mbase s" "mlim s' = mlim s" "\<forall>w. w \<noteq> p + 24 \<longrightarrow> mmem s' w = mmem s w"
      using set_free_spec [OF ok, of 0] by (auto simp: p_def)
    have "mmem s' w = mmem s w" if "w \<in> used (mbase s) (xs @ (n, True) # ys)" for w
      using out [OF that] s'(5) by auto
    then show ?thesis using s' False by (simp add: sub BLOCK_SZIE_def take_block_def)
  qed
qed

lemma heap_inside: "heap_ok s bs \<Longrightarrow> chain s (mbase s) bs 0 \<and> inside s (mbase s) bs"
  by (simp add: heap_ok_def inside_def)

lemma my_malloc_spec:
  assumes ok: "heap_ok s bs" and sz: "0 < sz" "sz \<le> 2 ^ 62"
  shows "case alloc (align8 sz) bs of
      Some (off, bs') \<Rightarrow> \<exists>s'. my_malloc sz s = Some (mbase s + off + 40, s') \<and> heap_ok s' bs' \<and> mbase s' = mbase s \<and>
        (\<forall>w \<in> used (mbase s) bs. mmem s' w = mmem s w)
    | None \<Rightarrow> if mbrk s + 40 + align8 sz \<le> mlim s
        then \<exists>s'. my_malloc sz s = Some (mbrk s + 40, s') \<and> heap_ok s' (bs @ [(align8 sz, False)]) \<and> mbase s' = mbase s \<and>
          (\<forall>w \<in> used (mbase s) bs. mmem s' w = mmem s w)
        else my_malloc sz s = Some (0, s)"
proof -
  let ?A = "align8 sz"
  have A: "8 dvd ?A" "0 < ?A" "?A \<le> 2 ^ 62 + 8" using align8_props [OF sz] sz by auto
  have base: "0 < mbase s" "mbase s + total bs = mbrk s" "first_block s = (if bs = [] then 0 else mbase s)"
    using ok by (simp_all add: heap_ok_def)
  note ext = extend_heap_spec [OF ok A refl]
  have fb: "s'\<lparr>first_block := mbase s\<rparr> = s'" if "first_block s' = mbase s" for s' :: mstate using that by simp
  show ?thesis
  proof (cases "bs = []")
    case True
    then show ?thesis
      using ext sz base by (auto simp: my_malloc_def Let_def BLOCK_SZIE_def)
  next
    case False
    note fl = find_block_loop_spec [OF heap_inside [OF ok, THEN conjunct1] heap_inside [OF ok, THEN conjunct2], of ?A "mbase s"]
    show ?thesis
    proof (cases "first_fit ?A bs")
      case None
      then have "find_block (first_block s) ?A s = Some (0, mbase s + total (butlast bs))"
        using fl False base by (simp add: find_block_def)
      then have m: "my_malloc sz s = do { (p, s1) \<leftarrow> extend_heap (mbase s + total (butlast bs)) ?A s;
          if p = 0 then Some (0, s1) else Some (p + BLOCK_SZIE, s1) }"
        using sz base False by (simp add: my_malloc_def Let_def)
      show ?thesis
        using ext False None base by (auto simp: m BLOCK_SZIE_def fb)
    next
      case (Some r)
      obtain xs n ys where r: "r = (xs, n, ys)" by (cases r)
      have bs: "bs = xs @ (n, True) # ys" "?A \<le> n" using first_fit_Some Some r by auto
      let ?p = "mbase s + total xs"
      obtain l where l: "find_block (first_block s) ?A s = Some (?p, l)"
        using fl False base Some r by (auto simp: find_block_def)
      have okb: "heap_ok s (xs @ (n, True) # ys)" using ok bs by simp
      note b = heap_block [OF okb]
      have bn: "bsize ?p s = Some n" using b by (intro hdr_ld [OF b(7)]) auto
      obtain s1 s' where a: "(if sub64 n ?A \<ge> BLOCK_SZIE + 8 then block_split ?p ?A s else Some (?p, s)) = Some (?p, s1)"
        "set_free ?p 0 s1 = Some s'" "heap_ok s' (xs @ take_block ?A n @ ys)" "mbase s' = mbase s"
        "\<forall>w \<in> used (mbase s) (xs @ (n, True) # ys). mmem s' w = mmem s w"
        using alloc_fit [OF okb A(1,2) bs(2)] by blast
      have "my_malloc sz s = Some (?p + 40, s')"
        using sz base False l bn a(1,2) b(3) by (simp add: my_malloc_def Let_def BLOCK_SZIE_def)
      then show ?thesis using a(3-5) Some r bs by simp
    qed
  qed
qed

section \<open>Release\<close>

definition last_addr :: "nat \<Rightarrow> nat \<Rightarrow> blocks \<Rightarrow> nat" where
  "last_addr pr a xs = (if xs = [] then pr else a + total (butlast xs))"

fun prevs :: "mstate \<Rightarrow> nat \<Rightarrow> nat \<Rightarrow> blocks \<Rightarrow> bool" where
  "prevs s pr a [] \<longleftrightarrow> True"
| "prevs s pr a ((n, f) # bs) \<longleftrightarrow> mmem s (a + 8) = pr \<and> prevs s a (a + 40 + n) bs"

text \<open>A heap whose backward links are right as well.\<close>

definition heap_strong :: "mstate \<Rightarrow> blocks \<Rightarrow> bool" where
  "heap_strong s bs \<longleftrightarrow> heap_ok s bs \<and> prevs s 0 (mbase s) bs"

lemma last_addr_Cons: "last_addr pr a ((n, f) # bs) = last_addr a (a + 40 + n) bs"
  by (cases bs) (auto simp: last_addr_def)

lemma prevs_append:
  "prevs s pr a (xs @ ys) \<longleftrightarrow> prevs s pr a xs \<and> prevs s (last_addr pr a xs) (a + total xs) ys"
proof (induction s pr a xs rule: prevs.induct)
  case (2 s pr a n f bs)
  then show ?case by (simp add: last_addr_Cons add_ac)
qed (simp add: last_addr_def)

lemma prevs_cong:
  "(\<And>w. a \<le> w \<Longrightarrow> w < a + total bs \<Longrightarrow> mmem s' w = mmem s w) \<Longrightarrow> prevs s' pr a bs = prevs s pr a bs"
proof (induction bs arbitrary: a pr rule: total.induct)
  case (2 n f bs)
  then show ?case by simp
qed simp

lemma is_free_block: "heap_ok s (xs @ (n, f) # ys) \<Longrightarrow> is_free (mbase s + total xs) s = Some f"
proof -
  assume "heap_ok s (xs @ (n, f) # ys)"
  note b = heap_block [OF this]
  have "bfree (mbase s + total xs) s = Some f" by (rule hdr_ld(3) [OF b(7,1,2)]) (use b(4) in simp)
  moreover have "mbase s + total xs \<noteq> 0" using b(3) by simp
  ultimately show ?thesis by (simp only: is_free_def if_False)
qed

lemma strong_block:
  assumes "heap_strong s (xs @ (n, f) # ys)"
  defines "p \<equiv> mbase s + total xs"
  shows "bprev p s = Some (last_addr 0 (mbase s) xs)" "prevs s 0 (mbase s) xs" "prevs s p (p + 40 + n) ys"
    "bnext p s = Some (if ys = [] then 0 else p + 40 + n)" "bsize p s = Some n"
proof -
  have ok: "heap_ok s (xs @ (n, f) # ys)" using assms(1) by (simp add: heap_strong_def)
  note b = heap_block [OF ok, folded p_def]
  show "bnext p s = Some (if ys = [] then 0 else p + 40 + n)" "bsize p s = Some n"
    by (rule hdr_ld [OF b(7,1,2)]; use b(4) in simp)+
  have pv: "prevs s 0 (mbase s) xs" "mmem s (p + 8) = last_addr 0 (mbase s) xs" "prevs s p (p + 40 + n) ys"
    using assms(1) by (simp_all add: heap_strong_def prevs_append p_def)
  show "bprev p s = Some (last_addr 0 (mbase s) xs)" using b(1,2,4) pv(2) by (simp add: bprev_def ld_in)
  show "prevs s 0 (mbase s) xs" "prevs s p (p + 40 + n) ys" by (fact pv)+
qed

lemma set_free_strong:
  assumes st: "heap_strong s (xs @ (n, f) # ys)"
  defines "p \<equiv> mbase s + total xs"
  shows "\<exists>s'. set_free p 1 s = Some s' \<and> heap_strong s' (xs @ (n, True) # ys) \<and> mbase s' = mbase s"
proof -
  have ok: "heap_ok s (xs @ (n, f) # ys)" using st by (simp add: heap_strong_def)
  obtain s' where s': "set_free p 1 s = Some s'" "heap_ok s' (xs @ (n, True) # ys)" "mbase s' = mbase s"
    "\<forall>w. w \<noteq> p + 24 \<longrightarrow> mmem s' w = mmem s w"
    using set_free_spec [OF ok, of 1] by (auto simp: p_def)
  have "prevs s' 0 (mbase s) xs" using strong_block(2) [OF st] s'(4) by (subst prevs_cong [of _ _ _ s]) (auto simp: p_def)
  moreover have "prevs s' p (p + 40 + n) ys"
    using strong_block(3) [OF st] s'(4) by (subst prevs_cong [of _ _ _ s]) (auto simp: p_def)
  moreover have "mmem s' (p + 8) = last_addr 0 (mbase s) xs"
    using st s'(4) by (simp add: heap_strong_def prevs_append p_def)
  ultimately show ?thesis using s'(1-3) by (auto simp: heap_strong_def prevs_append p_def)
qed

lemma block_merge_spec:
  assumes st: "heap_strong s (xs @ (n, f) # (m, True) # ys)"
  defines "p \<equiv> mbase s + total xs"
  shows "\<exists>s'. block_merge p s = Some (p, s') \<and> heap_strong s' (xs @ (n + 40 + m, f) # ys) \<and> mbase s' = mbase s"
proof -
  have ok: "heap_ok s (xs @ (n, f) # (m, True) # ys)" and ok2: "heap_ok s ((xs @ [(n, f)]) @ (m, True) # ys)"
    and st2: "heap_strong s ((xs @ [(n, f)]) @ (m, True) # ys)"
    using st by (simp_all add: heap_strong_def)
  define q where "q = p + 40 + n"
  have qt: "mbase s + total (xs @ [(n, f)]) = q" by (simp add: q_def p_def)
  note b = heap_block [OF ok, folded p_def] and c = heap_block [OF ok2, unfolded qt]
  note sp = strong_block [OF st, folded p_def] and sq = strong_block [OF st2, unfolded qt]
  have fr: "is_free q s = Some True" using is_free_block [OF ok2] qt by simp
  let ?nn = "if ys = [] then 0 else q + 40 + m"
  have sz: "(n + 40 + m) mod 2 ^ 64 = n + 40 + m" "(40 + m) mod 2 ^ 64 = 40 + m"
    using ok b(4) by (simp_all add: heap_ok_def)
  define s3 where "s3 = (let m1 = (mmem s)(p := n + 40 + m, p + 16 := ?nn) in
      s\<lparr>mmem := (if ys = [] then m1 else m1(q + 40 + m + 8 := p))\<rparr>)"
  have q: "q = p + 40 + n" "8 dvd q" "q + 40 + m + total ys = mbrk s" "8 dvd m" using c(1,4,5) by (simp_all add: q_def)
  have ys: "\<exists>k g zs. ys = (k, g) # zs" if "ys \<noteq> []" using that by (cases ys) auto
  have qq: "p + 40 \<le> q" "mbase s \<le> q" "q + 40 \<le> mbrk s" using q b(2) by auto
  have s3f: "mbase s3 = mbase s" "mbrk s3 = mbrk s" "mlim s3 = mlim s" "first_block s3 = first_block s"
    by (simp_all add: s3_def Let_def)
  have qm: "mmem s q = m" "mmem s (q + 16) = ?nn" using c(7) by (simp_all add: hdr_def)
  have old3: "mmem s3 w = mmem s w" if "w \<noteq> p" "w \<noteq> p + 16" "ys \<noteq> [] \<longrightarrow> w \<noteq> q + 40 + m + 8" for w
    using that by (simp add: s3_def Let_def)
  have m3: "bsize q s3 = Some m" using qm(1) old3 [of q] q(2) qq by (simp add: bsize_def ld_in s3f)
  define s' where "s' = s3\<lparr>mmem := \<lambda>w. if q \<le> w \<and> w < q + (40 + m) \<and> 8 dvd w then 0 else mmem s3 w\<rparr>"
  have z: "block_zero q (40 + m) s3 = Some s'"
    using zero_words_in [of q s3 "(40 + m) div 8"] q b(2) by (simp add: block_zero_def s'_def s3f)
  have bn: "bnext q (s\<lparr>mmem := (mmem s)(p := n + 40 + m)\<rparr>) = Some ?nn"
    using qm(2) q(2) qq by (simp add: bnext_def ld_in)
  have bm: "block_merge p s = Some (p, s')"
  proof -
    have nx: "bnext p s = Some q" using sp(4) by (simp add: q_def)
    have s1: "sto p (n + 40 + m) s = Some (s\<lparr>mmem := (mmem s)(p := n + 40 + m)\<rparr>)"
      using b(1,2) qq by (intro sto_in) auto
    have s2: "sto (p + 16) ?nn (s\<lparr>mmem := (mmem s)(p := n + 40 + m)\<rparr>) =
        Some (s\<lparr>mmem := (mmem s)(p := n + 40 + m, p + 16 := ?nn)\<rparr>)"
      using b(1,2) qq by (subst sto_in) auto
    have "0 < q" using b(3) qq by simp
    then have s3': "(if ?nn \<noteq> 0 then sto (?nn + 8) p (s\<lparr>mmem := (mmem s)(p := n + 40 + m, p + 16 := ?nn)\<rparr>)
        else Some (s\<lparr>mmem := (mmem s)(p := n + 40 + m, p + 16 := ?nn)\<rparr>)) = Some s3"
    proof (cases "ys = []")
      case False
      then obtain k g zs where y: "ys = (k, g) # zs" using ys by blast
      show ?thesis using False q(2-4) qq(2) by (simp add: s3_def sto_in y)
    qed (simp add: s3_def)
    show ?thesis
      unfolding block_merge_def BLOCK_SZIE_def
      by (simp only: nx fr sp(5) sq(5) sz s1 s2 s3' bn m3 z bind.bind_lunit if_True)
  qed
  have old: "mmem s' w = mmem s w" if "w \<noteq> p" "w \<noteq> p + 16" "ys \<noteq> [] \<longrightarrow> w \<noteq> q + 40 + m + 8" "w < q \<or> q + 40 + m \<le> w" for w
    using that old3 by (auto simp: s'_def)
  have hp: "hdr s' p (n + 40 + m) ?nn f"
    using b(7) old [of "p + 24"] old [of "p + 32"] q(1) by (auto simp: hdr_def s'_def s3_def Let_def)
  have cys: "chain s' (q + 40 + m) ys 0 \<and> prevs s' p (q + 40 + m) ys"
  proof (cases "ys = []")
    case False
    then obtain k g zs where y: "ys = (k, g) # zs" using ys by blast
    have ch: "chain s (q + 40 + m) ((k, g) # zs) 0" using c(9) by (simp only: y)
    have pv: "prevs s q (q + 40 + m) ((k, g) # zs)" using sq(3) by (simp only: y)
    have "chain s' (q + 40 + m + 40 + k) zs 0"
      by (rule chain_cong [THEN iffD2, of _ _ _ s], rule old) (use ch q(1) in auto)
    moreover have "hdr s' (q + 40 + m) k (if zs = [] then 0 else q + 40 + m + 40 + k) g"
      using ch q(1) old [of "q + 40 + m"] old [of "q + 40 + m + 16"] old [of "q + 40 + m + 24"] old [of "q + 40 + m + 32"]
      by (simp add: hdr_def)
    moreover have "prevs s' (q + 40 + m) (q + 40 + m + 40 + k) zs"
      by (rule prevs_cong [THEN iffD2, of _ _ _ s], rule old) (use pv q(1) in auto)
    moreover have "mmem s' (q + 40 + m + 8) = p" using False q(1) by (simp add: s'_def s3_def Let_def)
    ultimately show ?thesis using ch y by simp
  qed simp
  have "mmem s' w = mmem s w" if "w < p" for w by (rule old) (use that q(1) in auto)
  then have "chain s' (mbase s) xs p" "prevs s' 0 (mbase s) xs"
    using b(8) sp(2) chain_cong [of "mbase s" xs s' s] prevs_cong [of "mbase s" xs s' s] by (auto simp: p_def)
  note left = this
  have bk: "mmem s' (p + 8) = last_addr 0 (mbase s) xs"
    using st old [of "p + 8"] q(1) by (simp add: heap_strong_def prevs_append p_def)
  have e: "p + 40 + (n + 40 + m) = q + 40 + m" by (simp add: q_def)
  have s'f: "mbase s' = mbase s" "mbrk s' = mbrk s" "mlim s' = mlim s" "first_block s' = first_block s"
    by (simp_all add: s'_def s3f)
  have "chain s' p ((n + 40 + m, f) # ys) 0" using hp cys b(5) q(4) c(6) unfolding chain.simps e by simp
  then have "chain s' (mbase s) (xs @ (n + 40 + m, f) # ys) 0" using left(1) unfolding chain_append p_def by simp
  moreover have "prevs s' 0 (mbase s) (xs @ (n + 40 + m, f) # ys)"
    using left(2) bk cys unfolding prevs_append p_def [symmetric] prevs.simps e by simp
  moreover have "mbase s + total (xs @ (n + 40 + m, f) # ys) = mbrk s" using ok by (simp add: heap_ok_def)
  ultimately have "heap_strong s' (xs @ (n + 40 + m, f) # ys)"
    using ok unfolding heap_strong_def heap_ok_def s'f by simp
  then show ?thesis using bm s3f by (auto simp: s'_def)
qed

text \<open>The blocks after a release: the neighbours that are free are taken in.\<close>

definition coalesce_left :: "blocks \<Rightarrow> nat \<Rightarrow> blocks \<times> nat" where
  "coalesce_left xs n = (if xs \<noteq> [] \<and> snd (last xs) then (butlast xs, fst (last xs) + 40 + n) else (xs, n))"

fun coalesce_right :: "nat \<Rightarrow> blocks \<Rightarrow> nat \<times> blocks" where
  "coalesce_right n ((m, True) # ys) = (n + 40 + m, ys)"
| "coalesce_right n ys = (n, ys)"

lemma last_addr_0: "0 < a \<Longrightarrow> last_addr 0 a xs = 0 \<longleftrightarrow> xs = []"
  by (simp add: last_addr_def)

lemma my_free_spec:
  assumes st: "heap_strong s (xs @ (n, f) # ys)"
    and l: "coalesce_left xs n = (xs1, n1)" and r: "coalesce_right n1 ys = (n2, ys1)"
  shows "\<exists>s2. heap_strong s2 (xs1 @ (n2, True) # ys1) \<and> mbase s2 = mbase s \<and>
    my_free (mbase s + total xs + 40) s =
      (if ys1 = [] then
         (if xs1 = [] then Some (brk_to (mbase s) (s2\<lparr>first_block := 0\<rparr>))
          else Some (brk_to (mbase s + total xs1) s2))
       else Some s2)"
proof -
  let ?p = "mbase s + total xs"
  have ok: "heap_ok s (xs @ (n, f) # ys)" using st by (simp add: heap_strong_def)
  note b = heap_block [OF ok]
  have g: "get_block (?p + 40) = ?p" using b(4) ok by (simp add: get_block_def BLOCK_SZIE_def sub64_def heap_ok_def)
  have mg: "bmagic ?p s = Some (?p + 40)" by (rule hdr_ld [OF b(7,1,2)]) (use b(4) in simp)
  have "first_block s = mbase s" using ok by (simp add: heap_ok_def)
  then have v: "valid_addr (?p + 40) s = Some True"
    using b(3,4,6) mg g ok by (simp add: valid_addr_def heap_ok_def)
  obtain s1 where s1: "set_free ?p 1 s = Some s1" "heap_strong s1 (xs @ (n, True) # ys)" "mbase s1 = mbase s"
    using set_free_strong [OF st] by blast
  note base1 = strong_block(1) [OF s1(2), unfolded s1(3)]
  have pos: "0 < mbase s" using ok by (simp add: heap_ok_def)
  have "\<exists>pf s2. is_free (last_addr 0 (mbase s) xs) s1 = Some pf \<and>
      (if pf then block_merge (last_addr 0 (mbase s) xs) s1 else Some (?p, s1)) = Some (mbase s + total xs1, s2) \<and>
      heap_strong s2 (xs1 @ (n1, True) # ys) \<and> mbase s2 = mbase s"
  proof (cases "xs = []")
    case True
    then show ?thesis using l s1 by (auto simp: last_addr_def is_free_def coalesce_left_def)
  next
    case False
    then obtain ini m g where xs: "xs = ini @ [(m, g)]" using last_block by blast
    have la: "last_addr 0 (mbase s) xs = mbase s1 + total ini" by (simp add: last_addr_def xs s1(3))
    have st1: "heap_strong s1 (ini @ (m, g) # (n, True) # ys)" using s1(2) by (simp add: xs)
    then have "heap_ok s1 (ini @ (m, g) # (n, True) # ys)" by (simp add: heap_strong_def)
    from is_free_block [OF this] have fr: "is_free (mbase s1 + total ini) s1 = Some g" .
    show ?thesis
    proof (cases g)
      case True
      obtain s2 where "block_merge (mbase s1 + total ini) s1 = Some (mbase s1 + total ini, s2)"
        "heap_strong s2 (ini @ (m + 40 + n, True) # ys)" "mbase s2 = mbase s1"
        using block_merge_spec [of s1 ini m True n ys] st1 True by auto
      moreover have "xs1 = ini" "n1 = m + 40 + n" using l True by (simp_all add: coalesce_left_def xs)
      ultimately show ?thesis using fr True s1(3) unfolding la by auto
    next
      case False
      then have "xs1 = xs" "n1 = n" using l by (simp_all add: coalesce_left_def xs)
      then show ?thesis using fr False s1 unfolding la by auto
    qed
  qed
  then obtain pf s2 where s2: "is_free (last_addr 0 (mbase s) xs) s1 = Some pf"
      "(if pf then block_merge (last_addr 0 (mbase s) xs) s1 else Some (?p, s1)) = Some (mbase s + total xs1, s2)"
      "heap_strong s2 (xs1 @ (n1, True) # ys)" "mbase s2 = mbase s" by blast
  let ?q = "mbase s + total xs1"
  have nx: "bnext ?q s2 = Some (if ys = [] then 0 else ?q + 40 + n1)" using strong_block(4) [OF s2(3)] s2(4) by simp
  have "\<exists>nf s3. is_free (if ys = [] then 0 else ?q + 40 + n1) s2 = Some nf \<and>
      (if nf then block_merge ?q s2 else Some (?q, s2)) = Some (?q, s3) \<and> heap_strong s3 (xs1 @ (n2, True) # ys1) \<and> mbase s3 = mbase s"
  proof (cases ys)
    case Nil
    then show ?thesis using r s2 by (auto simp: is_free_def)
  next
    case (Cons y zs)
    obtain m g where y: "y = (m, g)" by (cases y)
    have st2: "heap_strong s2 (xs1 @ (n1, True) # (m, g) # zs)" using s2(3) by (simp add: Cons y)
    then have "heap_ok s2 ((xs1 @ [(n1, True)]) @ (m, g) # zs)" by (simp add: heap_strong_def)
    from is_free_block [OF this] have fr: "is_free (?q + 40 + n1) s2 = Some g" by (simp add: s2(4) add.assoc)
    show ?thesis
    proof (cases g)
      case True
      obtain s3 where "block_merge ?q s2 = Some (?q, s3)" "heap_strong s3 (xs1 @ (n1 + 40 + m, True) # zs)" "mbase s3 = mbase s2"
        using block_merge_spec [of s2 xs1 n1 True m zs] st2 True s2(4) by auto
      then show ?thesis using fr True r s2(4) by (auto simp: Cons y)
    next
      case False
      then show ?thesis using fr r s2(3,4) by (auto simp: Cons y)
    qed
  qed
  then obtain nf s3 where s3: "is_free (if ys = [] then 0 else ?q + 40 + n1) s2 = Some nf"
      "(if nf then block_merge ?q s2 else Some (?q, s2)) = Some (?q, s3)" "heap_strong s3 (xs1 @ (n2, True) # ys1)" "mbase s3 = mbase s"
    by blast
  note e = strong_block [OF s3(3), unfolded s3(4)]
  have fb: "first_block s3 = mbase s" using s3(3,4) by (simp add: heap_strong_def heap_ok_def)
  have "my_free (?p + 40) s = (if last_addr 0 (mbase s) xs1 = 0 \<and> (if ys1 = [] then 0 else ?q + 40 + n2) = 0 then
         Some (brk_to ?q (if ?q = first_block s3 then s3\<lparr>first_block := 0\<rparr> else s3))
       else if (if ys1 = [] then 0 else ?q + 40 + n2) = 0 then Some (brk_to ?q s3) else Some s3)"
    unfolding my_free_def Let_def
    by (simp only: v g s1(1) base1 s2(1,2) nx s3(1,2) e(1,4) bind.bind_lunit prod.case if_False not_True_eq_False)
  also have "\<dots> = (if ys1 = [] then
         (if xs1 = [] then Some (brk_to (mbase s) (s3\<lparr>first_block := 0\<rparr>)) else Some (brk_to ?q s3)) else Some s3)"
    using pos fb by (simp add: last_addr_0)
  finally show ?thesis using s3(3,4) by blast
qed

section \<open>Properties\<close>

text \<open>
  C3. \<open>my_malloc\<close> refines first fit: on a heap that holds the blocks \<open>bs\<close> it takes the first free block
  that is large enough for the size rounded up to 8, cutting off what is left if that can hold another
  block; otherwise it extends the heap by one block if the limit allows, and else returns null and
  changes nothing.  It returns the data of that block, the heap then holds the blocks of the
  specification, and no data word of a block in use changes.
\<close>
theorem malloc_refines_first_fit:
  assumes "heap_ok s bs" "0 < sz" "sz \<le> 2 ^ 62"
  shows "case alloc (align8 sz) bs of
      Some (off, bs') \<Rightarrow> \<exists>s'. my_malloc sz s = Some (mbase s + off + 40, s') \<and> heap_ok s' bs' \<and>
        (\<forall>w \<in> used (mbase s) bs. mmem s' w = mmem s w)
    | None \<Rightarrow> if mbrk s + 40 + align8 sz \<le> mlim s
        then \<exists>s'. my_malloc sz s = Some (mbrk s + 40, s') \<and> heap_ok s' (bs @ [(align8 sz, False)]) \<and>
          (\<forall>w \<in> used (mbase s) bs. mmem s' w = mmem s w)
        else my_malloc sz s = Some (0, s)"
  using my_malloc_spec [OF assms] by (auto split: option.splits if_splits)

definition fresh_heap :: mstate where
  "fresh_heap = \<lparr>mmem = \<lambda>_. 0, mbase = 4096, mbrk = 4096, mlim = 8192, first_block = 0\<rparr>"

theorem malloc_refines_first_fit_witness:
  "\<exists>s'. my_malloc 13 fresh_heap = Some (4136, s') \<and> heap_ok s' [(16, False)]"
proof -
  have ok: "heap_ok fresh_heap []" by (simp add: heap_ok_def fresh_heap_def)
  have "alloc (align8 13) [] = None" "align8 13 = 16" by (simp_all add: align8_def)
  then show ?thesis using malloc_refines_first_fit [OF ok, of 13] by (simp add: fresh_heap_def)
qed

text \<open>A chain whose last link leads to the break.\<close>

lemma find_block_beyond:
  "chain s a bs (mbrk s) \<Longrightarrow> bs \<noteq> [] \<Longrightarrow> 8 dvd a \<Longrightarrow> 0 < a \<Longrightarrow> mbase s \<le> a \<Longrightarrow> a + total bs = mbrk s \<Longrightarrow>
   first_fit A bs = None \<Longrightarrow> find_block_loop A s a lst = None"
proof (induction bs arbitrary: a lst rule: total.induct)
  case (2 n f bs)
  let ?e = "mbrk s"
  have h: "hdr s a n (if bs = [] then ?e else a + 40 + n) f" using 2(2) by simp
  have l: "bsize a s = Some n" "bnext a s = Some (if bs = [] then ?e else a + 40 + n)" "bfree a s = Some f"
    by (rule hdr_ld [OF h]; use 2(4-7) in simp)+
  have nf: "\<not> (f \<and> A \<le> n)" "first_fit A bs = None" using 2(8) by (auto split: if_splits)
  have "find_block_loop A s a lst = find_block_loop A s (if bs = [] then ?e else a + 40 + n) a"
    using 2(5) l nf by (subst find_block_loop.simps) auto
  moreover have "find_block_loop A s ?e a = None" if "bs = []"
  proof -
    have "bfree ?e s = None" "?e \<noteq> 0" using 2(5,7) by (simp_all add: bfree_def ld_def)
    then show ?thesis by (subst find_block_loop.simps) simp
  qed
  moreover have "find_block_loop A s (a + 40 + n) a = None" if "bs \<noteq> []"
    using 2(2,4-7) nf(2) that by (intro 2(1)) (auto simp: add.assoc)
  ultimately show ?case by simp
qed simp

lemma malloc_beyond_break:
  assumes "chain s (mbase s) bs (mbrk s)" "bs \<noteq> []" "0 < sz" "first_fit (align8 sz) bs = None"
    "first_block s = mbase s" "0 < mbase s" "8 dvd mbase s" "mbase s + total bs = mbrk s"
  shows "my_malloc sz s = None"
  using find_block_beyond [OF assms(1,2,7,6) order_refl assms(8,4)] assms(3,5,6)
  by (simp add: my_malloc_def Let_def find_block_def)

text \<open>
  \<open>my_free\<close> of a block merges it with the free neighbours on both sides; when only that block is left
  the heap is given back to the start, and when other blocks follow the heap holds the merged blocks
  with all links right.  When the merged block is the last of several, the break is lowered, but the
  block before keeps its link to it, so that a later \<open>my_malloc\<close> that no other block satisfies reads
  beyond the break, which is undefined.
\<close>
theorem free_coalesces:
  assumes "heap_strong s (xs @ (n, f) # ys)" "coalesce_left xs n = (xs1, n1)" "coalesce_right n1 ys = (n2, ys1)"
  shows "\<exists>s'. my_free (mbase s + total xs + 40) s = Some s' \<and>
    (ys1 \<noteq> [] \<longrightarrow> heap_strong s' (xs1 @ (n2, True) # ys1)) \<and>
    (ys1 = [] \<and> xs1 = [] \<longrightarrow> heap_strong s' []) \<and>
    (ys1 = [] \<and> xs1 \<noteq> [] \<and> 0 < sz \<and> sz \<le> 2 ^ 62 \<and> first_fit (align8 sz) xs1 = None \<longrightarrow>
       mbrk s' = mbase s + total xs1 \<and> my_malloc sz s' = None)"
proof -
  obtain s2 where s2: "heap_strong s2 (xs1 @ (n2, True) # ys1)" "mbase s2 = mbase s"
    "my_free (mbase s + total xs + 40) s = (if ys1 = [] then
         (if xs1 = [] then Some (brk_to (mbase s) (s2\<lparr>first_block := 0\<rparr>)) else Some (brk_to (mbase s + total xs1) s2))
       else Some s2)"
    using my_free_spec [OF assms] by blast
  have ok: "heap_ok s2 (xs1 @ (n2, True) # ys1)" using s2(1) by (simp add: heap_strong_def)
  note b = heap_block [OF ok, unfolded s2(2)]
  have "mbase s + total xs1 \<le> mlim s2" "mbase s \<le> mlim s2" using ok b(4) by (simp_all add: heap_ok_def)
  then have brk: "brk_to (mbase s + total xs1) s2 = s2\<lparr>mbrk := mbase s + total xs1\<rparr>"
    "brk_to (mbase s) (s2\<lparr>first_block := 0\<rparr>) = s2\<lparr>first_block := 0, mbrk := mbase s\<rparr>" by (simp_all add: brk_to_def s2(2))
  have empty: "heap_strong (s2\<lparr>first_block := 0, mbrk := mbase s\<rparr>) []"
    using ok \<open>mbase s \<le> mlim s2\<close> by (simp add: heap_strong_def heap_ok_def s2(2))
  have undef: "my_malloc sz (s2\<lparr>mbrk := mbase s + total xs1\<rparr>) = None"
    if "xs1 \<noteq> []" "0 < sz" "first_fit (align8 sz) xs1 = None"
  proof -
    let ?s = "s2\<lparr>mbrk := mbase s + total xs1\<rparr>"
    have "chain ?s (mbase ?s) xs1 (mbrk ?s)" using b(8) s2(2) by (subst chain_cong [of _ _ _ s2]) auto
    then show ?thesis
      using that ok by (intro malloc_beyond_break) (simp_all add: heap_ok_def s2(2))
  qed
  show ?thesis
  proof (cases "ys1 = []")
    case False
    then show ?thesis using s2 by auto
  next
    case ys: True
    show ?thesis
    proof (cases "xs1 = []")
      case True
      then show ?thesis using ys s2(3) brk(2) empty by simp
    next
      case False
      then show ?thesis using ys s2(3) brk(1) undef by simp
    qed
  qed
qed

definition two_blocks :: mstate where
  "two_blocks = \<lparr>mmem = (\<lambda>_. 0)(4096 := 16, 4112 := 4152, 4128 := 4136, 4152 := 16, 4160 := 4096, 4184 := 4192),
     mbase = 4096, mbrk = 4208, mlim = 8192, first_block = 4096\<rparr>"

lemma two_blocks_strong: "heap_strong two_blocks [(16, False), (16, False)]"
  by (simp add: heap_strong_def heap_ok_def two_blocks_def hdr_def)

theorem free_coalesces_witness:
  "\<exists>s'. my_free 4192 two_blocks = Some s' \<and> mbrk s' = 4152 \<and> my_malloc 100 s' = None"
proof -
  have st: "heap_strong two_blocks ([(16, False)] @ (16, False) # [])" using two_blocks_strong by simp
  have l: "coalesce_left [(16, False)] 16 = ([(16, False)], 16)" and r: "coalesce_right 16 [] = (16, [])"
    by (simp_all add: coalesce_left_def)
  have "first_fit (align8 100) [(16, False)] = None" by simp
  then show ?thesis using free_coalesces [OF st l r, of 100] by (auto simp: two_blocks_def)
qed

text \<open>
  \<open>my_realloc\<close> cannot grow a block: the test \<open>(size - align_size) >= 48\<close> is on unsigned numbers, so it
  holds when the block is too small, and \<open>block_split\<close> then clears memory up to beyond the break.
  For every block of the heap and every larger size the call is undefined.
\<close>
theorem realloc_cannot_grow:
  assumes "heap_ok s (xs @ (n, f) # ys)" "n < align8 sz" "sz \<le> 2 ^ 62"
  shows "my_realloc (mbase s + total xs + 40) sz s = None"
proof -
  let ?p = "mbase s + total xs" and ?A = "align8 sz"
  note b = heap_block [OF assms(1)]
  have lim: "mbrk s < 2 ^ 62" using assms(1) by (simp add: heap_ok_def)
  have "0 < sz" using assms(2) by (cases "sz = 0") (simp_all add: align8_def)
  then have A: "8 dvd ?A" "?A < 2 ^ 62 + 8" using align8_props [of sz] assms(3) by auto
  have g: "get_block (?p + 40) = ?p" using b(4) lim by (simp add: get_block_def BLOCK_SZIE_def sub64_def)
  have bn: "bsize ?p s = Some n" by (rule hdr_ld [OF b(7,1,2)]) (use b(4) in simp)
  have d: "sub64 n ?A = n + 2 ^ 64 - ?A" "sub64 n (40 + ?A) = n + 2 ^ 64 - (40 + ?A)"
    by (rule sub64_less; use assms(2) A(2) in simp)+
  have big: "48 \<le> sub64 n ?A" "2 ^ 62 \<le> sub64 n (40 + ?A)" unfolding d using A(2) by auto
  have "8 dvd n + 2 ^ 64 - (40 + ?A)" using b(5) A by (intro dvd_diff_nat) (auto simp: dvd_add_right_iff)
  then have d8: "8 dvd sub64 n (40 + ?A)" by (simp add: d)
  have "zero_words (sub64 n (40 + ?A) div 8) q s = None" for q
  proof (rule ccontr)
    assume "zero_words (sub64 n (40 + ?A) div 8) q s \<noteq> None"
    then obtain s' where "zero_words (sub64 n (40 + ?A) div 8) q s = Some s'" by blast
    moreover have "0 < sub64 n (40 + ?A) div 8" using big(2) by simp
    ultimately have "q + 8 * (sub64 n (40 + ?A) div 8) \<le> mbrk s" by (rule zero_words_bound)
    then show False using big(2) lim d8 by auto
  qed
  then have sp: "block_split ?p ?A s = None"
    using bn big(1) d8 by (simp add: block_split_def BLOCK_SZIE_def block_zero_def Let_def)
  then show ?thesis
    using g bn big(1) assms(2) by (simp add: my_realloc_def BLOCK_SZIE_def Let_def)
qed

theorem realloc_cannot_grow_witness:
  "my_realloc 4136 17 two_blocks = None"
proof -
  have "heap_ok two_blocks ([] @ (16, False) # [(16, False)])" using two_blocks_strong by (simp add: heap_strong_def)
  moreover have "16 < align8 17" by (simp add: align8_def)
  ultimately show ?thesis using realloc_cannot_grow [of two_blocks "[]" 16 False "[(16, False)]" 17] by (simp add: two_blocks_def)
qed

end
