(* ===== verification/SearchTree.thy ===== *)
theory SearchTree
  imports Prelude "HOL-Library.Tree"
begin

text \<open>
  The binary search trees \<open>4.tree/1.btree/main.c\<close> and \<open>4.tree/2.tree_to_glist\<close> of \<open>3.ybx/20.ds\<close>
  and \<open>1.zhang/3.datastruct/tree/bintree/main.c\<close>.  A node is owned by exactly one link, so a tree in
  memory is a \<open>tree\<close> of the library: \<open>Leaf\<close> is the null pointer, and an operation through a link to a
  link returns the new tree.  Access through a null pointer, and the use of a value that a function
  does not return, is undefined (\<open>None\<close>).
\<close>

section \<open>The tree of scores (ybx)\<close>

record SC =
  sc_id :: int
  sc_name :: string
  sc_math :: int
  sc_chinese :: int

text \<open>\<open>insert\<close>; \<open>ok\<close> says that \<open>malloc\<close> succeeds.\<close>

fun insert_bt :: "bool \<Rightarrow> SC tree \<Rightarrow> SC \<Rightarrow> int \<times> SC tree" where
  "insert_bt ok Leaf d = (if ok then (0, Node Leaf d Leaf) else (-1, Leaf))"
| "insert_bt ok (Node l x r) d =
     (if sc_id x \<ge> sc_id d then (0, Node (snd (insert_bt ok l d)) x r)
      else (0, Node l x (snd (insert_bt ok r d))))"

text \<open>\<open>find\<close>: the subtree at the node found.\<close>

fun find_bt :: "SC tree \<Rightarrow> int \<Rightarrow> SC tree" where
  "find_bt Leaf i = Leaf"
| "find_bt (Node l x r) i =
     (if sc_id x = i then Node l x r else if sc_id x \<ge> i then find_bt l i else find_bt r i)"

fun get_num :: "'a tree \<Rightarrow> int" where
  "get_num Leaf = 0"
| "get_num (Node l x r) = get_num l + 1 + get_num r"

text \<open>\<open>find_min(t)->left = s\<close> and \<open>find_max(t)->right = s\<close>.\<close>

fun set_min_left :: "'a tree \<Rightarrow> 'a tree \<Rightarrow> 'a tree option" where
  "set_min_left Leaf s = None"
| "set_min_left (Node l x r) s =
     (if l = Leaf then Some (Node s x r) else map_option (\<lambda>l'. Node l' x r) (set_min_left l s))"

fun set_max_right :: "'a tree \<Rightarrow> 'a tree \<Rightarrow> 'a tree option" where
  "set_max_right Leaf s = None"
| "set_max_right (Node l x r) s =
     (if r = Leaf then Some (Node l x s) else map_option (\<lambda>r'. Node l x r') (set_max_right r s))"

fun turn_left :: "'a tree \<Rightarrow> 'a tree option" where
  "turn_left Leaf = None"
| "turn_left (Node l x r) = set_min_left r (Node l x Leaf)"

fun turn_right :: "'a tree \<Rightarrow> 'a tree option" where
  "turn_right Leaf = None"
| "turn_right (Node l x r) = set_max_right l (Node Leaf x r)"

partial_function (option) balance_loop :: "'a tree \<Rightarrow> 'a tree option" where
  "balance_loop t = (case t of
     Leaf \<Rightarrow> None
   | Node l x r \<Rightarrow>
       let sub = get_num l - get_num r in
       if -1 \<le> sub \<and> sub \<le> 1 then Some t
       else if sub < -1 then do { t1 \<leftarrow> turn_left t; balance_loop t1 }
       else do { t1 \<leftarrow> turn_right t; balance_loop t1 })"

partial_function (option) balance :: "'a tree \<Rightarrow> 'a tree option" where
  "balance t =
     (if t = Leaf then Some Leaf
      else do {
        t1 \<leftarrow> balance_loop t;
        (case t1 of Leaf \<Rightarrow> None | Node l x r \<Rightarrow> do { r1 \<leftarrow> balance r; Some (Node l x r1) }) })"

text \<open>\<open>delete\<close>: the loop follows the links down to the node.\<close>

fun delete_bt :: "SC tree \<Rightarrow> int \<Rightarrow> SC tree option" where
  "delete_bt Leaf i = Some Leaf"
| "delete_bt (Node l x r) i =
     (if sc_id x \<noteq> i then
        (if sc_id x > i then map_option (\<lambda>l'. Node l' x r) (delete_bt l i)
         else map_option (\<lambda>r'. Node l x r') (delete_bt r i))
      else if l = Leaf then Some r else set_max_right l r)"

fun travel_xian :: "'a tree \<Rightarrow> 'a list" where
  "travel_xian Leaf = []"
| "travel_xian (Node l x r) = x # travel_xian l @ travel_xian r"

fun travel_zhong :: "'a tree \<Rightarrow> 'a list" where
  "travel_zhong Leaf = []"
| "travel_zhong (Node l x r) = travel_zhong l @ x # travel_zhong r"

fun travel_hou :: "'a tree \<Rightarrow> 'a list" where
  "travel_hou Leaf = []"
| "travel_hou (Node l x r) = travel_hou l @ travel_hou r @ [x]"

text \<open>\<open>draw_\<close>: the lines printed, each with the number of tabs before it.\<close>

fun draw_bt_at :: "'a tree \<Rightarrow> nat \<Rightarrow> (nat \<times> 'a) list" where
  "draw_bt_at Leaf level = []"
| "draw_bt_at (Node l x r) level = draw_bt_at r (level + 1) @ (level, x) # draw_bt_at l (level + 1)"

definition draw_bt :: "'a tree \<Rightarrow> (nat \<times> 'a) list" where
  "draw_bt t = draw_bt_at t 0"

text \<open>\<open>travel_level\<close> with the first-in first-out queue of \<open>queue.h\<close>; a null pointer taken from the
  queue is followed, which is undefined.\<close>

function level_loop :: "'a tree list \<Rightarrow> 'a list \<Rightarrow> 'a list option" where
  "level_loop [] out = Some out"
| "level_loop (Leaf # q) out = None"
| "level_loop (Node l x r # q) out =
     level_loop (q @ (if l = Leaf then [] else [l]) @ (if r = Leaf then [] else [r])) (out @ [x])"
  by pat_completeness auto
termination by (relation "measure (\<lambda>(q, _). sum_list (map size q))") auto

definition travel_level :: "'a tree \<Rightarrow> 'a list option" where
  "travel_level t = level_loop [t] []"

text \<open>\<open>main\<close>: \<open>snprintf\<close> of the name, and the nodes it prints; the values of \<open>rand\<close> are the argument.\<close>

fun decimal :: "nat \<Rightarrow> string" where
  "decimal n = (if n < 10 then [] else decimal (n div 10)) @ [char_of (48 + n mod 10)]"

definition student_name :: "nat \<Rightarrow> nat \<Rightarrow> string" where
  "student_name len n = take (len - 1) (''stu'' @ decimal n)"

definition bt_students :: "(nat \<Rightarrow> int) \<Rightarrow> SC list" where
  "bt_students rnd = map (\<lambda>(i, a). \<lparr>sc_id = int a, sc_name = student_name 30 a,
     sc_math = rnd (2 * i) mod 100, sc_chinese = rnd (2 * i + 1) mod 100\<rparr>)
     (zip [0..<9] [1,2,3,7,6,5,9,8,4])"

definition bt_insert_all :: "SC tree \<Rightarrow> SC list \<Rightarrow> SC tree" where
  "bt_insert_all t ds = foldl (\<lambda>t d. snd (insert_bt True t d)) t ds"

record 'a bt_report =
  bt_found :: "'a tree list"
  bt_drawn :: "(nat \<times> 'a) list list"
  bt_orders :: "'a list list"

definition bt_main :: "(nat \<Rightarrow> int) \<Rightarrow> SC bt_report option" where
  "bt_main rnd = (let t = bt_insert_all Leaf (bt_students rnd) in do {
     t1 \<leftarrow> balance t;
     t2 \<leftarrow> delete_bt t1 5;
     level \<leftarrow> travel_level t2;
     Some \<lparr>bt_found = [find_bt t 2, find_bt t 100], bt_drawn = [draw_bt t, draw_bt t1, draw_bt t2],
           bt_orders = [travel_xian t2, travel_zhong t2, travel_hou t2, level]\<rparr> })"

section \<open>Trees as text\<close>

text \<open>\<open>save_\<close> and \<open>load_\<close> over the bytes of the file; \<open>fgetc\<close> is -1 at the end.  The boolean of
  \<open>load_node\<close> says whether \<open>malloc\<close> succeeds; the result is the tree and the rest of the file.\<close>

fun save_node :: "int tree \<Rightarrow> int list" where
  "save_node Leaf = [40, 41]"
| "save_node (Node l x r) = 40 # x mod 256 # save_node l @ save_node r @ [41]"

definition fgetc :: "int list \<Rightarrow> int \<times> int list" where
  "fgetc fp = (case fp of [] \<Rightarrow> (-1, []) | c # cs \<Rightarrow> (c, cs))"

partial_function (option) load_node :: "bool \<Rightarrow> int list \<Rightarrow> (int tree \<times> int list) option" where
  "load_node ok fp = (let (c, fp1) = fgetc fp in
     if c \<noteq> 40 then Some (Leaf, fp1)
     else let (c, fp2) = fgetc fp1 in
     if c = 41 then Some (Leaf, fp2)
     else if \<not> ok then Some (Leaf, fp2)
     else do {
       (l, fp3) \<leftarrow> load_node ok fp2;
       (r, fp4) \<leftarrow> load_node ok fp3;
       let (d, fp5) = fgetc fp4;
       if d \<noteq> 41 then Some (Leaf, fp5) else Some (Node l c r, fp5) })"

text \<open>\<open>save\<close> and \<open>load\<close>: \<open>opened\<close> says whether \<open>fopen\<close> succeeds; the file is the list of its bytes.\<close>

definition save_glist :: "bool \<Rightarrow> int tree \<Rightarrow> int list \<Rightarrow> int \<times> int list" where
  "save_glist opened t file = (if opened then (0, save_node t) else (-1, file))"

definition load_glist :: "bool \<Rightarrow> bool \<Rightarrow> int list \<Rightarrow> int tree option" where
  "load_glist opened ok file = (if opened then map_option fst (load_node ok file) else Some Leaf)"

fun draw_glist :: "int tree \<Rightarrow> nat \<Rightarrow> (nat \<times> int) list" where
  "draw_glist Leaf level = []"
| "draw_glist (Node l x r) level = draw_glist r (level + 1) @ (level, x) # draw_glist l (level + 1)"

fun insert_glist :: "bool \<Rightarrow> int tree \<Rightarrow> int \<Rightarrow> int \<times> int tree" where
  "insert_glist ok Leaf d = (if ok then (0, Node Leaf d Leaf) else (-1, Leaf))"
| "insert_glist ok (Node l x r) d =
     (if x \<ge> d then (0, Node (snd (insert_glist ok l d)) x r)
      else (0, Node l x (snd (insert_glist ok r d))))"

section \<open>The tree of names (zhang)\<close>

record data_st =
  ds_id :: int
  ds_name :: string

fun insert_tree :: "bool \<Rightarrow> data_st tree \<Rightarrow> data_st \<Rightarrow> int \<times> data_st tree" where
  "insert_tree ok Leaf d = (if ok then (0, Node Leaf d Leaf) else (-1, Leaf))"
| "insert_tree ok (Node l x r) d =
     (if ds_id d \<ge> ds_id x then (let (c, r1) = insert_tree ok r d in (c, Node l x r1))
      else (let (c, l1) = insert_tree ok l d in (c, Node l1 x r)))"

fun search_tree :: "data_st tree \<Rightarrow> int \<Rightarrow> data_st option" where
  "search_tree Leaf i = None"
| "search_tree (Node l x r) i =
     (if ds_id x = i then Some x else if ds_id x > i then search_tree l i else search_tree r i)"

text \<open>Here \<open>find_min\<close> and \<open>find_max\<close> do not return the value of their recursive call: the
  assignments through their results are undefined unless the first node is already the one.\<close>

fun z_min_left :: "'a tree \<Rightarrow> 'a tree \<Rightarrow> 'a tree option" where
  "z_min_left Leaf s = None"
| "z_min_left (Node l x r) s = (if l = Leaf then Some (Node s x r) else None)"

fun z_max_right :: "'a tree \<Rightarrow> 'a tree \<Rightarrow> 'a tree option" where
  "z_max_right Leaf s = None"
| "z_max_right (Node l x r) s = (if r = Leaf then Some (Node l x s) else None)"

fun delete_root :: "'a tree \<Rightarrow> 'a tree option" where
  "delete_root Leaf = None"
| "delete_root (Node l x r) = (if r = Leaf then Some l else z_min_left r l)"

text \<open>\<open>delete_tree\<close>: the return code has no value (\<open>None\<close> inside) after the recursive calls.\<close>

fun delete_tree :: "data_st tree \<Rightarrow> int \<Rightarrow> (int option \<times> data_st tree) option" where
  "delete_tree Leaf i = Some (Some (-1), Leaf)"
| "delete_tree (Node l x r) i =
     (if ds_id x = i then map_option (Pair (Some 0)) (delete_root (Node l x r))
      else if ds_id x < i then map_option (\<lambda>(_, r1). (None, Node l x r1)) (delete_tree r i)
      else map_option (\<lambda>(_, l1). (None, Node l1 x r)) (delete_tree l i))"

fun z_turn_right :: "'a tree \<Rightarrow> 'a tree option" where
  "z_turn_right Leaf = None"
| "z_turn_right (Node l x r) = z_max_right l (Node Leaf x r)"

fun z_turn_left :: "'a tree \<Rightarrow> 'a tree option" where
  "z_turn_left Leaf = None"
| "z_turn_left (Node l x r) = z_min_left r (Node l x Leaf)"

partial_function (option) z_balance_loop :: "'a tree \<Rightarrow> 'a tree option" where
  "z_balance_loop t = (case t of
     Leaf \<Rightarrow> None
   | Node l x r \<Rightarrow>
       let num = get_num l - get_num r in
       if num > 1 then do { t1 \<leftarrow> z_turn_right t; z_balance_loop t1 }
       else if num < -1 then do { t1 \<leftarrow> z_turn_left t; z_balance_loop t1 }
       else Some t)"

partial_function (option) balance_tree :: "'a tree \<Rightarrow> 'a tree option" where
  "balance_tree t =
     (if t = Leaf then Some Leaf
      else do {
        t1 \<leftarrow> z_balance_loop t;
        (case t1 of Leaf \<Rightarrow> None
         | Node l x r \<Rightarrow> do { l1 \<leftarrow> balance_tree l; r1 \<leftarrow> balance_tree r; Some (Node l1 x r1) }) })"

fun traval_pre :: "data_st tree \<Rightarrow> int list" where
  "traval_pre Leaf = []"
| "traval_pre (Node l x r) = ds_id x # traval_pre l @ traval_pre r"

fun draw_names :: "data_st tree \<Rightarrow> nat \<Rightarrow> (nat \<times> int \<times> string) list" where
  "draw_names Leaf level = []"
| "draw_names (Node l x r) level =
     draw_names r (level + 1) @ (level, ds_id x, ds_name x) # draw_names l (level + 1)"

text \<open>\<open>main\<close> inserts its array, searches the number 6, prints the preorder and balances.\<close>

definition insert_names :: "data_st list \<Rightarrow> data_st tree" where
  "insert_names ds = foldl (\<lambda>t d. snd (insert_tree True t d)) Leaf ds"

definition z_main :: "(data_st option \<times> int list \<times> (nat \<times> int \<times> string) list list) option" where
  "z_main = (let t = insert_names (map (\<lambda>a. \<lparr>ds_id = int a, ds_name = student_name 32 a\<rparr>) [1..<11]) in do {
     t1 \<leftarrow> balance_tree t;
     Some (search_tree t 6, traval_pre t, [draw_names t 0, draw_names t1 0]) })"

section \<open>Inorder\<close>

lemma set_min_left_inorder: "t \<noteq> Leaf \<Longrightarrow> \<exists>t'. set_min_left t s = Some t' \<and> inorder t' = inorder s @ inorder t \<and> t' \<noteq> Leaf"
proof (induction t)
  case (Node l x r)
  then show ?case by (cases "l = Leaf") auto
qed simp

lemma set_max_right_inorder: "t \<noteq> Leaf \<Longrightarrow> \<exists>t'. set_max_right t s = Some t' \<and> inorder t' = inorder t @ inorder s \<and> t' \<noteq> Leaf"
proof (induction t)
  case (Node l x r)
  then show ?case by (cases "r = Leaf") auto
qed simp

definition ordered :: "SC tree \<Rightarrow> bool" where
  "ordered t \<longleftrightarrow> sorted (map sc_id (inorder t))"

lemma ordered_Node [simp]:
  "ordered (Node l x r) \<longleftrightarrow> ordered l \<and> ordered r \<and> (\<forall>y \<in> set_tree l. sc_id y \<le> sc_id x) \<and> (\<forall>y \<in> set_tree r. sc_id x \<le> sc_id y)"
  by (fastforce simp: ordered_def sorted_append)

lemma ordered_Leaf [simp]: "ordered Leaf"
  by (simp add: ordered_def)

lemma insert_bt_set: "set_tree (snd (insert_bt True t d)) = insert d (set_tree t)"
  by (induction t) auto

lemma insert_bt_ordered: "ordered t \<Longrightarrow> ordered (snd (insert_bt True t d))"
  by (induction t) (auto simp: insert_bt_set)

lemma insert_bt_mset: "mset (inorder (snd (insert_bt True t d))) = add_mset d (mset (inorder t))"
  by (induction t) auto

lemma find_bt_found: "find_bt t i = Node l x r \<Longrightarrow> sc_id x = i \<and> x \<in> set_tree t"
  by (induction t) (auto split: if_splits)

lemma find_bt_none: "ordered t \<Longrightarrow> find_bt t i = Leaf \<Longrightarrow> \<forall>x \<in> set_tree t. sc_id x \<noteq> i"
proof (induction t)
  case (Node l x r)
  then show ?case by (cases "sc_id x \<ge> i") (auto split: if_splits)
qed simp

lemma delete_bt_absent: "\<forall>x \<in> set_tree t. sc_id x \<noteq> i \<Longrightarrow> delete_bt t i = Some t"
  by (induction t) auto

lemma delete_bt_present:
  assumes "ordered t" "\<exists>x \<in> set_tree t. sc_id x = i"
  shows "\<exists>t' xs x ys. delete_bt t i = Some t' \<and> inorder t = xs @ x # ys \<and> sc_id x = i \<and> inorder t' = xs @ ys"
  using assms
proof (induction t)
  case (Node l x r)
  show ?case
  proof (cases "sc_id x = i")
    case True
    then show ?thesis using set_max_right_inorder [of l r] by (cases "l = Leaf") force+
  next
    case False
    show ?thesis
    proof (cases "sc_id x > i")
      case True
      then have "\<exists>y \<in> set_tree l. sc_id y = i" using Node.prems by auto
      then obtain t' xs y ys where "delete_bt l i = Some t'" "inorder l = xs @ y # ys" "sc_id y = i" "inorder t' = xs @ ys"
        using Node.IH(1) Node.prems(1) by auto
      then show ?thesis using True False
        by (intro exI [of _ "Node t' x r"] exI [of _ xs] exI [of _ y] exI [of _ "ys @ x # inorder r"]) simp
    next
      case f2: False
      then have "\<exists>y \<in> set_tree r. sc_id y = i" using Node.prems False by fastforce
      then obtain t' xs y ys where "delete_bt r i = Some t'" "inorder r = xs @ y # ys" "sc_id y = i" "inorder t' = xs @ ys"
        using Node.IH(2) Node.prems(1) by auto
      then show ?thesis using False f2
        by (intro exI [of _ "Node l x t'"] exI [of _ "inorder l @ x # xs"] exI [of _ y] exI [of _ ys]) simp
    qed
  qed
qed simp

lemma travel_orders: "travel_xian t = preorder t" "travel_zhong t = inorder t" "travel_hou t = postorder t"
  by (induction t) simp_all

section \<open>Level order\<close>

fun at_depth :: "nat \<Rightarrow> 'a tree \<Rightarrow> 'a list" where
  "at_depth n Leaf = []"
| "at_depth 0 (Node l x r) = [x]"
| "at_depth (Suc n) (Node l x r) = at_depth n l @ at_depth n r"

fun kids :: "'a tree \<Rightarrow> 'a tree list" where
  "kids Leaf = []"
| "kids (Node l x r) = filter (\<lambda>t. t \<noteq> Leaf) [l, r]"

lemma level_loop_round:
  "Leaf \<notin> set q \<Longrightarrow> level_loop (q @ c) out = level_loop (c @ concat (map kids q)) (out @ concat (map (at_depth 0) q))"
proof (induction q arbitrary: c out)
  case (Cons t q)
  then obtain l x r where "t = Node l x r" by (cases t) auto
  then show ?case using Cons by (simp add: Cons.IH)
qed simp

lemma depth_kids: "concat (map (at_depth n) (kids t)) = at_depth (Suc n) t"
  by (cases t) auto

lemma concat_kids: "concat (map (at_depth n) (concat (map kids q))) = concat (map (at_depth (Suc n)) q)"
  by (induction q) (simp_all add: depth_kids)

lemma kids_height: "t' \<in> set (kids t) \<Longrightarrow> height t' < height t \<and> t' \<noteq> Leaf"
  by (cases t) (auto split: if_splits)

lemma at_depth_high: "height t \<le> n \<Longrightarrow> at_depth n t = []"
  by (induction n t rule: at_depth.induct) auto

lemma level_loop_levels:
  "\<forall>t \<in> set q. t \<noteq> Leaf \<and> height t \<le> h \<Longrightarrow>
   level_loop q out = Some (out @ concat (map (\<lambda>n. concat (map (at_depth n) q)) [0..<h]))"
proof (induction h arbitrary: q out)
  case 0
  then have "q = []" by (cases q) auto
  then show ?case by simp
next
  case (Suc h)
  have "level_loop q out = level_loop (concat (map kids q)) (out @ concat (map (at_depth 0) q))"
    using level_loop_round [of q "[]" out] Suc.prems by auto
  also have "\<dots> = Some ((out @ concat (map (at_depth 0) q)) @ concat (map (\<lambda>n. concat (map (at_depth n) (concat (map kids q)))) [0..<h]))"
    using Suc.prems kids_height by (intro Suc.IH) fastforce
  finally show ?case by (simp add: concat_kids upt_conv_Cons map_Suc_upt [symmetric] o_def del: upt_Suc)
qed

section \<open>Balancing\<close>

lemma get_num_size: "get_num t = int (size t)"
  by (induction t) auto

text \<open>The turns narrow the place of the root: \<open>low a t\<close> says that on the left spine of \<open>t\<close> lies the
  last root that was too far left, with \<open>a\<close> nodes up to it and nothing to its right.\<close>

fun low :: "nat \<Rightarrow> 'a tree \<Rightarrow> bool" where
  "low a Leaf \<longleftrightarrow> False"
| "low a (Node l x r) \<longleftrightarrow> r = Leaf \<and> a = size l + 1 \<or> low a l"

fun high :: "nat \<Rightarrow> 'a tree \<Rightarrow> bool" where
  "high b Leaf \<longleftrightarrow> False"
| "high b (Node l x r) \<longleftrightarrow> l = Leaf \<and> b = size r + 1 \<or> high b r"

lemma low_size: "low a t \<Longrightarrow> 0 < a \<and> a \<le> size t"
  by (induction t) auto

lemma high_size: "high b t \<Longrightarrow> 0 < b \<and> b \<le> size t"
  by (induction t) auto

lemma set_min_left_low: "set_min_left t (Node l x Leaf) = Some t' \<Longrightarrow> (\<exists>l' y r'. t' = Node l' y r' \<and> low (size l + 1) l')"
proof (induction t arbitrary: t')
  case (Node u y v)
  then show ?case by (cases "u = Leaf") auto
qed simp

lemma set_max_right_high: "set_max_right t (Node Leaf x r) = Some t' \<Longrightarrow> (\<exists>l' y r'. t' = Node l' y r' \<and> high (size r + 1) r')"
proof (induction t arbitrary: t')
  case (Node u y v)
  then show ?case by (cases "v = Leaf") auto
qed simp

lemma set_min_left_root: "set_min_left (Node l x r) s = Some t' \<Longrightarrow> \<exists>l'. t' = Node l' x r \<and> size l' = size l + size s"
proof (induction l arbitrary: x r t')
  case (Node u y v)
  then show ?case by (auto split: if_splits)
qed auto

lemma set_max_right_root: "set_max_right (Node l x r) s = Some t' \<Longrightarrow> \<exists>r'. t' = Node l x r' \<and> size r' = size r + size s"
proof (induction r arbitrary: x l t')
  case (Node u y v)
  then show ?case by (auto split: if_splits)
qed auto

lemma turn_left_step:
  assumes "size l + 1 < size r" "b = 0 \<or> high b r \<and> 2 * b < size (Node l x r)"
  shows "\<exists>l' y r'. turn_left (Node l x r) = Some (Node l' y r') \<and> inorder (Node l' y r') = inorder (Node l x r)
    \<and> low (size l + 1) l' \<and> (b = 0 \<or> high b r')"
proof -
  obtain u y v where r: "r = Node u y v" using assms(1) by (cases r) auto
  obtain t' where t': "set_min_left r (Node l x Leaf) = Some t'" "inorder t' = inorder (Node l x Leaf) @ inorder r"
    using set_min_left_inorder [of r "Node l x Leaf"] r by auto
  obtain l' where l': "t' = Node l' y v" using set_min_left_root [OF t'(1) [unfolded r]] by auto
  moreover have "low (size l + 1) l'" using set_min_left_low [OF t'(1)] l' by auto
  moreover have "b = 0 \<or> high b v" using assms r by auto
  ultimately show ?thesis using t' by auto
qed

lemma turn_right_step:
  assumes "size r + 1 < size l" "a = 0 \<or> low a l \<and> 2 * a < size (Node l x r)"
  shows "\<exists>l' y r'. turn_right (Node l x r) = Some (Node l' y r') \<and> inorder (Node l' y r') = inorder (Node l x r)
    \<and> high (size r + 1) r' \<and> (a = 0 \<or> low a l')"
proof -
  obtain u y v where l: "l = Node u y v" using assms(1) by (cases l) auto
  obtain t' where t': "set_max_right l (Node Leaf x r) = Some t'" "inorder t' = inorder l @ inorder (Node Leaf x r)"
    using set_max_right_inorder [of l "Node Leaf x r"] l by auto
  obtain r' where r': "t' = Node u y r'" using set_max_right_root [OF t'(1) [unfolded l]] by auto
  moreover have "high (size r + 1) r'" using set_max_right_high [OF t'(1)] r' by auto
  moreover have "a = 0 \<or> low a u" using assms l by auto
  ultimately show ?thesis using t' by auto
qed

lemma balance_loop_ends:
  assumes "a = 0 \<or> low a l \<and> 2 * a < size (Node l x r)" "b = 0 \<or> high b r \<and> 2 * b < size (Node l x r)"
  shows "\<exists>l' y r'. balance_loop (Node l x r) = Some (Node l' y r') \<and> inorder (Node l' y r') = inorder (Node l x r)
    \<and> \<bar>int (size l') - int (size r')\<bar> \<le> 1"
  using assms
proof (induction "2 * size (Node l x r) - (a + b)" arbitrary: a b l x r rule: less_induct)
  case less
  let ?t = "Node l x r"
  have ab: "a \<le> size l" "b \<le> size r" using less.prems low_size high_size by fastforce+
  consider "size l + 1 < size r" | "size r + 1 < size l" | "\<bar>int (size l) - int (size r)\<bar> \<le> 1" by linarith
  then show ?case
  proof cases
    case 1
    obtain l' y r' where s: "turn_left ?t = Some (Node l' y r')" "inorder (Node l' y r') = inorder ?t"
        "low (size l + 1) l'" "b = 0 \<or> high b r'"
      using turn_left_step [OF 1 less.prems(2)] by auto
    have n: "size (Node l' y r') = size ?t" using s(2) by (metis length_inorder)
    have "balance_loop ?t = balance_loop (Node l' y r')"
      using 1 s(1) by (subst balance_loop.simps) (simp add: get_num_size Let_def del: turn_left.simps)
    moreover have "2 * size (Node l' y r') - (size l + 1 + b) < 2 * size ?t - (a + b)" using n ab by simp
    moreover have "size l + 1 = 0 \<or> low (size l + 1) l' \<and> 2 * (size l + 1) < size (Node l' y r')" using 1 s(3) n by simp
    moreover have "b = 0 \<or> high b r' \<and> 2 * b < size (Node l' y r')" using less.prems(2) s(4) n by auto
    ultimately show ?thesis using less.hyps [of l' y r' "size l + 1" b] s(2) by metis
  next
    case 2
    obtain l' y r' where s: "turn_right ?t = Some (Node l' y r')" "inorder (Node l' y r') = inorder ?t"
        "high (size r + 1) r'" "a = 0 \<or> low a l'"
      using turn_right_step [OF 2 less.prems(1)] by auto
    have n: "size (Node l' y r') = size ?t" using s(2) by (metis length_inorder)
    have "balance_loop ?t = balance_loop (Node l' y r')"
      using 2 s(1) by (subst balance_loop.simps) (simp add: get_num_size Let_def del: turn_right.simps)
    moreover have "2 * size (Node l' y r') - (a + (size r + 1)) < 2 * size ?t - (a + b)" using n ab by simp
    moreover have "size r + 1 = 0 \<or> high (size r + 1) r' \<and> 2 * (size r + 1) < size (Node l' y r')" using 2 s(3) n by simp
    moreover have "a = 0 \<or> low a l' \<and> 2 * a < size (Node l' y r')" using less.prems(1) s(4) n by auto
    ultimately show ?thesis using less.hyps [of l' y r' a "size r + 1"] s(2) by metis
  next
    case 3
    then have "balance_loop ?t = Some ?t" by (subst balance_loop.simps) (auto simp: get_num_size Let_def)
    then show ?thesis using 3 by blast
  qed
qed

text \<open>The nodes that \<open>balance\<close> visits.\<close>

fun spine_balanced :: "'a tree \<Rightarrow> bool" where
  "spine_balanced Leaf \<longleftrightarrow> True"
| "spine_balanced (Node l x r) \<longleftrightarrow> \<bar>int (size l) - int (size r)\<bar> \<le> 1 \<and> spine_balanced r"

lemma balance_ends: "\<exists>t'. balance t = Some t' \<and> inorder t' = inorder t \<and> spine_balanced t'"
proof (induction "size t" arbitrary: t rule: less_induct)
  case less
  show ?case
  proof (cases t)
    case Leaf
    then show ?thesis by (subst balance.simps) simp
  next
    case (Node l x r)
    obtain l' y r' where b: "balance_loop t = Some (Node l' y r')" "inorder (Node l' y r') = inorder t"
        "\<bar>int (size l') - int (size r')\<bar> \<le> 1"
      using balance_loop_ends [of 0 l x r 0] Node by auto
    have "size (Node l' y r') = size t" using b(2) by (metis length_inorder)
    then obtain r1 where r: "balance r' = Some r1" "inorder r1 = inorder r'" "spine_balanced r1"
      using less.hyps [of r'] by auto
    then have "size r1 = size r'" by (metis length_inorder)
    then show ?thesis using b r Node by (subst balance.simps) auto
  qed
qed

section \<open>Saving and loading\<close>

lemma load_node_total: "\<exists>t rest. load_node ok fp = Some (t, rest) \<and> length rest \<le> length fp"
proof (induction "length fp" arbitrary: fp rule: less_induct)
  case less
  show ?case
  proof (cases "\<exists>x fp2. fp = 40 # x # fp2 \<and> x \<noteq> 41 \<and> ok")
    case True
    then obtain x fp2 where fp: "fp = 40 # x # fp2" "x \<noteq> 41" ok by auto
    obtain l fp3 where l: "load_node True fp2 = Some (l, fp3)" "length fp3 \<le> length fp2"
      using less.hyps [of fp2] fp by auto
    obtain r fp4 where r: "load_node True fp3 = Some (r, fp4)" "length fp4 \<le> length fp3"
      using less.hyps [of fp3] fp l(2) by auto
    show ?thesis using fp l r by (subst load_node.simps) (auto simp: fgetc_def split: list.splits)
  next
    case False
    show ?thesis
    proof (cases "fp = [40] \<and> ok")
      case True
      have "load_node ok [] = Some (Leaf, [])" by (subst load_node.simps) (simp add: fgetc_def)
      then show ?thesis using True by (subst load_node.simps) (simp add: fgetc_def)
    next
      case f: False
      then show ?thesis using False
        by (subst load_node.simps) (auto simp: fgetc_def split: list.splits)
    qed
  qed
qed

lemma load_save:
  "set_tree t \<subseteq> {0..255} - {41} \<Longrightarrow> load_node True (save_node t @ rest) = Some (t, rest)"
proof (induction t arbitrary: rest)
  case Leaf
  show ?case by (subst load_node.simps) (simp add: fgetc_def)
next
  case (Node l x r)
  have "x mod 256 = x" "x \<noteq> 41" using Node.prems by auto
  then show ?case using Node by (subst load_node.simps) (simp add: fgetc_def)
qed

section \<open>The second balancing\<close>

fun balanced_everywhere :: "'a tree \<Rightarrow> bool" where
  "balanced_everywhere Leaf \<longleftrightarrow> True"
| "balanced_everywhere (Node l x r) \<longleftrightarrow>
     \<bar>int (size l) - int (size r)\<bar> \<le> 1 \<and> balanced_everywhere l \<and> balanced_everywhere r"

fun lchain :: "'a tree \<Rightarrow> bool" where
  "lchain Leaf \<longleftrightarrow> True"
| "lchain (Node l x r) \<longleftrightarrow> r = Leaf \<and> lchain l"

fun rchain :: "'a tree \<Rightarrow> bool" where
  "rchain Leaf \<longleftrightarrow> True"
| "rchain (Node l x r) \<longleftrightarrow> l = Leaf \<and> rchain r"

lemma z_balance_loop_chains:
  "lchain l \<Longrightarrow> rchain r \<Longrightarrow> \<exists>l' y r'. z_balance_loop (Node l x r) = Some (Node l' y r')
     \<and> inorder (Node l' y r') = inorder (Node l x r) \<and> \<bar>int (size l') - int (size r')\<bar> \<le> 1 \<and> lchain l' \<and> rchain r'"
proof (induction "nat \<bar>int (size l) - int (size r)\<bar>" arbitrary: l x r rule: less_induct)
  case less
  consider "size l + 1 < size r" | "size r + 1 < size l" | "\<bar>int (size l) - int (size r)\<bar> \<le> 1" by linarith
  then show ?case
  proof cases
    case 1
    then obtain y v where r: "r = Node Leaf y v" "rchain v" using less.prems by (cases r) auto
    then have "z_balance_loop (Node l x r) = z_balance_loop (Node (Node l x Leaf) y v)"
      using 1 by (subst z_balance_loop.simps) (simp add: get_num_size Let_def)
    then show ?thesis using less.hyps [of "Node l x Leaf" v y] less.prems r 1 by simp
  next
    case 2
    then obtain u y where l: "l = Node u y Leaf" "lchain u" using less.prems by (cases l) auto
    then have "z_balance_loop (Node l x r) = z_balance_loop (Node u y (Node Leaf x r))"
      using 2 by (subst z_balance_loop.simps) (simp add: get_num_size Let_def)
    then show ?thesis using less.hyps [of u "Node Leaf x r" y] less.prems l 2 by simp
  next
    case 3
    then have "z_balance_loop (Node l x r) = Some (Node l x r)"
      by (subst z_balance_loop.simps) (auto simp: get_num_size Let_def)
    then show ?thesis using less.prems 3 by blast
  qed
qed

lemma balance_tree_chains:
  "lchain t \<or> rchain t \<Longrightarrow> \<exists>t'. balance_tree t = Some t' \<and> inorder t' = inorder t \<and> balanced_everywhere t'"
proof (induction "size t" arbitrary: t rule: less_induct)
  case less
  show ?case
  proof (cases t)
    case Leaf
    then show ?thesis by (subst balance_tree.simps) simp
  next
    case (Node l x r)
    have "lchain l" "rchain r" using less.prems Node by auto
    from z_balance_loop_chains [OF this, of x] obtain l' y r' where
        b: "z_balance_loop t = Some (Node l' y r')" "inorder (Node l' y r') = inorder t"
        "\<bar>int (size l') - int (size r')\<bar> \<le> 1" "lchain l'" "rchain r'"
      using Node by auto
    have "size (Node l' y r') = size t" using b(2) by (metis length_inorder)
    then obtain l1 r1 where
        l: "balance_tree l' = Some l1" "inorder l1 = inorder l'" "balanced_everywhere l1" and
        r: "balance_tree r' = Some r1" "inorder r1 = inorder r'" "balanced_everywhere r1"
      using less.hyps [of l'] less.hyps [of r'] b(4,5) by auto
    then have "size l1 = size l'" "size r1 = size r'" by (metis length_inorder)+
    then show ?thesis using b l r Node by (subst balance_tree.simps) auto
  qed
qed

lemma insert_names_ascending:
  "sorted (map ds_id ds) \<Longrightarrow> rchain (insert_names ds) \<and> inorder (insert_names ds) = ds"
proof (induction ds rule: rev_induct)
  case Nil
  then show ?case by (simp add: insert_names_def)
next
  case (snoc d ds)
  have step: "\<forall>y \<in> set_tree t. ds_id y \<le> ds_id d \<Longrightarrow> rchain t \<Longrightarrow>
      rchain (snd (insert_tree True t d)) \<and> inorder (snd (insert_tree True t d)) = inorder t @ [d]" for t
    by (induction t) (auto split: prod.splits)
  have "set_tree (insert_names ds) = set ds" using snoc by (metis sorted_append map_append set_inorder)
  then show ?case using snoc step [of "insert_names ds"] by (auto simp: insert_names_def sorted_append)
qed

lemma balance_tree_undefined:
  "a \<noteq> Leaf \<Longrightarrow> size l < size a + size c \<Longrightarrow> balance_tree (Node l x (Node a y c)) = None"
  by (subst balance_tree.simps, subst z_balance_loop.simps) (auto simp: get_num_size Let_def)

section \<open>Properties\<close>

lemma find_bt_iff: "ordered t \<Longrightarrow> find_bt t i \<noteq> Leaf \<longleftrightarrow> (\<exists>x \<in> set_tree t. sc_id x = i)"
  using find_bt_none [of t i] find_bt_found [of t i] by (cases "find_bt t i") auto

lemma delete_bt_list:
  assumes "ordered t"
  shows "\<exists>t'. delete_bt t i = Some t' \<and> ordered t' \<and>
    (\<exists>xs d ys. inorder t = xs @ d @ ys \<and> inorder t' = xs @ ys \<and> map sc_id d = (if find_bt t i = Leaf then [] else [i]))"
proof (cases "find_bt t i = Leaf")
  case True
  then have "delete_bt t i = Some t" using delete_bt_absent find_bt_none [OF assms] by blast
  then show ?thesis using True assms by (intro exI [of _ t]) auto
next
  case False
  then obtain t' xs x ys where d: "delete_bt t i = Some t'" "inorder t = xs @ x # ys" "sc_id x = i" "inorder t' = xs @ ys"
    using delete_bt_present [OF assms] find_bt_iff [OF assms] by blast
  have "ordered t'" using assms d by (auto simp: ordered_def sorted_append)
  moreover have "\<exists>us d vs. inorder t = us @ d @ vs \<and> inorder t' = us @ vs \<and> map sc_id d = [i]"
    using d by (intro exI [of _ xs] exI [of _ "[x]"] exI [of _ ys]) simp
  ultimately show ?thesis using d(1) False by auto
qed

lemma travel_level_levels:
  "t \<noteq> Leaf \<Longrightarrow> travel_level t = Some (concat (map (\<lambda>n. at_depth n t) [0..<height t]))"
  using level_loop_levels [of "[t]" "height t" "[]"] by (simp add: travel_level_def)

text \<open>
  C25. The score tree, as long as its ids are in order: \<open>insert\<close> adds the record and keeps the order;
  \<open>find\<close> returns a node if and only if the id is in the tree, and then a node of that id; \<open>delete\<close> is
  always defined, keeps the order, and takes exactly one record of that id out of the inorder sequence,
  or nothing when \<open>find\<close> fails; when \<open>malloc\<close> fails \<open>insert\<close> leaves the tree alone, and yet returns 0
  unless the tree is empty.  \<open>travel_level\<close> prints the levels one after the other, and is undefined on
  the empty tree.
\<close>
theorem search_tree_operations:
  assumes "ordered t"
  shows "(fst (insert_bt True t d) = 0 \<and> ordered (snd (insert_bt True t d))
      \<and> mset (inorder (snd (insert_bt True t d))) = add_mset d (mset (inorder t)))
    \<and> insert_bt False t d = (if t = Leaf then -1 else 0, t)
    \<and> (find_bt t i = Leaf \<longleftrightarrow> i \<notin> sc_id ` set_tree t)
    \<and> (\<forall>l x r. find_bt t i = Node l x r \<longrightarrow> sc_id x = i \<and> x \<in> set_tree t)
    \<and> (\<exists>t'. delete_bt t i = Some t' \<and> ordered t' \<and>
      (\<exists>xs d ys. inorder t = xs @ d @ ys \<and> inorder t' = xs @ ys \<and> map sc_id d = (if find_bt t i = Leaf then [] else [i])))
    \<and> travel_level t = (if t = Leaf then None else Some (concat (map (\<lambda>n. at_depth n t) [0..<height t])))"
proof (intro conjI allI)
  show "fst (insert_bt True t d) = 0" by (cases t) auto
  show "insert_bt False t d = (if t = Leaf then -1 else 0, t)" by (induction t) auto
  show "find_bt t i = Leaf \<longleftrightarrow> i \<notin> sc_id ` set_tree t" using find_bt_iff [OF assms, of i] by blast
  show "find_bt t i = Node l x r \<longrightarrow> sc_id x = i \<and> x \<in> set_tree t" for l x r using find_bt_found by blast
  show "travel_level t = (if t = Leaf then None else Some (concat (map (\<lambda>n. at_depth n t) [0..<height t])))"
    using travel_level_levels [of t] by (simp add: travel_level_def)
qed (use assms insert_bt_ordered insert_bt_mset delete_bt_list [OF assms] in blast)+

definition sample_record :: "int \<Rightarrow> SC" where
  "sample_record i = \<lparr>sc_id = i, sc_name = ''stu'', sc_math = 0, sc_chinese = 0\<rparr>"

lemma search_tree_operations_witness:
  "(let t = Node (Node Leaf (sample_record 1) Leaf) (sample_record 2) Leaf in
     fst (insert_bt True t (sample_record 3)) = 0 \<and> insert_bt False t (sample_record 3) = (0, t)
     \<and> find_bt t 3 = Leaf \<and> sc_id (sample_record 2) = 2
     \<and> (\<exists>t'. delete_bt t 2 = Some t' \<and> ordered t') \<and> travel_level t \<noteq> None)"
proof -
  let ?t = "Node (Node Leaf (sample_record 1) Leaf) (sample_record 2) Leaf"
  have o: "ordered ?t" by (simp add: sample_record_def)
  have n: "find_bt ?t 2 = ?t" "(3::int) \<notin> sc_id ` set_tree ?t" by (simp_all add: sample_record_def)
  show ?thesis
    using search_tree_operations [OF o, of "sample_record 3" 3] search_tree_operations [OF o, of "sample_record 3" 2] n
    by (auto simp: Let_def sample_record_def)
qed

text \<open>
  C27. \<open>balance\<close> of the score tree returns for every tree: the loop at a node ends although it may turn
  left and right in alternation (a subtree turned once bounds the place of every later root), the inorder
  sequence is kept, and the sizes of the two subtrees of every node on the path to the right differ by at most
  one.  The left subtrees are not visited.
\<close>
theorem balance_terminates: "\<exists>t'. balance t = Some t' \<and> inorder t' = inorder t \<and> spine_balanced t'"
  by (rule balance_ends)

lemma balance_leaves_left_chains:
  "\<exists>t'. balance (Node (Node (Node (Node Leaf 1 Leaf) 2 Leaf) 3 Leaf) 4 (Node (Node Leaf (5::int) Leaf) 6 (Node Leaf 7 Leaf))) = Some t'
    \<and> \<not> balanced_everywhere t'"
  by (subst balance.simps, subst balance_loop.simps, subst balance.simps, subst balance_loop.simps,
      subst balance.simps, subst balance_loop.simps, subst balance.simps) simp



text \<open>
  The second tree's \<open>balance_tree\<close>: records inserted in ascending order of their numbers, as \<open>main\<close>
  does, are balanced at every node and stay in order; but the missing \<open>return\<close> of \<open>find_min\<close> makes the
  balancing undefined as soon as the heavier right child has a left child, and so makes \<open>delete_tree\<close> of
  such a node.
\<close>
theorem balance_tree_of_ascending:
  assumes "sorted (map ds_id ds)" and "a \<noteq> Leaf"
  shows "(\<exists>t. balance_tree (insert_names ds) = Some t \<and> inorder t = ds \<and> balanced_everywhere t)
    \<and> (size l < size a + size c \<longrightarrow> balance_tree (Node l x (Node a y c)) = None)
    \<and> delete_tree (Node l x (Node a y c)) (ds_id x) = None
    \<and> delete_tree (Node l x (Node Leaf y c)) (ds_id x) = Some (Some 0, Node l y c)"
  using balance_tree_chains [of "insert_names ds"] insert_names_ascending [OF assms(1)]
    balance_tree_undefined [OF assms(2), of l c x y] assms(2)
  by auto

lemma balance_tree_of_ascending_witness:
  "(let ds = map (\<lambda>a. \<lparr>ds_id = int a, ds_name = student_name 32 a\<rparr>) [1..<11] in
     \<exists>t. balance_tree (insert_names ds) = Some t \<and> inorder t = ds \<and> balanced_everywhere t)
   \<and> (let x = \<lparr>ds_id = 1, ds_name = ''stu1''\<rparr> in
     balance_tree (Node Leaf x (Node (Node Leaf x Leaf) x Leaf)) = None
     \<and> delete_tree (Node Leaf x (Node (Node Leaf x Leaf) x Leaf)) 1 = None)"
proof -
  let ?ds = "map (\<lambda>a. \<lparr>ds_id = int a, ds_name = student_name 32 a\<rparr>) [1..<11]"
  let ?x = "\<lparr>ds_id = 1, ds_name = ''stu1''\<rparr>"
  have s: "sorted (map ds_id ?ds)" by (simp add: o_def sorted_iff_nth_mono)
  have n: "Node Leaf ?x Leaf \<noteq> Leaf" by simp
  show ?thesis
    using balance_tree_of_ascending [OF s n, of Leaf Leaf ?x ?x] by (simp add: Let_def)
qed

end
