(* ===== verification/ArrayTree.thy ===== *)
theory ArrayTree
  imports Prelude "HOL-Library.Tree"
begin

text \<open>
  The binary tree in an array of \<open>3.ybx/20.ds/8.gyf/ch6/bo6-1.c\<close>: the children of the node at index
  \<open>i\<close> are at \<open>2 * i + 1\<close> and \<open>2 * i + 2\<close>, the value 0 (\<open>Nil\<close>) marks an empty place.  The array has
  100 places and no operation checks an index against them: a read or write outside is undefined
  (\<open>None\<close>).  The theorems relate the array to the \<open>tree\<close> that its nodes form.
\<close>

section \<open>Operations\<close>

abbreviation Nil0 :: int where "Nil0 \<equiv> 0"

definition MAX_TREE_SIZE :: nat where
  "MAX_TREE_SIZE = 100"

type_synonym SqBiTree = "int list"

definition cell :: "SqBiTree \<Rightarrow> nat \<Rightarrow> int option" where
  "cell T i = (if i < MAX_TREE_SIZE then rd T i else None)"

definition icell :: "SqBiTree \<Rightarrow> int \<Rightarrow> int option" where
  "icell T i = (if 0 \<le> i then cell T (nat i) else None)"

definition InitBiTree :: "SqBiTree \<Rightarrow> int \<times> SqBiTree" where
  "InitBiTree T = (1, replicate (MAX_TREE_SIZE - 1) Nil0 @ drop (MAX_TREE_SIZE - 1) T)"

text \<open>\<open>CreateBiTree\<close> reads with \<open>scanf\<close>: \<open>Some v\<close> is a number, \<open>None\<close> text that is not one; after the
  end of the input \<open>scanf\<close> returns -1 and stores nothing.\<close>

function create_loop :: "nat \<Rightarrow> int option list \<Rightarrow> SqBiTree \<Rightarrow> int \<times> SqBiTree" where
  "create_loop i input T =
     (if i < MAX_TREE_SIZE then
        (if input \<noteq> [] \<and> hd input = None then (1, take i T @ replicate (MAX_TREE_SIZE - i) Nil0)
         else
           let T1 = (case input of Some v # _ \<Rightarrow> T[i := v] | _ \<Rightarrow> T) in
           if T1 ! i = 999 then (1, take i T1 @ replicate (MAX_TREE_SIZE - i) Nil0)
           else if i \<noteq> 0 \<and> T1 ! i \<noteq> Nil0 \<and> T1 ! (i - 1 div 2) = Nil0 then (0, T1)
           else create_loop (i + 1) (tl input) T1)
      else (1, T))"
  by pat_completeness auto
termination by (relation "measure (\<lambda>(i, _, _). MAX_TREE_SIZE - i)") auto

declare create_loop.simps [simp del]

definition CreateBiTree :: "int option list \<Rightarrow> SqBiTree \<Rightarrow> int \<times> SqBiTree" where
  "CreateBiTree input T = create_loop 0 input T"

definition BiTreeEmpty :: "SqBiTree \<Rightarrow> int" where
  "BiTreeEmpty T = (if T ! 0 = Nil0 then 1 else 0)"

text \<open>The index after the last used one: the loop that runs down from \<open>MAX_TREE_SIZE - 1\<close>.\<close>

fun used_upto :: "SqBiTree \<Rightarrow> nat \<Rightarrow> nat" where
  "used_upto T 0 = 0"
| "used_upto T (Suc i) = (if T ! i \<noteq> Nil0 then Suc i else used_upto T i)"

function depth_loop :: "nat \<Rightarrow> nat \<Rightarrow> nat" where
  "depth_loop i j = (if 2 ^ j \<le> i then depth_loop i (j + 1) else j)"
  by pat_completeness auto
termination
proof (relation "measure (\<lambda>(i, j). i - j)")
  fix i j :: nat
  assume "2 ^ j \<le> i"
  then have "j < i" by (rule less_le_trans [OF less_exp])
  then show "((i, j + 1), i, j) \<in> measure (\<lambda>(i, j). i - j)" by simp
qed simp

declare depth_loop.simps [simp del]

definition BiTreeDepth :: "SqBiTree \<Rightarrow> nat" where
  "BiTreeDepth T = depth_loop (used_upto T MAX_TREE_SIZE) 0"

definition Root :: "SqBiTree \<Rightarrow> int \<Rightarrow> int \<times> int" where
  "Root T node = (if BiTreeEmpty T \<noteq> 0 then (0, node) else (1, T ! 0))"

record tree_position =
  level :: int
  order :: int

text \<open>\<open>pow(2, level - 1)\<close> is a double: below level 1 it is a fraction, which the conversion to \<open>int\<close>
  cuts off, of the power alone in \<open>Value\<close> and of the whole sum elsewhere.\<close>

definition value_index :: "tree_position \<Rightarrow> int option" where
  "value_index e = (if level e > 31 then None
     else Some ((if level e \<ge> 1 then 2 ^ nat (level e - 1) else 0) - 1 + order e - 1))"

definition pos_index :: "tree_position \<Rightarrow> int" where
  "pos_index e = (if level e \<ge> 1 then 2 ^ nat (level e - 1) - 1 + order e - 1
     else if order e - 2 \<ge> 0 then order e - 2 else order e - 1)"

definition Value :: "SqBiTree \<Rightarrow> tree_position \<Rightarrow> int option" where
  "Value T e = do { i \<leftarrow> value_index e; icell T i }"

definition Assign :: "SqBiTree \<Rightarrow> tree_position \<Rightarrow> int \<Rightarrow> (int \<times> SqBiTree) option" where
  "Assign T e v = (let i = pos_index e in do {
     orphan \<leftarrow> (if v \<noteq> Nil0 then map_option (\<lambda>x. x = Nil0) (icell T (i - 1 div 2)) else Some False);
     if orphan then Some (0, T)
     else do {
       parent \<leftarrow> (if v = Nil0
         then do { x \<leftarrow> icell T (2 * i + 1);
                   if x \<noteq> Nil0 then Some True else map_option (\<lambda>y. y \<noteq> Nil0) (icell T (2 * i + 2)) }
         else Some False);
       if parent then Some (0, T)
       else do { icell T i; Some (1, T[nat i := v]) } } })"

definition Parent :: "SqBiTree \<Rightarrow> int \<Rightarrow> int" where
  "Parent T node = (if T ! 0 = Nil0 then Nil0
     else case find (\<lambda>i. T ! i = node) [1..<MAX_TREE_SIZE] of
       Some i \<Rightarrow> T ! ((i - 1) div 2) | None \<Rightarrow> Nil0)"

definition LeftChild :: "SqBiTree \<Rightarrow> int \<Rightarrow> int option" where
  "LeftChild T node = (if T ! 0 = Nil0 then Some Nil0
     else case find (\<lambda>i. T ! i = node) [0..<MAX_TREE_SIZE] of
       Some i \<Rightarrow> cell T (2 * i + 1) | None \<Rightarrow> Some Nil0)"

definition RightChild :: "SqBiTree \<Rightarrow> int \<Rightarrow> int option" where
  "RightChild T node = (if T ! 0 = Nil0 then Some Nil0
     else case find (\<lambda>i. T ! i = node) [0..<MAX_TREE_SIZE] of
       Some i \<Rightarrow> cell T (2 * i + 2) | None \<Rightarrow> Some Nil0)"

definition LeftSibling :: "SqBiTree \<Rightarrow> int \<Rightarrow> int" where
  "LeftSibling T node = (if T ! 0 = Nil0 then Nil0
     else case find (\<lambda>i. T ! i = node \<and> i mod 2 = 0) [1..<MAX_TREE_SIZE] of
       Some i \<Rightarrow> T ! (i - 1) | None \<Rightarrow> Nil0)"

definition RightSibling :: "SqBiTree \<Rightarrow> int \<Rightarrow> int option" where
  "RightSibling T node = (if T ! 0 = Nil0 then Some Nil0
     else case find (\<lambda>i. T ! i = node \<and> i mod 2 \<noteq> 0) [1..<MAX_TREE_SIZE] of
       Some i \<Rightarrow> cell T (i + 1) | None \<Rightarrow> Some Nil0)"

text \<open>\<open>Move\<close>: its two arrays may be the same one, so it works on a store that maps names to arrays.\<close>

function Move :: "(nat \<Rightarrow> SqBiTree) \<Rightarrow> nat \<Rightarrow> nat \<Rightarrow> nat \<Rightarrow> nat \<Rightarrow> (nat \<Rightarrow> SqBiTree) option" where
  "Move m t1 i t2 j = do {
     x \<leftarrow> cell (m t1) (2 * i + 1);
     m1 \<leftarrow> (if x \<noteq> Nil0 then Move m t1 (2 * i + 1) t2 (2 * j + 1) else Some m);
     y \<leftarrow> cell (m1 t1) (2 * i + 2);
     m2 \<leftarrow> (if y \<noteq> Nil0 then Move m1 t1 (2 * i + 2) t2 (2 * j + 2) else Some m1);
     v \<leftarrow> cell (m2 t1) i;
     cell (m2 t2) j;
     let m3 = m2(t2 := (m2 t2)[j := v]);
     Some (m3(t1 := (m3 t1)[i := Nil0])) }"
  by pat_completeness auto
termination by (relation "measure (\<lambda>(m, t1, i, t2, j). MAX_TREE_SIZE - i)") (auto simp: cell_def split: if_splits)

declare Move.simps [simp del]

function place_loop :: "SqBiTree \<Rightarrow> int \<Rightarrow> nat \<Rightarrow> nat \<Rightarrow> nat option" where
  "place_loop T p n i = (if i < n then do { x \<leftarrow> cell T i; if x = p then Some i else place_loop T p n (i + 1) } else Some i)"
  by pat_completeness auto
termination by (relation "measure (\<lambda>(T, p, n, i). n - i)") auto

declare place_loop.simps [simp del]

text \<open>\<open>Insert_child\<close>, with \<open>t1\<close> under the name 0 and \<open>t2\<close> under the name 1.\<close>

definition Insert_child :: "SqBiTree \<Rightarrow> int \<Rightarrow> int \<Rightarrow> SqBiTree \<Rightarrow> (int \<times> SqBiTree \<times> SqBiTree) option" where
  "Insert_child t1 p lr t2 = do {
     i \<leftarrow> place_loop t1 p (2 ^ BiTreeDepth t1 - 1) 0;
     let j = 2 * int i + 1 + lr;
     x \<leftarrow> icell t1 j;
     let m = (\<lambda>_. t2)(0 := t1);
     m1 \<leftarrow> (if x \<noteq> Nil0 then Move m 0 (nat j) 0 (2 * nat j + 2) else Some m);
     m2 \<leftarrow> Move m1 1 0 0 (nat j);
     Some (1, m2 0, m2 1) }"

function Pre_order_delete :: "SqBiTree \<Rightarrow> nat \<Rightarrow> SqBiTree option" where
  "Pre_order_delete T i = do {
     cell T i;
     let T1 = T[i := Nil0];
     x \<leftarrow> cell T1 (2 * i + 1);
     T2 \<leftarrow> (if x \<noteq> Nil0 then Pre_order_delete T1 (2 * i + 1) else Some T1);
     y \<leftarrow> cell T2 (2 * i + 2);
     if y \<noteq> Nil0 then Pre_order_delete T2 (2 * i + 2) else Some T2 }"
  by pat_completeness auto
termination by (relation "measure (\<lambda>(T, i). MAX_TREE_SIZE - i)") (auto simp: cell_def split: if_splits)

declare Pre_order_delete.simps [simp del]

definition Delete_child1 :: "SqBiTree \<Rightarrow> tree_position \<Rightarrow> int \<Rightarrow> (int \<times> SqBiTree) option" where
  "Delete_child1 T pos lr = (let i = pos_index pos in do {
     x \<leftarrow> icell T i;
     if x = Nil0 then Some (0, T)
     else let c = 2 * i + 1 + lr in
       if c < 0 then None else map_option (Pair 1) (Pre_order_delete T (nat c)) })"

text \<open>The traversals, as the list of the values visited.\<close>

function Pre_order_func :: "SqBiTree \<Rightarrow> nat \<Rightarrow> int list option" where
  "Pre_order_func T i = do {
     v \<leftarrow> cell T i;
     x \<leftarrow> cell T (2 * i + 1);
     l \<leftarrow> (if x \<noteq> Nil0 then Pre_order_func T (2 * i + 1) else Some []);
     y \<leftarrow> cell T (2 * i + 2);
     r \<leftarrow> (if y \<noteq> Nil0 then Pre_order_func T (2 * i + 2) else Some []);
     Some (v # l @ r) }"
  by pat_completeness auto
termination by (relation "measure (\<lambda>(T, i). MAX_TREE_SIZE - i)") (auto simp: cell_def split: if_splits)

function In_order_func :: "SqBiTree \<Rightarrow> nat \<Rightarrow> int list option" where
  "In_order_func T i = do {
     x \<leftarrow> cell T (2 * i + 1);
     l \<leftarrow> (if x \<noteq> Nil0 then In_order_func T (2 * i + 1) else Some []);
     v \<leftarrow> cell T i;
     y \<leftarrow> cell T (2 * i + 2);
     r \<leftarrow> (if y \<noteq> Nil0 then In_order_func T (2 * i + 2) else Some []);
     Some (l @ v # r) }"
  by pat_completeness auto
termination by (relation "measure (\<lambda>(T, i). MAX_TREE_SIZE - i)") (auto simp: cell_def split: if_splits)

function Post_order_func :: "SqBiTree \<Rightarrow> nat \<Rightarrow> int list option" where
  "Post_order_func T i = do {
     x \<leftarrow> cell T (2 * i + 1);
     l \<leftarrow> (if x \<noteq> Nil0 then Post_order_func T (2 * i + 1) else Some []);
     y \<leftarrow> cell T (2 * i + 2);
     r \<leftarrow> (if y \<noteq> Nil0 then Post_order_func T (2 * i + 2) else Some []);
     v \<leftarrow> cell T i;
     Some (l @ r @ [v]) }"
  by pat_completeness auto
termination by (relation "measure (\<lambda>(T, i). MAX_TREE_SIZE - i)") (auto simp: cell_def split: if_splits)

declare Pre_order_func.simps [simp del] In_order_func.simps [simp del] Post_order_func.simps [simp del]

definition Pre_order :: "SqBiTree \<Rightarrow> int list option" where
  "Pre_order T = (if BiTreeEmpty T = 0 then Pre_order_func T 0 else Some [])"

definition In_order :: "SqBiTree \<Rightarrow> int list option" where
  "In_order T = (if BiTreeEmpty T = 0 then In_order_func T 0 else Some [])"

definition Post_order :: "SqBiTree \<Rightarrow> int list option" where
  "Post_order T = (if BiTreeEmpty T = 0 then Post_order_func T 0 else Some [])"

definition Level_order :: "SqBiTree \<Rightarrow> int list" where
  "Level_order T = filter (\<lambda>v. v \<noteq> Nil0) (map (nth T) [0..<used_upto T MAX_TREE_SIZE])"

text \<open>\<open>Print\<close>: the lines \<open>order, value\<close> of each level.\<close>

fun print_level :: "SqBiTree \<Rightarrow> int \<Rightarrow> nat list \<Rightarrow> (nat \<times> int) list option" where
  "print_level T i [] = Some []"
| "print_level T i (j # js) = do {
     node \<leftarrow> Value T \<lparr>level = i, order = int j\<rparr>;
     rest \<leftarrow> print_level T i js;
     Some (if node \<noteq> Nil0 then (j, node) # rest else rest) }"

fun print_levels :: "SqBiTree \<Rightarrow> nat list \<Rightarrow> (nat \<times> int) list list option" where
  "print_levels T [] = Some []"
| "print_levels T (i # is) = do {
     this \<leftarrow> print_level T (int i) [1..<2 ^ (i - 1) + 1];
     rest \<leftarrow> print_levels T is;
     Some (this # rest) }"

definition Print :: "SqBiTree \<Rightarrow> (nat \<times> int) list list option" where
  "Print T = print_levels T [1..<BiTreeDepth T + 1]"

section \<open>The tree in the array\<close>

text \<open>\<open>shape T i\<close> is the tree of the indices below \<open>i\<close>, \<open>bt T i\<close> that of the values.\<close>

function shape :: "SqBiTree \<Rightarrow> nat \<Rightarrow> nat tree" where
  "shape T i = (if i < MAX_TREE_SIZE \<and> T ! i \<noteq> Nil0
     then Node (shape T (2 * i + 1)) i (shape T (2 * i + 2)) else Leaf)"
  by pat_completeness auto
termination by (relation "measure (\<lambda>(T, i). MAX_TREE_SIZE - i)") auto

declare shape.simps [simp del]

definition bt :: "SqBiTree \<Rightarrow> nat \<Rightarrow> int tree" where
  "bt T i = map_tree (nth T) (shape T i)"

lemma shape_Leaf [simp]: "shape T i = Leaf \<longleftrightarrow> \<not> (i < MAX_TREE_SIZE \<and> T ! i \<noteq> Nil0)"
  by (subst shape.simps) simp

lemma shape_Node: "i < MAX_TREE_SIZE \<Longrightarrow> T ! i \<noteq> Nil0 \<Longrightarrow> shape T i = Node (shape T (2 * i + 1)) i (shape T (2 * i + 2))"
  by (subst shape.simps) simp

lemma bt_Leaf [simp]: "bt T i = Leaf \<longleftrightarrow> \<not> (i < MAX_TREE_SIZE \<and> T ! i \<noteq> Nil0)"
  by (simp add: bt_def)

lemma shape_empty [simp]: "T ! i = Nil0 \<Longrightarrow> shape T i = Leaf"
  by simp

lemma bt_empty [simp]: "T ! i = Nil0 \<Longrightarrow> bt T i = Leaf"
  by simp

lemma shape_nonempty: "k \<in> set_tree (shape T i) \<Longrightarrow> i < MAX_TREE_SIZE \<and> T ! i \<noteq> Nil0"
  by (subst (asm) shape.simps) (auto split: if_splits)

lemma bt_Node: "i < MAX_TREE_SIZE \<Longrightarrow> T ! i \<noteq> Nil0 \<Longrightarrow> bt T i = Node (bt T (2 * i + 1)) (T ! i) (bt T (2 * i + 2))"
  by (simp add: bt_def shape_Node)

text \<open>No node lies where its children would be outside the array.\<close>

definition fits :: "SqBiTree \<Rightarrow> bool" where
  "fits T \<longleftrightarrow> length T = MAX_TREE_SIZE \<and> (\<forall>i < MAX_TREE_SIZE. T ! i \<noteq> Nil0 \<longrightarrow> 2 * i + 2 < MAX_TREE_SIZE)"

lemma fits_cell: "fits T \<Longrightarrow> i < MAX_TREE_SIZE \<Longrightarrow> cell T i = Some (T ! i)"
  by (simp add: fits_def cell_def)

lemma fits_kids: "fits T \<Longrightarrow> i < MAX_TREE_SIZE \<Longrightarrow> T ! i \<noteq> Nil0 \<Longrightarrow> 2 * i + 1 < MAX_TREE_SIZE \<and> 2 * i + 2 < MAX_TREE_SIZE"
  by (auto simp: fits_def)

lemma Pre_order_func_bt:
  "fits T \<Longrightarrow> i < MAX_TREE_SIZE \<Longrightarrow> T ! i \<noteq> Nil0 \<Longrightarrow> Pre_order_func T i = Some (preorder (bt T i))"
proof (induction "MAX_TREE_SIZE - i" arbitrary: i rule: less_induct)
  case less
  note k = fits_kids [OF less.prems]
  have kid: "(if T ! c \<noteq> Nil0 then Pre_order_func T c else Some []) = Some (preorder (bt T c))" if "i < c" "c < MAX_TREE_SIZE" for c
    using less.hyps [of c] that less.prems by simp
  show ?case using less.prems k kid [of "2 * i + 1"] kid [of "2 * i + 2"]
    by (subst Pre_order_func.simps, subst bt_Node) (simp_all add: fits_cell split del: if_split)
qed

lemma In_order_func_bt:
  "fits T \<Longrightarrow> i < MAX_TREE_SIZE \<Longrightarrow> T ! i \<noteq> Nil0 \<Longrightarrow> In_order_func T i = Some (inorder (bt T i))"
proof (induction "MAX_TREE_SIZE - i" arbitrary: i rule: less_induct)
  case less
  note k = fits_kids [OF less.prems]
  have kid: "(if T ! c \<noteq> Nil0 then In_order_func T c else Some []) = Some (inorder (bt T c))" if "i < c" "c < MAX_TREE_SIZE" for c
    using less.hyps [of c] that less.prems by simp
  show ?case using less.prems k kid [of "2 * i + 1"] kid [of "2 * i + 2"]
    by (subst In_order_func.simps, subst bt_Node) (simp_all add: fits_cell split del: if_split)
qed

lemma Post_order_func_bt:
  "fits T \<Longrightarrow> i < MAX_TREE_SIZE \<Longrightarrow> T ! i \<noteq> Nil0 \<Longrightarrow> Post_order_func T i = Some (postorder (bt T i))"
proof (induction "MAX_TREE_SIZE - i" arbitrary: i rule: less_induct)
  case less
  note k = fits_kids [OF less.prems]
  have kid: "(if T ! c \<noteq> Nil0 then Post_order_func T c else Some []) = Some (postorder (bt T c))" if "i < c" "c < MAX_TREE_SIZE" for c
    using less.hyps [of c] that less.prems by simp
  show ?case using less.prems k kid [of "2 * i + 1"] kid [of "2 * i + 2"]
    by (subst Post_order_func.simps, subst bt_Node) (simp_all add: fits_cell split del: if_split)
qed

section \<open>Depth and level order\<close>

text \<open>Every node but the root has a parent.\<close>

definition orphanless :: "SqBiTree \<Rightarrow> bool" where
  "orphanless T \<longleftrightarrow> (\<forall>i < MAX_TREE_SIZE. 0 < i \<longrightarrow> T ! i \<noteq> Nil0 \<longrightarrow> T ! ((i - 1) div 2) \<noteq> Nil0)"

lemma shape_nodes: "k \<in> set_tree (shape T i) \<Longrightarrow> i \<le> k \<and> k < MAX_TREE_SIZE \<and> T ! k \<noteq> Nil0"
proof (induction "MAX_TREE_SIZE - i" arbitrary: i rule: less_induct)
  case less
  then have i: "i < MAX_TREE_SIZE" "T ! i \<noteq> Nil0" using shape_nonempty by blast+
  have kid: "k \<in> set_tree (shape T c) \<Longrightarrow> c \<le> k \<and> k < MAX_TREE_SIZE \<and> T ! k \<noteq> Nil0" if "i < c" for c
    using less.hyps [of c] i that by simp
  show ?case using less.prems i kid [of "2 * i + 1"] kid [of "2 * i + 2"]
    by (auto simp: shape_Node)
qed

lemma shape_closed:
  "(k - 1) div 2 \<in> set_tree (shape T i) \<Longrightarrow> 0 < k \<Longrightarrow> k < MAX_TREE_SIZE \<Longrightarrow> T ! k \<noteq> Nil0 \<Longrightarrow> k \<in> set_tree (shape T i)"
proof (induction "MAX_TREE_SIZE - i" arbitrary: i rule: less_induct)
  case less
  then have i: "i < MAX_TREE_SIZE" "T ! i \<noteq> Nil0" using shape_nonempty by blast+
  consider "(k - 1) div 2 = i" | "(k - 1) div 2 \<in> set_tree (shape T (2 * i + 1))" | "(k - 1) div 2 \<in> set_tree (shape T (2 * i + 2))"
    using less.prems(1) i by (auto simp: shape_Node)
  then show ?case
  proof cases
    case 1
    then have "k = 2 * i + 1 \<or> k = 2 * i + 2" using less.prems(2) by presburger
    then show ?thesis using less.prems i by (auto simp: shape_Node)
  qed (use less i in \<open>auto simp: shape_Node\<close>)
qed

lemma orphanless_nodes: "orphanless T \<Longrightarrow> set_tree (shape T 0) = {k. k < MAX_TREE_SIZE \<and> T ! k \<noteq> Nil0}"
proof (intro equalityI subsetI)
  fix k assume o: "orphanless T" and "k \<in> {k. k < MAX_TREE_SIZE \<and> T ! k \<noteq> Nil0}"
  then have "k < MAX_TREE_SIZE" "T ! k \<noteq> Nil0" by auto
  then show "k \<in> set_tree (shape T 0)"
  proof (induction k rule: less_induct)
    case (less k)
    show ?case
    proof (cases "k = 0")
      case True
      then show ?thesis using less.prems by (simp add: shape_Node)
    next
      case False
      then have "(k - 1) div 2 \<in> set_tree (shape T 0)" using o less by (auto simp: orphanless_def)
      then show ?thesis using shape_closed less.prems False by blast
    qed
  qed
qed (use shape_nodes in blast)

lemma shape_deep: "k \<in> set_tree (shape T i) \<Longrightarrow> i + 1 < 2 ^ (d + 1) \<Longrightarrow> k + 1 < 2 ^ (d + height (shape T i))"
proof (induction "MAX_TREE_SIZE - i" arbitrary: i d rule: less_induct)
  case less
  then have i: "i < MAX_TREE_SIZE" "T ! i \<noteq> Nil0" using shape_nonempty by blast+
  let ?l = "shape T (2 * i + 1)" and ?r = "shape T (2 * i + 2)"
  have h: "height (shape T i) = Suc (max (height ?l) (height ?r))" using i by (simp add: shape_Node)
  have step: "k + 1 < 2 ^ (d + 1 + n) \<Longrightarrow> n \<le> max (height ?l) (height ?r) \<Longrightarrow> k + 1 < 2 ^ (d + height (shape T i))" for n
    by (erule less_le_trans) (simp add: h power_increasing)
  consider "k = i" | "k \<in> set_tree ?l" | "k \<in> set_tree ?r" using less.prems i by (auto simp: shape_Node)
  then show ?case
  proof cases
    case 1
    then show ?thesis using step [of 0] less.prems by simp
  next
    case 2
    then show ?thesis using step [of "height ?l"] less.hyps [of "2 * i + 1" "d + 1"] less.prems i by simp
  next
    case 3
    then show ?thesis using step [of "height ?r"] less.hyps [of "2 * i + 2" "d + 1"] less.prems i by simp
  qed
qed

lemma shape_reaches: "shape T i \<noteq> Leaf \<Longrightarrow> 2 ^ d \<le> i + 1 \<Longrightarrow> \<exists>k \<in> set_tree (shape T i). 2 ^ (d + height (shape T i)) \<le> 2 * (k + 1)"
proof (induction "MAX_TREE_SIZE - i" arbitrary: i d rule: less_induct)
  case less
  then have i: "i < MAX_TREE_SIZE" "T ! i \<noteq> Nil0" by auto
  let ?l = "shape T (2 * i + 1)" and ?r = "shape T (2 * i + 2)"
  have h: "height (shape T i) = Suc (max (height ?l) (height ?r))" "set_tree (shape T i) = insert i (set_tree ?l \<union> set_tree ?r)"
    using i by (simp_all add: shape_Node)
  consider "max (height ?l) (height ?r) = 0" | "?l \<noteq> Leaf" "height ?r \<le> height ?l" | "?r \<noteq> Leaf" "height ?l \<le> height ?r"
    by (cases "height ?l \<le> height ?r"; cases "?l = Leaf"; cases "?r = Leaf") (auto simp del: shape_Leaf)
  then show ?case
  proof cases
    case 1
    then have "height (shape T i) = 1" using h(1) by (simp only:)
    then show ?thesis using less.prems(2) h(2) by (intro bexI [of _ i]) simp_all
  next
    case 2
    have "MAX_TREE_SIZE - (2 * i + 1) < MAX_TREE_SIZE - i" using i by simp
    then have "\<exists>k \<in> set_tree ?l. 2 ^ (d + 1 + height ?l) \<le> 2 * (k + 1)"
      using less.hyps [of "2 * i + 1" "d + 1"] 2 less.prems by simp
    moreover have "height (shape T i) = Suc (height ?l)" using h(1) 2 by (simp add: max_def)
    ultimately show ?thesis using h(2) by auto
  next
    case 3
    have "MAX_TREE_SIZE - (2 * i + 2) < MAX_TREE_SIZE - i" using i by simp
    then have "\<exists>k \<in> set_tree ?r. 2 ^ (d + 1 + height ?r) \<le> 2 * (k + 1)"
      using less.hyps [of "2 * i + 2" "d + 1"] 3 less.prems by simp
    moreover have "height (shape T i) = Suc (height ?r)" using h(1) 3 by (simp add: max_def)
    ultimately show ?thesis using h(2) by auto
  qed
qed

lemma used_upto_spec: "(\<forall>k. used_upto T n \<le> k \<longrightarrow> k < n \<longrightarrow> T ! k = Nil0) \<and> used_upto T n \<le> n
    \<and> (used_upto T n \<noteq> 0 \<longrightarrow> T ! (used_upto T n - 1) \<noteq> Nil0)"
  by (induction n) (auto simp: less_Suc_eq)

lemma depth_loop_least: "j \<le> h \<Longrightarrow> n < 2 ^ h \<Longrightarrow> (\<forall>k < h. j \<le> k \<longrightarrow> 2 ^ k \<le> n) \<Longrightarrow> depth_loop n j = h"
proof (induction "h - j" arbitrary: j)
  case 0
  then show ?case by (subst depth_loop.simps) simp
next
  case (Suc d)
  then show ?case by (subst depth_loop.simps) simp
qed

lemma BiTreeDepth_height:
  assumes "orphanless T"
  shows "BiTreeDepth T = height (bt T 0)"
proof (cases "T ! 0 = Nil0")
  case True
  have "set_tree (shape T 0) = {}" using True by simp
  then have "\<forall>k < MAX_TREE_SIZE. T ! k = Nil0" using orphanless_nodes [OF assms] by auto
  then have "used_upto T MAX_TREE_SIZE = 0"
    using used_upto_spec [of T MAX_TREE_SIZE] by (cases "used_upto T MAX_TREE_SIZE") auto
  then show ?thesis using True by (simp add: BiTreeDepth_def bt_def depth_loop_least [of 0 0])
next
  case False
  let ?u = "used_upto T MAX_TREE_SIZE" and ?h = "height (shape T 0)"
  have n: "shape T 0 \<noteq> Leaf" using False by (simp add: MAX_TREE_SIZE_def)
  obtain k where k: "k \<in> set_tree (shape T 0)" "2 ^ ?h \<le> 2 * (k + 1)" using shape_reaches [OF n, of 0] by auto
  have "k < ?u" using k(1) shape_nodes used_upto_spec [of T MAX_TREE_SIZE] by (metis not_le)
  then have "?u \<noteq> 0" "?u - 1 \<in> set_tree (shape T 0)"
    using used_upto_spec [of T MAX_TREE_SIZE] orphanless_nodes [OF assms] by auto
  then have lt: "?u < 2 ^ ?h" using shape_deep [of "?u - 1" T 0 0] by simp
  have "2 * (k + 1) \<le> 2 * ?u" using \<open>k < ?u\<close> by simp
  then have "2 ^ ?h \<le> 2 * ?u" using k(2) by (rule le_trans [rotated])
  have "2 ^ e \<le> ?u" if "e < ?h" for e
  proof -
    have "2 * 2 ^ e \<le> (2 :: nat) ^ ?h" using power_increasing [of "Suc e" ?h "2 :: nat"] that by simp
    then have "2 * 2 ^ e \<le> 2 * ?u" using \<open>2 ^ ?h \<le> 2 * ?u\<close> by (rule le_trans)
    then show ?thesis by simp
  qed
  then have "depth_loop ?u 0 = ?h" using lt by (intro depth_loop_least) auto
  then show ?thesis by (simp add: BiTreeDepth_def bt_def)
qed

section \<open>Descendants\<close>

declare One_nat_def [simp del] add_2_eq_Suc [simp del] add_2_eq_Suc' [simp del]

function desc :: "nat \<Rightarrow> nat \<Rightarrow> bool" where
  "desc i k \<longleftrightarrow> k = i \<or> (if i < k then desc i ((k - 1) div 2) else False)"
  by pat_completeness auto
termination by (relation "measure snd") auto

declare desc.simps [simp del]

lemma desc_iff: "desc i k \<longleftrightarrow> k = i \<or> i < k \<and> desc i ((k - 1) div 2)"
  by (subst desc.simps) simp

lemma desc_refl [simp]: "desc i i"
  by (rule iffD2 [OF desc_iff]) blast

lemma desc_ge: "desc i k \<Longrightarrow> i \<le> k"
  by (subst (asm) desc_iff) auto

lemma half_less: "0 < (k :: nat) \<Longrightarrow> (k - 1) div 2 < k"
  by (rule le_less_trans [OF div_le_dividend]) simp

lemma desc_step:
  assumes "desc i ((k - 1) div 2)" "i \<le> (k - 1) div 2" "0 < k"
  shows "desc i k"
  using iffD2 [OF desc_iff] le_less_trans [OF assms(2) half_less [OF assms(3)]] assms(1) by blast

lemma desc_kid: "desc c k \<Longrightarrow> c = 2 * i + 1 \<or> c = 2 * i + 2 \<Longrightarrow> desc i k \<and> i < k"
proof (induction k rule: less_induct)
  case (less k)
  show ?case
  proof (cases "k = c")
    case True
    then have "(k - 1) div 2 = i" "0 < k" using less.prems(2) by auto
    then show ?thesis using desc_step [of i k] less.prems(2) True by auto
  next
    case False
    then have k: "c < k" "desc c ((k - 1) div 2)" using less.prems(1) desc_iff by blast+
    then have "(k - 1) div 2 < k" by simp
    then have "desc i ((k - 1) div 2)" "i < (k - 1) div 2" using less.IH k less.prems(2) by blast+
    then show ?thesis using desc_step [of i k] k less.prems(2) by auto
  qed
qed

lemma desc_kids_disjoint: "desc (2 * i + 1) k \<Longrightarrow> desc (2 * i + 2) k \<Longrightarrow> False"
proof (induction k rule: less_induct)
  case (less k)
  then have k: "2 * i + 2 \<le> k" "desc (2 * i + 1) ((k - 1) div 2)"
    using desc_ge [OF less.prems(2)] by (auto simp: desc_iff [of "2 * i + 1" k])
  show ?case
  proof (cases "k = 2 * i + 2")
    case True
    then have "(k - 1) div 2 = i" by simp
    then show ?thesis using k(2) desc_ge by fastforce
  next
    case False
    then have "desc (2 * i + 2) ((k - 1) div 2)" using less.prems(2) by (auto simp: desc_iff [of "2 * i + 2" k])
    moreover have "(k - 1) div 2 < k" using k(1) by linarith
    ultimately show ?thesis using less.IH k(2) by blast
  qed
qed

lemma shape_desc: "k \<in> set_tree (shape T i) \<Longrightarrow> desc i k"
proof (induction "MAX_TREE_SIZE - i" arbitrary: i rule: less_induct)
  case less
  then have i: "i < MAX_TREE_SIZE" "T ! i \<noteq> Nil0" using shape_nonempty by blast+
  have kid: "k \<in> set_tree (shape T c) \<Longrightarrow> desc c k" if "i < c" for c
    using less.hyps [of c] i that by simp
  consider "k = i" | c where "c = 2 * i + 1 \<or> c = 2 * i + 2" "k \<in> set_tree (shape T c)"
    using less.prems i by (auto simp: shape_Node)
  then show ?case
  proof cases
    case 2
    then show ?thesis using kid [of c] desc_kid [of c k i] by auto
  qed simp
qed

lemma shape_cong:
  "\<forall>k < MAX_TREE_SIZE. desc i k \<longrightarrow> T ! k = T' ! k \<Longrightarrow> shape T i = shape T' i"
proof (induction "MAX_TREE_SIZE - i" arbitrary: i rule: less_induct)
  case less
  have kid: "shape T c = shape T' c" if "i < MAX_TREE_SIZE" "c = 2 * i + 1 \<or> c = 2 * i + 2" for c
  proof (rule less.hyps)
    show "MAX_TREE_SIZE - c < MAX_TREE_SIZE - i" using that by auto
    show "\<forall>k < MAX_TREE_SIZE. desc c k \<longrightarrow> T ! k = T' ! k" using less.prems desc_kid that(2) by blast
  qed
  show ?case
  proof (cases "i < MAX_TREE_SIZE \<and> T ! i \<noteq> Nil0")
    case True
    then have "T' ! i \<noteq> Nil0" using less.prems by auto
    then show ?thesis using True kid by (simp add: shape_Node)
  next
    case False
    then have "\<not> (i < MAX_TREE_SIZE \<and> T' ! i \<noteq> Nil0)" using less.prems by auto
    then show ?thesis using False by (metis shape_Leaf)
  qed
qed

lemma bt_cong:
  assumes "\<forall>k < MAX_TREE_SIZE. desc i k \<longrightarrow> T ! k = T' ! k"
  shows "bt T i = bt T' i"
proof -
  have "map_tree (nth T) (shape T i) = map_tree (nth T') (shape T i)"
    using assms shape_desc shape_nodes by (intro tree.map_cong0) auto
  then show ?thesis using shape_cong [OF assms] by (simp add: bt_def)
qed

lemma orphanless_desc: "orphanless T \<Longrightarrow> desc j k \<Longrightarrow> k < MAX_TREE_SIZE \<Longrightarrow> T ! k \<noteq> Nil0 \<Longrightarrow> T ! j \<noteq> Nil0"
proof (induction k rule: less_induct)
  case (less k)
  show ?case
  proof (cases "k = j")
    case False
    then have "j < k" "desc j ((k - 1) div 2)" using less.prems(2) by (auto simp: desc_iff [of j k])
    moreover have "T ! ((k - 1) div 2) \<noteq> Nil0" using less.prems calculation by (auto simp: orphanless_def)
    ultimately show ?thesis using less.IH [of "(k - 1) div 2"] less.prems by auto
  qed (use less in simp)
qed

section \<open>Deleting a subtree\<close>

definition blank :: "SqBiTree \<Rightarrow> nat set \<Rightarrow> SqBiTree" where
  "blank T S = map (\<lambda>k. if k \<in> S then Nil0 else T ! k) [0..<MAX_TREE_SIZE]"

lemma nth_blank [simp]: "k < MAX_TREE_SIZE \<Longrightarrow> blank T S ! k = (if k \<in> S then Nil0 else T ! k)"
  by (simp add: blank_def)

lemma length_blank [simp]: "length (blank T S) = MAX_TREE_SIZE"
  by (simp add: blank_def)

lemma fits_blank [simp]: "fits T \<Longrightarrow> fits (blank T S)"
  by (auto simp: fits_def)

lemma blank_blank [simp]: "blank (blank T S) S' = blank T (S' \<union> S)"
  by (auto simp: blank_def)

lemma blank_update: "length T = MAX_TREE_SIZE \<Longrightarrow> T[i := Nil0] = blank T {i}"
  by (rule nth_equalityI) (auto simp: nth_list_update)

lemma blank_empty: "length T = MAX_TREE_SIZE \<Longrightarrow> blank T {} = T"
  by (rule nth_equalityI) auto

lemma shape_blank: "\<forall>k \<in> S. \<not> desc i k \<Longrightarrow> shape (blank T S) i = shape T i"
  by (rule shape_cong) auto

lemma Pre_order_delete_blank:
  "fits T \<Longrightarrow> 2 * i + 2 < MAX_TREE_SIZE \<Longrightarrow>
   Pre_order_delete T i = Some (blank T (insert i (set_tree (shape T (2 * i + 1)) \<union> set_tree (shape T (2 * i + 2)))))"
proof (induction "MAX_TREE_SIZE - i" arbitrary: i T rule: less_induct)
  case less
  have kid: "(if T' ! c \<noteq> Nil0 then Pre_order_delete T' c else Some T') = Some (blank T' (set_tree (shape T' c)))"
    if "fits T'" "i < c" "c < MAX_TREE_SIZE" for T' c
  proof (cases "T' ! c = Nil0")
    case True
    then show ?thesis using True that by (simp add: blank_empty fits_def)
  next
    case False
    have "MAX_TREE_SIZE - c < MAX_TREE_SIZE - i" using that by simp
    then show ?thesis using False that less.hyps [of c T'] fits_kids [of T' c] by (simp add: shape_Node)
  qed
  let ?a = "2 * i + 1" and ?b = "2 * i + 2"
  let ?T1 = "blank T {i}" and ?A = "set_tree (shape T ?a)" and ?B = "set_tree (shape T ?b)"
  have T: "T[i := Nil0] = ?T1" "fits ?T1" using less.prems by (auto simp: blank_update fits_def)
  have i: "\<not> desc ?a i" "\<not> desc ?b i" using desc_ge by fastforce+
  have A: "shape ?T1 ?a = shape T ?a" using i by (intro shape_blank) auto
  have "\<not> desc ?b k" if "k \<in> insert i ?A" for k
    using that i shape_desc desc_kids_disjoint by blast
  then have B: "shape (blank T (insert i ?A)) ?b = shape T ?b" by (intro shape_blank) auto
  have c: "cell T i = Some (T ! i)" "cell ?T1 ?a = Some (?T1 ! ?a)"
      "cell (blank T (insert i ?A)) ?b = Some (blank T (insert i ?A) ! ?b)"
    using less.prems fits_cell [of T i] fits_cell [OF T(2), of ?a] fits_cell [of "blank T (insert i ?A)" ?b] by simp_all
  have 1: "(if ?T1 ! ?a \<noteq> Nil0 then Pre_order_delete ?T1 ?a else Some ?T1) = Some (blank T (insert i ?A))"
    using kid [OF T(2), of ?a] less.prems A by simp
  have 2: "(if blank T (insert i ?A) ! ?b \<noteq> Nil0 then Pre_order_delete (blank T (insert i ?A)) ?b else Some (blank T (insert i ?A)))
      = Some (blank T (insert i (?A \<union> ?B)))"
    using kid [of "blank T (insert i ?A)" ?b] less.prems B by (simp add: Un_commute [of ?B ?A])
  show ?case
    unfolding Pre_order_delete.simps [of T i] T(1) Let_def c(1,2) Option.bind.simps 1 c(3) 2 ..
qed

lemma orphanless_blank:
  assumes "orphanless T"
  shows "orphanless (blank T (set_tree (shape T c)))"
  unfolding orphanless_def
proof (intro allI impI)
  fix k assume k: "k < MAX_TREE_SIZE" "0 < k" "blank T (set_tree (shape T c)) ! k \<noteq> Nil0"
  then have n: "k \<notin> set_tree (shape T c)" "T ! k \<noteq> Nil0" by (auto split: if_splits)
  then have "(k - 1) div 2 \<notin> set_tree (shape T c)" using shape_closed k(1,2) by blast
  moreover have "T ! ((k - 1) div 2) \<noteq> Nil0" using assms k n by (auto simp: orphanless_def)
  moreover have "(k - 1) div 2 < MAX_TREE_SIZE" using half_less [OF k(2)] k(1) by simp
  ultimately show "blank T (set_tree (shape T c)) ! ((k - 1) div 2) \<noteq> Nil0" by simp
qed

section \<open>Moving a subtree between two arrays\<close>

text \<open>There is room for a tree of this shape at index \<open>j\<close>.\<close>

fun room :: "'a tree \<Rightarrow> nat \<Rightarrow> bool" where
  "room Leaf j \<longleftrightarrow> True"
| "room (Node l x r) j \<longleftrightarrow> j < MAX_TREE_SIZE \<and> room l (2 * j + 1) \<and> room r (2 * j + 2)"

definition moved :: "(nat \<Rightarrow> SqBiTree) \<Rightarrow> nat \<Rightarrow> nat \<Rightarrow> nat \<Rightarrow> nat \<Rightarrow> (nat \<Rightarrow> SqBiTree) \<Rightarrow> bool" where
  "moved m a i b j m' \<longleftrightarrow> m' a = blank (m a) (set_tree (shape (m a) i)) \<and> length (m' b) = MAX_TREE_SIZE
     \<and> (\<forall>k < MAX_TREE_SIZE. \<not> desc j k \<longrightarrow> m' b ! k = m b ! k) \<and> bt (m' b) j = bt (m a) i"

lemma bt_blank: "\<forall>k \<in> S. \<not> desc i k \<Longrightarrow> bt (blank T S) i = bt T i"
  by (rule bt_cong) auto

lemma desc_not_up: "c = 2 * i + 1 \<or> c = 2 * i + 2 \<Longrightarrow> \<not> desc c i"
  using desc_ge [of c i] by auto

lemma Move_moves:
  "a \<noteq> b \<Longrightarrow> fits (m a) \<Longrightarrow> i < MAX_TREE_SIZE \<Longrightarrow> m a ! i \<noteq> Nil0 \<Longrightarrow> length (m b) = MAX_TREE_SIZE \<Longrightarrow>
   room (shape (m a) i) j \<Longrightarrow> (\<forall>k < MAX_TREE_SIZE. desc j k \<longrightarrow> m b ! k = Nil0) \<Longrightarrow>
   \<exists>m'. Move m a i b j = Some m' \<and> moved m a i b j m'"
proof (induction "MAX_TREE_SIZE - i" arbitrary: i j m rule: less_induct)
  case less
  let ?il = "2 * i + 1" and ?ir = "2 * i + 2" and ?jl = "2 * j + 1" and ?jr = "2 * j + 2"
  have kid: "\<exists>m'. (if n a ! c \<noteq> Nil0 then Move n a c b d else Some n) = Some m' \<and> moved n a c b d m'"
    if "fits (n a)" "i < c" "c < MAX_TREE_SIZE" "length (n b) = MAX_TREE_SIZE" "room (shape (n a) c) d"
      "\<forall>k < MAX_TREE_SIZE. desc d k \<longrightarrow> n b ! k = Nil0" for n c d
  proof (cases "n a ! c = Nil0")
    case True
    have "bt (n b) d = Leaf" using that(6) by simp
    then show ?thesis using True that by (simp add: moved_def blank_empty fits_def)
  next
    case False
    have "MAX_TREE_SIZE - c < MAX_TREE_SIZE - i" using that by simp
    then show ?thesis using less.hyps [of c n d] less.prems(1) that False by simp
  qed
  note prems = less.prems
  have k: "?il < MAX_TREE_SIZE" "?ir < MAX_TREE_SIZE" using fits_kids [OF prems(2-4)] by auto
  have sh: "shape (m a) i = Node (shape (m a) ?il) i (shape (m a) ?ir)" using prems by (simp add: shape_Node)
  then have rm: "j < MAX_TREE_SIZE" "room (shape (m a) ?il) ?jl" "room (shape (m a) ?ir) ?jr" using prems(6) by auto
  obtain m1 where m1: "(if m a ! ?il \<noteq> Nil0 then Move m a ?il b ?jl else Some m) = Some m1" "moved m a ?il b ?jl m1"
    using kid [of m ?il ?jl] k prems rm desc_kid [of ?jl _ j] by auto
  let ?A = "set_tree (shape (m a) ?il)" and ?B = "set_tree (shape (m a) ?ir)"
  have a1: "m1 a = blank (m a) ?A" "length (m1 b) = MAX_TREE_SIZE" "bt (m1 b) ?jl = bt (m a) ?il"
      "\<And>k. k < MAX_TREE_SIZE \<Longrightarrow> \<not> desc ?jl k \<Longrightarrow> m1 b ! k = m b ! k"
    using m1(2) by (auto simp: moved_def)
  have A: "\<forall>k \<in> ?A. \<not> desc ?ir k" using shape_desc desc_kids_disjoint by blast
  have s1: "shape (m1 a) ?ir = shape (m a) ?ir" "bt (m1 a) ?ir = bt (m a) ?ir"
    using A unfolding a1(1) by (auto intro: shape_blank bt_blank)
  have e1: "\<forall>k < MAX_TREE_SIZE. desc ?jr k \<longrightarrow> m1 b ! k = Nil0"
    using a1(4) prems(7) desc_kids_disjoint desc_kid [of ?jr _ j] by metis
  obtain m2 where m2: "(if m1 a ! ?ir \<noteq> Nil0 then Move m1 a ?ir b ?jr else Some m1) = Some m2" "moved m1 a ?ir b ?jr m2"
    using kid [of m1 ?ir ?jr] k prems(2) rm a1 s1 e1 by auto
  have a2: "m2 a = blank (m a) (?B \<union> ?A)" "length (m2 b) = MAX_TREE_SIZE" "bt (m2 b) ?jr = bt (m a) ?ir"
      "\<And>k. k < MAX_TREE_SIZE \<Longrightarrow> \<not> desc ?jr k \<Longrightarrow> m2 b ! k = m1 b ! k"
    using m2(2) s1 a1(1) by (auto simp: moved_def)
  have l2: "bt (m2 b) ?jl = bt (m a) ?il"
    using a1(3) a2(4) desc_kids_disjoint [of j] bt_cong [of ?jl "m2 b" "m1 b"] by metis
  have "i \<notin> ?B \<union> ?A" using shape_desc desc_not_up [of _ i] by blast
  then have v: "m2 a ! i = m a ! i" using a2(1) prems(3) by simp
  let ?b = "(m2 b)[j := m a ! i]"
  let ?m = "m2(b := ?b, a := (m2 a)[i := Nil0])"
  have c: "cell (m a) ?il = Some (m a ! ?il)" "cell (m1 a) ?ir = Some (m1 a ! ?ir)" "cell (m2 a) i = Some (m a ! i)"
      "cell (m2 b) j = Some (m2 b ! j)"
    using prems(2,3) k rm(1) v a1(1) a2(1,2) by (simp_all add: cell_def fits_def)
  have M: "Move m a i b j = Some ?m"
    unfolding Move.simps [of m a i] c(1) Option.bind.simps m1(1) c(2) m2(1) c(3,4) Let_def using prems(1) by simp
  have keep: "bt ?b d = bt (m2 b) d" if "d = ?jl \<or> d = ?jr" for d
  proof (rule bt_cong, intro allI impI)
    fix k assume "desc d k"
    then show "?b ! k = m2 b ! k" using desc_not_up [of d j] that by (metis nth_list_update_neq)
  qed
  have "bt ?b j = Node (bt ?b ?jl) (m a ! i) (bt ?b ?jr)"
    using bt_Node [of j ?b] rm(1) a2(2) prems(4) by simp
  also have "\<dots> = bt (m a) i" using keep l2 a2(3) bt_Node [of i "m a"] prems(3,4) by simp
  finally have "bt ?b j = bt (m a) i" .
  moreover have "(m2 a)[i := Nil0] = blank (m a) (set_tree (shape (m a) i))"
    unfolding sh a2(1) by (subst blank_update) (simp_all add: Un_commute [of ?B ?A])
  moreover have "?b ! k = m b ! k" if "k < MAX_TREE_SIZE" "\<not> desc j k" for k
    using that a2(4) [of k] a1(4) [of k] desc_kid [of _ k j] desc_refl [of j] by (metis nth_list_update_neq)
  ultimately have "moved m a i b j ?m" using prems(1) a2(2) by (simp add: moved_def)
  then show ?case using M by blast
qed

section \<open>Reading the input\<close>

lemma create_loop_ok: "fst (create_loop i input T) = 1"
proof (induction i input T rule: create_loop.induct)
  case (1 i input T)
  then show ?case by (subst create_loop.simps) (auto simp: Let_def)
qed

lemma create_loop_reads:
  "999 \<notin> set vs \<Longrightarrow> length pre + length vs < MAX_TREE_SIZE \<Longrightarrow> length pre + length tail = MAX_TREE_SIZE \<Longrightarrow>
   create_loop (length pre) (map Some vs @ Some 999 # rest) (pre @ tail)
     = (1, pre @ vs @ replicate (MAX_TREE_SIZE - length pre - length vs) Nil0)"
proof (induction vs arbitrary: pre tail)
  case Nil
  then obtain x tail' where "tail = x # tail'" by (cases tail) auto
  then show ?case using Nil by (subst create_loop.simps) (simp add: Let_def nth_append list_update_append)
next
  case (Cons v vs)
  then obtain x tail' where t: "tail = x # tail'" by (cases tail) auto
  have "create_loop (length pre) (map Some (v # vs) @ Some 999 # rest) (pre @ tail)
      = create_loop (Suc (length pre)) (map Some vs @ Some 999 # rest) (pre @ v # tail')"
    using Cons.prems t by (subst create_loop.simps) (simp add: Let_def nth_append list_update_append One_nat_def)
  then show ?case using Cons.IH [of "pre @ [v]" tail'] Cons.prems t by simp
qed

section \<open>Looking around a node\<close>

lemma find_first:
  assumes "a \<le> k" "k < b" "P k" "\<And>i. a \<le> i \<Longrightarrow> i < k \<Longrightarrow> \<not> P i"
  shows "find P [a..<b] = Some k"
  unfolding find_Some_iff
proof (rule exI [of _ "k - a"], intro conjI)
  show "k - a < length [a..<b]" using assms(1,2) by simp
  have "[a..<b] ! (k - a) = k" using assms(1,2) by simp
  then show "P ([a..<b] ! (k - a))" "k = [a..<b] ! (k - a)" using assms(3) by simp_all
  have "\<not> P ([a..<b] ! j)" if "j < k - a" for j
    using that assms(2) assms(4) [of "a + j"] by simp
  then show "\<forall>j < k - a. \<not> P ([a..<b] ! j)" by blast
qed

lemma find_nothing: "\<forall>i < b. a \<le> i \<longrightarrow> \<not> P i \<Longrightarrow> find P [a..<b] = None"
  by (auto simp: find_None_iff)

section \<open>Properties\<close>

text \<open>
  The array as a tree: when no node lies in the last half of the array, the three recursive
  traversals are defined and visit the values of the tree in preorder, inorder and postorder; when moreover
  every node but the root has a parent, \<open>BiTreeDepth\<close>, which only looks for the last used index, is the
  height of the tree, and the level order visits exactly the values of the tree.
\<close>
theorem array_tree_traversals:
  assumes "fits T"
  shows "Pre_order T = Some (preorder (bt T 0)) \<and> In_order T = Some (inorder (bt T 0)) \<and> Post_order T = Some (postorder (bt T 0))
    \<and> (orphanless T \<longrightarrow> BiTreeDepth T = height (bt T 0) \<and> set (Level_order T) = set_tree (bt T 0))"
proof -
  have e: "BiTreeEmpty T = 0 \<longleftrightarrow> T ! 0 \<noteq> Nil0" "0 < MAX_TREE_SIZE" by (simp_all add: BiTreeEmpty_def MAX_TREE_SIZE_def)
  have "Pre_order T = Some (preorder (bt T 0))" "In_order T = Some (inorder (bt T 0))" "Post_order T = Some (postorder (bt T 0))"
    using assms e by (simp_all add: Pre_order_def In_order_def Post_order_def Pre_order_func_bt In_order_func_bt Post_order_func_bt)
  moreover have "BiTreeDepth T = height (bt T 0) \<and> set (Level_order T) = set_tree (bt T 0)" if o: "orphanless T"
  proof -
    have "set (Level_order T) = nth T ` {k. k < MAX_TREE_SIZE \<and> T ! k \<noteq> Nil0}"
  proof -
    let ?u = "used_upto T MAX_TREE_SIZE"
    have "{k. k < MAX_TREE_SIZE \<and> T ! k \<noteq> Nil0} = {k. k < ?u \<and> T ! k \<noteq> Nil0}"
      using used_upto_spec [of T MAX_TREE_SIZE] by (meson le_less_trans less_le_trans not_le)
    then show ?thesis by (auto simp: Level_order_def)
  qed
    then show ?thesis using BiTreeDepth_height [OF o] orphanless_nodes [OF o] by (simp add: bt_def tree.set_map)
  qed
  ultimately show ?thesis by blast
qed

definition sample_tree :: SqBiTree where
  "sample_tree = [1, 2, 3, 4, 5, 0, 6, 7] @ replicate 92 0"

lemma fits_sample: "fits sample_tree" "orphanless sample_tree"
  by code_simp+

lemma array_tree_traversals_witness:
  "Pre_order sample_tree = Some [1, 2, 4, 7, 5, 3, 6] \<and> BiTreeDepth sample_tree = 4"
proof -
  have "preorder (bt sample_tree 0) = [1, 2, 4, 7, 5, 3, 6]" "height (bt sample_tree 0) = 4" by code_simp+
  then show ?thesis using array_tree_traversals [OF fits_sample(1)] fits_sample(2) by simp
qed

text \<open>
  In a tree whose values are distinct, \<open>Parent\<close>, \<open>LeftChild\<close>, \<open>RightChild\<close>, \<open>LeftSibling\<close> and
  \<open>RightSibling\<close> of the value at index \<open>k\<close> are the values at the indices beside it; the left sibling of a
  left child and the right sibling of a right child are empty.
\<close>
theorem array_tree_neighbours:
  assumes "fits T" and "T ! 0 \<noteq> Nil0" and "k < MAX_TREE_SIZE" and "T ! k \<noteq> Nil0"
    and "\<forall>i < MAX_TREE_SIZE. T ! i = T ! k \<longrightarrow> i = k"
  shows "Parent T (T ! k) = (if k = 0 then Nil0 else T ! ((k - 1) div 2))"
    and "LeftChild T (T ! k) = Some (T ! (2 * k + 1))" and "RightChild T (T ! k) = Some (T ! (2 * k + 2))"
    and "LeftSibling T (T ! k) = (if k = 0 \<or> odd k then Nil0 else T ! (k - 1))"
    and "RightSibling T (T ! k) = Some (if even k then Nil0 else T ! (k + 1))"
proof -
  note c = fits_kids [OF assms(1,3,4)] fits_cell [OF assms(1)]
  have nk: "\<And>i. i < k \<Longrightarrow> T ! i \<noteq> T ! k" using assms(3,5) by (metis less_trans less_irrefl)
  have f: "find (\<lambda>i. T ! i = T ! k) [0..<MAX_TREE_SIZE] = Some k" using assms(3) nk by (intro find_first) auto
  have g: "find (\<lambda>i. T ! i = T ! k) [1..<MAX_TREE_SIZE] = (if k = 0 then None else Some k)"
    using assms(3,5) nk by (auto intro!: find_first find_nothing)
  have h: "find (\<lambda>i. T ! i = T ! k \<and> i mod 2 = 0) [1..<MAX_TREE_SIZE] = (if k = 0 \<or> odd k then None else Some k)"
    using assms(3,5) nk by (auto intro!: find_first find_nothing)
  have r: "find (\<lambda>i. T ! i = T ! k \<and> i mod 2 \<noteq> 0) [1..<MAX_TREE_SIZE] = (if even k then None else Some k)"
    using assms(3,5) nk by (auto intro!: find_first find_nothing elim: oddE)
  have "k + 1 < MAX_TREE_SIZE" using c(1) by linarith
  then have n: "cell T (k + 1) = Some (T ! (k + 1))" by (rule c(2))
  show "Parent T (T ! k) = (if k = 0 then Nil0 else T ! ((k - 1) div 2))" using g assms(2) by (simp add: Parent_def)
  show "LeftChild T (T ! k) = Some (T ! (2 * k + 1))" "RightChild T (T ! k) = Some (T ! (2 * k + 2))"
    using f assms(2) c by (simp_all add: LeftChild_def RightChild_def)
  show "LeftSibling T (T ! k) = (if k = 0 \<or> odd k then Nil0 else T ! (k - 1))" using h assms(2) by (simp add: LeftSibling_def)
  show "RightSibling T (T ! k) = Some (if even k then Nil0 else T ! (k + 1))" using r assms(2) n by (simp add: RightSibling_def)
qed

lemma array_tree_neighbours_witness:
  "Parent sample_tree (sample_tree ! 4) = 2 \<and> LeftSibling sample_tree (sample_tree ! 4) = 4"
proof -
  have u: "\<forall>i < MAX_TREE_SIZE. sample_tree ! i = sample_tree ! 4 \<longrightarrow> i = 4" by code_simp
  have v: "sample_tree ! 0 \<noteq> Nil0" "4 < MAX_TREE_SIZE" "sample_tree ! 4 \<noteq> Nil0" by code_simp+
  show ?thesis using array_tree_neighbours(1,4) [OF fits_sample(1) v u] by (simp add: sample_tree_def)
qed

lemma Delete_child1_blank:
  assumes "fits T" "orphanless T" "pos_index e = int i" "i < MAX_TREE_SIZE" "T ! i \<noteq> Nil0" "2 * c + 2 < MAX_TREE_SIZE"
    "c = 2 * i + 1 + lr"
  shows "Delete_child1 T e (int lr) = Some (1, blank T (set_tree (shape T c)))"
proof -
  have T: "length T = MAX_TREE_SIZE" using assms(1) by (simp add: fits_def)
  let ?S = "set_tree (shape T (2 * c + 1)) \<union> set_tree (shape T (2 * c + 2))"
  have "blank T (insert c ?S) = blank T (set_tree (shape T c))"
  proof (cases "T ! c = Nil0")
    case True
    have "T ! k = Nil0" if "k < MAX_TREE_SIZE" "desc c k" for k
      using orphanless_desc [OF assms(2) that(2,1)] True by blast
    moreover have "desc c k" if "k \<in> insert c ?S" for k
      using that shape_desc desc_kid desc_refl by blast
    ultimately show ?thesis using True T by (intro nth_equalityI) auto
  next
    case False
    then show ?thesis using assms(6) by (simp add: shape_Node)
  qed
  moreover have "nat (2 * int i + 1 + int lr) = c" using assms(7) by simp
  ultimately show ?thesis
    using Pre_order_delete_blank [OF assms(1,6)] assms(3-5) fits_cell [OF assms(1,4)]
    by (simp add: Delete_child1_def icell_def Let_def)
qed

lemma place_loop_finds:
  "fits T \<Longrightarrow> i < MAX_TREE_SIZE \<Longrightarrow> T ! i = p \<Longrightarrow> p \<notin> set (take i T) \<Longrightarrow> i < n \<Longrightarrow> k \<le> i \<Longrightarrow> place_loop T p n k = Some i"
proof (induction "i - k" arbitrary: k)
  case 0
  then show ?case using fits_cell [of T i] by (subst place_loop.simps) auto
next
  case (Suc d)
  then have k: "k < i" by simp
  then have "T ! k \<noteq> p" using Suc.prems by (auto simp: in_set_conv_nth fits_def)
  moreover have "cell T k = Some (T ! k)" using fits_cell Suc.prems(1,2) k by simp
  moreover have "place_loop T p n (k + 1) = Some i" using Suc k by simp
  ultimately show ?case using Suc.prems k by (subst place_loop.simps) simp
qed

lemma Insert_child_moves:
  assumes "fits T" "orphanless T" "i < MAX_TREE_SIZE" "T ! i = p" "p \<noteq> Nil0" "p \<notin> set (take i T)"
    "T ! c = Nil0" "c = 2 * i + 1 + lr" "c < MAX_TREE_SIZE" "fits t2" "t2 ! 0 \<noteq> Nil0" "room (shape t2 0) c"
  shows "\<exists>m'. Insert_child T p (int lr) t2 = Some (1, m' 0, m' 1) \<and> moved ((\<lambda>_. t2)(0 := T)) 1 0 0 c m'"
proof -
  have len: "length T = MAX_TREE_SIZE" "length t2 = MAX_TREE_SIZE" using assms(1,10) by (simp_all add: fits_def)
  have "i \<in> set_tree (shape T 0)" using orphanless_nodes [OF assms(2)] assms(3-5) by auto
  then have d: "i < 2 ^ BiTreeDepth T - 1"
    using shape_deep [of i T 0 0] BiTreeDepth_height [OF assms(2)] by (simp add: bt_def)
  let ?m = "(\<lambda>_. t2)(0 :: nat := T)"
  have empty: "\<forall>k < MAX_TREE_SIZE. desc c k \<longrightarrow> T ! k = Nil0" using orphanless_desc [OF assms(2)] assms(7) by blast
  have q: "?m 1 = t2" "?m 0 = T" "(1 :: nat) \<noteq> 0" by auto
  have m: "(1 :: nat) \<noteq> 0" "fits (?m 1)" "0 < MAX_TREE_SIZE" "?m 1 ! 0 \<noteq> Nil0" "length (?m 0) = MAX_TREE_SIZE"
      "room (shape (?m 1) 0) c" "\<forall>k < MAX_TREE_SIZE. desc c k \<longrightarrow> ?m 0 ! k = Nil0"
    unfolding q(1,2) using assms len empty q(3) by (simp_all add: MAX_TREE_SIZE_def)
  obtain m' where m': "Move ?m 1 0 0 c = Some m'" "moved ?m 1 0 0 c m'"
    using Move_moves [where m = ?m and a = 1 and b = 0 and i = 0 and j = c, OF m] by blast
  have e: "2 * int i + 1 + int lr = int c" using assms(8) by simp
  have n: "nat (2 * int i + 1 + int lr) = c" "icell T (2 * int i + 1 + int lr) = Some Nil0"
    unfolding e using assms(7,9) fits_cell [OF assms(1), of c] by (simp_all add: icell_def)
  have "Insert_child T p (int lr) t2 = Some (1, m' 0, m' 1)"
    using place_loop_finds [OF assms(1,3,4,6) d, of 0] m'(1) n by (simp add: Insert_child_def Let_def)
  then show ?thesis using m'(2) by blast
qed

text \<open>
  C34. Deleting and inserting subtrees.  \<open>Delete_child1\<close> empties exactly the nodes of the left or right
  subtree of a node and keeps the other places, the parents of nodes and the distance from the end of the
  array; it is defined whether the child is there or not, as long as the place is in the first half.
  \<open>Insert_child\<close> under the first node with value \<open>p\<close>, when the place is empty and there is room, puts the
  tree \<open>t2\<close> there with its shape, keeps the places not below it and empties \<open>t2\<close>.
\<close>
theorem array_tree_subtrees:
  assumes "fits T" and "orphanless T" and "lr = 0 \<or> lr = 1" and "i < MAX_TREE_SIZE" and "T ! i \<noteq> Nil0" and "c = 2 * i + 1 + lr"
  shows "(pos_index e = int i \<longrightarrow> 2 * c + 2 < MAX_TREE_SIZE \<longrightarrow>
      (\<exists>T'. Delete_child1 T e (int lr) = Some (1, T') \<and> fits T' \<and> orphanless T' \<and>
        (\<forall>k < MAX_TREE_SIZE. T' ! k = (if k \<in> set_tree (shape T c) then Nil0 else T ! k))))
    \<and> (T ! i \<notin> set (take i T) \<longrightarrow> T ! c = Nil0 \<longrightarrow> fits t2 \<longrightarrow> t2 ! 0 \<noteq> Nil0 \<longrightarrow> room (shape t2 0) c \<longrightarrow>
      (\<exists>T'. Insert_child T (T ! i) (int lr) t2 = Some (1, T', blank t2 (set_tree (shape t2 0))) \<and>
        bt T' c = bt t2 0 \<and> (\<forall>k < MAX_TREE_SIZE. \<not> desc c k \<longrightarrow> T' ! k = T ! k)))"
proof (intro conjI impI)
  assume "pos_index e = int i" "2 * c + 2 < MAX_TREE_SIZE"
  then show "\<exists>T'. Delete_child1 T e (int lr) = Some (1, T') \<and> fits T' \<and> orphanless T' \<and>
      (\<forall>k < MAX_TREE_SIZE. T' ! k = (if k \<in> set_tree (shape T c) then Nil0 else T ! k))"
    using Delete_child1_blank [OF assms(1,2)] orphanless_blank [OF assms(2)] assms by auto
next
  assume i: "T ! i \<notin> set (take i T)" "T ! c = Nil0" and t2: "fits t2" "t2 ! 0 \<noteq> Nil0" "room (shape t2 0) c"
  have c: "c < MAX_TREE_SIZE" using fits_kids [OF assms(1,4,5)] assms(3,6) by auto
  obtain m' where m': "Insert_child T (T ! i) (int lr) t2 = Some (1, m' 0, m' 1)" "moved ((\<lambda>_. t2)(0 := T)) 1 0 0 c m'"
    using Insert_child_moves [OF assms(1,2,4) refl assms(5) i assms(6) c t2] by blast
  then show "\<exists>T'. Insert_child T (T ! i) (int lr) t2 = Some (1, T', blank t2 (set_tree (shape t2 0))) \<and>
      bt T' c = bt t2 0 \<and> (\<forall>k < MAX_TREE_SIZE. \<not> desc c k \<longrightarrow> T' ! k = T ! k)"
    by (simp add: moved_def One_nat_def)
qed

definition graft_tree :: SqBiTree where
  "graft_tree = [10, 11, 0, 13, 14] @ replicate 95 0"

lemma array_tree_subtrees_witness:
  "(\<exists>T'. Delete_child1 sample_tree \<lparr>level = 1, order = 1\<rparr> 1 = Some (1, T') \<and> fits T')
   \<and> (\<exists>T'. Insert_child sample_tree 3 0 graft_tree = Some (1, T', blank graft_tree (set_tree (shape graft_tree 0)))
        \<and> bt T' 5 = bt graft_tree 0)"
proof -
  have g: "fits graft_tree" "graft_tree ! 0 \<noteq> Nil0" "room (shape graft_tree 0) 5" by code_simp+
  have p: "pos_index \<lparr>level = 1, order = 1\<rparr> = int 0" "2 * 2 + 2 < MAX_TREE_SIZE" by code_simp+
  have s: "0 < MAX_TREE_SIZE" "sample_tree ! 0 \<noteq> Nil0" "2 = 2 * 0 + 1 + (1 :: nat)" by code_simp+
  have t: "2 < MAX_TREE_SIZE" "sample_tree ! 2 \<noteq> Nil0" "5 = 2 * 2 + 1 + (0 :: nat)" by code_simp+
  have u: "sample_tree ! 2 \<notin> set (take 2 sample_tree)" "sample_tree ! 5 = Nil0" "sample_tree ! 2 = 3" by code_simp+
  have "\<exists>T'. Delete_child1 sample_tree \<lparr>level = 1, order = 1\<rparr> (int 1) = Some (1, T') \<and> fits T'"
    using conjunct1 [OF array_tree_subtrees [OF fits_sample disjI2 [OF refl] s]] p by blast
  moreover have "\<exists>T'. Insert_child sample_tree (sample_tree ! 2) (int 0) graft_tree
      = Some (1, T', blank graft_tree (set_tree (shape graft_tree 0))) \<and> bt T' 5 = bt graft_tree 0"
    using conjunct2 [OF array_tree_subtrees [OF fits_sample disjI1 [OF refl] t]] g u(1,2) by blast
  ultimately show ?thesis using u(3) by simp
qed

text \<open>
  The test of the parent in \<open>CreateBiTree\<close> and \<open>Assign\<close> is written \<open>T[i-1/2]\<close>, which is
  \<open>T[i]\<close>: \<open>CreateBiTree\<close> never reports a node without a parent and reads any values up to 999 as they
  come, and \<open>Assign\<close> refuses every value for an empty place, also under an existing parent, while it
  accepts values for the other places.
\<close>
theorem array_tree_parent_test:
  "fst (CreateBiTree input T) = 1
   \<and> (999 \<notin> set vs \<longrightarrow> length vs < MAX_TREE_SIZE \<longrightarrow> length T = MAX_TREE_SIZE \<longrightarrow>
      CreateBiTree (map Some vs @ Some 999 # rest) T = (1, vs @ replicate (MAX_TREE_SIZE - length vs) Nil0))
   \<and> (v \<noteq> Nil0 \<longrightarrow> icell T (pos_index e) = Some x \<longrightarrow>
      Assign T e v = Some (if x = Nil0 then (0, T) else (1, T[nat (pos_index e) := v])))"
  using create_loop_ok create_loop_reads [of vs "[]" T rest]
  by (simp add: CreateBiTree_def Assign_def)

lemma array_tree_parent_test_witness:
  "CreateBiTree [Some 0, Some 5, Some 999] (replicate 100 7) = (1, [0, 5] @ replicate 98 0)
   \<and> Assign sample_tree \<lparr>level = 3, order = 3\<rparr> 9 = Some (0, sample_tree)"
proof -
  have v: "999 \<notin> set [0 :: int, 5]" "length [0 :: int, 5] < MAX_TREE_SIZE" "length (replicate 100 (7 :: int)) = MAX_TREE_SIZE"
    by (simp_all add: MAX_TREE_SIZE_def)
  have c: "icell sample_tree (pos_index \<lparr>level = 3, order = 3\<rparr>) = Some 0" by code_simp
  show ?thesis
    using array_tree_parent_test [of "[]" "replicate 100 7" "[0, 5]" "[]"] v
      array_tree_parent_test [of "[]" sample_tree "[]" "[]" 9 "\<lparr>level = 3, order = 3\<rparr>" 0] c
    by (simp add: MAX_TREE_SIZE_def)
qed

text \<open>\<open>Insert_child\<close> moves the tree that was at the place within the array, from \<open>j\<close> to \<open>2 * j + 2\<close>:
  its left child lands on the left child of its right child, and becomes one.\<close>

lemma insert_child_loses_shape:
  "map_option (\<lambda>(r, T, _). (r, bt T 1)) (Insert_child ([1, 2, 0, 3, 4] @ replicate 95 0) 1 0 ([9] @ replicate 99 0)) =
     Some (1, Node Leaf 9 (Node Leaf 2 (Node (Node Leaf 3 Leaf) 4 Leaf)))"
  by code_simp

end
