(* ===== verification/Scanner.thy ===== *)
theory Scanner
  imports LinkedList
begin

text \<open>
  The bracket scanner \<open>1.zhang/3.datastruct/stack/example/scanner.c\<close>, a client of the linked stack of
  \<open>LinkedList\<close>: it is written over the stack's functions on the heap and proved over the laws of the
  locale \<open>heap_stack\<close> alone, through the interpretation \<open>ls\<close>.  A C string is the list of its characters
  without the final zero; \<open>None\<close> inside the result is \<open>exit(1)\<close>.
\<close>

section \<open>The program\<close>

definition isleft :: "char \<Rightarrow> bool" where
  "isleft c \<longleftrightarrow> c = CHR ''{'' \<or> c = CHR ''['' \<or> c = CHR ''('' \<or> c = CHR ''<''"

definition isright :: "char \<Rightarrow> bool" where
  "isright c \<longleftrightarrow> c = CHR ''}'' \<or> c = CHR '']'' \<or> c = CHR '')'' \<or> c = CHR ''>''"

definition ismatch :: "char \<Rightarrow> char \<Rightarrow> bool" where
  "ismatch l r = (if l = CHR ''['' then r = CHR '']''
     else if l = CHR ''{'' then r = CHR ''}''
     else if l = CHR ''<'' then r = CHR ''>''
     else if l = CHR ''('' then r = CHR '')'' else False)"

text \<open>The loop returns the rest of the string where it stops.\<close>

fun scan_loop :: "nat \<Rightarrow> string \<Rightarrow> char heap \<Rightarrow> (string \<times> char heap) option" where
  "scan_loop st [] h = Some ([], h)"
| "scan_loop st (c # p) h =
     (if isleft c then do { (_, h1) \<leftarrow> push_stack st c h; scan_loop st p h1 }
      else if isright c then do {
        e \<leftarrow> empty_stack st h;
        if e then Some (c # p, h)
        else do {
          (_, v, h1) \<leftarrow> pop_stack st h;
          tmp \<leftarrow> v;
          if \<not> ismatch tmp c then Some (c # p, h1) else scan_loop st p h1 } }
      else scan_loop st p h)"

definition scanner :: "string \<Rightarrow> char heap \<Rightarrow> (int option \<times> char heap) option" where
  "scanner p h = (let (st, h1) = init_stack h in
     if st = 0 then Some (None, h1)
     else do {
       (p1, h2) \<leftarrow> scan_loop st p h1;
       ok \<leftarrow> (if p1 = [] then empty_stack st h2 else Some False);
       h3 \<leftarrow> destroy_stack st h2;
       Some (Some (if ok then 0 else -1), h3) })"

text \<open>\<open>main\<close>: whether it prints that the text matches.\<close>

definition scanner_main :: "char heap \<Rightarrow> bool option option" where
  "scanner_main h = do {
     (r, _) \<leftarrow> scanner ''hel<lo(world) {good}[boy]>>'' h;
     Some (map_option (\<lambda>c. \<not> c < 0) r) }"

section \<open>Specification\<close>

text \<open>Well-bracketed text, where the other characters do not count.\<close>

inductive balanced :: "string \<Rightarrow> bool" where
  bal_Nil: "balanced []"
| bal_other: "\<not> isleft c \<Longrightarrow> \<not> isright c \<Longrightarrow> balanced s \<Longrightarrow> balanced (c # s)"
| bal_pair: "ismatch l r \<Longrightarrow> balanced s \<Longrightarrow> balanced t \<Longrightarrow> balanced (l # s @ r # t)"

text \<open>The loop over a list as the stack.\<close>

fun scan_list :: "char list \<Rightarrow> string \<Rightarrow> string \<times> char list" where
  "scan_list xs [] = ([], xs)"
| "scan_list xs (c # p) =
     (if isleft c then scan_list (c # xs) p
      else if isright c then
        (case xs of [] \<Rightarrow> (c # p, []) | x # ys \<Rightarrow> if \<not> ismatch x c then (c # p, ys) else scan_list ys p)
      else scan_list xs p)"

lemma ismatch_sides: "ismatch l r \<Longrightarrow> isleft l \<and> isright r \<and> \<not> isleft r"
  by (auto simp: ismatch_def isleft_def isright_def split: if_splits)

lemma balanced_scans: "balanced s \<Longrightarrow> scan_list xs (s @ t) = scan_list xs t"
  by (induction s arbitrary: xs t rule: balanced.induct) (auto dest: ismatch_sides)

text \<open>What is left to read when the stack holds the given brackets.\<close>

fun closes :: "char list \<Rightarrow> string \<Rightarrow> bool" where
  "closes [] s \<longleftrightarrow> balanced s"
| "closes (x # xs) s \<longleftrightarrow> (\<exists>a r b. s = a @ r # b \<and> balanced a \<and> ismatch x r \<and> closes xs b)"

lemma closes_other: "\<not> isleft c \<Longrightarrow> \<not> isright c \<Longrightarrow> closes xs s \<Longrightarrow> closes xs (c # s)"
  by (cases xs) (auto intro: bal_other simp: Cons_eq_append_conv)

lemma closes_pair: "ismatch l r \<Longrightarrow> balanced a \<Longrightarrow> closes xs b \<Longrightarrow> closes xs (l # a @ r # b)"
proof (cases xs)
  case (Cons y ys)
  assume m: "ismatch l r" "balanced a" and "closes xs b"
  then obtain a' r' b' where b: "b = a' @ r' # b'" "balanced a'" "ismatch y r'" "closes ys b'" using Cons by auto
  then have "balanced (l # a @ r # a')" using m bal_pair by blast
  then show ?thesis using b Cons by (auto intro!: exI [of _ "l # a @ r # a'"])
qed (auto intro: bal_pair)

lemma scan_list_closes: "scan_list xs s = ([], []) \<Longrightarrow> closes xs s"
proof (induction s arbitrary: xs)
  case (Cons c s)
  consider "isleft c" | "\<not> isleft c" "isright c" | "\<not> isleft c" "\<not> isright c" by blast
  then show ?case
  proof cases
    case 1
    then have "closes (c # xs) s" using Cons.prems by (intro Cons.IH) simp
    then obtain a r b where "s = a @ r # b" "balanced a" "ismatch c r" "closes xs b" by auto
    then show ?thesis using closes_pair by blast
  next
    case 2
    then obtain x ys where "xs = x # ys" "ismatch x c" "closes ys s"
      using Cons by (cases xs) (auto split: if_splits)
    then show ?thesis using bal_Nil by (auto intro!: exI [of _ "[] :: string"])
  next
    case 3
    then show ?thesis using Cons closes_other by simp
  qed
qed (auto intro: bal_Nil)

lemma scan_list_balanced: "scan_list [] s = ([], []) \<longleftrightarrow> balanced s"
  using scan_list_closes [of "[]" s] balanced_scans [of s "[]" "[]"] by auto

section \<open>The loop on the heap\<close>

lemma keeps_refl: "keeps own h F h F"
  by (simp add: keeps_def)

lemma keeps_trans:
  assumes "keeps own h F h1 F1" "keeps own h1 F1 h2 F2"
  shows "keeps own h F h2 F2"
  unfolding keeps_def
proof (intro allI impI)
  fix st ys G assume "own h st ys G" "F \<inter> G = {}"
  then have "own h1 st ys G" "F1 \<inter> G = {}" using assms(1) by (simp_all add: keeps_def)
  then show "own h2 st ys G \<and> F2 \<inter> G = {}" using assms(2) by (simp add: keeps_def)
qed

lemma scan_loop_list:
  "stack_own h st xs F \<Longrightarrow> heap_room h (2 * length s) \<Longrightarrow>
   \<exists>h' F'. scan_loop st s h = Some (fst (scan_list xs s), h') \<and> stack_own h' st (snd (scan_list xs s)) F'
     \<and> heap_room h' 0 \<and> keeps stack_own h F h' F'"
proof (induction s arbitrary: xs h F)
  case Nil
  then show ?case using keeps_refl [of stack_own h F] by auto
next
  case (Cons c s)
  note own = Cons.prems(1)
  have room: "heap_room h (2 * length s + 2)" "heap_room h (2 * length s)" using Cons.prems(2) by (auto simp: heap_room_def)
  consider "isleft c" | "\<not> isleft c" "isright c" "xs = []" | x ys where "\<not> isleft c" "isright c" "xs = x # ys"
    | "\<not> isleft c" "\<not> isright c" by (cases xs) auto
  then show ?case
  proof cases
    case 1
    obtain h1 F1 where h1: "push_stack st c h = Some (OKAY, h1)" "stack_own h1 st (c # xs) F1" "heap_room h1 (2 * length s)"
        "keeps stack_own h F h1 F1"
      using ls.push_law [OF own room(1)] by blast
    show ?thesis using Cons.IH [OF h1(2,3)] 1 h1(1) keeps_trans [OF h1(4)] by auto
  next
    case 2
    then show ?thesis using ls.empty_law [OF own] own room keeps_refl [of stack_own h F] by (auto simp: heap_room_def)
  next
    case 3
    obtain h1 F1 where h1: "pop_stack st h = Some (OKAY, Some x, h1)" "stack_own h1 st ys F1" "heap_room h1 (2 * length s)"
        "keeps stack_own h F h1 F1"
      using ls.pop_law [OF own [unfolded 3(3)] room(2)] by blast
    have "heap_room h1 0" using h1(3) by (auto simp: heap_room_def)
    then show ?thesis using Cons.IH [OF h1(2,3)] 3 h1 keeps_trans [OF h1(4)] ls.empty_law [OF own] by auto
  next
    case 4
    then show ?thesis using Cons.IH [OF own room(2)] by auto
  qed
qed

section \<open>Properties\<close>



end
