(* ===== verification/PrefixNotation.thy ===== *)
theory PrefixNotation
  imports LinkedList
begin

text \<open>
  The conversion to prefix notation \<open>1.zhang/3.datastruct/stack/example/transform.c\<close>, a client of two
  linked stacks in one heap, and the evaluation of the result.  The stacks hold single bytes: in
  \<open>transform\<close> they are characters, in \<open>caculate\<close> numbers from 0 to 255 that are read back as a signed
  \<open>char\<close>.  A local variable that a failed \<open>pop_stack\<close> may leave unset is an option; \<open>None\<close> as a return
  code is \<open>exit(1)\<close>.  The loops without a bound are \<open>partial_function\<close>s.
\<close>

section \<open>The program\<close>

definition isNumber :: "char \<Rightarrow> bool" where
  "isNumber ch \<longleftrightarrow> of_char ch \<ge> (48 :: nat) \<and> of_char ch \<le> (57 :: nat)"

definition isOperator :: "char \<Rightarrow> bool" where
  "isOperator ch \<longleftrightarrow> ch = CHR ''+'' \<or> ch = CHR ''-'' \<or> ch = CHR ''*'' \<or> ch = CHR ''/''"

definition isLeft :: "char \<Rightarrow> bool" where
  "isLeft ch \<longleftrightarrow> ch = CHR ''(''"

definition isRight :: "char \<Rightarrow> bool" where
  "isRight ch \<longleftrightarrow> ch = CHR '')''"

definition priority :: "char \<Rightarrow> nat" where
  "priority ch = (if ch = CHR ''*'' \<or> ch = CHR ''/'' then 2 else if ch = CHR ''+'' \<or> ch = CHR ''-'' then 1 else 0)"

text \<open>The loop for an operator; \<open>num\<close> keeps its value between the loops.\<close>

partial_function (option) operator_loop ::
  "nat \<Rightarrow> nat \<Rightarrow> char \<Rightarrow> char option \<Rightarrow> char heap \<Rightarrow> (char option \<times> char heap) option" where
  "operator_loop res tmp ch num h = do {
     (st, d) \<leftarrow> get_top tmp h;
     if st \<noteq> OKAY then do { (_, h1) \<leftarrow> push_stack tmp ch h; Some (num, h1) }
     else do {
       data \<leftarrow> d;
       if priority ch < priority data then do {
         (_, v, h1) \<leftarrow> pop_stack tmp h;
         let num1 = (if v = None then num else v);
         x \<leftarrow> num1;
         (_, h2) \<leftarrow> push_stack res x h1;
         operator_loop res tmp ch num1 h2 }
       else do { (_, h1) \<leftarrow> push_stack tmp ch h; Some (num, h1) } } }"

partial_function (option) bracket_loop ::
  "nat \<Rightarrow> nat \<Rightarrow> char option \<Rightarrow> char heap \<Rightarrow> (char option \<times> char heap) option" where
  "bracket_loop res tmp num h = do {
     (_, v, h1) \<leftarrow> pop_stack tmp h;
     let num1 = (if v = None then num else v);
     x \<leftarrow> num1;
     if x = CHR '')'' then Some (num1, h1)
     else do { (_, h2) \<leftarrow> push_stack res x h1; bracket_loop res tmp num1 h2 } }"

text \<open>The loop over the text from its end: the argument is the rest in reverse.\<close>

fun text_loop :: "nat \<Rightarrow> nat \<Rightarrow> string \<Rightarrow> char option \<Rightarrow> char heap \<Rightarrow> (string \<times> char option \<times> char heap) option" where
  "text_loop res tmp [] num h = Some ([], num, h)"
| "text_loop res tmp (ch # rest) num h =
     (if isNumber ch then do { (_, h1) \<leftarrow> push_stack res ch h; text_loop res tmp rest num h1 }
      else if isOperator ch then do { (num1, h1) \<leftarrow> operator_loop res tmp ch num h; text_loop res tmp rest num1 h1 }
      else if isRight ch then do { (_, h1) \<leftarrow> push_stack tmp ch h; text_loop res tmp rest num h1 }
      else if isLeft ch then do { (num1, h1) \<leftarrow> bracket_loop res tmp num h; text_loop res tmp rest num1 h1 }
      else Some (ch # rest, num, h))"

partial_function (option) flush_loop :: "nat \<Rightarrow> nat \<Rightarrow> char option \<Rightarrow> char heap \<Rightarrow> char heap option" where
  "flush_loop res tmp num h = do {
     e \<leftarrow> empty_stack tmp h;
     if e then Some h
     else do {
       (_, v, h1) \<leftarrow> pop_stack tmp h;
       let num1 = (if v = None then num else v);
       x \<leftarrow> num1;
       (_, h2) \<leftarrow> push_stack res x h1;
       flush_loop res tmp num1 h2 } }"

partial_function (option) out_loop :: "nat \<Rightarrow> nat \<Rightarrow> char list \<Rightarrow> char heap \<Rightarrow> (char list \<times> char heap) option" where
  "out_loop res i buf h = do {
     e \<leftarrow> empty_stack res h;
     if e then Some (buf, h)
     else do {
       (_, v, h1) \<leftarrow> pop_stack res h;
       buf1 \<leftarrow> (case v of None \<Rightarrow> Some buf | Some x \<Rightarrow> wr buf i x);
       out_loop res (i + 1) buf1 h1 } }"

definition transform :: "string \<Rightarrow> char list \<Rightarrow> char heap \<Rightarrow> (int option \<times> char list \<times> char heap) option" where
  "transform ptr buf h =
     (let (res, h1) = init_stack h in
      if res = 0 then Some (None, buf, h1)
      else let (tmp, h2) = init_stack h1 in
      if tmp = 0 then Some (None, buf, h2)
      else do {
        (rest, num, h3) \<leftarrow> text_loop res tmp (rev ptr) None h2;
        if rest \<noteq> [] then do { h4 \<leftarrow> destroy_stack tmp h3; h5 \<leftarrow> destroy_stack res h4; Some (Some (-1), buf, h5) }
        else do {
          h4 \<leftarrow> flush_loop res tmp num h3;
          (buf1, h5) \<leftarrow> out_loop res 0 buf h4;
          h6 \<leftarrow> destroy_stack tmp h5;
          h7 \<leftarrow> destroy_stack res h6;
          Some (Some 0, buf1, h7) } })"

text \<open>A result of \<open>None\<close> inside is \<open>exit(1)\<close>.\<close>

definition cal_num :: "char \<Rightarrow> int \<Rightarrow> int \<Rightarrow> int option option" where
  "cal_num op left right =
     (if op = CHR ''+'' then map_option Some (chk (left + right))
      else if op = CHR ''-'' then map_option Some (chk (left - right))
      else if op = CHR ''*'' then map_option Some (chk (left * right))
      else if op = CHR ''/'' then map_option Some (cdiv left right)
      else Some None)"

definition schar :: "int \<Rightarrow> int" where
  "schar b = (if b \<ge> 128 then b - 256 else b)"

text \<open>The loop of \<open>caculate\<close> from the end of the text; it returns the rest and \<open>tmp\<close>.\<close>

fun calc_text :: "nat \<Rightarrow> string \<Rightarrow> int option \<Rightarrow> int heap \<Rightarrow> ((string \<times> int option) option \<times> int heap) option" where
  "calc_text res [] tmp h = Some (Some ([], tmp), h)"
| "calc_text res (ch # rest) tmp h =
     (if isNumber ch then
        (let tmp1 = of_char ch - 48 in do { (_, h1) \<leftarrow> push_stack res (tmp1 mod 256) h; calc_text res rest (Some tmp1) h1 })
      else if isOperator ch then do {
        e1 \<leftarrow> empty_stack res h;
        if e1 then Some (Some (ch # rest, tmp), h)
        else do {
          (_, l, h1) \<leftarrow> pop_stack res h;
          e2 \<leftarrow> empty_stack res h1;
          if e2 then Some (Some (ch # rest, tmp), h1)
          else do {
            (_, r, h2) \<leftarrow> pop_stack res h1;
            left \<leftarrow> l;
            right \<leftarrow> r;
            v \<leftarrow> cal_num ch (schar left) (schar right);
            (case v of
               None \<Rightarrow> Some (None, h2)
             | Some x \<Rightarrow> do { (_, h3) \<leftarrow> push_stack res (x mod 256) h2; calc_text res rest (Some x) h3 }) } } }
      else Some (Some (ch # rest, tmp), h))"

text \<open>The last \<open>pop_stack\<close> stores one byte into the \<open>int\<close> variable \<open>tmp\<close>, its lowest one.\<close>

definition caculate :: "string \<Rightarrow> int heap \<Rightarrow> (int option \<times> int heap) option" where
  "caculate ptr h =
     (let (res, h1) = init_stack h in
      if res = 0 then Some (None, h1)
      else do {
        (p, h2) \<leftarrow> calc_text res (rev ptr) None h1;
        (case p of
           None \<Rightarrow> Some (None, h2)
         | Some (rest, tmp) \<Rightarrow> do {
             e \<leftarrow> (if rest = [] then empty_stack res h2 else Some True);
             if e then Some (None, h2)
             else do {
               (_, b, h3) \<leftarrow> pop_stack res h2;
               x \<leftarrow> b;
               t \<leftarrow> tmp;
               e1 \<leftarrow> empty_stack res h3;
               Some (if \<not> e1 then None else Some (t - t mod 256 + x), h3) } }) })"

text \<open>\<open>main\<close> converts into a buffer of 32 zero characters and evaluates the string in it; \<open>h\<close> and \<open>g\<close> are the
  heaps of the two calls.  \<open>None\<close> inside: the expression is refused, or \<open>exit(1)\<close>.\<close>

definition transform_main :: "string \<Rightarrow> char heap \<Rightarrow> int heap \<Rightarrow> (string \<times> int) option option" where
  "transform_main text h g = do {
     (c, buf, _) \<leftarrow> transform text (replicate 32 (CHR 0x00)) h;
     if c = None \<or> c = Some (-1) then Some None
     else do {
       let out = takeWhile (\<lambda>x. x \<noteq> CHR 0x00) buf;
       (v, _) \<leftarrow> caculate out g;
       Some (map_option (Pair out) v) } }"

section \<open>Two stacks in one heap\<close>

definition two :: "('h \<Rightarrow> nat \<Rightarrow> 'v list \<Rightarrow> 'f set \<Rightarrow> bool) \<Rightarrow> 'h \<Rightarrow> nat \<Rightarrow> 'v list \<Rightarrow> nat \<Rightarrow> 'v list \<Rightarrow> bool" where
  "two own h t ts r rs \<longleftrightarrow> (\<exists>F G. own h t ts F \<and> own h r rs G \<and> F \<inter> G = {})"

lemma two_sym: "two own h t ts r rs \<Longrightarrow> two own h r rs t ts"
  unfolding two_def by (metis Int_commute)

context heap_stack begin

lemma two_push:
  assumes "two own h t ts r rs" "room h (n + 2)"
  shows "\<exists>h1. push t v h = Some (OKAY, h1) \<and> two own h1 t (v # ts) r rs \<and> room h1 n"
proof -
  obtain F G where o: "own h t ts F" "own h r rs G" "F \<inter> G = {}" using assms(1) by (auto simp: two_def)
  obtain h1 F1 where h1: "push t v h = Some (OKAY, h1)" "own h1 t (v # ts) F1" "room h1 n" "keeps own h F h1 F1"
    using push_law [OF o(1) assms(2)] by blast
  have "own h1 r rs G" "F1 \<inter> G = {}" using h1(4) o(2,3) by (simp_all add: keeps_def)
  then show ?thesis using h1(1-3) unfolding two_def by blast
qed

lemma two_pop:
  assumes "two own h t (v # ts) r rs" "room h n"
  shows "\<exists>h1. pop t h = Some (OKAY, Some v, h1) \<and> two own h1 t ts r rs \<and> room h1 n"
proof -
  obtain F G where o: "own h t (v # ts) F" "own h r rs G" "F \<inter> G = {}" using assms(1) by (auto simp: two_def)
  obtain h1 F1 where h1: "pop t h = Some (OKAY, Some v, h1)" "own h1 t ts F1" "room h1 n" "keeps own h F h1 F1"
    using pop_law [OF o(1) assms(2)] by blast
  have "own h1 r rs G" "F1 \<inter> G = {}" using h1(4) o(2,3) by (simp_all add: keeps_def)
  then show ?thesis using h1(1-3) unfolding two_def by blast
qed

text \<open>Moving the top of one stack to the other.\<close>

lemma two_move:
  assumes "two own h t (v # ts) r rs" "room h (n + 2)"
  shows "\<exists>h1 h2. pop t h = Some (OKAY, Some v, h1) \<and> push r v h1 = Some (OKAY, h2) \<and> two own h2 t ts r (v # rs) \<and> room h2 n"
proof -
  obtain h1 where h1: "pop t h = Some (OKAY, Some v, h1)" "two own h1 t ts r rs" "room h1 (n + 2)"
    using two_pop [OF assms] by blast
  obtain h2 where h2: "push r v h1 = Some (OKAY, h2)" "two own h2 r (v # rs) t ts" "room h2 n"
    using two_push [OF two_sym [OF h1(2)] h1(3)] by blast
  then show ?thesis using h1(1) two_sym [OF h2(2)] by (intro exI [of _ h1] exI [of _ h2]) simp
qed

lemma two_empty: "two own h t ts r rs \<Longrightarrow> empty t h = Some (ts = [])"
  using empty_law by (auto simp: two_def)

lemma two_peek: "two own h t ts r rs \<Longrightarrow> peek t h = Some (case ts of [] \<Rightarrow> (FAIL, None) | v # _ \<Rightarrow> (OKAY, Some v))"
  using peek_law peek_empty_law by (cases ts) (auto simp: two_def)

lemma two_init:
  assumes "room h (n + 2)"
  shows "\<exists>r h1 t h2. init h = (r, h1) \<and> r \<noteq> 0 \<and> init h1 = (t, h2) \<and> t \<noteq> 0 \<and> two own h2 t [] r [] \<and> room h2 n"
proof -
  obtain r h1 F where h1: "init h = (r, h1)" "r \<noteq> 0" "own h1 r [] F" "room h1 (Suc n)"
    using init_law [of h "Suc n"] assms by auto
  obtain t h2 G where h2: "init h1 = (t, h2)" "t \<noteq> 0" "own h2 t [] G" "room h2 n" "keeps own h1 {} h2 G"
    using init_law [OF h1(4)] by blast
  have "own h2 r [] F" "G \<inter> F = {}" using h2(5) h1(3) by (auto simp: keeps_def)
  then show ?thesis using h1 h2 by (auto simp: two_def)
qed

lemma two_destroy:
  assumes "two own h t ts r rs" "room h n"
  shows "\<exists>h1 h2. destroy t h = Some h1 \<and> destroy r h1 = Some h2 \<and> room h2 n"
proof -
  obtain F G where o: "own h t ts F" "own h r rs G" "F \<inter> G = {}" using assms(1) by (auto simp: two_def)
  obtain h1 where h1: "destroy t h = Some h1" "room h1 n" "keeps own h F h1 {}" using destroy_law [OF o(1) assms(2)] by blast
  then have "own h1 r rs G" using o by (simp add: keeps_def)
  then show ?thesis using destroy_law [of h1 r rs G n] h1 by blast
qed

end

section \<open>The loops on lists\<close>

fun operator_list :: "char \<Rightarrow> string \<Rightarrow> string \<Rightarrow> string \<times> string" where
  "operator_list ch [] rs = ([ch], rs)"
| "operator_list ch (d # ts) rs = (if priority ch < priority d then operator_list ch ts (d # rs) else (ch # d # ts, rs))"

fun bracket_list :: "string \<Rightarrow> string \<Rightarrow> (string \<times> string) option" where
  "bracket_list [] rs = None"
| "bracket_list (d # ts) rs = (if d = CHR '')'' then Some (ts, rs) else bracket_list ts (d # rs))"

fun text_list :: "string \<Rightarrow> string \<Rightarrow> string \<Rightarrow> (string \<times> string) option" where
  "text_list [] ts rs = Some (ts, rs)"
| "text_list (ch # rest) ts rs =
     (if isNumber ch then text_list rest ts (ch # rs)
      else if isOperator ch then (let (ts1, rs1) = operator_list ch ts rs in text_list rest ts1 rs1)
      else if isRight ch then text_list rest (ch # ts) rs
      else if isLeft ch then do { (ts1, rs1) \<leftarrow> bracket_list ts rs; text_list rest ts1 rs1 }
      else None)"

lemma heap_room_mono: "heap_room h n \<Longrightarrow> m \<le> n \<Longrightarrow> heap_room h m"
  by (auto simp: heap_room_def)

lemma operator_loop_list:
  "two stack_own h t ts r rs \<Longrightarrow> heap_room h (n + 2 * length ts + 2) \<Longrightarrow>
   \<exists>num1 h1. operator_loop r t ch num h = Some (num1, h1)
     \<and> two stack_own h1 t (fst (operator_list ch ts rs)) r (snd (operator_list ch ts rs))
     \<and> heap_room h1 (n + 2 * (length (fst (operator_list ch ts rs)) - 1))"
proof (induction ts arbitrary: h rs num)
  case Nil
  obtain h1 where "push_stack t ch h = Some (OKAY, h1)" "two stack_own h1 t [ch] r rs" "heap_room h1 n"
    using ls.two_push [OF Nil(1), of n ch] Nil(2) by auto
  then show ?case using ls.two_peek [OF Nil(1)] by (subst operator_loop.simps) simp
next
  case (Cons d ts)
  show ?case
  proof (cases "priority ch < priority d")
    case True
    obtain h1 h2 where m: "pop_stack t h = Some (OKAY, Some d, h1)" "push_stack r d h1 = Some (OKAY, h2)"
        "two stack_own h2 t ts r (d # rs)" "heap_room h2 (n + 2 * length ts + 2)"
      using ls.two_move [OF Cons.prems(1), of "n + 2 * length ts + 2"] Cons.prems(2) by auto
    have "operator_loop r t ch num h = operator_loop r t ch (Some d) h2"
      using True m(1,2) ls.two_peek [OF Cons.prems(1)] by (subst operator_loop.simps) simp
    then show ?thesis using Cons.IH [OF m(3,4), of "Some d"] True by simp
  next
    case False
    obtain h1 where "push_stack t ch h = Some (OKAY, h1)" "two stack_own h1 t (ch # d # ts) r rs"
        "heap_room h1 (n + 2 * length (d # ts))"
      using ls.two_push [OF Cons.prems(1), of "n + 2 * length (d # ts)" ch] Cons.prems(2) by auto
    then show ?thesis using False ls.two_peek [OF Cons.prems(1)] by (subst operator_loop.simps) simp
  qed
qed

lemma bracket_loop_list:
  "two stack_own h t ts r rs \<Longrightarrow> heap_room h (n + 2 * length ts) \<Longrightarrow> bracket_list ts rs = Some (ts1, rs1) \<Longrightarrow>
   \<exists>num1 h1. bracket_loop r t num h = Some (num1, h1) \<and> two stack_own h1 t ts1 r rs1 \<and> heap_room h1 (n + 2 * length ts1)"
proof (induction ts arbitrary: h rs num)
  case (Cons d ts)
  show ?case
  proof (cases "d = CHR '')''")
    case True
    obtain h1 where h1: "pop_stack t h = Some (OKAY, Some d, h1)" "two stack_own h1 t ts r rs" "heap_room h1 (n + 2 * length (d # ts))"
      using ls.two_pop [OF Cons.prems(1,2)] by blast
    then show ?thesis using True Cons.prems(3) heap_room_mono [OF h1(3), of "n + 2 * length ts"]
      by (subst bracket_loop.simps) simp
  next
    case False
    obtain h1 h2 where m: "pop_stack t h = Some (OKAY, Some d, h1)" "push_stack r d h1 = Some (OKAY, h2)"
        "two stack_own h2 t ts r (d # rs)" "heap_room h2 (n + 2 * length ts)"
      using ls.two_move [OF Cons.prems(1), of "n + 2 * length ts"] Cons.prems(2) by auto
    have "bracket_loop r t num h = bracket_loop r t (Some d) h2"
      using False m(1,2) by (subst bracket_loop.simps) simp
    then show ?thesis using Cons.IH [OF m(3,4), of "Some d"] Cons.prems(3) False by simp
  qed
qed simp

lemma text_loop_list:
  "two stack_own h t ts r rs \<Longrightarrow> heap_room h (n + 4 * length s + 2 * length ts) \<Longrightarrow> text_list s ts rs = Some (ts1, rs1) \<Longrightarrow>
   \<exists>num1 h1. text_loop r t s num h = Some ([], num1, h1) \<and> two stack_own h1 t ts1 r rs1 \<and> heap_room h1 (n + 2 * length ts1)"
proof (induction s arbitrary: h ts rs num)
  case (Cons ch s)
  let ?n = "n + 4 * length s"
  have room: "heap_room h (?n + 2 * length ts + 2)" "heap_room h (?n + 2 + 2 * length ts + 2)" "heap_room h (?n + 2 * length ts)"
    using Cons.prems(2) by (auto simp: heap_room_def)
  consider "isNumber ch" | "\<not> isNumber ch" "isOperator ch" | "\<not> isNumber ch" "\<not> isOperator ch" "isRight ch"
    | "\<not> isNumber ch" "\<not> isOperator ch" "\<not> isRight ch" "isLeft ch"
    using Cons.prems(3) by (auto split: if_splits)
  then show ?case
  proof cases
    case 1
    obtain h1 where h1: "push_stack r ch h = Some (OKAY, h1)" "two stack_own h1 r (ch # rs) t ts" "heap_room h1 (?n + 2 * length ts)"
      using ls.two_push [OF two_sym [OF Cons.prems(1)] room(1)] by blast
    then show ?thesis using Cons.IH [OF two_sym [OF h1(2)] h1(3), of num] Cons.prems(3) 1 by simp
  next
    case 2
    obtain num1 h1 where h1: "operator_loop r t ch num h = Some (num1, h1)"
        "two stack_own h1 t (fst (operator_list ch ts rs)) r (snd (operator_list ch ts rs))"
        "heap_room h1 (?n + 2 + 2 * (length (fst (operator_list ch ts rs)) - 1))"
      using operator_loop_list [OF Cons.prems(1) room(2)] by blast
    have "heap_room h1 (?n + 2 * length (fst (operator_list ch ts rs)))" by (rule heap_room_mono [OF h1(3)]) simp
    then show ?thesis using Cons.IH [OF h1(2)] Cons.prems(3) 2 h1(1) by (simp add: case_prod_beta)
  next
    case 3
    obtain h1 where h1: "push_stack t ch h = Some (OKAY, h1)" "two stack_own h1 t (ch # ts) r rs" "heap_room h1 (?n + 2 + 2 * length ts)"
      using ls.two_push [OF Cons.prems(1) room(2)] by blast
    then show ?thesis using Cons.IH [OF h1(2)] Cons.prems(3) 3 by simp
  next
    case 4
    then obtain ts2 rs2 where b: "bracket_list ts rs = Some (ts2, rs2)" "text_list s ts2 rs2 = Some (ts1, rs1)"
      using Cons.prems(3) by (auto simp: bind_eq_Some_conv)
    obtain num1 h1 where h1: "bracket_loop r t num h = Some (num1, h1)" "two stack_own h1 t ts2 r rs2" "heap_room h1 (?n + 2 * length ts2)"
      using bracket_loop_list [OF Cons.prems(1) room(3) b(1)] by blast
    then show ?thesis using Cons.IH [OF h1(2,3) b(2)] 4 by simp
  qed
qed simp

lemma flush_loop_list:
  "two stack_own h t ts r rs \<Longrightarrow> heap_room h (n + 2 * length ts) \<Longrightarrow>
   \<exists>h1. flush_loop r t num h = Some h1 \<and> two stack_own h1 t [] r (rev ts @ rs) \<and> heap_room h1 n"
proof (induction ts arbitrary: h rs num)
  case Nil
  then show ?case using ls.two_empty [OF Nil(1)] by (subst flush_loop.simps) simp
next
  case (Cons d ts)
  obtain h1 h2 where m: "pop_stack t h = Some (OKAY, Some d, h1)" "push_stack r d h1 = Some (OKAY, h2)"
      "two stack_own h2 t ts r (d # rs)" "heap_room h2 (n + 2 * length ts)"
    using ls.two_move [OF Cons.prems(1), of "n + 2 * length ts"] Cons.prems(2) by auto
  have "flush_loop r t num h = flush_loop r t (Some d) h2"
    using m(1,2) ls.two_empty [OF Cons.prems(1)] by (subst flush_loop.simps) simp
  then show ?case using Cons.IH [OF m(3,4), of "Some d"] by simp
qed

lemma out_loop_list:
  "two stack_own h r rs t ts \<Longrightarrow> heap_room h n \<Longrightarrow> i + length rs \<le> length buf \<Longrightarrow>
   \<exists>h1. out_loop r i buf h = Some (take i buf @ rs @ drop (i + length rs) buf, h1)
     \<and> two stack_own h1 r [] t ts \<and> heap_room h1 n"
proof (induction rs arbitrary: h i buf)
  case Nil
  then show ?case using ls.two_empty [OF Nil(1)] by (subst out_loop.simps) simp
next
  case (Cons d rs)
  obtain h1 where h1: "pop_stack r h = Some (OKAY, Some d, h1)" "two stack_own h1 r rs t ts" "heap_room h1 n"
    using ls.two_pop [OF Cons.prems(1,2)] by blast
  have "out_loop r i buf h = out_loop r (i + 1) (buf[i := d]) h1"
    using h1(1) ls.two_empty [OF Cons.prems(1)] Cons.prems(3) by (subst out_loop.simps) simp
  moreover have "take (i + 1) (buf[i := d]) @ rs @ drop (i + 1 + length rs) (buf[i := d])
      = take i buf @ (d # rs) @ drop (i + length (d # rs)) buf"
    using Cons.prems(3) by (simp add: take_Suc_conv_app_nth)
  ultimately show ?case using Cons.IH [OF h1(2,3), of "i + 1" "buf[i := d]"] Cons.prems(3) by simp
qed

section \<open>Expressions\<close>

text \<open>An expression over the digits; \<open>infix_of\<close> prints it with the parentheses that its left-associative
  operators need in a place that binds as strongly as \<open>p\<close>, \<open>prefix_of\<close> in prefix notation.\<close>

datatype oper = Plus | Minus | Times | Divide

datatype expr = Digit nat | Binary oper expr expr

fun oper_char :: "oper \<Rightarrow> char" where
  "oper_char Plus = CHR ''+''" | "oper_char Minus = CHR ''-''" | "oper_char Times = CHR ''*''" | "oper_char Divide = CHR ''/''"

definition digit_char :: "nat \<Rightarrow> char" where
  "digit_char n = char_of (48 + n mod 10)"

fun infix_of :: "nat \<Rightarrow> expr \<Rightarrow> string" where
  "infix_of p (Digit n) = [digit_char n]"
| "infix_of p (Binary f l r) =
     (let q = priority (oper_char f); s = infix_of q l @ oper_char f # infix_of (q + 1) r in
      if q < p then CHR ''('' # s @ [CHR '')''] else s)"

fun prefix_of :: "expr \<Rightarrow> string" where
  "prefix_of (Digit n) = [digit_char n]"
| "prefix_of (Binary f l r) = oper_char f # prefix_of l @ prefix_of r"

fun value_of :: "expr \<Rightarrow> int option" where
  "value_of (Digit n) = Some (int (n mod 10))"
| "value_of (Binary f l r) = do {
     a \<leftarrow> value_of l;
     b \<leftarrow> value_of r;
     v \<leftarrow> cal_num (oper_char f) a b;
     v }"

lemma digit_char [simp]: "isNumber (digit_char n)"
  by (auto simp: isNumber_def digit_char_def)

lemma oper_char [simp]: "isOperator (oper_char f)" "\<not> isNumber (oper_char f)"
  by (cases f; simp add: isOperator_def isNumber_def)+

lemma oper_priority: "0 < priority (oper_char f)" "priority (oper_char f) \<le> 2"
  by (cases f; simp add: priority_def)+

lemma parens [simp]:
  "\<not> isNumber (CHR ''('')" "\<not> isOperator (CHR ''('')" "\<not> isRight (CHR ''('')" "isLeft (CHR ''('')"
  "\<not> isNumber (CHR '')'')" "\<not> isOperator (CHR '')'')" "isRight (CHR '')'')" "priority (CHR '')'') = 0"
  by (simp_all add: isNumber_def isOperator_def isRight_def isLeft_def priority_def)

section \<open>The conversion of expressions\<close>

text \<open>Operators that bind more strongly are moved, and stop at the rest.\<close>

definition below :: "nat \<Rightarrow> string \<Rightarrow> bool" where
  "below p ts \<longleftrightarrow> (ts = [] \<or> priority (hd ts) \<le> p)"

lemma operator_list_moves:
  "\<forall>d \<in> set ds. priority ch < priority d \<Longrightarrow> below (priority ch) ts \<Longrightarrow> operator_list ch (ds @ ts) rs = (ch # ts, rev ds @ rs)"
proof (induction ds arbitrary: rs)
  case Nil
  then show ?case by (cases ts) (auto simp: below_def)
qed simp

lemma bracket_list_moves: "CHR '')'' \<notin> set ds \<Longrightarrow> bracket_list (ds @ CHR '')'' # ts) rs = Some (ts, rev ds @ rs)"
  by (induction ds arbitrary: rs) auto

text \<open>Reading an expression from its end leaves some of its operators on the first stack.\<close>

definition reads :: "nat \<Rightarrow> string \<Rightarrow> string \<Rightarrow> bool" where
  "reads p s out \<longleftrightarrow> (\<forall>rest ts rs. below p ts \<longrightarrow> (\<exists>ds rs1. text_list (rev s @ rest) ts rs = text_list rest (ds @ ts) rs1
     \<and> rev ds @ rs1 = out @ rs \<and> (\<forall>d \<in> set ds. p \<le> priority d \<and> 0 < priority d)))"

lemma reads_binary_expr:
  assumes "reads q l a" "reads (q + 1) r b" "p \<le> q" "q = priority (oper_char f)"
  shows "reads p (l @ oper_char f # r) (oper_char f # a @ b)"
  unfolding reads_def
proof (intro allI impI)
  fix rest ts rs assume p: "below p ts"
  have bq: "below (q + 1) ts" "below q ts" using p assms(3) by (auto simp: below_def)
  obtain dr rs1 where r: "text_list (rev r @ oper_char f # rev l @ rest) ts rs = text_list (oper_char f # rev l @ rest) (dr @ ts) rs1"
      "rev dr @ rs1 = b @ rs" "\<forall>d \<in> set dr. q + 1 \<le> priority d"
    using assms(2) bq(1) unfolding reads_def by blast
  have "operator_list (oper_char f) (dr @ ts) rs1 = (oper_char f # ts, rev dr @ rs1)"
    using operator_list_moves [of dr "oper_char f" ts rs1] r(3) bq(2) assms(4) by fastforce
  then have oo: "text_list (oper_char f # rev l @ rest) (dr @ ts) rs1 = text_list (rev l @ rest) (oper_char f # ts) (b @ rs)"
    using r(2) by simp
  have "below q (oper_char f # ts)" using assms(4) by (simp add: below_def)
  then obtain dl rs2 where l: "text_list (rev l @ rest) (oper_char f # ts) (b @ rs) = text_list rest (dl @ oper_char f # ts) rs2"
      "rev dl @ rs2 = a @ b @ rs" "\<forall>d \<in> set dl. q \<le> priority d \<and> 0 < priority d"
    using assms(1) unfolding reads_def by blast
  show "\<exists>ds rs1. text_list (rev (l @ oper_char f # r) @ rest) ts rs = text_list rest (ds @ ts) rs1
      \<and> rev ds @ rs1 = (oper_char f # a @ b) @ rs \<and> (\<forall>d \<in> set ds. p \<le> priority d \<and> 0 < priority d)"
    using r(1) oo l assms(3,4) oper_priority(1) [of f]
    by (intro exI [of _ "dl @ [oper_char f]"] exI [of _ rs2]) auto
qed

lemma reads_parens:
  assumes "reads q s out"
  shows "reads p (CHR ''('' # s @ [CHR '')'']) out"
  unfolding reads_def
proof (intro allI impI)
  fix rest ts rs
  have "below q (CHR '')'' # ts)" by (simp add: below_def)
  then obtain ds rs1 where d: "text_list (rev s @ CHR ''('' # rest) (CHR '')'' # ts) rs = text_list (CHR ''('' # rest) (ds @ CHR '')'' # ts) rs1"
      "rev ds @ rs1 = out @ rs" "\<forall>d \<in> set ds. q \<le> priority d \<and> 0 < priority d"
    using assms unfolding reads_def by blast
  have "CHR '')'' \<notin> set ds" using d(3) parens(8) by fastforce
  then have "text_list (CHR ''('' # rest) (ds @ CHR '')'' # ts) rs1 = text_list rest ts (out @ rs)"
    using bracket_list_moves [of ds ts rs1] d(2) by simp
  then show "\<exists>ds rs1. text_list (rev (CHR ''('' # s @ [CHR '')'']) @ rest) ts rs = text_list rest (ds @ ts) rs1
      \<and> rev ds @ rs1 = out @ rs \<and> (\<forall>d \<in> set ds. p \<le> priority d \<and> 0 < priority d)"
    using d(1) by (intro exI [of _ "[] :: string"] exI [of _ "out @ rs"]) simp
qed

lemma reads_expr: "reads p (infix_of p e) (prefix_of e)"
proof (induction e arbitrary: p)
  case (Digit n)
  show ?case unfolding reads_def
  proof (intro allI impI)
    fix rest ts rs :: string
    show "\<exists>ds rs1. text_list (rev (infix_of p (Digit n)) @ rest) ts rs = text_list rest (ds @ ts) rs1
        \<and> rev ds @ rs1 = prefix_of (Digit n) @ rs \<and> (\<forall>d \<in> set ds. p \<le> priority d \<and> 0 < priority d)"
      by (intro exI [of _ "[] :: string"] exI [of _ "digit_char n # rs"]) simp
  qed
next
  case (Binary f l r)
  let ?q = "priority (oper_char f)"
  have b: "reads p' (infix_of ?q l @ oper_char f # infix_of (?q + 1) r) (oper_char f # prefix_of l @ prefix_of r)" if "p' \<le> ?q" for p'
    using reads_binary_expr [OF Binary(1) Binary(2) that refl] .
  show ?case
    using b [of p] reads_parens [OF b [of 0], of p] by (auto simp: Let_def)
qed

lemma text_list_expr: "\<exists>ts rs. text_list (rev (infix_of 1 e)) [] [] = Some (ts, rs) \<and> rev ts @ rs = prefix_of e"
proof -
  have "below 1 []" by (simp add: below_def)
  then obtain ds rs1 where "text_list (rev (infix_of 1 e) @ []) [] [] = text_list [] (ds @ []) rs1" "rev ds @ rs1 = prefix_of e @ []"
    using reads_expr [of 1 e] unfolding reads_def by blast
  then show ?thesis by auto
qed

section \<open>The evaluation of prefix notation\<close>

text \<open>The operands of every operator fit in a signed \<open>char\<close>.\<close>

fun operands_fit :: "expr \<Rightarrow> bool" where
  "operands_fit (Digit n) \<longleftrightarrow> True"
| "operands_fit (Binary f l r) \<longleftrightarrow> operands_fit l \<and> operands_fit r \<and>
     (case (value_of l, value_of r) of
        (Some a, Some b) \<Rightarrow> -128 \<le> a \<and> a \<le> 127 \<and> -128 \<le> b \<and> b \<le> 127 | _ \<Rightarrow> False)"

lemma schar_byte:
  assumes "-128 \<le> v" "v \<le> 127"
  shows "schar (v mod 256) = v"
proof (cases "0 \<le> v")
  case False
  have "v mod 256 = (v + 256) mod 256" by simp
  also have "\<dots> = v + 256" using False assms(1) by (intro mod_pos_pos_trivial) auto
  finally show ?thesis using assms(1) by (simp add: schar_def)
qed (use assms(2) in \<open>simp add: schar_def\<close>)

lemma digit_value: "of_char (digit_char n) - 48 = int (n mod 10)"
proof -
  have "of_char (digit_char n) = int (of_char (digit_char n))" by (rule of_nat_of_char [symmetric])
  then show ?thesis by (simp add: digit_char_def)
qed

lemma calc_text_expr:
  "operands_fit e \<Longrightarrow> value_of e = Some v \<Longrightarrow> stack_own h res xs F \<Longrightarrow> heap_room h (n + 2 * length (prefix_of e)) \<Longrightarrow>
   \<exists>h1 F1. calc_text res (rev (prefix_of e) @ rest) tmp h = calc_text res rest (Some v) h1
     \<and> stack_own h1 res (v mod 256 # xs) F1 \<and> heap_room h1 n"
proof (induction e arbitrary: v h xs F n tmp rest)
  case (Digit k)
  obtain h1 F1 where "push_stack res (v mod 256) h = Some (OKAY, h1)" "stack_own h1 res (v mod 256 # xs) F1" "heap_room h1 n"
    using ls.push_law [OF Digit(3), of n "v mod 256"] Digit(4) by auto
  then show ?case using Digit(2) digit_value [of k] by (auto simp: Let_def)
next
  case (Binary f l r)
  obtain a b where ab: "value_of l = Some a" "value_of r = Some b" "-128 \<le> a" "a \<le> 127" "-128 \<le> b" "b \<le> 127"
      "operands_fit l" "operands_fit r"
    using Binary.prems(1) by (auto split: option.splits)
  have v: "cal_num (oper_char f) a b = Some (Some v)" using Binary.prems(2) ab by (auto simp: bind_eq_Some_conv)
  have room: "heap_room h (n + 2 + 2 * length (prefix_of l) + 2 * length (prefix_of r))"
    using Binary.prems(4) by (simp add: algebra_simps)
  obtain h1 F1 where h1: "calc_text res (rev (prefix_of r) @ rev (prefix_of l) @ oper_char f # rest) tmp h
        = calc_text res (rev (prefix_of l) @ oper_char f # rest) (Some b) h1"
      "stack_own h1 res (b mod 256 # xs) F1" "heap_room h1 (n + 2 + 2 * length (prefix_of l))"
    using Binary.IH(2) [OF ab(8,2) Binary.prems(3) room] by blast
  obtain h2 F2 where h2: "calc_text res (rev (prefix_of l) @ oper_char f # rest) (Some b) h1 = calc_text res (oper_char f # rest) (Some a) h2"
      "stack_own h2 res (a mod 256 # b mod 256 # xs) F2" "heap_room h2 (n + 2)"
    using Binary.IH(1) [OF ab(7,1) h1(2,3)] by blast
  obtain h3 F3 where h3: "pop_stack res h2 = Some (OKAY, Some (a mod 256), h3)" "stack_own h3 res (b mod 256 # xs) F3" "heap_room h3 (n + 2)"
    using ls.pop_law [OF h2(2,3)] by blast
  obtain h4 F4 where h4: "pop_stack res h3 = Some (OKAY, Some (b mod 256), h4)" "stack_own h4 res xs F4" "heap_room h4 (n + 2)"
    using ls.pop_law [OF h3(2,3)] by blast
  obtain h5 F5 where h5: "push_stack res (v mod 256) h4 = Some (OKAY, h5)" "stack_own h5 res (v mod 256 # xs) F5" "heap_room h5 n"
    using ls.push_law [OF h4(2,3)] by blast
  have "calc_text res (oper_char f # rest) (Some a) h2 = calc_text res rest (Some v) h5"
    using ls.empty_law [OF h2(2)] ls.empty_law [OF h3(2)] h3(1) h4(1) h5(1) v schar_byte [OF ab(3,4)] schar_byte [OF ab(5,6)]
    by simp
  then show ?case using h1(1) h2(1) h5(2,3) by auto
qed

lemma caculate_expr:
  assumes "operands_fit e" "value_of e = Some v" "heap_room g (2 * length (prefix_of e) + 1)"
  shows "\<exists>g1. caculate (prefix_of e) g = Some (Some v, g1)"
proof -
  obtain res g1 F1 where g1: "init_stack g = (res, g1)" "res \<noteq> 0" "stack_own g1 res [] F1" "heap_room g1 (0 + 2 * length (prefix_of e))"
    using ls.init_law [of g "0 + 2 * length (prefix_of e)"] assms(3) by auto
  obtain g2 F2 where g2: "calc_text res (rev (prefix_of e) @ []) None g1 = calc_text res [] (Some v) g2"
      "stack_own g2 res [v mod 256] F2" "heap_room g2 0"
    using calc_text_expr [OF assms(1,2) g1(3,4)] by blast
  obtain g3 F3 where g3: "pop_stack res g2 = Some (OKAY, Some (v mod 256), g3)" "stack_own g3 res [] F3"
    using ls.pop_law [OF g2(2,3)] by blast
  show ?thesis
    using g1(1,2) g2(1) g3(1) ls.empty_law [OF g2(2)] ls.empty_law [OF g3(2)] by (simp add: caculate_def)
qed

lemma transform_expr:
  assumes "heap_room h (4 * length (infix_of 1 e) + 2)" "length (prefix_of e) \<le> length buf"
  shows "\<exists>h1. transform (infix_of 1 e) buf h = Some (Some 0, prefix_of e @ drop (length (prefix_of e)) buf, h1)"
proof -
  let ?s = "rev (infix_of 1 e)"
  obtain r h1 t h2 where i: "init_stack h = (r, h1)" "r \<noteq> 0" "init_stack h1 = (t, h2)" "t \<noteq> 0"
      "two stack_own h2 t [] r []" "heap_room h2 (0 + 4 * length ?s + 2 * length ([] :: string))"
    using ls.two_init [OF assms(1)] by auto
  obtain ts rs where l: "text_list ?s [] [] = Some (ts, rs)" "rev ts @ rs = prefix_of e" using text_list_expr by blast
  obtain num h3 where h3: "text_loop r t ?s None h2 = Some ([], num, h3)" "two stack_own h3 t ts r rs" "heap_room h3 (0 + 2 * length ts)"
    using text_loop_list [OF i(5,6) l(1)] by blast
  obtain h4 where h4: "flush_loop r t num h3 = Some h4" "two stack_own h4 t [] r (prefix_of e)" "heap_room h4 0"
    using flush_loop_list [OF h3(2,3)] l(2) by auto
  obtain h5 where h5: "out_loop r 0 buf h4 = Some (prefix_of e @ drop (length (prefix_of e)) buf, h5)"
      "two stack_own h5 r [] t []" "heap_room h5 0"
    using out_loop_list [OF two_sym [OF h4(2)] h4(3), of 0 buf] assms(2) by auto
  obtain h6 h7 where "destroy_stack t h5 = Some h6" "destroy_stack r h6 = Some h7"
    using ls.two_destroy [OF two_sym [OF h5(2)] h5(3)] by blast
  then show ?thesis using i(1-4) h3(1) h4(1) h5(1) by (simp add: transform_def)
qed

lemma prefix_no_nul: "CHR 0x00 \<notin> set (prefix_of e)"
proof (induction e)
  case (Digit n)
  have "digit_char n \<noteq> CHR 0x00" using digit_char [of n] by (auto simp: isNumber_def)
  then show ?case by auto
next
  case (Binary f l r)
  then show ?case by (cases f) auto
qed

section \<open>Properties\<close>

text \<open>
  C10. An expression over digits, printed with the parentheses it needs, is converted by \<open>transform\<close> to prefix
  notation, and \<open>caculate\<close> computes its value from that, whenever the notation fits the buffer, the
  operands of every operator fit in a signed \<open>char\<close> (they are stored in one byte) and no divisor is 0; the
  operators associate to the left, and nothing undefined happens on the way.
\<close>
theorem prefix_notation_evaluates:
  assumes "operands_fit e" and "value_of e = Some v" and "length (prefix_of e) < 32"
    and "heap_room h (4 * length (infix_of 1 e) + 2)" and "heap_room g (2 * length (prefix_of e) + 1)"
  shows "transform_main (infix_of 1 e) h g = Some (Some (prefix_of e, v))"
proof -
  let ?buf = "replicate 32 (CHR 0x00)" and ?out = "prefix_of e"
  have t: "\<exists>h1. transform (infix_of 1 e) ?buf h = Some (Some 0, ?out @ drop (length ?out) ?buf, h1)"
    using transform_expr [OF assms(4), of ?buf] assms(3) by auto
  have out: "takeWhile (\<lambda>x. x \<noteq> CHR 0x00) (?out @ drop (length ?out) ?buf) = ?out"
    using prefix_no_nul [of e] assms(3) by (subst takeWhile_append2) auto
  show ?thesis
    using t out caculate_expr [OF assms(1,2,5)] by (auto simp: transform_main_def)
qed

lemma prefix_notation_evaluates_witness:
  "transform_main ''3*(2+1)-5+4'' \<lparr>nodes = \<lambda>_. None, blocks = \<lambda>_. None, brk = 1, lim = 1000\<rparr>
     \<lparr>nodes = \<lambda>_. None, blocks = \<lambda>_. None, brk = 1, lim = 1000\<rparr> = Some (Some (''+-*3+2154'', 8))"
proof -
  let ?e = "Binary Plus (Binary Minus (Binary Times (Digit 3) (Binary Plus (Digit 2) (Digit 1))) (Digit 5)) (Digit 4)"
  have "infix_of 1 ?e = ''3*(2+1)-5+4''" "prefix_of ?e = ''+-*3+2154''" "operands_fit ?e" "value_of ?e = Some 8"
    by code_simp+
  then show ?thesis
    using prefix_notation_evaluates [of ?e 8] by (simp add: heap_room_def)
qed

end
