(* ===== verification/AnyTimer.thy ===== *)
theory AnyTimer
  imports Prelude
begin

text \<open>
  The timer modules \<open>3.ybx/3.apue/0.homework/4.anytimer\<close>, driven by \<open>SIGALRM\<close> once a second, and
  \<open>5.anytimer_mt\<close>, driven by a thread.  The calls of the job functions are recorded, each with the number of
  the job; a job function does not use the module itself.  Signals and rounds of the thread come
  between the steps of the callers: \<open>at_waitjob\<close> has the number of alarms that still arrive as an argument and is
  \<open>Blocked\<close> when they are used up.  Following a null pointer or indexing outside \<open>job\<close> is undefined (\<open>None\<close>).
\<close>

section \<open>State\<close>

definition JOB_MAX :: nat where "JOB_MAX = 1024"

abbreviation STATE_RUNNING :: int where "STATE_RUNNING \<equiv> 1"
abbreviation STATE_CANCEL :: int where "STATE_CANCEL \<equiv> 2"
abbreviation STATE_OVER :: int where "STATE_OVER \<equiv> 3"
abbreviation STATE_PAUSE :: int where "STATE_PAUSE \<equiv> 4"
abbreviation REPEAT :: int where "REPEAT \<equiv> 1"
abbreviation NO_REPEAT :: int where "NO_REPEAT \<equiv> 0"
abbreviation EINVAL :: int where "EINVAL \<equiv> 22"
abbreviation ENOMEM :: int where "ENOMEM \<equiv> 12"
abbreviation ENOSPC :: int where "ENOSPC \<equiv> 28"
abbreviation ECANCELED :: int where "ECANCELED \<equiv> 125"
abbreviation EBUSY :: int where "EBUSY \<equiv> 16"
abbreviation SI_KERNEL :: int where "SI_KERNEL \<equiv> 128"

text \<open>\<open>jobp\<close> stands for the job function together with its argument.\<close>

record 'a at_job_st =
  job_state :: int
  sec :: int
  time_remain :: int
  repeat :: int
  jobp :: 'a

record 'a at_module =
  inited :: bool
  jobs :: "'a at_job_st option list"
  called :: "(nat \<times> 'a) list"

definition job_at :: "'a at_module \<Rightarrow> int \<Rightarrow> 'a at_job_st option" where
  "job_at s i = (if 0 \<le> i \<and> nat i < JOB_MAX then jobs s ! nat i else None)"

definition set_job :: "'a at_module \<Rightarrow> int \<Rightarrow> 'a at_job_st option \<Rightarrow> 'a at_module" where
  "set_job s i j = s\<lparr>jobs := (jobs s)[nat i := j]\<rparr>"

section \<open>The module driven by signals\<close>

definition alrm_job :: "nat \<Rightarrow> 'a at_job_st \<Rightarrow> ('a at_job_st \<times> (nat \<times> 'a) list) option" where
  "alrm_job i j =
     (if job_state j = STATE_RUNNING then do {
        t \<leftarrow> chk (time_remain j - 1);
        let j1 = j\<lparr>time_remain := t\<rparr>;
        Some (if t = 0 then
            (if repeat j = REPEAT then j1\<lparr>time_remain := sec j\<rparr> else j1\<lparr>job_state := STATE_OVER\<rparr>, [(i, jobp j)])
          else (j1, [])) }
      else Some (j, []))"

fun alrm_jobs :: "nat \<Rightarrow> 'a at_job_st option list \<Rightarrow> ('a at_job_st option list \<times> (nat \<times> 'a) list) option" where
  "alrm_jobs i [] = Some ([], [])"
| "alrm_jobs i (None # js) = do { (js1, c) \<leftarrow> alrm_jobs (Suc i) js; Some (None # js1, c) }"
| "alrm_jobs i (Some j # js) = do {
     (j1, c) \<leftarrow> alrm_job i j;
     (js1, d) \<leftarrow> alrm_jobs (Suc i) js;
     Some (Some j1 # js1, c @ d) }"

definition alrm_action :: "int \<Rightarrow> 'a at_module \<Rightarrow> 'a at_module option" where
  "alrm_action code s =
     (if code \<noteq> SI_KERNEL then Some s
      else do { (js, c) \<leftarrow> alrm_jobs 0 (jobs s); Some (s\<lparr>jobs := js, called := called s @ c\<rparr>) })"

definition module_unload :: "'a at_module \<Rightarrow> 'a at_module" where
  "module_unload s = s\<lparr>jobs := replicate JOB_MAX None\<rparr>"

definition get_free_pos :: "'a at_module \<Rightarrow> int" where
  "get_free_pos s = (case find (\<lambda>i. jobs s ! i = None) [0..<JOB_MAX] of Some i \<Rightarrow> int i | None \<Rightarrow> -1)"

text \<open>\<open>os\<close> says that \<open>sigaction\<close> and \<open>setitimer\<close> succeed in \<open>module_load\<close>, which otherwise exits
  (\<open>None\<close> as the return code), and \<open>ok\<close> that \<open>malloc\<close> succeeds.\<close>

definition at_addjob :: "bool \<Rightarrow> bool \<Rightarrow> int \<Rightarrow> 'a \<Rightarrow> int \<Rightarrow> 'a at_module \<Rightarrow> int option \<times> 'a at_module" where
  "at_addjob os ok n f is_repeat s =
     (if \<not> inited s \<and> \<not> os then (None, s)
      else let s1 = s\<lparr>inited := True\<rparr>; pos = get_free_pos s1 in
        if pos < 0 then (Some (- ENOSPC), s1)
        else if \<not> ok then (Some (- ENOMEM), s1)
        else (Some pos, set_job s1 pos (Some \<lparr>job_state = STATE_RUNNING, sec = n, time_remain = n, repeat = is_repeat, jobp = f\<rparr>)))"

definition at_canceljob :: "int \<Rightarrow> 'a at_module \<Rightarrow> int \<times> 'a at_module" where
  "at_canceljob i s = (case job_at s i of
     None \<Rightarrow> (- EINVAL, s)
   | Some j \<Rightarrow>
       if job_state j = STATE_RUNNING then (- ECANCELED, s)
       else if job_state j = STATE_OVER then (- EBUSY, s)
       else
         let j1 = (if repeat j = REPEAT then j\<lparr>repeat := NO_REPEAT\<rparr> else j) in
         (0, set_job s i (Some (j1\<lparr>job_state := STATE_CANCEL\<rparr>))))"

text \<open>\<open>change_to_norepeat\<close> has a return code only in the error case.\<close>

definition change_to_norepeat :: "int \<Rightarrow> 'a at_module \<Rightarrow> int option \<times> 'a at_module" where
  "change_to_norepeat i s = (case job_at s i of
     None \<Rightarrow> (Some (- EINVAL), s)
   | Some j \<Rightarrow> (None, if repeat j = REPEAT then set_job s i (Some (j\<lparr>repeat := NO_REPEAT\<rparr>)) else s))"

datatype 'b waiting = Blocked | Returned 'b

fun wait_loop :: "nat \<Rightarrow> int \<Rightarrow> 'a at_module \<Rightarrow> 'a at_module waiting option" where
  "wait_loop alarms i s = do {
     j \<leftarrow> job_at s i;
     if job_state j \<noteq> STATE_RUNNING then Some (Returned s)
     else case alarms of
       0 \<Rightarrow> Some Blocked
     | Suc n \<Rightarrow> do { s1 \<leftarrow> alrm_action SI_KERNEL s; wait_loop n i s1 } }"

declare wait_loop.simps [simp del]

definition at_waitjob :: "nat \<Rightarrow> int \<Rightarrow> 'a at_module \<Rightarrow> (int \<times> 'a at_module) waiting option" where
  "at_waitjob alarms i s = (case job_at s i of
     None \<Rightarrow> Some (Returned (- EINVAL, s))
   | Some j \<Rightarrow>
       if repeat j = REPEAT then Some (Returned (- EBUSY, s))
       else do {
         w \<leftarrow> wait_loop alarms i s;
         case w of
           Blocked \<Rightarrow> Some Blocked
         | Returned s1 \<Rightarrow> do {
             j1 \<leftarrow> job_at s1 i;
             Some (Returned (0,
               if job_state j1 = STATE_CANCEL \<or> job_state j1 = STATE_OVER then set_job s1 i None else s1)) } })"

definition at_stopjob :: "int \<Rightarrow> 'a at_module \<Rightarrow> (int \<times> 'a at_module) option" where
  "at_stopjob i s = do {
     j \<leftarrow> job_at s i;
     Some (if job_state j \<noteq> STATE_RUNNING then (-1, s)
           else (0, set_job s i (Some (j\<lparr>job_state := STATE_PAUSE\<rparr>)))) }"

definition at_resumejob :: "int \<Rightarrow> 'a at_module \<Rightarrow> (int \<times> 'a at_module) option" where
  "at_resumejob i s = do {
     j \<leftarrow> job_at s i;
     Some (if job_state j \<noteq> STATE_PAUSE then (-1, s)
           else (0, set_job s i (Some (j\<lparr>job_state := STATE_RUNNING\<rparr>)))) }"

section \<open>The module driven by a thread\<close>

text \<open>A round of \<open>init_action\<close>: the numbers of the jobs whose condition is broadcast come with it.\<close>

definition round_job :: "nat \<Rightarrow> 'a at_job_st \<Rightarrow> ('a at_job_st \<times> (nat \<times> 'a) list \<times> nat list) option" where
  "round_job i j =
     (if job_state j = STATE_RUNNING then do {
        t \<leftarrow> chk (time_remain j - 1);
        let j1 = j\<lparr>time_remain := t\<rparr>;
        Some (if t = 0 then
            (if repeat j = REPEAT then (j1\<lparr>time_remain := sec j\<rparr>, [(i, jobp j)], [])
             else (j1\<lparr>job_state := STATE_OVER\<rparr>, [(i, jobp j)], [i]))
          else (j1, [], [])) }
      else Some (j, [], []))"

fun round_jobs :: "nat \<Rightarrow> 'a at_job_st option list \<Rightarrow> ('a at_job_st option list \<times> (nat \<times> 'a) list \<times> nat list) option" where
  "round_jobs i [] = Some ([], [], [])"
| "round_jobs i (None # js) = do { (js1, c, b) \<leftarrow> round_jobs (Suc i) js; Some (None # js1, c, b) }"
| "round_jobs i (Some j # js) = do {
     (j1, c, b) \<leftarrow> round_job i j;
     (js1, d, e) \<leftarrow> round_jobs (Suc i) js;
     Some (Some j1 # js1, c @ d, b @ e) }"

definition init_action_round :: "'a at_module \<Rightarrow> ('a at_module \<times> nat list) option" where
  "init_action_round s = do {
     (js, c, b) \<leftarrow> round_jobs 0 (jobs s);
     Some (s\<lparr>jobs := js, called := called s @ c\<rparr>, b) }"

definition at_addjob_mt :: "bool \<Rightarrow> int \<Rightarrow> 'a \<Rightarrow> int \<Rightarrow> 'a at_module \<Rightarrow> int \<times> 'a at_module" where
  "at_addjob_mt ok n f is_repeat s =
     (let s1 = s\<lparr>inited := True\<rparr> in
      if \<not> ok then (- ENOMEM, s1)
      else let pos = get_free_pos s1 in
        if pos < 0 then (- ENOSPC, s1)
        else (pos, set_job s1 pos (Some \<lparr>job_state = STATE_RUNNING, sec = n, time_remain = n, repeat = is_repeat, jobp = f\<rparr>)))"

definition at_canceljob_mt :: "int \<Rightarrow> 'a at_module \<Rightarrow> int \<times> 'a at_module" where
  "at_canceljob_mt i s = (case job_at s i of
     None \<Rightarrow> (- EINVAL, s)
   | Some j \<Rightarrow>
       if job_state j = STATE_OVER then (- EBUSY, s)
       else (0, set_job s i (Some (j\<lparr>job_state := STATE_CANCEL, repeat := NO_REPEAT\<rparr>))))"

text \<open>What other threads do while a caller waits.\<close>

datatype env = Round | Cancel int | Stop int | Resume int

definition env_step :: "env \<Rightarrow> 'a at_module \<Rightarrow> ('a at_module \<times> nat list) option" where
  "env_step e s = (case e of
     Round \<Rightarrow> init_action_round s
   | Cancel i \<Rightarrow> Some (snd (at_canceljob_mt i s), [])
   | Stop i \<Rightarrow> map_option (\<lambda>(_, s1). (s1, [])) (at_stopjob i s)
   | Resume i \<Rightarrow> map_option (\<lambda>(_, s1). (s1, [])) (at_resumejob i s))"

text \<open>A caller asleep in \<open>pthread_cond_wait\<close> looks at the state again only after a broadcast of its job.\<close>

fun wait_loop_mt :: "env list \<Rightarrow> bool \<Rightarrow> int \<Rightarrow> 'a at_module \<Rightarrow> 'a at_module waiting option" where
  "wait_loop_mt es asleep i s = do {
     j \<leftarrow> job_at s i;
     if \<not> asleep \<and> job_state j \<noteq> STATE_RUNNING then Some (Returned s)
     else case es of
       [] \<Rightarrow> Some Blocked
     | e # rest \<Rightarrow> do { (s1, b) \<leftarrow> env_step e s; wait_loop_mt rest (nat i \<notin> set b) i s1 } }"

declare wait_loop_mt.simps [simp del]

definition at_waitjob_mt :: "env list \<Rightarrow> int \<Rightarrow> 'a at_module \<Rightarrow> (int \<times> 'a at_module) waiting option" where
  "at_waitjob_mt es i s = (case job_at s i of
     None \<Rightarrow> Some (Returned (- EINVAL, s))
   | Some j \<Rightarrow>
       if repeat j = REPEAT then Some (Returned (- EBUSY, s))
       else do {
         w \<leftarrow> wait_loop_mt es False i s;
         case w of
           Blocked \<Rightarrow> Some Blocked
         | Returned s1 \<Rightarrow> do {
             j1 \<leftarrow> job_at s1 i;
             Some (Returned (0,
               if job_state j1 = STATE_CANCEL \<or> job_state j1 = STATE_OVER then set_job s1 i None else s1)) } })"

text \<open>\<open>module_unload\<close> of this version destroys the mutex of every place, used or not.\<close>

definition module_unload_mt :: "'a at_module \<Rightarrow> 'a at_module option" where
  "module_unload_mt s = (if None \<in> set (jobs s) then None else Some (s\<lparr>jobs := replicate JOB_MAX None\<rparr>))"

section \<open>One alarm\<close>

definition running :: "'a at_job_st \<Rightarrow> bool" where
  "running j \<longleftrightarrow> job_state j = STATE_RUNNING"

definition fires :: "'a at_job_st \<Rightarrow> bool" where
  "fires j \<longleftrightarrow> running j \<and> time_remain j = 1"

definition after :: "'a at_job_st \<Rightarrow> 'a at_job_st" where
  "after j = (if \<not> running j then j
     else if time_remain j \<noteq> 1 then j\<lparr>time_remain := time_remain j - 1\<rparr>
     else if repeat j = REPEAT then j\<lparr>time_remain := sec j\<rparr>
     else j\<lparr>time_remain := 0, job_state := STATE_OVER\<rparr>)"

text \<open>A job whose period and remaining time are at least one second.\<close>

definition ok_job :: "'a at_job_st \<Rightarrow> bool" where
  "ok_job j \<longleftrightarrow> 1 \<le> sec j \<and> sec j \<le> 2147483647 \<and> (running j \<longrightarrow> 1 \<le> time_remain j \<and> time_remain j \<le> sec j)"

lemma alrm_job_after: "ok_job j \<Longrightarrow> alrm_job i j = Some (after j, if fires j then [(i, jobp j)] else [])"
  by (auto simp: alrm_job_def after_def fires_def ok_job_def running_def chk_def int_range_def Let_def)

lemma ok_job_after: "ok_job j \<Longrightarrow> ok_job (after j)"
  by (auto simp: after_def ok_job_def running_def)

definition ok_jobs :: "'a at_job_st option list \<Rightarrow> bool" where
  "ok_jobs js \<longleftrightarrow> (\<forall>j. Some j \<in> set js \<longrightarrow> ok_job j)"

definition fired :: "nat \<Rightarrow> 'a at_job_st option \<Rightarrow> (nat \<times> 'a) list" where
  "fired i x = (case x of Some j \<Rightarrow> if fires j then [(i, jobp j)] else [] | None \<Rightarrow> [])"

lemma alrm_jobs_after:
  "ok_jobs js \<Longrightarrow> alrm_jobs i js = Some (map (map_option after) js, concat (map (\<lambda>(k, x). fired k x) (enumerate i js)))"
proof (induction i js rule: alrm_jobs.induct)
  case (3 i j js)
  have "ok_job j" "ok_jobs js" using 3(2) by (auto simp: ok_jobs_def)
  then show ?case using 3(1) by (auto simp: alrm_job_after fired_def)
qed (auto simp: ok_jobs_def fired_def)

lemma ok_jobs_after: "ok_jobs js \<Longrightarrow> ok_jobs (map (map_option after) js)"
  unfolding ok_jobs_def
proof (intro allI impI)
  fix j assume js: "\<forall>j. Some j \<in> set js \<longrightarrow> ok_job j" and "Some j \<in> set (map (map_option after) js)"
  then obtain x where x: "x \<in> set js" "Some j = map_option after x" by auto
  obtain y where "x = Some y" "j = after y" using x(2) by (cases x) auto
  then show "ok_job j" using js ok_job_after x(1) by blast
qed

definition calls_of :: "nat \<Rightarrow> (nat \<times> 'a) list \<Rightarrow> 'a list" where
  "calls_of k c = map snd (filter (\<lambda>(i, _). i = k) c)"

lemma calls_of_append [simp]: "calls_of k (c @ d) = calls_of k c @ calls_of k d"
  by (simp add: calls_of_def)

lemma calls_of_fired: "calls_of k (fired i x) = (if i = k then map snd (fired i x) else [])"
  by (auto simp: calls_of_def fired_def split: option.splits)

lemma calls_of_round:
  "calls_of k (concat (map (\<lambda>(k, x). fired k x) (enumerate i js))) =
   (if i \<le> k \<and> k < i + length js then map snd (fired k (js ! (k - i))) else [])"
proof (induction js arbitrary: i)
  case (Cons x js)
  have "k = i \<or> k < i \<or> Suc i \<le> k" by linarith
  then show ?case
    using Cons.IH [of "Suc i"] by (auto simp: calls_of_fired Suc_diff_Suc nth_Cons')
qed (auto simp: calls_of_def)

section \<open>Many alarms\<close>

definition at_ok :: "'a at_module \<Rightarrow> bool" where
  "at_ok s \<longleftrightarrow> length (jobs s) = JOB_MAX \<and> ok_jobs (jobs s)"

fun alarms :: "nat \<Rightarrow> 'a at_module \<Rightarrow> 'a at_module option" where
  "alarms 0 s = Some s"
| "alarms (Suc n) s = do { s1 \<leftarrow> alrm_action SI_KERNEL s; alarms n s1 }"

text \<open>The number of calls of one job in the next \<open>n\<close> alarms.\<close>

fun firings :: "nat \<Rightarrow> 'a at_job_st \<Rightarrow> nat" where
  "firings 0 j = 0"
| "firings (Suc n) j = (if fires j then 1 else 0) + firings n (after j)"

lemma jobp_after [simp]: "jobp (after j) = jobp j"
  by (simp add: after_def)

lemma jobp_funpow [simp]: "jobp ((after ^^ n) j) = jobp j"
  by (induction n) auto

lemma firings_resting: "\<not> running j \<Longrightarrow> firings n j = 0 \<and> (after ^^ n) j = j"
  by (induction n) (auto simp: fires_def after_def)

lemma firings_once:
  "ok_job j \<Longrightarrow> running j \<Longrightarrow> repeat j \<noteq> REPEAT \<Longrightarrow> firings n j = (if n < nat (time_remain j) then 0 else 1)"
proof (induction n arbitrary: j)
  case 0
  then show ?case by (simp add: ok_job_def)
next
  case (Suc n)
  show ?case
  proof (cases "time_remain j = 1")
    case True
    then have "\<not> running (after j)" using Suc.prems by (simp add: after_def running_def)
    then have "firings n (after j) = 0" using firings_resting by blast
    then show ?thesis using True Suc.prems by (simp add: fires_def)
  next
    case False
    then have a: "after j = j\<lparr>time_remain := time_remain j - 1\<rparr>" using Suc.prems by (simp add: after_def)
    have "firings n (after j) = (if n < nat (time_remain (after j)) then 0 else 1)"
      using Suc.prems a by (intro Suc.IH ok_job_after) (auto simp: running_def)
    then show ?thesis using a False Suc.prems by (auto simp: fires_def ok_job_def)
  qed
qed

lemma firings_repeat:
  "ok_job j \<Longrightarrow> running j \<Longrightarrow> repeat j = REPEAT \<Longrightarrow> firings n j = (n + nat (sec j) - nat (time_remain j)) div nat (sec j)"
proof (induction n arbitrary: j)
  case 0
  then have "nat (sec j) - nat (time_remain j) < nat (sec j)" by (auto simp: ok_job_def)
  then show ?case by simp
next
  case (Suc n)
  have p: "0 < nat (sec j)" "nat (time_remain j) \<le> nat (sec j)" "0 < nat (time_remain j)"
    using Suc.prems by (auto simp: ok_job_def)
  have IH: "firings n (after j) = (n + nat (sec (after j)) - nat (time_remain (after j))) div nat (sec (after j))"
    using Suc.prems by (intro Suc.IH ok_job_after) (auto simp: after_def running_def)
  show ?case
  proof (cases "time_remain j = 1")
    case True
    then have "Suc n + nat (sec j) - nat (time_remain j) = n + nat (sec j)" using p by simp
    then show ?thesis using True IH Suc.prems p(1) div_add_self2 [of "nat (sec j)" n] by (simp add: fires_def after_def)
  next
    case False
    then have "n + nat (sec j) - nat (time_remain j - 1) = Suc n + nat (sec j) - nat (time_remain j)" using p by simp
    then show ?thesis using False IH Suc.prems by (simp add: fires_def after_def)
  qed
qed

lemma alrm_action_ok:
  assumes "at_ok s"
  shows "\<exists>s1. alrm_action SI_KERNEL s = Some s1 \<and> at_ok s1 \<and> jobs s1 = map (map_option after) (jobs s) \<and>
    (\<forall>k < JOB_MAX. calls_of k (called s1) = calls_of k (called s) @ map snd (fired k (jobs s ! k)))"
  using assms alrm_jobs_after [of "jobs s" 0] ok_jobs_after calls_of_round [of _ 0 "jobs s"]
  by (auto simp: alrm_action_def at_ok_def)

lemma alarms_ok:
  "at_ok s \<Longrightarrow> \<exists>s1. alarms n s = Some s1 \<and> at_ok s1 \<and> jobs s1 = map (map_option (after ^^ n)) (jobs s) \<and>
    (\<forall>k < JOB_MAX. \<forall>j. jobs s ! k = Some j \<longrightarrow> calls_of k (called s1) = calls_of k (called s) @ replicate (firings n j) (jobp j))"
proof (induction n arbitrary: s)
  case 0
  then show ?case by (simp add: option.map_ident)
next
  case (Suc n)
  obtain s1 where s1: "alrm_action SI_KERNEL s = Some s1" "at_ok s1" "jobs s1 = map (map_option after) (jobs s)"
      "\<forall>k < JOB_MAX. calls_of k (called s1) = calls_of k (called s) @ map snd (fired k (jobs s ! k))"
    using alrm_action_ok [OF Suc.prems] by blast
  obtain s2 where s2: "alarms n s1 = Some s2" "at_ok s2" "jobs s2 = map (map_option (after ^^ n)) (jobs s1)"
      "\<forall>k < JOB_MAX. \<forall>j. jobs s1 ! k = Some j \<longrightarrow> calls_of k (called s2) = calls_of k (called s1) @ replicate (firings n j) (jobp j)"
    using Suc.IH [OF s1(2)] by blast
  have "jobs s2 = map (map_option (after ^^ Suc n)) (jobs s)"
    using s2(3) s1(3) by (simp add: option.map_comp funpow_Suc_right del: funpow.simps)
  moreover have "calls_of k (called s2) = calls_of k (called s) @ replicate (firings (Suc n) j) (jobp j)"
    if "k < JOB_MAX" "jobs s ! k = Some j" for k j
  proof -
    have "jobs s1 ! k = Some (after j)" using s1(3) that Suc.prems by (simp add: at_ok_def)
    then have "calls_of k (called s2) = calls_of k (called s1) @ replicate (firings n (after j)) (jobp j)"
      using s2(4) that by simp
    then show ?thesis using s1(4) that by (simp add: fired_def)
  qed
  ultimately show ?case
    using s1(1) s2(1,2) by (intro exI [of _ s2]) (simp del: funpow.simps firings.simps)
qed

lemma after_time:
  "ok_job j \<Longrightarrow> running j \<Longrightarrow> repeat j \<noteq> REPEAT \<Longrightarrow> nat (time_remain j) = Suc n \<Longrightarrow>
   job_state ((after ^^ Suc n) j) = STATE_OVER"
proof (induction n arbitrary: j)
  case 0
  then have "time_remain j = 1" by simp
  then show ?case using 0 by (simp add: after_def)
next
  case (Suc n)
  then have t: "after j = j\<lparr>time_remain := time_remain j - 1\<rparr>" by (simp add: after_def)
  have "job_state ((after ^^ Suc n) (after j)) = STATE_OVER"
    using Suc.prems ok_job_after [of j] unfolding t by (intro Suc.IH) (simp_all add: running_def)
  then show ?case by (subst funpow_Suc_right) simp
qed

section \<open>Waiting\<close>

lemma job_at_nth: "k < JOB_MAX \<Longrightarrow> job_at s (int k) = jobs s ! k"
  by (simp add: job_at_def)

lemma wait_loop_alarms:
  "at_ok s \<Longrightarrow> k < JOB_MAX \<Longrightarrow> jobs s ! k = Some j \<Longrightarrow> running j \<Longrightarrow> repeat j \<noteq> REPEAT \<Longrightarrow>
   wait_loop n (int k) s =
     (if n < nat (time_remain j) then Some Blocked else map_option Returned (alarms (nat (time_remain j)) s))"
proof (induction n arbitrary: s j)
  case 0
  then have "ok_job j" by (metis at_ok_def nth_mem ok_jobs_def)
  then have "0 < nat (time_remain j)" using 0 by (simp add: ok_job_def)
  then show ?case using 0 by (subst wait_loop.simps) (simp add: job_at_nth running_def)
next
  case (Suc n)
  obtain s1 where s1: "alrm_action SI_KERNEL s = Some s1" "at_ok s1" "jobs s1 = map (map_option after) (jobs s)"
    using alrm_action_ok [OF Suc.prems(1)] by blast
  have j1: "jobs s1 ! k = Some (after j)" using s1(3) Suc.prems(1-3) by (simp add: at_ok_def)
  have ok: "ok_job j" using Suc.prems(1-3) by (metis at_ok_def nth_mem ok_jobs_def)
  have w: "wait_loop (Suc n) (int k) s = wait_loop n (int k) s1"
    using Suc.prems s1(1) by (subst wait_loop.simps) (simp add: job_at_nth running_def)
  have al: "alarms (Suc m) s = alarms m s1" for m using s1(1) by simp
  show ?case
  proof (cases "time_remain j = 1")
    case True
    then have "job_state (after j) \<noteq> STATE_RUNNING" using Suc.prems by (simp add: after_def)
    then have "wait_loop n (int k) s1 = Some (Returned s1)"
      using j1 Suc.prems(2) by (subst wait_loop.simps) (simp add: job_at_nth)
    then show ?thesis using w True al [of 0] by simp
  next
    case False
    then have a: "after j = j\<lparr>time_remain := time_remain j - 1\<rparr>" using Suc.prems by (simp add: after_def)
    have "1 \<le> time_remain j" using ok Suc.prems by (simp add: ok_job_def)
    then have t: "nat (time_remain j) = Suc (nat (time_remain (after j)))" unfolding a by simp
    show ?thesis unfolding w t al
      using Suc.IH [OF s1(2) Suc.prems(2) j1] a Suc.prems by (simp add: running_def)
  qed
qed

section \<open>A cancelled job of the threaded module\<close>

lemma round_job_resting: "job_state j \<noteq> STATE_RUNNING \<Longrightarrow> round_job i j = Some (j, [], [])"
  by (simp add: round_job_def)

lemma round_job_broadcast: "round_job i j = Some (j1, c, b) \<Longrightarrow> set b \<subseteq> {i}"
  by (auto simp: round_job_def Let_def chk_Some_iff bind_eq_Some_conv split: if_splits)

lemma round_jobs_resting:
  "round_jobs i js = Some (js1, c, b) \<Longrightarrow> length js1 = length js \<and> set b \<subseteq> {i..} \<and>
    (\<forall>k < length js. \<forall>j. js ! k = Some j \<longrightarrow> job_state j \<noteq> STATE_RUNNING \<longrightarrow> js1 ! k = Some j \<and> i + k \<notin> set b)"
proof (induction i js arbitrary: js1 c b rule: round_jobs.induct)
  case (2 i js)
  then obtain js2 where r: "round_jobs (Suc i) js = Some (js2, c, b)" "js1 = None # js2"
    by (auto simp: bind_eq_Some_conv)
  show ?case using 2(1) [OF r(1)] r(2) by (fastforce simp: nth_Cons' less_Suc_eq_0_disj)
next
  case (3 i j js)
  then obtain j2 c2 b2 js2 d e where r: "round_job i j = Some (j2, c2, b2)" "round_jobs (Suc i) js = Some (js2, d, e)"
      "js1 = Some j2 # js2" "b = b2 @ e"
    by (auto simp: bind_eq_Some_conv)
  note IH = 3(1) [OF r(1) refl refl r(2)]
  show ?case using IH round_job_broadcast [OF r(1)] round_job_resting [of j i] r
    by (fastforce simp: nth_Cons' less_Suc_eq_0_disj)
qed simp

lemma env_step_cancelled:
  assumes "k < JOB_MAX" "length (jobs s) = JOB_MAX" "jobs s ! k = Some j" "job_state j = STATE_CANCEL" "env_step e s = Some (s1, b)"
  shows "length (jobs s1) = JOB_MAX \<and> (\<exists>j1. jobs s1 ! k = Some j1 \<and> job_state j1 = STATE_CANCEL) \<and> k \<notin> set b"
proof (cases e)
  case Round
  then obtain js c where r: "round_jobs 0 (jobs s) = Some (js, c, b)" "jobs s1 = js"
    using assms(5) by (auto simp: env_step_def init_action_round_def bind_eq_Some_conv)
  show ?thesis using round_jobs_resting [OF r(1)] r(2) assms(1-4) by auto
qed (use assms in \<open>auto simp: env_step_def at_canceljob_mt_def at_stopjob_def at_resumejob_def job_at_def set_job_def
       nth_list_update bind_eq_Some_conv split: option.splits if_splits\<close>)

lemma wait_loop_mt_cancelled:
  "k < JOB_MAX \<Longrightarrow> length (jobs s) = JOB_MAX \<Longrightarrow> jobs s ! k = Some j \<Longrightarrow> job_state j = STATE_CANCEL \<Longrightarrow>
   wait_loop_mt es True (int k) s \<in> {None, Some Blocked}"
proof (induction es arbitrary: s j)
  case Nil
  then show ?case by (subst wait_loop_mt.simps) (simp add: job_at_nth)
next
  case (Cons e es)
  show ?case
  proof (cases "env_step e s")
    case None
    then show ?thesis using Cons.prems by (subst wait_loop_mt.simps) (simp add: job_at_nth)
  next
    case (Some p)
    then obtain s1 b where p: "env_step e s = Some (s1, b)" by (cases p) auto
    then obtain j1 where j1: "length (jobs s1) = JOB_MAX" "jobs s1 ! k = Some j1" "job_state j1 = STATE_CANCEL" "k \<notin> set b"
      using env_step_cancelled [OF Cons.prems p] by blast
    have "wait_loop_mt (e # es) True (int k) s = wait_loop_mt es True (int k) s1"
      using Cons.prems p j1(4) by (subst wait_loop_mt.simps) (simp add: job_at_nth)
    then show ?thesis using Cons.IH [OF Cons.prems(1) j1(1-3)] by simp
  qed
qed

lemma round_job_after: "ok_job j \<Longrightarrow> \<exists>c b. round_job i j = Some (after j, c, b)"
  by (auto simp: round_job_def after_def ok_job_def running_def chk_def int_range_def Let_def)

lemma round_jobs_after: "ok_jobs js \<Longrightarrow> \<exists>c b. round_jobs i js = Some (map (map_option after) js, c, b)"
proof (induction i js rule: round_jobs.induct)
  case (3 i j js)
  have ok: "ok_job j" "ok_jobs js" using 3(2) by (auto simp: ok_jobs_def)
  obtain c b where r: "round_job i j = Some (after j, c, b)" using round_job_after [OF ok(1)] by blast
  show ?case using 3(1) [OF r refl refl ok(2)] r by auto
qed (auto simp: ok_jobs_def)

lemma ok_jobs_update: "ok_jobs js \<Longrightarrow> ok_job j \<Longrightarrow> ok_jobs (js[i := Some j])"
  unfolding ok_jobs_def by (metis option.inject set_update_subset_insert insertE subsetD)

lemma env_step_total:
  assumes "at_ok s" "e \<in> insert Round (range Cancel)"
  shows "\<exists>s1 b. env_step e s = Some (s1, b) \<and> at_ok s1"
proof (cases e)
  case Round
  obtain c b where "round_jobs 0 (jobs s) = Some (map (map_option after) (jobs s), c, b)"
    using round_jobs_after [of "jobs s" 0] assms(1) unfolding at_ok_def by blast
  then show ?thesis using Round assms(1) ok_jobs_after by (auto simp: env_step_def init_action_round_def at_ok_def)
next
  case (Cancel i)
  have "ok_job (j\<lparr>job_state := STATE_CANCEL, repeat := NO_REPEAT\<rparr>)" if "job_at s i = Some j" for j
    using that assms(1) by (auto simp: job_at_def at_ok_def ok_jobs_def ok_job_def running_def split: if_splits)
      (metis nth_mem)+
  then show ?thesis using Cancel assms(1) ok_jobs_update
    by (auto simp: env_step_def at_canceljob_mt_def set_job_def at_ok_def split: option.splits)
qed (use assms in auto)

lemma wait_loop_mt_blocked:
  "at_ok s \<Longrightarrow> k < JOB_MAX \<Longrightarrow> jobs s ! k = Some j \<Longrightarrow> job_state j = STATE_CANCEL \<Longrightarrow>
   set es \<subseteq> insert Round (range Cancel) \<Longrightarrow> wait_loop_mt es True (int k) s = Some Blocked"
proof (induction es arbitrary: s j)
  case Nil
  then show ?case by (subst wait_loop_mt.simps) (simp add: job_at_nth)
next
  case (Cons e es)
  have len: "length (jobs s) = JOB_MAX" using Cons.prems(1) by (simp add: at_ok_def)
  obtain s1 b where p: "env_step e s = Some (s1, b)" "at_ok s1" using env_step_total [OF Cons.prems(1), of e] Cons.prems(5) by auto
  obtain j1 where j1: "jobs s1 ! k = Some j1" "job_state j1 = STATE_CANCEL" "k \<notin> set b"
    using env_step_cancelled [OF Cons.prems(2) len Cons.prems(3,4) p(1)] by blast
  have "wait_loop_mt (e # es) True (int k) s = wait_loop_mt es True (int k) s1"
    using Cons.prems p j1(3) by (subst wait_loop_mt.simps) (simp add: job_at_nth)
  then show ?case using Cons.IH [OF p(2) Cons.prems(2) j1(1,2)] Cons.prems(5) by simp
qed

lemma waitjob_mt_cancel_step:
  assumes "k < JOB_MAX" "jobs s ! k = Some j" "running j" "repeat j \<noteq> REPEAT"
    "wait_loop_mt es True (int k) (set_job s (int k) (Some (j\<lparr>job_state := STATE_CANCEL, repeat := NO_REPEAT\<rparr>))) = r"
    "r \<in> {None, Some Blocked}"
  shows "at_waitjob_mt (Cancel (int k) # es) (int k) s = map_option (\<lambda>_. Blocked) r"
  using assms by (subst at_waitjob_mt_def, subst wait_loop_mt.simps)
    (auto simp: job_at_nth running_def env_step_def at_canceljob_mt_def)

lemma waitjob_mt_cancelled:
  assumes "at_ok s" "k < JOB_MAX" "jobs s ! k = Some j" "running j" "repeat j \<noteq> REPEAT"
  shows "at_waitjob_mt (Cancel (int k) # es) (int k) s \<in> {None, Some Blocked}"
proof -
  let ?j = "j\<lparr>job_state := STATE_CANCEL, repeat := NO_REPEAT\<rparr>"
  have "wait_loop_mt es True (int k) (set_job s (int k) (Some ?j)) \<in> {None, Some Blocked}"
    using assms(1,2) by (intro wait_loop_mt_cancelled [where j = ?j]) (simp_all add: set_job_def at_ok_def)
  then show ?thesis using waitjob_mt_cancel_step [OF assms(2-5) refl] by auto
qed

lemma waitjob_mt_blocked:
  assumes "at_ok s" "k < JOB_MAX" "jobs s ! k = Some j" "running j" "repeat j \<noteq> REPEAT"
    "set es \<subseteq> insert Round (range Cancel)"
  shows "at_waitjob_mt (Cancel (int k) # es) (int k) s = Some Blocked"
proof -
  let ?j = "j\<lparr>job_state := STATE_CANCEL, repeat := NO_REPEAT\<rparr>"
  let ?s = "set_job s (int k) (Some ?j)"
  have len: "length (jobs s) = JOB_MAX" and js: "ok_jobs (jobs s)" using assms(1) by (simp_all add: at_ok_def)
  have "ok_job j" using js len assms(2,3) by (metis nth_mem ok_jobs_def)
  then have "ok_job ?j" by (simp add: ok_job_def running_def)
  then have "ok_jobs ((jobs s)[k := Some ?j])" by (rule ok_jobs_update [OF js])
  then have "at_ok ?s" using len by (simp add: at_ok_def set_job_def)
  then have "wait_loop_mt es True (int k) ?s = Some Blocked"
    using wait_loop_mt_blocked [of ?s k ?j es] assms(2,6) len by (simp add: set_job_def)
  then show ?thesis using waitjob_mt_cancel_step [OF assms(2-5)] by simp
qed

section \<open>Properties\<close>


definition sample_module :: "nat at_module" where
  "sample_module = \<lparr>inited = True, jobs =
     [Some \<lparr>job_state = 1, sec = 5, time_remain = 5, repeat = 0, jobp = 10\<rparr>,
      Some \<lparr>job_state = 1, sec = 2, time_remain = 2, repeat = 1, jobp = 20\<rparr>] @ replicate 1022 None, called = []\<rparr>"

lemma sample_module_ok: "at_ok sample_module"
  by (auto simp: at_ok_def sample_module_def JOB_MAX_def ok_jobs_def ok_job_def running_def)


text \<open>
  C32. The calls of every job in the next \<open>n\<close> seconds: all stay well-formed, a one-shot job is called once if
  its time falls within them, a periodic job is called at the end of its remaining time and then at the end
  of every period, and a job that is paused, cancelled or over is not called and does not change.
\<close>
theorem anytimer_calls:
  assumes "at_ok s" and "k < JOB_MAX" and "jobs s ! k = Some j"
  shows "\<exists>s1. alarms n s = Some s1 \<and> at_ok s1 \<and>
      calls_of k (called s1) = calls_of k (called s) @ replicate
        (if \<not> running j then 0
         else if repeat j \<noteq> REPEAT then (if n < nat (time_remain j) then 0 else 1)
         else (n + nat (sec j) - nat (time_remain j)) div nat (sec j)) (jobp j)
      \<and> (\<not> running j \<longrightarrow> jobs s1 ! k = Some j)"
proof -
  have ok: "ok_job j" using assms by (metis at_ok_def nth_mem ok_jobs_def)
  obtain s1 where s1: "alarms n s = Some s1" "at_ok s1" "jobs s1 = map (map_option (after ^^ n)) (jobs s)"
      "calls_of k (called s1) = calls_of k (called s) @ replicate (firings n j) (jobp j)"
    using alarms_ok [OF assms(1), of n] assms(2,3) by blast
  have "jobs s1 ! k = Some ((after ^^ n) j)" using s1(3) assms by (simp add: at_ok_def)
  moreover have "firings n j = (if \<not> running j then 0
         else if repeat j \<noteq> REPEAT then (if n < nat (time_remain j) then 0 else 1)
         else (n + nat (sec j) - nat (time_remain j)) div nat (sec j))"
    using firings_resting [of j n] firings_once [OF ok, of n] firings_repeat [OF ok, of n] by auto
  ultimately show ?thesis using s1 firings_resting [of j n] by auto
qed

lemma anytimer_calls_witness:
  "\<exists>s1. alarms 7 sample_module = Some s1 \<and> calls_of 1 (called s1) = replicate 3 20"
proof -
  let ?j = "\<lparr>job_state = 1, sec = 2, time_remain = 2, repeat = 1, jobp = 20 :: nat\<rparr>"
  have p: "1 < JOB_MAX" "jobs sample_module ! 1 = Some ?j" "running ?j" "called sample_module = []"
    by (simp_all add: sample_module_def JOB_MAX_def running_def)
  show ?thesis using anytimer_calls [OF sample_module_ok p(1,2), of 7] p(3,4) by (auto simp: calls_of_def)
qed

text \<open>
  Cancelling.  In the signal-driven module \<open>at_canceljob\<close> refuses exactly the running jobs that it is
  meant for, and a wait for a paused job returns 0 without freeing it.  In the threaded module
  \<open>at_canceljob\<close> accepts a running job but wakes nobody: a caller that already waits for it is never
  woken, whatever the other threads do.
\<close>
theorem cancelling_jobs:
  assumes "at_ok s" and "k < JOB_MAX" and "jobs s ! k = Some j"
  shows "(running j \<longrightarrow> at_canceljob (int k) s = (- ECANCELED, s))
    \<and> (job_state j = STATE_PAUSE \<and> repeat j \<noteq> REPEAT \<longrightarrow> at_waitjob n (int k) s = Some (Returned (0, s)))
    \<and> (running j \<and> repeat j \<noteq> REPEAT \<longrightarrow>
        at_waitjob_mt (Cancel (int k) # es) (int k) s \<in> {None, Some Blocked}
        \<and> (set es \<subseteq> insert Round (range Cancel) \<longrightarrow> at_waitjob_mt (Cancel (int k) # es) (int k) s = Some Blocked))"
proof (intro conjI impI; (elim conjE)?)
  show "running j \<Longrightarrow> at_canceljob (int k) s = (- ECANCELED, s)"
    using assms by (simp add: at_canceljob_def job_at_nth running_def)
  show "job_state j = STATE_PAUSE \<Longrightarrow> repeat j \<noteq> REPEAT \<Longrightarrow> at_waitjob n (int k) s = Some (Returned (0, s))"
    using assms by (simp add: at_waitjob_def job_at_nth wait_loop.simps)
  show "running j \<Longrightarrow> repeat j \<noteq> REPEAT \<Longrightarrow> at_waitjob_mt (Cancel (int k) # es) (int k) s \<in> {None, Some Blocked}"
    by (rule waitjob_mt_cancelled [OF assms])
  show "running j \<Longrightarrow> repeat j \<noteq> REPEAT \<Longrightarrow> set es \<subseteq> insert Round (range Cancel) \<Longrightarrow>
      at_waitjob_mt (Cancel (int k) # es) (int k) s = Some Blocked"
    by (rule waitjob_mt_blocked [OF assms])
qed

lemma cancelling_jobs_witness:
  "at_canceljob 0 sample_module = (- 125, sample_module)
   \<and> at_waitjob_mt [Cancel 0, Round, Cancel 1, Round] 0 sample_module = Some Blocked"
proof -
  let ?j = "\<lparr>job_state = 1, sec = 5, time_remain = 5, repeat = 0, jobp = 10 :: nat\<rparr>"
  have p: "0 < JOB_MAX" "jobs sample_module ! 0 = Some ?j" "running ?j" "repeat ?j \<noteq> REPEAT"
    by (simp_all add: sample_module_def JOB_MAX_def running_def)
  show ?thesis
    using cancelling_jobs [OF sample_module_ok p(1,2), of 0 "[Round, Cancel 1, Round]"] p(3,4) by auto
qed

end
