(* ===== verification/Relayer.thy ===== *)
theory Relayer
  imports Prelude
begin

text \<open>
  The relayer \<open>3.ybx/3.apue/9.advanced_io/1.nonblock/3.relayer_mt/relayer.c\<close>: every job holds two state
  machines that carry bytes between two descriptors.  What the system calls \<open>read\<close> and \<open>write\<close>
  return is an argument of each step; \<open>None\<close> is \<open>abort()\<close> or a null or wild pointer.
\<close>

section \<open>State\<close>

definition BUFSIZE :: nat where "BUFSIZE = 1024"
definition REL_JOBMAX :: nat where "REL_JOBMAX = 10000"

datatype fsm_state = STATE_R | STATE_W | STATE_Ex | STATE_T

text \<open>\<open>rel_addjob\<close> leaves the buffer, \<open>len\<close>, \<open>pos\<close> and \<open>errstr\<close> of a new machine as they are.\<close>

record rel_fsm_st =
  fsm_state :: fsm_state
  sfd :: int
  dfd :: int
  buf :: "nat list"
  len :: int
  pos :: int
  count :: int
  errstr :: string

record rel_job_st =
  rel_state :: int
  fd1 :: int
  fd2 :: int
  fd1_save :: int
  fd2_save :: int
  fsm12 :: rel_fsm_st
  fsm21 :: rel_fsm_st

text \<open>The results of the calls: the bytes read (none at the end of the file) or an error number; the
  number of bytes written or an error number.\<close>

datatype read_result = Read "nat list" | Read_error int
datatype write_result = Wrote nat | Write_error int

abbreviation EAGAIN :: int where "EAGAIN \<equiv> 11"

section \<open>The state machine\<close>

text \<open>\<open>fsm_driver\<close> also returns the bytes read from \<open>sfd\<close> and the bytes written to \<open>dfd\<close>.\<close>

definition fsm_driver :: "read_result \<Rightarrow> write_result \<Rightarrow> rel_fsm_st \<Rightarrow> rel_fsm_st \<times> nat list \<times> nat list" where
  "fsm_driver r w fsm = (case fsm_state fsm of
     STATE_R \<Rightarrow>
       (case r of
          Read bs \<Rightarrow>
            let fsm1 = fsm\<lparr>buf := bs @ drop (length bs) (buf fsm), len := int (length bs)\<rparr> in
            if len fsm1 = 0 then (fsm1\<lparr>fsm_state := STATE_T\<rparr>, [], [])
            else (fsm1\<lparr>pos := 0, fsm_state := STATE_W\<rparr>, bs, [])
        | Read_error e \<Rightarrow>
            let fsm1 = fsm\<lparr>len := -1\<rparr> in
            if e = EAGAIN then (fsm1\<lparr>fsm_state := STATE_R\<rparr>, [], [])
            else (fsm1\<lparr>errstr := ''read()'', fsm_state := STATE_Ex\<rparr>, [], []))
   | STATE_W \<Rightarrow>
       (case w of
          Write_error e \<Rightarrow>
            if e = EAGAIN then (fsm\<lparr>fsm_state := STATE_W\<rparr>, [], [])
            else (fsm\<lparr>errstr := ''write()'', fsm_state := STATE_Ex\<rparr>, [], [])
        | Wrote ret \<Rightarrow>
            let out = take ret (drop (nat (pos fsm)) (buf fsm));
                fsm1 = fsm\<lparr>count := count fsm + int ret, pos := pos fsm + int ret, len := len fsm - int ret\<rparr> in
            (if len fsm1 = 0 then fsm1\<lparr>fsm_state := STATE_R\<rparr> else fsm1\<lparr>fsm_state := STATE_W\<rparr>, [], out))
   | STATE_Ex \<Rightarrow> (fsm\<lparr>fsm_state := STATE_T\<rparr>, [], [])
   | STATE_T \<Rightarrow> (fsm, [], []))"

text \<open>What POSIX promises: \<open>read\<close> returns at most the requested number of bytes, \<open>write\<close> does not write
  more than it is given.\<close>

definition documented :: "read_result \<Rightarrow> write_result \<Rightarrow> rel_fsm_st \<Rightarrow> bool" where
  "documented r w fsm \<longleftrightarrow>
     (case r of Read bs \<Rightarrow> length bs \<le> BUFSIZE | Read_error e \<Rightarrow> True) \<and>
     (case w of Wrote n \<Rightarrow> int n \<le> len fsm | Write_error e \<Rightarrow> True)"

section \<open>Jobs\<close>

text \<open>The table of jobs, and the status flags of the descriptors that \<open>fcntl\<close> reads and sets.\<close>

record rel_module =
  rel_job :: "rel_job_st option list"
  flags :: "int \<Rightarrow> int"

text \<open>A round of \<open>thr_relayer\<close>.  The statement after the test of both machines is \<open>job_state ==
  STATE_OVER;\<close>, a comparison whose value is not used.\<close>

type_synonym results = "(read_result \<times> write_result) \<times> (read_result \<times> write_result)"

definition relay_job :: "results \<Rightarrow> rel_job_st \<Rightarrow> rel_job_st" where
  "relay_job res j =
     (if rel_state j = 1 then
        let (a, _) = fsm_driver (fst (fst res)) (snd (fst res)) (fsm12 j);
            (b, _) = fsm_driver (fst (snd res)) (snd (snd res)) (fsm21 j)
        in j\<lparr>fsm12 := a, fsm21 := b\<rparr>
      else j)"

definition thr_relayer_round :: "(nat \<Rightarrow> results) \<Rightarrow> rel_module \<Rightarrow> rel_module" where
  "thr_relayer_round res s = s\<lparr>rel_job := map (\<lambda>(i, x). map_option (relay_job (res i)) x) (enumerate 0 (rel_job s))\<rparr>"

definition get_free_pos_unlocked :: "rel_module \<Rightarrow> int" where
  "get_free_pos_unlocked s = (case find (\<lambda>i. rel_job s ! i = None) [0..<REL_JOBMAX] of Some i \<Rightarrow> int i | None \<Rightarrow> -1)"

text \<open>\<open>rel_addjob\<close>: \<open>fresh\<close> is the memory that \<open>malloc\<close> returns, with what it holds; \<open>nb\<close> sets the
  flag \<open>O_NONBLOCK\<close>.\<close>

definition rel_addjob :: "rel_job_st option \<Rightarrow> (int \<Rightarrow> int) \<Rightarrow> int \<Rightarrow> int \<Rightarrow> rel_module \<Rightarrow> int \<times> rel_module" where
  "rel_addjob fresh nb a b s =
     (if a < 0 \<or> b < 0 then (-22, s)
      else case fresh of
        None \<Rightarrow> (-12, s)
      | Some me \<Rightarrow>
          let save1 = flags s a; save2 = flags s b;
              s1 = s\<lparr>flags := (flags s)(a := nb save1)\<rparr>;
              s2 = s1\<lparr>flags := (flags s1)(b := nb save2)\<rparr>;
              me1 = me\<lparr>fd1 := a, fd2 := b, rel_state := 1, fd1_save := save1, fd2_save := save2,
                fsm12 := (fsm12 me)\<lparr>sfd := a, dfd := b, count := 0, fsm_state := STATE_R\<rparr>,
                fsm21 := (fsm21 me)\<lparr>sfd := b, dfd := a, count := 0, fsm_state := STATE_R\<rparr>\<rparr>;
              p = get_free_pos_unlocked s2
          in if p < 0 then
               let s3 = s2\<lparr>flags := (flags s2)(a := save1)\<rparr>
               in (-28, s3\<lparr>flags := (flags s3)(b := save2)\<rparr>)
             else (p, s2\<lparr>rel_job := (rel_job s2)[nat p := Some me1]\<rparr>))"

record rel_stat_st =
  st_fd1 :: int
  st_fd2 :: int
  st_state :: int
  count12 :: int
  count21 :: int

definition fetch_stat :: "rel_job_st \<Rightarrow> rel_stat_st" where
  "fetch_stat j = \<lparr>st_fd1 = fd1 j, st_fd2 = fd2 j, st_state = rel_state j, count12 = count (fsm12 j), count21 = count (fsm21 j)\<rparr>"

text \<open>\<open>rel_statjob\<close> has a return code only in the error case; \<open>st\<close> is the caller's structure, if any.\<close>

definition rel_statjob :: "int \<Rightarrow> rel_stat_st option \<Rightarrow> rel_module \<Rightarrow> int option \<times> rel_stat_st option" where
  "rel_statjob i st s =
     (if i < 0 \<or> i \<ge> int REL_JOBMAX \<or> rel_job s ! nat i = None then (Some (-22), st)
      else (None, case st of None \<Rightarrow> None | Some _ \<Rightarrow> map_option fetch_stat (rel_job s ! nat i)))"

section \<open>Runs of one machine\<close>

text \<open>\<open>carries f rx tx\<close>: after some steps from the start the machine is \<open>f\<close>, having read \<open>rx\<close> and
  written \<open>tx\<close>.\<close>

inductive carries :: "rel_fsm_st \<Rightarrow> nat list \<Rightarrow> nat list \<Rightarrow> bool" where
  carries_start: "fsm_state f = STATE_R \<Longrightarrow> count f = 0 \<Longrightarrow> length (buf f) = BUFSIZE \<Longrightarrow> carries f [] []"
| carries_step: "carries f rx tx \<Longrightarrow> documented r w f \<Longrightarrow> fsm_driver r w f = (g, a, b) \<Longrightarrow> carries g (rx @ a) (tx @ b)"

text \<open>The bytes still in the buffer.\<close>

definition pending :: "rel_fsm_st \<Rightarrow> nat list" where
  "pending f = take (nat (len f)) (drop (nat (pos f)) (buf f))"

definition fsm_ok :: "rel_fsm_st \<Rightarrow> nat list \<Rightarrow> nat list \<Rightarrow> bool" where
  "fsm_ok f rx tx \<longleftrightarrow> length (buf f) = BUFSIZE \<and> count f = int (length tx) \<and> (\<exists>zs. rx = tx @ zs) \<and>
     (fsm_state f = STATE_R \<longrightarrow> tx = rx) \<and>
     (fsm_state f = STATE_W \<longrightarrow> 0 \<le> pos f \<and> 0 < len f \<and> pos f + len f \<le> int BUFSIZE \<and> rx = tx @ pending f)"

lemma fsm_driver_ok:
  assumes "fsm_ok f rx tx" "documented r w f" "fsm_driver r w f = (g, a, b)"
  shows "fsm_ok g (rx @ a) (tx @ b)"
proof (cases "fsm_state f")
  case STATE_R
  then have eq: "tx = rx" "length (buf f) = BUFSIZE" "count f = int (length tx)" using assms(1) by (auto simp: fsm_ok_def)
  show ?thesis
  proof (cases r)
    case (Read bs)
    then show ?thesis using STATE_R eq assms(2,3)
      by (cases "bs = []") (auto simp: fsm_driver_def fsm_ok_def documented_def pending_def Let_def)
  next
    case (Read_error e)
    then show ?thesis using STATE_R eq assms(3)
      by (auto simp: fsm_driver_def fsm_ok_def Let_def split: if_splits)
  qed
next
  case STATE_W
  then have i: "0 \<le> pos f" "0 < len f" "pos f + len f \<le> int BUFSIZE" "rx = tx @ pending f" "length (buf f) = BUFSIZE"
      "count f = int (length tx)"
    using assms(1) by (auto simp: fsm_ok_def)
  show ?thesis
  proof (cases w)
    case (Wrote n)
    then have n: "int n \<le> len f" using assms(2) by (simp add: documented_def)
    have g: "a = []" "b = take n (drop (nat (pos f)) (buf f))" "buf g = buf f" "count g = count f + int n"
        "pos g = pos f + int n" "len g = len f - int n" "fsm_state g = (if len f = int n then STATE_R else STATE_W)"
      using STATE_W Wrote assms(3) by (auto simp: fsm_driver_def Let_def split: if_splits)
    have lb: "length b = n" using g(2) n i by simp
    have "pending f = b @ pending g"
      using take_split_drop [of n "nat (len f)" "nat (pos f)" "buf f"] g n i(1)
      by (simp add: pending_def nat_diff_distrib nat_add_distrib)
    moreover have "fsm_state g = STATE_R \<Longrightarrow> pending g = []" using g(6,7) by (simp add: pending_def split: if_splits)
    ultimately show ?thesis using g n i lb by (auto simp: fsm_ok_def split: if_splits)
  next
    case (Write_error e)
    then show ?thesis using STATE_W i assms(1,3)
      by (auto simp: fsm_driver_def fsm_ok_def pending_def split: if_splits)
  qed
qed (use assms in \<open>auto simp: fsm_driver_def fsm_ok_def\<close>)

lemma carries_ok: "carries f rx tx \<Longrightarrow> fsm_ok f rx tx"
proof (induction rule: carries.induct)
  case (carries_start f)
  then show ?case by (simp add: fsm_ok_def)
qed (rule fsm_driver_ok)

lemma round_keeps_rel_state:
  "map (map_option rel_state) (rel_job (thr_relayer_round res s)) = map (map_option rel_state) (rel_job s)"
proof -
  have "map_option rel_state (map_option (relay_job x) y) = map_option rel_state y" for x y
    by (cases y) (auto simp: relay_job_def split: prod.splits)
  then show ?thesis by (intro nth_equalityI) (auto simp: thr_relayer_round_def nth_enumerate_eq)
qed

section \<open>Properties\<close>

text \<open>
  C33. Whatever documented results the calls have, a machine carries the bytes in order and invents none: what is
  written is always the beginning of what was read, \<open>count\<close> is the number of bytes written, everything has been
  written whenever the machine reads again, and while it writes, the rest is in the buffer, between
  \<open>pos\<close> and \<open>pos + len\<close>, inside its 1024 bytes.  A machine in the final state stays there; and a round of
  the thread never changes the state of a job, so that a finished job is still reported as running.
\<close>
theorem relayer_carries_in_order:
  assumes "carries f rx tx"
  shows "take (length tx) rx = tx \<and> count f = int (length tx)
    \<and> (fsm_state f = STATE_R \<longrightarrow> tx = rx)
    \<and> (fsm_state f = STATE_W \<longrightarrow> rx = tx @ take (nat (len f)) (drop (nat (pos f)) (buf f))
        \<and> 0 \<le> pos f \<and> 0 < len f \<and> pos f + len f \<le> int (length (buf f)) \<and> length (buf f) = BUFSIZE)
    \<and> (fsm_state f = STATE_T \<longrightarrow> fsm_driver r w f = (f, [], []))
    \<and> map (map_option rel_state) (rel_job (thr_relayer_round res s)) = map (map_option rel_state) (rel_job s)"
  using carries_ok [OF assms] round_keeps_rel_state [of res s] by (auto simp: fsm_ok_def pending_def fsm_driver_def)

lemma relayer_carries_in_order_witness:
  "\<exists>f. carries f [1, 2, 3] [1, 2] \<and> fsm_state f = STATE_W \<and> take (nat (len f)) (drop (nat (pos f)) (buf f)) = [3]"
proof -
  let ?f = "\<lparr>fsm_state = STATE_R, sfd = 3, dfd = 4, buf = replicate BUFSIZE 0, len = 0, pos = 0, count = 0, errstr = []\<rparr>"
  let ?g = "?f\<lparr>buf := [1, 2, 3] @ replicate 1021 0, len := 3, fsm_state := STATE_W\<rparr>"
  let ?h = "?g\<lparr>len := 1, pos := 2, count := 2\<rparr>"
  have c0: "carries ?f [] []" by (rule carries_start) simp_all
  have s1: "fsm_driver (Read [1, 2, 3]) (Wrote 0) ?f = (?g, [1, 2, 3], [])"
    by (simp add: fsm_driver_def BUFSIZE_def)
  have d1: "documented (Read [1, 2, 3]) (Wrote 0) ?f" by (simp add: documented_def BUFSIZE_def)
  have s2: "fsm_driver (Read []) (Wrote 2) ?g = (?h, [], [1, 2])"
    by (simp add: fsm_driver_def)
  have d2: "documented (Read []) (Wrote 2) ?g" by (simp add: documented_def)
  note carries_step [OF carries_step [OF c0 d1 s1] d2 s2]
  then have c: "carries ?h [1, 2, 3] [1, 2]" by simp
  have "[1, 2, 3] = [1, 2] @ take (nat (len ?h)) (drop (nat (pos ?h)) (buf ?h))"
    using relayer_carries_in_order [OF c] by simp
  then show ?thesis using c by (intro exI [of _ ?h]) simp
qed

end
