(* ===== verification/MyPipe.thy ===== *)
theory MyPipe
  imports RingQueue "HOL-Library.Word"
begin

unbundle bit_operations_syntax

text \<open>
  The pipe between threads \<open>3.ybx/3.apue/8.thread/posix/26.mypipe/mypipe.c\<close>.  Its \<open>queue.c\<close> is the ring
  queue of \<open>RingQueue\<close> with 1024 cells (\<open>q_travel\<close> walks the ring with another loop).  Every operation holds the mutex of
  the pipe throughout, except while it sleeps in \<open>pthread_cond_wait\<close>; so an operation is a sequence of
  atomic pieces, each up to the next sleep or return (\<open>reaction\<close>), and threads interleave between
  the pieces (\<open>pstep\<close>).  A broadcast wakes all sleepers, which test their loop condition
  again when they get the mutex; a sleeper may also wake spuriously.  \<open>written\<close> and \<open>taken\<close> record
  the data that writers and readers were told to have moved.
\<close>

section \<open>The program\<close>

definition MAXSIZE :: nat where "MAXSIZE = 1024"

abbreviation MYPIPE_READ :: "32 word" where "MYPIPE_READ \<equiv> 1"
abbreviation MYPIPE_WRITE :: "32 word" where "MYPIPE_WRITE \<equiv> 2"
abbreviation MYPIPE_INIT_FAIL :: int where "MYPIPE_INIT_FAIL \<equiv> - 1"
abbreviation Q_CREATE_FAIL :: int where "Q_CREATE_FAIL \<equiv> - 2"

record mypipe_st =
  queue :: ring
  count_rd :: int
  count_wr :: int

text \<open>The arguments are what \<open>malloc\<close> returns for the queue, and whether it succeeds for the pipe;
  the failures are the special pointers of the header.\<close>

definition mypipe_init :: "int list option \<Rightarrow> bool \<Rightarrow> int + mypipe_st" where
  "mypipe_init mem ok = (case q_create mem of
     None \<Rightarrow> Inl Q_CREATE_FAIL
   | Some you \<Rightarrow>
       if \<not> ok then Inl MYPIPE_INIT_FAIL
       else Inr \<lparr>queue = you, count_rd = 0, count_wr = 0\<rparr>)"

text \<open>How a piece ends: asleep in its loop, or returned with a code, the data it moved, the state
  and whether it has broadcast the condition.\<close>

datatype reaction = Sleeps | Returns int "int list" mypipe_st bool

definition bad_opmap :: "32 word \<Rightarrow> bool" where
  "bad_opmap opmap \<longleftrightarrow> opmap OR MYPIPE_READ = 0 \<and> opmap OR MYPIPE_WRITE = 0"

definition count_up :: "32 word \<Rightarrow> mypipe_st \<Rightarrow> mypipe_st option" where
  "count_up opmap me = do {
     r \<leftarrow> (if opmap AND MYPIPE_READ \<noteq> 0 then chk (count_rd me + 1) else Some (count_rd me));
     w \<leftarrow> (if opmap AND MYPIPE_WRITE \<noteq> 0 then chk (count_wr me + 1) else Some (count_wr me));
     Some (me\<lparr>count_rd := r, count_wr := w\<rparr>) }"

definition register_loop :: "mypipe_st \<Rightarrow> reaction" where
  "register_loop me =
     (if count_rd me \<le> 0 \<or> count_wr me \<le> 0 then Sleeps else Returns 0 [] me False)"

definition mypipe_unregister :: "32 word \<Rightarrow> mypipe_st \<Rightarrow> reaction option" where
  "mypipe_unregister opmap me =
     (if bad_opmap opmap then Some (Returns (- 1) [] me False)
      else do {
        r \<leftarrow> (if opmap AND MYPIPE_READ \<noteq> 0 then chk (count_rd me - 1) else Some (count_rd me));
        w \<leftarrow> (if opmap AND MYPIPE_WRITE \<noteq> 0 then chk (count_wr me - 1) else Some (count_wr me));
        Some (Returns 0 [] (me\<lparr>count_rd := r, count_wr := w\<rparr>) True) })"

fun read_items :: "nat \<Rightarrow> ring \<Rightarrow> (int list \<times> ring) option" where
  "read_items 0 q = Some ([], q)"
| "read_items (Suc n) q = do {
     (ret, v, q1) \<leftarrow> q_dequeue MAXSIZE q;
     if ret < 0 then Some ([], q1)
     else do { x \<leftarrow> v; (vs, q2) \<leftarrow> read_items n q1; Some (x # vs, q2) } }"

definition read_loop :: "nat \<Rightarrow> mypipe_st \<Rightarrow> reaction option" where
  "read_loop n me =
     (if q_isempty (queue me) \<and> 0 < count_wr me then Some Sleeps
      else if q_isempty (queue me) \<and> count_wr me \<le> 0 then Some (Returns 0 [] me False)
      else do {
        (vs, q) \<leftarrow> read_items n (queue me);
        Some (Returns (int (length vs)) vs (me\<lparr>queue := q\<rparr>) True) })"

fun write_items :: "int list \<Rightarrow> ring \<Rightarrow> (nat \<times> ring) option" where
  "write_items [] q = Some (0, q)"
| "write_items (v # vs) q = do {
     (ret, q1) \<leftarrow> q_enqueue MAXSIZE q v;
     if ret < 0 then Some (0, q1)
     else do { (i, q2) \<leftarrow> write_items vs q1; Some (Suc i, q2) } }"

definition write_loop :: "int list \<Rightarrow> mypipe_st \<Rightarrow> reaction option" where
  "write_loop buf me =
     (if q_isfull MAXSIZE (queue me) \<and> 0 < count_rd me then Some Sleeps
      else if q_isfull MAXSIZE (queue me) \<and> count_rd me \<le> 0 then Some (Returns 0 [] me False)
      else do {
        (i, q) \<leftarrow> write_items buf (queue me);
        Some (Returns (int i) (take i buf) (me\<lparr>queue := q\<rparr>) True) })"

section \<open>Threads\<close>

datatype pcall = Register "32 word" | Unregister "32 word" | Read nat | Write "int list"

datatype pthread = Ready | Asleep pcall | Awake pcall

record psys =
  pipe :: mypipe_st
  threads :: "pthread list"
  written :: "int list"
  taken :: "int list"

text \<open>What a call does once it holds the mutex: at first (\<open>enter\<close>), and after a sleep (\<open>resume\<close>).\<close>

definition resume :: "pcall \<Rightarrow> mypipe_st \<Rightarrow> reaction option" where
  "resume c me = (case c of
     Register _ \<Rightarrow> Some (register_loop me)
   | Unregister opmap \<Rightarrow> mypipe_unregister opmap me
   | Read n \<Rightarrow> read_loop n me
   | Write buf \<Rightarrow> write_loop buf me)"

definition wake :: "pthread \<Rightarrow> pthread" where
  "wake t = (case t of Asleep c \<Rightarrow> Awake c | _ \<Rightarrow> t)"

definition settle :: "nat \<Rightarrow> pcall \<Rightarrow> reaction \<Rightarrow> psys \<Rightarrow> psys" where
  "settle t c r s = (case r of
     Sleeps \<Rightarrow> s\<lparr>threads := (threads s)[t := Asleep c]\<rparr>
   | Returns _ vs me b \<Rightarrow>
       s\<lparr>pipe := me,
         threads := (if b then map wake (threads s) else threads s)[t := Ready],
         written := (case c of Write _ \<Rightarrow> written s @ vs | _ \<Rightarrow> written s),
         taken := (case c of Read _ \<Rightarrow> taken s @ vs | _ \<Rightarrow> taken s)\<rparr>)"

definition mypipe_register :: "nat \<Rightarrow> 32 word \<Rightarrow> psys \<Rightarrow> psys option" where
  "mypipe_register t opmap s =
     (if bad_opmap opmap then Some s
      else do {
        me \<leftarrow> count_up opmap (pipe s);
        Some (settle t (Register opmap) (register_loop me)
          (s\<lparr>pipe := me, threads := map wake (threads s)\<rparr>)) })"

definition enter :: "nat \<Rightarrow> pcall \<Rightarrow> psys \<Rightarrow> psys option" where
  "enter t c s = (case c of
     Register opmap \<Rightarrow> mypipe_register t opmap s
   | _ \<Rightarrow> do { r \<leftarrow> resume c (pipe s); Some (settle t c r s) })"

inductive pstep :: "psys \<Rightarrow> psys \<Rightarrow> bool" where
  Call: "t < length (threads s) \<Longrightarrow> threads s ! t = Ready \<Longrightarrow> enter t c s = Some s' \<Longrightarrow> pstep s s'"
| Resume: "t < length (threads s) \<Longrightarrow> threads s ! t = Awake c \<Longrightarrow> resume c (pipe s) = Some r \<Longrightarrow>
     pstep s (settle t c r s)"
| Spurious: "t < length (threads s) \<Longrightarrow> threads s ! t = Asleep c \<Longrightarrow>
     pstep s (s\<lparr>threads := (threads s)[t := Awake c]\<rparr>)"

inductive_cases pstepE: "pstep s s'"

text \<open>\<open>n\<close> threads around a fresh pipe, whose cells hold anything.\<close>

definition pipe_start :: "nat \<Rightarrow> int list \<Rightarrow> psys" where
  "pipe_start n cells = \<lparr>pipe = \<lparr>queue = \<lparr>qdata = cells, qhead = 0, qtail = 0\<rparr>, count_rd = 0, count_wr = 0\<rparr>,
     threads = replicate n Ready, written = [], taken = []\<rparr>"

section \<open>Pieces of read and write on the queue\<close>

lemma read_items_ring:
  "ring_rep MAXSIZE q xs \<Longrightarrow> \<exists>q'. read_items n q = Some (take n xs, q') \<and> ring_rep MAXSIZE q' (drop n xs)"
proof (induction n arbitrary: q xs)
  case (Suc n)
  show ?case
  proof (cases xs)
    case Nil
    then show ?thesis using Suc.prems ringq.deq_empty_law [of MAXSIZE q] by simp
  next
    case (Cons x ys)
    obtain q1 where q1: "q_dequeue MAXSIZE q = Some (0, Some x, q1)" "ring_rep MAXSIZE q1 ys"
      using ringq.deq_law [of MAXSIZE q x ys] Suc.prems unfolding Cons by blast
    then show ?thesis using Suc.IH [OF q1(2)] Cons by auto
  qed
qed simp

lemma ring_room: "ring_rep MAXSIZE q xs \<Longrightarrow> length xs \<le> 1023"
  by (simp add: ring_rep_def MAXSIZE_def)

lemma write_items_ring:
  "ring_rep MAXSIZE q xs \<Longrightarrow> n = min (length buf) (1023 - length xs) \<Longrightarrow>
   \<exists>q'. write_items buf q = Some (n, q') \<and> ring_rep MAXSIZE q' (xs @ take n buf)"
proof (induction buf arbitrary: q xs n)
  case (Cons v buf)
  show ?case
  proof (cases "length xs = 1023")
    case True
    then have "q_enqueue MAXSIZE q v = Some (- 1, q)"
      using ringq.enq_full_law [OF Cons.prems(1)] by (simp add: MAXSIZE_def)
    then show ?thesis using True Cons.prems by simp
  next
    case False
    then have l: "Suc (length xs) < MAXSIZE" using ring_room [OF Cons.prems(1)] by (simp add: MAXSIZE_def)
    obtain q1 where q1: "q_enqueue MAXSIZE q v = Some (0, q1)" "ring_rep MAXSIZE q1 (xs @ [v])"
      using ringq.enq_law [OF Cons.prems(1) l] by blast
    have n: "n = Suc (min (length buf) (1023 - length (xs @ [v])))"
      using Cons.prems(2) l by (simp add: MAXSIZE_def)
    show ?thesis using Cons.IH [OF q1(2) refl] q1(1) n by auto
  qed
qed simp

lemma empty_queue: "ring_rep MAXSIZE q xs \<Longrightarrow> q_isempty q \<longleftrightarrow> xs = []"
  by (rule ringq.empty_law)

lemma full_queue: "ring_rep MAXSIZE q xs \<Longrightarrow> q_isfull MAXSIZE q \<longleftrightarrow> length xs = 1023"
  using isfull_ring [of MAXSIZE q xs] by (simp add: MAXSIZE_def)

lemma read_loop_cases:
  assumes "ring_rep MAXSIZE (queue me) xs"
  shows "\<exists>q'. ring_rep MAXSIZE q' (drop n xs) \<and>
    read_loop n me = Some (if xs = [] then if 0 < count_wr me then Sleeps else Returns 0 [] me False
      else Returns (int (min n (length xs))) (take n xs) (me\<lparr>queue := q'\<rparr>) True)"
proof -
  obtain q' where "read_items n (queue me) = Some (take n xs, q')" "ring_rep MAXSIZE q' (drop n xs)"
    using read_items_ring [OF assms] by blast
  then show ?thesis using empty_queue [OF assms] by (auto simp: read_loop_def min.commute)
qed

lemma write_loop_cases:
  assumes "ring_rep MAXSIZE (queue me) xs" and n: "n = min (length buf) (1023 - length xs)"
  shows "\<exists>q'. ring_rep MAXSIZE q' (xs @ take n buf) \<and>
    write_loop buf me = Some (if length xs = 1023 then if 0 < count_rd me then Sleeps else Returns 0 [] me False
      else Returns (int n) (take n buf) (me\<lparr>queue := q'\<rparr>) True)"
proof -
  obtain q' where "write_items buf (queue me) = Some (n, q')" "ring_rep MAXSIZE q' (xs @ take n buf)"
    using write_items_ring [OF assms] by blast
  then show ?thesis using full_queue [OF assms(1)] by (auto simp: write_loop_def)
qed

section \<open>Invariant\<close>

text \<open>What a sleeper waits for; it sleeps only as long as this holds.\<close>

definition waits :: "pcall \<Rightarrow> mypipe_st \<Rightarrow> bool" where
  "waits c me = (case c of
     Register _ \<Rightarrow> count_rd me \<le> 0 \<or> count_wr me \<le> 0
   | Unregister _ \<Rightarrow> False
   | Read _ \<Rightarrow> q_isempty (queue me) \<and> 0 < count_wr me
   | Write _ \<Rightarrow> q_isfull MAXSIZE (queue me) \<and> 0 < count_rd me)"

definition stream_ok :: "psys \<Rightarrow> bool" where
  "stream_ok s \<longleftrightarrow> (\<exists>xs. ring_rep MAXSIZE (queue (pipe s)) xs \<and> written s = taken s @ xs)"

definition sleepers_ok :: "psys \<Rightarrow> bool" where
  "sleepers_ok s \<longleftrightarrow> (\<forall>t < length (threads s). \<forall>c. threads s ! t = Asleep c \<longrightarrow> waits c (pipe s))"

lemma wake_not_asleep [simp]: "wake t \<noteq> Asleep c"
  by (simp add: wake_def split: pthread.splits)

lemma sleepers_woken: "sleepers_ok (s\<lparr>pipe := me, threads := map wake ts\<rparr>)"
  by (simp add: sleepers_ok_def)

lemma resume_waits: "resume c me = Some Sleeps \<Longrightarrow> waits c me"
  by (auto simp: resume_def waits_def register_loop_def mypipe_unregister_def read_loop_def write_loop_def
      bind_eq_Some_conv split: pcall.splits if_splits)

lemma resume_quiet: "resume c me = Some (Returns k vs me' False) \<Longrightarrow> me' = me \<and> vs = []"
  by (auto simp: resume_def register_loop_def mypipe_unregister_def read_loop_def write_loop_def
      bind_eq_Some_conv split: pcall.splits if_splits)

lemma settle_sleepers:
  assumes "sleepers_ok s" "resume c (pipe s) = Some r"
  shows "sleepers_ok (settle t c r s)"
proof (cases r)
  case Sleeps
  then have "waits c (pipe s)" using resume_waits assms(2) by simp
  then show ?thesis using assms(1) Sleeps by (auto simp: sleepers_ok_def settle_def dest!: nth_update_cases)
next
  case (Returns k vs me b)
  show ?thesis
  proof (cases b)
    case True
    then show ?thesis using Returns by (auto simp: sleepers_ok_def settle_def dest!: nth_update_cases)
  next
    case False
    then have "me = pipe s" using resume_quiet [of c "pipe s" k vs me] assms(2) Returns by simp
    then show ?thesis using assms(1) Returns False by (auto simp: sleepers_ok_def settle_def dest!: nth_update_cases)
  qed
qed

lemma settle_stream:
  assumes "stream_ok s" "resume c (pipe s) = Some r"
  shows "stream_ok (settle t c r s)"
proof -
  obtain xs where xs: "ring_rep MAXSIZE (queue (pipe s)) xs" "written s = taken s @ xs"
    using assms(1) by (auto simp: stream_ok_def)
  show ?thesis
  proof (cases c)
    case (Register opmap)
    then show ?thesis using assms by (auto simp: resume_def register_loop_def settle_def stream_ok_def)
  next
    case (Unregister opmap)
    then show ?thesis using assms
      by (auto simp: resume_def mypipe_unregister_def settle_def stream_ok_def bind_eq_Some_conv split: if_splits)
  next
    case (Read n)
    then show ?thesis using assms(2) read_loop_cases [OF xs(1), of n] xs
      by (auto simp: resume_def settle_def stream_ok_def split: if_splits)
  next
    case (Write buf)
    then show ?thesis using assms(2) write_loop_cases [OF xs(1) refl, of buf] xs
      by (auto simp: resume_def settle_def stream_ok_def split: if_splits)
  qed
qed

lemma register_ok:
  assumes "stream_ok s" "sleepers_ok s" "mypipe_register t opmap s = Some s'"
  shows "stream_ok s' \<and> sleepers_ok s'"
proof (cases "bad_opmap opmap")
  case False
  then obtain me where me: "count_up opmap (pipe s) = Some me" "queue me = queue (pipe s)"
      "s' = settle t (Register opmap) (register_loop me) (s\<lparr>pipe := me, threads := map wake (threads s)\<rparr>)"
    using assms(3) by (auto simp: mypipe_register_def count_up_def bind_eq_Some_conv)
  let ?s = "s\<lparr>pipe := me, threads := map wake (threads s)\<rparr>"
  have "stream_ok ?s" "resume (Register opmap) (pipe ?s) = Some (register_loop me)"
    using assms(1) me(2) by (simp_all add: stream_ok_def resume_def)
  then show ?thesis unfolding me(3) using settle_stream settle_sleepers sleepers_woken by blast
qed (use assms in \<open>simp add: mypipe_register_def\<close>)

lemma enter_cases:
  assumes "enter t c s = Some s'"
  obtains (register) opmap where "mypipe_register t opmap s = Some s'"
  | (other) r where "resume c (pipe s) = Some r" "s' = settle t c r s"
proof (cases c)
  case (Register opmap)
  then show ?thesis using assms register by (simp add: enter_def)
qed (use assms other in \<open>simp_all add: enter_def bind_eq_Some_conv\<close>, blast+)

lemma enter_ok:
  "stream_ok s \<Longrightarrow> sleepers_ok s \<Longrightarrow> enter t c s = Some s' \<Longrightarrow> stream_ok s' \<and> sleepers_ok s'"
  by (elim enter_cases) (blast dest: register_ok settle_stream settle_sleepers)+

lemma pstep_ok:
  assumes "pstep s s'" "stream_ok s" "sleepers_ok s"
  shows "stream_ok s' \<and> sleepers_ok s'"
  using assms
proof cases
  case (Call t c)
  then show ?thesis using enter_ok assms(2,3) by blast
next
  case (Resume t c r)
  then show ?thesis using settle_stream settle_sleepers assms(2,3) by blast
next
  case (Spurious t c)
  then show ?thesis using assms(2,3) by (auto simp: stream_ok_def sleepers_ok_def dest!: nth_update_cases)
qed

lemma start_ok: "length cells = MAXSIZE \<Longrightarrow> stream_ok (pipe_start n cells) \<and> sleepers_ok (pipe_start n cells)"
  by (simp add: stream_ok_def sleepers_ok_def pipe_start_def ring_rep_def MAXSIZE_def)

lemma reachable_ok:
  assumes "pstep\<^sup>*\<^sup>* (pipe_start n cells) s" "length cells = MAXSIZE"
  shows "stream_ok s \<and> sleepers_ok s"
  using assms(1) by (induction rule: rtranclp_induct) (use start_ok [OF assms(2)] pstep_ok in blast)+

section \<open>A reader left alone in mypipe_register\<close>

text \<open>The reader \<open>t\<close> is still in \<open>mypipe_register\<close> and no writer is registered.\<close>

definition stranded :: "nat \<Rightarrow> psys \<Rightarrow> bool" where
  "stranded t s \<longleftrightarrow> t < length (threads s) \<and> count_wr (pipe s) \<le> 0 \<and>
     threads s ! t \<in> {Asleep (Register MYPIPE_READ), Awake (Register MYPIPE_READ)}"

lemma threads_settle:
  "length (threads (settle t c r s)) = length (threads s)"
  "u < length (threads s) \<Longrightarrow> u \<noteq> t \<Longrightarrow> threads (settle t c r s) ! u \<in> {threads s ! u, wake (threads s ! u)}"
  by (auto simp: settle_def split: reaction.splits)

lemma wake_stranded: "x \<in> {Asleep c, Awake c} \<Longrightarrow> y \<in> {x, wake x} \<Longrightarrow> y \<in> {Asleep c, Awake c}"
  by (auto simp: wake_def)

lemma resume_count_wr:
  "resume c me = Some (Returns k vs me' b) \<Longrightarrow> count_wr me' \<le> count_wr me"
  by (auto simp: resume_def register_loop_def mypipe_unregister_def read_loop_def write_loop_def
      bind_eq_Some_conv chk_Some_iff split: pcall.splits if_splits)

lemma pipe_settle:
  "pipe (settle t c r s) = (case r of Sleeps \<Rightarrow> pipe s | Returns _ _ me _ \<Rightarrow> me)"
  by (simp add: settle_def split: reaction.splits)

lemma settle_stranded:
  assumes "stranded t s" "u \<noteq> t" "resume c (pipe s) = Some r"
  shows "stranded t (settle u c r s)"
proof -
  have "count_wr (pipe (settle u c r s)) \<le> 0"
    using assms(1,3) resume_count_wr [of c "pipe s"] by (fastforce simp: pipe_settle stranded_def split: reaction.splits)
  moreover have "threads (settle u c r s) ! t \<in> {Asleep (Register MYPIPE_READ), Awake (Register MYPIPE_READ)}"
    by (rule wake_stranded [OF _ threads_settle(2)]) (use assms in \<open>auto simp: stranded_def\<close>)
  ultimately show ?thesis using assms(1) threads_settle(1) by (simp add: stranded_def)
qed

lemma register_stranded:
  assumes "stranded t s" "u \<noteq> t" "mypipe_register u opmap s = Some s'"
  shows "stranded t s' \<or> 0 < count_wr (pipe s')"
proof (cases "bad_opmap opmap")
  case False
  then obtain me where me: "s' = settle u (Register opmap) (register_loop me) (s\<lparr>pipe := me, threads := map wake (threads s)\<rparr>)"
    using assms(3) by (auto simp: mypipe_register_def bind_eq_Some_conv)
  let ?s = "s\<lparr>pipe := me, threads := map wake (threads s)\<rparr>"
  have p: "pipe s' = me" unfolding me by (simp add: pipe_settle register_loop_def)
  show ?thesis
  proof (cases "0 < count_wr me")
    case False
    then have "stranded t ?s" using assms(1) by (auto simp: stranded_def wake_def)
    then have "stranded t s'" unfolding me using assms(2) by (intro settle_stranded) (simp_all add: resume_def)
    then show ?thesis by simp
  qed (simp add: p)
qed (use assms in \<open>simp add: mypipe_register_def\<close>)

lemma pstep_stranded:
  assumes "pstep s s'" "stranded t s"
  shows "stranded t s' \<or> 0 < count_wr (pipe s')"
  using assms(1)
proof cases
  case (Call u c)
  then have "u \<noteq> t" using assms(2) by (auto simp: stranded_def)
  from Call(3) show ?thesis
    by (rule enter_cases) (use \<open>u \<noteq> t\<close> assms(2) register_stranded settle_stranded in blast)+
next
  case (Resume u c r)
  show ?thesis
  proof (cases "u = t")
    case True
    then have "r = Sleeps" "c = Register MYPIPE_READ"
      using Resume assms(2) by (auto simp: stranded_def resume_def register_loop_def)
    then show ?thesis using True Resume assms(2) by (simp add: stranded_def settle_def)
  qed (use Resume assms(2) settle_stranded in blast)
next
  case (Spurious u c)
  then show ?thesis using assms(2) by (auto simp: stranded_def nth_list_update)
qed

text \<open>How it comes about.\<close>

abbreviation two_threads :: "ring \<Rightarrow> int \<Rightarrow> int \<Rightarrow> pthread list \<Rightarrow> int list \<Rightarrow> psys" where
  "two_threads q r w ts out \<equiv>
     \<lparr>pipe = \<lparr>queue = q, count_rd = r, count_wr = w\<rparr>, threads = ts, written = out, taken = []\<rparr>"

lemma opmap_eval [simp]:
  "\<not> bad_opmap opmap" "MYPIPE_READ AND MYPIPE_READ = 1" "MYPIPE_READ AND MYPIPE_WRITE = 0"
  "MYPIPE_WRITE AND MYPIPE_READ = 0" "MYPIPE_WRITE AND MYPIPE_WRITE = 2"
proof -
  have "bit (opmap OR MYPIPE_READ) 0" by (simp add: bit_or_iff)
  then show "\<not> bad_opmap opmap" by (auto simp: bad_opmap_def)
qed simp_all

lemma stranding_run:
  assumes "ring_rep MAXSIZE q0 []" "q_enqueue MAXSIZE q0 7 = Some (0, q1)"
  shows "pstep\<^sup>*\<^sup>* (two_threads q0 0 0 [Ready, Ready] []) (two_threads q1 1 0 [Asleep (Register MYPIPE_READ), Ready] [7])"
proof -
  let ?R = "Register MYPIPE_READ"
  have 1: "pstep (two_threads q0 0 0 [Ready, Ready] []) (two_threads q0 1 0 [Asleep ?R, Ready] [])"
    by (rule Call [of 0 _ ?R]) (simp_all add: enter_def mypipe_register_def count_up_def chk_def int_range_def
        register_loop_def settle_def wake_def)
  have 2: "pstep (two_threads q0 1 0 [Asleep ?R, Ready] []) (two_threads q0 1 1 [Awake ?R, Ready] [])"
    by (rule Call [of 1 _ "Register MYPIPE_WRITE"]) (simp_all add: enter_def mypipe_register_def count_up_def chk_def
        int_range_def register_loop_def settle_def wake_def)
  have 3: "pstep (two_threads q0 1 1 [Awake ?R, Ready] []) (two_threads q1 1 1 [Awake ?R, Ready] [7])"
    by (rule Call [of 1 _ "Write [7]"]) (use assms full_queue [OF assms(1)] in \<open>simp_all add: enter_def resume_def write_loop_def
        settle_def wake_def\<close>)
  have 4: "pstep (two_threads q1 1 1 [Awake ?R, Ready] [7]) (two_threads q1 1 0 [Awake ?R, Ready] [7])"
    by (rule Call [of 1 _ "Unregister MYPIPE_WRITE"]) (simp_all add: enter_def resume_def mypipe_unregister_def chk_def
        int_range_def settle_def wake_def)
  have 5: "pstep (two_threads q1 1 0 [Awake ?R, Ready] [7]) (settle 0 ?R Sleeps (two_threads q1 1 0 [Awake ?R, Ready] [7]))"
    by (rule Resume) (simp_all add: resume_def register_loop_def)
  then have "pstep (two_threads q1 1 0 [Awake ?R, Ready] [7]) (two_threads q1 1 0 [Asleep ?R, Ready] [7])"
    by (simp add: settle_def)
  with 1 2 3 4 show ?thesis by (meson converse_rtranclp_into_rtranclp rtranclp.rtrancl_refl)
qed

lemma stranding_reachable:
  assumes "length cells = MAXSIZE"
  shows "\<exists>q1. pstep\<^sup>*\<^sup>* (pipe_start 2 cells) (two_threads q1 1 0 [Asleep (Register MYPIPE_READ), Ready] [7])
    \<and> ring_rep MAXSIZE q1 [7]"
proof -
  let ?q = "\<lparr>qdata = cells, qhead = 0, qtail = 0\<rparr>"
  have q: "ring_rep MAXSIZE ?q []" using assms by (simp add: ring_rep_def MAXSIZE_def)
  obtain q1 where q1: "q_enqueue MAXSIZE ?q 7 = Some (0, q1)" "ring_rep MAXSIZE q1 [7]"
    using ringq.enq_law [OF q, of 7] by (auto simp: MAXSIZE_def)
  have "pipe_start 2 cells = two_threads ?q 0 0 [Ready, Ready] []"
    by (simp add: pipe_start_def numeral_2_eq_2)
  then show ?thesis using stranding_run [OF q q1(1)] q1(2) by auto
qed

section \<open>Properties\<close>

text \<open>
  C5. The pipe carries a stream: in every state that threads can reach by any interleaving of registering,
  reading, writing, leaving and spurious wakeups, the data that writers were told to have written is the data that
  readers were given followed by the at most 1023 items in the ring, so nothing is lost, doubled or
  reordered, even with several readers and writers.
\<close>
theorem pipe_carries_a_stream:
  assumes "pstep\<^sup>*\<^sup>* (pipe_start n cells) s" and "length cells = MAXSIZE"
  shows "\<exists>xs. ring_rep MAXSIZE (queue (pipe s)) xs \<and> length xs \<le> 1023 \<and> written s = taken s @ xs"
  using reachable_ok [OF assms] ring_room by (auto simp: stream_ok_def)

text \<open>
  C28. No wakeup is lost: in every reachable state a thread that sleeps in \<open>mypipe_read\<close> faces an empty ring with a
  writer registered, one that sleeps in \<open>mypipe_write\<close> a full ring with a reader registered, and one that
  sleeps in \<open>mypipe_register\<close> a side without threads.  So a reader and a writer never sleep at
  the same time, and when the last writer has left no reader sleeps.
\<close>
theorem pipe_never_misses_a_wakeup:
  assumes "pstep\<^sup>*\<^sup>* (pipe_start n cells) s" and "length cells = MAXSIZE"
    and "t < length (threads s)" and "threads s ! t = Asleep c"
  shows "(case c of
      Read _ \<Rightarrow> ring_rep MAXSIZE (queue (pipe s)) [] \<and> 0 < count_wr (pipe s) \<and>
        (\<forall>u < length (threads s). \<forall>buf. threads s ! u \<noteq> Asleep (Write buf))
    | Write _ \<Rightarrow> (\<exists>xs. ring_rep MAXSIZE (queue (pipe s)) xs \<and> length xs = 1023) \<and> 0 < count_rd (pipe s)
    | Register _ \<Rightarrow> count_rd (pipe s) \<le> 0 \<or> count_wr (pipe s) \<le> 0
    | Unregister _ \<Rightarrow> False)"
proof -
  obtain xs where xs: "ring_rep MAXSIZE (queue (pipe s)) xs"
    using reachable_ok [OF assms(1,2)] by (auto simp: stream_ok_def)
  have "waits d (pipe s)" if "u < length (threads s)" "threads s ! u = Asleep d" for u d
    using reachable_ok [OF assms(1,2)] that by (auto simp: sleepers_ok_def)
  note w = this [OF assms(3,4)] and others = this
  show ?thesis
  proof (cases c)
    case (Read k)
    then have "xs = []" "0 < count_wr (pipe s)" using w empty_queue [OF xs] by (simp_all add: waits_def)
    moreover have "threads s ! u \<noteq> Asleep (Write buf)" if "u < length (threads s)" for u buf
      using others [OF that] full_queue [OF xs] \<open>xs = []\<close> by (fastforce simp: waits_def)
    ultimately show ?thesis using Read xs by simp
  next
    case (Write buf)
    then show ?thesis using w full_queue [OF xs] xs by (auto simp: waits_def)
  qed (use w in \<open>simp_all add: waits_def\<close>)
qed

text \<open>
  Reading and writing as a caller sees them: with \<open>xs\<close> in the ring, \<open>mypipe_read\<close> takes the first
  \<open>n\<close> items, or all if there are fewer; on an empty ring it sleeps while a writer is registered and returns 0 (the end
  of the data) when there is none.  \<open>mypipe_write\<close> appends the part of its buffer that
  fits into 1023 items and returns its length; on a full ring it sleeps while there is a reader and else returns 0.
\<close>
theorem pipe_read_and_write:
  assumes "ring_rep MAXSIZE (queue me) xs"
  shows "(\<exists>q'. ring_rep MAXSIZE q' (drop n xs) \<and>
      read_loop n me = Some (if xs = [] then if 0 < count_wr me then Sleeps else Returns 0 [] me False
        else Returns (int (min n (length xs))) (take n xs) (me\<lparr>queue := q'\<rparr>) True))
    \<and> (\<exists>q' i. i = min (length buf) (1023 - length xs) \<and> ring_rep MAXSIZE q' (xs @ take i buf) \<and>
      write_loop buf me = Some (if length xs = 1023 then if 0 < count_rd me then Sleeps else Returns 0 [] me False
        else Returns (int i) (take i buf) (me\<lparr>queue := q'\<rparr>) True))"
  using read_loop_cases [OF assms, of n] write_loop_cases [OF assms refl, of buf] by blast

text \<open>
  \<open>mypipe_register\<close> can miss its peer: a reader registers and sleeps, a writer registers, writes and leaves
  before the reader gets the mutex; then the reader goes back to sleep although the data is there, and whatever
  happens it stays in \<open>mypipe_register\<close> until another writer registers.  Nor is any \<open>opmap\<close> refused.
\<close>
theorem register_misses_the_writer:
  assumes "length cells = MAXSIZE"
  shows "(\<exists>s. pstep\<^sup>*\<^sup>* (pipe_start 2 cells) s \<and> ring_rep MAXSIZE (queue (pipe s)) [7] \<and>
      threads s = [Asleep (Register MYPIPE_READ), Ready] \<and> stranded 0 s)
    \<and> (\<forall>s s'. stranded 0 s \<and> pstep s s' \<longrightarrow> stranded 0 s' \<or> 0 < count_wr (pipe s'))
    \<and> \<not> bad_opmap opmap"
proof -
  obtain q1 where "pstep\<^sup>*\<^sup>* (pipe_start 2 cells) (two_threads q1 1 0 [Asleep (Register MYPIPE_READ), Ready] [7])"
      "ring_rep MAXSIZE q1 [7]"
    using stranding_reachable [OF assms] by blast
  then show ?thesis
    using pstep_stranded
    by (intro conjI exI [of _ "two_threads q1 1 0 [Asleep (Register MYPIPE_READ), Ready] [7]"])
       (auto simp: stranded_def)
qed

section \<open>Witnesses\<close>

lemma pipe_carries_a_stream_witness:
  "\<exists>s xs. pstep\<^sup>*\<^sup>* (pipe_start 2 (replicate MAXSIZE 0)) s \<and> ring_rep MAXSIZE (queue (pipe s)) xs \<and>
     written s = [7] \<and> written s = taken s @ xs"
proof -
  obtain q1 where r: "pstep\<^sup>*\<^sup>* (pipe_start 2 (replicate MAXSIZE 0))
      (two_threads q1 1 0 [Asleep (Register MYPIPE_READ), Ready] [7])"
    using stranding_reachable [of "replicate MAXSIZE 0"] by auto
  show ?thesis using r pipe_carries_a_stream [OF r] by fastforce
qed

lemma pipe_never_misses_a_wakeup_witness:
  "\<exists>s. pstep\<^sup>*\<^sup>* (pipe_start 2 (replicate MAXSIZE 0)) s \<and> threads s ! 0 = Asleep (Register MYPIPE_READ) \<and>
     (count_rd (pipe s) \<le> 0 \<or> count_wr (pipe s) \<le> 0)"
proof -
  obtain q1 where r: "pstep\<^sup>*\<^sup>* (pipe_start 2 (replicate MAXSIZE 0))
      (two_threads q1 1 0 [Asleep (Register MYPIPE_READ), Ready] [7])"
    using stranding_reachable [of "replicate MAXSIZE 0"] by auto
  have "case Register MYPIPE_READ of Register _ \<Rightarrow> (1 :: int) \<le> 0 \<or> (0 :: int) \<le> 0 | _ \<Rightarrow> True"
    using pipe_never_misses_a_wakeup [OF r, of 0 "Register MYPIPE_READ"] by simp
  then show ?thesis using r by (intro exI [of _ "two_threads q1 1 0 [Asleep (Register MYPIPE_READ), Ready] [7]"]) simp
qed

lemma pipe_read_and_write_witness:
  "read_loop 2 \<lparr>queue = \<lparr>qdata = replicate MAXSIZE 9, qhead = 0, qtail = 3\<rparr>, count_rd = 1, count_wr = 0\<rparr>
     = Some (Returns 2 [9, 9] \<lparr>queue = \<lparr>qdata = replicate MAXSIZE 9, qhead = 2, qtail = 3\<rparr>, count_rd = 1, count_wr = 0\<rparr> True)"
proof -
  let ?me = "\<lparr>queue = \<lparr>qdata = replicate MAXSIZE 9, qhead = 0, qtail = 3\<rparr>, count_rd = 1, count_wr = 0\<rparr>"
  have r: "ring_rep MAXSIZE (queue ?me) [9, 9, 9]"
    by (auto simp: ring_rep_def MAXSIZE_def less_Suc_eq)
  have "\<exists>q'. read_loop 2 ?me = Some (Returns 2 [9, 9] (?me\<lparr>queue := q'\<rparr>) True)"
    using pipe_read_and_write [OF r, of 2] by auto
  moreover have "read_items 2 (queue ?me) = Some ([9, 9], \<lparr>qdata = replicate MAXSIZE 9, qhead = 2, qtail = 3\<rparr>)"
    by (simp add: numeral_2_eq_2 q_dequeue_def q_isempty_def MAXSIZE_def)
  ultimately show ?thesis by (simp add: read_loop_def split: if_splits)
qed

lemma register_misses_the_writer_witness:
  "\<exists>s. pstep\<^sup>*\<^sup>* (pipe_start 2 (replicate MAXSIZE 0)) s \<and> ring_rep MAXSIZE (queue (pipe s)) [7] \<and> stranded 0 s"
  using register_misses_the_writer [of "replicate MAXSIZE 0"] by auto

end
