(* ===== verification/ThreadPool.thy ===== *)
theory ThreadPool
  imports Prelude
begin

text \<open>
  The thread pool \<open>3.ybx/3.apue/8.thread/posix/32.threadpool.c\<close>.  Jobs are nodes of a doubly linked list
  in a store of addresses (0 is the null pointer); \<open>head\<close> is the newest and \<open>tail\<close> the oldest.  A worker
  is a thread that is at the top of its loop (\<open>AtLoop\<close>), in \<open>sem_wait\<close> (\<open>Waiting\<close>), past it
  (\<open>GotSem\<close>), running a job (\<open>Running\<close>) or finished (\<open>Exited\<close>).  What runs with the
  mutex held is one step; a worker that returns without unlocking leaves it \<open>locked\<close> for ever.
  The functions that are run, with their arguments, are recorded in \<open>ran\<close>, the calls of \<open>tp_add_work\<close> in
  \<open>added\<close>; a job function does not use the pool itself.
\<close>

section \<open>State\<close>

record 'a thread_pool_job =
  job_fun :: 'a
  pre :: nat
  nxt :: nat

record 'a thread_pool_job_queue =
  store :: "nat \<Rightarrow> 'a thread_pool_job option"
  qhd :: nat
  qtl :: nat
  num :: int
  quene_sem :: nat

datatype 'a worker = AtLoop | Waiting | GotSem | Running nat 'a | Exited

record 'a thread_pool =
  job_queue :: "'a thread_pool_job_queue"
  workers :: "'a worker list"
  tp_alive :: bool
  locked :: bool
  added :: "'a list"
  ran :: "'a list"

definition tp_job_quene_init :: "(nat \<Rightarrow> 'a thread_pool_job option) \<Rightarrow> 'a thread_pool_job_queue" where
  "tp_job_quene_init h = \<lparr>store = h, qhd = 0, qtl = 0, num = 0, quene_sem = 0\<rparr>"

text \<open>The three flags are the successes of \<open>malloc\<close>; the workers start at the top of their loop.
  \<open>malloc\<close> of the semaphore is not checked: when it fails, \<open>sem_init\<close> writes through null.\<close>

definition tp_init :: "bool \<Rightarrow> bool \<Rightarrow> bool \<Rightarrow> bool \<Rightarrow> int \<Rightarrow> (nat \<Rightarrow> 'a thread_pool_job option) \<Rightarrow> 'a thread_pool option option" where
  "tp_init m_pool m_threads m_queue m_sem thread_num h =
     (let n = (if thread_num < 1 then 1 else thread_num) in
      if \<not> m_pool then Some None
      else if \<not> m_threads then Some None
      else if \<not> m_queue then Some None
      else if \<not> m_sem then None
      else Some (Some \<lparr>job_queue = tp_job_quene_init h, workers = replicate (nat n) AtLoop, tp_alive = True,
        locked = False, added = [], ran = []\<rparr>))"

section \<open>The queue\<close>

definition upd :: "nat \<Rightarrow> ('a thread_pool_job \<Rightarrow> 'a thread_pool_job) \<Rightarrow> 'a thread_pool_job_queue \<Rightarrow> 'a thread_pool_job_queue option" where
  "upd p f q = do { j \<leftarrow> store q p; Some (q\<lparr>store := (store q)(p := Some (f j))\<rparr>) }"

definition tp_job_quene_add :: "nat \<Rightarrow> 'a thread_pool_job_queue \<Rightarrow> 'a thread_pool_job_queue option" where
  "tp_job_quene_add new_job q = do {
     q1 \<leftarrow> upd new_job (\<lambda>j. j\<lparr>pre := 0, nxt := 0\<rparr>) q;
     let old_head_job = qhd q1;
     q2 \<leftarrow> (if old_head_job = 0 then Some (q1\<lparr>qhd := new_job, qtl := new_job\<rparr>)
            else do {
              qa \<leftarrow> upd old_head_job (\<lambda>j. j\<lparr>pre := new_job\<rparr>) q1;
              qb \<leftarrow> upd new_job (\<lambda>j. j\<lparr>nxt := old_head_job\<rparr>) qa;
              Some (qb\<lparr>qhd := new_job\<rparr>) });
     n \<leftarrow> chk (num q2 + 1);
     Some (q2\<lparr>num := n, quene_sem := quene_sem q2 + 1\<rparr>) }"

definition tp_get_lastjob :: "'a thread_pool_job_queue \<Rightarrow> nat" where
  "tp_get_lastjob q = qtl q"

definition tp_delete_lastjob :: "'a thread_pool_job_queue \<Rightarrow> (int \<times> 'a thread_pool_job_queue) option" where
  "tp_delete_lastjob q =
     (let last_job = qtl q in
      if num q = 0 then Some (- 1, q)
      else do {
        q1 \<leftarrow> (if num q = 1 then Some (q\<lparr>qhd := 0, qtl := 0\<rparr>)
               else do {
                 l \<leftarrow> store q last_job;
                 qa \<leftarrow> upd (pre l) (\<lambda>j. j\<lparr>nxt := 0\<rparr>) q;
                 l1 \<leftarrow> store qa last_job;
                 Some (qa\<lparr>qtl := pre l1\<rparr>) });
        n \<leftarrow> chk (num q1 - 1);
        Some (0, q1\<lparr>num := n\<rparr>) })"

text \<open>\<open>mem\<close> is the address \<open>malloc\<close> returns, unused before, or 0; then the program exits (\<open>Some None\<close>).\<close>

definition tp_add_work :: "nat \<Rightarrow> 'a \<Rightarrow> 'a thread_pool \<Rightarrow> 'a thread_pool option option" where
  "tp_add_work mem f tp =
     (if mem = 0 then Some None
      else do {
        let q = job_queue tp;
        q1 \<leftarrow> tp_job_quene_add mem (q\<lparr>store := (store q)(mem := Some \<lparr>job_fun = f, pre = 0, nxt = 0\<rparr>)\<rparr>);
        Some (Some (tp\<lparr>job_queue := q1, added := added tp @ [f]\<rparr>)) })"

section \<open>Workers\<close>

text \<open>The step of \<open>tp_thread_func\<close> from the point where a worker is; \<open>None\<close> is undefined behaviour.
  \<open>can_step\<close> says that it is not blocked in \<open>sem_wait\<close> or at the mutex.\<close>

definition can_step :: "'a thread_pool \<Rightarrow> 'a worker \<Rightarrow> bool" where
  "can_step tp w = (case w of
     AtLoop \<Rightarrow> True
   | Waiting \<Rightarrow> 0 < quene_sem (job_queue tp)
   | GotSem \<Rightarrow> tp_alive tp \<longrightarrow> \<not> locked tp
   | Running _ _ \<Rightarrow> True
   | Exited \<Rightarrow> False)"

definition take_job :: "nat \<Rightarrow> 'a thread_pool \<Rightarrow> 'a thread_pool option" where
  "take_job i tp =
     (let q = job_queue tp; job_p = tp_get_lastjob q in
      if job_p = 0 then Some (tp\<lparr>workers := (workers tp)[i := AtLoop]\<rparr>)
      else do {
        j \<leftarrow> store q job_p;
        (ret, q1) \<leftarrow> tp_delete_lastjob q;
        Some (if ret \<noteq> 0 then tp\<lparr>workers := (workers tp)[i := Exited], locked := True\<rparr>
              else tp\<lparr>job_queue := q1, workers := (workers tp)[i := Running job_p (job_fun j)]\<rparr>) })"

definition tp_thread_func :: "nat \<Rightarrow> 'a thread_pool \<Rightarrow> 'a thread_pool option" where
  "tp_thread_func i tp = (case workers tp ! i of
     AtLoop \<Rightarrow> Some (tp\<lparr>workers := (workers tp)[i := if tp_alive tp then Waiting else Exited]\<rparr>)
   | Waiting \<Rightarrow> Some (tp\<lparr>job_queue := (job_queue tp)\<lparr>quene_sem := quene_sem (job_queue tp) - 1\<rparr>,
        workers := (workers tp)[i := GotSem]\<rparr>)
   | GotSem \<Rightarrow>
       if tp_alive tp then take_job i tp
       else Some (tp\<lparr>workers := (workers tp)[i := Exited]\<rparr>)
   | Running job_p f \<Rightarrow> do {
        let q = job_queue tp;
        _ \<leftarrow> store q job_p;
        Some (tp\<lparr>job_queue := q\<lparr>store := (store q)(job_p := None)\<rparr>,
          workers := (workers tp)[i := AtLoop], ran := ran tp @ [f]\<rparr>) }
   | Exited \<Rightarrow> None)"

text \<open>Steps of the workers alone.\<close>

inductive wstep :: "'a thread_pool \<Rightarrow> 'a thread_pool \<Rightarrow> bool" where
  Work: "i < length (workers tp) \<Longrightarrow> can_step tp (workers tp ! i) \<Longrightarrow> tp_thread_func i tp = Some tp' \<Longrightarrow> wstep tp tp'"

text \<open>Steps of workers and of threads that add jobs or destroy the pool.\<close>

inductive tpstep :: "'a thread_pool \<Rightarrow> 'a thread_pool \<Rightarrow> bool" where
  Worker: "wstep tp tp' \<Longrightarrow> tpstep tp tp'"
| Add: "\<not> locked tp \<Longrightarrow> store (job_queue tp) p = None \<Longrightarrow> tp_add_work p f tp = Some (Some tp') \<Longrightarrow> tpstep tp tp'"
| Stop: "tpstep tp (tp\<lparr>tp_alive := False\<rparr>)"

section \<open>Destroying the pool\<close>

text \<open>\<open>tp_destroy\<close> first does \<open>Stop\<close>; it joins the workers one after the other, so it goes on
  only when all have exited (\<open>Some None\<close>: it waits); then it frees the jobs that are left.\<close>

partial_function (option) free_jobs :: "nat \<Rightarrow> 'a thread_pool_job_queue \<Rightarrow> 'a thread_pool_job_queue option" where
  "free_jobs current_job q =
     (if num q = 0 then Some q
      else do {
        c \<leftarrow> store q current_job;
        let q1 = q\<lparr>store := (store q)(current_job := None), qtl := pre c\<rparr>;
        n \<leftarrow> chk (num q1 - 1);
        free_jobs (qtl q1) (q1\<lparr>num := n\<rparr>) })"

definition tp_destroy :: "'a thread_pool \<Rightarrow> 'a thread_pool_job_queue option option" where
  "tp_destroy tp =
     (if \<forall>w \<in> set (workers tp). w = Exited then do {
        let q = job_queue tp;
        q1 \<leftarrow> free_jobs (qtl q) q;
        Some (Some (q1\<lparr>qhd := 0, qtl := 0\<rparr>)) }
      else Some None)"

section \<open>The list of jobs\<close>

definition hd0 :: "nat list \<Rightarrow> nat" where
  "hd0 ps = (case ps of [] \<Rightarrow> 0 | p # _ \<Rightarrow> p)"

lemma hd0_simps [simp]: "hd0 [] = 0" "hd0 (p # ps) = p"
  by (simp_all add: hd0_def)

lemma hd0_append: "hd0 (xs @ ys) = (if xs = [] then hd0 ys else hd0 xs)"
  by (simp add: hd0_def split: list.splits)

text \<open>\<open>ps\<close> are the nodes from the oldest to the newest, \<open>fs\<close> their jobs.\<close>

fun chain :: "(nat \<Rightarrow> 'a thread_pool_job option) \<Rightarrow> nat \<Rightarrow> nat list \<Rightarrow> 'a list \<Rightarrow> bool" where
  "chain h n [] [] = True"
| "chain h n (p # ps) (f # fs) = (p \<noteq> 0 \<and> h p = Some \<lparr>job_fun = f, pre = hd0 ps, nxt = n\<rparr> \<and> chain h p ps fs)"
| "chain h n _ _ = False"

definition queue_rep :: "'a thread_pool_job_queue \<Rightarrow> nat list \<Rightarrow> 'a list \<Rightarrow> bool" where
  "queue_rep q ps fs \<longleftrightarrow> chain (store q) 0 ps fs \<and> distinct ps \<and> qtl q = hd0 ps \<and> qhd q = hd0 (rev ps) \<and>
     num q = int (length ps)"

lemma jobs_chain_frame: "p \<notin> set ps \<Longrightarrow> chain (h(p := x)) n ps fs = chain h n ps fs"
  by (induction h n ps fs rule: chain.induct) auto

lemma chain_length: "chain h n ps fs \<Longrightarrow> length fs = length ps"
  by (induction h n ps fs rule: chain.induct) auto

lemma chain_alloc: "chain h n ps fs \<Longrightarrow> p \<in> set ps \<Longrightarrow> p \<noteq> 0 \<and> h p \<noteq> None"
  by (induction h n ps fs rule: chain.induct) auto

lemma chain_snoc:
  assumes "chain h n ps fs" "distinct ps" "ps \<noteq> []" "p \<notin> set ps" "p \<noteq> 0"
  shows "\<exists>j. h (last ps) = Some j \<and>
    chain (h(last ps := Some (j\<lparr>pre := p\<rparr>), p := Some \<lparr>job_fun = f, pre = 0, nxt = last ps\<rparr>)) n (ps @ [p]) (fs @ [f])"
  using assms
proof (induction h n ps fs rule: chain.induct)
  case (2 h n q ps g fs)
  show ?case
  proof (cases "ps = []")
    case True
    then have "fs = []" using chain_length [of h q ps fs] 2(2) by simp
    then show ?thesis using True 2(2-) by simp
  next
    case False
    then have q: "last ps \<noteq> q" "hd0 (ps @ [p]) = hd0 ps" using 2(3) last_in_set [OF False] by (auto simp: hd0_append False)
    obtain j where "h (last ps) = Some j"
      "chain (h(last ps := Some (j\<lparr>pre := p\<rparr>), p := Some \<lparr>job_fun = f, pre = 0, nxt = last ps\<rparr>)) q (ps @ [p]) (fs @ [f])"
      using 2(1) [OF _ _ False] 2(2-) by (simp del: fun_upd_apply) blast
    note j = this
    let ?h = "h(last ps := Some (j\<lparr>pre := p\<rparr>), p := Some \<lparr>job_fun = f, pre = 0, nxt = last ps\<rparr>)"
    have "?h q = Some \<lparr>job_fun = g, pre = hd0 (ps @ [p]), nxt = n\<rparr>" "q \<noteq> 0" "last (q # ps) = last ps"
      using q False 2(2-) by auto
    then show ?thesis using j by (simp del: fun_upd_apply)
  qed
qed auto

lemma hd0_rev: "hd0 (rev ps) = (if ps = [] then 0 else last ps)"
  by (cases ps rule: rev_cases) auto

text \<open>The two operations.\<close>

lemma add_rep:
  assumes q: "queue_rep q ps fs" and p: "store q p = None" "p \<noteq> 0"
    and r: "tp_job_quene_add p (q\<lparr>store := (store q)(p := Some \<lparr>job_fun = f, pre = 0, nxt = 0\<rparr>)\<rparr>) = Some q'"
  shows "queue_rep q' (ps @ [p]) (fs @ [f]) \<and> quene_sem q' = quene_sem q + 1 \<and>
    (\<forall>a. a \<noteq> p \<longrightarrow> a \<notin> set ps \<longrightarrow> store q' a = store q a)"
proof -
  have c: "chain (store q) 0 ps fs" "distinct ps" "p \<notin> set ps"
    using q p chain_alloc [of "store q" 0 ps fs p] by (auto simp: queue_rep_def)
  show ?thesis
  proof (cases "ps = []")
    case True
    then have "fs = []" using chain_length c(1) by fastforce
    then show ?thesis using True q p r
      by (auto simp: tp_job_quene_add_def upd_def queue_rep_def bind_eq_Some_conv chk_Some_iff)
  next
    case False
    then have l: "last ps \<noteq> p" "last ps \<in> set ps" "last ps \<noteq> 0" using c chain_alloc last_in_set by metis+
    obtain j where j: "store q (last ps) = Some j"
      "chain ((store q)(last ps := Some (j\<lparr>pre := p\<rparr>), p := Some \<lparr>job_fun = f, pre = 0, nxt = last ps\<rparr>)) 0 (ps @ [p]) (fs @ [f])"
      using chain_snoc [OF c(1,2) False c(3) p(2)] by blast
    have h: "qhd q = last ps" using q False by (simp add: queue_rep_def hd0_rev)
    have "store q' = (store q)(last ps := Some (j\<lparr>pre := p\<rparr>), p := Some \<lparr>job_fun = f, pre = 0, nxt = last ps\<rparr>)"
      "qhd q' = p" "qtl q' = qtl q" "num q' = num q + 1" "quene_sem q' = quene_sem q + 1"
      using r h l j(1) by (auto simp: tp_job_quene_add_def Let_def upd_def bind_eq_Some_conv chk_Some_iff fun_upd_twist)
    then show ?thesis using j(2) q False c l by (auto simp: queue_rep_def hd0_append)
  qed
qed

lemma delete_rep:
  assumes q: "queue_rep q (p # ps) (f # fs)" and r: "int_range (num q)"
  shows "\<exists>q'. tp_delete_lastjob q = Some (0, q') \<and> queue_rep q' ps fs \<and> quene_sem q' = quene_sem q \<and>
    (\<forall>a. a \<notin> set ps \<longrightarrow> store q' a = store q a)"
proof (cases ps)
  case Nil
  then show ?thesis using q by (cases fs) (auto simp: tp_delete_lastjob_def queue_rep_def chk_def int_range_def)
next
  case (Cons p1 ps1)
  then obtain g fs1 where fs: "fs = g # fs1" using q by (cases fs) (auto simp: queue_rep_def)
  have "chk (num q - 1) = Some (int (length ps))" using q r by (simp add: queue_rep_def chk_def int_range_def)
  then show ?thesis using q Cons fs
    by (auto simp: tp_delete_lastjob_def queue_rep_def upd_def jobs_chain_frame hd0_append)
qed

section \<open>Invariant\<close>

fun node_of :: "'a worker \<Rightarrow> nat list" where
  "node_of (Running p f) = [p]"
| "node_of _ = []"

fun fun_of :: "'a worker \<Rightarrow> 'a list" where
  "fun_of (Running p f) = [f]"
| "fun_of _ = []"

definition run_nodes :: "'a worker list \<Rightarrow> nat list" where
  "run_nodes ws = concat (map node_of ws)"

definition run_funs :: "'a worker list \<Rightarrow> 'a list" where
  "run_funs ws = concat (map fun_of ws)"

definition got :: "'a worker list \<Rightarrow> nat" where
  "got ws = length (filter (\<lambda>w. w = GotSem) ws)"

lemma run_nodes_simps [simp]:
  "run_nodes [] = []" "run_nodes (w # ws) = node_of w @ run_nodes ws" "run_nodes (us @ vs) = run_nodes us @ run_nodes vs"
  by (simp_all add: run_nodes_def)

lemma run_funs_simps [simp]:
  "run_funs [] = []" "run_funs (w # ws) = fun_of w @ run_funs ws" "run_funs (us @ vs) = run_funs us @ run_funs vs"
  by (simp_all add: run_funs_def)

lemma got_simps [simp]: "got [] = 0" "got (w # ws) = (if w = GotSem then 1 else 0) + got ws"
  "got (us @ vs) = got us + got vs"
  by (simp_all add: got_def)

definition jobs_ok :: "'a thread_pool \<Rightarrow> nat list \<Rightarrow> 'a list \<Rightarrow> bool" where
  "jobs_ok tp ps fs \<longleftrightarrow> queue_rep (job_queue tp) ps fs \<and> int_range (num (job_queue tp)) \<and>
     distinct (ps @ run_nodes (workers tp)) \<and>
     (\<forall>p \<in> set (run_nodes (workers tp)). store (job_queue tp) p \<noteq> None) \<and>
     (\<exists>taken_jobs. added tp = taken_jobs @ fs \<and> mset taken_jobs = mset (ran tp) + mset (run_funs (workers tp)))"

definition sem_ok :: "'a thread_pool \<Rightarrow> bool" where
  "sem_ok tp \<longleftrightarrow> \<not> locked tp \<and>
     quene_sem (job_queue tp) + got (workers tp) \<le> nat (num (job_queue tp)) \<and>
     (tp_alive tp \<longrightarrow> quene_sem (job_queue tp) + got (workers tp) = nat (num (job_queue tp)) \<and> Exited \<notin> set (workers tp)) \<and>
     workers tp \<noteq> []"

definition tp_ok :: "'a thread_pool \<Rightarrow> bool" where
  "tp_ok tp \<longleftrightarrow> (\<exists>ps fs. jobs_ok tp ps fs) \<and> sem_ok tp"

lemma tp_okI: "jobs_ok tp ps fs \<Longrightarrow> sem_ok tp \<Longrightarrow> tp_ok tp"
  by (auto simp: tp_ok_def)

lemma at_worker:
  assumes "i < length ws" "ws ! i = w"
  obtains us vs where "ws = us @ w # vs" "\<And>w'. ws[i := w'] = us @ w' # vs"
  using that [of "take i ws" "drop (Suc i) ws"] assms id_take_nth_drop [of i ws] upd_conv_take_nth_drop [of i ws] by auto

text \<open>A worker that takes a job: its wakeup stands for one that is in the queue.\<close>

lemma take_job_ok:
  assumes ok: "tp_ok tp" and w: "workers tp = us @ GotSem # vs" "\<And>w'. (workers tp)[i := w'] = us @ w' # vs"
    and a: "tp_alive tp"
  shows "\<exists>tp' p f. take_job i tp = Some tp' \<and> tp_ok tp' \<and> workers tp' = us @ Running p f # vs \<and>
    quene_sem (job_queue tp') = quene_sem (job_queue tp) \<and> added tp' = added tp \<and> tp_alive tp'"
proof -
  obtain ps fs taken_jobs where j: "queue_rep (job_queue tp) ps fs" "int_range (num (job_queue tp))"
      "distinct (ps @ run_nodes (us @ vs))" "\<forall>p \<in> set (run_nodes (us @ vs)). store (job_queue tp) p \<noteq> None"
      "added tp = taken_jobs @ fs" "mset taken_jobs = mset (ran tp) + mset (run_funs (us @ vs))"
    using ok w by (auto simp: tp_ok_def jobs_ok_def)
  have s: "\<not> locked tp" "quene_sem (job_queue tp) + 1 + got (us @ vs) = nat (num (job_queue tp))"
    using ok a w by (auto simp: tp_ok_def sem_ok_def Let_def)
  then have "ps \<noteq> []" using j(1) by (auto simp: queue_rep_def)
  then obtain p ps1 where ps: "ps = p # ps1" by (cases ps) auto
  then obtain f fs1 where fs: "fs = f # fs1" using j(1) by (cases fs) (auto simp: queue_rep_def)
  have q: "qtl (job_queue tp) = p" "p \<noteq> 0" "\<exists>x. store (job_queue tp) p = Some x \<and> job_fun x = f"
    using j(1) ps fs by (auto simp: queue_rep_def)
  obtain q' where q': "tp_delete_lastjob (job_queue tp) = Some (0, q')" "queue_rep q' ps1 fs1"
      "quene_sem q' = quene_sem (job_queue tp)" "\<forall>a. a \<notin> set ps1 \<longrightarrow> store q' a = store (job_queue tp) a"
    using delete_rep [OF _ j(2)] j(1) ps fs by blast
  let ?tp = "tp\<lparr>job_queue := q', workers := us @ Running p f # vs\<rparr>"
  have n: "num q' = num (job_queue tp) - 1" "0 \<le> num q'" using q'(2) j(1) ps by (simp_all add: queue_rep_def)
  have t: "take_job i tp = Some ?tp" using q q'(1) w(2) by (auto simp: take_job_def tp_get_lastjob_def)
  have jo: "jobs_ok ?tp ps1 fs1"
    unfolding jobs_ok_def
    using j q' q n ps fs by (auto simp: int_range_def intro!: exI [of _ "taken_jobs @ [f]"])
  have "Exited \<notin> set (workers tp)" using ok a by (simp add: tp_ok_def sem_ok_def)
  then have "sem_ok ?tp" using s q' a n w(1) by (auto simp: sem_ok_def)
  with t jo q' a show ?thesis by (auto simp: tp_ok_def)
qed

text \<open>Every step of a worker uses up energy: a wakeup brings 4.\<close>

fun weight :: "'a worker \<Rightarrow> nat" where
  "weight AtLoop = 1"
| "weight Waiting = 0"
| "weight GotSem = 3"
| "weight (Running p f) = 2"
| "weight Exited = 0"

definition energy :: "'a thread_pool \<Rightarrow> nat" where
  "energy tp = 4 * quene_sem (job_queue tp) + sum_list (map weight (workers tp))"

definition good_step :: "'a thread_pool \<Rightarrow> 'a thread_pool \<Rightarrow> bool" where
  "good_step tp tp' \<longleftrightarrow> tp_ok tp' \<and> added tp' = added tp \<and> tp_alive tp' = tp_alive tp \<and>
     length (workers tp') = length (workers tp) \<and> energy tp' < energy tp"

lemma queue_rep_sem [simp]: "queue_rep (q\<lparr>quene_sem := n\<rparr>) ps fs = queue_rep q ps fs"
  by (simp add: queue_rep_def)

lemma queue_rep_frame: "p \<notin> set ps \<Longrightarrow> queue_rep (q\<lparr>store := (store q)(p := x)\<rparr>) ps fs = queue_rep q ps fs"
  by (simp add: queue_rep_def jobs_chain_frame)

lemma finish_job_ok:
  assumes "jobs_ok tp ps fs" "workers tp = us @ Running p f # vs"
  shows "jobs_ok (tp\<lparr>job_queue := (job_queue tp)\<lparr>store := (store (job_queue tp))(p := None)\<rparr>,
      workers := us @ AtLoop # vs, ran := ran tp @ [f]\<rparr>) ps fs \<and> store (job_queue tp) p \<noteq> None"
proof -
  have "p \<notin> set ps" "store (job_queue tp) p \<noteq> None" using assms by (auto simp: jobs_ok_def)
  then show ?thesis using assms by (auto simp: jobs_ok_def queue_rep_frame)
qed

lemma worker_ok:
  assumes ok: "tp_ok tp" and i: "i < length (workers tp)" "can_step tp (workers tp ! i)"
  shows "\<exists>tp'. tp_thread_func i tp = Some tp' \<and> good_step tp tp'"
proof -
  obtain ps fs where j: "jobs_ok tp ps fs" and s: "sem_ok tp" using ok by (auto simp: tp_ok_def)
  obtain us vs where w: "workers tp = us @ (workers tp ! i) # vs" "\<And>w'. (workers tp)[i := w'] = us @ w' # vs"
    using at_worker [OF i(1) refl] by blast
  show ?thesis
  proof (cases "workers tp ! i")
    case AtLoop
    let ?tp = "tp\<lparr>workers := us @ (if tp_alive tp then Waiting else Exited) # vs\<rparr>"
    have "jobs_ok ?tp ps fs" "sem_ok ?tp" using j s w(1) AtLoop by (simp_all add: jobs_ok_def sem_ok_def)
    then have "good_step tp ?tp" using w(1) AtLoop by (auto simp: good_step_def energy_def intro: tp_okI)
    then show ?thesis using AtLoop w(2) by (simp add: tp_thread_func_def)
  next
    case Waiting
    let ?q = "(job_queue tp)\<lparr>quene_sem := quene_sem (job_queue tp) - 1\<rparr>"
    let ?tp = "tp\<lparr>job_queue := ?q, workers := us @ GotSem # vs\<rparr>"
    have p: "0 < quene_sem (job_queue tp)" using i(2) Waiting by (simp add: can_step_def)
    have "jobs_ok ?tp ps fs" "sem_ok ?tp" using j s p w(1) Waiting by (auto simp: jobs_ok_def sem_ok_def)
    then have "good_step tp ?tp" using p w(1) Waiting by (auto simp: good_step_def energy_def intro: tp_okI)
    then show ?thesis using Waiting w(2) by (simp add: tp_thread_func_def)
  next
    case GotSem
    show ?thesis
    proof (cases "tp_alive tp")
      case True
      then obtain tp' p f where "take_job i tp = Some tp'" "tp_ok tp'" "workers tp' = us @ Running p f # vs"
          "quene_sem (job_queue tp') = quene_sem (job_queue tp)" "added tp' = added tp" "tp_alive tp'"
        using take_job_ok [OF ok _ w(2)] w(1) GotSem by auto
      then show ?thesis using True GotSem w(1) by (auto simp: tp_thread_func_def good_step_def energy_def)
    next
      case False
      let ?tp = "tp\<lparr>workers := us @ Exited # vs\<rparr>"
      have "jobs_ok ?tp ps fs" "sem_ok ?tp" using j s w(1) GotSem False by (auto simp: jobs_ok_def sem_ok_def)
      then have "good_step tp ?tp" using w(1) GotSem by (auto simp: good_step_def energy_def intro: tp_okI)
      then show ?thesis using GotSem w(2) False by (simp add: tp_thread_func_def)
    qed
  next
    case (Running p f)
    let ?tp = "tp\<lparr>job_queue := (job_queue tp)\<lparr>store := (store (job_queue tp))(p := None)\<rparr>,
      workers := us @ AtLoop # vs, ran := ran tp @ [f]\<rparr>"
    have "jobs_ok ?tp ps fs" "store (job_queue tp) p \<noteq> None" "sem_ok ?tp"
      using finish_job_ok [OF j] s w(1) Running by (simp_all add: sem_ok_def)
    then have "good_step tp ?tp" using w(1) Running by (auto simp: good_step_def energy_def intro: tp_okI)
    then show ?thesis using Running w(2) \<open>store (job_queue tp) p \<noteq> None\<close> by (auto simp: tp_thread_func_def Let_def)
  qed (use i in \<open>simp add: can_step_def\<close>)
qed

lemma wstep_ok: "wstep tp tp' \<Longrightarrow> tp_ok tp \<Longrightarrow> good_step tp tp'"
  by (auto elim!: wstep.cases dest!: worker_ok)

lemma add_work_ok:
  assumes "tp_ok tp" "store (job_queue tp) p = None" "tp_add_work p f tp = Some (Some tp')"
  shows "tp_ok tp' \<and> added tp' = added tp @ [f]"
proof -
  obtain ps fs where j: "jobs_ok tp ps fs" and s: "sem_ok tp" using assms(1) by (auto simp: tp_ok_def)
  let ?q = "job_queue tp"
  obtain q' where q': "tp_job_quene_add p (?q\<lparr>store := (store ?q)(p := Some \<lparr>job_fun = f, pre = 0, nxt = 0\<rparr>)\<rparr>) = Some q'"
      "tp' = tp\<lparr>job_queue := q', added := added tp @ [f]\<rparr>" "p \<noteq> 0"
    using assms(3) by (auto simp: tp_add_work_def Let_def bind_eq_Some_conv split: if_splits)
  have r: "queue_rep q' (ps @ [p]) (fs @ [f])" "quene_sem q' = quene_sem ?q + 1"
      "\<forall>a. a \<noteq> p \<longrightarrow> a \<notin> set ps \<longrightarrow> store q' a = store ?q a"
    using add_rep [OF _ assms(2) q'(3,1)] j by (auto simp: jobs_ok_def)
  have n: "num q' = num ?q + 1" "0 \<le> num ?q" using r(1) j by (simp_all add: jobs_ok_def queue_rep_def)
  have "int_range (num q')" using q'(1) by (auto simp: tp_job_quene_add_def Let_def bind_eq_Some_conv chk_Some_iff)
  moreover have "p \<notin> set ps" "p \<notin> set (run_nodes (workers tp))"
    using j assms(2) chain_alloc [of "store ?q" 0 ps fs p] by (auto simp: jobs_ok_def queue_rep_def)
  ultimately have "jobs_ok tp' (ps @ [p]) (fs @ [f])"
    using j r q'(2) unfolding jobs_ok_def by auto
  moreover have "sem_ok tp'" using s r(2) n q'(2) by (auto simp: sem_ok_def Let_def)
  ultimately show ?thesis using q'(2) by (auto simp: tp_ok_def)
qed

lemma tpstep_ok:
  assumes "tpstep tp tp'" "tp_ok tp"
  shows "tp_ok tp'"
  using assms(1)
proof cases
  case Worker
  show ?thesis using wstep_ok [OF Worker assms(2)] by (simp add: good_step_def)
next
  case (Add p f)
  show ?thesis using add_work_ok [OF assms(2) Add(2,3)] by simp
next
  case Stop
  then show ?thesis using assms(2) by (auto simp: tp_ok_def jobs_ok_def sem_ok_def)
qed

lemma init_ok: "tp_init True True True True n h = Some (Some tp) \<Longrightarrow> tp_ok tp \<and> tp_alive tp \<and> workers tp \<noteq> [] \<and> added tp = []"
proof -
  assume i: "tp_init True True True True n h = Some (Some tp)"
  have "run_nodes (replicate k (AtLoop :: 'a worker)) = []" "run_funs (replicate k (AtLoop :: 'a worker)) = []" "got (replicate k (AtLoop :: 'a worker)) = 0" for k
    by (induction k) auto
  moreover have "tp = \<lparr>job_queue = tp_job_quene_init h, workers = replicate (nat (if n < 1 then 1 else n)) AtLoop,
      tp_alive = True, locked = False, added = [], ran = []\<rparr>" "0 < nat (if n < 1 then 1 else n)"
    using i by (simp_all add: tp_init_def Let_def)
  ultimately have "jobs_ok tp [] []" "sem_ok tp"
    by (simp_all add: tp_job_quene_init_def jobs_ok_def queue_rep_def sem_ok_def int_range_def del: zero_less_nat_eq)
  then show ?thesis using i by (cases "n < 1") (auto simp: tp_ok_def tp_init_def Let_def)
qed

lemma reachable_tp_ok:
  assumes "tp_init True True True True n h = Some (Some tp0)" "tpstep\<^sup>*\<^sup>* tp0 tp"
  shows "tp_ok tp"
  using assms(2) by (induction rule: rtranclp_induct) (use init_ok [OF assms(1)] tpstep_ok in blast)+

section \<open>No job is left behind\<close>

lemma energy_bound: "tp_ok tp \<Longrightarrow> energy tp \<le> 4 * nat (num (job_queue tp)) + 3 * length (workers tp)"
proof -
  have "sum_list (map weight ws) \<le> 3 * length ws" for ws :: "'a worker list"
  proof (induction ws)
    case (Cons w ws)
    moreover have "weight w \<le> 3" by (cases w) auto
    ultimately show ?case by simp
  qed simp
  moreover assume "tp_ok tp"
  then have "quene_sem (job_queue tp) \<le> nat (num (job_queue tp))" by (auto simp: tp_ok_def sem_ok_def)
  ultimately show ?thesis by (simp add: energy_def add_mono)
qed

lemma wsteps_ok:
  "(wstep ^^ k) tp tp' \<Longrightarrow> tp_ok tp \<Longrightarrow>
   tp_ok tp' \<and> added tp' = added tp \<and> tp_alive tp' = tp_alive tp \<and> k + energy tp' \<le> energy tp"
proof (induction k arbitrary: tp')
  case (Suc k)
  then obtain tp1 where 1: "(wstep ^^ k) tp tp1" "wstep tp1 tp'" by auto
  then show ?case using Suc.IH [OF 1(1) Suc.prems(2)] wstep_ok [OF 1(2)] by (auto simp: good_step_def)
qed simp

lemma stuck_pool:
  assumes ok: "tp_ok tp" and a: "tp_alive tp" and st: "\<forall>tp'. \<not> wstep tp tp'"
  shows "num (job_queue tp) = 0 \<and> mset (ran tp) = mset (added tp) \<and> (\<forall>w \<in> set (workers tp). w = Waiting)"
proof -
  obtain ps fs where j: "jobs_ok tp ps fs" and s: "sem_ok tp" using ok by (auto simp: tp_ok_def)
  have blocked: "\<not> can_step tp w" if w: "w \<in> set (workers tp)" for w
  proof
    assume c: "can_step tp w"
    obtain i where i: "i < length (workers tp)" "workers tp ! i = w" using w by (auto simp: in_set_conv_nth)
    then show False using worker_ok [OF ok i(1)] c st wstep.intros [OF i(1)] by auto
  qed
  have all: "w = Waiting \<and> quene_sem (job_queue tp) = 0" if "w \<in> set (workers tp)" for w
    using blocked [OF that] s a that by (cases w) (auto simp: can_step_def sem_ok_def)
  moreover have "hd (workers tp) \<in> set (workers tp)" using s by (simp add: sem_ok_def)
  ultimately have "set (workers tp) \<subseteq> {Waiting}" "quene_sem (job_queue tp) = 0" by blast+
  moreover have "got ws = 0 \<and> run_funs ws = []" if "set ws \<subseteq> {Waiting}" for ws :: "'a worker list"
    using that by (induction ws) auto
  ultimately have n: "nat (num (job_queue tp)) = 0" "run_funs (workers tp) = []" using s a by (auto simp: sem_ok_def)
  then have "ps = []" using j by (simp add: jobs_ok_def queue_rep_def)
  then show ?thesis using n j all by (cases fs) (auto simp: jobs_ok_def queue_rep_def)
qed

section \<open>Destroying\<close>

lemma free_jobs_chain:
  "chain (store q) n ps fs \<Longrightarrow> distinct ps \<Longrightarrow> num q = int (length ps) \<Longrightarrow> int_range (num q) \<Longrightarrow>
   \<exists>q'. free_jobs (hd0 ps) q = Some q' \<and> num q' = 0 \<and> (\<forall>p. store q' p = (if p \<in> set ps then None else store q p))"
proof (induction ps arbitrary: q n fs)
  case Nil
  then show ?case by (simp add: free_jobs.simps)
next
  case (Cons p ps)
  then obtain f fs1 where fs: "fs = f # fs1" by (cases fs) auto
  let ?q = "q\<lparr>store := (store q)(p := None), qtl := hd0 ps, num := num q - 1\<rparr>"
  have c: "chain (store ?q) p ps fs1" "store q p = Some \<lparr>job_fun = f, pre = hd0 ps, nxt = n\<rparr>"
    using Cons.prems fs by (simp_all add: jobs_chain_frame)
  have k: "num q \<noteq> 0" "chk (num q - 1) = Some (num q - 1)" "int_range (num ?q)"
    using Cons.prems(3,4) by (simp_all add: chk_def int_range_def)
  have "free_jobs p q = free_jobs (hd0 ps) ?q"
    using c(2) k(1,2) by (subst free_jobs.simps) (simp add: Let_def)
  moreover obtain q' where "free_jobs (hd0 ps) ?q = Some q'" "num q' = 0"
      "\<forall>a. store q' a = (if a \<in> set ps then None else store ?q a)"
    using Cons.IH [OF c(1) _ _ k(3)] Cons.prems(2,3) by auto
  ultimately show ?case by (intro exI [of _ q']) auto
qed

lemma idle_reachable:
  assumes "workers tp0 = replicate n AtLoop" "tp_alive tp0" "k \<le> n"
  shows "tpstep\<^sup>*\<^sup>* tp0 (tp0\<lparr>workers := replicate k Waiting @ replicate (n - k) AtLoop\<rparr>)"
  using assms(3)
proof (induction k)
  case 0
  then show ?case using assms(1) by (cases tp0) simp
next
  case (Suc k)
  let ?tp = "tp0\<lparr>workers := replicate k Waiting @ replicate (n - k) AtLoop\<rparr>"
  have "wstep ?tp (tp0\<lparr>workers := (replicate k Waiting @ replicate (n - k) AtLoop)[k := Waiting]\<rparr>)"
    by (rule wstep.intros [of k]) (use Suc.prems assms(2) in \<open>simp_all add: can_step_def tp_thread_func_def nth_append\<close>)
  moreover have "(replicate k Waiting @ replicate (n - k) AtLoop)[k := Waiting]
      = replicate (Suc k) Waiting @ replicate (n - Suc k) (AtLoop :: 'a worker)"
  proof -
    have "n - k = Suc (n - Suc k)" using Suc.prems by simp
    then show ?thesis by (simp add: list_update_append replicate_app_Cons_same)
  qed
  ultimately show ?case using Suc by (metis Suc_leD rtranclp.rtrancl_into_rtrancl tpstep.Worker)
qed

lemma idle_stuck:
  "\<forall>w \<in> set (workers tp). w = Waiting \<Longrightarrow> quene_sem (job_queue tp) = 0 \<Longrightarrow> \<not> wstep tp tp'"
  by (fastforce elim!: wstep.cases simp: can_step_def dest: nth_mem)

section \<open>Properties\<close>


text \<open>
  C6. Every job is run: from any reachable state of a live pool the workers can take at most four steps for
  each queued job and three for each worker, however they are scheduled, and when none can go on, every job that
  was ever added has been run exactly once and the queue is empty.
\<close>
theorem pool_runs_every_job:
  assumes "tp_init True True True True n h = Some (Some tp0)" and "tpstep\<^sup>*\<^sup>* tp0 tp" and "tp_alive tp"
    and "(wstep ^^ k) tp tp'"
  shows "k \<le> 4 * nat (num (job_queue tp)) + 3 * length (workers tp)
    \<and> ((\<forall>tp2. \<not> wstep tp' tp2) \<longrightarrow>
        mset (ran tp') = mset (added tp) \<and> num (job_queue tp') = 0 \<and> (\<forall>w \<in> set (workers tp'). w = Waiting))"
proof -
  have ok: "tp_ok tp" by (rule reachable_tp_ok [OF assms(1,2)])
  have "tp_ok tp'" "added tp' = added tp" "tp_alive tp'" "k + energy tp' \<le> energy tp"
    using wsteps_ok [OF assms(4) ok] assms(3) by auto
  then show ?thesis using energy_bound [OF ok] stuck_pool [of tp'] by auto
qed

text \<open>
  \<open>tp_destroy\<close> does not wake the workers: on a fresh pool whose workers have all gone to sleep on the semaphore,
  no worker can move after \<open>tp_alive\<close> is cleared, so the joins do not end unless jobs are added.  Only where all workers have
  exited does it go on, and then it frees every job still queued.
\<close>
theorem destroy_of_an_idle_pool_hangs:
  assumes "tp_init True True True True n h = Some (Some tp0)"
  shows "(\<exists>tp. tpstep\<^sup>*\<^sup>* tp0 tp \<and> \<not> tp_alive tp \<and> (\<forall>tp'. \<not> wstep tp tp') \<and> tp_destroy tp = Some None)
    \<and> (\<forall>tp ps fs. tpstep\<^sup>*\<^sup>* tp0 tp \<and> queue_rep (job_queue tp) ps fs \<and> (\<forall>w \<in> set (workers tp). w = Exited) \<longrightarrow>
        (\<exists>q. tp_destroy tp = Some (Some q) \<and> num q = 0 \<and> (\<forall>p \<in> set ps. store q p = None)))"
proof (intro conjI allI impI; (elim conjE)?)
  obtain m where m: "workers tp0 = replicate m AtLoop" "tp_alive tp0" "m \<noteq> 0" "quene_sem (job_queue tp0) = 0"
    using assms init_ok [OF assms] by (auto simp: tp_init_def Let_def tp_job_quene_init_def)
  let ?tp = "tp0\<lparr>workers := replicate m Waiting\<rparr>"
  have "tpstep\<^sup>*\<^sup>* tp0 ?tp" using idle_reachable [OF m(1,2), of m] by simp
  then have "tpstep\<^sup>*\<^sup>* tp0 (?tp\<lparr>tp_alive := False\<rparr>)"
    by (rule rtranclp.rtrancl_into_rtrancl) (rule tpstep.Stop)
  moreover have "\<not> wstep (?tp\<lparr>tp_alive := False\<rparr>) tp'" for tp' by (rule idle_stuck) (use m in simp_all)
  moreover have "tp_destroy (?tp\<lparr>tp_alive := False\<rparr>) = Some None" using m(3) by (auto simp: tp_destroy_def)
  ultimately show "\<exists>tp. tpstep\<^sup>*\<^sup>* tp0 tp \<and> \<not> tp_alive tp \<and> (\<forall>tp'. \<not> wstep tp tp') \<and> tp_destroy tp = Some None"
    by (intro exI [of _ "?tp\<lparr>tp_alive := False\<rparr>"]) simp
next
  fix tp ps fs
  assume r: "tpstep\<^sup>*\<^sup>* tp0 tp" and q: "queue_rep (job_queue tp) ps fs" and w: "\<forall>w \<in> set (workers tp). w = Exited"
  have "int_range (num (job_queue tp))" using reachable_tp_ok [OF assms r] by (auto simp: tp_ok_def jobs_ok_def)
  then obtain q' where "free_jobs (qtl (job_queue tp)) (job_queue tp) = Some q'" "num q' = 0"
      "\<forall>p. store q' p = (if p \<in> set ps then None else store (job_queue tp) p)"
    using free_jobs_chain [of "job_queue tp" 0 ps fs] q by (auto simp: queue_rep_def)
  then show "\<exists>q. tp_destroy tp = Some (Some q) \<and> num q = 0 \<and> (\<forall>p \<in> set ps. store q p = None)"
    using w by (auto simp: tp_destroy_def)
qed

section \<open>Witnesses\<close>

definition small_pool :: "nat thread_pool" where
  "small_pool = \<lparr>job_queue = \<lparr>store = \<lambda>_. None, qhd = 0, qtl = 0, num = 0, quene_sem = 0\<rparr>, workers = [AtLoop],
     tp_alive = True, locked = False, added = [], ran = []\<rparr>"

definition small_pool_job :: "nat thread_pool" where
  "small_pool_job = small_pool\<lparr>added := [5], job_queue :=
     \<lparr>store = (\<lambda>_. None)(8 := Some \<lparr>job_fun = 5, pre = 0, nxt = 0\<rparr>), qhd = 8, qtl = 8, num = 1, quene_sem = 1\<rparr>\<rparr>"

text \<open>The only worker goes on for some steps.\<close>

fun solo :: "nat \<Rightarrow> 'a thread_pool \<Rightarrow> 'a thread_pool option" where
  "solo 0 tp = Some tp"
| "solo (Suc k) tp =
     (if workers tp \<noteq> [] \<and> can_step tp (workers tp ! 0) then do { tp1 \<leftarrow> tp_thread_func 0 tp; solo k tp1 } else None)"

lemma solo_wsteps: "solo k tp = Some tp' \<Longrightarrow> (wstep ^^ k) tp tp'"
proof (induction k arbitrary: tp)
  case (Suc k)
  then obtain tp1 where "wstep tp tp1" "solo k tp1 = Some tp'"
    by (auto simp: bind_eq_Some_conv split: if_splits intro: wstep.intros [of 0])
  then show ?case using Suc.IH by (metis relpowp_Suc_I2)
qed simp

lemma small_pool_init: "tp_init True True True True (- 3) (\<lambda>_. None) = Some (Some small_pool)"
  by (simp add: tp_init_def tp_job_quene_init_def small_pool_def)

lemma small_pool_run: "tpstep\<^sup>*\<^sup>* small_pool small_pool_job"
proof -
  have "tp_add_work 8 5 small_pool = Some (Some small_pool_job)"
    by (simp add: tp_add_work_def tp_job_quene_add_def upd_def small_pool_def small_pool_job_def chk_def int_range_def Let_def)
  then show ?thesis
    by (intro r_into_rtranclp tpstep.Add [of small_pool 8 5]) (simp_all add: small_pool_def)
qed


lemma pool_runs_every_job_witness:
  "\<exists>tp'. (wstep ^^ 5) small_pool_job tp' \<and> (5 :: nat) \<le> 4 * 1 + 3 * 1 \<and> mset (ran tp') = {#5#} \<and> num (job_queue tp') = 0"
proof -
  obtain tp' where "solo 5 small_pool_job = Some tp'" and st: "workers tp' = [Waiting]" "quene_sem (job_queue tp') = 0"
    by (simp add: eval_nat_numeral can_step_def tp_thread_func_def take_job_def tp_get_lastjob_def tp_delete_lastjob_def
        small_pool_job_def small_pool_def Let_def chk_def int_range_def)
  then have r: "(wstep ^^ 5) small_pool_job tp'" by (simp add: solo_wsteps)
  have "\<not> wstep tp' tp2" for tp2 by (rule idle_stuck) (simp_all add: st)
  then show ?thesis
    using pool_runs_every_job [OF small_pool_init small_pool_run _ r] r
    by (intro exI [of _ tp']) (simp add: small_pool_job_def small_pool_def)
qed

lemma destroy_of_an_idle_pool_hangs_witness:
  "\<exists>tp. tpstep\<^sup>*\<^sup>* small_pool tp \<and> tp_destroy tp = Some None \<and> (\<forall>tp'. \<not> wstep tp tp')"
  using destroy_of_an_idle_pool_hangs [OF small_pool_init] by blast

end
