(* ===== verification/TokenBucket.thy ===== *)
theory TokenBucket
  imports AnyTimer
begin

text \<open>
  The token buckets \<open>3.ybx/3.apue/7.sginal/22_37.mytbf/37.mytbf_sigaction_and_setitimer/mytbf.c\<close>, filled by
  \<open>SIGALRM\<close> once a second, and \<open>8.thread/posix/16.mytbf_mt_cond/mytbf.c\<close>, filled by a thread.  Buckets live in a store of
  addresses, 0 is null; \<open>job\<close> has the addresses of the buckets in use.  \<open>mytbf_fetchtoken\<close> is not protected against
  the signal: its argument says with which \<open>si_code\<close>s the handler runs during the wait and between its
  accesses to \<open>token\<close>, of which \<open>-=\<close> makes two, a load and a store.
\<close>

section \<open>The module driven by signals\<close>

definition MYTBF_MAX :: nat where "MYTBF_MAX = 1024"

record mytbf_st =
  cps :: int
  burst :: int
  token :: int
  tb_pos :: nat

record tb_module =
  tb_inited :: bool
  tb_mem :: "nat \<Rightarrow> mytbf_st option"
  tb_job :: "nat list"

definition set_bucket :: "nat \<Rightarrow> mytbf_st \<Rightarrow> tb_module \<Rightarrow> tb_module" where
  "set_bucket p me s = s\<lparr>tb_mem := (tb_mem s)(p := Some me)\<rparr>"

definition tb_get_free_pos :: "tb_module \<Rightarrow> nat option" where
  "tb_get_free_pos s = find (\<lambda>i. tb_job s ! i = 0) [0..<MYTBF_MAX]"

text \<open>The body of the loop of the handler, and \<open>mytbf_returntoken\<close>: add, then clip to \<open>burst\<close>.\<close>

definition add_token :: "int \<Rightarrow> mytbf_st \<Rightarrow> mytbf_st option" where
  "add_token n me = do {
     t \<leftarrow> chk (token me + n);
     let me1 = me\<lparr>token := t\<rparr>;
     Some (if token me1 > burst me1 then me1\<lparr>token := burst me1\<rparr> else me1) }"

fun refill :: "nat list \<Rightarrow> (nat \<Rightarrow> mytbf_st option) \<Rightarrow> (nat \<Rightarrow> mytbf_st option) option" where
  "refill [] m = Some m"
| "refill (p # ps) m =
     (if p \<noteq> 0 then do {
        me \<leftarrow> m p;
        me1 \<leftarrow> add_token (cps me) me;
        refill ps (m(p := Some me1)) }
      else refill ps m)"

definition alrm_handler :: "int \<Rightarrow> tb_module \<Rightarrow> tb_module option" where
  "alrm_handler code s =
     (if code \<noteq> SI_KERNEL then Some s
      else do { m \<leftarrow> refill (tb_job s) (tb_mem s); Some (s\<lparr>tb_mem := m\<rparr>) })"

fun alrm_handlers :: "int list \<Rightarrow> tb_module \<Rightarrow> tb_module option" where
  "alrm_handlers [] s = Some s"
| "alrm_handlers (c # cs) s = do { s1 \<leftarrow> alrm_handler c s; alrm_handlers cs s1 }"

text \<open>\<open>free\<close> of all buckets at exit.\<close>

fun free_buckets :: "nat list \<Rightarrow> (nat \<Rightarrow> mytbf_st option) \<Rightarrow> (nat \<Rightarrow> mytbf_st option) option" where
  "free_buckets [] m = Some m"
| "free_buckets (p # ps) m =
     (if p \<noteq> 0 then do { _ \<leftarrow> m p; free_buckets ps (m(p := None)) } else free_buckets ps m)"

definition tb_module_unload :: "tb_module \<Rightarrow> tb_module option" where
  "tb_module_unload s = do {
     m \<leftarrow> free_buckets (tb_job s) (tb_mem s);
     Some (s\<lparr>tb_mem := m, tb_job := replicate MYTBF_MAX 0\<rparr>) }"

text \<open>\<open>os\<close> says that the system calls of \<open>module_load\<close> succeed (else the program exits: \<open>None\<close> as the
  result); \<open>mem\<close> is the address from \<open>malloc\<close> or 0.\<close>

definition mytbf_init :: "bool \<Rightarrow> nat \<Rightarrow> int \<Rightarrow> int \<Rightarrow> tb_module \<Rightarrow> nat option \<times> tb_module" where
  "mytbf_init os mem c b s =
     (if \<not> tb_inited s \<and> \<not> os then (None, s)
      else let s1 = s\<lparr>tb_inited := True\<rparr> in
        (case tb_get_free_pos s1 of
           None \<Rightarrow> (Some 0, s1)
         | Some pos \<Rightarrow>
             if mem = 0 then (Some 0, s1)
             else (Some mem, (set_bucket mem \<lparr>cps = c, burst = b, token = 0, tb_pos = pos\<rparr> s1)
               \<lparr>tb_job := (tb_job s1)[pos := mem]\<rparr>)))"

fun fetch_wait :: "int list \<Rightarrow> nat \<Rightarrow> tb_module \<Rightarrow> tb_module waiting option" where
  "fetch_wait codes p s = do {
     me \<leftarrow> tb_mem s p;
     if token me \<le> 0 then
       (case codes of
          [] \<Rightarrow> Some Blocked
        | c # cs \<Rightarrow> do { s1 \<leftarrow> alrm_handler c s; fetch_wait cs p s1 })
     else Some (Returned s) }"

declare fetch_wait.simps [simp del]

text \<open>The signals during the wait, before \<open>min\<close> reads \<open>token\<close>, before \<open>-=\<close> loads it, and before \<open>-=\<close> stores it.\<close>

record signals =
  sig_wait :: "int list"
  sig_min :: "int list"
  sig_load :: "int list"
  sig_store :: "int list"

definition mytbf_fetchtoken :: "signals \<Rightarrow> nat \<Rightarrow> int \<Rightarrow> tb_module \<Rightarrow> (int \<times> tb_module) waiting option" where
  "mytbf_fetchtoken sg p sz s =
     (if sz \<le> 0 then Some (Returned (- EINVAL, s))
      else do {
        w \<leftarrow> fetch_wait (sig_wait sg) p s;
        case w of
          Blocked \<Rightarrow> Some Blocked
        | Returned s1 \<Rightarrow> do {
            s2 \<leftarrow> alrm_handlers (sig_min sg) s1;
            me2 \<leftarrow> tb_mem s2 p;
            let n = min (token me2) sz;
            s3 \<leftarrow> alrm_handlers (sig_load sg) s2;
            me3 \<leftarrow> tb_mem s3 p;
            t \<leftarrow> chk (token me3 - n);
            s4 \<leftarrow> alrm_handlers (sig_store sg) s3;
            me4 \<leftarrow> tb_mem s4 p;
            Some (Returned (n, set_bucket p (me4\<lparr>token := t\<rparr>) s4)) } })"

definition mytbf_returntoken :: "nat \<Rightarrow> int \<Rightarrow> tb_module \<Rightarrow> (int \<times> tb_module) option" where
  "mytbf_returntoken p sz s =
     (if sz \<le> 0 then Some (- EINVAL, s)
      else do {
        me \<leftarrow> tb_mem s p;
        me1 \<leftarrow> add_token sz me;
        Some (sz, set_bucket p me1 s) })"

definition mytbf_destroy :: "nat \<Rightarrow> tb_module \<Rightarrow> (int \<times> tb_module) option" where
  "mytbf_destroy p s = do {
     me \<leftarrow> tb_mem s p;
     j \<leftarrow> wr (tb_job s) (tb_pos me) 0;
     Some (0, s\<lparr>tb_job := j, tb_mem := (tb_mem s)(p := None)\<rparr>) }"

section \<open>The module driven by a thread\<close>

text \<open>\<open>mut_ok\<close> says that \<open>mut_job\<close> has not been destroyed; locking it afterwards is undefined.  A caller asleep
  on the condition of its bucket is woken by a round only; other threads may return tokens meanwhile, and a woken caller gets the mutex next.\<close>

record tb_mt = tb_module +
  mut_ok :: bool

definition thr_alrm_round :: "tb_mt \<Rightarrow> tb_mt option" where
  "thr_alrm_round s =
     (if mut_ok s then do { m \<leftarrow> refill (tb_job s) (tb_mem s); Some (s\<lparr>tb_mem := m\<rparr>) } else None)"

definition mytbf_init_mt :: "nat \<Rightarrow> int \<Rightarrow> int \<Rightarrow> tb_mt \<Rightarrow> (nat \<times> tb_mt) option" where
  "mytbf_init_mt mem c b s =
     (let s1 = s\<lparr>tb_inited := True\<rparr> in
      if mem = 0 then Some (0, s1)
      else if \<not> mut_ok s1 then None
      else Some (case find (\<lambda>i. tb_job s1 ! i = 0) [0..<MYTBF_MAX] of
          None \<Rightarrow> (0, s1)
        | Some pos \<Rightarrow> (mem, s1\<lparr>tb_mem := (tb_mem s1)(mem := Some \<lparr>cps = c, burst = b, token = 0, tb_pos = pos\<rparr>),
            tb_job := (tb_job s1)[pos := mem]\<rparr>)))"

definition mytbf_returntoken_mt :: "nat \<Rightarrow> int \<Rightarrow> tb_mt \<Rightarrow> (int \<times> tb_mt) option" where
  "mytbf_returntoken_mt p sz s =
     (if sz \<le> 0 then Some (- EINVAL, s)
      else do {
        me \<leftarrow> tb_mem s p;
        me1 \<leftarrow> add_token sz me;
        Some (sz, s\<lparr>tb_mem := (tb_mem s)(p := Some me1)\<rparr>) })"

definition take_tokens :: "nat \<Rightarrow> int \<Rightarrow> tb_mt \<Rightarrow> (int \<times> tb_mt) option" where
  "take_tokens p sz s = do {
     me \<leftarrow> tb_mem s p;
     let n = min (token me) sz;
     t \<leftarrow> chk (token me - n);
     Some (n, s\<lparr>tb_mem := (tb_mem s)(p := Some (me\<lparr>token := t\<rparr>))\<rparr>) }"

datatype tb_event = TbRound | TbReturn nat int

definition tb_event_step :: "tb_event \<Rightarrow> tb_mt \<Rightarrow> tb_mt option" where
  "tb_event_step e s = (case e of
     TbRound \<Rightarrow> thr_alrm_round s
   | TbReturn q n \<Rightarrow> map_option snd (mytbf_returntoken_mt q n s))"

text \<open>The loop around \<open>pthread_cond_wait\<close>: asleep until a round.\<close>

fun fetch_wait_mt :: "tb_event list \<Rightarrow> bool \<Rightarrow> nat \<Rightarrow> tb_mt \<Rightarrow> tb_mt waiting option" where
  "fetch_wait_mt es asleep p s = do {
     me \<leftarrow> tb_mem s p;
     if \<not> asleep \<and> token me > 0 then Some (Returned s)
     else case es of
       [] \<Rightarrow> Some Blocked
     | e # es1 \<Rightarrow> do { s1 \<leftarrow> tb_event_step e s; fetch_wait_mt es1 (e \<noteq> TbRound) p s1 } }"

declare fetch_wait_mt.simps [simp del]

definition mytbf_fetchtoken_mt :: "tb_event list \<Rightarrow> nat \<Rightarrow> int \<Rightarrow> tb_mt \<Rightarrow> (int \<times> tb_mt) waiting option" where
  "mytbf_fetchtoken_mt es p sz s =
     (if sz \<le> 0 then Some (Returned (- EINVAL, s))
      else do {
        w \<leftarrow> fetch_wait_mt es False p s;
        case w of
          Blocked \<Rightarrow> Some Blocked
        | Returned s1 \<Rightarrow> do { r \<leftarrow> take_tokens p sz s1; Some (Returned r) } })"

definition mytbf_destroy_mt :: "nat \<Rightarrow> tb_mt \<Rightarrow> (int \<times> tb_mt) option" where
  "mytbf_destroy_mt p s =
     (if mut_ok s then do {
        me \<leftarrow> tb_mem s p;
        j \<leftarrow> wr (tb_job s) (tb_pos me) 0;
        Some (0, s\<lparr>tb_job := j, tb_mem := (tb_mem s)(p := None), mut_ok := False\<rparr>) }
      else None)"

section \<open>Well-formed states\<close>

abbreviation INT_MAX :: int where "INT_MAX \<equiv> 2147483647"

definition good_rate :: "int \<Rightarrow> int \<Rightarrow> bool" where
  "good_rate c b \<longleftrightarrow> 0 \<le> c \<and> 0 \<le> b \<and> c + b \<le> INT_MAX"

definition bucket_ok :: "mytbf_st \<Rightarrow> bool" where
  "bucket_ok me \<longleftrightarrow> good_rate (cps me) (burst me) \<and> 0 \<le> token me \<and> token me \<le> burst me"

definition tb_ok :: "'x tb_module_scheme \<Rightarrow> bool" where
  "tb_ok s \<longleftrightarrow> length (tb_job s) = MYTBF_MAX \<and>
     (\<forall>i < MYTBF_MAX. tb_job s ! i \<noteq> 0 \<longrightarrow> (\<exists>me. tb_mem s (tb_job s ! i) = Some me \<and> tb_pos me = i)) \<and>
     (\<forall>p me. tb_mem s p = Some me \<longrightarrow> p \<noteq> 0 \<and> tb_pos me < MYTBF_MAX \<and> tb_job s ! tb_pos me = p \<and> bucket_ok me)"

lemma tb_okD:
  "tb_ok s \<Longrightarrow> length (tb_job s) = MYTBF_MAX"
  "tb_ok s \<Longrightarrow> i < MYTBF_MAX \<Longrightarrow> tb_job s ! i \<noteq> 0 \<Longrightarrow> \<exists>me. tb_mem s (tb_job s ! i) = Some me \<and> tb_pos me = i"
  "tb_ok s \<Longrightarrow> tb_mem s p = Some me \<Longrightarrow> p \<noteq> 0 \<and> tb_pos me < MYTBF_MAX \<and> tb_job s ! tb_pos me = p \<and> bucket_ok me"
  by (simp_all add: tb_ok_def)

lemma tb_okI:
  "length (tb_job s) = MYTBF_MAX \<Longrightarrow>
   (\<And>i. i < MYTBF_MAX \<Longrightarrow> tb_job s ! i \<noteq> 0 \<Longrightarrow> \<exists>me. tb_mem s (tb_job s ! i) = Some me \<and> tb_pos me = i) \<Longrightarrow>
   (\<And>p me. tb_mem s p = Some me \<Longrightarrow> p \<noteq> 0 \<and> tb_pos me < MYTBF_MAX \<and> tb_job s ! tb_pos me = p \<and> bucket_ok me) \<Longrightarrow>
   tb_ok s"
  by (simp add: tb_ok_def)

text \<open>A change of the tokens of some buckets within their bounds.\<close>

definition same_shape :: "mytbf_st \<Rightarrow> mytbf_st \<Rightarrow> bool" where
  "same_shape me me1 \<longleftrightarrow> cps me1 = cps me \<and> burst me1 = burst me \<and> tb_pos me1 = tb_pos me"

lemma same_shape_refl [simp]: "same_shape me me"
  by (simp add: same_shape_def)

lemma tb_ok_tokens:
  assumes "tb_ok s" and "\<And>p. rel_option (\<lambda>me me1. same_shape me me1 \<and> (bucket_ok me \<longrightarrow> bucket_ok me1)) (tb_mem s p) (m p)"
  shows "tb_ok (s\<lparr>tb_mem := m\<rparr>)"
proof -
  have 1: "\<exists>me1. m p = Some me1 \<and> tb_pos me1 = tb_pos me" if "tb_mem s p = Some me" for p me
    using assms(2) [of p] that by (cases "m p") (auto simp: same_shape_def)
  have 2: "\<exists>me. tb_mem s p = Some me \<and> tb_pos me1 = tb_pos me \<and> (bucket_ok me \<longrightarrow> bucket_ok me1)"
    if "m p = Some me1" for p me1
    using assms(2) [of p] that by (cases "tb_mem s p") (auto simp: same_shape_def)
  have "\<exists>me. m (tb_job s ! i) = Some me \<and> tb_pos me = i" if "i < MYTBF_MAX" "tb_job s ! i \<noteq> 0" for i
    using tb_okD(2) [OF assms(1) that] 1 by fastforce
  moreover have "p \<noteq> 0 \<and> tb_pos me < MYTBF_MAX \<and> tb_job s ! tb_pos me = p \<and> bucket_ok me" if "m p = Some me" for p me
    using tb_okD(3) [OF assms(1)] 2 [OF that] by auto
  ultimately show ?thesis using tb_okD(1) [OF assms(1)] by (simp add: tb_ok_def)
qed

section \<open>Alarms\<close>

definition refilled :: "mytbf_st \<Rightarrow> mytbf_st" where
  "refilled me = me\<lparr>token := min (token me + cps me) (burst me)\<rparr>"

lemma refilled_fields [simp]: "cps (refilled me) = cps me" "burst (refilled me) = burst me" "tb_pos (refilled me) = tb_pos me"
  by (simp_all add: refilled_def)

lemma refilled_token: "token (refilled me) = min (token me + cps me) (burst me)"
  by (simp add: refilled_def)

lemma refilled_ok: "bucket_ok me \<Longrightarrow> bucket_ok (refilled me)"
  by (auto simp: bucket_ok_def good_rate_def refilled_def)

lemma add_token_ok:
  "bucket_ok me \<Longrightarrow> 0 \<le> n \<Longrightarrow> n \<le> INT_MAX - burst me \<Longrightarrow> add_token n me = Some (me\<lparr>token := min (token me + n) (burst me)\<rparr>)"
  by (cases me) (auto simp: add_token_def chk_def int_range_def bucket_ok_def Let_def)

lemma add_cps: "bucket_ok me \<Longrightarrow> add_token (cps me) me = Some (refilled me)"
  using add_token_ok [of me "cps me"] by (simp add: bucket_ok_def good_rate_def refilled_def)

lemma refill_all:
  assumes "distinct (filter (\<lambda>p. p \<noteq> 0) ps)" "\<And>p. p \<in> set ps \<Longrightarrow> p \<noteq> 0 \<Longrightarrow> \<exists>me. m p = Some me \<and> bucket_ok me"
  shows "refill ps m = Some (\<lambda>p. if p \<in> set ps \<and> p \<noteq> 0 then map_option refilled (m p) else m p)"
  using assms
proof (induction ps arbitrary: m)
  case (Cons p ps)
  show ?case
  proof (cases "p = 0")
    case False
    then obtain me where me: "m p = Some me" "bucket_ok me" using Cons.prems(2) [of p] by auto
    have "p \<notin> set ps" using Cons.prems(1) False by simp
    then have "refill ps (m(p := Some (refilled me)))
        = Some (\<lambda>q. if q \<in> set ps \<and> q \<noteq> 0 then map_option refilled ((m(p := Some (refilled me))) q) else (m(p := Some (refilled me))) q)"
      using Cons.prems False by (intro Cons.IH) auto
    moreover have "(\<lambda>q. if q \<in> set ps \<and> q \<noteq> 0 then map_option refilled ((m(p := Some (refilled me))) q) else (m(p := Some (refilled me))) q)
        = (\<lambda>q. if q \<in> set (p # ps) \<and> q \<noteq> 0 then map_option refilled (m q) else m q)"
      using \<open>p \<notin> set ps\<close> me False by (intro ext) auto
    ultimately show ?thesis using False me by (simp add: add_cps)
  next
    case True
    have "refill ps m = Some (\<lambda>p. if p \<in> set ps \<and> p \<noteq> 0 then map_option refilled (m p) else m p)"
      using Cons.prems True by (intro Cons.IH) auto
    then show ?thesis using True by auto
  qed
qed simp

lemma distinct_filterI:
  "(\<And>i j. i < j \<Longrightarrow> j < length xs \<Longrightarrow> P (xs ! i) \<Longrightarrow> xs ! i \<noteq> xs ! j) \<Longrightarrow> distinct (filter P xs)"
proof (induction xs)
  case (Cons x xs)
  have "x \<notin> set xs" if "P x" using Cons.prems [of 0] that by (fastforce simp: in_set_conv_nth)
  moreover have "distinct (filter P xs)" using Cons.prems [of "Suc _" "Suc _"] by (intro Cons.IH) auto
  ultimately show ?case by simp
qed simp

lemma jobs_distinct:
  assumes ok: "tb_ok s"
  shows "distinct (filter (\<lambda>p. p \<noteq> 0) (tb_job s))"
proof (rule distinct_filterI)
  fix i j assume "i < j" "j < length (tb_job s)" "tb_job s ! i \<noteq> 0"
  then show "tb_job s ! i \<noteq> tb_job s ! j" using tb_okD(1) [OF ok] tb_okD(2) [OF ok, of i] tb_okD(2) [OF ok, of j] by auto
qed

definition ticked :: "'x tb_module_scheme \<Rightarrow> nat \<Rightarrow> mytbf_st option" where
  "ticked s p = map_option refilled (tb_mem s p)"

lemma refill_ok: "tb_ok s \<Longrightarrow> refill (tb_job s) (tb_mem s) = Some (ticked s)"
proof -
  assume ok: "tb_ok s"
  have "refill (tb_job s) (tb_mem s) = Some (\<lambda>p. if p \<in> set (tb_job s) \<and> p \<noteq> 0 then map_option refilled (tb_mem s p) else tb_mem s p)"
    using tb_okD [OF ok] by (intro refill_all jobs_distinct ok) (auto simp: in_set_conv_nth, metis)
  moreover have "(if p \<in> set (tb_job s) \<and> p \<noteq> 0 then map_option refilled (tb_mem s p) else tb_mem s p) = ticked s p" for p
  proof (cases "tb_mem s p")
    case (Some me)
    then have "p \<noteq> 0" "p \<in> set (tb_job s)" using tb_okD(1) [OF ok] tb_okD(3) [OF ok Some] nth_mem [of "tb_pos me" "tb_job s"] by auto
    then show ?thesis by (simp add: ticked_def)
  qed (simp add: ticked_def)
  ultimately show ?thesis by (simp add: fun_eq_iff)
qed

definition after_ticks :: "nat \<Rightarrow> 'x tb_module_scheme \<Rightarrow> 'x tb_module_scheme" where
  "after_ticks k s = s\<lparr>tb_mem := \<lambda>p. map_option (refilled ^^ k) (tb_mem s p)\<rparr>"

definition ticks :: "int list \<Rightarrow> nat" where
  "ticks codes = length (filter (\<lambda>c. c = SI_KERNEL) codes)"

lemma ticks_simps [simp]: "ticks [] = 0" "ticks (c # cs) = (if c = SI_KERNEL then 1 else 0) + ticks cs"
  by (simp_all add: ticks_def)

lemma after_ticks_mem [simp]: "tb_mem (after_ticks k s) p = map_option (refilled ^^ k) (tb_mem s p)"
  by (simp add: after_ticks_def)

lemma after_ticks_0 [simp]: "after_ticks 0 s = s"
  by (simp add: after_ticks_def id_def option.map_ident)

lemma after_ticks_1: "after_ticks 1 s = s\<lparr>tb_mem := ticked s\<rparr>"
  by (simp add: after_ticks_def ticked_def [abs_def] o_def)

lemma funpow_comp: "(f ^^ j) \<circ> (f ^^ k) = (f ^^ (j + k))"
  by (simp add: funpow_add)

lemma after_ticks_add: "after_ticks j (after_ticks k s) = after_ticks (j + k) s"
  by (simp add: after_ticks_def option.map_comp funpow_comp)

lemma refilleds_shape: "same_shape me ((refilled ^^ k) me)"
  by (induction k) (auto simp: same_shape_def)

lemma refilleds_ok: "bucket_ok me \<Longrightarrow> bucket_ok ((refilled ^^ k) me)"
  by (induction k) (auto intro: refilled_ok)

lemma refilleds_token: "bucket_ok me \<Longrightarrow> token ((refilled ^^ k) me) = min (token me + int k * cps me) (burst me)"
proof (induction k)
  case (Suc k)
  have "cps ((refilled ^^ k) me) = cps me" "burst ((refilled ^^ k) me) = burst me"
    using refilleds_shape [of me k] by (simp_all add: same_shape_def)
  moreover have "0 \<le> cps me" using Suc.prems by (simp add: bucket_ok_def good_rate_def)
  ultimately show ?case using Suc by (auto simp: refilled_token algebra_simps)
qed (simp add: bucket_ok_def)

lemma after_ticks_ok: "tb_ok s \<Longrightarrow> tb_ok (after_ticks k s)"
  unfolding after_ticks_def
  by (rule tb_ok_tokens) (auto simp: option.rel_map intro!: option.rel_refl refilleds_shape refilleds_ok)

lemma alrm_handler_ok:
  "tb_ok s \<Longrightarrow> alrm_handler c s = Some (after_ticks (if c = SI_KERNEL then 1 else 0) s)"
  using after_ticks_1 [of s] by (simp add: alrm_handler_def refill_ok)

lemma alrm_handlers_ok: "tb_ok s \<Longrightarrow> alrm_handlers cs s = Some (after_ticks (ticks cs) s)"
  by (induction cs arbitrary: s) (simp_all add: alrm_handler_ok after_ticks_ok after_ticks_add add.commute)

section \<open>Fetching\<close>

text \<open>The state in which the wait ends, if it does.\<close>

lemma fetch_wait_ok:
  assumes "tb_ok s" "tb_mem s p = Some me"
  shows "fetch_wait cs p s = Some Blocked \<and> token ((refilled ^^ ticks cs) me) \<le> 0 \<or>
    (\<exists>k \<le> ticks cs. fetch_wait cs p s = Some (Returned (after_ticks k s)) \<and> 0 < token ((refilled ^^ k) me))"
  using assms
proof (induction cs arbitrary: s me)
  case Nil
  then show ?case by (cases "token me \<le> 0") (simp_all add: fetch_wait.simps)
next
  case (Cons c cs)
  show ?case
  proof (cases "token me \<le> 0")
    case True
    let ?t = "if c = SI_KERNEL then 1 else 0 :: nat"
    have step: "fetch_wait (c # cs) p s = fetch_wait cs p (after_ticks ?t s)"
      using True Cons.prems by (simp add: fetch_wait.simps [of "c # cs"] alrm_handler_ok)
    have me1: "tb_mem (after_ticks ?t s) p = Some ((refilled ^^ ?t) me)" using Cons.prems(2) by simp
    have add: "(refilled ^^ k) ((refilled ^^ ?t) me) = (refilled ^^ (k + ?t)) me" for k
      by (simp add: funpow_add)
    have "ticks (c # cs) = ticks cs + ?t" by simp
    then show ?thesis
      using Cons.IH [OF after_ticks_ok [OF Cons.prems(1)] me1] unfolding step add after_ticks_add
      by (metis add_le_mono1)
  next
    case False
    then show ?thesis using Cons.prems(2) by (auto simp: fetch_wait.simps [of "c # cs"] intro!: exI [of _ 0])
  qed
qed

definition all_ticks :: "signals \<Rightarrow> nat" where
  "all_ticks sg = ticks (sig_wait sg) + ticks (sig_min sg) + ticks (sig_load sg) + ticks (sig_store sg)"

lemma fetch_ok:
  assumes ok: "tb_ok s" and me: "tb_mem s p = Some me" and sz: "0 < sz"
  shows "mytbf_fetchtoken sg p sz s = Some Blocked \<and> token ((refilled ^^ ticks (sig_wait sg)) me) \<le> 0 \<or>
    (\<exists>n t K. mytbf_fetchtoken sg p sz s = Some (Returned (n, set_bucket p (((refilled ^^ K) me)\<lparr>token := t\<rparr>) (after_ticks K s))) \<and>
       K \<le> all_ticks sg \<and> 1 \<le> n \<and> n \<le> sz \<and> 0 \<le> t \<and> n + t \<le> min (token me + int K * cps me) (burst me))"
proof (cases "fetch_wait (sig_wait sg) p s = Some Blocked")
  case True
  then show ?thesis using fetch_wait_ok [OF ok me, of "sig_wait sg"] sz by (auto simp: mytbf_fetchtoken_def)
next
  case False
  then obtain k where k: "k \<le> ticks (sig_wait sg)" "fetch_wait (sig_wait sg) p s = Some (Returned (after_ticks k s))"
      "0 < token ((refilled ^^ k) me)"
    using fetch_wait_ok [OF ok me, of "sig_wait sg"] by auto
  let ?k2 = "ticks (sig_min sg) + k" and ?k3 = "ticks (sig_load sg) + (ticks (sig_min sg) + k)"
  let ?K = "ticks (sig_store sg) + (ticks (sig_load sg) + (ticks (sig_min sg) + k))"
  let ?tok = "\<lambda>k. token ((refilled ^^ k) me)"
  let ?n = "min (?tok ?k2) sz"
  have b: "bucket_ok me" using tb_okD(3) [OF ok me] by simp
  have mono: "?tok i \<le> ?tok j" if "i \<le> j" for i j
    using b that mult_right_mono [of "int i" "int j" "cps me"]
    by (simp add: refilleds_token bucket_ok_def good_rate_def)
  have le: "?tok k \<le> ?tok ?k2" "?tok ?k2 \<le> ?tok ?k3" "?tok ?k3 \<le> ?tok ?K" by (rule mono; simp)+
  have top: "?tok ?K = min (token me + int ?K * cps me) (burst me)" by (rule refilleds_token [OF b])
  have "chk (?tok ?k3 - ?n) = Some (?tok ?k3 - ?n)"
    using le k(3) sz b top by (auto simp: chk_def int_range_def bucket_ok_def good_rate_def)
  then have "mytbf_fetchtoken sg p sz s
      = Some (Returned (?n, set_bucket p (((refilled ^^ ?K) me)\<lparr>token := ?tok ?k3 - ?n\<rparr>) (after_ticks ?K s)))"
    using sz k(2) me by (simp add: mytbf_fetchtoken_def alrm_handlers_ok ok after_ticks_ok after_ticks_add Let_def)
  moreover have "?K \<le> all_ticks sg" using k(1) by (simp add: all_ticks_def)
  moreover have "1 \<le> ?n" "?n \<le> sz" "0 \<le> ?tok ?k3 - ?n" using le k(3) sz by auto
  moreover have "?n + (?tok ?k3 - ?n) \<le> min (token me + int ?K * cps me) (burst me)" using le(3) top by simp
  ultimately show ?thesis by blast
qed

section \<open>Histories\<close>

datatype tb_call = CallAlarm int | CallInit bool nat int int | CallFetch signals nat int | CallReturn nat int | CallDestroy nat

text \<open>A call with its result. \<open>malloc\<close> returns 0 or an unused address; \<open>good_rate\<close> keeps \<open>token += cps\<close> in range.\<close>

inductive tb_step :: "tb_module \<Rightarrow> tb_call \<times> int \<Rightarrow> tb_module \<Rightarrow> bool" where
  StepAlarm: "alrm_handler c s = Some s' \<Longrightarrow> tb_step s (CallAlarm c, 0) s'"
| StepInit: "tb_mem s m = None \<Longrightarrow> good_rate c b \<Longrightarrow> mytbf_init os m c b s = (Some q, s') \<Longrightarrow>
     tb_step s (CallInit os m c b, int q) s'"
| StepFetch: "mytbf_fetchtoken sg p sz s = Some (Returned (n, s')) \<Longrightarrow> tb_step s (CallFetch sg p sz, n) s'"
| StepReturn: "mytbf_returntoken p sz s = Some (n, s') \<Longrightarrow> tb_step s (CallReturn p sz, n) s'"
| StepDestroy: "mytbf_destroy p s = Some (n, s') \<Longrightarrow> tb_step s (CallDestroy p, n) s'"

inductive tb_runs :: "tb_module \<Rightarrow> (tb_call \<times> int) list \<Rightarrow> tb_module \<Rightarrow> bool" where
  RunsNil: "tb_runs s [] s"
| RunsStep: "tb_step s cr s1 \<Longrightarrow> tb_runs s1 log s2 \<Longrightarrow> tb_runs s (cr # log) s2"

definition seconds :: "tb_call \<times> int \<Rightarrow> nat" where
  "seconds cr = (case fst cr of CallAlarm c \<Rightarrow> ticks [c] | CallFetch sg _ _ \<Rightarrow> all_ticks sg | _ \<Rightarrow> 0)"

definition fetched :: "nat \<Rightarrow> tb_call \<times> int \<Rightarrow> int" where
  "fetched p cr = (case fst cr of CallFetch _ q _ \<Rightarrow> if q = p then max 0 (snd cr) else 0 | _ \<Rightarrow> 0)"

definition given :: "nat \<Rightarrow> tb_call \<times> int \<Rightarrow> int" where
  "given p cr = (case fst cr of CallReturn q _ \<Rightarrow> if q = p then max 0 (snd cr) else 0 | _ \<Rightarrow> 0)"

text \<open>What a step may do to the bucket at \<open>p\<close>.\<close>

definition account :: "nat \<Rightarrow> int \<Rightarrow> nat \<Rightarrow> int \<Rightarrow> tb_module \<Rightarrow> tb_module \<Rightarrow> bool" where
  "account p f k g s s' \<longleftrightarrow> (\<forall>me. tb_mem s p = Some me \<longrightarrow>
     (\<exists>me'. tb_mem s' p = Some me' \<and> same_shape me me' \<and> f + token me' \<le> token me + int k * cps me + g))"

lemma account_refl: "account p 0 0 0 s s"
  by (simp add: account_def)

lemma account_trans:
  "account p f k g s s1 \<Longrightarrow> account p f' k' g' s1 s2 \<Longrightarrow> account p (f + f') (k + k') (g + g') s s2"
  unfolding account_def same_shape_def by (fastforce simp: algebra_simps)

lemma account_ticks:
  assumes "tb_ok s" "k \<le> K"
  shows "account p 0 K 0 s (after_ticks k s)"
proof -
  have "token ((refilled ^^ k) me) \<le> token me + int K * cps me" if "tb_mem s p = Some me" for me
  proof -
    have b: "bucket_ok me" using tb_okD(3) [OF assms(1) that] by simp
    then have "int k * cps me \<le> int K * cps me" using assms(2) by (intro mult_right_mono) (auto simp: bucket_ok_def good_rate_def)
    then show ?thesis using refilleds_token [OF b, of k] by simp
  qed
  then show ?thesis by (auto simp: account_def refilleds_shape)
qed

lemma set_bucket_mem [simp]: "tb_mem (set_bucket p me s) q = (if q = p then Some me else tb_mem s q)"
  by (simp add: set_bucket_def)

lemma set_bucket_ok:
  "tb_ok s \<Longrightarrow> tb_mem s p = Some me \<Longrightarrow> same_shape me me1 \<Longrightarrow> bucket_ok me1 \<Longrightarrow> tb_ok (set_bucket p me1 s)"
  unfolding set_bucket_def by (rule tb_ok_tokens) (auto intro: option.rel_refl)

lemma add_token_Some: "add_token n me = Some me1 \<Longrightarrow> me1 = me\<lparr>token := min (token me + n) (burst me)\<rparr>"
  by (auto simp: add_token_def bind_eq_Some_conv chk_Some_iff Let_def)

lemma step_return:
  assumes ok: "tb_ok s" and r: "mytbf_returntoken q sz s = Some (n, s')"
  shows "tb_ok s' \<and> account p 0 0 (given p (CallReturn q sz, n)) s s'"
proof (cases "sz \<le> 0")
  case False
  then obtain me where me: "tb_mem s q = Some me" "n = sz" "s' = set_bucket q (me\<lparr>token := min (token me + sz) (burst me)\<rparr>) s"
    using r by (auto simp: mytbf_returntoken_def bind_eq_Some_conv dest: add_token_Some)
  have "bucket_ok me" using tb_okD(3) [OF ok me(1)] by simp
  then have "bucket_ok (me\<lparr>token := min (token me + sz) (burst me)\<rparr>)" using False by (auto simp: bucket_ok_def)
  then have "tb_ok s'" unfolding me(3) by (intro set_bucket_ok [OF ok me(1)]) (simp_all add: same_shape_def)
  then show ?thesis using me False by (auto simp: account_def given_def same_shape_def)
qed (use assms account_refl [of p s] in \<open>auto simp: mytbf_returntoken_def given_def\<close>)

lemma step_fetch:
  assumes ok: "tb_ok s" and r: "mytbf_fetchtoken sg q sz s = Some (Returned (n, s'))"
  shows "tb_ok s' \<and> account p (fetched p (CallFetch sg q sz, n)) (all_ticks sg) 0 s s'"
proof (cases "sz \<le> 0")
  case False
  then obtain me where me: "tb_mem s q = Some me"
    using r by (auto simp: mytbf_fetchtoken_def fetch_wait.simps bind_eq_Some_conv)
  obtain t K where f: "s' = set_bucket q (((refilled ^^ K) me)\<lparr>token := t\<rparr>) (after_ticks K s)" "K \<le> all_ticks sg"
      "1 \<le> n" "0 \<le> t" "n + t \<le> min (token me + int K * cps me) (burst me)"
    using fetch_ok [OF ok me, of sz sg] r False by auto
  have b: "bucket_ok ((refilled ^^ K) me)" using refilleds_ok tb_okD(3) [OF ok me] by simp
  have "burst ((refilled ^^ K) me) = burst me" using refilleds_shape [of me K] by (simp add: same_shape_def)
  then have "bucket_ok (((refilled ^^ K) me)\<lparr>token := t\<rparr>)" using b f(3-5) by (auto simp: bucket_ok_def)
  then have "tb_ok s'"
    unfolding f(1) using me by (intro set_bucket_ok [OF after_ticks_ok [OF ok]]) (auto simp: same_shape_def)
  moreover have "account p (fetched p (CallFetch sg q sz, n)) (all_ticks sg) 0 s s'"
  proof (cases "p = q")
    case True
    have "int K * cps me \<le> int (all_ticks sg) * cps me"
      using f(2) tb_okD(3) [OF ok me] by (intro mult_right_mono) (auto simp: bucket_ok_def good_rate_def)
    then show ?thesis using True f me refilleds_shape [of me K] by (auto simp: account_def fetched_def same_shape_def)
  next
    case False
    have "account p 0 (all_ticks sg) 0 s (after_ticks K s)" by (rule account_ticks [OF ok f(2)])
    then show ?thesis using False f(1) by (simp add: account_def fetched_def)
  qed
  ultimately show ?thesis by simp
next
  case True
  then have "n < 0" "s' = s" using r by (auto simp: mytbf_fetchtoken_def)
  then show ?thesis using ok account_ticks [OF ok, of 0 "all_ticks sg" p] by (auto simp: fetched_def)
qed

lemma step_init:
  assumes ok: "tb_ok s" and "tb_mem s m = None" "good_rate c b" and r: "mytbf_init os m c b s = (Some q, s')"
  shows "tb_ok s' \<and> (\<forall>p me. tb_mem s p = Some me \<longrightarrow> tb_mem s' p = Some me)"
proof (cases "\<exists>pos. tb_get_free_pos (s\<lparr>tb_inited := True\<rparr>) = Some pos \<and> m \<noteq> 0")
  case True
  then obtain pos where pos: "tb_get_free_pos (s\<lparr>tb_inited := True\<rparr>) = Some pos" "m \<noteq> 0" by blast
  then have free: "pos < MYTBF_MAX" "tb_job s ! pos = 0" by (auto simp: tb_get_free_pos_def find_Some_iff)
  let ?me = "\<lparr>cps = c, burst = b, token = 0, tb_pos = pos\<rparr>"
  have s': "tb_mem s' = (tb_mem s)(m := Some ?me)" "tb_job s' = (tb_job s)[pos := m]"
    using r pos by (auto simp: mytbf_init_def Let_def set_bucket_def split: if_splits)
  have "tb_pos me \<noteq> pos" if "tb_mem s p = Some me" for p me using tb_okD(3) [OF ok that] free by auto
  note other = this
  have l: "length (tb_job s) = MYTBF_MAX" by (rule tb_okD(1) [OF ok])
  have "tb_ok s'"
  proof (rule tb_okI)
    fix i assume i: "i < MYTBF_MAX" "tb_job s' ! i \<noteq> 0"
    show "\<exists>me. tb_mem s' (tb_job s' ! i) = Some me \<and> tb_pos me = i"
    proof (cases "i = pos")
      case False
      then have "tb_job s' ! i = tb_job s ! i" unfolding s' by simp
      then show ?thesis using tb_okD(2) [OF ok i(1)] i(2) assms(2) unfolding s' by auto
    qed (use l free in \<open>simp add: s'\<close>)
  next
    fix p me assume p: "tb_mem s' p = Some me"
    show "p \<noteq> 0 \<and> tb_pos me < MYTBF_MAX \<and> tb_job s' ! tb_pos me = p \<and> bucket_ok me"
    proof (cases "p = m")
      case True
      then have "me = ?me" using p s' by simp
      then show ?thesis using True pos(2) free assms(3) l unfolding s' by (simp add: bucket_ok_def good_rate_def)
    next
      case False
      then show ?thesis using p other [of p me] tb_okD(3) [OF ok, of p me] by (simp add: s')
    qed
  qed (simp add: l s')
  then show ?thesis using s' assms(2) by auto
next
  case False
  then have "tb_mem s' = tb_mem s" "tb_job s' = tb_job s"
    using r by (auto simp: mytbf_init_def Let_def split: if_splits option.splits)
  then show ?thesis using ok by (simp add: tb_ok_def)
qed

lemma step_destroy:
  assumes ok: "tb_ok s" and r: "mytbf_destroy q s = Some (n, s')"
  shows "tb_ok s' \<and> n = 0 \<and> tb_mem s' = (tb_mem s)(q := None)"
proof -
  obtain me where me: "tb_mem s q = Some me" and s': "tb_job s' = (tb_job s)[tb_pos me := 0]"
      "tb_mem s' = (tb_mem s)(q := None)" "n = 0"
    using r by (auto simp: mytbf_destroy_def bind_eq_Some_conv wr_eq_Some_iff)
  have "tb_pos me' \<noteq> tb_pos me" if "tb_mem s p = Some me'" "p \<noteq> q" for p me'
    using tb_okD(3) [OF ok that(1)] tb_okD(3) [OF ok me] that(2) by auto
  note other = this
  have "tb_ok s'"
  proof (rule tb_okI)
    fix i assume i: "i < MYTBF_MAX" "tb_job s' ! i \<noteq> 0"
    then have "i \<noteq> tb_pos me" using tb_okD(1) [OF ok] by (auto simp: s')
    then have "tb_job s' ! i = tb_job s ! i" by (simp add: s')
    then show "\<exists>me. tb_mem s' (tb_job s' ! i) = Some me \<and> tb_pos me = i"
      using tb_okD(2) [OF ok i(1)] i(2) me \<open>i \<noteq> tb_pos me\<close> by (auto simp: s')
  next
    fix p me1 assume "tb_mem s' p = Some me1"
    then show "p \<noteq> 0 \<and> tb_pos me1 < MYTBF_MAX \<and> tb_job s' ! tb_pos me1 = p \<and> bucket_ok me1"
      using other [of p me1] tb_okD(3) [OF ok, of p me1] by (auto simp: s' split: if_splits)
  qed (use tb_okD(1) [OF ok] s' in simp)
  then show ?thesis using s' by simp
qed

lemma tb_step_ok:
  assumes "tb_step s cr s'" "tb_ok s"
  shows "tb_ok s' \<and> (fst cr \<noteq> CallDestroy p \<longrightarrow> account p (fetched p cr) (seconds cr) (given p cr) s s')"
  using assms(1)
proof cases
  case (StepAlarm c)
  then show ?thesis using assms(2) account_ticks [OF assms(2), of 1 1 p] account_refl [of p s]
    by (auto simp: alrm_handler_ok after_ticks_ok seconds_def fetched_def given_def)
next
  case (StepInit m c b os q)
  then show ?thesis using step_init [OF assms(2) StepInit(2-4)]
    by (auto simp: account_def seconds_def fetched_def given_def)
next
  case (StepFetch sg q sz n)
  then show ?thesis using step_fetch [OF assms(2) StepFetch(2), of p] by (simp add: seconds_def given_def)
next
  case (StepReturn q sz n)
  then show ?thesis using step_return [OF assms(2) StepReturn(2), of p] by (simp add: seconds_def fetched_def)
next
  case (StepDestroy q n)
  then show ?thesis using step_destroy [OF assms(2) StepDestroy(2)]
    by (auto simp: account_def seconds_def fetched_def given_def)
qed

lemma tb_runs_ok:
  assumes "tb_runs s log s'" "tb_ok s"
  shows "tb_ok s' \<and> (CallDestroy p \<notin> fst ` set log \<longrightarrow>
    account p (sum_list (map (fetched p) log)) (sum_list (map seconds log)) (sum_list (map (given p) log)) s s')"
  using assms
proof (induction rule: tb_runs.induct)
  case (RunsStep s cr s1 log s2)
  then show ?case using tb_step_ok [OF RunsStep.hyps(1) RunsStep.prems, of p]
    by (auto intro!: account_trans [of p _ _ _ s s1])
qed (simp add: account_refl)

lemma free_buckets_all:
  "distinct (filter (\<lambda>p. p \<noteq> 0) ps) \<Longrightarrow> (\<And>p. p \<in> set ps \<Longrightarrow> p \<noteq> 0 \<Longrightarrow> m p \<noteq> None) \<Longrightarrow>
   free_buckets ps m = Some (\<lambda>p. if p \<in> set ps \<and> p \<noteq> 0 then None else m p)"
proof (induction ps arbitrary: m)
  case (Cons p ps)
  show ?case
  proof (cases "p = 0")
    case True
    then show ?thesis using Cons.IH [of m] Cons.prems by auto
  next
    case False
    then have n: "p \<notin> set ps" "m p \<noteq> None" using Cons.prems by auto
    then have "\<And>q. q \<in> set ps \<Longrightarrow> q \<noteq> 0 \<Longrightarrow> (m(p := None)) q \<noteq> None" using Cons.prems(2) by auto
    then have "free_buckets ps (m(p := None)) = Some (\<lambda>q. if q \<in> set ps \<and> q \<noteq> 0 then None else (m(p := None)) q)"
      using Cons.prems(1) False by (intro Cons.IH) auto
    moreover have "(\<lambda>q. if q \<in> set ps \<and> q \<noteq> 0 then None else (m(p := None)) q)
        = (\<lambda>q. if q \<in> set (p # ps) \<and> q \<noteq> 0 then None else m q)"
      using False by (intro ext) auto
    ultimately show ?thesis using False n by auto
  qed
qed simp

lemma unload_ok:
  assumes ok: "tb_ok s"
  shows "\<exists>s'. tb_module_unload s = Some s' \<and> (\<forall>p. tb_mem s' p = None) \<and> tb_job s' = replicate MYTBF_MAX 0"
proof -
  have "free_buckets (tb_job s) (tb_mem s) = Some (\<lambda>p. if p \<in> set (tb_job s) \<and> p \<noteq> 0 then None else tb_mem s p)"
  proof (rule free_buckets_all [OF jobs_distinct [OF ok]])
    fix p assume "p \<in> set (tb_job s)" "p \<noteq> 0"
    then show "tb_mem s p \<noteq> None" using tb_okD(1,2) [OF ok] by (fastforce simp: in_set_conv_nth)
  qed
  moreover have "p \<in> set (tb_job s)" "p \<noteq> 0" if "tb_mem s p = Some me" for p me
    using tb_okD(1) [OF ok] tb_okD(3) [OF ok that] nth_mem [of "tb_pos me" "tb_job s"] by auto
  ultimately show ?thesis by (fastforce simp: tb_module_unload_def)
qed

lemma fetch_defined: "tb_ok s \<Longrightarrow> tb_mem s p \<noteq> None \<Longrightarrow> mytbf_fetchtoken sg p sz s \<noteq> None"
  using fetch_ok [of s p _ sz sg] by (cases "sz \<le> 0") (fastforce simp: mytbf_fetchtoken_def)+

lemma destroy_defined: "tb_ok s \<Longrightarrow> tb_mem s p \<noteq> None \<Longrightarrow> mytbf_destroy p s \<noteq> None"
  using tb_okD(1) [of s] tb_okD(3) [of s p] by (fastforce simp: mytbf_destroy_def)

definition tb_start :: tb_module where
  "tb_start = \<lparr>tb_inited = False, tb_mem = \<lambda>_. None, tb_job = replicate MYTBF_MAX 0\<rparr>"

lemma tb_start_ok: "tb_ok tb_start"
  by (simp add: tb_ok_def tb_start_def)

section \<open>The threaded module\<close>

lemma round_mt: "tb_ok s \<Longrightarrow> mut_ok s \<Longrightarrow> thr_alrm_round s = Some (s\<lparr>tb_mem := ticked s\<rparr>)"
  by (simp add: thr_alrm_round_def refill_ok)

text \<open>A caller that found no token sleeps through returned tokens; the next round wakes it.\<close>

lemma sleep_through_return:
  assumes ok: "tb_ok s" "mut_ok s" and me: "tb_mem s p = Some me" "token me = 0" "0 < sz"
    and n: "0 < n" "n \<le> INT_MAX - burst me" "0 < burst me"
  shows "mytbf_fetchtoken_mt [TbReturn p n] p sz s = Some Blocked
    \<and> (\<exists>k s'. mytbf_fetchtoken_mt [TbReturn p n, TbRound] p sz s = Some (Returned (k, s')) \<and> 1 \<le> k \<and> k \<le> sz)"
proof -
  have b: "bucket_ok me" using tb_okD(3) [OF ok(1) me(1)] by simp
  let ?me = "me\<lparr>token := min n (burst me)\<rparr>"
  let ?s = "s\<lparr>tb_mem := (tb_mem s)(p := Some ?me)\<rparr>"
  have ret: "tb_event_step (TbReturn p n) s = Some ?s"
    using add_token_ok [OF b, of n] n me by (simp add: tb_event_step_def mytbf_returntoken_mt_def)
  have bm: "bucket_ok ?me" using b n by (auto simp: bucket_ok_def)
  have ok1: "tb_ok ?s"
    by (rule tb_ok_tokens [OF ok(1)]) (use me(1) bm in \<open>auto simp: same_shape_def intro: option.rel_refl\<close>)
  have rnd: "tb_event_step TbRound ?s = Some (?s\<lparr>tb_mem := ticked ?s\<rparr>)"
    using round_mt [OF ok1] ok(2) by (simp add: tb_event_step_def)
  have tk: "ticked ?s p = Some (refilled ?me)" by (simp add: ticked_def)
  have pos: "0 < token (refilled ?me)" "token (refilled ?me) \<le> INT_MAX"
    using n b by (auto simp: refilled_token bucket_ok_def good_rate_def)
  have "mytbf_fetchtoken_mt [TbReturn p n] p sz s = Some Blocked"
    using me ret by (simp add: mytbf_fetchtoken_mt_def fetch_wait_mt.simps)
  moreover have "fetch_wait_mt [TbReturn p n, TbRound] False p s = Some (Returned (?s\<lparr>tb_mem := ticked ?s\<rparr>))"
    using me ret rnd tk pos(1) by (simp add: fetch_wait_mt.simps)
  moreover have "chk (token (refilled ?me) - min (token (refilled ?me)) sz) = Some (token (refilled ?me) - min (token (refilled ?me)) sz)"
    using pos me(3) by (auto simp: chk_def int_range_def)
  ultimately show ?thesis using tk pos me(3)
    by (auto simp: mytbf_fetchtoken_mt_def take_tokens_def Let_def)
qed

section \<open>Properties\<close>

text \<open>
  The token bucket module keeps its state well formed: whatever calls and alarms come, in any order and with signals
  in the middle of \<open>mytbf_fetchtoken\<close>, every bucket is in exactly its place of the table with
  0 to \<open>burst\<close> tokens; so the handler, fetching from and destroying a live bucket and unloading are never
  undefined, and unloading frees every bucket.
\<close>
theorem token_bucket_well_formed:
  assumes "tb_runs tb_start log s"
  shows "tb_ok s \<and> (\<forall>c. alrm_handler c s \<noteq> None)
    \<and> (\<forall>p sg sz. tb_mem s p \<noteq> None \<longrightarrow> mytbf_fetchtoken sg p sz s \<noteq> None \<and> mytbf_destroy p s \<noteq> None)
    \<and> (\<exists>s'. tb_module_unload s = Some s' \<and> (\<forall>p. tb_mem s' p = None))"
proof -
  have "tb_ok s" using tb_runs_ok [OF assms tb_start_ok] by simp
  then show ?thesis using alrm_handler_ok fetch_defined destroy_defined unload_ok by fastforce
qed

text \<open>
  C13. The rate limit: over any history in which the bucket is not destroyed, the tokens fetched from it and those
  left in it are at most those it had, \<open>cps\<close> for each alarm and those returned, and it never holds more than \<open>burst\<close>.
  Signals between the accesses of \<open>mytbf_fetchtoken\<close> to \<open>token\<close> can only lose tokens.
\<close>
theorem token_bucket_limits_rate:
  assumes "tb_ok s" and "tb_runs s log s'" and "tb_mem s p = Some me" and "CallDestroy p \<notin> fst ` set log"
  shows "\<exists>me'. tb_mem s' p = Some me' \<and> 0 \<le> token me' \<and> token me' \<le> burst me
    \<and> sum_list (map (fetched p) log) + token me'
        \<le> token me + int (sum_list (map seconds log)) * cps me + sum_list (map (given p) log)"
proof -
  obtain me' where "tb_mem s' p = Some me'" "same_shape me me'" "tb_ok s'"
      "sum_list (map (fetched p) log) + token me'
        \<le> token me + int (sum_list (map seconds log)) * cps me + sum_list (map (given p) log)"
    using tb_runs_ok [OF assms(2,1), of p] assms(3,4) by (auto simp: account_def)
  then show ?thesis using tb_okD(3) [of s' p me'] by (auto simp: same_shape_def bucket_ok_def)
qed


text \<open>
  The threaded version: \<open>mytbf_destroy\<close> destroys the mutex of the table in place of the bucket's, so after the first
  destroyed bucket the next round of the timer, the next \<open>mytbf_init\<close> and the next \<open>mytbf_destroy\<close> are
  undefined; and \<open>mytbf_returntoken\<close> wakes nobody: a caller waiting for a token sleeps on until the next round.
\<close>
theorem threaded_bucket_faults:
  assumes "tb_ok s" and "mut_ok s" and "tb_mem s p = Some me"
  shows "(\<exists>s1. mytbf_destroy_mt p s = Some (0, s1) \<and> thr_alrm_round s1 = None
      \<and> (\<forall>m c b. m \<noteq> 0 \<longrightarrow> mytbf_init_mt m c b s1 = None) \<and> (\<forall>q. mytbf_destroy_mt q s1 = None))
    \<and> (token me = 0 \<and> 0 < burst me \<and> 0 < sz \<and> 0 < n \<and> n \<le> INT_MAX - burst me \<longrightarrow>
      mytbf_fetchtoken_mt [TbReturn p n] p sz s = Some Blocked
      \<and> (\<exists>k s'. mytbf_fetchtoken_mt [TbReturn p n, TbRound] p sz s = Some (Returned (k, s')) \<and> 1 \<le> k \<and> k \<le> sz))"
proof -
  have "tb_pos me < length (tb_job s)" using tb_okD(1) [OF assms(1)] tb_okD(3) [OF assms(1,3)] by simp
  then show ?thesis
    using sleep_through_return [OF assms(1-3), of sz n] assms(2,3)
    by (auto simp: mytbf_destroy_mt_def thr_alrm_round_def mytbf_init_mt_def Let_def)
qed

section \<open>Witnesses\<close>

definition one_bucket :: tb_module where
  "one_bucket = \<lparr>tb_inited = True, tb_mem = (\<lambda>_. None)(7 := Some \<lparr>cps = 10, burst = 100, token = 0, tb_pos = 0\<rparr>),
     tb_job = (replicate MYTBF_MAX 0)[0 := 7]\<rparr>"

lemma MAX_pos: "0 < MYTBF_MAX"
  by (simp add: MYTBF_MAX_def)

lemma MAX_upt: "[0..<MYTBF_MAX] = 0 # [1..<MYTBF_MAX]"
  using upt_conv_Cons [OF MAX_pos] by simp

lemma one_bucket_run: "tb_runs tb_start [(CallInit True 7 10 100, 7)] one_bucket"
proof -
  have "mytbf_init True 7 10 100 tb_start = (Some 7, one_bucket)"
    using MAX_pos MAX_upt by (simp add: mytbf_init_def tb_get_free_pos_def tb_start_def one_bucket_def set_bucket_def Let_def)
  then have "tb_step tb_start (CallInit True 7 10 100, int 7) one_bucket"
    by (intro StepInit) (simp_all add: tb_start_def good_rate_def)
  then show ?thesis using RunsStep [OF _ RunsNil] by simp
qed

lemma one_bucket_ok: "tb_ok one_bucket" "tb_mem one_bucket 7 = Some \<lparr>cps = 10, burst = 100, token = 0, tb_pos = 0\<rparr>"
  using tb_runs_ok [OF one_bucket_run tb_start_ok] by (simp_all add: one_bucket_def)

lemma token_bucket_well_formed_witness:
  "tb_ok one_bucket \<and> alrm_handler 128 one_bucket \<noteq> None
   \<and> mytbf_fetchtoken \<lparr>sig_wait = [128], sig_min = [], sig_load = [], sig_store = [128]\<rparr> 7 5 one_bucket \<noteq> None"
  using token_bucket_well_formed [OF one_bucket_run] one_bucket_ok(2) by blast

lemma token_bucket_limits_rate_witness:
  "\<exists>s' me'. alrm_handler 128 one_bucket = Some s' \<and> tb_mem s' 7 = Some me' \<and> token me' \<le> 0 + 1 * 10"
proof -
  obtain s' where a: "alrm_handler 128 one_bucket = Some s'" using alrm_handler_ok [OF one_bucket_ok(1)] by blast
  then have r: "tb_runs one_bucket [(CallAlarm 128, 0)] s'" by (intro RunsStep [OF StepAlarm RunsNil])
  show ?thesis
    using token_bucket_limits_rate [OF one_bucket_ok(1) r one_bucket_ok(2)] a
    by (auto simp: fetched_def given_def seconds_def)
qed


definition one_bucket_mt :: tb_mt where
  "one_bucket_mt = tb_module.extend one_bucket \<lparr>mut_ok = True\<rparr>"

lemma threaded_bucket_faults_witness:
  "mytbf_fetchtoken_mt [TbReturn 7 3] 7 5 one_bucket_mt = Some Blocked
   \<and> (\<exists>s1. mytbf_destroy_mt 7 one_bucket_mt = Some (0, s1) \<and> thr_alrm_round s1 = None)"
proof -
  have m: "tb_ok one_bucket_mt" "mut_ok one_bucket_mt"
      "tb_mem one_bucket_mt 7 = Some \<lparr>cps = 10, burst = 100, token = 0, tb_pos = 0\<rparr>"
    using one_bucket_ok by (simp_all add: one_bucket_mt_def tb_module.defs tb_ok_def)
  show ?thesis using threaded_bucket_faults [OF m, of 5 3] by auto
qed

end
