(* ===== verification/PrimePool.thy ===== *)
theory PrimePool
  imports Prelude
begin

text \<open>
  The prime search \<open>3.ybx/3.apue/8.thread/posix/17.primer0_cond_pool.c\<close>: \<open>main\<close> hands the numbers from
  \<open>LEFT\<close> to \<open>RIGHT\<close> one by one to \<open>THRNUM\<close> threads through the variable \<open>num\<close> (0: no task, -1: finished),
  guarded by a mutex and one condition for both sides.  What runs with the mutex held is one step.
  \<open>pthread_cond_signal\<close> wakes one sleeper, if there is one, \<open>broadcast\<close> wakes all.  And the counting
  semaphore \<open>21.mysem/mysem.c\<close> built from a mutex and a condition.
\<close>

section \<open>The test of a number\<close>

definition LEFT :: int where "LEFT = 30000000"
definition RIGHT :: int where "RIGHT = 30000200"
definition THRNUM :: nat where "THRNUM = 4"

function cal_loop :: "int \<Rightarrow> int \<Rightarrow> bool option" where
  "cal_loop i j = do {
     half \<leftarrow> cdiv i 2;
     if j < half then (if j = 0 then None else if i mod j = 0 then Some False else cal_loop i (j + 1))
     else Some True }"
  by pat_completeness auto
termination
proof (relation "measure (\<lambda>(i, j). nat (\<bar>i\<bar> - j))")
  fix i j half :: int
  assume "cdiv i 2 = Some half" "j < half"
  moreover have "sgn i * (\<bar>i\<bar> div 2) \<le> \<bar>i\<bar>" by (cases "0 \<le> i") (auto simp: sgn_if)
  ultimately have "j < \<bar>i\<bar>" by (auto simp: cdiv_def chk_def sgn_if split: if_splits)
  then show "((i, j + 1), (i, j)) \<in> measure (\<lambda>(i, j). nat (\<bar>i\<bar> - j))" by simp
qed simp

declare cal_loop.simps [simp del]

text \<open>\<open>cal\<close> prints \<open>i\<close> when no divisor was found.\<close>

definition cal :: "int \<Rightarrow> int list option" where
  "cal i = do { mark \<leftarrow> cal_loop i 2; Some (if mark then [i] else []) }"

section \<open>The threads\<close>

datatype mainpc = MReady "int list" | MAsleep "int list" | MJoining
datatype workpc = WTest | WSleep | WCal int | WExit

record pool =
  pnum :: int
  mainp :: mainpc
  works :: "workpc list"
  handed :: "int list"
  printed :: "int list"

definition wake_worker :: "workpc \<Rightarrow> workpc" where
  "wake_worker w = (if w = WSleep then WTest else w)"

definition wake_main :: "mainpc \<Rightarrow> mainpc" where
  "wake_main m = (case m of MAsleep ts \<Rightarrow> MReady ts | _ \<Rightarrow> m)"

definition broadcast :: "pool \<Rightarrow> pool" where
  "broadcast s = s\<lparr>mainp := wake_main (mainp s), works := map wake_worker (works s)\<rparr>"

text \<open>Steps of \<open>main\<close>; when it signals it does not sleep itself, so a sleeper is a worker.\<close>

inductive main_step :: "pool \<Rightarrow> pool \<Rightarrow> bool" where
  MainSleep: "mainp s = MReady ts \<Longrightarrow> pnum s \<noteq> 0 \<Longrightarrow> main_step s (s\<lparr>mainp := MAsleep ts\<rparr>)"
| MainPut: "mainp s = MReady (t # ts) \<Longrightarrow> pnum s = 0 \<Longrightarrow> i < length (works s) \<Longrightarrow> works s ! i = WSleep \<Longrightarrow>
     main_step s (s\<lparr>pnum := t, mainp := MReady ts, works := (works s)[i := WTest]\<rparr>)"
| MainPutNone: "mainp s = MReady (t # ts) \<Longrightarrow> pnum s = 0 \<Longrightarrow> WSleep \<notin> set (works s) \<Longrightarrow>
     main_step s (s\<lparr>pnum := t, mainp := MReady ts\<rparr>)"
| MainEnd: "mainp s = MReady [] \<Longrightarrow> pnum s = 0 \<Longrightarrow>
     main_step s (broadcast (s\<lparr>pnum := - 1, mainp := MJoining\<rparr>))"

text \<open>The step of a worker with the mutex, or at the end of its calculation.\<close>

definition func :: "nat \<Rightarrow> pool \<Rightarrow> pool option" where
  "func i s = (case works s ! i of
     WTest \<Rightarrow>
       if pnum s = 0 then Some (s\<lparr>works := (works s)[i := WSleep]\<rparr>)
       else if pnum s = - 1 then Some (s\<lparr>works := (works s)[i := WExit]\<rparr>)
       else Some (broadcast (s\<lparr>pnum := 0, works := (works s)[i := WCal (pnum s)], handed := handed s @ [pnum s]\<rparr>))
   | WCal n \<Rightarrow> do { out \<leftarrow> cal n; Some (s\<lparr>works := (works s)[i := WTest], printed := printed s @ out\<rparr>) }
   | _ \<Rightarrow> None)"

inductive pool_step :: "pool \<Rightarrow> pool \<Rightarrow> bool" where
  Main: "main_step s s' \<Longrightarrow> pool_step s s'"
| Worker: "i < length (works s) \<Longrightarrow> func i s = Some s' \<Longrightarrow> pool_step s s'"

definition pool_start :: "nat \<Rightarrow> int list \<Rightarrow> pool" where
  "pool_start n ts = \<lparr>pnum = 0, mainp = MReady ts, works = replicate n WTest, handed = [], printed = []\<rparr>"

section \<open>The semaphore\<close>

text \<open>
  Threads that are idle, asleep in \<open>mysem_sub\<close> or woken there, each with the number it asks for;
  \<open>mysem_init\<close> gets whether \<open>malloc\<close> succeeds and how many threads will use the semaphore.
\<close>

datatype sthread = SIdle | SAsleep int | SAwake int

record mysem =
  sem_num :: int
  sthreads :: "sthread list"

definition mysem_init :: "bool \<Rightarrow> int \<Rightarrow> nat \<Rightarrow> mysem option" where
  "mysem_init got init_num n = (if got then Some \<lparr>sem_num = init_num, sthreads = replicate n SIdle\<rparr> else None)"

definition mysem_add :: "int \<Rightarrow> mysem \<Rightarrow> (int \<times> mysem) option" where
  "mysem_add n me = do {
     v \<leftarrow> chk (sem_num me + n);
     Some (n, me\<lparr>sem_num := v,
       sthreads := map (\<lambda>t. case t of SAsleep k \<Rightarrow> SAwake k | _ \<Rightarrow> t) (sthreads me)\<rparr>) }"

text \<open>The loop of \<open>mysem_sub\<close> in thread \<open>t\<close>, first or after a wakeup: \<open>None\<close> as the return code while it sleeps.\<close>

definition mysem_sub :: "nat \<Rightarrow> int \<Rightarrow> mysem \<Rightarrow> (int option \<times> mysem) option" where
  "mysem_sub t n me =
     (if n > sem_num me then Some (None, me\<lparr>sthreads := (sthreads me)[t := SAsleep n]\<rparr>)
      else do {
        v \<leftarrow> chk (sem_num me - n);
        Some (Some n, me\<lparr>sem_num := v, sthreads := (sthreads me)[t := SIdle]\<rparr>) })"

inductive sem_step :: "mysem \<Rightarrow> int \<Rightarrow> mysem \<Rightarrow> bool" where
  SemAdd: "0 \<le> n \<Longrightarrow> mysem_add n me = Some (r, me') \<Longrightarrow> sem_step me n me'"
| SemSub: "t < length (sthreads me) \<Longrightarrow> sthreads me ! t = SIdle \<or> sthreads me ! t = SAwake n \<Longrightarrow> 0 \<le> n \<Longrightarrow>
     mysem_sub t n me = Some (r, me') \<Longrightarrow> sem_step me (case r of None \<Rightarrow> 0 | Some k \<Rightarrow> - k) me'"
| SemSpurious: "t < length (sthreads me) \<Longrightarrow> sthreads me ! t = SAsleep n \<Longrightarrow>
     sem_step me 0 (me\<lparr>sthreads := (sthreads me)[t := SAwake n]\<rparr>)"

section \<open>The test is right\<close>

definition prime_number :: "int \<Rightarrow> bool" where
  "prime_number i \<longleftrightarrow> 2 \<le> i \<and> (\<forall>d. 2 \<le> d \<and> d < i \<longrightarrow> \<not> d dvd i)"

lemma cal_loop_divisors:
  assumes "0 \<le> i" "int_range i"
  shows "2 \<le> j \<Longrightarrow> cal_loop i j = Some (\<forall>d. j \<le> d \<and> d < i div 2 \<longrightarrow> \<not> d dvd i)"
proof (induction "nat (i div 2 - j)" arbitrary: j)
  case 0
  have "cdiv i 2 = Some (i div 2)" using assms by (auto simp: cdiv_def chk_def int_range_def sgn_if)
  then show ?case using 0 by (subst cal_loop.simps) auto
next
  case (Suc m)
  have h: "cdiv i 2 = Some (i div 2)" "j < i div 2" using assms Suc.hyps(2) by (auto simp: cdiv_def chk_def int_range_def sgn_if)
  have IH: "cal_loop i (j + 1) = Some (\<forall>d. j + 1 \<le> d \<and> d < i div 2 \<longrightarrow> \<not> d dvd i)"
    by (rule Suc.hyps(1)) (use Suc.hyps(2) Suc.prems in auto)
  have split: "(\<forall>d. j \<le> d \<and> d < i div 2 \<longrightarrow> \<not> d dvd i) \<longleftrightarrow> \<not> j dvd i \<and> (\<forall>d. j + 1 \<le> d \<and> d < i div 2 \<longrightarrow> \<not> d dvd i)"
  proof -
    have "j = d \<or> j + 1 \<le> d" if "j \<le> d" for d using that by linarith
    moreover have "j \<le> d" if "j + 1 \<le> d" for d using that by linarith
    ultimately show ?thesis using h(2) by blast
  qed
  have "cal_loop i j = (if i mod j = 0 then Some False else cal_loop i (j + 1))"
    using h Suc.prems by (subst cal_loop.simps) simp
  then show ?case
    by (simp only: IH split) (simp add: dvd_eq_mod_eq_0)
qed

lemma small_divisor:
  fixes i :: int
  assumes "5 \<le> i" "2 \<le> d" "d < i" "d dvd i"
  shows "\<exists>e. 2 \<le> e \<and> e < i div 2 \<and> e dvd i"
proof (cases "d < i div 2")
  case False
  obtain e where e: "i = d * e" using assms(4) by blast
  have "1 < e"
  proof (rule ccontr)
    assume "\<not> 1 < e"
    then have "d * e \<le> d * 1" using assms(2) mult_left_mono [of e 1 d] by simp
    then show False using e assms(3) by simp
  qed
  moreover have "\<not> 3 \<le> e"
  proof
    assume "3 \<le> e"
    then have "d * 3 \<le> i" using e assms(2) mult_left_mono [of 3 e d] by simp
    then show False using False assms(1) by linarith
  qed
  ultimately have "i = d * 2" using e by (simp add: order.antisym)
  then show ?thesis using assms(1) by (intro exI [of _ 2]) auto
qed (use assms in blast)

lemma cal_prints_primes:
  assumes "5 \<le> i" "int_range i"
  shows "cal i = Some (if prime_number i then [i] else [])"
proof -
  have "prime_number i \<longleftrightarrow> (\<forall>d. 2 \<le> d \<and> d < i div 2 \<longrightarrow> \<not> d dvd i)"
  proof
    assume "prime_number i"
    then show "\<forall>d. 2 \<le> d \<and> d < i div 2 \<longrightarrow> \<not> d dvd i" using assms(1) by (auto simp: prime_number_def)
  next
    assume "\<forall>d. 2 \<le> d \<and> d < i div 2 \<longrightarrow> \<not> d dvd i"
    then show "prime_number i" using small_divisor [OF assms(1)] assms(1) unfolding prime_number_def by fastforce
  qed
  then show ?thesis using cal_loop_divisors [of i 2] assms by (auto simp: cal_def)
qed

section \<open>Invariant of the pool\<close>

definition rest :: "mainpc \<Rightarrow> int list" where
  "rest m = (case m of MReady ts \<Rightarrow> ts | MAsleep ts \<Rightarrow> ts | MJoining \<Rightarrow> [])"

definition slot :: "pool \<Rightarrow> int list" where
  "slot s = (if pnum s = 0 \<or> pnum s = - 1 then [] else [pnum s])"

fun working :: "workpc \<Rightarrow> int list" where
  "working (WCal n) = [n]"
| "working _ = []"

definition calculating :: "workpc list \<Rightarrow> int list" where
  "calculating ws = concat (map working ws)"

lemma calculating_simps [simp]: "calculating [] = []" "calculating (w # ws) = working w @ calculating ws"
  "calculating (us @ vs) = calculating us @ calculating vs"
  by (simp_all add: calculating_def)

lemma wake_worker_simps [simp]: "wake_worker WSleep = WTest" "wake_worker WTest = WTest" "wake_worker (WCal n) = WCal n" "wake_worker WExit = WExit"
  by (simp_all add: wake_worker_def)

lemma working_wake [simp]: "working (wake_worker w) = working w"
  by (cases w) simp_all

lemma calculating_wake [simp]: "calculating (map wake_worker ws) = calculating ws"
  by (simp add: calculating_def o_def)

lemma wake_worker_iff [simp]: "wake_worker w = WSleep \<longleftrightarrow> False" "wake_worker w = WExit \<longleftrightarrow> w = WExit"
  by (cases w; simp)+

lemma rest_wake [simp]: "rest (wake_main m) = rest m"
  by (simp add: rest_def wake_main_def split: mainpc.splits)

definition active :: "workpc \<Rightarrow> bool" where
  "active w \<longleftrightarrow> w \<noteq> WSleep \<and> w \<noteq> WExit"

definition tasks_ok :: "int list \<Rightarrow> pool \<Rightarrow> bool" where
  "tasks_ok tasks s \<longleftrightarrow> tasks = handed s @ slot s @ rest (mainp s) \<and> (\<forall>n \<in> set tasks. 5 \<le> n \<and> int_range n) \<and>
     (\<exists>ready. mset (handed s) = mset ready + mset (calculating (works s)) \<and> printed s = filter prime_number ready)"

definition sleep_ok :: "pool \<Rightarrow> bool" where
  "sleep_ok s \<longleftrightarrow> works s \<noteq> [] \<and> (\<forall>ts. mainp s = MAsleep ts \<longrightarrow> pnum s \<noteq> 0) \<and> (pnum s = - 1 \<longleftrightarrow> mainp s = MJoining) \<and>
     (slot s \<noteq> [] \<longrightarrow> (\<exists>w \<in> set (works s). active w)) \<and>
     (if pnum s = - 1 then WSleep \<notin> set (works s) else WExit \<notin> set (works s))"

lemma at_place:
  assumes "i < length ws"
  obtains us vs where "ws = us @ (ws ! i) # vs" "\<And>w'. ws[i := w'] = us @ w' # vs"
  using that [of "take i ws" "drop (Suc i) ws"] assms id_take_nth_drop [of i ws] upd_conv_take_nth_drop [of i ws] by auto

fun cost :: "workpc \<Rightarrow> nat" where
  "cost WTest = 1"
| "cost (WCal _) = 2"
| "cost _ = 0"

definition load :: "workpc list \<Rightarrow> nat" where
  "load ws = sum_list (map cost ws)"

definition pool_weight :: "pool \<Rightarrow> nat" where
  "pool_weight s = (length (works s) + 6) * length (rest (mainp s)) + (length (works s) + 4) * length (slot s) +
     (case mainp s of MReady _ \<Rightarrow> length (works s) + 3 | MAsleep _ \<Rightarrow> length (works s) + 2 | MJoining \<Rightarrow> 0) +
     load (works s)"

lemma load_simps [simp]: "load [] = 0" "load (w # ws) = cost w + load ws"
  "load (us @ vs) = load us + load vs"
  by (simp_all add: load_def)

lemma load_wake: "load (map wake_worker ws) \<le> load ws + length ws"
proof (induction ws)
  case (Cons w ws) then show ?case by (cases w) auto
qed simp

lemma load_upd: "i < length ws \<Longrightarrow> load (ws[i := w]) + cost (ws ! i) = load ws + cost w"
proof (induction ws arbitrary: i)
  case (Cons v ws)
  then show ?case by (cases i) auto
qed simp

lemma calculating_upd:
  "i < length ws \<Longrightarrow> mset (calculating (ws[i := w])) + mset (working (ws ! i)) = mset (calculating ws) + mset (working w)"
proof (induction ws arbitrary: i)
  case (Cons v ws)
  show ?case
  proof (cases i)
    case (Suc k)
    then show ?thesis using Cons.IH [of k] Cons.prems by (simp add: ac_simps)
  qed simp
qed simp

lemma in_set_upd: "c \<in> set (ws[i := x]) \<Longrightarrow> c \<noteq> x \<Longrightarrow> c \<in> set ws"
  using set_update_subset_insert [of ws i x] by auto

text \<open>The invariant is kept by the steps of \<open>main\<close>.\<close>

lemma main_step_tasks:
  assumes "main_step s s'" "tasks_ok tasks s"
  shows "tasks_ok tasks s'"
  using assms(1)
proof cases
  case (MainSleep ts)
  then show ?thesis using assms(2) by (auto simp: tasks_ok_def rest_def slot_def)
next
  case (MainPut t ts i)
  have "5 \<le> t" using MainPut assms(2) by (auto simp: tasks_ok_def rest_def slot_def)
  moreover have "calculating ((works s)[i := WTest]) = calculating (works s)"
    using at_place [OF MainPut(4)] MainPut(5) by (metis calculating_simps(2,3) working.simps(2,3))
  ultimately show ?thesis using MainPut assms(2) by (auto simp: tasks_ok_def rest_def slot_def)
next
  case (MainPutNone t ts)
  then show ?thesis using assms(2) by (auto simp: tasks_ok_def rest_def slot_def)
next
  case MainEnd
  then show ?thesis using assms(2) by (auto simp: tasks_ok_def rest_def slot_def broadcast_def wake_main_def)
qed

lemma main_step_sleep:
  assumes "main_step s s'" "tasks_ok tasks s" "sleep_ok s"
  shows "sleep_ok s'"
  using assms(1)
proof cases
  case (MainSleep ts)
  then show ?thesis using assms(3) by (auto simp: sleep_ok_def slot_def)
next
  case (MainPut t ts i)
  have t: "5 \<le> t" using MainPut assms(2) by (auto simp: tasks_ok_def rest_def slot_def)
  have "WTest \<in> set ((works s)[i := WTest])" using MainPut(4) by (simp add: set_update_memI)
  then have "\<exists>w \<in> set ((works s)[i := WTest]). active w" by (auto simp: active_def)
  moreover have "WExit \<notin> set ((works s)[i := WTest])"
    using assms(3) MainPut(3) set_update_subset_insert [of "works s" i WTest] by (auto simp: sleep_ok_def)
  ultimately show ?thesis using MainPut(1-4) assms(3) t by (simp add: sleep_ok_def slot_def)
next
  case (MainPutNone t ts)
  have t: "5 \<le> t" using MainPutNone assms(2) by (auto simp: tasks_ok_def rest_def slot_def)
  obtain w where w: "w \<in> set (works s)" using assms(3) by (cases "works s") (auto simp: sleep_ok_def)
  have "active w" using w assms(3) MainPutNone by (auto simp: active_def sleep_ok_def)
  then show ?thesis using MainPutNone assms(3) t w by (auto simp: sleep_ok_def slot_def)
next
  case MainEnd
  have "WSleep \<notin> set (map wake_worker ws)" for ws
    by (metis (no_types, lifting) imageE list.set_map wake_worker_iff(1))
  then show ?thesis using MainEnd assms(3) by (simp add: sleep_ok_def slot_def broadcast_def wake_main_def)
qed

lemma main_step_weight:
  assumes "main_step s s'" "tasks_ok tasks s"
  shows "pool_weight s' < pool_weight s"
  using assms(1)
proof cases
  case (MainPut t ts i)
  have "5 \<le> t" using MainPut assms(2) by (auto simp: tasks_ok_def rest_def slot_def)
  moreover have "load ((works s)[i := WTest]) = Suc (load (works s))"
    using load_upd [OF MainPut(4), of WTest] MainPut(5) by simp
  ultimately show ?thesis using MainPut by (simp add: pool_weight_def rest_def slot_def)
next
  case (MainPutNone t ts)
  then show ?thesis by (simp add: pool_weight_def rest_def slot_def)
next
  case MainEnd
  then show ?thesis using load_wake [of "works s"]
    by (simp add: pool_weight_def rest_def slot_def broadcast_def wake_main_def)
qed (simp add: pool_weight_def rest_def slot_def)

text \<open>And by the steps of a worker.\<close>

lemma func_cases:
  assumes "func i s = Some s'"
  obtains
    (sleep) "works s ! i = WTest" "pnum s = 0" "s' = s\<lparr>works := (works s)[i := WSleep]\<rparr>"
  | (leave) "works s ! i = WTest" "pnum s = - 1" "s' = s\<lparr>works := (works s)[i := WExit]\<rparr>"
  | (take) "works s ! i = WTest" "pnum s \<noteq> 0" "pnum s \<noteq> - 1"
      "s' = broadcast (s\<lparr>pnum := 0, works := (works s)[i := WCal (pnum s)], handed := handed s @ [pnum s]\<rparr>)"
  | (finish) n out where "works s ! i = WCal n" "cal n = Some out"
      "s' = s\<lparr>works := (works s)[i := WTest], printed := printed s @ out\<rparr>"
  using assms by (auto simp: func_def split: workpc.splits if_splits bind_splits)

lemma func_tasks:
  assumes "i < length (works s)" "func i s = Some s'" "tasks_ok tasks s"
  shows "tasks_ok tasks s'"
proof -
  obtain ready where inv: "tasks = handed s @ slot s @ rest (mainp s)" "\<And>n. n \<in> set tasks \<Longrightarrow> 5 \<le> n \<and> int_range n"
    "mset (handed s) = mset ready + mset (calculating (works s))" "printed s = filter prime_number ready"
    using assms(3) by (auto simp: tasks_ok_def)
  note upd = calculating_upd [OF assms(1)]
  from assms(2) show ?thesis
  proof (cases rule: func_cases)
    case (finish n out)
    have "n \<in> set (calculating (works s))" using nth_mem [OF assms(1)] finish(1) by (force simp: calculating_def)
    then have "n \<in> set tasks" using inv(1,3) by (metis Un_iff set_append set_mset_mset set_mset_union)
    then have out: "out = filter prime_number [n]" using cal_prints_primes [of n] finish(2) inv(2) by auto
    have "mset (handed s) = mset (ready @ [n]) + mset (calculating ((works s)[i := WTest]))"
      using upd [of WTest] finish(1) inv(3) by simp
    then show ?thesis using finish(3) inv(1,2,4) out unfolding tasks_ok_def
      by (auto simp: slot_def intro!: exI [of _ "ready @ [n]"])
  next
    case sleep
    then show ?thesis using upd [of WSleep] inv unfolding tasks_ok_def by (auto simp: slot_def)
  next
    case leave
    then show ?thesis using upd [of WExit] inv unfolding tasks_ok_def by (auto simp: slot_def)
  next
    case take
    have "mset (handed s @ [pnum s]) = mset ready + mset (calculating ((works s)[i := WCal (pnum s)]))"
      using upd [of "WCal (pnum s)"] take(1) inv(3) by simp
    then show ?thesis using take inv unfolding tasks_ok_def by (auto simp: slot_def broadcast_def intro!: exI [of _ ready])
  qed
qed

lemma func_sleep:
  assumes "i < length (works s)" "func i s = Some s'" "sleep_ok s"
  shows "sleep_ok s'"
proof -
  note here = assms(1,3)
  from assms(2) show ?thesis
  proof (cases rule: func_cases)
    case (finish n out)
    have "WTest \<in> set ((works s)[i := WTest])" using assms(1) by (simp add: set_update_memI)
    then have "\<exists>w \<in> set ((works s)[i := WTest]). active w" by (auto simp: active_def)
    then show ?thesis using finish here by (auto simp: sleep_ok_def slot_def dest: in_set_upd)
  next
    case sleep
    then show ?thesis using here by (auto simp: sleep_ok_def slot_def dest: in_set_upd)
  next
    case leave
    then show ?thesis using here by (auto simp: sleep_ok_def slot_def dest: in_set_upd)
  next
    case take
    have "wake_main (mainp s) \<noteq> MAsleep ts" "(wake_main m = MJoining) = (m = MJoining)" for ts m
      by (simp_all add: wake_main_def split: mainpc.splits)
    moreover have "WExit \<notin> set ((works s)[i := WCal (pnum s)])"
      using take here by (auto simp: sleep_ok_def dest: in_set_upd)
    then have "WExit \<notin> set (map wake_worker ((works s)[i := WCal (pnum s)]))"
      by (metis (no_types, lifting) imageE list.set_map wake_worker_iff(2))
    ultimately show ?thesis using take here by (simp add: sleep_ok_def slot_def broadcast_def)
  qed
qed

lemma func_weight:
  assumes "i < length (works s)" "func i s = Some s'"
  shows "pool_weight s' < pool_weight s"
proof -
  note upd = load_upd [OF assms(1)]
  from assms(2) show ?thesis
  proof (cases rule: func_cases)
    case take
    show ?thesis
      using upd [of "WCal (pnum s)"] take load_wake [of "(works s)[i := WCal (pnum s)]"]
      by (simp add: pool_weight_def slot_def broadcast_def wake_main_def rest_def split: mainpc.split)
  next
    case (finish n out) then show ?thesis using upd [of WTest] by (simp add: pool_weight_def slot_def split: mainpc.split)
  next
    case sleep then show ?thesis using upd [of WSleep] by (simp add: pool_weight_def slot_def split: mainpc.split)
  next
    case leave then show ?thesis using upd [of WExit] by (simp add: pool_weight_def slot_def split: mainpc.split)
  qed
qed

lemma pool_step_inv:
  assumes "pool_step s s'" "tasks_ok tasks s" "sleep_ok s"
  shows "tasks_ok tasks s' \<and> sleep_ok s' \<and> pool_weight s' < pool_weight s"
  using assms(1)
  by cases (use assms main_step_tasks main_step_sleep main_step_weight func_tasks func_sleep func_weight in blast)+

lemma pool_run_inv:
  assumes "(pool_step ^^ k) s s'" "tasks_ok tasks s" "sleep_ok s"
  shows "tasks_ok tasks s' \<and> sleep_ok s' \<and> k + pool_weight s' \<le> pool_weight s"
  using assms
proof (induction k arbitrary: s')
  case (Suc k)
  obtain m where m: "(pool_step ^^ k) s m" "pool_step m s'" using Suc.prems(1) by auto
  have "tasks_ok tasks m \<and> sleep_ok m \<and> k + pool_weight m \<le> pool_weight s" using Suc.IH m(1) Suc.prems(2,3) by blast
  then show ?case using pool_step_inv [OF m(2)] by fastforce
qed simp

lemma pool_stuck:
  assumes "tasks_ok tasks s" "sleep_ok s" "\<nexists>s'. pool_step s s'"
  shows "mainp s = MJoining \<and> set (works s) \<subseteq> {WExit} \<and> handed s = tasks \<and> mset (printed s) = mset (filter prime_number tasks)"
proof -
  have none: "func i s = None" if "i < length (works s)" for i using that assms(3) pool_step.Worker by (cases "func i s") blast+
  have idle: "\<not> active w" if "w \<in> set (works s)" for w
  proof -
    obtain i where i: "i < length (works s)" "works s ! i = w" using \<open>w \<in> set (works s)\<close> by (auto simp: in_set_conv_nth)
    have "cal n \<noteq> None" if "w = WCal n" for n
    proof -
      have "n \<in> set (calculating (works s))" using that nth_mem [OF i(1)] i(2) by (force simp: calculating_def)
      then have "n \<in> set tasks" using assms(1) unfolding tasks_ok_def by (metis Un_iff set_append set_mset_mset set_mset_union)
      then show ?thesis using cal_prints_primes [of n] assms(1) by (simp add: tasks_ok_def)
    qed
    then show ?thesis using none [OF i(1)] i(2) by (cases w) (auto simp: func_def active_def split: if_splits)
  qed
  then have slot: "slot s = []" using assms(2) by (auto simp: sleep_ok_def)
  have "pnum s \<noteq> 0"
  proof
    assume zero: "pnum s = 0"
    then obtain ts where ts: "mainp s = MReady ts" using assms(2) by (cases "mainp s") (auto simp: sleep_ok_def)
    show False
    proof (cases ts)
      case Nil then show False using MainEnd ts zero assms(3) pool_step.Main by blast
    next
      case (Cons t ts')
      show False
      proof (cases "WSleep \<in> set (works s)")
        case True
        then obtain i where "i < length (works s)" "works s ! i = WSleep" by (auto simp: in_set_conv_nth)
        then show False using MainPut ts zero Cons assms(3) pool_step.Main by metis
      qed (use MainPutNone ts zero Cons assms(3) pool_step.Main in metis)
    qed
  qed
  then have over: "pnum s = - 1" using slot by (auto simp: slot_def split: if_splits)
  then have joined: "mainp s = MJoining" "set (works s) \<subseteq> {WExit}" using assms(2) idle by (auto simp: sleep_ok_def active_def)
  have "calculating (works s) = []" using joined(2) by (force simp: calculating_def)
  moreover have "rest (mainp s) = []" using joined(1) by (simp add: rest_def)
  ultimately show ?thesis using joined assms(1) slot unfolding tasks_ok_def by auto
qed

lemma pool_start_inv:
  assumes "0 < n" "\<forall>t \<in> set tasks. 5 \<le> t \<and> int_range t"
  shows "tasks_ok tasks (pool_start n tasks) \<and> sleep_ok (pool_start n tasks) \<and>
    pool_weight (pool_start n tasks) = (n + 6) * length tasks + 2 * n + 3"
proof -
  have "calculating (replicate n WTest) = []" "load (replicate n WTest) = n" by (induction n) simp_all
  then show ?thesis using assms
    by (auto simp: pool_start_def tasks_ok_def sleep_ok_def pool_weight_def slot_def rest_def)
qed

text \<open>
  C12. The prime search works: with any number of worker threads and tasks from 5 on, whatever the order in which
  main and the workers get the mutex, a run has at most \<open>(n + 6) * length tasks + 2 * n + 3\<close> steps, no state on
  the way is a deadlock, and where no thread can go on, main is joining workers that have all left, every task
  has been handed out once and in order, and exactly the primes among the tasks were printed, each once.
\<close>
theorem prime_pool_prints_primes:
  assumes "0 < n" "\<forall>t \<in> set tasks. 5 \<le> t \<and> int_range t" "(pool_step ^^ k) (pool_start n tasks) s"
  shows "k \<le> (n + 6) * length tasks + 2 * n + 3 \<and>
    ((\<exists>s'. pool_step s s') \<or>
     mainp s = MJoining \<and> set (works s) \<subseteq> {WExit} \<and> handed s = tasks \<and>
     mset (printed s) = mset (filter prime_number tasks))"
proof -
  have "tasks_ok tasks s \<and> sleep_ok s \<and> k + pool_weight s \<le> (n + 6) * length tasks + 2 * n + 3"
    using pool_run_inv [OF assms(3), of tasks] pool_start_inv [OF assms(1,2)] by simp
  then show ?thesis using pool_stuck by fastforce
qed

lemma seven_is_printed: "cal 7 = Some [7]"
proof -
  have "cal_loop 7 3 = Some True" "cal_loop 7 2 = Some True"
    using cal_loop.simps [of 7 3] cal_loop.simps [of 7 2] by (simp_all add: cdiv_def chk_def int_range_def)
  then show ?thesis by (simp add: cal_def)
qed

lemma one_worker_run:
  "(pool_step ^^ 5) (pool_start 1 [7]) \<lparr>pnum = - 1, mainp = MJoining, works = [WExit], handed = [7], printed = [7]\<rparr>"
proof -
  let ?s = "\<lambda>p m w h r. \<lparr>pnum = p, mainp = m, works = [w], handed = h, printed = r\<rparr>"
  have "pool_step (pool_start 1 [7]) (?s 7 (MReady []) WTest [] [])"
    using pool_step.Main [OF MainPutNone, of "pool_start 1 [7]" 7 "[]"] by (simp add: pool_start_def)
  moreover have "pool_step (?s 7 (MReady []) WTest [] []) (?s 0 (MReady []) (WCal 7) [7] [])"
    by (rule pool_step.Worker [of 0]) (simp_all add: func_def broadcast_def wake_main_def)
  moreover have "pool_step (?s 0 (MReady []) (WCal 7) [7] []) (?s 0 (MReady []) WTest [7] [7])"
    by (rule pool_step.Worker [of 0]) (simp_all add: func_def seven_is_printed)
  moreover have "pool_step (?s 0 (MReady []) WTest [7] [7]) (?s (- 1) MJoining WTest [7] [7])"
    using pool_step.Main [OF MainEnd, of "?s 0 (MReady []) WTest [7] [7]"] by (simp add: broadcast_def wake_main_def)
  moreover have "pool_step (?s (- 1) MJoining WTest [7] [7]) (?s (- 1) MJoining WExit [7] [7])"
    by (rule pool_step.Worker [of 0]) (simp_all add: func_def)
  ultimately show ?thesis
    by (simp add: numeral_eq_Suc relcompp.simps) blast
qed

theorem prime_pool_prints_primes_witness:
  "(5::nat) \<le> (1 + 6) * length [7::int] + 2 * 1 + 3 \<and>
   mset (printed \<lparr>pnum = - 1, mainp = MJoining, works = [WExit], handed = [7], printed = [7]\<rparr>) = mset (filter prime_number [7])"
proof -
  let ?s = "\<lparr>pnum = - 1, mainp = MJoining, works = [WExit], handed = [7], printed = [7]\<rparr>"
  have stuck: "\<nexists>s'. pool_step ?s s'"
    by (auto elim!: pool_step.cases main_step.cases simp: func_def)
  have range: "\<forall>t \<in> set [7]. 5 \<le> t \<and> int_range t" by (simp add: int_range_def)
  show ?thesis using prime_pool_prints_primes [OF _ range one_worker_run] stuck by simp
qed

text \<open>
  The test of a number \<open>cal\<close> by the divisors below \<open>i / 2\<close> is right for every \<open>int\<close> from 5 on, so for all
  the tasks of the program; the bound of its loop is one too small, for 4 the only candidate 2 is not tried and
  4 is printed as a prime, as are 0 and 1.
\<close>
theorem cal_tests_primes:
  shows "(5 \<le> i \<and> int_range i \<longrightarrow> cal i = Some (if prime_number i then [i] else [])) \<and>
    (\<forall>t. LEFT \<le> t \<and> t \<le> RIGHT \<longrightarrow> cal t = Some (if prime_number t then [t] else [])) \<and>
    cal 4 = Some [4] \<and> \<not> prime_number 4 \<and> cal 1 = Some [1] \<and> cal 0 = Some [0]"
proof -
  have "cal_loop 4 2 = Some True" "cal_loop 1 2 = Some True" "cal_loop 0 2 = Some True"
    using cal_loop.simps [of 4 2] cal_loop.simps [of 1 2] cal_loop.simps [of 0 2] by (simp_all add: cdiv_def chk_def int_range_def)
  moreover have "\<not> prime_number 4" unfolding prime_number_def by (auto intro!: exI [of _ 2])
  moreover have "5 \<le> t \<and> int_range t" if "LEFT \<le> t \<and> t \<le> RIGHT" for t
    using that by (simp add: LEFT_def RIGHT_def int_range_def)
  ultimately show ?thesis using cal_prints_primes by (auto simp: cal_def)
qed

theorem cal_tests_primes_witness: "cal 7 = Some [7] \<and> prime_number 7"
  using cal_tests_primes [of 7] seven_is_printed by (auto simp: int_range_def split: if_splits)

section \<open>The semaphore\<close>

inductive sem_runs :: "mysem \<Rightarrow> int \<Rightarrow> mysem \<Rightarrow> bool" where
  SemStart: "sem_runs me 0 me"
| SemStep: "sem_runs me a m \<Longrightarrow> sem_step m d me' \<Longrightarrow> sem_runs me (a + d) me'"

definition mysem_ok :: "mysem \<Rightarrow> bool" where
  "mysem_ok me \<longleftrightarrow> 0 \<le> sem_num me \<and> int_range (sem_num me) \<and> (\<forall>k. SAsleep k \<in> set (sthreads me) \<longrightarrow> sem_num me < k)"

lemma sthread_upd: "t \<in> set (ts[i := x]) \<Longrightarrow> t = x \<or> t \<in> set ts"
  using set_update_subset_insert [of ts i x] by auto

lemma sem_step_ok:
  assumes "sem_step m d me" "mysem_ok m"
  shows "mysem_ok me \<and> sem_num me = sem_num m + d"
  using assms(1)
proof cases
  case (SemAdd r)
  have "SAsleep k \<notin> set (map (\<lambda>t. case t of SAsleep k \<Rightarrow> SAwake k | _ \<Rightarrow> t) ts)" for k ts
    by (auto split: sthread.splits)
  then show ?thesis using SemAdd assms(2) by (auto simp: mysem_add_def mysem_ok_def chk_def split: bind_splits if_splits)
next
  case (SemSub t n r)
  then show ?thesis using assms(2)
    by (fastforce simp: mysem_sub_def mysem_ok_def chk_def dest: sthread_upd split: bind_splits if_splits)
next
  case (SemSpurious t n)
  then show ?thesis using assms(2) by (auto simp: mysem_ok_def dest: sthread_upd)
qed

text \<open>
  The semaphore counts right and loses no wakeup: in every run of any threads from \<open>mysem_init\<close> with a number
  from 0 on, the value is the initial one plus what was added less what was taken and never negative, every
  thread that sleeps in \<open>mysem_sub\<close> asks for more than there is, and a thread that is awake there and asks for no
  more than there is gets it at its next turn.
\<close>
theorem semaphore_never_strands:
  assumes "mysem_init got v n = Some me0" "0 \<le> v" "int_range v" "sem_runs me0 net me"
  shows "sem_num me = v + net \<and> 0 \<le> sem_num me \<and>
    (\<forall>k. SAsleep k \<in> set (sthreads me) \<longrightarrow> sem_num me < k) \<and>
    (\<forall>t k. 0 \<le> k \<and> k \<le> sem_num me \<longrightarrow>
       mysem_sub t k me = Some (Some k, me\<lparr>sem_num := sem_num me - k, sthreads := (sthreads me)[t := SIdle]\<rparr>))"
proof -
  have "mysem_ok me0" "sem_num me0 = v" using assms(1-3) by (auto simp: mysem_init_def mysem_ok_def split: if_splits)
  with assms(4) have "mysem_ok me \<and> sem_num me = v + net"
    by (induction rule: sem_runs.induct) (use sem_step_ok in fastforce)+
  then show ?thesis by (auto simp: mysem_ok_def mysem_sub_def chk_def int_range_def)
qed

lemma small_semaphore_run:
  "sem_runs \<lparr>sem_num = 0, sthreads = [SIdle]\<rparr> 1 \<lparr>sem_num = 1, sthreads = [SAwake 1]\<rparr>"
proof -
  have "sem_step \<lparr>sem_num = 0, sthreads = [SIdle]\<rparr> 0 \<lparr>sem_num = 0, sthreads = [SAsleep 1]\<rparr>"
    using SemSub [of 0 "\<lparr>sem_num = 0, sthreads = [SIdle]\<rparr>" 1] by (fastforce simp: mysem_sub_def)
  moreover have "sem_step \<lparr>sem_num = 0, sthreads = [SAsleep 1]\<rparr> 1 \<lparr>sem_num = 1, sthreads = [SAwake 1]\<rparr>"
    by (rule SemAdd) (simp_all add: mysem_add_def chk_def int_range_def)
  ultimately show ?thesis
    using SemStep [OF SemStep [OF SemStart], of "\<lparr>sem_num = 0, sthreads = [SIdle]\<rparr>" 0 "\<lparr>sem_num = 0, sthreads = [SAsleep 1]\<rparr>" 1]
    by simp
qed

theorem semaphore_never_strands_witness:
  "mysem_sub 0 1 \<lparr>sem_num = 1, sthreads = [SAwake 1]\<rparr> = Some (Some 1, \<lparr>sem_num = 0, sthreads = [SIdle]\<rparr>)"
  using semaphore_never_strands [OF _ _ _ small_semaphore_run, of True 0 1]
  by (auto simp: mysem_init_def int_range_def)

end
