(* ===== verification/NodeList.thy ===== *)
theory NodeList
  imports Prelude
begin

text \<open>
  Singly linked lists: \<open>3.ybx/20.ds/2.ds/1.list/2.simple/head/list.c\<close>, whose lists start with a header
  node, and \<open>nohead/nohead.c\<close>, without one.  Nodes live in a store of addresses; 0 is null.
  Reading a node through null or through a freed pointer is undefined (\<open>None\<close>).
\<close>

section \<open>Nodes and segments\<close>

record 'd lnode =
  ldata :: 'd
  lnext :: nat

type_synonym 'd lheap = "nat \<Rightarrow> 'd lnode option"

text \<open>\<open>seg h ns q\<close>: the nodes \<open>ns\<close>, pairs of address and data, are linked in this order and the last
  one points to \<open>q\<close>.\<close>

fun first :: "(nat \<times> 'd) list \<Rightarrow> nat \<Rightarrow> nat" where
  "first [] q = q"
| "first ((a, x) # ns) q = a"

fun seg :: "'d lheap \<Rightarrow> (nat \<times> 'd) list \<Rightarrow> nat \<Rightarrow> bool" where
  "seg h [] q = True"
| "seg h ((a, x) # ns) q = (a \<noteq> 0 \<and> h a = Some \<lparr>ldata = x, lnext = first ns q\<rparr> \<and> seg h ns q)"

definition addrs :: "(nat \<times> 'd) list \<Rightarrow> nat list" where
  "addrs ns = map fst ns"

lemma addrs_simps [simp]: "addrs [] = []" "addrs ((a, x) # ns) = a # addrs ns" "addrs (ms @ ns) = addrs ms @ addrs ns"
  by (simp_all add: addrs_def)

lemma length_addrs [simp]: "length (addrs ns) = length ns"
  by (simp add: addrs_def)

lemma first_append [simp]: "first (ms @ ns) q = first ms (first ns q)"
  by (induction ms q rule: first.induct) auto

lemma seg_append [simp]: "seg h (ms @ ns) q \<longleftrightarrow> seg h ms (first ns q) \<and> seg h ns q"
  by (induction h ms q rule: seg.induct) auto

lemma seg_frame: "a \<notin> set (addrs ns) \<Longrightarrow> seg (h(a := v)) ns q = seg h ns q"
  by (induction h ns q rule: seg.induct) auto

lemma seg_cong: "(\<And>a. a \<in> set (addrs ns) \<Longrightarrow> h' a = h a) \<Longrightarrow> seg h' ns q = seg h ns q"
  by (induction h ns q rule: seg.induct) auto

lemma seg_alloc: "seg h ns q \<Longrightarrow> a \<in> set (addrs ns) \<Longrightarrow> a \<noteq> 0 \<and> h a \<noteq> None"
  by (induction h ns q rule: seg.induct) auto

text \<open>A whole list: it ends in null and no node comes twice.\<close>

definition chained :: "'d lheap \<Rightarrow> (nat \<times> 'd) list \<Rightarrow> bool" where
  "chained h ns \<longleftrightarrow> seg h ns 0 \<and> distinct (addrs ns)"

lemma chained_fresh: "chained h ns \<Longrightarrow> h p = None \<Longrightarrow> p \<notin> set (addrs ns)"
  using seg_alloc unfolding chained_def by blast

lemma first_null: "seg h ns 0 \<Longrightarrow> first ns 0 = 0 \<longleftrightarrow> ns = []"
  by (cases ns) auto

text \<open>Linking a new node behind a node, and unlinking the node behind a node.\<close>

lemma link_behind:
  assumes "chained h (ms @ (a, x) # ns)" "h p = None" "p \<noteq> 0"
  shows "chained (h(p := Some \<lparr>ldata = v, lnext = first ns 0\<rparr>, a := Some \<lparr>ldata = x, lnext = p\<rparr>)) (ms @ (a, x) # (p, v) # ns)"
proof -
  have "p \<notin> set (addrs (ms @ (a, x) # ns))" by (rule chained_fresh [OF assms(1,2)])
  then show ?thesis using assms by (auto simp: chained_def seg_frame)
qed

lemma unlink_behind:
  assumes "chained h (ms @ (a, x) # (b, y) # ns)"
  shows "chained (h(a := Some \<lparr>ldata = x, lnext = first ns 0\<rparr>)) (ms @ (a, x) # ns)"
  using assms by (auto simp: chained_def seg_frame)

lemma free_unlinked: "chained h ns \<Longrightarrow> b \<notin> set (addrs ns) \<Longrightarrow> chained (h(b := v)) ns"
  by (simp add: chained_def seg_frame)

section \<open>Lists with a header\<close>

definition list_create :: "nat \<Rightarrow> int \<Rightarrow> int lheap \<Rightarrow> nat \<times> int lheap" where
  "list_create mem junk h = (if mem = 0 then (0, h) else (mem, h(mem := Some \<lparr>ldata = junk, lnext = 0\<rparr>)))"

text \<open>\<open>while (j < i && node->next)\<close>\<close>

function walk_at :: "int \<Rightarrow> int \<Rightarrow> nat \<Rightarrow> 'd lheap \<Rightarrow> nat option" where
  "walk_at i j node h =
     (if j < i then do {
        n \<leftarrow> h node;
        if lnext n \<noteq> 0 then walk_at i (j + 1) (lnext n) h else Some node }
      else Some node)"
  by pat_completeness auto
termination by (relation "measure (\<lambda>(i, j, _). nat (i - j))") auto

declare walk_at.simps [simp del]

definition list_insert_at :: "nat \<Rightarrow> nat \<Rightarrow> int \<Rightarrow> int \<Rightarrow> int lheap \<Rightarrow> (int \<times> int lheap) option" where
  "list_insert_at mem me i v h =
     (if i < 0 then Some (- 1, h)
      else do {
        node \<leftarrow> walk_at i 0 me h;
        if node \<noteq> 0 then
          (if mem = 0 then Some (- 3, h)
           else do {
             n \<leftarrow> h node;
             let h1 = h(mem := Some \<lparr>ldata = v, lnext = lnext n\<rparr>);
             n1 \<leftarrow> h1 node;
             Some (0, h1(node := Some (n1\<lparr>lnext := mem\<rparr>))) })
        else Some (- 2, h) })"

partial_function (option) walk_less :: "int \<Rightarrow> nat \<Rightarrow> int lheap \<Rightarrow> nat option" where
  "walk_less v p h = do {
     n \<leftarrow> h p;
     if lnext n \<noteq> 0 then do {
       m \<leftarrow> h (lnext n);
       if ldata m < v then walk_less v (lnext n) h else Some p }
     else Some p }"

definition list_order_insert :: "nat \<Rightarrow> nat \<Rightarrow> int \<Rightarrow> int lheap \<Rightarrow> (int \<times> int lheap) option" where
  "list_order_insert mem me v h = do {
     p \<leftarrow> walk_less v me h;
     if p \<noteq> 0 then
       (if mem = 0 then Some (- 1, h)
        else do {
          n \<leftarrow> h p;
          let h1 = h(mem := Some \<lparr>ldata = v, lnext = lnext n\<rparr>);
          n1 \<leftarrow> h1 p;
          Some (0, h1(p := Some (n1\<lparr>lnext := mem\<rparr>))) })
     else Some (- 2, h) }"

definition list_isempty :: "nat \<Rightarrow> 'd lheap \<Rightarrow> bool option" where
  "list_isempty me h = do { n \<leftarrow> h me; Some (lnext n = 0) }"

partial_function (option) list_display_loop :: "nat \<Rightarrow> int lheap \<Rightarrow> int list \<Rightarrow> int list option" where
  "list_display_loop me h out = do {
     n \<leftarrow> h me;
     if lnext n \<noteq> 0 then do {
       m \<leftarrow> h (lnext n);
       list_display_loop (lnext n) h (out @ [ldata m]) }
     else Some out }"

definition list_display :: "nat \<Rightarrow> int lheap \<Rightarrow> int list option" where
  "list_display me h = do { e \<leftarrow> list_isempty me h; if e then Some [] else list_display_loop me h [] }"

text \<open>The result has the value stored through \<open>data\<close> in the middle.\<close>

definition list_delete_at :: "nat \<Rightarrow> int \<Rightarrow> int lheap \<Rightarrow> (int \<times> int \<times> int lheap) option" where
  "list_delete_at me i h =
     (if i < 0 then Some (- 1, - 1, h)
      else do {
        p \<leftarrow> walk_at i 0 me h;
        if p \<noteq> 0 then do {
          n \<leftarrow> h p;
          let q = lnext n;
          m \<leftarrow> h q;
          let h1 = h(p := Some (n\<lparr>lnext := lnext m\<rparr>));
          m1 \<leftarrow> h1 q;
          Some (0, ldata m1, h1(q := None)) }
        else Some (- 2, - 1, h) })"

partial_function (option) walk_until :: "int \<Rightarrow> nat \<Rightarrow> int lheap \<Rightarrow> nat option" where
  "walk_until v p h = do {
     n \<leftarrow> h p;
     if lnext n \<noteq> 0 then do {
       m \<leftarrow> h (lnext n);
       if ldata m \<noteq> v then walk_until v (lnext n) h else Some p }
     else Some p }"

definition list_delete :: "nat \<Rightarrow> int \<Rightarrow> int lheap \<Rightarrow> (int \<times> int lheap) option" where
  "list_delete me v h = do {
     p \<leftarrow> walk_until v me h;
     n \<leftarrow> h p;
     if lnext n = 0 then Some (- 1, h)
     else do {
       m \<leftarrow> h (lnext n);
       Some (0, h(p := Some (n\<lparr>lnext := lnext m\<rparr>))) } }"

partial_function (option) list_destory_loop :: "nat \<Rightarrow> 'd lheap \<Rightarrow> 'd lheap option" where
  "list_destory_loop ptr h = do {
     n \<leftarrow> h ptr;
     if lnext n \<noteq> 0 then do {
       let next_ptr = lnext n;
       _ \<leftarrow> h next_ptr;
       list_destory_loop next_ptr (h(next_ptr := None)) }
     else Some h }"

definition list_destory :: "nat \<Rightarrow> 'd lheap \<Rightarrow> 'd lheap option" where
  "list_destory me h = do {
     e \<leftarrow> list_isempty me h;
     if e then Some h
     else do {
       h1 \<leftarrow> list_destory_loop me h;
       _ \<leftarrow> h1 me;
       Some (h1(me := None)) } }"

section \<open>Lists without a header\<close>

text \<open>The student record is its \<open>id\<close> and the rest of its fields.\<close>

record 'r score_st =
  stu_id :: int
  stu_rest :: 'r

definition stu_insert :: "nat \<Rightarrow> nat \<Rightarrow> 'r score_st \<Rightarrow> 'r score_st lheap \<Rightarrow> int \<times> nat \<times> 'r score_st lheap" where
  "stu_insert mem lst stu h =
     (if mem = 0 then (- 1, lst, h) else (0, mem, h(mem := Some \<lparr>ldata = stu, lnext = lst\<rparr>)))"

partial_function (option) stu_show :: "nat \<Rightarrow> 'r score_st lheap \<Rightarrow> 'r score_st list option" where
  "stu_show cur h =
     (if cur \<noteq> 0 then do {
        n \<leftarrow> h cur;
        out \<leftarrow> stu_show (lnext n) h;
        Some (ldata n # out) }
      else Some [])"

definition stu_delete :: "nat \<Rightarrow> 'r score_st lheap \<Rightarrow> (int \<times> nat \<times> 'r score_st lheap) option" where
  "stu_delete lst h =
     (if lst = 0 then Some (- 1, lst, h)
      else do {
        n \<leftarrow> h lst;
        Some (if lnext n \<noteq> 0 then (0, lnext n, h(lst := None)) else (0, lst, h)) })"

partial_function (option) stu_find :: "nat \<Rightarrow> int \<Rightarrow> 'r score_st lheap \<Rightarrow> (int \<times> 'r score_st option) option" where
  "stu_find tmp key h =
     (if tmp \<noteq> 0 then do {
        n \<leftarrow> h tmp;
        if stu_id (ldata n) = key then Some (0, Some (ldata n))
        else stu_find (lnext n) key h }
      else Some (- 1, None))"

partial_function (option) stu_destroy :: "nat \<Rightarrow> 'r score_st lheap \<Rightarrow> 'r score_st lheap option" where
  "stu_destroy cur h =
     (if cur \<noteq> 0 then do {
        n \<leftarrow> h cur;
        stu_destroy (lnext n) (h(cur := None)) }
      else Some h)"

section \<open>Walking to a position\<close>

text \<open>The address where a walk over the nodes \<open>us\<close> behind the node \<open>(a, x)\<close> stops.\<close>

definition last_of :: "nat \<Rightarrow> (nat \<times> 'd) list \<Rightarrow> nat" where
  "last_of a us = (if us = [] then a else fst (last us))"

lemma last_of_simps [simp]: "last_of a [] = a" "last_of a ((b, y) # us) = last_of b us"
  by (simp_all add: last_of_def)

lemma split_last_of:
  obtains ms y where "(a, x) # us = ms @ [(last_of a us, y)]"
proof (cases us rule: rev_cases)
  case Nil
  then show ?thesis using that [of "[]" x] by simp
next
  case (snoc vs n)
  then show ?thesis using that [of "(a, x) # vs" "snd n"] by (cases n) (simp add: last_of_def)
qed

lemma node_at_last:
  assumes "seg h ((a, x) # us @ ns) q"
  shows "\<exists>y. h (last_of a us) = Some \<lparr>ldata = y, lnext = first ns q\<rparr> \<and> last_of a us \<noteq> 0"
proof -
  obtain ms y where s: "(a, x) # us = ms @ [(last_of a us, y)]" by (rule split_last_of)
  have "seg h (((a, x) # us) @ ns) q" using assms by simp
  then have "seg h ((ms @ [(last_of a us, y)]) @ ns) q" unfolding s .
  then show ?thesis by simp
qed

lemma walk_at_stops:
  "seg h ((a, x) # ns) 0 \<Longrightarrow> j \<le> i \<Longrightarrow> walk_at i j a h = Some (last_of a (take (nat (i - j)) ns))"
proof (induction ns arbitrary: a x j)
  case Nil
  then show ?case by (simp add: walk_at.simps)
next
  case (Cons n ns)
  obtain b y where n: "n = (b, y)" by (cases n)
  show ?case
  proof (cases "j < i")
    case True
    then have "walk_at i (j + 1) b h = Some (last_of b (take (nat (i - (j + 1))) ns))" using Cons n by simp
    moreover have "nat (i - j) = Suc (nat (i - (j + 1)))" using True by simp
    ultimately show ?thesis using Cons.prems n True by (simp add: walk_at.simps [of i j a])
  qed (use Cons.prems in \<open>simp add: walk_at.simps\<close>)
qed

lemma walk_less_stops:
  "seg h ((a, x) # ns) 0 \<Longrightarrow> walk_less v a h = Some (last_of a (takeWhile (\<lambda>n. snd n < v) ns))"
proof (induction ns arbitrary: a x)
  case Nil
  then show ?case by (simp add: walk_less.simps)
next
  case (Cons n ns)
  then show ?case by (cases n) (simp add: walk_less.simps [of v a])
qed

lemma walk_until_stops:
  "seg h ((a, x) # ns) 0 \<Longrightarrow> walk_until v a h = Some (last_of a (takeWhile (\<lambda>n. snd n \<noteq> v) ns))"
proof (induction ns arbitrary: a x)
  case Nil
  then show ?case by (simp add: walk_until.simps)
next
  case (Cons n ns)
  then show ?case by (cases n) (simp add: walk_until.simps [of v a])
qed

text \<open>What insertion and deletion do behind that position.\<close>

lemma insert_there:
  assumes "chained h ((a, x) # us @ ns)" "h p = None" "p \<noteq> 0"
  shows "\<exists>n n1. h (last_of a us) = Some n \<and> lnext n = first ns 0 \<and>
    (h(p := Some \<lparr>ldata = v, lnext = lnext n\<rparr>)) (last_of a us) = Some n1 \<and>
    chained (h(p := Some \<lparr>ldata = v, lnext = lnext n\<rparr>, last_of a us := Some (n1\<lparr>lnext := p\<rparr>))) ((a, x) # us @ (p, v) # ns)"
proof -
  obtain ms y where s: "(a, x) # us = ms @ [(last_of a us, y)]" by (rule split_last_of)
  have "chained h (((a, x) # us) @ ns)" using assms(1) by simp
  then have c: "chained h (ms @ (last_of a us, y) # ns)" unfolding s by simp
  then have n: "h (last_of a us) = Some \<lparr>ldata = y, lnext = first ns 0\<rparr>" "last_of a us \<noteq> p"
    using assms(2) by (auto simp: chained_def)
  have "chained (h(p := Some \<lparr>ldata = v, lnext = first ns 0\<rparr>, last_of a us := Some \<lparr>ldata = y, lnext = p\<rparr>)) (((a, x) # us) @ (p, v) # ns)"
    unfolding s using link_behind [OF c assms(2,3)] by simp
  then show ?thesis using n by simp
qed

lemma delete_there:
  assumes "chained h ((a, x) # us @ (b, w) # ns)"
  shows "\<exists>n m. h (last_of a us) = Some n \<and> lnext n = b \<and> h b = Some m \<and> ldata m = w \<and> b \<noteq> last_of a us \<and> b \<noteq> 0 \<and>
    chained (h(last_of a us := Some (n\<lparr>lnext := lnext m\<rparr>))) ((a, x) # us @ ns) \<and> b \<notin> set (addrs ((a, x) # us @ ns))"
proof -
  obtain ms y where s: "(a, x) # us = ms @ [(last_of a us, y)]" by (rule split_last_of)
  have "chained h (((a, x) # us) @ (b, w) # ns)" using assms by simp
  then have c: "chained h (ms @ (last_of a us, y) # (b, w) # ns)" unfolding s by simp
  then have n: "h (last_of a us) = Some \<lparr>ldata = y, lnext = b\<rparr>" "h b = Some \<lparr>ldata = w, lnext = first ns 0\<rparr>"
    "b \<noteq> last_of a us" "b \<noteq> 0"
    by (auto simp: chained_def)
  have "chained (h(last_of a us := Some \<lparr>ldata = y, lnext = first ns 0\<rparr>)) (((a, x) # us) @ ns)"
    unfolding s using unlink_behind [OF c] by simp
  then show ?thesis using n assms by (auto simp: chained_def)
qed

section \<open>The operations on a list with a header\<close>

lemma insert_at_list:
  assumes "chained h ((me, d) # ns)" "0 \<le> i" "h p = None" "p \<noteq> 0"
  shows "\<exists>h'. list_insert_at p me i v h = Some (0, h') \<and> chained h' ((me, d) # take (nat i) ns @ (p, v) # drop (nat i) ns)"
proof -
  have "walk_at i 0 me h = Some (last_of me (take (nat i) ns))"
    using walk_at_stops [of h me d ns 0 i] assms(1,2) by (simp add: chained_def)
  moreover have c: "chained h ((me, d) # take (nat i) ns @ drop (nat i) ns)" using assms(1) by simp
  moreover have "last_of me (take (nat i) ns) \<noteq> 0"
    using node_at_last [of h me d "take (nat i) ns" "drop (nat i) ns" 0] c by (auto simp: chained_def)
  ultimately show ?thesis using insert_there [OF c assms(3,4), of v] assms(2-4) by (fastforce simp: list_insert_at_def Let_def)
qed

lemma order_insert_list:
  assumes "chained h ((me, d) # ns)" "h p = None" "p \<noteq> 0"
  shows "\<exists>h'. list_order_insert p me v h = Some (0, h') \<and>
    chained h' ((me, d) # takeWhile (\<lambda>n. snd n < v) ns @ (p, v) # dropWhile (\<lambda>n. snd n < v) ns)"
proof -
  let ?P = "\<lambda>n. snd n < v"
  have "walk_less v me h = Some (last_of me (takeWhile ?P ns))"
    using walk_less_stops [of h me d ns v] assms(1) by (simp add: chained_def)
  moreover have c: "chained h ((me, d) # takeWhile ?P ns @ dropWhile ?P ns)" using assms(1) by simp
  moreover have "last_of me (takeWhile ?P ns) \<noteq> 0"
    using node_at_last [of h me d "takeWhile ?P ns" "dropWhile ?P ns" 0] c by (auto simp: chained_def)
  ultimately show ?thesis using insert_there [OF c assms(2,3), of v] assms(2,3) by (fastforce simp: list_order_insert_def Let_def)
qed

lemma delete_at_list:
  assumes "chained h ((me, d) # ns)" "0 \<le> i" "nat i < length ns"
  shows "\<exists>h'. list_delete_at me i h = Some (0, snd (ns ! nat i), h') \<and>
    chained h' ((me, d) # take (nat i) ns @ drop (Suc (nat i)) ns) \<and> h' (fst (ns ! nat i)) = None"
proof -
  obtain b w where bw: "ns ! nat i = (b, w)" by (cases "ns ! nat i")
  have ns: "ns = take (nat i) ns @ (b, w) # drop (Suc (nat i)) ns" using assms(3) bw id_take_nth_drop by metis
  have w: "walk_at i 0 me h = Some (last_of me (take (nat i) ns))"
    using walk_at_stops [of h me d ns 0 i] assms(1,2) by (simp add: chained_def)
  have c: "chained h ((me, d) # take (nat i) ns @ (b, w) # drop (Suc (nat i)) ns)" using assms(1) ns by simp
  obtain n m where nm: "h (last_of me (take (nat i) ns)) = Some n" "lnext n = b" "h b = Some m" "ldata m = w"
      "b \<noteq> last_of me (take (nat i) ns)" "b \<noteq> 0"
      "chained (h(last_of me (take (nat i) ns) := Some (n\<lparr>lnext := lnext m\<rparr>))) ((me, d) # take (nat i) ns @ drop (Suc (nat i)) ns)"
      "b \<notin> set (addrs ((me, d) # take (nat i) ns @ drop (Suc (nat i)) ns))"
    using delete_there [OF c] by blast
  have "last_of me (take (nat i) ns) \<noteq> 0"
    using node_at_last [of h me d "take (nat i) ns" "drop (nat i) ns" 0] assms(1) by (auto simp: chained_def)
  then show ?thesis using w nm free_unlinked [OF nm(7,8)] assms(2) bw
    by (simp add: list_delete_at_def Let_def)
qed

lemma delete_at_end:
  assumes "chained h ((me, d) # ns)" "0 \<le> i" "length ns \<le> nat i" "h 0 = None"
  shows "list_delete_at me i h = None"
proof -
  have "walk_at i 0 me h = Some (last_of me ns)"
    using walk_at_stops [of h me d ns 0 i] assms(1-3) by (simp add: chained_def)
  moreover obtain y where "h (last_of me ns) = Some \<lparr>ldata = y, lnext = 0\<rparr>" "last_of me ns \<noteq> 0"
    using node_at_last [of h me d ns "[]" 0] assms(1) by (auto simp: chained_def)
  ultimately show ?thesis using assms(2,4) by (simp add: list_delete_at_def Let_def)
qed

lemma delete_list:
  assumes "chained h ((me, d) # ns)"
  shows "\<exists>h'. list_delete me v h = Some (if v \<in> snd ` set ns then 0 else - 1, h') \<and>
    chained h' ((me, d) # takeWhile (\<lambda>n. snd n \<noteq> v) ns @ tl (dropWhile (\<lambda>n. snd n \<noteq> v) ns)) \<and>
    (\<forall>a. h a \<noteq> None \<longrightarrow> h' a \<noteq> None)"
proof -
  let ?P = "\<lambda>n. snd n \<noteq> v"
  have w: "walk_until v me h = Some (last_of me (takeWhile ?P ns))"
    using walk_until_stops [of h me d ns v] assms by (simp add: chained_def)
  have c: "chained h ((me, d) # takeWhile ?P ns @ dropWhile ?P ns)" using assms by simp
  show ?thesis
  proof (cases "dropWhile ?P ns")
    case Nil
    then have "v \<notin> snd ` set ns" by (auto simp: dropWhile_eq_Nil_conv)
    moreover obtain y where "h (last_of me (takeWhile ?P ns)) = Some \<lparr>ldata = y, lnext = 0\<rparr>"
      using node_at_last [of h me d "takeWhile ?P ns" "dropWhile ?P ns" 0] c Nil by (auto simp: chained_def)
    moreover have "takeWhile ?P ns = ns" "dropWhile ?P ns = []"
      using Nil takeWhile_dropWhile_id [of ?P ns] by simp_all
    ultimately show ?thesis using w assms by (simp add: list_delete_def del: takeWhile_eq_all_conv dropWhile_eq_Nil_conv)
  next
    case (Cons n0 rest)
    obtain b u where n0: "n0 = (b, u)" by (cases n0)
    have "\<not> ?P n0" "n0 \<in> set ns" using Cons hd_dropWhile [of ?P ns] set_dropWhileD [of n0 ?P ns] by auto
    then have "v \<in> snd ` set ns" by force
    have c1: "chained h ((me, d) # takeWhile ?P ns @ (b, u) # rest)" using c Cons n0 by simp
    obtain n m where nm: "h (last_of me (takeWhile ?P ns)) = Some n" "lnext n = b" "h b = Some m" "b \<noteq> 0"
        "chained (h(last_of me (takeWhile ?P ns) := Some (n\<lparr>lnext := lnext m\<rparr>))) ((me, d) # takeWhile ?P ns @ rest)"
      using delete_there [OF c1] by blast
    then have "list_delete me v h = Some (0, h(last_of me (takeWhile ?P ns) := Some (n\<lparr>lnext := lnext m\<rparr>)))"
      using w by (simp add: list_delete_def)
    then show ?thesis using nm(5) Cons \<open>v \<in> snd ` set ns\<close> by auto
  qed
qed

lemma display_loop_list:
  "seg h ((a, x) # ns) 0 \<Longrightarrow> list_display_loop a h out = Some (out @ map snd ns)"
proof (induction ns arbitrary: a x out)
  case Nil
  then show ?case by (simp add: list_display_loop.simps)
next
  case (Cons n ns)
  then show ?case by (cases n) (simp add: list_display_loop.simps [of a])
qed

lemma display_list: "chained h ((me, d) # ns) \<Longrightarrow> list_display me h = Some (map snd ns)"
  using display_loop_list [of h me d ns "[]"] first_null [of h ns]
  by (auto simp: list_display_def list_isempty_def chained_def)

lemma destory_list:
  assumes "chained h ((me, d) # ns)"
  shows "list_destory me h = (if ns = [] then Some h else None)"
proof (cases ns)
  case Nil
  then show ?thesis using assms by (simp add: list_destory_def list_isempty_def chained_def)
next
  case (Cons n ns1)
  obtain b y where n: "n = (b, y)" by (cases n)
  have h: "h me = Some \<lparr>ldata = d, lnext = b\<rparr>" "b \<noteq> 0" "h b = Some \<lparr>ldata = y, lnext = first ns1 0\<rparr>" "b \<noteq> me"
    using assms Cons n by (auto simp: chained_def)
  have "list_destory_loop me h = list_destory_loop b (h(b := None))"
    using h by (subst list_destory_loop.simps) simp
  also have "\<dots> = None" by (subst list_destory_loop.simps) simp
  finally show ?thesis using h Cons by (simp add: list_destory_def list_isempty_def)
qed

section \<open>The operations on a list without a header\<close>

lemma stu_show_list: "seg h ns 0 \<Longrightarrow> stu_show (first ns 0) h = Some (map snd ns)"
proof (induction ns)
  case (Cons n ns)
  obtain a x where "n = (a, x)" by (cases n)
  with Cons show ?case by (subst stu_show.simps) simp
qed (simp add: stu_show.simps)

lemma stu_find_list:
  "seg h ns 0 \<Longrightarrow> stu_find (first ns 0) key h =
   Some (case find (\<lambda>n. stu_id (snd n) = key) ns of None \<Rightarrow> (- 1, None) | Some n \<Rightarrow> (0, Some (snd n)))"
proof (induction ns)
  case (Cons n ns)
  obtain a x where "n = (a, x)" by (cases n)
  with Cons show ?case by (subst stu_find.simps) simp
qed (simp add: stu_find.simps)

lemma stu_destroy_list:
  "chained h ns \<Longrightarrow> stu_destroy (first ns 0) h = Some (\<lambda>a. if a \<in> set (addrs ns) then None else h a)"
proof (induction ns arbitrary: h)
  case (Cons n ns)
  obtain a x where n: "n = (a, x)" by (cases n)
  have c: "chained (h(a := None)) ns" using Cons.prems n by (auto simp: chained_def seg_frame)
  have "stu_destroy (first (n # ns) 0) h = stu_destroy (first ns 0) (h(a := None))"
    using Cons.prems n by (subst stu_destroy.simps) (simp add: chained_def)
  then show ?case using Cons.IH [OF c] n by (auto simp: fun_eq_iff)
qed (simp add: stu_destroy.simps)

section \<open>Properties\<close>

text \<open>
  The list with a header implements a sequence: \<open>list_insert_at\<close> inserts before position \<open>i\<close>, or at the end if the
  list is shorter; \<open>list_order_insert\<close> inserts before the first element that is not smaller, so an ascending list
  stays so; \<open>list_delete\<close> removes the first occurrence or returns -1; \<open>list_delete_at\<close> in range removes and returns the
  element at \<open>i\<close>; \<open>list_display\<close> shows exactly the elements.
\<close>
theorem header_list_is_a_sequence:
  assumes "chained h ((me, d) # ns)" and "h p = None" and "p \<noteq> 0" and "0 \<le> i"
  shows "(\<exists>h'. list_insert_at p me i v h = Some (0, h') \<and> chained h' ((me, d) # take (nat i) ns @ (p, v) # drop (nat i) ns))
    \<and> (\<exists>h' ns'. list_order_insert p me v h = Some (0, h') \<and> chained h' ((me, d) # ns') \<and>
        (sorted (map snd ns) \<longrightarrow> map snd ns' = insort v (map snd ns)))
    \<and> (\<exists>h' ns'. list_delete me v h = Some (if v \<in> snd ` set ns then 0 else - 1, h') \<and>
        chained h' ((me, d) # ns') \<and> map snd ns' = remove1 v (map snd ns))
    \<and> (nat i < length ns \<longrightarrow> (\<exists>h'. list_delete_at me i h = Some (0, snd (ns ! nat i), h') \<and>
        chained h' ((me, d) # take (nat i) ns @ drop (Suc (nat i)) ns) \<and> h' (fst (ns ! nat i)) = None))
    \<and> list_display me h = Some (map snd ns)"
proof -
  have ins: "map snd (takeWhile (\<lambda>n. snd n < v) ns @ (p, v) # dropWhile (\<lambda>n. snd n < v) ns) = insort v (map snd ns)"
    if "sorted (map snd ns)" using that
  proof (induction ns)
    case (Cons n ns)
    then show ?case by (cases "snd n < v") auto
  qed simp
  have del: "map snd (takeWhile (\<lambda>n. snd n \<noteq> v) ns @ tl (dropWhile (\<lambda>n. snd n \<noteq> v) ns)) = remove1 v (map snd ns)"
    by (induction ns) auto
  show ?thesis
    using insert_at_list [OF assms(1,4,2,3)] order_insert_list [OF assms(1-3), of v] delete_list [OF assms(1), of v]
      delete_at_list [OF assms(1,4)] display_list [OF assms(1)] ins del by blast
qed

text \<open>
  Where the list with a header goes wrong: deleting at or behind the end follows null (the check of the predecessor
  never fails); \<open>list_destory\<close> of a non-empty list reads a node it has just freed, and frees nothing of an empty
  one; \<open>list_delete\<close> never frees the node it unlinks.
\<close>
theorem header_list_faults:
  assumes "chained h ((me, d) # ns)" and "h 0 = None"
  shows "(0 \<le> i \<and> length ns \<le> nat i \<longrightarrow> list_delete_at me i h = None)
    \<and> list_destory me h = (if ns = [] then Some h else None)
    \<and> (\<exists>r h'. list_delete me v h = Some (r, h') \<and> (\<forall>a. h a \<noteq> None \<longrightarrow> h' a \<noteq> None))"
  using delete_at_end [OF assms(1) _ _ assms(2)] destory_list [OF assms(1)] delete_list [OF assms(1), of v] by blast

text \<open>
  The list without a header: inserting puts a student in front, \<open>list_show\<close> shows all in order,
  \<open>list_find\<close> returns the first with the id or -1, \<open>list_destroy\<close> frees exactly the nodes;
  but \<open>list_delete\<close> removes the first node only if there is a second: it returns 0 and leaves the
  last student in the list.
\<close>
theorem student_list:
  assumes "chained h ns" and "h p = None" and "p \<noteq> 0"
  shows "(\<exists>h'. stu_insert p (first ns 0) x h = (0, p, h') \<and> chained h' ((p, x) # ns))
    \<and> stu_show (first ns 0) h = Some (map snd ns)
    \<and> stu_find (first ns 0) key h = Some (case find (\<lambda>y. stu_id y = key) (map snd ns) of None \<Rightarrow> (- 1, None) | Some y \<Rightarrow> (0, Some y))
    \<and> (\<exists>h'. stu_destroy (first ns 0) h = Some h' \<and> (\<forall>a. h' a = (if a \<in> set (addrs ns) then None else h a)))
    \<and> (case ns of [] \<Rightarrow> stu_delete 0 h = Some (- 1, 0, h)
       | [n] \<Rightarrow> stu_delete (fst n) h = Some (0, fst n, h)
       | n # ns' \<Rightarrow> \<exists>h'. stu_delete (fst n) h = Some (0, first ns' 0, h') \<and> chained h' ns' \<and> h' (fst n) = None)"
proof (intro conjI)
  have "p \<notin> set (addrs ns)" by (rule chained_fresh [OF assms(1,2)])
  then show "\<exists>h'. stu_insert p (first ns 0) x h = (0, p, h') \<and> chained h' ((p, x) # ns)"
    using assms by (simp add: stu_insert_def chained_def seg_frame)
  have "find (\<lambda>y. stu_id y = key) (map snd ns) = map_option snd (find (\<lambda>n. stu_id (snd n) = key) ns)"
    by (induction ns) auto
  then show "stu_find (first ns 0) key h
      = Some (case find (\<lambda>y. stu_id y = key) (map snd ns) of None \<Rightarrow> (- 1, None) | Some y \<Rightarrow> (0, Some y))"
    using assms(1) by (simp add: stu_find_list chained_def split: option.splits)
  show "case ns of [] \<Rightarrow> stu_delete 0 h = Some (- 1, 0, h) | [n] \<Rightarrow> stu_delete (fst n) h = Some (0, fst n, h)
       | n # ns' \<Rightarrow> \<exists>h'. stu_delete (fst n) h = Some (0, first ns' 0, h') \<and> chained h' ns' \<and> h' (fst n) = None"
    using assms(1) by (auto simp: stu_delete_def chained_def seg_frame split: list.splits)
qed (use assms(1) in \<open>simp_all add: stu_show_list stu_destroy_list chained_def\<close>)

section \<open>Witnesses\<close>

definition two_nodes :: "int lheap" where
  "two_nodes = (\<lambda>_. None)(10 := Some \<lparr>ldata = 0, lnext = 20\<rparr>, 20 := Some \<lparr>ldata = 4, lnext = 30\<rparr>,
     30 := Some \<lparr>ldata = 9, lnext = 0\<rparr>)"

lemma two_nodes_chained: "chained two_nodes [(10, 0), (20, 4), (30, 9)]"
  by (simp add: chained_def two_nodes_def)

lemma header_list_is_a_sequence_witness:
  "(\<exists>h' ns'. list_order_insert 40 10 5 two_nodes = Some (0, h') \<and> chained h' ((10, 0) # ns') \<and> map snd ns' = [4, 5, 9])
   \<and> list_display 10 two_nodes = Some [4, 9]"
  using header_list_is_a_sequence [OF two_nodes_chained, of 40 1 5] by (auto simp: two_nodes_def)

lemma header_list_faults_witness:
  "list_delete_at 10 2 two_nodes = None \<and> list_destory 10 two_nodes = None"
  using header_list_faults [OF two_nodes_chained, of 2] by (simp add: two_nodes_def)

lemma student_list_witness:
  "stu_delete 10 ((\<lambda>_. None)(10 := Some \<lparr>ldata = \<lparr>stu_id = 3, stu_rest = ()\<rparr>, lnext = 0\<rparr>))
     = Some (0, 10, (\<lambda>_. None)(10 := Some \<lparr>ldata = \<lparr>stu_id = 3, stu_rest = ()\<rparr>, lnext = 0\<rparr>))"
proof -
  let ?h = "(\<lambda>_. None)(10 := Some \<lparr>ldata = \<lparr>stu_id = 3, stu_rest = ()\<rparr>, lnext = 0\<rparr>)"
  have "chained ?h [(10, \<lparr>stu_id = 3, stu_rest = ()\<rparr>)]" by (simp add: chained_def)
  from student_list [OF this, of 20] show ?thesis by simp
qed

end
