(* ===== verification/Josephus.thy ===== *)
theory Josephus
  imports NodeList
begin

text \<open>
  The Josephus ring \<open>3.ybx/20.ds/2.ds/1.list/2.simple/ex/josufu/main.c\<close>: a circular list without a header whose
  numbers are 1 to \<open>num\<close>, of which every \<open>kill_num\<close>th node is removed until one is left.
  The results of \<open>malloc\<close> are an argument; the program does not check them, so 0 is undefined.
\<close>

section \<open>The program\<close>

definition NUM :: int where "NUM = 8"
definition KILL_NUM :: int where "KILL_NUM = 3"

function ring_insert_loop :: "int \<Rightarrow> int \<Rightarrow> nat \<Rightarrow> nat \<Rightarrow> nat list \<Rightarrow> int lheap \<Rightarrow> int lheap option" where
  "ring_insert_loop num i head tmp_head mems h =
     (if i \<le> num then
        (case mems of
           [] \<Rightarrow> None
         | me # mems1 \<Rightarrow>
             if me = 0 then None
             else do {
               t \<leftarrow> h tmp_head;
               let h1 = h(tmp_head := Some (t\<lparr>lnext := me\<rparr>));
               ring_insert_loop num (i + 1) head me mems1 (h1(me := Some \<lparr>ldata = i, lnext = head\<rparr>)) })
      else Some h)"
  by pat_completeness auto
termination by (relation "measure (\<lambda>(num, i, _). nat (num + 1 - i))") auto

declare ring_insert_loop.simps [simp del]

definition ring_insert :: "int \<Rightarrow> nat list \<Rightarrow> int lheap \<Rightarrow> (nat \<times> int lheap) option" where
  "ring_insert num mems h = (case mems of
     [] \<Rightarrow> None
   | head # mems1 \<Rightarrow>
       if head = 0 then None
       else do {
         h1 \<leftarrow> ring_insert_loop num 2 head head mems1 (h(head := Some \<lparr>ldata = 1, lnext = head\<rparr>));
         Some (head, h1) })"

partial_function (option) ring_display :: "nat \<Rightarrow> nat \<Rightarrow> int lheap \<Rightarrow> int list option" where
  "ring_display lst tmp h =
     (if tmp \<noteq> 0 then do {
        n \<leftarrow> h tmp;
        out \<leftarrow> (if lnext n = lst then Some [] else ring_display lst (lnext n) h);
        Some (ldata n # out) }
      else Some [])"

partial_function (option) josufu_loop :: "int \<Rightarrow> nat \<Rightarrow> int \<Rightarrow> int lheap \<Rightarrow> int option" where
  "josufu_loop kill_num tmp tmp_num h = do {
     n \<leftarrow> h tmp;
     if lnext n \<noteq> tmp then do {
       t \<leftarrow> chk (tmp_num - 1);
       (t1, h1) \<leftarrow> (if t = 0 then do {
           let tmp_next = lnext n;
           m \<leftarrow> h tmp_next;
           let h1 = h(tmp := Some (n\<lparr>lnext := lnext m\<rparr>));
           r \<leftarrow> chk (kill_num - 1);
           Some (r, h1(tmp_next := None)) }
         else Some (t, h));
       n1 \<leftarrow> h1 tmp;
       josufu_loop kill_num (lnext n1) t1 h1 }
     else Some (ldata n) }"

definition josufu_kill :: "nat \<Rightarrow> int \<Rightarrow> int lheap \<Rightarrow> int option" where
  "josufu_kill lst kill_num h = do { t \<leftarrow> chk (kill_num - 1); josufu_loop kill_num lst t h }"

text \<open>What \<open>main\<close> prints: the ring, then the survivor.\<close>

definition josufu_main :: "nat list \<Rightarrow> (int list \<times> int) option" where
  "josufu_main mems = do {
     (lst, h) \<leftarrow> ring_insert NUM mems (\<lambda>_. None);
     out \<leftarrow> ring_display lst lst h;
     v \<leftarrow> josufu_kill lst KILL_NUM h;
     Some (out, v) }"

section \<open>Rings\<close>

definition circle :: "int lheap \<Rightarrow> (nat \<times> int) list \<Rightarrow> bool" where
  "circle h ns \<longleftrightarrow> ns \<noteq> [] \<and> seg h ns (first ns 0) \<and> distinct (addrs ns)"

lemma first_some: "ns \<noteq> [] \<Longrightarrow> first ns q = first ns r"
  by (cases ns) auto

lemma circle_rotate: "circle h (n # ns) \<Longrightarrow> circle h (ns @ [n])"
  by (cases n; cases ns) (auto simp: circle_def)

lemma circle_node: "circle h ((a, x) # ns) \<Longrightarrow> h a = Some \<lparr>ldata = x, lnext = first ns a\<rparr> \<and> a \<noteq> 0"
  by (simp add: circle_def)

text \<open>Removing the second node of the ring; the walk goes on behind it.\<close>

lemma circle_remove:
  assumes "circle h ((a, x) # (b, y) # ns)"
  shows "circle (h(a := Some \<lparr>ldata = x, lnext = first ns a\<rparr>, b := None)) ((a, x) # ns)"
  using assms by (auto simp: circle_def seg_frame)

section \<open>The survivor\<close>

text \<open>The reference: the ring as a list that starts where counting starts.\<close>

function survivor :: "nat \<Rightarrow> 'a list \<Rightarrow> 'a" where
  "survivor k xs = (if length xs \<le> 1 then hd xs else survivor k (tl (rotate (k - 1) xs)))"
  by pat_completeness auto
termination by (relation "measure (\<lambda>(k, xs). length xs)") auto

declare survivor.simps [simp del]

text \<open>With \<open>t\<close> nodes to go before the next one is removed.\<close>

lemma josufu_loop_count:
  "circle h ns \<Longrightarrow> 1 < length ns \<Longrightarrow> int_range (int t + 1) \<Longrightarrow>
   josufu_loop k (first ns 0) (int t + 1) h = josufu_loop k (first (rotate t ns) 0) 1 h \<and> circle h (rotate t ns)"
proof (induction t arbitrary: ns)
  case (Suc t)
  obtain a x b y ms where ns: "ns = (a, x) # (b, y) # ms"
    using Suc.prems(2) by (cases ns rule: remdups_adj.cases) auto
  have ab: "h a = Some \<lparr>ldata = x, lnext = b\<rparr>" "b \<noteq> a" using Suc.prems(1) ns by (auto simp: circle_def)
  have c: "circle h (rotate1 ns)" using circle_rotate Suc.prems(1) ns by (simp del: append_Cons)
  have "int_range (int t + 1)" using Suc.prems(3) by (simp add: int_range_def)
  then have "chk (int (Suc t) + 1 - 1) = Some (int t + 1)" by (simp add: chk_def add.commute)
  then have "josufu_loop k (first ns 0) (int (Suc t) + 1) h = josufu_loop k (first (rotate1 ns) 0) (int t + 1) h"
    using ns ab by (subst josufu_loop.simps) simp
  then show ?case using Suc.IH [OF c] Suc.prems \<open>int_range (int t + 1)\<close> by (simp add: rotate1_rotate_swap)
qed simp

lemma josufu_loop_survivor:
  assumes "circle h ns" "2 \<le> k" "int_range (int k)"
  shows "josufu_loop (int k) (first ns 0) (int k - 1) h = Some (survivor k (map snd ns))"
  using assms(1)
proof (induction "length ns" arbitrary: ns h rule: less_induct)
  case less
  obtain a x ms where ns: "ns = (a, x) # ms" using less.prems by (cases ns) (auto simp: circle_def)
  show ?case
  proof (cases "ms = []")
    case True
    then show ?thesis using less.prems ns by (simp add: circle_def josufu_loop.simps survivor.simps)
  next
    case False
    let ?rs = "rotate (k - 2) ns"
    have l: "1 < length ns" using ns False by (cases ms) auto
    have r: "int_range (int (k - 2) + 1)" "int (k - 2) + 1 = int k - 1" using assms(2,3) by (auto simp: int_range_def)
    have e: "josufu_loop (int k) (first ns 0) (int k - 1) h = josufu_loop (int k) (first ?rs 0) 1 h" "circle h ?rs"
      using josufu_loop_count [OF less.prems l r(1), of "int k"] r(2) by auto
    obtain a x b y us where rs: "?rs = (a, x) # (b, y) # us"
      using l length_rotate [of "k - 2" ns] by (cases ?rs rule: remdups_adj.cases) auto
    let ?h = "h(a := Some \<lparr>ldata = x, lnext = first us a\<rparr>, b := None)"
    have ab: "h a = Some \<lparr>ldata = x, lnext = b\<rparr>" "b \<noteq> a" "h b = Some \<lparr>ldata = y, lnext = first us a\<rparr>"
      using e(2) rs by (auto simp: circle_def)
    have "circle ?h ((a, x) # us)" using circle_remove e(2) rs by simp
    then have c: "circle ?h (us @ [(a, x)])" by (rule circle_rotate)
    have k1: "chk (int k - 1) = Some (int k - 1)" using assms(2,3) by (auto simp: chk_def int_range_def)
    have "josufu_loop (int k) (first ?rs 0) 1 h = josufu_loop (int k) (first (us @ [(a, x)]) 0) (int k - 1) ?h"
      using ab k1 unfolding rs by (subst josufu_loop.simps) (simp add: chk_def int_range_def Let_def)
    also have "\<dots> = Some (survivor k (map snd (us @ [(a, x)])))"
      using less.hyps [OF _ c] rs length_rotate [of "k - 2" ns] by simp
    also have "map snd (us @ [(a, x)]) = tl (rotate (k - 1) (map snd ns))"
    proof -
      have "rotate (k - 1) ns = rotate1 ?rs" using assms(2) by (metis Suc_1 Suc_diff_le Suc_diff_Suc diff_Suc_Suc rotate_Suc less_eq_Suc_le One_nat_def)
      then show ?thesis by (simp add: rs rotate_map)
    qed
    also have "survivor k \<dots> = survivor k (map snd ns)" using l by (simp add: survivor.simps [of k "map snd ns"])
    finally show ?thesis using e(1) by simp
  qed
qed

text \<open>The place of the survivor in the ring, counted from 0.\<close>

fun survivor_pos :: "nat \<Rightarrow> nat \<Rightarrow> nat" where
  "survivor_pos k 0 = 0"
| "survivor_pos k (Suc 0) = 0"
| "survivor_pos k (Suc (Suc n)) = (survivor_pos k (Suc n) + k) mod Suc (Suc n)"

lemma survivor_pos_less: "0 < n \<Longrightarrow> survivor_pos k n < n"
  by (induction k n rule: survivor_pos.induct) auto

lemma survivor_nth: "xs \<noteq> [] \<Longrightarrow> 1 \<le> k \<Longrightarrow> survivor k xs = xs ! survivor_pos k (length xs)"
proof (induction "length xs" arbitrary: xs rule: less_induct)
  case less
  show ?case
  proof (cases "length xs \<le> 1")
    case True
    then show ?thesis using less.prems by (cases xs) (simp_all add: survivor.simps)
  next
    case False
    then obtain n where n: "length xs = Suc (Suc n)" by (metis One_nat_def Suc_le_eq le_0_eq not0_implies_Suc not_less_eq_eq less.prems(1) length_0_conv)
    let ?ys = "tl (rotate (k - 1) xs)"
    have y: "length ?ys = Suc n" "?ys \<noteq> []" using n by (simp, metis length_0_conv length_rotate length_tl diff_Suc_1 n nat.simps(3))
    have j: "survivor_pos k (Suc n) < Suc n" by (rule survivor_pos_less) simp
    have "survivor k xs = ?ys ! survivor_pos k (Suc n)"
      using less.hyps [OF _ y(2) less.prems(2)] y(1) n False by (simp add: survivor.simps [of k xs])
    also have "\<dots> = rotate (k - 1) xs ! Suc (survivor_pos k (Suc n))" using y(1) j by (simp add: nth_tl)
    also have "\<dots> = xs ! ((k - 1 + Suc (survivor_pos k (Suc n))) mod length xs)"
      using j n by (subst nth_rotate) (simp_all add: add.commute)
    also have "k - 1 + Suc (survivor_pos k (Suc n)) = survivor_pos k (Suc n) + k" using less.prems(2) by simp
    finally show ?thesis using n by simp
  qed
qed

text \<open>With \<open>kill_num\<close> 1 the counter passes 0 and runs down until it overflows.\<close>

lemma josufu_loop_overflows:
  "circle h ns \<Longrightarrow> 1 < length ns \<Longrightarrow> t \<le> 0 \<Longrightarrow> josufu_loop k (first ns 0) t h = None"
proof (induction "nat (t + 2147483648)" arbitrary: t ns rule: less_induct)
  case less
  obtain a x b y ms where ns: "ns = (a, x) # (b, y) # ms"
    using less.prems(2) by (cases ns rule: remdups_adj.cases) auto
  have ab: "h a = Some \<lparr>ldata = x, lnext = b\<rparr>" "b \<noteq> a" using less.prems(1) ns by (auto simp: circle_def)
  have c: "circle h (rotate1 ns)" using circle_rotate less.prems(1) ns by (simp del: append_Cons)
  show ?case
  proof (cases "int_range (t - 1)")
    case True
    then have "josufu_loop k (first (rotate1 ns) 0) (t - 1) h = None"
      using less.hyps [of "t - 1" "rotate1 ns"] c less.prems by (simp add: int_range_def)
    then show ?thesis using ns ab True less.prems(3) by (subst josufu_loop.simps) (simp add: chk_def)
  qed (use ns ab in \<open>subst josufu_loop.simps, simp add: chk_def\<close>)
qed

section \<open>Building and showing the ring\<close>

lemma ring_insert_loop_circle:
  assumes "circle h (ms @ [(tmp, x)])" "distinct (addrs (ms @ [(tmp, x)]) @ mems)" "0 \<notin> set mems"
    "nat (num + 1 - i) \<le> length mems"
  shows "\<exists>h'. ring_insert_loop num i (first (ms @ [(tmp, x)]) 0) tmp mems h = Some h' \<and>
    circle h' (ms @ [(tmp, x)] @ zip mems [i..num])"
  using assms
proof (induction "nat (num + 1 - i)" arbitrary: i ms tmp x mems h)
  case 0
  then show ?case by (simp add: ring_insert_loop.simps)
next
  case (Suc n)
  then obtain me mems1 where mems: "mems = me # mems1" by (cases mems) auto
  let ?ns = "ms @ [(tmp, x)]"
  let ?head = "first ?ns 0"
  let ?h = "h(tmp := Some \<lparr>ldata = x, lnext = me\<rparr>, me := Some \<lparr>ldata = i, lnext = ?head\<rparr>)"
  have i: "i \<le> num" using Suc.hyps(2) by simp
  have hd: "first ?ns q = ?head" for q by (rule first_some) simp
  have tmp: "h tmp = Some \<lparr>ldata = x, lnext = ?head\<rparr>" using Suc.prems(1) hd by (auto simp: circle_def)
  have me: "me \<notin> set (addrs ?ns)" "me \<noteq> 0" "tmp \<notin> set (addrs ms)" using Suc.prems(2,3) mems by auto
  have s: "seg h ms tmp" using Suc.prems(1) by (simp add: circle_def)
  have "circle ?h (?ns @ [(me, i)])"
    unfolding circle_def using s me hd Suc.prems(1,2) mems by (auto simp: seg_frame circle_def)
  then have "\<exists>h'. ring_insert_loop num (i + 1) (first (?ns @ [(me, i)]) 0) me mems1 ?h = Some h' \<and>
      circle h' (?ns @ [(me, i)] @ zip mems1 [i + 1..num])"
    using Suc.prems(2-4) Suc.hyps(2) mems by (intro Suc.hyps(1)) auto
  moreover have "first (?ns @ [(me, i)]) 0 = ?head" using hd [of "first [(me, i)] 0"] by simp
  moreover have "zip mems [i..num] = (me, i) # zip mems1 [i + 1..num]" using mems i by (simp add: upto_rec1)
  ultimately show ?case using i mems tmp me(2) by (subst ring_insert_loop.simps) (simp add: Let_def)
qed

lemma ring_insert_circle:
  assumes "distinct mems" "0 \<notin> set mems" "1 \<le> num" "nat num \<le> length mems"
  shows "\<exists>h. ring_insert num mems (\<lambda>_. None) = Some (hd mems, h) \<and> circle h (zip mems [1..num])"
proof -
  obtain a ms where m: "mems = a # ms" using assms(3,4) by (cases mems) auto
  let ?h = "(\<lambda>_. None)(a := Some \<lparr>ldata = 1, lnext = a\<rparr>)"
  have "circle ?h ([] @ [(a, 1)])" using assms(2) m by (simp add: circle_def)
  moreover have l: "nat (num + 1 - 2) \<le> length ms" using assms(3,4) m by simp
  ultimately obtain h where "ring_insert_loop num 2 a a ms ?h = Some h" "circle h ((a, 1) # zip ms [2..num])"
    using ring_insert_loop_circle [of ?h "[]" a 1 ms num 2] l assms m by auto
  moreover have "zip mems [1..num] = (a, 1) # zip ms [2..num]" using m assms(3) by (simp add: upto_rec1)
  ultimately show ?thesis using m assms(2) by (simp add: ring_insert_def)
qed

lemma ring_display_circle:
  "seg h ns lst \<Longrightarrow> ns \<noteq> [] \<Longrightarrow> lst \<notin> set (addrs (tl ns)) \<Longrightarrow> ring_display lst (first ns 0) h = Some (map snd ns)"
proof (induction ns)
  case (Cons n ns)
  obtain a x where n: "n = (a, x)" by (cases n)
  show ?case
  proof (cases "ns = []")
    case True
    then show ?thesis using Cons.prems n by (subst ring_display.simps) simp
  next
    case False
    then have ne: "first ns lst \<noteq> lst" "first ns lst = first ns 0" using Cons.prems(3)
      by (cases ns; auto simp: n)+
    have "ring_display lst (first ns 0) h = Some (map snd ns)"
    proof (rule Cons.IH [OF _ False])
      have "set (addrs (tl ns)) \<subseteq> set (addrs ns)" by (cases ns) auto
      then show "lst \<notin> set (addrs (tl ns))" using Cons.prems(3) by auto
    qed (use Cons.prems(1) n in simp)
    then show ?thesis using Cons.prems n ne by (subst ring_display.simps) simp
  qed
qed simp

section \<open>Properties\<close>

text \<open>
  The Josephus ring: for \<open>num\<close> nodes with the numbers 1 to \<open>num\<close> and every \<open>kill_num\<close>th removed, from 2 on, the program
  ends and names the survivor of the counting game on lists, whose place follows the recurrence
  of Josephus; in the ring all numbers are shown once; with \<open>kill_num\<close> 1 or less and two or more nodes the
  counter runs down until it overflows.
\<close>
theorem josephus_survivor:
  assumes "distinct mems" and "0 \<notin> set mems" and "1 \<le> num" and "nat num \<le> length mems"
  shows "\<exists>h. ring_insert num mems (\<lambda>_. None) = Some (hd mems, h)
    \<and> ring_display (hd mems) (hd mems) h = Some [1..num]
    \<and> (2 \<le> k \<and> int_range (int k) \<longrightarrow>
        josufu_kill (hd mems) (int k) h = Some (survivor k [1..num]) \<and>
        survivor k [1..num] = 1 + int (survivor_pos k (nat num)))
    \<and> (2 \<le> num \<and> c \<le> 1 \<longrightarrow> josufu_kill (hd mems) c h = None)"
proof -
  obtain h where h: "ring_insert num mems (\<lambda>_. None) = Some (hd mems, h)" and c: "circle h (zip mems [1..num])"
    using ring_insert_circle [OF assms] by blast
  let ?ns = "zip mems [1..num]"
  have snds: "map snd ?ns = [1..num]" "length ?ns = nat num" using assms(4) by (simp_all add: map_snd_zip_take)
  obtain a ms where m: "mems = a # ms" using assms(3,4) by (cases mems) auto
  then have hd: "first ?ns q = hd mems" for q using assms(3) by (simp add: upto_rec1)
  have "ring_display (hd mems) (hd mems) h = Some [1..num]"
  proof -
    have "hd mems \<notin> set (addrs (tl ?ns))" using c hd by (cases ?ns) (auto simp: circle_def)
    then show ?thesis using ring_display_circle [of h ?ns "hd mems"] c hd snds by (simp add: circle_def)
  qed
  moreover have "josufu_kill (hd mems) (int k) h = Some (survivor k [1..num])"
      "survivor k [1..num] = 1 + int (survivor_pos k (nat num))" if k: "2 \<le> k" "int_range (int k)"
  proof -
    have "chk (int k - 1) = Some (int k - 1)" using k by (auto simp: chk_def int_range_def)
    then show "josufu_kill (hd mems) (int k) h = Some (survivor k [1..num])"
      using josufu_loop_survivor [OF c k] snds(1) hd by (simp add: josufu_kill_def)
    have "survivor_pos k (nat num) < nat num" by (rule survivor_pos_less) (use assms(3) in simp)
    then show "survivor k [1..num] = 1 + int (survivor_pos k (nat num))"
      using survivor_nth [of "[1..num]" k] k assms(3) by (simp add: nth_upto)
  qed
  moreover have "josufu_kill (hd mems) c h = None" if "2 \<le> num" "c \<le> 1"
  proof -
    have "josufu_loop c (first ?ns 0) (c - 1) h = None"
      by (rule josufu_loop_overflows [OF c]) (use that snds(2) in auto)
    then show ?thesis using hd by (auto simp: josufu_kill_def chk_def)
  qed
  ultimately show ?thesis using h by blast
qed

lemma josephus_survivor_witness:
  "\<exists>h. ring_insert 8 [10, 11, 12, 13, 14, 15, 16, 17] (\<lambda>_. None) = Some (10, h) \<and> josufu_kill 10 3 h = Some 7"
proof -
  have "survivor_pos 3 (nat 8) = 6" by code_simp
  then show ?thesis
    using josephus_survivor [where mems = "[10, 11, 12, 13, 14, 15, 16, 17]" and num = 8 and k = 3 and c = 1]
    by (auto simp: int_range_def)
qed

text \<open>The program prints the ring 1 to 8 and the survivor 7.\<close>

lemma josufu_main_prints:
  assumes "distinct mems" "0 \<notin> set mems" "8 \<le> length mems"
  shows "josufu_main mems = Some ([1..8], 7)"
proof -
  obtain h where h: "ring_insert 8 mems (\<lambda>_. None) = Some (hd mems, h)" and c: "circle h (zip mems [1..8])"
    using ring_insert_circle [OF assms(1,2), of 8] assms(3) by auto
  let ?ns = "zip mems [1..8 :: int]"
  have snds: "map snd ?ns = [1..8]" using assms(3) by (simp add: map_snd_zip_take)
  obtain a ms where m: "mems = a # ms" using assms(3) by (cases mems) auto
  then have hd: "first ?ns q = hd mems" for q by (simp add: upto_rec1)
  have "hd mems \<notin> set (addrs (tl ?ns))" using c hd by (cases ?ns) (auto simp: circle_def)
  then have "ring_display (hd mems) (hd mems) h = Some [1..8]"
    using ring_display_circle [of h ?ns "hd mems"] c hd snds by (simp add: circle_def)
  moreover have "josufu_loop 3 (hd mems) 2 h = Some (survivor 3 [1..8])"
    using josufu_loop_survivor [OF c, of 3] snds hd by (simp add: int_range_def)
  moreover have "survivor 3 [1..8 :: int] = 7"
  proof -
    have "survivor_pos 3 (length [1..8 :: int]) = 6" by code_simp
    then show ?thesis using survivor_nth [of "[1..8]" 3] by (simp add: nth_upto)
  qed
  ultimately show ?thesis using h
    by (simp add: josufu_main_def NUM_def KILL_NUM_def josufu_kill_def chk_def int_range_def)
qed

end
