(* ===== verification/Polynomial.thy ===== *)
theory Polynomial
  imports NodeList
begin

text \<open>
  Adding polynomials: \<open>3.ybx/20.ds/2.ds/1.list/2.simple/ex/ploynoimal/main.c\<close>.  A polynomial is a list with a
  header node whose data are a coefficient and an exponent; \<open>ploy_union\<close> merges the nodes of the
  second list into the first.  \<open>poly_creat\<close> takes the results of \<open>malloc\<close> as an argument, each with what the
  \<open>next\<close> field of the new node happens to contain: the program never sets it for the last node.
  Nor does it check for 0, which is undefined.
\<close>

section \<open>The program\<close>

type_synonym poly_heap = "(int \<times> int) lheap"

fun poly_creat_loop :: "(int \<times> int) list \<Rightarrow> nat \<Rightarrow> (nat \<times> nat) list \<Rightarrow> poly_heap \<Rightarrow> poly_heap option" where
  "poly_creat_loop [] tmp_head_p mems h = Some h"
| "poly_creat_loop (a # arr) tmp_head_p mems h =
     (case mems of
        [] \<Rightarrow> None
      | (tmp_next, junk) # mems1 \<Rightarrow>
          if tmp_next = 0 then None
          else do {
            let h1 = h(tmp_next := Some \<lparr>ldata = a, lnext = junk\<rparr>);
            t \<leftarrow> h1 tmp_head_p;
            poly_creat_loop arr tmp_next mems1 (h1(tmp_head_p := Some (t\<lparr>lnext := tmp_next\<rparr>))) })"

text \<open>The data of the header are never set (\<open>unset\<close>).\<close>

definition poly_creat :: "(int \<times> int) list \<Rightarrow> int \<times> int \<Rightarrow> (nat \<times> nat) list \<Rightarrow> poly_heap \<Rightarrow> (nat \<times> poly_heap) option" where
  "poly_creat arr unset mems h =
     (case mems of
        [] \<Rightarrow> None
      | (head_p, junk) # mems1 \<Rightarrow>
          if head_p = 0 then None
          else do {
            h1 \<leftarrow> poly_creat_loop arr head_p mems1 (h(head_p := Some \<lparr>ldata = unset, lnext = 0\<rparr>));
            Some (head_p, h1) })"

partial_function (option) ploy_show_loop :: "nat \<Rightarrow> poly_heap \<Rightarrow> (int \<times> int) list option" where
  "ploy_show_loop cur h =
     (if cur \<noteq> 0 then do {
        n \<leftarrow> h cur;
        out \<leftarrow> ploy_show_loop (lnext n) h;
        Some (ldata n # out) }
      else Some [])"

definition ploy_show :: "nat \<Rightarrow> poly_heap \<Rightarrow> (int \<times> int) list option" where
  "ploy_show ptr h = do { n \<leftarrow> h ptr; ploy_show_loop (lnext n) h }"

definition set_next :: "nat \<Rightarrow> nat \<Rightarrow> poly_heap \<Rightarrow> poly_heap option" where
  "set_next p q h = do { n \<leftarrow> h p; Some (h(p := Some (n\<lparr>lnext := q\<rparr>))) }"

partial_function (option) ploy_union_loop :: "nat \<Rightarrow> nat \<Rightarrow> nat \<Rightarrow> poly_heap \<Rightarrow> poly_heap option" where
  "ploy_union_loop dp sp lp h =
     (if dp \<noteq> 0 \<and> sp \<noteq> 0 then do {
        d \<leftarrow> h dp;
        s \<leftarrow> h sp;
        if snd (ldata d) < snd (ldata s) then do {
          h1 \<leftarrow> set_next lp dp h;
          d1 \<leftarrow> h1 dp;
          ploy_union_loop (lnext d1) sp dp h1 }
        else if snd (ldata d) > snd (ldata s) then do {
          h1 \<leftarrow> set_next lp sp h;
          s1 \<leftarrow> h1 sp;
          ploy_union_loop dp (lnext s1) sp h1 }
        else do {
          c \<leftarrow> chk (fst (ldata d) + fst (ldata s));
          let h1 = h(dp := Some (d\<lparr>ldata := (c, snd (ldata d))\<rparr>));
          (lp2, h2) \<leftarrow> (if c \<noteq> 0 then do { h2 \<leftarrow> set_next lp dp h1; Some (dp, h2) } else Some (lp, h1));
          d2 \<leftarrow> h2 dp;
          s2 \<leftarrow> h2 sp;
          ploy_union_loop (lnext d2) (lnext s2) lp2 h2 } }
      else if dp = 0 then set_next lp sp h
      else if sp = 0 then set_next lp dp h
      else Some h)"

definition ploy_union :: "nat \<Rightarrow> nat \<Rightarrow> poly_heap \<Rightarrow> poly_heap option" where
  "ploy_union des_p src_p h = do {
     d \<leftarrow> h des_p;
     s \<leftarrow> h src_p;
     ploy_union_loop (lnext d) (lnext s) des_p h }"

section \<open>The sum on lists\<close>

text \<open>A reference on lists of coefficients and exponents, and what it means for the polynomial: \<open>coef_at\<close>
  is the coefficient of \<open>x ^ e\<close>.\<close>

fun poly_merge :: "(int \<times> int) list \<Rightarrow> (int \<times> int) list \<Rightarrow> (int \<times> int) list" where
  "poly_merge [] qs = qs"
| "poly_merge ps [] = ps"
| "poly_merge ((c, e) # ps) ((d, f) # qs) =
     (if e < f then (c, e) # poly_merge ps ((d, f) # qs)
      else if e > f then (d, f) # poly_merge ((c, e) # ps) qs
      else (if c + d \<noteq> 0 then [(c + d, e)] else []) @ poly_merge ps qs)"

definition coef_at :: "(int \<times> int) list \<Rightarrow> int \<Rightarrow> int" where
  "coef_at ps e = sum_list (map fst (filter (\<lambda>p. snd p = e) ps))"

definition ascending :: "(int \<times> int) list \<Rightarrow> bool" where
  "ascending ps \<longleftrightarrow> sorted_wrt (<) (map snd ps)"

lemma coef_at_simps [simp]: "coef_at [] e = 0" "coef_at ((c, f) # ps) e = (if f = e then c else 0) + coef_at ps e"
  "coef_at (ps @ qs) e = coef_at ps e + coef_at qs e"
  by (simp_all add: coef_at_def)

lemma ascending_simps [simp]: "ascending []" "ascending ((c, e) # ps) \<longleftrightarrow> (\<forall>p \<in> set ps. e < snd p) \<and> ascending ps"
  by (simp_all add: ascending_def)

lemma coef_merge: "coef_at (poly_merge ps qs) e = coef_at ps e + coef_at qs e"
  by (induction ps qs rule: poly_merge.induct) auto

lemma exps_merge: "\<forall>p \<in> set ps \<union> set qs. P (snd p) \<Longrightarrow> \<forall>p \<in> set (poly_merge ps qs). P (snd p)"
  by (induction ps qs rule: poly_merge.induct) auto

lemma ascending_merge: "ascending ps \<Longrightarrow> ascending qs \<Longrightarrow> ascending (poly_merge ps qs)"
proof (induction ps qs rule: poly_merge.induct)
  case (3 c e ps d f qs)
  consider "e < f" | "f < e" | "e = f" by linarith
  then show ?case
  proof cases
    case 1
    then have "\<forall>p \<in> set (poly_merge ps ((d, f) # qs)). e < snd p" using 3(4,5) by (intro exps_merge) auto
    then show ?thesis using 1 3 by simp
  next
    case 2
    then have "\<forall>p \<in> set (poly_merge ((c, e) # ps) qs). f < snd p" using 3(4,5) by (intro exps_merge) auto
    then show ?thesis using 2 3 by simp
  next
    case 3
    then have "\<forall>p \<in> set (poly_merge ps qs). e < snd p" using "3.prems" by (intro exps_merge) auto
    then show ?thesis using 3 "3.IH"(3) "3.prems" by simp
  qed
qed simp_all

lemma nonzero_merge:
  "0 \<notin> fst ` set ps \<Longrightarrow> 0 \<notin> fst ` set qs \<Longrightarrow> 0 \<notin> fst ` set (poly_merge ps qs)"
  by (induction ps qs rule: poly_merge.induct) auto

section \<open>The merge of the nodes\<close>

text \<open>No sum of two coefficients of the same exponent overflows.\<close>

definition sums_fit :: "(int \<times> int) list \<Rightarrow> (int \<times> int) list \<Rightarrow> bool" where
  "sums_fit ps qs \<longleftrightarrow> (\<forall>p \<in> set ps. \<forall>q \<in> set qs. snd p = snd q \<longrightarrow> int_range (fst p + fst q))"

lemma sums_fit_mono: "sums_fit ps qs \<Longrightarrow> set ps' \<subseteq> set ps \<Longrightarrow> set qs' \<subseteq> set qs \<Longrightarrow> sums_fit ps' qs'"
  unfolding sums_fit_def by blast

text \<open>Behind the nodes \<open>ms\<close> that are linked already, ending with \<open>lp\<close>, come the rest of both lists.\<close>

lemma union_loop_merges:
  assumes "seg h ms lp" "h lp = Some \<lparr>ldata = x, lnext = z\<rparr>" "lp \<noteq> 0" "seg h ds 0" "seg h ss 0"
    "distinct (addrs (ms @ (lp, x) # ds @ ss))" "sums_fit (map snd ds) (map snd ss)"
  shows "\<exists>h' rs. ploy_union_loop (first ds 0) (first ss 0) lp h = Some h' \<and> chained h' (ms @ (lp, x) # rs) \<and>
    map snd rs = poly_merge (map snd ds) (map snd ss)"
  using assms
proof (induction "length ds + length ss" arbitrary: h ms lp x z ds ss rule: less_induct)
  case less
  show ?case
  proof (cases "ds = [] \<or> ss = []")
    case True
    let ?rs = "if ds = [] then ss else ds"
    let ?h = "h(lp := Some \<lparr>ldata = x, lnext = first ?rs 0\<rparr>)"
    have "ploy_union_loop (first ds 0) (first ss 0) lp h = Some ?h"
      using True less.prems by (subst ploy_union_loop.simps) (auto simp: set_next_def first_null)
    moreover have "chained ?h (ms @ (lp, x) # ?rs)"
      using less.prems by (auto simp: chained_def seg_frame)
    moreover have "map snd ?rs = poly_merge (map snd ds) (map snd ss)" using True by (cases ds) auto
    ultimately show ?thesis by blast
  next
    case False
    then obtain a c e ds1 b d f ss1 where ds: "ds = (a, (c, e)) # ds1" and ss: "ss = (b, (d, f)) # ss1"
      by (metis list.exhaust prod_cases3)
    have fit: "sums_fit (map snd ds1) (map snd ss)" "sums_fit (map snd ds) (map snd ss1)" "sums_fit (map snd ds1) (map snd ss1)"
      by (rule sums_fit_mono [OF less.prems(7)]; use ds ss in auto)+
    consider "e < f" | "f < e" | "e = f" by linarith
    then show ?thesis
    proof cases
      case 1
      let ?h = "h(lp := Some \<lparr>ldata = x, lnext = a\<rparr>)"
      have step: "ploy_union_loop (first ds 0) (first ss 0) lp h = ploy_union_loop (first ds1 0) (first ss 0) a ?h"
        using 1 ds ss less.prems by (subst ploy_union_loop.simps) (auto simp: set_next_def)
      have "\<exists>h' rs. ploy_union_loop (first ds1 0) (first ss 0) a ?h = Some h' \<and>
          chained h' ((ms @ [(lp, x)]) @ (a, (c, e)) # rs) \<and> map snd rs = poly_merge (map snd ds1) (map snd ss)"
        by (rule less.hyps [where z = "first ds1 0"])
          (use less.prems ds ss fit in \<open>auto simp: seg_frame intro: sums_fit_mono\<close>)
      then obtain h' rs where "ploy_union_loop (first ds1 0) (first ss 0) a ?h = Some h'"
          "chained h' (ms @ (lp, x) # (a, (c, e)) # rs)" "map snd rs = poly_merge (map snd ds1) (map snd ss)" by auto
      then show ?thesis using 1 ds ss step by (intro exI [of _ h'] exI [of _ "(a, (c, e)) # rs"]) simp
    next
      case 2
      let ?h = "h(lp := Some \<lparr>ldata = x, lnext = b\<rparr>)"
      have step: "ploy_union_loop (first ds 0) (first ss 0) lp h = ploy_union_loop (first ds 0) (first ss1 0) b ?h"
        using 2 ds ss less.prems by (subst ploy_union_loop.simps) (auto simp: set_next_def)
      have "\<exists>h' rs. ploy_union_loop (first ds 0) (first ss1 0) b ?h = Some h' \<and>
          chained h' ((ms @ [(lp, x)]) @ (b, (d, f)) # rs) \<and> map snd rs = poly_merge (map snd ds) (map snd ss1)"
        by (rule less.hyps [where z = "first ss1 0"])
          (use less.prems ds ss fit in \<open>auto simp: seg_frame intro: sums_fit_mono\<close>)
      then obtain h' rs where "ploy_union_loop (first ds 0) (first ss1 0) b ?h = Some h'"
          "chained h' (ms @ (lp, x) # (b, (d, f)) # rs)" "map snd rs = poly_merge (map snd ds) (map snd ss1)" by auto
      then show ?thesis using 2 ds ss step by (intro exI [of _ h'] exI [of _ "(b, (d, f)) # rs"]) simp
    next
      case 3
      let ?h = "h(a := Some \<lparr>ldata = (c + d, e), lnext = first ds1 0\<rparr>)"
      let ?h2 = "?h(lp := Some \<lparr>ldata = x, lnext = a\<rparr>)"
      have chk: "chk (c + d) = Some (c + d)" using less.prems(7) 3 ds ss by (simp add: sums_fit_def chk_def)
      show ?thesis
      proof (cases "c + d = 0")
        case True
        have step: "ploy_union_loop (first ds 0) (first ss 0) lp h = ploy_union_loop (first ds1 0) (first ss1 0) lp ?h"
          using 3 True chk ds ss less.prems by (subst ploy_union_loop.simps) (auto simp: set_next_def Let_def)
        have "\<exists>h' rs. ploy_union_loop (first ds1 0) (first ss1 0) lp ?h = Some h' \<and>
            chained h' (ms @ (lp, x) # rs) \<and> map snd rs = poly_merge (map snd ds1) (map snd ss1)"
          by (rule less.hyps [where z = z])
            (use less.prems ds ss fit in \<open>auto simp: seg_frame intro: sums_fit_mono\<close>)
        then show ?thesis using 3 True ds ss step by simp
      next
        case False
        have step: "ploy_union_loop (first ds 0) (first ss 0) lp h = ploy_union_loop (first ds1 0) (first ss1 0) a ?h2"
          using 3 False chk ds ss less.prems by (subst ploy_union_loop.simps) (auto simp: set_next_def Let_def)
        have "\<exists>h' rs. ploy_union_loop (first ds1 0) (first ss1 0) a ?h2 = Some h' \<and>
            chained h' ((ms @ [(lp, x)]) @ (a, (c + d, e)) # rs) \<and> map snd rs = poly_merge (map snd ds1) (map snd ss1)"
          by (rule less.hyps [where z = "first ds1 0"])
            (use less.prems ds ss fit in \<open>auto simp: seg_frame intro: sums_fit_mono\<close>)
        then obtain h' rs where "ploy_union_loop (first ds1 0) (first ss1 0) a ?h2 = Some h'"
            "chained h' (ms @ (lp, x) # (a, (c + d, e)) # rs)" "map snd rs = poly_merge (map snd ds1) (map snd ss1)" by auto
        then show ?thesis using 3 False ds ss step by (intro exI [of _ h'] exI [of _ "(a, (c + d, e)) # rs"]) simp
      qed
    qed
  qed
qed

lemma union_merges:
  assumes "chained h ((des, u) # ds)" "chained h ((src, w) # ss)"
    "distinct (addrs ((des, u) # ds) @ addrs ((src, w) # ss))" "sums_fit (map snd ds) (map snd ss)"
  shows "\<exists>h' rs. ploy_union des src h = Some h' \<and> chained h' ((des, u) # rs) \<and>
    map snd rs = poly_merge (map snd ds) (map snd ss)"
proof -
  have n: "h des = Some \<lparr>ldata = u, lnext = first ds 0\<rparr>" "h src = Some \<lparr>ldata = w, lnext = first ss 0\<rparr>" "des \<noteq> 0"
    "seg h ds 0" "seg h ss 0"
    using assms(1,2) by (simp_all add: chained_def)
  have "\<exists>h' rs. ploy_union_loop (first ds 0) (first ss 0) des h = Some h' \<and> chained h' ([] @ (des, u) # rs) \<and>
      map snd rs = poly_merge (map snd ds) (map snd ss)"
    by (rule union_loop_merges [where z = "first ds 0"]) (use n assms(3,4) in auto)
  then show ?thesis using n by (simp add: ploy_union_def)
qed

section \<open>Building and showing\<close>

lemma creat_loop_open:
  assumes "seg h ns tmp" "h tmp = Some \<lparr>ldata = x, lnext = z\<rparr>" "tmp \<noteq> 0"
    "distinct (addrs (ns @ [(tmp, x)]) @ map fst mems)" "0 \<notin> fst ` set mems" "length arr \<le> length mems"
  shows "\<exists>h'. poly_creat_loop arr tmp mems h = Some h' \<and>
    seg h' (ns @ (tmp, x) # zip (map fst mems) arr) (if arr = [] then z else snd (mems ! (length arr - 1))) \<and>
    (\<forall>b. b \<notin> insert tmp (fst ` set mems) \<longrightarrow> h' b = h b)"
  using assms
proof (induction arr arbitrary: h ns tmp x z mems)
  case (Cons a arr)
  then obtain p junk mems1 where mems: "mems = (p, junk) # mems1" by (cases mems) auto
  let ?h = "h(p := Some \<lparr>ldata = a, lnext = junk\<rparr>, tmp := Some \<lparr>ldata = x, lnext = p\<rparr>)"
  have ne: "p \<noteq> tmp" "p \<noteq> 0" using Cons.prems(4,5) mems by auto
  then have step: "poly_creat_loop (a # arr) tmp mems h = poly_creat_loop arr p mems1 ?h"
    using mems Cons.prems(2) by (simp add: Let_def)
  have "\<exists>h'. poly_creat_loop arr p mems1 ?h = Some h' \<and>
      seg h' ((ns @ [(tmp, x)]) @ (p, a) # zip (map fst mems1) arr) (if arr = [] then junk else snd (mems1 ! (length arr - 1))) \<and>
      (\<forall>b. b \<notin> insert p (fst ` set mems1) \<longrightarrow> h' b = ?h b)"
    by (rule Cons.IH [where h = ?h]) (use Cons.prems mems ne in \<open>auto simp: seg_frame simp del: fun_upd_apply, simp_all\<close>)
  then show ?case unfolding step using mems by (cases arr) auto
qed auto

lemma show_loop_open: "seg h ns q \<Longrightarrow> ploy_show_loop q h = (if q = 0 then Some [] else None) \<Longrightarrow>
   ploy_show_loop (first ns q) h = (if q = 0 then Some (map snd ns) else None)"
proof (induction ns)
  case (Cons n ns)
  obtain a x where "n = (a, x)" by (cases n)
  with Cons show ?case by (subst ploy_show_loop.simps) simp
qed simp

lemma show_open: "seg h ((p, u) # ns) q \<Longrightarrow> h q = None \<Longrightarrow> ploy_show p h = (if q = 0 then Some (map snd ns) else None)"
  using show_loop_open [of h ns q] by (simp add: ploy_show_def ploy_show_loop.simps [of q])

lemma show_chained: "chained h ((p, u) # ns) \<Longrightarrow> ploy_show p h = Some (map snd ns)"
  using show_loop_open [of h ns 0] by (simp add: ploy_show_def ploy_show_loop.simps [of 0] chained_def)

section \<open>Properties\<close>

text \<open>
  Adding polynomials: for two disjoint lists with ascending exponents whose sums of coefficients fit an
  \<open>int\<close>, \<open>ploy_union\<close> ends and leaves in the first list, again ascending and without zero coefficients
  if there were none, the polynomial whose coefficient of every power is the sum of the two; \<open>ploy_show\<close> shows it.
\<close>
theorem polynomials_are_added:
  assumes "chained h ((des, u) # ds)" and "chained h ((src, w) # ss)"
    and "distinct (addrs ((des, u) # ds) @ addrs ((src, w) # ss))"
    and "ascending (map snd ds)" and "ascending (map snd ss)" and "sums_fit (map snd ds) (map snd ss)"
  shows "\<exists>h' ps. ploy_union des src h = Some h' \<and> ploy_show des h' = Some ps \<and> ascending ps
    \<and> (\<forall>e. coef_at ps e = coef_at (map snd ds) e + coef_at (map snd ss) e)
    \<and> (0 \<notin> fst ` set (map snd ds) \<and> 0 \<notin> fst ` set (map snd ss) \<longrightarrow> 0 \<notin> fst ` set ps)"
proof -
  obtain h' rs where r: "ploy_union des src h = Some h'" "chained h' ((des, u) # rs)"
      "map snd rs = poly_merge (map snd ds) (map snd ss)"
    using union_merges [OF assms(1-3,6)] by blast
  have "ploy_show des h' = Some (map snd rs)" by (rule show_chained [OF r(2)])
  then show ?thesis
    unfolding r(3) using r(1) ascending_merge [OF assms(4,5)] coef_merge nonzero_merge by blast
qed

text \<open>
  \<open>poly_creat\<close> does not end its list: the last node keeps what its \<open>next\<close> field contained when \<open>malloc\<close> returned
  it.  Where that is null, \<open>ploy_show\<close> shows the given terms; else it follows the stray pointer.
\<close>
theorem created_polynomial_has_no_end:
  assumes "distinct (map fst mems)" and "0 \<notin> fst ` set mems" and "arr \<noteq> []" and "length arr < length mems"
    and "junk = snd (mems ! length arr)" and "junk \<notin> fst ` set mems"
  shows "\<exists>h. poly_creat arr u mems (\<lambda>_. None) = Some (fst (hd mems), h)
    \<and> ploy_show (fst (hd mems)) h = (if junk = 0 then Some arr else None)"
proof -
  obtain p j ms where m: "mems = (p, j) # ms" using assms(4) by (cases mems) auto
  let ?h = "(\<lambda>_. None)(p := Some \<lparr>ldata = u, lnext = 0 :: nat\<rparr>)"
  have "length arr \<le> length ms" using assms(4) m by simp
  then obtain h where h: "poly_creat_loop arr p ms ?h = Some h"
      "seg h ((p, u) # zip (map fst ms) arr) (snd (ms ! (length arr - 1)))"
      "\<forall>b. b \<notin> insert p (fst ` set ms) \<longrightarrow> h b = ?h b"
    using creat_loop_open [of ?h "[]" p u 0 ms arr] assms(1-3) m by auto
  have j: "snd (ms ! (length arr - 1)) = junk" using assms(3,5) m by (cases arr) auto
  have "h junk = None" using h(3) assms(6) m by simp
  then have "ploy_show p h = (if junk = 0 then Some (map snd (zip (map fst ms) arr)) else None)"
    using show_open [OF h(2)] j by simp
  then show ?thesis using h(1) m assms(2) \<open>length arr \<le> length ms\<close> by (simp add: poly_creat_def map_snd_zip_take)
qed

section \<open>Witnesses\<close>

definition two_polys :: poly_heap where
  "two_polys = (\<lambda>_. None)(1 := Some \<lparr>ldata = (0, 0), lnext = 2\<rparr>, 2 := Some \<lparr>ldata = (5, 0), lnext = 3\<rparr>,
     3 := Some \<lparr>ldata = (8, 8), lnext = 0\<rparr>, 4 := Some \<lparr>ldata = (0, 0), lnext = 5\<rparr>, 5 := Some \<lparr>ldata = (- 8, 8), lnext = 0\<rparr>)"

lemma two_polys_chained:
  "chained two_polys [(1, (0, 0)), (2, (5, 0)), (3, (8, 8))]" "chained two_polys [(4, (0, 0)), (5, (- 8, 8))]"
  by (simp_all add: chained_def two_polys_def)

lemma polynomials_are_added_witness:
  "\<exists>h' ps. ploy_union 1 4 two_polys = Some h' \<and> ploy_show 1 h' = Some ps \<and> coef_at ps 0 = 5 \<and> coef_at ps 8 = 0 \<and> 0 \<notin> fst ` set ps"
  using polynomials_are_added [OF two_polys_chained] by (auto simp: sums_fit_def int_range_def)

lemma created_polynomial_has_no_end_witness:
  "\<exists>h. poly_creat [(5, 0), (2, 1)] (0, 0) [(7, 0), (8, 99), (9, 77)] (\<lambda>_. None) = Some (7, h) \<and> ploy_show 7 h = None"
  using created_polynomial_has_no_end [of "[(7, 0), (8, 99), (9, 77)]" "[(5, 0), (2, 1)]" 77 "(0, 0)"] by simp

end
