(* ===== verification/Trie.thy ===== *)
theory Trie
  imports Prelude "HOL-Library.Sublist"
begin

text \<open>
  Two dictionaries that are tries over the letters a to z: \<open>3.ybx/20.ds/2.ds/4.tree/3.retrieval_tree/tree.c\<close>
  and \<open>1.zhang/3.datastruct/hash/trie/main.c\<close>.  A node has 26 children, \<open>Null\<close> where there is none, and a
  description: an array of 256 characters in the first program, a pointer in the second.  The
  results of \<open>malloc\<close> are a list of successes; when it is used up, \<open>malloc\<close> fails.  Characters
  other than a to z index outside the array (\<open>None\<close>).  Strings hold no null character.
\<close>

section \<open>Nodes\<close>

datatype 'd trie = Null | Node (children: "'d trie list") (descr: 'd)

definition DICNR :: nat where "DICNR = 26"
definition DESC_SIZE :: nat where "DESC_SIZE = 256"

definition letter :: "char \<Rightarrow> nat option" where
  "letter c = (let i = of_char c - of_char (CHR ''a'') :: int in if 0 \<le> i \<and> i < int DICNR then Some (nat i) else None)"

text \<open>The first program.\<close>

fun newnode :: "bool list \<Rightarrow> string trie option \<times> bool list" where
  "newnode [] = (None, [])"
| "newnode (ok # ms) = (if ok then Some (Node (replicate DICNR Null) []) else None, ms)"

fun trie_find :: "string trie \<Rightarrow> string \<Rightarrow> string trie option" where
  "trie_find Null key = Some Null"
| "trie_find (Node ch d) [] = Some (Node ch d)"
| "trie_find (Node ch d) (c # key) = do { i \<leftarrow> letter c; t \<leftarrow> rd ch i; trie_find t key }"

definition the_root :: "bool list \<Rightarrow> string trie \<Rightarrow> string trie option \<times> bool list" where
  "the_root ms root = (case root of Null \<Rightarrow> newnode ms | Node _ _ \<Rightarrow> (Some root, ms))"

fun trie_insert :: "bool list \<Rightarrow> string trie \<Rightarrow> string \<Rightarrow> string \<Rightarrow> (int \<times> string trie \<times> bool list) option" where
  "trie_insert ms root [] desc =
     (case the_root ms root of
        (Some (Node ch d), ms1) \<Rightarrow> if length desc < DESC_SIZE then Some (0, Node ch desc, ms1) else None
      | (_, ms1) \<Rightarrow> Some (- 1, Null, ms1))"
| "trie_insert ms root (c # key) desc =
     (case the_root ms root of
        (Some (Node ch d), ms1) \<Rightarrow> do {
          i \<leftarrow> letter c;
          t \<leftarrow> rd ch i;
          (r, t1, ms2) \<leftarrow> trie_insert ms1 t key desc;
          Some (r, Node (ch[i := t1]) d, ms2) }
      | (_, ms1) \<Rightarrow> Some (- 1, Null, ms1))"

text \<open>The second program: the descriptions are copies (\<open>strdup\<close>), \<open>None\<close> is null; a failed \<open>malloc\<close> is not
  checked.  \<open>search_tree\<close> has no \<open>return\<close> for its recursive call, so its result is undefined then.\<close>

fun malloc_space :: "bool list \<Rightarrow> string option trie option \<times> bool list" where
  "malloc_space [] = (None, [])"
| "malloc_space (ok # ms) = (if ok then Some (Node (replicate DICNR Null) None) else None, ms)"

fun insert_tree_word :: "bool list \<Rightarrow> string option trie \<Rightarrow> string \<Rightarrow> string \<Rightarrow> (string option trie \<times> bool list) option" where
  "insert_tree_word ms root [] desc =
     (case (case root of Null \<Rightarrow> malloc_space ms | Node _ _ \<Rightarrow> (Some root, ms)) of
        (Some (Node ch d), ms1) \<Rightarrow> Some (Node ch (Some desc), ms1)
      | _ \<Rightarrow> None)"
| "insert_tree_word ms root (c # word) desc =
     (case (case root of Null \<Rightarrow> malloc_space ms | Node _ _ \<Rightarrow> (Some root, ms)) of
        (Some (Node ch d), ms1) \<Rightarrow> do {
          i \<leftarrow> letter c;
          t \<leftarrow> rd ch i;
          (t1, ms2) \<leftarrow> insert_tree_word ms1 t word desc;
          Some (Node (ch[i := t1]) d, ms2) }
      | _ \<Rightarrow> None)"

fun search_tree_word :: "string option trie \<Rightarrow> string \<Rightarrow> string option option" where
  "search_tree_word Null word = Some None"
| "search_tree_word (Node ch d) [] = Some d"
| "search_tree_word (Node ch d) (c # word) = do {
     i \<leftarrow> letter c;
     t \<leftarrow> rd ch i;
     _ \<leftarrow> search_tree_word t word;
     None }"

section \<open>Reading the file\<close>

text \<open>\<open>fgets\<close> with a buffer of \<open>n\<close> characters: \<open>None\<close> at the end of the file.\<close>

fun line_of :: "nat \<Rightarrow> string \<Rightarrow> string \<times> string" where
  "line_of (Suc n) (c # s) = (if c = CHR 0x0A then ([c], s) else case line_of n s of (l, r) \<Rightarrow> (c # l, r))"
| "line_of n s = ([], s)"

definition fgets :: "nat \<Rightarrow> string \<Rightarrow> (string \<times> string) option" where
  "fgets n s = (if s = [] then None else Some (line_of (n - 1) s))"

text \<open>\<open>strsep\<close>: the token before the first delimiter and, if there is one, the rest behind it; on null it returns null.\<close>

definition strsep :: "string option \<Rightarrow> string \<Rightarrow> string option \<times> string option" where
  "strsep rest delim = (case rest of
     None \<Rightarrow> (None, None)
   | Some s \<Rightarrow> (Some (takeWhile (\<lambda>c. c \<notin> set delim) s),
       case dropWhile (\<lambda>c. c \<notin> set delim) s of [] \<Rightarrow> None | _ # r \<Rightarrow> Some r))"

definition KEY_SIZE :: nat where "KEY_SIZE = 256"

text \<open>\<open>get_word\<close>: -1 at the end; \<open>strcpy\<close> of null or of a string that does not fit is undefined.\<close>

definition get_word :: "string \<Rightarrow> (int \<times> string \<times> string \<times> string) option" where
  "get_word file = (case fgets 512 file of
     None \<Rightarrow> Some (- 1, [], [], file)
   | Some (buf, file1) \<Rightarrow> do {
       let (tmp_key, rest1) = strsep (Some buf) '': '';
       let (_, rest2) = strsep rest1 '' '';
       let (tmp_desc, _) = strsep rest2 [CHR 0x0A];
       key \<leftarrow> tmp_key;
       desc \<leftarrow> tmp_desc;
       if length key < KEY_SIZE \<and> length desc < DESC_SIZE then Some (0, key, desc, file1) else None })"

lemma line_of_le: "length (snd (line_of n s)) \<le> length s"
  by (induction n s rule: line_of.induct) (auto split: prod.splits)

lemma fgets_length: "1 < n \<Longrightarrow> fgets n s = Some (l, r) \<Longrightarrow> length r < length s"
  using line_of_le [of "n - 2" "tl s"]
  by (cases s; cases n; cases "n - 1") (auto simp: fgets_def split: if_splits prod.splits)

lemma get_word_length: "get_word file = Some (ret, key, desc, file1) \<Longrightarrow> \<not> ret < 0 \<Longrightarrow> length file1 < length file"
  using fgets_length [of 512 "file"]
  by (auto simp: get_word_def bind_eq_Some_conv split: option.splits if_splits prod.splits)

function load_words :: "bool list \<Rightarrow> string trie \<Rightarrow> string \<Rightarrow> string trie option" where
  "load_words ms tree file = do {
     (ret, key, desc, file1) \<leftarrow> get_word file;
     if ret < 0 then Some tree
     else do {
       (_, tree1, ms1) \<leftarrow> trie_insert ms tree key desc;
       load_words ms1 tree1 file1 } }"
  by pat_completeness auto
termination by (relation "measure (\<lambda>(_, _, file). length file)") (auto dest!: get_word_length)

declare load_words.simps [simp del]

text \<open>What \<open>main\<close> prints; following the null pointer of a missing word is undefined.\<close>

definition trie_main :: "bool list \<Rightarrow> string \<Rightarrow> string option" where
  "trie_main ms file = do {
     tree \<leftarrow> load_words ms Null file;
     tmp \<leftarrow> trie_find tree ''donkey'';
     case tmp of Null \<Rightarrow> None | Node _ d \<Rightarrow> Some d }"

text \<open>The second program: \<open>sscanf\<close> with \<open>%s %s\<close> leaves a variable alone when there is no word for it.\<close>

definition isspace :: "char \<Rightarrow> bool" where
  "isspace c \<longleftrightarrow> c \<in> {CHR '' '', CHR 0x09, CHR 0x0A, CHR 0x0B, CHR 0x0C, CHR 0x0D}"

definition scan_word :: "string \<Rightarrow> string \<Rightarrow> string \<times> string" where
  "scan_word s old = (let t = dropWhile isspace s in
     if t = [] then (old, []) else (takeWhile (\<lambda>c. \<not> isspace c) t, dropWhile (\<lambda>c. \<not> isspace c) t))"

definition get_string :: "string \<Rightarrow> string \<Rightarrow> string \<Rightarrow> int \<times> string \<times> string \<times> string" where
  "get_string file word dscp = (case fgets 1024 file of
     None \<Rightarrow> (- 1, word, dscp, file)
   | Some (buf, file1) \<Rightarrow>
       if hd buf = CHR 0x0A then (1, word, dscp, file1)
       else let (w, r) = scan_word buf word; (d, _) = scan_word r dscp in (0, w, d, file1))"

lemma get_string_length: "get_string file word dscp = (ret, w, d, file1) \<Longrightarrow> \<not> ret < 0 \<Longrightarrow> length file1 < length file"
  using fgets_length [of 1024 "file"]
  by (auto simp: get_string_def Let_def split: option.splits if_splits prod.splits)

function load_tree :: "bool list \<Rightarrow> string option trie \<Rightarrow> string \<Rightarrow> string \<Rightarrow> string \<Rightarrow> string option trie option" where
  "load_tree ms tree word dscp file =
     (let (ret, w, d, file1) = get_string file word dscp in
      if ret < 0 then Some tree
      else if ret > 0 then load_tree ms tree w d file1
      else do {
        (tree1, ms1) \<leftarrow> insert_tree_word ms tree w d;
        load_tree ms1 tree1 w d file1 })"
  by pat_completeness auto
termination
  by (relation "measure (\<lambda>(_, _, _, _, file). length file)") (auto dest!: get_string_length [OF sym])

declare load_tree.simps [simp del]

definition tree_main :: "bool list \<Rightarrow> string \<Rightarrow> string option" where
  "tree_main ms file = do {
     tree \<leftarrow> load_tree ms Null [] [] file;
     p \<leftarrow> search_tree_word tree ''zhangyanbing'';
     Some (case p of None \<Rightarrow> ''not have'' | Some d \<Rightarrow> d) }"

section \<open>Entries\<close>

fun wf_trie :: "'d trie \<Rightarrow> bool" where
  "wf_trie Null = True"
| "wf_trie (Node ch d) \<longleftrightarrow> length ch = DICNR \<and> (\<forall>t \<in> set ch. wf_trie t)"

definition word :: "string \<Rightarrow> bool" where
  "word k \<longleftrightarrow> (\<forall>c \<in> set k. letter c \<noteq> None)"

text \<open>What is stored under a word; \<open>e\<close> where there is no node.\<close>

fun entry :: "'d \<Rightarrow> 'd trie \<Rightarrow> string \<Rightarrow> 'd" where
  "entry e Null k = e"
| "entry e (Node ch d) [] = d"
| "entry e (Node ch d) (c # k) = entry e (ch ! the (letter c)) k"

lemma word_simps [simp]: "word []" "word (c # k) \<longleftrightarrow> letter c \<noteq> None \<and> word k"
  by (simp_all add: word_def)

lemma letter_less: "letter c = Some i \<Longrightarrow> i < DICNR"
  by (auto simp: letter_def Let_def split: if_splits)

lemma letter_inj:
  assumes "letter c = Some i" "letter c' = Some i"
  shows "c = c'"
proof -
  have "of_char c = int i + 97" "of_char c' = int i + 97"
    using assms by (auto simp: letter_def Let_def split: if_splits)
  then have "of_char c = (of_char c' :: int)" by simp
  then show ?thesis by simp
qed

lemma null_child: "letter c = Some i \<Longrightarrow> replicate DICNR Null ! i = Null"
  by (simp add: letter_less)

lemma new_child: "letter c = Some i \<Longrightarrow> letter c' = Some j \<Longrightarrow>
   (replicate DICNR Null)[i := t] ! j = (if c = c' then t else Null)"
  using letter_inj [of c i c'] by (auto simp: nth_list_update letter_less)

lemma entry_empty: "word k \<Longrightarrow> entry e (Node (replicate DICNR Null) e) k = e"
  by (cases k) (auto simp: null_child)

text \<open>Both insertions, when no \<open>malloc\<close> fails.\<close>

fun put :: "'d \<Rightarrow> 'd \<Rightarrow> 'd trie \<Rightarrow> string \<Rightarrow> 'd trie" where
  "put e x Null [] = Node (replicate DICNR Null) x"
| "put e x (Node ch d) [] = Node ch x"
| "put e x Null (c # k) = Node ((replicate DICNR Null)[the (letter c) := put e x Null k]) e"
| "put e x (Node ch d) (c # k) = Node (ch[the (letter c) := put e x (ch ! the (letter c)) k]) d"

lemma wf_replicate [simp]: "wf_trie (Node (replicate DICNR Null) d)"
  by simp

lemma wf_child: "wf_trie (Node ch d) \<Longrightarrow> word (c # k) \<Longrightarrow> wf_trie (ch ! the (letter c)) \<and> the (letter c) < length ch"
  by (auto simp: letter_less)

lemma put_wf: "wf_trie t \<Longrightarrow> word k \<Longrightarrow> wf_trie (put e x t k)"
proof (induction e x t k rule: put.induct)
  case (3 e x c k)
  then show ?case by (auto dest!: subsetD [OF set_update_subset_insert])
next
  case (4 e x ch d c k)
  then have "the (letter c) < length ch" by (auto dest: letter_less)
  then have "wf_trie (ch ! the (letter c))" using 4(2) by simp
  then show ?case using 4 by (auto dest!: subsetD [OF set_update_subset_insert])
qed auto

lemma put_entry:
  "wf_trie t \<Longrightarrow> word k \<Longrightarrow> word k' \<Longrightarrow> entry e (put e x t k) k' = (if k' = k then x else entry e t k')"
proof (induction e x t k arbitrary: k' rule: put.induct)
  case (1 e x)
  then show ?case by (cases k') (auto simp: null_child)
next
  case (2 e x ch d)
  then show ?case by (cases k') auto
next
  case (3 e x c k)
  show ?case
  proof (cases k')
    case (Cons c' k1)
    then show ?thesis using 3 by (auto simp: new_child)
  qed simp
next
  case (4 e x ch d c k)
  show ?case
  proof (cases k')
    case (Cons c' k1)
    have w: "wf_trie (ch ! the (letter c))" "the (letter c) < length ch" using wf_child [OF 4(2,3)] by simp_all
    show ?thesis
    proof (cases "c' = c")
      case True
      then show ?thesis using Cons w 4(1) [OF w(1), of k1] 4(3,4) by simp
    next
      case False
      then have "the (letter c') \<noteq> the (letter c)" using Cons 4(3,4) letter_inj [of c _ c'] by auto
      then show ?thesis using Cons False by simp
    qed
  qed simp
qed

text \<open>A node exists for exactly the prefixes of the inserted words.\<close>

fun has_node :: "'d trie \<Rightarrow> string \<Rightarrow> bool" where
  "has_node Null k = False"
| "has_node (Node ch d) [] = True"
| "has_node (Node ch d) (c # k) = has_node (ch ! the (letter c)) k"

lemma put_has_node:
  "wf_trie t \<Longrightarrow> word k \<Longrightarrow> word k' \<Longrightarrow> has_node (put e x t k) k' \<longleftrightarrow> has_node t k' \<or> prefix k' k"
proof (induction e x t k arbitrary: k' rule: put.induct)
  case (1 e x)
  then show ?case by (cases k') (auto simp: null_child)
next
  case (2 e x ch d)
  then show ?case by (cases k') auto
next
  case (3 e x c k)
  show ?case
  proof (cases k')
    case (Cons c' k1)
    then show ?thesis using 3 by (auto simp: new_child)
  qed simp
next
  case (4 e x ch d c k)
  show ?case
  proof (cases k')
    case (Cons c' k1)
    have w: "wf_trie (ch ! the (letter c))" "the (letter c) < length ch" using wf_child [OF 4(2,3)] by simp_all
    show ?thesis
    proof (cases "c' = c")
      case True
      then show ?thesis using Cons w 4(1) [OF w(1), of k1] 4(3,4) by simp
    next
      case False
      then have "the (letter c') \<noteq> the (letter c)" using Cons 4(3,4) letter_inj [of c _ c'] by auto
      then show ?thesis using Cons False by simp
    qed
  qed simp
qed

lemma trie_find_node:
  "wf_trie t \<Longrightarrow> word k \<Longrightarrow> \<exists>n. trie_find t k = Some n \<and> (n = Null \<longleftrightarrow> \<not> has_node t k) \<and> (n \<noteq> Null \<longrightarrow> descr n = entry e t k)"
proof (induction t k rule: trie_find.induct)
  case (3 ch d c key)
  then obtain i where i: "letter c = Some i" "i < length ch" using letter_less by fastforce
  then have "wf_trie (ch ! i)" using 3(2) by simp
  then show ?case using i 3(1) [of i "ch ! i"] 3(3) by (auto simp: rd_def)
qed auto

section \<open>Loading the words\<close>

text \<open>Enough successes of \<open>malloc\<close> are left for \<open>n\<close> nodes.\<close>

definition mallocs :: "nat \<Rightarrow> bool list \<Rightarrow> bool" where
  "mallocs n ms \<longleftrightarrow> n \<le> length ms \<and> (\<forall>ok \<in> set ms. ok)"

lemma mallocs_Suc: "mallocs (Suc n) ms \<Longrightarrow> \<exists>ms'. ms = True # ms' \<and> mallocs n ms'"
  by (cases ms) (auto simp: mallocs_def)

lemma mallocs_mono: "mallocs n ms \<Longrightarrow> m \<le> n \<Longrightarrow> mallocs m ms"
  by (auto simp: mallocs_def)

lemma trie_insert_put:
  assumes "wf_trie t" "word k" "length d < DESC_SIZE" "mallocs (Suc (length k) + n) ms"
  shows "\<exists>ms'. trie_insert ms t k d = Some (0, put [] d t k, ms') \<and> mallocs n ms'"
  using assms
proof (induction k arbitrary: t ms)
  case Nil
  then obtain ms' where ms: "ms = True # ms'" "mallocs n ms'" using mallocs_Suc by fastforce
  then show ?case using Nil mallocs_mono [of "Suc n" ms n] by (cases t) (auto simp: the_root_def)
next
  case (Cons c k)
  obtain ms1 where ms: "ms = True # ms1" "mallocs (Suc (length k) + n) ms1" using mallocs_Suc Cons.prems(4) by fastforce
  have c: "letter c = Some (the (letter c))" "word k" using Cons.prems(2) by auto
  show ?case
  proof (cases t)
    case Null
    then show ?thesis using Cons.IH [of Null ms1] ms c Cons.prems(3) letter_less [OF c(1)]
      by (auto simp: the_root_def rd_def bind_eq_Some_conv null_child)
  next
    case (Node ch e)
    have w: "wf_trie (ch ! the (letter c))" "the (letter c) < length ch" using wf_child [OF Cons.prems(1) [unfolded Node] Cons.prems(2)] by simp_all
    have "mallocs (Suc (length k) + n) ms" by (rule mallocs_mono [OF Cons.prems(4)]) simp
    then obtain ms' where "trie_insert ms (ch ! the (letter c)) k d = Some (0, put [] d (ch ! the (letter c)) k, ms')" "mallocs n ms'"
      using Cons.IH [OF w(1) c(2) Cons.prems(3)] by blast
    then show ?thesis using Node w(2) by (subst trie_insert.simps, subst c(1)) (simp add: the_root_def)
  qed
qed

lemma insert_tree_put:
  assumes "wf_trie t" "word k" "mallocs (Suc (length k) + n) ms"
  shows "\<exists>ms'. insert_tree_word ms t k d = Some (put None (Some d) t k, ms') \<and> mallocs n ms'"
  using assms
proof (induction k arbitrary: t ms)
  case Nil
  then obtain ms' where ms: "ms = True # ms'" "mallocs n ms'" using mallocs_Suc by fastforce
  then show ?case using Nil mallocs_mono [of "Suc n" ms n] by (cases t) auto
next
  case (Cons c k)
  obtain ms1 where ms: "ms = True # ms1" "mallocs (Suc (length k) + n) ms1" using mallocs_Suc Cons.prems(3) by fastforce
  have c: "letter c = Some (the (letter c))" "word k" using Cons.prems(2) by auto
  show ?case
  proof (cases t)
    case Null
    then show ?thesis using Cons.IH [of Null ms1] ms c letter_less [OF c(1)]
      by (auto simp: rd_def bind_eq_Some_conv null_child)
  next
    case (Node ch e)
    have w: "wf_trie (ch ! the (letter c))" "the (letter c) < length ch" using wf_child [OF Cons.prems(1) [unfolded Node] Cons.prems(2)] by simp_all
    have "mallocs (Suc (length k) + n) ms" by (rule mallocs_mono [OF Cons.prems(3)]) simp
    then obtain ms' where "insert_tree_word ms (ch ! the (letter c)) k d = Some (put None (Some d) (ch ! the (letter c)) k, ms')" "mallocs n ms'"
      using Cons.IH [OF w(1) c(2)] by blast
    then show ?thesis using Node w(2) by (subst insert_tree_word.simps, subst c(1)) simp
  qed
qed

definition puts :: "'d \<Rightarrow> (string \<Rightarrow> 'd) \<Rightarrow> 'd trie \<Rightarrow> (string \<times> string) list \<Rightarrow> 'd trie" where
  "puts e f t ps = foldl (\<lambda>t (k, d). put e (f d) t k) t ps"

lemma puts_simps [simp]: "puts e f t [] = t" "puts e f t ((k, d) # ps) = puts e f (put e (f d) t k) ps"
  by (simp_all add: puts_def)

lemma puts_ok:
  "wf_trie t \<Longrightarrow> \<forall>p \<in> set ps. word (fst p) \<Longrightarrow> word k \<Longrightarrow>
   wf_trie (puts e f t ps) \<and> entry e (puts e f t ps) k = (case map_of (rev ps) k of None \<Rightarrow> entry e t k | Some d \<Rightarrow> f d) \<and>
   (has_node (puts e f t ps) k \<longleftrightarrow> has_node t k \<or> (\<exists>p \<in> set ps. prefix k (fst p)))"
proof (induction ps arbitrary: t)
  case (Cons p ps)
  obtain w d where p: "p = (w, d)" by (cases p)
  have "wf_trie (put e (f d) t w)" using put_wf Cons.prems p by auto
  then show ?case using Cons p put_entry [of t w k e "f d"] put_has_node [of t w k e "f d"]
    by (auto simp: map_add_def split: option.splits)
qed simp

lemma line_of_line: "CHR 0x0A \<notin> set s \<Longrightarrow> length s < n \<Longrightarrow> line_of n (s @ CHR 0x0A # r) = (s @ [CHR 0x0A], r)"
proof (induction s arbitrary: n)
  case Nil
  then show ?case by (cases n) auto
next
  case (Cons c s)
  then obtain m where "n = Suc m" by (cases n) auto
  then show ?case using Cons by auto
qed

lemma fgets_line: "CHR 0x0A \<notin> set s \<Longrightarrow> Suc (length s) < n \<Longrightarrow> fgets n (s @ CHR 0x0A # r) = Some (s @ [CHR 0x0A], r)"
  using line_of_line [of s "n - 1" r] by (cases s) (simp_all add: fgets_def)

text \<open>A line of the file of the first program is the word, a colon, a blank and the description.\<close>

definition dict_line :: "string \<times> string \<Rightarrow> string" where
  "dict_line p = fst p @ '': '' @ snd p @ [CHR 0x0A]"

definition good_line :: "string \<times> string \<Rightarrow> bool" where
  "good_line p \<longleftrightarrow> word (fst p) \<and> CHR 0x0A \<notin> set (snd p) \<and> length (fst p) < KEY_SIZE \<and> length (snd p) < DESC_SIZE \<and>
     length (fst p) + length (snd p) < 509"

lemma word_chars: "word k \<Longrightarrow> CHR '' '' \<notin> set k \<and> CHR '':'' \<notin> set k \<and> CHR 0x0A \<notin> set k"
proof -
  have "letter (CHR '' '') = None" "letter (CHR '':'') = None" "letter (CHR 0x0A) = None"
    by (simp_all add: letter_def)
  then show "word k \<Longrightarrow> ?thesis" by (auto simp: word_def)
qed

lemma get_word_line:
  assumes "good_line (k, d)"
  shows "get_word (dict_line (k, d) @ file) = Some (0, k, d, file)"
proof -
  have k: "CHR '' '' \<notin> set k" "CHR '':'' \<notin> set k" "CHR 0x0A \<notin> set k" "CHR 0x0A \<notin> set d"
    using assms word_chars [of k] by (auto simp: good_line_def)
  have g: "fgets 512 (dict_line (k, d) @ file) = Some (k @ '': '' @ d @ [CHR 0x0A], file)"
    using fgets_line [of "k @ '': '' @ d" 512 "file"] assms k by (simp add: dict_line_def good_line_def)
  have 1: "strsep (Some (k @ '': '' @ d @ [CHR 0x0A])) '': '' = (Some k, Some ('' '' @ d @ [CHR 0x0A]))"
    using k by (simp add: strsep_def takeWhile_append dropWhile_append) (auto simp: dropWhile_append2)
  have 2: "strsep (Some ('' '' @ d @ [CHR 0x0A])) '' '' = (Some [], Some (d @ [CHR 0x0A]))" by (simp add: strsep_def)
  have 3: "strsep (Some (d @ [CHR 0x0A])) [CHR 0x0A] = (Some d, Some [])"
    using k by (simp add: strsep_def takeWhile_append dropWhile_append)
  show ?thesis using g 1 2 3 assms by (simp add: get_word_def good_line_def)
qed

definition nodes_for :: "(string \<times> string) list \<Rightarrow> nat" where
  "nodes_for ps = sum_list (map (\<lambda>p. Suc (length (fst p))) ps)"

lemma load_words_puts:
  "wf_trie t \<Longrightarrow> \<forall>p \<in> set ps. good_line p \<Longrightarrow> mallocs (nodes_for ps) ms \<Longrightarrow>
   load_words ms t (concat (map dict_line ps)) = Some (puts [] id t ps)"
proof (induction ps arbitrary: t ms)
  case Nil
  then show ?case by (simp add: load_words.simps get_word_def fgets_def)
next
  case (Cons p ps)
  obtain k d where p: "p = (k, d)" by (cases p)
  then have g: "good_line (k, d)" "word k" "length d < DESC_SIZE" using Cons.prems(2) by (auto simp: good_line_def)
  have "mallocs (Suc (length k) + nodes_for ps) ms" using Cons.prems(3) p by (simp add: nodes_for_def)
  then obtain ms' where "trie_insert ms t k d = Some (0, put [] d t k, ms')" "mallocs (nodes_for ps) ms'"
    using trie_insert_put [OF Cons.prems(1) g(2,3)] by blast
  then show ?case using Cons.IH [OF put_wf [OF Cons.prems(1) g(2)]] Cons.prems(2) get_word_line [OF g(1)] p
    by (simp add: load_words.simps [of ms])
qed

text \<open>A line of the file of the second program is two words with a blank between them.\<close>

definition pair_line :: "string \<times> string \<Rightarrow> string" where
  "pair_line p = fst p @ '' '' @ snd p @ [CHR 0x0A]"

definition good_pair :: "string \<times> string \<Rightarrow> bool" where
  "good_pair p \<longleftrightarrow> word (fst p) \<and> fst p \<noteq> [] \<and> snd p \<noteq> [] \<and> (\<forall>c \<in> set (snd p). \<not> isspace c) \<and>
     length (fst p) + length (snd p) < 1022"

lemma word_no_space: "word k \<Longrightarrow> c \<in> set k \<Longrightarrow> \<not> isspace c"
proof -
  have "letter c = None" if "isspace c" for c using that by (auto simp: isspace_def letter_def)
  then show "word k \<Longrightarrow> c \<in> set k \<Longrightarrow> ?thesis" by (auto simp: word_def)
qed

lemma scan_word_head:
  assumes "w \<noteq> []" "\<forall>c \<in> set w. \<not> isspace c" "isspace b" "dropWhile isspace s = w @ b # r"
  shows "scan_word s old = (w, b # r)"
  using assms by (simp add: scan_word_def Let_def takeWhile_append dropWhile_append)

lemma get_string_line:
  assumes "good_pair (w, d)"
  shows "get_string (pair_line (w, d) @ file) old1 old2 = (0, w, d, file)"
proof -
  have w: "w \<noteq> []" "\<forall>c \<in> set w. \<not> isspace c" and d: "d \<noteq> []" "\<forall>c \<in> set d. \<not> isspace c"
    using assms word_no_space by (auto simp: good_pair_def)
  have nl: "isspace (CHR 0x0A)" "isspace (CHR '' '')" by (simp_all add: isspace_def)
  then have n: "CHR 0x0A \<notin> set (w @ '' '' @ d)" using w(2) d(2) by auto
  have g: "fgets 1024 (pair_line (w, d) @ file) = Some (w @ '' '' @ d @ [CHR 0x0A], file)"
    using fgets_line [OF n, of 1024 "file"] assms by (simp add: pair_line_def good_pair_def)
  have h: "hd (w @ '' '' @ d @ [CHR 0x0A]) \<noteq> CHR 0x0A" using w nl(1) by (cases w) auto
  have drop: "dropWhile isspace (v @ s) = v @ s" if "v \<noteq> []" "\<forall>c \<in> set v. \<not> isspace c" for v s
    using that by (cases v) auto
  have 1: "scan_word (w @ '' '' @ d @ [CHR 0x0A]) old1 = (w, '' '' @ d @ [CHR 0x0A])"
    using scan_word_head [OF w nl(2), of _ "d @ [CHR 0x0A]" old1] drop [OF w] by simp
  have 2: "scan_word ('' '' @ d @ [CHR 0x0A]) old2 = (d, [CHR 0x0A])"
    using scan_word_head [OF d nl(1), of _ "[]" old2] drop [OF d] nl(2) by simp
  show ?thesis using g h 1 2 by (simp add: get_string_def Let_def)
qed

lemma load_tree_puts:
  "wf_trie t \<Longrightarrow> \<forall>p \<in> set ps. good_pair p \<Longrightarrow> mallocs (nodes_for ps) ms \<Longrightarrow>
   load_tree ms t w0 d0 (concat (map pair_line ps)) = Some (puts None Some t ps)"
proof (induction ps arbitrary: t ms w0 d0)
  case Nil
  then show ?case by (simp add: load_tree.simps get_string_def fgets_def)
next
  case (Cons p ps)
  obtain k d where p: "p = (k, d)" by (cases p)
  then have g: "good_pair (k, d)" "word k" using Cons.prems(2) by (auto simp: good_pair_def)
  have "mallocs (Suc (length k) + nodes_for ps) ms" using Cons.prems(3) p by (simp add: nodes_for_def)
  then obtain ms' where "insert_tree_word ms t k d = Some (put None (Some d) t k, ms')" "mallocs (nodes_for ps) ms'"
    using insert_tree_put [OF Cons.prems(1) g(2)] by blast
  then show ?case using Cons.IH [OF put_wf [OF Cons.prems(1) g(2)]] Cons.prems(2) get_string_line [OF g(1)] p
    by (simp add: load_tree.simps [of ms])
qed

lemma search_tree_lost: "c # k = word' \<Longrightarrow> search_tree_word (Node ch d) word' = None"
  by (auto simp: bind_eq_None_conv)

lemma puts_root: "ps \<noteq> [] \<Longrightarrow> \<exists>ch d. puts e f Null ps = Node ch d"
proof -
  have put: "\<exists>ch d. put e x t k = Node ch d" for x t k by (cases k; cases t) auto
  have "\<exists>ch d. puts e f (Node ch0 d0) ps = Node ch d" for ps ch0 d0
  proof (induction ps arbitrary: ch0 d0)
    case (Cons p ps)
    then show ?case using put [of "f (snd p)" "Node ch0 d0" "fst p"] by (cases p) auto
  qed simp
  then show "ps \<noteq> [] \<Longrightarrow> ?thesis" using put by (cases ps) (auto, metis)
qed

section \<open>Properties\<close>

text \<open>
  C14. The dictionary of the first program: from a file of lines "word: description" (words of a to z, lines that fit the
  buffers, enough memory) it builds a tree in which every word, and no other string, finds its last
  description, while strings that only begin words find an empty one and all others null; \<open>main\<close> prints the entry of
  donkey, and follows a null pointer if no word begins with it.
\<close>
theorem trie_finds_its_words:
  assumes "\<forall>p \<in> set ps. good_line p" and "mallocs (nodes_for ps) ms"
  shows "\<exists>t. load_words ms Null (concat (map dict_line ps)) = Some t
    \<and> (\<forall>k. word k \<longrightarrow> (\<exists>n. trie_find t k = Some n \<and> (n = Null \<longleftrightarrow> (\<forall>p \<in> set ps. \<not> prefix k (fst p)))
        \<and> (n \<noteq> Null \<longrightarrow> descr n = (case map_of (rev ps) k of None \<Rightarrow> [] | Some d \<Rightarrow> d))))
    \<and> trie_main ms (concat (map dict_line ps)) =
        (if \<exists>p \<in> set ps. prefix ''donkey'' (fst p)
         then Some (case map_of (rev ps) ''donkey'' of None \<Rightarrow> [] | Some d \<Rightarrow> d) else None)"
proof -
  let ?t = "puts [] id Null ps"
  have l: "load_words ms Null (concat (map dict_line ps)) = Some ?t" by (rule load_words_puts) (use assms in simp_all)
  have w: "\<forall>p \<in> set ps. word (fst p)" using assms(1) by (auto simp: good_line_def)
  have ok: "\<exists>n. trie_find ?t k = Some n \<and> (n = Null \<longleftrightarrow> (\<forall>p \<in> set ps. \<not> prefix k (fst p)))
      \<and> (n \<noteq> Null \<longrightarrow> descr n = (case map_of (rev ps) k of None \<Rightarrow> [] | Some d \<Rightarrow> d))" if k: "word k" for k
  proof -
    note p = puts_ok [of Null ps k "[]" id, OF _ w k, simplified]
    then obtain n where "trie_find ?t k = Some n" "n = Null \<longleftrightarrow> \<not> has_node ?t k" "n \<noteq> Null \<longrightarrow> descr n = entry [] ?t k"
      using trie_find_node [of ?t k "[]"] k by blast
    then show ?thesis using p by (auto split: option.splits)
  qed
  have "word ''donkey''" by (simp add: word_def letter_def DICNR_def)
  from ok [OF this] obtain n where "trie_find ?t ''donkey'' = Some n" "n = Null \<longleftrightarrow> (\<forall>p \<in> set ps. \<not> prefix ''donkey'' (fst p))"
      "n \<noteq> Null \<longrightarrow> descr n = (case map_of (rev ps) ''donkey'' of None \<Rightarrow> [] | Some d \<Rightarrow> d)" by blast
  then have "trie_main ms (concat (map dict_line ps)) = (if \<exists>p \<in> set ps. prefix ''donkey'' (fst p)
         then Some (case map_of (rev ps) ''donkey'' of None \<Rightarrow> [] | Some d \<Rightarrow> d) else None)"
    using l by (cases n) (auto simp: trie_main_def)
  then show ?thesis using l ok by blast
qed

text \<open>
  The dictionary of the second program is built right, every word having its last description; but \<open>search_tree\<close>
  has no \<open>return\<close> in front of its recursive call: the search for a non-empty word in a non-empty tree has no
  value, so \<open>main\<close> is undefined for every dictionary with a word in it.
\<close>
theorem search_tree_loses_its_result:
  assumes "\<forall>p \<in> set ps. good_pair p" and "mallocs (nodes_for ps) ms"
  shows "\<exists>t. load_tree ms Null [] [] (concat (map pair_line ps)) = Some t
    \<and> (\<forall>k. word k \<longrightarrow> entry None t k = map_of (rev ps) k)
    \<and> (\<forall>c k. ps \<noteq> [] \<longrightarrow> search_tree_word t (c # k) = None)
    \<and> tree_main ms (concat (map pair_line ps)) = (if ps = [] then Some ''not have'' else None)"
proof -
  let ?t = "puts None Some Null ps"
  have l: "load_tree ms Null [] [] (concat (map pair_line ps)) = Some ?t" by (rule load_tree_puts) (use assms in simp_all)
  have w: "\<forall>p \<in> set ps. word (fst p)" using assms(1) by (auto simp: good_pair_def)
  have "entry None ?t k = map_of (rev ps) k" if "word k" for k
    using puts_ok [of Null ps k None Some, OF _ w that] by (simp split: option.splits)
  moreover have s: "search_tree_word ?t (c # k) = None" if "ps \<noteq> []" for c k
    using puts_root [OF that, of None Some] search_tree_lost by metis
  moreover have "tree_main ms (concat (map pair_line ps)) = (if ps = [] then Some ''not have'' else None)"
    using l s by (simp add: tree_main_def)
  ultimately show ?thesis using l by blast
qed

section \<open>Witnesses\<close>

lemma trie_finds_its_words_witness:
  "trie_main (replicate 20 True) (concat (map dict_line [(''donkey'', ''ee aw''), (''dog'', ''waf'')])) = Some ''ee aw''"
proof -
  have "\<forall>p \<in> set [(''donkey'', ''ee aw''), (''dog'', ''waf'')]. good_line p"
    by (simp add: good_line_def word_def letter_def DICNR_def KEY_SIZE_def DESC_SIZE_def)
  then show ?thesis
    using trie_finds_its_words [of "[(''donkey'', ''ee aw''), (''dog'', ''waf'')]" "replicate 20 True"]
    by (auto simp: mallocs_def nodes_for_def)
qed

lemma search_tree_loses_its_result_witness:
  "tree_main (replicate 20 True) (concat (map pair_line [(''zhangyanbing'', ''me'')])) = None"
proof -
  have "\<forall>p \<in> set [(''zhangyanbing'', ''me'')]. good_pair p"
    by (simp add: good_pair_def word_def letter_def DICNR_def isspace_def)
  then show ?thesis
    using search_tree_loses_its_result [of "[(''zhangyanbing'', ''me'')]" "replicate 20 True"]
    by (auto simp: mallocs_def nodes_for_def)
qed

end
