(* ===== verification/SeqList.thy ===== *)
theory SeqList
  imports Prelude
begin

text \<open>
  The sequential list \<open>3.ybx/20.ds/2.ds/1.list/1.arr/sqlist.c\<close>: an array of 1024 elements with the
  index of the last one.  The element to insert or to find is passed by a pointer, which may point outside
  or into the array itself (\<open>Inside\<close>): the insertion reads it after it has moved the elements.
\<close>

section \<open>The program\<close>

definition DATASIZE :: nat where "DATASIZE = 1024"

record sqlist =
  sdata :: "int list"
  slast :: int

datatype dptr = Outside int | Inside nat

definition deref :: "int list \<Rightarrow> dptr \<Rightarrow> int option" where
  "deref d p = (case p of Outside v \<Rightarrow> Some v | Inside k \<Rightarrow> rd d k)"

text \<open>\<open>mem\<close> is what \<open>malloc\<close> returns: cells with any contents, or null.\<close>

definition sqlist_create :: "int list option \<Rightarrow> sqlist option" where
  "sqlist_create mem = map_option (\<lambda>cells. \<lparr>sdata = cells, slast = -1\<rparr>) mem"

definition sqlist_create1 :: "int list option \<Rightarrow> sqlist option" where
  "sqlist_create1 mem = (case mem of None \<Rightarrow> None | Some cells \<Rightarrow> Some \<lparr>sdata = cells, slast = -1\<rparr>)"

function shift_up :: "int \<Rightarrow> int \<Rightarrow> int list \<Rightarrow> int list option" where
  "shift_up i j d =
     (if i \<le> j then do { v \<leftarrow> rdi d j; d1 \<leftarrow> wri d (j + 1) v; shift_up i (j - 1) d1 } else Some d)"
  by pat_completeness auto
termination by (relation "measure (\<lambda>(i, j, d). nat (j - i + 1))") auto

declare shift_up.simps [simp del]

definition sqlist_insert :: "sqlist \<Rightarrow> int \<Rightarrow> dptr \<Rightarrow> (int \<times> sqlist) option" where
  "sqlist_insert me i p =
     (if slast me = int DATASIZE - 1 then Some (- 1, me)
      else if i < 0 \<or> i > slast me + 1 then Some (- 2, me)
      else do {
        d \<leftarrow> shift_up i (slast me) (sdata me);
        v \<leftarrow> deref d p;
        d1 \<leftarrow> wri d i v;
        Some (0, me\<lparr>sdata := d1, slast := slast me + 1\<rparr>) })"

function shift_down :: "int \<Rightarrow> int \<Rightarrow> int list \<Rightarrow> int list option" where
  "shift_down i j d =
     (if i < j then do { v \<leftarrow> rdi d (i + 1); d1 \<leftarrow> wri d i v; shift_down (i + 1) j d1 } else Some d)"
  by pat_completeness auto
termination by (relation "measure (\<lambda>(i, j, d). nat (j - i))") auto

declare shift_down.simps [simp del]

definition sqlist_delete :: "sqlist \<Rightarrow> int \<Rightarrow> (int \<times> sqlist) option" where
  "sqlist_delete me i =
     (if i < 0 \<or> i > slast me then Some (- 1, me)
      else do {
        d \<leftarrow> shift_down i (slast me) (sdata me);
        Some (0, me\<lparr>sdata := d, slast := slast me - 1\<rparr>) })"

definition sqlist_isempty :: "sqlist \<Rightarrow> bool" where
  "sqlist_isempty me = (slast me = -1)"

function sq_find_loop :: "int \<Rightarrow> dptr \<Rightarrow> sqlist \<Rightarrow> int option" where
  "sq_find_loop i p me =
     (if i \<le> slast me then do {
        v \<leftarrow> rdi (sdata me) i;
        x \<leftarrow> deref (sdata me) p;
        if v = x then Some i else sq_find_loop (i + 1) p me }
      else Some (- 2))"
  by pat_completeness auto
termination by (relation "measure (\<lambda>(i, p, me). nat (slast me + 1 - i))") auto

declare sq_find_loop.simps [simp del]

definition sqlist_find :: "sqlist \<Rightarrow> dptr \<Rightarrow> int option" where
  "sqlist_find me p = (if sqlist_isempty me then Some (- 1) else sq_find_loop 0 p me)"

definition sqlist_setempty :: "sqlist \<Rightarrow> int \<times> sqlist" where
  "sqlist_setempty me = (0, me\<lparr>slast := -1\<rparr>)"

definition sqlist_getnum :: "sqlist \<Rightarrow> int" where
  "sqlist_getnum me = slast me + 1"

function sq_display_loop :: "int \<Rightarrow> sqlist \<Rightarrow> int list option" where
  "sq_display_loop i me =
     (if i \<le> slast me then do { v \<leftarrow> rdi (sdata me) i; out \<leftarrow> sq_display_loop (i + 1) me; Some (v # out) }
      else Some [])"
  by pat_completeness auto
termination by (relation "measure (\<lambda>(i, me). nat (slast me + 1 - i))") auto

declare sq_display_loop.simps [simp del]

definition sqlist_display :: "sqlist \<Rightarrow> int list option" where
  "sqlist_display me = (if slast me = -1 then Some [] else sq_display_loop 0 me)"

text \<open>The union of two different lists: the elements of the second are outside the first.\<close>

function sq_union_loop :: "int \<Rightarrow> sqlist \<Rightarrow> sqlist \<Rightarrow> sqlist option" where
  "sq_union_loop i list1 list2 =
     (if i \<le> slast list2 then do {
        x \<leftarrow> rdi (sdata list2) i;
        num \<leftarrow> sqlist_find list1 (Outside x);
        list1' \<leftarrow> (if num < 0 then map_option snd (sqlist_insert list1 0 (Outside x)) else Some list1);
        sq_union_loop (i + 1) list1' list2 }
      else Some list1)"
  by pat_completeness auto
termination by (relation "measure (\<lambda>(i, _, list2). nat (slast list2 + 1 - i))") auto

declare sq_union_loop.simps [simp del]

definition sqlist_union :: "sqlist \<Rightarrow> sqlist \<Rightarrow> (int \<times> sqlist) option" where
  "sqlist_union list1 list2 = do { l \<leftarrow> sq_union_loop 0 list1 list2; Some (0, l) }"

section \<open>It holds a list\<close>

definition sq_rep :: "sqlist \<Rightarrow> int list \<Rightarrow> bool" where
  "sq_rep me xs \<longleftrightarrow> length (sdata me) = DATASIZE \<and> slast me = int (length xs) - 1 \<and>
     length xs \<le> DATASIZE \<and> (\<forall>k < length xs. sdata me ! k = xs ! k)"

lemma shift_up_cells:
  "i \<le> n \<Longrightarrow> n < length d \<Longrightarrow> \<exists>r. shift_up (int i) (int n - 1) d = Some r \<and> length r = length d \<and>
     (\<forall>k < length d. r ! k = (if i < k \<and> k \<le> n then d ! (k - 1) else d ! k))"
proof (induction "n - i" arbitrary: n d)
  case 0
  then show ?case by (simp add: shift_up.simps)
next
  case (Suc m)
  then obtain n1 where n: "n = Suc n1" "i \<le> n1" "m = n1 - i" by (cases n) auto
  let ?d = "d[n := d ! n1]"
  have "wri d (int n1 + 1) (d ! n1) = Some ?d" using Suc.prems n wri_int [of d n "d ! n1"] by (simp add: add.commute)
  then have step: "shift_up (int i) (int n - 1) d = shift_up (int i) (int n1 - 1) ?d"
    using n Suc.prems by (subst shift_up.simps) simp
  obtain r where "shift_up (int i) (int n1 - 1) ?d = Some r" "length r = length d"
      "\<forall>k < length d. r ! k = (if i < k \<and> k \<le> n1 then ?d ! (k - 1) else ?d ! k)"
    using Suc.hyps(1) [OF n(3,2), of ?d] Suc.prems n by auto
  then show ?case unfolding step using n Suc.prems by (auto simp: nth_list_update le_Suc_eq)
qed

lemma shift_down_cells:
  "i \<le> n \<Longrightarrow> n < length d \<Longrightarrow> \<exists>r. shift_down (int i) (int n) d = Some r \<and> length r = length d \<and>
     (\<forall>k < length d. r ! k = (if i \<le> k \<and> k < n then d ! Suc k else d ! k))"
proof (induction "n - i" arbitrary: i d)
  case 0
  then show ?case by (simp add: shift_down.simps)
next
  case (Suc m)
  let ?d = "d[i := d ! Suc i]"
  have "i < n" using Suc.hyps(2) by simp
  have "rdi d (int i + 1) = Some (d ! Suc i)" using Suc rdi_int [of d "Suc i"] by (simp add: add.commute)
  then have step: "shift_down (int i) (int n) d = shift_down (int (Suc i)) (int n) ?d"
    using Suc.prems \<open>i < n\<close> by (subst shift_down.simps) (simp add: add.commute)
  have "m = n - Suc i" "Suc i \<le> n" using Suc.hyps(2) by simp_all
  then obtain r where "shift_down (int (Suc i)) (int n) ?d = Some r" "length r = length d"
      "\<forall>k < length d. r ! k = (if Suc i \<le> k \<and> k < n then ?d ! Suc k else ?d ! k)"
    using Suc.hyps(1) [of "Suc i" ?d] Suc.prems by auto
  then show ?case unfolding step using Suc.prems \<open>Suc i \<le> n\<close> by (auto simp: nth_list_update not_less_eq_eq le_Suc_eq le_antisym)
qed

text \<open>The value that an insertion at \<open>i\<close> stores.\<close>

definition inserted :: "int list \<Rightarrow> nat \<Rightarrow> dptr \<Rightarrow> int" where
  "inserted xs i p = (case p of Outside v \<Rightarrow> v | Inside k \<Rightarrow> if k \<le> i then xs ! k else xs ! (k - 1))"

lemma insert_rep:
  assumes r: "sq_rep me xs" and i: "i \<le> length xs" and l: "length xs < DATASIZE"
    and p: "case p of Outside v \<Rightarrow> True | Inside k \<Rightarrow> k < length xs"
  shows "\<exists>me'. sqlist_insert me (int i) p = Some (0, me') \<and> sq_rep me' (take i xs @ inserted xs i p # drop i xs)"
proof -
  let ?n = "length xs" and ?d = "sdata me"
  have rep: "length ?d = DATASIZE" "slast me = int ?n - 1" "\<forall>k < ?n. ?d ! k = xs ! k" using r by (auto simp: sq_rep_def)
  obtain d where d: "shift_up (int i) (int ?n - 1) ?d = Some d" "length d = DATASIZE"
      "\<forall>k < DATASIZE. d ! k = (if i < k \<and> k \<le> ?n then ?d ! (k - 1) else ?d ! k)"
    using shift_up_cells [of i ?n ?d] i l rep(1) by auto
  have v: "deref d p = Some (inserted xs i p)"
    using p d(2,3) rep l by (cases p) (auto simp: deref_def inserted_def)
  let ?v = "inserted xs i p"
  have "sqlist_insert me (int i) p = Some (0, me\<lparr>sdata := d[i := ?v], slast := slast me + 1\<rparr>)"
    using d(1,2) v rep(2) i l by (simp add: sqlist_insert_def)
  moreover have "sq_rep (me\<lparr>sdata := d[i := ?v], slast := slast me + 1\<rparr>) (take i xs @ ?v # drop i xs)"
    using rep d(2,3) i l by (auto simp: sq_rep_def nth_append nth_list_update nth_Cons' min_def)
  ultimately show ?thesis by blast
qed

lemma delete_rep_sq:
  assumes r: "sq_rep me xs" and i: "i < length xs"
  shows "\<exists>me'. sqlist_delete me (int i) = Some (0, me') \<and> sq_rep me' (take i xs @ drop (Suc i) xs)"
proof -
  let ?n = "length xs" and ?d = "sdata me"
  have rep: "length ?d = DATASIZE" "slast me = int ?n - 1" "?n \<le> DATASIZE" "\<forall>k < ?n. ?d ! k = xs ! k" using r by (auto simp: sq_rep_def)
  have last: "slast me = int (?n - 1)" using rep(2) i by simp
  have "i \<le> ?n - 1" "?n - 1 < length ?d" using i rep(1,3) by simp_all
  from shift_down_cells [OF this] obtain d where d: "shift_down (int i) (slast me) ?d = Some d" "length d = DATASIZE"
      "\<forall>k < DATASIZE. d ! k = (if i \<le> k \<and> k < ?n - 1 then ?d ! Suc k else ?d ! k)"
    unfolding last rep(1) by blast
  have "sqlist_delete me (int i) = Some (0, me\<lparr>sdata := d, slast := slast me - 1\<rparr>)"
    using d(1) rep(2) i by (simp add: sqlist_delete_def)
  moreover have "sq_rep (me\<lparr>sdata := d, slast := slast me - 1\<rparr>) (take i xs @ drop (Suc i) xs)"
    using rep d(2,3) i by (auto simp: sq_rep_def nth_append min_def)
  ultimately show ?thesis by blast
qed

lemma find_loop_rep:
  assumes "sq_rep me xs"
  shows "i \<le> length xs \<Longrightarrow> sq_find_loop (int i) (Outside v) me =
    Some (case find (\<lambda>k. xs ! k = v) [i..<length xs] of None \<Rightarrow> - 2 | Some k \<Rightarrow> int k)"
proof (induction "length xs - i" arbitrary: i)
  case 0
  then show ?case using assms by (simp add: sq_find_loop.simps sq_rep_def)
next
  case (Suc m)
  have "[i..<length xs] = i # [Suc i..<length xs]" using Suc.hyps(2) by (simp add: upt_conv_Cons)
  moreover have "sq_find_loop (int i + 1) (Outside v) me = sq_find_loop (int (Suc i)) (Outside v) me" by (simp add: add.commute)
  ultimately show ?case using Suc.hyps(1) [of "Suc i"] Suc.hyps(2) assms
    by (subst sq_find_loop.simps) (auto simp: sq_rep_def deref_def)
qed

definition index_of :: "int \<Rightarrow> int list \<Rightarrow> int" where
  "index_of v xs = (if xs = [] then - 1 else case find (\<lambda>k. xs ! k = v) [0..<length xs] of None \<Rightarrow> - 2 | Some k \<Rightarrow> int k)"

lemma find_rep: "sq_rep me xs \<Longrightarrow> sqlist_find me (Outside v) = Some (index_of v xs)"
  using find_loop_rep [of me xs 0 v] by (auto simp: sqlist_find_def sqlist_isempty_def index_of_def sq_rep_def)

lemma index_of_negative: "index_of v xs < 0 \<longleftrightarrow> v \<notin> set xs"
  by (auto simp: index_of_def find_None_iff find_Some_iff in_set_conv_nth split: option.splits)

lemma display_loop_rep:
  assumes "sq_rep me xs"
  shows "i \<le> length xs \<Longrightarrow> sq_display_loop (int i) me = Some (drop i xs)"
proof (induction "length xs - i" arbitrary: i)
  case 0
  then show ?case using assms by (simp add: sq_display_loop.simps sq_rep_def)
next
  case (Suc m)
  then have "drop i xs = xs ! i # drop (Suc i) xs" by (simp add: Cons_nth_drop_Suc)
  moreover have "sq_display_loop (int i + 1) me = sq_display_loop (int (Suc i)) me" by (simp add: add.commute)
  ultimately show ?case using Suc.hyps(1) [of "Suc i"] Suc.hyps(2) assms
    by (subst sq_display_loop.simps) (auto simp: sq_rep_def)
qed

lemma display_rep: "sq_rep me xs \<Longrightarrow> sqlist_display me = Some xs"
  using display_loop_rep [of me xs 0] by (auto simp: sqlist_display_def sq_rep_def)

text \<open>The union: new elements go to the front as long as there is room.\<close>

definition add_new :: "int \<Rightarrow> int list \<Rightarrow> int list" where
  "add_new v xs = (if v \<in> set xs \<or> length xs = DATASIZE then xs else v # xs)"

lemma union_loop_rep:
  assumes "sq_rep list2 ys"
  shows "sq_rep list1 xs \<Longrightarrow> i \<le> length ys \<Longrightarrow>
    \<exists>l. sq_union_loop (int i) list1 list2 = Some l \<and> sq_rep l (fold add_new (drop i ys) xs)"
proof (induction "length ys - i" arbitrary: i list1 xs)
  case 0
  then show ?case using assms by (simp add: sq_union_loop.simps sq_rep_def)
next
  case (Suc m)
  have d: "drop i ys = ys ! i # drop (Suc i) ys" "i < length ys" using Suc.hyps(2) by (simp_all add: Cons_nth_drop_Suc)
  have rd: "rdi (sdata list2) (int i) = Some (ys ! i)" "int i \<le> slast list2" using assms d(2) by (auto simp: sq_rep_def)
  let ?v = "ys ! i"
  have len: "length xs \<le> DATASIZE" using Suc.prems(1) by (simp add: sq_rep_def)
  obtain l where l: "(if index_of ?v xs < 0 then map_option snd (sqlist_insert list1 0 (Outside ?v)) else Some list1) = Some l"
      "sq_rep l (add_new ?v xs)"
  proof (cases "?v \<in> set xs \<or> length xs = DATASIZE")
    case True
    then have "sqlist_insert list1 0 (Outside ?v) = Some (- 1, list1)" if "?v \<notin> set xs"
      using that Suc.prems(1) by (simp add: sqlist_insert_def sq_rep_def)
    then show ?thesis using that [of list1] True Suc.prems(1) by (auto simp: index_of_negative add_new_def)
  next
    case False
    then show ?thesis using insert_rep [OF Suc.prems(1), of 0 "Outside ?v"] len that
      by (auto simp: index_of_negative add_new_def inserted_def)
  qed
  have "sq_union_loop (int i) list1 list2 = sq_union_loop (int (Suc i)) l list2"
    using rd l(1) find_rep [OF Suc.prems(1)] by (subst sq_union_loop.simps) (simp add: add.commute)
  then show ?case using Suc.hyps(1) [OF _ l(2), of "Suc i"] Suc.hyps(2) d by simp
qed

lemma fold_add_new:
  "length xs + length ys \<le> DATASIZE \<Longrightarrow> set (fold add_new ys xs) = set xs \<union> set ys \<and>
   (distinct xs \<longrightarrow> distinct (fold add_new ys xs)) \<and> length (fold add_new ys xs) \<le> length xs + length ys"
proof (induction ys arbitrary: xs)
  case (Cons y ys)
  have "length (add_new y xs) \<le> Suc (length xs)" by (simp add: add_new_def)
  moreover have "set (add_new y xs) = insert y (set xs)" "distinct xs \<longrightarrow> distinct (add_new y xs)"
    using Cons.prems by (auto simp: add_new_def)
  ultimately show ?case using Cons.IH [of "add_new y xs"] Cons.prems by auto
qed simp

section \<open>Properties\<close>

text \<open>
  The sequential list implements a list of at most 1024 elements: insertion at any place from the front to just behind
  the end, deletion, searching for the first equal element and display do what they do on lists; a full list
  and a place outside return -1 and -2 and change nothing.  A pointer into the list itself behind the
  place of insertion is read after the shift, so the element before the one pointed to is inserted.
\<close>
theorem sequential_list_is_a_list:
  assumes "sq_rep me xs"
  shows "(i \<le> length xs \<and> length xs < DATASIZE \<longrightarrow>
      (\<exists>me'. sqlist_insert me (int i) (Outside v) = Some (0, me') \<and> sq_rep me' (take i xs @ v # drop i xs)))
    \<and> (k < length xs \<and> i < k \<and> length xs < DATASIZE \<longrightarrow>
      (\<exists>me'. sqlist_insert me (int i) (Inside k) = Some (0, me') \<and> sq_rep me' (take i xs @ xs ! (k - 1) # drop i xs)))
    \<and> (length xs = DATASIZE \<longrightarrow> sqlist_insert me (int i) p = Some (- 1, me))
    \<and> (length xs < DATASIZE \<and> length xs < i \<longrightarrow> sqlist_insert me (int i) p = Some (- 2, me))
    \<and> (i < length xs \<longrightarrow> (\<exists>me'. sqlist_delete me (int i) = Some (0, me') \<and> sq_rep me' (take i xs @ drop (Suc i) xs)))
    \<and> (length xs \<le> i \<longrightarrow> sqlist_delete me (int i) = Some (- 1, me))
    \<and> sqlist_find me (Outside v) = Some (index_of v xs) \<and> sqlist_display me = Some xs"
  using insert_rep [OF assms, of i "Outside v"] insert_rep [OF assms, of i "Inside k"] delete_rep_sq [OF assms, of i]
    find_rep [OF assms, of v] display_rep [OF assms] assms
  by (auto simp: inserted_def sqlist_insert_def sqlist_delete_def sq_rep_def)

text \<open>
  \<open>sqlist_union\<close> makes the first list the union of both as long as their elements fit: it puts the elements it
  does not find in front, keeps a list without repetitions so, and returns 0.
\<close>
theorem sequential_list_union:
  assumes "sq_rep list1 xs" and "sq_rep list2 ys" and "length xs + length ys \<le> DATASIZE"
  shows "\<exists>l zs. sqlist_union list1 list2 = Some (0, l) \<and> sq_rep l zs \<and> set zs = set xs \<union> set ys
    \<and> (distinct xs \<longrightarrow> distinct zs)"
proof -
  obtain l where "sq_union_loop 0 list1 list2 = Some l" "sq_rep l (fold add_new ys xs)"
    using union_loop_rep [OF assms(2,1), of 0] by auto
  then show ?thesis using fold_add_new [OF assms(3)] by (auto simp: sqlist_union_def)
qed

section \<open>Witnesses\<close>

definition sq_of :: "int list \<Rightarrow> sqlist" where
  "sq_of xs = \<lparr>sdata = xs @ replicate (DATASIZE - length xs) 0, slast = int (length xs) - 1\<rparr>"

lemma sq_of_rep: "length xs \<le> DATASIZE \<Longrightarrow> sq_rep (sq_of xs) xs"
  by (simp add: sq_rep_def sq_of_def nth_append)

lemma sequential_list_is_a_list_witness:
  "\<exists>me'. sqlist_insert (sq_of [1, 2, 3]) 0 (Inside 2) = Some (0, me') \<and> sq_rep me' [2, 1, 2, 3]"
  using sequential_list_is_a_list [OF sq_of_rep, of "[1, 2, 3]" 0 0 2] by (simp add: DATASIZE_def)

lemma sequential_list_union_witness:
  "\<exists>l zs. sqlist_union (sq_of [1, 2]) (sq_of [2, 3]) = Some (0, l) \<and> sq_rep l zs \<and> set zs = {1, 2, 3}"
proof -
  have "sq_rep (sq_of [1, 2]) [1, 2]" "sq_rep (sq_of [2, 3]) [2, 3]" by (rule sq_of_rep; simp add: DATASIZE_def)+
  from sequential_list_union [OF this] show ?thesis by (fastforce simp: DATASIZE_def)
qed

end
