(* ===== verification/MyFtp.thy ===== *)
theory MyFtp
  imports Prelude "HOL-Library.Multiset" "HOL-Library.Sublist"
begin

text \<open>
  The file transfer over datagrams \<open>3.ybx/3.apue/10.ipc/3.socket/1.dgram/6.myftp_udp_fork_ack\<close>: \<open>server.c\<close>,
  \<open>client.c\<close>, \<open>myftp.h\<close>, \<open>proto3.h\<close>.  The client sends a path, the child that the server forks answers with
  numbered pieces of the file and waits for the acknowledgement of each.  Both sides are a state machine
  \<open>fsm_driver\<close> that is called for ever.  What the system calls return is an argument of each call; the network
  between the two holds the datagrams in flight, and which of its faults can happen is a parameter of the
  step relation.
\<close>

section \<open>Messages\<close>

definition MSGMAX :: nat where "MSGMAX = 512 - 20 - 8"
definition PATHSIZE :: nat where "PATHSIZE = MSGMAX - 8"
definition DATASIZE_FTP :: nat where "DATASIZE_FTP = MSGMAX - 8 - 4 - 4"

text \<open>A message is its type with the member of the union that belongs to it: \<open>datalen\<close>, \<open>data_num\<close>, \<open>data\<close>.\<close>

datatype msg_s2c = MSG_DATA nat int string | MSG_ACK int | MSG_EOT | MSG_ERR int | MSG_PATH string

datatype fstate = STATE_RCV | STATE_SEND | STATE_READ | STATE_OUTPUT | STATE_EX | STATE_T

text \<open>A system call returns, or fails with \<open>EINTR\<close> or another error number; a process goes on or exits, with a last state.\<close>

datatype 'a call = Done 'a | Interrupted | Failed int
datatype 'a process = Runs 'a | Exits int 'a

section \<open>The server\<close>

text \<open>An open file is what is still to be read from it; \<open>num\<close> and \<open>init\<close> are the static variables.\<close>

record server =
  sv_state :: fstate
  sv_num :: int
  sv_init :: bool
  sv_buf :: msg_s2c
  sv_fd :: string

record server_calls =
  sv_recv :: "msg_s2c call list"
  sv_open :: "string \<Rightarrow> int + string"
  sv_read :: "nat call"
  sv_send :: "unit call"

fun recv_loop :: "msg_s2c call list \<Rightarrow> msg_s2c call option" where
  "recv_loop [] = None"
| "recv_loop (Interrupted # rets) = recv_loop rets"
| "recv_loop (ret # rets) = Some ret"

definition server_switch :: "server_calls \<Rightarrow> server \<Rightarrow> (server process \<times> msg_s2c list) option" where
  "server_switch k fsm =
     (case sv_state fsm of
        STATE_RCV \<Rightarrow>
          (case sv_buf fsm of
             MSG_PATH path \<Rightarrow>
               (case sv_open k path of
                  Inl errno \<Rightarrow> Some (Runs (fsm\<lparr>sv_state := STATE_SEND, sv_buf := MSG_ERR errno\<rparr>), [])
                | Inr file \<Rightarrow> Some (Runs (fsm\<lparr>sv_fd := file, sv_init := True, sv_state := STATE_READ\<rparr>), []))
           | MSG_ACK ack \<Rightarrow>
               if ack \<noteq> sv_num fsm then Some (Exits (- 1) fsm, [])
               else do {
                 n \<leftarrow> chk (sv_num fsm + 1);
                 Some (Runs (fsm\<lparr>sv_state := STATE_READ, sv_num := n\<rparr>), []) }
           | _ \<Rightarrow> Some (Runs fsm, []))
      | STATE_READ \<Rightarrow>
          (case sv_read k of
             Interrupted \<Rightarrow> Some (Runs fsm, [])
           | Failed errno \<Rightarrow> Some (Runs (fsm\<lparr>sv_state := STATE_SEND, sv_buf := MSG_ERR errno\<rparr>), [])
           | Done len \<Rightarrow>
               if len = 0 then Some (Runs (fsm\<lparr>sv_state := STATE_SEND, sv_buf := MSG_EOT\<rparr>), [])
               else Some (Runs (fsm\<lparr>sv_state := STATE_SEND, sv_buf := MSG_DATA len (sv_num fsm) (take len (sv_fd fsm)),
                      sv_fd := drop len (sv_fd fsm)\<rparr>), []))
      | STATE_SEND \<Rightarrow>
          (case sv_send k of
             Interrupted \<Rightarrow> Some (Runs fsm, [])
           | Failed errno \<Rightarrow> Some (Runs (fsm\<lparr>sv_state := STATE_EX\<rparr>), [])
           | Done _ \<Rightarrow>
               (case sv_buf fsm of
                  MSG_DATA _ _ _ \<Rightarrow> Some (Runs (fsm\<lparr>sv_state := STATE_RCV\<rparr>), [sv_buf fsm])
                | MSG_ERR _ \<Rightarrow> Some (Exits 0 fsm, [sv_buf fsm])
                | MSG_EOT \<Rightarrow> Some (Exits 0 fsm, [sv_buf fsm])
                | _ \<Rightarrow> Some (Runs fsm, [sv_buf fsm])))
      | _ \<Rightarrow> Some (Exits 0 fsm, []))"

text \<open>A call of the server's \<open>fsm_driver\<close>: the process after it and what was sent.\<close>

definition server_driver :: "server_calls \<Rightarrow> server \<Rightarrow> (server process \<times> msg_s2c list) option" where
  "server_driver k fsm =
     (if sv_init fsm \<and> sv_state fsm = STATE_RCV then
        (case recv_loop (sv_recv k) of
           Some (Done m) \<Rightarrow> server_switch k (fsm\<lparr>sv_buf := m\<rparr>)
         | Some _ \<Rightarrow> Some (Exits 1 fsm, [])
         | None \<Rightarrow> Some (Runs fsm, []))
      else server_switch k fsm)"

text \<open>What the child that \<open>main\<close> forks for a datagram starts with.\<close>

definition server_child :: "msg_s2c \<Rightarrow> server" where
  "server_child m = \<lparr>sv_state = STATE_RCV, sv_num = 1, sv_init = False, sv_buf = m, sv_fd = []\<rparr>"

section \<open>The client\<close>

text \<open>\<open>cl_out\<close> is what of the file was written to the standard output, \<open>cl_err\<close> the errors reported there.\<close>

record client =
  cl_state :: fstate
  cl_buf :: msg_s2c
  cl_out :: string
  cl_err :: "int list"

record client_calls =
  cl_send :: "unit call"
  cl_recv :: "msg_s2c call"
  cl_write :: "nat call"

definition client_send :: "client_calls \<Rightarrow> client \<Rightarrow> client process \<times> msg_s2c list" where
  "client_send k fsm =
     (case cl_send k of
        Interrupted \<Rightarrow> (Runs fsm, [])
      | Failed errno \<Rightarrow> (Runs (fsm\<lparr>cl_state := STATE_EX\<rparr>), [])
      | Done _ \<Rightarrow> (Runs (fsm\<lparr>cl_state := STATE_RCV\<rparr>), [cl_buf fsm]))"

text \<open>A call of the client's \<open>fsm_driver\<close>.  For a message it cannot send, \<open>len\<close> is not set.\<close>

definition client_driver :: "client_calls \<Rightarrow> client \<Rightarrow> (client process \<times> msg_s2c list) option" where
  "client_driver k fsm =
     (case cl_state fsm of
        STATE_SEND \<Rightarrow>
          (case cl_buf fsm of
             MSG_PATH _ \<Rightarrow> Some (client_send k fsm)
           | MSG_ACK _ \<Rightarrow> Some (client_send k fsm)
           | _ \<Rightarrow> None)
      | STATE_RCV \<Rightarrow>
          (case cl_recv k of
             Interrupted \<Rightarrow> Some (Runs fsm, [])
           | Failed errno \<Rightarrow> Some (Runs (fsm\<lparr>cl_state := STATE_EX\<rparr>), [])
           | Done m \<Rightarrow>
               (let fsm = fsm\<lparr>cl_buf := m\<rparr> in
                case m of
                  MSG_DATA _ _ _ \<Rightarrow> Some (Runs (fsm\<lparr>cl_state := STATE_OUTPUT\<rparr>), [])
                | MSG_ERR _ \<Rightarrow> Some (Runs (fsm\<lparr>cl_state := STATE_OUTPUT\<rparr>), [])
                | MSG_EOT \<Rightarrow> Some (Runs (fsm\<lparr>cl_state := STATE_T\<rparr>), [])
                | _ \<Rightarrow> Some (Runs fsm, [])))
      | STATE_OUTPUT \<Rightarrow>
          (case cl_buf fsm of
             MSG_DATA datalen data_num data \<Rightarrow>
               (case cl_write k of
                  Interrupted \<Rightarrow> Some (Runs fsm, [])
                | Failed errno \<Rightarrow> Some (Runs (fsm\<lparr>cl_state := STATE_EX\<rparr>), [])
                | Done len \<Rightarrow>
                    if datalen \<le> length data
                    then Some (Runs (fsm\<lparr>cl_out := cl_out fsm @ take len data, cl_buf := MSG_ACK data_num,
                           cl_state := STATE_SEND\<rparr>), [])
                    else None)
           | MSG_ERR errno \<Rightarrow>
               (case cl_write k of
                  Interrupted \<Rightarrow> Some (Runs fsm, [])
                | Failed _ \<Rightarrow> Some (Runs (fsm\<lparr>cl_state := STATE_EX\<rparr>), [])
                | Done len \<Rightarrow> Some (Runs (fsm\<lparr>cl_err := cl_err fsm @ [errno], cl_state := STATE_T\<rparr>), []))
           | _ \<Rightarrow> Some (Runs fsm, []))
      | STATE_EX \<Rightarrow> Some (Runs (fsm\<lparr>cl_state := STATE_T\<rparr>), [])
      | _ \<Rightarrow> Some (Exits 0 fsm, []))"

text \<open>\<open>main\<close> copies the path into the message with \<open>strcpy\<close>.\<close>

definition client_start :: "string \<Rightarrow> client option" where
  "client_start path =
     (if length path < PATHSIZE then Some \<lparr>cl_state = STATE_SEND, cl_buf = MSG_PATH path, cl_out = [], cl_err = []\<rparr>
      else None)"

section \<open>Both sides and the network\<close>

text \<open>
  Datagrams on the way to the socket of the server, to the socket of its child and to the client.  The child is
  there once \<open>main\<close> of the server has received a datagram and forked.
\<close>

record world =
  cli :: "client process"
  srv :: "server process option"
  to_main :: "msg_s2c multiset"
  to_child :: "msg_s2c multiset"
  to_cli :: "msg_s2c multiset"

datatype fault = Loss | Dup | ShortWrite | Interrupt | Failure

text \<open>What system calls may return: interruptions, failures and short writes only where they are among the faults.\<close>

definition call_ok :: "fault set \<Rightarrow> 'a call \<Rightarrow> bool" where
  "call_ok faults c \<longleftrightarrow> (case c of Done _ \<Rightarrow> True | Interrupted \<Rightarrow> Interrupt \<in> faults | Failed _ \<Rightarrow> Failure \<in> faults)"

definition read_ok :: "string \<Rightarrow> nat call \<Rightarrow> bool" where
  "read_ok file c \<longleftrightarrow> (\<forall>n. c = Done n \<longrightarrow> n \<le> DATASIZE_FTP \<and> n \<le> length file \<and> (n = 0 \<longleftrightarrow> file = []))"

definition write_ok :: "fault set \<Rightarrow> msg_s2c \<Rightarrow> nat call \<Rightarrow> bool" where
  "write_ok faults m c \<longleftrightarrow>
     (\<forall>n l i d. c = Done n \<and> m = MSG_DATA l i d \<longrightarrow> n = l \<or> ShortWrite \<in> faults \<and> n \<le> l)"

definition is_path :: "msg_s2c \<Rightarrow> bool" where
  "is_path m \<longleftrightarrow> (case m of MSG_PATH _ \<Rightarrow> True | _ \<Rightarrow> False)"

definition emit_cli :: "client process \<Rightarrow> msg_s2c list \<Rightarrow> world \<Rightarrow> world" where
  "emit_cli p out w = w\<lparr>cli := p, to_main := to_main w + mset (filter is_path out),
     to_child := to_child w + mset (filter (\<lambda>m. \<not> is_path m) out)\<rparr>"

definition emit_srv :: "server process \<Rightarrow> msg_s2c list \<Rightarrow> world \<Rightarrow> world" where
  "emit_srv p out w = w\<lparr>srv := Some p, to_cli := to_cli w + mset out\<rparr>"

inductive ftp_step :: "(string \<Rightarrow> int + string) \<Rightarrow> fault set \<Rightarrow> world \<Rightarrow> world \<Rightarrow> bool" for files faults where
  ClientTurn: "cli w = Runs c \<Longrightarrow> cl_state c \<noteq> STATE_RCV \<Longrightarrow> call_ok faults (cl_send k) \<Longrightarrow> call_ok faults (cl_write k) \<Longrightarrow>
     write_ok faults (cl_buf c) (cl_write k) \<Longrightarrow> client_driver k c = Some (p, out) \<Longrightarrow>
     ftp_step files faults w (emit_cli p out w)"
| ClientReceives: "cli w = Runs c \<Longrightarrow> cl_state c = STATE_RCV \<Longrightarrow> m \<in># to_cli w \<Longrightarrow> cl_recv k = Done m \<Longrightarrow>
     client_driver k c = Some (p, out) \<Longrightarrow>
     ftp_step files faults w (emit_cli p out (w\<lparr>to_cli := to_cli w - {#m#}\<rparr>))"
| ClientFails: "cli w = Runs c \<Longrightarrow> cl_state c = STATE_RCV \<Longrightarrow> call_ok faults (cl_recv k) \<Longrightarrow>
     \<forall>m. cl_recv k \<noteq> Done m \<Longrightarrow> client_driver k c = Some (p, out) \<Longrightarrow>
     ftp_step files faults w (emit_cli p out w)"
| ServerForks: "srv w = None \<Longrightarrow> m \<in># to_main w \<Longrightarrow>
     ftp_step files faults w (w\<lparr>to_main := to_main w - {#m#}, srv := Some (Runs (server_child m))\<rparr>)"
| ServerTurn: "srv w = Some (Runs v) \<Longrightarrow> \<not> (sv_init v \<and> sv_state v = STATE_RCV) \<Longrightarrow> sv_open k = files \<Longrightarrow>
     call_ok faults (sv_send k) \<Longrightarrow> call_ok faults (sv_read k) \<Longrightarrow> read_ok (sv_fd v) (sv_read k) \<Longrightarrow>
     server_driver k v = Some (p, out) \<Longrightarrow> ftp_step files faults w (emit_srv p out w)"
| ServerReceives: "srv w = Some (Runs v) \<Longrightarrow> sv_init v \<Longrightarrow> sv_state v = STATE_RCV \<Longrightarrow> sv_open k = files \<Longrightarrow>
     m \<in># to_child w \<Longrightarrow> \<forall>c \<in> set breaks. c = Interrupted \<and> call_ok faults c \<Longrightarrow> sv_recv k = breaks @ [Done m] \<Longrightarrow>
     server_driver k v = Some (p, out) \<Longrightarrow>
     ftp_step files faults w (emit_srv p out (w\<lparr>to_child := to_child w - {#m#}\<rparr>))"
| ServerFails: "srv w = Some (Runs v) \<Longrightarrow> sv_init v \<Longrightarrow> sv_state v = STATE_RCV \<Longrightarrow> sv_recv k = [Failed e] \<Longrightarrow>
     call_ok faults (Failed e :: unit call) \<Longrightarrow> server_driver k v = Some (p, out) \<Longrightarrow>
     ftp_step files faults w (emit_srv p out w)"
| LoseToMain: "Loss \<in> faults \<Longrightarrow> m \<in># to_main w \<Longrightarrow> ftp_step files faults w (w\<lparr>to_main := to_main w - {#m#}\<rparr>)"
| LoseToChild: "Loss \<in> faults \<Longrightarrow> m \<in># to_child w \<Longrightarrow> ftp_step files faults w (w\<lparr>to_child := to_child w - {#m#}\<rparr>)"
| LoseToClient: "Loss \<in> faults \<Longrightarrow> m \<in># to_cli w \<Longrightarrow> ftp_step files faults w (w\<lparr>to_cli := to_cli w - {#m#}\<rparr>)"
| RepeatToClient: "Dup \<in> faults \<Longrightarrow> m \<in># to_cli w \<Longrightarrow> ftp_step files faults w (w\<lparr>to_cli := add_mset m (to_cli w)\<rparr>)"

text \<open>The server listens, nothing is in flight and the client is at its first call.\<close>

definition ftp_start :: "string \<Rightarrow> world option" where
  "ftp_start path = do {
     c \<leftarrow> client_start path;
     Some \<lparr>cli = Runs c, srv = None, to_main = {#}, to_child = {#}, to_cli = {#}\<rparr> }"

section \<open>Invariant: one token\<close>

text \<open>
  At any time at most one of the two sides is active or one datagram is in flight (\<open>tokens\<close>).  While there is
  one, what was written, what is on its way and what is still to be read make the file (\<open>behind\<close>).
\<close>

fun cl_of :: "client process \<Rightarrow> client" where
  "cl_of (Runs c) = c"
| "cl_of (Exits r c) = c"

definition cli_tokens :: "client process \<Rightarrow> nat" where
  "cli_tokens p = (case p of Runs c \<Rightarrow> if cl_state c = STATE_SEND \<or> cl_state c = STATE_OUTPUT then 1 else 0 | _ \<Rightarrow> 0)"

definition srv_tokens :: "server process option \<Rightarrow> nat" where
  "srv_tokens p = (case p of Some (Runs v) \<Rightarrow> if sv_state v = STATE_RCV \<and> sv_init v \<or> sv_state v = STATE_EX then 0 else 1 | _ \<Rightarrow> 0)"

definition tokens :: "world \<Rightarrow> nat" where
  "tokens w = cli_tokens (cli w) + srv_tokens (srv w) + size (to_main w) + size (to_child w) + size (to_cli w)"

definition behind :: "fault set \<Rightarrow> server process option \<Rightarrow> int \<Rightarrow> string \<Rightarrow> string \<Rightarrow> bool" where
  "behind faults p n got file \<longleftrightarrow> p \<noteq> None \<and> (Failure \<in> faults \<or> (\<exists>v. p = Some (Runs v))) \<and>
     (\<exists>rest. got @ rest = file \<and> (\<forall>v. p = Some (Runs v) \<longrightarrow> sv_init v \<and> sv_state v = STATE_RCV \<and> sv_num v = n \<and> sv_fd v = rest))"

text \<open>\<open>opened\<close>: opening the path gives this file, or fails, and then there is nothing to transfer.\<close>

definition opened :: "int + string \<Rightarrow> string \<Rightarrow> bool" where
  "opened r file \<longleftrightarrow> r = Inr file \<or> file = [] \<and> (\<exists>e. r = Inl e)"

text \<open>The error a client may report, and a client that is done.\<close>

definition error_ok :: "fault set \<Rightarrow> int + string \<Rightarrow> int \<Rightarrow> bool" where
  "error_ok faults r e \<longleftrightarrow> Failure \<in> faults \<or> r = Inl e"

definition client_done :: "int + string \<Rightarrow> client \<Rightarrow> bool" where
  "client_done r c \<longleftrightarrow> r = Inr (cl_out c) \<and> cl_err c = [] \<or> (\<exists>e. r = Inl e \<and> cl_err c = [e] \<and> cl_out c = [])"

definition cli_ok :: "fault set \<Rightarrow> int + string \<Rightarrow> string \<Rightarrow> string \<Rightarrow> server process option \<Rightarrow> client process \<Rightarrow> bool" where
  "cli_ok faults r path file p cp \<longleftrightarrow> prefix (cl_out (cl_of cp)) file \<and>
     (case cp of
        Exits _ c \<Rightarrow> Failure \<in> faults \<or> client_done r c
      | Runs c \<Rightarrow>
         (case cl_state c of
            STATE_SEND \<Rightarrow> cl_err c = [] \<and> (cl_buf c = MSG_PATH path \<and> p = None \<and> cl_out c = [] \<or>
              (\<exists>n. cl_buf c = MSG_ACK n \<and> behind faults p n (cl_out c) file))
          | STATE_OUTPUT \<Rightarrow> cl_err c = [] \<and> ((\<exists>n d. cl_buf c = MSG_DATA (length d) n d \<and> behind faults p n (cl_out c @ d) file) \<or>
              (\<exists>e. cl_buf c = MSG_ERR e \<and> error_ok faults r e))
          | STATE_RCV \<Rightarrow> cl_err c = []
          | STATE_EX \<Rightarrow> Failure \<in> faults
          | STATE_T \<Rightarrow> Failure \<in> faults \<or> client_done r c
          | STATE_READ \<Rightarrow> False))"

definition srv_ok :: "fault set \<Rightarrow> int + string \<Rightarrow> string \<Rightarrow> string \<Rightarrow> string \<Rightarrow> server process option \<Rightarrow> bool" where
  "srv_ok faults r path file got p \<longleftrightarrow>
     (\<forall>v. p = Some (Runs v) \<longrightarrow> 1 \<le> sv_num v \<and>
        (case sv_state v of
           STATE_RCV \<Rightarrow> if sv_init v then r = Inr file \<and> sv_num v + int (length (sv_fd v)) \<le> int (length file)
             else sv_buf v = MSG_PATH path \<and> sv_num v = 1 \<and> got = []
         | STATE_READ \<Rightarrow> sv_init v \<and> r = Inr file \<and> got @ sv_fd v = file \<and>
             sv_num v + int (length (sv_fd v)) \<le> int (length file) + 1
         | STATE_SEND \<Rightarrow>
             (\<exists>d. sv_buf v = MSG_DATA (length d) (sv_num v) d \<and> sv_init v \<and> r = Inr file \<and> got @ d @ sv_fd v = file \<and>
                sv_num v + int (length (sv_fd v)) \<le> int (length file)) \<or>
             sv_buf v = MSG_EOT \<and> r = Inr file \<and> got = file \<or>
             (\<exists>e. sv_buf v = MSG_ERR e \<and> error_ok faults r e)
         | STATE_EX \<Rightarrow> Failure \<in> faults
         | _ \<Rightarrow> False))"

definition net_ok :: "fault set \<Rightarrow> int + string \<Rightarrow> string \<Rightarrow> string \<Rightarrow> string \<Rightarrow> world \<Rightarrow> bool" where
  "net_ok faults r path file got w \<longleftrightarrow>
     (\<forall>m \<in># to_main w. m = MSG_PATH path \<and> srv w = None \<and> got = []) \<and>
     (\<forall>m \<in># to_child w. \<exists>n. m = MSG_ACK n \<and> behind faults (srv w) n got file) \<and>
     (\<forall>m \<in># to_cli w. (\<exists>n d. m = MSG_DATA (length d) n d \<and> behind faults (srv w) n (got @ d) file) \<or>
        m = MSG_EOT \<and> r = Inr file \<and> got = file \<or> (\<exists>e. m = MSG_ERR e \<and> error_ok faults r e))"

definition ftp_ok :: "fault set \<Rightarrow> (string \<Rightarrow> int + string) \<Rightarrow> string \<Rightarrow> string \<Rightarrow> world \<Rightarrow> bool" where
  "ftp_ok faults files path file w \<longleftrightarrow> tokens w \<le> 1 \<and> opened (files path) file \<and>
     cli_ok faults (files path) path file (srv w) (cli w) \<and>
     srv_ok faults (files path) path file (cl_out (cl_of (cli w))) (srv w) \<and>
     net_ok faults (files path) path file (cl_out (cl_of (cli w))) w"

lemma srv_ok_quiet:
  assumes "srv_tokens p = 0" "srv_ok faults r path file got p"
  shows "srv_ok faults r path file got' p"
  unfolding srv_ok_def
proof (intro allI impI)
  fix v
  assume v: "p = Some (Runs v)"
  then have "sv_state v = STATE_RCV \<and> sv_init v \<or> sv_state v = STATE_EX" using assms(1)
    by (simp add: srv_tokens_def split: if_splits)
  then show "1 \<le> sv_num v \<and> (case sv_state v of
           STATE_RCV \<Rightarrow> if sv_init v then r = Inr file \<and> sv_num v + int (length (sv_fd v)) \<le> int (length file)
             else sv_buf v = MSG_PATH path \<and> sv_num v = 1 \<and> got' = []
         | STATE_READ \<Rightarrow> sv_init v \<and> r = Inr file \<and> got' @ sv_fd v = file \<and>
             sv_num v + int (length (sv_fd v)) \<le> int (length file) + 1
         | STATE_SEND \<Rightarrow>
             (\<exists>d. sv_buf v = MSG_DATA (length d) (sv_num v) d \<and> sv_init v \<and> r = Inr file \<and> got' @ d @ sv_fd v = file \<and>
                sv_num v + int (length (sv_fd v)) \<le> int (length file)) \<or>
             sv_buf v = MSG_EOT \<and> r = Inr file \<and> got' = file \<or>
             (\<exists>e. sv_buf v = MSG_ERR e \<and> error_ok faults r e)
         | STATE_EX \<Rightarrow> Failure \<in> faults
         | _ \<Rightarrow> False)"
    using assms(2) v by (auto simp: srv_ok_def)
qed

lemma same_cli: "cli w = p \<Longrightarrow> w\<lparr>cli := p\<rparr> = w"
  by (cases w) simp

text \<open>What a call of each driver does, case by case.\<close>

lemma client_turn_cases:
  assumes "client_driver k c = Some (p, out)" "cl_state c \<noteq> STATE_RCV" "call_ok faults (cl_send k)"
    "call_ok faults (cl_write k)" "write_ok faults (cl_buf c) (cl_write k)" "ShortWrite \<notin> faults"
  obtains (same) "p = Runs c" "out = []" "Interrupt \<in> faults \<or> cl_state c = STATE_OUTPUT \<and> (\<forall>l n d e. cl_buf c \<noteq> MSG_DATA l n d \<and> cl_buf c \<noteq> MSG_ERR e)"
  | (dead) "p = Runs (c\<lparr>cl_state := STATE_EX\<rparr>)" "out = []" "Failure \<in> faults"
  | (sent) "cl_state c = STATE_SEND" "p = Runs (c\<lparr>cl_state := STATE_RCV\<rparr>)" "out = [cl_buf c]"
  | (wrote) l n d where "cl_state c = STATE_OUTPUT" "cl_buf c = MSG_DATA l n d" "l \<le> length d"
      "p = Runs (c\<lparr>cl_out := cl_out c @ take l d, cl_buf := MSG_ACK n, cl_state := STATE_SEND\<rparr>)" "out = []"
  | (told) e where "cl_state c = STATE_OUTPUT" "cl_buf c = MSG_ERR e"
      "p = Runs (c\<lparr>cl_err := cl_err c @ [e], cl_state := STATE_T\<rparr>)" "out = []"
  | (leave) "cl_state c = STATE_EX" "p = Runs (c\<lparr>cl_state := STATE_T\<rparr>)" "out = []"
  | (exit) "cl_state c = STATE_T \<or> cl_state c = STATE_READ" "p = Exits 0 c" "out = []"
proof (cases "cl_state c")
  case STATE_SEND
  then show ?thesis using assms same dead sent
    by (auto simp: client_driver_def client_send_def call_ok_def split: msg_s2c.splits call.splits)
next
  case STATE_OUTPUT
  show ?thesis
  proof (cases "cl_buf c")
    case (MSG_DATA l n d)
    show ?thesis
    proof (cases "cl_write k")
      case (Done len)
      then have "len = l" "l \<le> length d" "p = Runs (c\<lparr>cl_out := cl_out c @ take l d, cl_buf := MSG_ACK n, cl_state := STATE_SEND\<rparr>)" "out = []"
        using assms MSG_DATA STATE_OUTPUT by (auto simp: client_driver_def write_ok_def split: if_splits)
      then show ?thesis using wrote STATE_OUTPUT MSG_DATA by blast
    qed (use assms MSG_DATA STATE_OUTPUT same dead in \<open>auto simp: client_driver_def call_ok_def\<close>)
  next
    case (MSG_ERR e)
    then show ?thesis using assms STATE_OUTPUT same dead told
      by (cases "cl_write k") (auto simp: client_driver_def call_ok_def)
  qed (use assms STATE_OUTPUT same in \<open>auto simp: client_driver_def\<close>)
qed (use assms leave exit in \<open>auto simp: client_driver_def\<close>)

lemmas ok_defs = ftp_ok_def tokens_def cli_tokens_def cli_ok_def emit_cli_def net_ok_def

lemma client_turn_ok:
  assumes ok: "ftp_ok faults files path file w" and c: "cli w = Runs c" "cl_state c \<noteq> STATE_RCV"
    and calls: "call_ok faults (cl_send k)" "call_ok faults (cl_write k)" "write_ok faults (cl_buf c) (cl_write k)"
    and run: "client_driver k c = Some (p, out)" and full: "ShortWrite \<notin> faults"
  shows "ftp_ok faults files path file (emit_cli p out w)"
  using run c(2) calls full
proof (cases rule: client_turn_cases)
  case same
  then show ?thesis using ok same_cli [OF c(1)] by (simp add: emit_cli_def)
next
  case dead
  then show ?thesis using ok c by (auto simp: ok_defs split: if_splits)
next
  case sent
  then have quiet: "srv_tokens (srv w) = 0" "to_main w = {#}" "to_child w = {#}" "to_cli w = {#}"
    using ok c by (auto simp: ok_defs)
  show ?thesis using ok c sent quiet by (auto simp: ok_defs is_path_def)
next
  case (wrote l n d)
  then have quiet: "srv_tokens (srv w) = 0" "to_main w = {#}" "to_child w = {#}" "to_cli w = {#}"
    using ok c by (auto simp: ok_defs)
  have l: "l = length d" and b: "behind faults (srv w) n (cl_out c @ d) file" using ok c wrote by (auto simp: ok_defs)
  have "prefix (cl_out c @ d) file" using b by (auto simp: behind_def prefix_def)
  then show ?thesis using ok c wrote quiet l b srv_ok_quiet [OF quiet(1)] by (auto simp: ok_defs)
next
  case (told e)
  then have quiet: "srv_tokens (srv w) = 0" "to_main w = {#}" "to_child w = {#}" "to_cli w = {#}"
    using ok c by (auto simp: ok_defs)
  have "opened (files path) file" "prefix (cl_out c) file" using ok c by (auto simp: ok_defs)
  then have "Failure \<in> faults \<or> client_done (files path) (c\<lparr>cl_err := [e]\<rparr>)"
    using ok c told by (auto simp: ok_defs error_ok_def client_done_def opened_def)
  then show ?thesis using ok c told quiet by (auto simp: ok_defs client_done_def)
next
  case leave
  then show ?thesis using ok c by (auto simp: ok_defs)
next
  case exit
  then show ?thesis using ok c by (auto simp: ok_defs)
qed

lemma client_receives_ok:
  assumes ok: "ftp_ok faults files path file w" and c: "cli w = Runs c" "cl_state c = STATE_RCV" and m: "m \<in># to_cli w"
    and run: "client_driver k c = Some (p, out)" "cl_recv k = Done m"
  shows "ftp_ok faults files path file (emit_cli p out (w\<lparr>to_cli := to_cli w - {#m#}\<rparr>))"
proof -
  have one: "to_cli w = {#m#}" "srv_tokens (srv w) = 0" "to_main w = {#}" "to_child w = {#}"
  proof -
    obtain M where M: "to_cli w = add_mset m M" using m by (rule mset_add)
    moreover have "tokens w \<le> 1" using ok by (simp add: ftp_ok_def)
    ultimately show "to_cli w = {#m#}" "srv_tokens (srv w) = 0" "to_main w = {#}" "to_child w = {#}"
      by (simp_all add: tokens_def)
  qed
  have opened: "opened (files path) file" using ok by (simp add: ok_defs)
  from ok one(1) consider n d where "m = MSG_DATA (length d) n d" "behind faults (srv w) n (cl_out c @ d) file"
    | "m = MSG_EOT" "files path = Inr file" "cl_out c = file" | e where "m = MSG_ERR e" "error_ok faults (files path) e"
    using c by (auto simp: ok_defs)
  then show ?thesis
  proof cases
    case 1
    then show ?thesis using ok c run one by (auto simp: ok_defs client_driver_def)
  next
    case 2
    then show ?thesis using ok c run one by (auto simp: ok_defs client_driver_def client_done_def)
  next
    case 3
    then show ?thesis using ok c run one by (auto simp: ok_defs client_driver_def)
  qed
qed

lemma client_fails_ok:
  assumes ok: "ftp_ok faults files path file w" and c: "cli w = Runs c" "cl_state c = STATE_RCV"
    and run: "call_ok faults (cl_recv k)" "\<forall>m. cl_recv k \<noteq> Done m" "client_driver k c = Some (p, out)"
  shows "ftp_ok faults files path file (emit_cli p out w)"
proof (cases "cl_recv k")
  case Interrupted
  then have "p = Runs c" "out = []" using run c(2) by (auto simp: client_driver_def)
  then show ?thesis using ok same_cli [OF c(1)] by (simp add: emit_cli_def)
next
  case (Failed e)
  then show ?thesis using ok c run by (auto simp: ok_defs client_driver_def call_ok_def)
qed (use run in simp)

lemma server_forks_ok:
  assumes ok: "ftp_ok faults files path file w" and m: "srv w = None" "m \<in># to_main w"
  shows "ftp_ok faults files path file (w\<lparr>to_main := to_main w - {#m#}, srv := Some (Runs (server_child m))\<rparr>)"
proof -
  obtain M where M: "to_main w = add_mset m M" using m(2) by (rule mset_add)
  have "tokens w \<le> 1" using ok by (simp add: ftp_ok_def)
  then have one: "to_main w = {#m#}" "cli_tokens (cli w) = 0" "to_child w = {#}" "to_cli w = {#}"
    using M by (simp_all add: tokens_def)
  have "m = MSG_PATH path" "cl_out (cl_of (cli w)) = []" using ok one(1) by (auto simp: ok_defs)
  moreover have "cli_ok faults (files path) path file (Some (Runs (server_child m))) (cli w)"
    using ok one(2) by (auto simp: ftp_ok_def cli_ok_def cli_tokens_def split: process.splits fstate.splits if_splits)
  ultimately show ?thesis using ok one m(1)
    by (auto simp: ftp_ok_def tokens_def srv_ok_def srv_tokens_def net_ok_def server_child_def)
qed

lemma lose_ok:
  assumes ok: "ftp_ok faults files path file w"
  shows "ftp_ok faults files path file (w\<lparr>to_main := to_main w - {#m#}\<rparr>)"
    "ftp_ok faults files path file (w\<lparr>to_child := to_child w - {#m#}\<rparr>)"
    "ftp_ok faults files path file (w\<lparr>to_cli := to_cli w - {#m#}\<rparr>)"
proof -
  have "size (M - {#m#}) \<le> size M" for M :: "msg_s2c multiset" by (simp add: size_Diff_submset size_mset_mono)
  note le = this [of "to_main w"] this [of "to_child w"] this [of "to_cli w"]
  show "ftp_ok faults files path file (w\<lparr>to_main := to_main w - {#m#}\<rparr>)"
    "ftp_ok faults files path file (w\<lparr>to_child := to_child w - {#m#}\<rparr>)"
    "ftp_ok faults files path file (w\<lparr>to_cli := to_cli w - {#m#}\<rparr>)"
    using ok le by (auto simp: ftp_ok_def tokens_def net_ok_def dest: in_diffD)
qed

text \<open>The server.\<close>

lemma same_srv: "srv w = p \<Longrightarrow> w\<lparr>srv := p\<rparr> = w"
  by (cases w) simp

lemma server_turn_cases:
  assumes "server_driver k v = Some (p, out)" "\<not> (sv_init v \<and> sv_state v = STATE_RCV)"
    "call_ok faults (sv_send k)" "call_ok faults (sv_read k)" "read_ok (sv_fd v) (sv_read k)"
  obtains (same) "p = Runs v" "out = []" "Interrupt \<in> faults \<or> sv_state v = STATE_RCV \<and> \<not> is_path (sv_buf v)"
  | (opens) path str where "sv_state v = STATE_RCV" "sv_buf v = MSG_PATH path" "sv_open k path = Inr str"
      "p = Runs (v\<lparr>sv_fd := str, sv_init := True, sv_state := STATE_READ\<rparr>)" "out = []"
  | (refuses) path e where "sv_state v = STATE_RCV" "sv_buf v = MSG_PATH path" "sv_open k path = Inl e"
      "p = Runs (v\<lparr>sv_state := STATE_SEND, sv_buf := MSG_ERR e\<rparr>)" "out = []"
  | (other) "sv_state v = STATE_RCV" "\<not> is_path (sv_buf v)"
  | (reads) n where "sv_state v = STATE_READ" "0 < n" "n \<le> length (sv_fd v)"
      "p = Runs (v\<lparr>sv_state := STATE_SEND, sv_buf := MSG_DATA n (sv_num v) (take n (sv_fd v)), sv_fd := drop n (sv_fd v)\<rparr>)" "out = []"
  | (at_end) "sv_state v = STATE_READ" "sv_fd v = []" "p = Runs (v\<lparr>sv_state := STATE_SEND, sv_buf := MSG_EOT\<rparr>)" "out = []"
  | (fails) e where "sv_state v = STATE_READ" "Failure \<in> faults" "p = Runs (v\<lparr>sv_state := STATE_SEND, sv_buf := MSG_ERR e\<rparr>)" "out = []"
  | (dead) "sv_state v = STATE_SEND" "Failure \<in> faults" "p = Runs (v\<lparr>sv_state := STATE_EX\<rparr>)" "out = []"
  | (sent) "sv_state v = STATE_SEND" "out = [sv_buf v]"
      "p = (case sv_buf v of MSG_DATA _ _ _ \<Rightarrow> Runs (v\<lparr>sv_state := STATE_RCV\<rparr>) | MSG_ERR _ \<Rightarrow> Exits 0 v | MSG_EOT \<Rightarrow> Exits 0 v | _ \<Rightarrow> Runs v)"
  | (exit) "sv_state v = STATE_EX \<or> sv_state v = STATE_T \<or> sv_state v = STATE_OUTPUT" "p = Exits 0 v" "out = []"
proof -
  have turn: "server_switch k v = Some (p, out)" using assms(1,2) by (auto simp: server_driver_def)
  show ?thesis
  proof (cases "sv_state v")
    case STATE_RCV
    then show ?thesis using turn opens refuses other
      by (auto simp: server_switch_def is_path_def split: msg_s2c.splits sum.splits)
  next
    case STATE_SEND
    then show ?thesis using turn assms(3) same dead sent
      by (cases "sv_buf v"; cases "sv_send k") (auto simp: server_switch_def call_ok_def)
  next
    case STATE_READ
    then show ?thesis using turn assms(4,5) same reads at_end fails
      by (cases "sv_read k") (auto simp: server_switch_def call_ok_def read_ok_def split: if_splits)
  qed (use turn exit in \<open>auto simp: server_switch_def\<close>)
qed

lemma cli_ok_quiet: "cli_tokens cp = 0 \<Longrightarrow> cli_ok faults r path file p cp \<Longrightarrow> cli_ok faults r path file p' cp"
  by (simp add: cli_ok_def cli_tokens_def split: process.splits fstate.splits if_splits)

lemma behind_gone: "Failure \<in> faults \<Longrightarrow> behind faults p n got file \<Longrightarrow> behind faults (Some (Exits r v)) n got file"
  by (auto simp: behind_def)

lemma server_gone_ok:
  assumes "ftp_ok faults files path file w" "srv w \<noteq> None" "Failure \<in> faults"
  shows "ftp_ok faults files path file (w\<lparr>srv := Some (Exits r v)\<rparr>)"
proof -
  have "cli_ok faults (files path) path file (Some (Exits r v)) (cli w)"
    using assms by (auto simp: ftp_ok_def cli_ok_def dest: behind_gone split: process.splits fstate.splits)
  moreover have "net_ok faults (files path) path file (cl_out (cl_of (cli w))) (w\<lparr>srv := Some (Exits r v)\<rparr>)"
    using assms by (fastforce simp: ftp_ok_def net_ok_def dest: behind_gone)
  ultimately show ?thesis using assms(1) by (auto simp: ftp_ok_def tokens_def srv_tokens_def srv_ok_def)
qed

lemma server_turn_ok:
  assumes ok: "ftp_ok faults files path file w" and v: "srv w = Some (Runs v)" "\<not> (sv_init v \<and> sv_state v = STATE_RCV)"
    and calls: "sv_open k = files" "call_ok faults (sv_send k)" "call_ok faults (sv_read k)" "read_ok (sv_fd v) (sv_read k)"
    and run: "server_driver k v = Some (p, out)"
  shows "ftp_ok faults files path file (emit_srv p out w)"
proof -
  let ?got = "cl_out (cl_of (cli w))"
  note defs = ftp_ok_def tokens_def emit_srv_def net_ok_def srv_tokens_def
  have alive: "srv_ok faults (files path) path file ?got (Some (Runs v))" using ok v by (simp add: ftp_ok_def)
  show ?thesis
  proof (cases "sv_state v = STATE_EX")
    case True
    then have "p = Exits 0 v" "out = []" using run by (auto simp: server_driver_def server_switch_def)
    moreover have "Failure \<in> faults" using alive True by (simp add: srv_ok_def)
    ultimately show ?thesis using server_gone_ok [OF ok] v(1) by (simp add: emit_srv_def)
  next
    case False
    then have quiet: "cli_tokens (cli w) = 0" "to_main w = {#}" "to_child w = {#}" "to_cli w = {#}"
      using ok v by (auto simp: ftp_ok_def tokens_def srv_tokens_def)
    note cq = cli_ok_quiet [OF quiet(1)]
    from run v(2) calls(2-4) show ?thesis
    proof (cases rule: server_turn_cases)
      case same
      then show ?thesis using ok same_srv [OF v(1)] by (simp add: emit_srv_def)
    next
      case (reads n)
      then show ?thesis using ok v quiet alive cq by (auto simp: defs srv_ok_def)
    next
      case sent
      then show ?thesis using ok v quiet alive cq
        by (auto simp: defs srv_ok_def behind_def is_path_def split: msg_s2c.splits)
    qed (use ok v quiet alive cq False calls(1) in \<open>auto simp: defs srv_ok_def is_path_def error_ok_def opened_def\<close>)
  qed
qed

lemma recv_loop_breaks: "\<forall>c \<in> set breaks. c = Interrupted \<Longrightarrow> recv_loop (breaks @ [Done m]) = Some (Done m)"
  by (induction breaks) auto

lemma server_receives_ok:
  assumes ok: "ftp_ok faults files path file w" and v: "srv w = Some (Runs v)" "sv_init v" "sv_state v = STATE_RCV"
    and m: "m \<in># to_child w" "\<forall>c \<in> set breaks. c = Interrupted \<and> call_ok faults c" "sv_recv k = breaks @ [Done m]"
    and run: "server_driver k v = Some (p, out)"
  shows "ftp_ok faults files path file (emit_srv p out (w\<lparr>to_child := to_child w - {#m#}\<rparr>))"
proof -
  obtain M where M: "to_child w = add_mset m M" using m(1) by (rule mset_add)
  have "tokens w \<le> 1" using ok by (simp add: ftp_ok_def)
  then have one: "to_child w = {#m#}" "cli_tokens (cli w) = 0" "to_main w = {#}" "to_cli w = {#}"
    using M by (simp_all add: tokens_def)
  obtain n where n: "m = MSG_ACK n" "behind faults (srv w) n (cl_out (cl_of (cli w))) file" using ok one(1) by (auto simp: ftp_ok_def net_ok_def)
  have got: "n = sv_num v" "cl_out (cl_of (cli w)) @ sv_fd v = file" using n(2) v by (auto simp: behind_def)
  have "recv_loop (sv_recv k) = Some (Done m)" using recv_loop_breaks [of breaks m] m(2,3) by auto
  then have "Some (p, out) = do { i \<leftarrow> chk (sv_num v + 1); Some (Runs (v\<lparr>sv_buf := m, sv_state := STATE_READ, sv_num := i\<rparr>), []) }"
    using run v(2,3) n(1) got(1) by (simp add: server_driver_def server_switch_def)
  then have p: "p = Runs (v\<lparr>sv_buf := m, sv_state := STATE_READ, sv_num := sv_num v + 1\<rparr>)" "out = []"
    by (auto simp: chk_def split: bind_splits if_splits)
  have "files path = Inr file" "sv_num v + int (length (sv_fd v)) \<le> int (length file)" "1 \<le> sv_num v"
    using ok v by (auto simp: ftp_ok_def srv_ok_def)
  then show ?thesis using ok v one p got cli_ok_quiet [OF one(2)]
    by (auto simp: ftp_ok_def tokens_def emit_srv_def net_ok_def srv_tokens_def srv_ok_def)
qed

lemma server_fails_ok:
  assumes ok: "ftp_ok faults files path file w" and v: "srv w = Some (Runs v)" "sv_init v" "sv_state v = STATE_RCV"
    and run: "sv_recv k = [Failed e]" "server_driver k v = Some (p, out)" "call_ok faults (Failed e :: unit call)"
  shows "ftp_ok faults files path file (emit_srv p out w)"
proof -
  have "p = Exits 1 v" "out = []" "Failure \<in> faults" using run v by (auto simp: server_driver_def call_ok_def)
  then show ?thesis using server_gone_ok [OF ok] v(1) by (simp add: emit_srv_def)
qed

lemma ftp_step_ok:
  assumes "ftp_step files faults w w'" "ftp_ok faults files path file w" "ShortWrite \<notin> faults" "Dup \<notin> faults"
  shows "ftp_ok faults files path file w'"
  using assms(1)
proof cases
  case (ClientTurn c k p out)
  then show ?thesis using client_turn_ok assms(2,3) by blast
next
  case (ClientReceives c m k p out)
  then show ?thesis using client_receives_ok assms(2) by blast
next
  case (ClientFails c k p out)
  then show ?thesis using client_fails_ok assms(2) by blast
next
  case (ServerForks m)
  then show ?thesis using server_forks_ok assms(2) by blast
next
  case (ServerTurn v k p out)
  then show ?thesis using server_turn_ok assms(2) by blast
next
  case (ServerReceives v k m breaks p out)
  then show ?thesis using server_receives_ok assms(2) by blast
next
  case (ServerFails v k e p out)
  then show ?thesis using server_fails_ok assms(2) by blast
qed (use lose_ok assms in auto)

lemma ftp_start_ok:
  assumes "ftp_start path = Some w" "opened (files path) file"
  shows "ftp_ok faults files path file w"
  using assms by (auto simp: ftp_start_def client_start_def ftp_ok_def tokens_def cli_tokens_def srv_tokens_def
      cli_ok_def srv_ok_def net_ok_def split: bind_splits if_splits)

lemma ftp_run_ok:
  assumes "(ftp_step files faults)\<^sup>*\<^sup>* w w'" "ftp_ok faults files path file w" "ShortWrite \<notin> faults" "Dup \<notin> faults"
  shows "ftp_ok faults files path file w'"
  using assms by (induction rule: rtranclp_induct) (use ftp_step_ok in blast)+

text \<open>Without faults there is a token until the client leaves, and every step uses up weight.\<close>

definition live :: "world \<Rightarrow> bool" where
  "live w \<longleftrightarrow> tokens w = 1 \<or> (case cli w of Runs c \<Rightarrow> cl_state c = STATE_T | _ \<Rightarrow> True)"

definition left :: "string \<Rightarrow> server process option \<Rightarrow> nat" where
  "left file p = (case p of Some (Exits _ _) \<Rightarrow> 0 | Some (Runs v) \<Rightarrow> if sv_init v then length (sv_fd v) else length file
     | None \<Rightarrow> length file)"

definition msg_weight :: "msg_s2c \<Rightarrow> nat" where
  "msg_weight m = (case m of MSG_PATH _ \<Rightarrow> 9 | MSG_ACK _ \<Rightarrow> 6 | MSG_DATA _ _ _ \<Rightarrow> 9 | MSG_EOT \<Rightarrow> 2 | MSG_ERR _ \<Rightarrow> 3)"

definition cli_weight :: "client process \<Rightarrow> nat" where
  "cli_weight p = (case p of Exits _ _ \<Rightarrow> 0 | Runs c \<Rightarrow>
     (case cl_state c of STATE_RCV \<Rightarrow> 0 | STATE_SEND \<Rightarrow> msg_weight (cl_buf c) + 1 | STATE_OUTPUT \<Rightarrow> msg_weight (cl_buf c) - 1 | STATE_EX \<Rightarrow> 2 | _ \<Rightarrow> 1))"

definition srv_weight :: "server process option \<Rightarrow> nat" where
  "srv_weight p = (case p of Some (Runs v) \<Rightarrow>
     (case sv_state v of STATE_RCV \<Rightarrow> if sv_init v then 0 else 8 | STATE_READ \<Rightarrow> 5 | STATE_SEND \<Rightarrow> msg_weight (sv_buf v) + 1 | _ \<Rightarrow> 1) | _ \<Rightarrow> 0)"

definition ftp_weight :: "string \<Rightarrow> world \<Rightarrow> nat" where
  "ftp_weight file w = 8 * left file (srv w) + cli_weight (cli w) + srv_weight (srv w) +
     sum_mset (image_mset msg_weight (to_main w + to_child w + to_cli w))"

lemmas weight_defs = ftp_weight_def left_def cli_weight_def srv_weight_def live_def tokens_def cli_tokens_def srv_tokens_def

lemma call_ok_none [simp]: "call_ok {} c \<longleftrightarrow> (\<exists>x. c = Done x)"
  by (cases c) (auto simp: call_ok_def)

lemma no_short: "ShortWrite \<notin> {}"
  by simp

lemma client_turn_less:
  assumes ok: "ftp_ok {} files path file w" "live w" and c: "cli w = Runs c" "cl_state c \<noteq> STATE_RCV"
    and calls: "call_ok {} (cl_send k)" "call_ok {} (cl_write k)" "write_ok {} (cl_buf c) (cl_write k)"
    and run: "client_driver k c = Some (p, out)"
  shows "live (emit_cli p out w) \<and> ftp_weight file (emit_cli p out w) < ftp_weight file w"
  using run c(2) calls no_short
proof (cases rule: client_turn_cases [where faults = "{}"])
  case same
  then show ?thesis using ok c by (auto simp: ftp_ok_def cli_ok_def)
next
  case sent
  then show ?thesis using ok c by (auto simp: weight_defs emit_cli_def ftp_ok_def cli_ok_def is_path_def)
next
  case (wrote l n d)
  then show ?thesis using ok c by (auto simp: weight_defs emit_cli_def msg_weight_def)
next
  case (told e)
  then show ?thesis using ok c by (auto simp: weight_defs emit_cli_def msg_weight_def)
next
  case leave
  then show ?thesis using ok c by (auto simp: ftp_ok_def cli_ok_def)
next
  case exit
  then show ?thesis using ok c by (auto simp: weight_defs emit_cli_def ftp_ok_def cli_ok_def)
qed auto

lemma client_receives_less:
  assumes ok: "ftp_ok {} files path file w" "live w" and c: "cli w = Runs c" "cl_state c = STATE_RCV" and m: "m \<in># to_cli w"
    and run: "client_driver k c = Some (p, out)" "cl_recv k = Done m"
  shows "live (emit_cli p out (w\<lparr>to_cli := to_cli w - {#m#}\<rparr>)) \<and>
    ftp_weight file (emit_cli p out (w\<lparr>to_cli := to_cli w - {#m#}\<rparr>)) < ftp_weight file w"
proof -
  obtain M where M: "to_cli w = add_mset m M" using m by (rule mset_add)
  then consider l n d where "m = MSG_DATA l n d" | "m = MSG_EOT" | e where "m = MSG_ERR e"
    using ok(1) by (auto simp: ftp_ok_def net_ok_def)
  then show ?thesis
    by cases (use ok c run M in \<open>auto simp: weight_defs emit_cli_def client_driver_def msg_weight_def ftp_ok_def\<close>)
qed

lemma server_forks_less:
  assumes ok: "ftp_ok {} files path file w" "live w" and m: "srv w = None" "m \<in># to_main w"
  shows "live (w\<lparr>to_main := to_main w - {#m#}, srv := Some (Runs (server_child m))\<rparr>) \<and>
    ftp_weight file (w\<lparr>to_main := to_main w - {#m#}, srv := Some (Runs (server_child m))\<rparr>) < ftp_weight file w"
proof -
  obtain M where M: "to_main w = add_mset m M" using m(2) by (rule mset_add)
  then have "m = MSG_PATH path" using ok(1) by (auto simp: ftp_ok_def net_ok_def)
  then show ?thesis using ok m M by (auto simp: weight_defs server_child_def msg_weight_def ftp_ok_def split: process.splits if_splits)
qed

lemma server_turn_less:
  assumes ok: "ftp_ok {} files path file w" "live w" and v: "srv w = Some (Runs v)" "\<not> (sv_init v \<and> sv_state v = STATE_RCV)"
    and calls: "sv_open k = files" "call_ok {} (sv_send k)" "call_ok {} (sv_read k)" "read_ok (sv_fd v) (sv_read k)"
    and run: "server_driver k v = Some (p, out)"
  shows "live (emit_srv p out w) \<and> ftp_weight file (emit_srv p out w) < ftp_weight file w"
proof -
  have alive: "srv_ok {} (files path) path file (cl_out (cl_of (cli w))) (Some (Runs v))" "opened (files path) file"
    using ok v by (simp_all add: ftp_ok_def)
  have one: "tokens w = 1" using ok v alive by (auto simp: weight_defs srv_ok_def ftp_ok_def split: if_splits)
  from run v(2) calls(2-4) show ?thesis
  proof (cases rule: server_turn_cases [where faults = "{}"])
    case (opens path' str)
    then show ?thesis using v calls(1) alive one by (auto simp: weight_defs emit_srv_def srv_ok_def opened_def)
  next
    case (refuses path' e)
    then show ?thesis using v calls(1) alive one by (auto simp: weight_defs emit_srv_def srv_ok_def opened_def msg_weight_def)
  next
    case (reads n)
    then show ?thesis using v alive one by (auto simp: weight_defs emit_srv_def srv_ok_def msg_weight_def)
  next
    case sent
    then show ?thesis using v alive one
      by (auto simp: weight_defs emit_srv_def srv_ok_def msg_weight_def split: msg_s2c.splits)
  next
    case at_end
    then show ?thesis using v alive one by (auto simp: weight_defs emit_srv_def srv_ok_def msg_weight_def)
  qed (use v alive in \<open>auto simp: srv_ok_def is_path_def\<close>)
qed

lemma server_receives_less:
  assumes ok: "ftp_ok {} files path file w" "live w" and v: "srv w = Some (Runs v)" "sv_init v" "sv_state v = STATE_RCV"
    and m: "m \<in># to_child w" "\<forall>c \<in> set breaks. c = Interrupted \<and> call_ok {} c" "sv_recv k = breaks @ [Done m]"
    and run: "server_driver k v = Some (p, out)"
  shows "live (emit_srv p out (w\<lparr>to_child := to_child w - {#m#}\<rparr>)) \<and>
    ftp_weight file (emit_srv p out (w\<lparr>to_child := to_child w - {#m#}\<rparr>)) < ftp_weight file w"
proof -
  obtain M where M: "to_child w = add_mset m M" using m(1) by (rule mset_add)
  then obtain n where n: "m = MSG_ACK n" "behind {} (srv w) n (cl_out (cl_of (cli w))) file" using ok by (auto simp: ftp_ok_def net_ok_def)
  then have got: "n = sv_num v" using v by (auto simp: behind_def)
  have "recv_loop (sv_recv k) = Some (Done m)" using recv_loop_breaks [of breaks m] m(2,3) by auto
  then have "Some (p, out) = do { i \<leftarrow> chk (sv_num v + 1); Some (Runs (v\<lparr>sv_buf := m, sv_state := STATE_READ, sv_num := i\<rparr>), []) }"
    using run v(2,3) n(1) got(1) by (simp add: server_driver_def server_switch_def)
  then have p: "p = Runs (v\<lparr>sv_buf := m, sv_state := STATE_READ, sv_num := sv_num v + 1\<rparr>)" "out = []"
    by (auto simp: chk_def split: bind_splits if_splits)
  show ?thesis using ok v M p n(1) by (auto simp: weight_defs emit_srv_def msg_weight_def ftp_ok_def split: process.splits if_splits)
qed

lemma ftp_step_less:
  assumes "ftp_step files {} w w'" "ftp_ok {} files path file w" "live w"
  shows "live w' \<and> ftp_weight file w' < ftp_weight file w"
  using assms(1)
proof cases
  case (ClientTurn c k p out)
  then show ?thesis using client_turn_less assms(2,3) by blast
next
  case (ClientReceives c m k p out)
  then show ?thesis using client_receives_less assms(2,3) by blast
next
  case (ServerForks m)
  then show ?thesis using server_forks_less assms(2,3) by blast
next
  case (ServerTurn v k p out)
  then show ?thesis using server_turn_less assms(2,3) by blast
next
  case (ServerReceives v k m breaks p out)
  then show ?thesis using server_receives_less assms(2,3) by blast
qed auto

lemma client_driver_total:
  assumes "cli_ok {} r path file p (Runs c)" "cl_state c \<noteq> STATE_RCV"
  shows "\<exists>k p out. call_ok {} (cl_send k) \<and> call_ok {} (cl_write k) \<and> write_ok {} (cl_buf c) (cl_write k) \<and> client_driver k c = Some (p, out)"
proof -
  let ?k = "\<lparr>cl_send = Done (), cl_recv = Done MSG_EOT, cl_write = Done (case cl_buf c of MSG_DATA l _ _ \<Rightarrow> l | _ \<Rightarrow> 0)\<rparr>"
  have "client_driver ?k c \<noteq> None" using assms
    by (auto simp: cli_ok_def client_driver_def split: fstate.splits)
  moreover have "call_ok {} (cl_send ?k) \<and> call_ok {} (cl_write ?k) \<and> write_ok {} (cl_buf c) (cl_write ?k)"
    by (auto simp: write_ok_def)
  ultimately show ?thesis by (metis not_None_eq surj_pair)
qed

lemma client_receive_total: "cl_state c = STATE_RCV \<Longrightarrow> \<exists>k p out. cl_recv k = Done m \<and> client_driver k c = Some (p, out)"
  by (rule exI [of _ "\<lparr>cl_send = Done (), cl_recv = Done m, cl_write = Done 0\<rparr>"])
    (simp add: client_driver_def Let_def split: msg_s2c.split)

lemma server_driver_total:
  assumes "srv_ok {} r path file got (Some (Runs v))" "\<not> (sv_init v \<and> sv_state v = STATE_RCV)"
  shows "\<exists>k p out. sv_open k = files \<and> call_ok {} (sv_send k) \<and> call_ok {} (sv_read k) \<and> read_ok (sv_fd v) (sv_read k) \<and>
    server_driver k v = Some (p, out)"
proof -
  let ?k = "\<lparr>sv_recv = [], sv_open = files, sv_read = Done (min (length (sv_fd v)) DATASIZE_FTP), sv_send = Done ()\<rparr>"
  have "server_driver ?k v \<noteq> None" using assms
    by (auto simp: srv_ok_def server_driver_def server_switch_def split: fstate.splits msg_s2c.splits sum.splits)
  moreover have "read_ok (sv_fd v) (sv_read ?k)" by (auto simp: read_ok_def min_def DATASIZE_FTP_def MSGMAX_def)
  ultimately show ?thesis by (intro exI [of _ ?k]) auto
qed

lemma ftp_stuck:
  assumes ok: "ftp_ok {} files path file w" "live w" and small: "length file < 2 ^ 31 - 1" and stuck: "\<nexists>w'. ftp_step files {} w w'"
  shows "\<exists>r c. cli w = Exits r c \<and> client_done (files path) c"
proof (cases "cli w")
  case (Exits r c)
  then show ?thesis using ok by (auto simp: ftp_ok_def cli_ok_def)
next
  case (Runs c)
  have c: "cli_ok {} (files path) path file (srv w) (Runs c)" and p: "srv_ok {} (files path) path file (cl_out c) (srv w)"
    using ok Runs by (auto simp: ftp_ok_def)
  have rcv: "cl_state c = STATE_RCV"
    using client_driver_total [OF c] ClientTurn [OF Runs] stuck by blast
  then have one: "srv_tokens (srv w) + size (to_main w) + size (to_child w) + size (to_cli w) = 1"
    using ok(2) Runs by (simp add: live_def tokens_def cli_tokens_def)
  have cl: "to_cli w = {#}"
  proof (rule ccontr)
    assume "to_cli w \<noteq> {#}"
    then obtain m where "m \<in># to_cli w" by (auto simp: multiset_nonemptyE)
    then show False using ClientReceives [OF Runs rcv] client_receive_total [OF rcv] stuck by blast
  qed
  have mn: "to_main w = {#}"
  proof (rule ccontr)
    assume "to_main w \<noteq> {#}"
    then obtain m where m: "m \<in># to_main w" by (auto simp: multiset_nonemptyE)
    then have "srv w = None" using ok(1) by (auto simp: ftp_ok_def net_ok_def)
    then show False using ServerForks [OF _ m] stuck by blast
  qed
  have "srv_tokens (srv w) = 0"
  proof (rule ccontr)
    assume "srv_tokens (srv w) \<noteq> 0"
    then obtain v where v: "srv w = Some (Runs v)" "\<not> (sv_init v \<and> sv_state v = STATE_RCV)"
      by (auto simp: srv_tokens_def split: option.splits process.splits if_splits)
    show False using server_driver_total [OF p [unfolded v(1)] v(2), of files] ServerTurn [OF v] stuck by blast
  qed
  then obtain m where m: "m \<in># to_child w" using one cl mn by (cases "to_child w") auto
  then obtain n where n: "m = MSG_ACK n" "behind {} (srv w) n (cl_out c) file" using ok(1) Runs by (auto simp: ftp_ok_def net_ok_def)
  then obtain v where v: "srv w = Some (Runs v)" "sv_init v" "sv_state v = STATE_RCV" "sv_num v = n" by (auto simp: behind_def)
  let ?k = "\<lparr>sv_recv = [] @ [Done m], sv_open = files, sv_read = Done 0, sv_send = Done ()\<rparr>"
  have "int_range (sv_num v + 1)" using p v small by (auto simp: srv_ok_def int_range_def)
  then have "\<exists>p out. server_driver ?k v = Some (p, out)" using v n(1) by (simp add: server_driver_def server_switch_def chk_def)
  then show ?thesis using ServerReceives [OF v(1-3) _ m, of ?k files "[]"] stuck by fastforce
qed

lemma ftp_run_less:
  assumes "(ftp_step files {} ^^ n) w w'" "ftp_ok {} files path file w" "live w"
  shows "ftp_ok {} files path file w' \<and> live w' \<and> n + ftp_weight file w' \<le> ftp_weight file w"
  using assms
proof (induction n arbitrary: w')
  case (Suc n)
  obtain m where m: "(ftp_step files {} ^^ n) w m" "ftp_step files {} m w'" using Suc.prems(1) by auto
  have IH: "ftp_ok {} files path file m" "live m" "n + ftp_weight file m \<le> ftp_weight file w" using Suc.IH m(1) Suc.prems by blast+
  show ?case using ftp_step_ok [OF m(2) IH(1)] ftp_step_less [OF m(2) IH(1,2)] IH(3) by auto
qed simp

section \<open>The transfer\<close>


text \<open>
  C4. The transfer ends: where the network and the system calls work, a run has at most \<open>8 * length file + 10\<close> calls and
  deliveries, and where no further one is possible, the client has left with the whole file, or with nothing but
  the error number when the file could not be opened.  The file has less than \<open>2 ^ 31 - 1\<close> bytes, which keeps
  the number of the pieces an \<open>int\<close>.
\<close>
theorem ftp_transfer_ends:
  assumes "ftp_start path = Some w0" "files path = Inr file \<or> file = [] \<and> files path = Inl e" "length file < 2 ^ 31 - 1"
    "(ftp_step files {} ^^ n) w0 w"
  shows "n \<le> 8 * length file + 10 \<and>
    ((\<exists>w'. ftp_step files {} w w') \<or>
     (\<exists>r c. cli w = Exits r c \<and> cl_out c = file \<and> cl_err c = (case files path of Inl e \<Rightarrow> [e] | Inr _ \<Rightarrow> [])))"
proof -
  have opened: "opened (files path) file" using assms(2) by (auto simp: opened_def)
  have w0: "live w0" "ftp_weight file w0 = 8 * length file + 10"
    using assms(1) by (auto simp: ftp_start_def client_start_def weight_defs msg_weight_def split: bind_splits if_splits)
  have run: "ftp_ok {} files path file w" "live w" "n + ftp_weight file w \<le> ftp_weight file w0"
    using ftp_run_less [OF assms(4) ftp_start_ok [where files = files and path = path, OF assms(1) opened] w0(1)] by auto
  moreover have "\<exists>r c. cli w = Exits r c \<and> cl_out c = file \<and> cl_err c = (case files path of Inl e \<Rightarrow> [e] | Inr _ \<Rightarrow> [])"
    if "\<nexists>w'. ftp_step files {} w w'"
    using ftp_stuck [OF run(1,2) assms(3) that] assms(2) by (auto simp: client_done_def)
  ultimately show ?thesis using w0(2) by auto
qed

text \<open>A run that transfers the file \<open>x\<close> of the path \<open>f\<close>, up to the first acknowledgement.\<close>

definition sample_files :: "string \<Rightarrow> int + string" where
  "sample_files path = (if path = ''f'' then Inr ''x'' else Inl 2)"

definition at_client :: "fstate \<Rightarrow> msg_s2c \<Rightarrow> string \<Rightarrow> client process" where
  "at_client st m out = Runs \<lparr>cl_state = st, cl_buf = m, cl_out = out, cl_err = []\<rparr>"

definition at_server :: "fstate \<Rightarrow> bool \<Rightarrow> msg_s2c \<Rightarrow> string \<Rightarrow> server process option" where
  "at_server st i m fd = Some (Runs \<lparr>sv_state = st, sv_num = 1, sv_init = i, sv_buf = m, sv_fd = fd\<rparr>)"

definition net :: "client process \<Rightarrow> server process option \<Rightarrow> msg_s2c multiset \<Rightarrow> msg_s2c multiset \<Rightarrow> msg_s2c multiset \<Rightarrow> world" where
  "net c p tm tc tk = \<lparr>cli = c, srv = p, to_main = tm, to_child = tc, to_cli = tk\<rparr>"

lemma client_step:
  assumes "c \<noteq> STATE_RCV" "client_driver \<lparr>cl_send = Done (), cl_recv = Done MSG_EOT, cl_write = Done 1\<rparr>
      \<lparr>cl_state = c, cl_buf = m, cl_out = out, cl_err = []\<rparr> = Some (q, ms)" "\<And>l i d. m = MSG_DATA l i d \<Longrightarrow> l = 1"
  shows "ftp_step files faults (net (at_client c m out) p tm tc tk) (emit_cli q ms (net (at_client c m out) p tm tc tk))"
  by (rule ClientTurn [OF _ _ _ _ _ assms(2)]) (use assms in \<open>auto simp: net_def at_client_def call_ok_def write_ok_def\<close>)

lemma server_step:
  assumes "\<not> (i \<and> st = STATE_RCV)" "server_driver \<lparr>sv_recv = [], sv_open = files, sv_read = Done (length fd), sv_send = Done ()\<rparr>
      \<lparr>sv_state = st, sv_num = 1, sv_init = i, sv_buf = m, sv_fd = fd\<rparr> = Some (q, ms)" "length fd \<le> 1"
  shows "ftp_step files faults (net c (at_server st i m fd) tm tc tk) (emit_srv q ms (net c (at_server st i m fd) tm tc tk))"
  by (rule ServerTurn [OF _ _ _ _ _ _ assms(2)])
    (use assms in \<open>auto simp: net_def at_server_def call_ok_def read_ok_def DATASIZE_FTP_def MSGMAX_def\<close>)

lemma client_takes:
  assumes "l = 1 \<or> l = 2"
  shows "ftp_step files faults (net (at_client STATE_RCV m out) p tm tc (add_mset (MSG_DATA l n d) tk))
    (net (at_client STATE_OUTPUT (MSG_DATA l n d) out) p tm tc tk)"
  using ClientReceives [where w = "net (at_client STATE_RCV m out) p tm tc (add_mset (MSG_DATA l n d) tk)"
      and k = "\<lparr>cl_send = Done (), cl_recv = Done (MSG_DATA l n d), cl_write = Done 1\<rparr>" and m = "MSG_DATA l n d"
      and c = "\<lparr>cl_state = STATE_RCV, cl_buf = m, cl_out = out, cl_err = []\<rparr>"]
  by (simp add: net_def at_client_def client_driver_def emit_cli_def)

lemma sample_run:
  "(ftp_step sample_files faults ^^ 6) (net (at_client STATE_SEND (MSG_PATH ''f'') []) None {#} {#} {#})
     (net (at_client STATE_OUTPUT (MSG_DATA 1 1 ''x'') []) (at_server STATE_RCV True (MSG_DATA 1 1 ''x'') []) {#} {#} {#})"
  (is "(?step ^^ 6) ?w0 ?w6")
proof -
  let ?c = "at_client STATE_RCV (MSG_PATH ''f'') []"
  have "?step ?w0 (net ?c None {#MSG_PATH ''f''#} {#} {#})"
    using client_step [of STATE_SEND "MSG_PATH ''f''" "[]"]
    by (simp add: client_driver_def client_send_def emit_cli_def net_def at_client_def is_path_def)
  moreover have "?step (net ?c None {#MSG_PATH ''f''#} {#} {#}) (net ?c (at_server STATE_RCV False (MSG_PATH ''f'') []) {#} {#} {#})"
    using ServerForks [of "net ?c None {#MSG_PATH ''f''#} {#} {#}" "MSG_PATH ''f''"] by (simp add: net_def at_server_def server_child_def)
  moreover have "?step (net ?c (at_server STATE_RCV False (MSG_PATH ''f'') []) {#} {#} {#}) (net ?c (at_server STATE_READ True (MSG_PATH ''f'') ''x'') {#} {#} {#})"
    using server_step [of False STATE_RCV sample_files "[]" "MSG_PATH ''f''"]
    by (simp add: server_driver_def server_switch_def sample_files_def emit_srv_def net_def at_server_def)
  moreover have "?step (net ?c (at_server STATE_READ True (MSG_PATH ''f'') ''x'') {#} {#} {#}) (net ?c (at_server STATE_SEND True (MSG_DATA 1 1 ''x'') []) {#} {#} {#})"
    using server_step [of True STATE_READ sample_files "''x''" "MSG_PATH ''f''"]
    by (simp add: server_driver_def server_switch_def emit_srv_def net_def at_server_def)
  moreover have "?step (net ?c (at_server STATE_SEND True (MSG_DATA 1 1 ''x'') []) {#} {#} {#}) (net ?c (at_server STATE_RCV True (MSG_DATA 1 1 ''x'') []) {#} {#} {#MSG_DATA 1 1 ''x''#})"
    using server_step [of True STATE_SEND sample_files "[]" "MSG_DATA 1 1 ''x''"]
    by (simp add: server_driver_def server_switch_def emit_srv_def net_def at_server_def)
  moreover have "?step (net ?c (at_server STATE_RCV True (MSG_DATA 1 1 ''x'') []) {#} {#} {#MSG_DATA 1 1 ''x''#}) ?w6"
    using client_takes [of 1] by simp
  ultimately show ?thesis by (simp add: numeral_eq_Suc relcompp.simps) blast
qed


theorem ftp_transfer_ends_witness:
  "\<exists>w'. ftp_step sample_files {} (net (at_client STATE_OUTPUT (MSG_DATA 1 1 ''x'') []) (at_server STATE_RCV True (MSG_DATA 1 1 ''x'') []) {#} {#} {#}) w'"
proof -
  have start: "ftp_start ''f'' = Some (net (at_client STATE_SEND (MSG_PATH ''f'') []) None {#} {#} {#})"
    by (simp add: ftp_start_def client_start_def net_def at_client_def PATHSIZE_def MSGMAX_def)
  have "sample_files ''f'' = Inr ''x'' \<or> ''x'' = [] \<and> sample_files ''f'' = Inl 2" by (simp add: sample_files_def)
  from ftp_transfer_ends [where files = sample_files and path = "''f''", OF start this _ sample_run]
  show ?thesis by (auto simp: net_def at_client_def)
qed

lemma client_writes_piece:
  assumes h: "cli w = Runs c" "cl_state c = STATE_RCV" "MSG_DATA (length d) n d \<in># to_cli w"
  shows "\<exists>w'. (ftp_step files faults)\<^sup>*\<^sup>* w w' \<and> to_cli w' = to_cli w - {#MSG_DATA (length d) n d#} \<and>
     cli w' = Runs (c\<lparr>cl_buf := MSG_ACK n, cl_state := STATE_SEND, cl_out := cl_out c @ d\<rparr>)"
proof -
  let ?k = "\<lparr>cl_send = Done (), cl_recv = Done (MSG_DATA (length d) n d), cl_write = Done (length d)\<rparr>"
  let ?w = "emit_cli (Runs (c\<lparr>cl_buf := MSG_DATA (length d) n d, cl_state := STATE_OUTPUT\<rparr>)) [] (w\<lparr>to_cli := to_cli w - {#MSG_DATA (length d) n d#}\<rparr>)"
  have "ftp_step files faults w ?w"
    by (rule ClientReceives [OF h, of ?k]) (simp_all add: client_driver_def h)
  moreover have "ftp_step files faults ?w (emit_cli (Runs (c\<lparr>cl_buf := MSG_ACK n, cl_state := STATE_SEND, cl_out := cl_out c @ d\<rparr>)) [] ?w)"
    by (rule ClientTurn [of _ "c\<lparr>cl_buf := MSG_DATA (length d) n d, cl_state := STATE_OUTPUT\<rparr>" _ ?k])
      (simp_all add: client_driver_def emit_cli_def call_ok_def write_ok_def)
  ultimately show ?thesis by (intro exI conjI) (rule converse_rtranclp_into_rtranclp, assumption, erule r_into_rtranclp, simp_all add: emit_cli_def)
qed

text \<open>
  Where the network repeats datagrams, the client repeats data: it never looks at the number of a piece, so a
  piece that arrives twice is written and acknowledged twice.
\<close>
theorem ftp_repeats_pieces:
  assumes "Dup \<in> faults" "cli w = Runs c" "cl_state c = STATE_RCV" "MSG_DATA (length d) n d \<in># to_cli w"
  shows "\<exists>w'. (ftp_step files faults)\<^sup>*\<^sup>* w w' \<and> cl_out (cl_of (cli w')) = cl_out c @ d @ d \<and>
    (\<exists>c'. cli w' = Runs c' \<and> cl_state c' = STATE_SEND \<and> cl_buf c' = MSG_ACK n)"
proof -
  let ?m = "MSG_DATA (length d) n d"
  have "ftp_step files faults w (w\<lparr>to_cli := add_mset ?m (to_cli w)\<rparr>)" by (rule RepeatToClient [OF assms(1,4)])
  moreover obtain w2 c2 where w2: "(ftp_step files faults)\<^sup>*\<^sup>* (w\<lparr>to_cli := add_mset ?m (to_cli w)\<rparr>) w2" "to_cli w2 = to_cli w"
      "cli w2 = Runs c2" "c2 = c\<lparr>cl_buf := MSG_ACK n, cl_state := STATE_SEND, cl_out := cl_out c @ d\<rparr>"
    using client_writes_piece [of "w\<lparr>to_cli := add_mset ?m (to_cli w)\<rparr>" c d n files faults] assms by auto
  moreover have "ftp_step files faults w2 (emit_cli (Runs (c2\<lparr>cl_state := STATE_RCV\<rparr>)) [MSG_ACK n] w2)"
    by (rule ClientTurn [OF w2(3), of _ "\<lparr>cl_send = Done (), cl_recv = Done ?m, cl_write = Done 0\<rparr>"])
      (simp_all add: w2(4) client_driver_def client_send_def call_ok_def write_ok_def)
  moreover obtain w4 where "(ftp_step files faults)\<^sup>*\<^sup>* (emit_cli (Runs (c2\<lparr>cl_state := STATE_RCV\<rparr>)) [MSG_ACK n] w2) w4"
      "cli w4 = Runs (c2\<lparr>cl_buf := MSG_ACK n, cl_state := STATE_SEND, cl_out := cl_out c2 @ d\<rparr>)"
    using client_writes_piece [of "emit_cli (Runs (c2\<lparr>cl_state := STATE_RCV\<rparr>)) [MSG_ACK n] w2" "c2\<lparr>cl_state := STATE_RCV\<rparr>" d n files faults]
      assms(4) w2(2) by (auto simp: emit_cli_def)
  ultimately have "(ftp_step files faults)\<^sup>*\<^sup>* w w4" "cli w4 = Runs (c2\<lparr>cl_buf := MSG_ACK n, cl_state := STATE_SEND, cl_out := cl_out c2 @ d\<rparr>)"
    by (meson converse_rtranclp_into_rtranclp rtranclp_trans)+
  then show ?thesis using w2(4) by auto
qed

theorem ftp_repeats_pieces_witness:
  "\<exists>w'. (ftp_step sample_files {Dup})\<^sup>*\<^sup>*
      (net (at_client STATE_RCV (MSG_PATH ''f'') []) (at_server STATE_RCV True (MSG_DATA 1 1 ''x'') []) {#} {#} {#MSG_DATA 1 1 ''x''#}) w' \<and>
    cl_out (cl_of (cli w')) = ''xx'' \<and> \<not> prefix ''xx'' ''x''"
  using ftp_repeats_pieces [of "{Dup}" "net (at_client STATE_RCV (MSG_PATH ''f'') []) (at_server STATE_RCV True (MSG_DATA 1 1 ''x'') []) {#} {#} {#MSG_DATA 1 1 ''x''#}" _ "''x''" 1 sample_files]
  by (auto simp: net_def at_client_def)

end
