(* ===== verification/DeleteLine.thy ===== *)
theory DeleteLine
  imports Prelude
begin

text \<open>
  The program \<open>3.ybx/3.apue/0.homework/2.delete_tenline/delete.c\<close>, which deletes a line of a file in place: it reads
  the file through one descriptor and writes each line over the one before it through another.  A file is the
  list of its bytes, a descriptor an offset; the file is a regular one, so that reading does not fail.
\<close>

section \<open>The program\<close>

text \<open>Writing a byte at an offset, in the file or behind its end.\<close>

definition write_at :: "string \<Rightarrow> nat \<Rightarrow> char \<Rightarrow> string" where
  "write_at file pos c =
     (if pos < length file then file[pos := c] else file @ replicate (pos - length file) (CHR 0x00) @ [c])"

text \<open>\<open>get_fliesize\<close>, \<open>get_rownum\<close> and \<open>get_rowsize\<close> read the file from its beginning; counters are of type \<open>int\<close>.\<close>

fun size_loop :: "string \<Rightarrow> int \<Rightarrow> int option" where
  "size_loop [] sz = Some sz"
| "size_loop (c # file) sz = do { s \<leftarrow> chk (sz + 1); size_loop file s }"

definition get_fliesize :: "string \<Rightarrow> int option" where
  "get_fliesize file = size_loop file 0"

fun rownum_loop :: "string \<Rightarrow> int \<Rightarrow> int option" where
  "rownum_loop [] rownum = Some rownum"
| "rownum_loop (c # file) rownum =
     (if c = CHR 0x0A then do { r \<leftarrow> chk (rownum + 1); rownum_loop file r } else rownum_loop file rownum)"

definition get_rownum :: "string \<Rightarrow> int option" where
  "get_rownum file = rownum_loop file 0"

fun rowsize_loop :: "string \<Rightarrow> int \<Rightarrow> int \<Rightarrow> int \<Rightarrow> int option" where
  "rowsize_loop [] want_row current_row sz = Some 0"
| "rowsize_loop (c # file) want_row current_row sz = do {
     sz1 \<leftarrow> chk (sz + 1);
     if c = CHR 0x0A then do {
       row \<leftarrow> chk (current_row + 1);
       if want_row = row then Some sz1 else rowsize_loop file want_row row 0 }
     else rowsize_loop file want_row current_row sz1 }"

definition get_rowsize :: "string \<Rightarrow> int \<Rightarrow> int option" where
  "get_rowsize file want_row = rowsize_loop file want_row 0 0"

text \<open>\<open>get_line\<close> gives its return code and leaves the descriptor at an offset: the end, or the beginning of the row.\<close>

fun line_loop :: "string \<Rightarrow> int \<Rightarrow> nat \<Rightarrow> int \<Rightarrow> int \<Rightarrow> (int \<times> nat) option" where
  "line_loop [] want_row pos row_num word_num = Some (- 1, pos)"
| "line_loop (c # file) want_row pos row_num word_num = do {
     word \<leftarrow> chk (word_num + 1);
     if c = CHR 0x0A then do {
       row \<leftarrow> chk (row_num + 1);
       if row = want_row then Some (1, nat (int (Suc pos) - word))
       else line_loop file want_row (Suc pos) row 0 }
     else line_loop file want_row (Suc pos) row_num word }"

definition get_line :: "string \<Rightarrow> int \<Rightarrow> (int \<times> nat) option" where
  "get_line file want_row = line_loop file want_row 0 0 0"

text \<open>
  The inner loop of \<open>main\<close> copies a line from the offset of \<open>fd1\<close> to that of \<open>fd2\<close>; it gives whether it ended at
  the end of the file.  Nothing in the loops bounds them, so \<open>None\<close> also stands for not ending.
\<close>

partial_function (option) copy_loop :: "string \<Rightarrow> nat \<Rightarrow> nat \<Rightarrow> (bool \<times> string) option" where
  "copy_loop file fd1 fd2 =
     (if fd1 \<ge> length file then Some (True, file)
      else let c = file ! fd1; file1 = write_at file fd2 c in
        if c = CHR 0x0A then Some (False, file1) else copy_loop file1 (Suc fd1) (Suc fd2))"

partial_function (option) delete_loop :: "string \<Rightarrow> int \<Rightarrow> int \<Rightarrow> bool \<Rightarrow> (bool \<times> string) option" where
  "delete_loop file big_line small_line need_truncate = do {
     (ret1, fd1) \<leftarrow> get_line file big_line;
     if ret1 < 0 then Some (need_truncate, file)
     else do {
       (ret2, fd2) \<leftarrow> get_line file small_line;
       if ret2 < 0 then Some (need_truncate, file)
       else do {
         (eof, file1) \<leftarrow> copy_loop file fd1 fd2;
         if eof then Some (True, file1)
         else do {
           big \<leftarrow> chk (big_line + 1);
           small \<leftarrow> chk (small_line + 1);
           delete_loop file1 big small True } } } }"

text \<open>\<open>main\<close> with the results of the two calls of \<open>open\<close>: exit code and file.  \<open>ftruncate\<close> leaves the file for a negative size.\<close>

definition delete_main :: "bool \<Rightarrow> bool \<Rightarrow> string \<Rightarrow> (int \<times> string) option" where
  "delete_main open1 open2 file =
     (if \<not> open1 \<or> \<not> open2 then Some (1, file)
      else do {
        (need_truncate, file1) \<leftarrow> delete_loop file 3 2 False;
        if need_truncate then do {
          total_size \<leftarrow> get_fliesize file1;
          row_num \<leftarrow> get_rownum file1;
          lastrow_size \<leftarrow> get_rowsize file1 row_num;
          Some (0, if total_size - lastrow_size < 0 then file1 else take (nat (total_size - lastrow_size)) file1) }
        else Some (0, file1) })"

section \<open>Lines\<close>

text \<open>A line ends in a newline and has no other.\<close>

definition is_line :: "string \<Rightarrow> bool" where
  "is_line l \<longleftrightarrow> (\<exists>t. l = t @ [CHR 0x0A] \<and> CHR 0x0A \<notin> set t)"

lemma size_loop_length: "n + int (length bs) < 2 ^ 31 \<Longrightarrow> 0 \<le> n \<Longrightarrow> size_loop bs n = Some (n + int (length bs))"
  by (induction bs arbitrary: n) (auto simp: chk_def int_range_def)

lemma rownum_loop_count:
  "n + int (length bs) < 2 ^ 31 \<Longrightarrow> 0 \<le> n \<Longrightarrow> rownum_loop bs n = Some (n + int (count_list bs (CHR 0x0A)))"
  by (induction bs arbitrary: n) (auto simp: chk_def int_range_def)

lemma rowsize_loop_total:
  "row + int (length bs) < 2 ^ 31 \<Longrightarrow> n + int (length bs) < 2 ^ 31 \<Longrightarrow> 0 \<le> row \<Longrightarrow> 0 \<le> n \<Longrightarrow>
   \<exists>s. rowsize_loop bs want row n = Some s \<and> 0 \<le> s"
  by (induction bs arbitrary: row n) (auto simp: chk_def int_range_def)

lemma is_line_nonempty: "is_line l \<Longrightarrow> l \<noteq> []"
  by (auto simp: is_line_def)

lemma is_line_length: "is_line l \<Longrightarrow> 1 \<le> length l"
  by (auto simp: is_line_def)

lemma is_line_Cons: "is_line (c # l) \<longleftrightarrow> (if c = CHR 0x0A then l = [] else is_line l)"
  by (cases l rule: rev_cases) (auto simp: is_line_def Cons_eq_append_conv)

lemma is_line_drop: "is_line l \<Longrightarrow> n < length l \<Longrightarrow> is_line (drop n l)"
  by (auto simp: is_line_def dest: in_set_dropD)

lemma split_lines: "\<exists>ls t. bs = concat ls @ t \<and> (\<forall>l \<in> set ls. is_line l) \<and> CHR 0x0A \<notin> set t"
proof (induction bs)
  case (Cons c bs)
  then obtain ls t where IH: "bs = concat ls @ t" "\<forall>l \<in> set ls. is_line l" "CHR 0x0A \<notin> set t" by blast
  show ?case
  proof (cases "c = CHR 0x0A")
    case True
    then show ?thesis using IH by (intro exI [of _ "[c] # ls"] exI [of _ t]) (auto simp: is_line_def)
  next
    case False
    show ?thesis
    proof (cases ls)
      case Nil
      then show ?thesis using IH False by (intro exI [of _ "[]"] exI [of _ "c # t"]) auto
    next
      case (Cons l ls')
      then show ?thesis using IH False by (intro exI [of _ "(c # l) # ls'"] exI [of _ t]) (auto simp: is_line_Cons)
    qed
  qed
qed (intro exI [of _ "[]"], simp)

text \<open>One line read by the loops of \<open>get_line\<close> and \<open>get_rowsize\<close>.\<close>

lemma line_loop_line:
  assumes "is_line l" "row + 1 < 2 ^ 31" "0 \<le> row" "0 \<le> w" "w \<le> int pos" "w + int (length l) < 2 ^ 31"
  shows "line_loop (l @ bs) want pos row w =
    (if want = row + 1 then Some (1, nat (int pos - w)) else line_loop bs want (pos + length l) (row + 1) 0)"
  using assms
proof (induction l arbitrary: pos w)
  case (Cons c l)
  show ?case
  proof (cases "c = CHR 0x0A")
    case True
    then show ?thesis using Cons.prems by (auto simp: is_line_Cons chk_def int_range_def)
  next
    case False
    then show ?thesis using Cons.IH [of "w + 1" "Suc pos"] Cons.prems by (auto simp: is_line_Cons chk_def int_range_def)
  qed
qed (simp add: is_line_def)

lemma line_loop_tail:
  "CHR 0x0A \<notin> set t \<Longrightarrow> 0 \<le> w \<Longrightarrow> w + int (length t) < 2 ^ 31 \<Longrightarrow> line_loop t want pos row w = Some (- 1, pos + length t)"
  by (induction t arbitrary: pos w) (auto simp: chk_def int_range_def)

lemma lines_length: "\<forall>l \<in> set ls. is_line l \<Longrightarrow> length ls \<le> length (concat ls)"
proof (induction ls)
  case (Cons l ls)
  then show ?case using is_line_length [of l] by simp
qed simp

lemma line_loop_lines:
  assumes "\<forall>l \<in> set ls. is_line l" "CHR 0x0A \<notin> set t" "row + int (length (concat ls @ t)) < 2 ^ 31" "0 \<le> row" "row < want"
  shows "line_loop (concat ls @ t) want pos row 0 =
    (if nat (want - row) \<le> length ls then Some (1, pos + length (concat (take (nat (want - row) - 1) ls)))
     else Some (- 1, pos + length (concat ls @ t)))"
  using assms
proof (induction ls arbitrary: pos row)
  case Nil
  then show ?case using line_loop_tail [of t 0 want pos row] by simp
next
  case (Cons l ls)
  have "1 \<le> length l" using Cons.prems(1) is_line_length by auto
  then have step: "line_loop (concat (l # ls) @ t) want pos row 0 =
     (if want = row + 1 then Some (1, pos) else line_loop (concat ls @ t) want (pos + length l) (row + 1) 0)"
    using line_loop_line [of l row 0 pos "concat ls @ t" want] Cons.prems by simp
  show ?case
  proof (cases "want = row + 1")
    case False
    obtain k where k: "nat (want - row) = Suc (Suc k)" "nat (want - (row + 1)) = Suc k"
      using False Cons.prems(5) that [of "nat (want - row - 2)"] by linarith
    show ?thesis using step False k Cons.IH [of "row + 1" "pos + length l"] Cons.prems \<open>1 \<le> length l\<close> by auto
  qed (use step in simp)
qed

lemma get_line_lines:
  assumes "bs = concat ls @ t" "\<forall>l \<in> set ls. is_line l" "CHR 0x0A \<notin> set t" "length bs < 2 ^ 31" "1 \<le> n"
  shows "get_line bs (int n) = Some (if n \<le> length ls then (1, length (concat (take (n - 1) ls))) else (- 1, length bs))"
  using line_loop_lines [OF assms(2,3), of 0 "int n" 0] assms by (auto simp: get_line_def)

lemma rowsize_loop_line:
  assumes "is_line l" "row + 1 < 2 ^ 31" "0 \<le> row" "0 \<le> w" "w + int (length l) < 2 ^ 31"
  shows "rowsize_loop (l @ bs) want row w =
    (if want = row + 1 then Some (w + int (length l)) else rowsize_loop bs want (row + 1) 0)"
  using assms
proof (induction l arbitrary: w)
  case (Cons c l)
  show ?case
  proof (cases "c = CHR 0x0A")
    case True
    then show ?thesis using Cons.prems by (auto simp: is_line_Cons chk_def int_range_def)
  next
    case False
    then show ?thesis using Cons.IH [of "w + 1"] Cons.prems by (auto simp: is_line_Cons chk_def int_range_def)
  qed
qed (simp add: is_line_def)

lemma rowsize_last:
  assumes "\<forall>l \<in> set ls. is_line l" "is_line r" "row + int (length (concat ls @ r)) < 2 ^ 31" "0 \<le> row"
  shows "rowsize_loop (concat ls @ r) (row + int (length ls) + 1) row 0 = Some (int (length r))"
  using assms
proof (induction ls arbitrary: row)
  case Nil
  then show ?case using rowsize_loop_line [of r row 0 "[]"] is_line_length [of r] by simp
next
  case (Cons l ls)
  have "1 \<le> length l" using Cons.prems(1) is_line_length by auto
  then show ?case using rowsize_loop_line [of l row 0 "concat ls @ r"] Cons.IH [of "row + 1"] Cons.prems
    by (simp add: algebra_simps)
qed

lemma newlines_lines: "\<forall>l \<in> set ls. is_line l \<Longrightarrow> count_list (concat ls) (CHR 0x0A) = length ls"
proof (induction ls)
  case (Cons l ls)
  then obtain t where "l = t @ [CHR 0x0A]" "CHR 0x0A \<notin> set t" by (auto simp: is_line_def)
  then show ?case using Cons by (simp add: count_notin)
qed simp

text \<open>Copying a line \<open>l\<close> over the bytes from a gap \<open>g\<close> before it on.\<close>

lemma copy_loop_line:
  assumes "is_line l" "g \<noteq> []"
  shows "copy_loop (a @ g @ l @ b) (length a + length g) (length a) = Some (False, a @ l @ drop (length l) (g @ l) @ b)"
  using assms
proof (induction l arbitrary: a g)
  case (Cons c l)
  obtain x g' where g: "g = x # g'" using Cons.prems(2) by (cases g) auto
  have w: "write_at (a @ g @ (c # l) @ b) (length a) c = (a @ [c]) @ (g' @ [c]) @ l @ b"
    by (simp add: write_at_def g)
  have c: "(a @ g @ (c # l) @ b) ! (length a + length g) = c" by (simp add: nth_append)
  show ?case
  proof (cases "c = CHR 0x0A")
    case True
    then show ?thesis using Cons.prems(1) c w by (subst copy_loop.simps) (simp add: is_line_Cons g Let_def)
  next
    case False
    then have "is_line l" using Cons.prems(1) by (simp add: is_line_Cons)
    then have "copy_loop ((a @ [c]) @ (g' @ [c]) @ l @ b) (length (a @ [c]) + length (g' @ [c])) (length (a @ [c])) =
        Some (False, (a @ [c]) @ l @ drop (length l) ((g' @ [c]) @ l) @ b)" by (intro Cons.IH) simp_all
    then show ?thesis using False c w by (subst copy_loop.simps) (simp add: g Let_def)
  qed
qed (simp add: is_line_def)

section \<open>The loop of main\<close>

text \<open>A turn of the loop copies line \<open>n + 2\<close> over the beginning of line \<open>n + 1\<close>, or ends it.\<close>

lemma delete_loop_turn:
  assumes "\<forall>l \<in> set (ls @ g # l # ms). is_line l" "CHR 0x0A \<notin> set t" "length (concat (ls @ g # l # ms) @ t) < 2 ^ 31 - 1"
  shows "delete_loop (concat (ls @ g # l # ms) @ t) (int (length ls) + 2) (int (length ls) + 1) need =
    delete_loop (concat ls @ l @ drop (length l) (g @ l) @ concat ms @ t) (int (length ls) + 3) (int (length ls) + 2) True"
proof -
  let ?L = "ls @ g # l # ms"
  have len: "length ?L \<le> length (concat ?L)" by (rule lines_length [OF assms(1)])
  have "get_line (concat ?L @ t) (int (length ls + 2)) = Some (1, length (concat ls) + length g)"
    using get_line_lines [OF refl assms(1,2), of "length ls + 2"] assms(3) by simp
  moreover have "get_line (concat ?L @ t) (int (length ls + 1)) = Some (1, length (concat ls))"
    using get_line_lines [OF refl assms(1,2), of "length ls + 1"] assms(3) by simp
  moreover have "copy_loop (concat ?L @ t) (length (concat ls) + length g) (length (concat ls)) =
      Some (False, concat ls @ l @ drop (length l) (g @ l) @ concat ms @ t)"
    using copy_loop_line [of l g "concat ls" "concat ms @ t"] assms(1) is_line_nonempty [of g] by simp
  moreover have "int_range (int (length ls) + 3)" "int_range (int (length ls) + 2)"
    using len assms(3) by (simp_all add: int_range_def)
  ultimately show ?thesis by (subst delete_loop.simps) (simp add: chk_def algebra_simps)
qed

lemma delete_loop_stops:
  assumes "bs = concat ls @ t" "\<forall>l \<in> set ls. is_line l" "CHR 0x0A \<notin> set t" "length bs < 2 ^ 31" "length ls < n" "1 \<le> n"
  shows "delete_loop bs (int n) small need = Some (need, bs)"
  using get_line_lines [OF assms(1-4,6)] assms(5) by (subst delete_loop.simps) simp

lemma delete_loop_ends:
  assumes "length bs < 2 ^ 31 - 1"
  shows "\<exists>nt bs'. delete_loop bs (int n + 2) (int n + 1) need = Some (nt, bs') \<and> length bs' = length bs"
  using assms
proof (induction "length bs - n" arbitrary: bs n need rule: less_induct)
  case less
  obtain ks t where bs: "bs = concat ks @ t" "\<forall>l \<in> set ks. is_line l" "CHR 0x0A \<notin> set t" using split_lines by blast
  show ?case
  proof (cases "length ks < n + 2")
    case True
    then show ?thesis using delete_loop_stops [OF bs, of "n + 2"] less.prems by (auto simp: algebra_simps)
  next
    case False
    define ls where "ls = take n ks"
    obtain g l ms where ks: "ks = ls @ g # l # ms"
    proof -
      have "drop n ks = ks ! n # ks ! Suc n # drop (Suc (Suc n)) ks" using False by (simp add: Cons_nth_drop_Suc)
      then show ?thesis using that [of "ks ! n" "ks ! Suc n" "drop (Suc (Suc n)) ks"] append_take_drop_id [of n ks] by (simp add: ls_def)
    qed
    have n: "length ls = n" using False by (simp add: ls_def)
    have small: "n < length bs" using lines_length [OF bs(2)] bs(1) False by simp
    define bs1 where "bs1 = concat ls @ l @ drop (length l) (g @ l) @ concat ms @ t"
    have len: "length bs1 = length bs" by (simp add: bs1_def bs(1) ks)
    have "delete_loop bs (int n + 2) (int n + 1) need = delete_loop bs1 (int (Suc n) + 2) (int (Suc n) + 1) True"
      using delete_loop_turn [of ls g l ms t need] bs less.prems ks n by (simp add: bs1_def algebra_simps)
    then show ?thesis using less.hyps [of bs1 "Suc n" True] small less.prems len by simp
  qed
qed

lemma delete_loop_lines:
  assumes "\<forall>l \<in> set (ks @ ls). is_line l" "is_line r" "\<forall>l \<in> set ls. length r \<le> length l"
    "length (concat ks @ r @ concat ls) < 2 ^ 31 - 1"
  shows "\<exists>r'. is_line r' \<and> length r' = length r \<and>
    delete_loop (concat ks @ r @ concat ls) (int (length ks) + 2) (int (length ks) + 1) need =
      Some (need \<or> ls \<noteq> [], concat ks @ concat ls @ r')"
  using assms
proof (induction ls arbitrary: ks r need)
  case Nil
  then show ?case using delete_loop_stops [of "concat ks @ r" "ks @ [r]" "[]" "length ks + 2"]
    by (intro exI [of _ r]) (simp add: algebra_simps)
next
  case (Cons l ls)
  let ?r = "drop (length l) (r @ l)"
  have r: "is_line ?r" "length ?r = length r"
    using Cons.prems(1,2,3) is_line_drop [of l "length l - length r"] is_line_length [of r] by auto
  have "\<exists>r'. is_line r' \<and> length r' = length ?r \<and>
      delete_loop (concat (ks @ [l]) @ ?r @ concat ls) (int (length (ks @ [l])) + 2) (int (length (ks @ [l])) + 1) True =
        Some (True \<or> ls \<noteq> [], concat (ks @ [l]) @ concat ls @ r')"
    by (rule Cons.IH) (use Cons.prems r in \<open>simp_all add: r(2)\<close>)
  moreover have "delete_loop (concat ks @ r @ concat (l # ls)) (int (length ks) + 2) (int (length ks) + 1) need =
      delete_loop (concat (ks @ [l]) @ ?r @ concat ls) (int (length (ks @ [l])) + 2) (int (length (ks @ [l])) + 1) True"
    using delete_loop_turn [of ks r l ls "[]" need] Cons.prems by (simp add: algebra_simps)
  ultimately show ?case using r(2) by auto
qed

lemma newlines_le: "count_list bs c \<le> length bs"
  by (rule count_le_length)

text \<open>
  C19. The program ends for every file below \<open>2 ^ 31 - 1\<close> bytes, although nothing in its loops bounds them and the copying
  changes the lines that they count, and the file does not grow; a file with fewer than three lines stays as it is,
  even when it has the second line that was to be deleted.
\<close>
theorem delete_always_ends:
  assumes "length bs < 2 ^ 31 - 1"
  shows "\<exists>bs'. delete_main True True bs = Some (0, bs') \<and> length bs' \<le> length bs \<and>
    (count_list bs (CHR 0x0A) < 3 \<longrightarrow> bs' = bs)"
proof -
  obtain nt bs1 where d: "delete_loop bs 3 2 False = Some (nt, bs1)" "length bs1 = length bs"
    using delete_loop_ends [OF assms, of 1 False] by auto
  have "size_loop bs1 0 = Some (int (length bs1))" using size_loop_length [of 0 bs1] d assms by simp
  moreover have "rownum_loop bs1 0 = Some (int (count_list bs1 (CHR 0x0A)))" using rownum_loop_count [of 0 bs1] d assms by simp
  moreover obtain sz where "rowsize_loop bs1 (int (count_list bs1 (CHR 0x0A))) 0 0 = Some sz" "0 \<le> sz"
    using rowsize_loop_total [of 0 bs1 0 "int (count_list bs1 (CHR 0x0A))"] d assms by auto
  moreover have "nt = False \<and> bs1 = bs" if few: "count_list bs (CHR 0x0A) < 3"
  proof -
    obtain ls t where bs: "bs = concat ls @ t" "\<forall>l \<in> set ls. is_line l" "CHR 0x0A \<notin> set t" using split_lines by blast
    then have "length ls < 3" using few newlines_lines [OF bs(2)] by simp
    then show ?thesis using delete_loop_stops [OF bs, of 3 2 False] assms d by simp
  qed
  ultimately show ?thesis using d
    by (auto simp: delete_main_def get_fliesize_def get_rownum_def get_rowsize_def)
qed

theorem delete_always_ends_witness: "\<exists>bs'. delete_main True True ''ab'' = Some (0, bs') \<and> bs' = ''ab''"
  using delete_always_ends [of "''ab''"] by auto

lemma short_line_goes_wrong:
  "delete_main True True ''a\<newline>bbb\<newline>c\<newline>'' = Some (0, ''a\<newline>c\<newline>c\<newline>'')"
proof -
  have lines: "is_line ''a\<newline>''" "is_line ''bbb\<newline>''" "is_line ''b\<newline>''" "is_line ''c\<newline>''"
    by (simp_all add: is_line_Cons)
  have "delete_loop ''a\<newline>bbb\<newline>c\<newline>'' 3 2 False = delete_loop ''a\<newline>c\<newline>b\<newline>c\<newline>'' 4 3 True"
    using delete_loop_turn [of "[''a\<newline>'']" "''bbb\<newline>''" "''c\<newline>''" "[]" "[]" False] lines by simp
  also have "\<dots> = delete_loop ''a\<newline>c\<newline>c\<newline>c\<newline>'' 5 4 True"
    using delete_loop_turn [of "[''a\<newline>'', ''c\<newline>'']" "''b\<newline>''" "''c\<newline>''" "[]" "[]" True] lines by simp
  also have "\<dots> = Some (True, ''a\<newline>c\<newline>c\<newline>c\<newline>'')"
    using delete_loop_stops [of "''a\<newline>c\<newline>c\<newline>c\<newline>''" "[''a\<newline>'', ''c\<newline>'', ''c\<newline>'', ''c\<newline>'']" "[]" 5] lines by simp
  finally show ?thesis
    by (simp add: delete_main_def get_fliesize_def get_rownum_def get_rowsize_def chk_def int_range_def)
qed



end
