(* ===== verification/ServerPool.thy ===== *)
theory ServerPool
  imports Prelude
begin

text \<open>
  The server with a pool of processes \<open>3.ybx/3.apue/10.ipc/3.socket/2.stream/2.porcess/3.pool_dyanamic/server.c\<close>.  The
  parent keeps between \<open>MINSEPARATE\<close> and \<open>MAXSEPARATE\<close> idle workers in a table of \<open>MAXCLIENT\<close> places that it
  shares with them: each worker writes its state there.  Arguments of a round of the parent are what \<open>fork\<close>
  returns and what it sees of each worker: whether \<open>kill\<close> finds it, and its state at the two times when
  \<open>manage_workers\<close> reads it.
\<close>

section \<open>The pool\<close>

definition MAXCLIENT :: nat where "MAXCLIENT = 20"
definition MINSEPARATE :: int where "MINSEPARATE = 5"
definition MAXSEPARATE :: int where "MAXSEPARATE = 10"

datatype wstate = STATE_IDLE | STATE_BUSY

record pool_st =
  wpid :: int
  wstate :: wstate

text \<open>\<open>killed\<close> lists the workers that got \<open>SIGTERM\<close>, with their states.\<close>

record server_pool =
  pool_arr :: "pool_st list"
  idle_num :: int
  busy_num :: int
  killed :: "pool_st list"

text \<open>The search loops: the first place that is free, or that is taken; \<open>MAXCLIENT\<close> if there is none.\<close>

fun first_free :: "pool_st list \<Rightarrow> nat" where
  "first_free [] = 0"
| "first_free (p # ps) = (if wpid p = - 1 then 0 else Suc (first_free ps))"

fun first_taken :: "pool_st list \<Rightarrow> nat" where
  "first_taken [] = 0"
| "first_taken (p # ps) = (if wpid p \<noteq> - 1 then 0 else Suc (first_taken ps))"

text \<open>The exit code, or the pool; \<open>forks\<close> are the results of the calls of \<open>fork\<close> to come.\<close>

definition add_one_worker :: "(nat \<Rightarrow> int) \<Rightarrow> server_pool \<Rightarrow> (int + server_pool \<times> (nat \<Rightarrow> int)) option" where
  "add_one_worker forks s =
     (if idle_num s + busy_num s = int MAXCLIENT then Some (Inr (s, forks))
      else if forks 0 = - 1 then Some (Inl (- 1))
      else do {
        let i = first_free (pool_arr s);
        p \<leftarrow> rd (pool_arr s) i;
        Some (Inr (s\<lparr>idle_num := idle_num s + 1, pool_arr := (pool_arr s)[i := p\<lparr>wpid := forks 0\<rparr>]\<rparr>, \<lambda>n. forks (Suc n))) })"

definition del_one_worker :: "server_pool \<Rightarrow> server_pool" where
  "del_one_worker s =
     (let i = first_taken (pool_arr s) in
      if i < length (pool_arr s)
      then s\<lparr>pool_arr := (pool_arr s)[i := (pool_arr s ! i)\<lparr>wpid := - 1\<rparr>], killed := killed s @ [pool_arr s ! i]\<rparr>
      else s)"

text \<open>What the parent sees of a worker.\<close>

record look =
  alive :: bool
  at_first :: wstate
  at_second :: wstate

definition manage_worker :: "look \<Rightarrow> pool_st \<Rightarrow> pool_st \<times> int \<times> int" where
  "manage_worker l p =
     (if wpid p \<noteq> - 1 then
        (p\<lparr>wpid := if alive l then wpid p else - 1, wstate := at_second l\<rparr>,
         if at_second l = STATE_IDLE then 1 else 0,
         if at_first l = STATE_BUSY then 1 else 0)
      else (p, 0, 0))"

fun manage_loop :: "look list \<Rightarrow> pool_st list \<Rightarrow> int \<Rightarrow> int \<Rightarrow> pool_st list \<times> int \<times> int" where
  "manage_loop (l # ls) (p # ps) idle busy =
     (let (p1, i, b) = manage_worker l p;
          (ps1, idle1, busy1) = manage_loop ls ps (idle + i) (busy + b)
      in (p1 # ps1, idle1, busy1))"
| "manage_loop _ ps idle busy = (ps, idle, busy)"

definition manage_workers :: "look list \<Rightarrow> server_pool \<Rightarrow> server_pool" where
  "manage_workers looks s =
     (let (arr, idle, busy) = manage_loop looks (pool_arr s) 0 0
      in s\<lparr>pool_arr := arr, idle_num := idle, busy_num := busy\<rparr>)"

text \<open>The loops of \<open>main\<close>: \<open>add_one_worker\<close> changes the bound of the first one.\<close>

function add_loop :: "int \<Rightarrow> (nat \<Rightarrow> int) \<Rightarrow> server_pool \<Rightarrow> (int + server_pool \<times> (nat \<Rightarrow> int)) option" where
  "add_loop i forks s =
     (if i < MINSEPARATE - idle_num s then do {
        r \<leftarrow> add_one_worker forks s;
        case r of Inl code \<Rightarrow> Some (Inl code) | Inr (s1, forks1) \<Rightarrow> add_loop (i + 1) forks1 s1 }
      else Some (Inr (s, forks)))"
  by pat_completeness auto
termination
  by (relation "measure (\<lambda>(i, forks, s). nat (MINSEPARATE - idle_num s - i))")
    (auto simp: add_one_worker_def rd_def Let_def split: if_splits bind_splits)

declare add_loop.simps [simp del]

fun del_loop :: "nat \<Rightarrow> server_pool \<Rightarrow> server_pool" where
  "del_loop 0 s = s"
| "del_loop (Suc n) s = del_loop n (del_one_worker s)"

text \<open>What a round of \<open>main\<close> prints for each place.\<close>

definition show_place :: "pool_st \<Rightarrow> char" where
  "show_place p = (if wpid p = - 1 then CHR '' '' else if wstate p = STATE_IDLE then CHR ''.'' else CHR ''*'')"

definition serve_round :: "look list \<Rightarrow> (nat \<Rightarrow> int) \<Rightarrow> server_pool \<Rightarrow> (int + server_pool \<times> string) option" where
  "serve_round looks forks s = do {
     let s1 = manage_workers looks s;
     r \<leftarrow> (if idle_num s1 < MINSEPARATE then add_loop 0 forks s1 else Some (Inr (s1, forks)));
     case r of
       Inl code \<Rightarrow> Some (Inl code)
     | Inr (s2, _) \<Rightarrow>
         let s3 = (if idle_num s2 > MAXSEPARATE then del_loop (nat (idle_num s2 - MAXSEPARATE)) s2 else s2)
         in Some (Inr (s3, map show_place (pool_arr s3))) }"

text \<open>\<open>main\<close> up to its loop; the table of \<open>mmap\<close> is zero, which is the state idle.\<close>

fun add_workers :: "nat \<Rightarrow> (nat \<Rightarrow> int) \<Rightarrow> server_pool \<Rightarrow> (int + server_pool \<times> (nat \<Rightarrow> int)) option" where
  "add_workers 0 forks s = Some (Inr (s, forks))"
| "add_workers (Suc n) forks s = do {
     r \<leftarrow> add_one_worker forks s;
     case r of Inl code \<Rightarrow> Some (Inl code) | Inr (s1, forks1) \<Rightarrow> add_workers n forks1 s1 }"

definition pool_main :: "(nat \<Rightarrow> int) \<Rightarrow> (int + server_pool \<times> (nat \<Rightarrow> int)) option" where
  "pool_main forks =
     add_workers (nat MINSEPARATE) forks
       \<lparr>pool_arr = replicate MAXCLIENT \<lparr>wpid = - 1, wstate = STATE_IDLE\<rparr>, idle_num = 0, busy_num = 0, killed = []\<rparr>"

text \<open>A turn of a worker: the state it writes, and its exit code if it leaves.\<close>

datatype accept_ret = Accepted | Try_again | Accept_failed

definition worker_turn :: "accept_ret \<Rightarrow> bool \<Rightarrow> bool \<Rightarrow> wstate list \<times> int option" where
  "worker_turn acc ntop sent =
     (case acc of
        Try_again \<Rightarrow> ([STATE_IDLE], None)
      | Accept_failed \<Rightarrow> ([STATE_IDLE], Some (- 2))
      | Accepted \<Rightarrow>
          if \<not> ntop then ([STATE_IDLE, STATE_BUSY], Some (- 2))
          else if \<not> sent then ([STATE_IDLE, STATE_BUSY], Some (- 3))
          else ([STATE_IDLE, STATE_BUSY], None))"

section \<open>Workers in the table\<close>

definition taken :: "pool_st list \<Rightarrow> pool_st list" where
  "taken ps = filter (\<lambda>p. wpid p \<noteq> - 1) ps"

lemma taken_simps [simp]: "taken [] = []" "taken (p # ps) = (if wpid p = - 1 then taken ps else p # taken ps)"
  "taken (ps @ qs) = taken ps @ taken qs"
  by (simp_all add: taken_def)

lemma taken_le: "length (taken ps) \<le> length ps"
  by (simp add: taken_def)

lemma first_free_less: "length (taken ps) < length ps \<Longrightarrow> first_free ps < length ps \<and> wpid (ps ! first_free ps) = - 1"
  by (induction ps) (auto split: if_splits)

lemma first_free_full: "length (taken ps) = length ps \<Longrightarrow> first_free ps = length ps"
proof (induction ps)
  case (Cons p ps)
  then show ?case using taken_le [of ps] by (auto split: if_splits)
qed simp

lemma fill_place:
  assumes "i < length ps" "wpid (ps ! i) = - 1" "k \<noteq> - 1"
  shows "length (taken (ps[i := p\<lparr>wpid := k\<rparr>])) = Suc (length (taken ps))"
  using assms
proof (induction ps arbitrary: i)
  case (Cons q ps)
  then show ?case by (cases i) auto
qed simp

lemma first_taken_split:
  assumes "taken ps \<noteq> []"
  shows "first_taken ps < length ps \<and> ps ! first_taken ps = hd (taken ps) \<and>
    taken (ps[first_taken ps := (ps ! first_taken ps)\<lparr>wpid := - 1\<rparr>]) = tl (taken ps)"
  using assms by (induction ps) auto

text \<open>The workers that \<open>del_loop\<close> ends are the first ones in the table.\<close>

lemma del_loop_kills:
  assumes "n \<le> length (taken (pool_arr s))"
  shows "taken (pool_arr (del_loop n s)) = drop n (taken (pool_arr s)) \<and>
    killed (del_loop n s) = killed s @ take n (taken (pool_arr s)) \<and>
    length (pool_arr (del_loop n s)) = length (pool_arr s) \<and> idle_num (del_loop n s) = idle_num s \<and> busy_num (del_loop n s) = busy_num s"
  using assms
proof (induction n arbitrary: s)
  case (Suc n)
  then obtain p ps where t: "taken (pool_arr s) = p # ps" by (cases "taken (pool_arr s)") auto
  have f: "first_taken (pool_arr s) < length (pool_arr s)" "pool_arr s ! first_taken (pool_arr s) = p"
    "taken ((pool_arr s)[first_taken (pool_arr s) := p\<lparr>wpid := - 1\<rparr>]) = ps"
    using first_taken_split [of "pool_arr s"] t by auto
  have "taken (pool_arr (del_one_worker s)) = ps \<and> killed (del_one_worker s) = killed s @ [p] \<and>
      length (pool_arr (del_one_worker s)) = length (pool_arr s) \<and> idle_num (del_one_worker s) = idle_num s \<and>
      busy_num (del_one_worker s) = busy_num s"
    using f by (simp add: del_one_worker_def Let_def)
  then show ?case using Suc.IH [of "del_one_worker s"] Suc.prems t by simp
qed simp

lemma del_loop_length: "length (pool_arr (del_loop n s)) = length (pool_arr s)"
  by (induction n arbitrary: s) (simp_all add: del_one_worker_def Let_def)

lemma del_loop_if: "length (pool_arr (if b then del_loop n s else s)) = length (pool_arr s)"
  by (simp add: del_loop_length)

text \<open>What \<open>manage_workers\<close> counts, when no worker changes its state between the two readings.\<close>

definition steady :: "look \<Rightarrow> bool" where
  "steady l \<longleftrightarrow> at_first l = at_second l"

lemma manage_loop_counts:
  assumes "manage_loop ls ps i b = (qs, idle, busy)" "length ls = length ps" "\<forall>l \<in> set ls. steady l"
  shows "length qs = length ps \<and> length (taken qs) \<le> length (taken ps) \<and> i \<le> idle \<and> b \<le> busy \<and>
    idle + busy = i + b + int (length (taken ps))"
  using assms
proof (induction ls arbitrary: ps i b qs idle busy)
  case (Cons l ls)
  obtain p ps' where ps: "ps = p # ps'" using Cons.prems(2) by (cases ps) auto
  obtain p1 i1 b1 where m: "manage_worker l p = (p1, i1, b1)" by (metis prod_cases3)
  obtain ps1 idle1 busy1 where r: "manage_loop ls ps' (i + i1) (b + b1) = (ps1, idle1, busy1)" by (metis prod_cases3)
  have "i1 + b1 = (if wpid p = - 1 then 0 else 1) \<and> 0 \<le> i1 \<and> 0 \<le> b1 \<and> (wpid p = - 1 \<longrightarrow> wpid p1 = - 1)"
    using m Cons.prems(3) by (cases "at_second l") (auto simp: manage_worker_def steady_def)
  then show ?case using Cons.IH [OF r] Cons.prems m r ps by auto
qed auto

section \<open>The parent\<close>

text \<open>Never more counted than there are places, and never less than are taken.\<close>

definition counts_ok :: "server_pool \<Rightarrow> bool" where
  "counts_ok s \<longleftrightarrow> length (pool_arr s) = MAXCLIENT \<and> 0 \<le> idle_num s \<and> 0 \<le> busy_num s \<and>
     int (length (taken (pool_arr s))) \<le> idle_num s + busy_num s \<and> idle_num s + busy_num s \<le> int MAXCLIENT"

lemma manage_ok:
  assumes "length (pool_arr s) = MAXCLIENT" "length looks = MAXCLIENT" "\<forall>l \<in> set looks. steady l"
  shows "counts_ok (manage_workers looks s) \<and> killed (manage_workers looks s) = killed s"
proof -
  obtain qs idle busy where m: "manage_loop looks (pool_arr s) 0 0 = (qs, idle, busy)" by (metis prod_cases3)
  show ?thesis using manage_loop_counts [OF m] taken_le [of "pool_arr s"] assms by (simp add: manage_workers_def m counts_ok_def)
qed

lemma add_one_ok:
  assumes "counts_ok s"
  shows "add_one_worker forks s = Some (Inl (- 1)) \<or>
    (\<exists>s' forks'. add_one_worker forks s = Some (Inr (s', forks')) \<and> counts_ok s' \<and> killed s' = killed s \<and> busy_num s' = busy_num s \<and>
      (\<forall>n. forks n \<noteq> - 1) \<le> (\<forall>n. forks' n \<noteq> - 1) \<and>
      (if idle_num s + busy_num s = int MAXCLIENT then s' = s
       else idle_num s' = idle_num s + 1 \<and> length (taken (pool_arr s')) = Suc (length (taken (pool_arr s)))))"
proof (cases "idle_num s + busy_num s = int MAXCLIENT \<or> forks 0 = - 1")
  case False
  then have "int (length (taken (pool_arr s))) < int MAXCLIENT" using assms by (simp add: counts_ok_def)
  then have i: "first_free (pool_arr s) < length (pool_arr s)" "wpid (pool_arr s ! first_free (pool_arr s)) = - 1"
    using first_free_less [of "pool_arr s"] assms by (auto simp: counts_ok_def)
  show ?thesis using False i fill_place [OF i, of "forks 0" "pool_arr s ! first_free (pool_arr s)"] assms
    by (auto simp: add_one_worker_def counts_ok_def Let_def)
qed (use assms in \<open>auto simp: add_one_worker_def\<close>)

lemma add_one_works:
  assumes "counts_ok s" "\<forall>n. forks n \<noteq> - 1"
  shows "\<exists>s' forks'. add_one_worker forks s = Some (Inr (s', forks')) \<and> counts_ok s' \<and> killed s' = killed s \<and> busy_num s' = busy_num s \<and>
      (\<forall>n. forks' n \<noteq> - 1) \<and>
      (if idle_num s + busy_num s = int MAXCLIENT then s' = s
       else idle_num s' = idle_num s + 1 \<and> length (taken (pool_arr s')) = Suc (length (taken (pool_arr s))))"
proof -
  have "add_one_worker forks s \<noteq> Some (Inl (- 1))" using assms(2) by (auto simp: add_one_worker_def Let_def split: bind_splits)
  then show ?thesis using add_one_ok [OF assms(1), of forks] assms(2) by auto
qed

lemma add_loop_ok:
  "counts_ok s \<Longrightarrow> add_loop i forks s = Some (Inl (- 1)) \<or>
    (\<exists>s' forks'. add_loop i forks s = Some (Inr (s', forks')) \<and> counts_ok s')"
proof (induction "nat (MINSEPARATE - idle_num s - i)" arbitrary: i forks s rule: less_induct)
  case less
  show ?case
  proof (cases "i < MINSEPARATE - idle_num s")
    case True
    from add_one_ok [OF less.prems, of forks] show ?thesis
    proof (elim disjE exE conjE)
      assume "add_one_worker forks s = Some (Inl (- 1))"
      then show ?thesis using True by (subst (1) add_loop.simps, subst (2) add_loop.simps) simp
    next
      fix s' forks'
      assume a: "add_one_worker forks s = Some (Inr (s', forks'))" "counts_ok s'"
        "if idle_num s + busy_num s = int MAXCLIENT then s' = s
         else idle_num s' = idle_num s + 1 \<and> length (taken (pool_arr s')) = Suc (length (taken (pool_arr s)))"
      then have "nat (MINSEPARATE - idle_num s' - (i + 1)) < nat (MINSEPARATE - idle_num s - i)" using True by (auto split: if_splits)
      moreover have "add_loop i forks s = add_loop (i + 1) forks' s'" using True a(1) by (subst add_loop.simps) simp
      ultimately show ?thesis using less.hyps a(2) by simp
    qed
  qed (use less.prems in \<open>auto simp: add_loop.simps\<close>)
qed

text \<open>
  How many workers the loop adds: its bound falls while its counter rises, so it adds half of what is missing,
  as far as there are places.
\<close>

lemma add_loop_adds:
  assumes "counts_ok s" "\<forall>n. forks n \<noteq> - 1"
  shows "\<exists>s' forks'. add_loop i forks s = Some (Inr (s', forks')) \<and> counts_ok s' \<and> killed s' = killed s \<and>
    (let n = min (nat (MINSEPARATE - idle_num s - i + 1) div 2) (nat (int MAXCLIENT - idle_num s - busy_num s)) in
     idle_num s' = idle_num s + int n \<and> length (taken (pool_arr s')) = length (taken (pool_arr s)) + n)"
  using assms
proof (induction "nat (MINSEPARATE - idle_num s - i)" arbitrary: i forks s rule: less_induct)
  case less
  show ?case
  proof (cases "i < MINSEPARATE - idle_num s")
    case True
    obtain s' forks' where a: "add_one_worker forks s = Some (Inr (s', forks'))" "counts_ok s'" "killed s' = killed s" "busy_num s' = busy_num s"
        "\<forall>n. forks' n \<noteq> - 1"
        "if idle_num s + busy_num s = int MAXCLIENT then s' = s
         else idle_num s' = idle_num s + 1 \<and> length (taken (pool_arr s')) = Suc (length (taken (pool_arr s)))"
      using add_one_works [OF less.prems] by blast
    have "nat (MINSEPARATE - idle_num s' - (i + 1)) < nat (MINSEPARATE - idle_num s - i)" using a(6) True by (auto split: if_splits)
    note IH = less.hyps [OF this a(2,5)]
    have step: "add_loop i forks s = add_loop (i + 1) forks' s'" using True a(1) by (subst add_loop.simps) simp
    show ?thesis
    proof (cases "idle_num s + busy_num s = int MAXCLIENT")
      case True
      then show ?thesis using IH a step by auto
    next
      case False
      then have "nat (MINSEPARATE - idle_num s - i + 1) div 2 = Suc (nat (MINSEPARATE - idle_num s' - (i + 1) + 1) div 2)"
        "nat (int MAXCLIENT - idle_num s - busy_num s) = Suc (nat (int MAXCLIENT - idle_num s' - busy_num s'))"
        using a(4,6) True less.prems(1) by (auto simp: counts_ok_def nat_eq_iff)
      moreover define n where "n = min (nat (MINSEPARATE - idle_num s' - (i + 1) + 1) div 2) (nat (int MAXCLIENT - idle_num s' - busy_num s'))"
      ultimately have m: "min (nat (MINSEPARATE - idle_num s - i + 1) div 2) (nat (int MAXCLIENT - idle_num s - busy_num s)) = Suc n" by simp
      obtain s2 f2 where "add_loop (i + 1) forks' s' = Some (Inr (s2, f2))" "counts_ok s2" "killed s2 = killed s'"
        "idle_num s2 = idle_num s' + int n" "length (taken (pool_arr s2)) = length (taken (pool_arr s')) + n"
        using IH unfolding Let_def n_def by blast
      then show ?thesis unfolding m Let_def using a(3,6) False step by (intro exI [of _ s2] exI [of _ f2]) simp
    qed
  next
    case False
    then have "nat (MINSEPARATE - idle_num s - i + 1) div 2 = 0" by simp
    then show ?thesis using False less.prems by (subst add_loop.simps) (auto simp: Let_def)
  qed
qed

lemma serve_round_ok:
  assumes "length (pool_arr s) = MAXCLIENT" "length looks = MAXCLIENT" "\<forall>l \<in> set looks. steady l"
  shows "serve_round looks forks s = Some (Inl (- 1)) \<or>
    (\<exists>s' out. serve_round looks forks s = Some (Inr (s', out)) \<and> length (pool_arr s') = MAXCLIENT \<and> length out = MAXCLIENT)"
proof -
  let ?s = "manage_workers looks s"
  have ok: "counts_ok ?s" using manage_ok [OF assms] by blast
  have len: "length (pool_arr s') = MAXCLIENT" if "counts_ok s'" for s' using that by (simp add: counts_ok_def)
  show ?thesis
  proof (cases "idle_num ?s < MINSEPARATE")
    case True
    then show ?thesis using add_loop_ok [OF ok, of 0 forks] len
      by (auto simp: serve_round_def Let_def del_loop_if)
  next
    case False
    then show ?thesis using len [OF ok] by (auto simp: serve_round_def Let_def del_loop_if)
  qed
qed

fun serve_rounds :: "(look list \<times> (nat \<Rightarrow> int)) list \<Rightarrow> server_pool \<Rightarrow> (int + server_pool) option" where
  "serve_rounds [] s = Some (Inr s)"
| "serve_rounds ((looks, forks) # rounds) s = do {
     r \<leftarrow> serve_round looks forks s;
     case r of Inl code \<Rightarrow> Some (Inl code) | Inr (s1, _) \<Rightarrow> serve_rounds rounds s1 }"

lemma serve_rounds_ok:
  assumes "length (pool_arr s) = MAXCLIENT" "\<forall>(looks, forks) \<in> set rounds. length looks = MAXCLIENT \<and> (\<forall>l \<in> set looks. steady l)"
  shows "serve_rounds rounds s = Some (Inl (- 1)) \<or> (\<exists>s'. serve_rounds rounds s = Some (Inr s') \<and> length (pool_arr s') = MAXCLIENT)"
  using assms
proof (induction rounds arbitrary: s)
  case (Cons round rounds)
  obtain looks forks where r: "round = (looks, forks)" by (cases round)
  then have "length looks = MAXCLIENT" "\<forall>l \<in> set looks. steady l" using Cons.prems(2) by auto
  from serve_round_ok [OF Cons.prems(1) this, of forks] show ?case
  proof (elim disjE exE conjE)
    fix s' out
    assume "serve_round looks forks s = Some (Inr (s', out))" "length (pool_arr s') = MAXCLIENT"
    then show ?thesis using Cons.IH [of s'] Cons.prems(2) r by simp
  qed (simp add: r)
qed simp

lemma add_workers_ok:
  "counts_ok s \<Longrightarrow> add_workers n forks s = Some (Inl (- 1)) \<or> (\<exists>s' f. add_workers n forks s = Some (Inr (s', f)) \<and> counts_ok s')"
proof (induction n arbitrary: forks s)
  case (Suc n)
  from add_one_ok [OF Suc.prems, of forks] show ?case using Suc.IH by fastforce
qed simp

lemma taken_none: "taken (replicate n \<lparr>wpid = - 1, wstate = st\<rparr>) = []"
  by (induction n) simp_all

lemma pool_main_ok: "pool_main forks = Some (Inl (- 1)) \<or> (\<exists>s f. pool_main forks = Some (Inr (s, f)) \<and> counts_ok s)"
  unfolding pool_main_def by (rule add_workers_ok) (simp add: counts_ok_def taken_none)

text \<open>A round in which every worker is alive and seen as the table has it.\<close>

definition looks_of :: "pool_st list \<Rightarrow> look list" where
  "looks_of ps = map (\<lambda>p. \<lparr>alive = True, at_first = wstate p, at_second = wstate p\<rparr>) ps"

definition idle_workers :: "pool_st list \<Rightarrow> nat" where
  "idle_workers ps = length (filter (\<lambda>p. wstate p = STATE_IDLE) (taken ps))"

lemma manage_loop_same:
  "\<exists>b'. manage_loop (looks_of ps) ps i b = (ps, i + int (idle_workers ps), b') \<and>
     b' = b + int (length (taken ps)) - int (idle_workers ps)"
proof (induction ps arbitrary: i b)
  case (Cons p ps)
  show ?case
  proof (cases "wpid p = - 1")
    case True
    then show ?thesis using Cons.IH [of i b] by (auto simp: looks_of_def manage_worker_def idle_workers_def)
  next
    case False
    show ?thesis
    proof (cases "wstate p")
      case STATE_IDLE
      then show ?thesis using False Cons.IH [of "i + 1" b]
        by (auto simp: looks_of_def manage_worker_def idle_workers_def)
    next
      case STATE_BUSY
      then show ?thesis using False Cons.IH [of i "b + 1"]
        by (auto simp: looks_of_def manage_worker_def idle_workers_def)
    qed
  qed
qed (simp add: idle_workers_def looks_of_def)

lemma manage_same:
  "manage_workers (looks_of (pool_arr s)) s = s\<lparr>idle_num := int (idle_workers (pool_arr s)),
     busy_num := int (length (taken (pool_arr s))) - int (idle_workers (pool_arr s))\<rparr>"
  using manage_loop_same [of "pool_arr s" 0 0] by (cases s) (auto simp: manage_workers_def)

lemma idle_le: "idle_workers ps \<le> length (taken ps)"
  by (simp add: idle_workers_def)

text \<open>
  C21. The parent never leaves its table: in any number of rounds after its start, whatever workers are found dead, idle or
  busy and whatever \<open>fork\<close> returns, it writes only to the 20 places and stops only when \<open>fork\<close> fails.  Assumed is
  that a worker has the same state at both times when a round reads it.
\<close>
theorem pool_stays_in_bounds:
  assumes "\<forall>(looks, forks) \<in> set rounds. length looks = MAXCLIENT \<and> (\<forall>l \<in> set looks. steady l)"
  shows "pool_main forks0 = Some (Inl (- 1)) \<or>
    (\<exists>s f. pool_main forks0 = Some (Inr (s, f)) \<and>
      (serve_rounds rounds s = Some (Inl (- 1)) \<or>
       (\<exists>s'. serve_rounds rounds s = Some (Inr s') \<and> length (pool_arr s') = MAXCLIENT)))"
  using pool_main_ok [of forks0] serve_rounds_ok [OF _ assms] by (auto simp: counts_ok_def)

lemma steady_looks: "\<forall>l \<in> set (looks_of ps). steady l" "length (looks_of ps) = length ps"
  by (auto simp: looks_of_def steady_def)

theorem pool_stays_in_bounds_witness:
  "pool_main (\<lambda>n. int n + 1) = Some (Inl (- 1)) \<or>
   (\<exists>s f. pool_main (\<lambda>n. int n + 1) = Some (Inr (s, f)) \<and>
     (serve_rounds [(replicate 20 \<lparr>alive = True, at_first = STATE_BUSY, at_second = STATE_BUSY\<rparr>, int)] s = Some (Inl (- 1)) \<or>
      (\<exists>s'. serve_rounds [(replicate 20 \<lparr>alive = True, at_first = STATE_BUSY, at_second = STATE_BUSY\<rparr>, int)] s = Some (Inr s') \<and>
        length (pool_arr s') = 20)))"
  using pool_stays_in_bounds [of "[(replicate 20 \<lparr>alive = True, at_first = STATE_BUSY, at_second = STATE_BUSY\<rparr>, int)]" "\<lambda>n. int n + 1"]
  by (simp add: MAXCLIENT_def steady_def)

text \<open>
  C22. How the parent regulates the number of workers, when all are alive and do not change during the round and \<open>fork\<close>
  succeeds: with fewer than 5 idle ones it adds half of those that are missing, rounded up, as far as there are places;
  with 5 to 10 it changes nothing; with more it ends as many as there are above 10, but those that come first in
  the table, whether idle or busy with a client.
\<close>
theorem pool_size_is_regulated:
  assumes "length (pool_arr s) = MAXCLIENT" "\<forall>n. forks n \<noteq> - 1"
  shows "\<exists>s' out. serve_round (looks_of (pool_arr s)) forks s = Some (Inr (s', out)) \<and>
    (idle_workers (pool_arr s) < 5 \<longrightarrow> killed s' = killed s \<and>
       length (taken (pool_arr s')) = length (taken (pool_arr s)) +
         min ((6 - idle_workers (pool_arr s)) div 2) (20 - length (taken (pool_arr s)))) \<and>
    (5 \<le> idle_workers (pool_arr s) \<and> idle_workers (pool_arr s) \<le> 10 \<longrightarrow> killed s' = killed s \<and> pool_arr s' = pool_arr s) \<and>
    (10 < idle_workers (pool_arr s) \<longrightarrow>
       killed s' = killed s @ take (idle_workers (pool_arr s) - 10) (taken (pool_arr s)) \<and>
       taken (pool_arr s') = drop (idle_workers (pool_arr s) - 10) (taken (pool_arr s)))"
proof -
  let ?s = "manage_workers (looks_of (pool_arr s)) s" and ?i = "idle_workers (pool_arr s)" and ?t = "taken (pool_arr s)"
  note same = manage_same [of s]
  have ok: "counts_ok ?s" using manage_ok [of s "looks_of (pool_arr s)"] steady_looks assms(1) by simp
  show ?thesis
  proof (cases "?i < 5")
    case True
    obtain s' f where a: "add_loop 0 forks ?s = Some (Inr (s', f))" "counts_ok s'" "killed s' = killed ?s"
      "idle_num s' = idle_num ?s + int (min (nat (MINSEPARATE - idle_num ?s - 0 + 1) div 2) (nat (int MAXCLIENT - idle_num ?s - busy_num ?s)))"
      "length (taken (pool_arr s')) = length (taken (pool_arr ?s)) +
         min (nat (MINSEPARATE - idle_num ?s - 0 + 1) div 2) (nat (int MAXCLIENT - idle_num ?s - busy_num ?s))"
      using add_loop_adds [OF ok assms(2), of 0] unfolding Let_def by blast
    have n: "nat (MINSEPARATE - idle_num ?s - 0 + 1) div 2 = (6 - ?i) div 2" "nat (int MAXCLIENT - idle_num ?s - busy_num ?s) = 20 - length ?t"
      using True by (simp_all add: same MINSEPARATE_def MAXCLIENT_def nat_diff_distrib)
    have "\<not> idle_num s' > MAXSEPARATE" using a(4) n(1) True by (auto simp: same MAXSEPARATE_def)
    then show ?thesis using a n True by (simp add: serve_round_def same MINSEPARATE_def)
  next
    case False
    then have stays: "\<not> idle_num ?s < MINSEPARATE" "idle_num ?s > MAXSEPARATE \<longleftrightarrow> ?i > 10" "nat (idle_num ?s - MAXSEPARATE) = ?i - 10"
      by (auto simp: same MINSEPARATE_def MAXSEPARATE_def)
    have "?i - 10 \<le> length (taken (pool_arr ?s))" using idle_le [of "pool_arr s"] by (simp add: same)
    then have "killed (del_loop (?i - 10) ?s) = killed s @ take (?i - 10) ?t" "taken (pool_arr (del_loop (?i - 10) ?s)) = drop (?i - 10) ?t"
      using del_loop_kills [of "?i - 10" ?s] by (simp_all add: same)
    moreover have "killed ?s = killed s" "pool_arr ?s = pool_arr s" by (simp_all add: same)
    ultimately show ?thesis using stays False by (cases "?i > 10") (simp_all add: serve_round_def Let_def)
  qed
qed

text \<open>A busy worker, eleven idle ones and eight free places.\<close>

definition crowded :: server_pool where
  "crowded = \<lparr>pool_arr = \<lparr>wpid = 100, wstate = STATE_BUSY\<rparr> # replicate 11 \<lparr>wpid = 101, wstate = STATE_IDLE\<rparr> @
     replicate 8 \<lparr>wpid = - 1, wstate = STATE_IDLE\<rparr>, idle_num = 0, busy_num = 0, killed = []\<rparr>"

lemma taken_replicate: "taken (replicate n p) = (if wpid p = - 1 then [] else replicate n p)"
  by (induction n) simp_all

lemma crowded_taken:
  "taken (pool_arr crowded) = \<lparr>wpid = 100, wstate = STATE_BUSY\<rparr> # replicate 11 \<lparr>wpid = 101, wstate = STATE_IDLE\<rparr>"
  "idle_workers (pool_arr crowded) = 11" "length (pool_arr crowded) = MAXCLIENT"
  by (simp_all add: crowded_def idle_workers_def taken_replicate MAXCLIENT_def)

theorem pool_size_is_regulated_witness:
  "\<exists>s' out. serve_round (looks_of (pool_arr crowded)) (\<lambda>n. 200) crowded = Some (Inr (s', out)) \<and>
     killed s' = [\<lparr>wpid = 100, wstate = STATE_BUSY\<rparr>]"
proof -
  obtain s' out where "serve_round (looks_of (pool_arr crowded)) (\<lambda>n. 200) crowded = Some (Inr (s', out))"
      "killed s' = killed crowded @ take 1 (taken (pool_arr crowded))"
    using pool_size_is_regulated [OF crowded_taken(3), of "\<lambda>n. 200"] by (auto simp: crowded_taken(2))
  then show ?thesis by (simp add: crowded_taken(1)) (simp add: crowded_def)
qed

text \<open>Counts when every place is taken, with workers that change their state between the two readings.\<close>

definition both_counted :: "look \<Rightarrow> bool" where
  "both_counted l \<longleftrightarrow> at_first l = STATE_BUSY \<and> at_second l = STATE_IDLE"

definition none_counted :: "look \<Rightarrow> bool" where
  "none_counted l \<longleftrightarrow> at_first l = STATE_IDLE \<and> at_second l = STATE_BUSY"

lemma manage_loop_flips:
  assumes "length ls = length ps" "\<forall>p \<in> set ps. wpid p \<noteq> - 1" "\<forall>l \<in> set ls. alive l \<and> \<not> none_counted l"
  shows "\<exists>qs. manage_loop ls ps i b = (qs, i + int (length (filter (\<lambda>l. at_second l = STATE_IDLE) ls)),
      b + int (length (filter (\<lambda>l. at_first l = STATE_BUSY) ls))) \<and> length qs = length ps \<and> (\<forall>p \<in> set qs. wpid p \<noteq> - 1) \<and>
    int (length ps) + int (length (filter both_counted ls)) =
      int (length (filter (\<lambda>l. at_second l = STATE_IDLE) ls)) + int (length (filter (\<lambda>l. at_first l = STATE_BUSY) ls))"
  using assms
proof (induction ls arbitrary: ps i b)
  case (Cons l ls)
  obtain p ps' where ps: "ps = p # ps'" using Cons.prems(1) by (cases ps) auto
  let ?i = "if at_second l = STATE_IDLE then 1 else 0 :: int" and ?b = "if at_first l = STATE_BUSY then 1 else 0 :: int"
  have "manage_worker l p = (p\<lparr>wstate := at_second l\<rparr>, ?i, ?b)" using Cons.prems(2,3) ps by (simp add: manage_worker_def)
  moreover have "?i + ?b = 1 + (if both_counted l then 1 else 0)" using Cons.prems(3)
    by (cases "at_first l"; cases "at_second l") (auto simp: both_counted_def none_counted_def)
  ultimately show ?case using Cons.IH [of ps' "i + ?i" "b + ?b"] Cons.prems ps by (auto split: if_splits)
qed simp

text \<open>
  The parent can leave its table: where all 20 places are taken and a worker becomes idle between the two times when a round
  reads its state, it counts twice, the test for a full table, which is for equality, misses, and with fewer than 5 idle
  workers \<open>add_one_worker\<close> stores the next worker behind the end of the table.
\<close>
theorem pool_overflows:
  assumes "length (pool_arr s) = MAXCLIENT" "\<forall>p \<in> set (pool_arr s). wpid p \<noteq> - 1" "length looks = MAXCLIENT"
    "\<forall>l \<in> set looks. alive l \<and> \<not> none_counted l" "\<exists>l \<in> set looks. both_counted l"
    "length (filter (\<lambda>l. at_second l = STATE_IDLE) looks) < 5" "forks 0 \<noteq> - 1"
  shows "serve_round looks forks s = None"
proof -
  obtain qs where m: "manage_loop looks (pool_arr s) 0 0 = (qs, int (length (filter (\<lambda>l. at_second l = STATE_IDLE) looks)),
      int (length (filter (\<lambda>l. at_first l = STATE_BUSY) looks)))" "length qs = MAXCLIENT" "\<forall>p \<in> set qs. wpid p \<noteq> - 1"
    "int MAXCLIENT + int (length (filter both_counted looks)) =
      int (length (filter (\<lambda>l. at_second l = STATE_IDLE) looks)) + int (length (filter (\<lambda>l. at_first l = STATE_BUSY) looks))"
    using manage_loop_flips [of looks "pool_arr s" 0 0] assms(1-4) by auto
  have "filter both_counted looks \<noteq> []" using assms(5) by (simp add: filter_empty_conv)
  then have "0 < length (filter both_counted looks)" by simp
  moreover have "idle_num (manage_workers looks s) + busy_num (manage_workers looks s) = int MAXCLIENT + int (length (filter both_counted looks))"
    using m(4) by (simp add: manage_workers_def m(1))
  ultimately have "idle_num (manage_workers looks s) + busy_num (manage_workers looks s) \<noteq> int MAXCLIENT" by linarith
  moreover have "taken qs = qs" using m(3) by (induction qs) auto
  then have "first_free qs = length qs" using first_free_full [of qs] by simp
  moreover have "idle_num (manage_workers looks s) < MINSEPARATE" "pool_arr (manage_workers looks s) = qs"
    using m assms(6) by (simp_all add: manage_workers_def MINSEPARATE_def)
  ultimately have "add_loop 0 forks (manage_workers looks s) = None"
    using assms(7) by (subst add_loop.simps) (simp add: add_one_worker_def Let_def)
  then show ?thesis using \<open>idle_num (manage_workers looks s) < MINSEPARATE\<close> by (simp add: serve_round_def Let_def)
qed

theorem pool_overflows_witness:
  "serve_round (replicate 19 \<lparr>alive = True, at_first = STATE_BUSY, at_second = STATE_BUSY\<rparr> @ [\<lparr>alive = True, at_first = STATE_BUSY, at_second = STATE_IDLE\<rparr>])
     (\<lambda>n. 200) \<lparr>pool_arr = replicate 20 \<lparr>wpid = 100, wstate = STATE_BUSY\<rparr>, idle_num = 0, busy_num = 20, killed = []\<rparr> = None"
  by (rule pool_overflows) (auto simp: MAXCLIENT_def both_counted_def none_counted_def)

end
