(* ===== verification/Hanoi.thy ===== *)
theory Hanoi
  imports Prelude
begin

text \<open>
  The towers of Hanoi \<open>3.ybx/19.exercise/hannoi.c\<close> on three arrays with ten places, which the program shows after
  each move; and the Fibonacci numbers \<open>2.fibonacci.c\<close> there, by a loop and by recursion.
\<close>

section \<open>The towers\<close>

definition PILSIZE :: nat where "PILSIZE = 10"

record piller =
  stack :: "int list"
  num_of :: int

text \<open>The pillars, and what was shown: the state after each call of \<open>move\<close>.\<close>

record towers =
  pillars :: "piller list"
  shown :: "piller list list"

definition push_disk :: "int \<Rightarrow> nat \<Rightarrow> piller list \<Rightarrow> piller list option" where
  "push_disk val dest arr = do {
     d \<leftarrow> rd arr dest;
     st \<leftarrow> wri (stack d) (num_of d) val;
     n \<leftarrow> chk (num_of d + 1);
     wr arr dest (d\<lparr>stack := st, num_of := n\<rparr>) }"

definition pop_disk :: "nat \<Rightarrow> piller list \<Rightarrow> (int \<times> piller list) option" where
  "pop_disk src arr = do {
     s \<leftarrow> rd arr src;
     n \<leftarrow> chk (num_of s - 1);
     val \<leftarrow> rdi (stack s) n;
     arr1 \<leftarrow> wr arr src (s\<lparr>num_of := n\<rparr>);
     Some (val, arr1) }"

definition move_disk :: "nat \<Rightarrow> nat \<Rightarrow> towers \<Rightarrow> towers option" where
  "move_disk src dest t = do {
     (val, arr) \<leftarrow> pop_disk src (pillars t);
     arr1 \<leftarrow> push_disk val dest arr;
     Some (t\<lparr>pillars := arr1, shown := shown t @ [arr1]\<rparr>) }"

text \<open>The recursion has no end for a number below 1.\<close>

partial_function (option) hannoi :: "nat \<Rightarrow> nat \<Rightarrow> nat \<Rightarrow> int \<Rightarrow> towers \<Rightarrow> towers option" where
  "hannoi src dest temp n t =
     (if n = 1 then move_disk src dest t
      else do {
        n1 \<leftarrow> chk (n - 1);
        t1 \<leftarrow> hannoi src temp dest n1 t;
        t2 \<leftarrow> move_disk src dest t1;
        hannoi temp dest src n1 t2 })"

text \<open>What \<open>display\<close> prints for a pillar: its disks and a dash for each free place.\<close>

definition display_pillar :: "piller \<Rightarrow> int list \<times> nat" where
  "display_pillar p = (take (nat (num_of p)) (stack p), PILSIZE - nat (num_of p))"

definition hannoi_start :: towers where
  "hannoi_start = \<lparr>pillars = [\<lparr>stack = [6, 5, 4, 3, 2, 1, 0, 0, 0, 0], num_of = 6\<rparr>,
     \<lparr>stack = replicate PILSIZE 0, num_of = 0\<rparr>, \<lparr>stack = replicate PILSIZE 0, num_of = 0\<rparr>], shown = []\<rparr>"

definition hannoi_main :: "towers option" where
  "hannoi_main = hannoi 0 1 2 6 hannoi_start"

section \<open>Fibonacci numbers\<close>

function fib1_loop :: "int \<Rightarrow> int \<Rightarrow> int \<Rightarrow> int \<Rightarrow> int \<Rightarrow> int option" where
  "fib1_loop i n p1 p2 res =
     (if i \<le> n then do { sm \<leftarrow> chk (p1 + p2); i1 \<leftarrow> chk (i + 1); fib1_loop i1 n p2 sm sm } else Some res)"
  by pat_completeness auto
termination by (relation "measure (\<lambda>(i, n, p1, p2, res). nat (n + 1 - i))") (auto simp: chk_Some_iff)

declare fib1_loop.simps [simp del]

definition fib1 :: "int \<Rightarrow> int option" where
  "fib1 n = (if n \<le> 1 then Some 1 else fib1_loop 2 n 1 1 0)"

function fib2 :: "int \<Rightarrow> int option" where
  "fib2 n = (if n \<le> 1 then Some 1 else do { a \<leftarrow> fib2 (n - 1); b \<leftarrow> fib2 (n - 2); chk (a + b) })"
  by pat_completeness auto
termination by (relation "measure nat") auto

declare fib2.simps [simp del]

text \<open>The printing functions keep the numbers in an array of 100, initialised with \<open>1, 1\<close>.\<close>

function print_loop1 :: "int \<Rightarrow> int \<Rightarrow> int list \<Rightarrow> int list option" where
  "print_loop1 i num arr =
     (if i < num then do {
        a \<leftarrow> rdi arr (i - 1); b \<leftarrow> rdi arr (i - 2); sm \<leftarrow> chk (a + b); arr1 \<leftarrow> wri arr i sm;
        print_loop1 (i + 1) num arr1 }
      else Some arr)"
  by pat_completeness auto
termination by (relation "measure (\<lambda>(i, num, arr). nat (num - i))") auto

function print_loop2 :: "int \<Rightarrow> int \<Rightarrow> int list \<Rightarrow> int list option" where
  "print_loop2 i num arr =
     (if i < num then do { f \<leftarrow> fib2 i; arr1 \<leftarrow> wri arr i f; print_loop2 (i + 1) num arr1 } else Some arr)"
  by pat_completeness auto
termination by (relation "measure (\<lambda>(i, num, arr). nat (num - i))") auto

declare print_loop1.simps [simp del] print_loop2.simps [simp del]

definition print_first :: "int \<Rightarrow> int list \<Rightarrow> int list option" where
  "print_first num arr = (if nat num \<le> length arr then Some (take (nat num) arr) else None)"

definition print_fib1 :: "int \<Rightarrow> int list option" where
  "print_fib1 num =
     (if num \<le> 0 then Some []
      else if num \<le> 2 then print_first num (1 # 1 # replicate 98 0)
      else do { arr \<leftarrow> print_loop1 2 num (1 # 1 # replicate 98 0); print_first num arr })"

definition print_fib2 :: "int \<Rightarrow> int list option" where
  "print_fib2 num =
     (if num \<le> 0 then Some []
      else if num \<le> 2 then print_first num (1 # 1 # replicate 98 0)
      else do { arr \<leftarrow> print_loop2 2 num (1 # 1 # replicate 98 0); print_first num arr })"

section \<open>Pillars as lists\<close>

text \<open>The disks of a pillar from the lowest on; \<open>tower\<close>: smaller ones lie on larger ones.\<close>

definition disks :: "piller list \<Rightarrow> nat \<Rightarrow> int list" where
  "disks arr k = take (nat (num_of (arr ! k))) (stack (arr ! k))"

definition pillars_ok :: "piller list \<Rightarrow> bool" where
  "pillars_ok arr \<longleftrightarrow> length arr = 3 \<and> (\<forall>p \<in> set arr. length (stack p) = PILSIZE \<and> 0 \<le> num_of p \<and> num_of p \<le> int PILSIZE)"

definition tower :: "int list \<Rightarrow> bool" where
  "tower xs \<longleftrightarrow> sorted_wrt (>) xs"

definition legal :: "piller list \<Rightarrow> bool" where
  "legal arr \<longleftrightarrow> pillars_ok arr \<and> (\<forall>k < 3. tower (disks arr k))"

lemma pillars_okD:
  assumes "pillars_ok arr" "k < 3"
  shows "length (stack (arr ! k)) = PILSIZE" "num_of (arr ! k) = int (length (disks arr k))" "length (disks arr k) \<le> PILSIZE"
    "disks arr k = take (length (disks arr k)) (stack (arr ! k))"
proof -
  have "arr ! k \<in> set arr" using assms by (simp add: pillars_ok_def)
  then have p: "length (stack (arr ! k)) = PILSIZE \<and> 0 \<le> num_of (arr ! k) \<and> num_of (arr ! k) \<le> int PILSIZE"
    using assms by (simp add: pillars_ok_def)
  then show "length (stack (arr ! k)) = PILSIZE" "num_of (arr ! k) = int (length (disks arr k))" "length (disks arr k) \<le> PILSIZE"
    "disks arr k = take (length (disks arr k)) (stack (arr ! k))"
    by (auto simp: disks_def min_def nat_le_iff)
qed

text \<open>A move takes the top disk of one pillar to the top of another.\<close>

lemma move_disk_moves:
  assumes ok: "pillars_ok (pillars t)" and k: "src < 3" "dest < 3" "src \<noteq> dest"
    and ds: "disks (pillars t) src = ds @ [d]" and room: "length (disks (pillars t) dest) < PILSIZE"
  shows "\<exists>arr. move_disk src dest t = Some (t\<lparr>pillars := arr, shown := shown t @ [arr]\<rparr>) \<and> pillars_ok arr \<and>
    disks arr src = ds \<and> disks arr dest = disks (pillars t) dest @ [d] \<and> (\<forall>j < 3. j \<noteq> src \<and> j \<noteq> dest \<longrightarrow> disks arr j = disks (pillars t) j)"
proof -
  let ?a = "pillars t"
  note s = pillars_okD [OF ok k(1)] and e = pillars_okD [OF ok k(2)]
  have len: "length ?a = 3" using ok by (simp add: pillars_ok_def)
  have top: "stack (?a ! src) ! length ds = d" "take (length ds) (stack (?a ! src)) = ds"
    using s(4) ds by (metis nth_append_length nth_take lessI length_append_singleton, metis append_eq_conv_conj butlast_snoc butlast_take diff_Suc_1 length_append_singleton s(1,3))
  have n: "length ds < PILSIZE" using s(3) ds by simp
  define s1 where "s1 = (?a ! src)\<lparr>num_of := int (length ds)\<rparr>"
  define e1 where "e1 = (?a ! dest)\<lparr>stack := (stack (?a ! dest))[length (disks ?a dest) := d], num_of := int (length (disks ?a dest)) + 1\<rparr>"
  have "pop_disk src ?a = Some (d, ?a[src := s1])"
    using s(1,2) ds n top k(1) len by (simp add: pop_disk_def chk_def int_range_def PILSIZE_def s1_def)
  moreover have "push_disk d dest (?a[src := s1]) = Some (?a[src := s1, dest := e1])"
    using e(1,2) room k len by (simp add: push_disk_def chk_def int_range_def PILSIZE_def e1_def)
  moreover have "pillars_ok (?a[src := s1, dest := e1])"
    using ok n room e(1) s(1) by (auto simp: pillars_ok_def s1_def e1_def dest!: set_update_subset_insert [THEN subsetD])
  moreover have "disks (?a[src := s1, dest := e1]) dest = disks ?a dest @ [d]"
  proof -
    have "take (Suc (length (disks ?a dest))) ((stack (?a ! dest))[length (disks ?a dest) := d]) = disks ?a dest @ [d]"
      using e(1,4) room by (simp add: take_Suc_conv_app_nth take_update_swap)
    then show ?thesis using k(2) len by (simp add: disks_def [of "_[_ := _]"] e1_def nat_add_distrib)
  qed
  moreover have "disks (?a[src := s1, dest := e1]) src = ds" using k len top(2) by (simp add: disks_def s1_def)
  moreover have "\<forall>j < 3. j \<noteq> src \<and> j \<noteq> dest \<longrightarrow> disks (?a[src := s1, dest := e1]) j = disks ?a j" using k len by (auto simp: disks_def)
  ultimately show ?thesis by (auto simp: move_disk_def)
qed

lemma tower_append: "tower (xs @ ys) \<longleftrightarrow> tower xs \<and> tower ys \<and> (\<forall>x \<in> set xs. \<forall>y \<in> set ys. y < x)"
  by (auto simp: tower_def sorted_wrt_append)

lemma tower_one [simp]: "tower [d]"
  by (simp add: tower_def)

lemma tower_Cons: "tower (d # xs) \<longleftrightarrow> (\<forall>y \<in> set xs. y < d) \<and> tower xs"
  by (simp add: tower_def)

lemma legal_move:
  assumes "legal (pillars t)" "src < 3" "dest < 3" "src \<noteq> dest" "disks (pillars t) src = ds @ [d]"
    "length (disks (pillars t) dest) < PILSIZE" "\<forall>x \<in> set (disks (pillars t) dest). d < x"
  shows "\<exists>arr. move_disk src dest t = Some (t\<lparr>pillars := arr, shown := shown t @ [arr]\<rparr>) \<and> legal arr \<and>
    disks arr src = ds \<and> disks arr dest = disks (pillars t) dest @ [d] \<and> (\<forall>j < 3. j \<noteq> src \<and> j \<noteq> dest \<longrightarrow> disks arr j = disks (pillars t) j)"
proof -
  obtain arr where m: "move_disk src dest t = Some (t\<lparr>pillars := arr, shown := shown t @ [arr]\<rparr>)" "pillars_ok arr"
    "disks arr src = ds" "disks arr dest = disks (pillars t) dest @ [d]" "\<forall>j < 3. j \<noteq> src \<and> j \<noteq> dest \<longrightarrow> disks arr j = disks (pillars t) j"
    using move_disk_moves [OF _ assms(2-6)] assms(1) by (auto simp: legal_def)
  have "tower (disks arr k)" if "k < 3" for k
  proof -
    have t: "tower (ds @ [d])" "tower (disks (pillars t) dest)" "tower (disks (pillars t) k)"
      using assms(1-3,5) that unfolding legal_def by metis+
    have "tower ds" using t(1) by (simp add: tower_append)
    moreover have "tower (disks (pillars t) dest @ [d])" using t(2) assms(7) by (simp add: tower_append)
    ultimately show ?thesis using m(3-5) t(3) that by metis
  qed
  then show ?thesis using m by (auto simp: legal_def)
qed

lemma hannoi_tower:
  assumes "legal (pillars t)" "src < 3" "dest < 3" "temp < 3" "src \<noteq> dest" "src \<noteq> temp" "dest \<noteq> temp" "1 \<le> n" "length D = n"
    "disks (pillars t) src = S @ D" "\<forall>d \<in> set D. \<forall>x \<in> set (disks (pillars t) dest @ disks (pillars t) temp). d < x"
    "length (disks (pillars t) dest) + n \<le> PILSIZE" "length (disks (pillars t) temp) + n \<le> Suc PILSIZE"
  shows "\<exists>arr ms. hannoi src dest temp (int n) t = Some (t\<lparr>pillars := arr, shown := shown t @ ms\<rparr>) \<and> legal arr \<and>
    disks arr src = S \<and> disks arr dest = disks (pillars t) dest @ D \<and> disks arr temp = disks (pillars t) temp \<and>
    Suc (length ms) = 2 ^ n \<and> (\<forall>a \<in> set ms. legal a)"
  using assms
proof (induction n arbitrary: src dest temp t S D)
  case (Suc n)
  show ?case
  proof (cases "n = 0")
    case True
    then obtain d where "D = [d]" using Suc.prems(9) by (cases D) auto
    then show ?thesis using legal_move [of t src dest S d] Suc.prems True by (subst hannoi.simps) fastforce
  next
    case False
    obtain d D' where D: "D = d # D'" using Suc.prems(9) by (cases D) auto
    have "tower (S @ d # D')" using Suc.prems(1,2,10) D by (auto simp: legal_def)
    then have small: "\<forall>y \<in> set D'. y < d" "\<forall>y \<in> set D'. \<forall>x \<in> set S. y < x"
      by (simp_all add: tower_append tower_Cons)
    have len: "length S + Suc n \<le> PILSIZE" using pillars_okD(3) [of "pillars t" src] Suc.prems(1,2,9,10) by (auto simp: legal_def)
    let ?dest = "disks (pillars t) dest" and ?temp = "disks (pillars t) temp"
    have below: "\<forall>x \<in> set D'. \<forall>y \<in> set (?temp @ ?dest). x < y" using Suc.prems(11) D by auto
    obtain arr1 ms1 where 1: "hannoi src temp dest (int n) t = Some (t\<lparr>pillars := arr1, shown := shown t @ ms1\<rparr>)" "legal arr1"
      "disks arr1 src = S @ [d]" "disks arr1 temp = ?temp @ D'" "disks arr1 dest = ?dest" "Suc (length ms1) = 2 ^ n" "\<forall>a \<in> set ms1. legal a"
      using Suc.IH [of t src temp dest D' "S @ [d]"] Suc.prems below D False by auto
    obtain arr2 where 2: "move_disk src dest (t\<lparr>pillars := arr1, shown := shown t @ ms1\<rparr>) = Some (t\<lparr>pillars := arr2, shown := shown t @ ms1 @ [arr2]\<rparr>)"
      "legal arr2" "disks arr2 src = S" "disks arr2 dest = ?dest @ [d]" "disks arr2 temp = ?temp @ D'"
      using legal_move [of "t\<lparr>pillars := arr1, shown := shown t @ ms1\<rparr>" src dest S d] 1 Suc.prems D by auto
    have below2: "\<forall>x \<in> set D'. \<forall>y \<in> set (disks arr2 dest @ disks arr2 src). x < y" using below small 2(3,4) by auto
    obtain arr3 ms3 where 3: "hannoi temp dest src (int n) (t\<lparr>pillars := arr2, shown := shown t @ ms1 @ [arr2]\<rparr>) =
        Some (t\<lparr>pillars := arr3, shown := (shown t @ ms1 @ [arr2]) @ ms3\<rparr>)" "legal arr3"
      "disks arr3 temp = ?temp" "disks arr3 dest = (?dest @ [d]) @ D'" "disks arr3 src = S" "Suc (length ms3) = 2 ^ n" "\<forall>a \<in> set ms3. legal a"
      using Suc.IH [of "t\<lparr>pillars := arr2, shown := shown t @ ms1 @ [arr2]\<rparr>" temp dest src D' ?temp] 2 Suc.prems below2 D False len by auto
    have "int_range (int n)" using len by (simp add: int_range_def PILSIZE_def)
    then have "hannoi src dest temp (int (Suc n)) t = Some (t\<lparr>pillars := arr3, shown := shown t @ ms1 @ [arr2] @ ms3\<rparr>)"
      using 1(1) 2(1) 3(1) False by (subst hannoi.simps) (simp add: chk_def)
    then show ?thesis using 1(6,7) 2(2) 3 D by (intro exI [of _ arr3] exI [of _ "ms1 @ [arr2] @ ms3"]) auto
  qed
qed simp

text \<open>
  C37. The towers of Hanoi are solved: from pillars on which smaller disks lie on larger ones, \<open>hannoi\<close> with \<open>n\<close> from 1 on moves the
  upper \<open>n\<close> disks of the source to the destination and leaves everything else in place, in \<open>2 ^ n - 1\<close> moves of one disk, each of
  which is shown and leaves only smaller disks on larger ones, and within the ten places of each pillar; for
  the six disks of the program these are 63 moves.
\<close>
theorem hanoi_is_solved:
  assumes "legal (pillars t)" "src < 3" "dest < 3" "temp < 3" "src \<noteq> dest" "src \<noteq> temp" "dest \<noteq> temp" "1 \<le> length D"
    "disks (pillars t) src = S @ D" "\<forall>d \<in> set D. \<forall>x \<in> set (disks (pillars t) dest @ disks (pillars t) temp). d < x"
    "length (disks (pillars t) dest) + length D \<le> PILSIZE" "length (disks (pillars t) temp) + length D \<le> Suc PILSIZE"
  shows "\<exists>t' ms. hannoi src dest temp (int (length D)) t = Some t' \<and> shown t' = shown t @ ms \<and>
    length ms = 2 ^ length D - 1 \<and> (\<forall>arr \<in> set ms. legal arr) \<and>
    disks (pillars t') src = S \<and> disks (pillars t') dest = disks (pillars t) dest @ D \<and> disks (pillars t') temp = disks (pillars t) temp"
proof -
  obtain arr ms where h: "hannoi src dest temp (int (length D)) t = Some (t\<lparr>pillars := arr, shown := shown t @ ms\<rparr>)" "legal arr"
    "disks arr src = S" "disks arr dest = disks (pillars t) dest @ D" "disks arr temp = disks (pillars t) temp"
    "Suc (length ms) = 2 ^ length D" "\<forall>a \<in> set ms. legal a"
    using hannoi_tower [OF assms(1-8) refl assms(9-12)] by blast
  have "length ms = 2 ^ length D - 1" using h(6) by linarith
  then show ?thesis using h by (intro exI conjI) (assumption, simp_all)
qed

lemma start_legal: "legal (pillars hannoi_start)" "disks (pillars hannoi_start) 0 = [6, 5, 4, 3, 2, 1]"
  "disks (pillars hannoi_start) 1 = []" "disks (pillars hannoi_start) 2 = []"
proof -
  have d: "disks (pillars hannoi_start) 0 = [6, 5, 4, 3, 2, 1]" "disks (pillars hannoi_start) 1 = []" "disks (pillars hannoi_start) 2 = []"
    by (simp_all add: disks_def hannoi_start_def numeral_eq_Suc)
  have "k = 0 \<or> k = 1 \<or> k = 2" if "k < 3" for k :: nat using that by auto
  moreover have "tower []" "tower [6, 5, 4, 3, 2, 1]" by (simp_all add: tower_def)
  ultimately have "\<forall>k < 3. tower (disks (pillars hannoi_start) k)" using d by metis
  moreover have "pillars_ok (pillars hannoi_start)" by (auto simp: pillars_ok_def hannoi_start_def PILSIZE_def)
  ultimately show "legal (pillars hannoi_start)" by (simp add: legal_def)
qed (simp_all add: disks_def hannoi_start_def numeral_eq_Suc)

theorem hanoi_is_solved_witness:
  "\<exists>t'. hannoi_main = Some t' \<and> length (shown t') = 63 \<and> disks (pillars t') 1 = [6, 5, 4, 3, 2, 1]"
  using hanoi_is_solved [of hannoi_start 0 1 2 "[6, 5, 4, 3, 2, 1]" "[]"] start_legal
  by (auto simp: hannoi_main_def PILSIZE_def hannoi_start_def)

section \<open>Both Fibonacci functions\<close>

fun fibn :: "nat \<Rightarrow> int" where
  "fibn 0 = 1"
| "fibn (Suc 0) = 1"
| "fibn (Suc (Suc n)) = fibn (Suc n) + fibn n"

lemma fibn_pos: "1 \<le> fibn n"
  by (induction n rule: fibn.induct) auto

lemma fibn_mono: "m \<le> n \<Longrightarrow> fibn m \<le> fibn n"
proof (induction n rule: dec_induct)
  case (step n)
  have "fibn n \<le> fibn (Suc n)" using fibn_pos [of "n - 1"] by (cases n) auto
  then show ?case using step by linarith
qed simp

lemma fibn_large: "int n \<le> fibn n + 1 \<and> (4 \<le> n \<longrightarrow> int n + 1 \<le> fibn n)"
proof (induction n rule: less_induct)
  case (less n)
  show ?case
  proof (cases "6 \<le> n")
    case True
    then obtain k where "n = Suc (Suc k)" "4 \<le> k" by (metis Suc_le_D Suc_le_mono numeral_eq_Suc pred_numeral_simps(2,3) semiring_norm(26,27,28))
    then show ?thesis using less [of k] less [of "Suc k"] by auto
  next
    case False
    then have "n \<in> {0, 1, 2, 3, 4, 5}" by auto
    then show ?thesis by (auto simp: numeral_eq_Suc)
  qed
qed

lemma fib2_fibn: "fib2 (int n) = (if fibn n < 2 ^ 31 then Some (fibn n) else None)"
proof (induction n rule: fibn.induct)
  case (3 n)
  have "fib2 (int (Suc (Suc n))) = do { a \<leftarrow> fib2 (int (Suc n)); b \<leftarrow> fib2 (int n); chk (a + b) }"
    by (subst fib2.simps) simp
  then show ?case using 3 fibn_pos [of n] fibn_pos [of "Suc n"] by (auto simp: chk_def int_range_def)
qed (simp_all add: fib2.simps)

lemma fib1_loop_fibn:
  "Suc (Suc k) \<le> n \<Longrightarrow> fib1_loop (int (Suc (Suc k))) (int n) (fibn k) (fibn (Suc k)) res = (if fibn n < 2 ^ 31 then Some (fibn n) else None)"
proof (induction "n - k" arbitrary: k res rule: less_induct)
  case less
  let ?i = "Suc (Suc k)"
  have step: "fib1_loop (int ?i) (int n) (fibn k) (fibn (Suc k)) res =
      do { sm \<leftarrow> chk (fibn ?i); i1 \<leftarrow> chk (int ?i + 1); fib1_loop i1 (int n) (fibn (Suc k)) sm sm }"
    using less.prems by (subst fib1_loop.simps) (simp add: add.commute)
  show ?case
  proof (cases "fibn ?i < 2 ^ 31")
    case False
    then have "\<not> fibn n < 2 ^ 31" using fibn_mono [OF less.prems] by linarith
    then show ?thesis using False step by (simp add: chk_def int_range_def)
  next
    case True
    have "int_range (fibn ?i)" using True fibn_pos [of ?i] by (simp add: int_range_def)
    moreover have "int ?i + 1 < 2 ^ 31" using True fibn_large [of ?i] by (cases "4 \<le> ?i") auto
    then have "int_range (int ?i + 1)" by (simp add: int_range_def)
    ultimately have eq: "fib1_loop (int ?i) (int n) (fibn k) (fibn (Suc k)) res = fib1_loop (int (Suc ?i)) (int n) (fibn (Suc k)) (fibn ?i) (fibn ?i)"
      using step by (simp add: chk_def add.commute)
    show ?thesis
    proof (cases "n = ?i")
      case True
      then show ?thesis using eq \<open>fibn ?i < 2 ^ 31\<close> by (subst eq, subst fib1_loop.simps) simp
    next
      case False
      then show ?thesis using eq less.hyps [of "Suc k" "fibn ?i"] less.prems by simp
    qed
  qed
qed

lemma print_loops_agree:
  "2 \<le> i \<Longrightarrow> \<forall>j < i. arr ! j = fibn j \<Longrightarrow> i \<le> length arr \<Longrightarrow> print_loop1 (int i) num arr = print_loop2 (int i) num arr"
proof (induction "nat (num - int i)" arbitrary: i arr rule: less_induct)
  case less
  show ?case
  proof (cases "int i < num")
    case False
    then show ?thesis by (simp add: print_loop1.simps print_loop2.simps)
  next
    case True
    obtain k where k: "i = Suc (Suc k)" using less.prems(1) that [of "i - 2"] by simp
    have "arr ! Suc k = fibn (Suc k)" "arr ! k = fibn k" using less.prems(2) k by auto
    moreover have "int i - 1 = int (Suc k)" "int i - 2 = int k" using k by simp_all
    moreover have "Suc k < length arr" using less.prems(3) k by simp
    ultimately have "rdi arr (int i - 1) = Some (fibn (Suc k))" "rdi arr (int i - 2) = Some (fibn k)" by (simp_all only: rdi_int) simp_all
    then have l1: "print_loop1 (int i) num arr = do { sm \<leftarrow> chk (fibn i); arr1 \<leftarrow> wri arr (int i) sm; print_loop1 (int (Suc i)) num arr1 }"
      using True k by (subst print_loop1.simps) (simp add: add.commute)
    have "fib2 (int i) = chk (fibn i)" using fib2_fibn [of i] fibn_pos [of i] by (auto simp: chk_def int_range_def)
    then have l2: "print_loop2 (int i) num arr = do { sm \<leftarrow> chk (fibn i); arr1 \<leftarrow> wri arr (int i) sm; print_loop2 (int (Suc i)) num arr1 }"
      using True by (subst print_loop2.simps) (simp add: add.commute)
    have "print_loop1 (int (Suc i)) num (arr[i := fibn i]) = print_loop2 (int (Suc i)) num (arr[i := fibn i])" if "i < length arr"
      by (rule less.hyps) (use True less.prems that in \<open>auto simp: nth_list_update less_Suc_eq\<close>)
    then show ?thesis unfolding l1 l2 by (auto simp: wr_def chk_def)
  qed
qed

lemma prints_agree: "print_fib1 num = print_fib2 num"
proof -
  have "\<forall>j < 2. (1 # 1 # replicate 98 (0::int)) ! j = fibn j" by (auto simp: less_2_cases_iff)
  then show ?thesis using print_loops_agree [of 2 "1 # 1 # replicate 98 0" num] by (simp add: print_fib1_def print_fib2_def)
qed

text \<open>
  The loop and the recursion compute the same Fibonacci numbers for every argument, both overflow an
  \<open>int\<close> exactly from 46 on, and both printing functions print the same.
\<close>
theorem fibonacci_versions_agree: "fib1 n = fib2 n \<and> (fib1 n = None \<longleftrightarrow> 46 \<le> n) \<and> print_fib1 n = print_fib2 n"
proof (cases "n \<le> 1")
  case True
  then show ?thesis by (simp add: fib1_def fib2.simps prints_agree)
next
  case False
  then have n: "n = int (nat n)" "2 \<le> nat n" by auto
  have f: "fib1 (int m) = (if fibn m < 2 ^ 31 then Some (fibn m) else None)" if "2 \<le> m" for m
    using fib1_loop_fibn [of 0 m 0] that by (simp add: fib1_def numeral_eq_Suc)
  have "fib1 45 \<noteq> None" "fib1 46 = None" by code_simp+
  then have b: "fibn 45 < 2 ^ 31" "\<not> fibn 46 < 2 ^ 31" using f [of 45] f [of 46] by (auto split: if_splits)
  have "fibn (nat n) < 2 ^ 31 \<longleftrightarrow> \<not> 46 \<le> n"
    using b fibn_mono [of "nat n" 45] fibn_mono [of 46 "nat n"] False by (cases "46 \<le> n") linarith+
  then show ?thesis using f [OF n(2)] fib2_fibn [of "nat n"] n(1) prints_agree by auto
qed

end
