(* ===== verification/Itoa.thy ===== *)
theory Itoa
  imports Prelude "HOL-Library.Word"
begin

text \<open>
  Writing a number in decimal, \<open>1.zhang/2.c/day06/itoa.c\<close>: \<open>itoa_r\<close> by recursion, and \<open>itoa\<close> by a loop that writes the
  digits backwards and swaps them with exclusive or.  A buffer is a list of bytes.
\<close>

unbundle bit_operations_syntax

section \<open>The functions\<close>

type_synonym byte = "8 word"

text \<open>The character \<open>data%10 + '0'\<close>; the remainder has the sign of \<open>data\<close>.\<close>

definition digit_byte :: "int \<Rightarrow> byte" where
  "digit_byte data = word_of_int (sgn data * (\<bar>data\<bar> mod 10) + 48)"

lemma cdiv_less: "cdiv data 10 = Some q \<Longrightarrow> data \<noteq> 0 \<Longrightarrow> nat \<bar>q\<bar> < nat \<bar>data\<bar>"
  by (auto simp: cdiv_def chk_Some_iff abs_mult sgn_if split: if_splits)

function itoa_rec :: "byte list \<Rightarrow> int \<Rightarrow> (int \<times> byte list) option" where
  "itoa_rec p data =
     (if data = 0 then Some (0, p)
      else do {
        q \<leftarrow> cdiv data 10;
        (index, p1) \<leftarrow> itoa_rec p q;
        p2 \<leftarrow> wri p1 index (digit_byte data);
        i \<leftarrow> chk (index + 1);
        Some (i, p2) })"
  by pat_completeness auto
termination by (relation "measure (\<lambda>(p, data). nat \<bar>data\<bar>)") (auto dest: cdiv_less)

declare itoa_rec.simps [simp del]

definition itoa_r :: "byte list \<Rightarrow> int \<Rightarrow> byte list option" where
  "itoa_r p num =
     (if num = 0 then do { p1 \<leftarrow> wr p 0 48; wr p1 1 0 }
      else do { (ind, p1) \<leftarrow> itoa_rec p num; wri p1 ind 0 })"

function reverse_swaps :: "byte list \<Rightarrow> int \<Rightarrow> int \<Rightarrow> byte list option" where
  "reverse_swaps a p q =
     (if p < q then do {
        x \<leftarrow> rdi a p; y \<leftarrow> rdi a q; a1 \<leftarrow> wri a p (x XOR y);
        x1 \<leftarrow> rdi a1 p; y1 \<leftarrow> rdi a1 q; a2 \<leftarrow> wri a1 q (x1 XOR y1);
        x2 \<leftarrow> rdi a2 p; y2 \<leftarrow> rdi a2 q; a3 \<leftarrow> wri a2 p (x2 XOR y2);
        reverse_swaps a3 (p + 1) (q - 1) }
      else Some a)"
  by pat_completeness auto
termination by (relation "measure (\<lambda>(a, p, q). nat (q - p))") auto

declare reverse_swaps.simps [simp del]

definition reverse :: "byte list \<Rightarrow> int \<Rightarrow> byte list option" where
  "reverse a len = reverse_swaps a 0 (len - 1)"

function itoa_loop :: "byte list \<Rightarrow> nat \<Rightarrow> int \<Rightarrow> (nat \<times> byte list) option" where
  "itoa_loop a p num =
     (if num \<noteq> 0 then do {
        a1 \<leftarrow> wr a p (digit_byte num);
        q \<leftarrow> cdiv num 10;
        itoa_loop a1 (Suc p) q }
      else Some (p, a))"
  by pat_completeness auto
termination by (relation "measure (\<lambda>(a, p, num). nat \<bar>num\<bar>)") (auto dest: cdiv_less)

declare itoa_loop.simps [simp del]

text \<open>\<open>strlen\<close>: undefined without a terminating 0 in the buffer.\<close>

fun str_len :: "byte list \<Rightarrow> nat option" where
  "str_len [] = None"
| "str_len (c # cs) = (if c = 0 then Some 0 else do { n \<leftarrow> str_len cs; Some (Suc n) })"

definition itoa :: "byte list \<Rightarrow> int \<Rightarrow> byte list option" where
  "itoa a num = do {
     (p, a1) \<leftarrow> itoa_loop a 0 num;
     a2 \<leftarrow> wr a1 p 0;
     n \<leftarrow> str_len a2;
     reverse a2 (int n) }"

section \<open>Digits\<close>

fun decimals :: "nat \<Rightarrow> nat list" where
  "decimals n = (if n = 0 then [] else decimals (n div 10) @ [n mod 10])"

declare decimals.simps [simp del]

definition digits_of :: "nat \<Rightarrow> byte list" where
  "digits_of n = map (\<lambda>d. of_nat (d + 48)) (decimals n)"

text \<open>Reading a string of digits up to its 0; \<open>None\<close> for another character.\<close>

fun read_digits :: "nat \<Rightarrow> byte list \<Rightarrow> nat option" where
  "read_digits v [] = None"
| "read_digits v (c # cs) =
     (if c = 0 then Some v else if 48 \<le> unat c \<and> unat c < 58 then read_digits (10 * v + (unat c - 48)) cs else None)"

lemma digits_step: "0 < n \<Longrightarrow> digits_of n = digits_of (n div 10) @ [of_nat (n mod 10 + 48)]"
  by (simp add: digits_of_def decimals.simps [of n])

lemma digits_0 [simp]: "digits_of 0 = []"
  by (simp add: digits_of_def decimals.simps)

lemma digit_byte_nat: "digit_byte (int n) = of_nat (n mod 10 + 48)"
proof -
  have eq: "sgn (int n) * (\<bar>int n\<bar> mod 10) + 48 = int (n mod 10 + 48)"
    by (cases "n = 0") (simp_all add: zmod_int)
  show ?thesis unfolding digit_byte_def eq by (rule of_int_of_nat_eq)
qed

lemma unat_digit: "d < 10 \<Longrightarrow> unat (of_nat (d + 48) :: byte) = d + 48"
  by (subst unat_of_nat) simp

lemma cdiv_10: "int_range (int n) \<Longrightarrow> cdiv (int n) 10 = Some (int (n div 10))"
  by (auto simp: cdiv_def chk_def int_range_def sgn_if zdiv_int)

lemma read_digits_append:
  "(\<And>d. d \<in> set ds \<Longrightarrow> d < 10) \<Longrightarrow>
   read_digits v (map (\<lambda>d. of_nat (d + 48)) ds @ cs) = read_digits (foldl (\<lambda>v d. 10 * v + d) v ds) cs"
proof (induction ds arbitrary: v)
  case (Cons d ds)
  have "unat (of_nat (d + 48) :: byte) = d + 48" "(of_nat (d + 48) :: byte) \<noteq> 0"
    using unat_digit [of d] Cons.prems [of d] by auto
  then show ?case using Cons.IH [of "10 * v + d"] Cons.prems by simp
qed simp

lemma decimals_value: "foldl (\<lambda>v d. 10 * v + d) 0 (decimals n) = n \<and> (\<forall>d \<in> set (decimals n). d < 10)"
proof (induction n rule: decimals.induct)
  case (1 n)
  then show ?case by (subst (1 2) decimals.simps) auto
qed

lemma read_digits_of: "read_digits 0 (digits_of n @ 0 # cs) = Some n"
  using read_digits_append [of "decimals n" 0 "0 # cs"] decimals_value [of n] by (simp add: digits_of_def)

lemma length_digits: "n < 10 ^ k \<Longrightarrow> length (digits_of n) \<le> k"
proof (induction k arbitrary: n)
  case (Suc k)
  then have "n div 10 < 10 ^ k" by (simp add: less_mult_imp_div_less mult.commute)
  then show ?case using Suc.IH [of "n div 10"] digits_step [of n] by (cases "n = 0") auto
qed simp

lemma digits_nonzero: "c \<in> set (digits_of n) \<Longrightarrow> c \<noteq> 0"
proof
  assume "c \<in> set (digits_of n)" "c = 0"
  then obtain d where d: "c = of_nat (d + 48)" "d \<in> set (decimals n)" by (auto simp only: digits_of_def set_map image_iff)
  then have "unat c = d + 48" using unat_digit [of d] decimals_value [of n] by auto
  then show False using \<open>c = 0\<close> by simp
qed

text \<open>The recursion.\<close>

lemma itoa_rec_digits:
  "int_range (int n) \<Longrightarrow> length (digits_of n) \<le> length p \<Longrightarrow>
   itoa_rec p (int n) = Some (int (length (digits_of n)), digits_of n @ drop (length (digits_of n)) p)"
proof (induction n rule: less_induct)
  case (less n)
  show ?case
  proof (cases "n = 0")
    case True
    then show ?thesis by (simp add: itoa_rec.simps)
  next
    case False
    let ?m = "n div 10" and ?k = "length (digits_of (n div 10))"
    have d: "digits_of n = digits_of ?m @ [digit_byte (int n)]" using digits_step [of n] False by (simp add: digit_byte_nat)
    have m: "int_range (int ?m)" "?k < length p" using less.prems d by (auto simp: int_range_def)
    have "itoa_rec p (int ?m) = Some (int ?k, digits_of ?m @ drop ?k p)" using less.IH [of ?m] m False by simp
    moreover have "length (digits_of ?m) \<le> 10" using m(1) by (intro length_digits) (simp add: int_range_def)
    then have "int_range (int ?k + 1)" by (simp add: int_range_def)
    moreover have "(digits_of ?m @ drop ?k p)[?k := c] = digits_of ?m @ c # drop (Suc ?k) p" for c
      using m(2) by (simp add: list_update_append Cons_nth_drop_Suc [symmetric])
    ultimately show ?thesis using False m(2) less.prems(1)
      by (subst itoa_rec.simps) (simp add: cdiv_10 d chk_def)
  qed
qed

text \<open>The loop, and the swaps.\<close>

lemma itoa_loop_digits:
  "int_range (int n) \<Longrightarrow> length xs + length (digits_of n) \<le> length xs + length ys \<Longrightarrow>
   itoa_loop (xs @ ys) (length xs) (int n) =
     Some (length xs + length (digits_of n), xs @ rev (digits_of n) @ drop (length (digits_of n)) ys)"
proof (induction n arbitrary: xs ys rule: less_induct)
  case (less n)
  show ?case
  proof (cases "n = 0")
    case True
    then show ?thesis by (simp add: itoa_loop.simps)
  next
    case False
    let ?c = "digit_byte (int n)"
    have d: "digits_of n = digits_of (n div 10) @ [?c]" using digits_step [of n] False by (simp add: digit_byte_nat)
    then obtain y ys' where y: "ys = y # ys'" using less.prems(2) by (cases ys) auto
    have "itoa_loop (xs @ ys) (length xs) (int n) = itoa_loop ((xs @ [?c]) @ ys') (length (xs @ [?c])) (int (n div 10))"
      using False less.prems(1) by (subst itoa_loop.simps) (simp add: cdiv_10 y)
    moreover have "int_range (int (n div 10))" using less.prems(1) by (auto simp: int_range_def)
    ultimately show ?thesis using less.IH [of "n div 10" "xs @ [?c]" ys'] less.prems(2) False d y by simp
  qed
qed

lemma str_len_string: "(\<And>c. c \<in> set cs \<Longrightarrow> c \<noteq> 0) \<Longrightarrow> str_len (cs @ 0 # ds) = Some (length cs)"
  by (induction cs) auto

lemma xor_swap: "((x XOR y) XOR ((x XOR y) XOR y)) = (y :: byte)" "(x XOR y) XOR y = (x :: byte)"
  by (simp_all add: bit_eq_iff bit_xor_iff) blast+

lemma reverse_step:
  assumes "i < j" "j < length a"
  shows "reverse_swaps a (int i) (int j) = reverse_swaps (a[i := a ! j, j := a ! i]) (int i + 1) (int j - 1)"
proof -
  have "a[i := a ! i XOR a ! j, j := a ! i, i := a ! j] = a[i := a ! j, j := a ! i]"
    using assms by (simp add: list_update_swap)
  then show ?thesis using assms by (subst reverse_swaps.simps) (simp add: xor_swap)
qed

lemma reverse_swaps_rev:
  "reverse_swaps (xs @ ys @ zs) (int (length xs)) (int (length xs) + int (length ys) - 1) = Some (xs @ rev ys @ zs)"
proof (induction "length ys" arbitrary: xs ys zs rule: less_induct)
  case less
  show ?case
  proof (cases "2 \<le> length ys")
    case False
    then have "length ys = 0 \<or> length ys = 1" by linarith
    then show ?thesis by (subst reverse_swaps.simps) (auto simp: length_Suc_conv)
  next
    case True
    then obtain x ms y where ys: "ys = x # ms @ [y]" by (cases ys; cases "tl ys" rule: rev_cases) auto
    have q: "int (length xs) + int (length ys) - 1 = int (length xs + Suc (length ms))" by (simp add: ys)
    have "reverse_swaps (xs @ ys @ zs) (int (length xs)) (int (length xs + Suc (length ms))) =
       reverse_swaps ((xs @ [y]) @ ms @ (x # zs)) (int (length xs) + 1) (int (length xs + Suc (length ms)) - 1)"
      by (subst reverse_step) (simp_all add: ys nth_append list_update_append)
    also have "\<dots> = Some ((xs @ [y]) @ rev ms @ (x # zs))"
      using less [of ms "xs @ [y]" "x # zs"] by (simp add: ys add.commute)
    finally show ?thesis unfolding q by (simp add: ys)
  qed
qed

section \<open>Both versions\<close>

text \<open>
  C39. Written numbers are read back: for every positive \<open>int\<close> and a buffer of at least 11 bytes, the recursive and the loop
  version succeed, leave the same digits and their terminating 0 in the buffer, and reading the
  digits gives the number.  They differ for 0, which only the recursive version writes; the other leaves an
  empty string.
\<close>
theorem itoa_round_trip:
  assumes "0 < num" "int_range num" "11 \<le> length p"
  shows "\<exists>q r. itoa_r p num = Some q \<and> itoa p num = Some r \<and> read_digits 0 q = Some (nat num) \<and> read_digits 0 r = Some (nat num) \<and>
    take (Suc (length (digits_of (nat num)))) q = take (Suc (length (digits_of (nat num)))) r \<and>
    itoa_r p 0 = Some (p[0 := 48, 1 := 0]) \<and> itoa p 0 = Some (p[0 := 0])"
proof -
  define n where "n = nat num"
  define k where "k = length (digits_of n)"
  have n: "num = int n" "0 < n" "int_range (int n)" using assms(1,2) by (auto simp: n_def)
  have k: "k \<le> 10" unfolding k_def using n(3) by (intro length_digits) (simp add: int_range_def)
  obtain b bs where rest: "drop k p = b # bs" using k assms(3) by (cases "drop k p") auto
  have "itoa_rec p num = Some (int k, digits_of n @ b # bs)"
    using itoa_rec_digits [of n p] n k assms(3) rest by (simp add: k_def)
  then have r: "itoa_r p num = Some (digits_of n @ 0 # bs)"
    using assms(1) by (simp add: itoa_r_def k_def list_update_append)
  have "itoa_loop p 0 num = Some (k, rev (digits_of n) @ b # bs)"
    using itoa_loop_digits [of n "[]" p] n k assms(3) rest by (simp add: k_def)
  moreover have "str_len (rev (digits_of n) @ 0 # bs) = Some k"
    using str_len_string [of "rev (digits_of n)" bs] digits_nonzero [of _ n] by (simp add: k_def)
  moreover have "reverse (rev (digits_of n) @ 0 # bs) (int k) = Some (digits_of n @ 0 # bs)"
    using reverse_swaps_rev [of "[]" "rev (digits_of n)" "0 # bs"] by (simp add: reverse_def k_def)
  ultimately have i: "itoa p num = Some (digits_of n @ 0 # bs)" by (simp add: itoa_def k_def list_update_append)
  obtain c cs where p: "p = c # cs" "cs \<noteq> []" using assms(3) by (cases p) fastforce+
  have "itoa_loop p 0 0 = Some (0, p)" "reverse (0 # cs) 0 = Some (0 # cs)"
    by (simp_all add: itoa_loop.simps reverse_def reverse_swaps.simps)
  then have "itoa p 0 = Some (p[0 := 0])" using p by (simp add: itoa_def)
  moreover have "itoa_r p 0 = Some (p[0 := 48, 1 := 0])" using p by (simp add: itoa_r_def wr_def)
  ultimately show ?thesis using r i read_digits_of [of n bs] by (simp add: n_def)
qed

theorem itoa_round_trip_witness:
  "\<exists>q r. itoa_r (replicate 11 0) 12345 = Some q \<and> itoa (replicate 11 0) 12345 = Some r \<and> read_digits 0 q = Some 12345 \<and> read_digits 0 r = Some 12345"
  using itoa_round_trip [of 12345 "replicate 11 0"] by (auto simp: int_range_def)

end
