(* ===== verification/SlowCat.thy ===== *)
theory SlowCat
  imports TokenBucket
begin

text \<open>
  The slow \<open>cat\<close>, \<open>3.ybx/3.apue/7.sginal/22_37.mytbf/37.mytbf_sigaction_and_setitimer/main.c\<close>, the program the token
  bucket of theory TokenBucket was written for: it copies a file to the standard output at \<open>CPS\<close> bytes per second.
  What the operating system does is a list of events: each call of \<open>mytbf_fetchtoken\<close> takes the signals of the next event, each
  \<open>open\<close>, \<open>read\<close> and \<open>write\<close> the signals that come before it returns and its result.  When the events are
  used up the program is waiting in the call it has reached.
\<close>

section \<open>The program\<close>

definition CPS :: int where "CPS = 10"
definition BUFSIZE_cat :: int where "BUFSIZE_cat = 1024"
definition BURST :: int where "BURST = 100"

text \<open>A call is interrupted, fails with another error, or moves bytes: as many as are offered, but at least one
  from a file that is not at its end for \<open>read\<close>, and not more than asked for.\<close>

datatype sys_result = Interrupted | Failed | Moves nat

record event =
  ev_sig :: signals
  ev_codes :: "int list"
  ev_res :: sys_result

record cat_state =
  cat_tb :: tb_module
  cat_in :: "nat list"
  cat_out :: "nat list"
  cat_str :: "nat list"

datatype progress =
    Waiting cat_state
  | Exits int cat_state
  | Goes nat "event list" cat_state

text \<open>Going on after a part of the program that has neither left \<open>main\<close> nor used up the events.\<close>

definition and_then :: "progress option \<Rightarrow> (nat \<Rightarrow> event list \<Rightarrow> cat_state \<Rightarrow> progress option) \<Rightarrow> progress option" where
  "and_then r f = (case r of Some (Goes k es s) \<Rightarrow> f k es s | _ \<Rightarrow> r)"

lemma and_then_simps [simp]:
  "and_then None f = None" "and_then (Some (Waiting s)) f = Some (Waiting s)" "and_then (Some (Exits c s)) f = Some (Exits c s)"
  "and_then (Some (Goes k es s)) f = f k es s"
  by (simp_all add: and_then_def)

lemma and_then_Goes: "and_then r f = Some (Goes k es s) \<longleftrightarrow> (\<exists>j es1 s1. r = Some (Goes j es1 s1) \<and> f j es1 s1 = Some (Goes k es s))"
  by (auto simp: and_then_def split: option.split progress.split)

lemma and_then_cong [fundef_cong]:
  "r = r' \<Longrightarrow> (\<And>k es s. r' = Some (Goes k es s) \<Longrightarrow> f k es s = f' k es s) \<Longrightarrow> and_then r f = and_then r' f'"
  by (auto simp: and_then_def split: option.split progress.split)

definition on_signals :: "event \<Rightarrow> cat_state \<Rightarrow> cat_state option" where
  "on_signals e s = do { tb \<leftarrow> alrm_handlers (ev_codes e) (cat_tb s); Some (s\<lparr>cat_tb := tb\<rparr>) }"

definition sys_read :: "nat \<Rightarrow> int \<Rightarrow> cat_state \<Rightarrow> (nat \<times> cat_state) option" where
  "sys_read k n s =
     (let num = min (min (max 1 k) (nat n)) (length (cat_in s)) in
      if num > length (cat_str s) then None
      else Some (num, s\<lparr>cat_in := drop num (cat_in s), cat_str := take num (cat_in s) @ drop num (cat_str s)\<rparr>))"

definition sys_write :: "nat \<Rightarrow> nat \<Rightarrow> nat \<Rightarrow> cat_state \<Rightarrow> (nat \<times> cat_state) option" where
  "sys_write k pos num s =
     (let ret = min k num in
      if pos + num > length (cat_str s) then None
      else Some (ret, s\<lparr>cat_out := cat_out s @ take ret (drop pos (cat_str s))\<rparr>))"

text \<open>\<open>while ((fd1 = open(...)) < 0)\<close>, \<open>while ((num = read(...)) < 0)\<close> and \<open>while (num > 0)\<close> around \<open>write\<close>.\<close>

fun open_loop :: "event list \<Rightarrow> cat_state \<Rightarrow> progress option" where
  "open_loop [] s = Some (Waiting s)"
| "open_loop (e # es) s = do {
     s1 \<leftarrow> on_signals e s;
     case ev_res e of
       Interrupted \<Rightarrow> open_loop es s1
     | Failed \<Rightarrow> Some (Exits (-1) s1)
     | Moves k \<Rightarrow> Some (Goes 0 es s1) }"

fun cat_read_loop :: "event list \<Rightarrow> int \<Rightarrow> cat_state \<Rightarrow> progress option" where
  "cat_read_loop [] n s = Some (Waiting s)"
| "cat_read_loop (e # es) n s = do {
     s1 \<leftarrow> on_signals e s;
     case ev_res e of
       Interrupted \<Rightarrow> cat_read_loop es n s1
     | Failed \<Rightarrow> Some (Exits (-3) s1)
     | Moves k \<Rightarrow> do { (num, s2) \<leftarrow> sys_read k n s1; Some (Goes num es s2) } }"

fun cat_write_loop :: "event list \<Rightarrow> nat \<Rightarrow> nat \<Rightarrow> cat_state \<Rightarrow> progress option" where
  "cat_write_loop es pos num s =
     (if num > 0 then
        (case es of
           [] \<Rightarrow> Some (Waiting s)
         | e # es1 \<Rightarrow> do {
             s1 \<leftarrow> on_signals e s;
             case ev_res e of
               Interrupted \<Rightarrow> cat_write_loop es1 pos num s1
             | Failed \<Rightarrow> Some (Exits (-2) s1)
             | Moves k \<Rightarrow> do { (ret, s2) \<leftarrow> sys_write k pos num s1; cat_write_loop es1 (pos + ret) (num - ret) s2 } })
      else Some (Goes 0 es s))"

declare cat_write_loop.simps [simp del]

text \<open>The part of an iteration after the fetch of \<open>n\<close> tokens; \<open>Goes 0\<close> is the \<open>break\<close> at the end of the file,
  \<open>Goes 1\<close> the end of the iteration.\<close>

definition give_back :: "nat \<Rightarrow> int \<Rightarrow> nat \<Rightarrow> cat_state \<Rightarrow> cat_state option" where
  "give_back p n num s =
     (if n > int num then do { (_, tb) \<leftarrow> mytbf_returntoken p (n - int num) (cat_tb s); Some (s\<lparr>cat_tb := tb\<rparr>) } else Some s)"

definition cat_round :: "nat \<Rightarrow> event list \<Rightarrow> int \<Rightarrow> cat_state \<Rightarrow> progress option" where
  "cat_round p es n s =
     and_then (cat_read_loop es n s) (\<lambda>num es1 s1.
       if num = 0 then Some (Goes 0 es1 s1)
       else do {
         s2 \<leftarrow> give_back p n num s1;
         and_then (cat_write_loop es1 0 num s2) (\<lambda>_ es2 s3. Some (Goes 1 es2 s3)) })"

lemma cat_read_shrinks: "cat_read_loop es n s = Some (Goes num es1 s1) \<Longrightarrow> length es1 < length es"
proof (induction es arbitrary: s)
  case (Cons e es)
  show ?case
  proof (cases "ev_res e")
    case Interrupted
    then show ?thesis using Cons.prems Cons.IH by (fastforce simp: bind_eq_Some_conv)
  qed (use Cons.prems in \<open>auto simp: bind_eq_Some_conv\<close>)
qed simp

lemma cat_write_shrinks: "cat_write_loop es pos num s = Some (Goes x es1 s1) \<Longrightarrow> length es1 \<le> length es"
proof (induction es arbitrary: pos num s)
  case Nil
  then show ?case by (simp add: cat_write_loop.simps split: if_splits)
next
  case (Cons e es)
  show ?case
  proof (cases "num = 0")
    case True
    then show ?thesis using Cons.prems by (simp add: cat_write_loop.simps)
  next
    case False
    then obtain s2 where s2: "on_signals e s = Some s2" using Cons.prems
      by (auto simp: cat_write_loop.simps [of "e # es"] bind_eq_Some_conv)
    show ?thesis
    proof (cases "ev_res e")
      case Interrupted
      then show ?thesis using Cons.prems Cons.IH [of pos num s2] False s2 by (simp add: cat_write_loop.simps [of "e # es"])
    next
      case Failed
      then show ?thesis using Cons.prems False s2 by (simp add: cat_write_loop.simps [of "e # es"])
    next
      case (Moves k)
      then obtain ret s3 where "cat_write_loop es (pos + ret) (num - ret) s3 = Some (Goes x es1 s1)"
        using Cons.prems False s2 by (auto simp: cat_write_loop.simps [of "e # es"] bind_eq_Some_conv)
      then show ?thesis using Cons.IH by fastforce
    qed
  qed
qed

lemma cat_round_goes:
  assumes "cat_round p es n s = Some (Goes k es1 s1)"
  obtains "k = 0" "cat_read_loop es n s = Some (Goes 0 es1 s1)"
  | num es2 s2 s3 x where "k = 1" "0 < num" "cat_read_loop es n s = Some (Goes num es2 s2)" "give_back p n num s2 = Some s3"
      "cat_write_loop es2 0 num s3 = Some (Goes x es1 s1)"
  using assms by (auto simp: cat_round_def bind_eq_Some_conv and_then_Goes split: if_split_asm)

lemma cat_round_shrinks: "cat_round p es n s = Some (Goes k es1 s1) \<Longrightarrow> length es1 < length es"
  by (elim cat_round_goes) (auto dest!: cat_read_shrinks cat_write_shrinks)

function (sequential) cat_loop :: "nat \<Rightarrow> event list \<Rightarrow> cat_state \<Rightarrow> progress option" where
  "cat_loop p [] s = Some (Waiting s)"
| "cat_loop p (e # es) s = do {
     w \<leftarrow> mytbf_fetchtoken (ev_sig e) p BUFSIZE_cat (cat_tb s);
     case w of
       Blocked \<Rightarrow> Some (Waiting s)
     | Returned (n, tb) \<Rightarrow>
         let s1 = s\<lparr>cat_tb := tb\<rparr> in
         if n < 0 then Some (Exits 1 s1)
         else and_then (cat_round p es n s1) (\<lambda>k es1 s2.
           if k = 0 then Some (Goes 0 es1 s2) else cat_loop p es1 s2) }"
  by pat_completeness auto
termination
  by (relation "measure (\<lambda>(p, es, s). length es)") (auto dest: cat_round_shrinks)

declare cat_loop.simps [simp del]

text \<open>Leaving \<open>main\<close> or \<open>exit\<close> runs \<open>module_unload\<close>, which \<open>mytbf_init\<close> registered with \<open>atexit\<close>.\<close>

definition leave :: "int \<Rightarrow> cat_state \<Rightarrow> progress option" where
  "leave c s = do { tb \<leftarrow> tb_module_unload (cat_tb s); Some (Exits c (s\<lparr>cat_tb := tb\<rparr>)) }"

definition cat_end :: "nat \<Rightarrow> cat_state \<Rightarrow> progress option" where
  "cat_end p s = do { (_, tb) \<leftarrow> mytbf_destroy p (cat_tb s); Some (Exits 0 (s\<lparr>cat_tb := tb\<rparr>)) }"

text \<open>Opening, copying and destroying the bucket.\<close>

definition cat_body :: "nat \<Rightarrow> event list \<Rightarrow> cat_state \<Rightarrow> progress option" where
  "cat_body p es s = and_then (open_loop es s) (\<lambda>_ es1 s2. and_then (cat_loop p es1 s2) (\<lambda>_ _ s3. cat_end p s3))"

definition cat_main :: "nat \<Rightarrow> bool \<Rightarrow> nat \<Rightarrow> event list \<Rightarrow> cat_state \<Rightarrow> progress option" where
  "cat_main argc os mem es s =
     (if argc < 2 then Some (Exits 1 s)
      else case mytbf_init os mem CPS BURST (cat_tb s) of
        (None, tb) \<Rightarrow> Some (Exits 1 (s\<lparr>cat_tb := tb\<rparr>))
      | (Some p, tb) \<Rightarrow>
          let s1 = s\<lparr>cat_tb := tb\<rparr> in
          if p = 0 then leave 1 s1
          else do {
            r \<leftarrow> cat_body p es s1;
            case r of Exits c s4 \<Rightarrow> leave c s4 | _ \<Rightarrow> Some r })"

section \<open>What a part of the program may do\<close>

definition cat_ok :: "nat \<Rightarrow> cat_state \<Rightarrow> bool" where
  "cat_ok p s \<longleftrightarrow> tb_ok (cat_tb s) \<and> int (length (cat_str s)) = BUFSIZE_cat \<and>
     (\<exists>me. tb_mem (cat_tb s) p = Some me \<and> cps me = CPS \<and> burst me = BURST)"

definition tokens :: "nat \<Rightarrow> cat_state \<Rightarrow> int" where
  "tokens p s = (case tb_mem (cat_tb s) p of Some me \<Rightarrow> token me | None \<Rightarrow> 0)"

definition alarm_count :: "event list \<Rightarrow> nat" where
  "alarm_count es = (\<Sum>e\<leftarrow>es. all_ticks (ev_sig e) + ticks (ev_codes e))"

lemma alarm_count_simps [simp]: "alarm_count [] = 0" "alarm_count (e # es) = all_ticks (ev_sig e) + ticks (ev_codes e) + alarm_count es"
  by (simp_all add: alarm_count_def)

text \<open>What may at most have been written when the events \<open>es\<close> are over.\<close>

definition worth :: "nat \<Rightarrow> event list \<Rightarrow> cat_state \<Rightarrow> int" where
  "worth p es s = int (length (cat_out s)) + tokens p s + CPS * int (alarm_count es)"

definition stop_ok :: "nat list \<Rightarrow> nat \<Rightarrow> int \<Rightarrow> cat_state \<Rightarrow> bool" where
  "stop_ok f p b s \<longleftrightarrow> cat_ok p s \<and> (\<exists>zs. f = cat_out s @ zs) \<and> int (length (cat_out s)) \<le> b"

definition moves :: "event list \<Rightarrow> nat" where
  "moves es = length (filter (\<lambda>e. ev_res e \<noteq> Interrupted) es)"

definition lively :: "event \<Rightarrow> bool" where
  "lively e \<longleftrightarrow> ev_res e \<noteq> Failed \<and> ev_res e \<noteq> Moves 0 \<and> 1 \<le> ticks (sig_wait (ev_sig e))"

lemma moves_simps [simp]: "moves [] = 0" "moves (e # es) = (if ev_res e = Interrupted then 0 else 1) + moves es"
  by (simp_all add: moves_def)

lemma CPS_BURST: "good_rate CPS BURST" "0 < CPS" "0 < BURST" "0 < BUFSIZE_cat"
  by (simp_all add: good_rate_def CPS_def BURST_def BUFSIZE_cat_def)

lemma cat_okD:
  assumes "cat_ok p s"
  obtains me where "tb_ok (cat_tb s)" "length (cat_str s) = nat BUFSIZE_cat" "tb_mem (cat_tb s) p = Some me"
    "cps me = CPS" "burst me = BURST" "tokens p s = token me" "0 \<le> token me" "token me \<le> BURST"
  using assms tb_okD(3) [of "cat_tb s" p] by (fastforce simp: cat_ok_def tokens_def bucket_ok_def)

lemma tokens_nonneg: "cat_ok p s \<Longrightarrow> 0 \<le> tokens p s"
  by (auto elim: cat_okD)

lemma account_tokens:
  assumes "cat_ok p s" and "account p f k g (cat_tb s) tb" and "tb_ok tb"
  shows "cat_ok p (s\<lparr>cat_tb := tb\<rparr>)" "f + tokens p (s\<lparr>cat_tb := tb\<rparr>) \<le> tokens p s + int k * CPS + g"
  using assms by (auto simp: cat_ok_def account_def same_shape_def tokens_def)

lemma on_signals_ok:
  assumes "cat_ok p s"
  obtains tb where "on_signals e s = Some (s\<lparr>cat_tb := tb\<rparr>)" "cat_ok p (s\<lparr>cat_tb := tb\<rparr>)"
    "tokens p (s\<lparr>cat_tb := tb\<rparr>) \<le> tokens p s + CPS * int (ticks (ev_codes e))"
proof -
  have tb: "tb_ok (cat_tb s)" using assms by (simp add: cat_ok_def)
  let ?tb = "after_ticks (ticks (ev_codes e)) (cat_tb s)"
  note a = account_tokens [OF assms account_ticks [OF tb order_refl] after_ticks_ok [OF tb], of "ticks (ev_codes e)"]
  show ?thesis
    by (rule that [of ?tb]) (use a tb in \<open>simp_all add: on_signals_def alrm_handlers_ok mult.commute\<close>)
qed

lemma cat_ok_io: "cat_ok p s \<Longrightarrow> length str = length (cat_str s) \<Longrightarrow> cat_ok p (s\<lparr>cat_in := xs, cat_out := ys, cat_str := str\<rparr>)"
  by (simp add: cat_ok_def)

text \<open>The run stops here, or it goes on having used up at most \<open>m\<close> of the results that are not interruptions,
  if all events are lively.\<close>

definition all_lively :: "event list \<Rightarrow> bool" where
  "all_lively es \<longleftrightarrow> (\<forall>e \<in> set es. lively e)"

definition halts :: "nat list \<Rightarrow> nat \<Rightarrow> int \<Rightarrow> event list \<Rightarrow> nat \<Rightarrow> progress \<Rightarrow> bool" where
  "halts f p b es m r = (case r of
     Waiting s \<Rightarrow> stop_ok f p b s \<and> (all_lively es \<longrightarrow> moves es < m)
   | Exits c s \<Rightarrow> c \<noteq> 0 \<and> stop_ok f p b s \<and> \<not> all_lively es
   | Goes k es1 s \<Rightarrow> False)"

definition goes_on :: "nat \<Rightarrow> int \<Rightarrow> event list \<Rightarrow> nat \<Rightarrow> event list \<Rightarrow> cat_state \<Rightarrow> bool" where
  "goes_on p b es m es1 s \<longleftrightarrow> cat_ok p s \<and> worth p es1 s \<le> b \<and>
     (all_lively es \<longrightarrow> all_lively es1 \<and> moves es \<le> moves es1 + m)"

definition step_moves :: "event \<Rightarrow> nat" where
  "step_moves e = (if ev_res e = Interrupted then 0 else 1)"

lemma all_lively_simps [simp]: "all_lively []" "all_lively (e # es) \<longleftrightarrow> lively e \<and> all_lively es"
  by (simp_all add: all_lively_def)

lemma halts_simps [simp]:
  "halts f p b es m (Waiting s) \<longleftrightarrow> stop_ok f p b s \<and> (all_lively es \<longrightarrow> moves es < m)"
  "halts f p b es m (Exits c s) \<longleftrightarrow> c \<noteq> 0 \<and> stop_ok f p b s \<and> \<not> all_lively es"
  "\<not> halts f p b es m (Goes k es1 s)"
  by (simp_all add: halts_def)

lemma halts_earlier: "halts f p b es m r \<Longrightarrow> (lively e \<Longrightarrow> m + step_moves e \<le> m') \<Longrightarrow> halts f p b (e # es) m' r"
  by (cases r) (auto simp: step_moves_def split: if_splits)

lemma goes_on_earlier: "goes_on p b es m es1 s \<Longrightarrow> (lively e \<Longrightarrow> m + step_moves e \<le> m') \<Longrightarrow> goes_on p b (e # es) m' es1 s"
  by (auto simp: goes_on_def step_moves_def split: if_splits)

text \<open>What the rest of a loop does it does in the whole loop.\<close>

lemma earlier:
  assumes "\<exists>r. x = Some r \<and> (halts f p b es m r \<or> (\<exists>k es1 s1. r = Goes k es1 s1 \<and> goes_on p b es m es1 s1 \<and> Q k es1 s1))"
    and "lively e \<Longrightarrow> m + step_moves e \<le> m'"
  shows "\<exists>r. x = Some r \<and> (halts f p b (e # es) m' r \<or> (\<exists>k es1 s1. r = Goes k es1 s1 \<and> goes_on p b (e # es) m' es1 s1 \<and> Q k es1 s1))"
proof -
  obtain r where r: "x = Some r" and "halts f p b es m r \<or> (\<exists>k es1 s1. r = Goes k es1 s1 \<and> goes_on p b es m es1 s1 \<and> Q k es1 s1)"
    using assms(1) by (elim exE conjE)
  from this(2) show ?thesis
  proof (elim disjE exE conjE)
    assume "halts f p b es m r"
    then show ?thesis using r halts_earlier [OF _ assms(2)] by (intro exI [of _ r]) simp
  next
    fix k es1 s1 assume g: "r = Goes k es1 s1" "goes_on p b es m es1 s1" "Q k es1 s1"
    then have "goes_on p b (e # es) m' es1 s1" using goes_on_earlier [OF _ assms(2)] by simp
    then show ?thesis using r g by (intro exI [of _ r]) simp
  qed
qed

lemma halts_after: "goes_on p b es m es1 s \<Longrightarrow> halts f p b' es1 m1 r \<Longrightarrow> m + m1 \<le> m' \<Longrightarrow> halts f p b' es m' r"
  by (cases r) (auto simp: goes_on_def)

lemma goes_on_after: "goes_on p b es m es1 s \<Longrightarrow> goes_on p b' es1 m1 es2 s2 \<Longrightarrow> m + m1 \<le> m' \<Longrightarrow> goes_on p b' es m' es2 s2"
  by (auto simp: goes_on_def)

lemma halts_mono: "halts f p b es m r \<Longrightarrow> b \<le> b' \<Longrightarrow> m \<le> m' \<Longrightarrow> halts f p b' es m' r"
  by (cases r) (auto simp: stop_ok_def)

lemma goes_on_mono: "goes_on p b es m es1 s \<Longrightarrow> b \<le> b' \<Longrightarrow> m \<le> m' \<Longrightarrow> goes_on p b' es m' es1 s"
  by (auto simp: goes_on_def)

lemma worth_stop: "cat_ok p s \<Longrightarrow> worth p es s \<le> b \<Longrightarrow> f = cat_out s @ zs \<Longrightarrow> stop_ok f p b s"
  using tokens_nonneg [of p s] by (auto simp: stop_ok_def worth_def CPS_def)

lemma worth_signals:
  "tokens p (s\<lparr>cat_tb := tb\<rparr>) \<le> tokens p s + CPS * int (ticks (ev_codes e)) \<Longrightarrow> worth p (e # es) s \<le> b \<Longrightarrow>
   worth p es (s\<lparr>cat_tb := tb\<rparr>) \<le> b"
  by (simp add: worth_def CPS_def)

lemma signals_ok:
  assumes "cat_ok p s" and "worth p (e # es) s \<le> b"
  obtains tb where "on_signals e s = Some (s\<lparr>cat_tb := tb\<rparr>)" "cat_ok p (s\<lparr>cat_tb := tb\<rparr>)" "worth p es (s\<lparr>cat_tb := tb\<rparr>) \<le> b"
  using on_signals_ok [OF assms(1), of e] worth_signals [OF _ assms(2)] by metis

section \<open>Opening and reading\<close>

lemma open_loop_ok:
  assumes "cat_ok p s" "worth p es s \<le> b" "f = cat_out s @ cat_in s"
  shows "\<exists>r. open_loop es s = Some r \<and> (halts f p b es 1 r \<or>
    (\<exists>k es1 s1. r = Goes k es1 s1 \<and> goes_on p b es 1 es1 s1 \<and> cat_out s1 = cat_out s \<and> cat_in s1 = cat_in s))"
  using assms
proof (induction es arbitrary: s)
  case Nil
  then show ?case using worth_stop [of p s "[]" b f "cat_in s"] by simp
next
  case (Cons e es)
  obtain tb where tb: "on_signals e s = Some (s\<lparr>cat_tb := tb\<rparr>)" "cat_ok p (s\<lparr>cat_tb := tb\<rparr>)" "worth p es (s\<lparr>cat_tb := tb\<rparr>) \<le> b"
    by (rule signals_ok [OF Cons.prems(1,2)])
  have st: "stop_ok f p b (s\<lparr>cat_tb := tb\<rparr>)" by (rule worth_stop [OF tb(2,3), where zs = "cat_in s"]) (simp add: Cons.prems(3))
  show ?case
  proof (cases "ev_res e")
    case Interrupted
    then show ?thesis using Cons.IH [OF tb(2,3)] Cons.prems(3) tb(1)
      by (fastforce intro: halts_earlier goes_on_earlier simp: step_moves_def)
  next
    case Failed
    then show ?thesis using tb(1) st by (simp add: lively_def)
  next
    case (Moves k)
    then show ?thesis using tb by (simp add: goes_on_def)
  qed
qed

lemma read_some: "min (min (max 1 k) (nat n)) (length xs) = 0 \<Longrightarrow> 1 \<le> n \<Longrightarrow> xs = []"
  by (cases xs) auto

lemma sys_read_eq:
  assumes "num = min (min (max 1 k) (nat n)) (length (cat_in s))"
    and "num \<le> length (cat_str s)"
  shows "sys_read k n s = Some (num, s\<lparr>cat_in := drop num (cat_in s), cat_str := take num (cat_in s) @ drop num (cat_str s)\<rparr>)"
  unfolding sys_read_def Let_def assms(1) [symmetric] using assms(2) by simp

lemma cat_read_loop_ok:
  assumes "cat_ok p s" "worth p es s \<le> b" "f = cat_out s @ cat_in s" "1 \<le> n" "n \<le> BUFSIZE_cat"
  shows "\<exists>r. cat_read_loop es n s = Some r \<and> (halts f p b es 1 r \<or>
    (\<exists>num es1 s1. r = Goes num es1 s1 \<and> goes_on p b es 1 es1 s1 \<and> cat_out s1 = cat_out s \<and> int num \<le> n
       \<and> cat_in s = take num (cat_str s1) @ cat_in s1 \<and> (num = 0 \<longrightarrow> cat_in s1 = [])))"
  using assms(1-3)
proof (induction es arbitrary: s)
  case Nil
  then show ?case using worth_stop [of p s "[]" b f "cat_in s"] by simp
next
  case (Cons e es)
  obtain tb where tb: "on_signals e s = Some (s\<lparr>cat_tb := tb\<rparr>)" "cat_ok p (s\<lparr>cat_tb := tb\<rparr>)" "worth p es (s\<lparr>cat_tb := tb\<rparr>) \<le> b"
    by (rule signals_ok [OF Cons.prems(1,2)])
  have st: "stop_ok f p b (s\<lparr>cat_tb := tb\<rparr>)" by (rule worth_stop [OF tb(2,3), where zs = "cat_in s"]) (simp add: Cons.prems(3))
  show ?case
  proof (cases "ev_res e")
    case Interrupted
    then show ?thesis using Cons.IH [OF tb(2,3)] Cons.prems(3) tb(1)
      by (fastforce intro: halts_earlier goes_on_earlier simp: step_moves_def)
  next
    case Failed
    then show ?thesis using tb(1) st by (simp add: lively_def)
  next
    case (Moves k)
    obtain num where num: "num = min (min (max 1 k) (nat n)) (length (cat_in s))" by simp
    let ?s = "s\<lparr>cat_tb := tb, cat_in := drop num (cat_in s), cat_str := take num (cat_in s) @ drop num (cat_str s)\<rparr>"
    have l: "int (length (cat_str s)) = BUFSIZE_cat" using Cons.prems(1) by (simp add: cat_ok_def)
    have "num \<le> nat n" "num \<le> length (cat_in s)" unfolding num by simp_all
    then have le: "num \<le> length (cat_str s)" "num \<le> length (cat_in s)" "int num \<le> n" using assms(4,5) l by linarith+
    have rd: "sys_read k n (s\<lparr>cat_tb := tb\<rparr>) = Some (num, ?s)"
    proof -
      have "num = min (min (max 1 k) (nat n)) (length (cat_in (s\<lparr>cat_tb := tb\<rparr>)))" by (simp add: num)
      from sys_read_eq [OF this] le(1) show ?thesis by simp
    qed
    have "cat_in s = []" if "num = 0" using that read_some [of k n] assms(4) unfolding num by blast
    moreover have "cat_read_loop (e # es) n s = Some (Goes num es ?s)"
      using tb(1) Moves rd by simp
    moreover have "cat_ok p ?s" using tb(2) le l by (simp add: cat_ok_def)
    moreover have "worth p es ?s \<le> b" using tb(3) by (simp add: worth_def tokens_def)
    ultimately show ?thesis using le by (auto simp: goes_on_def)
  qed
qed

section \<open>Writing\<close>

lemma cat_write_loop_ok:
  assumes "cat_ok p s" "worth p es s + int num \<le> b" "f = cat_out s @ take num (drop pos (cat_str s)) @ cat_in s"
    and "pos + num \<le> length (cat_str s)"
  shows "\<exists>r. cat_write_loop es pos num s = Some r \<and> (halts f p b es num r \<or>
    (\<exists>k es1 s1. r = Goes k es1 s1 \<and> goes_on p b es num es1 s1 \<and> f = cat_out s1 @ cat_in s1 \<and> cat_in s1 = cat_in s))"
  using assms
proof (induction es arbitrary: pos num s)
  case Nil
  then have "worth p [] s \<le> b" by simp
  then show ?case using Nil.prems worth_stop [OF Nil.prems(1) _ Nil.prems(3), of "[]" b]
    by (cases "num = 0") (auto simp: cat_write_loop.simps goes_on_def)
next
  case (Cons e es)
  obtain tb where tb: "on_signals e s = Some (s\<lparr>cat_tb := tb\<rparr>)" "cat_ok p (s\<lparr>cat_tb := tb\<rparr>)"
      "worth p es (s\<lparr>cat_tb := tb\<rparr>) \<le> b - int num"
    by (rule signals_ok [OF Cons.prems(1), of e es "b - int num"]) (use Cons.prems(2) in simp)
  let ?s = "s\<lparr>cat_tb := tb\<rparr>"
  have st: "stop_ok f p b ?s"
    by (rule worth_stop [OF tb(2), where es = es]) (use tb(3) Cons.prems(3) in auto)
  note unf = cat_write_loop.simps [of "e # es" pos num s]
  consider (over) "num = 0" | (intr) "0 < num" "ev_res e = Interrupted" | (failed) "0 < num" "ev_res e = Failed"
    | (moves) k where "0 < num" "ev_res e = Moves k" by (cases "ev_res e") auto
  then show ?case
  proof cases
    case over
    then show ?thesis using Cons.prems unfolding unf by (auto simp: goes_on_def)
  next
    case intr
    have "\<exists>r. cat_write_loop es pos num ?s = Some r \<and> (halts f p b es num r \<or>
        (\<exists>k es1 s1. r = Goes k es1 s1 \<and> goes_on p b es num es1 s1 \<and> f = cat_out s1 @ cat_in s1 \<and> cat_in s1 = cat_in ?s))"
      by (rule Cons.IH [OF tb(2)]) (use tb(3) Cons.prems in auto)
    then show ?thesis using intr tb(1) unfolding unf by (fastforce simp: step_moves_def intro: halts_earlier goes_on_earlier)
  next
    case failed
    then show ?thesis using tb(1) st by (simp add: unf lively_def)
  next
    case moves
    let ?ret = "min k num"
    let ?t = "?s\<lparr>cat_out := cat_out s @ take ?ret (drop pos (cat_str s))\<rparr>"
    have l: "length (take ?ret (drop pos (cat_str s))) = ?ret" using Cons.prems(4) by simp
    have "cat_ok p ?t" using tb(2) by (simp add: cat_ok_def)
    moreover have "worth p es ?t + int (num - ?ret) \<le> b" using tb(3) l by (simp add: worth_def tokens_def of_nat_diff)
    moreover have "f = cat_out ?t @ take (num - ?ret) (drop (pos + ?ret) (cat_str ?t)) @ cat_in ?t"
      using Cons.prems(3) take_split_drop [of ?ret num pos "cat_str s"] by simp
    moreover have "pos + ?ret + (num - ?ret) \<le> length (cat_str ?t)" using Cons.prems(4) by simp
    ultimately have "\<exists>r. cat_write_loop es (pos + ?ret) (num - ?ret) ?t = Some r \<and> (halts f p b es (num - ?ret) r \<or>
        (\<exists>k es1 s1. r = Goes k es1 s1 \<and> goes_on p b es (num - ?ret) es1 s1 \<and> f = cat_out s1 @ cat_in s1 \<and> cat_in s1 = cat_in ?t))"
      by (rule Cons.IH)
    moreover have "cat_write_loop (e # es) pos num s = cat_write_loop es (pos + ?ret) (num - ?ret) ?t"
      using moves tb(1) Cons.prems(4) by (simp add: unf sys_write_def Let_def)
    moreover have "num - ?ret + step_moves e \<le> num" if "lively e"
      using that moves by (cases k) (auto simp: lively_def step_moves_def)
    ultimately show ?thesis
      using earlier [where Q = "\<lambda>k es1 s1. f = cat_out s1 @ cat_in s1 \<and> cat_in s1 = cat_in s" and e = e and m' = num]
      by simp
  qed
qed

lemma give_back_ok:
  assumes "cat_ok p s" "0 \<le> n" "n \<le> BUFSIZE_cat" "int num \<le> n" "worth p es s + n \<le> b"
  obtains tb where "give_back p n num s = Some (s\<lparr>cat_tb := tb\<rparr>)" "cat_ok p (s\<lparr>cat_tb := tb\<rparr>)"
    "worth p es (s\<lparr>cat_tb := tb\<rparr>) + int num \<le> b"
proof (cases "n > int num")
  case True
  obtain me where me: "tb_ok (cat_tb s)" "tb_mem (cat_tb s) p = Some me" "burst me = BURST" by (rule cat_okD [OF assms(1)])
  have "bucket_ok me" using tb_okD(3) [OF me(1,2)] by simp
  then obtain me1 where "add_token (n - int num) me = Some me1"
    using add_token_ok [of me "n - int num"] True assms(3) me(3) by (auto simp: BURST_def BUFSIZE_cat_def)
  then obtain tb where r: "mytbf_returntoken p (n - int num) (cat_tb s) = Some (n - int num, tb)"
    using True me(2) by (auto simp: mytbf_returntoken_def)
  note st = step_return [OF me(1) r, of p]
  have "given p (CallReturn p (n - int num), n - int num) = n - int num" using True by (simp add: given_def)
  then have "cat_ok p (s\<lparr>cat_tb := tb\<rparr>)" "tokens p (s\<lparr>cat_tb := tb\<rparr>) \<le> tokens p s + (n - int num)"
    using account_tokens [OF assms(1) conjunct2 [OF st] conjunct1 [OF st]] by simp_all
  then show ?thesis using that [of tb] r True assms(5) by (simp add: give_back_def worth_def)
next
  case False
  then show ?thesis using that [of "cat_tb s"] assms by (simp add: give_back_def)
qed

section \<open>Rounds\<close>

definition round_goes :: "nat list \<Rightarrow> nat \<Rightarrow> int \<Rightarrow> event list \<Rightarrow> cat_state \<Rightarrow> progress \<Rightarrow> bool" where
  "round_goes f p b es s r \<longleftrightarrow> (\<exists>k es1 s1. r = Goes k es1 s1 \<and> f = cat_out s1 @ cat_in s1
     \<and> goes_on p b es (1 + (length (cat_in s) - length (cat_in s1))) es1 s1
     \<and> (if k = 0 then cat_in s1 = [] else length (cat_in s1) < length (cat_in s)))"

lemma cat_round_writes:
  assumes g: "cat_read_loop es n s = Some (Goes num es1 s1)" "goes_on p (b - n) es 1 es1 s1" "cat_out s1 = cat_out s" "int num \<le> n"
      "cat_in s = take num (cat_str s1) @ cat_in s1" and "f = cat_out s @ cat_in s" "1 \<le> n" "n \<le> BUFSIZE_cat" "num \<noteq> 0"
  shows "\<exists>r. cat_round p es n s = Some r \<and> (halts f p b es (1 + length (cat_in s)) r \<or> round_goes f p b es s r)"
proof -
  have ok1: "cat_ok p s1" "worth p es1 s1 + n \<le> b" using g(2) by (simp_all add: goes_on_def)
  have n0: "0 \<le> n" using assms(7) by simp
  obtain tb where tb: "give_back p n num s1 = Some (s1\<lparr>cat_tb := tb\<rparr>)" "cat_ok p (s1\<lparr>cat_tb := tb\<rparr>)"
      "worth p es1 (s1\<lparr>cat_tb := tb\<rparr>) + int num \<le> b"
    by (rule give_back_ok [OF ok1(1) n0 assms(8) g(4) ok1(2)])
  have "int (length (cat_str s1)) = BUFSIZE_cat" using ok1(1) by (simp add: cat_ok_def)
  then have num: "num \<le> length (cat_str s1)" using g(4) assms(8) by linarith
  then have inlen: "length (cat_in s) = num + length (cat_in s1)" using g(5) by (metis length_append length_take min_absorb2)
  obtain w where w: "cat_write_loop es1 0 num (s1\<lparr>cat_tb := tb\<rparr>) = Some w" "halts f p b es1 num w \<or>
      (\<exists>k es2 s2. w = Goes k es2 s2 \<and> goes_on p b es1 num es2 s2 \<and> f = cat_out s2 @ cat_in s2 \<and> cat_in s2 = cat_in s1)"
    using cat_write_loop_ok [OF tb(2,3), of f 0] num g(3,5) assms(6) by auto
  have eq: "cat_round p es n s = and_then (Some w) (\<lambda>_ es2 s3. Some (Goes 1 es2 s3))"
    using g(1) assms(9) tb(1) w(1) by (simp add: cat_round_def)
  from w(2) show ?thesis
  proof (elim disjE exE conjE)
    assume h: "halts f p b es1 num w"
    have "halts f p b es (1 + length (cat_in s)) w" by (rule halts_after [OF g(2) h]) (simp add: inlen)
    then show ?thesis using eq h by (cases w) auto
  next
    fix k es2 s2 assume h: "w = Goes k es2 s2" "goes_on p b es1 num es2 s2" "f = cat_out s2 @ cat_in s2" "cat_in s2 = cat_in s1"
    have "goes_on p b es (1 + (length (cat_in s) - length (cat_in s2))) es2 s2"
      by (rule goes_on_after [OF g(2) h(2)]) (simp add: inlen h(4))
    then show ?thesis using eq h assms(9) inlen by (simp add: round_goes_def)
  qed
qed

lemma cat_round_ok:
  assumes "cat_ok p s" "worth p es s + n \<le> b" "f = cat_out s @ cat_in s" "1 \<le> n" "n \<le> BUFSIZE_cat"
  shows "\<exists>r. cat_round p es n s = Some r \<and> (halts f p b es (1 + length (cat_in s)) r \<or> round_goes f p b es s r)"
proof -
  have w: "worth p es s \<le> b - n" using assms(2) by simp
  obtain r where r: "cat_read_loop es n s = Some r" and cases: "halts f p (b - n) es 1 r \<or>
    (\<exists>num es1 s1. r = Goes num es1 s1 \<and> goes_on p (b - n) es 1 es1 s1 \<and> cat_out s1 = cat_out s \<and> int num \<le> n
       \<and> cat_in s = take num (cat_str s1) @ cat_in s1 \<and> (num = 0 \<longrightarrow> cat_in s1 = []))"
    using cat_read_loop_ok [OF assms(1) w assms(3-5)] by (elim exE conjE)
  show ?thesis
  proof (cases "halts f p (b - n) es 1 r")
    case True
    have "halts f p b es (1 + length (cat_in s)) r" by (rule halts_mono [OF True]) (use assms(4) in simp_all)
    moreover have "cat_round p es n s = Some r" using r True by (cases r) (simp_all add: cat_round_def)
    ultimately show ?thesis by simp
  next
    case False
    then obtain num es1 s1 where g: "r = Goes num es1 s1" "goes_on p (b - n) es 1 es1 s1" "cat_out s1 = cat_out s" "int num \<le> n"
        "cat_in s = take num (cat_str s1) @ cat_in s1" "num = 0 \<longrightarrow> cat_in s1 = []" using cases by blast
    show ?thesis
    proof (cases "num = 0")
      case True
      have "goes_on p b es (1 + (length (cat_in s) - length (cat_in s1))) es1 s1"
        by (rule goes_on_mono [OF g(2)]) (use assms(4) in auto)
      then show ?thesis using True r g assms(3) by (simp add: cat_round_def round_goes_def)
    next
      case False
      then show ?thesis using cat_round_writes [OF _ g(2-5) assms(3-5)] r g(1) by simp
    qed
  qed
qed

section \<open>The loop\<close>

lemma fetch_round:
  assumes ok: "cat_ok p s" and w: "worth p (e # es) s \<le> b"
  obtains "mytbf_fetchtoken (ev_sig e) p BUFSIZE_cat (cat_tb s) = Some Blocked" "\<not> lively e"
  | n tb where "mytbf_fetchtoken (ev_sig e) p BUFSIZE_cat (cat_tb s) = Some (Returned (n, tb))"
      "cat_ok p (s\<lparr>cat_tb := tb\<rparr>)" "worth p es (s\<lparr>cat_tb := tb\<rparr>) + n \<le> b" "1 \<le> n" "n \<le> BUFSIZE_cat"
proof -
  obtain me where me: "tb_ok (cat_tb s)" "tb_mem (cat_tb s) p = Some me" "cps me = CPS" "burst me = BURST" "0 \<le> token me"
    by (rule cat_okD [OF ok])
  note f = fetch_ok [OF me(1,2) CPS_BURST(4), of "ev_sig e"]
  show ?thesis
  proof (cases "mytbf_fetchtoken (ev_sig e) p BUFSIZE_cat (cat_tb s) = Some Blocked")
    case True
    have "bucket_ok me" using tb_okD(3) [OF me(1,2)] by simp
    then have "0 < token ((refilled ^^ k) me)" if "1 \<le> k" for k
      using that me(3-5) by (simp add: refilleds_token CPS_def BURST_def)
    then have "\<not> 1 \<le> ticks (sig_wait (ev_sig e))" using f True by fastforce
    then show ?thesis using that(1) True by (simp add: lively_def)
  next
    case False
    then obtain n tb where r: "mytbf_fetchtoken (ev_sig e) p BUFSIZE_cat (cat_tb s) = Some (Returned (n, tb))"
        "1 \<le> n" "n \<le> BUFSIZE_cat" using f by auto
    note st = step_fetch [OF me(1) r(1), of p]
    have "fetched p (CallFetch (ev_sig e) p BUFSIZE_cat, n) = n" using r(2) by (simp add: fetched_def)
    then have "cat_ok p (s\<lparr>cat_tb := tb\<rparr>)" "n + tokens p (s\<lparr>cat_tb := tb\<rparr>) \<le> tokens p s + int (all_ticks (ev_sig e)) * CPS"
      using account_tokens [OF ok conjunct2 [OF st] conjunct1 [OF st]] by simp_all
    then show ?thesis using that(2) [OF r(1)] r(2,3) w by (simp add: worth_def CPS_def)
  qed
qed

lemma cat_loop_ok:
  assumes "cat_ok p s" "worth p es s \<le> b" "f = cat_out s @ cat_in s"
  shows "\<exists>r. cat_loop p es s = Some r \<and> (halts f p b es (3 * length (cat_in s) + 2) r \<or>
    (\<exists>k es1 s1. r = Goes k es1 s1 \<and> goes_on p b es (3 * length (cat_in s) + 2) es1 s1 \<and> cat_out s1 = f))"
  using assms
proof (induction es arbitrary: s rule: length_induct)
  case (1 es)
  show ?case
  proof (cases es)
    case Nil
    then show ?thesis using worth_stop [OF "1.prems"(1,2,3)] by (simp add: cat_loop.simps)
  next
    case (Cons e es0)
    note w = "1.prems"(2) [unfolded Cons]
    show ?thesis
    proof (cases rule: fetch_round [OF "1.prems"(1) w])
      case 1
      then show ?thesis using worth_stop [OF "1.prems"(1,2,3)] Cons by (simp add: cat_loop.simps)
    next
      case (2 n tb)
      let ?s = "s\<lparr>cat_tb := tb\<rparr>"
      have f: "f = cat_out ?s @ cat_in ?s" using "1.prems"(3) by simp
      obtain r where r: "cat_round p es0 n ?s = Some r" "halts f p b es0 (1 + length (cat_in s)) r \<or> round_goes f p b es0 ?s r"
        using cat_round_ok [OF 2(2,3) f 2(4,5)] by auto
      have eq: "cat_loop p es s = and_then (Some r) (\<lambda>k es1 s2. if k = 0 then Some (Goes 0 es1 s2) else cat_loop p es1 s2)"
        using 2(1,4) r(1) by (simp add: Cons cat_loop.simps)
      have sm: "step_moves e \<le> 1" by (simp add: step_moves_def)
      from r(2) show ?thesis
      proof
        assume h: "halts f p b es0 (1 + length (cat_in s)) r"
        have "halts f p b es (3 * length (cat_in s) + 2) r" unfolding Cons by (rule halts_earlier [OF h]) (use sm in simp)
        then show ?thesis using eq h by (cases r) auto
      next
        assume "round_goes f p b es0 ?s r"
        then obtain k es1 s1 where g: "r = Goes k es1 s1" "f = cat_out s1 @ cat_in s1"
            "goes_on p b es0 (1 + (length (cat_in s) - length (cat_in s1))) es1 s1"
            "k = 0 \<longrightarrow> cat_in s1 = []" "k \<noteq> 0 \<longrightarrow> length (cat_in s1) < length (cat_in s)"
          by (auto simp: round_goes_def split: if_split_asm)
        have g3: "goes_on p b es (2 + (length (cat_in s) - length (cat_in s1))) es1 s1"
          unfolding Cons by (rule goes_on_earlier [OF g(3)]) (use sm in simp)
        show ?thesis
        proof (cases "k = 0")
          case True
          have "goes_on p b es (3 * length (cat_in s) + 2) es1 s1" by (rule goes_on_mono [OF g3]) simp_all
          then show ?thesis using eq g True by simp
        next
          case False
          have "length es1 < length es" using cat_round_shrinks r(1) g(1) Cons by fastforce
          then obtain q where q: "cat_loop p es1 s1 = Some q" "halts f p b es1 (3 * length (cat_in s1) + 2) q \<or>
              (\<exists>k es2 s2. q = Goes k es2 s2 \<and> goes_on p b es1 (3 * length (cat_in s1) + 2) es2 s2 \<and> cat_out s2 = f)"
            using "1.IH" g(2,3) unfolding goes_on_def by blast
          have le: "2 + (length (cat_in s) - length (cat_in s1)) + (3 * length (cat_in s1) + 2) \<le> 3 * length (cat_in s) + 2"
            using g(5) False by simp
          show ?thesis using eq g(1) False q(1) q(2) halts_after [OF g3 _ le] goes_on_after [OF g3 _ le]
            by (intro exI [of _ q]) auto
        qed
      qed
    qed
  qed
qed

section \<open>The whole program\<close>

lemma cat_leave:
  assumes "cat_ok p s"
  obtains t where "leave c s = Some (Exits c t)" "cat_out t = cat_out s" "\<forall>q. tb_mem (cat_tb t) q = None"
  using unload_ok [of "cat_tb s"] assms by (fastforce simp: leave_def cat_ok_def)

lemma cat_end_leave:
  assumes "cat_ok p s"
  obtains t u where "cat_end p s = Some (Exits 0 t)" "leave 0 t = Some (Exits 0 u)" "cat_out u = cat_out s"
    "\<forall>q. tb_mem (cat_tb u) q = None"
proof -
  obtain me where me: "tb_ok (cat_tb s)" "tb_mem (cat_tb s) p = Some me" by (rule cat_okD [OF assms])
  then obtain n tb where d: "mytbf_destroy p (cat_tb s) = Some (n, tb)" using destroy_defined [of "cat_tb s" p] by fastforce
  obtain tb1 where "tb_module_unload tb = Some tb1" "\<forall>q. tb_mem tb1 q = None"
    using unload_ok step_destroy [OF me(1) d] by blast
  then show ?thesis using that [of "s\<lparr>cat_tb := tb\<rparr>" "s\<lparr>cat_tb := tb1\<rparr>"] d by (simp add: cat_end_def leave_def)
qed

definition fresh_cat :: "cat_state \<Rightarrow> bool" where
  "fresh_cat s \<longleftrightarrow> cat_tb s = tb_start \<and> cat_out s = [] \<and> int (length (cat_str s)) = BUFSIZE_cat"

lemma init_start:
  "mytbf_init os m c b tb_start = (if \<not> os then (None, tb_start) else if m = 0 then (Some 0, tb_start\<lparr>tb_inited := True\<rparr>)
     else (Some m, (set_bucket m \<lparr>cps = c, burst = b, token = 0, tb_pos = 0\<rparr> (tb_start\<lparr>tb_inited := True\<rparr>))
       \<lparr>tb_job := (tb_job tb_start)[0 := m]\<rparr>))"
  using MAX_pos MAX_upt by (simp add: mytbf_init_def tb_get_free_pos_def tb_start_def Let_def set_bucket_def)

lemma cat_starts:
  assumes "fresh_cat s" "m \<noteq> 0" "mytbf_init True m CPS BURST (cat_tb s) = (Some p, tb)"
  shows "p = m \<and> cat_ok m (s\<lparr>cat_tb := tb\<rparr>) \<and> worth m es (s\<lparr>cat_tb := tb\<rparr>) = CPS * int (alarm_count es)"
proof -
  have s: "cat_tb s = tb_start" "cat_out s = []" "int (length (cat_str s)) = BUFSIZE_cat" using assms(1) by (simp_all add: fresh_cat_def)
  have "tb_mem tb_start m = None" by (simp add: tb_start_def)
  then have "tb_ok tb" using step_init [OF tb_start_ok _ CPS_BURST(1)] assms(3) s(1) by simp
  then show ?thesis using assms(2,3) s by (auto simp: init_start cat_ok_def worth_def tokens_def)
qed

lemma cat_body_ok:
  assumes ok: "cat_ok p s" and f: "f = cat_in s" "cat_out s = []"
  shows "\<exists>r. cat_body p es s = Some r \<and> (halts f p (worth p es s) es (3 * length f + 3) r
    \<or> (\<exists>t u. r = Exits 0 t \<and> leave 0 t = Some (Exits 0 u) \<and> cat_out u = f \<and> int (length f) \<le> worth p es s
        \<and> (\<forall>q. tb_mem (cat_tb u) q = None)))"
proof -
  let ?b = "worth p es s"
  have f': "f = cat_out s @ cat_in s" using f by simp
  obtain r where r: "open_loop es s = Some r" "halts f p ?b es 1 r \<or>
      (\<exists>k es1 s1. r = Goes k es1 s1 \<and> goes_on p ?b es 1 es1 s1 \<and> cat_out s1 = cat_out s \<and> cat_in s1 = cat_in s)"
    using open_loop_ok [of p s es ?b f, OF ok order_refl f'] by (elim exE conjE)
  from r(2) show ?thesis
  proof (elim disjE exE conjE)
    assume h: "halts f p ?b es 1 r"
    have "halts f p ?b es (3 * length f + 3) r" by (rule halts_mono [OF h]) simp_all
    then show ?thesis using r(1) h by (cases r) (auto simp: cat_body_def)
  next
    fix k es1 s1 assume g: "r = Goes k es1 s1" "goes_on p ?b es 1 es1 s1" "cat_out s1 = cat_out s" "cat_in s1 = cat_in s"
    have g1: "cat_ok p s1" "worth p es1 s1 \<le> ?b" "f = cat_out s1 @ cat_in s1" using g f' by (simp_all add: goes_on_def)
    obtain q where q: "cat_loop p es1 s1 = Some q" "halts f p ?b es1 (3 * length (cat_in s1) + 2) q \<or>
        (\<exists>k es2 s2. q = Goes k es2 s2 \<and> goes_on p ?b es1 (3 * length (cat_in s1) + 2) es2 s2 \<and> cat_out s2 = f)"
      using cat_loop_ok [OF g1] by (elim exE conjE)
    have eq: "cat_body p es s = and_then (Some q) (\<lambda>_ _ s3. cat_end p s3)" using r(1) g(1) q(1) by (simp add: cat_body_def)
    from q(2) show ?thesis
    proof (elim disjE exE conjE)
      assume h: "halts f p ?b es1 (3 * length (cat_in s1) + 2) q"
      have "halts f p ?b es (3 * length f + 3) q" by (rule halts_after [OF g(2) h]) (simp add: g(4) f)
      then show ?thesis using eq h by (cases q) auto
    next
      fix k es2 s2 assume h: "q = Goes k es2 s2" "goes_on p ?b es1 (3 * length (cat_in s1) + 2) es2 s2" "cat_out s2 = f"
      then have ok2: "cat_ok p s2" "worth p es2 s2 \<le> ?b" by (simp_all add: goes_on_def)
      have "int (length f) \<le> ?b" using worth_stop [OF ok2, of f "[]"] h(3) by (simp add: stop_ok_def)
      moreover obtain t u where "cat_end p s2 = Some (Exits 0 t)" "leave 0 t = Some (Exits 0 u)" "cat_out u = f"
          "\<forall>q. tb_mem (cat_tb u) q = None" using cat_end_leave [OF ok2(1)] h(3) by metis
      ultimately show ?thesis using eq h(1) by simp
    qed
  qed
qed

text \<open>How \<open>main\<close> goes when the module starts and the bucket is there.\<close>

lemma cat_main_runs:
  assumes s: "fresh_cat s" and "2 \<le> argc" "os" "mem \<noteq> 0"
  obtains r tb where "cat_main argc os mem es s = Some r" "cat_ok mem (s\<lparr>cat_tb := tb\<rparr>)"
    "(\<exists>t. r = Waiting t \<and> halts (cat_in s) mem (CPS * int (alarm_count es)) es (3 * length (cat_in s) + 3) r)
     \<or> (\<exists>c t t'. r = Exits c t \<and> halts (cat_in s) mem (CPS * int (alarm_count es)) es (3 * length (cat_in s) + 3) (Exits c t')
          \<and> cat_out t = cat_out t' \<and> (\<forall>q. tb_mem (cat_tb t) q = None))
     \<or> (\<exists>t. r = Exits 0 t \<and> cat_out t = cat_in s \<and> int (length (cat_in s)) \<le> CPS * int (alarm_count es)
          \<and> (\<forall>q. tb_mem (cat_tb t) q = None))"
proof -
  have "cat_tb s = tb_start" using s by (simp add: fresh_cat_def)
  then obtain tb where tb: "mytbf_init True mem CPS BURST (cat_tb s) = (Some mem, tb)" using assms(4) by (simp add: init_start)
  let ?s = "s\<lparr>cat_tb := tb\<rparr>"
  have st: "cat_ok mem ?s" "worth mem es ?s = CPS * int (alarm_count es)" using cat_starts [OF s assms(4) tb] by simp_all
  have "cat_in s = cat_in ?s" "cat_out ?s = []" using s by (simp_all add: fresh_cat_def)
  from cat_body_ok [OF st(1) this, of es] obtain r where r: "cat_body mem es ?s = Some r"
      "halts (cat_in s) mem (CPS * int (alarm_count es)) es (3 * length (cat_in s) + 3) r
       \<or> (\<exists>t u. r = Exits 0 t \<and> leave 0 t = Some (Exits 0 u) \<and> cat_out u = cat_in s \<and> int (length (cat_in s)) \<le> CPS * int (alarm_count es)
          \<and> (\<forall>q. tb_mem (cat_tb u) q = None))" unfolding st(2) by (elim exE conjE)
  have eq: "cat_main argc os mem es s = (case r of Exits c s4 \<Rightarrow> leave c s4 | _ \<Rightarrow> Some r)"
    using assms(2-4) tb r(1) by (simp add: cat_main_def)
  from r(2) show ?thesis
  proof (elim disjE exE conjE)
    assume h: "halts (cat_in s) mem (CPS * int (alarm_count es)) es (3 * length (cat_in s) + 3) r"
    then consider (wait) t where "r = Waiting t" | (exit) c t' where "r = Exits c t'" "cat_ok mem t'"
      by (cases r) (auto simp: stop_ok_def)
    then show ?thesis
    proof cases
      case wait
      then show ?thesis using that [OF _ st(1)] eq h by simp
    next
      case exit
      obtain t where "leave c t' = Some (Exits c t)" "cat_out t = cat_out t'" "\<forall>q. tb_mem (cat_tb t) q = None"
        by (rule cat_leave [OF exit(2)])
      then show ?thesis using that [OF _ st(1), of "Exits c t"] eq h exit(1) by auto
    qed
  next
    fix t u assume "r = Exits 0 t" "leave 0 t = Some (Exits 0 u)" "cat_out u = cat_in s" "int (length (cat_in s)) \<le> CPS * int (alarm_count es)"
      "\<forall>q. tb_mem (cat_tb u) q = None"
    then show ?thesis using that [OF _ st(1), of "Exits 0 u"] eq by simp
  qed
qed

lemma cat_main_not_started:
  assumes "fresh_cat s" "\<not> (2 \<le> argc \<and> os \<and> mem \<noteq> 0)"
  obtains t where "cat_main argc os mem es s = Some (Exits 1 t)" "cat_out t = []" "\<forall>q. tb_mem (cat_tb t) q = None"
proof -
  have s: "cat_tb s = tb_start" "cat_out s = []" using assms(1) by (simp_all add: fresh_cat_def)
  consider "argc < 2" | "2 \<le> argc" "\<not> os" | "2 \<le> argc" "os" "mem = 0" using assms(2) by linarith
  then show ?thesis
  proof cases
    case 1
    then show ?thesis using that [of s] s by (simp add: cat_main_def tb_start_def)
  next
    case 2
    then show ?thesis using that [of "s\<lparr>cat_tb := tb_start\<rparr>"] s by (simp add: cat_main_def init_start) (simp add: tb_start_def)
  next
    case 3
    have "tb_ok (tb_start\<lparr>tb_inited := True\<rparr>)" using tb_start_ok by (simp add: tb_ok_def)
    then obtain tb where "tb_module_unload (tb_start\<lparr>tb_inited := True\<rparr>) = Some tb" "\<forall>q. tb_mem tb q = None"
      using unload_ok by blast
    then show ?thesis using 3 that [of "s\<lparr>cat_tb := tb\<rparr>"] s by (simp add: cat_main_def init_start leave_def)
  qed
qed

section \<open>Properties\<close>

text \<open>
  C7. The slow \<open>cat\<close> does what it is for, whatever signals arrive and whatever \<open>open\<close>, \<open>read\<close> and \<open>write\<close> answer
  (interruptions, short transfers, errors): it is never undefined; what it has written is always the beginning of the file
  and at most 10 bytes per alarm so far; whenever it exits no bucket is left; and it exits with 0 only when the whole
  file has been written.
\<close>
theorem slow_cat_copies_slowly:
  assumes "fresh_cat s"
  shows "(\<exists>t. cat_main argc os mem es s = Some (Waiting t) \<and> (\<exists>zs. cat_in s = cat_out t @ zs)
        \<and> int (length (cat_out t)) \<le> CPS * int (alarm_count es))
    \<or> (\<exists>c t. cat_main argc os mem es s = Some (Exits c t) \<and> (\<exists>zs. cat_in s = cat_out t @ zs)
        \<and> int (length (cat_out t)) \<le> CPS * int (alarm_count es)
        \<and> (\<forall>q. tb_mem (cat_tb t) q = None) \<and> (c = 0 \<longrightarrow> cat_out t = cat_in s))"
proof (cases "2 \<le> argc \<and> os \<and> mem \<noteq> 0")
  case True
  then have "2 \<le> argc" "os" "mem \<noteq> 0" by simp_all
  then obtain r where r: "cat_main argc os mem es s = Some r"
    "(\<exists>t. r = Waiting t \<and> halts (cat_in s) mem (CPS * int (alarm_count es)) es (3 * length (cat_in s) + 3) r)
     \<or> (\<exists>c t t'. r = Exits c t \<and> halts (cat_in s) mem (CPS * int (alarm_count es)) es (3 * length (cat_in s) + 3) (Exits c t')
          \<and> cat_out t = cat_out t' \<and> (\<forall>q. tb_mem (cat_tb t) q = None))
     \<or> (\<exists>t. r = Exits 0 t \<and> cat_out t = cat_in s \<and> int (length (cat_in s)) \<le> CPS * int (alarm_count es)
          \<and> (\<forall>q. tb_mem (cat_tb t) q = None))"
    by (rule cat_main_runs [OF assms])
  show ?thesis unfolding r(1) using r(2) by (elim disjE exE conjE) (simp_all add: stop_ok_def)
next
  case False
  obtain t where "cat_main argc os mem es s = Some (Exits 1 t)" "cat_out t = []" "\<forall>q. tb_mem (cat_tb t) q = None"
    by (rule cat_main_not_started [OF assms False])
  then show ?thesis by (simp add: CPS_def)
qed

text \<open>
  C15. The slow \<open>cat\<close> gets through: when every wait for tokens sees an alarm and no call fails, it has written the whole file
  and exited with 0 after three times as many completed calls as the file has bytes, and three; interruptions do not
  count.
\<close>
theorem slow_cat_finishes:
  assumes "fresh_cat s" and "2 \<le> argc" and "os" and "mem \<noteq> 0" and "all_lively es" and "3 * length (cat_in s) + 3 \<le> moves es"
  shows "\<exists>t. cat_main argc os mem es s = Some (Exits 0 t) \<and> cat_out t = cat_in s"
  by (rule cat_main_runs [OF assms(1-4), of es]) (use assms(5,6) in auto)

section \<open>Witnesses\<close>

definition two_bytes :: cat_state where
  "two_bytes = \<lparr>cat_tb = tb_start, cat_in = [5, 6], cat_out = [], cat_str = replicate 1024 0\<rparr>"

definition a_second :: event where
  "a_second = \<lparr>ev_sig = \<lparr>sig_wait = [SI_KERNEL], sig_min = [], sig_load = [], sig_store = []\<rparr>, ev_codes = [], ev_res = Moves 1\<rparr>"

lemma two_bytes_fresh: "fresh_cat two_bytes"
  by (simp add: fresh_cat_def two_bytes_def BUFSIZE_cat_def)

lemma slow_cat_copies_slowly_witness:
  "\<exists>r. cat_main 2 True 7 [a_second, a_second] two_bytes = Some r \<and>
    (\<forall>t. r = Waiting t \<longrightarrow> length (cat_out t) \<le> 20 \<and> (\<exists>zs. cat_out t @ zs = [5, 6]))"
proof -
  have "CPS * int (alarm_count [a_second, a_second]) = 20" by (simp add: a_second_def all_ticks_def CPS_def)
  moreover have "cat_in two_bytes = [5, 6]" by (simp add: two_bytes_def)
  ultimately show ?thesis
    using slow_cat_copies_slowly [OF two_bytes_fresh, of 2 True 7 "[a_second, a_second]"]
    by (elim disjE exE conjE) auto
qed

lemma slow_cat_finishes_witness:
  "\<exists>t. cat_main 2 True 7 (replicate 9 a_second) two_bytes = Some (Exits 0 t) \<and> cat_out t = [5, 6]"
proof -
  have "all_lively (replicate 9 a_second)" by (simp add: all_lively_def lively_def a_second_def)
  moreover have "3 * length (cat_in two_bytes) + 3 \<le> moves (replicate 9 a_second)"
    by (simp add: moves_def a_second_def two_bytes_def)
  ultimately show ?thesis
    using slow_cat_finishes [OF two_bytes_fresh, of 2 True 7 "replicate 9 a_second"] by (simp add: two_bytes_def)
qed

end
