(* ===== verification/MuxRelayer.thy ===== *)
theory MuxRelayer
  imports Relayer
begin

text \<open>
  The relayers over blocking descriptors, \<open>relayer.c\<close> in \<open>3.ybx/3.apue/9.advanced_io\<close> below
  \<open>2.select/4.relayer_mt\<close>, \<open>3.poll/2.relayer_mt\<close> and \<open>4.epoll/4.relayer_mt\<close>.  They have the jobs and the state
  machine \<open>fsm_driver\<close> of theory Relayer; in place of trying all descriptors, a round of the thread asks the
  kernel which are ready and drives the machines concerned.  A machine driven although its descriptor is not ready blocks
  the thread with the mutex held: \<open>Stuck\<close>.  \<open>None\<close> is undefined behaviour.
\<close>

section \<open>What the three versions share\<close>

type_synonym job_table = "rel_job_st option list"

datatype 'a served = Stuck | Served 'a

text \<open>\<open>cr\<close> and \<open>cw\<close> say which descriptors are ready for reading and for writing.\<close>

definition blocks :: "(int \<Rightarrow> bool) \<Rightarrow> (int \<Rightarrow> bool) \<Rightarrow> rel_fsm_st \<Rightarrow> bool" where
  "blocks cr cw f \<longleftrightarrow> fsm_state f = STATE_R \<and> \<not> cr (sfd f) \<or> fsm_state f = STATE_W \<and> \<not> cw (dfd f)"

text \<open>The part of the first loop that takes a machine from \<open>STATE_Ex\<close> to \<open>STATE_T\<close>; in these two states \<open>fsm_driver\<close>
  makes no call.\<close>

definition settle_fsm :: "rel_fsm_st \<Rightarrow> rel_fsm_st" where
  "settle_fsm f = (if fsm_state f = STATE_Ex \<or> fsm_state f = STATE_T then fst (fsm_driver (Read []) (Wrote 0) f) else f)"

definition settle_job :: "rel_job_st \<Rightarrow> rel_job_st" where
  "settle_job j = j\<lparr>fsm12 := settle_fsm (fsm12 j), fsm21 := settle_fsm (fsm21 j)\<rparr>"

text \<open>The second loop: \<open>report\<close> says whether machine 12 and machine 21 of a job are to be driven.\<close>

definition serve_job :: "(int \<Rightarrow> bool) \<Rightarrow> (int \<Rightarrow> bool) \<Rightarrow> results \<Rightarrow> bool \<Rightarrow> bool \<Rightarrow> rel_job_st \<Rightarrow> rel_job_st served" where
  "serve_job cr cw res a b j =
     (if a \<and> blocks cr cw (fsm12 j) then Stuck
      else let j1 = (if a then j\<lparr>fsm12 := fst (fsm_driver (fst (fst res)) (snd (fst res)) (fsm12 j))\<rparr> else j) in
        if b \<and> blocks cr cw (fsm21 j1) then Stuck
        else Served (if b then j1\<lparr>fsm21 := fst (fsm_driver (fst (snd res)) (snd (snd res)) (fsm21 j1))\<rparr> else j1))"

definition cons_served :: "'a \<Rightarrow> 'a list served \<Rightarrow> 'a list served" where
  "cons_served x r = (case r of Stuck \<Rightarrow> Stuck | Served xs \<Rightarrow> Served (x # xs))"

lemma cons_served_simps [simp]: "cons_served x Stuck = Stuck" "cons_served x (Served xs) = Served (x # xs)"
  "cons_served x r = Served ys \<longleftrightarrow> (\<exists>xs. r = Served xs \<and> ys = x # xs)"
  by (auto simp: cons_served_def split: served.split)

fun check_jobs :: "(nat \<Rightarrow> rel_job_st \<Rightarrow> (bool \<times> bool) option) \<Rightarrow> (int \<Rightarrow> bool) \<Rightarrow> (int \<Rightarrow> bool) \<Rightarrow> (nat \<Rightarrow> results)
    \<Rightarrow> nat \<Rightarrow> job_table \<Rightarrow> job_table served option" where
  "check_jobs report cr cw res i [] = Some (Served [])"
| "check_jobs report cr cw res i (None # js) = do {
     r \<leftarrow> check_jobs report cr cw res (Suc i) js;
     Some (cons_served None r) }"
| "check_jobs report cr cw res i (Some j # js) =
     (if rel_state j = 1 then do {
        (a, b) \<leftarrow> report i j;
        case serve_job cr cw (res i) a b j of
          Stuck \<Rightarrow> Some Stuck
        | Served j1 \<Rightarrow> do {
            r \<leftarrow> check_jobs report cr cw res (Suc i) js;
            Some (cons_served (Some j1) r) } }
      else do {
        r \<leftarrow> check_jobs report cr cw res (Suc i) js;
        Some (cons_served (Some j) r) })"

text \<open>\<open>rel_addjob\<close> of these versions leaves the flags of the descriptors alone.\<close>

definition free_slot :: "job_table \<Rightarrow> nat option" where
  "free_slot js = find (\<lambda>i. js ! i = None) [0..<REL_JOBMAX]"

definition new_job :: "rel_job_st \<Rightarrow> int \<Rightarrow> int \<Rightarrow> rel_job_st" where
  "new_job me a b = me\<lparr>fd1 := a, fd2 := b, rel_state := 1,
     fsm12 := (fsm12 me)\<lparr>sfd := a, dfd := b, count := 0, fsm_state := STATE_R\<rparr>,
     fsm21 := (fsm21 me)\<lparr>sfd := b, dfd := a, count := 0, fsm_state := STATE_R\<rparr>\<rparr>"

definition mux_addjob :: "rel_job_st option \<Rightarrow> int \<Rightarrow> int \<Rightarrow> job_table \<Rightarrow> int \<times> job_table" where
  "mux_addjob fresh a b js =
     (if a < 0 \<or> b < 0 then (-22, js)
      else case fresh of
        None \<Rightarrow> (-12, js)
      | Some me \<Rightarrow>
          (case free_slot js of
             None \<Rightarrow> (-28, js)
           | Some p \<Rightarrow> (int p, js[p := Some (new_job me a b)])))"

section \<open>\<open>select\<close>\<close>

definition FD_SETSIZE :: int where "FD_SETSIZE = 1024"

record fd_sets =
  rset :: "int set"
  wset :: "int set"
  maxfd :: int

definition FD_SET :: "int \<Rightarrow> int set \<Rightarrow> int set option" where
  "FD_SET fd S = (if 0 \<le> fd \<and> fd < FD_SETSIZE then Some (insert fd S) else None)"

definition FD_ISSET :: "int \<Rightarrow> int set \<Rightarrow> bool option" where
  "FD_ISSET fd S = (if 0 \<le> fd \<and> fd < FD_SETSIZE then Some (fd \<in> S) else None)"

definition watch_rd :: "int \<Rightarrow> fd_sets \<Rightarrow> fd_sets option" where
  "watch_rd fd m = do { S \<leftarrow> FD_SET fd (rset m); Some (m\<lparr>rset := S\<rparr>) }"

definition watch_wr :: "int \<Rightarrow> fd_sets \<Rightarrow> fd_sets option" where
  "watch_wr fd m = do { S \<leftarrow> FD_SET fd (wset m); Some (m\<lparr>wset := S\<rparr>) }"

definition select_watch :: "rel_job_st \<Rightarrow> fd_sets \<Rightarrow> fd_sets option" where
  "select_watch j m = do {
     m1 \<leftarrow> (if fsm_state (fsm12 j) = STATE_R then watch_rd (sfd (fsm12 j)) m else Some m);
     m2 \<leftarrow> (if fsm_state (fsm12 j) = STATE_W then watch_wr (dfd (fsm12 j)) m1 else Some m1);
     m3 \<leftarrow> (if fsm_state (fsm21 j) = STATE_R then watch_rd (sfd (fsm21 j)) m2 else Some m2);
     if fsm_state (fsm21 j) = STATE_W then watch_wr (dfd (fsm21 j)) m3 else Some m3 }"

text \<open>\<open>maxfd = (maxfd, max(fd1, fd2))\<close> uses the comma operator: it is \<open>maxfd = max(fd1, fd2)\<close>.\<close>

fun select_arrange_jobs :: "job_table \<Rightarrow> fd_sets \<Rightarrow> (job_table \<times> fd_sets) option" where
  "select_arrange_jobs [] m = Some ([], m)"
| "select_arrange_jobs (None # js) m = do { (js1, m1) \<leftarrow> select_arrange_jobs js m; Some (None # js1, m1) }"
| "select_arrange_jobs (Some j # js) m =
     (let m0 = m\<lparr>maxfd := max (fd1 j) (fd2 j)\<rparr> in
      if rel_state j = 1 then do {
        m1 \<leftarrow> select_watch j m0;
        (js1, m2) \<leftarrow> select_arrange_jobs js m1;
        Some (Some (settle_job j) # js1, m2) }
      else do { (js1, m2) \<leftarrow> select_arrange_jobs js m0; Some (Some j # js1, m2) })"

definition select_arrange :: "job_table \<Rightarrow> fd_sets \<Rightarrow> (job_table \<times> fd_sets) option" where
  "select_arrange js m = select_arrange_jobs js (m\<lparr>rset := {}, wset := {}\<rparr>)"

text \<open>What POSIX says of \<open>select(maxfd + 1, ...)\<close>: of the descriptors up to \<open>maxfd\<close> those stay in the sets that are ready;
  the others are not examined, and their bits may be cleared or not.\<close>

definition select_wait :: "fd_sets \<Rightarrow> (int \<Rightarrow> bool) \<Rightarrow> (int \<Rightarrow> bool) \<Rightarrow> int set \<times> int set \<Rightarrow> bool" where
  "select_wait m cr cw k \<longleftrightarrow> fst k \<subseteq> rset m \<and> snd k \<subseteq> wset m
     \<and> (\<forall>fd \<le> maxfd m. (fd \<in> rset m \<longrightarrow> (fd \<in> fst k \<longleftrightarrow> cr fd)) \<and> (fd \<in> wset m \<longrightarrow> (fd \<in> snd k \<longleftrightarrow> cw fd)))"

definition select_report :: "int set \<times> int set \<Rightarrow> nat \<Rightarrow> rel_job_st \<Rightarrow> (bool \<times> bool) option" where
  "select_report k i j = do {
     a \<leftarrow> FD_ISSET (fd1 j) (fst k);
     b \<leftarrow> (if a then Some True else FD_ISSET (fd2 j) (snd k));
     c \<leftarrow> FD_ISSET (fd2 j) (fst k);
     d \<leftarrow> (if c then Some True else FD_ISSET (fd1 j) (snd k));
     Some (b, d) }"

section \<open>\<open>poll\<close>\<close>

text \<open>The array \<open>pfd\<close> is on the stack: what has not been assigned is \<open>None\<close>.  The events are \<open>POLLIN\<close> and \<open>POLLOUT\<close>.\<close>

type_synonym pollfds = "nat \<Rightarrow> (int \<times> (bool \<times> bool) option) option"

fun poll_arrange_jobs :: "nat \<Rightarrow> job_table \<Rightarrow> pollfds \<Rightarrow> job_table \<times> pollfds" where
  "poll_arrange_jobs i [] p = ([], p)"
| "poll_arrange_jobs i (None # js) p = (let (js1, p1) = poll_arrange_jobs (Suc i) js p in (None # js1, p1))"
| "poll_arrange_jobs i (Some j # js) p =
     (if rel_state j = 1 then
        let p1 = p(2 * i := Some (fd1 j, Some (fsm_state (fsm12 j) = STATE_R, fsm_state (fsm21 j) = STATE_W)),
                   2 * i + 1 := Some (fd2 j, Some (fsm_state (fsm21 j) = STATE_R, fsm_state (fsm12 j) = STATE_W)));
            (js1, p2) = poll_arrange_jobs (Suc i) js p1
        in (Some (settle_job j) # js1, p2)
      else
        let p1 = p(2 * i := Some (fd1 j, Option.bind (p (2 * i)) snd),
                   2 * i + 1 := Some (fd2 j, Option.bind (p (2 * i + 1)) snd));
            (js1, p2) = poll_arrange_jobs (Suc i) js p1
        in (Some j # js1, p2))"

text \<open>\<open>poll(pfd, 4, -1)\<close> reads four entries, whatever the jobs.\<close>

definition poll_arrange :: "job_table \<Rightarrow> pollfds \<Rightarrow> (job_table \<times> pollfds) option" where
  "poll_arrange js p =
     (let (js1, p1) = poll_arrange_jobs 0 js p in
      if list_all (\<lambda>e. Option.bind (p1 e) snd \<noteq> None) [0..<4] then Some (js1, p1) else None)"

definition poll_wait :: "pollfds \<Rightarrow> (int \<Rightarrow> bool) \<Rightarrow> (int \<Rightarrow> bool) \<Rightarrow> (nat \<Rightarrow> bool \<times> bool) \<Rightarrow> bool" where
  "poll_wait p cr cw k \<longleftrightarrow> (\<forall>e < 4. \<forall>fd i u. p e = Some (fd, Some (i, u)) \<longrightarrow> k e = (i \<and> cr fd, u \<and> cw fd))"

text \<open>The entries from the fourth on have never been given a \<open>revents\<close>.\<close>

definition poll_report :: "(nat \<Rightarrow> bool \<times> bool) \<Rightarrow> nat \<Rightarrow> rel_job_st \<Rightarrow> (bool \<times> bool) option" where
  "poll_report k i j =
     (if 2 * i + 1 < 4 then Some (fst (k (2 * i)) \<or> snd (k (2 * i + 1)), snd (k (2 * i)) \<or> fst (k (2 * i + 1))) else None)"

section \<open>\<open>epoll\<close>\<close>

record epoll_st =
  ep_fds :: "int set"
  ep_in :: "int \<Rightarrow> bool"
  ep_out :: "int \<Rightarrow> bool"

text \<open>\<open>epoll_ctl\<close>: adding a descriptor twice and modifying one that was not added fail; the code ignores that.\<close>

definition epoll_add :: "int \<Rightarrow> epoll_st \<Rightarrow> epoll_st" where
  "epoll_add fd m = (if fd \<in> ep_fds m then m
     else m\<lparr>ep_fds := insert fd (ep_fds m), ep_in := (ep_in m)(fd := False), ep_out := (ep_out m)(fd := False)\<rparr>)"

definition epoll_mod :: "int \<Rightarrow> bool \<Rightarrow> bool \<Rightarrow> epoll_st \<Rightarrow> epoll_st" where
  "epoll_mod fd i u m = (if fd \<in> ep_fds m then m\<lparr>ep_in := (ep_in m)(fd := i), ep_out := (ep_out m)(fd := u)\<rparr> else m)"

fun epoll_start :: "job_table \<Rightarrow> epoll_st \<Rightarrow> epoll_st" where
  "epoll_start [] m = m"
| "epoll_start (None # js) m = epoll_start js m"
| "epoll_start (Some j # js) m = epoll_start js (if rel_state j = 1 then epoll_add (fd2 j) (epoll_add (fd1 j) m) else m)"

fun epoll_arrange_jobs :: "job_table \<Rightarrow> epoll_st \<Rightarrow> job_table \<times> epoll_st" where
  "epoll_arrange_jobs [] m = ([], m)"
| "epoll_arrange_jobs (None # js) m = (let (js1, m1) = epoll_arrange_jobs js m in (None # js1, m1))"
| "epoll_arrange_jobs (Some j # js) m =
     (if rel_state j = 1 then
        let m1 = epoll_mod (fd1 j) (fsm_state (fsm12 j) = STATE_R) (fsm_state (fsm21 j) = STATE_W) m;
            m2 = epoll_mod (fd2 j) (fsm_state (fsm21 j) = STATE_R) (fsm_state (fsm12 j) = STATE_W) m1;
            (js1, m3) = epoll_arrange_jobs js m2
        in (Some (settle_job j) # js1, m3)
      else let (js1, m1) = epoll_arrange_jobs js m in (Some j # js1, m1))"

definition epoll_arrange :: "job_table \<Rightarrow> epoll_st \<Rightarrow> (job_table \<times> epoll_st) option" where
  "epoll_arrange js m = Some (epoll_arrange_jobs js m)"

text \<open>\<open>epoll_wait(epfd, &ev, 1, -1)\<close> returns one descriptor; the report may be of an error only.\<close>

definition epoll_wait :: "epoll_st \<Rightarrow> (int \<Rightarrow> bool) \<Rightarrow> (int \<Rightarrow> bool) \<Rightarrow> int \<times> bool \<times> bool \<Rightarrow> bool" where
  "epoll_wait m cr cw k = (case k of (fd, i, u) \<Rightarrow> fd \<in> ep_fds m \<and> i = (ep_in m fd \<and> cr fd) \<and> u = (ep_out m fd \<and> cw fd))"

definition epoll_report :: "int \<times> bool \<times> bool \<Rightarrow> nat \<Rightarrow> rel_job_st \<Rightarrow> (bool \<times> bool) option" where
  "epoll_report k n j = (case k of (fd, i, u) \<Rightarrow>
     Some (fd = fd1 j \<and> i \<or> fd = fd2 j \<and> u, fd = fd2 j \<and> i \<or> fd = fd1 j \<and> u))"

section \<open>The program as steps\<close>

text \<open>The calls of one version: what the thread does before its loop, the arranging, the report and the promise of the
  kernel; \<open>op_again\<close> says that an interrupted wait goes back to the arranging.\<close>

record ('m, 'k) mux_ops =
  op_start :: "job_table \<Rightarrow> 'm \<Rightarrow> 'm"
  op_arrange :: "job_table \<Rightarrow> 'm \<Rightarrow> (job_table \<times> 'm) option"
  op_report :: "'k \<Rightarrow> nat \<Rightarrow> rel_job_st \<Rightarrow> (bool \<times> bool) option"
  op_wait :: "'m \<Rightarrow> (int \<Rightarrow> bool) \<Rightarrow> (int \<Rightarrow> bool) \<Rightarrow> 'k \<Rightarrow> bool"
  op_again :: bool

definition select_ops :: "(fd_sets, int set \<times> int set) mux_ops" where
  "select_ops = \<lparr>op_start = \<lambda>js m. m, op_arrange = select_arrange, op_report = select_report, op_wait = select_wait, op_again = True\<rparr>"

definition poll_ops :: "(pollfds, nat \<Rightarrow> bool \<times> bool) mux_ops" where
  "poll_ops = \<lparr>op_start = \<lambda>js m. m, op_arrange = poll_arrange, op_report = poll_report, op_wait = poll_wait, op_again = False\<rparr>"

definition epoll_ops :: "(epoll_st, int \<times> bool \<times> bool) mux_ops" where
  "epoll_ops = \<lparr>op_start = epoll_start, op_arrange = epoll_arrange, op_report = epoll_report, op_wait = epoll_wait, op_again = False\<rparr>"

datatype phase = Off | Arranging | Waits

record 'm relay_state =
  jobs :: job_table
  mux :: 'm
  phase :: phase

definition fresh_fds :: "job_table \<Rightarrow> int \<Rightarrow> int \<Rightarrow> bool" where
  "fresh_fds js a b \<longleftrightarrow> a \<noteq> b \<and> (\<forall>j. Some j \<in> set js \<longrightarrow> {a, b} \<inter> {fd1 j, fd2 j} = {})"

text \<open>The main thread adds jobs with descriptors of their own, also while the other thread waits, and starts the thread;
  \<open>can_add\<close> and \<open>can_start\<close> are the use that a version is made for.\<close>

inductive relay_runs :: "('m, 'k) mux_ops \<Rightarrow> 'm \<Rightarrow> (job_table \<Rightarrow> phase \<Rightarrow> int \<Rightarrow> int \<Rightarrow> bool) \<Rightarrow> (job_table \<Rightarrow> bool) \<Rightarrow> 'm relay_state \<Rightarrow> bool"
  for ops m0 can_add can_start where
  RelayInit: "relay_runs ops m0 can_add can_start \<lparr>jobs = replicate REL_JOBMAX None, mux = m0, phase = Off\<rparr>"
| RelayAdd: "relay_runs ops m0 can_add can_start s \<Longrightarrow> fresh_fds (jobs s) a b \<Longrightarrow> can_add (jobs s) (phase s) a b \<Longrightarrow>
    mux_addjob fresh a b (jobs s) = (p, js) \<Longrightarrow> relay_runs ops m0 can_add can_start (s\<lparr>jobs := js\<rparr>)"
| RelayStart: "relay_runs ops m0 can_add can_start s \<Longrightarrow> phase s = Off \<Longrightarrow> can_start (jobs s) \<Longrightarrow>
    relay_runs ops m0 can_add can_start (s\<lparr>mux := op_start ops (jobs s) (mux s), phase := Arranging\<rparr>)"
| RelayArrange: "relay_runs ops m0 can_add can_start s \<Longrightarrow> phase s = Arranging \<Longrightarrow> op_arrange ops (jobs s) (mux s) = Some (js, m) \<Longrightarrow>
    relay_runs ops m0 can_add can_start (s\<lparr>jobs := js, mux := m, phase := Waits\<rparr>)"
| RelayAgain: "relay_runs ops m0 can_add can_start s \<Longrightarrow> phase s = Waits \<Longrightarrow> op_again ops \<Longrightarrow>
    relay_runs ops m0 can_add can_start (s\<lparr>phase := Arranging\<rparr>)"
| RelayServe: "relay_runs ops m0 can_add can_start s \<Longrightarrow> phase s = Waits \<Longrightarrow> op_wait ops (mux s) cr cw k \<Longrightarrow>
    check_jobs (op_report ops k) cr cw res 0 (jobs s) = Some (Served js) \<Longrightarrow>
    relay_runs ops m0 can_add can_start (s\<lparr>jobs := js, phase := Arranging\<rparr>)"

section \<open>Tables\<close>

definition shape :: "rel_job_st \<Rightarrow> int \<times> (int \<times> int) \<times> (int \<times> int) \<times> (int \<times> int)" where
  "shape j = (rel_state j, (fd1 j, fd2 j), (sfd (fsm12 j), dfd (fsm12 j)), (sfd (fsm21 j), dfd (fsm21 j)))"

definition wired :: "rel_job_st \<Rightarrow> bool" where
  "wired j \<longleftrightarrow> 0 \<le> fd1 j \<and> 0 \<le> fd2 j \<and> fd1 j \<noteq> fd2 j \<and> shape j = (1, (fd1 j, fd2 j), (fd1 j, fd2 j), (fd2 j, fd1 j))"

definition filled :: "job_table \<Rightarrow> nat \<Rightarrow> bool" where
  "filled js n \<longleftrightarrow> n \<le> length js \<and> (\<forall>i < length js. js ! i \<noteq> None \<longleftrightarrow> i < n)"

definition table_ok :: "job_table \<Rightarrow> bool" where
  "table_ok js \<longleftrightarrow> length js = REL_JOBMAX \<and> (\<forall>j. Some j \<in> set js \<longrightarrow> wired j) \<and> (\<exists>n. filled js n) \<and>
     (\<forall>i k j j'. i < length js \<longrightarrow> k < length js \<longrightarrow> i \<noteq> k \<longrightarrow> js ! i = Some j \<longrightarrow> js ! k = Some j' \<longrightarrow>
        {fd1 j, fd2 j} \<inter> {fd1 j', fd2 j'} = {})"

lemma table_okI:
  "length js = REL_JOBMAX \<Longrightarrow> (\<And>j. Some j \<in> set js \<Longrightarrow> wired j) \<Longrightarrow> filled js n \<Longrightarrow>
   (\<And>i k j j'. i < length js \<Longrightarrow> k < length js \<Longrightarrow> i \<noteq> k \<Longrightarrow> js ! i = Some j \<Longrightarrow> js ! k = Some j' \<Longrightarrow>
      {fd1 j, fd2 j} \<inter> {fd1 j', fd2 j'} = {}) \<Longrightarrow> table_ok js"
  unfolding table_ok_def by blast

definition same_shapes :: "job_table \<Rightarrow> job_table \<Rightarrow> bool" where
  "same_shapes js js' \<longleftrightarrow> map (map_option shape) js' = map (map_option shape) js"

lemma wiredD: "wired j \<Longrightarrow> rel_state j = 1" "wired j \<Longrightarrow> sfd (fsm12 j) = fd1 j" "wired j \<Longrightarrow> dfd (fsm12 j) = fd2 j"
  "wired j \<Longrightarrow> sfd (fsm21 j) = fd2 j" "wired j \<Longrightarrow> dfd (fsm21 j) = fd1 j" "wired j \<Longrightarrow> fd1 j \<noteq> fd2 j"
  "wired j \<Longrightarrow> 0 \<le> fd1 j" "wired j \<Longrightarrow> 0 \<le> fd2 j"
  by (simp_all add: wired_def shape_def)

lemma wired_shape: "shape j' = shape j \<Longrightarrow> wired j \<Longrightarrow> wired j'"
  by (auto simp: wired_def shape_def)

lemma shape_fds: "shape j' = shape j \<Longrightarrow> fd1 j' = fd1 j \<and> fd2 j' = fd2 j"
  by (simp add: shape_def)

lemma same_shapes_nth:
  assumes "same_shapes js js'"
  shows "length js' = length js" "i < length js \<Longrightarrow> map_option shape (js' ! i) = map_option shape (js ! i)"
proof -
  show l: "length js' = length js" using assms unfolding same_shapes_def by (metis length_map)
  show "map_option shape (js' ! i) = map_option shape (js ! i)" if "i < length js"
    using assms that l unfolding same_shapes_def by (metis nth_map)
qed

lemma same_shapesI:
  "length js' = length js \<Longrightarrow> (\<And>i. i < length js \<Longrightarrow> map_option shape (js' ! i) = map_option shape (js ! i)) \<Longrightarrow> same_shapes js js'"
  unfolding same_shapes_def by (rule nth_equalityI) simp_all

lemma same_shapes_job:
  assumes "same_shapes js js'" "i < length js" "js' ! i = Some j'"
  obtains j where "js ! i = Some j" "shape j' = shape j"
  using same_shapes_nth(2) [OF assms(1,2)] assms(3) by (cases "js ! i") auto

lemma same_shapes_refl [simp]: "same_shapes js js"
  by (simp add: same_shapes_def)

lemma same_shapes_None: "same_shapes js js' \<Longrightarrow> i < length js \<Longrightarrow> js' ! i = None \<longleftrightarrow> js ! i = None"
  using same_shapes_nth(2) [of js js' i] by (cases "js ! i"; cases "js' ! i") simp_all

lemma same_shapes_filled: "same_shapes js js' \<Longrightarrow> filled js n \<Longrightarrow> filled js' n"
  by (simp add: filled_def same_shapes_nth(1) same_shapes_None)

lemma table_ok_shapes:
  assumes "same_shapes js js'" "table_ok js"
  shows "table_ok js'"
proof -
  have l: "length js' = length js" by (rule same_shapes_nth(1) [OF assms(1)])
  have "wired j'" if "Some j' \<in> set js'" for j'
  proof -
    obtain i where i: "i < length js" "js' ! i = Some j'" using \<open>Some j' \<in> set js'\<close> l by (auto simp: in_set_conv_nth)
    then obtain j where "js ! i = Some j" "shape j' = shape j" by (rule same_shapes_job [OF assms(1)])
    moreover from this have "wired j" using assms(2) i nth_mem [of i js] by (simp add: table_ok_def)
    ultimately show ?thesis by (blast intro: wired_shape)
  qed
  moreover have "{fd1 j, fd2 j} \<inter> {fd1 j', fd2 j'} = {}"
    if d: "i < length js" "k < length js" "i \<noteq> k" "js' ! i = Some j" "js' ! k = Some j'" for i k j j'
  proof -
    obtain q where q: "js ! i = Some q" "shape j = shape q" by (rule same_shapes_job [OF assms(1) d(1,4)])
    obtain q' where q': "js ! k = Some q'" "shape j' = shape q'" by (rule same_shapes_job [OF assms(1) d(2,5)])
    have "{fd1 q, fd2 q} \<inter> {fd1 q', fd2 q'} = {}" using assms(2) d(1-3) q(1) q'(1) unfolding table_ok_def by blast
    then show ?thesis using shape_fds [OF q(2)] shape_fds [OF q'(2)] by simp
  qed
  moreover have "\<exists>n. filled js' n" using assms same_shapes_filled [OF assms(1)] unfolding table_ok_def by blast
  ultimately show ?thesis using assms(2) l by (simp add: table_ok_def)
qed

text \<open>A descriptor belongs to one job.\<close>

lemma owner:
  assumes "table_ok js" "Some j \<in> set js" "Some j' \<in> set js" "{fd1 j, fd2 j} \<inter> {fd1 j', fd2 j'} \<noteq> {}"
  shows "j' = j"
proof -
  obtain i k where i: "i < length js" "js ! i = Some j" and k: "k < length js" "js ! k = Some j'"
    using assms(2,3) by (auto simp: in_set_conv_nth)
  have "i = k"
  proof (rule ccontr)
    assume "i \<noteq> k"
    then show False using assms(1,4) i k unfolding table_ok_def by blast
  qed
  then show ?thesis using i k by simp
qed

lemma table_wired: "table_ok js \<Longrightarrow> Some j \<in> set js \<Longrightarrow> wired j"
  by (simp add: table_ok_def)

section \<open>Serving\<close>

definition able :: "(int \<Rightarrow> bool) \<Rightarrow> (int \<Rightarrow> bool) \<Rightarrow> rel_fsm_st \<Rightarrow> bool" where
  "able cr cw f \<longleftrightarrow> fsm_state f = STATE_R \<and> cr (sfd f) \<or> fsm_state f = STATE_W \<and> cw (dfd f)"

definition drive :: "bool \<Rightarrow> read_result \<times> write_result \<Rightarrow> rel_fsm_st \<Rightarrow> rel_fsm_st" where
  "drive a res f = (if a then fst (fsm_driver (fst res) (snd res) f) else f)"

definition drive_job :: "results \<Rightarrow> bool \<Rightarrow> bool \<Rightarrow> rel_job_st \<Rightarrow> rel_job_st" where
  "drive_job res a b j = j\<lparr>fsm12 := drive a (fst res) (fsm12 j), fsm21 := drive b (snd res) (fsm21 j)\<rparr>"

lemma able_not_blocks: "able cr cw f \<Longrightarrow> \<not> blocks cr cw f"
  by (auto simp: able_def blocks_def)

lemma serve_job_able:
  "(a \<Longrightarrow> able cr cw (fsm12 j)) \<Longrightarrow> (b \<Longrightarrow> able cr cw (fsm21 j)) \<Longrightarrow> serve_job cr cw res a b j = Served (drive_job res a b j)"
  by (auto simp: serve_job_def drive_job_def drive_def able_not_blocks Let_def)

lemma fsm_driver_fds: "sfd (fst (fsm_driver r w f)) = sfd f" "dfd (fst (fsm_driver r w f)) = dfd f"
  by (auto simp: fsm_driver_def Let_def split: fsm_state.split read_result.split write_result.split)

lemma drive_job_shape: "shape (drive_job res a b j) = shape j"
  by (simp add: shape_def drive_job_def drive_def fsm_driver_fds)

lemma settle_fsm_simps [simp]: "sfd (settle_fsm f) = sfd f" "dfd (settle_fsm f) = dfd f"
  "fsm_state (settle_fsm f) = STATE_R \<longleftrightarrow> fsm_state f = STATE_R" "fsm_state (settle_fsm f) = STATE_W \<longleftrightarrow> fsm_state f = STATE_W"
  by (auto simp: settle_fsm_def fsm_driver_def split: fsm_state.split)

lemma settle_shape: "shape (settle_job j) = shape j"
  by (simp add: shape_def settle_job_def)

lemma settle_fields [simp]: "fd1 (settle_job j) = fd1 j" "fd2 (settle_job j) = fd2 j" "rel_state (settle_job j) = rel_state j"
  by (simp_all add: settle_job_def)

definition settled :: "job_table \<Rightarrow> job_table" where
  "settled js = map (map_option settle_job) js"

lemma settled_shapes: "same_shapes js (settled js)"
  by (intro same_shapesI) (auto simp: settled_def option.map_comp o_def settle_shape)

text \<open>A round in which only able machines are driven goes through.\<close>

lemma check_jobs_able:
  assumes "\<And>k j. k < length js \<Longrightarrow> js ! k = Some j \<Longrightarrow> rel_state j = 1 \<and> report (i + k) j = Some (P (i + k) j, Q (i + k) j)
      \<and> (P (i + k) j \<longrightarrow> able cr cw (fsm12 j)) \<and> (Q (i + k) j \<longrightarrow> able cr cw (fsm21 j))"
  shows "check_jobs report cr cw res i js
    = Some (Served (map (\<lambda>(n, x). map_option (\<lambda>j. drive_job (res n) (P n j) (Q n j) j) x) (enumerate i js)))"
  using assms
proof (induction js arbitrary: i)
  case (Cons x js)
  have rest: "check_jobs report cr cw res (Suc i) js
      = Some (Served (map (\<lambda>(n, x). map_option (\<lambda>j. drive_job (res n) (P n j) (Q n j) j) x) (enumerate (Suc i) js)))"
  proof (rule Cons.IH)
    fix k j assume "k < length js" "js ! k = Some j"
    then show "rel_state j = 1 \<and> report (Suc i + k) j = Some (P (Suc i + k) j, Q (Suc i + k) j)
        \<and> (P (Suc i + k) j \<longrightarrow> able cr cw (fsm12 j)) \<and> (Q (Suc i + k) j \<longrightarrow> able cr cw (fsm21 j))"
      using Cons.prems [of "Suc k" j] by simp
  qed
  show ?case
  proof (cases x)
    case None
    then show ?thesis using rest by simp
  next
    case (Some j)
    have h: "rel_state j = 1" "report i j = Some (P i j, Q i j)" "P i j \<Longrightarrow> able cr cw (fsm12 j)" "Q i j \<Longrightarrow> able cr cw (fsm21 j)"
      using Cons.prems [of 0 j] Some by simp_all
    show ?thesis using Some h(1,2) rest serve_job_able [OF h(3,4), where res = "res i"] by simp
  qed
qed simp

lemma check_jobs_shapes:
  assumes "check_jobs report cr cw res i js = Some (Served js')"
  shows "same_shapes js js'"
  using assms
proof (induction js arbitrary: i js')
  case (Cons x js)
  have serve: "shape j1 = shape j" if "serve_job cr cw r a b j = Served j1" for r a b j j1
    using that by (auto simp: serve_job_def shape_def Let_def fsm_driver_fds split: if_splits)
  note IH = Cons.IH [of "Suc i"]
  show ?case
  proof (cases x)
    case None
    then obtain js1 where "check_jobs report cr cw res (Suc i) js = Some (Served js1)" "js' = None # js1"
      using Cons.prems by (auto simp: bind_eq_Some_conv)
    then show ?thesis using IH None by (simp add: same_shapes_def)
  next
    case (Some j)
    have "\<exists>js1 j1. check_jobs report cr cw res (Suc i) js = Some (Served js1) \<and> js' = Some j1 # js1 \<and> shape j1 = shape j"
    proof (cases "rel_state j = 1")
      case False
      then show ?thesis using Cons.prems Some by (auto simp: bind_eq_Some_conv)
    next
      case True
      then obtain a b where ab: "report i j = Some (a, b)" using Cons.prems Some by (auto simp: bind_eq_Some_conv)
      then show ?thesis using Cons.prems Some True serve [of "res i" a b j]
        by (cases "serve_job cr cw (res i) a b j") (auto simp: bind_eq_Some_conv)
    qed
    then show ?thesis using IH Some by (auto simp: same_shapes_def)
  qed
qed simp

section \<open>Adding a job\<close>

lemma new_job_wired: "a \<noteq> b \<Longrightarrow> 0 \<le> a \<Longrightarrow> 0 \<le> b \<Longrightarrow> wired (new_job me a b)"
  by (simp add: wired_def shape_def new_job_def)

lemma new_job_fields [simp]: "fd1 (new_job me a b) = a" "fd2 (new_job me a b) = b" "rel_state (new_job me a b) = 1"
  "fsm_state (fsm12 (new_job me a b)) = STATE_R" "fsm_state (fsm21 (new_job me a b)) = STATE_R"
  "sfd (fsm12 (new_job me a b)) = a" "dfd (fsm12 (new_job me a b)) = b" "sfd (fsm21 (new_job me a b)) = b" "dfd (fsm21 (new_job me a b)) = a"
  by (simp_all add: new_job_def)

lemma table_ok_length: "table_ok js \<Longrightarrow> length js = REL_JOBMAX"
  by (simp add: table_ok_def)

lemma free_slot_filled:
  assumes "table_ok js" "filled js n"
  shows "free_slot js = (if n < REL_JOBMAX then Some n else None)"
proof -
  have l: "length js = REL_JOBMAX" by (rule table_ok_length [OF assms(1)])
  show ?thesis
  proof (cases "n < REL_JOBMAX")
    case True
    then have "js ! n = None" "\<forall>i < n. js ! i \<noteq> None" using assms(2) l by (auto simp: filled_def)
    then show ?thesis using True by (auto simp: free_slot_def find_Some_iff intro!: exI [of _ n])
  next
    case False
    then have "\<forall>i < REL_JOBMAX. js ! i \<noteq> None" using assms(2) l by (simp add: filled_def)
    then show ?thesis using False by (simp add: free_slot_def find_None_iff)
  qed
qed

lemma job_in_set: "i < length js \<Longrightarrow> js ! i = Some j \<Longrightarrow> Some j \<in> set js"
  by (metis nth_mem)

lemma table_ok_add:
  assumes ok: "table_ok js" "filled js p" "p < REL_JOBMAX" and f: "fresh_fds js a b" "0 \<le> a" "0 \<le> b"
  shows "table_ok (js[p := Some (new_job me a b)])" "filled (js[p := Some (new_job me a b)]) (Suc p)"
proof -
  let ?js = "js[p := Some (new_job me a b)]"
  have l: "length js = REL_JOBMAX" by (rule table_ok_length [OF ok(1)])
  show fl: "filled ?js (Suc p)" using ok(2,3) l by (auto simp: filled_def nth_list_update)
  have w: "wired (new_job me a b)" using f by (intro new_job_wired) (auto simp: fresh_fds_def)
  have "wired j" if "Some j \<in> set ?js" for j
    using that w table_wired [OF ok(1)] set_update_subset_insert [of js p "Some (new_job me a b)"] by auto
  moreover have new: "{a, b} \<inter> {fd1 j, fd2 j} = {}" if "k < length js" "js ! k = Some j" for k j
    using f(1) job_in_set [OF that] by (simp add: fresh_fds_def)
  have "{fd1 j, fd2 j} \<inter> {fd1 j', fd2 j'} = {}"
    if d: "i < length js" "k < length js" "i \<noteq> k" "?js ! i = Some j" "?js ! k = Some j'" for i k j j'
  proof (cases "i = p \<or> k = p")
    case True
    then show ?thesis using new [of i j] new [of k j'] d by (auto simp: nth_list_update split: if_splits)
  next
    case False
    then show ?thesis using d ok(1) unfolding table_ok_def by (metis nth_list_update_neq)
  qed
  ultimately show "table_ok ?js" using l fl by (intro table_okI) simp_all
qed

lemma mux_addjob_cases:
  assumes "mux_addjob fresh a b js = (p, js')" "table_ok js"
  obtains "js' = js" "p < 0" | me n where "p = int n" "n < REL_JOBMAX" "filled js n" "0 \<le> a" "0 \<le> b" "js' = js[n := Some (new_job me a b)]"
proof -
  obtain n where n: "filled js n" using assms(2) by (auto simp: table_ok_def)
  note slot = free_slot_filled [OF assms(2) n]
  consider "a < 0 \<or> b < 0 \<or> fresh = None \<or> \<not> n < REL_JOBMAX" | me where "0 \<le> a" "0 \<le> b" "fresh = Some me" "n < REL_JOBMAX"
    by (cases fresh) force+
  then show ?thesis
  proof cases
    case 1
    then have "js' = js" "p < 0" using assms(1) slot by (auto simp: mux_addjob_def split: if_splits option.splits)
    then show ?thesis by (rule that(1))
  next
    case 2
    then have "p = int n" "js' = js[n := Some (new_job me a b)]" using assms(1) slot by (simp_all add: mux_addjob_def)
    then show ?thesis using that(2) [of n me] 2 n by simp
  qed
qed

section \<open>The contract of a multiplexer\<close>

text \<open>\<open>watched\<close> relates the table and what the thread has told the kernel.  The laws: calls keep it, arranging is always
  defined, and only able machines are reported.\<close>

locale multiplexer =
  fixes ops :: "('m, 'k) mux_ops"
    and m0 :: 'm
    and can_add :: "job_table \<Rightarrow> phase \<Rightarrow> int \<Rightarrow> int \<Rightarrow> bool"
    and can_start :: "job_table \<Rightarrow> bool"
    and watched :: "job_table \<Rightarrow> 'm \<Rightarrow> phase \<Rightarrow> bool"
  assumes init: "watched (replicate REL_JOBMAX None) m0 Off"
    and add: "watched js m ph \<Longrightarrow> table_ok js \<Longrightarrow> filled js p \<Longrightarrow> p < REL_JOBMAX \<Longrightarrow> fresh_fds js a b \<Longrightarrow> 0 \<le> a \<Longrightarrow> 0 \<le> b \<Longrightarrow>
        can_add js ph a b \<Longrightarrow> watched (js[p := Some (new_job me a b)]) m ph"
    and start: "watched js m Off \<Longrightarrow> table_ok js \<Longrightarrow> can_start js \<Longrightarrow> watched js (op_start ops js m) Arranging"
    and arrange: "watched js m Arranging \<Longrightarrow> table_ok js \<Longrightarrow>
        \<exists>m'. op_arrange ops js m = Some (settled js, m') \<and> watched (settled js) m' Waits"
    and sound: "watched js m Waits \<Longrightarrow> table_ok js \<Longrightarrow> op_wait ops m cr cw k \<Longrightarrow> i < length js \<Longrightarrow> js ! i = Some j \<Longrightarrow>
        \<exists>a b. op_report ops k i j = Some (a, b) \<and> (a \<longrightarrow> able cr cw (fsm12 j)) \<and> (b \<longrightarrow> able cr cw (fsm21 j))"
    and served: "watched js m Waits \<Longrightarrow> table_ok js \<Longrightarrow> same_shapes js js' \<Longrightarrow> watched js' m Arranging"
begin

lemma runs_ok: "relay_runs ops m0 can_add can_start s \<Longrightarrow> table_ok (jobs s) \<and> watched (jobs s) (mux s) (phase s)"
proof (induction rule: relay_runs.induct)
  case RelayInit
  have "filled (replicate REL_JOBMAX None) 0" by (simp add: filled_def)
  then have "table_ok (replicate REL_JOBMAX None)" by (auto simp: table_ok_def)
  then show ?case using init by simp
next
  case (RelayAdd s a b fresh p js)
  have ok: "table_ok (jobs s)" "watched (jobs s) (mux s) (phase s)" using RelayAdd.IH by simp_all
  show ?case
    using RelayAdd.hyps(4) ok(1)
  proof (cases rule: mux_addjob_cases)
    case 1
    then show ?thesis using ok by simp
  next
    case (2 me n)
    then show ?thesis
      using table_ok_add(1) [OF ok(1) 2(3,2) RelayAdd.hyps(2) 2(4,5)] add [OF ok(2,1) 2(3,2) RelayAdd.hyps(2) 2(4,5) RelayAdd.hyps(3)]
      by simp
  qed
next
  case (RelayStart s)
  then show ?case using start by simp
next
  case (RelayArrange s js m)
  then show ?case using arrange table_ok_shapes [OF settled_shapes] by fastforce
next
  case (RelayAgain s)
  then show ?case using served by fastforce
next
  case (RelayServe s cr cw k res js)
  then show ?case using served check_jobs_shapes [OF RelayServe.hyps(4)] table_ok_shapes by fastforce
qed

lemma arranging_defined:
  assumes "relay_runs ops m0 can_add can_start s" "phase s = Arranging"
  shows "op_arrange ops (jobs s) (mux s) \<noteq> None"
  using arrange runs_ok [OF assms(1)] assms(2) by fastforce

lemma never_stuck:
  assumes "relay_runs ops m0 can_add can_start s" "phase s = Waits" "op_wait ops (mux s) cr cw k"
  shows "\<exists>js. check_jobs (op_report ops k) cr cw res 0 (jobs s) = Some (Served js)"
proof -
  have ok: "table_ok (jobs s)" "watched (jobs s) (mux s) Waits" using runs_ok [OF assms(1)] assms(2) by simp_all
  let ?r = "op_report ops k"
  show ?thesis
  proof (intro exI, rule check_jobs_able [where P = "\<lambda>n j. fst (the (?r n j))" and Q = "\<lambda>n j. snd (the (?r n j))"])
    fix i j assume i: "i < length (jobs s)" "jobs s ! i = Some j"
    have st: "rel_state j = 1" by (rule wiredD(1) [OF table_wired [OF ok(1) job_in_set [OF i]]])
    obtain a b where ab: "?r i j = Some (a, b)" "a \<longrightarrow> able cr cw (fsm12 j)" "b \<longrightarrow> able cr cw (fsm21 j)"
      using sound [OF ok(2,1) assms(3) i] by (elim exE conjE)
    then show "rel_state j = 1 \<and> ?r (0 + i) j = Some (fst (the (?r (0 + i) j)), snd (the (?r (0 + i) j)))
        \<and> (fst (the (?r (0 + i) j)) \<longrightarrow> able cr cw (fsm12 j)) \<and> (snd (the (?r (0 + i) j)) \<longrightarrow> able cr cw (fsm21 j))"
      using st by simp
  qed
qed

end

text \<open>Some versions report every able machine, so that a round drives exactly these.\<close>

definition drive_able :: "(int \<Rightarrow> bool) \<Rightarrow> (int \<Rightarrow> bool) \<Rightarrow> (nat \<Rightarrow> results) \<Rightarrow> job_table \<Rightarrow> job_table" where
  "drive_able cr cw res js =
     map (\<lambda>(n, x). map_option (\<lambda>j. drive_job (res n) (able cr cw (fsm12 j)) (able cr cw (fsm21 j)) j) x) (enumerate 0 js)"

locale exact_multiplexer = multiplexer +
  assumes exact: "watched js m Waits \<Longrightarrow> table_ok js \<Longrightarrow> op_wait ops m cr cw k \<Longrightarrow> i < length js \<Longrightarrow> js ! i = Some j \<Longrightarrow>
    op_report ops k i j = Some (able cr cw (fsm12 j), able cr cw (fsm21 j))"
begin

lemma drives_able:
  assumes "relay_runs ops m0 can_add can_start s" "phase s = Waits" "op_wait ops (mux s) cr cw k"
  shows "check_jobs (op_report ops k) cr cw res 0 (jobs s) = Some (Served (drive_able cr cw res (jobs s)))"
proof -
  have ok: "table_ok (jobs s)" "watched (jobs s) (mux s) Waits" using runs_ok [OF assms(1)] assms(2) by simp_all
  show ?thesis unfolding drive_able_def
  proof (rule check_jobs_able)
    fix i j assume i: "i < length (jobs s)" "jobs s ! i = Some j"
    have "rel_state j = 1" by (rule wiredD(1) [OF table_wired [OF ok(1) job_in_set [OF i]]])
    then show "rel_state j = 1 \<and> op_report ops k (0 + i) j = Some (able cr cw (fsm12 j), able cr cw (fsm21 j))
        \<and> (able cr cw (fsm12 j) \<longrightarrow> able cr cw (fsm12 j)) \<and> (able cr cw (fsm21 j) \<longrightarrow> able cr cw (fsm21 j))"
      using exact [OF ok(2,1) assms(3) i] by simp
  qed
qed

end

section \<open>Select\<close>

definition wants_rd :: "rel_job_st \<Rightarrow> int \<Rightarrow> bool" where
  "wants_rd j fd \<longleftrightarrow> fsm_state (fsm12 j) = STATE_R \<and> fd = fd1 j \<or> fsm_state (fsm21 j) = STATE_R \<and> fd = fd2 j"

definition wants_wr :: "rel_job_st \<Rightarrow> int \<Rightarrow> bool" where
  "wants_wr j fd \<longleftrightarrow> fsm_state (fsm12 j) = STATE_W \<and> fd = fd2 j \<or> fsm_state (fsm21 j) = STATE_W \<and> fd = fd1 j"

lemma wants_settle [simp]: "wants_rd (settle_job j) fd \<longleftrightarrow> wants_rd j fd" "wants_wr (settle_job j) fd \<longleftrightarrow> wants_wr j fd"
  by (simp_all add: wants_rd_def wants_wr_def settle_job_def)

lemma wants_fds: "wants_rd j fd \<or> wants_wr j fd \<Longrightarrow> fd \<in> {fd1 j, fd2 j}"
  by (auto simp: wants_rd_def wants_wr_def)

definition rd_fds :: "job_table \<Rightarrow> int set" where
  "rd_fds js = {fd. \<exists>j. Some j \<in> set js \<and> wants_rd j fd}"

definition wr_fds :: "job_table \<Rightarrow> int set" where
  "wr_fds js = {fd. \<exists>j. Some j \<in> set js \<and> wants_wr j fd}"

lemma fds_simps [simp]: "rd_fds [] = {}" "wr_fds [] = {}" "rd_fds (None # js) = rd_fds js" "wr_fds (None # js) = wr_fds js"
  "rd_fds (Some j # js) = {fd. wants_rd j fd} \<union> rd_fds js" "wr_fds (Some j # js) = {fd. wants_wr j fd} \<union> wr_fds js"
  by (auto simp: rd_fds_def wr_fds_def)

lemma settled_simps [simp]: "settled [] = []" "settled (None # js) = None # settled js" "settled (Some j # js) = Some (settle_job j) # settled js"
  by (simp_all add: settled_def)

lemma settled_fds [simp]: "rd_fds (settled js) = rd_fds js" "wr_fds (settled js) = wr_fds js"
proof -
  have "rd_fds (settled js) = rd_fds js \<and> wr_fds (settled js) = wr_fds js"
  proof (induction js)
    case (Cons x js)
    then show ?case by (cases x) simp_all
  qed simp
  then show "rd_fds (settled js) = rd_fds js" "wr_fds (settled js) = wr_fds js" by simp_all
qed

text \<open>A wanted descriptor of the table is wanted by its owner.\<close>

lemma owner_wants:
  assumes "table_ok js" "Some j \<in> set js" "fd \<in> {fd1 j, fd2 j}"
  shows "fd \<in> rd_fds js \<longleftrightarrow> wants_rd j fd" "fd \<in> wr_fds js \<longleftrightarrow> wants_wr j fd"
proof -
  have same: "j' = j" if "Some j' \<in> set js" "wants_rd j' fd \<or> wants_wr j' fd" for j'
  proof (rule owner [OF assms(1,2) that(1)])
    show "{fd1 j, fd2 j} \<inter> {fd1 j', fd2 j'} \<noteq> {}" using wants_fds [OF that(2)] assms(3) by blast
  qed
  have "wants_rd j fd" if "Some j' \<in> set js" "wants_rd j' fd" for j' using same [OF that(1)] that(2) by simp
  moreover have "wants_wr j fd" if "Some j' \<in> set js" "wants_wr j' fd" for j' using same [OF that(1)] that(2) by simp
  ultimately show "fd \<in> rd_fds js \<longleftrightarrow> wants_rd j fd" "fd \<in> wr_fds js \<longleftrightarrow> wants_wr j fd"
    unfolding rd_fds_def wr_fds_def using assms(2) by blast+
qed

lemma able_wants:
  assumes "wired j"
  shows "able cr cw (fsm12 j) \<longleftrightarrow> wants_rd j (fd1 j) \<and> cr (fd1 j) \<or> wants_wr j (fd2 j) \<and> cw (fd2 j)"
    "able cr cw (fsm21 j) \<longleftrightarrow> wants_rd j (fd2 j) \<and> cr (fd2 j) \<or> wants_wr j (fd1 j) \<and> cw (fd1 j)"
  using wiredD [OF assms] by (auto simp: able_def wants_rd_def wants_wr_def)

text \<open>With the descriptors in range and ascending, \<open>select\<close> watches all it needs.\<close>

definition in_range :: "rel_job_st \<Rightarrow> bool" where
  "in_range j \<longleftrightarrow> fd1 j < FD_SETSIZE \<and> fd2 j < FD_SETSIZE"

fun ascending :: "job_table \<Rightarrow> int \<Rightarrow> bool" where
  "ascending [] b = True"
| "ascending (None # js) b = ascending js b"
| "ascending (Some j # js) b = (b \<le> max (fd1 j) (fd2 j) \<and> ascending js (max (fd1 j) (fd2 j)))"

lemma select_watch_ok:
  assumes "wired j" "in_range j"
  shows "select_watch j m = Some (m\<lparr>rset := {fd. wants_rd j fd} \<union> rset m, wset := {fd. wants_wr j fd} \<union> wset m\<rparr>)"
proof -
  have "watch_rd fd m' = Some (m'\<lparr>rset := insert fd (rset m')\<rparr>)" "watch_wr fd m' = Some (m'\<lparr>wset := insert fd (wset m')\<rparr>)"
    if "fd \<in> {fd1 j, fd2 j}" for fd m'
    using that assms(2) wiredD(7,8) [OF assms(1)] by (auto simp: watch_rd_def watch_wr_def FD_SET_def in_range_def)
  moreover have "{fd. wants_rd j fd} = (if fsm_state (fsm12 j) = STATE_R then {fd1 j} else {}) \<union> (if fsm_state (fsm21 j) = STATE_R then {fd2 j} else {})"
      "{fd. wants_wr j fd} = (if fsm_state (fsm12 j) = STATE_W then {fd2 j} else {}) \<union> (if fsm_state (fsm21 j) = STATE_W then {fd1 j} else {})"
    by (auto simp: wants_rd_def wants_wr_def)
  ultimately show ?thesis using wiredD(2-5) [OF assms(1)] by (simp add: select_watch_def insert_commute)
qed

lemma select_arrange_jobs_ok:
  assumes "\<And>j. Some j \<in> set js \<Longrightarrow> wired j \<and> in_range j" "ascending js b" "b \<le> maxfd m"
  shows "\<exists>m'. select_arrange_jobs js m = Some (settled js, m') \<and> rset m' = rd_fds js \<union> rset m \<and> wset m' = wr_fds js \<union> wset m
    \<and> b \<le> maxfd m' \<and> (\<forall>j. Some j \<in> set js \<longrightarrow> max (fd1 j) (fd2 j) \<le> maxfd m')"
  using assms
proof (induction js arbitrary: m b)
  case (Cons x js)
  show ?case
  proof (cases x)
    case None
    have "\<exists>m'. select_arrange_jobs js m = Some (settled js, m') \<and> rset m' = rd_fds js \<union> rset m \<and> wset m' = wr_fds js \<union> wset m
        \<and> b \<le> maxfd m' \<and> (\<forall>j. Some j \<in> set js \<longrightarrow> max (fd1 j) (fd2 j) \<le> maxfd m')"
      by (rule Cons.IH) (use Cons.prems None in auto)
    then show ?thesis using None by (auto simp: bind_eq_Some_conv)
  next
    case (Some j)
    have j: "wired j" "in_range j" using Cons.prems(1) Some by auto
    let ?b = "max (fd1 j) (fd2 j)"
    let ?m = "m\<lparr>maxfd := ?b, rset := {fd. wants_rd j fd} \<union> rset m, wset := {fd. wants_wr j fd} \<union> wset m\<rparr>"
    have "\<exists>m'. select_arrange_jobs js ?m = Some (settled js, m') \<and> rset m' = rd_fds js \<union> rset ?m \<and> wset m' = wr_fds js \<union> wset ?m
        \<and> ?b \<le> maxfd m' \<and> (\<forall>j. Some j \<in> set js \<longrightarrow> max (fd1 j) (fd2 j) \<le> maxfd m')"
      by (rule Cons.IH) (use Cons.prems Some in auto)
    then obtain m' where m': "select_arrange_jobs js ?m = Some (settled js, m')" "rset m' = rd_fds js \<union> rset ?m"
        "wset m' = wr_fds js \<union> wset ?m" "?b \<le> maxfd m'" "\<forall>j. Some j \<in> set js \<longrightarrow> max (fd1 j) (fd2 j) \<le> maxfd m'"
      by (elim exE conjE)
    have "select_arrange_jobs (x # js) m = Some (settled (x # js), m')"
      using m'(1) select_watch_ok [OF j, of "m\<lparr>maxfd := ?b\<rparr>"] wiredD(1) [OF j(1)] Some by simp
    moreover have "b \<le> maxfd m'" using m'(4) Cons.prems(2) unfolding Some ascending.simps by linarith
    moreover have "\<forall>j'. Some j' \<in> set (x # js) \<longrightarrow> max (fd1 j') (fd2 j') \<le> maxfd m'" using m'(4,5) Some by auto
    ultimately show ?thesis using m'(2,3) Some by auto
  qed
qed (auto simp: fd_sets.equality)

lemma in_range_shapes:
  assumes "same_shapes js js'" "\<And>j. Some j \<in> set js \<Longrightarrow> in_range j" "Some j' \<in> set js'"
  shows "in_range j'"
proof -
  obtain i where i: "i < length js" "js' ! i = Some j'"
    using assms(3) same_shapes_nth(1) [OF assms(1)] by (auto simp: in_set_conv_nth)
  obtain j where j: "js ! i = Some j" "shape j' = shape j" by (rule same_shapes_job [OF assms(1) i])
  have "in_range j" by (rule assms(2) [OF job_in_set [OF i(1) j(1)]])
  then show ?thesis using shape_fds [OF j(2)] by (simp add: in_range_def)
qed

lemma ascending_shapes: "same_shapes js js' \<Longrightarrow> ascending js b \<Longrightarrow> ascending js' b"
proof (induction js arbitrary: js' b)
  case (Cons x js)
  obtain y ys where y: "js' = y # ys" "map_option shape y = map_option shape x" "same_shapes js ys"
  proof (cases js')
    case Nil
    then show ?thesis using Cons.prems(1) by (simp add: same_shapes_def)
  next
    case (Cons y ys)
    show ?thesis by (rule that [of y ys]) (use Cons \<open>same_shapes (x # js) js'\<close> in \<open>simp_all add: same_shapes_def\<close>)
  qed
  show ?case
  proof (cases x)
    case (Some j)
    then obtain j' where j': "y = Some j'" "shape j' = shape j" using y(2) by (cases y) simp_all
    have "fd1 j' = fd1 j" "fd2 j' = fd2 j" using shape_fds [OF j'(2)] by simp_all
    then show ?thesis using Cons.IH [OF y(3), of "max (fd1 j) (fd2 j)"] Cons.prems(2) Some y(1) j'(1) by simp
  qed (use Cons y in simp)
qed (simp add: same_shapes_def)

lemma filled_Cons: "filled (x # js) n \<longleftrightarrow> (case n of 0 \<Rightarrow> x = None \<and> filled js 0 | Suc k \<Rightarrow> x \<noteq> None \<and> filled js k)"
  by (auto simp: filled_def less_Suc_eq_0_disj nth_Cons' split: nat.split)

lemma ascending_None: "filled js 0 \<Longrightarrow> ascending js b"
  by (induction js) (auto simp: filled_Cons)

lemma ascending_add:
  "filled js n \<Longrightarrow> n < length js \<Longrightarrow> ascending js b \<Longrightarrow> b \<le> max a c \<Longrightarrow>
   (\<And>j. Some j \<in> set js \<Longrightarrow> max (fd1 j) (fd2 j) \<le> max a c) \<Longrightarrow> ascending (js[n := Some (new_job me a c)]) b"
proof (induction js arbitrary: n b)
  case (Cons x js)
  show ?case
  proof (cases n)
    case 0
    then show ?thesis using Cons.prems(1,4) by (simp add: filled_Cons ascending_None)
  next
    case (Suc k)
    then obtain j where j: "x = Some j" "filled js k" using Cons.prems(1) by (auto simp: filled_Cons)
    have "ascending (js[k := Some (new_job me a c)]) (max (fd1 j) (fd2 j))"
      by (rule Cons.IH [OF j(2)]) (use Cons.prems j(1) Suc in auto)
    then show ?thesis using Cons.prems(3) j(1) Suc by simp
  qed
qed simp

definition select_use :: "job_table \<Rightarrow> phase \<Rightarrow> int \<Rightarrow> int \<Rightarrow> bool" where
  "select_use js ph a b \<longleftrightarrow> a < FD_SETSIZE \<and> b < FD_SETSIZE \<and> (\<forall>j. Some j \<in> set js \<longrightarrow> max (fd1 j) (fd2 j) \<le> max a b)"

definition select_watched :: "job_table \<Rightarrow> fd_sets \<Rightarrow> phase \<Rightarrow> bool" where
  "select_watched js m ph \<longleftrightarrow> 0 \<le> maxfd m \<and> (\<forall>j. Some j \<in> set js \<longrightarrow> in_range j) \<and> ascending js 0 \<and>
     (ph = Waits \<longrightarrow> rset m \<subseteq> rd_fds js \<and> wset m \<subseteq> wr_fds js \<and> rset m \<union> wset m \<subseteq> {..maxfd m})"

lemma fds_below:
  "fd \<in> rd_fds js \<union> wr_fds js \<Longrightarrow> (\<And>j. Some j \<in> set js \<Longrightarrow> max (fd1 j) (fd2 j) \<le> M) \<Longrightarrow> fd \<le> M"
  unfolding rd_fds_def wr_fds_def using wants_fds by fastforce

lemma job_stays:
  assumes "filled js p" "p < length js" "Some j' \<in> set js"
  shows "Some j' \<in> set (js[p := Some j])"
proof -
  have "js ! p = None" using assms(1,2) unfolding filled_def by blast
  obtain i where i: "i < length js" "js ! i = Some j'" using assms(3) by (auto simp: in_set_conv_nth)
  then have "i \<noteq> p" using \<open>js ! p = None\<close> by auto
  then show ?thesis using i job_in_set [of i "js[p := Some j]" j'] by simp
qed

lemma fds_add:
  assumes "filled js p" "p < length js"
  shows "rd_fds js \<subseteq> rd_fds (js[p := Some j])" "wr_fds js \<subseteq> wr_fds (js[p := Some j])"
  using job_stays [OF assms, of _ j] by (auto simp: rd_fds_def wr_fds_def)

lemma select_report_ok:
  assumes "wired j" "in_range j"
  shows "select_report k i j = Some (fd1 j \<in> fst k \<or> fd2 j \<in> snd k, fd2 j \<in> fst k \<or> fd1 j \<in> snd k)"
  using assms(2) wiredD(7,8) [OF assms(1)] by (auto simp: select_report_def FD_ISSET_def in_range_def)

lemma select_sound:
  assumes w: "select_watched js m Waits" and ok: "table_ok js" and k: "select_wait m cr cw k" and i: "i < length js" "js ! i = Some j"
  shows "\<exists>a b. select_report k i j = Some (a, b) \<and> (a \<longrightarrow> able cr cw (fsm12 j)) \<and> (b \<longrightarrow> able cr cw (fsm21 j))"
proof -
  have j: "Some j \<in> set js" by (rule job_in_set [OF i])
  have wj: "wired j" by (rule table_wired [OF ok j])
  have rj: "in_range j" using w j by (simp add: select_watched_def)
  have sub: "fst k \<subseteq> rset m" "snd k \<subseteq> wset m" using k by (simp_all add: select_wait_def)
  have low: "rset m \<subseteq> {..maxfd m}" "wset m \<subseteq> {..maxfd m}" "rset m \<subseteq> rd_fds js" "wset m \<subseteq> wr_fds js"
    using w by (simp_all add: select_watched_def)
  have "wants_rd j fd \<and> cr fd" if "fd \<in> {fd1 j, fd2 j}" "fd \<in> fst k" for fd
  proof -
    have "fd \<in> rset m" "fd \<le> maxfd m" "fd \<in> rd_fds js" using that(2) sub(1) low by auto
    then show ?thesis using owner_wants(1) [OF ok j that(1)] k that(2) by (simp add: select_wait_def)
  qed
  moreover have "wants_wr j fd \<and> cw fd" if "fd \<in> {fd1 j, fd2 j}" "fd \<in> snd k" for fd
  proof -
    have "fd \<in> wset m" "fd \<le> maxfd m" "fd \<in> wr_fds js" using that(2) sub(2) low by auto
    then show ?thesis using owner_wants(2) [OF ok j that(1)] k that(2) by (simp add: select_wait_def)
  qed
  ultimately show ?thesis unfolding select_report_ok [OF wj rj] able_wants [OF wj] by simp
qed

lemma select_arrange_ok:
  assumes "select_watched js m Arranging" "table_ok js"
  shows "\<exists>m'. select_arrange js m = Some (settled js, m') \<and> rset m' = rd_fds js \<and> wset m' = wr_fds js \<and> select_watched (settled js) m' Waits"
proof -
  have r: "\<And>j. Some j \<in> set js \<Longrightarrow> wired j \<and> in_range j" "ascending js 0" "0 \<le> maxfd m"
    using assms by (auto simp: select_watched_def table_wired)
  obtain m' where m': "select_arrange js m = Some (settled js, m')" "rset m' = rd_fds js" "wset m' = wr_fds js" "0 \<le> maxfd m'"
      "\<forall>j. Some j \<in> set js \<longrightarrow> max (fd1 j) (fd2 j) \<le> maxfd m'"
    using select_arrange_jobs_ok [OF r(1,2), of "m\<lparr>rset := {}, wset := {}\<rparr>"] r(3) by (auto simp: select_arrange_def)
  have "rd_fds js \<union> wr_fds js \<subseteq> {..maxfd m'}" using fds_below m'(5) by blast
  moreover have "in_range j" if "Some j \<in> set (settled js)" for j
    by (rule in_range_shapes [OF settled_shapes _ that]) (use r(1) in blast)
  ultimately show ?thesis using m' ascending_shapes [OF settled_shapes r(2)] by (simp add: select_watched_def)
qed

lemma select_add_ok:
  assumes "select_watched js m ph" "table_ok js" "filled js p" "p < REL_JOBMAX" "0 \<le> a" "0 \<le> b" "select_use js ph a b"
  shows "select_watched (js[p := Some (new_job me a b)]) m ph"
proof -
  let ?js = "js[p := Some (new_job me a b)]"
  have p: "p < length js" using assms(2,4) by (simp add: table_ok_length)
  have "ascending ?js 0"
    by (rule ascending_add [OF assms(3) p]) (use assms in \<open>auto simp: select_watched_def select_use_def\<close>)
  moreover have "in_range j" if "Some j \<in> set ?js" for j
    using that set_update_subset_insert [of js p "Some (new_job me a b)"] assms(1,7)
    by (auto simp: select_watched_def select_use_def in_range_def)
  ultimately show ?thesis using assms(1) fds_add [OF assms(3) p] unfolding select_watched_def by blast
qed

lemma select_served_ok:
  assumes "select_watched js m Waits" "same_shapes js js'"
  shows "select_watched js' m Arranging"
  using assms(1) ascending_shapes [OF assms(2)] in_range_shapes [OF assms(2)] by (auto simp: select_watched_def)

interpretation sel: multiplexer select_ops "\<lparr>rset = {}, wset = {}, maxfd = 0\<rparr>" select_use "\<lambda>_. True" select_watched
proof
  show "select_watched (replicate REL_JOBMAX None) \<lparr>rset = {}, wset = {}, maxfd = 0\<rparr> Off"
    by (auto simp: select_watched_def intro: ascending_None simp: filled_def)
next
  fix js :: job_table and m ph p a b me
  assume "select_watched js m ph" "table_ok js" "filled js p" "p < REL_JOBMAX" "fresh_fds js a b" "0 \<le> a" "0 \<le> b" "select_use js ph a b"
  then show "select_watched (js[p := Some (new_job me a b)]) m ph" by (intro select_add_ok) simp_all
next
  fix js :: job_table and m
  assume "select_watched js m Off"
  then show "select_watched js (op_start select_ops js m) Arranging" by (simp add: select_watched_def select_ops_def)
next
  fix js :: job_table and m
  assume "select_watched js m Arranging" "table_ok js"
  then show "\<exists>m'. op_arrange select_ops js m = Some (settled js, m') \<and> select_watched (settled js) m' Waits"
    using select_arrange_ok [of js m] by (auto simp: select_ops_def)
next
  fix js :: job_table and m cr cw k i j
  assume "select_watched js m Waits" "table_ok js" "op_wait select_ops m cr cw k" "i < length js" "js ! i = Some j"
  then show "\<exists>a b. op_report select_ops k i j = Some (a, b) \<and> (a \<longrightarrow> able cr cw (fsm12 j)) \<and> (b \<longrightarrow> able cr cw (fsm21 j))"
    using select_sound by (simp add: select_ops_def)
next
  fix js js' :: job_table and m
  assume "select_watched js m Waits" "table_ok js" "same_shapes js js'"
  then show "select_watched js' m Arranging" by (intro select_served_ok) simp_all
qed

text \<open>When no job is added during a wait, every able machine is reported.\<close>

definition select_quiet :: "job_table \<Rightarrow> phase \<Rightarrow> int \<Rightarrow> int \<Rightarrow> bool" where
  "select_quiet js ph a b \<longleftrightarrow> ph \<noteq> Waits \<and> select_use js ph a b"

definition select_all_watched :: "job_table \<Rightarrow> fd_sets \<Rightarrow> phase \<Rightarrow> bool" where
  "select_all_watched js m ph \<longleftrightarrow> select_watched js m ph \<and> (ph = Waits \<longrightarrow> rset m = rd_fds js \<and> wset m = wr_fds js)"

lemma select_exact:
  assumes w: "select_all_watched js m Waits" and ok: "table_ok js" and k: "select_wait m cr cw k" and i: "i < length js" "js ! i = Some j"
  shows "select_report k i j = Some (able cr cw (fsm12 j), able cr cw (fsm21 j))"
proof -
  have j: "Some j \<in> set js" by (rule job_in_set [OF i])
  have wj: "wired j" by (rule table_wired [OF ok j])
  have rj: "in_range j" using w j by (simp add: select_watched_def select_all_watched_def)
  have m: "rset m = rd_fds js" "wset m = wr_fds js" "rset m \<subseteq> {..maxfd m}" "wset m \<subseteq> {..maxfd m}"
    using w unfolding select_all_watched_def select_watched_def by blast+
  have sub: "fst k \<subseteq> rset m" "snd k \<subseteq> wset m" using k by (simp_all add: select_wait_def)
  have "fd \<in> fst k \<longleftrightarrow> wants_rd j fd \<and> cr fd" if "fd \<in> {fd1 j, fd2 j}" for fd
    using owner_wants(1) [OF ok j that] sub(1) m(1,3) k by (auto simp: select_wait_def)
  moreover have "fd \<in> snd k \<longleftrightarrow> wants_wr j fd \<and> cw fd" if "fd \<in> {fd1 j, fd2 j}" for fd
    using owner_wants(2) [OF ok j that] sub(2) m(2,4) k by (auto simp: select_wait_def)
  ultimately show ?thesis unfolding select_report_ok [OF wj rj] able_wants [OF wj] by simp
qed

interpretation selq: exact_multiplexer select_ops "\<lparr>rset = {}, wset = {}, maxfd = 0\<rparr>" select_quiet "\<lambda>_. True" select_all_watched
proof
  show "select_all_watched (replicate REL_JOBMAX None) \<lparr>rset = {}, wset = {}, maxfd = 0\<rparr> Off"
    using sel.init by (simp add: select_all_watched_def)
next
  fix js :: job_table and m ph p a b me
  assume "select_all_watched js m ph" "table_ok js" "filled js p" "p < REL_JOBMAX" "fresh_fds js a b" "0 \<le> a" "0 \<le> b" "select_quiet js ph a b"
  then show "select_all_watched (js[p := Some (new_job me a b)]) m ph"
    using select_add_ok [of js m ph p a b me] by (simp add: select_all_watched_def select_quiet_def)
next
  fix js :: job_table and m
  assume "select_all_watched js m Off"
  then show "select_all_watched js (op_start select_ops js m) Arranging"
    by (simp add: select_all_watched_def select_watched_def select_ops_def)
next
  fix js :: job_table and m
  assume "select_all_watched js m Arranging" "table_ok js"
  then show "\<exists>m'. op_arrange select_ops js m = Some (settled js, m') \<and> select_all_watched (settled js) m' Waits"
    using select_arrange_ok [of js m] by (auto simp: select_ops_def select_all_watched_def)
next
  fix js :: job_table and m cr cw k i j
  assume "select_all_watched js m Waits" "table_ok js" "op_wait select_ops m cr cw k" "i < length js" "js ! i = Some j"
  note ex = this
  show "\<exists>a b. op_report select_ops k i j = Some (a, b) \<and> (a \<longrightarrow> able cr cw (fsm12 j)) \<and> (b \<longrightarrow> able cr cw (fsm21 j))"
    using select_exact [OF ex(1,2) _ ex(4,5)] ex(3) by (simp add: select_ops_def)
  show "op_report select_ops k i j = Some (able cr cw (fsm12 j), able cr cw (fsm21 j))"
    using select_exact [OF ex(1,2) _ ex(4,5)] ex(3) by (simp add: select_ops_def)
next
  fix js js' :: job_table and m
  assume "select_all_watched js m Waits" "table_ok js" "same_shapes js js'"
  then show "select_all_watched js' m Arranging" using select_served_ok [of js m js'] by (simp add: select_all_watched_def)
qed

section \<open>Epoll\<close>

definition table_fds :: "job_table \<Rightarrow> int set" where
  "table_fds js = {fd. \<exists>j. Some j \<in> set js \<and> fd \<in> {fd1 j, fd2 j}}"

lemma table_fds_simps [simp]: "table_fds [] = {}" "table_fds (None # js) = table_fds js"
  "table_fds (Some j # js) = {fd1 j, fd2 j} \<union> table_fds js"
  by (auto simp: table_fds_def)

lemma table_fds_settled [simp]: "table_fds (settled js) = table_fds js"
proof (induction js)
  case (Cons x js)
  then show ?case by (cases x) simp_all
qed simp

definition epoll_watched :: "job_table \<Rightarrow> epoll_st \<Rightarrow> phase \<Rightarrow> bool" where
  "epoll_watched js m ph \<longleftrightarrow> ep_fds m \<subseteq> table_fds js \<and>
     (ph = Waits \<longrightarrow> (\<forall>fd \<in> ep_fds m. (ep_in m fd \<longrightarrow> fd \<in> rd_fds js) \<and> (ep_out m fd \<longrightarrow> fd \<in> wr_fds js)))"

lemma epoll_start_fds: "ep_fds (epoll_start js m) \<subseteq> ep_fds m \<union> table_fds js"
proof (induction js arbitrary: m)
  case (Cons x js)
  show ?case
  proof (cases x)
    case (Some j)
    let ?m = "if rel_state j = 1 then epoll_add (fd2 j) (epoll_add (fd1 j) m) else m"
    have "ep_fds ?m \<subseteq> {fd1 j, fd2 j} \<union> ep_fds m" by (auto simp: epoll_add_def)
    then show ?thesis using Cons.IH [of ?m] Some by auto
  qed (use Cons in simp)
qed simp

lemma epoll_mod_fds [simp]: "ep_fds (epoll_mod fd i u m) = ep_fds m"
  by (simp add: epoll_mod_def)

lemma epoll_mod_in [simp]:
  "ep_in (epoll_mod fd i u m) x = (if x = fd \<and> fd \<in> ep_fds m then i else ep_in m x)"
  "ep_out (epoll_mod fd i u m) x = (if x = fd \<and> fd \<in> ep_fds m then u else ep_out m x)"
  by (simp_all add: epoll_mod_def)

lemma epoll_arrange_jobs_ok:
  assumes "\<And>j. Some j \<in> set js \<Longrightarrow> wired j"
  shows "\<exists>m'. epoll_arrange_jobs js m = (settled js, m') \<and> ep_fds m' = ep_fds m
    \<and> (\<forall>fd \<in> ep_fds m. if fd \<in> table_fds js then (ep_in m' fd \<longrightarrow> fd \<in> rd_fds js) \<and> (ep_out m' fd \<longrightarrow> fd \<in> wr_fds js)
        else ep_in m' fd = ep_in m fd \<and> ep_out m' fd = ep_out m fd)"
  using assms
proof (induction js arbitrary: m)
  case (Cons x js)
  show ?case
  proof (cases x)
    case None
    then show ?thesis using Cons.IH [of m] Cons.prems by auto
  next
    case (Some j)
    have j: "wired j" using Cons.prems Some by auto
    obtain mm where mm: "mm = epoll_mod (fd2 j) (fsm_state (fsm21 j) = STATE_R) (fsm_state (fsm12 j) = STATE_W)
      (epoll_mod (fd1 j) (fsm_state (fsm12 j) = STATE_R) (fsm_state (fsm21 j) = STATE_W) m)" by simp
    have fds: "ep_fds mm = ep_fds m" by (simp add: mm)
    have own: "(ep_in mm fd \<longrightarrow> wants_rd j fd) \<and> (ep_out mm fd \<longrightarrow> wants_wr j fd)" if "fd \<in> ep_fds m" "fd \<in> {fd1 j, fd2 j}" for fd
      using that wiredD(6) [OF j] by (auto simp: mm wants_rd_def wants_wr_def)
    have other: "ep_in mm fd = ep_in m fd \<and> ep_out mm fd = ep_out m fd" if "fd \<notin> {fd1 j, fd2 j}" for fd
      using that by (simp add: mm)
    obtain m' where m': "epoll_arrange_jobs js mm = (settled js, m')" "ep_fds m' = ep_fds mm"
      "\<forall>fd \<in> ep_fds mm. if fd \<in> table_fds js then (ep_in m' fd \<longrightarrow> fd \<in> rd_fds js) \<and> (ep_out m' fd \<longrightarrow> fd \<in> wr_fds js)
        else ep_in m' fd = ep_in mm fd \<and> ep_out m' fd = ep_out mm fd"
      using Cons.IH [of mm] Cons.prems by auto
    have "epoll_arrange_jobs (x # js) m = (settled (x # js), m')" using m'(1) wiredD(1) [OF j] Some by (simp add: mm Let_def)
    moreover have "if fd \<in> table_fds (x # js) then (ep_in m' fd \<longrightarrow> fd \<in> rd_fds (x # js)) \<and> (ep_out m' fd \<longrightarrow> fd \<in> wr_fds (x # js))
        else ep_in m' fd = ep_in m fd \<and> ep_out m' fd = ep_out m fd" if "fd \<in> ep_fds m" for fd
      using m'(3) [rule_format, of fd] own [OF that] other [of fd] that fds Some by (auto split: if_splits)
    ultimately show ?thesis using m'(2) fds by blast
  qed
qed simp

lemma epoll_arrange_ok:
  assumes "epoll_watched js m Arranging" "table_ok js"
  shows "\<exists>m'. epoll_arrange js m = Some (settled js, m') \<and> epoll_watched (settled js) m' Waits \<and> ep_fds m' = ep_fds m"
proof -
  obtain m' where m': "epoll_arrange_jobs js m = (settled js, m')" "ep_fds m' = ep_fds m"
    "\<forall>fd \<in> ep_fds m. if fd \<in> table_fds js then (ep_in m' fd \<longrightarrow> fd \<in> rd_fds js) \<and> (ep_out m' fd \<longrightarrow> fd \<in> wr_fds js)
        else ep_in m' fd = ep_in m fd \<and> ep_out m' fd = ep_out m fd"
    using epoll_arrange_jobs_ok [OF table_wired [OF assms(2)], of js m] by blast
  have sub: "ep_fds m \<subseteq> table_fds js" using assms(1) by (simp add: epoll_watched_def)
  then show ?thesis using m' table_fds_settled [of js] by (auto simp: epoll_arrange_def epoll_watched_def)
qed

lemma epoll_sound:
  assumes w: "epoll_watched js m Waits" and ok: "table_ok js" and k: "epoll_wait m cr cw k" and i: "i < length js" "js ! i = Some j"
  shows "\<exists>a b. epoll_report k i j = Some (a, b) \<and> (a \<longrightarrow> able cr cw (fsm12 j)) \<and> (b \<longrightarrow> able cr cw (fsm21 j))"
proof -
  obtain fd x u where kk: "k = (fd, x, u)" by (cases k)
  have j: "Some j \<in> set js" by (rule job_in_set [OF i])
  have wj: "wired j" by (rule table_wired [OF ok j])
  have e: "fd \<in> ep_fds m" "x = (ep_in m fd \<and> cr fd)" "u = (ep_out m fd \<and> cw fd)" using k kk by (auto simp: epoll_wait_def)
  have "x \<longrightarrow> fd \<in> rd_fds js \<and> cr fd" "u \<longrightarrow> fd \<in> wr_fds js \<and> cw fd" using w e by (auto simp: epoll_watched_def)
  then have "fd \<in> {fd1 j, fd2 j} \<longrightarrow> (x \<longrightarrow> wants_rd j fd \<and> cr fd) \<and> (u \<longrightarrow> wants_wr j fd \<and> cw fd)"
    using owner_wants [OF ok j, of fd] by blast
  then show ?thesis unfolding able_wants [OF wj] by (auto simp: kk epoll_report_def)
qed

lemma table_fds_shapes: "same_shapes js js' \<Longrightarrow> table_fds js \<subseteq> table_fds js'"
proof
  fix fd assume s: "same_shapes js js'" and "fd \<in> table_fds js"
  then obtain j where "Some j \<in> set js" "fd \<in> {fd1 j, fd2 j}" by (auto simp: table_fds_def)
  then obtain i where i: "i < length js" "js ! i = Some j" by (auto simp: in_set_conv_nth)
  then obtain j' where j': "js' ! i = Some j'" "shape j' = shape j"
    using same_shapes_nth(2) [OF s i(1)] by (cases "js' ! i") auto
  have "Some j' \<in> set js'" by (rule job_in_set [OF _ j'(1)]) (simp add: same_shapes_nth(1) [OF s] i(1))
  moreover have "fd \<in> {fd1 j', fd2 j'}" using \<open>fd \<in> {fd1 j, fd2 j}\<close> shape_fds [OF j'(2)] by simp
  ultimately show "fd \<in> table_fds js'" by (auto simp: table_fds_def)
qed

lemma epoll_add_ok:
  assumes "epoll_watched js m ph" "table_ok js" "filled js p" "p < REL_JOBMAX"
  shows "epoll_watched (js[p := Some j]) m ph"
proof -
  have p: "p < length js" using assms(2,4) by (simp add: table_ok_length)
  have "table_fds js \<subseteq> table_fds (js[p := Some j])"
    using job_stays [OF assms(3) p, of _ j] by (auto simp: table_fds_def)
  then show ?thesis using assms(1) fds_add [OF assms(3) p, of j] unfolding epoll_watched_def by blast
qed

interpretation ep: multiplexer epoll_ops "\<lparr>ep_fds = {}, ep_in = \<lambda>_. False, ep_out = \<lambda>_. False\<rparr>" "\<lambda>_ _ _ _. True" "\<lambda>_. True" epoll_watched
proof
  show "epoll_watched (replicate REL_JOBMAX None) \<lparr>ep_fds = {}, ep_in = \<lambda>_. False, ep_out = \<lambda>_. False\<rparr> Off"
    by (simp add: epoll_watched_def)
next
  fix js :: job_table and m ph p a b me
  assume "epoll_watched js m ph" "table_ok js" "filled js p" "p < REL_JOBMAX"
  then show "epoll_watched (js[p := Some (new_job me a b)]) m ph" by (rule epoll_add_ok)
next
  fix js :: job_table and m
  assume "epoll_watched js m Off"
  then show "epoll_watched js (op_start epoll_ops js m) Arranging"
    using epoll_start_fds [of js m] by (auto simp: epoll_watched_def epoll_ops_def)
next
  fix js :: job_table and m
  assume "epoll_watched js m Arranging" "table_ok js"
  then show "\<exists>m'. op_arrange epoll_ops js m = Some (settled js, m') \<and> epoll_watched (settled js) m' Waits"
    using epoll_arrange_ok [of js m] by (auto simp: epoll_ops_def)
next
  fix js :: job_table and m cr cw k i j
  assume "epoll_watched js m Waits" "table_ok js" "op_wait epoll_ops m cr cw k" "i < length js" "js ! i = Some j"
  then show "\<exists>a b. op_report epoll_ops k i j = Some (a, b) \<and> (a \<longrightarrow> able cr cw (fsm12 j)) \<and> (b \<longrightarrow> able cr cw (fsm21 j))"
    using epoll_sound by (simp add: epoll_ops_def)
next
  fix js js' :: job_table and m
  assume "epoll_watched js m Waits" "table_ok js" "same_shapes js js'"
  then show "epoll_watched js' m Arranging" using table_fds_shapes [of js js'] by (auto simp: epoll_watched_def)
qed

section \<open>Poll\<close>

text \<open>With the two jobs it is written for, \<open>poll\<close> is right.\<close>

definition poll_use :: "job_table \<Rightarrow> phase \<Rightarrow> int \<Rightarrow> int \<Rightarrow> bool" where
  "poll_use js ph a b \<longleftrightarrow> ph = Off \<and> js ! 1 = None"

definition poll_start :: "job_table \<Rightarrow> bool" where
  "poll_start js \<longleftrightarrow> js ! 1 \<noteq> None"

definition poll_first :: "rel_job_st \<Rightarrow> (int \<times> (bool \<times> bool) option) option" where
  "poll_first j = Some (fd1 j, Some (fsm_state (fsm12 j) = STATE_R, fsm_state (fsm21 j) = STATE_W))"

definition poll_second :: "rel_job_st \<Rightarrow> (int \<times> (bool \<times> bool) option) option" where
  "poll_second j = Some (fd2 j, Some (fsm_state (fsm21 j) = STATE_R, fsm_state (fsm12 j) = STATE_W))"

definition poll_watched :: "job_table \<Rightarrow> pollfds \<Rightarrow> phase \<Rightarrow> bool" where
  "poll_watched js p ph \<longleftrightarrow> (if ph = Off then \<exists>n \<le> 2. filled js n else filled js 2) \<and>
     (ph = Waits \<longrightarrow> (\<forall>i < 2. \<forall>j. js ! i = Some j \<longrightarrow> p (2 * i) = poll_first j \<and> p (2 * i + 1) = poll_second j))"

lemma JOBMAX_2: "2 \<le> REL_JOBMAX"
  by (simp add: REL_JOBMAX_def)

lemma filled_two:
  assumes "filled js 2"
  obtains a b js1 where "js = Some a # Some b # js1" "filled js1 0"
proof -
  have "2 \<le> length js" using assms by (simp add: filled_def)
  then obtain x y js1 where js: "js = x # y # js1" by (metis Suc_le_length_iff numeral_2_eq_2)
  have "x \<noteq> None" "y \<noteq> None" "filled js1 0" using assms js by (simp_all add: filled_Cons numeral_2_eq_2)
  then show ?thesis using js that by auto
qed

lemma poll_arrange_None: "filled js 0 \<Longrightarrow> poll_arrange_jobs i js p = (js, p)"
  by (induction js arbitrary: i) (auto simp: filled_Cons)

lemma settled_None: "filled js 0 \<Longrightarrow> settled js = js"
  by (induction js) (auto simp: filled_Cons)

lemma poll_settle [simp]: "poll_first (settle_job j) = poll_first j" "poll_second (settle_job j) = poll_second j"
  by (simp_all add: poll_first_def poll_second_def) (simp_all add: settle_job_def)

lemma upt_4: "[0..<4] = [0, 1, 2, 3::nat]"
  by (simp add: upt_rec)

lemma poll_arrange_two:
  assumes "wired a" "wired b" "filled js 0"
  shows "\<exists>p'. poll_arrange (Some a # Some b # js) p = Some (Some (settle_job a) # Some (settle_job b) # js, p')
    \<and> p' 0 = poll_first a \<and> p' 1 = poll_second a \<and> p' 2 = poll_first b \<and> p' 3 = poll_second b"
  using wiredD(1) [OF assms(1)] wiredD(1) [OF assms(2)] assms(3)
  by (simp add: poll_arrange_def poll_arrange_None poll_first_def poll_second_def upt_4 Let_def numeral_2_eq_2 numeral_3_eq_3)

lemma poll_arrange_ok:
  assumes "poll_watched js p Arranging" "table_ok js"
  shows "\<exists>p'. poll_arrange js p = Some (settled js, p') \<and> poll_watched (settled js) p' Waits"
proof -
  have f: "filled js 2" using assms(1) by (simp add: poll_watched_def)
  obtain a b js1 where js: "js = Some a # Some b # js1" "filled js1 0" by (rule filled_two [OF f])
  have "wired a" "wired b" using table_wired [OF assms(2)] js(1) by auto
  then obtain p' where p': "poll_arrange js p = Some (settled js, p')"
      "p' 0 = poll_first a" "p' 1 = poll_second a" "p' 2 = poll_first b" "p' 3 = poll_second b"
    using poll_arrange_two [of a b js1 p] js by (auto simp: settled_None)
  have "p' (2 * i) = poll_first j \<and> p' (2 * i + 1) = poll_second j" if "i < 2" "settled js ! i = Some j" for i j
  proof -
    have "i = 0 \<or> i = 1" using that(1) by auto
    then show ?thesis using that(2) p'(2-5) js(1) by (auto simp: numeral_3_eq_3 numeral_2_eq_2)
  qed
  then have "poll_watched (settled js) p' Waits"
    using same_shapes_filled [OF settled_shapes f] by (simp add: poll_watched_def)
  then show ?thesis using p'(1) by blast
qed

lemma poll_exact:
  assumes w: "poll_watched js p Waits" and ok: "table_ok js" and k: "poll_wait p cr cw k" and i: "i < length js" "js ! i = Some j"
  shows "poll_report k i j = Some (able cr cw (fsm12 j), able cr cw (fsm21 j))"
proof -
  have "filled js 2" using w by (simp add: poll_watched_def)
  then have i2: "i < 2" using i by (auto simp: filled_def)
  have wj: "wired j" by (rule table_wired [OF ok job_in_set [OF i]])
  have p: "p (2 * i) = poll_first j" "p (2 * i + 1) = poll_second j" using w i2 i(2) by (auto simp: poll_watched_def)
  have lt: "2 * i < 4" "2 * i + 1 < 4" using i2 by simp_all
  have "k (2 * i) = (fsm_state (fsm12 j) = STATE_R \<and> cr (fd1 j), fsm_state (fsm21 j) = STATE_W \<and> cw (fd1 j))"
      "k (2 * i + 1) = (fsm_state (fsm21 j) = STATE_R \<and> cr (fd2 j), fsm_state (fsm12 j) = STATE_W \<and> cw (fd2 j))"
    using k lt p unfolding poll_wait_def poll_first_def poll_second_def by blast+
  then show ?thesis using lt wiredD(2-5) [OF wj] by (auto simp: poll_report_def able_def)
qed

lemma poll_add_ok:
  assumes "poll_watched js p ph" "table_ok js" "filled js n" "n < REL_JOBMAX" "poll_use js ph a b"
    and f: "fresh_fds js a b" "0 \<le> a" "0 \<le> b"
  shows "poll_watched (js[n := Some (new_job me a b)]) p ph"
proof -
  have l: "length js = REL_JOBMAX" by (rule table_ok_length [OF assms(2)])
  have u: "ph = Off" "js ! 1 = None" using assms(5) by (simp_all add: poll_use_def)
  have "1 < length js" using l JOBMAX_2 by simp
  then have "\<not> 1 < n" using assms(3) u(2) unfolding filled_def by blast
  then show ?thesis using u(1) table_ok_add(2) [OF assms(2-4) f, of me]
    by (auto simp: poll_watched_def intro!: exI [of _ "Suc n"])
qed

interpretation pl: exact_multiplexer poll_ops "\<lambda>_. None" poll_use poll_start poll_watched
proof
  show "poll_watched (replicate REL_JOBMAX None) (\<lambda>_. None) Off"
    by (auto simp: poll_watched_def filled_def intro!: exI [of _ 0])
next
  fix js :: job_table and p ph n a b me
  assume "poll_watched js p ph" "table_ok js" "filled js n" "n < REL_JOBMAX" "fresh_fds js a b" "0 \<le> a" "0 \<le> b" "poll_use js ph a b"
  then show "poll_watched (js[n := Some (new_job me a b)]) p ph" by (intro poll_add_ok) simp_all
next
  fix js :: job_table and p
  assume w: "poll_watched js p Off" and ok: "table_ok js" and st: "poll_start js"
  obtain n where n: "n \<le> 2" "filled js n" using w by (auto simp: poll_watched_def)
  have "1 < length js" using table_ok_length [OF ok] JOBMAX_2 by simp
  then have "1 < n" using n(2) st by (auto simp: filled_def poll_start_def)
  then have "n = 2" using n(1) by simp
  then show "poll_watched js (op_start poll_ops js p) Arranging" using n(2) by (simp add: poll_watched_def)
next
  fix js :: job_table and p
  assume "poll_watched js p Arranging" "table_ok js"
  then show "\<exists>p'. op_arrange poll_ops js p = Some (settled js, p') \<and> poll_watched (settled js) p' Waits"
    using poll_arrange_ok by (simp add: poll_ops_def)
next
  fix js :: job_table and p cr cw k i j
  assume a: "poll_watched js p Waits" "table_ok js" "op_wait poll_ops p cr cw k" "i < length js" "js ! i = Some j"
  show ex: "op_report poll_ops k i j = Some (able cr cw (fsm12 j), able cr cw (fsm21 j))"
    using poll_exact [OF a(1,2) _ a(4,5)] a(3) by (simp add: poll_ops_def)
  then show "\<exists>a b. op_report poll_ops k i j = Some (a, b) \<and> (a \<longrightarrow> able cr cw (fsm12 j)) \<and> (b \<longrightarrow> able cr cw (fsm21 j))" by simp
next
  fix js js' :: job_table and p
  assume "poll_watched js p Waits" "table_ok js" "same_shapes js js'"
  then show "poll_watched js' p Arranging" using same_shapes_filled by (auto simp: poll_watched_def)
qed

section \<open>Where they fail\<close>

text \<open>Two new jobs, the first with the larger descriptors: \<open>maxfd\<close> is that of the second.\<close>

definition two_jobs :: "rel_job_st \<Rightarrow> rel_job_st \<Rightarrow> int \<Rightarrow> int \<Rightarrow> int \<Rightarrow> int \<Rightarrow> job_table" where
  "two_jobs me me' a b c d = Some (new_job me a b) # Some (new_job me' c d) # replicate (REL_JOBMAX - 2) None"

lemma select_arrange_replicate: "select_arrange_jobs (replicate n None) m = Some (replicate n None, m)"
  by (induction n) simp_all

lemma check_replicate: "check_jobs report cr cw res i (replicate n None) = Some (Served (replicate n None))"
  by (induction n arbitrary: i) simp_all

lemma settle_new [simp]: "settle_job (new_job me a b) = new_job me a b"
  by (simp add: settle_job_def settle_fsm_def new_job_def)

lemma select_two_jobs:
  assumes "0 \<le> a" "0 \<le> b" "0 \<le> c" "0 \<le> d" "max a b < FD_SETSIZE" "max c d < FD_SETSIZE"
  shows "select_arrange (two_jobs me me' a b c d) m
    = Some (two_jobs me me' a b c d, \<lparr>rset = {a, b, c, d}, wset = {}, maxfd = max c d\<rparr>)"
  using assms
  by (simp add: select_arrange_def two_jobs_def select_watch_def watch_rd_def FD_SET_def select_arrange_replicate Let_def insert_commute)

lemma select_two_first:
  assumes "0 \<le> a" "0 \<le> b" "max a b < FD_SETSIZE"
  shows "select_report k i (new_job me a b) = Some (a \<in> fst k \<or> b \<in> snd k, b \<in> fst k \<or> a \<in> snd k)"
  using assms by (auto simp: select_report_def FD_ISSET_def)

lemma epoll_late:
  assumes "epoll_wait m cr cw k" "fd1 j \<notin> ep_fds m" "fd2 j \<notin> ep_fds m"
  shows "epoll_report k i j = Some (False, False)"
  using assms by (auto simp: epoll_wait_def epoll_report_def split: prod.splits)

lemma poll_one_job: "poll_arrange (Some (new_job me a b) # replicate n None) (\<lambda>_. None) = None"
proof -
  have "filled (replicate n None) 0" for n by (simp add: filled_def)
  then show ?thesis by (simp add: poll_arrange_def poll_arrange_None upt_4 Let_def)
qed

section \<open>Properties\<close>

text \<open>The states that the three versions reach in the use they are made for: \<open>select\<close> with descriptors below 1024, each new
  job with the largest so far; \<open>epoll\<close> with any; \<open>poll\<close> with two jobs, added before the start.\<close>

abbreviation select_reaches :: "fd_sets relay_state \<Rightarrow> bool" where
  "select_reaches \<equiv> relay_runs select_ops \<lparr>rset = {}, wset = {}, maxfd = 0\<rparr> select_use (\<lambda>_. True)"

abbreviation select_reaches_quietly :: "fd_sets relay_state \<Rightarrow> bool" where
  "select_reaches_quietly \<equiv> relay_runs select_ops \<lparr>rset = {}, wset = {}, maxfd = 0\<rparr> select_quiet (\<lambda>_. True)"

abbreviation epoll_reaches :: "epoll_st relay_state \<Rightarrow> bool" where
  "epoll_reaches \<equiv> relay_runs epoll_ops \<lparr>ep_fds = {}, ep_in = \<lambda>_. False, ep_out = \<lambda>_. False\<rparr> (\<lambda>_ _ _ _. True) (\<lambda>_. True)"

abbreviation poll_reaches :: "pollfds relay_state \<Rightarrow> bool" where
  "poll_reaches \<equiv> relay_runs poll_ops (\<lambda>_. None) poll_use poll_start"

text \<open>
  C8. The relayers with \<open>select\<close> and \<open>epoll\<close> never block in \<open>read\<close> or \<open>write\<close> though their descriptors are blocking,
  also when jobs are added during the wait: in every state they reach in their proper use the arranging is defined,
  and after every answer that the kernel may give the round goes through, each call being made on a ready descriptor.
\<close>
theorem mux_relayers_never_block:
  assumes "select_reaches s" and "epoll_reaches e"
  shows "(phase s = Arranging \<longrightarrow> select_arrange (jobs s) (mux s) \<noteq> None)
    \<and> (phase s = Waits \<and> select_wait (mux s) cr cw k \<longrightarrow> (\<exists>js. check_jobs (select_report k) cr cw res 0 (jobs s) = Some (Served js)))
    \<and> (phase e = Waits \<and> epoll_wait (mux e) cr cw q \<longrightarrow> (\<exists>js. check_jobs (epoll_report q) cr cw res 0 (jobs e) = Some (Served js)))"
  using sel.arranging_defined [OF assms(1)] sel.never_stuck [OF assms(1)] ep.never_stuck [OF assms(2)]
  by (simp add: select_ops_def epoll_ops_def)

text \<open>
  C16. No ready machine is left out: with \<open>select\<close>, when no job is added during a wait, and with \<open>poll\<close>, in its use for
  two jobs, a round drives exactly the machines that can go on, those in state R whose source is readable and those in
  state W whose destination is writable, and no others.
\<close>
theorem mux_relayers_drive_the_ready:
  assumes "select_reaches_quietly s" and "phase s = Waits" and "select_wait (mux s) cr cw k"
    and "poll_reaches p" and "phase p = Waits" and "poll_wait (mux p) cr cw q"
  shows "check_jobs (select_report k) cr cw res 0 (jobs s) = Some (Served (drive_able cr cw res (jobs s)))
    \<and> check_jobs (poll_report q) cr cw res 0 (jobs p) = Some (Served (drive_able cr cw res (jobs p)))"
  using selq.drives_able [OF assms(1,2)] pl.drives_able [OF assms(4,5)] assms(3,6) by (simp add: select_ops_def poll_ops_def)

text \<open>
  C40. The comma in \<open>maxfd = (maxfd, max(fd1, fd2))\<close> loses jobs: of two jobs of which the first has the larger
  descriptors, \<open>select\<close> examines only those of the second.  The kernel may then never report the first job, however
  much can be read; and it may leave its bits set, so that the relayer blocks on a descriptor with nothing to read, with the
  mutex held.
\<close>
theorem select_relayer_misses_jobs:
  assumes "0 \<le> c" and "0 \<le> d" and "max c d < min a b" and "max a b < FD_SETSIZE"
  shows "\<exists>m1. select_arrange (two_jobs me me' a b c d) m = Some (two_jobs me me' a b c d, m1)
    \<and> (\<exists>k. select_wait m1 cr cw k \<and> select_report k 0 (new_job me a b) = Some (False, False))
    \<and> (\<not> cr a \<longrightarrow> (\<exists>k. select_wait m1 cr cw k \<and> check_jobs (select_report k) cr cw res 0 (two_jobs me me' a b c d) = Some Stuck))"
proof -
  let ?m = "\<lparr>rset = {a, b, c, d}, wset = {}, maxfd = max c d\<rparr>"
  let ?r = "{fd. fd \<in> {c, d} \<and> cr fd}"
  have ab: "0 \<le> a" "0 \<le> b" using assms(1-3) by linarith+
  have far: "max c d < a" "max c d < b" using assms(3) by simp_all
  have arr: "select_arrange (two_jobs me me' a b c d) m = Some (two_jobs me me' a b c d, ?m)"
    by (rule select_two_jobs) (use assms ab in auto)
  have rep: "select_report k 0 (new_job me a b) = Some (a \<in> fst k \<or> b \<in> snd k, b \<in> fst k \<or> a \<in> snd k)" for k
    by (rule select_two_first) (use assms ab in auto)
  have "select_wait ?m cr cw (?r, {})" using far by (auto simp: select_wait_def)
  moreover have "select_report (?r, {}) 0 (new_job me a b) = Some (False, False)" unfolding rep using far by auto
  moreover have "select_wait ?m cr cw (?r \<union> {a, b}, {})" using far by (auto simp: select_wait_def)
  moreover have "check_jobs (select_report (?r \<union> {a, b}, {})) cr cw res 0 (two_jobs me me' a b c d) = Some Stuck" if "\<not> cr a"
    using that by (simp add: two_jobs_def rep serve_job_def blocks_def)
  ultimately show ?thesis using arr by blast
qed

text \<open>
  The limits of the other two: \<open>epoll_ctl\<close> adds descriptors only once, before the loop, so a job added after the start
  is never reported, whatever can be read; \<open>poll\<close> is called for four entries, of which with one job two are not
  initialised, and a third job is examined through a \<open>revents\<close> that is never set.
\<close>
theorem mux_relayers_limits:
  assumes "epoll_wait m cr cw k" and "fd1 j \<notin> ep_fds m" and "fd2 j \<notin> ep_fds m"
  shows "epoll_report k i j = Some (False, False)
    \<and> (\<forall>js m1. epoll_arrange js m = Some (js1, m1) \<and> (\<forall>q. Some q \<in> set js \<longrightarrow> wired q) \<longrightarrow> ep_fds m1 = ep_fds m)
    \<and> poll_arrange (Some (new_job me a b) # replicate n None) (\<lambda>_. None) = None
    \<and> poll_report q 2 j = None"
  using epoll_late [OF assms] poll_one_job epoll_arrange_jobs_ok by (fastforce simp: epoll_arrange_def poll_report_def)

section \<open>Witnesses\<close>

definition blank :: rel_job_st where
  "blank = (let f = \<lparr>fsm_state = STATE_T, sfd = 0, dfd = 0, buf = replicate BUFSIZE 0, len = 0, pos = 0, count = 0, errstr = []\<rparr>
     in \<lparr>rel_state = 0, fd1 = 0, fd2 = 0, fd1_save = 0, fd2_save = 0, fsm12 = f, fsm21 = f\<rparr>)"

definition one_job :: job_table where
  "one_job = Some (new_job blank 3 4) # None # replicate (REL_JOBMAX - 2) None"

definition other_job :: job_table where
  "other_job = two_jobs blank blank 3 4 5 6"

lemma empty_table: "table_ok (replicate REL_JOBMAX None)" "filled (replicate n None) 0"
  by (auto simp: table_ok_def filled_def)

lemma replicate_JOBMAX: "replicate REL_JOBMAX x = x # x # replicate (REL_JOBMAX - 2) x"
proof -
  have "REL_JOBMAX = Suc (Suc (REL_JOBMAX - 2))" using JOBMAX_2 by simp
  then show ?thesis by (metis replicate_Suc)
qed

lemma first_add:
  "mux_addjob (Some blank) 3 4 (replicate REL_JOBMAX None) = (0, one_job)" "fresh_fds (replicate REL_JOBMAX None) 3 4"
  using free_slot_filled [OF empty_table(1), of 0] empty_table(2) [of REL_JOBMAX] JOBMAX_2
  by (simp_all add: mux_addjob_def one_job_def replicate_JOBMAX fresh_fds_def)

lemma one_job_ok: "table_ok one_job" "filled one_job 1"
proof -
  have "0 < REL_JOBMAX" using JOBMAX_2 by simp
  from table_ok_add [OF empty_table(1) empty_table(2) this first_add(2), of blank]
  show "table_ok one_job" "filled one_job 1" by (simp_all add: one_job_def replicate_JOBMAX)
qed

lemma second_add: "mux_addjob (Some blank) 5 6 one_job = (1, other_job)" "fresh_fds one_job 5 6"
  using free_slot_filled [OF one_job_ok] JOBMAX_2
  by (simp_all add: mux_addjob_def one_job_def other_job_def two_jobs_def fresh_fds_def)

lemma reach_one:
  assumes "can_add (replicate REL_JOBMAX None) Off 3 4"
  shows "relay_runs ops m0 can_add can_start \<lparr>jobs = one_job, mux = m0, phase = Off\<rparr>"
proof -
  have "relay_runs ops m0 can_add can_start (\<lparr>jobs = replicate REL_JOBMAX None, mux = m0, phase = Off\<rparr>\<lparr>jobs := one_job\<rparr>)"
    by (rule RelayAdd [OF RelayInit]) (use first_add assms in simp_all)
  then show ?thesis by simp
qed

lemma reach_other:
  assumes "can_add (replicate REL_JOBMAX None) Off 3 4" "can_add one_job Off 5 6"
  shows "relay_runs ops m0 can_add can_start \<lparr>jobs = other_job, mux = m0, phase = Off\<rparr>"
proof -
  have "relay_runs ops m0 can_add can_start (\<lparr>jobs = one_job, mux = m0, phase = Off\<rparr>\<lparr>jobs := other_job\<rparr>)"
    by (rule RelayAdd [OF reach_one]) (use second_add assms in simp_all)
  then show ?thesis by simp
qed

lemma reach_wait:
  assumes "relay_runs ops m0 can_add can_start \<lparr>jobs = js, mux = m0, phase = Off\<rparr>" "can_start js"
    and "op_arrange ops js (op_start ops js m0) = Some (js1, m1)"
  shows "relay_runs ops m0 can_add can_start \<lparr>jobs = js1, mux = m1, phase = Waits\<rparr>"
  using RelayArrange [OF RelayStart [OF assms(1)], of js1 m1] assms(2,3) by simp

lemma select_one:
  "select_arrange one_job m = Some (one_job, \<lparr>rset = {3, 4}, wset = {}, maxfd = 4\<rparr>)"
  by (simp add: select_arrange_def one_job_def select_watch_def watch_rd_def FD_SET_def FD_SETSIZE_def select_arrange_replicate Let_def insert_commute)

lemma epoll_replicate: "epoll_start (replicate n None) m = m" "epoll_arrange_jobs (replicate n None) m = (replicate n None, m)"
  by (induction n) simp_all

lemma select_waits: "select_reaches_quietly \<lparr>jobs = one_job, mux = \<lparr>rset = {3, 4}, wset = {}, maxfd = 4\<rparr>, phase = Waits\<rparr>"
  by (rule reach_wait [OF reach_one]) (simp_all add: select_quiet_def select_use_def FD_SETSIZE_def select_ops_def select_one)

lemma select_waits': "select_reaches \<lparr>jobs = one_job, mux = \<lparr>rset = {3, 4}, wset = {}, maxfd = 4\<rparr>, phase = Waits\<rparr>"
  by (rule reach_wait [OF reach_one]) (simp_all add: select_use_def FD_SETSIZE_def select_ops_def select_one)

lemma epoll_waits:
  obtains m where "epoll_reaches \<lparr>jobs = one_job, mux = m, phase = Waits\<rparr>" "epoll_wait m (\<lambda>_. True) (\<lambda>_. True) (3, True, False)"
proof -
  let ?m0 = "\<lparr>ep_fds = {}, ep_in = \<lambda>_. False, ep_out = \<lambda>_. False\<rparr>"
  obtain m where m: "epoll_arrange one_job (epoll_start one_job ?m0) = Some (one_job, m)" "epoll_wait m (\<lambda>_. True) (\<lambda>_. True) (3, True, False)"
    by (simp add: epoll_arrange_def one_job_def epoll_replicate epoll_add_def Let_def epoll_wait_def)
  show ?thesis
    by (rule that [OF reach_wait [OF reach_one] m(2)]) (simp_all add: epoll_ops_def m(1))
qed

lemma poll_waits:
  obtains p where "poll_reaches \<lparr>jobs = other_job, mux = p, phase = Waits\<rparr>"
proof -
  have "filled (replicate (REL_JOBMAX - 2) None) 0" by (simp add: filled_def)
  then obtain p where p: "poll_arrange other_job (\<lambda>_. None) = Some (other_job, p)"
    using poll_arrange_two [of "new_job blank 3 4" "new_job blank 5 6" "replicate (REL_JOBMAX - 2) None" "\<lambda>_. None"]
    by (auto simp: other_job_def two_jobs_def new_job_wired)
  show ?thesis
    by (rule that, rule reach_wait [OF reach_other])
      (use p in \<open>simp_all add: poll_use_def poll_start_def poll_ops_def other_job_def two_jobs_def one_job_def replicate_JOBMAX\<close>)
qed

definition no_data :: "nat \<Rightarrow> results" where
  "no_data n = ((Read [], Wrote 0), (Read [], Wrote 0))"

lemma all_ready_4: "select_wait \<lparr>rset = {3, 4}, wset = {}, maxfd = 4\<rparr> (\<lambda>_. True) (\<lambda>_. True) ({3, 4}, {})"
  by (simp add: select_wait_def)

lemma mux_relayers_never_block_witness:
  "\<exists>js. check_jobs (select_report ({3, 4}, {})) (\<lambda>_. True) (\<lambda>_. True) no_data 0 one_job = Some (Served js)"
proof -
  obtain m where "epoll_reaches \<lparr>jobs = one_job, mux = m, phase = Waits\<rparr>" by (rule epoll_waits)
  from mux_relayers_never_block [OF select_waits' this] all_ready_4 show ?thesis by fastforce
qed

lemma mux_relayers_drive_the_ready_witness:
  "check_jobs (select_report ({3, 4}, {})) (\<lambda>_. True) (\<lambda>_. True) no_data 0 one_job
    = Some (Served (drive_able (\<lambda>_. True) (\<lambda>_. True) no_data one_job))"
proof -
  obtain p where p: "poll_reaches \<lparr>jobs = other_job, mux = p, phase = Waits\<rparr>" by (rule poll_waits)
  have "poll_wait p (\<lambda>_. True) (\<lambda>_. True) (\<lambda>e. case p e of Some (fd, Some iu) \<Rightarrow> iu | _ \<Rightarrow> (False, False))"
    by (simp add: poll_wait_def)
  then show ?thesis using mux_relayers_drive_the_ready [OF select_waits _ _ p] all_ready_4 by simp
qed

lemma select_relayer_misses_jobs_witness:
  "\<exists>m1. select_arrange (two_jobs blank blank 7 8 3 4) \<lparr>rset = {}, wset = {}, maxfd = 0\<rparr> = Some (two_jobs blank blank 7 8 3 4, m1)
    \<and> (\<exists>k. select_wait m1 (\<lambda>_. True) (\<lambda>_. True) k \<and> select_report k 0 (new_job blank 7 8) = Some (False, False))"
  using select_relayer_misses_jobs [of 3 4 7 8 blank blank "\<lparr>rset = {}, wset = {}, maxfd = 0\<rparr>" "\<lambda>_. True" "\<lambda>_. True"]
  by (auto simp: FD_SETSIZE_def)

end
