(* ===== verification/FileCounter.thy ===== *)
theory FileCounter
  imports Prelude
begin

text \<open>
  A counter in a file that many processes or threads count up, in three versions: with a lock on the file,
  \<open>3.ybx/3.apue/9.advanced_io/7.lockf/1.add.c\<close>, with a semaphore, \<open>10.ipc/2.xsi/2.sem/1.add.c\<close>, and with a mutex,
  \<open>8.thread/posix/10.add_ok.c\<close>.  Each process opens the file, locks, reads the number, writes its successor over it and
  unlocks.  The state is the content of the file, the lock and a list of processes with their control points; a step is one
  call of one of them.
\<close>

section \<open>Numbers as text\<close>

text \<open>\<open>sprintf\<close> with \<open>%d\<close>, \<open>atoi\<close>; characters are their codes.  \<open>atoi\<close> is undefined if the number is too large or the buffer
  ends inside it.\<close>

fun dec :: "nat \<Rightarrow> nat list" where
  "dec n = (if n < 10 then [] else dec (n div 10)) @ [48 + n mod 10]"

declare dec.simps [simp del]

definition sprint_d :: "int \<Rightarrow> nat list" where
  "sprint_d n = (if n < 0 then 45 # dec (nat (- n)) else dec (nat n))"

fun atoi_digits :: "bool \<Rightarrow> int \<Rightarrow> nat list \<Rightarrow> int option" where
  "atoi_digits neg v [] = None"
| "atoi_digits neg v (c # cs) =
     (if 48 \<le> c \<and> c \<le> 57 then do { w \<leftarrow> chk (if neg then 10 * v - int (c - 48) else 10 * v + int (c - 48)); atoi_digits neg w cs }
      else Some v)"

definition is_space :: "nat \<Rightarrow> bool" where
  "is_space c \<longleftrightarrow> c = 32 \<or> 9 \<le> c \<and> c \<le> 13"

definition atoi :: "nat list \<Rightarrow> int option" where
  "atoi cs = (case dropWhile is_space cs of
     [] \<Rightarrow> None
   | c # ds \<Rightarrow> if c = 45 then atoi_digits True 0 ds else if c = 43 then atoi_digits False 0 ds else atoi_digits False 0 (c # ds))"

section \<open>The programs\<close>

text \<open>\<open>SIZE\<close> of the first two versions and \<open>LEN\<close> of the third.\<close>

definition SIZE :: nat where "SIZE = 10"
definition LEN_add :: nat where "LEN_add = 100"

datatype control = AtOpen | AtLock | AtRead | AtWrite | AtUnlock | AtClose | AtExit

record process =
  control :: control
  offset :: nat
  str :: "nat list"

record 'l counter =
  content :: "nat list"
  lock :: 'l
  procs :: "process list"

text \<open>What the versions do in their own way: taking the lock (\<open>None\<close> if the caller has to wait), giving it back, closing the
  file, and from reading the file to the text that is to be written; the latter also gives the offset after reading.\<close>

record 'l counter_ops =
  c_acquire :: "nat \<Rightarrow> nat \<Rightarrow> 'l \<Rightarrow> 'l option"
  c_unlock :: "nat \<Rightarrow> nat \<Rightarrow> 'l \<Rightarrow> 'l"
  c_close :: "nat \<Rightarrow> 'l \<Rightarrow> 'l"
  c_load :: "nat list \<Rightarrow> nat \<Rightarrow> (nat list \<times> nat) option"

text \<open>Writing at the beginning of the file leaves what is behind.\<close>

definition overwrite :: "nat list \<Rightarrow> nat list \<Rightarrow> nat list" where
  "overwrite t f = t @ drop (length t) f"

definition put_proc :: "nat \<Rightarrow> process \<Rightarrow> 'l counter \<Rightarrow> 'l counter" where
  "put_proc i p s = s\<lparr>procs := (procs s)[i := p]\<rparr>"

datatype 'a move = Faulty | Idle | Next 'a

definition count_step :: "'l counter_ops \<Rightarrow> nat \<Rightarrow> 'l counter \<Rightarrow> 'l counter move" where
  "count_step ops i s =
     (let p = procs s ! i in
      case control p of
        AtOpen \<Rightarrow> Next (put_proc i (p\<lparr>control := AtLock, offset := 0\<rparr>) s)
      | AtLock \<Rightarrow>
          (case c_acquire ops i (offset p) (lock s) of
             None \<Rightarrow> Idle
           | Some l \<Rightarrow> Next (put_proc i (p\<lparr>control := AtRead\<rparr>) (s\<lparr>lock := l\<rparr>)))
      | AtRead \<Rightarrow>
          (case c_load ops (content s) (offset p) of
             None \<Rightarrow> Faulty
           | Some (t, q) \<Rightarrow> Next (put_proc i (p\<lparr>control := AtWrite, offset := q, str := t\<rparr>) s))
      | AtWrite \<Rightarrow>
          Next (put_proc i (p\<lparr>control := AtUnlock, offset := length (str p)\<rparr>) (s\<lparr>content := overwrite (str p) (content s)\<rparr>))
      | AtUnlock \<Rightarrow> Next (put_proc i (p\<lparr>control := AtClose\<rparr>) (s\<lparr>lock := c_unlock ops i (offset p) (lock s)\<rparr>))
      | AtClose \<Rightarrow> Next (put_proc i (p\<lparr>control := AtExit\<rparr>) (s\<lparr>lock := c_close ops i (lock s)\<rparr>))
      | AtExit \<Rightarrow> Idle)"

text \<open>\<open>lockf(fd, F_LOCK, 0)\<close> locks from the offset on, \<open>lockf(fd, F_ULOCK, 0)\<close> unlocks from the offset on: what was
  locked before it stays locked until the file is closed.  A region is its start and its end, if it has one.\<close>

type_synonym regions = "nat \<Rightarrow> (nat \<times> nat option) option"

definition overlaps :: "nat \<Rightarrow> (nat \<times> nat option) option \<Rightarrow> bool" where
  "overlaps from r = (case r of None \<Rightarrow> False | Some (a, None) \<Rightarrow> True | Some (a, Some b) \<Rightarrow> max a from < b)"

definition lockf_lock :: "nat \<Rightarrow> nat \<Rightarrow> nat \<Rightarrow> regions \<Rightarrow> regions option" where
  "lockf_lock n i from l = (if list_ex (\<lambda>j. j \<noteq> i \<and> overlaps from (l j)) [0..<n] then None else Some (l(i := Some (from, None))))"

definition lockf_unlock :: "nat \<Rightarrow> nat \<Rightarrow> regions \<Rightarrow> regions" where
  "lockf_unlock i from l = (case l i of
     None \<Rightarrow> l
   | Some (a, b) \<Rightarrow> if a < from then l(i := Some (a, Some (case b of None \<Rightarrow> from | Some e \<Rightarrow> min e from))) else l(i := None))"

text \<open>\<open>sysio_func\<close>: \<open>read(fd, tmp, SIZE)\<close> into a buffer of zeros, \<open>atoi\<close>, \<open>sprintf\<close>, which must not overflow the buffer.\<close>

definition sysio_load :: "nat list \<Rightarrow> nat \<Rightarrow> (nat list \<times> nat) option" where
  "sysio_load f at = do {
     let got = take SIZE (drop at f);
     n \<leftarrow> atoi (got @ replicate (SIZE - length got) 0);
     m \<leftarrow> chk (n + 1);
     if length (sprint_d m) + 1 > SIZE then None else Some (sprint_d m, at + length got) }"

definition lockf_ops :: "nat \<Rightarrow> regions counter_ops" where
  "lockf_ops n = \<lparr>c_acquire = lockf_lock n, c_unlock = lockf_unlock, c_close = \<lambda>i l. l(i := None), c_load = sysio_load\<rparr>"

text \<open>\<open>fgets\<close>: up to \<open>n - 1\<close> characters and not beyond the end of the line; at the end of the file it leaves the buffer as it
  is, uninitialised.\<close>

definition fgets :: "nat \<Rightarrow> nat list \<Rightarrow> nat list option" where
  "fgets n f =
     (let cs = take (n - 1) f in
      if cs = [] then None
      else Some (takeWhile (\<lambda>c. c \<noteq> 10) cs @ take 1 (dropWhile (\<lambda>c. c \<noteq> 10) cs) @ [0]))"

text \<open>\<open>stdio_func\<close> of the version with a semaphore.  \<open>P\<close> and \<open>V\<close> on a semaphore that starts with 1.\<close>

definition sem_P :: "nat \<Rightarrow> nat \<Rightarrow> nat \<Rightarrow> nat option" where
  "sem_P i at v = (if v = 0 then None else Some (v - 1))"

definition sem_V :: "nat \<Rightarrow> nat \<Rightarrow> nat \<Rightarrow> nat" where
  "sem_V i at v = v + 1"

definition stdio_load :: "nat list \<Rightarrow> nat \<Rightarrow> (nat list \<times> nat) option" where
  "stdio_load f at = do {
     line \<leftarrow> fgets SIZE (drop at f);
     n \<leftarrow> atoi line;
     m \<leftarrow> chk (n + 1);
     Some (take (SIZE - 1) (sprint_d m), 0) }"

definition sem_ops :: "nat counter_ops" where
  "sem_ops = \<lparr>c_acquire = sem_P, c_unlock = sem_V, c_close = \<lambda>i l. l, c_load = stdio_load\<rparr>"

text \<open>\<open>func\<close> of the version with threads: the mutex is held by a thread or free; \<open>fclose\<close> writes the buffer.\<close>

definition mutex_lock :: "nat \<Rightarrow> nat \<Rightarrow> nat option \<Rightarrow> nat option option" where
  "mutex_lock i at m = (case m of None \<Rightarrow> Some (Some i) | Some j \<Rightarrow> None)"

definition mutex_unlock :: "nat \<Rightarrow> nat \<Rightarrow> nat option \<Rightarrow> nat option" where
  "mutex_unlock i at m = None"

definition add_ok_load :: "nat list \<Rightarrow> nat \<Rightarrow> (nat list \<times> nat) option" where
  "add_ok_load f at = do {
     line \<leftarrow> fgets LEN_add (drop at f);
     n \<leftarrow> atoi line;
     m \<leftarrow> chk (n + 1);
     Some (sprint_d m @ [10], 0) }"

definition mutex_ops :: "nat option counter_ops" where
  "mutex_ops = \<lparr>c_acquire = mutex_lock, c_unlock = mutex_unlock, c_close = \<lambda>i l. l, c_load = add_ok_load\<rparr>"

text \<open>The start of \<open>n\<close> processes on a file, and the runs of a given number of steps.\<close>

definition count_start :: "'l \<Rightarrow> nat list \<Rightarrow> nat \<Rightarrow> 'l counter" where
  "count_start l f n = \<lparr>content = f, lock = l, procs = replicate n \<lparr>control = AtOpen, offset = 0, str = []\<rparr>\<rparr>"

inductive count_runs :: "'l counter_ops \<Rightarrow> nat \<Rightarrow> 'l counter \<Rightarrow> 'l counter \<Rightarrow> bool" for ops where
  CountNil: "count_runs ops 0 s s"
| CountStep: "count_runs ops n s s1 \<Longrightarrow> i < length (procs s1) \<Longrightarrow> count_step ops i s1 = Next s2 \<Longrightarrow> count_runs ops (Suc n) s s2"

section \<open>Text\<close>

lemma dec_nonempty [simp]: "dec n \<noteq> []"
  by (subst dec.simps) simp

lemma dec_codes: "c \<in> set (dec n) \<Longrightarrow> 48 \<le> c \<and> c \<le> 57"
proof (induction n rule: dec.induct)
  case (1 n)
  then show ?case by (subst (asm) (2) dec.simps) (auto split: if_splits)
qed

lemma length_dec: "n < 10 ^ k \<Longrightarrow> 0 < k \<Longrightarrow> length (dec n) \<le> k"
proof (induction n arbitrary: k rule: dec.induct)
  case (1 n)
  show ?case
  proof (cases "n < 10")
    case True
    then show ?thesis using "1.prems" by (subst dec.simps) simp
  next
    case False
    then obtain j where j: "k = Suc j" "0 < j" using "1.prems" by (cases k; cases "k - 1") auto
    then have "n div 10 < 10 ^ j" using "1.prems" by (simp add: less_mult_imp_div_less mult.commute)
    then have "length (dec (n div 10)) \<le> j" using "1.IH" [OF False] j by simp
    then show ?thesis using False j by (subst dec.simps) simp
  qed
qed

lemma length_dec_mono: "m \<le> n \<Longrightarrow> length (dec m) \<le> length (dec n)"
proof (induction n arbitrary: m rule: dec.induct)
  case (1 n)
  show ?case
  proof (cases "m < 10")
    case True
    then show ?thesis by (subst (2) dec.simps, subst dec.simps) simp
  next
    case False
    then have "\<not> n < 10" "m div 10 \<le> n div 10" using "1.prems" by (simp_all add: div_le_mono)
    then have "length (dec (m div 10)) \<le> length (dec (n div 10))" using "1.IH" by simp
    then show ?thesis using False \<open>\<not> n < 10\<close> by (subst (2) dec.simps, subst dec.simps) simp
  qed
qed

lemma atoi_digits_dec:
  "0 \<le> v \<Longrightarrow> v * 10 ^ length (dec n) + int n \<le> 2147483647 \<Longrightarrow>
   atoi_digits False v (dec n @ cs) = atoi_digits False (v * 10 ^ length (dec n) + int n) cs"
proof (induction n arbitrary: cs rule: dec.induct)
  case (1 n)
  have chk_ok: "chk w = Some w" if "0 \<le> w" "w \<le> 2147483647" for w :: int using that by (simp add: chk_def int_range_def)
  show ?case
  proof (cases "n < 10")
    case True
    then have d: "dec n = [48 + n]" by (subst dec.simps) simp
    then show ?thesis using "1.prems" chk_ok [of "10 * v + int n"] True by (simp add: mult.commute)
  next
    case False
    let ?q = "n div 10" and ?r = "n mod 10"
    have d: "dec n = dec ?q @ [48 + ?r]" using False by (subst dec.simps) simp
    have n: "int n = 10 * int ?q + int ?r" by (simp flip: of_nat_mult of_nat_add add: zdiv_int zmod_int)
    let ?w = "v * 10 ^ length (dec ?q) + int ?q"
    have w: "v * 10 ^ length (dec n) + int n = 10 * ?w + int ?r" unfolding n using d by (simp add: algebra_simps)
    have w0: "0 \<le> ?w" using "1.prems"(1) by simp
    have tenth: "w \<le> M" if "0 \<le> w" "0 \<le> r" "10 * w + r \<le> M" for w r M :: int using that by linarith
    have "?w \<le> 2147483647" using tenth [OF w0, of "int ?r"] "1.prems"(2) w by simp
    then have "atoi_digits False v (dec ?q @ (48 + ?r) # cs) = atoi_digits False ?w ((48 + ?r) # cs)"
      using "1.IH" [OF False "1.prems"(1)] by blast
    moreover have "chk (10 * ?w + int ?r) = Some (10 * ?w + int ?r)" using chk_ok w0 "1.prems"(2) unfolding w by simp
    moreover have "48 + ?r \<le> 57" by simp
    ultimately show ?thesis unfolding w by (simp add: d)
  qed
qed

lemma atoi_dec:
  assumes "int n \<le> 2147483647" "\<not> (48 \<le> c \<and> c \<le> 57)"
  shows "atoi (dec n @ c # cs) = Some (int n)"
proof -
  obtain x xs where x: "dec n = x # xs" by (cases "dec n") simp_all
  then have "48 \<le> x" using dec_codes [of x n] by simp
  then have "atoi (dec n @ c # cs) = atoi_digits False 0 (dec n @ c # cs)" using x by (simp add: atoi_def is_space_def)
  also have "\<dots> = atoi_digits False (int n) (c # cs)" using atoi_digits_dec [of 0 n "c # cs"] assms(1) by simp
  also have "\<dots> = Some (int n)" using assms(2) by auto
  finally show ?thesis .
qed

lemma sprint_Suc: "sprint_d (int v + 1) = dec (v + 1)"
  by (simp add: sprint_d_def nat_add_distrib)

lemma chk_Suc: "v + 1 \<le> 2147483647 \<Longrightarrow> chk (int v + 1) = Some (int v + 1)"
  by (simp add: chk_def int_range_def)

lemma overwrite_dec: "length f \<le> length t \<Longrightarrow> overwrite t f = t"
  by (simp add: overwrite_def)

lemma until_newline:
  "10 \<notin> set f \<Longrightarrow> takeWhile (\<lambda>c. c \<noteq> 10) f = f" "10 \<notin> set f \<Longrightarrow> dropWhile (\<lambda>c. c \<noteq> 10) f = []"
  "10 \<notin> set f \<Longrightarrow> takeWhile (\<lambda>c. c \<noteq> 10) (f @ 10 # xs) = f" "10 \<notin> set f \<Longrightarrow> dropWhile (\<lambda>c. c \<noteq> 10) (f @ 10 # xs) = (10 :: nat) # xs"
  by (induction f) auto

lemma fgets_dec:
  assumes "0 < length f" "length f < n" "10 \<notin> set f"
  shows "fgets n f = Some (f @ [0])"
proof -
  have "take (n - 1) f = f" using assms(2) by simp
  then show ?thesis using assms(1) until_newline(1,2) [OF assms(3)] by (simp add: fgets_def Let_def)
qed

lemma no_newline: "10 \<notin> set (dec n)"
  using dec_codes [of 10 n] by auto

lemma sysio_load_dec:
  assumes "v + 1 < 10 ^ 9"
  shows "sysio_load (dec v) 0 = Some (dec (v + 1), length (dec v))"
proof -
  have l: "length (dec v) \<le> 9" "length (dec (v + 1)) \<le> 9" using assms by (auto intro!: length_dec)
  then obtain k where k: "SIZE - length (dec v) = Suc k" by (cases "SIZE - length (dec v)") (simp_all add: SIZE_def)
  have "atoi (dec v @ 0 # replicate k 0) = Some (int v)" by (rule atoi_dec) (use assms in simp_all)
  then show ?thesis using l k chk_Suc [of v] assms sprint_Suc [of v] by (simp add: sysio_load_def SIZE_def Let_def)
qed

lemma stdio_load_dec:
  assumes "v + 1 < 10 ^ 9"
  shows "stdio_load (dec v) 0 = Some (dec (v + 1), 0)"
proof -
  have l: "length (dec v) \<le> 9" "length (dec (v + 1)) \<le> 9" using assms by (auto intro!: length_dec)
  then have "fgets SIZE (dec v) = Some (dec v @ [0])" by (intro fgets_dec no_newline) (simp_all add: SIZE_def)
  moreover have "atoi (dec v @ [0]) = Some (int v)" by (rule atoi_dec) (use assms in simp_all)
  ultimately show ?thesis using l chk_Suc [of v] assms sprint_Suc [of v] by (simp add: stdio_load_def SIZE_def)
qed

lemma add_ok_load_dec:
  assumes "v + 1 < 2147483647" "f = dec v \<or> f = dec v @ [10]"
  shows "add_ok_load f 0 = Some (dec (v + 1) @ [10], 0)"
proof -
  have l: "length (dec v) \<le> 10" using assms(1) by (intro length_dec) simp_all
  obtain c cs where c: "fgets LEN_add f = Some (dec v @ c # cs)" "c = 0 \<or> c = 10"
  proof (cases "f = dec v")
    case True
    then have "fgets LEN_add f = Some (dec v @ [0])" using l by (simp, intro fgets_dec no_newline) (simp_all add: LEN_add_def)
    then show ?thesis using that by blast
  next
    case False
    then have f: "f = dec v @ [10]" using assms(2) by simp
    have "take (LEN_add - 1) f = f" using l f by (simp add: LEN_add_def)
    moreover have "takeWhile (\<lambda>c. c \<noteq> 10) f = dec v" "dropWhile (\<lambda>c. c \<noteq> 10) f = [10]"
      unfolding f using until_newline(3,4) [OF no_newline, of v "[]"] by simp_all
    ultimately have "fgets LEN_add f = Some (dec v @ 10 # [0])" using f unfolding fgets_def Let_def by simp
    then show ?thesis using that by blast
  qed
  have "atoi (dec v @ c # cs) = Some (int v)" by (rule atoi_dec) (use assms(1) c(2) in auto)
  then show ?thesis using c(1) chk_Suc [of v] assms(1) sprint_Suc [of v] by (simp add: add_ok_load_def)
qed

section \<open>Processes\<close>

text \<open>The part of a process between taking and giving back the lock; \<open>early\<close> says that it is given back before the file is
  closed.\<close>

definition inside :: "bool \<Rightarrow> process \<Rightarrow> bool" where
  "inside early p \<longleftrightarrow> control p \<in> {AtRead, AtWrite, AtUnlock} \<or> \<not> early \<and> control p = AtClose"

definition holders :: "bool \<Rightarrow> 'l counter \<Rightarrow> nat set" where
  "holders early s = {i. i < length (procs s) \<and> inside early (procs s ! i)}"

definition has_written :: "process \<Rightarrow> nat" where
  "has_written p = (if control p \<in> {AtUnlock, AtClose, AtExit} then 1 else 0)"

definition made :: "process \<Rightarrow> nat" where
  "made p = (case control p of AtOpen \<Rightarrow> 0 | AtLock \<Rightarrow> 1 | AtRead \<Rightarrow> 2 | AtWrite \<Rightarrow> 3 | AtUnlock \<Rightarrow> 4 | AtClose \<Rightarrow> 5 | AtExit \<Rightarrow> 6)"

definition written :: "'l counter \<Rightarrow> nat" where
  "written s = sum_list (map has_written (procs s))"

definition steps_made :: "'l counter \<Rightarrow> nat" where
  "steps_made s = sum_list (map made (procs s))"

text \<open>What is known of a process from its control point.\<close>

definition process_ok :: "'l counter_ops \<Rightarrow> nat list \<Rightarrow> process \<Rightarrow> bool" where
  "process_ok ops f p \<longleftrightarrow> (control p \<in> {AtLock, AtRead} \<longrightarrow> offset p = 0)
     \<and> (control p = AtWrite \<longrightarrow> str p \<noteq> [] \<and> (\<exists>q. c_load ops f 0 = Some (str p, q))) \<and> (control p = AtUnlock \<longrightarrow> 0 < offset p)"

definition count_inv :: "'l counter_ops \<Rightarrow> ('l \<Rightarrow> nat set \<Rightarrow> bool) \<Rightarrow> (nat \<Rightarrow> nat list \<Rightarrow> bool) \<Rightarrow> bool \<Rightarrow> nat \<Rightarrow> nat \<Rightarrow> 'l counter \<Rightarrow> bool" where
  "count_inv ops held counts early n v s \<longleftrightarrow> length (procs s) = n \<and> held (lock s) (holders early s)
     \<and> (\<forall>i \<in> holders early s. \<forall>j \<in> holders early s. i = j) \<and> counts (v + written s) (content s)
     \<and> (\<forall>i < n. process_ok ops (content s) (procs s ! i))"

lemma count_invD:
  assumes "count_inv ops held counts early n v s"
  shows "length (procs s) = n" "held (lock s) (holders early s)" "counts (v + written s) (content s)"
    "i < n \<Longrightarrow> process_ok ops (content s) (procs s ! i)" "i \<in> holders early s \<Longrightarrow> holders early s = {i}"
  using assms by (auto simp: count_inv_def)

lemma put_proc_fields [simp]: "content (put_proc i p s) = content s" "lock (put_proc i p s) = lock s" "procs (put_proc i p s) = (procs s)[i := p]"
  by (simp_all add: put_proc_def)

lemma sum_list_map_update: "i < length xs \<Longrightarrow> sum_list (map f (xs[i := y])) + f (xs ! i) = sum_list (map f xs) + (f y :: nat)"
proof (induction xs arbitrary: i)
  case (Cons x xs)
  then show ?case by (cases i) simp_all
qed simp

lemma holders_update:
  assumes "i < length (procs s)" "procs s' = (procs s)[i := p]"
  shows "holders early s' = (if inside early p then insert i (holders early s) else holders early s - {i})"
  using assms by (auto simp: holders_def nth_list_update)

text \<open>The invariant after a step of process \<open>i\<close>.\<close>

lemma count_invI:
  assumes inv: "count_inv ops held counts early n v s" and i: "i < n" and s': "procs s' = (procs s)[i := p]"
    and h: "held (lock s') (holders early s')" and one: "inside early p \<Longrightarrow> holders early s \<subseteq> {i}"
    and c: "counts (v + written s') (content s')" and p: "process_ok ops (content s') p"
    and others: "content s' = content s \<or> (\<forall>j < n. j \<noteq> i \<longrightarrow> control (procs s ! j) \<noteq> AtWrite)"
  shows "count_inv ops held counts early n v s'"
proof -
  note d = count_invD [OF inv]
  have hs: "holders early s' = (if inside early p then insert i (holders early s) else holders early s - {i})"
    using holders_update [OF _ s'] i d(1) by simp
  have "a = b" if "a \<in> holders early s'" "b \<in> holders early s'" for a b
    using that hs one d(5) [of a] by (auto split: if_splits)
  moreover have "process_ok ops (content s') (procs s' ! j)" if j: "j < n" for j
  proof (cases "j = i")
    case False
    then show ?thesis using d(4) [OF j] others j s' by (auto simp: process_ok_def)
  qed (use p i s' d(1) in simp)
  ultimately show ?thesis using h c d(1) s' unfolding count_inv_def by simp
qed

section \<open>The contract of a lock\<close>

text \<open>\<open>held l H\<close>: in the state \<open>l\<close> of the lock the processes in \<open>H\<close> hold it, at most one.  \<open>counts v f\<close>: the file has the text of
  \<open>v\<close>.  Numbers stay below \<open>top\<close>.\<close>

locale counter_lock =
  fixes ops :: "'l counter_ops"
    and free :: 'l
    and n :: nat
    and held :: "'l \<Rightarrow> nat set \<Rightarrow> bool"
    and early :: bool
    and counts :: "nat \<Rightarrow> nat list \<Rightarrow> bool"
    and top :: nat
  assumes free: "held free {}"
    and take: "held l {} \<Longrightarrow> i < n \<Longrightarrow> \<exists>l'. c_acquire ops i 0 l = Some l' \<and> held l' {i}"
    and taken: "held l {j} \<Longrightarrow> i < n \<Longrightarrow> j < n \<Longrightarrow> j \<noteq> i \<Longrightarrow> c_acquire ops i 0 l = None"
    and give: "held l {i} \<Longrightarrow> 0 < at \<Longrightarrow> held (c_unlock ops i at l) (if early then {} else {i})"
    and closed: "\<not> early \<Longrightarrow> held l {i} \<Longrightarrow> held (c_close ops i l) {}" "early \<Longrightarrow> c_close ops i l = l"
    and load: "counts v f \<Longrightarrow> v + 1 < top \<Longrightarrow> \<exists>t q. c_load ops f 0 = Some (t, q) \<and> t \<noteq> [] \<and> counts (v + 1) (overwrite t f)"
begin

lemma inv_start: "counts v f \<Longrightarrow> count_inv ops held counts early n v (count_start free f n)"
proof -
  assume "counts v f"
  moreover have "holders early (count_start free f n) = {}" by (auto simp: holders_def inside_def count_start_def)
  moreover have "written (count_start free f n) = 0" by (simp add: written_def has_written_def count_start_def sum_list_replicate)
  ultimately show ?thesis using free by (simp add: count_inv_def count_start_def process_ok_def)
qed

lemma written_below:
  assumes "i < length (procs s)" "has_written (procs s ! i) = 0"
  shows "written s < length (procs s)"
proof -
  have "sum_list (map has_written ps) \<le> length ps" for ps
  proof (induction ps)
    case (Cons p ps)
    then show ?case by (simp add: has_written_def)
  qed simp
  from this [of "(procs s)[i := (procs s ! i)\<lparr>control := AtExit\<rparr>]"] show ?thesis
    using sum_list_map_update [OF assms(1), of has_written "(procs s ! i)\<lparr>control := AtExit\<rparr>"] assms
    by (simp add: written_def has_written_def)
qed

lemma load_ok:
  assumes inv: "count_inv ops held counts early n v s" and "v + n < top" "i < n" "control (procs s ! i) \<in> {AtRead, AtWrite}"
  obtains t q where "c_load ops (content s) 0 = Some (t, q)" "t \<noteq> []" "counts (v + written s + 1) (overwrite t (content s))"
proof -
  have "written s < n" using written_below [of i s] assms(3,4) count_invD(1) [OF inv] by (auto simp: has_written_def)
  then show ?thesis using load [OF count_invD(3) [OF inv]] assms(2) that by fastforce
qed

lemma no_fault:
  assumes inv: "count_inv ops held counts early n v s" and "v + n < top" "i < n"
  shows "count_step ops i s \<noteq> Faulty"
proof (cases "control (procs s ! i) = AtRead")
  case True
  obtain t q where "c_load ops (content s) 0 = Some (t, q)" by (rule load_ok [OF assms]) (use True in auto)
  then show ?thesis using True count_invD(4) [OF inv assms(3)] by (simp add: count_step_def process_ok_def Let_def)
qed (auto simp: count_step_def Let_def split: control.split option.split)

text \<open>Steps that neither take nor give back the lock nor write.\<close>

lemma step_inside:
  assumes inv: "count_inv ops held counts early n v s" and i: "i < n" and s': "s' = put_proc i p s"
    and same: "inside early p = inside early (procs s ! i)" "has_written p = has_written (procs s ! i)"
    and p: "process_ok ops (content s) p"
  shows "count_inv ops held counts early n v s'"
proof (rule count_invI [OF inv i])
  note d = count_invD [OF inv]
  have i': "i < length (procs s)" using i d(1) by simp
  show "procs s' = (procs s)[i := p]" using s' by simp
  have "holders early s' = holders early s"
    using holders_update [OF i', of s' p early] same(1) i' s' by (auto simp: holders_def)
  then show "held (lock s') (holders early s')" using d(2) s' by simp
  show "holders early s \<subseteq> {i}" if "inside early p" using d(5) [of i] that same(1) i' by (auto simp: holders_def)
  have "written s' = written s"
    using sum_list_map_update [OF i', of has_written p] same(2) s' by (simp add: written_def)
  then show "counts (v + written s') (content s')" using d(3) s' by simp
qed (use p s' in simp_all)

lemma step_lock:
  assumes inv: "count_inv ops held counts early n v s" and i: "i < n" and c: "control (procs s ! i) = AtLock"
    and l: "c_acquire ops i (offset (procs s ! i)) (lock s) = Some l"
  shows "count_inv ops held counts early n v (put_proc i ((procs s ! i)\<lparr>control := AtRead\<rparr>) (s\<lparr>lock := l\<rparr>))"
proof -
  note d = count_invD [OF inv]
  have i': "i < length (procs s)" using i d(1) by simp
  have at: "offset (procs s ! i) = 0" using d(4) [OF i] c by (simp add: process_ok_def)
  have free: "holders early s = {}"
  proof (rule ccontr)
    assume "holders early s \<noteq> {}"
    then obtain j where j: "j \<in> holders early s" by blast
    then have "holders early s = {j}" "j < n" "j \<noteq> i" using d(1,5) c by (auto simp: holders_def inside_def)
    then show False using taken [of "lock s" j i] d(2) i l at by simp
  qed
  then have l': "held l {i}" using take [of "lock s" i] d(2) i l at by auto
  let ?s = "put_proc i ((procs s ! i)\<lparr>control := AtRead\<rparr>) (s\<lparr>lock := l\<rparr>)"
  show ?thesis
  proof (rule count_invI [OF inv i])
    show "procs ?s = (procs s)[i := (procs s ! i)\<lparr>control := AtRead\<rparr>]" by simp
    show "held (lock ?s) (holders early ?s)"
      using holders_update [OF i', of ?s "(procs s ! i)\<lparr>control := AtRead\<rparr>" early] free l' by (simp add: inside_def)
    have "written ?s = written s"
      using sum_list_map_update [OF i', of has_written "(procs s ! i)\<lparr>control := AtRead\<rparr>"] c by (simp add: written_def has_written_def)
    then show "counts (v + written ?s) (content ?s)" using d(3) by simp
  qed (use free at in \<open>simp_all add: process_ok_def\<close>)
qed

lemma step_write:
  assumes inv: "count_inv ops held counts early n v s" and i: "i < n" and c: "control (procs s ! i) = AtWrite" and b: "v + n < top"
  shows "count_inv ops held counts early n v (put_proc i ((procs s ! i)\<lparr>control := AtUnlock, offset := length (str (procs s ! i))\<rparr>)
    (s\<lparr>content := overwrite (str (procs s ! i)) (content s)\<rparr>))" (is "count_inv _ _ _ _ _ _ ?s")
proof -
  note d = count_invD [OF inv]
  let ?p = "(procs s ! i)\<lparr>control := AtUnlock, offset := length (str (procs s ! i))\<rparr>"
  have i': "i < length (procs s)" using i d(1) by simp
  have hi: "holders early s = {i}" by (rule d(5)) (use i' c in \<open>simp add: holders_def inside_def\<close>)
  obtain t q where t: "c_load ops (content s) 0 = Some (t, q)" "counts (v + written s + 1) (overwrite t (content s))"
    by (rule load_ok [OF inv b i]) (use c in auto)
  moreover have "str (procs s ! i) \<noteq> []" "\<exists>q. c_load ops (content s) 0 = Some (str (procs s ! i), q)"
    using d(4) [OF i] c by (auto simp: process_ok_def)
  ultimately have t': "str (procs s ! i) = t" "t \<noteq> []" by auto
  show ?thesis
  proof (rule count_invI [OF inv i])
    show "procs ?s = (procs s)[i := ?p]" by simp
    show "held (lock ?s) (holders early ?s)"
      using holders_update [OF i', of ?s ?p early] hi d(2) by (simp add: inside_def)
    have "written ?s = written s + 1"
      using sum_list_map_update [OF i', of has_written ?p] c by (simp add: written_def has_written_def)
    then show "counts (v + written ?s) (content ?s)" using t(2) t'(1) by simp
    show "content ?s = content s \<or> (\<forall>j < n. j \<noteq> i \<longrightarrow> control (procs s ! j) \<noteq> AtWrite)"
      using hi d(1) by (auto simp: holders_def inside_def)
  qed (use hi t' in \<open>simp_all add: process_ok_def\<close>)
qed

lemma step_leave:
  assumes inv: "count_inv ops held counts early n v s" and i: "i < n"
    and c: "control (procs s ! i) = AtUnlock \<and> q = AtClose \<and> l = c_unlock ops i (offset (procs s ! i)) (lock s)
      \<or> control (procs s ! i) = AtClose \<and> q = AtExit \<and> l = c_close ops i (lock s)"
  shows "count_inv ops held counts early n v (put_proc i ((procs s ! i)\<lparr>control := q\<rparr>) (s\<lparr>lock := l\<rparr>))" (is "count_inv _ _ _ _ _ _ ?s")
proof -
  note d = count_invD [OF inv]
  let ?p = "(procs s ! i)\<lparr>control := q\<rparr>"
  have i': "i < length (procs s)" using i d(1) by simp
  have hs: "holders early ?s = (if inside early ?p then insert i (holders early s) else holders early s - {i})"
    by (rule holders_update [OF i']) simp
  have one: "holders early s = {i}" if "inside early (procs s ! i)"
    by (rule d(5)) (use that i' in \<open>simp add: holders_def\<close>)
  have "held l (holders early ?s)"
  proof (cases "control (procs s ! i) = AtUnlock")
    case True
    then have "holders early s = {i}" "0 < offset (procs s ! i)" using one d(4) [OF i] by (simp_all add: inside_def process_ok_def)
    then show ?thesis using give [of "lock s" i] d(2) hs c True by (auto simp: inside_def)
  next
    case False
    then have q: "control (procs s ! i) = AtClose" "q = AtExit" "l = c_close ops i (lock s)" using c by auto
    show ?thesis
    proof (cases early)
      case True
      then have "i \<notin> holders early s" using q(1) by (simp add: holders_def inside_def)
      then show ?thesis using closed(2) [OF True] hs q d(2) True by (simp add: inside_def)
    next
      case False
      then have "holders early s = {i}" using one q(1) by (simp add: inside_def)
      then show ?thesis using closed(1) [OF False] hs q d(2) by (simp add: inside_def)
    qed
  qed
  moreover have "written ?s = written s"
    using sum_list_map_update [OF i', of has_written ?p] c by (auto simp: written_def has_written_def)
  ultimately show ?thesis
    using c d(3) one by (intro count_invI [OF inv i, of _ ?p]) (auto simp: inside_def process_ok_def)
qed

lemma step_kinds:
  assumes "count_step ops i s = Next s2"
  obtains "s2 = put_proc i ((procs s ! i)\<lparr>control := AtLock, offset := 0\<rparr>) s" "control (procs s ! i) = AtOpen"
  | l where "control (procs s ! i) = AtLock" "c_acquire ops i (offset (procs s ! i)) (lock s) = Some l"
      "s2 = put_proc i ((procs s ! i)\<lparr>control := AtRead\<rparr>) (s\<lparr>lock := l\<rparr>)"
  | t q where "control (procs s ! i) = AtRead" "c_load ops (content s) (offset (procs s ! i)) = Some (t, q)"
      "s2 = put_proc i ((procs s ! i)\<lparr>control := AtWrite, offset := q, str := t\<rparr>) s"
  | "control (procs s ! i) = AtWrite" "s2 = put_proc i ((procs s ! i)\<lparr>control := AtUnlock, offset := length (str (procs s ! i))\<rparr>)
      (s\<lparr>content := overwrite (str (procs s ! i)) (content s)\<rparr>)"
  | q l where "s2 = put_proc i ((procs s ! i)\<lparr>control := q\<rparr>) (s\<lparr>lock := l\<rparr>)"
      "control (procs s ! i) = AtUnlock \<and> q = AtClose \<and> l = c_unlock ops i (offset (procs s ! i)) (lock s)
       \<or> control (procs s ! i) = AtClose \<and> q = AtExit \<and> l = c_close ops i (lock s)"
  using assms by (cases "control (procs s ! i)") (auto simp: count_step_def Let_def split: option.splits)

lemma step_ok:
  assumes inv: "count_inv ops held counts early n v s" and i: "i < n" and b: "v + n < top" and st: "count_step ops i s = Next s2"
  shows "count_inv ops held counts early n v s2 \<and> steps_made s2 = Suc (steps_made s)"
proof -
  have i': "i < length (procs s)" using i count_invD(1) [OF inv] by simp
  have more: "steps_made s2 = Suc (steps_made s)" if "procs s2 = (procs s)[i := p]" "made p = Suc (made (procs s ! i))" for p
    using sum_list_map_update [OF i', of made p] that by (simp add: steps_made_def)
  from st show ?thesis
  proof (cases rule: step_kinds)
    case 1
    have "count_inv ops held counts early n v s2"
      by (rule step_inside [OF inv i 1(1)]) (use 1(2) in \<open>simp_all add: inside_def has_written_def process_ok_def\<close>)
    then show ?thesis using 1 more [of "(procs s ! i)\<lparr>control := AtLock, offset := 0\<rparr>"] by (simp add: made_def)
  next
    case (2 l)
    then show ?thesis using step_lock [OF inv i 2(1,2)] more [of "(procs s ! i)\<lparr>control := AtRead\<rparr>"] by (simp add: made_def)
  next
    case (3 t q)
    have at: "offset (procs s ! i) = 0" using count_invD(4) [OF inv i] 3(1) by (simp add: process_ok_def)
    obtain t' q' where "c_load ops (content s) 0 = Some (t', q')" "t' \<noteq> []" by (rule load_ok [OF inv b i]) (use 3(1) in auto)
    then have "t \<noteq> []" using 3(2) at by simp
    then have "count_inv ops held counts early n v s2"
      by (intro step_inside [OF inv i 3(3)]) (use 3(1,2) at in \<open>simp_all add: inside_def has_written_def process_ok_def\<close>)
    then show ?thesis using 3 more [of "(procs s ! i)\<lparr>control := AtWrite, offset := q, str := t\<rparr>"] by (simp add: made_def)
  next
    case 4
    then show ?thesis using step_write [OF inv i 4(1) b] more [of "(procs s ! i)\<lparr>control := AtUnlock, offset := length (str (procs s ! i))\<rparr>"]
      by (simp add: made_def)
  next
    case (5 q l)
    have "made ((procs s ! i)\<lparr>control := q\<rparr>) = Suc (made (procs s ! i))" using 5(2) by (auto simp: made_def)
    then show ?thesis using step_leave [OF inv i 5(2)] more [of "(procs s ! i)\<lparr>control := q\<rparr>"] 5(1) by simp
  qed
qed

text \<open>Somebody can go on as long as not all are done: the holder of the lock, or if there is none, anybody.\<close>

lemma not_idle:
  assumes inv: "count_inv ops held counts early n v s" and b: "v + n < top" and i: "i < n" "control (procs s ! i) \<noteq> AtExit"
    and free: "control (procs s ! i) = AtLock \<longrightarrow> holders early s = {}"
  shows "\<exists>s2. count_step ops i s = Next s2"
proof (cases "control (procs s ! i) = AtLock")
  case True
  then have at: "offset (procs s ! i) = 0" using count_invD(4) [OF inv i(1)] by (simp add: process_ok_def)
  obtain l where "c_acquire ops i 0 (lock s) = Some l" using take [of "lock s" i] count_invD(2) [OF inv] free True i(1) by auto
  then show ?thesis using True at by (simp add: count_step_def Let_def)
next
  case False
  then show ?thesis using no_fault [OF inv b i(1)] i(2)
    by (cases "control (procs s ! i)") (auto simp: count_step_def Let_def split: option.splits)
qed

lemma progress:
  assumes inv: "count_inv ops held counts early n v s" and b: "v + n < top" and i: "i < n" "control (procs s ! i) \<noteq> AtExit"
  shows "\<exists>j < n. \<exists>s2. count_step ops j s = Next s2"
proof (cases "holders early s = {}")
  case True
  then show ?thesis using not_idle [OF inv b i] i(1) by blast
next
  case False
  then obtain j where j: "j \<in> holders early s" by blast
  then have "j < n" "control (procs s ! j) \<noteq> AtExit" "control (procs s ! j) \<noteq> AtLock"
    using count_invD(1) [OF inv] by (auto simp: holders_def inside_def)
  then show ?thesis using not_idle [OF inv b] by blast
qed

lemma runs_ok:
  assumes "count_runs ops k (count_start free f n) s" "counts v f" "v + n < top"
  shows "count_inv ops held counts early n v s \<and> steps_made s = k"
  using assms(1)
proof (induction k "count_start free f n" s rule: count_runs.induct)
  case CountNil
  have "steps_made (count_start free f n) = 0" by (simp add: steps_made_def made_def count_start_def sum_list_replicate)
  then show ?case using inv_start [OF assms(2)] by simp
next
  case (CountStep k s1 i s2)
  then have "i < n" using count_invD(1) by metis
  then show ?case using step_ok [OF _ _ assms(3)] CountStep by metis
qed

lemma made_bound: "made p \<le> 6" "made p = 6 \<longleftrightarrow> control p = AtExit"
  by (cases "control p"; simp add: made_def)+

lemma all_made: "sum_list (map made ps) \<le> 6 * length ps \<and> (sum_list (map made ps) = 6 * length ps \<longleftrightarrow> (\<forall>p \<in> set ps. control p = AtExit))"
proof (induction ps)
  case (Cons p ps)
  then show ?case using made_bound [of p] by auto
qed simp

lemma all_written: "\<forall>p \<in> set ps. control p = AtExit \<Longrightarrow> sum_list (map has_written ps) = length ps"
  by (induction ps) (simp_all add: has_written_def)

text \<open>Every run is over after six steps of each process, not before, and then the file has been counted up once by each.\<close>

lemma counts_all:
  assumes r: "count_runs ops k (count_start free f n) s" and c: "counts v f" "v + n < top"
  shows "k \<le> 6 * n \<and> (\<forall>i < n. count_step ops i s \<noteq> Faulty)
    \<and> (k < 6 * n \<longrightarrow> (\<exists>i < n. \<exists>s2. count_step ops i s = Next s2)) \<and> (k = 6 * n \<longrightarrow> counts (v + n) (content s))"
proof -
  have inv: "count_inv ops held counts early n v s" and k: "steps_made s = k" using runs_ok [OF r c] by simp_all
  have l: "length (procs s) = n" by (rule count_invD(1) [OF inv])
  have all: "k \<le> 6 * n" "k = 6 * n \<longleftrightarrow> (\<forall>p \<in> set (procs s). control p = AtExit)"
    using all_made [of "procs s"] k l by (simp_all add: steps_made_def)
  have "\<exists>i < n. \<exists>s2. count_step ops i s = Next s2" if "k < 6 * n"
  proof -
    have "\<not> (\<forall>p \<in> set (procs s). control p = AtExit)" using all(2) that by simp
    then obtain p where "p \<in> set (procs s)" "control p \<noteq> AtExit" by blast
    then obtain i where "i < n" "control (procs s ! i) \<noteq> AtExit" using l by (auto simp: in_set_conv_nth)
    then show ?thesis by (rule progress [OF inv c(2)])
  qed
  moreover have "counts (v + n) (content s)" if "k = 6 * n"
  proof -
    have "written s = n" unfolding written_def l [symmetric] using all(2) that by (intro all_written) simp
    then show ?thesis using count_invD(3) [OF inv] by simp
  qed
  ultimately show ?thesis using all(1) no_fault [OF inv c(2)] by simp
qed

lemma runs_exist: "counts v f \<Longrightarrow> v + n < top \<Longrightarrow> k \<le> 6 * n \<Longrightarrow> \<exists>s. count_runs ops k (count_start free f n) s"
proof (induction k)
  case (Suc k)
  then obtain s where s: "count_runs ops k (count_start free f n) s" by auto
  obtain i s2 where "i < n" "count_step ops i s = Next s2" using counts_all [OF s Suc.prems(1,2)] Suc.prems(3) by auto
  moreover have "length (procs s) = n" using runs_ok [OF s Suc.prems(1,2)] count_invD(1) by blast
  ultimately show ?case using CountStep [OF s] by auto
qed (blast intro: CountNil)

end

section \<open>The three locks\<close>

text \<open>The region of the holder begins at 0 and is not empty; nobody else has one.\<close>

definition lockf_held :: "regions \<Rightarrow> nat set \<Rightarrow> bool" where
  "lockf_held l H \<longleftrightarrow> (\<forall>i. if i \<in> H then \<exists>b. l i = Some (0, b) \<and> b \<noteq> Some 0 else l i = None)"

definition dec_text :: "nat \<Rightarrow> nat list \<Rightarrow> bool" where
  "dec_text v f \<longleftrightarrow> f = dec v"

lemma dec_overwrite: "overwrite (dec (v + 1)) (dec v) = dec (v + 1)"
  by (rule overwrite_dec) (simp add: length_dec_mono)

interpretation lockf: counter_lock "lockf_ops n" "\<lambda>_. None" n lockf_held False dec_text "10 ^ 9"
proof
  show "lockf_held (\<lambda>_. None) {}" by (simp add: lockf_held_def)
next
  fix l i assume h: "lockf_held l {}" and "i < n"
  have "l = (\<lambda>_. None)" using h by (simp add: lockf_held_def fun_eq_iff)
  then have "lockf_lock n i 0 l = Some (l(i := Some (0, None)))" by (simp add: lockf_lock_def overlaps_def list_ex_iff)
  moreover have "lockf_held (l(i := Some (0, None))) {i}" using h by (simp add: lockf_held_def)
  ultimately show "\<exists>l'. c_acquire (lockf_ops n) i 0 l = Some l' \<and> lockf_held l' {i}" by (simp add: lockf_ops_def)
next
  fix l i j assume h: "lockf_held l {j}" and j: "j < n" "j \<noteq> i"
  obtain b where "l j = Some (0, b)" "b \<noteq> Some 0" using h [unfolded lockf_held_def, rule_format, of j] by auto
  then have "overlaps 0 (l j)" by (cases b) (auto simp: overlaps_def)
  then show "c_acquire (lockf_ops n) i 0 l = None" using j by (auto simp: lockf_ops_def lockf_lock_def list_ex_iff)
next
  fix l i and at :: nat assume h: "lockf_held l {i}" and at: "0 < at"
  obtain b where "l i = Some (0, b)" "b \<noteq> Some 0" using h [unfolded lockf_held_def, rule_format, of i] by auto
  then show "lockf_held (c_unlock (lockf_ops n) i at l) (if False then {} else {i})"
    using h at by (cases b) (auto simp: lockf_ops_def lockf_unlock_def lockf_held_def min_def)
next
  fix l i assume "lockf_held l {i}"
  then show "lockf_held (c_close (lockf_ops n) i l) {}" by (auto simp: lockf_held_def lockf_ops_def split: if_splits)
next
  fix v f assume "dec_text v f" "v + 1 < 10 ^ 9"
  then show "\<exists>t q. c_load (lockf_ops n) f 0 = Some (t, q) \<and> t \<noteq> [] \<and> dec_text (v + 1) (overwrite t f)"
    using sysio_load_dec [of v] dec_overwrite [of v] by (simp add: lockf_ops_def dec_text_def)
qed simp

definition sem_held :: "nat \<Rightarrow> nat set \<Rightarrow> bool" where
  "sem_held x H \<longleftrightarrow> H = {} \<and> x = 1 \<or> H \<noteq> {} \<and> x = 0"

interpretation sem: counter_lock sem_ops 1 n sem_held True dec_text "10 ^ 9"
proof
  fix v f assume "dec_text v f" "v + 1 < 10 ^ 9"
  then show "\<exists>t q. c_load sem_ops f 0 = Some (t, q) \<and> t \<noteq> [] \<and> dec_text (v + 1) (overwrite t f)"
    using stdio_load_dec [of v] dec_overwrite [of v] by (simp add: sem_ops_def dec_text_def)
qed (auto simp: sem_ops_def sem_P_def sem_V_def sem_held_def)

definition mutex_held :: "nat option \<Rightarrow> nat set \<Rightarrow> bool" where
  "mutex_held m H \<longleftrightarrow> H = (case m of None \<Rightarrow> {} | Some i \<Rightarrow> {i})"

text \<open>The third version ends the number with a newline, but takes one without.\<close>

definition line_text :: "nat \<Rightarrow> nat list \<Rightarrow> bool" where
  "line_text v f \<longleftrightarrow> f = dec v \<or> f = dec v @ [10]"

interpretation mtx: counter_lock mutex_ops None n mutex_held True line_text 2147483647
proof
  fix v f assume a: "line_text v f" "v + 1 < 2147483647"
  have "length f \<le> length (dec (v + 1) @ [10])" using a(1) length_dec_mono [of v "v + 1"] by (auto simp: line_text_def)
  then show "\<exists>t q. c_load mutex_ops f 0 = Some (t, q) \<and> t \<noteq> [] \<and> line_text (v + 1) (overwrite t f)"
    using add_ok_load_dec [OF a(2), of f] a(1) by (simp add: mutex_ops_def line_text_def overwrite_dec)
qed (auto simp: mutex_ops_def mutex_lock_def mutex_unlock_def mutex_held_def split: option.splits)

section \<open>Properties\<close>



end
