(* ===== verification/DArr.thy ===== *)
theory DArr
  imports FileCounter "HOL-Library.List_Lexorder"
begin

text \<open>
  The sorted dynamic array \<open>1.zhang/3.datastruct/darr/lib4\<close>: the library \<open>seqlist.c\<close>, generic in the elements and in the
  comparison, and its client \<open>main.c\<close> with students.  An element is a value, a comparison gives \<open>None\<close> where it is undefined;
  \<open>sprint_d\<close> is the \<open>%d\<close> of \<open>FileCounter\<close>.  The argument \<open>mem\<close> says whether \<open>malloc\<close> or \<open>realloc\<close> returns a block.
\<close>

section \<open>The library\<close>

text \<open>A cell of the array that has not been written is \<open>None\<close>; the array may be null.\<close>

datatype darr_status = OK | FAIL

record 'a darr =
  darr_arr :: "'a option list option"
  darr_size :: int
  darr_num :: int
  darr_cmp :: "('a \<Rightarrow> 'a \<Rightarrow> int option) option"

definition init_darr :: "bool \<Rightarrow> int \<Rightarrow> ('a \<Rightarrow> 'a \<Rightarrow> int option) option \<Rightarrow> 'a darr option" where
  "init_darr mem bytes cmp =
     (if mem then Some \<lparr>darr_arr = None, darr_size = bytes, darr_num = 0, darr_cmp = cmp\<rparr> else None)"

text \<open>The element at \<open>ptr->arr + i * ptr->size\<close>.\<close>

definition darr_elem :: "'a darr \<Rightarrow> int \<Rightarrow> 'a option" where
  "darr_elem p i = do { a \<leftarrow> darr_arr p; _ \<leftarrow> chk (i * darr_size p); c \<leftarrow> rdi a i; c }"

definition call_cmp :: "'a darr \<Rightarrow> 'a \<Rightarrow> 'a \<Rightarrow> int option" where
  "call_cmp p x y = do { f \<leftarrow> darr_cmp p; f x y }"

text \<open>\<open>mid\<close> is not initialised.\<close>

function bsearch_near_loop :: "'a darr \<Rightarrow> 'a \<Rightarrow> int \<Rightarrow> int \<Rightarrow> int option \<Rightarrow> int option" where
  "bsearch_near_loop p x start stop mid =
     (if start \<le> stop then do {
        sum \<leftarrow> chk (start + stop);
        let m = sum div 2;
        y \<leftarrow> darr_elem p m;
        ret \<leftarrow> call_cmp p x y;
        if ret = 0 then Some m
        else if ret > 0 then bsearch_near_loop p x (m + 1) stop (Some m)
        else bsearch_near_loop p x start (m - 1) (Some m) }
      else mid)"
  by pat_completeness auto
termination by (relation "measure (\<lambda>(p, x, start, stop, mid). nat (stop + 1 - start))") (auto simp: chk_Some_iff)

declare bsearch_near_loop.simps [simp del]

definition bsearch_near :: "'a darr \<Rightarrow> 'a \<Rightarrow> int option" where
  "bsearch_near p x = bsearch_near_loop p x 0 (darr_num p - 1) None"

definition realloc_cells :: "bool \<Rightarrow> int \<Rightarrow> 'a option list option \<Rightarrow> 'a option list option" where
  "realloc_cells mem n a =
     (if mem then Some (take (nat n) (case a of None \<Rightarrow> [] | Some cs \<Rightarrow> cs) @
        replicate (nat n - length (case a of None \<Rightarrow> [] | Some cs \<Rightarrow> cs)) None) else None)"

definition memmove_cells :: "'a list \<Rightarrow> int \<Rightarrow> int \<Rightarrow> int \<Rightarrow> 'a list option" where
  "memmove_cells a d s n =
     (if 0 \<le> d \<and> 0 \<le> s \<and> 0 \<le> n \<and> d + n \<le> int (length a) \<and> s + n \<le> int (length a)
      then Some (take (nat d) a @ take (nat n) (drop (nat s) a) @ drop (nat (d + n)) a) else None)"

definition insert_index :: "'a darr \<Rightarrow> 'a \<Rightarrow> int option" where
  "insert_index p x =
     (if darr_num p = 0 \<or> Option.is_none (darr_cmp p) then Some 0
      else do {
        ind \<leftarrow> bsearch_near p x;
        y \<leftarrow> darr_elem p ind;
        r \<leftarrow> call_cmp p x y;
        if r > 0 then chk (ind + 1) else Some ind })"

definition insert_darr_sort :: "bool \<Rightarrow> 'a \<Rightarrow> 'a darr \<Rightarrow> (darr_status \<times> 'a darr) option" where
  "insert_darr_sort mem x p = do {
     n1 \<leftarrow> chk (darr_num p + 1);
     _ \<leftarrow> chk (n1 * darr_size p);
     let p1 = p\<lparr>darr_arr := realloc_cells mem n1 (darr_arr p)\<rparr>;
     case darr_arr p1 of
       None \<Rightarrow> Some (FAIL, p1)
     | Some a \<Rightarrow> do {
         ind \<leftarrow> insert_index p1 x;
         _ \<leftarrow> chk ((ind + 1) * darr_size p);
         b \<leftarrow> memmove_cells a (ind + 1) ind (darr_num p - ind);
         c \<leftarrow> wri b ind (Some x);
         Some (OK, p1\<lparr>darr_arr := Some c, darr_num := n1\<rparr>) } }"

text \<open>The loop of \<open>delete_darr\<close> and \<open>search_darr\<close>: the first index where the comparison gives 0, or \<open>num\<close>.\<close>

function first_match :: "('k \<Rightarrow> 'a \<Rightarrow> int option) \<Rightarrow> 'k \<Rightarrow> 'a darr \<Rightarrow> int \<Rightarrow> int option" where
  "first_match cmp k p i =
     (if i < darr_num p then do {
        y \<leftarrow> darr_elem p i;
        r \<leftarrow> cmp k y;
        if r = 0 then Some i else first_match cmp k p (i + 1) }
      else Some i)"
  by pat_completeness auto
termination by (relation "measure (\<lambda>(cmp, k, p, i). nat (darr_num p - i))") auto

declare first_match.simps [simp del]

definition delete_darr :: "bool \<Rightarrow> ('k \<Rightarrow> 'a \<Rightarrow> int option) \<Rightarrow> 'k \<Rightarrow> 'a darr \<Rightarrow> (darr_status \<times> 'a darr) option" where
  "delete_darr mem cmp k p = do {
     i \<leftarrow> first_match cmp k p 0;
     if i = darr_num p then Some (FAIL, p)
     else do {
       a \<leftarrow> darr_arr p;
       _ \<leftarrow> chk ((i + 1) * darr_size p);
       b \<leftarrow> memmove_cells a i (i + 1) (darr_num p - (i + 1));
       let n1 = darr_num p - 1;
       let p1 = p\<lparr>darr_num := n1, darr_arr := realloc_cells mem n1 (Some b)\<rparr>;
       Some (if darr_arr p1 = None then FAIL else OK, p1) } }"

text \<open>\<open>data\<close> is the object that the element is copied to.\<close>

definition search_darr :: "('k \<Rightarrow> 'a \<Rightarrow> int option) \<Rightarrow> 'k \<Rightarrow> 'a \<Rightarrow> 'a darr \<Rightarrow> (darr_status \<times> 'a) option" where
  "search_darr cmp k data p = do {
     i \<leftarrow> first_match cmp k p 0;
     if i < darr_num p then do { y \<leftarrow> darr_elem p i; Some (OK, y) } else Some (FAIL, data) }"

text \<open>\<open>qsort\<close> is given, as what it makes of a list of elements.\<close>

fun all_set :: "'a option list \<Rightarrow> 'a list option" where
  "all_set [] = Some []"
| "all_set (c # cs) = do { x \<leftarrow> c; xs \<leftarrow> all_set cs; Some (x # xs) }"

definition set_sort ::
  "(('a \<Rightarrow> 'a \<Rightarrow> int option) \<Rightarrow> 'a list \<Rightarrow> 'a list option) \<Rightarrow> ('a \<Rightarrow> 'a \<Rightarrow> int option) \<Rightarrow> 'a darr \<Rightarrow> (darr_status \<times> 'a darr) option" where
  "set_sort qsort cmp p = do {
     a \<leftarrow> darr_arr p;
     if int (length a) < darr_num p then None
     else do {
       xs \<leftarrow> all_set (take (nat (darr_num p)) a);
       ys \<leftarrow> qsort cmp xs;
       Some (OK, p\<lparr>darr_arr := Some (map Some ys @ drop (nat (darr_num p)) a)\<rparr>) } }"

text \<open>The elements that \<open>traval_darr\<close> hands to its operation.\<close>

function darr_traval_loop :: "'a darr \<Rightarrow> int \<Rightarrow> 'a list option" where
  "darr_traval_loop p i =
     (if i < darr_num p then do { y \<leftarrow> darr_elem p i; ys \<leftarrow> darr_traval_loop p (i + 1); Some (y # ys) } else Some [])"
  by pat_completeness auto
termination by (relation "measure (\<lambda>(p, i). nat (darr_num p - i))") auto

declare darr_traval_loop.simps [simp del]

definition traval_darr :: "'a darr \<Rightarrow> 'a list option" where
  "traval_darr p = darr_traval_loop p 0"

text \<open>\<open>destroy_darr\<close> frees the array and the object: afterwards there is none.\<close>

definition destroy_darr :: "'a darr option \<Rightarrow> 'a darr option option" where
  "destroy_darr h = (case h of None \<Rightarrow> None | Some p \<Rightarrow> Some None)"

section \<open>The client\<close>

record stu_st =
  stu_id :: int
  stu_name :: "nat list"
  stu_score :: int

definition NAMESIZE :: nat where "NAMESIZE = 32"

text \<open>\<open>id_cmp\<close> reads an \<open>int\<close> at the key, which for \<open>insert_darr_sort\<close> is the first member of a student.\<close>

definition id_cmp :: "int \<Rightarrow> stu_st \<Rightarrow> int option" where
  "id_cmp k d = chk (k - stu_id d)"

definition id_cmp_stu :: "stu_st \<Rightarrow> stu_st \<Rightarrow> int option" where
  "id_cmp_stu x d = id_cmp (stu_id x) d"

fun strcmp :: "nat list \<Rightarrow> nat list \<Rightarrow> int" where
  "strcmp [] [] = 0"
| "strcmp [] (c # cs) = - 1"
| "strcmp (c # cs) [] = 1"
| "strcmp (c # cs) (d # ds) = (if c < d then - 1 else if d < c then 1 else strcmp cs ds)"

definition name_cmp :: "nat list \<Rightarrow> stu_st \<Rightarrow> int option" where
  "name_cmp k d = Some (strcmp k (stu_name d))"

text \<open>\<open>main\<close>: the students with the identifiers are inserted, whatever the insertion returns, and then printed.\<close>

definition main_stu :: "nat \<Rightarrow> int \<Rightarrow> stu_st option" where
  "main_stu i k = do {
     score \<leftarrow> chk (100 - k);
     Some \<lparr>stu_id = k, stu_name = take (NAMESIZE - 1) ((97 + i) # [101, 110, 100, 97, 110] @ sprint_d k), stu_score = score\<rparr> }"

fun main_loop :: "(nat \<Rightarrow> bool) \<Rightarrow> nat \<Rightarrow> int list \<Rightarrow> stu_st darr \<Rightarrow> stu_st darr option" where
  "main_loop mem i [] p = Some p"
| "main_loop mem i (k # ks) p = do {
     x \<leftarrow> main_stu i k;
     (_, p1) \<leftarrow> insert_darr_sort (mem i) x p;
     main_loop mem (Suc i) ks p1 }"

definition stu_size :: int where "stu_size = 40"

text \<open>The exit code and what is printed; the program's \<open>ids\<close> are \<open>main_ids\<close>.\<close>

definition darr_main :: "bool \<Rightarrow> (nat \<Rightarrow> bool) \<Rightarrow> int list \<Rightarrow> (int \<times> stu_st list) option" where
  "darr_main mem mems ids = (case init_darr mem stu_size (Some id_cmp_stu) of
     None \<Rightarrow> Some (1, [])
   | Some p \<Rightarrow> do { p1 \<leftarrow> main_loop mems 0 ids p; out \<leftarrow> traval_darr p1; _ \<leftarrow> destroy_darr (Some p1); Some (0, out) })"

definition main_ids :: "int list" where "main_ids = [3, 2, 1, 8, 9, 7]"

section \<open>What the array holds\<close>

text \<open>An empty array may be null or a block without cells.\<close>

definition darr_holds :: "'a darr \<Rightarrow> 'a list \<Rightarrow> bool" where
  "darr_holds p xs \<longleftrightarrow> darr_num p = int (length xs) \<and> 0 < darr_size p \<and> int (length xs) * darr_size p \<le> 2147483647 \<and>
     (darr_arr p = Some (map Some xs) \<or> xs = [] \<and> darr_arr p = None)"

lemma darr_holdsD:
  assumes "darr_holds p xs"
  shows "darr_num p = int (length xs)" "0 < darr_size p" "int (length xs) * darr_size p \<le> 2147483647" "int (length xs) \<le> 2147483647"
    and "xs \<noteq> [] \<Longrightarrow> darr_arr p = Some (map Some xs)"
proof -
  show num: "darr_num p = int (length xs)" "0 < darr_size p" "int (length xs) * darr_size p \<le> 2147483647"
    using assms by (auto simp: darr_holds_def)
  have "int (length xs) * 1 \<le> int (length xs) * darr_size p" using num(2) by (intro mult_left_mono) auto
  then show "int (length xs) \<le> 2147483647" using num(3) by simp
  show "xs \<noteq> [] \<Longrightarrow> darr_arr p = Some (map Some xs)" using assms by (auto simp: darr_holds_def)
qed

lemma chk_offset:
  assumes "0 \<le> i" "i \<le> int n" "0 < w" "int n * w \<le> 2147483647"
  shows "chk (i * w) = Some (i * w)"
proof -
  have "i * w \<le> int n * w" using assms by (intro mult_right_mono) auto
  moreover have "0 \<le> i * w" using assms by simp
  ultimately show ?thesis using assms(4) by (simp add: chk_def int_range_def)
qed

lemma chk_small: "0 \<le> i \<Longrightarrow> i \<le> 2147483647 \<Longrightarrow> chk i = Some i"
  by (simp add: chk_def int_range_def)

text \<open>During an insertion the array has one cell more than elements.\<close>

lemma darr_elem_cells:
  assumes "darr_arr p = Some (map Some xs @ cs)" "i < length xs" "0 < darr_size p" "int (length xs) * darr_size p \<le> 2147483647"
  shows "darr_elem p (int i) = Some (xs ! i)"
  using assms chk_offset [of "int i" "length xs" "darr_size p"] by (simp add: darr_elem_def nth_append)

lemma darr_elem_holds: "darr_holds p xs \<Longrightarrow> i < length xs \<Longrightarrow> darr_elem p (int i) = Some (xs ! i)"
  using darr_elem_cells [of p xs "[]" i] darr_holdsD [of p xs] by (cases xs) auto

lemma memmove_up:
  "i \<le> length xs \<Longrightarrow>
   memmove_cells (map Some xs @ [c]) (int i + 1) (int i) (int (length xs) - int i) =
     Some (take (Suc i) (map Some xs @ [c]) @ map Some (drop i xs))"
  by (simp add: memmove_cells_def nat_diff_distrib nat_add_distrib drop_map Suc_nat_eq_nat_zadd1)

lemma memmove_down:
  "i < length xs \<Longrightarrow>
   memmove_cells (map Some xs) (int i) (int i + 1) (int (length xs) - (int i + 1)) =
     Some (map Some (take i xs @ drop (Suc i) xs) @ [Some (last xs)])"
  by (cases xs rule: rev_cases) (auto simp: memmove_cells_def nat_diff_distrib nat_add_distrib drop_map take_map Suc_nat_eq_nat_zadd1 drop_Cons split: nat.split)

lemma darr_traval_loop_holds: "darr_holds p xs \<Longrightarrow> i \<le> length xs \<Longrightarrow> darr_traval_loop p (int i) = Some (drop i xs)"
proof (induction "length xs - i" arbitrary: i)
  case 0
  then show ?case by (subst darr_traval_loop.simps) (simp add: darr_holdsD(1))
next
  case (Suc k)
  then have i: "i < length xs" by simp
  have "darr_traval_loop p (int i + 1) = Some (drop (Suc i) xs)" using Suc(1) [of "Suc i"] Suc(2-) by (simp add: add.commute)
  then show ?case using darr_elem_holds [OF Suc.prems(1) i] i Suc.prems(1)
    by (subst darr_traval_loop.simps) (simp add: darr_holdsD(1) Cons_nth_drop_Suc)
qed

lemma traval_holds: "darr_holds p xs \<Longrightarrow> traval_darr p = Some xs"
  using darr_traval_loop_holds [of p xs 0] by (simp add: traval_darr_def)

section \<open>Comparisons\<close>

text \<open>A comparison of a key with an element: it is defined where both are \<open>ok\<close>, and has the sign of the difference of
  their places in a linear order.\<close>

locale key_comparison =
  fixes cmp :: "'b \<Rightarrow> 'a \<Rightarrow> int option"
    and place :: "'b \<Rightarrow> 'k::linorder"
    and key :: "'a \<Rightarrow> 'k"
    and fine :: "'b \<Rightarrow> bool"
    and ok :: "'a \<Rightarrow> bool"
  assumes compares: "fine b \<Longrightarrow> ok x \<Longrightarrow> \<exists>c. cmp b x = Some c \<and> (0 < c \<longleftrightarrow> key x < place b) \<and> (c = 0 \<longleftrightarrow> key x = place b)"
begin

abbreviation other :: "'b \<Rightarrow> 'a \<Rightarrow> bool" where
  "other b y \<equiv> key y \<noteq> place b"

lemma first_match_holds:
  assumes "darr_holds p xs" "\<forall>y \<in> set xs. ok y" "fine b"
  shows "i \<le> length xs \<Longrightarrow> first_match cmp b p (int i) = Some (int (i + length (takeWhile (other b) (drop i xs))))"
proof (induction "length xs - i" arbitrary: i)
  case 0
  then show ?case using assms(1) by (subst first_match.simps) (simp add: darr_holdsD(1))
next
  case (Suc k)
  then have i: "i < length xs" by simp
  have next': "first_match cmp b p (int i + 1) = Some (int (Suc i + length (takeWhile (other b) (drop (Suc i) xs))))"
    using Suc(1) [of "Suc i"] Suc(2-) by (simp add: add.commute)
  obtain c where c: "cmp b (xs ! i) = Some c" "c = 0 \<longleftrightarrow> key (xs ! i) = place b"
    using compares [OF assms(3), of "xs ! i"] assms(2) i by auto
  have "drop i xs = xs ! i # drop (Suc i) xs" using i by (simp add: Cons_nth_drop_Suc)
  then show ?case using darr_elem_holds [OF assms(1) i] i assms(1) c next'
    by (subst first_match.simps) (simp add: darr_holdsD(1))
qed

lemma search_holds:
  assumes "darr_holds p xs" "\<forall>y \<in> set xs. ok y" "fine b"
  shows "search_darr cmp b d p = Some (case find (\<lambda>y. key y = place b) xs of None \<Rightarrow> (FAIL, d) | Some y \<Rightarrow> (OK, y))"
proof -
  define j where "j = length (takeWhile (other b) xs)"
  have f: "first_match cmp b p 0 = Some (int j)" using first_match_holds [OF assms, of 0] by (simp add: j_def)
  show ?thesis
  proof (cases "j < length xs")
    case True
    have "key (xs ! j) = place b" using nth_length_takeWhile [of "other b" xs] True by (simp add: j_def)
    moreover have "\<forall>l < j. key (xs ! l) \<noteq> place b"
      using set_takeWhileD [of _ "other b" xs] nth_mem [of _ "takeWhile (other b) xs"] takeWhile_nth [of _ "other b" xs]
      unfolding j_def by metis
    ultimately have "find (\<lambda>y. key y = place b) xs = Some (xs ! j)" using True by (auto simp: find_Some_iff)
    then show ?thesis using f True darr_elem_holds [OF assms(1) True] assms(1) by (simp add: search_darr_def darr_holdsD(1))
  next
    case False
    then have "takeWhile (other b) xs = xs" by (metis j_def length_takeWhile_le linorder_not_less takeWhile_eq_take take_all)
    then have "find (\<lambda>y. key y = place b) xs = None" by (auto simp: find_None_iff takeWhile_eq_all_conv)
    then show ?thesis using f False assms(1) by (simp add: search_darr_def darr_holdsD(1))
  qed
qed

text \<open>Deleting removes the first match; it reports a failure when nothing matches, and also when \<open>realloc\<close> returns null.\<close>

lemma delete_holds:
  assumes "darr_holds p xs" "\<forall>y \<in> set xs. ok y" "fine b" "mem \<or> length xs = 1"
  shows "\<exists>q. darr_holds q (takeWhile (other b) xs @ drop 1 (dropWhile (other b) xs)) \<and> darr_cmp q = darr_cmp p \<and> darr_size q = darr_size p \<and>
    delete_darr mem cmp b p = Some (if (\<exists>y \<in> set xs. key y = place b) \<and> mem then OK else FAIL, q)"
proof -
  define j where "j = length (takeWhile (other b) xs)"
  have f: "first_match cmp b p 0 = Some (int j)" using first_match_holds [OF assms(1-3), of 0] by (simp add: j_def)
  note h = darr_holdsD [OF assms(1)]
  show ?thesis
  proof (cases "j < length xs")
    case True
    then have ne: "xs \<noteq> []" by auto
    have "key (xs ! j) = place b" using nth_length_takeWhile [of "other b" xs] True by (simp add: j_def)
    then have ex: "\<exists>y \<in> set xs. key y = place b" using True by (meson nth_mem)
    have ys: "takeWhile (other b) xs @ drop 1 (dropWhile (other b) xs) = take j xs @ drop (Suc j) xs"
      unfolding j_def by (subst dropWhile_eq_drop) (simp flip: takeWhile_eq_take)
    have off: "chk ((int j + 1) * darr_size p) = Some ((int j + 1) * darr_size p)"
      by (rule chk_offset [of _ "length xs"]) (use True h in auto)
    define q where "q = p\<lparr>darr_num := int (length xs) - 1, darr_arr := realloc_cells mem (int (length xs) - 1)
      (Some (map Some (take j xs @ drop (Suc j) xs) @ [Some (last xs)]))\<rparr>"
    have arr: "darr_arr q = (if mem then Some (map Some (take j xs @ drop (Suc j) xs)) else None)"
      using True by (simp add: q_def realloc_cells_def nat_diff_distrib)
    have "(int (length xs) - 1) * darr_size p \<le> 2147483647" using h(2,3) by (simp add: algebra_simps)
    moreover have "\<not> mem \<Longrightarrow> take j xs @ drop (Suc j) xs = []" using assms(4) True by (cases xs) auto
    ultimately have "darr_holds q (take j xs @ drop (Suc j) xs)"
      using True h(1,2) arr by (auto simp: darr_holds_def q_def of_nat_diff)
    moreover have "delete_darr mem cmp b p = Some (if mem then OK else FAIL, q)"
      using f True h(1) h(5) [OF ne] off memmove_down [OF True] arr by (simp add: delete_darr_def q_def Let_def)
    ultimately show ?thesis using ex unfolding ys by (auto simp: q_def)
  next
    case False
    then have all: "takeWhile (other b) xs = xs" by (metis j_def length_takeWhile_le linorder_not_less takeWhile_eq_take take_all)
    then have "\<forall>y \<in> set xs. key y \<noteq> place b" by (simp add: takeWhile_eq_all_conv)
    moreover have "j = length xs" by (simp only: j_def all)
    moreover have "delete_darr mem cmp b p = Some (FAIL, p)" using f h(1) calculation(2) by (simp add: delete_darr_def)
    moreover have none: "dropWhile (other b) xs = []" using calculation(1) by (simp add: dropWhile_eq_Nil_conv)
    have "takeWhile (other b) xs @ drop 1 (dropWhile (other b) xs) = xs" by (simp only: all none drop_Nil append_Nil2)
    ultimately show ?thesis using assms(1) by auto
  qed
qed

end

text \<open>The comparison that the array is sorted by compares elements.\<close>

locale key_order = key_comparison cmp key key ok ok
  for cmp :: "'a \<Rightarrow> 'a \<Rightarrow> int option" and key :: "'a \<Rightarrow> 'k::linorder" and ok :: "'a \<Rightarrow> bool"
begin

definition reads_like :: "'a darr \<Rightarrow> 'a list \<Rightarrow> bool" where
  "reads_like p xs \<longleftrightarrow> (\<forall>i < length xs. darr_elem p (int i) = Some (xs ! i)) \<and> darr_cmp p = Some cmp
     \<and> sorted (map key xs) \<and> (\<forall>y \<in> set xs. ok y) \<and> 2 * int (length xs) \<le> 2147483647"

lemma sorted_at: "reads_like p xs \<Longrightarrow> i \<le> j \<Longrightarrow> j < length xs \<Longrightarrow> key (xs ! i) \<le> key (xs ! j)"
  using sorted_nth_mono [of "map key xs" i j] by (simp add: reads_like_def)

text \<open>The search ends next to the place of the element.\<close>

lemma bsearch_near_loop_ok:
  assumes "reads_like p xs" "ok x"
  shows "s \<le> e \<Longrightarrow> e \<le> length xs \<Longrightarrow> \<forall>i < s. key (xs ! i) < key x \<Longrightarrow> \<forall>i. e \<le> i \<and> i < length xs \<longrightarrow> key x < key (xs ! i) \<Longrightarrow>
     s = e \<longrightarrow> (\<exists>m. mid = Some (int m) \<and> m < length xs \<and> (Suc m = s \<or> m = e)) \<Longrightarrow>
     \<exists>m < length xs. bsearch_near_loop p x (int s) (int e - 1) mid = Some (int m) \<and>
       (\<forall>i < m. key (xs ! i) \<le> key x) \<and> (\<forall>i. m < i \<and> i < length xs \<longrightarrow> key x \<le> key (xs ! i))"
proof (induction "e - s" arbitrary: s e mid rule: less_induct)
  case less
  show ?case
  proof (cases "s = e")
    case True
    then obtain m where m: "mid = Some (int m)" "m < length xs" "Suc m = s \<or> m = e" using less.prems(5) by auto
    have "key (xs ! i) \<le> key x" if "i < m" for i using less.prems(3) m(3) True that by (auto intro: less_imp_le)
    moreover have "key x \<le> key (xs ! i)" if "m < i" "i < length xs" for i
      using less.prems(4) m(3) True that by (auto intro!: less_imp_le)
    ultimately show ?thesis using True m by (subst bsearch_near_loop.simps) auto
  next
    case False
    define m where "m = (s + e - 1) div 2"
    have m: "s \<le> m" "m < e" "m < length xs" using False less.prems(1,2) by (auto simp: m_def)
    have "int s + (int e - 1) = int (s + e - 1)" using False less.prems(1) by (simp add: of_nat_diff)
    then have half: "(int s + (int e - 1)) div 2 = int m" by (simp add: m_def zdiv_int)
    have sum: "chk (int s + (int e - 1)) = Some (int s + (int e - 1))"
      by (rule chk_small) (use False less.prems(1,2) assms(1) in \<open>auto simp: reads_like_def\<close>)
    have elem: "darr_elem p (int m) = Some (xs ! m)" and ok_m: "ok (xs ! m)" and cmp: "darr_cmp p = Some cmp"
      using assms(1) m(3) by (auto simp: reads_like_def)
    obtain c where c: "cmp x (xs ! m) = Some c" "0 < c \<longleftrightarrow> key (xs ! m) < key x" "c = 0 \<longleftrightarrow> key (xs ! m) = key x"
      using compares [OF assms(2) ok_m] by blast
    note step = bsearch_near_loop.simps [of p x "int s" "int e - 1" mid, unfolded sum bind.bind_lunit half Let_def elem call_cmp_def cmp c(1)]
    consider (eq) "c = 0" | (gt) "c > 0" | (lt) "c < 0" by linarith
    then show ?thesis
    proof cases
      case eq
      then have k: "key (xs ! m) = key x" using c(3) by simp
      have "key (xs ! i) \<le> key x" if "i < m" for i using sorted_at [OF assms(1), of i m] that m(3) k by simp
      moreover have "key x \<le> key (xs ! i)" if "m < i" "i < length xs" for i using sorted_at [OF assms(1), of m i] that k by simp
      ultimately show ?thesis using False less.prems(1) eq m(3) by (intro exI [of _ m]) (simp add: step)
    next
      case gt
      have "key (xs ! i) < key x" if "i < Suc m" for i
        using sorted_at [OF assms(1), of i m] c(2) gt m(3) that by (simp add: le_less_trans)
      then have "\<exists>m' < length xs. bsearch_near_loop p x (int (Suc m)) (int e - 1) (Some (int m)) = Some (int m') \<and>
          (\<forall>i < m'. key (xs ! i) \<le> key x) \<and> (\<forall>i. m' < i \<and> i < length xs \<longrightarrow> key x \<le> key (xs ! i))"
        by (intro less.hyps) (use m less.prems(2,4) in auto)
      then show ?thesis using False less.prems(1) gt by (simp add: step add.commute)
    next
      case lt
      have "key x < key (xs ! m)" using c lt by (metis linorder_neqE linorder_not_less order_less_imp_le)
      then have "key x < key (xs ! i)" if "m \<le> i" "i < length xs" for i
        using sorted_at [OF assms(1) that] by simp
      then have "\<exists>m' < length xs. bsearch_near_loop p x (int s) (int m - 1) (Some (int m)) = Some (int m') \<and>
          (\<forall>i < m'. key (xs ! i) \<le> key x) \<and> (\<forall>i. m' < i \<and> i < length xs \<longrightarrow> key x \<le> key (xs ! i))"
        by (intro less.hyps) (use m less.prems(3) in auto)
      then show ?thesis using False less.prems(1) lt by (simp add: step)
    qed
  qed
qed

text \<open>The index for an element: it splits the array in what is not larger and what is not smaller.\<close>

lemma insert_index_ok:
  assumes "reads_like p xs" "ok x" "darr_num p = int (length xs)"
  shows "\<exists>i \<le> length xs. insert_index p x = Some (int i) \<and> (\<forall>y \<in> set (take i xs). key y \<le> key x) \<and> (\<forall>y \<in> set (drop i xs). key x \<le> key y)"
proof (cases "xs = []")
  case True
  then show ?thesis using assms(3) by (simp add: insert_index_def)
next
  case False
  have "\<exists>m < length xs. bsearch_near_loop p x (int 0) (int (length xs) - 1) None = Some (int m) \<and>
       (\<forall>i < m. key (xs ! i) \<le> key x) \<and> (\<forall>i. m < i \<and> i < length xs \<longrightarrow> key x \<le> key (xs ! i))"
    by (rule bsearch_near_loop_ok [OF assms(1,2)]) (use False in auto)
  then obtain m where m: "m < length xs" "bsearch_near p x = Some (int m)"
      "\<forall>i < m. key (xs ! i) \<le> key x" "\<forall>i. m < i \<and> i < length xs \<longrightarrow> key x \<le> key (xs ! i)"
    using assms(3) by (auto simp: bsearch_near_def)
  have elem: "darr_elem p (int m) = Some (xs ! m)" and ok_m: "ok (xs ! m)" and cmp: "darr_cmp p = Some cmp"
    and short: "2 * int (length xs) \<le> 2147483647" using assms(1) m(1) by (auto simp: reads_like_def)
  obtain c where c: "cmp x (xs ! m) = Some c" "0 < c \<longleftrightarrow> key (xs ! m) < key x" using compares [OF assms(2) ok_m] by blast
  define i where "i = (if c > 0 then Suc m else m)"
  have i: "i \<le> length xs" using m(1) by (simp add: i_def)
  have "chk (int m + 1) = Some (int m + 1)" by (rule chk_small) (use m(1) short in auto)
  then have "insert_index p x = Some (int i)" using False assms(3) m(2) elem cmp c(1) by (simp add: insert_index_def call_cmp_def i_def)
  moreover have "key (xs ! j) \<le> key x" if "j < i" for j using m(3) c(2) that by (auto simp: i_def less_Suc_eq split: if_splits)
  moreover have "key x \<le> key (xs ! j)" if "i \<le> j" "j < length xs" for j
    using m(4) c(2) that by (cases "m = j") (auto simp: i_def split: if_splits)
  ultimately show ?thesis using i by (intro exI [of _ i]) (auto simp: in_set_conv_nth)
qed

lemma insert_holds:
  assumes "darr_holds p xs" "darr_cmp p = Some cmp" "sorted (map key xs)" "\<forall>y \<in> set xs. ok y" "ok x"
    and "int (length xs + 1) * darr_size p \<le> 2147483647" "2 * int (length xs) \<le> 2147483647"
  shows "\<exists>q ys zs. insert_darr_sort True x p = Some (OK, q) \<and> xs = ys @ zs \<and> darr_holds q (ys @ x # zs)
    \<and> sorted (map key (ys @ x # zs)) \<and> darr_cmp q = Some cmp \<and> darr_size q = darr_size p"
proof -
  note h = darr_holdsD [OF assms(1)]
  define p1 where "p1 = p\<lparr>darr_arr := Some (map Some xs @ [None])\<rparr>"
  have cells: "realloc_cells True (int (length xs) + 1) (darr_arr p) = Some (map Some xs @ [None])"
    using assms(1) by (auto simp: darr_holds_def realloc_cells_def nat_add_distrib)
  have "reads_like p1 xs" using assms(2-4,7) h(2,3) darr_elem_cells [of p1 xs "[None]"] by (simp add: reads_like_def p1_def)
  then obtain i where i: "i \<le> length xs" "insert_index p1 x = Some (int i)"
      "\<forall>y \<in> set (take i xs). key y \<le> key x" "\<forall>y \<in> set (drop i xs). key x \<le> key y"
    using insert_index_ok [of p1 xs x] assms(5) h(1) by (auto simp: p1_def)
  define b where "b = take (Suc i) (map Some xs @ [None]) @ map Some (drop i xs)"
  have b: "wri b (int i) (Some x) = Some (map Some (take i xs @ x # drop i xs))"
    using i(1) by (simp add: b_def list_update_append take_map take_Suc_conv_app_nth) 
  have num: "chk (int (length xs) + 1) = Some (int (length xs) + 1)" by (rule chk_small) (use assms(7) in auto)
  have off: "chk (k * darr_size p) = Some (k * darr_size p)" if "0 \<le> k" "k \<le> int (length xs + 1)" for k
    by (rule chk_offset [OF that h(2) assms(6)])
  have halves: "sorted (map key (take i xs))" "sorted (map key (drop i xs))"
    using assms(3) by (simp_all add: sorted_wrt_take sorted_wrt_drop flip: take_map drop_map)
  let ?q = "p1\<lparr>darr_arr := Some (map Some (take i xs @ x # drop i xs)), darr_num := int (length xs) + 1\<rparr>"
  have "insert_darr_sort True x p = Some (OK, ?q)"
    using num off [of "int (length xs) + 1"] off [of "int i + 1"] h(1) cells i(1,2) memmove_up [OF i(1)] b
    by (simp add: insert_darr_sort_def p1_def b_def)
  moreover have "darr_holds ?q (take i xs @ x # drop i xs)"
    using assms(6) h(2) i(1) by (simp add: darr_holds_def p1_def algebra_simps)
  moreover have "sorted (map key (take i xs @ x # drop i xs))"
    using i(3,4) halves by (auto simp: sorted_append intro: order_trans)
  ultimately show ?thesis using assms(2) by (intro exI [of _ ?q] exI [of _ "take i xs"] exI [of _ "drop i xs"]) (simp add: p1_def)
qed

end

section \<open>The client's comparisons\<close>

text \<open>Identifiers whose differences are no overflow.\<close>

definition small_id :: "int \<Rightarrow> bool" where
  "small_id k \<longleftrightarrow> - 1073741824 \<le> k \<and> k < 1073741824"

lemma chk_diff: "small_id k \<Longrightarrow> small_id l \<Longrightarrow> chk (k - l) = Some (k - l)"
  by (simp add: small_id_def chk_def int_range_def)

interpretation by_id: key_order id_cmp_stu stu_id "\<lambda>x. small_id (stu_id x)"
  by unfold_locales (auto simp: id_cmp_stu_def id_cmp_def chk_diff)

interpretation find_id: key_comparison id_cmp "\<lambda>k. k" stu_id small_id "\<lambda>x. small_id (stu_id x)"
  by unfold_locales (auto simp: id_cmp_def chk_diff)

lemma strcmp_order: "(0 < strcmp cs ds \<longleftrightarrow> ds < cs) \<and> (strcmp cs ds = 0 \<longleftrightarrow> ds = cs)"
  by (induction cs ds rule: strcmp.induct) auto

interpretation find_name: key_comparison name_cmp "\<lambda>k. k" stu_name "\<lambda>_. True" "\<lambda>_. True"
  by unfold_locales (use strcmp_order in \<open>auto simp: name_cmp_def\<close>)

text \<open>The array of the client: sorted by identifiers.\<close>

definition sorted_darr :: "stu_st darr \<Rightarrow> stu_st list \<Rightarrow> bool" where
  "sorted_darr p xs \<longleftrightarrow> darr_holds p xs \<and> darr_cmp p = Some id_cmp_stu \<and> sorted (map stu_id xs) \<and> (\<forall>y \<in> set xs. small_id (stu_id y))"

definition has_room :: "'a darr \<Rightarrow> nat \<Rightarrow> bool" where
  "has_room p n \<longleftrightarrow> int n * darr_size p \<le> 2147483647 \<and> 2 * int n \<le> 2147483649"

lemma insert_sorted:
  assumes "sorted_darr p xs" "small_id (stu_id x)" "has_room p (length xs + 1)"
  shows "\<exists>q ys zs. insert_darr_sort True x p = Some (OK, q) \<and> xs = ys @ zs \<and> sorted_darr q (ys @ x # zs) \<and> darr_size q = darr_size p"
proof -
  have "\<exists>q ys zs. insert_darr_sort True x p = Some (OK, q) \<and> xs = ys @ zs \<and> darr_holds q (ys @ x # zs)
    \<and> sorted (map stu_id (ys @ x # zs)) \<and> darr_cmp q = Some id_cmp_stu \<and> darr_size q = darr_size p"
    by (rule by_id.insert_holds) (use assms in \<open>auto simp: sorted_darr_def has_room_def\<close>)
  then obtain q ys zs where "insert_darr_sort True x p = Some (OK, q)" "xs = ys @ zs" "darr_holds q (ys @ x # zs)"
      "sorted (map stu_id (ys @ x # zs))" "darr_cmp q = Some id_cmp_stu" "darr_size q = darr_size p" by blast
  then show ?thesis using assms(1,2) by (intro exI [of _ q] exI [of _ ys] exI [of _ zs]) (simp add: sorted_darr_def)
qed

lemma sorted_without: "sorted (map f xs) \<Longrightarrow> sorted (map f (takeWhile P xs @ drop n (dropWhile P xs)))"
proof -
  assume s: "sorted (map f xs)"
  have eq: "xs = takeWhile P xs @ dropWhile P xs" by simp
  then have "sorted (map f (takeWhile P xs) @ map f (dropWhile P xs))" using s by (metis map_append)
  then have parts: "sorted (map f (takeWhile P xs))" "sorted (map f (dropWhile P xs))"
      "\<forall>x \<in> set (takeWhile P xs). \<forall>y \<in> set (dropWhile P xs). f x \<le> f y" by (auto simp: sorted_append)
  have "sorted (map f (drop n (dropWhile P xs)))" using parts(2) by (simp add: sorted_wrt_drop flip: drop_map)
  then show ?thesis using parts by (auto simp: sorted_append dest: in_set_dropD)
qed

lemma delete_sorted:
  assumes "sorted_darr p xs" "small_id k" "mem \<or> length xs = 1"
  shows "\<exists>q. sorted_darr q (takeWhile (\<lambda>y. stu_id y \<noteq> k) xs @ drop 1 (dropWhile (\<lambda>y. stu_id y \<noteq> k) xs)) \<and>
    delete_darr mem id_cmp k p = Some (if (\<exists>y \<in> set xs. stu_id y = k) \<and> mem then OK else FAIL, q)"
proof -
  have "\<exists>q. darr_holds q (takeWhile (\<lambda>y. stu_id y \<noteq> k) xs @ drop 1 (dropWhile (\<lambda>y. stu_id y \<noteq> k) xs)) \<and> darr_cmp q = darr_cmp p \<and>
    darr_size q = darr_size p \<and> delete_darr mem id_cmp k p = Some (if (\<exists>y \<in> set xs. stu_id y = k) \<and> mem then OK else FAIL, q)"
    by (rule find_id.delete_holds) (use assms in \<open>auto simp: sorted_darr_def\<close>)
  then obtain q where q: "darr_holds q (takeWhile (\<lambda>y. stu_id y \<noteq> k) xs @ drop 1 (dropWhile (\<lambda>y. stu_id y \<noteq> k) xs))" "darr_cmp q = darr_cmp p"
      "delete_darr mem id_cmp k p = Some (if (\<exists>y \<in> set xs. stu_id y = k) \<and> mem then OK else FAIL, q)" by blast
  have cmp: "darr_cmp q = Some id_cmp_stu" using q(2) assms(1) by (simp add: sorted_darr_def)
  have "\<forall>y \<in> set (takeWhile (\<lambda>y. stu_id y \<noteq> k) xs @ drop 1 (dropWhile (\<lambda>y. stu_id y \<noteq> k) xs)). small_id (stu_id y)"
    using assms(1) by (auto simp: sorted_darr_def dest: set_takeWhileD in_set_dropD set_dropWhileD)
  moreover have "sorted (map stu_id (takeWhile (\<lambda>y. stu_id y \<noteq> k) xs @ drop 1 (dropWhile (\<lambda>y. stu_id y \<noteq> k) xs)))"
    by (rule sorted_without) (use assms(1) in \<open>simp add: sorted_darr_def\<close>)
  ultimately have "sorted_darr q (takeWhile (\<lambda>y. stu_id y \<noteq> k) xs @ drop 1 (dropWhile (\<lambda>y. stu_id y \<noteq> k) xs))"
    unfolding sorted_darr_def using q(1) cmp by (intro conjI)
  then show ?thesis using q(3) by blast
qed

text \<open>\<open>qsort\<close> as documented, for a comparison that is defined on the elements.\<close>

definition qsort_sorts :: "((stu_st \<Rightarrow> stu_st \<Rightarrow> int option) \<Rightarrow> stu_st list \<Rightarrow> stu_st list option) \<Rightarrow> bool" where
  "qsort_sorts qsort \<longleftrightarrow> (\<forall>cmp xs. (\<forall>x \<in> set xs. \<forall>y \<in> set xs. cmp x y \<noteq> None) \<longrightarrow>
     (\<exists>ys. qsort cmp xs = Some ys \<and> mset ys = mset xs \<and>
       ((\<forall>x \<in> set xs. \<forall>y \<in> set xs. \<forall>z \<in> set xs. the (cmp x y) \<le> 0 \<longrightarrow> the (cmp y z) \<le> 0 \<longrightarrow> the (cmp x z) \<le> 0) \<longrightarrow>
        (\<forall>x \<in> set xs. \<forall>y \<in> set xs. the (cmp x y) \<le> 0 \<or> the (cmp y x) \<le> 0) \<longrightarrow>
        sorted_wrt (\<lambda>x y. the (cmp x y) \<le> 0) ys)))"

lemma all_set_map [simp]: "all_set (map Some xs) = Some xs"
  by (induction xs) simp_all

text \<open>Sorting makes a sorted array of one in any order.\<close>

lemma set_sort_sorted:
  assumes "qsort_sorts qsort" "darr_holds p xs" "xs \<noteq> []" "darr_cmp p = Some id_cmp_stu" "\<forall>y \<in> set xs. small_id (stu_id y)"
  shows "\<exists>q ys. set_sort qsort id_cmp_stu p = Some (OK, q) \<and> mset ys = mset xs \<and> sorted_darr q ys"
proof -
  have c: "id_cmp_stu x y = Some (stu_id x - stu_id y)" if "x \<in> set xs" "y \<in> set xs" for x y
    using assms(5) that by (simp add: id_cmp_stu_def id_cmp_def chk_diff)
  then have "\<forall>x \<in> set xs. \<forall>y \<in> set xs. id_cmp_stu x y \<noteq> None" by simp
  then obtain ys where ys: "qsort id_cmp_stu xs = Some ys" "mset ys = mset xs"
    and total: "(\<forall>x \<in> set xs. \<forall>y \<in> set xs. \<forall>z \<in> set xs. the (id_cmp_stu x y) \<le> 0 \<longrightarrow> the (id_cmp_stu y z) \<le> 0 \<longrightarrow> the (id_cmp_stu x z) \<le> 0) \<longrightarrow>
        (\<forall>x \<in> set xs. \<forall>y \<in> set xs. the (id_cmp_stu x y) \<le> 0 \<or> the (id_cmp_stu y x) \<le> 0) \<longrightarrow>
        sorted_wrt (\<lambda>x y. the (id_cmp_stu x y) \<le> 0) ys"
    using assms(1) unfolding qsort_sorts_def by blast
  have set: "set ys = set xs" and len: "length ys = length xs" using ys(2) by (auto dest: mset_eq_setD mset_eq_length)
  have "sorted_wrt (\<lambda>x y. the (id_cmp_stu x y) \<le> 0) ys" by (rule total [rule_format]) (simp_all add: c linear)
  then have "sorted_wrt (\<lambda>x y. stu_id x \<le> stu_id y) ys" by (rule sorted_wrt_mono_rel [rotated]) (simp add: c set)
  then have "sorted (map stu_id ys)" by (simp add: sorted_map)
  moreover have "darr_holds (p\<lparr>darr_arr := Some (map Some ys)\<rparr>) ys" using assms(2) len by (simp add: darr_holds_def)
  moreover have "set_sort qsort id_cmp_stu p = Some (OK, p\<lparr>darr_arr := Some (map Some ys)\<rparr>)"
    using ys(1) darr_holdsD(1,5) [OF assms(2)] assms(3) by (simp add: set_sort_def)
  ultimately show ?thesis using ys(2) set assms(4,5) by (auto simp: sorted_darr_def)
qed

text \<open>When \<open>realloc\<close> fails for an insertion, the array is lost, but not the number of elements.\<close>

lemma failed_insert_loses:
  assumes "sorted_darr p xs" "has_room p (length xs + 1)"
  shows "\<exists>q. insert_darr_sort False x p = Some (FAIL, q) \<and> darr_arr q = None \<and> darr_num q = int (length xs)
    \<and> (xs \<noteq> [] \<longrightarrow> traval_darr q = None)"
proof -
  have h: "darr_holds p xs" using assms(1) by (simp add: sorted_darr_def)
  note num = darr_holdsD(1,2) [OF h]
  have "chk (int (length xs) + 1) = Some (int (length xs) + 1)" by (rule chk_small) (use assms(2) in \<open>auto simp: has_room_def\<close>)
  moreover have "chk ((int (length xs) + 1) * darr_size p) = Some ((int (length xs) + 1) * darr_size p)"
    by (rule chk_offset [of _ "length xs + 1"]) (use assms(2) num(2) in \<open>auto simp: has_room_def\<close>)
  moreover have "traval_darr q = None" if "darr_arr q = None" "darr_num q = int (length xs)" "xs \<noteq> []" for q :: "stu_st darr"
    using that unfolding traval_darr_def by (subst darr_traval_loop.simps) (simp add: darr_elem_def)
  ultimately show ?thesis using num(1) by (simp add: insert_darr_sort_def realloc_cells_def Let_def)
qed

lemma main_loop_sorted:
  "sorted_darr p xs \<Longrightarrow> \<forall>k \<in> set ids. small_id k \<Longrightarrow> has_room p (length xs + length ids) \<Longrightarrow> \<forall>j. mem j \<Longrightarrow>
   \<exists>q ys. main_loop mem i ids p = Some q \<and> sorted_darr q ys \<and> mset (map stu_id ys) = mset ids + mset (map stu_id xs)"
proof (induction ids arbitrary: i p xs)
  case Nil
  then show ?case by auto
next
  case (Cons k ids)
  have "chk (100 - k) = Some (100 - k)" using Cons.prems(2) by (simp add: small_id_def chk_def int_range_def)
  then obtain x where x: "main_stu i k = Some x" "stu_id x = k" by (simp add: main_stu_def)
  have "int (length xs + 1) * darr_size p \<le> int (length xs + length (k # ids)) * darr_size p"
    using Cons.prems(1) by (intro mult_right_mono) (auto simp: sorted_darr_def darr_holds_def)
  then have room: "has_room p (length xs + 1)" using Cons.prems(3) by (simp add: has_room_def)
  obtain q ys zs where q: "insert_darr_sort True x p = Some (OK, q)" "xs = ys @ zs" "sorted_darr q (ys @ x # zs)" "darr_size q = darr_size p"
    using insert_sorted [OF Cons.prems(1) _ room, of x] x(2) Cons.prems(2) by auto
  have room2: "has_room q (length (ys @ x # zs) + length ids)" using Cons.prems(3) q(2,4) by (simp add: has_room_def)
  have ids: "\<forall>k \<in> set ids. small_id k" using Cons.prems(2) by simp
  then obtain r rs where "main_loop mem (Suc i) ids q = Some r" "sorted_darr r rs"
      "mset (map stu_id rs) = mset ids + mset (map stu_id (ys @ x # zs))"
    using Cons.IH [OF q(3) ids room2 Cons.prems(4), of "Suc i"] by blast
  moreover have "mem i" using Cons.prems(4) by simp
  then have "main_loop mem i (k # ids) p = main_loop mem (Suc i) ids q" using x(1) q(1) by simp
  ultimately show ?case using x(2) q(2) by auto
qed

text \<open>The client prints its students in the order of their identifiers.\<close>

lemma darr_main_sorts:
  assumes "\<forall>k \<in> set ids. small_id k" "int (length ids) * stu_size \<le> 2147483647" "\<forall>j. mems j"
  shows "\<exists>out. darr_main True mems ids = Some (0, out) \<and> sorted (map stu_id out) \<and> mset (map stu_id out) = mset ids"
proof -
  obtain p where p: "init_darr True stu_size (Some id_cmp_stu) = Some p" "sorted_darr p []" "darr_size p = stu_size"
    by (simp add: init_darr_def sorted_darr_def darr_holds_def stu_size_def)
  have "has_room p (length [] + length ids)" using assms(2) p(3) by (simp add: has_room_def stu_size_def)
  then obtain q ys where q: "main_loop mems 0 ids p = Some q" "sorted_darr q ys" "mset (map stu_id ys) = mset ids"
    using main_loop_sorted [OF p(2) assms(1) _ assms(3), of 0] by auto
  then show ?thesis using p(1) traval_holds [of q ys] by (simp add: darr_main_def sorted_darr_def destroy_darr_def)
qed

lemma darr_main_prints: "map_option (map_prod id (map stu_id)) (darr_main True (\<lambda>_. True) main_ids) = Some (0, [1, 2, 3, 7, 8, 9])"
proof -
  obtain out where out: "darr_main True (\<lambda>_. True) main_ids = Some (0, out)" "sorted (map stu_id out)" "mset (map stu_id out) = mset main_ids"
    using darr_main_sorts [of main_ids "\<lambda>_. True"] by (auto simp: main_ids_def small_id_def stu_size_def)
  have "map stu_id out = sort main_ids" using out(2,3) by (metis properties_for_sort)
  then show ?thesis using out(1) by (simp add: main_ids_def)
qed

section \<open>Properties\<close>


definition stu :: "int \<Rightarrow> stu_st" where
  "stu k = \<lparr>stu_id = k, stu_name = [98], stu_score = 60\<rparr>"

definition two_stus :: "stu_st darr" where
  "two_stus = \<lparr>darr_arr = Some [Some (stu 2), Some (stu 5)], darr_size = stu_size, darr_num = 2, darr_cmp = Some id_cmp_stu\<rparr>"


end
