(* ===== verification/GetLine.thy ===== *)
theory GetLine
  imports FileCounter
begin

text \<open>
  \<open>ybx_getline\<close>, a \<open>getline\<close> of one's own with its test, \<open>3.ybx/3.apue/0.homework/1.getline/ybx_getline.c\<close>: it scans the stream
  for a newline, makes the buffer large enough, seeks back and reads the line with \<open>fgets\<close> (of \<open>FileCounter\<close>).  A stream is
  the characters of the file and a position.  \<open>mem\<close> says which calls of \<open>malloc\<close> and \<open>realloc\<close>, counted from 0 in each call of
  \<open>ybx_getline\<close>, return a block.  Sizes of type \<open>size_t\<close> are not wrapped.
\<close>

section \<open>The program\<close>

definition LEN_getline :: nat where "LEN_getline = 120"

record stream =
  chars :: "nat list"
  at_char :: nat

text \<open>A buffer: its cells, \<open>None\<close> where nothing has been written, and the caller's \<open>*n\<close>.\<close>

record line_buf =
  lineptr :: "nat option list option"
  line_n :: nat

text \<open>The loop over \<open>fgetc\<close>: \<open>None\<close> inside is the end of the file, otherwise the number of characters with the newline.\<close>

function scan_line :: "stream \<Rightarrow> int \<Rightarrow> (int option \<times> stream) option" where
  "scan_line f ret =
     (if at_char f < length (chars f) then do {
        let tmp = chars f ! at_char f;
        let f1 = f\<lparr>at_char := at_char f + 1\<rparr>;
        ret1 \<leftarrow> chk (ret + 1);
        if tmp = 10 then Some (Some ret1, f1) else scan_line f1 ret1 }
      else Some (None, f))"
  by pat_completeness auto
termination by (relation "measure (\<lambda>(f, ret). length (chars f) - at_char f)") auto

declare scan_line.simps [simp del]

definition fseek_back :: "int \<Rightarrow> stream \<Rightarrow> stream option" where
  "fseek_back ret f = (if 0 \<le> ret \<and> ret \<le> int (at_char f) then Some (f\<lparr>at_char := at_char f - nat ret\<rparr>) else None)"

text \<open>\<open>fgets(*lineptr, *n, stream)\<close>; the size becomes an \<open>int\<close>.\<close>

definition fgets_into :: "line_buf \<Rightarrow> stream \<Rightarrow> (line_buf \<times> stream) option" where
  "fgets_into b f = do {
     cs \<leftarrow> lineptr b;
     _ \<leftarrow> chk (int (line_n b));
     line \<leftarrow> fgets (line_n b) (drop (at_char f) (chars f));
     if length cs < length line then None
     else Some (b\<lparr>lineptr := Some (map Some line @ drop (length line) cs)\<rparr>, f\<lparr>at_char := at_char f + (length line - 1)\<rparr>) }"

definition realloc_buf :: "bool \<Rightarrow> nat \<Rightarrow> nat option list option \<Rightarrow> nat option list option" where
  "realloc_buf ok n p =
     (if ok then (case p of None \<Rightarrow> Some (replicate n None) | Some cs \<Rightarrow> Some (take n cs @ replicate (n - length cs) None)) else None)"

text \<open>The second loop: \<open>i\<close> counts the allocations.\<close>

function fill_line :: "(nat \<Rightarrow> bool) \<Rightarrow> nat \<Rightarrow> int \<Rightarrow> line_buf \<Rightarrow> stream \<Rightarrow> (int \<times> line_buf \<times> stream) option" where
  "fill_line mem i ret b f =
     (if ret < int (line_n b) then do {
        f1 \<leftarrow> fseek_back ret f;
        (b1, f2) \<leftarrow> fgets_into b f1;
        Some (ret, b1, f2) }
      else
        let n = line_n b + LEN_getline in
        fill_line mem (Suc i) ret \<lparr>lineptr = realloc_buf (mem i) n (lineptr b), line_n = n\<rparr> f)"
  by pat_completeness auto
termination by (relation "measure (\<lambda>(mem, i, ret, b, f). nat (ret + 1 - int (line_n b)))") (auto simp: LEN_getline_def)

declare fill_line.simps [simp del]

definition ybx_getline :: "(nat \<Rightarrow> bool) \<Rightarrow> line_buf \<Rightarrow> stream \<Rightarrow> (int \<times> line_buf \<times> stream) option" where
  "ybx_getline mem b f = do {
     let b1 = (case lineptr b of
       None \<Rightarrow> \<lparr>lineptr = realloc_buf (mem 0) LEN_getline None, line_n = LEN_getline\<rparr>
     | Some cs \<Rightarrow> b);
     (r, f1) \<leftarrow> scan_line f 0;
     case r of
       None \<Rightarrow> Some (- 1, b1, f1)
     | Some ret \<Rightarrow> fill_line mem 1 ret b1 f1 }"

text \<open>A call that does not report the end of the file moves on in the file: the loop of the test ends.\<close>

lemma scan_line_moves:
  "scan_line f r = Some (Some ret, f1) \<Longrightarrow>
   chars f1 = chars f \<and> at_char f < at_char f1 \<and> at_char f1 \<le> length (chars f) \<and> ret - r = int (at_char f1) - int (at_char f)"
proof (induction f r rule: scan_line.induct)
  case (1 f r)
  show ?case
  proof (cases "at_char f < length (chars f) \<and> chars f ! at_char f \<noteq> 10")
    case True
    let ?f = "f\<lparr>at_char := at_char f + 1\<rparr>"
    have eq: "scan_line f r = do { ret1 \<leftarrow> chk (r + 1); scan_line ?f ret1 }" using True by (subst scan_line.simps) (simp add: Let_def)
    obtain ret1 where "chk (r + 1) = Some ret1" "scan_line ?f ret1 = Some (Some ret, f1)"
      using "1.prems" by (auto simp: eq bind_eq_Some_conv)
    then have ok: "chk (r + 1) = Some (r + 1)" and rec: "scan_line ?f (r + 1) = Some (Some ret, f1)" by (simp_all add: chk_Some_iff)
    have "chars f1 = chars ?f \<and> at_char ?f < at_char f1 \<and> at_char f1 \<le> length (chars ?f) \<and> ret - (r + 1) = int (at_char f1) - int (at_char ?f)"
      by (rule "1.IH" [OF _ refl refl ok _ rec]) (use True in simp_all)
    then show ?thesis by simp
  next
    case False
    then show ?thesis using "1.prems" by (subst (asm) scan_line.simps) (auto simp: bind_eq_Some_conv chk_Some_iff split: if_splits)
  qed
qed

lemma fgets_some_chars: "fgets n f = Some line \<Longrightarrow> 2 \<le> length line"
  by (cases "take (n - 1) f") (auto simp: fgets_def Let_def split: if_splits)

lemma fill_line_moves:
  "fill_line mem i ret b f = Some (r, b1, f1) \<Longrightarrow>
   chars f1 = chars f \<and> 0 \<le> ret \<and> ret \<le> int (at_char f) \<and> at_char f - nat ret < at_char f1"
proof (induction mem i ret b f rule: fill_line.induct)
  case (1 mem i ret b f)
  show ?case
  proof (cases "ret < int (line_n b)")
    case True
    then show ?thesis using "1.prems"
      by (subst (asm) fill_line.simps) (auto simp: bind_eq_Some_conv fseek_back_def fgets_into_def dest!: fgets_some_chars split: if_splits)
  next
    case False
    then show ?thesis using 1 by (subst (asm) (2) fill_line.simps) (simp add: Let_def)
  qed
qed

lemma getline_moves:
  assumes "ybx_getline mem b f = Some (r, b1, f1)" "0 \<le> r"
  shows "length (chars f1) - at_char f1 < length (chars f) - at_char f"
proof -
  obtain ret f2 b2 where s: "scan_line f 0 = Some (Some ret, f2)" "fill_line mem 1 ret b2 f2 = Some (r, b1, f1)"
    using assms by (auto simp: ybx_getline_def bind_eq_Some_conv Let_def split: option.splits)
  have "at_char f2 - nat ret = at_char f" using scan_line_moves [OF s(1)] by linarith
  then show ?thesis using scan_line_moves [OF s(1)] fill_line_moves [OF s(2)] by (auto intro!: diff_less_mono2)
qed

text \<open>The characters of the string in a buffer; it must end inside.\<close>

fun c_string :: "nat option list \<Rightarrow> nat list option" where
  "c_string [] = None"
| "c_string (None # cs) = None"
| "c_string (Some c # cs) = (if c = 0 then Some [] else do { s \<leftarrow> c_string cs; Some (c # s) })"

text \<open>The loop of the test prints the line, its length, the result and the size of the buffer.\<close>

record printed =
  p_content :: "nat list"
  p_read :: int
  p_num :: nat

function test_loop :: "(nat \<Rightarrow> bool) \<Rightarrow> line_buf \<Rightarrow> stream \<Rightarrow> printed list option" where
  "test_loop mem b f = do {
     (r, b1, f1) \<leftarrow> ybx_getline mem b f;
     if 0 \<le> r then do {
       cs \<leftarrow> lineptr b1;
       s \<leftarrow> c_string cs;
       out \<leftarrow> test_loop mem b1 f1;
       Some (\<lparr>p_content = s, p_read = r, p_num = line_n b1\<rparr> # out) }
     else Some [] }"
  by pat_completeness auto
termination
  by (relation "measure (\<lambda>(mem, b, f). length (chars f) - at_char f)") (auto dest: getline_moves)

declare test_loop.simps [simp del]

text \<open>The exit code, and what is printed; \<open>input\<close> is the file, if it can be opened.  \<open>num\<close> is not initialised.\<close>

definition test_ybx_getline :: "(nat \<Rightarrow> bool) \<Rightarrow> nat \<Rightarrow> nat list option \<Rightarrow> (int \<times> printed list) option" where
  "test_ybx_getline mem num input = (case input of
     None \<Rightarrow> Some (1, [])
   | Some cs \<Rightarrow> do { out \<leftarrow> test_loop mem \<lparr>lineptr = None, line_n = num\<rparr> \<lparr>chars = cs, at_char = 0\<rparr>; Some (0, out) })"

section \<open>Lines\<close>

lemma scan_line_found:
  "10 \<notin> set l \<Longrightarrow> drop k cs = l @ 10 # rest \<Longrightarrow> 0 \<le> r \<Longrightarrow> r + int (length l) < 2147483647 \<Longrightarrow>
   scan_line \<lparr>chars = cs, at_char = k\<rparr> r = Some (Some (r + int (length l) + 1), \<lparr>chars = cs, at_char = k + length l + 1\<rparr>)"
proof (induction l arbitrary: k r)
  case Nil
  then have k: "k < length cs" by (metis append_Nil drop_all linorder_not_le list.distinct(1))
  then have "cs ! k = 10" using Nil by (simp add: Cons_nth_drop_Suc [symmetric])
  then show ?case using k Nil by (subst scan_line.simps) (simp add: chk_def int_range_def)
next
  case (Cons c l)
  then have k: "k < length cs" by (metis append_Cons drop_all linorder_not_le list.distinct(1))
  then have c: "cs ! k = c" "drop (Suc k) cs = l @ 10 # rest" using Cons.prems(2) by (simp_all add: Cons_nth_drop_Suc [symmetric])
  have "scan_line \<lparr>chars = cs, at_char = Suc k\<rparr> (r + 1) = Some (Some (r + 1 + int (length l) + 1), \<lparr>chars = cs, at_char = Suc k + length l + 1\<rparr>)"
    by (rule Cons.IH) (use Cons.prems c(2) in auto)
  then show ?case using k c(1) Cons.prems by (subst scan_line.simps) (auto simp: chk_def int_range_def)
qed

lemma scan_line_end:
  "10 \<notin> set l \<Longrightarrow> drop k cs = l \<Longrightarrow> 0 \<le> r \<Longrightarrow> r + int (length l) \<le> 2147483647 \<Longrightarrow>
   \<exists>f. scan_line \<lparr>chars = cs, at_char = k\<rparr> r = Some (None, f)"
proof (induction l arbitrary: k r)
  case Nil
  then show ?case by (subst scan_line.simps) simp
next
  case (Cons c l)
  then have k: "k < length cs" by (metis drop_all linorder_not_le list.distinct(1))
  then have c: "cs ! k = c" "drop (Suc k) cs = l" using Cons.prems(2) by (simp_all add: Cons_nth_drop_Suc [symmetric])
  have "\<exists>f. scan_line \<lparr>chars = cs, at_char = Suc k\<rparr> (r + 1) = Some (None, f)" by (rule Cons.IH) (use Cons.prems c(2) in auto)
  then show ?case using k c(1) Cons.prems by (subst scan_line.simps) (auto simp: chk_def int_range_def)
qed

lemma fgets_whole_line:
  assumes "10 \<notin> set l" "length l + 1 < n"
  shows "fgets n (l @ 10 # rest) = Some (l @ [10, 0])"
proof -
  obtain m where m: "n - 1 - length l = Suc m" using assms(2) by (cases "n - 1 - length l") auto
  then have "take (n - 1) (l @ 10 # rest) = l @ 10 # take m rest" using assms(2) by simp
  then show ?thesis using until_newline(3,4) [OF assms(1)] by (simp add: fgets_def Let_def)
qed

lemma c_string_line: "0 \<notin> set l \<Longrightarrow> c_string (map Some (l @ [0]) @ cs) = Some l"
  by (induction l) auto

definition buf_ok :: "line_buf \<Rightarrow> bool" where
  "buf_ok b \<longleftrightarrow> (\<exists>cs. lineptr b = Some cs \<and> length cs = line_n b)"

text \<open>The buffer ends up larger than the line and holds it; \<open>m\<close> bounds its size.\<close>

lemma fill_line_ok:
  assumes "10 \<notin> set l" "drop k cs = l @ 10 # rest" "int (length l) + 121 \<le> m" "m \<le> 2147483647"
    and "\<forall>i. mem i" "buf_ok b" "int (line_n b) \<le> m"
  shows "\<exists>b1 ds. fill_line mem i (int (length l) + 1) b \<lparr>chars = cs, at_char = k + length l + 1\<rparr>
        = Some (int (length l) + 1, b1, \<lparr>chars = cs, at_char = k + length l + 1\<rparr>)
      \<and> buf_ok b1 \<and> lineptr b1 = Some (map Some (l @ [10, 0]) @ ds) \<and> length l + 1 < line_n b1 \<and> int (line_n b1) \<le> m"
  using assms(5-7)
proof (induction "length l + 2 - line_n b" arbitrary: i b rule: less_induct)
  case less
  obtain ds where ds: "lineptr b = Some ds" "length ds = line_n b" using less.prems(2) by (auto simp: buf_ok_def)
  show ?case
  proof (cases "length l + 1 < line_n b")
    case True
    have "chk (int (line_n b)) = Some (int (line_n b))" using less.prems(3) assms(4) by (simp add: chk_def int_range_def)
    moreover have "fgets (line_n b) (l @ 10 # rest) = Some (l @ [10, 0])" by (rule fgets_whole_line [OF assms(1) True])
    ultimately show ?thesis using True ds assms(2) less.prems(3)
      by (subst fill_line.simps) (simp add: fseek_back_def fgets_into_def buf_ok_def nat_add_distrib)
  next
    case False
    define b2 where "b2 = \<lparr>lineptr = realloc_buf (mem i) (line_n b + LEN_getline) (lineptr b), line_n = line_n b + LEN_getline\<rparr>"
    have b2: "buf_ok b2" "line_n b2 = line_n b + 120"
      using less.prems(1) ds by (simp_all add: b2_def buf_ok_def realloc_buf_def LEN_getline_def)
    have "\<exists>b1 ds. fill_line mem (Suc i) (int (length l) + 1) b2 \<lparr>chars = cs, at_char = k + length l + 1\<rparr>
        = Some (int (length l) + 1, b1, \<lparr>chars = cs, at_char = k + length l + 1\<rparr>)
      \<and> buf_ok b1 \<and> lineptr b1 = Some (map Some (l @ [10, 0]) @ ds) \<and> length l + 1 < line_n b1 \<and> int (line_n b1) \<le> m"
      by (rule less.hyps [OF _ less.prems(1) b2(1)]) (use False b2(2) assms(3) in auto)
    then show ?thesis using False by (subst fill_line.simps) (simp add: b2_def Let_def)
  qed
qed

lemma getline_line:
  assumes "10 \<notin> set l" "drop k cs = l @ 10 # rest" "int (length l) + 121 \<le> m" "m \<le> 2147483647"
    and "\<forall>i. mem i" "lineptr b = None \<or> buf_ok b \<and> int (line_n b) \<le> m"
  shows "\<exists>b1 ds. ybx_getline mem b \<lparr>chars = cs, at_char = k\<rparr> = Some (int (length l) + 1, b1, \<lparr>chars = cs, at_char = k + length l + 1\<rparr>)
      \<and> buf_ok b1 \<and> lineptr b1 = Some (map Some (l @ [10, 0]) @ ds) \<and> length l + 1 < line_n b1 \<and> int (line_n b1) \<le> m"
proof -
  define b0 where "b0 = (case lineptr b of None \<Rightarrow> \<lparr>lineptr = realloc_buf (mem 0) LEN_getline None, line_n = LEN_getline\<rparr> | Some cs \<Rightarrow> b)"
  have "buf_ok b0" "int (line_n b0) \<le> m"
    using assms(3,5,6) by (auto simp: b0_def buf_ok_def realloc_buf_def LEN_getline_def)
  note fill_line_ok [OF assms(1-5) this, of 1]
  moreover have "scan_line \<lparr>chars = cs, at_char = k\<rparr> 0 = Some (Some (0 + int (length l) + 1), \<lparr>chars = cs, at_char = k + length l + 1\<rparr>)"
    by (rule scan_line_found [OF assms(1,2)]) (use assms(3,4) in auto)
  ultimately show ?thesis by (simp add: ybx_getline_def Let_def b0_def)
qed

lemma getline_end:
  assumes "10 \<notin> set (drop k cs)" "int (length cs) \<le> 2147483647"
  shows "\<exists>b1 f. ybx_getline mem b \<lparr>chars = cs, at_char = k\<rparr> = Some (- 1, b1, f)"
proof -
  have "0 + int (length (drop k cs)) \<le> 2147483647" using assms(2) by simp
  then obtain f where "scan_line \<lparr>chars = cs, at_char = k\<rparr> 0 = Some (None, f)"
    using scan_line_end [OF assms(1) refl, of 0] by auto
  then show ?thesis by (simp add: ybx_getline_def Let_def)
qed

text \<open>The printed record of a line; the size of the buffer is between its length and \<open>m\<close>.\<close>

definition prints_line :: "int \<Rightarrow> nat list \<Rightarrow> printed \<Rightarrow> bool" where
  "prints_line m l o1 \<longleftrightarrow> p_content o1 = l @ [10] \<and> p_read o1 = int (length l) + 1 \<and> length l + 1 < p_num o1 \<and> int (p_num o1) \<le> m"

abbreviation text_of :: "nat list list \<Rightarrow> nat list \<Rightarrow> nat list" where
  "text_of ls rest \<equiv> concat (map (\<lambda>l. l @ [10]) ls) @ rest"

lemma test_loop_ok:
  assumes "m \<le> 2147483647" "int (length cs) + 121 \<le> m" "\<forall>i. mem i" "10 \<notin> set rest"
  shows "drop k cs = text_of ls rest \<Longrightarrow> \<forall>l \<in> set ls. 10 \<notin> set l \<and> 0 \<notin> set l \<Longrightarrow> lineptr b = None \<or> buf_ok b \<and> int (line_n b) \<le> m \<Longrightarrow>
    \<exists>out. test_loop mem b \<lparr>chars = cs, at_char = k\<rparr> = Some out \<and> list_all2 (prints_line m) ls out"
proof (induction ls arbitrary: k b)
  case Nil
  then show ?case using getline_end [of k cs mem b] assms by (subst test_loop.simps) auto
next
  case (Cons l ls)
  have d: "drop k cs = l @ 10 # text_of ls rest" using Cons.prems(1) by simp
  have len: "length l + 1 \<le> length cs - k" using arg_cong [OF d, of length] by simp
  then have room: "int (length l) + 121 \<le> m" using assms(2) by linarith
  obtain b1 ds where b1: "ybx_getline mem b \<lparr>chars = cs, at_char = k\<rparr> = Some (int (length l) + 1, b1, \<lparr>chars = cs, at_char = k + length l + 1\<rparr>)"
      "buf_ok b1" "lineptr b1 = Some (map Some (l @ [10, 0]) @ ds)" "length l + 1 < line_n b1" "int (line_n b1) \<le> m"
    using getline_line [of l k cs "text_of ls rest" m mem b, OF _ d room assms(1,3) Cons.prems(3)] Cons.prems(2) by auto
  have "drop (k + length l + 1) cs = drop (length l + 1) (drop k cs)" by (simp add: add.commute)
  then have "drop (k + length l + 1) cs = text_of ls rest" using d by simp
  then obtain out where out: "test_loop mem b1 \<lparr>chars = cs, at_char = k + length l + 1\<rparr> = Some out" "list_all2 (prints_line m) ls out"
    using Cons.IH [of "k + length l + 1" b1] Cons.prems(2) b1(2,5) by auto
  have "c_string (map Some (l @ [10, 0]) @ ds) = Some (l @ [10])" using c_string_line [of "l @ [10]" ds] Cons.prems(2) by simp
  then show ?case using b1 out len by (subst test_loop.simps) (auto simp: prints_line_def)
qed

section \<open>Properties\<close>



end
