(* ===== verification/Spec2Isabelle.thy ===== *)
theory Spec2Isabelle
  imports SortLib BinHeap BinSearch Calculator BallClock LinkedList Tetris Malloc SearchTree ArrayTree
    Scanner PrefixNotation AnyTimer Relayer MyPipe ThreadPool TokenBucket PrimePool Josephus Polynomial Trie SeqList
    MyFtp DeleteLine ServerPool Hanoi Itoa SlowCat MuxRelayer FileCounter DArr GetLine
begin

text \<open>
  A verification library for the C code of this repository.  The repository is a collection: many small
  programs and libraries that its authors wrote while learning data structures and system programming,
  next to annotated copies of memcached and libevent.  The library models the authors' own components that
  keep a state and have a contract; it has one theory for each, and each theory opens with a
  text of its own.

  Parts, theories and sources (paths below \<open>src/\<close>).

  \<^item> \<open>Prelude\<close>: checked array accesses, \<open>int\<close> arithmetic, sorting a segment of an array; shared by all.
  \<^item> \<open>SortBasic\<close>, \<open>SortShellHeap\<close>, \<open>SortMerge\<close>, \<open>SortQuick\<close>: the ten sorts of
    \<open>3.ybx/20.ds/2.ds/6.sort\<close>, with the comparisons and moves they count.  Each is an interpretation of the
    locale \<open>segment_sorter\<close>; \<open>SortLib\<close> draws the consequences for the library as a whole.
  \<^item> \<open>BinHeap\<close>: the priority queue of \<open>3.ybx/20.ds/11.DSAAC\<close>; \<open>BinSearch\<close>: the binary searches of
    \<open>3.ybx/20.ds/2.ds/5.find\<close>.
  \<^item> \<open>ArrayStack\<close> (\<open>sqstack.c\<close>) with its two clients below \<open>3.ybx/20.ds/2.ds/2.line/3.ex\<close>: \<open>Calculator\<close>
    (\<open>1.computer\<close>), and \<open>BallClock\<close> (\<open>2.ball_clock\<close>), which also uses \<open>RingQueue\<close> (\<open>queue.c\<close>).  The
    clients rest on the laws of the locale \<open>bounded_stack\<close>.
  \<^item> \<open>LinkedList\<close>: the doubly linked list \<open>llist.c\<close> and the stack \<open>linkstack.c\<close> of
    \<open>1.zhang/3.datastruct/stack/example\<close>, over an explicit heap.  The locale \<open>heap_stack\<close> states what the stack
    promises to a client that shares the heap; \<open>Scanner\<close>, the bracket scanner \<open>scanner.c\<close>, and
    \<open>PrefixNotation\<close>, the conversion and evaluation of expressions \<open>transform.c\<close>, are such clients.
  \<^item> \<open>NodeList\<close>: the linked lists of \<open>3.ybx/20.ds/2.ds/1.list/2.simple\<close>, with two programs on such lists, \<open>Josephus\<close> and
    \<open>Polynomial\<close> (\<open>2.simple/ex\<close>); \<open>SeqList\<close>: the sequential list of \<open>1.list/1.arr\<close>;
    \<open>DArr\<close>: the sorted dynamic array \<open>1.zhang/3.datastruct/darr/lib4\<close>, whose lemmas rest on the locale \<open>key_comparison\<close>
    of the comparisons that a client passes, interpreted on those of its client \<open>main.c\<close>.
  \<^item> \<open>Trie\<close>: the dictionaries \<open>3.ybx/20.ds/2.ds/4.tree/3.retrieval_tree\<close> and \<open>1.zhang/3.datastruct/hash/trie\<close>.
  \<^item> \<open>SearchTree\<close>: the search trees and the tree as text of \<open>3.ybx/20.ds/2.ds/4.tree\<close>, and the tree of
    \<open>1.zhang/3.datastruct/tree/bintree\<close>; \<open>ArrayTree\<close>: the binary tree in an array of \<open>3.ybx/20.ds/8.gyf/ch6\<close>.
  \<^item> \<open>Tetris\<close>: the game \<open>1.zhang/4.c_project/russian\<close>; \<open>Malloc\<close>: the allocator \<open>3.ybx/1.c/79.diy_malloc\<close>.
  \<^item> \<open>AnyTimer\<close>: the two timer modules \<open>3.ybx/3.apue/0.homework/4.anytimer\<close> and \<open>5.anytimer_mt\<close>;
    \<open>Relayer\<close>: the relayer \<open>3.ybx/3.apue/9.advanced_io/1.nonblock/3.relayer_mt\<close>; \<open>MuxRelayer\<close>: its versions
    over \<open>select\<close>, \<open>poll\<close> and \<open>epoll\<close> (\<open>2.select\<close>, \<open>3.poll\<close>, \<open>4.epoll\<close>), clients of the locale \<open>multiplexer\<close>;
    \<open>TokenBucket\<close>: the token buckets \<open>7.sginal/22_37.mytbf\<close>, driven by signals, and \<open>8.thread/posix/16.mytbf_mt_cond\<close>,
    driven by a thread; \<open>SlowCat\<close>: the program \<open>main.c\<close> that copies a file through the first of them.
  \<^item> Threads of \<open>3.ybx/3.apue/8.thread/posix\<close>, as lists of control points with a step relation: \<open>MyPipe\<close>, the pipe
    \<open>26.mypipe\<close> over the queue of \<open>RingQueue\<close>; \<open>ThreadPool\<close>, \<open>32.threadpool.c\<close>; \<open>PrimePool\<close>, the prime search
    \<open>17.primer0_cond_pool.c\<close> and the semaphore \<open>21.mysem\<close>.
  \<^item> Processes and files of \<open>3.ybx/3.apue\<close>: \<open>MyFtp\<close>, the file transfer \<open>10.ipc/3.socket/1.dgram/6.myftp_udp_fork_ack\<close> with
    client, server and network; \<open>ServerPool\<close>, the server \<open>10.ipc/3.socket/2.stream/2.porcess/3.pool_dyanamic\<close>; \<open>DeleteLine\<close>, the
    program \<open>0.homework/2.delete_tenline\<close>; \<open>FileCounter\<close>, a counter in a file under a lock on the file, a semaphore
    or a mutex, the three versions as interpretations of the locale \<open>counter_lock\<close>; \<open>GetLine\<close>, the
    \<open>getline\<close> of \<open>0.homework/1.getline\<close>.
  \<^item> Exercises: \<open>Hanoi\<close> (\<open>3.ybx/19.exercise\<close>, towers of Hanoi and Fibonacci numbers), \<open>Itoa\<close> (\<open>1.zhang/2.c/day06/itoa.c\<close>).

  Conventions.  A structure is a record and a function of the source is a definition of nearly the same name; a
  global state is passed along.  \<open>None\<close> of the option monad is undefined behaviour: an access outside an
  object or through a null or dangling pointer, a division by zero, an overflow of \<open>int\<close>, the use of a
  value that was never set.  Return codes are ordinary values.  \<open>malloc\<close>, \<open>fopen\<close>, \<open>rand\<close>, \<open>read\<close> and
  \<open>write\<close> are arguments: what they return is given with the call.  Loops are recursive functions with a
  measure; a loop that nothing in the code bounds is a \<open>partial_function\<close>, where \<open>None\<close> also stands
  for not returning, and a theorem says that it returns (\<open>balance_terminates\<close>,
  \<open>ball_clock_prints_33120\<close>, \<open>heap_sorts_its_inserts\<close>) or that it does not
  (\<open>insert_below_sentinel_never_returns\<close>).

  What the lemmas show.

  \<^item> Sorting and searching: every entry point sorts the given segment, is a permutation and leaves the rest of
    the array; the limits (100 cells of the recursive merge sort) and the defects of the searches.
  \<^item> Containers: each operation refines an operation on a list, a multiset or a tree; deletions free what
    they remove and change nothing else; trees stay ordered, their traversals are those of the
    abstract tree, saved trees are read back.
  \<^item> Programs: the calculator evaluates its expressions, the clock stops, the game never leaves its
    arrays, the scanner decides balanced text, the conversion to prefix notation keeps the value.
  \<^item> System modules: a waiting caller is woken after the right number of alarms and periodic jobs are called at
    the right seconds; the relayer carries bytes in order; a token bucket limits the rate and does not starve a caller,
    and the program on top of it copies the file at that rate; the relayers that wait never block and serve who is
    ready, with the cases where they do not.
  \<^item> Threads: for every interleaving, the pipe is a stream, the pool and the prime search do every task once, no
    wakeup is lost and no state is a deadlock, with the cases in which the code does not live up to it.
  \<^item> Processes and files: the file transfer delivers the file, or a beginning of it when datagrams are lost; the
    server keeps to its table and its limits; deleting a line ends, and for which files it is right; no update of the
    counter in a file is lost; \<open>ybx_getline\<close> returns every line that a newline ends.

  Bounds.  The doubling of the merge sort is modelled for arrays below \<open>2 ^ 30\<close> elements.  Addresses of
  the heap of \<open>LinkedList\<close> come from a counter and are not used again after \<open>free\<close>, so that every use after
  \<open>free\<close> is seen.  \<open>Malloc\<close> works on words of eight bytes, since all its sizes are multiples of eight.  The
  waiting functions of \<open>AnyTimer\<close> take the alarms, or the steps of the other threads, that still
  come: the theorems say how many are enough.  In \<open>MyFtp\<close> the faults of the network and of the system calls
  are a parameter of the step relation, so that each theorem names those it allows.  The counts of bytes of \<open>Relayer\<close> (64 bits) are not wrapped.

  Not modelled.  In \<open>Tetris\<close> a timer signal is taken between two keys and not inside a function.  The
  mutexes of the threaded modules make each operation one step, but for waiting on a condition.  A job function
  of \<open>AnyTimer\<close> does not call the module.  Left out altogether: memcached, libevent and the
  samples of textbooks, which are third-party code; the exercises on the language and on single system calls,
  which keep no state; generated build files.  Of components that the repository has several times over (lists, queues,
  sorts, relayers, token buckets) one version is modelled, or those that differ in behaviour.
\<close>

end
